(* ===== verification/Prelude.thy ===== *)
theory Prelude
  imports Main "HOL-Library.Word" "HOL-Library.Char_ord" "HOL-Library.List_Lexorder"
    "HOL-Library.Sublist"
begin

text \<open>
  Shared vocabulary of the development: bytes and byte strings, the error-or-value bind
  that every fallible Go function is written with, big-endian digits, and the facts about
  byte-lexicographic order and prefixes on which every cursor scan of the database rests.

  A Go \<open>byte\<close> is an Isabelle \<open>char\<close> (both are exactly eight bits), so a Go \<open>string\<close> and a
  Go \<open>[]byte\<close> are both \<open>char list\<close>, and the conversions between them are the identity.
  The order on \<open>char list\<close> is the byte-lexicographic one of \<open>bytes.Compare\<close>.
\<close>

named_theorems enc_simps \<open>defining equations of the key and record encodings\<close>
named_theorems db_defs \<open>unfolding rules of the small database accessors\<close>
named_theorems tx_simps \<open>effect of bucket operations on the buckets of a transaction\<close>

type_synonym byte = char
type_synonym bytes = "char list"
type_synonym u32 = "32 word"
type_synonym u64 = "64 word"

section \<open>Errors as values\<close>

definition ebind :: "'e + 'a \<Rightarrow> ('a \<Rightarrow> 'e + 'b) \<Rightarrow> 'e + 'b" where
  "ebind m f = (case m of Inl e \<Rightarrow> Inl e | Inr x \<Rightarrow> f x)"

lemma ebind_simps [simp]:
  "ebind (Inl e) f = Inl e" "ebind (Inr x) f = f x"
  by (simp_all add: ebind_def)

lemma ebind_eq_Inr [simp]: "ebind m f = Inr y \<longleftrightarrow> (\<exists>x. m = Inr x \<and> f x = Inr y)"
  by (cases m) auto

lemma ebind_eq_Inl: "ebind m f = Inl e \<longleftrightarrow> m = Inl e \<or> (\<exists>x. m = Inr x \<and> f x = Inl e)"
  by (cases m) auto

text \<open>A Go loop whose body may return an error: it stops at the first one.\<close>

fun efold :: "('a \<Rightarrow> 's \<Rightarrow> 'e + 's) \<Rightarrow> 'a list \<Rightarrow> 's \<Rightarrow> 'e + 's" where
  "efold f [] s = Inr s"
| "efold f (x # xs) s = ebind (f x s) (efold f xs)"

lemma efold_append: "efold f (xs @ ys) s = ebind (efold f xs s) (efold f ys)"
  by (induction xs arbitrary: s) (auto simp: ebind_def split: sum.splits)

lemma efold_cong: "(\<And>x s. x \<in> set xs \<Longrightarrow> f x s = g x s) \<Longrightarrow> efold f xs s = efold g xs s"
  by (induction xs arbitrary: s) (auto intro!: arg_cong [of _ _ "ebind _"] ext)

lemma efold_invariant:
  assumes "efold f xs s = Inr s'" and "P s"
    and "\<And>x s s'. x \<in> set xs \<Longrightarrow> P s \<Longrightarrow> f x s = Inr s' \<Longrightarrow> P s'"
  shows "P s'"
  using assms by (induction xs arbitrary: s) auto

fun emapM :: "('a \<Rightarrow> 'e + 'b) \<Rightarrow> 'a list \<Rightarrow> 'e + 'b list" where
  "emapM f [] = Inr []"
| "emapM f (x # xs) = ebind (f x) (\<lambda>y. ebind (emapM f xs) (\<lambda>ys. Inr (y # ys)))"

lemma emapM_Inr_iff: "emapM f xs = Inr ys \<longleftrightarrow> list_all2 (\<lambda>x y. f x = Inr y) xs ys"
  by (induction xs arbitrary: ys) (auto simp: list_all2_Cons1)

section \<open>Big-endian digits\<close>

fun be :: "nat \<Rightarrow> nat \<Rightarrow> bytes" where
  "be 0 v = []"
| "be (Suc n) v = be n (v div 256) @ [char_of v]"

definition unbe :: "bytes \<Rightarrow> nat" where
  "unbe bs = foldl (\<lambda>a c. 256 * a + of_char c) 0 bs"

lemma length_be [simp]: "length (be n v) = n"
  by (induction n arbitrary: v) auto

lemma be_map: "be n v = map (\<lambda>i. char_of (v div 256 ^ i)) (rev [0..<n])"
proof (induction n arbitrary: v)
  case (Suc n)
  have "[0..<Suc n] = 0 # map Suc [0..<n]"
    by (simp add: map_Suc_upt upt_conv_Cons del: upt_Suc)
  then have "rev [0..<Suc n] = map Suc (rev [0..<n]) @ [0]"
    by (simp only: rev.simps rev_map)
  then show ?case by (simp add: Suc div_mult2_eq del: upt_Suc)
qed simp

lemma unbe_Nil [simp]: "unbe [] = 0"
  by (simp add: unbe_def)

lemma unbe_snoc [simp]: "unbe (bs @ [c]) = 256 * unbe bs + of_char c"
  by (simp add: unbe_def)

lemma of_char_less_256 [simp]: "of_char c < (256 :: nat)"
  using of_char_mod_256 [of c, where 'a = nat] by (metis mod_less_divisor zero_less_numeral)

lemma of_char_le_255: "of_char c \<le> (255 :: nat)"
  using of_char_less_256 [of c] by linarith

lemma unbe_be: "unbe (be n v) = v mod 256 ^ n"
proof (induction n arbitrary: v)
  case 0
  then show ?case by simp
next
  case (Suc n)
  have "unbe (be (Suc n) v) = 256 * (v div 256 mod 256 ^ n) + v mod 256"
    by (simp add: Suc.IH)
  also have "\<dots> = v mod (256 * 256 ^ n)"
    by (simp add: mod_mult2_eq)
  finally show ?case by simp
qed

lemma unbe_bound: "unbe bs < 256 ^ length bs"
proof (induction bs rule: rev_induct)
  case Nil
  then show ?case by simp
next
  case (snoc c bs)
  then have "256 * unbe bs + of_char c < 256 * 256 ^ length bs"
    using of_char_less_256 [of c] by linarith
  then show ?case by simp
qed

lemma be_unbe: "be (length bs) (unbe bs) = bs"
proof (induction bs rule: rev_induct)
  case (snoc c bs)
  have "(256 * unbe bs + of_char c) div 256 = unbe bs"
    using of_char_less_256 [of c] by simp
  moreover have "char_of (256 * unbe bs + of_char c) = c"
    by (metis char_of_char char_of_mod_256 mod_mult_self4 of_char_mod_256)
  ultimately show ?case using snoc by simp
qed simp

lemma be_inject: "a < 256 ^ n \<Longrightarrow> b < 256 ^ n \<Longrightarrow> be n a = be n b \<longleftrightarrow> a = b"
  by (metis mod_less unbe_be)

section \<open>Byte-lexicographic order and prefixes\<close>

lemma append_less_same_length:
  fixes xs ys :: "'a::linorder list"
  assumes "length xs = length ys"
  shows "xs @ us < ys @ vs \<longleftrightarrow> xs < ys \<or> (xs = ys \<and> us < vs)"
  using assms by (induction xs ys rule: list_induct2) auto

lemma be_less_iff: "a < 256 ^ n \<Longrightarrow> b < 256 ^ n \<Longrightarrow> be n a < be n b \<longleftrightarrow> a < b"
proof (induction n arbitrary: a b)
  case (Suc n)
  have ab: "a div 256 < 256 ^ n" "b div 256 < 256 ^ n"
    using Suc.prems by (simp_all add: less_mult_imp_div_less mult.commute)
  have "be (Suc n) a < be (Suc n) b \<longleftrightarrow>
      be n (a div 256) < be n (b div 256) \<or>
      (be n (a div 256) = be n (b div 256) \<and> [char_of a] < [char_of b :: char])"
    by (simp add: append_less_same_length)
  also have "\<dots> \<longleftrightarrow> a div 256 < b div 256 \<or> (a div 256 = b div 256 \<and> a mod 256 < b mod 256)"
    using Suc.IH [OF ab] be_inject [OF ab] by (simp add: less_char_def)
  also have "\<dots> \<longleftrightarrow> a < b"
    using div_mult_mod_eq [of a 256] div_mult_mod_eq [of b 256]
      mod_less_divisor [of 256 a] mod_less_divisor [of 256 b] by linarith
  finally show ?case .
qed simp

lemma prefix_le: "prefix p k \<Longrightarrow> (p :: 'a::linorder list) \<le> k"
proof (induction p arbitrary: k)
  case (Cons a p)
  then show ?case by (cases k) auto
qed simp

lemma prefix_interval:
  fixes p :: "'a::linorder list"
  assumes "p \<le> k" and "k \<le> k'" and "prefix p k'"
  shows "prefix p k"
  using assms
proof (induction p arbitrary: k k')
  case (Cons a p)
  from Cons.prems(3) obtain ks' where k': "k' = a # ks'" "prefix p ks'"
    by (cases k') auto
  from Cons.prems(1) obtain b ks where k: "k = b # ks"
    by (cases k) auto
  with Cons.prems k' have "b = a" and "p \<le> ks" and "ks \<le> ks'"
    by auto
  with k k' Cons.IH show ?case by simp
qed simp

text \<open>
  The loop \<open>for k, v := c.Seek(prefix); k != nil && bytes.HasPrefix(k, prefix); k, v = c.Next()\<close>
  visits exactly the pairs whose key has the prefix, in key order, provided the cursor runs
  through the bucket in strictly ascending key order.
\<close>

lemma seek_scan_filter:
  fixes xs :: "('a::linorder list \<times> 'v) list"
  assumes "sorted_wrt (<) (map fst xs)"
  shows "takeWhile (\<lambda>kv. prefix p (fst kv)) (dropWhile (\<lambda>kv. fst kv < p) xs)
       = filter (\<lambda>kv. prefix p (fst kv)) xs"
  using assms
proof (induction xs)
  case (Cons x xs)
  have IH: "takeWhile (\<lambda>kv. prefix p (fst kv)) (dropWhile (\<lambda>kv. fst kv < p) xs)
       = filter (\<lambda>kv. prefix p (fst kv)) xs"
    using Cons by simp
  have gt: "fst x < fst y" if "y \<in> set xs" for y
    using Cons.prems that by auto
  show ?case
  proof (cases "fst x < p")
    case True
    then have "\<not> prefix p (fst x)" using prefix_le [of p "fst x"] by auto
    with True IH show ?thesis by simp
  next
    case False
    have nodrop: "dropWhile (\<lambda>kv. fst kv < p) xs = xs"
      using False gt by (cases xs) force+
    show ?thesis
    proof (cases "prefix p (fst x)")
      case True
      with False IH nodrop show ?thesis by simp
    next
      case False
      have "\<not> prefix p (fst y)" if "y \<in> set xs" for y
        using prefix_interval [of p "fst x" "fst y"] gt [OF that] False \<open>\<not> fst x < p\<close>
        by (auto simp: not_less dest: less_imp_le)
      then show ?thesis using False \<open>\<not> fst x < p\<close> by (simp add: filter_empty_conv)
    qed
  qed
qed simp

section \<open>Association lists as finite maps\<close>

lemma map_of_nth_key: "distinct (map fst xs) \<Longrightarrow> i < length xs \<Longrightarrow> map_of xs (fst (xs ! i)) = Some (snd (xs ! i))"
  by (metis map_of_is_SomeI nth_mem prod.collapse)

lemma alist_rebuild: "distinct (map fst xs) \<Longrightarrow> xs = map (\<lambda>k. (k, the (map_of xs k))) (map fst xs)"
  by (rule nth_equalityI) (simp_all add: map_of_nth_key prod_eq_iff)

lemma sorted_alist_eqI:
  fixes xs ys :: "('a::linorder \<times> 'v) list"
  assumes "sorted_wrt (<) (map fst xs)" and "sorted_wrt (<) (map fst ys)" and "map_of xs = map_of ys"
  shows "xs = ys"
proof -
  have "set (map fst xs) = set (map fst ys)"
    using assms(3) by (metis dom_map_of_conv_image_fst list.set_map)
  then have "map fst xs = map fst ys"
    using assms(1,2) strict_sorted_equal by blast
  with assms show ?thesis
    by (metis alist_rebuild strict_sorted_iff)
qed

lemma map_of_filter_key: "P k \<Longrightarrow> map_of (filter (\<lambda>kv. P (fst kv)) xs) k = map_of xs k"
  by (induction xs) auto

lemma sorted_keys_distinct: "sorted_wrt (<) (map fst (xs :: ('a::linorder \<times> 'v) list)) \<Longrightarrow> distinct (map fst xs)"
  by (simp add: strict_sorted_iff)

section \<open>64-bit counters\<close>

lemma unat_u64_succ: "(x :: u64) \<noteq> - 1 \<Longrightarrow> unat (x + 1) = Suc (unat x)"
proof -
  assume "x \<noteq> - 1"
  moreover have "unat x < 2 ^ 64" using unsigned_less [of x] by simp
  moreover have "unat x \<noteq> unat (- 1 :: u64)" using \<open>x \<noteq> - 1\<close> unsigned_word_eqI by blast
  then have "unat x \<noteq> 2 ^ 64 - 1" by (simp add: unsigned_minus_1_eq_mask mask_eq_exp_minus_1)
  ultimately have "unat x + 1 < 2 ^ 64" by linarith
  then show ?thesis by (simp add: unat_word_ariths)
qed

lemma u64_less_succ: "(x :: u64) \<noteq> - 1 \<Longrightarrow> x < x + 1"
  by (simp add: word_less_nat_alt unat_u64_succ)

end
