(* ===== verification/Go_Lib.thy ===== *)
theory Go_Lib
  imports Prelude
begin

text \<open>
  The parts of the Go standard library the database calls: \<open>encoding/binary\<close> (big- and
  little-endian integers), \<open>hash/crc32\<close> with the Castagnoli polynomial, \<open>hash/fnv\<close>
  (128-bit FNV-1a) and decimal rendering of integers. Reading an integer from a slice that
  is too short panics in Go; here it is \<open>None\<close>.
\<close>

unbundle bit_operations_syntax

section \<open>encoding/binary\<close>

definition BE_PutUint64 :: "u64 \<Rightarrow> bytes" where
  "BE_PutUint64 v = be 8 (unat v)"

definition BE_PutUint32 :: "u32 \<Rightarrow> bytes" where
  "BE_PutUint32 v = be 4 (unat v)"

definition BE_Uint64 :: "bytes \<Rightarrow> u64 option" where
  "BE_Uint64 b = (if length b < 8 then None else Some (word_of_nat (unbe (take 8 b))))"

definition BE_Uint32 :: "bytes \<Rightarrow> u32 option" where
  "BE_Uint32 b = (if length b < 4 then None else Some (word_of_nat (unbe (take 4 b))))"

definition LE_PutUint64 :: "u64 \<Rightarrow> bytes" where
  "LE_PutUint64 v = rev (be 8 (unat v))"

definition LE_Uint64 :: "bytes \<Rightarrow> u64 option" where
  "LE_Uint64 b = (if length b < 8 then None else Some (word_of_nat (unbe (rev (take 8 b)))))"

lemma length_BE_Put [simp]: "length (BE_PutUint64 v) = 8" "length (BE_PutUint32 w) = 4"
  by (simp_all add: BE_PutUint64_def BE_PutUint32_def)

lemma BE_Put_nonempty [simp]: "BE_PutUint64 v \<noteq> []" "BE_PutUint32 w \<noteq> []"
  using length_BE_Put by (metis list.size(3) zero_neq_numeral)+

lemma unat_u64_bound: "unat (v :: u64) < 256 ^ 8"
  using unsigned_less [of v] by simp

lemma unat_u32_bound: "unat (v :: u32) < 256 ^ 4"
  using unsigned_less [of v] by simp

lemma BE_Uint64_Put [simp]: "BE_Uint64 (BE_PutUint64 v @ r) = Some v"
  using unat_u64_bound [of v] by (simp add: BE_Uint64_def BE_PutUint64_def unbe_be)

lemma BE_Uint64_Put_Nil [simp]: "BE_Uint64 (BE_PutUint64 v) = Some v"
  using BE_Uint64_Put [of v "[]"] by simp

lemma BE_Uint32_Put [simp]: "BE_Uint32 (BE_PutUint32 v @ r) = Some v"
  using unat_u32_bound [of v] by (simp add: BE_Uint32_def BE_PutUint32_def unbe_be)

lemma BE_Uint32_Put_Nil [simp]: "BE_Uint32 (BE_PutUint32 v) = Some v"
  using BE_Uint32_Put [of v "[]"] by simp

lemma BE_PutUint64_inject [simp]: "BE_PutUint64 a = BE_PutUint64 b \<longleftrightarrow> a = b"
  by (metis BE_Uint64_Put_Nil option.inject)

lemma BE_PutUint32_inject [simp]: "BE_PutUint32 a = BE_PutUint32 b \<longleftrightarrow> a = b"
  by (metis BE_Uint32_Put_Nil option.inject)

lemma BE_PutUint64_less [simp]: "BE_PutUint64 a < BE_PutUint64 b \<longleftrightarrow> a < b"
  unfolding BE_PutUint64_def word_less_nat_alt
  by (rule be_less_iff [OF unat_u64_bound unat_u64_bound])

lemma BE_PutUint64_of_8:
  assumes "length b = 8" and "BE_Uint64 b = Some v"
  shows "b = BE_PutUint64 v"
proof -
  have "unat v = unbe b"
    using assms unbe_bound [of b] by (auto simp: BE_Uint64_def unat_of_nat)
  with assms(1) show ?thesis
    using be_unbe [of b] by (simp add: BE_PutUint64_def)
qed

lemma BE_PutUint32_surj:
  assumes "length b = 4"
  shows "\<exists>w. b = BE_PutUint32 w"
proof
  have "unat (word_of_nat (unbe b) :: u32) = unbe b"
    using assms unbe_bound [of b] by (simp add: unat_of_nat)
  then show "b = BE_PutUint32 (word_of_nat (unbe b))"
    using be_unbe [of b] assms by (simp add: BE_PutUint32_def)
qed

lemma BE_Uint64_total: "8 \<le> length b \<Longrightarrow> \<exists>v. BE_Uint64 b = Some v"
  by (simp add: BE_Uint64_def)

section \<open>hash/crc32 (Castagnoli)\<close>

definition castagnoli :: u32 where
  "castagnoli = 0x82F63B78"

definition crc_bit :: "u32 \<Rightarrow> u32" where
  "crc_bit c = (if bit c 0 then drop_bit 1 c XOR castagnoli else drop_bit 1 c)"

definition byte_u32 :: "byte \<Rightarrow> u32" where
  "byte_u32 b = word_of_nat (of_char b)"

definition crc_step :: "u32 \<Rightarrow> byte \<Rightarrow> u32" where
  "crc_step c b = (crc_bit ^^ 8) (c XOR byte_u32 b)"

definition crc32_Checksum :: "bytes \<Rightarrow> u32" where
  "crc32_Checksum bs = NOT (foldl crc_step (NOT 0) bs)"

text \<open>
  The polynomial has its top bit set, so one bit step is a bijection of the register: two
  registers that differ before a byte still differ after it. One changed byte therefore
  always changes the checksum.
\<close>

lemma xor_cancel_right: "(a :: 'a::len word) XOR k = b XOR k \<longleftrightarrow> a = b"
proof
  assume "a XOR k = b XOR k"
  then have "(a XOR k) XOR k = (b XOR k) XOR k" by simp
  then show "a = b" by (simp add: xor.assoc)
qed simp

lemma xor_cancel_left: "(k :: 'a::len word) XOR a = k XOR b \<longleftrightarrow> a = b"
  by (simp add: xor.commute [of k] xor_cancel_right)

lemma crc_bit_top: "bit (crc_bit c) 31 \<longleftrightarrow> bit c 0"
  using bit_imp_le_length [of c 32]
  by (auto simp: crc_bit_def castagnoli_def bit_xor_iff bit_drop_bit_eq)

lemma inj_crc_bit: "inj crc_bit"
proof (rule injI)
  fix a b :: u32
  assume eq: "crc_bit a = crc_bit b"
  then have b0: "bit a 0 \<longleftrightarrow> bit b 0" using crc_bit_top by metis
  with eq have "drop_bit 1 a = drop_bit 1 b"
    by (cases "bit b 0") (simp_all add: crc_bit_def xor_cancel_right)
  then have rest: "bit a (Suc n) = bit b (Suc n)" for n
    by (metis bit_drop_bit_eq comp_apply plus_1_eq_Suc)
  show "a = b"
  proof (rule bit_eqI)
    fix n show "bit a n = bit b n" using b0 rest by (cases n) auto
  qed
qed

lemma inj_crc_step: "inj (\<lambda>c. crc_step c b)"
proof (rule injI)
  fix x y assume "crc_step x b = crc_step y b"
  then have "x XOR byte_u32 b = y XOR byte_u32 b"
    using inj_fn [OF inj_crc_bit, of 8] by (auto simp: crc_step_def dest: injD)
  then show "x = y" by (simp add: xor_cancel_right)
qed

lemma byte_u32_inject: "byte_u32 a = byte_u32 b \<longleftrightarrow> a = b"
proof
  assume "byte_u32 a = byte_u32 b"
  then have "unat (byte_u32 a) = unat (byte_u32 b)" by simp
  then have "(of_char a :: nat) = of_char b"
    using of_char_less_256 [of a] of_char_less_256 [of b]
    by (simp add: byte_u32_def unat_of_nat)
  then show "a = b" by (metis char_of_char)
qed simp

lemma crc_step_byte_differs: "a \<noteq> b \<Longrightarrow> crc_step c a \<noteq> crc_step c b"
proof
  assume "a \<noteq> b" and "crc_step c a = crc_step c b"
  then have "c XOR byte_u32 a = c XOR byte_u32 b"
    using inj_fn [OF inj_crc_bit, of 8] by (auto simp: crc_step_def dest: injD)
  then have "byte_u32 a = byte_u32 b"
    by (simp add: xor_cancel_left)
  with \<open>a \<noteq> b\<close> show False by (simp add: byte_u32_inject)
qed

lemma foldl_crc_inj: "foldl crc_step x bs = foldl crc_step y bs \<longleftrightarrow> x = y"
  by (induction bs arbitrary: x y) (auto dest: injD [OF inj_crc_step])

lemma crc32_one_byte:
  assumes "a \<noteq> b"
  shows "crc32_Checksum (us @ a # vs) \<noteq> crc32_Checksum (us @ b # vs)"
proof -
  have "crc_step (foldl crc_step (NOT 0) us) a \<noteq> crc_step (foldl crc_step (NOT 0) us) b"
    using assms by (rule crc_step_byte_differs)
  then have "foldl crc_step (NOT 0) (us @ a # vs) \<noteq> foldl crc_step (NOT 0) (us @ b # vs)"
    by (simp add: foldl_crc_inj)
  then show ?thesis by (simp add: crc32_Checksum_def)
qed

section \<open>hash/fnv: New128a\<close>

definition fnv128a_step :: "128 word \<Rightarrow> byte \<Rightarrow> 128 word" where
  "fnv128a_step h b = (h XOR word_of_nat (of_char b)) * 0x0000000001000000000000000000013B"

definition fnv128a :: "bytes \<Rightarrow> bytes" where
  "fnv128a bs = be 16 (unat (foldl fnv128a_step 0x6c62272e07bb014262b821756295c58d bs))"

lemma length_fnv128a [simp]: "length (fnv128a bs) = 16"
  by (simp add: fnv128a_def)

section \<open>Decimal rendering\<close>

fun utoa :: "nat \<Rightarrow> string" where
  "utoa n = (if n < 10 then [char_of (48 + n)] else utoa (n div 10) @ [char_of (48 + n mod 10)])"

declare utoa.simps [simp del]

definition itoa :: "int \<Rightarrow> string" where
  "itoa i = (if i < 0 then CHR ''-'' # utoa (nat (- i)) else utoa (nat i))"

definition digit_val :: "char \<Rightarrow> nat" where
  "digit_val c = of_char c - 48"

definition undigits :: "string \<Rightarrow> nat" where
  "undigits s = foldl (\<lambda>a c. 10 * a + digit_val c) 0 s"

lemma digit_val_char [simp]: "d < 10 \<Longrightarrow> digit_val (char_of (48 + d)) = d"
  by (simp add: digit_val_def)

lemma undigits_snoc [simp]: "undigits (s @ [c]) = 10 * undigits s + digit_val c"
  by (simp add: undigits_def)

lemma undigits_utoa: "undigits (utoa n) = n"
proof (induction n rule: utoa.induct)
  case (1 n)
  show ?case
  proof (cases "n < 10")
    case True
    then show ?thesis by (simp add: utoa.simps [of n] undigits_def)
  next
    case False
    with 1 show ?thesis by (simp add: utoa.simps [of n])
  qed
qed

lemma utoa_inject: "utoa a = utoa b \<longleftrightarrow> a = b"
  by (metis undigits_utoa)

end
