(* ===== verification/Types.thy ===== *)
theory Types
  imports Go_Lib
begin

text \<open>
  The data model of types.go: identifiers, dynamic property values, nodes, edges, directions,
  and the errors of the package as one datatype. A Go map with string keys is an association
  list read through \<open>map_of\<close>; a nil map and an empty one are both \<open>[]\<close>.
\<close>

type_synonym NodeID = u64
type_synonym EdgeID = u64

text \<open>
  Dynamic types of an \<open>interface{}\<close> holding an integer. MessagePack decoding may narrow an
  integer (an \<open>int\<close> comes back as an \<open>int8\<close>), so the kind is part of the value. A float64
  is its IEEE-754 bit pattern.
\<close>

datatype ikind = K_int | K_int8 | K_int16 | K_int32 | K_int64
  | K_uint | K_uint8 | K_uint16 | K_uint32 | K_uint64

datatype val =
    VNil
  | VBool bool
  | VInt ikind int
  | VFloat u64
  | VStr string
  | VList "val list"
  | VMap "(string \<times> val) list"

type_synonym Props = "(string \<times> val) list"

datatype Direction = Outgoing | Incoming | Both

record Node =
  n_id :: NodeID
  n_labels :: "string list"
  n_props :: Props

record Edge =
  e_id :: EdgeID
  e_from :: NodeID
  e_to :: NodeID
  e_label :: string
  e_props :: Props

datatype gerr =
    ErrClosed
  | ErrReadOnlyReplica
  | ErrNodeNotFound NodeID
  | ErrEdgeNotFound EdgeID
  | ErrUniqueConstraintViolation string string string NodeID
  | ErrPropsTooShort
  | ErrPropsChecksum u32 u32
  | ErrEdgeTooShort nat
  | ErrEdgePayloadTooShort nat
  | ErrEdgeCorrupted
  | ErrMarshal
  | ErrUnmarshal
  | ErrBolt string
  | ErrWriteQueueFull
  | ErrPanic
  | ErrMsg string
  | ErrWrap string gerr

section \<open>Reading properties (types.go)\<close>

definition Node_Get :: "Node \<Rightarrow> string \<Rightarrow> val option" where
  "Node_Get n key = map_of (n_props n) key"

definition GetString :: "Node \<Rightarrow> string \<Rightarrow> string" where
  "GetString n key = (case map_of (n_props n) key of Some (VStr s) \<Rightarrow> s | _ \<Rightarrow> [])"

definition Edge_String :: "Edge \<Rightarrow> string" where
  "Edge_String e = ''('' @ utoa (unat (e_from e)) @ '')--'' @ e_label e @ ''-->('' @
     utoa (unat (e_to e)) @ '')''"

section \<open>fmt.Sprintf with verb v\<close>

text \<open>
  The text of a value under \<open>%v\<close>. Maps print with their keys sorted; the text of a float64 is
  a parameter, because only its being a function of the value matters here.
\<close>

fun join :: "string \<Rightarrow> string list \<Rightarrow> string" where
  "join sep [] = []"
| "join sep [x] = x"
| "join sep (x # y # xs) = x @ sep @ join sep (y # xs)"

primrec fmtV :: "(u64 \<Rightarrow> string) \<Rightarrow> val \<Rightarrow> string" where
  "fmtV ff VNil = ''<nil>''"
| "fmtV ff (VBool b) = (if b then ''true'' else ''false'')"
| "fmtV ff (VInt k i) = itoa i"
| "fmtV ff (VFloat w) = ff w"
| "fmtV ff (VStr s) = s"
| "fmtV ff (VList vs) = ''['' @ join '' '' (map (fmtV ff) vs) @ '']''"
| "fmtV ff (VMap kvs) =
     ''map['' @ join '' '' (map (\<lambda>kt. fst kt @ '':'' @ snd kt)
       (sort_key fst (map (map_prod id (fmtV ff)) kvs))) @ '']''"

section \<open>Property maps\<close>

text \<open>\<open>for k, v := range props { old[k] = v }\<close>\<close>

definition props_merge :: "Props \<Rightarrow> Props \<Rightarrow> Props" where
  "props_merge old new = new @ filter (\<lambda>kv. map_of new (fst kv) = None) old"

lemma map_of_props_merge: "map_of (props_merge old new) = map_of old ++ map_of new"
proof
  fix k
  have "map_of (filter (\<lambda>kv. map_of new (fst kv) = None) old) k =
      (if map_of new k = None then map_of old k else None)"
    by (induction old) auto
  then show "map_of (props_merge old new) k = (map_of old ++ map_of new) k"
    by (auto simp: props_merge_def map_add_def split: option.splits)
qed

definition same_text :: "(u64 \<Rightarrow> string) \<Rightarrow> Props \<Rightarrow> Props \<Rightarrow> bool" where
  "same_text ff p q \<longleftrightarrow>
     (\<forall>k. map_option (fmtV ff) (map_of p k) = map_option (fmtV ff) (map_of q k))"

lemma same_text_refl [simp]: "same_text ff p p"
  by (simp add: same_text_def)

lemma same_text_sym: "same_text ff p q \<Longrightarrow> same_text ff q p"
  by (simp add: same_text_def)

lemma same_text_trans: "same_text ff p q \<Longrightarrow> same_text ff q r \<Longrightarrow> same_text ff p r"
  by (simp add: same_text_def)

lemma same_text_keys: "same_text ff p q \<Longrightarrow> fst ` set p = fst ` set q"
proof -
  assume a: "same_text ff p q"
  have "map_of p k = None \<longleftrightarrow> map_of q k = None" for k
  proof -
    have "map_option (fmtV ff) (map_of p k) = map_option (fmtV ff) (map_of q k)"
      using a by (simp add: same_text_def)
    then show ?thesis by (metis option.map_disc_iff)
  qed
  then have "k \<in> fst ` set p \<longleftrightarrow> k \<in> fst ` set q" for k
    by (metis map_of_eq_None_iff)
  then show ?thesis by blast
qed

section \<open>The MessagePack and JSON codecs as parameters\<close>

text \<open>
  \<open>github.com/vmihailenco/msgpack\<close> is not part of the repository, and the JSON decoder is only
  the fallback for records of an old format. Both are parameters of every definition that calls
  them. What the database relies on is that a record that was written can be read again with the
  same keys, each value printing the same (an integer may come back with another Go type), and
  that label lists come back unchanged.
\<close>

record codec =
  c_marshal_props :: "Props \<Rightarrow> gerr + bytes"
  c_unmarshal_props :: "bytes \<Rightarrow> gerr + Props"
  c_json_props :: "bytes \<Rightarrow> gerr + Props"
  c_marshal_labels :: "string list \<Rightarrow> gerr + bytes"
  c_unmarshal_labels :: "bytes \<Rightarrow> gerr + string list"
  c_fmt_float :: "u64 \<Rightarrow> string"

abbreviation fmtv :: "codec \<Rightarrow> val \<Rightarrow> string" where
  "fmtv C \<equiv> fmtV (c_fmt_float C)"

abbreviation text_eq :: "codec \<Rightarrow> Props \<Rightarrow> Props \<Rightarrow> bool" where
  "text_eq C \<equiv> same_text (c_fmt_float C)"

locale codec_laws =
  fixes C :: codec
  assumes props_roundtrip:
      "c_marshal_props C p = Inr b \<Longrightarrow> \<exists>q. c_unmarshal_props C b = Inr q \<and> text_eq C p q"
    and labels_roundtrip: "c_marshal_labels C ls = Inr b \<Longrightarrow> c_unmarshal_labels C b = Inr ls"
    and labels_nonempty: "c_marshal_labels C ls = Inr b \<Longrightarrow> b \<noteq> []"

section \<open>A concrete codec\<close>

text \<open>
  A small codec that meets the laws: it encodes property maps whose values are strings, each
  byte escaped with 0x01 and each string ended with 0x00, and refuses any other value. It is
  what closed instances of the theorems are evaluated with.
\<close>

definition esc :: "string \<Rightarrow> bytes" where
  "esc s = concat (map (\<lambda>c. [CHR 0x01, c]) s) @ [CHR 0x00]"

fun unesc :: "bytes \<Rightarrow> (string \<times> bytes) option" where
  "unesc (t # r) =
     (if t = CHR 0x00 then Some ([], r)
      else (case r of [] \<Rightarrow> None
            | c # r' \<Rightarrow> (case unesc r' of None \<Rightarrow> None | Some (s, r'') \<Rightarrow> Some (c # s, r''))))"
| "unesc [] = None"

lemma unesc_esc [simp]: "unesc (esc s @ r) = Some (s, r)"
  by (induction s) (auto simp: esc_def)

lemma unesc_shorter: "unesc b = Some (s, r) \<Longrightarrow> length r < length b"
  by (induction b arbitrary: s r rule: unesc.induct)
     (force split: if_splits list.splits option.splits)+

definition enc_strs :: "string list \<Rightarrow> bytes" where
  "enc_strs ss = concat (map (\<lambda>s. CHR 0x02 # esc s) ss) @ [CHR 0x03]"

fun dec_strs :: "nat \<Rightarrow> bytes \<Rightarrow> string list option" where
  "dec_strs 0 b = None"
| "dec_strs (Suc n) [] = None"
| "dec_strs (Suc n) (t # r) =
     (if t = CHR 0x03 then Some []
      else (case unesc r of None \<Rightarrow> None
            | Some (s, r') \<Rightarrow> map_option (Cons s) (dec_strs n r')))"

lemma dec_enc_strs: "length ss < n \<Longrightarrow> dec_strs n (enc_strs ss) = Some ss"
proof (induction ss arbitrary: n)
  case Nil
  then show ?case by (cases n) (auto simp: enc_strs_def)
next
  case (Cons s ss)
  then obtain m where n: "n = Suc m" and "length ss < m" by (cases n) auto
  then have "dec_strs m (enc_strs ss) = Some ss" using Cons.IH by simp
  then show ?case by (simp add: n enc_strs_def)
qed

lemma length_enc_strs: "length ss < length (enc_strs ss)"
  by (induction ss) (auto simp: enc_strs_def)

fun strs_of_props :: "Props \<Rightarrow> string list option" where
  "strs_of_props [] = Some []"
| "strs_of_props ((k, VStr s) # r) = map_option (\<lambda>l. k # s # l) (strs_of_props r)"
| "strs_of_props _ = None"

fun props_of_strs :: "string list \<Rightarrow> Props option" where
  "props_of_strs [] = Some []"
| "props_of_strs (k # s # l) = map_option (Cons (k, VStr s)) (props_of_strs l)"
| "props_of_strs _ = None"

lemma props_of_strs_of_props: "strs_of_props p = Some l \<Longrightarrow> props_of_strs l = Some p"
  by (induction p arbitrary: l rule: strs_of_props.induct) auto

definition str_codec :: codec where
  "str_codec = \<lparr>
     c_marshal_props = (\<lambda>p. case strs_of_props p of None \<Rightarrow> Inl ErrMarshal
                                | Some l \<Rightarrow> Inr (enc_strs l)),
     c_unmarshal_props = (\<lambda>b. case dec_strs (length b) b of None \<Rightarrow> Inl ErrUnmarshal
                                | Some l \<Rightarrow> (case props_of_strs l of None \<Rightarrow> Inl ErrUnmarshal
                                             | Some p \<Rightarrow> Inr p)),
     c_json_props = (\<lambda>b. Inl ErrUnmarshal),
     c_marshal_labels = (\<lambda>ls. Inr (enc_strs ls)),
     c_unmarshal_labels = (\<lambda>b. case dec_strs (length b) b of None \<Rightarrow> Inl ErrUnmarshal
                                | Some l \<Rightarrow> Inr l),
     c_fmt_float = (\<lambda>w. utoa (unat w)) \<rparr>"

interpretation str_codec: codec_laws str_codec
proof
  fix p b assume "c_marshal_props str_codec p = Inr b"
  then obtain l where l: "strs_of_props p = Some l" and b: "b = enc_strs l"
    by (auto simp: str_codec_def split: option.splits)
  have "c_unmarshal_props str_codec b = Inr p"
    using props_of_strs_of_props [OF l] by (simp add: str_codec_def b dec_enc_strs length_enc_strs)
  then show "\<exists>q. c_unmarshal_props str_codec b = Inr q \<and> text_eq str_codec p q" by auto
next
  fix ls b assume "c_marshal_labels str_codec ls = Inr b"
  then have b: "b = enc_strs ls" by (simp add: str_codec_def)
  then show "c_unmarshal_labels str_codec b = Inr ls"
    by (simp add: str_codec_def dec_enc_strs length_enc_strs)
  show "b \<noteq> []" by (simp add: b enc_strs_def)
qed

end
