(* ===== verification/Encoding.thy ===== *)
theory Encoding
  imports Types
begin

text \<open>
  The key and record encodings of encoding.go and label.go: eight-byte big-endian identifiers,
  adjacency keys and values, index keys, property records with their CRC32 trailer, and the
  binary edge record with its own trailer. Slices that are too short make Go panic; a decoder
  that would panic returns \<open>None\<close>.
\<close>

section \<open>Keys\<close>

definition encodeUint64 :: "u64 \<Rightarrow> bytes" where
  "encodeUint64 v = BE_PutUint64 v"

definition decodeUint64 :: "bytes \<Rightarrow> u64 option" where
  "decodeUint64 b = BE_Uint64 b"

definition encodeNodeID :: "NodeID \<Rightarrow> bytes" where
  "encodeNodeID i = encodeUint64 i"

definition decodeNodeID :: "bytes \<Rightarrow> NodeID option" where
  "decodeNodeID b = decodeUint64 b"

definition encodeEdgeID :: "EdgeID \<Rightarrow> bytes" where
  "encodeEdgeID i = encodeUint64 i"

definition decodeEdgeID :: "bytes \<Rightarrow> EdgeID option" where
  "decodeEdgeID b = decodeUint64 b"

definition encodeAdjKey :: "NodeID \<Rightarrow> EdgeID \<Rightarrow> bytes" where
  "encodeAdjKey nodeID edgeID = BE_PutUint64 nodeID @ BE_PutUint64 edgeID"

definition decodeAdjKey :: "bytes \<Rightarrow> (NodeID \<times> EdgeID) option" where
  "decodeAdjKey b =
     (if length b < 8 then None
      else (case (BE_Uint64 (take 8 b), BE_Uint64 (drop 8 b)) of
              (Some n, Some e) \<Rightarrow> Some (n, e) | _ \<Rightarrow> None))"

definition encodeAdjValue :: "NodeID \<Rightarrow> string \<Rightarrow> bytes" where
  "encodeAdjValue targetID label = BE_PutUint64 targetID @ label"

definition decodeAdjValue :: "bytes \<Rightarrow> NodeID \<times> string" where
  "decodeAdjValue data =
     (case BE_Uint64 data of None \<Rightarrow> (0, []) | Some i \<Rightarrow> (i, drop 8 data))"

definition encodeIndexKey :: "string \<Rightarrow> u64 \<Rightarrow> bytes" where
  "encodeIndexKey pre i = pre @ [CHR 0x00] @ BE_PutUint64 i"

definition encodeIndexPrefix :: "string \<Rightarrow> bytes" where
  "encodeIndexPrefix pre = pre @ [CHR 0x00]"

text \<open>label.go has its own encoder, written with shifts.\<close>

definition encodeUint64Into :: "u64 \<Rightarrow> bytes" where
  "encodeUint64Into v = map (\<lambda>s. char_of (unat (drop_bit s v))) [56, 48, 40, 32, 24, 16, 8, 0]"

definition encodeLabelIndexKey :: "string \<Rightarrow> NodeID \<Rightarrow> bytes" where
  "encodeLabelIndexKey label i = label @ [CHR 0x00] @ encodeUint64Into i"

definition encodeLabelIndexPrefix :: "string \<Rightarrow> bytes" where
  "encodeLabelIndexPrefix label = label @ [CHR 0x00]"

fun hasPrefix :: "bytes \<Rightarrow> bytes \<Rightarrow> bool" where
  "hasPrefix s [] = True"
| "hasPrefix [] (p # ps) = False"
| "hasPrefix (c # s) (p # ps) = (c = p \<and> hasPrefix s ps)"

section \<open>Property records\<close>

definition propsMagic :: byte where "propsMagic = CHR 0x01"
definition propsMagicCRC :: byte where "propsMagicCRC = CHR 0x02"

definition encodeProps :: "codec \<Rightarrow> Props \<Rightarrow> gerr + bytes" where
  "encodeProps C props =
     ebind (c_marshal_props C props) (\<lambda>raw.
       let buf = propsMagicCRC # raw in Inr (buf @ BE_PutUint32 (crc32_Checksum buf)))"

definition decodeProps :: "codec \<Rightarrow> bytes \<Rightarrow> gerr + Props" where
  "decodeProps C data =
     (if data \<noteq> [] \<and> hd data = propsMagicCRC then
        (if length data < 5 then Inl ErrPropsTooShort
         else let payload = take (length data - 4) data;
                  stored = the (BE_Uint32 (drop (length data - 4) data));
                  actual = crc32_Checksum payload
              in if stored \<noteq> actual then Inl (ErrPropsChecksum stored actual)
                 else c_unmarshal_props C (tl payload))
      else if data \<noteq> [] \<and> hd data = propsMagic then c_unmarshal_props C (tl data)
      else c_json_props C data)"

section \<open>Edge records\<close>

definition encodeEdge :: "codec \<Rightarrow> Edge \<Rightarrow> gerr + bytes" where
  "encodeEdge C e =
     ebind (encodeProps C (e_props e)) (\<lambda>propsData.
       let payload = BE_PutUint64 (e_id e) @ BE_PutUint64 (e_from e) @ BE_PutUint64 (e_to e)
             @ BE_PutUint32 (word_of_nat (length (e_label e))) @ e_label e @ propsData
       in Inr (payload @ BE_PutUint32 (crc32_Checksum payload)))"

definition decodeEdgePayload :: "codec \<Rightarrow> bytes \<Rightarrow> gerr + Edge" where
  "decodeEdgePayload C payload =
     (if length payload < 28 then Inl (ErrEdgePayloadTooShort (length payload))
      else let labelLen = unat (the (BE_Uint32 (drop 24 payload)))
           in if length payload < 28 + labelLen then Inl ErrEdgeCorrupted
              else let e = \<lparr> e_id = the (BE_Uint64 payload), e_from = the (BE_Uint64 (drop 8 payload)),
                             e_to = the (BE_Uint64 (drop 16 payload)),
                             e_label = take labelLen (drop 28 payload), e_props = [] \<rparr>;
                       propsData = drop (28 + labelLen) payload
                   in if propsData \<noteq> [] then
                        ebind (decodeProps C propsData) (\<lambda>props. Inr (e\<lparr>e_props := props\<rparr>))
                      else Inr e)"

definition decodeEdge :: "codec \<Rightarrow> bytes \<Rightarrow> gerr + Edge" where
  "decodeEdge C data =
     (if length data < 28 then Inl (ErrEdgeTooShort (length data))
      else if 32 \<le> length data \<and>
              the (BE_Uint32 (drop (length data - 4) data)) = crc32_Checksum (take (length data - 4) data)
           then decodeEdgePayload C (take (length data - 4) data)
           else decodeEdgePayload C data)"

lemmas key_defs [enc_simps] = encodeUint64_def decodeUint64_def encodeNodeID_def decodeNodeID_def
  encodeEdgeID_def decodeEdgeID_def encodeAdjKey_def encodeAdjValue_def
  encodeIndexKey_def encodeIndexPrefix_def encodeLabelIndexPrefix_def

section \<open>Facts about keys\<close>

lemma hasPrefix_prefix [simp]: "hasPrefix s p \<longleftrightarrow> prefix p s"
  by (induction s p rule: hasPrefix.induct) auto

lemma decode_encode_id [simp]:
  "decodeNodeID (encodeNodeID n) = Some n" "decodeEdgeID (encodeEdgeID e) = Some e"
  "decodeUint64 (encodeUint64 v) = Some v"
  by (simp_all add: enc_simps)

lemma encode_id_inject [simp]:
  "encodeNodeID a = encodeNodeID b \<longleftrightarrow> a = b" "encodeEdgeID a = encodeEdgeID b \<longleftrightarrow> a = b"
  by (simp_all add: enc_simps)

lemma length_encode_id [simp]: "length (encodeNodeID n) = 8" "length (encodeEdgeID e) = 8"
  by (simp_all add: enc_simps)

lemma decodeAdjKey_encode [simp]: "decodeAdjKey (encodeAdjKey n e) = Some (n, e)"
  by (simp add: decodeAdjKey_def encodeAdjKey_def)

lemma decodeAdjValue_encode [simp]: "decodeAdjValue (encodeAdjValue n l) = (n, l)"
  by (simp add: decodeAdjValue_def encodeAdjValue_def)

lemma encodeAdjKey_inject [simp]: "encodeAdjKey a b = encodeAdjKey c d \<longleftrightarrow> a = c \<and> b = d"
  by (simp add: encodeAdjKey_def append_eq_append_conv)

lemma prefix_adj [simp]: "prefix (encodeNodeID n) (encodeAdjKey m e) \<longleftrightarrow> n = m"
proof
  assume "prefix (encodeNodeID n) (encodeAdjKey m e)"
  then obtain r where "encodeAdjKey m e = encodeNodeID n @ r" by (auto simp: prefix_def)
  then have "take 8 (encodeAdjKey m e) = take 8 (encodeNodeID n @ r)" by simp
  then show "n = m" by (simp add: enc_simps)
qed (simp add: enc_simps)

lemma drop_bit_div: "unat (drop_bit s (v :: u64)) = unat v div 2 ^ s"
  by (simp only: unat_drop_bit_eq) (simp only: drop_bit_eq_div)

lemma encodeUint64Into_BE: "encodeUint64Into v = BE_PutUint64 v"
proof -
  have "rev [0..<8] = [7, 6, 5, 4, 3, 2, 1, 0 :: nat]" by code_simp
  then have "be 8 (unat v) = map (\<lambda>i. char_of (unat v div 256 ^ i)) [7, 6, 5, 4, 3, 2, 1, 0]"
    by (simp only: be_map)
  then show ?thesis
    by (simp only: encodeUint64Into_def BE_PutUint64_def drop_bit_div list.map) simp
qed

lemma encodeLabelIndexKey_index: "encodeLabelIndexKey l n = encodeIndexKey l n"
  by (simp add: encodeLabelIndexKey_def encodeIndexKey_def encodeUint64Into_BE)

lemma nul_free_prefix:
  assumes "CHR 0x00 \<notin> set p" and "CHR 0x00 \<notin> set q"
  shows "prefix (p @ [CHR 0x00]) (q @ CHR 0x00 # r) \<longleftrightarrow> p = q"
  using assms
proof (induction p arbitrary: q)
  case Nil
  then show ?case by (cases q) auto
next
  case (Cons a p)
  then show ?case by (cases q) auto
qed

lemma encodeIndexKey_inject:
  "encodeIndexKey p a = encodeIndexKey q b \<longleftrightarrow> p = q \<and> a = b"
proof
  assume eq: "encodeIndexKey p a = encodeIndexKey q b"
  then have "(p @ [CHR 0x00]) @ BE_PutUint64 a = (q @ [CHR 0x00]) @ BE_PutUint64 b"
    by (simp add: encodeIndexKey_def)
  then have "p @ [CHR 0x00] = q @ [CHR 0x00] \<and> BE_PutUint64 a = BE_PutUint64 b"
    by (subst (asm) append_eq_append_conv) auto
  then show "p = q \<and> a = b" by simp
qed simp

lemma decode_index_suffix [simp]:
  "drop (length (encodeIndexPrefix p)) (encodeIndexKey p n) = encodeUint64 n"
  by (simp add: enc_simps)

section \<open>Round trips of records\<close>

lemma encodeProps_Inr:
  "encodeProps C p = Inr d \<longleftrightarrow> (\<exists>raw. c_marshal_props C p = Inr raw \<and>
     d = (propsMagicCRC # raw) @ BE_PutUint32 (crc32_Checksum (propsMagicCRC # raw)))"
  by (auto simp: encodeProps_def Let_def)

lemma decodeProps_framed:
  "decodeProps C (propsMagicCRC # raw @ BE_PutUint32 w) =
     (if w = crc32_Checksum (propsMagicCRC # raw) then c_unmarshal_props C raw
      else Inl (ErrPropsChecksum w (crc32_Checksum (propsMagicCRC # raw))))"
  by (simp add: decodeProps_def Let_def)

lemma encodeProps_length: "encodeProps C p = Inr d \<Longrightarrow> 5 \<le> length d"
  by (auto simp: encodeProps_Inr)

lemma encodeProps_nonempty: "encodeProps C p = Inr d \<Longrightarrow> d \<noteq> []"
  by (auto simp: encodeProps_Inr)

lemma decodeEdgePayload_framed:
  assumes "length l < 2 ^ 32" and "d \<noteq> []"
  shows "decodeEdgePayload C (BE_PutUint64 i @ BE_PutUint64 a @ BE_PutUint64 b @
           BE_PutUint32 (word_of_nat (length l)) @ l @ d) =
         ebind (decodeProps C d)
           (\<lambda>ps. Inr \<lparr>e_id = i, e_from = a, e_to = b, e_label = l, e_props = ps\<rparr>)"
proof -
  have len: "unat (word_of_nat (length l) :: u32) = length l"
    using assms(1) by (simp add: unat_of_nat)
  show ?thesis using assms(2) by (simp add: decodeEdgePayload_def Let_def len)
qed

context codec_laws
begin

lemma decodeProps_encodeProps:
  "encodeProps C p = Inr d \<Longrightarrow> \<exists>q. decodeProps C d = Inr q \<and> text_eq C p q"
  using props_roundtrip by (auto simp: encodeProps_Inr decodeProps_framed)

lemma decodeEdge_encodeEdge:
  assumes "encodeEdge C e = Inr d" and "length (e_label e) < 2 ^ 32"
  shows "\<exists>q. decodeEdge C d = Inr (e\<lparr>e_props := q\<rparr>) \<and> text_eq C (e_props e) q"
proof -
  from assms(1) obtain pd where pd: "encodeProps C (e_props e) = Inr pd"
    and d: "d = (BE_PutUint64 (e_id e) @ BE_PutUint64 (e_from e) @ BE_PutUint64 (e_to e) @
        BE_PutUint32 (word_of_nat (length (e_label e))) @ e_label e @ pd) @
        BE_PutUint32 (crc32_Checksum (BE_PutUint64 (e_id e) @ BE_PutUint64 (e_from e) @
          BE_PutUint64 (e_to e) @ BE_PutUint32 (word_of_nat (length (e_label e))) @ e_label e @ pd))"
      (is "d = ?pl @ BE_PutUint32 ?c")
    by (auto simp: encodeEdge_def Let_def)
  have "decodeEdge C d = decodeEdgePayload C ?pl"
    unfolding decodeEdge_def d by (simp del: append_assoc)
  also have "\<dots> = ebind (decodeProps C pd) (\<lambda>ps. Inr (e\<lparr>e_props := ps\<rparr>))"
    using decodeEdgePayload_framed [OF assms(2) encodeProps_nonempty [OF pd]]
    by (cases e) simp
  finally show ?thesis using decodeProps_encodeProps [OF pd] by auto
qed

end

lemma encodeProps_corruption:
  assumes enc: "encodeProps C p = Inr d" and i: "0 < i" "i < length d" and b: "b \<noteq> d ! i"
  shows "\<exists>s a. decodeProps C (d[i := b]) = Inl (ErrPropsChecksum s a)"
proof -
  from enc obtain raw where d: "d = (propsMagicCRC # raw) @ BE_PutUint32 (crc32_Checksum (propsMagicCRC # raw))"
    by (auto simp: encodeProps_Inr)
  let ?pl = "propsMagicCRC # raw" and ?c = "crc32_Checksum (propsMagicCRC # raw)"
  show ?thesis
  proof (cases "i < length ?pl")
    case True
    then obtain j where j: "i = Suc j" "j < length raw" using i by (cases i) auto
    have upd: "d[i := b] = propsMagicCRC # raw[j := b] @ BE_PutUint32 ?c"
      using j by (simp add: d list_update_append)
    have b': "b \<noteq> raw ! j" using b j by (simp add: d nth_append)
    have "crc32_Checksum (propsMagicCRC # raw[j := b]) \<noteq> ?c"
      using crc32_one_byte [OF b', of "propsMagicCRC # take j raw" "drop (Suc j) raw"] j
      by (simp add: upd_conv_take_nth_drop id_take_nth_drop [symmetric])
    then show ?thesis unfolding upd decodeProps_framed by auto
  next
    case False
    define j where "j = i - length ?pl"
    have j: "i = length ?pl + j" "j < 4" using False i by (auto simp: j_def d)
    have upd: "d[i := b] = propsMagicCRC # raw @ (BE_PutUint32 ?c)[j := b]"
      unfolding d j(1) by (simp add: list_update_append)
    obtain w where w: "(BE_PutUint32 ?c)[j := b] = BE_PutUint32 w"
      using BE_PutUint32_surj [of "(BE_PutUint32 ?c)[j := b]"] by auto
    have "b \<noteq> BE_PutUint32 ?c ! j" using b j by (simp add: d nth_append)
    then have "w \<noteq> ?c" using w j by (metis length_BE_Put(2) nth_list_update_eq)
    then show ?thesis unfolding upd w decodeProps_framed by auto
  qed
qed

section \<open>Properties\<close>

text \<open>
  C34. Reading back an edge record that encodeEdge produced gives the same edge: identifier, both
  endpoints and label exactly, and a property map with the same keys whose values print the same.
  The only condition is that the label fits the record's 32-bit length field.
\<close>

theorem edge_record_roundtrip:
  assumes "codec_laws C" and "encodeEdge C e = Inr d" and "length (e_label e) < 2 ^ 32"
  shows "\<exists>q. decodeEdge C d = Inr (e\<lparr>e_props := q\<rparr>) \<and> text_eq C (e_props e) q"
  using codec_laws.decodeEdge_encodeEdge assms by blast

theorem edge_record_roundtrip_witness:
  "\<exists>d q. encodeEdge str_codec \<lparr>e_id = 7, e_from = 1, e_to = 2, e_label = ''KNOWS'', e_props = [(''w'', VStr ''x'')]\<rparr> = Inr d \<and>
     decodeEdge str_codec d = Inr \<lparr>e_id = 7, e_from = 1, e_to = 2, e_label = ''KNOWS'', e_props = q\<rparr> \<and>
     text_eq str_codec [(''w'', VStr ''x'')] q"
proof -
  let ?e = "\<lparr>e_id = 7, e_from = 1, e_to = 2, e_label = ''KNOWS'', e_props = [(''w'', VStr ''x'')]\<rparr>"
  obtain d where d: "encodeEdge str_codec ?e = Inr d"
    by (simp add: encodeEdge_def encodeProps_def str_codec_def Let_def)
  show ?thesis
    using edge_record_roundtrip [OF str_codec.codec_laws_axioms d] d by auto
qed

text \<open>
  C35. A property record in which any one byte after the format byte was changed is never decoded:
  decodeProps reports a checksum mismatch, whatever the codec.
\<close>

theorem props_single_byte_corruption_detected:
  assumes "encodeProps C p = Inr d" and "0 < i" and "i < length d" and "b \<noteq> d ! i"
  shows "\<exists>s a. decodeProps C (d[i := b]) = Inl (ErrPropsChecksum s a)"
  using assms by (rule encodeProps_corruption)

theorem props_single_byte_corruption_detected_witness:
  "\<exists>d s a. encodeProps str_codec [(''k'', VStr ''v'')] = Inr d \<and> 2 < length d \<and>
     decodeProps str_codec (d[2 := CHR ''?'']) = Inl (ErrPropsChecksum s a)"
proof -
  obtain d where d: "encodeProps str_codec [(''k'', VStr ''v'')] = Inr d"
    by (simp add: encodeProps_def str_codec_def Let_def)
  then have "2 < length d" and "CHR ''?'' \<noteq> d ! 2"
    by (auto simp: encodeProps_Inr str_codec_def enc_strs_def esc_def)
  with d show ?thesis
    using props_single_byte_corruption_detected [OF d, of 2 "CHR ''?''"] by auto
qed

end
