(* ===== verification/Bolt.thy ===== *)
theory Bolt
  imports Encoding "HOL-Library.AList" "HOL-Library.Multiset"
begin

text \<open>
  The interface to \<open>go.etcd.io/bbolt\<close>, which is not part of the repository: a bucket is a value
  of an abstract type \<open>'b\<close> and the five operations the database uses are the fields of a record
  that every definition takes as its first argument. The locale \<open>bolt_laws\<close> states what bbolt
  documents of them: a put makes the key readable with that value and changes no other key, a
  delete removes it, a put of a non-empty key within the size limits succeeds, one of an empty or an
  oversized key is refused, and a cursor
  visits the pairs in strictly ascending byte order of the keys.

  The transactions of the package work on all buckets of one shard file at once; here that is
  the record \<open>buckets\<close>, and a transaction function maps it to an error or to its new value.
\<close>

record 'b bolt =
  b_new :: 'b
  b_get :: "'b \<Rightarrow> bytes \<Rightarrow> bytes option"
  b_put :: "'b \<Rightarrow> bytes \<Rightarrow> bytes \<Rightarrow> gerr + 'b"
  b_del :: "'b \<Rightarrow> bytes \<Rightarrow> gerr + 'b"
  b_cursor :: "'b \<Rightarrow> (bytes \<times> bytes) list"

abbreviation MaxKeySize :: nat where "MaxKeySize \<equiv> 32768"
abbreviation MaxValueSize :: nat where "MaxValueSize \<equiv> 2147483646"

locale bolt_laws =
  fixes B :: "'b bolt"
  assumes get_new: "b_get B (b_new B) k = None"
    and put_ok: "k \<noteq> [] \<Longrightarrow> length k \<le> MaxKeySize \<Longrightarrow> length v \<le> MaxValueSize \<Longrightarrow>
                 \<exists>b'. b_put B b k v = Inr b'"
    and put_limit: "b_put B b k v = Inr b' \<Longrightarrow> k \<noteq> [] \<and> length k \<le> MaxKeySize"
    and get_put: "b_put B b k v = Inr b' \<Longrightarrow> b_get B b' = (b_get B b)(k \<mapsto> v)"
    and del_ok: "\<exists>b'. b_del B b k = Inr b'"
    and get_del: "b_del B b k = Inr b' \<Longrightarrow> b_get B b' = (b_get B b)(k := None)"
    and cursor_get: "map_of (b_cursor B b) = b_get B b"
    and cursor_sorted: "sorted_wrt (<) (map fst (b_cursor B b))"

section \<open>Cursor loops\<close>

text \<open>\<open>for k, v := c.Seek(p); k != nil && bytes.HasPrefix(k, p); k, v = c.Next()\<close>\<close>

definition seekPrefix :: "'b bolt \<Rightarrow> 'b \<Rightarrow> bytes \<Rightarrow> (bytes \<times> bytes) list" where
  "seekPrefix B b p =
     takeWhile (\<lambda>kv. hasPrefix (fst kv) p) (dropWhile (\<lambda>kv. fst kv < p) (b_cursor B b))"

text \<open>\<open>c.Last()\<close>: the key of the last pair.\<close>

definition cursorLast :: "'b bolt \<Rightarrow> 'b \<Rightarrow> bytes option" where
  "cursorLast B b = (if b_cursor B b = [] then None else Some (fst (last (b_cursor B b))))"

text \<open>\<open>b.ForEach(fn)\<close> and the two iteration helpers of storage.go.\<close>

definition forEachInBucket ::
    "'b bolt \<Rightarrow> 'b \<Rightarrow> (bytes \<times> bytes \<Rightarrow> 's \<Rightarrow> gerr + 's) \<Rightarrow> 's \<Rightarrow> gerr + 's" where
  "forEachInBucket B b fn s = efold fn (b_cursor B b) s"

definition forEachWithPrefix ::
    "'b bolt \<Rightarrow> 'b \<Rightarrow> bytes \<Rightarrow> (bytes \<times> bytes \<Rightarrow> 's \<Rightarrow> gerr + 's) \<Rightarrow> 's \<Rightarrow> gerr + 's" where
  "forEachWithPrefix B b p fn s = efold fn (seekPrefix B b p) s"

text \<open>
  Collect the keys under a prefix, then delete them one by one: the loop shared by DropIndex,
  DropCompositeIndex and DropUniqueConstraint.
\<close>

definition deletePrefix :: "'b bolt \<Rightarrow> bytes \<Rightarrow> 'b \<Rightarrow> gerr + 'b" where
  "deletePrefix B p b = efold (\<lambda>k b. b_del B b k) (map fst (seekPrefix B b p)) b"

context bolt_laws
begin

lemma cursor_distinct: "distinct (map fst (b_cursor B b))"
  using cursor_sorted by (rule sorted_keys_distinct)

lemma set_cursor: "(k, v) \<in> set (b_cursor B b) \<longleftrightarrow> b_get B b k = Some v"
  using map_of_eq_Some_iff [OF cursor_distinct, of b k v] by (simp add: cursor_get)

lemma cursor_new [simp]: "b_cursor B (b_new B) = []"
proof -
  have "set (b_cursor B (b_new B)) = {}"
    using set_cursor [of _ _ "b_new B"] get_new by (metis equals0I option.distinct(1) surj_pair)
  then show ?thesis by simp
qed

lemma seekPrefix_filter: "seekPrefix B b p = filter (\<lambda>kv. prefix p (fst kv)) (b_cursor B b)"
  using seek_scan_filter [OF cursor_sorted] by (simp add: seekPrefix_def)

lemma set_seekPrefix: "(k, v) \<in> set (seekPrefix B b p) \<longleftrightarrow> prefix p k \<and> b_get B b k = Some v"
  by (auto simp: seekPrefix_filter set_cursor)

lemma seekPrefix_sorted: "sorted_wrt (<) (map fst (seekPrefix B b p))"
  using cursor_sorted [of b]
  by (simp add: seekPrefix_filter sorted_wrt_map sorted_wrt_filter)

lemma seekPrefix_distinct: "distinct (map fst (seekPrefix B b p))"
  using seekPrefix_sorted by (rule sorted_keys_distinct)

lemma cursor_cong: "b_get B a = b_get B b \<Longrightarrow> b_cursor B a = b_cursor B b"
  by (rule sorted_alist_eqI) (simp_all add: cursor_sorted cursor_get)

lemma cursorLast_None: "cursorLast B b = None \<longleftrightarrow> b_cursor B b = []"
  by (simp add: cursorLast_def)

lemma cursorLast_max:
  assumes "b_get B b k = Some v"
  shows "\<exists>m. cursorLast B b = Some m \<and> k \<le> m \<and> b_get B b m \<noteq> None"
proof -
  from assms have mem: "(k, v) \<in> set (b_cursor B b)" by (simp add: set_cursor)
  then obtain us x where us: "b_cursor B b = us @ [x]"
    by (metis empty_iff list.set(1) rev_exhaust)
  then have last: "cursorLast B b = Some (fst x)"
    by (simp add: cursorLast_def)
  have "(fst x, snd x) \<in> set (b_cursor B b)" using us by simp
  then have "b_get B b (fst x) \<noteq> None" by (simp only: set_cursor) simp
  moreover have "k \<le> fst x"
    using mem us cursor_sorted [of b] by (force simp: sorted_wrt_append)
  ultimately show ?thesis using last by auto
qed

lemma efold_del:
  "\<exists>b'. efold (\<lambda>k b. b_del B b k) ks b = Inr b' \<and>
        b_get B b' = (\<lambda>k. if k \<in> set ks then None else b_get B b k)"
proof (induction ks arbitrary: b)
  case (Cons k ks)
  obtain b1 where b1: "b_del B b k = Inr b1" using del_ok by blast
  obtain b' where "efold (\<lambda>k b. b_del B b k) ks b1 = Inr b'"
    "b_get B b' = (\<lambda>k. if k \<in> set ks then None else b_get B b1 k)"
    using Cons by blast
  then show ?case using b1 get_del [OF b1] by (auto simp: fun_eq_iff)
qed simp

lemma deletePrefix_get:
  "\<exists>b'. deletePrefix B p b = Inr b' \<and>
        b_get B b' = (\<lambda>k. if prefix p k then None else b_get B b k)"
proof -
  obtain b' where b': "efold (\<lambda>k b. b_del B b k) (map fst (seekPrefix B b p)) b = Inr b'"
    and get: "b_get B b' = (\<lambda>k. if k \<in> set (map fst (seekPrefix B b p)) then None else b_get B b k)"
    using efold_del by blast
  have "k \<in> set (map fst (seekPrefix B b p)) \<longleftrightarrow> prefix p k \<and> b_get B b k \<noteq> None" for k
    using set_seekPrefix [of k _ b p] by (auto simp: image_iff) (metis fst_conv)+
  then show ?thesis using b' get by (auto simp: deletePrefix_def fun_eq_iff)
qed

end

section \<open>A concrete bucket\<close>

text \<open>
  Buckets as association lists, with bbolt's limits on keys and values and a cursor that runs
  through the keys in order. This is the instance that closed evaluations use, and it shows
  that the laws can be met.
\<close>

type_synonym kvs = "(bytes \<times> bytes) list"

definition kvs_cursor :: "kvs \<Rightarrow> kvs" where
  "kvs_cursor b = sort_key fst (AList.clearjunk b)"

definition kvs_bolt :: "kvs bolt" where
  "kvs_bolt = \<lparr> b_new = [], b_get = map_of,
     b_put = (\<lambda>b k v. if k = [] then Inl (ErrBolt ''key required'')
                       else if MaxKeySize < length k then Inl (ErrBolt ''key too large'')
                       else if MaxValueSize < length v then Inl (ErrBolt ''value too large'')
                       else Inr (AList.update k v b)),
     b_del = (\<lambda>b k. Inr (AList.delete k b)), b_cursor = kvs_cursor \<rparr>"

lemma kvs_cursor_distinct: "distinct (map fst (kvs_cursor b))"
proof -
  have "mset (map fst (kvs_cursor b)) = mset (map fst (AList.clearjunk b))"
    by (simp add: kvs_cursor_def)
  then show ?thesis
    using distinct_clearjunk [of b] by (metis mset_eq_imp_distinct_iff)
qed

lemma kvs_cursor_sorted: "sorted_wrt (<) (map fst (kvs_cursor b))"
  using kvs_cursor_distinct by (simp add: strict_sorted_iff) (simp add: kvs_cursor_def)

lemma kvs_cursor_get: "map_of (kvs_cursor b) = map_of b"
proof -
  have "map_of (kvs_cursor b) = map_of (AList.clearjunk b)"
    using kvs_cursor_distinct distinct_clearjunk [of b]
    by (subst map_of_inject_set) (simp_all add: kvs_cursor_def)
  then show ?thesis by (simp add: map_of_clearjunk)
qed

interpretation kvs: bolt_laws kvs_bolt
  by unfold_locales
     (auto simp: kvs_bolt_def kvs_cursor_get kvs_cursor_sorted update_conv' delete_conv'
       split: if_splits)

end
