(* ===== verification/Storage.thy ===== *)
theory Storage
  imports Bolt
begin

text \<open>
  One shard file (storage.go): its buckets, the four in-memory counters, opening with counter
  recovery, identifier allocation, persisting the counters, closing.
\<close>

record 'b buckets =
  bk_meta :: 'b
  bk_nodes :: 'b
  bk_edges :: 'b
  bk_adj_out :: 'b
  bk_adj_in :: 'b
  bk_idx_label :: 'b
  bk_idx_edge_type :: 'b
  bk_idx_prop :: 'b
  bk_node_labels :: 'b
  bk_idx_node_label :: 'b
  bk_idx_composite :: 'b
  bk_idx_unique :: 'b
  bk_unique_meta :: 'b

record 'b shard =
  s_data :: "'b buckets"
  nextNodeID :: u64
  nextEdgeID :: u64
  nodeCount :: u64
  edgeCount :: u64

definition metaNextNodeID :: bytes where "metaNextNodeID = ''next_node_id''"
definition metaNextEdgeID :: bytes where "metaNextEdgeID = ''next_edge_id''"
definition metaNodeCount :: bytes where "metaNodeCount = ''node_count''"
definition metaEdgeCount :: bytes where "metaEdgeCount = ''edge_count''"

lemmas meta_keys = metaNextNodeID_def metaNextEdgeID_def metaNodeCount_def metaEdgeCount_def

section \<open>Opening a shard\<close>

text \<open>A bucket of the file, created when it does not exist.\<close>

definition CreateBucketIfNotExists :: "'b bolt \<Rightarrow> 'b option \<Rightarrow> 'b" where
  "CreateBucketIfNotExists B b = (case b of None \<Rightarrow> b_new B | Some b \<Rightarrow> b)"

definition createBuckets :: "'b bolt \<Rightarrow> 'b option buckets \<Rightarrow> 'b buckets" where
  "createBuckets B f =
     \<lparr> bk_meta = CreateBucketIfNotExists B (bk_meta f), bk_nodes = CreateBucketIfNotExists B (bk_nodes f),
       bk_edges = CreateBucketIfNotExists B (bk_edges f), bk_adj_out = CreateBucketIfNotExists B (bk_adj_out f),
       bk_adj_in = CreateBucketIfNotExists B (bk_adj_in f), bk_idx_label = CreateBucketIfNotExists B (bk_idx_label f),
       bk_idx_edge_type = CreateBucketIfNotExists B (bk_idx_edge_type f), bk_idx_prop = CreateBucketIfNotExists B (bk_idx_prop f),
       bk_node_labels = CreateBucketIfNotExists B (bk_node_labels f), bk_idx_node_label = CreateBucketIfNotExists B (bk_idx_node_label f),
       bk_idx_composite = CreateBucketIfNotExists B (bk_idx_composite f), bk_idx_unique = CreateBucketIfNotExists B (bk_idx_unique f),
       bk_unique_meta = CreateBucketIfNotExists B (bk_unique_meta f) \<rparr>"

text \<open>A file without buckets, which is what a shard file that did not exist is, and a file that has them all.\<close>

definition newFile :: "'b option buckets" where
  "newFile = \<lparr> bk_meta = None, bk_nodes = None, bk_edges = None, bk_adj_out = None, bk_adj_in = None,
     bk_idx_label = None, bk_idx_edge_type = None, bk_idx_prop = None, bk_node_labels = None,
     bk_idx_node_label = None, bk_idx_composite = None, bk_idx_unique = None, bk_unique_meta = None \<rparr>"

definition fullFile :: "'b buckets \<Rightarrow> 'b option buckets" where
  "fullFile d = \<lparr> bk_meta = Some (bk_meta d), bk_nodes = Some (bk_nodes d), bk_edges = Some (bk_edges d),
     bk_adj_out = Some (bk_adj_out d), bk_adj_in = Some (bk_adj_in d), bk_idx_label = Some (bk_idx_label d),
     bk_idx_edge_type = Some (bk_idx_edge_type d), bk_idx_prop = Some (bk_idx_prop d),
     bk_node_labels = Some (bk_node_labels d), bk_idx_node_label = Some (bk_idx_node_label d),
     bk_idx_composite = Some (bk_idx_composite d), bk_idx_unique = Some (bk_idx_unique d),
     bk_unique_meta = Some (bk_unique_meta d) \<rparr>"

abbreviation allBuckets_new :: "'b bolt \<Rightarrow> 'b buckets" where
  "allBuckets_new B \<equiv> createBuckets B newFile"

lemma createBuckets_full [simp]: "createBuckets B (fullFile d) = d"
  by (simp add: createBuckets_def fullFile_def CreateBucketIfNotExists_def)

text \<open>
  \<open>initBuckets\<close> creates the buckets that do not exist and writes a zero for every counter that has
  no value yet.
\<close>

definition initMetaKey :: "'b bolt \<Rightarrow> bytes \<Rightarrow> 'b \<Rightarrow> gerr + 'b" where
  "initMetaKey B k m = (if b_get B m k = None then b_put B m k (encodeUint64 0) else Inr m)"

definition initBuckets :: "'b bolt \<Rightarrow> 'b option buckets \<Rightarrow> gerr + 'b buckets" where
  "initBuckets B file =
     (let d = createBuckets B file
      in ebind (efold (initMetaKey B) [metaNextNodeID, metaNextEdgeID, metaNodeCount, metaEdgeCount] (bk_meta d))
           (\<lambda>m. Inr (d\<lparr>bk_meta := m\<rparr>)))"

text \<open>A persisted counter that is absent counts as zero; one that is too short panics.\<close>

definition loadMeta :: "'b bolt \<Rightarrow> 'b \<Rightarrow> bytes \<Rightarrow> gerr + u64" where
  "loadMeta B m k = (case b_get B m k of None \<Rightarrow> Inr 0
     | Some v \<Rightarrow> (case decodeUint64 v of None \<Rightarrow> Inl ErrPanic | Some n \<Rightarrow> Inr n))"

text \<open>
  The self-healing step for one data bucket: the count is raised to the number of keys present,
  and the next identifier past the highest key.
\<close>

definition recoverCounters :: "'b bolt \<Rightarrow> 'b \<Rightarrow> u64 \<times> u64 \<Rightarrow> gerr + u64 \<times> u64" where
  "recoverCounters B bucket cn =
     (let count = fst cn; nxt = snd cn;
          actual = word_of_nat (length (b_cursor B bucket));
          count' = (if count < actual then actual else count)
      in case cursorLast B bucket of
           None \<Rightarrow> Inr (count', nxt)
         | Some k \<Rightarrow> (case decodeUint64 k of
              None \<Rightarrow> Inl ErrPanic
            | Some maxID \<Rightarrow> Inr (count', if nxt \<le> maxID then maxID + 1 else nxt)))"

definition loadCounters :: "'b bolt \<Rightarrow> 'b buckets \<Rightarrow> gerr + 'b shard" where
  "loadCounters B d =
     ebind (loadMeta B (bk_meta d) metaNextNodeID) (\<lambda>nextNode.
     ebind (loadMeta B (bk_meta d) metaNextEdgeID) (\<lambda>nextEdge.
     ebind (loadMeta B (bk_meta d) metaNodeCount) (\<lambda>nCount.
     ebind (loadMeta B (bk_meta d) metaEdgeCount) (\<lambda>eCount.
     ebind (recoverCounters B (bk_nodes d) (nCount, nextNode)) (\<lambda>n.
     ebind (recoverCounters B (bk_edges d) (eCount, nextEdge)) (\<lambda>e.
       Inr \<lparr> s_data = d, nextNodeID = snd n, nextEdgeID = snd e,
             nodeCount = fst n, edgeCount = fst e \<rparr>))))))"

definition openShard :: "'b bolt \<Rightarrow> 'b option buckets \<Rightarrow> gerr + 'b shard" where
  "openShard B file = ebind (initBuckets B file) (loadCounters B)"

section \<open>Identifiers and closing\<close>

definition allocNodeID :: "'b shard \<Rightarrow> NodeID \<times> 'b shard" where
  "allocNodeID s = (nextNodeID s + 1, s\<lparr>nextNodeID := nextNodeID s + 1\<rparr>)"

definition allocEdgeID :: "'b shard \<Rightarrow> EdgeID \<times> 'b shard" where
  "allocEdgeID s = (nextEdgeID s + 1, s\<lparr>nextEdgeID := nextEdgeID s + 1\<rparr>)"

definition persistCounters :: "'b bolt \<Rightarrow> 'b shard \<Rightarrow> 'b buckets \<Rightarrow> gerr + 'b buckets" where
  "persistCounters B s d =
     ebind (b_put B (bk_meta d) metaNextNodeID (encodeUint64 (nextNodeID s))) (\<lambda>m1.
     ebind (b_put B m1 metaNextEdgeID (encodeUint64 (nextEdgeID s))) (\<lambda>m2.
     ebind (b_put B m2 metaNodeCount (encodeUint64 (nodeCount s))) (\<lambda>m3.
     ebind (b_put B m3 metaEdgeCount (encodeUint64 (edgeCount s))) (\<lambda>m4.
       Inr (d\<lparr>bk_meta := m4\<rparr>)))))"

text \<open>\<open>shard.close\<close>: the error of the final write is ignored; the file is what remains.\<close>

definition closeShard :: "'b bolt \<Rightarrow> 'b shard \<Rightarrow> 'b buckets" where
  "closeShard B s = (case persistCounters B s (s_data s) of Inl _ \<Rightarrow> s_data s | Inr d \<Rightarrow> d)"

section \<open>Facts\<close>

definition id_keys :: "'b bolt \<Rightarrow> 'b \<Rightarrow> bool" where
  "id_keys B b \<longleftrightarrow> (\<forall>k v. (k, v) \<in> set (b_cursor B b) \<longrightarrow> length k = 8)"

context bolt_laws
begin

lemma put_id_ok: "length v \<le> MaxValueSize \<Longrightarrow> \<exists>b'. b_put B b (encodeUint64 i) v = Inr b'"
  by (rule put_ok) (simp_all add: enc_simps)

lemma put_meta_ok:
  assumes "k \<in> {metaNextNodeID, metaNextEdgeID, metaNodeCount, metaEdgeCount}"
  shows "\<exists>b'. b_put B b k (encodeUint64 n) = Inr b'"
  using assms by (intro put_ok) (auto simp: meta_keys enc_simps)

lemma persistCounters_ok:
  "\<exists>d'. persistCounters B s d = Inr d' \<and>
     d' = d\<lparr>bk_meta := bk_meta d'\<rparr> \<and>
     b_get B (bk_meta d') = (b_get B (bk_meta d))(metaNextNodeID \<mapsto> encodeUint64 (nextNodeID s),
       metaNextEdgeID \<mapsto> encodeUint64 (nextEdgeID s), metaNodeCount \<mapsto> encodeUint64 (nodeCount s),
       metaEdgeCount \<mapsto> encodeUint64 (edgeCount s))"
proof -
  obtain m1 where m1: "b_put B (bk_meta d) metaNextNodeID (encodeUint64 (nextNodeID s)) = Inr m1"
    using put_meta_ok by blast
  obtain m2 where m2: "b_put B m1 metaNextEdgeID (encodeUint64 (nextEdgeID s)) = Inr m2"
    using put_meta_ok by blast
  obtain m3 where m3: "b_put B m2 metaNodeCount (encodeUint64 (nodeCount s)) = Inr m3"
    using put_meta_ok by blast
  obtain m4 where m4: "b_put B m3 metaEdgeCount (encodeUint64 (edgeCount s)) = Inr m4"
    using put_meta_ok by blast
  show ?thesis
    by (simp add: persistCounters_def m1 m2 m3 m4 get_put [OF m1] get_put [OF m2] get_put [OF m3] get_put [OF m4])
qed

lemma recoverCounters_bound:
  assumes "recoverCounters B b (c, n) = Inr (c', n')" and "id_keys B b"
    and "b_get B b (encodeUint64 i) = Some v" and "\<And>j. b_get B b (encodeUint64 j) \<noteq> None \<Longrightarrow> j \<noteq> - 1"
  shows "i < n' \<and> n \<le> n'"
proof -
  obtain m where last: "cursorLast B b = Some m" and im: "encodeUint64 i \<le> m" and mb: "b_get B b m \<noteq> None"
    using cursorLast_max [OF assms(3)] by blast
  have "length m = 8" using assms(2) mb set_cursor by (auto simp: id_keys_def)
  then obtain j where j: "m = encodeUint64 j"
    using BE_Uint64_total [of m] BE_PutUint64_of_8 [of m] by (auto simp: enc_simps)
  have "i \<le> j" using im by (auto simp: j enc_simps le_less)
  have j1: "j \<noteq> - 1" using assms(4) mb j by auto
  have n': "n' = (if n \<le> j then j + 1 else n)"
    using assms(1) by (auto simp: recoverCounters_def last j Let_def)
  have "j < j + 1" using j1 by (meson not_less inc_less_eq_self_iff_eq)
  with n' \<open>i \<le> j\<close> show ?thesis by (auto split: if_splits)
qed

end

end
