(* ===== verification/NodeCache.thy ===== *)
theory NodeCache
  imports Types "HOL-Library.AList" "HOL-Library.Multiset"
begin

text \<open>
  The hot-node cache (node_cache.go): sixteen independent shards, each an LRU list with a byte
  budget. The doubly-linked list is modelled at the level of its pointers. Every entry a pointer
  can reach is in the shard's \<open>items\<close> map, so a \<open>*lruEntry\<close> is the key of the entry it points
  to, nil is \<open>None\<close>, and an assignment through a pointer updates the entry in \<open>items\<close>.
  Copies made by \<open>copyNode\<close> are the identity on values.
\<close>

record lruEntry =
  le_key :: NodeID
  le_node :: Node
  le_size :: int
  le_prev :: "NodeID option"
  le_next :: "NodeID option"

record cacheShard =
  cs_items :: "(NodeID \<times> lruEntry) list"
  cs_head :: "NodeID option"
  cs_tail :: "NodeID option"
  cs_budget :: int
  cs_total :: int

record nodeCache =
  nc_shards :: "cacheShard list"
  nc_shardMask :: u64
  nc_budget :: int

section \<open>Size estimation\<close>

text \<open>\<open>unsafe.Sizeof\<close> on a 64-bit platform: three fields of 8, 24 and 8 bytes; five of 8 bytes.\<close>

abbreviation nodeBaseSize :: int where "nodeBaseSize \<equiv> 40"
abbreviation entryOverhead :: int where "entryOverhead \<equiv> 40"
abbreviation mapBucketSize :: int where "mapBucketSize \<equiv> 64"

primrec estimateValueBytes :: "val \<Rightarrow> int" where
  "estimateValueBytes VNil = 32"
| "estimateValueBytes (VBool b) = 8"
| "estimateValueBytes (VInt k i) = (if k \<in> {K_int, K_int64, K_uint64} then 8 else 32)"
| "estimateValueBytes (VFloat f) = 8"
| "estimateValueBytes (VStr s) = 16 + int (length s)"
| "estimateValueBytes (VList vs) = 24 + sum_list (map estimateValueBytes vs)"
| "estimateValueBytes (VMap kvs) = mapBucketSize +
     sum_list (map (\<lambda>kt. 16 + int (length (fst kt)) + snd kt) (map (map_prod id estimateValueBytes) kvs))"

definition estimateNodeBytes :: "Node \<Rightarrow> int" where
  "estimateNodeBytes n = nodeBaseSize + entryOverhead
     + sum_list (map (\<lambda>l. 16 + int (length l)) (n_labels n))
     + (if n_props n = [] then 0
        else mapBucketSize + sum_list (map (\<lambda>(k, v). 16 + int (length k) + estimateValueBytes v) (n_props n)))"

section \<open>List operations of a shard\<close>

text \<open>\<open>e.f = x\<close> through a possibly nil pointer that the source has tested.\<close>

definition updEntry :: "NodeID option \<Rightarrow> (lruEntry \<Rightarrow> lruEntry) \<Rightarrow> (NodeID \<times> lruEntry) list \<Rightarrow> (NodeID \<times> lruEntry) list" where
  "updEntry p f items = (case p of None \<Rightarrow> items
     | Some k \<Rightarrow> map (\<lambda>(k', e). (k', if k' = k then f e else e)) items)"

definition pushFront :: "NodeID \<Rightarrow> cacheShard \<Rightarrow> cacheShard" where
  "pushFront k s =
     (let items1 = updEntry (Some k) (\<lambda>e. e\<lparr>le_prev := None, le_next := cs_head s\<rparr>) (cs_items s);
          items2 = updEntry (cs_head s) (\<lambda>e. e\<lparr>le_prev := Some k\<rparr>) items1
      in s\<lparr>cs_items := items2, cs_head := Some k,
           cs_tail := (if cs_tail s = None then Some k else cs_tail s)\<rparr>)"

definition removeEntry :: "NodeID \<Rightarrow> cacheShard \<Rightarrow> cacheShard" where
  "removeEntry k s = (case map_of (cs_items s) k of None \<Rightarrow> s
     | Some e \<Rightarrow>
        let items1 = updEntry (le_prev e) (\<lambda>p. p\<lparr>le_next := le_next e\<rparr>) (cs_items s);
            head1 = (if le_prev e = None then le_next e else cs_head s);
            items2 = updEntry (le_next e) (\<lambda>n. n\<lparr>le_prev := le_prev e\<rparr>) items1;
            tail1 = (if le_next e = None then le_prev e else cs_tail s);
            items3 = updEntry (Some k) (\<lambda>e. e\<lparr>le_prev := None, le_next := None\<rparr>) items2
        in s\<lparr>cs_items := items3, cs_head := head1, cs_tail := tail1\<rparr>)"

definition moveToFront :: "NodeID \<Rightarrow> cacheShard \<Rightarrow> cacheShard" where
  "moveToFront k s = (if cs_head s = Some k then s else pushFront k (removeEntry k s))"

definition deleteItem :: "NodeID \<Rightarrow> cacheShard \<Rightarrow> cacheShard" where
  "deleteItem k s = s\<lparr>cs_items := AList.delete k (cs_items s)\<rparr>"

lemma length_updEntry [simp]: "length (updEntry p f xs) = length xs"
  by (simp add: updEntry_def split: option.splits)

lemma fst_updEntry [simp]: "map fst (updEntry p f xs) = map fst xs"
  by (auto simp: updEntry_def split: option.splits)

lemma fst_removeEntry [simp]: "map fst (cs_items (removeEntry k s)) = map fst (cs_items s)"
  by (simp add: removeEntry_def Let_def split: option.splits)

lemma map_of_updEntry:
  "map_of (updEntry p f xs) k = (if p = Some k then map_option f (map_of xs k) else map_of xs k)"
  by (induction xs) (auto simp: updEntry_def split: option.splits if_splits)

lemma length_AList_delete_less: "k \<in> fst ` set xs \<Longrightarrow> length (AList.delete k xs) < length xs"
  by (induction xs) (force simp: less_Suc_eq_le length_delete_le)+

lemma fst_set_removeEntry [simp]: "fst ` set (cs_items (removeEntry k s)) = fst ` set (cs_items s)"
  by (metis fst_removeEntry list.set_map)

lemma length_items_removeEntry [simp]: "length (cs_items (removeEntry k s)) = length (cs_items s)"
  by (metis fst_removeEntry length_map)

function evictUntilBudget :: "cacheShard \<Rightarrow> cacheShard" where
  "evictUntilBudget s =
     (if cs_budget s < cs_total s then
        (case cs_tail s of None \<Rightarrow> s
         | Some t \<Rightarrow> (case map_of (cs_items s) t of None \<Rightarrow> s
             | Some victim \<Rightarrow>
                 evictUntilBudget (deleteItem t ((removeEntry t s)\<lparr>cs_total := cs_total s - le_size victim\<rparr>))))
      else s)"
  by pat_completeness auto
termination
proof (relation "measure (\<lambda>s. length (cs_items s))")
  fix s :: cacheShard and t victim assume "map_of (cs_items s) t = Some victim"
  then have "t \<in> fst ` set (cs_items (removeEntry t s))"
    by (metis fst_set_removeEntry map_of_eq_None_iff option.distinct(1))
  then show "(deleteItem t ((removeEntry t s)\<lparr>cs_total := cs_total s - le_size victim\<rparr>), s)
      \<in> measure (\<lambda>s. length (cs_items s))"
    using length_AList_delete_less by (fastforce simp: deleteItem_def)
qed simp

declare evictUntilBudget.simps [simp del]

section \<open>Operations of one shard\<close>

definition shardGet :: "NodeID \<Rightarrow> cacheShard \<Rightarrow> Node option \<times> cacheShard" where
  "shardGet k s = (case map_of (cs_items s) k of None \<Rightarrow> (None, s)
     | Some e \<Rightarrow> (Some (le_node e), moveToFront k s))"

definition shardPut :: "Node \<Rightarrow> cacheShard \<Rightarrow> cacheShard" where
  "shardPut node s =
     (let k = n_id node; size = estimateNodeBytes node
      in case map_of (cs_items s) k of
           Some e \<Rightarrow>
             evictUntilBudget (moveToFront k
               (s\<lparr>cs_total := cs_total s + (size - le_size e),
                  cs_items := updEntry (Some k) (\<lambda>e. e\<lparr>le_node := node, le_size := size\<rparr>) (cs_items s)\<rparr>))
         | None \<Rightarrow>
             let s1 = s\<lparr>cs_items := (k, \<lparr>le_key = k, le_node = node, le_size = size, le_prev = None, le_next = None\<rparr>) # cs_items s\<rparr>;
                 s2 = pushFront k s1
             in evictUntilBudget (s2\<lparr>cs_total := cs_total s2 + size\<rparr>))"

definition shardInvalidate :: "NodeID \<Rightarrow> cacheShard \<Rightarrow> cacheShard" where
  "shardInvalidate k s = (case map_of (cs_items s) k of None \<Rightarrow> s
     | Some e \<Rightarrow> deleteItem k (removeEntry k (s\<lparr>cs_total := cs_total s - le_size e\<rparr>)))"

section \<open>The sharded cache\<close>

abbreviation cacheShardCount :: nat where "cacheShardCount \<equiv> 16"

definition newCacheShard :: "int \<Rightarrow> cacheShard" where
  "newCacheShard perShard = \<lparr>cs_items = [], cs_head = None, cs_tail = None, cs_budget = perShard, cs_total = 0\<rparr>"

text \<open>Go's integer division truncates toward zero.\<close>

definition newNodeCache :: "int \<Rightarrow> nodeCache" where
  "newNodeCache budget =
     (let q = (if 0 \<le> budget then budget div 16 else - ((- budget) div 16));
          perShard = (if q < 1 then 1 else q)
      in \<lparr>nc_shards = replicate cacheShardCount (newCacheShard perShard),
          nc_shardMask = word_of_nat (cacheShardCount - 1), nc_budget = budget\<rparr>)"

definition cshard :: "nodeCache \<Rightarrow> NodeID \<Rightarrow> nat" where
  "cshard nc i = unat (and i (nc_shardMask nc))"

definition nc_Get :: "NodeID \<Rightarrow> nodeCache \<Rightarrow> Node option \<times> nodeCache" where
  "nc_Get i nc = (if nc_budget nc \<le> 0 then (None, nc)
     else let j = cshard nc i; r = shardGet i (nc_shards nc ! j)
          in (fst r, nc\<lparr>nc_shards := (nc_shards nc)[j := snd r]\<rparr>))"

definition nc_Put :: "Node \<Rightarrow> nodeCache \<Rightarrow> nodeCache" where
  "nc_Put node nc = (if nc_budget nc \<le> 0 then nc
     else let j = cshard nc (n_id node)
          in nc\<lparr>nc_shards := (nc_shards nc)[j := shardPut node (nc_shards nc ! j)]\<rparr>)"

definition nc_Invalidate :: "NodeID \<Rightarrow> nodeCache \<Rightarrow> nodeCache" where
  "nc_Invalidate i nc = (if nc_budget nc \<le> 0 then nc
     else let j = cshard nc i
          in nc\<lparr>nc_shards := (nc_shards nc)[j := shardInvalidate i (nc_shards nc ! j)]\<rparr>)"

definition nc_Len :: "nodeCache \<Rightarrow> nat" where
  "nc_Len nc = (if nc_budget nc \<le> 0 then 0 else sum_list (map (\<lambda>s. length (cs_items s)) (nc_shards nc)))"

definition nc_TotalBytes :: "nodeCache \<Rightarrow> int" where
  "nc_TotalBytes nc = (if nc_budget nc \<le> 0 then 0 else sum_list (map cs_total (nc_shards nc)))"

section \<open>The pointer structure is a list\<close>

text \<open>
  \<open>seg m p ks q\<close>: following the \<open>next\<close> pointers from the first key of \<open>ks\<close> runs through
  exactly \<open>ks\<close>, every \<open>prev\<close> pointer is the inverse, the first \<open>prev\<close> is \<open>p\<close> and the last
  \<open>next\<close> is \<open>q\<close>.
\<close>

fun seg :: "(NodeID \<rightharpoonup> lruEntry) \<Rightarrow> NodeID option \<Rightarrow> NodeID list \<Rightarrow> NodeID option \<Rightarrow> bool" where
  "seg m p [] q = True"
| "seg m p (k # ks) q = (\<exists>e. m k = Some e \<and> le_prev e = p \<and>
      le_next e = (if ks = [] then q else Some (hd ks)) \<and> seg m (Some k) ks q)"

definition listHead :: "NodeID list \<Rightarrow> NodeID option \<Rightarrow> NodeID option" where
  "listHead ks q = (if ks = [] then q else Some (hd ks))"

definition listLast :: "NodeID list \<Rightarrow> NodeID option \<Rightarrow> NodeID option" where
  "listLast ks p = (if ks = [] then p else Some (last ks))"

lemmas list_ends = listHead_def listLast_def

lemma seg_append: "seg m p (xs @ ys) q \<longleftrightarrow> seg m p xs (listHead ys q) \<and> seg m (listLast xs p) ys q"
  by (induction xs arbitrary: p) (auto simp: list_ends)

lemma seg_cong: "seg m p ks q \<Longrightarrow> (\<And>k. k \<in> set ks \<Longrightarrow> m' k = m k) \<Longrightarrow> seg m' p ks q"
  by (induction ks arbitrary: p) auto

lemma seg_last: "seg m p (ks @ [k]) q \<Longrightarrow> \<exists>e. m k = Some e \<and> le_prev e = listLast ks p \<and> le_next e = q"
  by (simp add: seg_append)

text \<open>Unlinking the middle of a chain joins its two ends.\<close>

lemma seg_unlink_left:
  assumes "seg m p as (Some k)" and "distinct as" and "k \<notin> set as"
    and "\<And>x. x \<in> set as \<Longrightarrow> m' x = (if listLast as None = Some x then map_option (\<lambda>e. e\<lparr>le_next := q\<rparr>) (m x) else m x)"
  shows "seg m' p as q"
proof (cases as rule: rev_exhaust)
  case (snoc xs x)
  then obtain e where e: "m x = Some e" "le_prev e = listLast xs p" and xs: "seg m p xs (Some x)"
    using assms(1) by (auto simp: seg_append list_ends)
  have "seg m' p xs (Some x)"
    by (rule seg_cong [OF xs]) (use assms(2,4) snoc in \<open>auto simp: list_ends\<close>)
  moreover have "m' x = Some (e\<lparr>le_next := q\<rparr>)"
    using assms(4) [of x] snoc e by (simp add: list_ends)
  ultimately show ?thesis using snoc e by (simp add: seg_append list_ends)
qed simp

lemma seg_unlink_right:
  assumes "seg m (Some k) bs q" and "distinct bs"
    and "\<And>x. x \<in> set bs \<Longrightarrow> m' x = (if listHead bs None = Some x then map_option (\<lambda>e. e\<lparr>le_prev := p\<rparr>) (m x) else m x)"
  shows "seg m' p bs q"
proof (cases bs)
  case (Cons x xs)
  then obtain e where e: "m x = Some e" "le_next e = listHead xs q" and xs: "seg m (Some x) xs q"
    using assms(1) by (auto simp: list_ends)
  have "seg m' (Some x) xs q"
    by (rule seg_cong [OF xs]) (use assms(2,3) Cons in \<open>auto simp: list_ends\<close>)
  moreover have "m' x = Some (e\<lparr>le_prev := p\<rparr>)"
    using assms(3) [of x] Cons e by (simp add: list_ends)
  ultimately show ?thesis using Cons e by (simp add: list_ends)
qed simp

declare map_of_eq_Some_iff [simp del] Some_eq_map_of_iff [simp del]

definition chain :: "cacheShard \<Rightarrow> NodeID list \<Rightarrow> bool" where
  "chain s ks \<longleftrightarrow> distinct ks \<and> distinct (map fst (cs_items s)) \<and> seg (map_of (cs_items s)) None ks None \<and>
     cs_head s = listHead ks None \<and> cs_tail s = listLast ks None"

text \<open>What the pointers of an entry do not touch.\<close>

definition pay :: "cacheShard \<Rightarrow> NodeID \<rightharpoonup> NodeID \<times> Node \<times> int" where
  "pay s k = map_option (\<lambda>e. (le_key e, le_node e, le_size e)) (map_of (cs_items s) k)"

lemma chain_total [simp]: "chain (s\<lparr>cs_total := t\<rparr>) ks = chain s ks"
  by (simp add: chain_def)

lemma pay_total [simp]: "pay (s\<lparr>cs_total := t\<rparr>) = pay s"
  by (simp add: pay_def fun_eq_iff)

lemma pay_removeEntry [simp]: "pay (removeEntry k s) = pay s"
  by (auto simp: pay_def fun_eq_iff removeEntry_def Let_def map_of_updEntry option.map_comp comp_def split: option.splits)

lemma pay_pushFront [simp]: "pay (pushFront k s) = pay s"
  by (auto simp: pay_def fun_eq_iff pushFront_def Let_def map_of_updEntry option.map_comp comp_def)

lemma pay_moveToFront [simp]: "pay (moveToFront k s) = pay s"
  by (simp add: moveToFront_def)

lemma pay_deleteItem: "pay (deleteItem k s) = (pay s)(k := None)"
  by (auto simp: pay_def fun_eq_iff deleteItem_def delete_conv')

lemma total_simps [simp]:
  "cs_total (removeEntry k s) = cs_total s" "cs_total (pushFront k s) = cs_total s"
  "cs_total (moveToFront k s) = cs_total s" "cs_total (deleteItem k s) = cs_total s"
  "cs_budget (removeEntry k s) = cs_budget s" "cs_budget (pushFront k s) = cs_budget s"
  "cs_budget (moveToFront k s) = cs_budget s" "cs_budget (deleteItem k s) = cs_budget s"
  by (simp_all add: removeEntry_def pushFront_def moveToFront_def deleteItem_def Let_def split: option.splits)

lemma chain_dom: "chain s ks \<Longrightarrow> k \<in> set ks \<Longrightarrow> map_of (cs_items s) k \<noteq> None"
proof -
  have "seg m p ks q \<Longrightarrow> k \<in> set ks \<Longrightarrow> m k \<noteq> None" for m p q
    by (induction ks arbitrary: p) auto
  then show "chain s ks \<Longrightarrow> k \<in> set ks \<Longrightarrow> map_of (cs_items s) k \<noteq> None"
    by (auto simp: chain_def)
qed

lemma chain_remove:
  assumes "chain s (as @ k # bs)"
  shows "chain (removeEntry k s) (as @ bs)"
proof -
  let ?m = "map_of (cs_items s)" and ?m' = "map_of (cs_items (removeEntry k s))"
  have d: "distinct (as @ k # bs)" and as: "seg ?m None as (Some k)" and bs: "seg ?m (Some k) bs None"
    using assms by (auto simp: chain_def seg_append list_ends)
  obtain e where e: "?m k = Some e" "le_prev e = listLast as None" "le_next e = listHead bs None"
    using assms by (auto simp: chain_def seg_append list_ends)
  have disj: "listLast as None = Some x \<Longrightarrow> listHead bs None \<noteq> Some x" for x
    using d by (auto simp: list_ends split: if_splits) (metis IntI empty_iff hd_in_set last_in_set)
  have inas: "x \<noteq> k \<and> listHead bs None \<noteq> Some x" if "x \<in> set as" for x
    using that d by (auto simp: list_ends)
  have inbs: "x \<noteq> k \<and> listLast as None \<noteq> Some x" if "x \<in> set bs" for x
    using that d by (auto simp: list_ends) (metis IntI empty_iff last_in_set)
  have m': "?m' x = (if listLast as None = Some x then map_option (\<lambda>e. e\<lparr>le_next := listHead bs None\<rparr>) (?m x)
      else if listHead bs None = Some x then map_option (\<lambda>e. e\<lparr>le_prev := listLast as None\<rparr>) (?m x) else ?m x)"
    if "x \<noteq> k" for x
    using that e disj by (auto simp: removeEntry_def Let_def map_of_updEntry)
  have "seg ?m' None as (listHead bs None)"
    by (rule seg_unlink_left [OF as]) (use d m' inas in \<open>simp_all\<close>)
  moreover have "seg ?m' (listLast as None) bs None"
    by (rule seg_unlink_right [OF bs]) (use d m' inbs in \<open>simp_all\<close>)
  moreover have "cs_head (removeEntry k s) = listHead (as @ bs) None"
    using assms e by (auto simp: removeEntry_def Let_def chain_def list_ends)
  moreover have "cs_tail (removeEntry k s) = listLast (as @ bs) None"
    using assms e by (auto simp: removeEntry_def Let_def chain_def list_ends)
  moreover have "distinct (map fst (cs_items (removeEntry k s)))"
    using assms by (simp only: fst_removeEntry chain_def)
  ultimately show ?thesis using d by (simp add: chain_def seg_append)
qed

lemma chain_push:
  assumes "chain s ks" and "k \<notin> set ks" and "map_of (cs_items s) k \<noteq> None"
  shows "chain (pushFront k s) (k # ks)"
proof -
  let ?m = "map_of (cs_items s)" and ?m' = "map_of (cs_items (pushFront k s))"
  have ks: "distinct ks" "seg ?m None ks None" "cs_head s = listHead ks None" "cs_tail s = listLast ks None"
    using assms(1) by (auto simp: chain_def)
  have m': "?m' x = (if listHead ks None = Some x then map_option (\<lambda>e. e\<lparr>le_prev := Some k\<rparr>) (?m x) else ?m x)"
    if "x \<noteq> k" for x
    using that ks by (auto simp: pushFront_def Let_def map_of_updEntry)
  have "seg ?m' (Some k) ks None"
  proof (cases ks)
    case (Cons x xs)
    then obtain e where e: "?m x = Some e" "le_next e = listHead xs None" and xs: "seg ?m (Some x) xs None"
      using ks(2) by (auto simp: list_ends)
    have same: "?m' y = ?m y" if "y \<in> set xs" for y
    proof -
      have "y \<noteq> k" "x \<noteq> y" using that ks(1) assms(2) Cons by auto
      then show ?thesis using m' [of y] Cons by (simp add: list_ends)
    qed
    have "seg ?m' (Some x) xs None"
      by (rule seg_cong [OF xs same])
    moreover have "?m' x = Some (e\<lparr>le_prev := Some k\<rparr>)"
      using m' [of x] Cons e assms(2) by (auto simp: list_ends)
    ultimately show ?thesis using Cons e by (simp add: list_ends)
  qed simp
  moreover have "listHead ks None \<noteq> Some k"
    using assms(2) by (auto simp: list_ends)
  then obtain e where "?m' k = Some e" "le_prev e = None" "le_next e = listHead ks None"
    using assms(3) ks(3) by (auto simp: pushFront_def Let_def map_of_updEntry)
  ultimately show ?thesis
    using assms ks by (auto simp: chain_def pushFront_def Let_def list_ends)
qed

lemma chain_delete:
  assumes "chain s ks" and "k \<notin> set ks"
  shows "chain (deleteItem k s) ks"
proof -
  have "seg (map_of (AList.delete k (cs_items s))) None ks None"
    by (rule seg_cong [of "map_of (cs_items s)"]) (use assms in \<open>auto simp: chain_def delete_conv'\<close>)
  then show ?thesis using assms by (simp add: chain_def deleteItem_def distinct_delete)
qed

lemma chain_front:
  assumes "chain s (as @ k # bs)"
  shows "chain (moveToFront k s) (k # as @ bs)"
proof (cases "as = []")
  case True
  then show ?thesis using assms by (simp add: moveToFront_def chain_def list_ends)
next
  case False
  have notin: "k \<notin> set (as @ bs)" using assms by (auto simp: chain_def)
  then have "cs_head s \<noteq> Some k"
    using False assms by (auto simp: chain_def list_ends hd_append)
  moreover have "map_of (cs_items (removeEntry k s)) k \<noteq> None"
    using chain_dom [OF assms, of k] by (simp del: not_None_eq add: map_of_eq_None_iff)
  ultimately show ?thesis
    using chain_push [OF chain_remove [OF assms], of k] notin by (simp add: moveToFront_def)
qed

section \<open>The abstract LRU list\<close>

text \<open>
  The specification of one shard: the cached nodes, most recently used first. Putting a node
  moves it to the front and then drops nodes from the back until the total size fits.
\<close>

definition lru_bytes :: "Node list \<Rightarrow> int" where
  "lru_bytes xs = sum_list (map estimateNodeBytes xs)"

definition lru_drop :: "NodeID \<Rightarrow> Node list \<Rightarrow> Node list" where
  "lru_drop k xs = filter (\<lambda>n. n_id n \<noteq> k) xs"

definition lru_find :: "NodeID \<Rightarrow> Node list \<Rightarrow> Node option" where
  "lru_find k xs = find (\<lambda>n. n_id n = k) xs"

definition lru_touch :: "NodeID \<Rightarrow> Node list \<Rightarrow> Node list" where
  "lru_touch k xs = (case lru_find k xs of None \<Rightarrow> xs | Some n \<Rightarrow> n # lru_drop k xs)"

function lru_evict :: "int \<Rightarrow> Node list \<Rightarrow> Node list" where
  "lru_evict b xs = (if xs \<noteq> [] \<and> b < lru_bytes xs then lru_evict b (butlast xs) else xs)"
  by pat_completeness auto
termination by (relation "measure (\<lambda>(b, xs). length xs)") auto

declare lru_evict.simps [simp del]

definition lru_put :: "int \<Rightarrow> Node \<Rightarrow> Node list \<Rightarrow> Node list" where
  "lru_put b n xs = lru_evict b (n # lru_drop (n_id n) xs)"

definition lru_rel :: "cacheShard \<Rightarrow> Node list \<Rightarrow> bool" where
  "lru_rel s xs \<longleftrightarrow> chain s (map n_id xs) \<and>
     pay s = map_of (map (\<lambda>n. (n_id n, n_id n, n, estimateNodeBytes n)) xs) \<and>
     cs_total s = lru_bytes xs"

lemma estimateValueBytes_nonneg: "0 \<le> estimateValueBytes v"
proof (induction v)
  case (VList vs)
  then have "0 \<le> sum_list (map estimateValueBytes vs)" by (intro sum_list_nonneg) auto
  then show ?case by simp
next
  case (VMap kvs)
  then have "0 \<le> sum_list (map (\<lambda>kt. 16 + int (length (fst kt)) + snd kt) (map (map_prod id estimateValueBytes) kvs))"
    by (intro sum_list_nonneg) (force simp: snds.simps)
  then show ?case by simp
qed auto

lemma estimateNodeBytes_pos: "0 < estimateNodeBytes n"
proof -
  have "0 \<le> sum_list (map (\<lambda>l. 16 + int (length l)) (n_labels n))" by (intro sum_list_nonneg) auto
  moreover have "0 \<le> sum_list (map (\<lambda>(k, v). 16 + int (length k) + estimateValueBytes v) (n_props n))"
    by (intro sum_list_nonneg) (auto simp: estimateValueBytes_nonneg)
  ultimately show ?thesis by (simp add: estimateNodeBytes_def)
qed

lemma lru_evict_prefix: "prefix (lru_evict b xs) xs"
proof (induction b xs rule: lru_evict.induct)
  case (1 b xs)
  show ?case
  proof (cases "xs \<noteq> [] \<and> b < lru_bytes xs")
    case True
    then have "prefix (lru_evict b (butlast xs)) (butlast xs)" using 1 by blast
    moreover have "prefix (butlast xs) xs" by (metis append_butlast_last_id prefixI prefix_order.refl butlast.simps(1))
    ultimately show ?thesis using True by (simp add: lru_evict.simps [of b xs])
  qed (auto simp add: lru_evict.simps [of b xs])
qed

lemma lru_evict_fits: "0 \<le> b \<Longrightarrow> lru_bytes (lru_evict b xs) \<le> b"
proof (induction b xs rule: lru_evict.induct)
  case (1 b xs)
  then show ?case by (subst lru_evict.simps) (auto simp: lru_bytes_def)
qed

lemma lru_evict_keeps: "lru_bytes xs \<le> b \<Longrightarrow> lru_evict b xs = xs"
  by (subst lru_evict.simps) auto

text \<open>Eviction stops as soon as the list fits: one node more would not.\<close>

lemma lru_evict_maximal:
  assumes "lru_evict b xs \<noteq> xs"
  shows "b < lru_bytes (take (Suc (length (lru_evict b xs))) xs)"
  using assms
proof (induction b xs rule: lru_evict.induct)
  case (1 b xs)
  then have c: "xs \<noteq> []" "b < lru_bytes xs" and e: "lru_evict b xs = lru_evict b (butlast xs)"
    by (auto simp: lru_evict.simps [of b xs] split: if_splits)
  show ?case
  proof (cases "lru_evict b (butlast xs) = butlast xs")
    case True
    then show ?thesis using c e by simp
  next
    case False
    then have "b < lru_bytes (take (Suc (length (lru_evict b (butlast xs)))) (butlast xs))"
      using 1 c by blast
    moreover have "length (lru_evict b (butlast xs)) < length (butlast xs)"
      using lru_evict_prefix [of b "butlast xs"] False
      by (metis le_neq_implies_less prefix_length_le prefix_order.antisym prefix_order.refl take_all prefix_def append_eq_conv_conj)
    ultimately show ?thesis using e by (simp add: take_butlast)
  qed
qed

section \<open>The shard implements the LRU list\<close>

lemma lru_find_None: "lru_find k xs = None \<longleftrightarrow> k \<notin> n_id ` set xs"
  by (auto simp: lru_find_def find_None_iff)

lemma lru_find_Some: "lru_find k xs = Some n \<Longrightarrow> n \<in> set xs \<and> n_id n = k"
  by (auto simp: lru_find_def find_Some_iff)

lemma lru_drop_id: "k \<notin> n_id ` set xs \<Longrightarrow> lru_drop k xs = xs"
  by (auto simp: lru_drop_def filter_id_conv)

lemma lru_drop_split:
  assumes "distinct (map n_id (as @ n # bs))"
  shows "lru_drop (n_id n) (as @ n # bs) = as @ bs"
proof -
  have "lru_drop (n_id n) as = as" "lru_drop (n_id n) bs = bs"
    using assms by (auto intro!: lru_drop_id)
  then show ?thesis by (simp add: lru_drop_def)
qed

lemma lru_find_mem: "distinct (map n_id xs) \<Longrightarrow> n \<in> set xs \<Longrightarrow> lru_find (n_id n) xs = Some n"
  by (induction xs) (auto simp: lru_find_def)

lemma lru_rel_distinct: "lru_rel s xs \<Longrightarrow> distinct (map n_id xs)"
  by (simp add: lru_rel_def chain_def)

lemma lru_rel_lookup:
  assumes "lru_rel s xs"
  shows "map_option le_node (map_of (cs_items s) k) = lru_find k xs"
    and "map_of (cs_items s) k = Some e \<Longrightarrow> le_size e = estimateNodeBytes (le_node e)"
    and "map_of (cs_items s) k = Some e \<Longrightarrow> le_key e = k"
proof -
  have d: "distinct (map n_id xs)" using assms by (rule lru_rel_distinct)
  have m: "map_of (map (\<lambda>n. (n_id n, n_id n, n, estimateNodeBytes n)) xs) k =
      map_option (\<lambda>n. (k, n, estimateNodeBytes n)) (lru_find k xs)"
    using d by (induction xs) (auto simp: lru_find_def)
  have "pay s k = map_option (\<lambda>n. (k, n, estimateNodeBytes n)) (lru_find k xs)"
    using assms m by (simp add: lru_rel_def)
  then show "map_option le_node (map_of (cs_items s) k) = lru_find k xs"
    and "map_of (cs_items s) k = Some e \<Longrightarrow> le_size e = estimateNodeBytes (le_node e)"
    and "map_of (cs_items s) k = Some e \<Longrightarrow> le_key e = k"
    by (cases "map_of (cs_items s) k"; cases "lru_find k xs"; simp add: pay_def)+
qed

lemma lru_rel_new: "lru_rel (newCacheShard b) []"
  by (auto simp: lru_rel_def newCacheShard_def chain_def list_ends pay_def lru_bytes_def)

lemma lru_bytes_simps [simp]:
  "lru_bytes [] = 0" "lru_bytes (n # xs) = estimateNodeBytes n + lru_bytes xs"
  "lru_bytes (xs @ ys) = lru_bytes xs + lru_bytes ys"
  by (simp_all add: lru_bytes_def)

lemma pay_map_of_perm:
  assumes "distinct (map n_id xs)" and "mset ys = mset xs"
  shows "map_of (map (\<lambda>n. (n_id n, n_id n, n, estimateNodeBytes n)) ys)
       = map_of (map (\<lambda>n. (n_id n, n_id n, n, estimateNodeBytes n)) xs)"
proof -
  have "distinct (map n_id ys)"
    using assms by (metis mset_eq_imp_distinct_iff mset_map)
  moreover have "set ys = set xs" using assms(2) by (metis set_mset_mset)
  ultimately show ?thesis
    using assms(1) by (subst map_of_inject_set) (simp_all add: comp_def)
qed

text \<open>One removal: unlink an entry, subtract its size, delete it from the map.\<close>

lemma lru_rel_remove:
  assumes "lru_rel s (as @ n # bs)" and "t = cs_total s - estimateNodeBytes n"
  shows "lru_rel (deleteItem (n_id n) ((removeEntry (n_id n) s)\<lparr>cs_total := t\<rparr>)) (as @ bs)"
proof -
  have d: "distinct (map n_id (as @ n # bs))" using assms(1) by (rule lru_rel_distinct)
  have "chain (removeEntry (n_id n) s) (map n_id as @ map n_id bs)"
    using assms(1) by (intro chain_remove) (simp add: lru_rel_def)
  then have "chain (deleteItem (n_id n) ((removeEntry (n_id n) s)\<lparr>cs_total := t\<rparr>)) (map n_id as @ map n_id bs)"
    using d by (intro chain_delete) auto
  moreover have "map_of (map (\<lambda>n. (n_id n, n_id n, n, estimateNodeBytes n)) (as @ bs)) (n_id n) = None"
    using d by (auto simp: map_of_eq_None_iff)
  then have "pay (deleteItem (n_id n) ((removeEntry (n_id n) s)\<lparr>cs_total := t\<rparr>))
      = map_of (map (\<lambda>n. (n_id n, n_id n, n, estimateNodeBytes n)) (as @ bs))"
    using assms(1) by (auto simp: pay_deleteItem lru_rel_def fun_eq_iff map_add_def split: option.splits)
  ultimately show ?thesis using assms by (simp add: lru_rel_def)
qed

lemma evictUntilBudget_lru:
  "lru_rel s xs \<Longrightarrow> lru_rel (evictUntilBudget s) (lru_evict (cs_budget s) xs)
     \<and> cs_budget (evictUntilBudget s) = cs_budget s"
proof (induction s arbitrary: xs rule: evictUntilBudget.induct)
  case (1 s)
  have tot: "cs_total s = lru_bytes xs" using 1 by (simp add: lru_rel_def)
  show ?case
  proof (cases "cs_budget s < cs_total s \<and> xs \<noteq> []")
    case True
    then obtain as n where xs: "xs = as @ [n]" by (metis rev_exhaust)
    have tail: "cs_tail s = Some (n_id n)"
      using 1(2) by (simp add: lru_rel_def chain_def list_ends xs)
    have "lru_find (n_id n) xs = Some n"
      using lru_find_mem [OF lru_rel_distinct [OF 1(2)], of n] by (simp add: xs)
    then obtain e where e: "map_of (cs_items s) (n_id n) = Some e" "le_node e = n" "le_size e = estimateNodeBytes n"
      using lru_rel_lookup [OF 1(2), of "n_id n"] by auto
    let ?s' = "deleteItem (n_id n) ((removeEntry (n_id n) s)\<lparr>cs_total := cs_total s - le_size e\<rparr>)"
    have "lru_rel ?s' as" using lru_rel_remove [of s as n "[]"] 1(2) e by (simp add: xs)
    moreover have "cs_budget ?s' = cs_budget s" by simp
    ultimately show ?thesis
      using 1(1) [OF _ tail e(1)] True tail e xs tot
      by (simp add: evictUntilBudget.simps [of s] lru_evict.simps [of _ "as @ [n]"])
  next
    case False
    then have "evictUntilBudget s = s"
      using 1(2) by (auto simp: evictUntilBudget.simps [of s] lru_rel_def chain_def list_ends)
    moreover have "lru_evict (cs_budget s) xs = xs"
      using False tot by (auto simp: lru_evict.simps [of _ xs])
    ultimately show ?thesis using 1(2) by simp
  qed
qed

lemma shardInvalidate_lru:
  assumes "lru_rel s xs"
  shows "lru_rel (shardInvalidate k s) (lru_drop k xs) \<and> cs_budget (shardInvalidate k s) = cs_budget s"
proof (cases "lru_find k xs")
  case None
  then have "map_of (cs_items s) k = None" using lru_rel_lookup(1) [OF assms, of k] by simp
  then show ?thesis
    using assms None by (simp add: shardInvalidate_def lru_drop_id lru_find_None)
next
  case (Some n)
  then obtain as bs where xs: "xs = as @ n # bs" and k: "n_id n = k"
    using lru_find_Some by (metis split_list)
  obtain e where e: "map_of (cs_items s) k = Some e" "le_size e = estimateNodeBytes n"
    using lru_rel_lookup [OF assms, of k] Some by auto
  have "(removeEntry k (s\<lparr>cs_total := t\<rparr>)) = (removeEntry k s)\<lparr>cs_total := t\<rparr>" for t
    by (simp add: removeEntry_def Let_def split: option.splits)
  then show ?thesis
    using lru_rel_remove [of s as n bs] assms e k lru_drop_split [of as n bs] lru_rel_distinct [OF assms]
    by (simp add: shardInvalidate_def xs)
qed

lemma chain_updEntry:
  assumes "chain s ks" and "\<And>e. le_prev (f e) = le_prev e \<and> le_next (f e) = le_next e"
  shows "chain (s\<lparr>cs_items := updEntry p f (cs_items s)\<rparr>) ks"
proof -
  have "seg m q ks r \<Longrightarrow> seg (\<lambda>k. if p = Some k then map_option f (m k) else m k) q ks r" for m q r
    by (induction ks arbitrary: q) (auto simp: assms(2))
  moreover have "map_of (updEntry p f (cs_items s)) = (\<lambda>k. if p = Some k then map_option f (map_of (cs_items s) k) else map_of (cs_items s) k)"
    by (simp add: fun_eq_iff map_of_updEntry)
  ultimately show ?thesis using assms(1) by (auto simp: chain_def)
qed

lemma moveToFront_lru:
  assumes "chain s (map n_id (as @ n # bs))"
    and "pay s = map_of (map (\<lambda>n. (n_id n, n_id n, n, estimateNodeBytes n)) (as @ n # bs))"
    and "cs_total s = lru_bytes (as @ n # bs)"
  shows "lru_rel (moveToFront (n_id n) s) (n # as @ bs)"
proof -
  have "distinct (map n_id (as @ n # bs))" using assms(1) by (simp add: chain_def)
  then show ?thesis
    using assms chain_front [of s "map n_id as" "n_id n" "map n_id bs"]
      pay_map_of_perm [of "as @ n # bs" "n # as @ bs"]
    by (simp add: lru_rel_def)
qed

lemma shardGet_lru:
  assumes "lru_rel s xs"
  shows "fst (shardGet k s) = lru_find k xs" and "lru_rel (snd (shardGet k s)) (lru_touch k xs)"
    and "cs_budget (snd (shardGet k s)) = cs_budget s"
proof -
  show "fst (shardGet k s) = lru_find k xs"
    using lru_rel_lookup(1) [OF assms, of k] by (auto simp: shardGet_def split: option.splits)
  show "cs_budget (snd (shardGet k s)) = cs_budget s"
    by (simp add: shardGet_def split: option.splits)
  show "lru_rel (snd (shardGet k s)) (lru_touch k xs)"
  proof (cases "lru_find k xs")
    case None
    then show ?thesis
      using assms lru_rel_lookup(1) [OF assms, of k] by (simp add: shardGet_def lru_touch_def)
  next
    case (Some n)
    then obtain as bs where xs: "xs = as @ n # bs" and k: "n_id n = k"
      using lru_find_Some by (metis split_list)
    obtain e where "map_of (cs_items s) k = Some e"
      using lru_rel_lookup(1) [OF assms, of k] Some by auto
    then show ?thesis
      using moveToFront_lru [of s as n bs] assms Some k lru_drop_split [of as n bs] lru_rel_distinct [OF assms]
      by (simp add: shardGet_def lru_touch_def xs lru_rel_def)
  qed
qed

lemma shardPut_lru:
  assumes "lru_rel s xs"
  shows "lru_rel (shardPut n s) (lru_put (cs_budget s) n xs) \<and> cs_budget (shardPut n s) = cs_budget s"
proof (cases "lru_find (n_id n) xs")
  case None
  let ?k = "n_id n"
  let ?s1 = "s\<lparr>cs_items := (?k, \<lparr>le_key = ?k, le_node = n, le_size = estimateNodeBytes n, le_prev = None, le_next = None\<rparr>) # cs_items s\<rparr>"
  let ?s2 = "(pushFront ?k ?s1)\<lparr>cs_total := cs_total s + estimateNodeBytes n\<rparr>"
  have m: "map_of (cs_items s) ?k = None" and nin: "?k \<notin> n_id ` set xs"
    using lru_rel_lookup(1) [OF assms, of ?k] None by (simp_all add: lru_find_None)
  have "map_of (cs_items ?s1) y = map_of (cs_items s) y" if "y \<in> set (map n_id xs)" for y
  proof -
    have "y \<noteq> ?k" using that nin by (metis list.set_map)
    then show ?thesis by simp
  qed
  then have "seg (map_of (cs_items ?s1)) None (map n_id xs) None"
    using assms seg_cong [of "map_of (cs_items s)"] by (simp only: lru_rel_def chain_def)
  then have "chain ?s1 (map n_id xs)"
    using assms m by (auto simp: lru_rel_def chain_def map_of_eq_None_iff)
  then have "chain (pushFront ?k ?s1) (?k # map n_id xs)"
    using nin by (intro chain_push) auto
  moreover have "pay ?s1 = map_of (map (\<lambda>n. (n_id n, n_id n, n, estimateNodeBytes n)) (n # xs))"
    using assms by (auto simp: lru_rel_def pay_def fun_eq_iff)
  ultimately have "lru_rel ?s2 (n # xs)"
    using assms by (simp add: lru_rel_def)
  from evictUntilBudget_lru [OF this] show ?thesis
    using m nin by (simp add: shardPut_def Let_def lru_put_def lru_drop_id)
next
  case (Some n0)
  then obtain as bs where xs: "xs = as @ n0 # bs" and k: "n_id n0 = n_id n"
    using lru_find_Some by (metis split_list)
  obtain e where e: "map_of (cs_items s) (n_id n) = Some e" "le_size e = estimateNodeBytes n0"
    using lru_rel_lookup [OF assms, of "n_id n"] Some by auto
  let ?s1 = "s\<lparr>cs_total := cs_total s + (estimateNodeBytes n - le_size e),
      cs_items := updEntry (Some (n_id n)) (\<lambda>e. e\<lparr>le_node := n, le_size := estimateNodeBytes n\<rparr>) (cs_items s)\<rparr>"
  have d: "distinct (map n_id (as @ n # bs))" using lru_rel_distinct [OF assms] xs k by simp
  have "chain ?s1 (map n_id (as @ n # bs))"
    using chain_updEntry [of "s\<lparr>cs_total := cs_total s + (estimateNodeBytes n - le_size e)\<rparr>"] assms xs k
    by (simp add: lru_rel_def)
  moreover have "pay ?s1 = map_of (map (\<lambda>n. (n_id n, n_id n, n, estimateNodeBytes n)) (as @ n # bs))"
  proof
    fix j
    have "pay s j = map_of (map (\<lambda>n. (n_id n, n_id n, n, estimateNodeBytes n)) xs) j"
      using assms by (simp add: lru_rel_def)
    moreover have "le_key e = n_id n" using lru_rel_lookup(3) [OF assms e(1)] .
    moreover have "map_of (map (\<lambda>n. (n_id n, n_id n, n, estimateNodeBytes n)) as) (n_id n) = None"
      using d by (auto simp: map_of_eq_None_iff)
    ultimately show "pay ?s1 j = map_of (map (\<lambda>n. (n_id n, n_id n, n, estimateNodeBytes n)) (as @ n # bs)) j"
      using e k by (cases "j = n_id n") (simp_all add: pay_def map_of_updEntry xs map_add_def split: option.splits)
  qed
  moreover have "cs_total ?s1 = lru_bytes (as @ n # bs)"
    using assms e by (simp add: lru_rel_def xs)
  ultimately have "lru_rel (moveToFront (n_id n) ?s1) (n # as @ bs)" by (rule moveToFront_lru)
  from evictUntilBudget_lru [OF this] show ?thesis
    using e k lru_drop_split [of as n0 bs] lru_rel_distinct [OF assms] xs
    by (simp add: shardPut_def Let_def lru_put_def)
qed

section \<open>The cache as its clients see it\<close>

text \<open>
  The contract of the cache towards getNode and the write operations: a lookup never changes what
  the cache holds, a put can add only the node it is given, and both a put and an eviction can
  otherwise only lose entries.
\<close>

locale cache_spec =
  fixes wf :: "'c \<Rightarrow> bool" and lookup :: "'c \<Rightarrow> NodeID \<Rightarrow> Node option"
    and get :: "NodeID \<Rightarrow> 'c \<Rightarrow> Node option \<times> 'c" and put :: "Node \<Rightarrow> 'c \<Rightarrow> 'c"
    and invalidate :: "NodeID \<Rightarrow> 'c \<Rightarrow> 'c"
  assumes get_result: "wf c \<Longrightarrow> fst (get i c) = lookup c i"
    and get_wf: "wf c \<Longrightarrow> wf (snd (get i c))"
    and get_lookup: "wf c \<Longrightarrow> lookup (snd (get i c)) = lookup c"
    and put_wf: "wf c \<Longrightarrow> wf (put n c)"
    and put_lookup: "wf c \<Longrightarrow> lookup (put n c) j = Some m \<Longrightarrow> (if j = n_id n then m = n else lookup c j = Some m)"
    and invalidate_wf: "wf c \<Longrightarrow> wf (invalidate i c)"
    and invalidate_lookup: "wf c \<Longrightarrow> lookup (invalidate i c) = (lookup c)(i := None)"
begin

text \<open>A cache is coherent with a predicate on nodes when everything it holds satisfies it.\<close>

definition coherent :: "(NodeID \<Rightarrow> Node \<Rightarrow> bool) \<Rightarrow> 'c \<Rightarrow> bool" where
  "coherent P c \<longleftrightarrow> wf c \<and> (\<forall>i n. lookup c i = Some n \<longrightarrow> P i n)"

lemma coherent_get: "coherent P c \<Longrightarrow> coherent P (snd (get i c))"
  by (simp add: coherent_def get_wf get_lookup)

lemma coherent_get_result: "coherent P c \<Longrightarrow> fst (get i c) = Some n \<Longrightarrow> P i n"
  by (simp add: coherent_def get_result)

lemma coherent_put: "coherent P c \<Longrightarrow> P (n_id n) n \<Longrightarrow> coherent P (put n c)"
  using put_lookup [of c n] by (auto simp: coherent_def put_wf split: if_splits) (metis option.inject)

lemma coherent_invalidate:
  "coherent P c \<Longrightarrow> (\<And>j n. j \<noteq> i \<Longrightarrow> P j n \<Longrightarrow> Q j n) \<Longrightarrow> coherent Q (invalidate i c)"
  by (auto simp: coherent_def invalidate_wf invalidate_lookup)

lemma coherent_mono: "coherent P c \<Longrightarrow> (\<And>j n. P j n \<Longrightarrow> Q j n) \<Longrightarrow> coherent Q c"
  by (auto simp: coherent_def)

end

definition cache_wf :: "nodeCache \<Rightarrow> bool" where
  "cache_wf nc \<longleftrightarrow> nc_shardMask nc = 15 \<and> length (nc_shards nc) = cacheShardCount \<and>
     (\<forall>s \<in> set (nc_shards nc). \<exists>xs. lru_rel s xs)"

definition cache_lookup :: "nodeCache \<Rightarrow> NodeID \<Rightarrow> Node option" where
  "cache_lookup nc i = (if nc_budget nc \<le> 0 then None
     else map_option le_node (map_of (cs_items (nc_shards nc ! cshard nc i)) i))"

lemma cshard_less: "cache_wf nc \<Longrightarrow> cshard nc i < length (nc_shards nc)"
proof -
  assume "cache_wf nc"
  moreover have "and i 15 \<le> (15 :: u64)" by (metis and.commute word_and_le1)
  then have "unat (and i (15 :: u64)) \<le> unat (15 :: u64)" by (simp only: word_le_nat_alt)
  ultimately show ?thesis by (simp add: cache_wf_def cshard_def)
qed

lemma cache_wf_new: "cache_wf (newNodeCache b)"
  using lru_rel_new by (auto simp: cache_wf_def newNodeCache_def Let_def)

lemma cache_lookup_new: "cache_lookup (newNodeCache b) i = None"
proof -
  have sh: "nc_shards (newNodeCache b) = replicate cacheShardCount (newCacheShard (cs_budget (nc_shards (newNodeCache b) ! 0)))"
    by (simp add: newNodeCache_def newCacheShard_def Let_def)
  have "nc_shards (newNodeCache b) ! cshard (newNodeCache b) i \<in> set (nc_shards (newNodeCache b))"
    using cshard_less [OF cache_wf_new] by (rule nth_mem)
  then have "cs_items (nc_shards (newNodeCache b) ! cshard (newNodeCache b) i) = []"
    by (subst (asm) (2) sh) (simp add: newCacheShard_def)
  then show ?thesis by (simp add: cache_lookup_def)
qed

lemma cache_wf_upd:
  assumes "cache_wf nc" and "\<And>xs. lru_rel (nc_shards nc ! j) xs \<Longrightarrow> \<exists>ys. lru_rel s' ys" and "j < length (nc_shards nc)"
  shows "cache_wf (nc\<lparr>nc_shards := (nc_shards nc)[j := s']\<rparr>)"
proof -
  have "nc_shards nc ! j \<in> set (nc_shards nc)" using assms(3) by (rule nth_mem)
  then have "\<exists>ys. lru_rel s' ys" using assms(1,2) unfolding cache_wf_def by blast
  then show ?thesis using assms(1) by (auto simp: cache_wf_def dest!: subsetD [OF set_update_subset_insert])
qed

lemma cache_lookup_upd:
  assumes "cache_wf nc" and "0 < nc_budget nc"
  shows "cache_lookup (nc\<lparr>nc_shards := (nc_shards nc)[cshard nc i := s']\<rparr>) j =
    (if cshard nc j = cshard nc i then map_option le_node (map_of (cs_items s') j) else cache_lookup nc j)"
  using assms cshard_less [OF assms(1)] by (auto simp: cache_lookup_def cshard_def)

lemma lru_find_drop: "lru_find j (lru_drop k xs) = (if j = k then None else lru_find j xs)"
  by (induction xs) (auto simp: lru_drop_def lru_find_def)

lemma lru_find_touch: "lru_find j (lru_touch k xs) = lru_find j xs"
proof (cases "lru_find k xs")
  case (Some n)
  then have "lru_touch k xs = n # lru_drop k xs" and "n_id n = k"
    using lru_find_Some by (auto simp: lru_touch_def)
  then have "lru_find j (lru_touch k xs) = (if j = k then Some n else lru_find j (lru_drop k xs))"
    by (auto simp: lru_find_def)
  then show ?thesis using Some by (simp add: lru_find_drop)
qed (simp add: lru_touch_def)

lemma lru_find_prefix: "prefix xs ys \<Longrightarrow> lru_find j xs = Some m \<Longrightarrow> lru_find j ys = Some m"
proof (induction xs arbitrary: ys)
  case (Cons x xs)
  then show ?case by (cases ys) (auto simp: lru_find_def split: if_splits)
qed (simp add: lru_find_def)

lemma lru_find_Cons: "lru_find j (n # xs) = (if n_id n = j then Some n else lru_find j xs)"
  by (simp add: lru_find_def)

lemma lru_find_put:
  assumes "lru_find j (lru_put b n xs) = Some m"
  shows "if j = n_id n then m = n else lru_find j xs = Some m"
proof -
  have "lru_find j (n # lru_drop (n_id n) xs) = Some m"
    by (rule lru_find_prefix [OF lru_evict_prefix]) (use assms in \<open>simp only: lru_put_def\<close>)
  then show ?thesis by (simp add: lru_find_Cons lru_find_drop split: if_splits)
qed

interpretation nodecache: cache_spec cache_wf cache_lookup nc_Get nc_Put nc_Invalidate
proof
  fix c i n m j assume wf: "cache_wf c"
  let ?s = "\<lambda>i. nc_shards c ! cshard c i"
  have "\<exists>xs. lru_rel (?s k) xs" for k
    using wf nth_mem [OF cshard_less [OF wf, of k]] unfolding cache_wf_def by blast
  then obtain rep where rep: "\<And>k. lru_rel (?s k) (rep k)" by metis
  have look: "cache_lookup c l = lru_find l (rep k)" if "0 < nc_budget c" "cshard c l = cshard c k" for l k
    using lru_rel_lookup(1) [OF rep [of k], of l] that by (simp add: cache_lookup_def)
  have upd: "cache_lookup (c\<lparr>nc_shards := (nc_shards c)[cshard c k := s']\<rparr>) l =
      (if cshard c l = cshard c k then lru_find l ys else cache_lookup c l)"
    if "lru_rel s' ys" "0 < nc_budget c" for s' ys l k
    using cache_lookup_upd [OF wf that(2)] lru_rel_lookup(1) [OF that(1)] by simp
  have off: "cache_lookup c l = None" if "nc_budget c \<le> 0" for l
    using that by (simp add: cache_lookup_def)
  have wfu: "lru_rel s' ys \<Longrightarrow> cache_wf (c\<lparr>nc_shards := (nc_shards c)[cshard c k := s']\<rparr>)" for s' ys k
    by (rule cache_wf_upd [OF wf _ cshard_less [OF wf]]) blast
  show "fst (nc_Get i c) = cache_lookup c i"
    using shardGet_lru(1) [OF rep, of i i] look [of i i] by (auto simp: nc_Get_def cache_lookup_def Let_def)
  show "cache_wf (snd (nc_Get i c))"
    using wfu [OF shardGet_lru(2) [OF rep]] wf by (auto simp: nc_Get_def Let_def)
  show "cache_lookup (snd (nc_Get i c)) = cache_lookup c"
    using upd [OF shardGet_lru(2) [OF rep [of i]]] look [of _ i]
    by (auto simp: nc_Get_def Let_def fun_eq_iff lru_find_touch)
  show "cache_wf (nc_Put n c)"
    using wfu [OF conjunct1 [OF shardPut_lru [OF rep]]] wf by (auto simp: nc_Put_def Let_def)
  show "cache_lookup (nc_Put n c) j = Some m \<Longrightarrow> if j = n_id n then m = n else cache_lookup c j = Some m"
  proof (cases "0 < nc_budget c \<and> cshard c j = cshard c (n_id n)")
    case True
    assume "cache_lookup (nc_Put n c) j = Some m"
    then have "lru_find j (lru_put (cs_budget (?s (n_id n))) n (rep (n_id n))) = Some m"
      using True upd [OF conjunct1 [OF shardPut_lru [OF rep [of "n_id n"]]]] by (simp add: nc_Put_def Let_def)
    from lru_find_put [OF this] show ?thesis using look [of j "n_id n"] True by simp
  next
    case False
    assume "cache_lookup (nc_Put n c) j = Some m"
    then show ?thesis
      using False off upd [OF conjunct1 [OF shardPut_lru [OF rep [of "n_id n"]]]]
      by (auto simp: nc_Put_def Let_def split: if_splits)
  qed
  show "cache_wf (nc_Invalidate i c)"
    using wfu [OF conjunct1 [OF shardInvalidate_lru [OF rep]]] wf by (auto simp: nc_Invalidate_def Let_def)
  show "cache_lookup (nc_Invalidate i c) = (cache_lookup c)(i := None)"
    using upd [OF conjunct1 [OF shardInvalidate_lru [OF rep [of i]]]] look [of _ i] off
    by (auto simp: nc_Invalidate_def Let_def fun_eq_iff lru_find_drop)
qed

section \<open>Runs of cache operations\<close>

datatype cache_op = CGet NodeID | CPut Node | CInvalidate NodeID

primrec cache_step :: "cache_op \<Rightarrow> nodeCache \<Rightarrow> nodeCache" where
  "cache_step (CGet i) c = snd (nc_Get i c)"
| "cache_step (CPut n) c = nc_Put n c"
| "cache_step (CInvalidate i) c = nc_Invalidate i c"

definition cache_run :: "cache_op list \<Rightarrow> nodeCache \<Rightarrow> nodeCache" where
  "cache_run ops c = fold cache_step ops c"

text \<open>What a map would hold after the same operations.\<close>

primrec cache_model_step :: "cache_op \<Rightarrow> (NodeID \<rightharpoonup> Node) \<Rightarrow> (NodeID \<rightharpoonup> Node)" where
  "cache_model_step (CGet i) m = m"
| "cache_model_step (CPut n) m = m(n_id n \<mapsto> n)"
| "cache_model_step (CInvalidate i) m = m(i := None)"

definition cache_model :: "cache_op list \<Rightarrow> NodeID \<rightharpoonup> Node" where
  "cache_model ops = fold cache_model_step ops Map.empty"

lemma cache_step_coherent:
  assumes "nodecache.coherent (\<lambda>i n. m i = Some n) c"
  shows "nodecache.coherent (\<lambda>i n. cache_model_step op m i = Some n) (cache_step op c)"
proof (cases op)
  case (CPut n)
  have wf: "cache_wf c" and h: "\<And>i n. cache_lookup c i = Some n \<Longrightarrow> m i = Some n"
    using assms by (auto simp: nodecache.coherent_def)
  have "cache_lookup (nc_Put n c) i = Some k \<Longrightarrow> (m(n_id n \<mapsto> n)) i = Some k" for i k
    using nodecache.put_lookup [OF wf, of n i k] h by (auto split: if_splits)
  then show ?thesis using wf CPut by (simp add: nodecache.coherent_def nodecache.put_wf del: fun_upd_apply)
qed (use assms in \<open>auto simp: nodecache.coherent_get intro: nodecache.coherent_invalidate\<close>)

lemma cache_run_coherent:
  "nodecache.coherent (\<lambda>i n. m i = Some n) c \<Longrightarrow>
   nodecache.coherent (\<lambda>i n. fold cache_model_step ops m i = Some n) (cache_run ops c)"
  by (induction ops arbitrary: m c) (simp_all add: cache_run_def cache_step_coherent)

definition cache_fits :: "int \<Rightarrow> nodeCache \<Rightarrow> bool" where
  "cache_fits p c \<longleftrightarrow> cache_wf c \<and> (\<forall>s \<in> set (nc_shards c). cs_budget s = p \<and> cs_total s \<le> p)"

lemma lru_bytes_drop: "lru_bytes (lru_drop k xs) \<le> lru_bytes xs"
proof (induction xs)
  case (Cons x xs)
  then show ?case using estimateNodeBytes_pos [of x] by (auto simp: lru_drop_def)
qed (simp add: lru_drop_def)

lemma lru_bytes_touch: "distinct (map n_id xs) \<Longrightarrow> lru_bytes (lru_touch k xs) = lru_bytes xs"
proof (cases "lru_find k xs")
  case (Some n)
  assume d: "distinct (map n_id xs)"
  from Some obtain as bs where xs: "xs = as @ n # bs" and k: "n_id n = k"
    using lru_find_Some by (metis split_list)
  then show ?thesis using Some lru_drop_split [of as n bs] d by (simp add: lru_touch_def)
qed (simp add: lru_touch_def)

lemma cache_fits_upd:
  assumes "cache_fits p c" and "j < length (nc_shards c)"
    and "\<And>xs. lru_rel (nc_shards c ! j) xs \<Longrightarrow> lru_bytes xs \<le> p \<Longrightarrow>
           \<exists>ys. lru_rel s' ys \<and> cs_budget s' = p \<and> lru_bytes ys \<le> p"
  shows "cache_fits p (c\<lparr>nc_shards := (nc_shards c)[j := s']\<rparr>)"
proof -
  have mem: "nc_shards c ! j \<in> set (nc_shards c)" using assms(2) by simp
  then obtain xs where xs: "lru_rel (nc_shards c ! j) xs" and "cs_total (nc_shards c ! j) \<le> p"
    using assms(1) by (auto simp: cache_fits_def cache_wf_def)
  then have "lru_bytes xs \<le> p" by (simp add: lru_rel_def)
  then obtain ys where ys: "lru_rel s' ys" "cs_budget s' = p" "lru_bytes ys \<le> p"
    using assms(3) xs by blast
  then have "cs_total s' \<le> p" by (simp add: lru_rel_def)
  then show ?thesis
    using assms(1) ys cache_wf_upd [of c j s'] assms(2)
    by (auto simp: cache_fits_def dest!: subsetD [OF set_update_subset_insert])
qed

lemma cache_step_fits:
  assumes "cache_fits p c" and "0 \<le> p"
  shows "cache_fits p (cache_step op c)"
proof -
  have wf: "cache_wf c" using assms by (simp add: cache_fits_def)
  have bud: "cs_budget (nc_shards c ! cshard c i) = p" for i
    using assms cshard_less [OF wf] nth_mem by (auto simp: cache_fits_def)
  show ?thesis
  proof (cases op)
    case (CGet i)
    have "cache_fits p (c\<lparr>nc_shards := (nc_shards c)[cshard c i := snd (shardGet i (nc_shards c ! cshard c i))]\<rparr>)"
    proof (rule cache_fits_upd [OF assms(1) cshard_less [OF wf]])
      fix xs assume r: "lru_rel (nc_shards c ! cshard c i) xs" "lru_bytes xs \<le> p"
      then show "\<exists>ys. lru_rel (snd (shardGet i (nc_shards c ! cshard c i))) ys \<and>
          cs_budget (snd (shardGet i (nc_shards c ! cshard c i))) = p \<and> lru_bytes ys \<le> p"
        using shardGet_lru(2,3) [OF r(1)] lru_bytes_touch [OF lru_rel_distinct [OF r(1)]] bud by metis
    qed
    then show ?thesis using assms CGet by (simp add: nc_Get_def Let_def)
  next
    case (CPut n)
    have "cache_fits p (c\<lparr>nc_shards := (nc_shards c)[cshard c (n_id n) := shardPut n (nc_shards c ! cshard c (n_id n))]\<rparr>)"
      by (rule cache_fits_upd [OF assms(1) cshard_less [OF wf]])
         (metis assms(2) bud lru_evict_fits lru_put_def shardPut_lru)
    then show ?thesis using assms CPut by (simp add: nc_Put_def Let_def)
  next
    case (CInvalidate i)
    have "cache_fits p (c\<lparr>nc_shards := (nc_shards c)[cshard c i := shardInvalidate i (nc_shards c ! cshard c i)]\<rparr>)"
      by (rule cache_fits_upd [OF assms(1) cshard_less [OF wf]])
         (metis bud lru_bytes_drop order_trans shardInvalidate_lru)
    then show ?thesis using assms CInvalidate by (simp add: nc_Invalidate_def Let_def)
  qed
qed

lemma cache_run_fits: "cache_fits p c \<Longrightarrow> 0 \<le> p \<Longrightarrow> cache_fits p (cache_run ops c)"
  by (induction ops arbitrary: c) (simp_all add: cache_run_def cache_step_fits)

lemma cache_run_budget [simp]: "nc_budget (cache_run ops c) = nc_budget c"
proof -
  have "nc_budget (cache_step op c) = nc_budget c" for op c
    by (cases op) (simp_all add: nc_Get_def nc_Put_def nc_Invalidate_def Let_def)
  then show ?thesis by (induction ops arbitrary: c) (simp_all add: cache_run_def)
qed

lemma sum_list_le_length: "(\<And>x. x \<in> set xs \<Longrightarrow> f x \<le> (p :: int)) \<Longrightarrow> sum_list (map f xs) \<le> int (length xs) * p"
  by (induction xs) (force simp: algebra_simps)+

section \<open>Properties\<close>

text \<open>
  C28. A cache shard implements the abstract least-recently-used list: a lookup returns the cached
  node and moves it to the front, a put moves the node to the front and drops nodes from the back
  exactly until the shard fits its budget, an invalidation removes the node. The doubly-linked
  pointers, the item map and the byte counter stay consistent throughout.
\<close>

theorem cache_shard_refines_lru:
  assumes "lru_rel s xs"
  shows "fst (shardGet k s) = lru_find k xs \<and> lru_rel (snd (shardGet k s)) (lru_touch k xs) \<and>
    lru_rel (shardPut n s) (lru_put (cs_budget s) n xs) \<and> lru_rel (shardInvalidate k s) (lru_drop k xs)"
  using shardGet_lru [OF assms] shardPut_lru [OF assms] shardInvalidate_lru [OF assms] by blast

theorem cache_shard_refines_lru_witness:
  "lru_rel (shardPut \<lparr>n_id = 2, n_labels = [], n_props = []\<rparr> (newCacheShard 100))
     (lru_put 100 \<lparr>n_id = 2, n_labels = [], n_props = []\<rparr> [])"
  using cache_shard_refines_lru [OF lru_rel_new [of 100]] by (simp add: newCacheShard_def)

text \<open>
  C29. Whatever sequence of lookups, puts and invalidations ran before, a lookup returns nothing or
  the node most recently put under that identifier and not invalidated since.
\<close>

theorem cache_never_stale:
  "fst (nc_Get i (cache_run ops (newNodeCache b))) \<in> {None, cache_model ops i}"
proof -
  have "nodecache.coherent (\<lambda>i n. Map.empty i = Some n) (newNodeCache b)"
    using cache_wf_new [of b] cache_lookup_new by (simp add: nodecache.coherent_def)
  from nodecache.coherent_get_result [OF cache_run_coherent [OF this]] show ?thesis
    by (cases "fst (nc_Get i (cache_run ops (newNodeCache b)))") (auto simp: cache_model_def)
qed

text \<open>
  After any sequence of operations on a cache opened with a budget of at least sixteen bytes,
  the bytes it accounts for are within that budget.
\<close>

theorem cache_within_budget:
  assumes "16 \<le> b"
  shows "nc_TotalBytes (cache_run ops (newNodeCache b)) \<le> b"
proof -
  let ?p = "b div 16"
  have "cache_fits ?p (newNodeCache b)"
    using assms cache_wf_new [of b] by (auto simp: cache_fits_def newNodeCache_def newCacheShard_def Let_def)
  then have f: "cache_fits ?p (cache_run ops (newNodeCache b))"
    using assms by (intro cache_run_fits) auto
  then have "sum_list (map cs_total (nc_shards (cache_run ops (newNodeCache b)))) \<le> int 16 * ?p"
    using sum_list_le_length [of "nc_shards (cache_run ops (newNodeCache b))" cs_total ?p]
    by (auto simp: cache_fits_def cache_wf_def)
  also have "\<dots> \<le> b" by simp
  finally show ?thesis using assms by (simp add: nc_TotalBytes_def newNodeCache_def Let_def)
qed

theorem cache_within_budget_witness:
  "nc_TotalBytes (cache_run [CPut \<lparr>n_id = 1, n_labels = [], n_props = []\<rparr>] (newNodeCache 2000)) \<le> 2000"
  using cache_within_budget [of 2000] by simp

end
