(* ===== verification/Bloom.thy ===== *)
theory Bloom
  imports Storage
begin

text \<open>
  The edge Bloom filter (bloom.go). The bit array is a list of 64-bit words; an access past its
  end panics in Go, and the well-formedness predicate shows it never happens.
\<close>

unbundle bit_operations_syntax

record bloomFilter =
  bf_bits :: "u64 list"
  bf_size :: u64
  bf_k :: nat

definition newBloomFilter :: "u64 \<Rightarrow> bloomFilter" where
  "newBloomFilter expectedItems =
     (let e = (if expectedItems < 100 then 100 else expectedItems);
          bitsNeeded = e * 10;
          bn = (if bitsNeeded < 1024 then 1024 else bitsNeeded);
          words = (bn + 63) div 64
      in \<lparr>bf_bits = replicate (unat words) 0, bf_size = words * 64, bf_k = 4\<rparr>)"

definition bloomHash :: "NodeID \<Rightarrow> NodeID \<Rightarrow> u64 \<times> u64" where
  "bloomHash from to =
     (let sum = fnv128a (LE_PutUint64 from @ LE_PutUint64 to);
          h1 = the (LE_Uint64 (take 8 sum));
          h2 = the (LE_Uint64 (drop 8 sum))
      in (h1, if h2 = 0 then 1 else h2))"

definition bloomIdx :: "bloomFilter \<Rightarrow> u64 \<times> u64 \<Rightarrow> nat \<Rightarrow> u64" where
  "bloomIdx bf h i = (fst h + word_of_nat i * snd h) mod bf_size bf"

definition bloomSet :: "u64 \<Rightarrow> u64 list \<Rightarrow> u64 list" where
  "bloomSet idx bits =
     (let w = unat (idx div 64)
      in bits[w := (bits ! w) OR push_bit (unat (idx mod 64)) 1])"

definition bloomBit :: "u64 \<Rightarrow> u64 list \<Rightarrow> bool" where
  "bloomBit idx bits = ((bits ! unat (idx div 64)) AND push_bit (unat (idx mod 64)) 1 \<noteq> 0)"

definition bloomAdd :: "NodeID \<Rightarrow> NodeID \<Rightarrow> bloomFilter \<Rightarrow> bloomFilter" where
  "bloomAdd from to bf =
     bf\<lparr>bf_bits := fold (\<lambda>i. bloomSet (bloomIdx bf (bloomHash from to) i)) [0..<bf_k bf] (bf_bits bf)\<rparr>"

definition bloomTest :: "bloomFilter \<Rightarrow> NodeID \<Rightarrow> NodeID \<Rightarrow> bool" where
  "bloomTest bf from to =
     list_all (\<lambda>i. bloomBit (bloomIdx bf (bloomHash from to) i) (bf_bits bf)) [0..<bf_k bf]"

text \<open>The filter built when the database is opened: every pair of every \<open>adj_out\<close> bucket.\<close>

definition bloomAddPair :: "bytes \<times> bytes \<Rightarrow> bloomFilter \<Rightarrow> bloomFilter" where
  "bloomAddPair kv bf =
     (if 16 \<le> length (fst kv) \<and> 8 \<le> length (snd kv)
      then bloomAdd (the (BE_Uint64 (take 8 (fst kv)))) (the (BE_Uint64 (take 8 (snd kv)))) bf else bf)"

definition initBloomFilter :: "'b bolt \<Rightarrow> 'b shard list \<Rightarrow> bloomFilter" where
  "initBloomFilter B shards =
     (let totalEdges = sum_list (map edgeCount shards);
          expected = (if totalEdges * 2 < 1000 then 1000 else totalEdges * 2)
      in fold (\<lambda>s. fold bloomAddPair (b_cursor B (bk_adj_out (s_data s)))) shards (newBloomFilter expected))"

section \<open>Well-formedness\<close>

text \<open>Every index the hash functions can produce lies inside the bit array.\<close>

definition bloom_wf :: "bloomFilter \<Rightarrow> bool" where
  "bloom_wf bf \<longleftrightarrow> 0 < bf_size bf \<and> unat (bf_size bf) \<le> 64 * length (bf_bits bf)"

lemma bloomIdx_bound: "bloom_wf bf \<Longrightarrow> unat (bloomIdx bf h i div 64) < length (bf_bits bf)"
proof -
  assume wf: "bloom_wf bf"
  let ?x = "bloomIdx bf h i"
  have "?x < bf_size bf" using wf by (simp add: bloomIdx_def bloom_wf_def word_mod_less_divisor)
  then have "unat ?x < 64 * length (bf_bits bf)" using wf by (simp add: bloom_wf_def word_less_nat_alt)
  then have "unat ?x div 64 < length (bf_bits bf)" by (simp add: less_mult_imp_div_less mult.commute)
  then show ?thesis by (simp add: unat_div)
qed

lemma bloomBit_iff: "bloomBit idx bits \<longleftrightarrow> bit (bits ! unat (idx div 64)) (unat (idx mod 64))"
  by (simp add: bloomBit_def push_bit_eq_mult and_exp_eq_0_iff_not_bit)

lemma idx_mod_64: "unat (idx mod (64 :: u64)) < 64"
  by (simp add: unat_mod)

lemma bloomBit_set: "unat (idx div 64) < length bits \<Longrightarrow> bloomBit idx (bloomSet idx bits)"
  using idx_mod_64 [of idx]
  by (simp add: bloomBit_iff bloomSet_def Let_def bit_or_iff bit_exp_iff)

lemma bloomBit_mono: "bloomBit j bits \<Longrightarrow> bloomBit j (bloomSet idx bits)"
  by (cases "unat (idx div 64) < length bits")
     (auto simp: bloomBit_iff bloomSet_def Let_def bit_or_iff nth_list_update list_update_beyond)

lemma length_bloomSet [simp]: "length (bloomSet idx bits) = length bits"
  by (simp add: bloomSet_def Let_def)

lemma bloomSets_mono: "bloomBit j bits \<Longrightarrow> bloomBit j (fold (\<lambda>i. bloomSet (f i)) is bits)"
  by (induction "is" arbitrary: bits) (simp_all add: bloomBit_mono)

lemma length_bloomSets [simp]: "length (fold (\<lambda>i. bloomSet (f i)) is bits) = length bits"
  by (induction "is" arbitrary: bits) simp_all

lemma bloomSets_set:
  "i \<in> set is \<Longrightarrow> unat (f i div 64) < length bits \<Longrightarrow> bloomBit (f i) (fold (\<lambda>i. bloomSet (f i)) is bits)"
  by (induction "is" arbitrary: bits) (auto simp: bloomSets_mono bloomBit_set)

lemma bloomAdd_simps [simp]: "bf_size (bloomAdd a b bf) = bf_size bf" "bf_k (bloomAdd a b bf) = bf_k bf"
  "length (bf_bits (bloomAdd a b bf)) = length (bf_bits bf)" "bloom_wf (bloomAdd a b bf) = bloom_wf bf"
  "bloomIdx (bloomAdd a b bf) = bloomIdx bf"
  by (simp_all add: bloomAdd_def bloom_wf_def bloomIdx_def fun_eq_iff)

lemma bloomTest_add: "bloom_wf bf \<Longrightarrow> bloomTest (bloomAdd a b bf) a b"
  by (auto simp: bloomTest_def list_all_iff bloomAdd_def bloomIdx_bound bloomSets_set bloomIdx_def
      intro!: bloomSets_set [where f = "bloomIdx bf (bloomHash a b)", unfolded bloomIdx_def] dest: bloomIdx_bound [unfolded bloomIdx_def])

lemma bloomTest_mono: "bloomTest bf a b \<Longrightarrow> bloomTest (bloomAdd c d bf) a b"
  by (auto simp: bloomTest_def list_all_iff bloomIdx_def) (simp add: bloomAdd_def bloomSets_mono)

lemma bloom_wf_new:
  assumes "unat n < 2 ^ 60"
  shows "bloom_wf (newBloomFilter n)"
proof -
  define e where "e = (if n < 100 then 100 else n)"
  have e: "unat e < 2 ^ 60" "100 \<le> unat e"
    using assms by (auto simp: e_def word_less_nat_alt word_le_nat_alt not_less)
  have e10: "unat (e * 10) = unat e * 10" using e by (simp add: unat_word_ariths)
  define bn where "bn = (if e * 10 < 1024 then 1024 else e * 10)"
  have bn: "1024 \<le> unat bn" "unat bn \<le> 2 ^ 60 * 10"
    using e e10 by (auto simp: bn_def word_less_nat_alt not_less)
  have w: "unat ((bn + 63) div 64) = (unat bn + 63) div 64"
    using bn by (simp add: unat_div unat_word_ariths)
  then have s: "unat ((bn + 63) div 64 * 64) = (unat bn + 63) div 64 * 64"
    using bn by (simp add: unat_word_ariths) 
  then have "0 < (bn + 63) div 64 * 64"
    using bn by (simp add: word_less_nat_alt)
  then show ?thesis
    using s w by (simp add: bloom_wf_def newBloomFilter_def Let_def e_def [symmetric] bn_def [symmetric])
qed

lemma bloomAddPair_simps [simp]: "bloom_wf (bloomAddPair kv bf) = bloom_wf bf"
  by (simp add: bloomAddPair_def)

lemma bloomTest_pair_mono: "bloomTest bf a b \<Longrightarrow> bloomTest (bloomAddPair kv bf) a b"
  by (simp add: bloomAddPair_def bloomTest_mono)

lemma bloomTest_pairs_mono: "bloomTest bf a b \<Longrightarrow> bloomTest (fold bloomAddPair kvs bf) a b"
  by (induction kvs arbitrary: bf) (simp_all add: bloomTest_pair_mono)

lemma bloom_wf_pairs [simp]: "bloom_wf (fold bloomAddPair kvs bf) = bloom_wf bf"
  by (induction kvs arbitrary: bf) simp_all

lemma bloomTest_pairs:
  "(encodeAdjKey a i, encodeAdjValue b l) \<in> set kvs \<Longrightarrow> bloom_wf bf \<Longrightarrow> bloomTest (fold bloomAddPair kvs bf) a b"
proof (induction kvs arbitrary: bf)
  case (Cons kv kvs)
  have "bloomTest (bloomAddPair (encodeAdjKey a i, encodeAdjValue b l) bf) a b"
    using Cons.prems by (simp add: bloomAddPair_def enc_simps bloomTest_add)
  with Cons show ?case by (auto simp: bloomTest_pairs_mono)
qed simp

lemma bloomTest_shards:
  "s \<in> set ss \<Longrightarrow> (encodeAdjKey a i, encodeAdjValue b l) \<in> set (f s) \<Longrightarrow> bloom_wf bf \<Longrightarrow>
   bloomTest (fold (\<lambda>s. fold bloomAddPair (f s)) ss bf) a b"
proof (induction ss arbitrary: bf)
  case (Cons x ss)
  have mono: "bloomTest bf a b \<Longrightarrow> bloomTest (fold (\<lambda>s. fold bloomAddPair (f s)) ss bf) a b" for bf
    by (induction ss arbitrary: bf) (simp_all add: bloomTest_pairs_mono)
  from Cons show ?case by (auto simp: mono bloomTest_pairs)
qed simp

section \<open>Properties\<close>

text \<open>
  C32. The filter has no false negatives: once an edge was added, the test for its endpoints answers
  "maybe present", whatever other edges are added before or after.
\<close>

theorem bloom_no_false_negatives:
  assumes "(from, to) \<in> set ps" and "unat n < 2 ^ 60"
  shows "bloomTest (fold (\<lambda>(a, b). bloomAdd a b) ps (newBloomFilter n)) from to"
proof -
  have mono: "bloomTest bf a b \<Longrightarrow> bloomTest (fold (\<lambda>(a, b). bloomAdd a b) qs bf) a b" for qs bf a b
    by (induction qs arbitrary: bf) (auto simp: bloomTest_mono)
  have "bloom_wf bf \<Longrightarrow> bloomTest (fold (\<lambda>(a, b). bloomAdd a b) ps bf) from to" for bf
    using assms(1) by (induction ps arbitrary: bf) (auto simp: mono bloomTest_add)
  then show ?thesis using bloom_wf_new [OF assms(2)] by blast
qed

theorem bloom_no_false_negatives_witness:
  "bloomTest (fold (\<lambda>(a, b). bloomAdd a b) [(1, 2), (3, 4)] (newBloomFilter 1000)) 3 4"
  using bloom_no_false_negatives [of 3 4 "[(1, 2), (3, 4)]" 1000] by simp

end
