(* ===== verification/WAL.thy ===== *)
theory WAL
  imports Storage
begin

text \<open>
  The write-ahead log (wal_entry.go, wal.go): the replicated operations, the log entry, the frame
  format \<open>length | entry | crc32\<close>, appending with segment rotation, opening after a restart,
  the tailing reader and pruning. The MessagePack encoding of entries and payloads and the clock
  are parameters. The directory of segment files is an association list from segment numbers to
  file contents, in ascending order; a script of torn writes stands for the file system, one
  entry per write: \<open>Some n\<close> means that only the first \<open>n\<close> bytes of the frame reached the file.
\<close>

datatype OpType =
    OpAddNode | OpAddNodeBatch | OpUpdateNode | OpSetNodeProps | OpDeleteNode
  | OpAddEdge | OpAddEdgeBatch | OpDeleteEdge | OpUpdateEdge
  | OpAddNodeWithLabels | OpAddLabel | OpRemoveLabel
  | OpCreateIndex | OpDropIndex | OpCreateCompositeIndex | OpDropCompositeIndex
  | OpCreateUniqueConstraint | OpDropUniqueConstraint
  | OpOther nat

fun OpType_String :: "OpType \<Rightarrow> string" where
  "OpType_String OpAddNode = ''AddNode''"
| "OpType_String OpAddNodeBatch = ''AddNodeBatch''"
| "OpType_String OpUpdateNode = ''UpdateNode''"
| "OpType_String OpSetNodeProps = ''SetNodeProps''"
| "OpType_String OpDeleteNode = ''DeleteNode''"
| "OpType_String OpAddEdge = ''AddEdge''"
| "OpType_String OpAddEdgeBatch = ''AddEdgeBatch''"
| "OpType_String OpDeleteEdge = ''DeleteEdge''"
| "OpType_String OpUpdateEdge = ''UpdateEdge''"
| "OpType_String OpAddNodeWithLabels = ''AddNodeWithLabels''"
| "OpType_String OpAddLabel = ''AddLabel''"
| "OpType_String OpRemoveLabel = ''RemoveLabel''"
| "OpType_String OpCreateIndex = ''CreateIndex''"
| "OpType_String OpDropIndex = ''DropIndex''"
| "OpType_String OpCreateCompositeIndex = ''CreateCompositeIndex''"
| "OpType_String OpDropCompositeIndex = ''DropCompositeIndex''"
| "OpType_String OpCreateUniqueConstraint = ''CreateUniqueConstraint''"
| "OpType_String OpDropUniqueConstraint = ''DropUniqueConstraint''"
| "OpType_String (OpOther n) = ''Unknown''"

record WALEntry =
  we_lsn :: u64
  we_ts :: int
  we_op :: OpType
  we_payload :: bytes

text \<open>
  The payload structs, one constructor per operation, parametric in the type of property maps so
  that the relator says what equality up to the text of property values means for a payload.
\<close>

datatype 'p wal_op =
    WALAddNode NodeID 'p
  | WALAddNodeBatch "(NodeID \<times> 'p) list"
  | WALUpdateNode NodeID 'p
  | WALSetNodeProps NodeID 'p
  | WALDeleteNode NodeID
  | WALAddEdge EdgeID NodeID NodeID string 'p
  | WALAddEdgeBatch "(EdgeID \<times> NodeID \<times> NodeID \<times> string \<times> 'p) list"
  | WALDeleteEdge EdgeID NodeID NodeID string
  | WALUpdateEdge EdgeID NodeID 'p
  | WALAddNodeWithLabels NodeID "string list" 'p
  | WALAddLabel NodeID "string list"
  | WALRemoveLabel NodeID "string list"
  | WALCreateIndex string
  | WALDropIndex string
  | WALCreateCompositeIndex "string list"
  | WALDropCompositeIndex "string list"
  | WALCreateUniqueConstraint string string
  | WALDropUniqueConstraint string string

fun opType :: "'p wal_op \<Rightarrow> OpType" where
  "opType (WALAddNode i p) = OpAddNode"
| "opType (WALAddNodeBatch ns) = OpAddNodeBatch"
| "opType (WALUpdateNode i p) = OpUpdateNode"
| "opType (WALSetNodeProps i p) = OpSetNodeProps"
| "opType (WALDeleteNode i) = OpDeleteNode"
| "opType (WALAddEdge i a b l p) = OpAddEdge"
| "opType (WALAddEdgeBatch es) = OpAddEdgeBatch"
| "opType (WALDeleteEdge i a b l) = OpDeleteEdge"
| "opType (WALUpdateEdge i a p) = OpUpdateEdge"
| "opType (WALAddNodeWithLabels i ls p) = OpAddNodeWithLabels"
| "opType (WALAddLabel i ls) = OpAddLabel"
| "opType (WALRemoveLabel i ls) = OpRemoveLabel"
| "opType (WALCreateIndex s) = OpCreateIndex"
| "opType (WALDropIndex s) = OpDropIndex"
| "opType (WALCreateCompositeIndex ss) = OpCreateCompositeIndex"
| "opType (WALDropCompositeIndex ss) = OpDropCompositeIndex"
| "opType (WALCreateUniqueConstraint l p) = OpCreateUniqueConstraint"
| "opType (WALDropUniqueConstraint l p) = OpDropUniqueConstraint"

record wcodec =
  w_marshal_payload :: "Props wal_op \<Rightarrow> gerr + bytes"
  w_unmarshal_payload :: "OpType \<Rightarrow> bytes \<Rightarrow> gerr + Props wal_op"
  w_marshal_entry :: "WALEntry \<Rightarrow> gerr + bytes"
  w_unmarshal_entry :: "bytes \<Rightarrow> gerr + WALEntry"
  w_now :: "u64 \<Rightarrow> int"
  w_segMax :: nat

locale wal_codec_laws =
  fixes C :: codec and W :: wcodec
  assumes payload_roundtrip: "w_marshal_payload W p = Inr b \<Longrightarrow>
      \<exists>q. w_unmarshal_payload W (opType p) b = Inr q \<and> rel_wal_op (text_eq C) p q"
    and entry_roundtrip: "w_marshal_entry W e = Inr b \<Longrightarrow> w_unmarshal_entry W b = Inr e"

definition encodeWALPayload :: "wcodec \<Rightarrow> Props wal_op \<Rightarrow> gerr + bytes" where
  "encodeWALPayload W p = w_marshal_payload W p"

definition decodeWALPayload :: "wcodec \<Rightarrow> OpType \<Rightarrow> bytes \<Rightarrow> gerr + Props wal_op" where
  "decodeWALPayload W op data = w_unmarshal_payload W op data"

section \<open>The log\<close>

text \<open>\<open>walSegmentMaxSize\<close> is 64 MiB; it is the field \<open>w_segMax\<close> so that small instances can rotate.\<close>

record WAL =
  wal_segs :: "(u64 \<times> bytes) list"
  wal_currentSegN :: u64
  wal_currentSize :: nat
  wal_nextLSN :: u64
  wal_closed :: bool
  wal_torn :: "nat option list"

definition frame :: "bytes \<Rightarrow> bytes" where
  "frame entryData = BE_PutUint32 (word_of_nat (length entryData)) @ entryData
     @ BE_PutUint32 (crc32_Checksum entryData)"

text \<open>\<open>O_APPEND\<close>: the bytes go to the end of the segment file.\<close>

definition segAppend :: "u64 \<Rightarrow> bytes \<Rightarrow> (u64 \<times> bytes) list \<Rightarrow> (u64 \<times> bytes) list" where
  "segAppend n bs segs = map (\<lambda>(m, c). (m, if m = n then c @ bs else c)) segs"

text \<open>\<open>O_CREATE\<close>: a missing segment file is created empty, the directory listing stays sorted.\<close>

definition segCreate :: "u64 \<Rightarrow> (u64 \<times> bytes) list \<Rightarrow> (u64 \<times> bytes) list" where
  "segCreate n segs = (if n \<in> fst ` set segs then segs
     else filter (\<lambda>s. fst s < n) segs @ [(n, [])] @ filter (\<lambda>s. n < fst s) segs)"

definition segContent :: "(u64 \<times> bytes) list \<Rightarrow> u64 \<Rightarrow> bytes" where
  "segContent segs n = (case map_of segs n of None \<Rightarrow> [] | Some c \<Rightarrow> c)"

definition listSegments :: "WAL \<Rightarrow> u64 list" where
  "listSegments w = map fst (wal_segs w)"

definition rotateSegment :: "WAL \<Rightarrow> WAL" where
  "rotateSegment w =
     (let n = wal_currentSegN w + 1
      in w\<lparr>wal_currentSegN := n, wal_currentSize := 0, wal_segs := segCreate n (wal_segs w)\<rparr>)"

definition wal_Append :: "wcodec \<Rightarrow> OpType \<Rightarrow> bytes \<Rightarrow> WAL \<Rightarrow> (gerr + u64) \<times> WAL" where
  "wal_Append W op payload w =
     (if wal_closed w then (Inl (ErrMsg ''graphdb: WAL is closed''), w)
      else
        let lsn = wal_nextLSN w; w1 = w\<lparr>wal_nextLSN := wal_nextLSN w + 1\<rparr>
        in case w_marshal_entry W \<lparr>we_lsn = lsn, we_ts = w_now W lsn, we_op = op, we_payload = payload\<rparr> of
             Inl e \<Rightarrow> (Inl (ErrWrap ''graphdb: WAL: failed to marshal entry'' e), w1)
           | Inr entryData \<Rightarrow>
               let fr = frame entryData;
                   fault = (case wal_torn w1 of [] \<Rightarrow> None | t # ts \<Rightarrow> t);
                   w2 = w1\<lparr>wal_torn := tl (wal_torn w1)\<rparr>
               in case fault of
                    Some n \<Rightarrow> (Inl (ErrMsg ''graphdb: WAL: failed to write frame''),
                        w2\<lparr>wal_segs := segAppend (wal_currentSegN w2) (take n fr) (wal_segs w2)\<rparr>)
                  | None \<Rightarrow>
                      let w3 = w2\<lparr>wal_segs := segAppend (wal_currentSegN w2) fr (wal_segs w2),
                                  wal_currentSize := wal_currentSize w2 + length fr\<rparr>;
                          w4 = (if w_segMax W \<le> wal_currentSize w3 then rotateSegment w3 else w3)
                      in (Inr lsn, w4))"

definition LastLSN :: "WAL \<Rightarrow> u64" where
  "LastLSN w = (if wal_nextLSN w = 0 then 0 else wal_nextLSN w - 1)"

definition wal_Close :: "WAL \<Rightarrow> WAL" where
  "wal_Close w = w\<lparr>wal_closed := True\<rparr>"

section \<open>Reading frames\<close>

text \<open>
  One attempt to read a frame at the front of the remaining bytes of a segment file. The buffer
  has \<open>frameLen + 4\<close> bytes, computed in 32 bits, and slicing it panics when that wrapped.
\<close>

datatype frame_read = FrameEOF | FramePanic | FrameCRC nat | FrameData nat bytes

definition readFrame :: "bytes \<Rightarrow> frame_read" where
  "readFrame bs =
     (case BE_Uint32 bs of None \<Rightarrow> FrameEOF
      | Some frameLen \<Rightarrow>
          let n = unat (frameLen + 4); buf = take n (drop 4 bs)
          in if length (drop 4 bs) < n then FrameEOF
             else if n < unat frameLen + 4 then FramePanic
             else let entryData = take (unat frameLen) buf;
                      storedCRC = the (BE_Uint32 (drop (unat frameLen) buf))
                  in if storedCRC \<noteq> crc32_Checksum entryData then FrameCRC (4 + n)
                     else FrameData (4 + n) entryData)"

lemma readFrame_consumes: "readFrame bs = FrameData n d \<Longrightarrow> 4 \<le> n \<and> n \<le> length bs"
  by (auto simp: readFrame_def Let_def split: option.splits if_splits)

lemma readFrame_consumes_CRC: "readFrame bs = FrameCRC n \<Longrightarrow> 4 \<le> n \<and> n \<le> length bs"
  by (auto simp: readFrame_def Let_def split: option.splits if_splits)

function scanFrames :: "wcodec \<Rightarrow> bytes \<Rightarrow> u64 \<Rightarrow> gerr + u64" where
  "scanFrames W bs lastLSN =
     (case readFrame bs of
        FrameEOF \<Rightarrow> Inr lastLSN
      | FramePanic \<Rightarrow> Inl ErrPanic
      | FrameCRC n \<Rightarrow> Inr lastLSN
      | FrameData n d \<Rightarrow>
          (case w_unmarshal_entry W d of Inl _ \<Rightarrow> Inr lastLSN
           | Inr e \<Rightarrow> scanFrames W (drop n bs) (if lastLSN < we_lsn e then we_lsn e else lastLSN)))"
  by pat_completeness auto
termination
  by (relation "measure (\<lambda>(W, bs, l). length bs)") (auto dest!: readFrame_consumes)

declare scanFrames.simps [simp del]

definition scanSegmentForLastLSN :: "wcodec \<Rightarrow> (u64 \<times> bytes) list \<Rightarrow> u64 \<Rightarrow> gerr + u64" where
  "scanSegmentForLastLSN W segs n = scanFrames W (segContent segs n) 0"

text \<open>Opening: the next LSN comes from the last segment only.\<close>

definition OpenWAL :: "wcodec \<Rightarrow> (u64 \<times> bytes) list \<Rightarrow> gerr + WAL" where
  "OpenWAL W segs =
     (let segments = map fst segs
      in if segments \<noteq> [] then
           (let lastSeg = last segments
            in ebind (scanSegmentForLastLSN W segs lastSeg) (\<lambda>lastLSN.
                 Inr \<lparr>wal_segs = segCreate lastSeg segs, wal_currentSegN = lastSeg,
                      wal_currentSize = length (segContent segs lastSeg), wal_nextLSN = lastLSN + 1,
                      wal_closed = False, wal_torn = []\<rparr>))
         else Inr \<lparr>wal_segs = segCreate 0 segs, wal_currentSegN = 0, wal_currentSize = 0,
                   wal_nextLSN = 1, wal_closed = False, wal_torn = []\<rparr>)"

fun pruneLoop :: "wcodec \<Rightarrow> u64 \<Rightarrow> u64 \<Rightarrow> u64 list \<Rightarrow> (u64 \<times> bytes) list \<Rightarrow> nat \<Rightarrow> gerr + nat \<times> (u64 \<times> bytes) list" where
  "pruneLoop W cur minLSN [] segs pruned = Inr (pruned, segs)"
| "pruneLoop W cur minLSN (segN # rest) segs pruned =
     (if cur \<le> segN then Inr (pruned, segs)
      else ebind (scanSegmentForLastLSN W segs segN) (\<lambda>lastLSN.
        if lastLSN = 0 then pruneLoop W cur minLSN rest segs pruned
        else if lastLSN < minLSN
             then pruneLoop W cur minLSN rest (filter (\<lambda>s. fst s \<noteq> segN) segs) (pruned + 1)
             else pruneLoop W cur minLSN rest segs pruned))"

definition PruneSegmentsBefore :: "wcodec \<Rightarrow> u64 \<Rightarrow> WAL \<Rightarrow> gerr + nat \<times> WAL" where
  "PruneSegmentsBefore W minLSN w =
     ebind (pruneLoop W (wal_currentSegN w) minLSN (listSegments w) (wal_segs w) 0)
       (\<lambda>r. Inr (fst r, w\<lparr>wal_segs := snd r\<rparr>))"

section \<open>The tailing reader\<close>

text \<open>
  An open file is its segment number and the offset of the next read. A short read leaves the
  offset at the end of the file. \<open>io.EOF\<close> is \<open>Inr None\<close>.
\<close>

record WALReader =
  rd_segments :: "u64 list"
  rd_segIdx :: nat
  rd_file :: "(u64 \<times> nat) option"
  rd_fromLSN :: u64

definition NewReader :: "WAL \<Rightarrow> u64 \<Rightarrow> WALReader" where
  "NewReader w fromLSN =
     \<lparr>rd_segments = listSegments w, rd_segIdx = 0, rd_file = None, rd_fromLSN = fromLSN\<rparr>"

text \<open>The head of the loop: make sure a segment file is open. \<open>Inr None\<close> is end of log.\<close>

definition readerOpen :: "WAL \<Rightarrow> WALReader \<Rightarrow> (gerr + (u64 \<times> nat) option) \<times> WALReader" where
  "readerOpen w r = (case rd_file r of
       Some f \<Rightarrow> (Inr (Some f), r)
     | None \<Rightarrow>
         let r1 = (if length (rd_segments r) \<le> rd_segIdx r then r\<lparr>rd_segments := listSegments w\<rparr> else r)
         in if length (rd_segments r1) \<le> rd_segIdx r1 then (Inr None, r1)
            else let n = rd_segments r1 ! rd_segIdx r1
                 in if map_of (wal_segs w) n = None
                    then (Inl (ErrMsg ''graphdb: WAL reader: failed to open segment''), r1)
                    else (Inr (Some (n, 0)), r1\<lparr>rd_file := Some (n, 0)\<rparr>))"

definition nextSegment :: "u64 list \<Rightarrow> WALReader \<Rightarrow> WALReader" where
  "nextSegment segs r = r\<lparr>rd_file := None, rd_segments := segs, rd_segIdx := rd_segIdx r + 1\<rparr>"

definition readerBound :: "WAL \<Rightarrow> WALReader \<Rightarrow> nat" where
  "readerBound w r = max (length (rd_segments r)) (length (listSegments w))"

definition readerMeasure :: "WAL \<Rightarrow> WALReader \<Rightarrow> nat" where
  "readerMeasure w r = (case rd_file r of
     None \<Rightarrow> (if rd_segIdx r < length (rd_segments r) then 2 + length (segContent (wal_segs w) (rd_segments r ! rd_segIdx r))
              else if rd_segIdx r < length (listSegments w) then 2 + length (segContent (wal_segs w) (listSegments w ! rd_segIdx r)) else 0)
   | Some (n, off) \<Rightarrow> 1 + (length (segContent (wal_segs w) n) - off))"

lemma readerOpen_cases:
  assumes "readerOpen w r = (Inr (Some (n, off)), r1)"
  shows "rd_segIdx r1 = rd_segIdx r \<and> readerBound w r1 \<le> readerBound w r \<and> rd_file r1 = Some (n, off) \<and>
     (readerMeasure w r = 1 + (length (segContent (wal_segs w) n) - off) \<or>
      readerMeasure w r = 2 + length (segContent (wal_segs w) n) \<and> off = 0 \<and> rd_segIdx r < readerBound w r)"
  using assms by (auto simp: readerOpen_def readerMeasure_def readerBound_def Let_def split: option.splits if_splits)

lemma nextSegment_decreases:
  assumes "readerOpen w r = (Inr (Some (n, off)), r1)" and "length segs \<le> readerBound w r"
  shows "readerBound w (nextSegment segs r1) + 1 - rd_segIdx (nextSegment segs r1) < readerBound w r + 1 - rd_segIdx r \<or>
     readerBound w (nextSegment segs r1) + 1 - rd_segIdx (nextSegment segs r1) = readerBound w r + 1 - rd_segIdx r \<and>
     readerMeasure w (nextSegment segs r1) < readerMeasure w r"
proof -
  note o = readerOpen_cases [OF assms(1)]
  have bound: "readerBound w (nextSegment segs r1) \<le> readerBound w r"
    using assms(2) by (simp add: nextSegment_def readerBound_def)
  have idx: "rd_segIdx (nextSegment segs r1) = rd_segIdx r + 1" using o by (simp add: nextSegment_def)
  show ?thesis
  proof (cases "rd_segIdx r \<le> readerBound w r")
    case True
    then show ?thesis using bound idx by linarith
  next
    case False
    then have "readerMeasure w (nextSegment segs r1) = 0"
      using bound idx by (simp add: readerMeasure_def nextSegment_def readerBound_def)
    moreover have "0 < readerMeasure w r" using o by linarith
    ultimately show ?thesis using False bound idx by simp
  qed
qed

lemma readFrame_decreases:
  assumes "readerOpen w r = (Inr (Some (n, off)), r1)"
    and "readFrame (drop off (segContent (wal_segs w) n)) = FrameData k d"
  shows "readerBound w (r1\<lparr>rd_file := Some (n, off + k)\<rparr>) \<le> readerBound w r \<and> rd_segIdx r1 = rd_segIdx r \<and>
     readerMeasure w (r1\<lparr>rd_file := Some (n, off + k)\<rparr>) < readerMeasure w r"
proof -
  have "readerMeasure w (r1\<lparr>rd_file := Some (n, off + k)\<rparr>) = 1 + (length (segContent (wal_segs w) n) - (off + k))"
    by (simp add: readerMeasure_def)
  moreover have "readerBound w (r1\<lparr>rd_file := Some (n, off + k)\<rparr>) = readerBound w r1"
    by (simp add: readerBound_def)
  ultimately show ?thesis
    using readerOpen_cases [OF assms(1)] readFrame_consumes [OF assms(2)] by auto
qed

definition readerOrder :: "((wcodec \<times> WAL \<times> WALReader) \<times> (wcodec \<times> WAL \<times> WALReader)) set" where
  "readerOrder = measures [\<lambda>(W, w, r). readerBound w r + 1 - rd_segIdx r, \<lambda>(W, w, r). readerMeasure w r]"

lemma nextSegment_order:
  assumes "(Inr (Some (n, off)), r1) = readerOpen w r" and "length segs \<le> readerBound w r"
  shows "((W, w, nextSegment segs r1), (W, w, r)) \<in> readerOrder"
  using nextSegment_decreases [OF assms(1) [symmetric] assms(2)] by (auto simp: readerOrder_def)

lemma readFrame_order:
  assumes "(Inr (Some (n, off)), r1) = readerOpen w r"
    and "readFrame (drop off (segContent (wal_segs w) n)) = FrameData k d"
  shows "((W, w, r1\<lparr>rd_file := Some (n, off + k)\<rparr>), (W, w, r)) \<in> readerOrder"
  using readFrame_decreases [OF assms(1) [symmetric] assms(2)] by (auto simp: readerOrder_def)

lemma readerOpen_bound: "(Inr (Some (n, off)), r1) = readerOpen w r \<Longrightarrow> length (rd_segments r1) \<le> readerBound w r"
  using readerOpen_cases [of w r n off r1] by (auto simp: readerBound_def)

function readerNext :: "wcodec \<Rightarrow> WAL \<Rightarrow> WALReader \<Rightarrow> (gerr + WALEntry option) \<times> WALReader" where
  "readerNext W w r = (case readerOpen w r of
       (Inl e, r1) \<Rightarrow> (Inl e, r1)
     | (Inr None, r1) \<Rightarrow> (Inr None, r1)
     | (Inr (Some (n, off)), r1) \<Rightarrow>
         let content = segContent (wal_segs w) n
         in case readFrame (drop off content) of
              FrameEOF \<Rightarrow>
                let segs = listSegments w
                in if length (rd_segments r1) < length segs
                   then readerNext W w (nextSegment segs r1)
                   else (Inr None, r1\<lparr>rd_file := Some (n, max off (length content))\<rparr>)
            | FramePanic \<Rightarrow> (Inl ErrPanic, r1)
            | FrameCRC k \<Rightarrow> readerNext W w (nextSegment (rd_segments r1) r1)
            | FrameData k d \<Rightarrow>
                let r2 = r1\<lparr>rd_file := Some (n, off + k)\<rparr>
                in case w_unmarshal_entry W d of
                     Inl e \<Rightarrow> readerNext W w r2
                   | Inr entry \<Rightarrow> if we_lsn entry < rd_fromLSN r2 then readerNext W w r2
                                   else (Inr (Some entry), r2))"
  by pat_completeness auto
termination
proof (relation readerOrder, goal_cases)
  case 1
  then show ?case by (simp add: readerOrder_def)
next
  case 2
  then show ?case by (auto intro: nextSegment_order simp: readerBound_def)
next
  case 3
  then show ?case by (auto intro!: nextSegment_order readerOpen_bound)
next
  case 4
  then show ?case by (auto intro: readFrame_order)
next
  case 5
  then show ?case by (auto intro: readFrame_order)
qed

declare readerNext.simps [simp del]

section \<open>What a well-formed segment contains\<close>

definition segRep :: "wcodec \<Rightarrow> bytes \<Rightarrow> WALEntry list \<Rightarrow> bool" where
  "segRep W bs es \<longleftrightarrow> (\<exists>ds. list_all2 (\<lambda>e d. w_marshal_entry W e = Inr d \<and> length d < 2 ^ 32 - 4) es ds \<and>
     bs = concat (map frame ds))"

lemma segRep_Nil [simp]: "segRep W bs [] \<longleftrightarrow> bs = []"
  by (simp add: segRep_def)

lemma segRep_Cons: "segRep W bs (e # es) \<longleftrightarrow>
    (\<exists>d bs'. w_marshal_entry W e = Inr d \<and> length d < 2 ^ 32 - 4 \<and> bs = frame d @ bs' \<and> segRep W bs' es)"
  by (fastforce simp: segRep_def list_all2_Cons1)

lemma segRep_snoc:
  "segRep W bs es \<Longrightarrow> w_marshal_entry W e = Inr d \<Longrightarrow> length d < 2 ^ 32 - 4 \<Longrightarrow> segRep W (bs @ frame d) (es @ [e])"
  by (induction es arbitrary: bs) (fastforce simp: segRep_Cons)+

lemma length_frame [simp]: "length (frame d) = length d + 8"
  by (simp add: frame_def)

lemma readFrame_frame:
  assumes "length d < 2 ^ 32 - 4"
  shows "readFrame (frame d @ r) = FrameData (8 + length d) d"
proof -
  have l: "unat (word_of_nat (length d) :: u32) = length d"
    using assms by (simp add: unat_of_nat)
  have n: "unat (word_of_nat (length d) + 4 :: u32) = length d + 4"
    using assms l by (simp add: unat_word_ariths)
  have "BE_Uint32 (frame d @ r) = Some (word_of_nat (length d))" by (simp add: frame_def)
  then show ?thesis
    by (simp add: readFrame_def Let_def n l) (simp add: frame_def)
qed

lemma readFrame_Nil [simp]: "readFrame [] = FrameEOF"
  by (simp add: readFrame_def BE_Uint32_def)

context wal_codec_laws
begin

lemma scanFrames_rep:
  "segRep W bs es \<Longrightarrow> scanFrames W bs l = Inr (fold max (map we_lsn es) l)"
proof (induction es arbitrary: bs l)
  case Nil
  then show ?case by (simp add: scanFrames.simps)
next
  case (Cons e es)
  then obtain d bs' where d: "w_marshal_entry W e = Inr d" "length d < 2 ^ 32 - 4" "bs = frame d @ bs'" "segRep W bs' es"
    by (auto simp: segRep_Cons)
  have "readFrame bs = FrameData (8 + length d) d" using readFrame_frame [OF d(2)] d(3) by simp
  then have "scanFrames W bs l = scanFrames W bs' (max (we_lsn e) l)"
    using entry_roundtrip [OF d(1)] d(3) by (subst scanFrames.simps) (auto simp: max_def)
  then show ?case using Cons.IH [OF d(4)] by simp
qed

end

text \<open>
  A log that was written without faults: every segment file holds whole frames, the segment
  numbers ascend, the last one is active, and the entries carry the LSNs 1, 2, 3, ... in order.
\<close>

definition wal_rep :: "wcodec \<Rightarrow> WAL \<Rightarrow> WALEntry list list \<Rightarrow> bool" where
  "wal_rep W w ess \<longleftrightarrow> list_all2 (\<lambda>s es. segRep W (snd s) es) (wal_segs w) ess \<and>
     sorted_wrt (<) (map fst (wal_segs w)) \<and> wal_segs w \<noteq> [] \<and>
     wal_currentSegN w = fst (last (wal_segs w)) \<and> wal_currentSize w = length (snd (last (wal_segs w))) \<and>
     map we_lsn (concat ess) = map word_of_nat [1..<unat (wal_nextLSN w)] \<and> 1 \<le> unat (wal_nextLSN w)"

lemma wal_rep_open_empty: "OpenWAL W [] = Inr w \<Longrightarrow> wal_rep W w [[]]"
  by (auto simp: OpenWAL_def segCreate_def wal_rep_def)

lemma segAppend_last:
  assumes "sorted_wrt (<) (map fst (xs @ [(n, c)]))"
  shows "segAppend n bs (xs @ [(n, c)]) = xs @ [(n, c @ bs)]"
proof -
  have "map (\<lambda>(m, c). (m, if m = n then c @ bs else c)) xs = xs"
    using assms by (intro map_idI) (force simp: sorted_wrt_append)
  then show ?thesis by (simp add: segAppend_def)
qed

lemma segCreate_last:
  assumes "sorted_wrt (<) (map fst segs)" and "segs \<noteq> []" and "fst (last segs) < n"
  shows "segCreate n segs = segs @ [(n, [])]"
proof -
  have "fst s < n" if "s \<in> set segs" for s
  proof -
    obtain xs x where "segs = xs @ [x]" using assms(2) by (metis rev_exhaust)
    then show ?thesis using that assms(1,3) by (force simp: sorted_wrt_append)
  qed
  then show ?thesis
    by (auto simp: segCreate_def filter_id_conv filter_empty_conv dest: less_asym)
qed

lemma wal_rep_rotate:
  assumes "wal_rep W w ess" and "wal_currentSegN w \<noteq> - 1"
  shows "wal_rep W (rotateSegment w) (ess @ [[]])"
proof -
  have "fst (last (wal_segs w)) < wal_currentSegN w + 1"
    using assms u64_less_succ by (auto simp: wal_rep_def)
  then have "segCreate (wal_currentSegN w + 1) (wal_segs w) = wal_segs w @ [(wal_currentSegN w + 1, [])]"
    using assms by (intro segCreate_last) (auto simp: wal_rep_def)
  moreover have "\<forall>s \<in> set (wal_segs w). fst s < wal_currentSegN w + 1"
  proof
    fix s assume "s \<in> set (wal_segs w)"
    moreover obtain xs x where "wal_segs w = xs @ [x]" using assms by (metis rev_exhaust wal_rep_def)
    ultimately show "fst s < wal_currentSegN w + 1"
      using assms u64_less_succ [OF assms(2)] by (force simp: wal_rep_def sorted_wrt_append)
  qed
  ultimately show ?thesis
    using assms by (auto simp: wal_rep_def rotateSegment_def Let_def sorted_wrt_append list_all2_appendI)
qed

text \<open>A successful append adds exactly one entry, with the next LSN, at the end of the log.\<close>

lemma wal_rep_append:
  assumes rep: "wal_rep W w ess" and opn: "\<not> wal_closed w" "wal_torn w = []"
    and e: "e = \<lparr>we_lsn = wal_nextLSN w, we_ts = w_now W (wal_nextLSN w), we_op = op, we_payload = p\<rparr>"
    and d: "w_marshal_entry W e = Inr d" "length d < 2 ^ 32 - 4"
    and max: "wal_nextLSN w \<noteq> - 1" "wal_currentSegN w \<noteq> - 1"
  shows "\<exists>w' ess'. wal_Append W op p w = (Inr (wal_nextLSN w), w') \<and> wal_rep W w' ess' \<and>
     concat ess' = concat ess @ [e] \<and> wal_nextLSN w' = wal_nextLSN w + 1 \<and> \<not> wal_closed w' \<and> wal_torn w' = []"
proof -
  obtain xs n c where segs: "wal_segs w = xs @ [(n, c)]"
    using rep by (metis rev_exhaust surj_pair wal_rep_def)
  then obtain ess0 es where ess: "ess = ess0 @ [es]" and r0: "list_all2 (\<lambda>s es. segRep W (snd s) es) xs ess0" and r1: "segRep W c es"
    using rep by (auto simp: wal_rep_def list_all2_append1 list_all2_Cons1)
  have cur: "wal_currentSegN w = n" "wal_currentSize w = length c" using rep segs by (auto simp: wal_rep_def)
  let ?w3 = "w\<lparr>wal_nextLSN := wal_nextLSN w + 1, wal_torn := [], wal_segs := xs @ [(n, c @ frame d)], wal_currentSize := length c + length (frame d)\<rparr>"
  have sorted: "sorted_wrt (<) (map fst (xs @ [(n, c)]))" using rep segs by (simp add: wal_rep_def)
  have app: "segAppend n (frame d) (xs @ [(n, c)]) = xs @ [(n, c @ frame d)]" using segAppend_last [OF sorted] .
  have lsn: "[1..<unat (wal_nextLSN w + 1)] = [1..<unat (wal_nextLSN w)] @ [unat (wal_nextLSN w)]"
    using rep max by (simp add: unat_u64_succ wal_rep_def)
  have rep3: "wal_rep W ?w3 (ess0 @ [es @ [e]])"
    using rep r0 segRep_snoc [OF r1 d] cur sorted lsn unat_u64_succ [OF max(1)]
    by (auto simp: wal_rep_def segs ess list_all2_appendI e)
  have res: "wal_Append W op p w = (Inr (wal_nextLSN w), if w_segMax W \<le> length c + length (frame d) then rotateSegment ?w3 else ?w3)"
    using opn d cur by (simp add: wal_Append_def Let_def e [symmetric] segs app) 
  show ?thesis
  proof (cases "w_segMax W \<le> length c + length (frame d)")
    case True
    then show ?thesis
      using res wal_rep_rotate [OF rep3] max ess opn
      by (intro exI [of _ "rotateSegment ?w3"] exI [of _ "(ess0 @ [es @ [e]]) @ [[]]"]) (simp add: rotateSegment_def Let_def)
  next
    case False
    then show ?thesis using res rep3 ess opn by (intro exI [of _ ?w3] exI [of _ "ess0 @ [es @ [e]]"]) simp
  qed
qed

section \<open>What a reader returns\<close>

text \<open>The loop of a consumer: read up to \<open>k\<close> entries, stop at the end of the log.\<close>

fun readEntries :: "nat \<Rightarrow> wcodec \<Rightarrow> WAL \<Rightarrow> WALReader \<Rightarrow> gerr + WALEntry list \<times> WALReader" where
  "readEntries 0 W w r = Inr ([], r)"
| "readEntries (Suc k) W w r = (case readerNext W w r of
       (Inl e, r') \<Rightarrow> Inl e
     | (Inr None, r') \<Rightarrow> Inr ([], r')
     | (Inr (Some e), r') \<Rightarrow> ebind (readEntries k W w r') (\<lambda>(es, r''). Inr (e # es, r'')))"

definition reader_at :: "wcodec \<Rightarrow> WAL \<Rightarrow> WALReader \<Rightarrow> u64 \<Rightarrow> WALEntry list \<Rightarrow> bool" where
  "reader_at W w r n rest \<longleftrightarrow> (\<exists>off. rd_file r = Some (n, off) \<and>
     segRep W (drop off (segContent (wal_segs w) n)) rest \<and> length (listSegments w) \<le> length (rd_segments r))"

context wal_codec_laws
begin

lemma readerNext_at:
  assumes "reader_at W w r n rest"
  shows "case filter (\<lambda>e. rd_fromLSN r \<le> we_lsn e) rest of
      [] \<Rightarrow> (\<exists>r'. readerNext W w r = (Inr None, r') \<and> reader_at W w r' n [] \<and> rd_fromLSN r' = rd_fromLSN r)
    | e # es \<Rightarrow> (\<exists>r' rest'. readerNext W w r = (Inr (Some e), r') \<and> reader_at W w r' n rest' \<and>
        filter (\<lambda>e. rd_fromLSN r \<le> we_lsn e) rest' = es \<and> rd_fromLSN r' = rd_fromLSN r)"
  using assms
proof (induction rest arbitrary: r)
  case Nil
  then obtain off where off: "rd_file r = Some (n, off)" "drop off (segContent (wal_segs w) n) = []"
    "length (listSegments w) \<le> length (rd_segments r)"
    by (auto simp: reader_at_def)
  then have "readerNext W w r = (Inr None, r\<lparr>rd_file := Some (n, max off (length (segContent (wal_segs w) n)))\<rparr>)"
    by (subst readerNext.simps) (simp add: readerOpen_def)
  then show ?case using off by (simp add: reader_at_def)
next
  case (Cons e rest)
  then obtain off d bs' where off: "rd_file r = Some (n, off)" "length (listSegments w) \<le> length (rd_segments r)"
    and d: "w_marshal_entry W e = Inr d" "length d < 2 ^ 32 - 4"
      "drop off (segContent (wal_segs w) n) = frame d @ bs'" "segRep W bs' rest"
    by (auto simp: reader_at_def segRep_Cons)
  define r2 where "r2 = r\<lparr>rd_file := Some (n, off + (8 + length d))\<rparr>"
  have "drop (off + (8 + length d)) (segContent (wal_segs w) n) = bs'"
    using d(3) by (metis add.commute append_eq_conv_conj drop_drop length_frame)
  then have at: "reader_at W w r2 n rest" using off d(4) by (simp add: reader_at_def r2_def)
  have step: "readerNext W w r = (if we_lsn e < rd_fromLSN r then readerNext W w r2 else (Inr (Some e), r2))"
    using off readFrame_frame [OF d(2), of bs'] entry_roundtrip [OF d(1)]
    by (subst readerNext.simps) (simp add: readerOpen_def d(3) r2_def)
  have fr: "rd_fromLSN r2 = rd_fromLSN r" by (simp add: r2_def)
  show ?case
  proof (cases "we_lsn e < rd_fromLSN r")
    case True
    then show ?thesis using step Cons.IH [OF at] fr by (simp add: not_le [symmetric] split: list.splits)
  next
    case False
    then show ?thesis using step at fr by (auto simp: not_less)
  qed
qed

lemma readEntries_at:
  "reader_at W w r n rest \<Longrightarrow>
   \<exists>r'. readEntries k W w r = Inr (take k (filter (\<lambda>e. rd_fromLSN r \<le> we_lsn e) rest), r')"
proof (induction k arbitrary: r rest)
  case (Suc k)
  show ?case
  proof (cases "filter (\<lambda>e. rd_fromLSN r \<le> we_lsn e) rest")
    case Nil
    then show ?thesis using readerNext_at [OF Suc.prems] by auto
  next
    case (Cons e es)
    then obtain r' rest' where n: "readerNext W w r = (Inr (Some e), r')" "reader_at W w r' n rest'"
      "filter (\<lambda>e. rd_fromLSN r \<le> we_lsn e) rest' = es" "rd_fromLSN r' = rd_fromLSN r"
      using readerNext_at [OF Suc.prems] by auto
    then show ?thesis using Suc.IH [OF n(2)] Cons by auto
  qed
qed simp

lemma readEntries_new:
  assumes "wal_rep W w (es # ess)"
  shows "\<exists>r'. readEntries k W w (NewReader w from) = Inr (take k (filter (\<lambda>e. from \<le> we_lsn e) es), r')"
proof -
  obtain n c segs where segs: "wal_segs w = (n, c) # segs" and c: "segRep W c es"
    using assms by (auto simp: wal_rep_def list_all2_Cons2)
  define r1 where "r1 = (NewReader w from)\<lparr>rd_file := Some (n, 0)\<rparr>"
  have "readerOpen w (NewReader w from) = (Inr (Some (n, 0)), r1)"
    by (simp add: readerOpen_def NewReader_def listSegments_def segs r1_def Let_def)
  moreover have "readerOpen w r1 = (Inr (Some (n, 0)), r1)" by (simp add: readerOpen_def r1_def)
  ultimately have "readerNext W w (NewReader w from) = readerNext W w r1"
    by (subst (1 2) readerNext.simps) simp
  then have "readEntries k W w (NewReader w from) = (if k = 0 then Inr ([], NewReader w from) else readEntries k W w r1)"
    by (cases k) simp_all
  moreover have "reader_at W w r1 n es"
    using c by (simp add: reader_at_def r1_def NewReader_def segContent_def segs listSegments_def)
  moreover have "rd_fromLSN r1 = from" by (simp add: r1_def NewReader_def)
  ultimately show ?thesis using readEntries_at [of w r1 n es k] by auto
qed

text \<open>Reopening a log whose active segment is not empty continues with the same LSN.\<close>

lemma fold_max_ge: "(\<And>x. x \<in> set xs \<Longrightarrow> x \<le> m) \<Longrightarrow> l \<le> m \<Longrightarrow> m \<in> set xs \<Longrightarrow> fold max xs l = (m :: u64)"
proof (induction xs arbitrary: l)
  case (Cons x xs)
  show ?case
  proof (cases "m \<in> set xs")
    case True
    then show ?thesis using Cons by simp
  next
    case False
    then have "x = m" using Cons.prems by simp
    moreover have "fold max ys m = m" if "\<And>y. y \<in> set ys \<Longrightarrow> y \<le> m" for ys
      using that by (induction ys) (simp_all add: max_absorb2)
    ultimately show ?thesis using Cons.prems by (simp add: max_absorb1)
  qed
qed simp

lemma OpenWAL_recovers:
  assumes rep: "wal_rep W w (ess @ [es])" and "es \<noteq> []" and "wal_nextLSN w \<noteq> 0"
  shows "\<exists>w'. OpenWAL W (wal_segs w) = Inr w' \<and> wal_nextLSN w' = wal_nextLSN w \<and> wal_segs w' = wal_segs w \<and>
     wal_rep W w' (ess @ [es])"
proof -
  obtain xs n c where segs: "wal_segs w = xs @ [(n, c)]"
    using rep by (metis rev_exhaust surj_pair wal_rep_def)
  then have c: "segRep W c es" and cur: "wal_currentSegN w = n" "wal_currentSize w = length c"
    using rep by (auto simp: wal_rep_def list_all2_append2 list_all2_Cons2 list_all2_Nil2)
  have d: "distinct (map fst (wal_segs w))" using rep by (simp add: wal_rep_def strict_sorted_iff)
  then have "map_of xs n = None" by (simp add: segs map_of_eq_None_iff)
  then have content: "segContent (wal_segs w) n = c" by (simp add: segContent_def segs map_add_def)
  obtain m where m: "unat (wal_nextLSN w) = Suc m"
    using rep by (cases "unat (wal_nextLSN w)") (auto simp: wal_rep_def)
  have lsns: "map we_lsn (concat ess) @ map we_lsn es = map word_of_nat [1..<Suc m]"
    using rep m by (simp add: wal_rep_def del: upt_Suc)
  then have "1 \<le> m" using assms(2) by (cases m) auto
  then have last: "last (map we_lsn es) = word_of_nat m"
    using arg_cong [OF lsns, of last] assms(2) by simp
  have bound: "x \<le> word_of_nat m" if "x \<in> set (map we_lsn es)" for x
  proof -
    have "x \<in> set (map word_of_nat [1..<Suc m])" using that lsns by (metis Un_iff set_append)
    then obtain i where i: "x = word_of_nat i" "i \<le> m" by auto
    have "m < 2 ^ 64" using unat_u64_bound [of "wal_nextLSN w"] m by simp
    then show ?thesis using i by (simp add: word_of_nat_less_eq_iff take_bit_nat_eq_self)
  qed
  have mem: "word_of_nat m \<in> set (map we_lsn es)"
    using last_in_set [of "map we_lsn es"] assms(2) by (simp only: last [symmetric]) simp
  have "fold max (map we_lsn es) 0 = word_of_nat m"
    using bound mem by (intro fold_max_ge) simp_all
  then have "OpenWAL W (wal_segs w) = Inr \<lparr>wal_segs = segCreate n (wal_segs w), wal_currentSegN = n,
      wal_currentSize = length c, wal_nextLSN = word_of_nat m + 1, wal_closed = False, wal_torn = []\<rparr>"
    using scanFrames_rep [OF c, of 0] content
    by (simp add: OpenWAL_def scanSegmentForLastLSN_def segs)
  moreover have "word_of_nat m + 1 = wal_nextLSN w"
  proof -
    have "word_of_nat (unat (wal_nextLSN w)) = wal_nextLSN w" by simp
    then show ?thesis unfolding m by (simp add: add.commute)
  qed
  moreover have "segCreate n (wal_segs w) = wal_segs w" by (simp add: segCreate_def segs)
  ultimately show ?thesis using rep cur by (auto simp: wal_rep_def)
qed

end

section \<open>A concrete log codec\<close>

text \<open>
  A codec that meets the laws, for closed evaluations: entries are fixed-width fields followed by
  the payload, payloads are lists of strings, and only a part of the operations is supported.
\<close>

fun opCode :: "OpType \<Rightarrow> byte option" where
  "opCode OpAddNode = Some (CHR 0x01)"
| "opCode OpUpdateNode = Some (CHR 0x03)"
| "opCode OpSetNodeProps = Some (CHR 0x04)"
| "opCode OpDeleteNode = Some (CHR 0x05)"
| "opCode OpAddEdge = Some (CHR 0x06)"
| "opCode OpDeleteEdge = Some (CHR 0x08)"
| "opCode _ = None"

definition opOfCode :: "byte \<Rightarrow> OpType" where
  "opOfCode c = (if c = CHR 0x01 then OpAddNode else if c = CHR 0x03 then OpUpdateNode
     else if c = CHR 0x04 then OpSetNodeProps else if c = CHR 0x05 then OpDeleteNode
     else if c = CHR 0x06 then OpAddEdge else OpDeleteEdge)"

fun op_strs :: "Props wal_op \<Rightarrow> string list option" where
  "op_strs (WALAddNode i p) = map_option (Cons (BE_PutUint64 i)) (strs_of_props p)"
| "op_strs (WALUpdateNode i p) = map_option (Cons (BE_PutUint64 i)) (strs_of_props p)"
| "op_strs (WALSetNodeProps i p) = map_option (Cons (BE_PutUint64 i)) (strs_of_props p)"
| "op_strs (WALDeleteNode i) = Some [BE_PutUint64 i]"
| "op_strs (WALAddEdge i a b l p) =
     map_option (\<lambda>r. BE_PutUint64 i # BE_PutUint64 a # BE_PutUint64 b # l # r) (strs_of_props p)"
| "op_strs (WALDeleteEdge i a b l) = Some [BE_PutUint64 i, BE_PutUint64 a, BE_PutUint64 b, l]"
| "op_strs _ = None"

definition unid :: "string \<Rightarrow> u64" where "unid s = the (BE_Uint64 s)"

fun strs_op :: "OpType \<Rightarrow> string list \<Rightarrow> Props wal_op option" where
  "strs_op OpAddNode (i # r) = map_option (WALAddNode (unid i)) (props_of_strs r)"
| "strs_op OpUpdateNode (i # r) = map_option (WALUpdateNode (unid i)) (props_of_strs r)"
| "strs_op OpSetNodeProps (i # r) = map_option (WALSetNodeProps (unid i)) (props_of_strs r)"
| "strs_op OpDeleteNode [i] = Some (WALDeleteNode (unid i))"
| "strs_op OpAddEdge (i # a # b # l # r) = map_option (WALAddEdge (unid i) (unid a) (unid b) l) (props_of_strs r)"
| "strs_op OpDeleteEdge [i, a, b, l] = Some (WALDeleteEdge (unid i) (unid a) (unid b) l)"
| "strs_op _ _ = None"

definition str_wcodec :: "nat \<Rightarrow> wcodec" where
  "str_wcodec segMax = \<lparr>
     w_marshal_payload = (\<lambda>p. case op_strs p of None \<Rightarrow> Inl ErrMarshal | Some l \<Rightarrow> Inr (enc_strs l)),
     w_unmarshal_payload = (\<lambda>op b. case dec_strs (length b) b of None \<Rightarrow> Inl ErrUnmarshal
        | Some l \<Rightarrow> (case strs_op op l of None \<Rightarrow> Inl ErrUnmarshal | Some p \<Rightarrow> Inr p)),
     w_marshal_entry = (\<lambda>e. case opCode (we_op e) of None \<Rightarrow> Inl ErrMarshal
        | Some c \<Rightarrow> if we_ts e = 0 then Inr (c # BE_PutUint64 (we_lsn e) @ we_payload e) else Inl ErrMarshal),
     w_unmarshal_entry = (\<lambda>b. case b of [] \<Rightarrow> Inl ErrUnmarshal
        | c # r \<Rightarrow> (case BE_Uint64 r of None \<Rightarrow> Inl ErrUnmarshal
            | Some l \<Rightarrow> Inr \<lparr>we_lsn = l, we_ts = 0, we_op = opOfCode c, we_payload = drop 8 r\<rparr>)),
     w_now = (\<lambda>_. 0), w_segMax = segMax \<rparr>"

lemma str_wcodec_simps [simp]:
  "w_now (str_wcodec m) l = 0" "w_segMax (str_wcodec m) = m"
  "w_marshal_entry (str_wcodec m) \<lparr>we_lsn = l, we_ts = 0, we_op = OpDeleteNode, we_payload = p\<rparr>
     = Inr (CHR 0x05 # BE_PutUint64 l @ p)"
  by (simp_all add: str_wcodec_def)

lemma strs_op_inverse: "op_strs p = Some l \<Longrightarrow> strs_op (opType p) l = Some p"
  by (cases p) (auto simp: unid_def dest!: props_of_strs_of_props)

lemma rel_wal_op_refl: "(\<And>p. R p p) \<Longrightarrow> rel_wal_op R x x"
  by (rule wal_op.rel_refl)

interpretation str_wcodec: wal_codec_laws str_codec "str_wcodec m"
proof
  fix p b assume "w_marshal_payload (str_wcodec m) p = Inr b"
  then obtain l where l: "op_strs p = Some l" "b = enc_strs l"
    by (auto simp: str_wcodec_def split: option.splits)
  then have "w_unmarshal_payload (str_wcodec m) (opType p) b = Inr p"
    by (simp add: str_wcodec_def dec_enc_strs length_enc_strs strs_op_inverse)
  then show "\<exists>q. w_unmarshal_payload (str_wcodec m) (opType p) b = Inr q \<and> rel_wal_op (text_eq str_codec) p q"
    using rel_wal_op_refl [of "text_eq str_codec"] by auto
next
  fix e b assume a: "w_marshal_entry (str_wcodec m) e = Inr b"
  have "opCode x = Some c \<Longrightarrow> opOfCode c = x" for x c by (cases x) (auto simp: opOfCode_def)
  then show "w_unmarshal_entry (str_wcodec m) b = Inr e"
    using a by (auto simp: str_wcodec_def split: option.splits if_splits)
qed

section \<open>Properties\<close>

text \<open>
  C30. Appending to an open log whose file writes succeed returns the next LSN and extends the log by
  exactly that entry at its end; every segment file keeps holding whole frames, the LSNs stay
  1, 2, 3, ... without gaps, and a rotation neither loses nor reorders an entry.
\<close>

theorem wal_append_extends_log:
  assumes "wal_rep W w ess" and "\<not> wal_closed w" and "wal_torn w = []"
    and "e = \<lparr>we_lsn = wal_nextLSN w, we_ts = w_now W (wal_nextLSN w), we_op = op, we_payload = p\<rparr>"
    and "w_marshal_entry W e = Inr d" and "length d < 2 ^ 32 - 4"
    and "wal_nextLSN w \<noteq> - 1" and "wal_currentSegN w \<noteq> - 1"
  shows "\<exists>w' ess'. wal_Append W op p w = (Inr (wal_nextLSN w), w') \<and> wal_rep W w' ess' \<and>
     concat ess' = concat ess @ [e] \<and> wal_nextLSN w' = wal_nextLSN w + 1"
  using wal_rep_append [OF assms] by blast

theorem wal_append_extends_log_witness:
  "\<exists>w w' ess'. OpenWAL (str_wcodec 20) [] = Inr w \<and>
     wal_Append (str_wcodec 20) OpDeleteNode ''x'' w = (Inr 1, w') \<and> wal_rep (str_wcodec 20) w' ess' \<and>
     concat ess' = [\<lparr>we_lsn = 1, we_ts = 0, we_op = OpDeleteNode, we_payload = ''x''\<rparr>]"
proof -
  obtain w where w: "OpenWAL (str_wcodec 20) [] = Inr w" and n: "wal_nextLSN w = 1" "\<not> wal_closed w" "wal_torn w = []" "wal_currentSegN w = 0"
    by (simp add: OpenWAL_def segCreate_def)
  from wal_append_extends_log [OF wal_rep_open_empty [OF w] n(2,3) refl, of OpDeleteNode "''x''"] show ?thesis
    using w n by auto
qed

text \<open>
  A consumer that opens a reader and reads until the end of the log gets, in order, exactly the
  entries of the oldest retained segment whose LSN is at least the one it asked for, and never an
  error. In particular a log that has not rotated yet is replayed completely.
\<close>

theorem wal_reader_returns_oldest_segment:
  assumes "wal_codec_laws C W" and "wal_rep W w (es # ess)"
  shows "\<exists>r'. readEntries k W w (NewReader w from) = Inr (take k (filter (\<lambda>e. from \<le> we_lsn e) es), r')"
  using assms by (rule wal_codec_laws.readEntries_new)

theorem wal_reader_returns_oldest_segment_witness:
  "\<exists>w r'. OpenWAL (str_wcodec 20) [] = Inr w \<and> readEntries 5 (str_wcodec 20) w (NewReader w 1) = Inr ([], r')"
proof -
  let ?w = "\<lparr>wal_segs = [(0, [])], wal_currentSegN = 0, wal_currentSize = 0, wal_nextLSN = 1, wal_closed = False, wal_torn = []\<rparr>"
  have w: "OpenWAL (str_wcodec 20) [] = Inr ?w" by (simp add: OpenWAL_def segCreate_def)
  show ?thesis
    using wal_reader_returns_oldest_segment [OF str_wcodec.wal_codec_laws_axioms wal_rep_open_empty [OF w], of 5 1] w by simp
qed

text \<open>
  C31. Reopening a log after a restart continues with the LSN after the last one written and keeps
  every entry, provided the active segment holds at least one entry.
\<close>

theorem wal_reopen_continues_lsn:
  assumes "wal_codec_laws C W" and "wal_rep W w (ess @ [es])" and "es \<noteq> []" and "wal_nextLSN w \<noteq> 0"
  shows "\<exists>w'. OpenWAL W (wal_segs w) = Inr w' \<and> wal_nextLSN w' = wal_nextLSN w \<and> wal_rep W w' (ess @ [es])"
  using wal_codec_laws.OpenWAL_recovers [OF assms] by blast

theorem wal_reopen_continues_lsn_witness:
  "\<exists>w w'. wal_rep (str_wcodec 100) w [[\<lparr>we_lsn = 1, we_ts = 0, we_op = OpDeleteNode, we_payload = ''x''\<rparr>]] \<and>
     OpenWAL (str_wcodec 100) (wal_segs w) = Inr w' \<and> wal_nextLSN w' = 2"
proof -
  let ?f = "frame (CHR 0x05 # BE_PutUint64 1 @ ''x'')"
  let ?w = "\<lparr>wal_segs = [(0, ?f)], wal_currentSegN = 0, wal_currentSize = length ?f, wal_nextLSN = 2, wal_closed = False, wal_torn = []\<rparr>"
  have r: "wal_rep (str_wcodec 100) ?w ([] @ [[\<lparr>we_lsn = 1, we_ts = 0, we_op = OpDeleteNode, we_payload = ''x''\<rparr>]])"
    by (simp add: wal_rep_def segRep_Cons) (simp add: upt_conv_Cons)
  show ?thesis
    using wal_reopen_continues_lsn [OF str_wcodec.wal_codec_laws_axioms r] r by auto
qed

text \<open>
  C36. The proviso is needed: when the last write before a restart filled the segment, the active
  segment is a new empty file, and the reopened log starts again at LSN 1 although entries with
  that LSN and higher exist.
\<close>

theorem wal_reopen_after_rotation_resets_lsn:
  assumes "wal_rep W w (ess @ [[]])"
  shows "\<exists>w'. OpenWAL W (wal_segs w) = Inr w' \<and> wal_nextLSN w' = 1"
proof -
  obtain xs n where segs: "wal_segs w = xs @ [(n, [])]"
    using assms by (auto simp: wal_rep_def list_all2_append2 list_all2_Cons2)
  have "distinct (map fst (wal_segs w))" using assms by (simp add: wal_rep_def strict_sorted_iff)
  then have "map_of xs n = None" by (simp add: segs map_of_eq_None_iff)
  then have "segContent (wal_segs w) n = []" by (simp add: segContent_def segs map_add_def)
  then show ?thesis by (simp add: OpenWAL_def scanSegmentForLastLSN_def segs scanFrames.simps)
qed

theorem wal_reopen_after_rotation_resets_lsn_witness:
  "\<exists>w w'. wal_rep (str_wcodec 10) w [[\<lparr>we_lsn = 1, we_ts = 0, we_op = OpDeleteNode, we_payload = ''x''\<rparr>], []] \<and>
     wal_nextLSN w = 2 \<and> OpenWAL (str_wcodec 10) (wal_segs w) = Inr w' \<and> wal_nextLSN w' = 1"
proof -
  let ?w = "\<lparr>wal_segs = [(0, frame (CHR 0x05 # BE_PutUint64 1 @ ''x'')), (1, [])], wal_currentSegN = 1, wal_currentSize = 0,
     wal_nextLSN = 2, wal_closed = False, wal_torn = []\<rparr>"
  have r: "wal_rep (str_wcodec 10) ?w ([[\<lparr>we_lsn = 1, we_ts = 0, we_op = OpDeleteNode, we_payload = ''x''\<rparr>]] @ [[]])"
    by (simp add: wal_rep_def segRep_Cons) (simp add: upt_conv_Cons)
  show ?thesis
    using wal_reopen_after_rotation_resets_lsn [OF r] r by auto
qed

end
