(* ===== verification/DB.thy ===== *)
theory DB
  imports Storage NodeCache Bloom WAL
begin

text \<open>
  The database object (graphdb.go): its state, opening and closing, the guards every operation
  starts with, shard routing, the write transaction of one shard and the append to the log.

  The maps \<open>indexedProps\<close>, \<open>compositeIndexes\<close> and \<open>uniqueConstraints\<close> are association lists;
  ranging over a Go map visits the entries in some order, here the order of the list. A script of
  errors stands for what bbolt and the write queue may report, one entry per write transaction:
  a transaction that meets an error changes nothing.
\<close>

record compositeIndexDef =
  cid_Properties :: "string list"
  cid_Key :: string

record UniqueConstraint =
  uc_Label :: string
  uc_Property :: string

record 'b DB =
  db_closed :: bool
  db_role :: string
  db_shards :: "'b shard list"
  db_indexedProps :: "string list"
  db_compositeIndexes :: "(string \<times> compositeIndexDef) list"
  db_uniqueConstraints :: "(string \<times> UniqueConstraint) list"
  db_ncache :: nodeCache
  db_edgeBloom :: "bloomFilter option"
  db_wal :: "WAL option"
  db_faults :: "gerr option list"

section \<open>Guards and routing\<close>

definition isFollower :: "'b DB \<Rightarrow> bool" where
  "isFollower db \<longleftrightarrow> db_role db = ''follower''"

definition writeGuard :: "'b DB \<Rightarrow> gerr option" where
  "writeGuard db = (if isFollower db then Some ErrReadOnlyReplica else None)"

text \<open>The two checks at the head of every public write operation.\<close>

definition guarded :: "'b DB \<Rightarrow> (gerr + 'a) \<times> 'b DB \<Rightarrow> (gerr + 'a) \<times> 'b DB" where
  "guarded db r = (if db_closed db then (Inl ErrClosed, db)
     else case writeGuard db of Some e \<Rightarrow> (Inl e, db) | None \<Rightarrow> r)"

definition SetRole :: "string \<Rightarrow> 'b DB \<Rightarrow> 'b DB" where
  "SetRole role db = db\<lparr>db_role := role\<rparr>"

definition shardFor :: "'b DB \<Rightarrow> NodeID \<Rightarrow> nat" where
  "shardFor db i = (if length (db_shards db) = 1 then 0 else unat i mod length (db_shards db))"

definition shardForEdge :: "'b DB \<Rightarrow> NodeID \<Rightarrow> nat" where
  "shardForEdge db from = shardFor db from"

abbreviation primaryShard :: "'b DB \<Rightarrow> 'b shard" where
  "primaryShard db \<equiv> db_shards db ! 0"

abbreviation bucketsOf :: "'b DB \<Rightarrow> nat \<Rightarrow> 'b buckets" where
  "bucketsOf db i \<equiv> s_data (db_shards db ! i)"

definition updShard :: "nat \<Rightarrow> ('b shard \<Rightarrow> 'b shard) \<Rightarrow> 'b DB \<Rightarrow> 'b DB" where
  "updShard i f db = db\<lparr>db_shards := (db_shards db)[i := f (db_shards db ! i)]\<rparr>"

definition dbAllocNodeID :: "'b DB \<Rightarrow> NodeID \<times> 'b DB" where
  "dbAllocNodeID db = (let r = allocNodeID (primaryShard db) in (fst r, updShard 0 (\<lambda>_. snd r) db))"

definition dbAllocEdgeID :: "'b DB \<Rightarrow> EdgeID \<times> 'b DB" where
  "dbAllocEdgeID db = (let r = allocEdgeID (primaryShard db) in (fst r, updShard 0 (\<lambda>_. snd r) db))"

definition addNodeCount :: "u64 \<Rightarrow> 'b shard \<Rightarrow> 'b shard" where
  "addNodeCount n s = s\<lparr>nodeCount := nodeCount s + n\<rparr>"

definition addEdgeCount :: "u64 \<Rightarrow> 'b shard \<Rightarrow> 'b shard" where
  "addEdgeCount n s = s\<lparr>edgeCount := edgeCount s + n\<rparr>"

section \<open>Write transactions\<close>

text \<open>
  \<open>writeUpdate\<close>: acquire a slot of the write queue, run the function in a bbolt batch, release the
  slot. The function sees the buckets of the shard; an error of the function or of the environment
  leaves them as they were. Batch may run a failing function a second time on the same buckets,
  which gives the same error.
\<close>

definition writeUpdate :: "nat \<Rightarrow> ('b buckets \<Rightarrow> gerr + 'b buckets) \<Rightarrow> 'b DB \<Rightarrow> (gerr + unit) \<times> 'b DB" where
  "writeUpdate i fn db =
     (let fault = (case db_faults db of [] \<Rightarrow> None | f # fs \<Rightarrow> f);
          db1 = db\<lparr>db_faults := tl (db_faults db)\<rparr>
      in case fault of
           Some e \<Rightarrow> (Inl e, db1)
         | None \<Rightarrow> (case fn (bucketsOf db i) of
               Inl e \<Rightarrow> (Inl e, db1)
             | Inr d \<Rightarrow> (Inr (), updShard i (\<lambda>s. s\<lparr>s_data := d\<rparr>) db1)))"

text \<open>
  A batch function that also allocates identifiers: the counters are not part of the transaction,
  and when the function fails, bbolt's Batch runs it once more before reporting the error, so the
  counters move twice.
\<close>

definition writeUpdateAlloc :: "nat \<Rightarrow> ('b shard \<Rightarrow> (gerr + 'a) \<times> 'b shard) \<Rightarrow> 'b DB \<Rightarrow> (gerr + 'a) \<times> 'b DB" where
  "writeUpdateAlloc i fn db =
     (let fault = (case db_faults db of [] \<Rightarrow> None | f # fs \<Rightarrow> f);
          db1 = db\<lparr>db_faults := tl (db_faults db)\<rparr>;
          s = db_shards db ! i
      in case fault of
           Some e \<Rightarrow> (Inl e, db1)
         | None \<Rightarrow> (case fn s of
               (Inr x, s') \<Rightarrow> (Inr x, updShard i (\<lambda>_. s') db1)
             | (Inl e, s') \<Rightarrow> (case fn (s'\<lparr>s_data := s_data s\<rparr>) of
                   (Inr x, s'') \<Rightarrow> (Inr x, updShard i (\<lambda>_. s'') db1)
                 | (Inl e, s'') \<Rightarrow> (Inl e, updShard i (\<lambda>_. s''\<lparr>s_data := s_data s\<rparr>) db1))))"

text \<open>
  \<open>walAppend\<close>: after a commit, append the operation to the log if there is one; failures are only
  logged.
\<close>

definition walAppend :: "wcodec \<Rightarrow> Props wal_op \<Rightarrow> 'b DB \<Rightarrow> 'b DB" where
  "walAppend W op db = (case db_wal db of None \<Rightarrow> db
     | Some w \<Rightarrow> (case encodeWALPayload W op of Inl _ \<Rightarrow> db
         | Inr payload \<Rightarrow> db\<lparr>db_wal := Some (snd (wal_Append W (opType op) payload w))\<rparr>))"

text \<open>\<open>for _, s := range db.shards { ... }\<close> with a write transaction per shard.\<close>

fun forShards :: "nat list \<Rightarrow> (nat \<Rightarrow> 'b DB \<Rightarrow> (gerr + unit) \<times> 'b DB) \<Rightarrow> 'b DB \<Rightarrow> (gerr + unit) \<times> 'b DB" where
  "forShards [] f db = (Inr (), db)"
| "forShards (i # is) f db = (case f i db of (Inl e, db') \<Rightarrow> (Inl e, db') | (Inr _, db') \<Rightarrow> forShards is f db')"

section \<open>Discovering property indexes\<close>

text \<open>\<open>bytes.IndexByte\<close>\<close>

fun indexByte :: "byte \<Rightarrow> bytes \<Rightarrow> nat option" where
  "indexByte c [] = None"
| "indexByte c (b # bs) = (if b = c then Some 0 else map_option Suc (indexByte c bs))"

text \<open>
  The cursor loop with seek-jumping. The keys are those from the cursor position to the end of the
  bucket. The jump target is greater than the current key, so seeking to it skips keys of the rest.
\<close>

function discoverLoop :: "bytes list \<Rightarrow> string list" where
  "discoverLoop [] = []"
| "discoverLoop (k # ks) = (case indexByte (CHR '':'') k of
       None \<Rightarrow> discoverLoop ks
     | Some 0 \<Rightarrow> discoverLoop ks
     | Some (Suc n) \<Rightarrow>
         let prop = take (Suc n) k; nextPrefix = prop @ [CHR '';'']
         in prop # discoverLoop (dropWhile (\<lambda>k. k < nextPrefix) ks))"
  by pat_completeness auto
termination
  by (relation "measure length") (auto simp: less_Suc_eq_le length_dropWhile_le)

text \<open>\<open>sync.Map.Store(prop, true)\<close>\<close>

definition storeKey :: "string \<Rightarrow> string list \<Rightarrow> string list" where
  "storeKey p ps = (if p \<in> set ps then ps else p # ps)"

definition discoverIndexes :: "'b bolt \<Rightarrow> 'b shard list \<Rightarrow> string list" where
  "discoverIndexes B shards =
     fold (\<lambda>s ps. fold storeKey (discoverLoop (map fst (b_cursor B (bk_idx_prop (s_data s))))) ps) shards []"

definition HasIndex :: "'b DB \<Rightarrow> string \<Rightarrow> bool" where
  "HasIndex db p \<longleftrightarrow> p \<in> set (db_indexedProps db)"

lemma indexByte_None: "indexByte c k = None \<longleftrightarrow> c \<notin> set k"
  by (induction k) auto

lemma indexByte_Some: "indexByte c k = Some n \<longleftrightarrow> (\<exists>r. k = take n k @ c # r \<and> n < length k \<and> c \<notin> set (take n k))"
proof (induction k arbitrary: n)
  case (Cons b k)
  then show ?case by (cases n) auto
qed simp

lemma indexByte_append: "c \<notin> set p \<Longrightarrow> indexByte c (p @ c # r) = Some (length p)"
  by (induction p) auto

lemma colon_interval:
  assumes "p @ [CHR '':''] \<le> k" and "k < p @ [CHR '';'']"
  shows "\<exists>r. k = p @ CHR '':'' # r"
  using assms
proof (induction p arbitrary: k)
  case Nil
  then obtain d r where k: "k = d # r" by (cases k) auto
  then have "CHR '':'' \<le> d" and "d < CHR '';''" using Nil by auto
  then have "of_char d = (of_char (CHR '':'') :: nat)"
    by (simp add: less_char_def less_eq_char_def)
  then have "d = CHR '':''" by (simp only: of_char_eq_iff)
  then show ?case using k by simp
next
  case (Cons a p)
  then obtain d r where k: "k = d # r" by (cases k) auto
  then have "a = d" "p @ [CHR '':''] \<le> r" "r < p @ [CHR '';'']" using Cons.prems by auto
  then show ?case using Cons.IH k by auto
qed

definition propOfKey :: "bytes \<Rightarrow> string option" where
  "propOfKey k = (case indexByte (CHR '':'') k of Some (Suc n) \<Rightarrow> Some (take (Suc n) k) | _ \<Rightarrow> None)"

lemma propOfKey_Some: "propOfKey k = Some p \<longleftrightarrow> (\<exists>r. k = p @ CHR '':'' # r \<and> p \<noteq> [] \<and> CHR '':'' \<notin> set p)"
proof
  assume "propOfKey k = Some p"
  then obtain n where "indexByte (CHR '':'') k = Some (Suc n)" "p = take (Suc n) k"
    by (auto simp: propOfKey_def split: option.splits nat.splits)
  then show "\<exists>r. k = p @ CHR '':'' # r \<and> p \<noteq> [] \<and> CHR '':'' \<notin> set p"
    by (auto simp: indexByte_Some)
next
  assume "\<exists>r. k = p @ CHR '':'' # r \<and> p \<noteq> [] \<and> CHR '':'' \<notin> set p"
  then show "propOfKey k = Some p"
    by (auto simp: propOfKey_def indexByte_append neq_Nil_conv split: nat.splits)
qed

lemma discoverLoop_set:
  "sorted_wrt (<) ks \<Longrightarrow> set (discoverLoop ks) = {p. \<exists>k \<in> set ks. propOfKey k = Some p}"
proof (induction ks rule: discoverLoop.induct)
  case (2 k ks)
  show ?case
  proof (cases "propOfKey k")
    case None
    then have "discoverLoop (k # ks) = discoverLoop ks"
      by (auto simp: propOfKey_def split: option.splits nat.splits)
    moreover have "set (discoverLoop ks) = {p. \<exists>k \<in> set ks. propOfKey k = Some p}"
      using 2 None by (auto simp: propOfKey_def split: option.splits nat.splits)
    ultimately show ?thesis using None by auto
  next
    case (Some p)
    then obtain n where n: "indexByte (CHR '':'') k = Some (Suc n)" and p: "p = take (Suc n) k"
      by (auto simp: propOfKey_def split: option.splits nat.splits)
    define rest where "rest = dropWhile (\<lambda>k. k < p @ [CHR '';'']) ks"
    have sorted: "sorted_wrt (<) rest" using "2.prems" by (simp add: rest_def sorted_wrt_dropWhile)
    have eq: "discoverLoop (k # ks) = p # discoverLoop rest" using n p by (simp add: rest_def Let_def)
    have IH: "set (discoverLoop rest) = {q. \<exists>k \<in> set rest. propOfKey k = Some q}"
      using 2(3) [OF n] sorted p by (simp add: rest_def)
    have skip: "propOfKey k' = Some p" if "k' \<in> set ks" "k' \<notin> set rest" for k'
    proof -
      have "k' \<in> set (takeWhile (\<lambda>k. k < p @ [CHR '';'']) ks)"
        using that by (metis Un_iff rest_def set_append takeWhile_dropWhile_id)
      then have lt: "k' < p @ [CHR '';'']" by (metis set_takeWhileD)
      obtain r where k: "k = p @ CHR '':'' # r" "p \<noteq> []" "CHR '':'' \<notin> set p"
        using Some by (auto simp: propOfKey_Some)
      have "p @ [CHR '':''] \<le> k" using k(1) by (intro prefix_le) simp
      also have "k < k'" using "2.prems" that by auto
      finally have "p @ [CHR '':''] \<le> k'" by simp
      from colon_interval [OF this lt] show ?thesis using k by (auto simp: propOfKey_Some)
    qed
    show ?thesis
      unfolding eq using IH skip Some set_dropWhileD [of _ "\<lambda>k. k < p @ [CHR '';'']" ks]
      by (auto simp: rest_def) (metis option.inject)+
  qed
qed simp

section \<open>How the steps change the shard files\<close>

definition files :: "'b DB \<Rightarrow> 'b buckets list" where
  "files db = map s_data (db_shards db)"

lemma length_files [simp]: "length (files db) = length (db_shards db)"
  by (simp add: files_def)

lemma files_nth: "i < length (db_shards db) \<Longrightarrow> files db ! i = bucketsOf db i"
  by (simp add: files_def)

lemma files_updShard_same:
  assumes "\<And>s. s_data (f s) = s_data s"
  shows "files (updShard i f db) = files db"
  by (cases "i < length (db_shards db)") (simp_all add: files_def updShard_def map_update assms list_update_beyond list_update_same_conv)

lemma files_updShard_data [simp]: "files (updShard i (\<lambda>s. s\<lparr>s_data := d\<rparr>) db) = (files db)[i := d]"
  by (simp add: files_def updShard_def map_update)

lemma files_counts [simp]: "files (updShard i (addNodeCount n) db) = files db"
  "files (updShard i (addEdgeCount n) db) = files db"
  by (simp_all add: files_updShard_same addNodeCount_def addEdgeCount_def)

lemma files_alloc [simp]: "files (snd (dbAllocNodeID db)) = files db" "files (snd (dbAllocEdgeID db)) = files db"
  by (cases "db_shards db"; simp add: dbAllocNodeID_def dbAllocEdgeID_def Let_def updShard_def allocNodeID_def allocEdgeID_def files_def)+

lemma files_fields [simp]:
  "files (db\<lparr>db_faults := f\<rparr>) = files db" "files (db\<lparr>db_ncache := c\<rparr>) = files db"
  "files (db\<lparr>db_wal := w\<rparr>) = files db" "files (db\<lparr>db_edgeBloom := b\<rparr>) = files db"
  "files (db\<lparr>db_indexedProps := p\<rparr>) = files db" "files (db\<lparr>db_compositeIndexes := ci\<rparr>) = files db"
  "files (db\<lparr>db_uniqueConstraints := u\<rparr>) = files db"
  by (simp_all add: files_def)

lemma files_walAppend [simp]: "files (walAppend W op db) = files db"
  by (simp add: walAppend_def split: option.splits sum.splits)

lemma db_shards_updShard [simp]: "length (db_shards (updShard i f db)) = length (db_shards db)"
  by (simp add: updShard_def)

lemma length_shards_simps [simp]:
  "length (db_shards (walAppend W op db)) = length (db_shards db)"
  "length (db_shards (snd (dbAllocNodeID db))) = length (db_shards db)"
  "length (db_shards (snd (dbAllocEdgeID db))) = length (db_shards db)"
  by (simp_all add: walAppend_def dbAllocNodeID_def dbAllocEdgeID_def Let_def updShard_def split: option.splits sum.splits)

lemma writeUpdate_Inr:
  assumes "writeUpdate i fn db = (Inr u, db')"
  obtains d where "fn (bucketsOf db i) = Inr d"
    and "db' = updShard i (\<lambda>s. s\<lparr>s_data := d\<rparr>) (db\<lparr>db_faults := tl (db_faults db)\<rparr>)"
  using assms by (auto simp: writeUpdate_def Let_def split: list.splits option.splits sum.splits)

lemma writeUpdate_Inl:
  "writeUpdate i fn db = (Inl e, db') \<Longrightarrow> db' = db\<lparr>db_faults := tl (db_faults db)\<rparr>"
  by (auto simp: writeUpdate_def Let_def split: list.splits option.splits sum.splits)

lemma writeUpdate_ok:
  "db_faults db = [] \<Longrightarrow> fn (bucketsOf db i) = Inr d \<Longrightarrow>
   writeUpdate i fn db = (Inr (), updShard i (\<lambda>s. s\<lparr>s_data := d\<rparr>) (db\<lparr>db_faults := []\<rparr>))"
  by (simp add: writeUpdate_def)

lemma guarded_Inr: "guarded db r = (Inr x, db') \<Longrightarrow> r = (Inr x, db') \<and> \<not> db_closed db \<and> \<not> isFollower db"
  by (auto simp: guarded_def writeGuard_def split: if_splits)

lemma guarded_ok: "\<not> db_closed db \<Longrightarrow> \<not> isFollower db \<Longrightarrow> guarded db r = r"
  by (simp add: guarded_def writeGuard_def)

text \<open>The identifier counters of the primary shard.\<close>

definition edgeCtr :: "'b DB \<Rightarrow> EdgeID" where "edgeCtr db = nextEdgeID (primaryShard db)"
definition nodeCtr :: "'b DB \<Rightarrow> NodeID" where "nodeCtr db = nextNodeID (primaryShard db)"

lemma ctr_updShard:
  assumes "\<And>s. nextEdgeID (f s) = nextEdgeID s" and "\<And>s. nextNodeID (f s) = nextNodeID s"
  shows "edgeCtr (updShard i f db) = edgeCtr db" "nodeCtr (updShard i f db) = nodeCtr db"
  using assms by (cases "db_shards db"; cases i; simp add: edgeCtr_def nodeCtr_def updShard_def)+

lemma ctr_simps [simp]:
  "edgeCtr (updShard i (\<lambda>s. s\<lparr>s_data := d\<rparr>) db) = edgeCtr db" "nodeCtr (updShard i (\<lambda>s. s\<lparr>s_data := d\<rparr>) db) = nodeCtr db"
  "edgeCtr (updShard i (addEdgeCount n) db) = edgeCtr db" "nodeCtr (updShard i (addEdgeCount n) db) = nodeCtr db"
  "edgeCtr (updShard i (addNodeCount n) db) = edgeCtr db" "nodeCtr (updShard i (addNodeCount n) db) = nodeCtr db"
  by (simp_all add: ctr_updShard addEdgeCount_def addNodeCount_def)

lemma ctr_fields [simp]:
  "edgeCtr (db\<lparr>db_faults := f\<rparr>) = edgeCtr db" "nodeCtr (db\<lparr>db_faults := f\<rparr>) = nodeCtr db"
  "edgeCtr (db\<lparr>db_ncache := c\<rparr>) = edgeCtr db" "nodeCtr (db\<lparr>db_ncache := c\<rparr>) = nodeCtr db"
  "edgeCtr (db\<lparr>db_edgeBloom := b\<rparr>) = edgeCtr db" "nodeCtr (db\<lparr>db_edgeBloom := b\<rparr>) = nodeCtr db"
  "edgeCtr (walAppend W op db) = edgeCtr db" "nodeCtr (walAppend W op db) = nodeCtr db"
  by (simp_all add: edgeCtr_def nodeCtr_def walAppend_def split: option.splits sum.splits)

lemma ctr_alloc:
  assumes "db_shards db \<noteq> []"
  shows "fst (dbAllocEdgeID db) = edgeCtr db + 1" "edgeCtr (snd (dbAllocEdgeID db)) = edgeCtr db + 1"
    "nodeCtr (snd (dbAllocEdgeID db)) = nodeCtr db"
    "fst (dbAllocNodeID db) = nodeCtr db + 1" "nodeCtr (snd (dbAllocNodeID db)) = nodeCtr db + 1"
    "edgeCtr (snd (dbAllocNodeID db)) = edgeCtr db"
  using assms by (cases "db_shards db"; simp add: dbAllocEdgeID_def dbAllocNodeID_def allocEdgeID_def allocNodeID_def Let_def edgeCtr_def nodeCtr_def updShard_def)+

lemma ctr_writeUpdate: "edgeCtr (snd (writeUpdate i fn db)) = edgeCtr db" "nodeCtr (snd (writeUpdate i fn db)) = nodeCtr db"
  by (simp_all add: writeUpdate_def Let_def split: list.splits option.splits sum.splits)

section \<open>Properties\<close>

text \<open>
  Startup discovery of property indexes by seek-jumping finds exactly the property names a scan
  of every index key would find: the non-empty text before the first colon of some key.
\<close>

theorem discover_indexes_complete:
  assumes "sorted_wrt (<) ks"
  shows "p \<in> set (discoverLoop ks) \<longleftrightarrow>
    p \<noteq> [] \<and> CHR '':'' \<notin> set p \<and> (\<exists>k \<in> set ks. \<exists>r. k = p @ CHR '':'' # r)"
  using discoverLoop_set [OF assms] by (auto simp: propOfKey_Some)

theorem discover_indexes_complete_witness:
  "''name'' \<in> set (discoverLoop [''age:30'', ''age:31'', ''name:Al''])"
  using discover_indexes_complete [of "[''age:30'', ''age:31'', ''name:Al'']" "''name''"]
  by (simp add: less_char_def)

lemma guard_refuses:
  "db_closed db \<or> isFollower db \<Longrightarrow>
   guarded db r = (Inl (if db_closed db then ErrClosed else ErrReadOnlyReplica), db)"
  by (auto simp: guarded_def writeGuard_def)

end
