(* ===== verification/Index.thy ===== *)
theory Index
  imports DB
begin

text \<open>
  Secondary indexes (index.go, composite_index.go) and the reading of a node's labels (label.go).
  A property index entry is the key \<open>name:value\<close>, a zero byte and the identifier; a composite
  entry lists the sorted property names, the values in the same order, each followed by a zero
  byte, and the identifier. Index maintenance runs inside the transaction of the node operation.
\<close>

section \<open>Labels of a node\<close>

definition loadLabels :: "'b bolt \<Rightarrow> codec \<Rightarrow> 'b buckets \<Rightarrow> NodeID \<Rightarrow> string list" where
  "loadLabels B C d i = (case b_get B (bk_node_labels d) (encodeNodeID i) of
       None \<Rightarrow> []
     | Some data \<Rightarrow> (case c_unmarshal_labels C data of Inl _ \<Rightarrow> [] | Inr ls \<Rightarrow> ls))"

section \<open>Composite index keys\<close>

text \<open>\<open>sort.Strings\<close> and \<open>strings.Join(sorted, "\x00")\<close>\<close>

definition newCompositeIndexDef :: "string list \<Rightarrow> compositeIndexDef" where
  "newCompositeIndexDef props =
     \<lparr>cid_Properties = sort props, cid_Key = join [CHR 0x00] (sort props)\<rparr>"

definition compositeDefPrefix :: "compositeIndexDef \<Rightarrow> bytes" where
  "compositeDefPrefix def = concat (map (\<lambda>p. p @ [CHR 0x00]) (cid_Properties def))"

fun compositeValues :: "codec \<Rightarrow> Props \<Rightarrow> string list \<Rightarrow> bytes option" where
  "compositeValues C props [] = Some []"
| "compositeValues C props (p # ps) = (case map_of props p of None \<Rightarrow> None
     | Some v \<Rightarrow> map_option (\<lambda>r. fmtv C v @ [CHR 0x00] @ r) (compositeValues C props ps))"

definition buildCompositeKey :: "codec \<Rightarrow> compositeIndexDef \<Rightarrow> Props \<Rightarrow> NodeID \<Rightarrow> bytes option" where
  "buildCompositeKey C def props i =
     map_option (\<lambda>vs. compositeDefPrefix def @ vs @ BE_PutUint64 i) (compositeValues C props (cid_Properties def))"

definition buildCompositePrefix :: "codec \<Rightarrow> compositeIndexDef \<Rightarrow> Props \<Rightarrow> bytes option" where
  "buildCompositePrefix C def filters =
     map_option (\<lambda>vs. compositeDefPrefix def @ vs) (compositeValues C filters (cid_Properties def))"

section \<open>Maintenance inside a transaction\<close>

definition indexNodeComposite :: "'b bolt \<Rightarrow> codec \<Rightarrow> (string \<times> compositeIndexDef) list \<Rightarrow> NodeID \<Rightarrow> Props \<Rightarrow> 'b \<Rightarrow> gerr + 'b" where
  "indexNodeComposite B C defs i props b =
     efold (\<lambda>kd b. case buildCompositeKey C (snd kd) props i of None \<Rightarrow> Inr b
                    | Some key \<Rightarrow> b_put B b key []) defs b"

definition unindexNodeComposite :: "'b bolt \<Rightarrow> codec \<Rightarrow> (string \<times> compositeIndexDef) list \<Rightarrow> NodeID \<Rightarrow> Props \<Rightarrow> 'b \<Rightarrow> gerr + 'b" where
  "unindexNodeComposite B C defs i props b =
     efold (\<lambda>kd b. case buildCompositeKey C (snd kd) props i of None \<Rightarrow> Inr b
                    | Some key \<Rightarrow> b_del B b key) defs b"

definition propIdxKey :: "codec \<Rightarrow> string \<Rightarrow> val \<Rightarrow> NodeID \<Rightarrow> bytes" where
  "propIdxKey C p v i = encodeIndexKey (p @ '':'' @ fmtv C v) i"

definition indexProps :: "'b bolt \<Rightarrow> codec \<Rightarrow> string list \<Rightarrow> NodeID \<Rightarrow> Props \<Rightarrow> 'b \<Rightarrow> gerr + 'b" where
  "indexProps B C indexed i props b =
     efold (\<lambda>p b. case map_of props p of None \<Rightarrow> Inr b | Some v \<Rightarrow> b_put B b (propIdxKey C p v i) []) indexed b"

definition unindexProps :: "'b bolt \<Rightarrow> codec \<Rightarrow> string list \<Rightarrow> NodeID \<Rightarrow> Props \<Rightarrow> 'b \<Rightarrow> gerr + 'b" where
  "unindexProps B C indexed i props b =
     efold (\<lambda>p b. case map_of props p of None \<Rightarrow> Inr b | Some v \<Rightarrow> b_del B b (propIdxKey C p v i)) indexed b"

definition indexNodeProps :: "'b bolt \<Rightarrow> codec \<Rightarrow> 'b DB \<Rightarrow> NodeID \<Rightarrow> Props \<Rightarrow> 'b buckets \<Rightarrow> gerr + 'b buckets" where
  "indexNodeProps B C db i props d =
     (if props = [] then Inr d
      else ebind (indexProps B C (db_indexedProps db) i props (bk_idx_prop d)) (\<lambda>x.
           ebind (indexNodeComposite B C (db_compositeIndexes db) i props (bk_idx_composite d)) (\<lambda>y.
             Inr (d\<lparr>bk_idx_prop := x, bk_idx_composite := y\<rparr>))))"

definition unindexNodeProps :: "'b bolt \<Rightarrow> codec \<Rightarrow> 'b DB \<Rightarrow> NodeID \<Rightarrow> Props \<Rightarrow> 'b buckets \<Rightarrow> gerr + 'b buckets" where
  "unindexNodeProps B C db i props d =
     (if props = [] then Inr d
      else ebind (unindexProps B C (db_indexedProps db) i props (bk_idx_prop d)) (\<lambda>x.
           ebind (unindexNodeComposite B C (db_compositeIndexes db) i props (bk_idx_composite d)) (\<lambda>y.
             Inr (d\<lparr>bk_idx_prop := x, bk_idx_composite := y\<rparr>))))"

section \<open>Property indexes\<close>

text \<open>\<open>decodeNodeID\<close> of a key; a key shorter than eight bytes panics.\<close>

definition keyID :: "bytes \<Rightarrow> gerr + u64" where
  "keyID k = (case decodeUint64 k of None \<Rightarrow> Inl ErrPanic | Some i \<Rightarrow> Inr i)"

definition createIndexTx :: "'b bolt \<Rightarrow> codec \<Rightarrow> string \<Rightarrow> 'b buckets \<Rightarrow> gerr + 'b buckets" where
  "createIndexTx B C p d =
     ebind (forEachInBucket B (bk_nodes d) (\<lambda>kv b.
       case decodeProps C (snd kv) of Inl _ \<Rightarrow> Inr b
       | Inr props \<Rightarrow> (case map_of props p of None \<Rightarrow> Inr b
           | Some v \<Rightarrow> ebind (keyID (fst kv)) (\<lambda>i. b_put B b (propIdxKey C p v i) [])))
       (bk_idx_prop d))
     (\<lambda>b. Inr (d\<lparr>bk_idx_prop := b\<rparr>))"

definition CreateIndex :: "'b bolt \<Rightarrow> codec \<Rightarrow> wcodec \<Rightarrow> string \<Rightarrow> 'b DB \<Rightarrow> (gerr + unit) \<times> 'b DB" where
  "CreateIndex B C W p db = guarded db
     (case forShards [0..<length (db_shards db)] (\<lambda>i. writeUpdate i (createIndexTx B C p)) db of
        (Inl e, db1) \<Rightarrow> (Inl (ErrWrap ''graphdb: failed to create index'' e), db1)
      | (Inr _, db1) \<Rightarrow>
          (Inr (), walAppend W (WALCreateIndex p) (db1\<lparr>db_indexedProps := storeKey p (db_indexedProps db1)\<rparr>)))"

definition dropIndexTx :: "'b bolt \<Rightarrow> string \<Rightarrow> 'b buckets \<Rightarrow> gerr + 'b buckets" where
  "dropIndexTx B p d = ebind (deletePrefix B (p @ '':'') (bk_idx_prop d)) (\<lambda>b. Inr (d\<lparr>bk_idx_prop := b\<rparr>))"

definition DropIndex :: "'b bolt \<Rightarrow> wcodec \<Rightarrow> string \<Rightarrow> 'b DB \<Rightarrow> (gerr + unit) \<times> 'b DB" where
  "DropIndex B W p db = guarded db
     (case forShards [0..<length (db_shards db)] (\<lambda>i. writeUpdate i (dropIndexTx B p)) db of
        (Inl e, db1) \<Rightarrow> (Inl (ErrWrap ''graphdb: failed to drop index'' e), db1)
      | (Inr _, db1) \<Rightarrow>
          (Inr (), walAppend W (WALDropIndex p) (db1\<lparr>db_indexedProps := removeAll p (db_indexedProps db1)\<rparr>)))"

definition ListIndexes :: "'b DB \<Rightarrow> string list" where
  "ListIndexes db = db_indexedProps db"

definition ReIndex :: "'b bolt \<Rightarrow> codec \<Rightarrow> wcodec \<Rightarrow> string \<Rightarrow> 'b DB \<Rightarrow> (gerr + unit) \<times> 'b DB" where
  "ReIndex B C W p db = (case DropIndex B W p db of (Inl e, db1) \<Rightarrow> (Inl e, db1)
     | (Inr _, db1) \<Rightarrow> CreateIndex B C W p db1)"

text \<open>Reading a node by the identifier at the end of an index key; missing or corrupt nodes are skipped.\<close>

definition nodeAt :: "'b bolt \<Rightarrow> codec \<Rightarrow> 'b buckets \<Rightarrow> NodeID \<Rightarrow> Props option" where
  "nodeAt B C d i = (case b_get B (bk_nodes d) (encodeNodeID i) of None \<Rightarrow> None
     | Some data \<Rightarrow> (case decodeProps C data of Inl _ \<Rightarrow> None | Inr p \<Rightarrow> Some p))"

definition findByPropertyIdx :: "'b bolt \<Rightarrow> codec \<Rightarrow> string \<Rightarrow> val \<Rightarrow> 'b buckets \<Rightarrow> Node list" where
  "findByPropertyIdx B C p v d =
     (let pfx = encodeIndexPrefix (p @ '':'' @ fmtv C v)
      in concat (map (\<lambda>kv. case decodeNodeID (drop (length pfx) (fst kv)) of None \<Rightarrow> []
            | Some i \<Rightarrow> (case nodeAt B C d i of None \<Rightarrow> []
                | Some props \<Rightarrow> [\<lparr>n_id = i, n_labels = [], n_props = props\<rparr>]))
          (seekPrefix B (bk_idx_prop d) pfx)))"

definition findByPropertyScan :: "'b bolt \<Rightarrow> codec \<Rightarrow> string \<Rightarrow> val \<Rightarrow> 'b buckets \<Rightarrow> gerr + Node list" where
  "findByPropertyScan B C p v d =
     forEachInBucket B (bk_nodes d) (\<lambda>kv acc.
       case decodeProps C (snd kv) of Inl _ \<Rightarrow> Inr acc
       | Inr props \<Rightarrow> (case map_of props p of None \<Rightarrow> Inr acc
           | Some w \<Rightarrow> if fmtv C w = fmtv C v
               then ebind (keyID (fst kv)) (\<lambda>i. Inr (acc @ [\<lparr>n_id = i, n_labels = [], n_props = props\<rparr>]))
               else Inr acc)) []"

definition FindByProperty :: "'b bolt \<Rightarrow> codec \<Rightarrow> string \<Rightarrow> val \<Rightarrow> 'b DB \<Rightarrow> gerr + Node list" where
  "FindByProperty B C p v db = (if db_closed db then Inl ErrClosed
     else let hasIndex = (p \<in> set (db_indexedProps db))
          in ebind (emapM (\<lambda>s. if hasIndex then Inr (findByPropertyIdx B C p v (s_data s))
                               else findByPropertyScan B C p v (s_data s)) (db_shards db))
               (\<lambda>nss. Inr (concat nss)))"

section \<open>Composite indexes\<close>

definition createCompositeTx :: "'b bolt \<Rightarrow> codec \<Rightarrow> compositeIndexDef \<Rightarrow> 'b buckets \<Rightarrow> gerr + 'b buckets" where
  "createCompositeTx B C def d =
     ebind (forEachInBucket B (bk_nodes d) (\<lambda>kv b.
       case decodeProps C (snd kv) of Inl _ \<Rightarrow> Inr b
       | Inr props \<Rightarrow> ebind (keyID (fst kv)) (\<lambda>i.
           case buildCompositeKey C def props i of None \<Rightarrow> Inr b | Some key \<Rightarrow> b_put B b key []))
       (bk_idx_composite d))
     (\<lambda>b. Inr (d\<lparr>bk_idx_composite := b\<rparr>))"

definition CreateCompositeIndex :: "'b bolt \<Rightarrow> codec \<Rightarrow> wcodec \<Rightarrow> string list \<Rightarrow> 'b DB \<Rightarrow> (gerr + unit) \<times> 'b DB" where
  "CreateCompositeIndex B C W propNames db = guarded db
     (if length propNames < 2 then (Inl (ErrMsg ''graphdb: composite index requires at least 2 properties''), db)
      else let def = newCompositeIndexDef propNames
           in case forShards [0..<length (db_shards db)] (\<lambda>i. writeUpdate i (createCompositeTx B C def)) db of
                (Inl e, db1) \<Rightarrow> (Inl (ErrWrap ''graphdb: failed to create composite index'' e), db1)
              | (Inr _, db1) \<Rightarrow> (Inr (), walAppend W (WALCreateCompositeIndex propNames)
                  (db1\<lparr>db_compositeIndexes := AList.update (cid_Key def) def (db_compositeIndexes db1)\<rparr>)))"

definition findByCompositeIndexFast :: "'b bolt \<Rightarrow> codec \<Rightarrow> compositeIndexDef \<Rightarrow> Props \<Rightarrow> 'b DB \<Rightarrow> gerr + Node list" where
  "findByCompositeIndexFast B C def filters db = (case buildCompositePrefix C def filters of
       None \<Rightarrow> Inl (ErrMsg ''graphdb: could not build composite prefix'')
     | Some pfx \<Rightarrow> Inr (concat (map (\<lambda>s.
         concat (map (\<lambda>kv. let k = fst kv in
             (case (if length k < 8 then None else BE_Uint64 (drop (length k - 8) k)) of None \<Rightarrow> []
              | Some i \<Rightarrow> (case nodeAt B C (s_data s) i of None \<Rightarrow> []
                  | Some props \<Rightarrow> [\<lparr>n_id = i, n_labels = loadLabels B C (s_data s) i, n_props = props\<rparr>])))
           (seekPrefix B (bk_idx_composite (s_data s)) pfx))) (db_shards db))))"

definition findByCompositeIndexScan :: "'b bolt \<Rightarrow> codec \<Rightarrow> Props \<Rightarrow> 'b DB \<Rightarrow> gerr + Node list" where
  "findByCompositeIndexScan B C filters db =
     ebind (emapM (\<lambda>s. forEachInBucket B (bk_nodes (s_data s)) (\<lambda>kv acc.
         case decodeProps C (snd kv) of Inl _ \<Rightarrow> Inr acc
         | Inr props \<Rightarrow>
             if list_all (\<lambda>(fk, fv). case map_of props fk of None \<Rightarrow> False | Some pv \<Rightarrow> fmtv C pv = fmtv C fv) filters
             then ebind (keyID (fst kv)) (\<lambda>i. Inr (acc @ [\<lparr>n_id = i, n_labels = loadLabels B C (s_data s) i, n_props = props\<rparr>]))
             else Inr acc) []) (db_shards db))
       (\<lambda>nss. Inr (concat nss))"

definition FindByCompositeIndex :: "'b bolt \<Rightarrow> codec \<Rightarrow> Props \<Rightarrow> 'b DB \<Rightarrow> gerr + Node list" where
  "FindByCompositeIndex B C filters db = (if db_closed db then Inl ErrClosed
     else if length filters < 2 then Inl (ErrMsg ''graphdb: composite lookup requires at least 2 properties'')
     else let def = newCompositeIndexDef (map fst filters)
          in if map_of (db_compositeIndexes db) (cid_Key def) \<noteq> None
             then findByCompositeIndexFast B C def filters db
             else findByCompositeIndexScan B C filters db)"

definition dropCompositeTx :: "'b bolt \<Rightarrow> compositeIndexDef \<Rightarrow> 'b buckets \<Rightarrow> gerr + 'b buckets" where
  "dropCompositeTx B def d =
     ebind (deletePrefix B (compositeDefPrefix def) (bk_idx_composite d)) (\<lambda>b. Inr (d\<lparr>bk_idx_composite := b\<rparr>))"

definition DropCompositeIndex :: "'b bolt \<Rightarrow> wcodec \<Rightarrow> string list \<Rightarrow> 'b DB \<Rightarrow> (gerr + unit) \<times> 'b DB" where
  "DropCompositeIndex B W propNames db = guarded db
     (let def = newCompositeIndexDef propNames
      in case forShards [0..<length (db_shards db)] (\<lambda>i. writeUpdate i (dropCompositeTx B def)) db of
           (Inl e, db1) \<Rightarrow> (Inl (ErrWrap ''graphdb: failed to drop composite index'' e), db1)
         | (Inr _, db1) \<Rightarrow> (Inr (), walAppend W (WALDropCompositeIndex propNames)
             (db1\<lparr>db_compositeIndexes := AList.delete (cid_Key def) (db_compositeIndexes db1)\<rparr>)))"

definition ListCompositeIndexes :: "'b DB \<Rightarrow> string list list" where
  "ListCompositeIndexes db = map (\<lambda>kd. cid_Properties (snd kd)) (db_compositeIndexes db)"

definition HasCompositeIndex :: "'b DB \<Rightarrow> string list \<Rightarrow> bool" where
  "HasCompositeIndex db propNames \<longleftrightarrow>
     map_of (db_compositeIndexes db) (cid_Key (newCompositeIndexDef propNames)) \<noteq> None"

section \<open>Discovering composite indexes at startup\<close>

definition inRange :: "byte \<Rightarrow> byte \<Rightarrow> byte \<Rightarrow> bool" where
  "inRange lo hi c \<longleftrightarrow> lo \<le> c \<and> c \<le> hi"

definition isIdentStart :: "byte \<Rightarrow> bool" where
  "isIdentStart c \<longleftrightarrow> inRange (CHR ''a'') (CHR ''z'') c \<or> inRange (CHR ''A'') (CHR ''Z'') c \<or> c = CHR ''_''"

fun looksLikePropName :: "string \<Rightarrow> bool" where
  "looksLikePropName [] = False"
| "looksLikePropName (c # cs) = (isIdentStart c \<and> list_all (\<lambda>c. isIdentStart c \<or> inRange (CHR ''0'') (CHR ''9'') c) cs)"

function extractSegments :: "bytes \<Rightarrow> string list" where
  "extractSegments remaining = (case indexByte (CHR 0x00) remaining of
       None \<Rightarrow> []
     | Some 0 \<Rightarrow> []
     | Some (Suc n) \<Rightarrow>
         let segment = take (Suc n) remaining
         in if looksLikePropName segment then segment # extractSegments (drop (Suc (Suc n)) remaining) else [])"
  by pat_completeness auto
termination
  by (relation "measure length") (auto simp: indexByte_Some)

declare extractSegments.simps [simp del]

definition extractCompositeDefKey :: "bytes \<Rightarrow> string" where
  "extractCompositeDefKey k =
     (let props = extractSegments k in if length props < 2 then [] else join [CHR 0x00] props)"

text \<open>\<open>strings.Split(s, "\x00")\<close>\<close>

fun splitNul :: "string \<Rightarrow> string list" where
  "splitNul [] = [[]]"
| "splitNul (c # cs) = (if c = CHR 0x00 then [] # splitNul cs
     else (case splitNul cs of [] \<Rightarrow> [[c]] | w # ws \<Rightarrow> (c # w) # ws))"

text \<open>Increment the last byte, carrying into the one before it on overflow.\<close>

fun incRev :: "bytes \<Rightarrow> bytes" where
  "incRev [] = []"
| "incRev (b # bs) = (let b' = char_of ((of_char b :: nat) + 1) in if b' \<noteq> CHR 0x00 then b' # bs else b' # incRev bs)"

definition incPrefix :: "bytes \<Rightarrow> bytes" where
  "incPrefix bs = rev (incRev (rev bs))"

definition jumpTarget :: "string \<Rightarrow> bytes" where
  "jumpTarget defKey = incPrefix (compositeDefPrefix (newCompositeIndexDef (splitNul defKey)))"

text \<open>\<open>c.Seek\<close> on the whole bucket: the first key not below the target.\<close>

definition seekKey :: "bytes list \<Rightarrow> bytes \<Rightarrow> bytes option" where
  "seekKey ks t = (case dropWhile (\<lambda>k. k < t) ks of [] \<Rightarrow> None | k # _ \<Rightarrow> Some k)"

definition registerDef :: "string \<Rightarrow> string list \<times> (string \<times> compositeIndexDef) list \<Rightarrow> string list \<times> (string \<times> compositeIndexDef) list" where
  "registerDef defKey st =
     (if defKey = [] \<or> defKey \<in> set (fst st) then st
      else let clean = filter (\<lambda>p. p \<noteq> []) (splitNul defKey)
           in (defKey # fst st,
               if 2 \<le> length clean
               then (let def = newCompositeIndexDef clean in AList.update (cid_Key def) def (snd st))
               else snd st))"

text \<open>The loop may seek back to the key it came from; a run that never ends is \<open>None\<close>.\<close>

partial_function (option) discoverCompositeLoop ::
    "bytes list \<Rightarrow> bytes option \<Rightarrow> string list \<times> (string \<times> compositeIndexDef) list
     \<Rightarrow> (string list \<times> (string \<times> compositeIndexDef) list) option" where
  "discoverCompositeLoop ks cur st = (case cur of None \<Rightarrow> Some st
     | Some k \<Rightarrow>
         let defKey = extractCompositeDefKey k; st' = registerDef defKey st
         in discoverCompositeLoop ks (seekKey ks (jumpTarget defKey)) st')"

definition discoverCompositeShard :: "'b bolt \<Rightarrow> 'b shard \<Rightarrow> string list \<times> (string \<times> compositeIndexDef) list
     \<Rightarrow> (string list \<times> (string \<times> compositeIndexDef) list) option" where
  "discoverCompositeShard B s st =
     (let ks = map fst (b_cursor B (bk_idx_composite (s_data s)))
      in discoverCompositeLoop ks (case ks of [] \<Rightarrow> None | k # _ \<Rightarrow> Some k) st)"

fun discoverCompositeShards :: "'b bolt \<Rightarrow> 'b shard list \<Rightarrow> string list \<times> (string \<times> compositeIndexDef) list
     \<Rightarrow> (string list \<times> (string \<times> compositeIndexDef) list) option" where
  "discoverCompositeShards B [] st = Some st"
| "discoverCompositeShards B (s # ss) st =
     (case discoverCompositeShard B s st of None \<Rightarrow> None | Some st' \<Rightarrow> discoverCompositeShards B ss st')"

definition discoverCompositeIndexes :: "'b bolt \<Rightarrow> 'b shard list \<Rightarrow> (string \<times> compositeIndexDef) list option" where
  "discoverCompositeIndexes B shards = map_option snd (discoverCompositeShards B shards ([], []))"

text \<open>A key whose jump target does not lie above it is visited for ever.\<close>

lemma discoverCompositeLoop_stuck:
  assumes "seekKey ks (jumpTarget (extractCompositeDefKey k)) = Some k"
  shows "discoverCompositeLoop ks (Some k) st = None"
proof -
  have "ks' = ks \<longrightarrow> cur \<noteq> Some k" if "discoverCompositeLoop ks' cur st = Some r" for ks' cur st r
  proof (rule discoverCompositeLoop.raw_induct [where P = "\<lambda>ks' cur st r. ks' = ks \<longrightarrow> cur \<noteq> Some k", OF _ that])
    fix f ks' cur st r
    assume IH: "\<And>ks' cur st r. f ks' cur st = Some r \<Longrightarrow> ks' = ks \<longrightarrow> cur \<noteq> Some k"
      and body: "(case cur of None \<Rightarrow> Some st
        | Some k \<Rightarrow> let defKey = extractCompositeDefKey k; st' = registerDef defKey st
             in f ks' (seekKey ks' (jumpTarget defKey)) st') = Some r"
    show "ks' = ks \<longrightarrow> cur \<noteq> Some k"
    proof (intro impI notI)
      assume "ks' = ks" "cur = Some k"
      then have "f ks (Some k) (registerDef (extractCompositeDefKey k) st) = Some r"
        using body assms by (simp add: Let_def)
      from IH [OF this] show False by simp
    qed
  qed
  then show ?thesis by (metis option.exhaust)
qed

end
