(* ===== verification/Constraint.thy ===== *)
theory Constraint
  imports Index
begin

text \<open>
  Unique constraints (constraint.go): the registry, the per-shard index from
  \<open>label, property, value\<close> to the owning node, the checks run inside node transactions, creation
  over existing data in three phases, and discovery at startup.
\<close>

definition constraintKey :: "UniqueConstraint \<Rightarrow> string" where
  "constraintKey uc = uc_Label uc @ [CHR 0x00] @ uc_Property uc"

definition encodeUniqueKey :: "string \<Rightarrow> string \<Rightarrow> string \<Rightarrow> bytes" where
  "encodeUniqueKey label property valueStr = label @ [CHR 0x00] @ property @ [CHR 0x00] @ valueStr"

definition encodeUniquePrefix :: "string \<Rightarrow> string \<Rightarrow> bytes" where
  "encodeUniquePrefix label property = label @ [CHR 0x00] @ property @ [CHR 0x00]"

definition encodeConstraintMetaKey :: "string \<Rightarrow> string \<Rightarrow> bytes" where
  "encodeConstraintMetaKey label property = label @ [CHR 0x00] @ property"

definition decodeConstraintMetaKey :: "bytes \<Rightarrow> string \<times> string" where
  "decodeConstraintMetaKey key = (case indexByte (CHR 0x00) key of None \<Rightarrow> ([], [])
     | Some idx \<Rightarrow> (take idx key, drop (idx + 1) key))"

section \<open>Checks inside a transaction\<close>

text \<open>The constraints that apply: for each label, the registered constraints on it whose property the node has.\<close>

definition applicable :: "codec \<Rightarrow> (string \<times> UniqueConstraint) list \<Rightarrow> string list \<Rightarrow> Props \<Rightarrow> (string \<times> string \<times> string) list" where
  "applicable C ucs labels props =
     concat (map (\<lambda>label. concat (map (\<lambda>(k, uc).
       if uc_Label uc \<noteq> label then []
       else (case map_of props (uc_Property uc) of None \<Rightarrow> []
             | Some v \<Rightarrow> [(label, uc_Property uc, fmtv C v)])) ucs)) labels)"

definition checkUniqueConstraintsInTx ::
    "'b bolt \<Rightarrow> codec \<Rightarrow> 'b DB \<Rightarrow> string list \<Rightarrow> Props \<Rightarrow> NodeID \<Rightarrow> 'b buckets \<Rightarrow> gerr + unit" where
  "checkUniqueConstraintsInTx B C db labels props excludeID d =
     (if labels = [] \<or> props = [] then Inr ()
      else efold (\<lambda>(l, p, v) _. case b_get B (bk_idx_unique d) (encodeUniqueKey l p v) of
             None \<Rightarrow> Inr ()
           | Some existing \<Rightarrow> ebind (keyID existing) (\<lambda>existingID.
               if existingID \<noteq> excludeID then Inl (ErrUniqueConstraintViolation l p v existingID) else Inr ()))
         (applicable C (db_uniqueConstraints db) labels props) ())"

text \<open>The errors of the puts and deletes below are ignored by the source.\<close>

definition indexUniqueConstraints ::
    "'b bolt \<Rightarrow> codec \<Rightarrow> 'b DB \<Rightarrow> NodeID \<Rightarrow> string list \<Rightarrow> Props \<Rightarrow> 'b buckets \<Rightarrow> 'b buckets" where
  "indexUniqueConstraints B C db i labels props d =
     (if labels = [] \<or> props = [] then d
      else d\<lparr>bk_idx_unique := fold (\<lambda>(l, p, v) b. case b_put B b (encodeUniqueKey l p v) (encodeNodeID i) of
             Inl _ \<Rightarrow> b | Inr b' \<Rightarrow> b') (applicable C (db_uniqueConstraints db) labels props) (bk_idx_unique d)\<rparr>)"

definition unindexUniqueConstraints ::
    "'b bolt \<Rightarrow> codec \<Rightarrow> 'b DB \<Rightarrow> NodeID \<Rightarrow> string list \<Rightarrow> Props \<Rightarrow> 'b buckets \<Rightarrow> 'b buckets" where
  "unindexUniqueConstraints B C db i labels props d =
     (if labels = [] \<or> props = [] then d
      else d\<lparr>bk_idx_unique := fold (\<lambda>(l, p, v) b. case b_get B b (encodeUniqueKey l p v) of None \<Rightarrow> b
             | Some existing \<Rightarrow> if decodeNodeID existing = Some i
                 then (case b_del B b (encodeUniqueKey l p v) of Inl _ \<Rightarrow> b | Inr b' \<Rightarrow> b') else b)
           (applicable C (db_uniqueConstraints db) labels props) (bk_idx_unique d)\<rparr>)"

section \<open>Creating and dropping a constraint\<close>

text \<open>Phase 1 in one shard: the values of the labelled nodes, refusing a value seen before.\<close>

definition scanConstraint :: "'b bolt \<Rightarrow> codec \<Rightarrow> string \<Rightarrow> string \<Rightarrow> 'b buckets \<Rightarrow> (string \<times> NodeID) list \<Rightarrow> gerr + (string \<times> NodeID) list" where
  "scanConstraint B C label property d seen =
     (let pfx = encodeLabelIndexPrefix label
      in efold (\<lambda>kv seen.
           case decodeNodeID (drop (length pfx) (fst kv)) of None \<Rightarrow> Inr seen
           | Some i \<Rightarrow> (case nodeAt B C d i of None \<Rightarrow> Inr seen
               | Some props \<Rightarrow> (case map_of props property of None \<Rightarrow> Inr seen
                   | Some v \<Rightarrow> (case map_of seen (fmtv C v) of
                         Some existing \<Rightarrow> Inl (ErrUniqueConstraintViolation label property (fmtv C v) existing)
                       | None \<Rightarrow> Inr ((fmtv C v, i) # seen)))))
         (seekPrefix B (bk_idx_node_label d) pfx) seen)"

definition putUniqueTx :: "'b bolt \<Rightarrow> string \<Rightarrow> string \<Rightarrow> string \<Rightarrow> NodeID \<Rightarrow> 'b buckets \<Rightarrow> gerr + 'b buckets" where
  "putUniqueTx B label property v i d =
     ebind (b_put B (bk_idx_unique d) (encodeUniqueKey label property v) (encodeNodeID i))
       (\<lambda>b. Inr (d\<lparr>bk_idx_unique := b\<rparr>))"

definition putUniqueMetaTx :: "'b bolt \<Rightarrow> string \<Rightarrow> string \<Rightarrow> 'b buckets \<Rightarrow> gerr + 'b buckets" where
  "putUniqueMetaTx B label property d =
     ebind (b_put B (bk_unique_meta d) (encodeConstraintMetaKey label property) []) (\<lambda>b. Inr (d\<lparr>bk_unique_meta := b\<rparr>))"

fun writeSeen :: "'b bolt \<Rightarrow> string \<Rightarrow> string \<Rightarrow> (string \<times> NodeID) list \<Rightarrow> 'b DB \<Rightarrow> (gerr + unit) \<times> 'b DB" where
  "writeSeen B label property [] db = (Inr (), db)"
| "writeSeen B label property ((v, i) # r) db =
     (case writeUpdate (shardFor db i) (putUniqueTx B label property v i) db of
        (Inl e, db1) \<Rightarrow> (Inl (ErrWrap ''graphdb: failed to build unique index'' e), db1)
      | (Inr _, db1) \<Rightarrow> writeSeen B label property r db1)"

definition CreateUniqueConstraint :: "'b bolt \<Rightarrow> codec \<Rightarrow> wcodec \<Rightarrow> string \<Rightarrow> string \<Rightarrow> 'b DB \<Rightarrow> (gerr + unit) \<times> 'b DB" where
  "CreateUniqueConstraint B C W label property db = guarded db
     (let uc = \<lparr>uc_Label = label, uc_Property = property\<rparr>
      in if map_of (db_uniqueConstraints db) (constraintKey uc) \<noteq> None then (Inr (), db)
         else case efold (\<lambda>s seen. scanConstraint B C label property (s_data s) seen) (db_shards db) [] of
           Inl e \<Rightarrow> (Inl e, db)
         | Inr seen \<Rightarrow> (case writeSeen B label property seen db of
             (Inl e, db1) \<Rightarrow> (Inl e, db1)
           | (Inr _, db1) \<Rightarrow> (case writeUpdate 0 (putUniqueMetaTx B label property) db1 of
               (Inl e, db2) \<Rightarrow> (Inl (ErrWrap ''graphdb: failed to persist constraint metadata'' e), db2)
             | (Inr _, db2) \<Rightarrow> (Inr (), walAppend W (WALCreateUniqueConstraint label property)
                 (db2\<lparr>db_uniqueConstraints := AList.update (constraintKey uc) uc (db_uniqueConstraints db2)\<rparr>)))))"

definition dropUniqueTx :: "'b bolt \<Rightarrow> string \<Rightarrow> string \<Rightarrow> 'b buckets \<Rightarrow> gerr + 'b buckets" where
  "dropUniqueTx B label property d =
     ebind (deletePrefix B (encodeUniquePrefix label property) (bk_idx_unique d)) (\<lambda>b. Inr (d\<lparr>bk_idx_unique := b\<rparr>))"

definition dropUniqueMetaTx :: "'b bolt \<Rightarrow> string \<Rightarrow> string \<Rightarrow> 'b buckets \<Rightarrow> gerr + 'b buckets" where
  "dropUniqueMetaTx B label property d =
     ebind (b_del B (bk_unique_meta d) (encodeConstraintMetaKey label property)) (\<lambda>b. Inr (d\<lparr>bk_unique_meta := b\<rparr>))"

definition DropUniqueConstraint :: "'b bolt \<Rightarrow> wcodec \<Rightarrow> string \<Rightarrow> string \<Rightarrow> 'b DB \<Rightarrow> (gerr + unit) \<times> 'b DB" where
  "DropUniqueConstraint B W label property db = guarded db
     (let uc = \<lparr>uc_Label = label, uc_Property = property\<rparr>
      in if map_of (db_uniqueConstraints db) (constraintKey uc) = None then (Inr (), db)
         else case forShards [0..<length (db_shards db)] (\<lambda>i. writeUpdate i (dropUniqueTx B label property)) db of
           (Inl e, db1) \<Rightarrow> (Inl e, db1)
         | (Inr _, db1) \<Rightarrow> (case writeUpdate 0 (dropUniqueMetaTx B label property) db1 of
             (Inl e, db2) \<Rightarrow> (Inl e, db2)
           | (Inr _, db2) \<Rightarrow> (Inr (), walAppend W (WALDropUniqueConstraint label property)
               (db2\<lparr>db_uniqueConstraints := AList.delete (constraintKey uc) (db_uniqueConstraints db2)\<rparr>))))"

definition HasUniqueConstraint :: "'b DB \<Rightarrow> string \<Rightarrow> string \<Rightarrow> bool" where
  "HasUniqueConstraint db label property \<longleftrightarrow>
     map_of (db_uniqueConstraints db) (constraintKey \<lparr>uc_Label = label, uc_Property = property\<rparr>) \<noteq> None"

definition ListUniqueConstraints :: "'b DB \<Rightarrow> UniqueConstraint list" where
  "ListUniqueConstraints db = map snd (db_uniqueConstraints db)"

section \<open>Lookup and discovery\<close>

fun lookupUniqueIn :: "'b bolt \<Rightarrow> bytes \<Rightarrow> 'b shard list \<Rightarrow> gerr + NodeID option" where
  "lookupUniqueIn B key [] = Inr None"
| "lookupUniqueIn B key (s # ss) = (case b_get B (bk_idx_unique (s_data s)) key of
       Some v \<Rightarrow> ebind (keyID v) (\<lambda>i. Inr (Some i))
     | None \<Rightarrow> lookupUniqueIn B key ss)"

definition lookupUniqueIndex :: "'b bolt \<Rightarrow> 'b DB \<Rightarrow> string \<Rightarrow> string \<Rightarrow> string \<Rightarrow> gerr + NodeID option" where
  "lookupUniqueIndex B db label property valueStr =
     lookupUniqueIn B (encodeUniqueKey label property valueStr) (db_shards db)"

text \<open>The check across shards, which no operation of the package calls.\<close>

definition checkUniqueConstraints ::
    "'b bolt \<Rightarrow> codec \<Rightarrow> 'b DB \<Rightarrow> string list \<Rightarrow> Props \<Rightarrow> NodeID \<Rightarrow> gerr + unit" where
  "checkUniqueConstraints B C db labels props excludeID =
     (if labels = [] \<or> props = [] then Inr ()
      else efold (\<lambda>(l, p, v) _. ebind (lookupUniqueIndex B db l p v) (\<lambda>r. case r of
             None \<Rightarrow> Inr ()
           | Some existingID \<Rightarrow> if existingID \<noteq> excludeID then Inl (ErrUniqueConstraintViolation l p v existingID) else Inr ()))
         (applicable C (db_uniqueConstraints db) labels props) ())"

definition discoverUniqueConstraints :: "'b bolt \<Rightarrow> 'b shard list \<Rightarrow> (string \<times> UniqueConstraint) list" where
  "discoverUniqueConstraints B shards =
     fold (\<lambda>kv ucs. let (label, property) = decodeConstraintMetaKey (fst kv)
             in if label \<noteq> [] \<and> property \<noteq> []
                then (let uc = \<lparr>uc_Label = label, uc_Property = property\<rparr> in AList.update (constraintKey uc) uc ucs)
                else ucs)
       (b_cursor B (bk_unique_meta (s_data (shards ! 0)))) []"

section \<open>Facts about keys\<close>

lemma decodeConstraintMetaKey_encode:
  "CHR 0x00 \<notin> set label \<Longrightarrow> decodeConstraintMetaKey (encodeConstraintMetaKey label property) = (label, property)"
  by (simp add: decodeConstraintMetaKey_def encodeConstraintMetaKey_def indexByte_append)

lemma encodeUniqueKey_inject:
  assumes "CHR 0x00 \<notin> set l" "CHR 0x00 \<notin> set l'" "CHR 0x00 \<notin> set p" "CHR 0x00 \<notin> set p'"
  shows "encodeUniqueKey l p v = encodeUniqueKey l' p' v' \<longleftrightarrow> l = l' \<and> p = p' \<and> v = v'"
proof -
  have split: "a @ CHR 0x00 # r = b @ CHR 0x00 # s \<longleftrightarrow> a = b \<and> r = s"
    if "CHR 0x00 \<notin> set a" "CHR 0x00 \<notin> set b" for a b r s
    using that
  proof (induction a arbitrary: b)
    case Nil
    then show ?case by (cases b) auto
  next
    case (Cons x a)
    then show ?case by (cases b) auto
  qed
  show ?thesis using assms by (auto simp: encodeUniqueKey_def split)
qed

lemma set_applicable: "(l, p, t) \<in> set (applicable C ucs labels props) \<longleftrightarrow>
    l \<in> set labels \<and> (\<exists>k uc v. (k, uc) \<in> set ucs \<and> uc_Label uc = l \<and> uc_Property uc = p \<and> map_of props p = Some v \<and> t = fmtv C v)"
proof
  assume "(l, p, t) \<in> set (applicable C ucs labels props)"
  then show "l \<in> set labels \<and> (\<exists>k uc v. (k, uc) \<in> set ucs \<and> uc_Label uc = l \<and> uc_Property uc = p \<and> map_of props p = Some v \<and> t = fmtv C v)"
    by (auto simp: applicable_def split: if_splits option.splits) metis
next
  assume "l \<in> set labels \<and> (\<exists>k uc v. (k, uc) \<in> set ucs \<and> uc_Label uc = l \<and> uc_Property uc = p \<and> map_of props p = Some v \<and> t = fmtv C v)"
  then obtain k uc v where a: "l \<in> set labels" "(k, uc) \<in> set ucs" "uc_Label uc = l" "uc_Property uc = p" "map_of props p = Some v" "t = fmtv C v"
    by blast
  then show "(l, p, t) \<in> set (applicable C ucs labels props)"
    unfolding applicable_def by (auto intro!: bexI [of _ l] bexI [of _ "(k, uc)"])
qed

end
