(* ===== verification/EdgeOps.thy ===== *)
theory EdgeOps
  imports DB
begin

text \<open>
  The edge operations (edge.go). An edge record, its \<open>adj_out\<close> entry and its type-index entry are
  in the shard of the source node, its \<open>adj_in\<close> entry in the shard of the target node; when the
  two differ, adding and deleting take one transaction per shard.
\<close>

section \<open>Transactions\<close>

definition addEdgeSameTx :: "'b bolt \<Rightarrow> codec \<Rightarrow> Edge \<Rightarrow> 'b buckets \<Rightarrow> gerr + 'b buckets" where
  "addEdgeSameTx B C e d =
     ebind (encodeEdge C e) (\<lambda>edgeData.
     ebind (b_put B (bk_edges d) (encodeEdgeID (e_id e)) edgeData) (\<lambda>be.
     ebind (b_put B (bk_adj_out d) (encodeAdjKey (e_from e) (e_id e)) (encodeAdjValue (e_to e) (e_label e))) (\<lambda>bo.
     ebind (b_put B (bk_adj_in d) (encodeAdjKey (e_to e) (e_id e)) (encodeAdjValue (e_from e) (e_label e))) (\<lambda>bi.
     ebind (b_put B (bk_idx_edge_type d) (encodeIndexKey (e_label e) (e_id e)) []) (\<lambda>bx.
       Inr (d\<lparr>bk_edges := be, bk_adj_out := bo, bk_adj_in := bi, bk_idx_edge_type := bx\<rparr>))))))"

definition addEdgeSrcTx :: "'b bolt \<Rightarrow> codec \<Rightarrow> Edge \<Rightarrow> 'b buckets \<Rightarrow> gerr + 'b buckets" where
  "addEdgeSrcTx B C e d =
     ebind (encodeEdge C e) (\<lambda>edgeData.
     ebind (b_put B (bk_edges d) (encodeEdgeID (e_id e)) edgeData) (\<lambda>be.
     ebind (b_put B (bk_adj_out d) (encodeAdjKey (e_from e) (e_id e)) (encodeAdjValue (e_to e) (e_label e))) (\<lambda>bo.
     ebind (b_put B (bk_idx_edge_type d) (encodeIndexKey (e_label e) (e_id e)) []) (\<lambda>bx.
       Inr (d\<lparr>bk_edges := be, bk_adj_out := bo, bk_idx_edge_type := bx\<rparr>)))))"

definition addEdgeDstTx :: "'b bolt \<Rightarrow> Edge \<Rightarrow> 'b buckets \<Rightarrow> gerr + 'b buckets" where
  "addEdgeDstTx B e d =
     ebind (b_put B (bk_adj_in d) (encodeAdjKey (e_to e) (e_id e)) (encodeAdjValue (e_from e) (e_label e)))
       (\<lambda>bi. Inr (d\<lparr>bk_adj_in := bi\<rparr>))"

definition delEdgeSrcTx :: "'b bolt \<Rightarrow> Edge \<Rightarrow> 'b buckets \<Rightarrow> gerr + 'b buckets" where
  "delEdgeSrcTx B e d =
     ebind (b_del B (bk_edges d) (encodeEdgeID (e_id e))) (\<lambda>be.
     ebind (b_del B (bk_adj_out d) (encodeAdjKey (e_from e) (e_id e))) (\<lambda>bo.
     ebind (b_del B (bk_idx_edge_type d) (encodeIndexKey (e_label e) (e_id e))) (\<lambda>bx.
       Inr (d\<lparr>bk_edges := be, bk_adj_out := bo, bk_idx_edge_type := bx\<rparr>))))"

definition delEdgeDstTx :: "'b bolt \<Rightarrow> Edge \<Rightarrow> 'b buckets \<Rightarrow> gerr + 'b buckets" where
  "delEdgeDstTx B e d =
     ebind (b_del B (bk_adj_in d) (encodeAdjKey (e_to e) (e_id e))) (\<lambda>bi. Inr (d\<lparr>bk_adj_in := bi\<rparr>))"

definition updateEdgeTx :: "'b bolt \<Rightarrow> codec \<Rightarrow> EdgeID \<Rightarrow> Edge \<Rightarrow> 'b buckets \<Rightarrow> gerr + 'b buckets" where
  "updateEdgeTx B C i e d =
     ebind (encodeEdge C e) (\<lambda>data. ebind (b_put B (bk_edges d) (encodeEdgeID i) data) (\<lambda>be. Inr (d\<lparr>bk_edges := be\<rparr>)))"

section \<open>Adding edges\<close>

text \<open>A read on a closed database fails in bbolt.\<close>

definition viewing :: "'b DB \<Rightarrow> gerr + 'a \<Rightarrow> gerr + 'a" where
  "viewing db r = (if db_closed db then Inl (ErrBolt ''database not open'') else r)"

definition verifyNodeExists :: "'b bolt \<Rightarrow> 'b DB \<Rightarrow> NodeID \<Rightarrow> gerr + unit" where
  "verifyNodeExists B db i = viewing db
     (if b_get B (bk_nodes (bucketsOf db (shardFor db i))) (encodeNodeID i) = None
      then Inl (ErrNodeNotFound i) else Inr ())"

definition bloomAddDB :: "NodeID \<Rightarrow> NodeID \<Rightarrow> 'b DB \<Rightarrow> 'b DB" where
  "bloomAddDB from to db = db\<lparr>db_edgeBloom := map_option (bloomAdd from to) (db_edgeBloom db)\<rparr>"

definition AddEdge :: "'b bolt \<Rightarrow> codec \<Rightarrow> wcodec \<Rightarrow> NodeID \<Rightarrow> NodeID \<Rightarrow> string \<Rightarrow> Props \<Rightarrow> 'b DB \<Rightarrow> (gerr + EdgeID) \<times> 'b DB" where
  "AddEdge B C W from to label props db = guarded db
     (case verifyNodeExists B db from of Inl e \<Rightarrow> (Inl (ErrWrap ''graphdb: source node'' e), db)
      | Inr _ \<Rightarrow>
     (case verifyNodeExists B db to of Inl e \<Rightarrow> (Inl (ErrWrap ''graphdb: target node'' e), db)
      | Inr _ \<Rightarrow>
       let (i, db0) = dbAllocEdgeID db;
           edge = \<lparr>e_id = i, e_from = from, e_to = to, e_label = label, e_props = props\<rparr>;
           src = shardForEdge db0 from; dst = shardFor db0 to
       in if src = dst then
            (case writeUpdate src (addEdgeSameTx B C edge) db0 of
               (Inl e, db1) \<Rightarrow> (Inl (ErrWrap ''graphdb: failed to add edge'' e), db1)
             | (Inr _, db1) \<Rightarrow>
                 (Inr i, bloomAddDB from to (walAppend W (WALAddEdge i from to label props)
                   (updShard src (addEdgeCount 1) db1))))
          else
            (case writeUpdate src (addEdgeSrcTx B C edge) db0 of
               (Inl e, db1) \<Rightarrow> (Inl (ErrWrap ''graphdb: failed to add edge (source shard)'' e), db1)
             | (Inr _, db1) \<Rightarrow>
                 let db2 = updShard src (addEdgeCount 1) db1
                 in (case writeUpdate dst (addEdgeDstTx B edge) db2 of
                       (Inl e, db3) \<Rightarrow> (Inl (ErrWrap ''graphdb: failed to add edge (target shard adj_in)'' e), db3)
                     | (Inr _, db3) \<Rightarrow>
                         (Inr i, bloomAddDB from to (walAppend W (WALAddEdge i from to label props) db3))))))"

section \<open>Batches\<close>

text \<open>Allocate an identifier for every edge, in order.\<close>

fun allocEdgeIDs :: "Edge list \<Rightarrow> 'b shard \<Rightarrow> Edge list \<times> 'b shard" where
  "allocEdgeIDs [] s = ([], s)"
| "allocEdgeIDs (e # es) s = (let (i, s1) = allocEdgeID s; (es', s2) = allocEdgeIDs es s1
     in (e\<lparr>e_id := i\<rparr> # es', s2))"

text \<open>The single-shard batch allocates inside the transaction, edge by edge.\<close>

fun addEdgeBatchTx :: "'b bolt \<Rightarrow> codec \<Rightarrow> Edge list \<Rightarrow> 'b shard \<Rightarrow> (gerr + Edge list) \<times> 'b shard" where
  "addEdgeBatchTx B C [] s = (Inr [], s)"
| "addEdgeBatchTx B C (e # es) s =
     (let (i, s1) = allocEdgeID s; e' = e\<lparr>e_id := i\<rparr>
      in case addEdgeSameTx B C e' (s_data s1) of
           Inl err \<Rightarrow> (Inl err, s1)
         | Inr d \<Rightarrow> (case addEdgeBatchTx B C es (s1\<lparr>s_data := d\<rparr>) of
             (Inl err, s2) \<Rightarrow> (Inl err, s2)
           | (Inr es', s2) \<Rightarrow> (Inr (e' # es'), s2)))"

definition walEdge :: "Edge \<Rightarrow> EdgeID \<times> NodeID \<times> NodeID \<times> string \<times> Props" where
  "walEdge e = (e_id e, e_from e, e_to e, e_label e, e_props e)"

text \<open>Grouping by shard: Go ranges over the groups in some order, here by first occurrence.\<close>

definition groupBy :: "('a \<Rightarrow> nat) \<Rightarrow> 'a list \<Rightarrow> (nat \<times> 'a list) list" where
  "groupBy f xs = map (\<lambda>i. (i, filter (\<lambda>x. f x = i) xs)) (remdups (map f xs))"

fun runGroups :: "(nat \<times> 'a list) list \<Rightarrow> (nat \<Rightarrow> 'a list \<Rightarrow> 'b DB \<Rightarrow> (gerr + unit) \<times> 'b DB) \<Rightarrow> 'b DB \<Rightarrow> (gerr + unit) \<times> 'b DB" where
  "runGroups [] f db = (Inr (), db)"
| "runGroups ((i, xs) # gs) f db = (case f i xs db of (Inl e, db1) \<Rightarrow> (Inl e, db1) | (Inr _, db1) \<Rightarrow> runGroups gs f db1)"

definition AddEdgeBatch :: "'b bolt \<Rightarrow> codec \<Rightarrow> wcodec \<Rightarrow> Edge list \<Rightarrow> 'b DB \<Rightarrow> (gerr + EdgeID list) \<times> 'b DB" where
  "AddEdgeBatch B C W edges db = guarded db
     (if length (db_shards db) = 1 then
        (case writeUpdateAlloc 0 (addEdgeBatchTx B C edges) db of
           (Inl e, db1) \<Rightarrow> (Inl (ErrWrap ''graphdb: batch edge add failed'' e), db1)
         | (Inr es, db1) \<Rightarrow>
             let db2 = updShard 0 (addEdgeCount (word_of_nat (length edges))) db1;
                 db3 = walAppend W (WALAddEdgeBatch (map walEdge es)) db2
             in (Inr (map e_id es), fold (\<lambda>e. bloomAddDB (e_from e) (e_to e)) es db3))
      else
        let (es, s0) = allocEdgeIDs edges (primaryShard db);
            db0 = updShard 0 (\<lambda>_. s0) db
        in case runGroups (groupBy (\<lambda>e. shardForEdge db (e_from e)) es)
                  (\<lambda>i batch db. case writeUpdate i (efold (addEdgeSrcTx B C) batch) db of
                     (Inl e, db1) \<Rightarrow> (Inl e, db1)
                   | (Inr _, db1) \<Rightarrow> (Inr (), updShard i (addEdgeCount (word_of_nat (length batch))) db1)) db0 of
             (Inl e, db1) \<Rightarrow> (Inl (ErrWrap ''graphdb: batch edge add failed'' e), db1)
           | (Inr _, db1) \<Rightarrow>
               (case runGroups (groupBy (\<lambda>e. shardFor db (e_to e)) es)
                       (\<lambda>i batch. writeUpdate i (efold (addEdgeDstTx B) batch)) db1 of
                  (Inl e, db2) \<Rightarrow> (Inl (ErrWrap ''graphdb: batch edge add failed (adj_in)'' e), db2)
                | (Inr _, db2) \<Rightarrow>
                    let db3 = walAppend W (WALAddEdgeBatch (map walEdge es)) db2
                    in (Inr (map e_id es), fold (\<lambda>e. bloomAddDB (e_from e) (e_to e)) es db3)))"

section \<open>Reading, deleting and updating one edge\<close>

fun getEdgeIn :: "'b bolt \<Rightarrow> codec \<Rightarrow> EdgeID \<Rightarrow> 'b shard list \<Rightarrow> gerr + Edge" where
  "getEdgeIn B C i [] = Inl (ErrEdgeNotFound i)"
| "getEdgeIn B C i (s # ss) = (case b_get B (bk_edges (s_data s)) (encodeEdgeID i) of
       None \<Rightarrow> getEdgeIn B C i ss
     | Some data \<Rightarrow> decodeEdge C data)"

definition getEdge :: "'b bolt \<Rightarrow> codec \<Rightarrow> EdgeID \<Rightarrow> 'b DB \<Rightarrow> gerr + Edge" where
  "getEdge B C i db = viewing db (getEdgeIn B C i (db_shards db))"

definition GetEdge :: "'b bolt \<Rightarrow> codec \<Rightarrow> EdgeID \<Rightarrow> 'b DB \<Rightarrow> gerr + Edge" where
  "GetEdge B C i db = (if db_closed db then Inl ErrClosed else getEdge B C i db)"

definition deleteEdgeInternal :: "'b bolt \<Rightarrow> wcodec \<Rightarrow> Edge \<Rightarrow> 'b DB \<Rightarrow> (gerr + unit) \<times> 'b DB" where
  "deleteEdgeInternal B W e db =
     (let src = shardForEdge db (e_from e); dst = shardFor db (e_to e)
      in case writeUpdate src (delEdgeSrcTx B e) db of
           (Inl err, db1) \<Rightarrow> (Inl err, db1)
         | (Inr _, db1) \<Rightarrow>
             let db2 = updShard src (addEdgeCount (- 1)) db1
             in case writeUpdate (if dst = src then src else dst) (delEdgeDstTx B e) db2 of
                  (Inl err, db3) \<Rightarrow> (Inl err, db3)
                | (Inr _, db3) \<Rightarrow> (Inr (), walAppend W (WALDeleteEdge (e_id e) (e_from e) (e_to e) (e_label e)) db3))"

definition DeleteEdge :: "'b bolt \<Rightarrow> codec \<Rightarrow> wcodec \<Rightarrow> EdgeID \<Rightarrow> 'b DB \<Rightarrow> (gerr + unit) \<times> 'b DB" where
  "DeleteEdge B C W i db = guarded db
     (case getEdge B C i db of Inl e \<Rightarrow> (Inl e, db) | Inr edge \<Rightarrow> deleteEdgeInternal B W edge db)"

definition UpdateEdge :: "'b bolt \<Rightarrow> codec \<Rightarrow> wcodec \<Rightarrow> EdgeID \<Rightarrow> Props \<Rightarrow> 'b DB \<Rightarrow> (gerr + unit) \<times> 'b DB" where
  "UpdateEdge B C W i props db = guarded db
     (case getEdge B C i db of Inl e \<Rightarrow> (Inl e, db)
      | Inr edge0 \<Rightarrow>
          let edge = edge0\<lparr>e_props := props_merge (e_props edge0) props\<rparr>
          in case writeUpdate (shardForEdge db (e_from edge)) (updateEdgeTx B C i edge) db of
               (Inl e, db1) \<Rightarrow> (Inl e, db1)
             | (Inr _, db1) \<Rightarrow> (Inr (), walAppend W (WALUpdateEdge i (e_from edge) props) db1))"

section \<open>Adjacency\<close>

text \<open>The edge record with an identifier; a missing or corrupt record is skipped.\<close>

definition edgeAt :: "'b bolt \<Rightarrow> codec \<Rightarrow> 'b buckets \<Rightarrow> EdgeID \<Rightarrow> Edge list" where
  "edgeAt B C d i = (case b_get B (bk_edges d) (encodeEdgeID i) of None \<Rightarrow> []
     | Some data \<Rightarrow> (case decodeEdge C data of Inl _ \<Rightarrow> [] | Inr e \<Rightarrow> [e]))"

definition adjEdgeID :: "bytes \<Rightarrow> gerr + EdgeID" where
  "adjEdgeID k = (case decodeAdjKey k of None \<Rightarrow> Inl ErrPanic | Some ne \<Rightarrow> Inr (snd ne))"

definition collectLocal :: "'b bolt \<Rightarrow> codec \<Rightarrow> ('b buckets \<Rightarrow> 'b) \<Rightarrow> NodeID \<Rightarrow> 'b buckets \<Rightarrow> gerr + Edge list" where
  "collectLocal B C bucket i d =
     ebind (emapM (\<lambda>kv. ebind (adjEdgeID (fst kv)) (\<lambda>eid. Inr (edgeAt B C d eid)))
              (seekPrefix B (bucket d) (encodeNodeID i)))
       (\<lambda>ess. Inr (concat ess))"

definition collectIncoming :: "'b bolt \<Rightarrow> codec \<Rightarrow> NodeID \<Rightarrow> 'b DB \<Rightarrow> gerr + Edge list" where
  "collectIncoming B C i db =
     ebind (emapM (\<lambda>kv. ebind (adjEdgeID (fst kv)) (\<lambda>eid. Inr (eid, fst (decodeAdjValue (snd kv)))))
              (seekPrefix B (bk_adj_in (bucketsOf db (shardFor db i))) (encodeNodeID i)))
       (\<lambda>entries. Inr (concat (map (\<lambda>(s, g). concat (map (\<lambda>en. edgeAt B C (bucketsOf db s) (fst en)) g))
          (groupBy (\<lambda>en. shardForEdge db (snd en)) entries))))"

definition getEdgesForNode :: "'b bolt \<Rightarrow> codec \<Rightarrow> NodeID \<Rightarrow> Direction \<Rightarrow> 'b DB \<Rightarrow> gerr + Edge list" where
  "getEdgesForNode B C i dir db = viewing db
     (let d = bucketsOf db (shardFor db i)
      in ebind (if dir = Outgoing \<or> dir = Both then collectLocal B C bk_adj_out i d else Inr []) (\<lambda>out.
         ebind (if dir = Incoming \<or> dir = Both
                then (if length (db_shards db) = 1 then collectLocal B C bk_adj_in i d else collectIncoming B C i db)
                else Inr []) (\<lambda>inc. Inr (out @ inc))))"

definition OutEdges :: "'b bolt \<Rightarrow> codec \<Rightarrow> NodeID \<Rightarrow> 'b DB \<Rightarrow> gerr + Edge list" where
  "OutEdges B C i db = getEdgesForNode B C i Outgoing db"

definition InEdges :: "'b bolt \<Rightarrow> codec \<Rightarrow> NodeID \<Rightarrow> 'b DB \<Rightarrow> gerr + Edge list" where
  "InEdges B C i db = getEdgesForNode B C i Incoming db"

definition Edges :: "'b bolt \<Rightarrow> codec \<Rightarrow> NodeID \<Rightarrow> 'b DB \<Rightarrow> gerr + Edge list" where
  "Edges B C i db = getEdgesForNode B C i Both db"

definition OutEdgesLabeled :: "'b bolt \<Rightarrow> codec \<Rightarrow> NodeID \<Rightarrow> string \<Rightarrow> 'b DB \<Rightarrow> gerr + Edge list" where
  "OutEdgesLabeled B C i label db =
     ebind (getEdgesForNode B C i Outgoing db) (\<lambda>es. Inr (filter (\<lambda>e. e_label e = label) es))"

definition InEdgesLabeled :: "'b bolt \<Rightarrow> codec \<Rightarrow> NodeID \<Rightarrow> string \<Rightarrow> 'b DB \<Rightarrow> gerr + Edge list" where
  "InEdgesLabeled B C i label db =
     ebind (getEdgesForNode B C i Incoming db) (\<lambda>es. Inr (filter (\<lambda>e. e_label e = label) es))"

definition Degree :: "'b bolt \<Rightarrow> codec \<Rightarrow> NodeID \<Rightarrow> Direction \<Rightarrow> 'b DB \<Rightarrow> gerr + nat" where
  "Degree B C i dir db = ebind (getEdgesForNode B C i dir db) (\<lambda>es. Inr (length es))"

definition EdgeCount :: "'b DB \<Rightarrow> u64" where
  "EdgeCount db = sum_list (map edgeCount (db_shards db))"

definition HasEdge :: "'b bolt \<Rightarrow> codec \<Rightarrow> NodeID \<Rightarrow> NodeID \<Rightarrow> 'b DB \<Rightarrow> gerr + bool" where
  "HasEdge B C from to db =
     (if (case db_edgeBloom db of None \<Rightarrow> False | Some bf \<Rightarrow> \<not> bloomTest bf from to) then Inr False
      else ebind (getEdgesForNode B C from Outgoing db) (\<lambda>es. Inr (list_ex (\<lambda>e. e_to e = to) es)))"

definition HasEdgeLabeled :: "'b bolt \<Rightarrow> codec \<Rightarrow> NodeID \<Rightarrow> NodeID \<Rightarrow> string \<Rightarrow> 'b DB \<Rightarrow> gerr + bool" where
  "HasEdgeLabeled B C from to label db =
     ebind (OutEdgesLabeled B C from label db) (\<lambda>es. Inr (list_ex (\<lambda>e. e_to e = to) es))"

definition edgesByLabelIn :: "'b bolt \<Rightarrow> codec \<Rightarrow> string \<Rightarrow> 'b buckets \<Rightarrow> Edge list" where
  "edgesByLabelIn B C label d =
     (let pfx = encodeIndexPrefix label
      in concat (map (\<lambda>kv. case decodeEdgeID (drop (length pfx) (fst kv)) of None \<Rightarrow> []
            | Some i \<Rightarrow> edgeAt B C d i) (seekPrefix B (bk_idx_edge_type d) pfx)))"

definition EdgesByLabel :: "'b bolt \<Rightarrow> codec \<Rightarrow> string \<Rightarrow> 'b DB \<Rightarrow> gerr + Edge list" where
  "EdgesByLabel B C label db = (if db_closed db then Inl ErrClosed
     else Inr (concat (map (\<lambda>s. edgesByLabelIn B C label (s_data s)) (db_shards db))))"

end
