(* ===== verification/NodeOps.thy ===== *)
theory NodeOps
  imports Constraint EdgeOps
begin

text \<open>
  The node operations (node.go), the label operations (label.go) and the lookups that read whole
  nodes. Property maps of size zero and nil maps are both the empty list.
\<close>

section \<open>Adding nodes\<close>

definition putNode :: "'b bolt \<Rightarrow> NodeID \<Rightarrow> bytes \<Rightarrow> 'b buckets \<Rightarrow> gerr + 'b buckets" where
  "putNode B i data d = ebind (b_put B (bk_nodes d) (encodeNodeID i) data) (\<lambda>b. Inr (d\<lparr>bk_nodes := b\<rparr>))"

definition addNodeTx :: "'b bolt \<Rightarrow> codec \<Rightarrow> 'b DB \<Rightarrow> NodeID \<Rightarrow> bytes \<Rightarrow> Props \<Rightarrow> 'b buckets \<Rightarrow> gerr + 'b buckets" where
  "addNodeTx B C db i data props d = ebind (putNode B i data d) (indexNodeProps B C db i props)"

definition AddNode :: "'b bolt \<Rightarrow> codec \<Rightarrow> wcodec \<Rightarrow> Props \<Rightarrow> 'b DB \<Rightarrow> (gerr + NodeID) \<times> 'b DB" where
  "AddNode B C W props db = guarded db
     (let (i, db0) = dbAllocNodeID db; target = shardFor db0 i
      in case encodeProps C props of
           Inl e \<Rightarrow> (Inl (ErrWrap ''graphdb: failed to encode node properties'' e), db0)
         | Inr data \<Rightarrow> (case writeUpdate target (addNodeTx B C db0 i data props) db0 of
             (Inl e, db1) \<Rightarrow> (Inl (ErrWrap ''graphdb: failed to add node'' e), db1)
           | (Inr _, db1) \<Rightarrow>
               let db2 = walAppend W (WALAddNode i props) (updShard target (addNodeCount 1) db1)
               in (Inr i, db2\<lparr>db_ncache := nc_Put \<lparr>n_id = i, n_labels = [], n_props = props\<rparr> (db_ncache db2)\<rparr>)))"

fun addNodeBatchTx :: "'b bolt \<Rightarrow> codec \<Rightarrow> Props list \<Rightarrow> 'b shard \<Rightarrow> (gerr + NodeID list) \<times> 'b shard" where
  "addNodeBatchTx B C [] s = (Inr [], s)"
| "addNodeBatchTx B C (props # r) s =
     (let (i, s1) = allocNodeID s
      in case ebind (encodeProps C props) (\<lambda>data. putNode B i data (s_data s1)) of
           Inl e \<Rightarrow> (Inl e, s1)
         | Inr d \<Rightarrow> (case addNodeBatchTx B C r (s1\<lparr>s_data := d\<rparr>) of
             (Inl e, s2) \<Rightarrow> (Inl e, s2) | (Inr ids, s2) \<Rightarrow> (Inr (i # ids), s2)))"

text \<open>The multi-shard batch allocates and encodes node by node before the first transaction.\<close>

fun allocEncode :: "codec \<Rightarrow> Props list \<Rightarrow> 'b shard \<Rightarrow> (gerr + (NodeID \<times> bytes) list) \<times> 'b shard" where
  "allocEncode C [] s = (Inr [], s)"
| "allocEncode C (props # r) s =
     (let (i, s1) = allocNodeID s
      in case encodeProps C props of
           Inl e \<Rightarrow> (Inl (ErrWrap ''graphdb: failed to encode props'' e), s1)
         | Inr data \<Rightarrow> (case allocEncode C r s1 of
             (Inl e, s2) \<Rightarrow> (Inl e, s2) | (Inr xs, s2) \<Rightarrow> (Inr ((i, data) # xs), s2)))"

definition AddNodeBatch :: "'b bolt \<Rightarrow> codec \<Rightarrow> wcodec \<Rightarrow> Props list \<Rightarrow> 'b DB \<Rightarrow> (gerr + NodeID list) \<times> 'b DB" where
  "AddNodeBatch B C W propsList db = guarded db
     (if length (db_shards db) = 1 then
        (case writeUpdateAlloc 0 (addNodeBatchTx B C propsList) db of
           (Inl e, db1) \<Rightarrow> (Inl (ErrWrap ''graphdb: batch add failed'' e), db1)
         | (Inr ids, db1) \<Rightarrow>
             (Inr ids, walAppend W (WALAddNodeBatch (zip ids propsList))
               (updShard 0 (addNodeCount (word_of_nat (length propsList))) db1)))
      else
        (case allocEncode C propsList (primaryShard db) of
           (Inl e, s0) \<Rightarrow> (Inl e, updShard 0 (\<lambda>_. s0) db)
         | (Inr xs, s0) \<Rightarrow>
             (case runGroups (groupBy (\<lambda>x. unat (fst x) mod length (db_shards db)) xs)
                     (\<lambda>i entries db. case writeUpdate i (efold (\<lambda>(nid, data). putNode B nid data) entries) db of
                        (Inl e, db1) \<Rightarrow> (Inl e, db1)
                      | (Inr _, db1) \<Rightarrow> (Inr (), updShard i (addNodeCount (word_of_nat (length entries))) db1))
                     (updShard 0 (\<lambda>_. s0) db) of
                (Inl e, db1) \<Rightarrow> (Inl (ErrWrap ''graphdb: batch add failed on shard'' e), db1)
              | (Inr _, db1) \<Rightarrow>
                  (Inr (map fst xs), walAppend W (WALAddNodeBatch (zip (map fst xs) propsList)) db1))))"

section \<open>Reading nodes\<close>

definition readNode :: "'b bolt \<Rightarrow> codec \<Rightarrow> NodeID \<Rightarrow> 'b buckets \<Rightarrow> gerr + Node" where
  "readNode B C i d = (case b_get B (bk_nodes d) (encodeNodeID i) of
       None \<Rightarrow> Inl (ErrNodeNotFound i)
     | Some data \<Rightarrow> ebind (decodeProps C data) (\<lambda>props.
         Inr \<lparr>n_id = i, n_labels = loadLabels B C d i, n_props = props\<rparr>))"

definition getNode :: "'b bolt \<Rightarrow> codec \<Rightarrow> NodeID \<Rightarrow> 'b DB \<Rightarrow> (gerr + Node) \<times> 'b DB" where
  "getNode B C i db = (case nc_Get i (db_ncache db) of
       (Some n, nc) \<Rightarrow> (Inr n, db\<lparr>db_ncache := nc\<rparr>)
     | (None, nc) \<Rightarrow>
         (case viewing db (readNode B C i (bucketsOf db (shardFor db i))) of
            Inl e \<Rightarrow> (Inl e, db\<lparr>db_ncache := nc\<rparr>)
          | Inr n \<Rightarrow> (Inr n, db\<lparr>db_ncache := nc_Put n nc\<rparr>)))"

definition GetNode :: "'b bolt \<Rightarrow> codec \<Rightarrow> NodeID \<Rightarrow> 'b DB \<Rightarrow> (gerr + Node) \<times> 'b DB" where
  "GetNode B C i db = (if db_closed db then (Inl ErrClosed, db) else getNode B C i db)"

definition NodeExists :: "'b bolt \<Rightarrow> NodeID \<Rightarrow> 'b DB \<Rightarrow> gerr + bool" where
  "NodeExists B i db = (if db_closed db then Inl ErrClosed
     else Inr (b_get B (bk_nodes (bucketsOf db (shardFor db i))) (encodeNodeID i) \<noteq> None))"

definition NodeCount :: "'b DB \<Rightarrow> u64" where
  "NodeCount db = sum_list (map nodeCount (db_shards db))"

definition forEachNode :: "'b bolt \<Rightarrow> codec \<Rightarrow> (Node \<Rightarrow> 's \<Rightarrow> gerr + 's) \<Rightarrow> 'b DB \<Rightarrow> 's \<Rightarrow> gerr + 's" where
  "forEachNode B C fn db = efold (\<lambda>s. forEachInBucket B (bk_nodes (s_data s)) (\<lambda>kv st.
       ebind (keyID (fst kv)) (\<lambda>i. ebind (decodeProps C (snd kv)) (\<lambda>props.
         fn \<lparr>n_id = i, n_labels = loadLabels B C (s_data s) i, n_props = props\<rparr> st)))) (db_shards db)"

definition ForEachNode :: "'b bolt \<Rightarrow> codec \<Rightarrow> (Node \<Rightarrow> 's \<Rightarrow> gerr + 's) \<Rightarrow> 'b DB \<Rightarrow> 's \<Rightarrow> gerr + 's" where
  "ForEachNode B C fn db st = (if db_closed db then Inl ErrClosed else forEachNode B C fn db st)"

definition FindNodes :: "'b bolt \<Rightarrow> codec \<Rightarrow> (Node \<Rightarrow> bool) \<Rightarrow> 'b DB \<Rightarrow> gerr + Node list" where
  "FindNodes B C flt db = (if db_closed db then Inl ErrClosed
     else efold (\<lambda>s. forEachInBucket B (bk_nodes (s_data s)) (\<lambda>kv acc.
       ebind (keyID (fst kv)) (\<lambda>i. ebind (decodeProps C (snd kv)) (\<lambda>props.
         let n = \<lparr>n_id = i, n_labels = [], n_props = props\<rparr> in Inr (if flt n then acc @ [n] else acc)))))
       (db_shards db) [])"

section \<open>Updating nodes\<close>

text \<open>
  The transaction shared in shape by UpdateNode and SetNodeProps: \<open>unq\<close> are the properties whose
  unique-index entries are removed before the check and \<open>new\<close> the properties written.
\<close>

definition rewriteNodeTx :: "'b bolt \<Rightarrow> codec \<Rightarrow> 'b DB \<Rightarrow> NodeID \<Rightarrow> Props \<Rightarrow> Props \<Rightarrow> 'b buckets \<Rightarrow> gerr + 'b buckets" where
  "rewriteNodeTx B C db i unq new d =
     (let labels = loadLabels B C d i
      in ebind (if labels \<noteq> [] then
                  (let d1 = unindexUniqueConstraints B C db i labels unq d
                   in ebind (checkUniqueConstraintsInTx B C db labels new i d1) (\<lambda>_. Inr d1))
                else Inr d) (\<lambda>d2.
         ebind (encodeProps C new) (\<lambda>data.
         ebind (putNode B i data d2) (\<lambda>d3.
         ebind (indexNodeProps B C db i new d3) (\<lambda>d4.
           Inr (if labels \<noteq> [] then indexUniqueConstraints B C db i labels new d4 else d4))))))"

definition updateNodeTx :: "'b bolt \<Rightarrow> codec \<Rightarrow> 'b DB \<Rightarrow> NodeID \<Rightarrow> Props \<Rightarrow> 'b buckets \<Rightarrow> gerr + 'b buckets" where
  "updateNodeTx B C db i props d = (case b_get B (bk_nodes d) (encodeNodeID i) of
       None \<Rightarrow> Inl (ErrNodeNotFound i)
     | Some existing \<Rightarrow>
         ebind (decodeProps C existing) (\<lambda>oldProps.
         ebind (unindexNodeProps B C db i oldProps d) (\<lambda>d1.
           let merged = props_merge oldProps props in rewriteNodeTx B C db i merged merged d1)))"

definition setNodePropsTx :: "'b bolt \<Rightarrow> codec \<Rightarrow> 'b DB \<Rightarrow> NodeID \<Rightarrow> Props \<Rightarrow> 'b buckets \<Rightarrow> gerr + 'b buckets" where
  "setNodePropsTx B C db i props d = (case b_get B (bk_nodes d) (encodeNodeID i) of
       None \<Rightarrow> Inl (ErrNodeNotFound i)
     | Some existing \<Rightarrow>
         ebind (decodeProps C existing) (\<lambda>oldProps.
         ebind (unindexNodeProps B C db i oldProps d) (\<lambda>d1. rewriteNodeTx B C db i oldProps props d1)))"

definition invalidateNode :: "NodeID \<Rightarrow> 'b DB \<Rightarrow> 'b DB" where
  "invalidateNode i db = db\<lparr>db_ncache := nc_Invalidate i (db_ncache db)\<rparr>"

definition UpdateNode :: "'b bolt \<Rightarrow> codec \<Rightarrow> wcodec \<Rightarrow> NodeID \<Rightarrow> Props \<Rightarrow> 'b DB \<Rightarrow> (gerr + unit) \<times> 'b DB" where
  "UpdateNode B C W i props db = guarded db
     (case writeUpdate (shardFor db i) (updateNodeTx B C db i props) db of
        (Inl e, db1) \<Rightarrow> (Inl e, db1)
      | (Inr _, db1) \<Rightarrow> (Inr (), invalidateNode i (walAppend W (WALUpdateNode i props) db1)))"

definition SetNodeProps :: "'b bolt \<Rightarrow> codec \<Rightarrow> wcodec \<Rightarrow> NodeID \<Rightarrow> Props \<Rightarrow> 'b DB \<Rightarrow> (gerr + unit) \<times> 'b DB" where
  "SetNodeProps B C W i props db = guarded db
     (case writeUpdate (shardFor db i) (setNodePropsTx B C db i props) db of
        (Inl e, db1) \<Rightarrow> (Inl e, db1)
      | (Inr _, db1) \<Rightarrow> (Inr (), invalidateNode i (walAppend W (WALSetNodeProps i props) db1)))"

section \<open>Deleting a node\<close>

fun deleteEdges :: "'b bolt \<Rightarrow> wcodec \<Rightarrow> Edge list \<Rightarrow> 'b DB \<Rightarrow> (gerr + unit) \<times> 'b DB" where
  "deleteEdges B W [] db = (Inr (), db)"
| "deleteEdges B W (e # es) db = (case deleteEdgeInternal B W e db of
       (Inl err, db1) \<Rightarrow> (Inl (ErrWrap ''graphdb: failed to delete edge while deleting node'' err), db1)
     | (Inr _, db1) \<Rightarrow> deleteEdges B W es db1)"

text \<open>An ignored error of a helper leaves the buckets as the helper found them.\<close>

definition ignoring :: "('b buckets \<Rightarrow> gerr + 'b buckets) \<Rightarrow> 'b buckets \<Rightarrow> 'b buckets" where
  "ignoring f d = (case f d of Inl _ \<Rightarrow> d | Inr d' \<Rightarrow> d')"

definition deleteLabelEntries :: "'b bolt \<Rightarrow> NodeID \<Rightarrow> string list \<Rightarrow> 'b buckets \<Rightarrow> 'b buckets" where
  "deleteLabelEntries B i labels d =
     fold (\<lambda>l. ignoring (\<lambda>d. ebind (b_del B (bk_idx_node_label d) (encodeLabelIndexKey l i))
       (\<lambda>b. Inr (d\<lparr>bk_idx_node_label := b\<rparr>)))) labels d"

definition deleteNodeTx :: "'b bolt \<Rightarrow> codec \<Rightarrow> 'b DB \<Rightarrow> NodeID \<Rightarrow> 'b buckets \<Rightarrow> gerr + 'b buckets" where
  "deleteNodeTx B C db i d = (case b_get B (bk_nodes d) (encodeNodeID i) of
       None \<Rightarrow> Inl (ErrNodeNotFound i)
     | Some existing \<Rightarrow>
         let props = (case decodeProps C existing of Inl _ \<Rightarrow> [] | Inr p \<Rightarrow> p);
             d1 = (if props \<noteq> [] then ignoring (unindexNodeProps B C db i props) d else d);
             labels = loadLabels B C d1 i;
             d2 = (if labels \<noteq> [] then
                     let d1' = (if props \<noteq> [] then unindexUniqueConstraints B C db i labels props d1 else d1)
                     in ignoring (\<lambda>d. ebind (b_del B (bk_node_labels d) (encodeNodeID i)) (\<lambda>b. Inr (d\<lparr>bk_node_labels := b\<rparr>)))
                          (deleteLabelEntries B i labels d1')
                   else d1)
         in ebind (b_del B (bk_nodes d2) (encodeNodeID i)) (\<lambda>b. Inr (d2\<lparr>bk_nodes := b\<rparr>)))"

definition DeleteNode :: "'b bolt \<Rightarrow> codec \<Rightarrow> wcodec \<Rightarrow> NodeID \<Rightarrow> 'b DB \<Rightarrow> (gerr + unit) \<times> 'b DB" where
  "DeleteNode B C W i db = guarded db
     (case getEdgesForNode B C i Both db of Inl e \<Rightarrow> (Inl e, db)
      | Inr edges \<Rightarrow> (case deleteEdges B W edges db of
          (Inl e, db1) \<Rightarrow> (Inl e, db1)
        | (Inr _, db1) \<Rightarrow>
            let s = shardFor db1 i
            in case writeUpdate s (deleteNodeTx B C db1 i) db1 of
                 (Inl e, db2) \<Rightarrow> (Inl e, db2)
               | (Inr _, db2) \<Rightarrow>
                   (Inr (), invalidateNode i (walAppend W (WALDeleteNode i) (updShard s (addNodeCount (- 1)) db2)))))"

section \<open>Labels\<close>

definition putLabels :: "'b bolt \<Rightarrow> NodeID \<Rightarrow> bytes \<Rightarrow> 'b buckets \<Rightarrow> gerr + 'b buckets" where
  "putLabels B i data d = ebind (b_put B (bk_node_labels d) (encodeNodeID i) data) (\<lambda>b. Inr (d\<lparr>bk_node_labels := b\<rparr>))"

definition putLabelEntries :: "'b bolt \<Rightarrow> NodeID \<Rightarrow> string list \<Rightarrow> 'b buckets \<Rightarrow> gerr + 'b buckets" where
  "putLabelEntries B i labels d =
     ebind (efold (\<lambda>l b. b_put B b (encodeLabelIndexKey l i) []) labels (bk_idx_node_label d))
       (\<lambda>b. Inr (d\<lparr>bk_idx_node_label := b\<rparr>))"

definition addNodeWithLabelsTx :: "'b bolt \<Rightarrow> codec \<Rightarrow> 'b DB \<Rightarrow> NodeID \<Rightarrow> bytes \<Rightarrow> bytes \<Rightarrow> string list \<Rightarrow> Props \<Rightarrow> 'b buckets \<Rightarrow> gerr + 'b buckets" where
  "addNodeWithLabelsTx B C db i data labelData labels props d =
     ebind (checkUniqueConstraintsInTx B C db labels props 0 d) (\<lambda>_.
     ebind (putNode B i data d) (\<lambda>d1.
     ebind (indexNodeProps B C db i props d1) (\<lambda>d2.
     ebind (if labelData \<noteq> [] then ebind (putLabels B i labelData d2) (putLabelEntries B i labels) else Inr d2) (\<lambda>d3.
       Inr (indexUniqueConstraints B C db i labels props d3)))))"

definition AddNodeWithLabels :: "'b bolt \<Rightarrow> codec \<Rightarrow> wcodec \<Rightarrow> string list \<Rightarrow> Props \<Rightarrow> 'b DB \<Rightarrow> (gerr + NodeID) \<times> 'b DB" where
  "AddNodeWithLabels B C W labels props db = guarded db
     (let (i, db0) = dbAllocNodeID db; target = shardFor db0 i
      in case encodeProps C props of
           Inl e \<Rightarrow> (Inl (ErrWrap ''graphdb: failed to encode node properties'' e), db0)
         | Inr data \<Rightarrow>
           (case (if labels = [] then Inr [] else c_marshal_labels C labels) of
              Inl e \<Rightarrow> (Inl (ErrWrap ''graphdb: failed to encode labels'' e), db0)
            | Inr labelData \<Rightarrow>
                (case writeUpdate target (addNodeWithLabelsTx B C db0 i data labelData labels props) db0 of
                   (Inl e, db1) \<Rightarrow> (Inl (ErrWrap ''graphdb: failed to add node'' e), db1)
                 | (Inr _, db1) \<Rightarrow>
                     let db2 = walAppend W (WALAddNodeWithLabels i labels props) (updShard target (addNodeCount 1) db1)
                     in (Inr i, db2\<lparr>db_ncache := nc_Put \<lparr>n_id = i, n_labels = labels, n_props = props\<rparr> (db_ncache db2)\<rparr>))))"

definition addLabelTx :: "'b bolt \<Rightarrow> codec \<Rightarrow> 'b DB \<Rightarrow> NodeID \<Rightarrow> string list \<Rightarrow> 'b buckets \<Rightarrow> gerr + 'b buckets" where
  "addLabelTx B C db i labels d = (case b_get B (bk_nodes d) (encodeNodeID i) of
       None \<Rightarrow> Inl (ErrNodeNotFound i)
     | Some nodeData \<Rightarrow>
         let existing = loadLabels B C d i;
             added = filter (\<lambda>l. l \<notin> set existing) labels
         in if added = [] then Inr d
            else let props = (case decodeProps C nodeData of Inl _ \<Rightarrow> [] | Inr p \<Rightarrow> p)
                 in ebind (if props \<noteq> [] then checkUniqueConstraintsInTx B C db added props i d else Inr ()) (\<lambda>_.
                    ebind (c_marshal_labels C (existing @ added)) (\<lambda>data.
                    ebind (putLabels B i data d) (\<lambda>d1.
                    ebind (putLabelEntries B i added d1) (\<lambda>d2.
                      Inr (if props \<noteq> [] then indexUniqueConstraints B C db i added props d2 else d2))))))"

definition AddLabel :: "'b bolt \<Rightarrow> codec \<Rightarrow> wcodec \<Rightarrow> NodeID \<Rightarrow> string list \<Rightarrow> 'b DB \<Rightarrow> (gerr + unit) \<times> 'b DB" where
  "AddLabel B C W i labels db = guarded db
     (if labels = [] then (Inr (), db)
      else case writeUpdate (shardFor db i) (addLabelTx B C db i labels) db of
        (Inl e, db1) \<Rightarrow> (Inl e, db1)
      | (Inr _, db1) \<Rightarrow> (Inr (), invalidateNode i (walAppend W (WALAddLabel i labels) db1)))"

definition removeLabelTx :: "'b bolt \<Rightarrow> codec \<Rightarrow> NodeID \<Rightarrow> string list \<Rightarrow> 'b buckets \<Rightarrow> gerr + 'b buckets" where
  "removeLabelTx B C i labels d =
     (if b_get B (bk_nodes d) (encodeNodeID i) = None then Inl (ErrNodeNotFound i)
      else let kept = filter (\<lambda>l. l \<notin> set labels) (loadLabels B C d i)
           in ebind (if kept = []
                     then ebind (b_del B (bk_node_labels d) (encodeNodeID i)) (\<lambda>b. Inr (d\<lparr>bk_node_labels := b\<rparr>))
                     else ebind (c_marshal_labels C kept) (\<lambda>data. putLabels B i data d)) (\<lambda>d1.
              ebind (efold (\<lambda>l b. b_del B b (encodeLabelIndexKey l i)) labels (bk_idx_node_label d1)) (\<lambda>b.
                Inr (d1\<lparr>bk_idx_node_label := b\<rparr>))))"

definition RemoveLabel :: "'b bolt \<Rightarrow> codec \<Rightarrow> wcodec \<Rightarrow> NodeID \<Rightarrow> string list \<Rightarrow> 'b DB \<Rightarrow> (gerr + unit) \<times> 'b DB" where
  "RemoveLabel B C W i labels db = guarded db
     (if labels = [] then (Inr (), db)
      else case writeUpdate (shardFor db i) (removeLabelTx B C i labels) db of
        (Inl e, db1) \<Rightarrow> (Inl e, db1)
      | (Inr _, db1) \<Rightarrow> (Inr (), invalidateNode i (walAppend W (WALRemoveLabel i labels) db1)))"

definition GetLabels :: "'b bolt \<Rightarrow> codec \<Rightarrow> NodeID \<Rightarrow> 'b DB \<Rightarrow> gerr + string list" where
  "GetLabels B C i db = (if db_closed db then Inl ErrClosed
     else let d = bucketsOf db (shardFor db i)
          in if b_get B (bk_nodes d) (encodeNodeID i) = None then Inl (ErrNodeNotFound i) else Inr (loadLabels B C d i))"

definition findByLabelIn :: "'b bolt \<Rightarrow> codec \<Rightarrow> string \<Rightarrow> 'b buckets \<Rightarrow> Node list" where
  "findByLabelIn B C label d =
     (let pfx = encodeLabelIndexPrefix label
      in concat (map (\<lambda>kv. case decodeNodeID (drop (length pfx) (fst kv)) of None \<Rightarrow> []
           | Some i \<Rightarrow> (case nodeAt B C d i of None \<Rightarrow> []
               | Some props \<Rightarrow> [\<lparr>n_id = i, n_labels = loadLabels B C d i, n_props = props\<rparr>]))
          (seekPrefix B (bk_idx_node_label d) pfx)))"

definition FindByLabel :: "'b bolt \<Rightarrow> codec \<Rightarrow> string \<Rightarrow> 'b DB \<Rightarrow> gerr + Node list" where
  "FindByLabel B C label db = (if db_closed db then Inl ErrClosed
     else Inr (concat (map (\<lambda>s. findByLabelIn B C label (s_data s)) (db_shards db))))"

definition HasLabel :: "'b bolt \<Rightarrow> codec \<Rightarrow> NodeID \<Rightarrow> string \<Rightarrow> 'b DB \<Rightarrow> gerr + bool" where
  "HasLabel B C i label db = ebind (GetLabels B C i db) (\<lambda>ls. Inr (list_ex (\<lambda>l. l = label) ls))"

section \<open>Reading through edges and constraints\<close>

fun getNodes :: "'b bolt \<Rightarrow> codec \<Rightarrow> NodeID list \<Rightarrow> 'b DB \<Rightarrow> Node list \<times> 'b DB" where
  "getNodes B C [] db = ([], db)"
| "getNodes B C (i # is) db = (case getNode B C i db of
       (Inl _, db1) \<Rightarrow> getNodes B C is db1
     | (Inr n, db1) \<Rightarrow> (let (ns, db2) = getNodes B C is db1 in (n # ns, db2)))"

definition NeighborsLabeled :: "'b bolt \<Rightarrow> codec \<Rightarrow> NodeID \<Rightarrow> string \<Rightarrow> 'b DB \<Rightarrow> (gerr + Node list) \<times> 'b DB" where
  "NeighborsLabeled B C i label db = (case OutEdgesLabeled B C i label db of Inl e \<Rightarrow> (Inl e, db)
     | Inr es \<Rightarrow> (let (ns, db1) = getNodes B C (map e_to es) db in (Inr ns, db1)))"

text \<open>First occurrences in order: the \<open>seen\<close> map of the source.\<close>

definition firstOccurrences :: "NodeID list \<Rightarrow> NodeID list" where
  "firstOccurrences xs = rev (remdups (rev xs))"

definition NeighborsDirection :: "'b bolt \<Rightarrow> codec \<Rightarrow> NodeID \<Rightarrow> Direction \<Rightarrow> 'b DB \<Rightarrow> (gerr + Node list) \<times> 'b DB" where
  "NeighborsDirection B C i dir db = (case getEdgesForNode B C i dir db of Inl e \<Rightarrow> (Inl e, db)
     | Inr es \<Rightarrow> (let (ns, db1) = getNodes B C (firstOccurrences (map (\<lambda>e. if dir = Incoming then e_from e else e_to e) es)) db
                in (Inr ns, db1)))"

definition Neighbors :: "'b bolt \<Rightarrow> codec \<Rightarrow> NodeID \<Rightarrow> 'b DB \<Rightarrow> (gerr + Node list) \<times> 'b DB" where
  "Neighbors B C i db = NeighborsDirection B C i Outgoing db"

definition FindByUniqueConstraint :: "'b bolt \<Rightarrow> codec \<Rightarrow> string \<Rightarrow> string \<Rightarrow> val \<Rightarrow> 'b DB \<Rightarrow> (gerr + Node option) \<times> 'b DB" where
  "FindByUniqueConstraint B C label property v db = (if db_closed db then (Inl ErrClosed, db)
     else case lookupUniqueIndex B db label property (fmtv C v) of
            Inl e \<Rightarrow> (Inl e, db)
          | Inr None \<Rightarrow> (Inr None, db)
          | Inr (Some i) \<Rightarrow> (case getNode B C i db of (Inl e, db1) \<Rightarrow> (Inl e, db1) | (Inr n, db1) \<Rightarrow> (Inr (Some n), db1)))"

section \<open>Opening and closing\<close>

record openOptions =
  o_ShardCount :: int
  o_CacheBudget :: int
  o_EnableWAL :: bool
  o_Role :: string

text \<open>
  \<open>Open\<close> on the shard files found in the directory (a file that does not exist has no buckets) and the segments of
  the log directory. A startup that never finishes is \<open>None\<close>.
\<close>

definition Open :: "'b bolt \<Rightarrow> wcodec \<Rightarrow> openOptions \<Rightarrow> 'b option buckets list \<Rightarrow> (u64 \<times> bytes) list \<Rightarrow> (gerr + 'b DB) option" where
  "Open B W opts dir segs =
     (let n = (if o_ShardCount opts \<le> 0 then 1 else nat (o_ShardCount opts));
          budget = (if o_CacheBudget opts \<le> 0 then 134217728 else o_CacheBudget opts);
          files' = take n (dir @ replicate n newFile)
      in case emapM (openShard B) files' of Inl e \<Rightarrow> Some (Inl e)
         | Inr shards \<Rightarrow>
             (case discoverCompositeIndexes B shards of None \<Rightarrow> None
              | Some cis \<Rightarrow>
                  let db = \<lparr>db_closed = False, db_role = o_Role opts, db_shards = shards,
                            db_indexedProps = discoverIndexes B shards, db_compositeIndexes = cis,
                            db_uniqueConstraints = discoverUniqueConstraints B shards,
                            db_ncache = newNodeCache budget, db_edgeBloom = Some (initBloomFilter B shards),
                            db_wal = None, db_faults = []\<rparr>
                  in if o_EnableWAL opts
                     then (case OpenWAL W segs of
                             Inl e \<Rightarrow> Some (Inl (ErrWrap ''graphdb: failed to open WAL'' e))
                           | Inr w \<Rightarrow> Some (Inr (db\<lparr>db_wal := Some w\<rparr>)))
                     else Some (Inr db)))"

definition Close :: "'b bolt \<Rightarrow> 'b DB \<Rightarrow> 'b DB" where
  "Close B db = (if db_closed db then db
     else db\<lparr>db_closed := True, db_wal := map_option wal_Close (db_wal db),
             db_shards := map (\<lambda>s. s\<lparr>s_data := closeShard B s\<rparr>) (db_shards db)\<rparr>)"

end
