(* ===== verification/EdgeRep.thy ===== *)
theory EdgeRep
  imports EdgeOps
begin

text \<open>
  What the edge buckets of all shards represent: a finite map from edge identifiers to edges. The
  relation \<open>erep\<close> says that the edge records, both adjacency buckets and the type index describe
  the same edges, each entry in the shard its endpoints determine. It is stated over the lookup
  functions of the buckets, so that a transaction is a pointwise update of these functions.
\<close>

definition route :: "nat \<Rightarrow> NodeID \<Rightarrow> nat" where
  "route n i = (if n = 1 then 0 else unat i mod n)"

lemma shardFor_route: "shardFor db i = route (length (db_shards db)) i"
  by (simp add: shardFor_def route_def)

lemma route_less: "0 < n \<Longrightarrow> route n i < n"
  by (simp add: route_def)

definition edge_eq :: "codec \<Rightarrow> Edge \<Rightarrow> Edge \<Rightarrow> bool" where
  "edge_eq C e e' \<longleftrightarrow> e_id e' = e_id e \<and> e_from e' = e_from e \<and> e_to e' = e_to e \<and> e_label e' = e_label e \<and>
     text_eq C (e_props e) (e_props e')"

text \<open>Two edges with the same identifier, endpoints and label.\<close>

definition same_shape :: "Edge \<Rightarrow> Edge \<Rightarrow> bool" where
  "same_shape e e' \<longleftrightarrow> e_id e' = e_id e \<and> e_from e' = e_from e \<and> e_to e' = e_to e \<and> e_label e' = e_label e"

type_synonym graph_edges = "EdgeID \<rightharpoonup> Edge"
type_synonym lookup = "nat \<Rightarrow> bytes \<rightharpoonup> bytes"

definition rep_records :: "codec \<Rightarrow> nat \<Rightarrow> lookup \<Rightarrow> graph_edges \<Rightarrow> bool" where
  "rep_records C n E G \<longleftrightarrow>
     (\<forall>i < n. \<forall>k v. E i k = Some v \<longrightarrow>
        (\<exists>eid e e'. k = encodeEdgeID eid \<and> G eid = Some e \<and> route n (e_from e) = i \<and> decodeEdge C v = Inr e' \<and> edge_eq C e e')) \<and>
     (\<forall>eid e. G eid = Some e \<longrightarrow> E (route n (e_from e)) (encodeEdgeID eid) \<noteq> None \<and> e_id e = eid)"

definition rep_index :: "nat \<Rightarrow> (Edge \<Rightarrow> NodeID) \<Rightarrow> (Edge \<Rightarrow> bytes) \<Rightarrow> (Edge \<Rightarrow> bytes) \<Rightarrow> lookup \<Rightarrow> graph_edges \<Rightarrow> bool" where
  "rep_index n home key val T G \<longleftrightarrow>
     (\<forall>i < n. \<forall>k v. T i k = Some v \<longleftrightarrow> (\<exists>eid e. G eid = Some e \<and> route n (home e) = i \<and> k = key e \<and> v = val e))"

abbreviation outKey :: "Edge \<Rightarrow> bytes" where "outKey e \<equiv> encodeAdjKey (e_from e) (e_id e)"
abbreviation outVal :: "Edge \<Rightarrow> bytes" where "outVal e \<equiv> encodeAdjValue (e_to e) (e_label e)"
abbreviation inKey :: "Edge \<Rightarrow> bytes" where "inKey e \<equiv> encodeAdjKey (e_to e) (e_id e)"
abbreviation inVal :: "Edge \<Rightarrow> bytes" where "inVal e \<equiv> encodeAdjValue (e_from e) (e_label e)"
abbreviation typKey :: "Edge \<Rightarrow> bytes" where "typKey e \<equiv> encodeIndexKey (e_label e) (e_id e)"

definition put_at :: "nat \<Rightarrow> bytes \<Rightarrow> bytes option \<Rightarrow> lookup \<Rightarrow> lookup" where
  "put_at i k v T = T(i := (T i)(k := v))"

text \<open>The view of the four edge buckets of a list of shard files.\<close>

definition edges_rep :: "'b bolt \<Rightarrow> codec \<Rightarrow> 'b buckets list \<Rightarrow> graph_edges \<Rightarrow> bool" where
  "edges_rep B C ds G \<longleftrightarrow> ds \<noteq> [] \<and>
     rep_records C (length ds) (\<lambda>i. b_get B (bk_edges (ds ! i))) G \<and>
     rep_index (length ds) e_from outKey outVal (\<lambda>i. b_get B (bk_adj_out (ds ! i))) G \<and>
     rep_index (length ds) e_to inKey inVal (\<lambda>i. b_get B (bk_adj_in (ds ! i))) G \<and>
     rep_index (length ds) e_from typKey (\<lambda>_. []) (\<lambda>i. b_get B (bk_idx_edge_type (ds ! i))) G"

lemma edges_rep_out:
  assumes "edges_rep B C ds G" and "i < length ds"
  shows "b_get B (bk_adj_out (ds ! i)) k = Some v \<longleftrightarrow>
     (\<exists>eid e. G eid = Some e \<and> route (length ds) (e_from e) = i \<and> k = outKey e \<and> v = outVal e)"
  using assms unfolding edges_rep_def rep_index_def by simp

section \<open>Adding and removing one edge\<close>

definition compat :: "graph_edges \<Rightarrow> Edge \<Rightarrow> bool" where
  "compat G e \<longleftrightarrow> (\<forall>e0. G (e_id e) = Some e0 \<longrightarrow> same_shape e0 e)"

lemma compat_fresh: "G (e_id e) = None \<Longrightarrow> compat G e"
  by (simp add: compat_def)

lemma rep_records_put:
  assumes "rep_records C n E G" and "compat G e" and "decodeEdge C data = Inr e'" and "edge_eq C e e'"
    and "E' = put_at (route n (e_from e)) (encodeEdgeID (e_id e)) (Some data) E"
  shows "rep_records C n E' (G(e_id e \<mapsto> e))"
proof -
  let ?r = "route n (e_from e)" and ?k = "encodeEdgeID (e_id e)"
  have fwd: "\<exists>eid x e'. k = encodeEdgeID eid \<and> (G(e_id e \<mapsto> e)) eid = Some x \<and> route n (e_from x) = i \<and>
      decodeEdge C v = Inr e' \<and> edge_eq C x e'" if h: "i < n" "E' i k = Some v" for i k v
  proof (cases "i = ?r \<and> k = ?k")
    case True
    then have "v = data" using h assms(5) by (simp add: put_at_def)
    then show ?thesis using True assms(3,4) by (intro exI [of _ "e_id e"] exI [of _ e] exI [of _ e']) simp
  next
    case False
    then have "E i k = Some v" using h assms(5) by (auto simp: put_at_def split: if_splits)
    then obtain eid x x' where x: "k = encodeEdgeID eid" "G eid = Some x" "route n (e_from x) = i"
      "decodeEdge C v = Inr x'" "edge_eq C x x'"
      using assms(1) h(1) unfolding rep_records_def by blast
    have "eid \<noteq> e_id e"
    proof
      assume "eid = e_id e"
      then have "same_shape x e" using assms(2) x(2) by (simp add: compat_def)
      then show False using False x \<open>eid = e_id e\<close> by (simp add: same_shape_def)
    qed
    then show ?thesis using x by auto
  qed
  moreover have "E' (route n (e_from x)) (encodeEdgeID eid) \<noteq> None \<and> e_id x = eid"
    if "(G(e_id e \<mapsto> e)) eid = Some x" for eid x
    using that assms(1,5) unfolding rep_records_def put_at_def by (auto split: if_splits) metis
  ultimately show ?thesis unfolding rep_records_def by blast
qed

lemma rep_index_put:
  assumes "rep_index n home key val T G" and "compat G e"
    and inj: "\<And>x y. key x = key y \<Longrightarrow> e_id x = e_id y" and ids: "\<And>eid x. G eid = Some x \<Longrightarrow> e_id x = eid"
    and shape: "\<And>x y. same_shape x y \<Longrightarrow> key x = key y \<and> val x = val y \<and> home x = home y"
    and "T' = put_at (route n (home e)) (key e) (Some (val e)) T"
  shows "rep_index n home key val T' (G(e_id e \<mapsto> e))"
  unfolding rep_index_def
proof (intro allI impI)
  fix i k v assume i: "i < n"
  have old: "T i k = Some v \<longleftrightarrow> (\<exists>eid e. G eid = Some e \<and> route n (home e) = i \<and> k = key e \<and> v = val e)"
    using assms(1) i unfolding rep_index_def by blast
  show "T' i k = Some v \<longleftrightarrow>
      (\<exists>eid x. (G(e_id e \<mapsto> e)) eid = Some x \<and> route n (home x) = i \<and> k = key x \<and> v = val x)" (is "?L \<longleftrightarrow> ?R")
  proof (cases "i = route n (home e) \<and> k = key e")
    case True
    then have "?L \<longleftrightarrow> v = val e" using assms(6) by (auto simp: put_at_def)
    moreover have "?R \<longleftrightarrow> v = val e"
    proof
      assume ?R
      then obtain eid x where x: "(G(e_id e \<mapsto> e)) eid = Some x" "k = key x" "v = val x" by blast
      then have "e_id x = e_id e" using inj True by metis
      moreover have "eid = e_id e" using x(1) ids calculation by (auto split: if_splits)
      ultimately show "v = val e" using x by simp
    next
      assume "v = val e"
      then show ?R using True by auto
    qed
    ultimately show ?thesis by simp
  next
    case False
    then have "?L \<longleftrightarrow> T i k = Some v" using assms(6) by (auto simp: put_at_def)
    moreover have "?R \<longleftrightarrow> (\<exists>eid e. G eid = Some e \<and> route n (home e) = i \<and> k = key e \<and> v = val e)"
    proof
      assume ?R
      then show "\<exists>eid e. G eid = Some e \<and> route n (home e) = i \<and> k = key e \<and> v = val e"
        using False by (auto split: if_splits)
    next
      assume "\<exists>eid e. G eid = Some e \<and> route n (home e) = i \<and> k = key e \<and> v = val e"
      then obtain eid x where x: "G eid = Some x" "route n (home x) = i" "k = key x" "v = val x" by blast
      have "eid \<noteq> e_id e"
      proof
        assume "eid = e_id e"
        then have "same_shape x e" using assms(2) x(1) by (simp add: compat_def)
        then show False using False x shape by metis
      qed
      then show ?R using x by auto
    qed
    ultimately show ?thesis using old by simp
  qed
qed

lemma rep_records_del:
  assumes "rep_records C n E G" and "compat G e"
    and "E' = put_at (route n (e_from e)) (encodeEdgeID (e_id e)) None E"
  shows "rep_records C n E' (G(e_id e := None))"
proof -
  have fwd: "\<exists>eid x e'. k = encodeEdgeID eid \<and> (G(e_id e := None)) eid = Some x \<and> route n (e_from x) = i \<and>
      decodeEdge C v = Inr e' \<and> edge_eq C x e'" if h: "i < n" "E' i k = Some v" for i k v
  proof -
    have ne: "\<not> (i = route n (e_from e) \<and> k = encodeEdgeID (e_id e))" and "E i k = Some v"
      using h assms(3) by (auto simp: put_at_def split: if_splits)
    then obtain eid x x' where x: "k = encodeEdgeID eid" "G eid = Some x" "route n (e_from x) = i"
      "decodeEdge C v = Inr x'" "edge_eq C x x'"
      using assms(1) h(1) unfolding rep_records_def by blast
    have "eid \<noteq> e_id e"
    proof
      assume "eid = e_id e"
      then have "same_shape x e" using assms(2) x(2) by (simp add: compat_def)
      then show False using ne x \<open>eid = e_id e\<close> by (simp add: same_shape_def)
    qed
    then show ?thesis using x by auto
  qed
  moreover have "E' (route n (e_from x)) (encodeEdgeID eid) \<noteq> None \<and> e_id x = eid"
    if "(G(e_id e := None)) eid = Some x" for eid x
    using that assms(1,3) unfolding rep_records_def put_at_def by (auto split: if_splits) metis
  ultimately show ?thesis unfolding rep_records_def by blast
qed

lemma rep_index_del:
  assumes "rep_index n home key val T G" and "compat G e"
    and inj: "\<And>x y. key x = key y \<Longrightarrow> e_id x = e_id y" and ids: "\<And>eid x. G eid = Some x \<Longrightarrow> e_id x = eid"
    and shape: "\<And>x y. same_shape x y \<Longrightarrow> key x = key y \<and> val x = val y \<and> home x = home y"
    and "T' = put_at (route n (home e)) (key e) None T"
  shows "rep_index n home key val T' (G(e_id e := None))"
  unfolding rep_index_def
proof (intro allI impI)
  fix i k v assume i: "i < n"
  have old: "T i k = Some v \<longleftrightarrow> (\<exists>eid e. G eid = Some e \<and> route n (home e) = i \<and> k = key e \<and> v = val e)"
    using assms(1) i unfolding rep_index_def by blast
  show "T' i k = Some v \<longleftrightarrow>
      (\<exists>eid x. (G(e_id e := None)) eid = Some x \<and> route n (home x) = i \<and> k = key x \<and> v = val x)" (is "?L \<longleftrightarrow> ?R")
  proof (cases "i = route n (home e) \<and> k = key e")
    case True
    then have "\<not> ?L" using assms(6) by (simp add: put_at_def)
    moreover have "\<not> ?R"
    proof
      assume ?R
      then obtain eid x where x: "(G(e_id e := None)) eid = Some x" "k = key x" by blast
      then have "eid \<noteq> e_id e" "e_id x = eid" using ids by (auto split: if_splits)
      moreover have "e_id x = e_id e" using inj True x(2) by metis
      ultimately show False by simp
    qed
    ultimately show ?thesis by simp
  next
    case False
    then have "?L \<longleftrightarrow> T i k = Some v" using assms(6) by (auto simp: put_at_def)
    moreover have "eid \<noteq> e_id e" if "G eid = Some x" "route n (home x) = i" "k = key x" for eid x
    proof
      assume "eid = e_id e"
      then have "same_shape x e" using assms(2) that(1) by (simp add: compat_def)
      then show False using False that shape by metis
    qed
    then have "?R \<longleftrightarrow> (\<exists>eid e. G eid = Some e \<and> route n (home e) = i \<and> k = key e \<and> v = val e)"
      by (auto split: if_splits)
    ultimately show ?thesis using old by simp
  qed
qed

section \<open>Transactions as updates of the view\<close>

lemma view_put:
  assumes "i < length ds" and "b_get B (f d') = (b_get B (f (ds ! i)))(k := v)"
  shows "(\<lambda>j. b_get B (f (ds[i := d'] ! j))) = put_at i k v (\<lambda>j. b_get B (f (ds ! j)))"
  using assms by (auto simp: put_at_def fun_eq_iff nth_list_update)

lemma view_same:
  assumes "b_get B (f d') = b_get B (f (ds ! i))"
  shows "(\<lambda>j. b_get B (f (ds[i := d'] ! j))) = (\<lambda>j. b_get B (f (ds ! j)))"
proof -
  have "b_get B (f (ds[i := d'] ! j)) = b_get B (f (ds ! j))" for j
    using assms by (cases "i < length ds") (auto simp: nth_list_update list_update_beyond)
  then show ?thesis by simp
qed

lemma edge_key_facts:
  "outKey x = outKey y \<Longrightarrow> e_id x = e_id y" "inKey x = inKey y \<Longrightarrow> e_id x = e_id y"
  "typKey x = typKey y \<Longrightarrow> e_id x = e_id y"
  by (simp_all add: encodeIndexKey_inject)

lemma edge_shape_facts:
  "same_shape x y \<Longrightarrow> outKey x = outKey y \<and> outVal x = outVal y \<and> e_from x = e_from y"
  "same_shape x y \<Longrightarrow> inKey x = inKey y \<and> inVal x = inVal y \<and> e_to x = e_to y"
  "same_shape x y \<Longrightarrow> typKey x = typKey y \<and> ([] :: bytes) = [] \<and> e_from x = e_from y"
  by (simp_all add: same_shape_def)

lemma rep_records_ids: "rep_records C n E G \<Longrightarrow> G eid = Some x \<Longrightarrow> e_id x = eid"
  by (simp add: rep_records_def)

text \<open>Putting the four entries of an edge into their places represents the graph with the edge.\<close>

lemma edges_rep_put:
  assumes rep: "edges_rep B C ds G" and "compat G e" and "decodeEdge C data = Inr e'" and "edge_eq C e e'"
    and len: "length ds' = length ds"
    and E: "(\<lambda>j. b_get B (bk_edges (ds' ! j))) = put_at (route (length ds) (e_from e)) (encodeEdgeID (e_id e)) (Some data) (\<lambda>j. b_get B (bk_edges (ds ! j)))"
    and O: "(\<lambda>j. b_get B (bk_adj_out (ds' ! j))) = put_at (route (length ds) (e_from e)) (outKey e) (Some (outVal e)) (\<lambda>j. b_get B (bk_adj_out (ds ! j)))"
    and I: "(\<lambda>j. b_get B (bk_adj_in (ds' ! j))) = put_at (route (length ds) (e_to e)) (inKey e) (Some (inVal e)) (\<lambda>j. b_get B (bk_adj_in (ds ! j)))"
    and X: "(\<lambda>j. b_get B (bk_idx_edge_type (ds' ! j))) = put_at (route (length ds) (e_from e)) (typKey e) (Some []) (\<lambda>j. b_get B (bk_idx_edge_type (ds ! j)))"
  shows "edges_rep B C ds' (G(e_id e \<mapsto> e))"
proof -
  note r = rep [unfolded edges_rep_def]
  have ids: "\<And>eid x. G eid = Some x \<Longrightarrow> e_id x = eid" using r rep_records_ids by blast
  show ?thesis unfolding edges_rep_def len E O I X
    apply (intro conjI)
    subgoal using r len by auto
    subgoal by (rule rep_records_put [OF _ assms(2-4)]) (use r in auto)
    subgoal by (rule rep_index_put [where home = e_from and key = "\<lambda>e. outKey e" and val = "\<lambda>e. outVal e", OF _ assms(2)],
      use r ids in \<open>auto simp: same_shape_def encodeIndexKey_inject\<close>)
    subgoal by (rule rep_index_put [where home = e_to and key = "\<lambda>e. inKey e" and val = "\<lambda>e. inVal e", OF _ assms(2)],
      use r ids in \<open>auto simp: same_shape_def encodeIndexKey_inject\<close>)
    subgoal by (rule rep_index_put [where home = e_from and key = "\<lambda>e. typKey e" and val = "\<lambda>e. []", OF _ assms(2)],
      use r ids in \<open>auto simp: same_shape_def encodeIndexKey_inject\<close>)
    done
qed

lemma edges_rep_del:
  assumes rep: "edges_rep B C ds G" and "compat G e"
    and len: "length ds' = length ds"
    and E: "(\<lambda>j. b_get B (bk_edges (ds' ! j))) = put_at (route (length ds) (e_from e)) (encodeEdgeID (e_id e)) None (\<lambda>j. b_get B (bk_edges (ds ! j)))"
    and O: "(\<lambda>j. b_get B (bk_adj_out (ds' ! j))) = put_at (route (length ds) (e_from e)) (outKey e) None (\<lambda>j. b_get B (bk_adj_out (ds ! j)))"
    and I: "(\<lambda>j. b_get B (bk_adj_in (ds' ! j))) = put_at (route (length ds) (e_to e)) (inKey e) None (\<lambda>j. b_get B (bk_adj_in (ds ! j)))"
    and X: "(\<lambda>j. b_get B (bk_idx_edge_type (ds' ! j))) = put_at (route (length ds) (e_from e)) (typKey e) None (\<lambda>j. b_get B (bk_idx_edge_type (ds ! j)))"
  shows "edges_rep B C ds' (G(e_id e := None))"
proof -
  note r = rep [unfolded edges_rep_def]
  have ids: "\<And>eid x. G eid = Some x \<Longrightarrow> e_id x = eid" using r rep_records_ids by blast
  show ?thesis unfolding edges_rep_def len E O I X
    apply (intro conjI)
    subgoal using r len by auto
    subgoal by (rule rep_records_del [OF _ assms(2)]) (use r in auto)
    subgoal by (rule rep_index_del [where home = e_from and key = "\<lambda>e. outKey e" and val = "\<lambda>e. outVal e", OF _ assms(2)],
      use r ids in \<open>auto simp: same_shape_def encodeIndexKey_inject\<close>)
    subgoal by (rule rep_index_del [where home = e_to and key = "\<lambda>e. inKey e" and val = "\<lambda>e. inVal e", OF _ assms(2)],
      use r ids in \<open>auto simp: same_shape_def encodeIndexKey_inject\<close>)
    subgoal by (rule rep_index_del [where home = e_from and key = "\<lambda>e. typKey e" and val = "\<lambda>e. []", OF _ assms(2)],
      use r ids in \<open>auto simp: same_shape_def encodeIndexKey_inject\<close>)
    done
qed

text \<open>Steps that leave the edge buckets alone keep the represented edges.\<close>

definition edge_frame :: "'b bolt \<Rightarrow> 'b buckets \<Rightarrow> 'b buckets \<Rightarrow> bool" where
  "edge_frame B d d' \<longleftrightarrow> b_get B (bk_edges d') = b_get B (bk_edges d) \<and> b_get B (bk_adj_out d') = b_get B (bk_adj_out d) \<and>
     b_get B (bk_adj_in d') = b_get B (bk_adj_in d) \<and> b_get B (bk_idx_edge_type d') = b_get B (bk_idx_edge_type d)"

lemma edges_rep_frame:
  "edges_rep B C ds G \<Longrightarrow> edge_frame B (ds ! i) d' \<Longrightarrow> edges_rep B C (ds[i := d']) G"
  by (simp add: edges_rep_def edge_frame_def view_same)

context bolt_laws
begin

lemma addEdgeSameTx_view:
  assumes "addEdgeSameTx B C e d = Inr d'"
  obtains data where "encodeEdge C e = Inr data"
    and "b_get B (bk_edges d') = (b_get B (bk_edges d))(encodeEdgeID (e_id e) := Some data)"
    and "b_get B (bk_adj_out d') = (b_get B (bk_adj_out d))(outKey e := Some (outVal e))"
    and "b_get B (bk_adj_in d') = (b_get B (bk_adj_in d))(inKey e := Some (inVal e))"
    and "b_get B (bk_idx_edge_type d') = (b_get B (bk_idx_edge_type d))(typKey e := Some [])"
  using assms by (auto simp: addEdgeSameTx_def dest!: get_put)

lemma addEdgeSrcTx_view:
  assumes "addEdgeSrcTx B C e d = Inr d'"
  obtains data where "encodeEdge C e = Inr data"
    and "b_get B (bk_edges d') = (b_get B (bk_edges d))(encodeEdgeID (e_id e) := Some data)"
    and "b_get B (bk_adj_out d') = (b_get B (bk_adj_out d))(outKey e := Some (outVal e))"
    and "b_get B (bk_adj_in d') = b_get B (bk_adj_in d)"
    and "b_get B (bk_idx_edge_type d') = (b_get B (bk_idx_edge_type d))(typKey e := Some [])"
  using assms by (auto simp: addEdgeSrcTx_def dest!: get_put)

lemma addEdgeDstTx_view:
  assumes "addEdgeDstTx B e d = Inr d'"
  shows "b_get B (bk_adj_in d') = (b_get B (bk_adj_in d))(inKey e := Some (inVal e))"
    and "d' = d\<lparr>bk_adj_in := bk_adj_in d'\<rparr>"
  using assms by (auto simp: addEdgeDstTx_def dest!: get_put)

lemma delEdgeSrcTx_view:
  assumes "delEdgeSrcTx B e d = Inr d'"
  shows "b_get B (bk_edges d') = (b_get B (bk_edges d))(encodeEdgeID (e_id e) := None)"
    and "b_get B (bk_adj_out d') = (b_get B (bk_adj_out d))(outKey e := None)"
    and "b_get B (bk_adj_in d') = b_get B (bk_adj_in d)"
    and "b_get B (bk_idx_edge_type d') = (b_get B (bk_idx_edge_type d))(typKey e := None)"
  using assms by (auto simp: delEdgeSrcTx_def dest!: get_del)

lemma delEdgeDstTx_view:
  assumes "delEdgeDstTx B e d = Inr d'"
  shows "b_get B (bk_adj_in d') = (b_get B (bk_adj_in d))(inKey e := None)"
    and "d' = d\<lparr>bk_adj_in := bk_adj_in d'\<rparr>"
  using assms by (auto simp: delEdgeDstTx_def dest!: get_del)

end

section \<open>Operations on the represented edges\<close>

text \<open>The storage layer: bbolt with a record codec.\<close>

locale graph_store = bolt_laws B + codec_laws C for B :: "'b bolt" and C :: codec
begin

lemma encodeEdge_decodes:
  "encodeEdge C e = Inr data \<Longrightarrow> length (e_label e) < 2 ^ 32 \<Longrightarrow> \<exists>e'. decodeEdge C data = Inr e' \<and> edge_eq C e e'"
  using decodeEdge_encodeEdge [of e data] by (auto simp: edge_eq_def)

lemma typKey_limit: "b_put B b (typKey e) v = Inr b' \<Longrightarrow> length (e_label e) < 2 ^ 32"
  using put_limit [of b "typKey e" v b'] by (simp add: encodeIndexKey_def)

lemma edges_rep_addSame:
  assumes "edges_rep B C ds G" and "compat G e" and "i = route (length ds) (e_from e)" and "i = route (length ds) (e_to e)"
    and "addEdgeSameTx B C e (ds ! i) = Inr d'"
  shows "edges_rep B C (ds[i := d']) (G(e_id e \<mapsto> e))"
proof -
  have i: "i < length ds" using assms by (simp add: edges_rep_def route_less)
  obtain data where data: "encodeEdge C e = Inr data" and v:
    "b_get B (bk_edges d') = (b_get B (bk_edges (ds ! i)))(encodeEdgeID (e_id e) := Some data)"
    "b_get B (bk_adj_out d') = (b_get B (bk_adj_out (ds ! i)))(outKey e := Some (outVal e))"
    "b_get B (bk_adj_in d') = (b_get B (bk_adj_in (ds ! i)))(inKey e := Some (inVal e))"
    "b_get B (bk_idx_edge_type d') = (b_get B (bk_idx_edge_type (ds ! i)))(typKey e := Some [])"
    using addEdgeSameTx_view [OF assms(5)] .
  have "length (e_label e) < 2 ^ 32" using assms(5) typKey_limit by (auto simp: addEdgeSameTx_def)
  then obtain e' where e': "decodeEdge C data = Inr e'" "edge_eq C e e'" using encodeEdge_decodes [OF data] by blast
  show ?thesis
    by (rule edges_rep_put [OF assms(1,2) e'])
       (use v i assms(3,4) in \<open>simp_all add: view_put [where k = "encodeEdgeID (e_id e)"] view_put\<close>)
qed

lemma edges_rep_addSplit:
  assumes "edges_rep B C ds G" and "compat G e" and i: "i = route (length ds) (e_from e)" and j: "j = route (length ds) (e_to e)"
    and "i \<noteq> j" and "addEdgeSrcTx B C e (ds ! i) = Inr d1" and "addEdgeDstTx B e (ds ! j) = Inr d2"
  shows "edges_rep B C (ds[i := d1, j := d2]) (G(e_id e \<mapsto> e))"
proof -
  have ij: "i < length ds" "j < length ds" using assms by (simp_all add: edges_rep_def route_less)
  obtain data where data: "encodeEdge C e = Inr data" and v:
    "b_get B (bk_edges d1) = (b_get B (bk_edges (ds ! i)))(encodeEdgeID (e_id e) := Some data)"
    "b_get B (bk_adj_out d1) = (b_get B (bk_adj_out (ds ! i)))(outKey e := Some (outVal e))"
    "b_get B (bk_adj_in d1) = b_get B (bk_adj_in (ds ! i))"
    "b_get B (bk_idx_edge_type d1) = (b_get B (bk_idx_edge_type (ds ! i)))(typKey e := Some [])"
    using addEdgeSrcTx_view [OF assms(6)] .
  note v2 = addEdgeDstTx_view [OF assms(7)]
  have v3: "bk_edges d2 = bk_edges (ds ! j)" "bk_adj_out d2 = bk_adj_out (ds ! j)" "bk_idx_edge_type d2 = bk_idx_edge_type (ds ! j)"
    by (subst v2(2), simp)+
  have "length (e_label e) < 2 ^ 32" using assms(6) typKey_limit by (auto simp: addEdgeSrcTx_def)
  then obtain e' where e': "decodeEdge C data = Inr e'" "edge_eq C e e'" using encodeEdge_decodes [OF data] by blast
  have nth: "ds[i := d1] ! j = ds ! j" using assms(5) by simp
  show ?thesis
  proof (rule edges_rep_put [OF assms(1,2) e'])
    show "(\<lambda>k. b_get B (bk_edges (ds[i := d1, j := d2] ! k))) = put_at (route (length ds) (e_from e)) (encodeEdgeID (e_id e)) (Some data) (\<lambda>k. b_get B (bk_edges (ds ! k)))"
      by (subst view_same) (use v3 nth v ij i in \<open>simp_all add: view_put\<close>)
    show "(\<lambda>k. b_get B (bk_adj_out (ds[i := d1, j := d2] ! k))) = put_at (route (length ds) (e_from e)) (outKey e) (Some (outVal e)) (\<lambda>k. b_get B (bk_adj_out (ds ! k)))"
      by (subst view_same) (use v3 nth v ij i in \<open>simp_all add: view_put\<close>)
    show "(\<lambda>k. b_get B (bk_idx_edge_type (ds[i := d1, j := d2] ! k))) = put_at (route (length ds) (e_from e)) (typKey e) (Some []) (\<lambda>k. b_get B (bk_idx_edge_type (ds ! k)))"
      by (subst view_same) (use v3 nth v ij i in \<open>simp_all add: view_put\<close>)
    show "(\<lambda>k. b_get B (bk_adj_in (ds[i := d1, j := d2] ! k))) = put_at (route (length ds) (e_to e)) (inKey e) (Some (inVal e)) (\<lambda>k. b_get B (bk_adj_in (ds ! k)))"
      by (subst view_put [where k = "inKey e" and v = "Some (inVal e)"]) (use v2(1) nth v ij j in \<open>simp_all add: view_same\<close>)
  qed simp
qed

lemma edges_rep_delete:
  assumes "edges_rep B C ds G" and "compat G e" and i: "i = route (length ds) (e_from e)" and j: "j = route (length ds) (e_to e)"
    and "delEdgeSrcTx B e (ds ! i) = Inr d1" and "delEdgeDstTx B e (ds[i := d1] ! j) = Inr d2"
  shows "edges_rep B C (ds[i := d1, j := d2]) (G(e_id e := None))"
proof -
  have ij: "i < length ds" "j < length ds" using assms by (simp_all add: edges_rep_def route_less)
  note v = delEdgeSrcTx_view [OF assms(5)] and v2 = delEdgeDstTx_view [OF assms(6)]
  have v3: "bk_edges d2 = bk_edges (ds[i := d1] ! j)" "bk_adj_out d2 = bk_adj_out (ds[i := d1] ! j)"
    "bk_idx_edge_type d2 = bk_idx_edge_type (ds[i := d1] ! j)"
    by (subst v2(2), simp)+
  show ?thesis
  proof (rule edges_rep_del [OF assms(1,2)])
    show "(\<lambda>k. b_get B (bk_edges (ds[i := d1, j := d2] ! k))) = put_at (route (length ds) (e_from e)) (encodeEdgeID (e_id e)) None (\<lambda>k. b_get B (bk_edges (ds ! k)))"
      by (subst view_same) (use v3 v ij i in \<open>simp_all add: view_put\<close>)
    show "(\<lambda>k. b_get B (bk_adj_out (ds[i := d1, j := d2] ! k))) = put_at (route (length ds) (e_from e)) (outKey e) None (\<lambda>k. b_get B (bk_adj_out (ds ! k)))"
      by (subst view_same) (use v3 v ij i in \<open>simp_all add: view_put\<close>)
    show "(\<lambda>k. b_get B (bk_idx_edge_type (ds[i := d1, j := d2] ! k))) = put_at (route (length ds) (e_from e)) (typKey e) None (\<lambda>k. b_get B (bk_idx_edge_type (ds ! k)))"
      by (subst view_same) (use v3 v ij i in \<open>simp_all add: view_put\<close>)
    show "(\<lambda>k. b_get B (bk_adj_in (ds[i := d1, j := d2] ! k))) = put_at (route (length ds) (e_to e)) (inKey e) None (\<lambda>k. b_get B (bk_adj_in (ds ! k)))"
      by (subst view_put [where k = "inKey e" and v = None]) (use v2(1) v ij j in \<open>simp_all add: view_same\<close>)
  qed simp
qed

end

lemma dbAllocEdgeID_eq: "fst (dbAllocEdgeID db) = nextEdgeID (primaryShard db) + 1"
  by (simp add: dbAllocEdgeID_def allocEdgeID_def Let_def)

lemma files_bloomAddDB [simp]: "files (bloomAddDB a b db) = files db"
  by (simp add: bloomAddDB_def)

context graph_store
begin

lemma AddEdge_rep:
  assumes "AddEdge B C W from to label props db = (Inr i, db')" and "edges_rep B C (files db) G"
    and "G (nextEdgeID (primaryShard db) + 1) = None"
  shows "i = nextEdgeID (primaryShard db) + 1 \<and>
    edges_rep B C (files db') (G(i \<mapsto> \<lparr>e_id = i, e_from = from, e_to = to, e_label = label, e_props = props\<rparr>))"
proof -
  obtain i0 db0 where al: "dbAllocEdgeID db = (i0, db0)" by (cases "dbAllocEdgeID db")
  have i0: "i0 = nextEdgeID (primaryShard db) + 1" using al dbAllocEdgeID_eq [of db] by simp
  have f0: "files db0 = files db" "length (db_shards db0) = length (db_shards db)"
    using al files_alloc(2) [of db] length_shards_simps(3) [of db] by simp_all
  let ?e = "\<lparr>e_id = i0, e_from = from, e_to = to, e_label = label, e_props = props\<rparr>"
  let ?n = "length (db_shards db)"
  let ?src = "route ?n from" and ?dst = "route ?n to"
  have ne: "0 < ?n" using assms(2) by (auto simp: edges_rep_def files_def)
  have bk: "files db ! ?src = bucketsOf db0 ?src"
    using files_nth [of ?src db0] f0 ne by (simp add: route_less)
  have sh: "shardForEdge db0 from = ?src" "shardFor db0 to = ?dst"
    using f0 by (simp_all add: shardForEdge_def shardFor_route)
  have cp: "compat G ?e" using assms(3) i0 by (simp add: compat_def)
  show ?thesis
  proof (cases "?src = ?dst")
    case True
    then obtain db1 where w: "writeUpdate ?src (addEdgeSameTx B C ?e) db0 = (Inr (), db1)"
      and r: "i = i0" "db' = bloomAddDB from to (walAppend W (WALAddEdge i0 from to label props) (updShard ?src (addEdgeCount 1) db1))"
      using guarded_Inr [OF assms(1) [unfolded AddEdge_def]] al sh
      by (auto simp: Let_def split: sum.splits prod.splits)
    obtain d where d: "addEdgeSameTx B C ?e (bucketsOf db0 ?src) = Inr d" and db1: "files db1 = (files db)[?src := d]"
      using writeUpdate_Inr [OF w] f0 by (metis files_fields(1) files_updShard_data)
    have "edges_rep B C ((files db)[?src := d]) (G(e_id ?e \<mapsto> ?e))"
      by (rule edges_rep_addSame [OF assms(2) cp]) (use d bk True in simp_all)
    then show ?thesis using r i0 db1 by simp
  next
    case False
    then obtain db1 db3 where w: "writeUpdate ?src (addEdgeSrcTx B C ?e) db0 = (Inr (), db1)"
      and w2: "writeUpdate ?dst (addEdgeDstTx B ?e) (updShard ?src (addEdgeCount 1) db1) = (Inr (), db3)"
      and r: "i = i0" "db' = bloomAddDB from to (walAppend W (WALAddEdge i0 from to label props) db3)"
      using guarded_Inr [OF assms(1) [unfolded AddEdge_def]] al sh
      by (auto simp: Let_def split: sum.splits prod.splits)
    obtain d where d: "addEdgeSrcTx B C ?e (bucketsOf db0 ?src) = Inr d" and db1: "files db1 = (files db)[?src := d]"
      using writeUpdate_Inr [OF w] f0 by (metis files_fields(1) files_updShard_data)
    have len1: "length (db_shards db1) = ?n" using arg_cong [OF db1, of length] by simp
    have bk2: "bucketsOf (updShard ?src (addEdgeCount 1) db1) ?dst = files db ! ?dst"
      using files_nth [of ?dst "updShard ?src (addEdgeCount 1) db1"] len1 ne db1 False by (simp add: route_less)
    obtain d2 where d2: "addEdgeDstTx B ?e (files db ! ?dst) = Inr d2" and db3: "files db3 = (files db)[?src := d, ?dst := d2]"
      using writeUpdate_Inr [OF w2] bk2 db1 by (metis files_counts(2) files_fields(1) files_updShard_data)
    have "edges_rep B C ((files db)[?src := d, ?dst := d2]) (G(e_id ?e \<mapsto> ?e))"
      by (rule edges_rep_addSplit [OF assms(2) cp]) (use d bk d2 False in simp_all)
    then show ?thesis using r i0 db3 by simp
  qed
qed

lemma deleteEdgeInternal_rep:
  assumes "deleteEdgeInternal B W e db = (Inr u, db')" and "edges_rep B C (files db) G" and "compat G e"
  shows "edges_rep B C (files db') (G(e_id e := None)) \<and> length (db_shards db') = length (db_shards db)"
proof -
  let ?n = "length (db_shards db)"
  let ?src = "route ?n (e_from e)" and ?dst = "route ?n (e_to e)"
  have ne: "0 < ?n" using assms(2) by (auto simp: edges_rep_def files_def)
  have sh: "shardForEdge db (e_from e) = ?src" "shardFor db (e_to e) = ?dst"
    by (simp_all add: shardForEdge_def shardFor_route)
  have same: "(if ?dst = ?src then ?src else ?dst) = ?dst" by simp
  obtain db1 db3 where w: "writeUpdate ?src (delEdgeSrcTx B e) db = (Inr (), db1)"
    and w2: "writeUpdate ?dst (delEdgeDstTx B e) (updShard ?src (addEdgeCount (- 1)) db1) = (Inr (), db3)"
    and r: "db' = walAppend W (WALDeleteEdge (e_id e) (e_from e) (e_to e) (e_label e)) db3"
    using assms(1) unfolding deleteEdgeInternal_def Let_def sh same by (auto split: sum.splits prod.splits)
  obtain d where d: "delEdgeSrcTx B e (bucketsOf db ?src) = Inr d" and db1: "files db1 = (files db)[?src := d]"
    using writeUpdate_Inr [OF w] by (metis files_fields(1) files_updShard_data)
  have len1: "length (db_shards db1) = ?n" using arg_cong [OF db1, of length] by simp
  have bk2: "bucketsOf (updShard ?src (addEdgeCount (- 1)) db1) ?dst = (files db)[?src := d] ! ?dst"
    using files_nth [of ?dst "updShard ?src (addEdgeCount (- 1)) db1"] len1 ne db1 by (simp add: route_less)
  obtain d2 where d2: "delEdgeDstTx B e ((files db)[?src := d] ! ?dst) = Inr d2" and db3: "files db3 = (files db)[?src := d, ?dst := d2]"
    using writeUpdate_Inr [OF w2] bk2 db1 by (metis files_counts(2) files_fields(1) files_updShard_data)
  have "edges_rep B C ((files db)[?src := d, ?dst := d2]) (G(e_id e := None))"
    by (rule edges_rep_delete [OF assms(2,3)]) (use d d2 files_nth [of ?src db] ne in \<open>simp_all add: route_less\<close>)
  moreover have "length (db_shards db3) = ?n" using db3 by (metis length_files length_list_update)
  ultimately show ?thesis using r db3 by simp
qed

lemma delEdge_txs_ok: "\<exists>d'. delEdgeSrcTx B e d = Inr d'" "\<exists>d'. delEdgeDstTx B e d = Inr d'"
proof -
  have del: "\<exists>b'. b_del B b k = Inr b'" for b k by (rule del_ok)
  obtain x y z where "b_del B (bk_edges d) (encodeEdgeID (e_id e)) = Inr x" "b_del B (bk_adj_out d) (outKey e) = Inr y"
    "b_del B (bk_idx_edge_type d) (typKey e) = Inr z" using del by meson
  then show "\<exists>d'. delEdgeSrcTx B e d = Inr d'" by (simp add: delEdgeSrcTx_def)
  obtain x where "b_del B (bk_adj_in d) (inKey e) = Inr x" using del by meson
  then show "\<exists>d'. delEdgeDstTx B e d = Inr d'" by (simp add: delEdgeDstTx_def)
qed

lemma writeUpdate_succeeds:
  "fn (bucketsOf db i) = Inr d \<Longrightarrow> db_faults db = [] \<Longrightarrow> \<exists>db'. writeUpdate i fn db = (Inr (), db') \<and> db_faults db' = []"
  by (simp add: writeUpdate_def updShard_def)

lemma deleteEdgeInternal_ok:
  assumes "db_faults db = []"
  shows "\<exists>db'. deleteEdgeInternal B W e db = (Inr (), db') \<and> db_faults db' = []"
proof -
  let ?src = "shardForEdge db (e_from e)" and ?dst = "shardFor db (e_to e)"
  obtain db1 where w1: "writeUpdate ?src (delEdgeSrcTx B e) db = (Inr (), db1)" "db_faults db1 = []"
    using delEdge_txs_ok(1) writeUpdate_succeeds assms by metis
  then have f2: "db_faults (updShard ?src (addEdgeCount (- 1)) db1) = []" by (simp add: updShard_def)
  obtain db3 where w3: "writeUpdate (if ?dst = ?src then ?src else ?dst) (delEdgeDstTx B e) (updShard ?src (addEdgeCount (- 1)) db1) = (Inr (), db3)"
      "db_faults db3 = []"
    using delEdge_txs_ok(2) writeUpdate_succeeds f2 by metis
  show ?thesis using w1 w3 by (simp add: deleteEdgeInternal_def Let_def walAppend_def split: option.splits sum.splits)
qed

text \<open>Reading an edge record by its identifier.\<close>

lemma rep_lookup:
  assumes "edges_rep B C ds G" and "i < length ds" and "b_get B (bk_edges (ds ! i)) (encodeEdgeID eid) = Some data"
  shows "\<exists>e e'. G eid = Some e \<and> route (length ds) (e_from e) = i \<and> decodeEdge C data = Inr e' \<and> edge_eq C e e'"
  using assms by (fastforce simp: edges_rep_def rep_records_def)

lemma rep_present:
  assumes "edges_rep B C ds G" and "G eid = Some e"
  shows "\<exists>data e'. b_get B (bk_edges (ds ! route (length ds) (e_from e))) (encodeEdgeID eid) = Some data \<and>
     decodeEdge C data = Inr e' \<and> edge_eq C e e' \<and> e_id e = eid"
proof -
  have "0 < length ds" using assms(1) by (auto simp: edges_rep_def)
  then have lt: "route (length ds) (e_from e) < length ds" by (rule route_less)
  obtain data where data: "b_get B (bk_edges (ds ! route (length ds) (e_from e))) (encodeEdgeID eid) = Some data" and "e_id e = eid"
    using assms by (fastforce simp: edges_rep_def rep_records_def)
  then show ?thesis using rep_lookup [OF assms(1) lt data] assms(2) by auto
qed

lemma getEdge_rep:
  assumes "edges_rep B C (files db) G" and "\<not> db_closed db"
  shows "case G eid of None \<Rightarrow> getEdge B C eid db = Inl (ErrEdgeNotFound eid)
    | Some e \<Rightarrow> (\<exists>e'. getEdge B C eid db = Inr e' \<and> edge_eq C e e')"
proof -
  have in_shard: "\<exists>e e'. G eid = Some e \<and> decodeEdge C data = Inr e' \<and> edge_eq C e e'"
    if h: "s \<in> set (db_shards db)" "b_get B (bk_edges (s_data s)) (encodeEdgeID eid) = Some data" for s data
  proof -
    obtain i where i: "i < length (db_shards db)" "db_shards db ! i = s" using h(1) by (auto simp: in_set_conv_nth)
    then have "b_get B (bk_edges (files db ! i)) (encodeEdgeID eid) = Some data" using h(2) by (simp add: files_nth)
    from rep_lookup [OF assms(1) _ this] show ?thesis using i by auto
  qed
  have walk: "set ss \<subseteq> set (db_shards db) \<Longrightarrow>
      (\<forall>s \<in> set ss. b_get B (bk_edges (s_data s)) (encodeEdgeID eid) = None) \<and> getEdgeIn B C eid ss = Inl (ErrEdgeNotFound eid) \<or>
      (\<exists>e e'. G eid = Some e \<and> getEdgeIn B C eid ss = Inr e' \<and> edge_eq C e e')" for ss
  proof (induction ss)
    case (Cons s ss)
    then show ?case
    proof (cases "b_get B (bk_edges (s_data s)) (encodeEdgeID eid)")
      case (Some data)
      then show ?thesis using in_shard [of s data] Cons.prems by auto
    qed auto
  qed simp
  show ?thesis
  proof (cases "G eid")
    case None
    then show ?thesis using walk [of "db_shards db"] assms(2) by (auto simp: getEdge_def viewing_def)
  next
    case (Some e)
    obtain data where "b_get B (bk_edges (files db ! route (length (files db)) (e_from e))) (encodeEdgeID eid) = Some data"
      using rep_present [OF assms(1) Some] by blast
    moreover have lt: "route (length (files db)) (e_from e) < length (db_shards db)"
      using assms(1) by (simp add: edges_rep_def) (simp add: files_def route_less)
    ultimately have "\<not> (\<forall>s \<in> set (db_shards db). b_get B (bk_edges (s_data s)) (encodeEdgeID eid) = None)"
      by (metis files_nth nth_mem option.distinct(1))
    then show ?thesis using walk [of "db_shards db"] assms(2) Some by (auto simp: getEdge_def viewing_def)
  qed
qed

end

section \<open>Adjacency reads\<close>

text \<open>A list of edges holds exactly the edges of the graph that satisfy a predicate, each once.\<close>

definition edges_match :: "codec \<Rightarrow> Edge list \<Rightarrow> graph_edges \<Rightarrow> (Edge \<Rightarrow> bool) \<Rightarrow> bool" where
  "edges_match C es G P \<longleftrightarrow> distinct (map e_id es) \<and>
     (\<forall>e' \<in> set es. \<exists>e. G (e_id e') = Some e \<and> P e \<and> edge_eq C e e') \<and>
     (\<forall>eid e. G eid = Some e \<and> P e \<longrightarrow> eid \<in> e_id ` set es)"

lemma edges_match_concat:
  assumes single: "\<And>x. x \<in> set xs \<Longrightarrow> \<exists>e e'. g x = [e'] \<and> G (k x) = Some e \<and> e_id e = k x \<and> P e \<and> edge_eq C e e'"
    and "distinct (map k xs)" and complete: "\<And>eid e. G eid = Some e \<Longrightarrow> P e \<Longrightarrow> eid \<in> k ` set xs"
  shows "edges_match C (concat (map g xs)) G P"
proof -
  have ids: "e_id e' = k x" if "x \<in> set xs" "e' \<in> set (g x)" for x e'
    using single [OF that(1)] that(2) by (auto simp: edge_eq_def)
  have "map e_id (concat (map g xs)) = map k xs"
  proof -
    have "map e_id (concat (map g ys)) = map k ys" if "set ys \<subseteq> set xs" for ys
      using that
    proof (induction ys)
      case (Cons y ys)
      then obtain e' where "g y = [e']" using single [of y] by auto
      then show ?case using Cons ids [of y e'] by auto
    qed simp
    then show ?thesis by simp
  qed
  moreover have "\<exists>e. G (e_id e') = Some e \<and> P e \<and> edge_eq C e e'" if h: "e' \<in> set (concat (map g xs))" for e'
  proof -
    obtain x where x: "x \<in> set xs" "e' \<in> set (g x)" using h by auto
    then show ?thesis using single [OF x(1)] ids [OF x] by auto
  qed
  moreover have "eid \<in> e_id ` set (concat (map g xs))" if "G eid = Some e" "P e" for eid e
  proof -
    have "eid \<in> set (map k xs)" using complete [OF that] by simp
    then show ?thesis using calculation(1) by (metis list.set_map)
  qed
  ultimately show ?thesis using assms(2) by (simp add: edges_match_def)
qed

lemma mset_concat_filter:
  "distinct is \<Longrightarrow> mset (concat (map (\<lambda>i. filter (\<lambda>x. f x = i) xs) is)) = mset (filter (\<lambda>x. f x \<in> set is) xs)"
proof (induction "is")
  case (Cons i "is")
  have "mset (filter (\<lambda>x. f x = i) xs) + mset (filter (\<lambda>x. f x \<in> set is) xs) = mset (filter (\<lambda>x. f x \<in> set (i # is)) xs)"
    using Cons.prems by (induction xs) auto
  then show ?case using Cons by simp
qed simp

lemma groupBy_perm: "mset (concat (map snd (groupBy f xs))) = mset xs"
proof -
  have "filter (\<lambda>x. f x \<in> set (remdups (map f xs))) xs = xs" by (simp add: filter_id_conv)
  then show ?thesis using mset_concat_filter [of "remdups (map f xs)" f xs] by (simp add: groupBy_def comp_def)
qed

lemma groupBy_concat:
  fixes h :: "nat \<Rightarrow> 'a \<Rightarrow> 'c list"
  shows "concat (map (\<lambda>(s, g). concat (map (h s) g)) (groupBy f xs)) = concat (map (\<lambda>x. h (f x) x) (concat (map snd (groupBy f xs))))"
proof -
  have "concat (map (h s) g) = concat (map (\<lambda>x. h (f x) x) g)" if "(s, g) \<in> set (groupBy f xs)" for s g
    using that by (intro arg_cong [where f = concat] map_cong) (auto simp: groupBy_def)
  then have eq: "map (\<lambda>(s, g). concat (map (h s) g)) (groupBy f xs) = map (\<lambda>(s, g). concat (map (\<lambda>x. h (f x) x) g)) (groupBy f xs)"
    by (intro map_cong) auto
  have flat: "concat (map (\<lambda>(s, g). concat (map k g)) gs) = concat (map k (concat (map snd gs)))" for k :: "'a \<Rightarrow> 'c list" and gs :: "(nat \<times> 'a list) list"
    by (induction gs) auto
  show ?thesis by (simp only: eq flat)
qed

context graph_store
begin

lemma edgeAt_rep:
  assumes "edges_rep B C ds G" and "G eid = Some e"
  shows "\<exists>e'. edgeAt B C (ds ! route (length ds) (e_from e)) eid = [e'] \<and> e_id e = eid \<and> edge_eq C e e'"
  using rep_present [OF assms] by (auto simp: edgeAt_def)

text \<open>The adjacency entries of a node are the edges with that endpoint.\<close>

lemma adj_entry:
  assumes "rep_index n home key val (\<lambda>i. b_get B (f (ds ! i))) G" and "n = length ds" and "0 < n"
    and key: "\<And>e. key e = encodeAdjKey (home e) (e_id e)" and ids: "\<forall>eid x. G eid = Some x \<longrightarrow> e_id x = eid"
    and L: "L = seekPrefix B (f (ds ! route n i)) (encodeNodeID i)"
  shows "\<And>k v. (k, v) \<in> set L \<Longrightarrow> \<exists>eid e. G eid = Some e \<and> home e = i \<and> k = encodeAdjKey i eid \<and> v = val e"
    and "\<And>eid e. G eid = Some e \<Longrightarrow> home e = i \<Longrightarrow> (encodeAdjKey i eid, val e) \<in> set L"
proof -
  have r: "b_get B (f (ds ! route n i)) k = Some v \<longleftrightarrow>
      (\<exists>eid e. G eid = Some e \<and> route n (home e) = route n i \<and> k = key e \<and> v = val e)" for k v
    using assms(1) route_less [OF assms(3)] unfolding rep_index_def by blast
  show "\<exists>eid e. G eid = Some e \<and> home e = i \<and> k = encodeAdjKey i eid \<and> v = val e" if h: "(k, v) \<in> set L" for k v
  proof -
    have "prefix (encodeNodeID i) k" and "b_get B (f (ds ! route n i)) k = Some v"
      using h by (simp_all add: L set_seekPrefix)
    then obtain eid e where e: "G eid = Some e" "k = key e" "v = val e" using r by blast
    then have "i = home e" using \<open>prefix (encodeNodeID i) k\<close> by (simp add: key)
    then show ?thesis using e ids by (auto simp: key)
  qed
  show "(encodeAdjKey i eid, val e) \<in> set L" if h: "G eid = Some e" "home e = i" for eid e
  proof -
    have "encodeAdjKey i eid = key e" using h ids by (auto simp: key)
    then have "b_get B (f (ds ! route n i)) (encodeAdjKey i eid) = Some (val e)" using r h by metis
    then show ?thesis by (simp add: L set_seekPrefix)
  qed
qed

definition keyEdgeID :: "bytes \<times> bytes \<Rightarrow> EdgeID" where
  "keyEdgeID kv = snd (the (decodeAdjKey (fst kv)))"

lemma keyEdgeID_encode [simp]: "keyEdgeID (encodeAdjKey i eid, v) = eid"
  by (simp add: keyEdgeID_def)

lemma emapM_pure: "(\<And>x. x \<in> set xs \<Longrightarrow> f x = Inr (g x)) \<Longrightarrow> emapM f xs = Inr (map g xs)"
  by (induction xs) auto

lemma keys_distinct_ids:
  assumes "distinct (map fst L)" and "\<And>k v. (k, v) \<in> set L \<Longrightarrow> \<exists>eid. k = encodeAdjKey i eid"
  shows "distinct (map keyEdgeID L)"
proof -
  have "map fst L = map (encodeAdjKey i \<circ> keyEdgeID) L"
    using assms(2) by (intro map_cong) (auto dest!: assms(2))
  then have "distinct (map (encodeAdjKey i) (map keyEdgeID L))" using assms(1) by (simp only: map_map)
  then show ?thesis using distinct_map by blast
qed

lemma collectLocal_match:
  assumes rep: "edges_rep B C ds G"
    and idx: "rep_index (length ds) home key val (\<lambda>i. b_get B (f (ds ! i))) G"
    and key: "\<And>e. key e = encodeAdjKey (home e) (e_id e)"
    and local: "\<And>e. home e = i \<Longrightarrow> route (length ds) (e_from e) = route (length ds) i"
  shows "\<exists>es. collectLocal B C f i (ds ! route (length ds) i) = Inr es \<and> edges_match C es G (\<lambda>e. home e = i)"
proof -
  let ?n = "length ds"
  define L where "L = seekPrefix B (f (ds ! route ?n i)) (encodeNodeID i)"
  have ne: "0 < ?n" using rep by (auto simp: edges_rep_def)
  have ids: "\<forall>eid x. G eid = Some x \<longrightarrow> e_id x = eid" using rep rep_records_ids unfolding edges_rep_def by blast
  note ent = adj_entry [OF idx refl ne key ids L_def]
  have "emapM (\<lambda>kv. ebind (adjEdgeID (fst kv)) (\<lambda>eid. Inr (edgeAt B C (ds ! route ?n i) eid))) L
      = Inr (map (\<lambda>kv. edgeAt B C (ds ! route ?n i) (keyEdgeID kv)) L)"
  proof (rule emapM_pure)
    fix kv assume "kv \<in> set L"
    then obtain eid where "fst kv = encodeAdjKey i eid" using ent(1) [of "fst kv" "snd kv"] by auto
    then show "ebind (adjEdgeID (fst kv)) (\<lambda>eid. Inr (edgeAt B C (ds ! route ?n i) eid)) = Inr (edgeAt B C (ds ! route ?n i) (keyEdgeID kv))"
      by (simp add: adjEdgeID_def keyEdgeID_def)
  qed
  then have col: "collectLocal B C f i (ds ! route ?n i) = Inr (concat (map (\<lambda>kv. edgeAt B C (ds ! route ?n i) (keyEdgeID kv)) L))"
    by (simp add: collectLocal_def L_def)
  have "edges_match C (concat (map (\<lambda>kv. edgeAt B C (ds ! route ?n i) (keyEdgeID kv)) L)) G (\<lambda>e. home e = i)"
  proof (rule edges_match_concat)
    fix kv assume kv: "kv \<in> set L"
    then obtain eid e where e: "G eid = Some e" "home e = i" "fst kv = encodeAdjKey i eid"
      using ent(1) [of "fst kv" "snd kv"] by auto
    have "keyEdgeID kv = eid" using e(3) by (simp add: keyEdgeID_def)
    then show "\<exists>e e'. edgeAt B C (ds ! route ?n i) (keyEdgeID kv) = [e'] \<and> G (keyEdgeID kv) = Some e \<and> e_id e = keyEdgeID kv \<and> home e = i \<and> edge_eq C e e'"
      using edgeAt_rep [OF rep e(1)] local [OF e(2)] e by auto
  next
    show "distinct (map keyEdgeID L)"
      by (rule keys_distinct_ids [of _ i]) (use ent(1) seekPrefix_distinct in \<open>auto simp: L_def\<close>)
  next
    fix eid e assume "G eid = Some e" "home e = i"
    then have "(encodeAdjKey i eid, val e) \<in> set L" by (rule ent(2))
    then show "eid \<in> keyEdgeID ` set L" by (metis image_eqI keyEdgeID_encode)
  qed
  then show ?thesis using col by blast
qed

lemma collectIncoming_match:
  assumes rep: "edges_rep B C (files db) G"
  shows "\<exists>es. collectIncoming B C i db = Inr es \<and> edges_match C es G (\<lambda>e. e_to e = i)"
proof -
  let ?ds = "files db" and ?n = "length (db_shards db)"
  have ne: "0 < ?n" using rep by (auto simp: edges_rep_def files_def)
  have idx: "rep_index (length ?ds) e_to inKey inVal (\<lambda>i. b_get B (bk_adj_in (?ds ! i))) G" using rep by (simp add: edges_rep_def)
  have ids: "\<forall>eid x. G eid = Some x \<longrightarrow> e_id x = eid" using rep rep_records_ids unfolding edges_rep_def by blast
  define L where "L = seekPrefix B (bk_adj_in (?ds ! route (length ?ds) i)) (encodeNodeID i)"
  note ent = adj_entry [OF idx refl _ refl ids L_def]
  have ent1: "\<exists>eid e. G eid = Some e \<and> e_to e = i \<and> k = encodeAdjKey i eid \<and> v = inVal e" if "(k, v) \<in> set L" for k v
    using ent(1) that ne by simp
  let ?en = "\<lambda>kv. (keyEdgeID kv, fst (decodeAdjValue (snd kv)))"
  have "emapM (\<lambda>kv. ebind (adjEdgeID (fst kv)) (\<lambda>eid. Inr (eid, fst (decodeAdjValue (snd kv))))) L = Inr (map ?en L)"
  proof (rule emapM_pure)
    fix kv assume "kv \<in> set L"
    then obtain eid where "fst kv = encodeAdjKey i eid" using ent1 [of "fst kv" "snd kv"] by auto
    then show "ebind (adjEdgeID (fst kv)) (\<lambda>eid. Inr (eid, fst (decodeAdjValue (snd kv)))) = Inr (?en kv)"
      by (simp add: adjEdgeID_def keyEdgeID_def)
  qed
  moreover have "bucketsOf db (shardFor db i) = ?ds ! route (length ?ds) i"
    using ne by (simp add: shardFor_route files_nth route_less)
  ultimately have col: "collectIncoming B C i db = Inr (concat (map (\<lambda>(s, g). concat (map (\<lambda>en. edgeAt B C (bucketsOf db s) (fst en)) g))
          (groupBy (\<lambda>en. shardForEdge db (snd en)) (map ?en L))))"
    by (simp add: collectIncoming_def L_def)
  let ?ys = "concat (map snd (groupBy (\<lambda>en. shardForEdge db (snd en)) (map ?en L)))"
  have perm: "mset ?ys = mset (map ?en L)" by (rule groupBy_perm)
  have set_ys: "set ?ys = ?en ` set L" using mset_eq_setD [OF perm] by (simp only: list.set_map)
  have "distinct (map keyEdgeID L)"
    by (rule keys_distinct_ids [of _ i]) (use ent1 seekPrefix_distinct in \<open>auto simp: L_def\<close>)
  moreover have eqm: "mset (map fst ?ys) = mset (map keyEdgeID L)"
  proof -
    have "mset (map fst ?ys) = image_mset fst (mset (map ?en L))"
      using arg_cong [OF perm, of "image_mset fst"] by (simp only: mset_map)
    also have "\<dots> = mset (map fst (map ?en L))" by (simp only: mset_map)
    also have "map fst (map ?en L) = map keyEdgeID L" by simp
    finally show ?thesis .
  qed
  ultimately have dist: "distinct (map fst ?ys)"
    using mset_eq_imp_distinct_iff [OF eqm] by blast
  have "edges_match C (concat (map (\<lambda>en. edgeAt B C (bucketsOf db (shardForEdge db (snd en))) (fst en)) ?ys)) G (\<lambda>e. e_to e = i)"
  proof (rule edges_match_concat [where k = fst])
    fix en assume "en \<in> set ?ys"
    then have "en \<in> ?en ` set L" by (simp only: set_ys)
    then obtain k v where kv: "(k, v) \<in> set L" "en = ?en (k, v)" by auto
    obtain eid e where e: "G eid = Some e" "e_to e = i" "k = encodeAdjKey i eid" "v = inVal e" using ent1 [OF kv(1)] by blast
    have en: "en = (eid, e_from e)" using kv(2) e by simp
    have "bucketsOf db (shardForEdge db (e_from e)) = ?ds ! route (length ?ds) (e_from e)"
      using ne by (simp add: shardForEdge_def shardFor_route files_nth route_less)
    then show "\<exists>e e'. edgeAt B C (bucketsOf db (shardForEdge db (snd en))) (fst en) = [e'] \<and> G (fst en) = Some e \<and> e_id e = fst en \<and> e_to e = i \<and> edge_eq C e e'"
      using edgeAt_rep [OF rep e(1)] e en by auto
  next
    show "distinct (map fst ?ys)" by (rule dist)
  next
    fix eid e assume "G eid = Some e" "e_to e = i"
    then have "(encodeAdjKey i eid, inVal e) \<in> set L" using ent(2) ne by simp
    then have "?en (encodeAdjKey i eid, inVal e) \<in> set ?ys" unfolding set_ys by (rule imageI)
    then show "eid \<in> fst ` set ?ys" by force
  qed
  then show ?thesis using col groupBy_concat [of "\<lambda>s en. edgeAt B C (bucketsOf db s) (fst en)" "\<lambda>en. shardForEdge db (snd en)" "map ?en L"]
    by auto
qed

text \<open>Out- and in-edges of a node.\<close>

lemma getEdges_out:
  assumes "edges_rep B C (files db) G" and "\<not> db_closed db"
  shows "\<exists>es. getEdgesForNode B C i Outgoing db = Inr es \<and> edges_match C es G (\<lambda>e. e_from e = i)"
proof -
  have ne: "0 < length (db_shards db)" using assms(1) by (auto simp: edges_rep_def files_def)
  have "bucketsOf db (shardFor db i) = files db ! route (length (files db)) i"
    using ne by (simp add: shardFor_route files_nth route_less)
  then show ?thesis
    using collectLocal_match [OF assms(1), of e_from outKey outVal bk_adj_out i] assms
    by (auto simp: getEdgesForNode_def viewing_def edges_rep_def)
qed

lemma getEdges_in:
  assumes "edges_rep B C (files db) G" and "\<not> db_closed db"
  shows "\<exists>es. getEdgesForNode B C i Incoming db = Inr es \<and> edges_match C es G (\<lambda>e. e_to e = i)"
proof -
  have ne: "0 < length (db_shards db)" using assms(1) by (auto simp: edges_rep_def files_def)
  have "bucketsOf db (shardFor db i) = files db ! route (length (files db)) i"
    using ne by (simp add: shardFor_route files_nth route_less)
  then show ?thesis
    using collectLocal_match [OF assms(1), of e_to inKey inVal bk_adj_in i] collectIncoming_match [OF assms(1), of i] assms
    by (cases "length (db_shards db) = 1") (auto simp: getEdgesForNode_def viewing_def edges_rep_def route_def)
qed

lemma getEdges_both:
  assumes "edges_rep B C (files db) G" and "\<not> db_closed db"
  shows "\<exists>out inc. getEdgesForNode B C i Both db = Inr (out @ inc) \<and> edges_match C out G (\<lambda>e. e_from e = i) \<and>
     edges_match C inc G (\<lambda>e. e_to e = i)"
  using getEdges_out [OF assms, of i] getEdges_in [OF assms, of i]
  by (auto simp: getEdgesForNode_def viewing_def Let_def split: if_splits)

end

interpretation kvs_store: graph_store kvs_bolt str_codec
  by (intro graph_store.intro kvs.bolt_laws_axioms str_codec.codec_laws_axioms)

section \<open>Properties\<close>

definition edge_ids_bounded :: "'b DB \<Rightarrow> graph_edges \<Rightarrow> bool" where
  "edge_ids_bounded db G \<longleftrightarrow> (\<forall>eid. G eid \<noteq> None \<longrightarrow> eid \<le> edgeCtr db)"

lemma edge_id_fresh: "edge_ids_bounded db G \<Longrightarrow> edgeCtr db \<noteq> - 1 \<Longrightarrow> G (edgeCtr db + 1) = None"
  using u64_less_succ [of "edgeCtr db"] by (force simp: edge_ids_bounded_def)

lemma edgeCtr_bloomAddDB [simp]: "edgeCtr (bloomAddDB a b db) = edgeCtr db" "nodeCtr (bloomAddDB a b db) = nodeCtr db"
  by (simp_all add: bloomAddDB_def)

lemma edgeCtr_AddEdge:
  assumes "AddEdge B C W from to label props db = (Inr i, db')" and "db_shards db \<noteq> []"
  shows "edgeCtr db' = edgeCtr db + 1"
proof -
  obtain i0 db0 where al: "dbAllocEdgeID db = (i0, db0)" by (cases "dbAllocEdgeID db")
  then have c: "edgeCtr db0 = edgeCtr db + 1" using ctr_alloc(2) [OF assms(2)] by simp
  have w: "edgeCtr db1 = edgeCtr x" if "writeUpdate s fn x = (r, db1)" for s fn r db1 and x :: "'a DB"
    using ctr_writeUpdate(1) [of s fn x] that by simp
  show ?thesis
    using guarded_Inr [OF assms(1) [unfolded AddEdge_def]] al c
    by (auto simp: Let_def split: sum.splits prod.splits if_splits dest!: w)
qed

text \<open>A small database for closed instances: the given shard count, nodes 1 and 2, no edges.\<close>

definition sampleFile :: "kvs buckets" where
  "sampleFile = (allBuckets_new kvs_bolt)\<lparr>bk_nodes := [(encodeNodeID 1, []), (encodeNodeID 2, [])]\<rparr>"

definition sampleDB :: "nat \<Rightarrow> kvs DB" where
  "sampleDB n = \<lparr>db_closed = False, db_role = ''leader'',
     db_shards = replicate n \<lparr>s_data = sampleFile, nextNodeID = 2, nextEdgeID = 0, nodeCount = 2, edgeCount = 0\<rparr>,
     db_indexedProps = [], db_compositeIndexes = [], db_uniqueConstraints = [],
     db_ncache = newNodeCache 0, db_edgeBloom = None, db_wal = None, db_faults = []\<rparr>"

lemma sampleDB_simps [simp]:
  "db_closed (sampleDB n) = False" "length (db_shards (sampleDB n)) = n" "db_faults (sampleDB n) = []"
  "db_role (sampleDB n) = ''leader''" "db_wal (sampleDB n) = None" "db_edgeBloom (sampleDB n) = None"
  by (simp_all add: sampleDB_def)

lemma edges_rep_sample: "0 < n \<Longrightarrow> edges_rep kvs_bolt C (files (sampleDB n)) Map.empty"
  by (auto simp: edges_rep_def files_def sampleDB_def rep_records_def rep_index_def sampleFile_def createBuckets_def newFile_def CreateBucketIfNotExists_def kvs_bolt_def)

lemma edge_ids_bounded_empty [simp]: "edge_ids_bounded db Map.empty"
  by (simp add: edge_ids_bounded_def)

lemma edgeCtr_sample [simp]: "0 < n \<Longrightarrow> edgeCtr (sampleDB n) = 0"
  by (simp add: edgeCtr_def sampleDB_def)

lemma sample_addEdge: "\<exists>db'. AddEdge kvs_bolt str_codec W 1 2 ''KNOWS'' [] (sampleDB 1) = (Inr 1, db')"
proof -
  let ?e = "\<lparr>e_id = 1, e_from = 1, e_to = 2, e_label = ''KNOWS'', e_props = []\<rparr>"
  obtain data where data: "encodeEdge str_codec ?e = Inr data" and "length data \<le> MaxValueSize"
    by (simp add: encodeEdge_def encodeProps_def str_codec_def Let_def enc_strs_def)
  then obtain d where "addEdgeSameTx kvs_bolt str_codec ?e sampleFile = Inr d"
    by (simp add: addEdgeSameTx_def kvs_bolt_def enc_simps)
  then show ?thesis
    by (simp add: AddEdge_def guarded_def writeGuard_def isFollower_def verifyNodeExists_def viewing_def sampleDB_def
        shardFor_def shardForEdge_def dbAllocEdgeID_def allocEdgeID_def updShard_def writeUpdate_def sampleFile_def
        kvs_bolt_def bloomAddDB_def walAppend_def addEdgeCount_def)
qed

text \<open>
  C12. When AddEdge succeeds, on one shard or across two and whatever the environment did in between,
  the edge records, both adjacency buckets and the edge-type index of all shards describe exactly the
  old edges plus the new one, and the returned identifier is one no edge had before.
\<close>

theorem add_edge_extends_graph:
  assumes "graph_store B C" and "edges_rep B C (files db) G" and "edge_ids_bounded db G" and "edgeCtr db \<noteq> - 1"
    and "AddEdge B C W from to label props db = (Inr i, db')"
  shows "G i = None \<and> edges_rep B C (files db') (G(i \<mapsto> \<lparr>e_id = i, e_from = from, e_to = to, e_label = label, e_props = props\<rparr>)) \<and>
     edge_ids_bounded db' (G(i \<mapsto> \<lparr>e_id = i, e_from = from, e_to = to, e_label = label, e_props = props\<rparr>))"
proof -
  have fresh: "G (edgeCtr db + 1) = None" using edge_id_fresh [OF assms(3,4)] .
  have r: "i = edgeCtr db + 1" "edges_rep B C (files db') (G(i \<mapsto> \<lparr>e_id = i, e_from = from, e_to = to, e_label = label, e_props = props\<rparr>))"
    using graph_store.AddEdge_rep [OF assms(1,5,2)] fresh unfolding edgeCtr_def by blast+
  have "db_shards db \<noteq> []" using assms(2) by (auto simp: edges_rep_def files_def)
  then have "edgeCtr db' = edgeCtr db + 1" using edgeCtr_AddEdge [OF assms(5)] by simp
  moreover have "eid \<le> edgeCtr db + 1" if "G eid \<noteq> None" for eid
    using that assms(3) u64_less_succ [OF assms(4)] by (force simp: edge_ids_bounded_def)
  ultimately show ?thesis using r fresh by (auto simp: edge_ids_bounded_def)
qed

theorem add_edge_extends_graph_witness:
  "\<exists>db'. AddEdge kvs_bolt str_codec (str_wcodec 100) 1 2 ''KNOWS'' [] (sampleDB 1) = (Inr 1, db') \<and>
     edges_rep kvs_bolt str_codec (files db') [1 \<mapsto> \<lparr>e_id = 1, e_from = 1, e_to = 2, e_label = ''KNOWS'', e_props = []\<rparr>]"
proof -
  obtain db' where "AddEdge kvs_bolt str_codec (str_wcodec 100) 1 2 ''KNOWS'' [] (sampleDB 1) = (Inr 1, db')"
    using sample_addEdge by blast
  then show ?thesis
    using add_edge_extends_graph [OF kvs_store.graph_store_axioms edges_rep_sample [of 1], of "str_wcodec 100" 1 2] by fastforce
qed

text \<open>A database with one edge across its two shards and a Bloom filter, made by AddEdge.\<close>

definition sampleEdge :: Edge where
  "sampleEdge = \<lparr>e_id = 1, e_from = 1, e_to = 2, e_label = ''KNOWS'', e_props = []\<rparr>"

definition linkedDB :: "kvs DB" where
  "linkedDB = snd (AddEdge kvs_bolt str_codec (str_wcodec 100) 1 2 ''KNOWS'' [] (sampleDB 2\<lparr>db_edgeBloom := Some (newBloomFilter 1000)\<rparr>))"

lemma linked_add: "AddEdge kvs_bolt str_codec (str_wcodec 100) 1 2 ''KNOWS'' [] (sampleDB 2\<lparr>db_edgeBloom := Some (newBloomFilter 1000)\<rparr>) = (Inr 1, linkedDB)"
  and linked_fields: "\<not> db_closed linkedDB" "\<not> isFollower linkedDB" "db_faults linkedDB = []"
proof -
  let ?f = "newBloomFilter 1000" and ?s = "\<lparr>s_data = sampleFile, nextNodeID = 2, nextEdgeID = 0, nodeCount = 2, edgeCount = 0\<rparr>"
  obtain data where data: "encodeEdge str_codec sampleEdge = Inr data" and len: "length data \<le> MaxValueSize"
    by (simp add: sampleEdge_def encodeEdge_def encodeProps_def str_codec_def Let_def enc_strs_def)
  from data len obtain d1 where src: "addEdgeSrcTx kvs_bolt str_codec sampleEdge sampleFile = Inr d1"
    by (simp add: sampleEdge_def addEdgeSrcTx_def kvs_bolt_def enc_simps)
  obtain d2 where dst: "addEdgeDstTx kvs_bolt sampleEdge sampleFile = Inr d2"
    by (simp add: sampleEdge_def addEdgeDstTx_def kvs_bolt_def enc_simps)
  have v: "verifyNodeExists kvs_bolt (sampleDB 2\<lparr>db_edgeBloom := Some f\<rparr>) 1 = Inr ()"
    "verifyNodeExists kvs_bolt (sampleDB 2\<lparr>db_edgeBloom := Some f\<rparr>) 2 = Inr ()" for f
    unfolding verifyNodeExists_def viewing_def by (simp_all add: shardFor_def sampleDB_def sampleFile_def kvs_bolt_def)
  have two: "replicate 2 x = [x, x]" for x :: "kvs shard" by (simp add: numeral_2_eq_2)
  have sh: "shardFor db 1 = 1" "shardFor db 2 = 0" if "length (db_shards db) = 2" for db :: "kvs DB"
    using that by (simp_all add: shardFor_def)
  have al: "dbAllocEdgeID (sampleDB 2\<lparr>db_edgeBloom := Some f\<rparr>) = (1, (sampleDB 2)\<lparr>db_edgeBloom := Some f, db_shards := [?s\<lparr>nextEdgeID := 1\<rparr>, ?s]\<rparr>)" for f
    by (simp add: dbAllocEdgeID_def allocEdgeID_def updShard_def sampleDB_def two)
  show "AddEdge kvs_bolt str_codec (str_wcodec 100) 1 2 ''KNOWS'' [] (sampleDB 2\<lparr>db_edgeBloom := Some ?f\<rparr>) = (Inr 1, linkedDB)"
    "\<not> db_closed linkedDB" "\<not> isFollower linkedDB" "db_faults linkedDB = []"
    unfolding linkedDB_def AddEdge_def guarded_def
    by (simp_all add: v al sh shardForEdge_def Let_def writeGuard_def isFollower_def src [unfolded sampleEdge_def] dst [unfolded sampleEdge_def]
      writeUpdate_def updShard_def addEdgeCount_def bloomAddDB_def walAppend_def)
qed

lemma linked_rep: "edges_rep kvs_bolt str_codec (files linkedDB) [1 \<mapsto> sampleEdge]"
proof -
  let ?db = "sampleDB 2\<lparr>db_edgeBloom := Some (newBloomFilter 1000)\<rparr>"
  have "edges_rep kvs_bolt str_codec (files ?db) Map.empty" "edgeCtr ?db = 0"
    using edges_rep_sample [of 2] edgeCtr_sample [of 2] by (simp_all add: files_def edgeCtr_def)
  then show ?thesis using kvs_store.AddEdge_rep [OF linked_add] by (simp add: sampleEdge_def)
qed

lemma edges_match_single:
  "edges_match C es [k \<mapsto> e] P \<Longrightarrow> e_id e = k \<Longrightarrow> if P e then \<exists>e'. es = [e'] \<and> edge_eq C e e' else es = []"
proof -
  assume m: "edges_match C es [k \<mapsto> e] P" and k: "e_id e = k"
  have ids: "\<forall>e' \<in> set es. e_id e' = k \<and> P e \<and> edge_eq C e e'" proof
    fix e' assume "e' \<in> set es"
    then obtain e1 where "[k \<mapsto> e] (e_id e') = Some e1" "P e1" "edge_eq C e1 e'" using m unfolding edges_match_def by blast
    then show "e_id e' = k \<and> P e \<and> edge_eq C e e'" by (cases "e_id e' = k") simp_all
  qed
  show ?thesis
  proof (cases es)
    case Nil
    have "\<not> P e" using m Nil by (simp add: edges_match_def)
    then show ?thesis using Nil by simp
  next
    case (Cons e1 r)
    have "r = []"
    proof (rule ccontr)
      assume "r \<noteq> []"
      then obtain e2 r2 where r: "r = e2 # r2" by (cases r) auto
      have "e_id e1 = k" "e_id e2 = k" using ids unfolding Cons r list.set by blast+
      moreover have "distinct (e_id e1 # e_id e2 # map e_id r2)" using m unfolding edges_match_def Cons r list.map by blast
      ultimately show False by simp
    qed
    moreover have "e1 \<in> set es" using Cons by simp
    then have "P e" "edge_eq C e e1" using ids by blast+
    ultimately show ?thesis using Cons by simp
  qed
qed

text \<open>
  C13. OutEdges and InEdges return exactly the edges whose source, respectively target, is the given
  node, each exactly once, for every number of shards; properties come back with the same text. Edges
  returns the outgoing edges followed by the incoming ones, so that an edge from the node to itself is
  listed twice.
\<close>

theorem adjacency_reads_exact:
  assumes "graph_store B C" and "edges_rep B C (files db) G" and "\<not> db_closed db"
  shows "\<exists>out inc. OutEdges B C i db = Inr out \<and> edges_match C out G (\<lambda>e. e_from e = i) \<and>
     InEdges B C i db = Inr inc \<and> edges_match C inc G (\<lambda>e. e_to e = i) \<and> Edges B C i db = Inr (out @ inc)"
proof -
  obtain out inc where h: "getEdgesForNode B C i Outgoing db = Inr out" "edges_match C out G (\<lambda>e. e_from e = i)"
    "getEdgesForNode B C i Incoming db = Inr inc" "edges_match C inc G (\<lambda>e. e_to e = i)"
    using graph_store.getEdges_out [OF assms, of i] graph_store.getEdges_in [OF assms, of i] by blast
  have ret: "ebind x Inr = x" for x :: "gerr + Edge list" by (cases x) simp_all
  have "getEdgesForNode B C i Both db = ebind (getEdgesForNode B C i Outgoing db) (\<lambda>out. ebind (getEdgesForNode B C i Incoming db) (\<lambda>inc. Inr (out @ inc)))"
    unfolding getEdgesForNode_def viewing_def Let_def by (simp add: assms(3) ret)
  then have "getEdgesForNode B C i Both db = Inr (out @ inc)" unfolding h(1,3) by simp
  then show ?thesis unfolding OutEdges_def InEdges_def Edges_def using h by blast
qed

theorem adjacency_reads_exact_witness:
  "\<exists>e. Edges kvs_bolt str_codec 2 linkedDB = Inr [e] \<and> InEdges kvs_bolt str_codec 2 linkedDB = Inr [e] \<and>
     OutEdges kvs_bolt str_codec 2 linkedDB = Inr [] \<and> e_from e = 1 \<and> e_label e = ''KNOWS''"
proof -
  obtain out inc where r: "OutEdges kvs_bolt str_codec 2 linkedDB = Inr out" "edges_match str_codec out [1 \<mapsto> sampleEdge] (\<lambda>e. e_from e = 2)"
     "InEdges kvs_bolt str_codec 2 linkedDB = Inr inc" "edges_match str_codec inc [1 \<mapsto> sampleEdge] (\<lambda>e. e_to e = 2)"
     "Edges kvs_bolt str_codec 2 linkedDB = Inr (out @ inc)"
    using adjacency_reads_exact [OF kvs_store.graph_store_axioms linked_rep linked_fields(1), of 2] by blast
  have "out = []" "\<exists>e. inc = [e] \<and> edge_eq str_codec sampleEdge e"
    using edges_match_single [OF r(2)] edges_match_single [OF r(4)] by (simp_all add: sampleEdge_def)
  then show ?thesis using r by (auto simp: sampleEdge_def edge_eq_def)
qed

text \<open>
  C14. DeleteEdge of an existing edge, when it reports success, removes exactly that edge from all four
  buckets on both shards, and without environment faults it does report success; of an edge that does not
  exist it reports that and changes nothing.
\<close>

theorem delete_edge_removes_exactly:
  assumes "graph_store B C" and "edges_rep B C (files db) G" and "\<not> db_closed db" and "\<not> isFollower db"
  shows "(\<forall>u db'. DeleteEdge B C W i db = (Inr u, db') \<longrightarrow> G i \<noteq> None \<and> edges_rep B C (files db') (G(i := None))) \<and>
     (G i = None \<longrightarrow> DeleteEdge B C W i db = (Inl (ErrEdgeNotFound i), db)) \<and>
     (G i \<noteq> None \<and> db_faults db = [] \<longrightarrow> fst (DeleteEdge B C W i db) = Inr ())"
proof -
  have g: "DeleteEdge B C W i db = (case getEdge B C i db of Inl e \<Rightarrow> (Inl e, db) | Inr edge \<Rightarrow> deleteEdgeInternal B W edge db)"
    using assms by (simp add: DeleteEdge_def guarded_ok)
  note get = graph_store.getEdge_rep [OF assms(1-3), of i]
  show ?thesis
  proof (cases "G i")
    case None
    then show ?thesis using get g by simp
  next
    case (Some e)
    then obtain e' where e': "getEdge B C i db = Inr e'" "edge_eq C e e'" using get by auto
    have id: "e_id e' = i" using e'(2) Some graph_store.rep_present [OF assms(1,2) Some] by (auto simp: edge_eq_def)
    have "compat G e'" using e'(2) Some id by (simp add: compat_def same_shape_def edge_eq_def)
    moreover have "fst (deleteEdgeInternal B W e' db) = Inr ()" if "db_faults db = []"
      using graph_store.deleteEdgeInternal_ok [OF assms(1) that, of W e'] by auto
    ultimately show ?thesis
      using graph_store.deleteEdgeInternal_rep [OF assms(1) _ assms(2)] g e'(1) id Some by auto
  qed
qed

theorem delete_edge_removes_exactly_witness:
  "\<exists>db'. DeleteEdge kvs_bolt str_codec (str_wcodec 1) 1 linkedDB = (Inr (), db') \<and> edges_rep kvs_bolt str_codec (files db') Map.empty \<and>
     DeleteEdge kvs_bolt str_codec (str_wcodec 1) 9 linkedDB = (Inl (ErrEdgeNotFound 9), linkedDB)"
proof -
  note del = delete_edge_removes_exactly [OF kvs_store.graph_store_axioms linked_rep linked_fields(1,2), where W = "str_wcodec 1"]
  obtain r db' where op: "DeleteEdge kvs_bolt str_codec (str_wcodec 1) 1 linkedDB = (r, db')" by fastforce
  then have "r = Inr ()" using del [of 1] linked_fields(3) by simp
  then show ?thesis using op del [of 1] del [of 9] by simp
qed

text \<open>The Bloom filter knows every edge of the graph.\<close>

definition bloom_covers :: "'b DB \<Rightarrow> graph_edges \<Rightarrow> bool" where
  "bloom_covers db G \<longleftrightarrow> (case db_edgeBloom db of None \<Rightarrow> True
     | Some bf \<Rightarrow> bloom_wf bf \<and> (\<forall>eid e. G eid = Some e \<longrightarrow> bloomTest bf (e_from e) (e_to e)))"

lemma bloom_covers_init:
  assumes "graph_store B C" and "edges_rep B C (map s_data shards) G" and "unat (sum_list (map edgeCount shards) * 2) < 2 ^ 60"
    and "db_edgeBloom db = Some (initBloomFilter B shards)"
  shows "bloom_covers db G"
proof -
  let ?total = "sum_list (map edgeCount shards)"
  let ?exp = "if ?total * 2 < 1000 then 1000 else ?total * 2"
  have wf0: "bloom_wf (newBloomFilter ?exp)" by (rule bloom_wf_new) (use assms(3) in simp)
  have wfs: "bloom_wf (fold (\<lambda>s. fold bloomAddPair (f s)) ss bf) = bloom_wf bf" for f :: "'a shard \<Rightarrow> kvs" and ss bf
    by (induction ss arbitrary: bf) simp_all
  have "bloomTest (initBloomFilter B shards) (e_from e) (e_to e)" if h: "G eid = Some e" for eid e
  proof -
    let ?n = "length shards" and ?r = "route (length shards) (e_from e)"
    have ne: "?r < ?n" using assms(2) by (auto simp: edges_rep_def route_less)
    have id: "e_id e = eid" using graph_store.rep_present [OF assms(1,2) h] by blast
    have "b_get B (bk_adj_out (map s_data shards ! ?r)) (outKey e) = Some (outVal e)"
      using assms(2) h ne unfolding edges_rep_def rep_index_def by auto
    then have "(outKey e, outVal e) \<in> set (b_cursor B (bk_adj_out (s_data (shards ! ?r))))"
      using ne bolt_laws.set_cursor [OF graph_store.axioms(1) [OF assms(1)]] by simp
    then show ?thesis
      using bloomTest_shards [of "shards ! ?r" shards] ne wf0 by (auto simp: initBloomFilter_def Let_def)
  qed
  moreover have "bloom_wf (initBloomFilter B shards)" using wf0 wfs by (simp add: initBloomFilter_def Let_def)
  ultimately show ?thesis using assms(4) by (simp add: bloom_covers_def)
qed

lemma bloom_fields [simp]: "db_edgeBloom (walAppend W op db) = db_edgeBloom db" "db_edgeBloom (updShard i f db) = db_edgeBloom db"
  "db_edgeBloom (snd (writeUpdate i fn db)) = db_edgeBloom db" "db_edgeBloom (snd (dbAllocEdgeID db)) = db_edgeBloom db"
  by (simp_all add: walAppend_def updShard_def writeUpdate_def dbAllocEdgeID_def Let_def split: list.splits option.splits sum.splits)

lemma AddEdge_bloom:
  assumes "AddEdge B C W from to label props db = (Inr i, db')"
  shows "db_edgeBloom db' = map_option (bloomAdd from to) (db_edgeBloom db)"
proof -
  obtain i0 db0 where al: "dbAllocEdgeID db = (i0, db0)" by (cases "dbAllocEdgeID db")
  then have c: "db_edgeBloom db0 = db_edgeBloom db" using bloom_fields(4) [of db] by simp
  have w: "db_edgeBloom db1 = db_edgeBloom x" if "writeUpdate s fn x = (r, db1)" for s fn r db1 and x :: "'a DB"
    using bloom_fields(3) [of s fn x] that by simp
  show ?thesis
    using guarded_Inr [OF assms [unfolded AddEdge_def]] al c
    by (auto simp: Let_def bloomAddDB_def split: sum.splits prod.splits if_splits dest!: w)
qed

text \<open>
  C33. HasEdge on an open database answers exactly whether the graph has an edge between the two nodes
  when the Bloom filter, if there is one, covers the graph; the filter built at startup does, and every successful AddEdge keeps it so.
\<close>

theorem has_edge_exact:
  assumes "graph_store B C" and "edges_rep B C (files db) G" and "\<not> db_closed db" and "bloom_covers db G"
  shows "HasEdge B C a b db = Inr (\<exists>eid e. G eid = Some e \<and> e_from e = a \<and> e_to e = b) \<and>
     (\<forall>i db'. AddEdge B C W a b label props db = (Inr i, db') \<longrightarrow>
        bloom_covers db' (G(i \<mapsto> \<lparr>e_id = i, e_from = a, e_to = b, e_label = label, e_props = props\<rparr>)))"
proof -
  obtain es where es: "getEdgesForNode B C a Outgoing db = Inr es" "edges_match C es G (\<lambda>e. e_from e = a)"
    using graph_store.getEdges_out [OF assms(1-3)] by blast
  have ex: "list_ex (\<lambda>e. e_to e = b) es \<longleftrightarrow> (\<exists>eid e. G eid = Some e \<and> e_from e = a \<and> e_to e = b)"
  proof
    assume "list_ex (\<lambda>e. e_to e = b) es"
    then obtain e' where "e' \<in> set es" "e_to e' = b" by (auto simp: list_ex_iff)
    then show "\<exists>eid e. G eid = Some e \<and> e_from e = a \<and> e_to e = b"
      using es(2) by (fastforce simp: edges_match_def edge_eq_def)
  next
    assume "\<exists>eid e. G eid = Some e \<and> e_from e = a \<and> e_to e = b"
    then obtain eid e where e: "G eid = Some e" "e_from e = a" "e_to e = b" by blast
    then obtain e' where e': "e' \<in> set es" "e_id e' = eid" using es(2) by (auto simp: edges_match_def)
    then have "e_to e' = b" using es(2) e by (fastforce simp: edges_match_def edge_eq_def)
    then show "list_ex (\<lambda>e. e_to e = b) es" using e' by (auto simp: list_ex_iff)
  qed
  have "HasEdge B C a b db = Inr (\<exists>eid e. G eid = Some e \<and> e_from e = a \<and> e_to e = b)"
    using assms(4) es(1) ex by (auto simp: HasEdge_def bloom_covers_def split: option.splits)
  moreover have "bloom_covers db' (G(i \<mapsto> \<lparr>e_id = i, e_from = a, e_to = b, e_label = label, e_props = props\<rparr>))"
    if "AddEdge B C W a b label props db = (Inr i, db')" for i db'
    using AddEdge_bloom [OF that] assms(4) bloomTest_add bloomTest_mono
    by (auto simp: bloom_covers_def split: option.splits)
  ultimately show ?thesis by blast
qed

lemma linked_bloom: "bloom_covers linkedDB [1 \<mapsto> sampleEdge]" "\<exists>bf. db_edgeBloom linkedDB = Some bf"
proof -
  have b: "db_edgeBloom linkedDB = Some (bloomAdd 1 2 (newBloomFilter 1000))" using AddEdge_bloom [OF linked_add] by simp
  moreover have "bloom_wf (newBloomFilter 1000)" by (rule bloom_wf_new) simp
  ultimately show "bloom_covers linkedDB [1 \<mapsto> sampleEdge]" "\<exists>bf. db_edgeBloom linkedDB = Some bf"
    using bloomTest_add by (auto simp: bloom_covers_def sampleEdge_def)
qed

theorem has_edge_exact_witness:
  "(\<exists>bf. db_edgeBloom linkedDB = Some bf) \<and> HasEdge kvs_bolt str_codec 1 2 linkedDB = Inr True \<and> HasEdge kvs_bolt str_codec 2 1 linkedDB = Inr False"
proof -
  note has = has_edge_exact [OF kvs_store.graph_store_axioms linked_rep linked_fields(1) linked_bloom(1), where W = "str_wcodec 1"]
  show ?thesis using has [of 1 2] has [of 2 1] linked_bloom(2) by (simp add: sampleEdge_def)
qed

text \<open>
  C37. When the endpoints live in different shards and the second of the two transactions fails, AddEdge
  reports an error, yet the first transaction stays committed: the source node lists an edge that the
  target node does not have, and no set of edges is represented any more.
\<close>

theorem add_edge_partial_failure:
  assumes "graph_store B C" and "edges_rep B C (files db) G" and "edge_ids_bounded db G" and "edgeCtr db \<noteq> - 1"
    and "\<not> db_closed db" and "\<not> isFollower db" and "db_faults db = [None, Some err]"
    and "shardFor db from \<noteq> shardFor db to"
    and "verifyNodeExists B db from = Inr ()" and "verifyNodeExists B db to = Inr ()"
    and "addEdgeSrcTx B C \<lparr>e_id = edgeCtr db + 1, e_from = from, e_to = to, e_label = label, e_props = props\<rparr>
           (files db ! shardFor db from) = Inr d"
  shows "\<exists>e db'. AddEdge B C W from to label props db = (Inl e, db') \<and> files db' = (files db)[shardFor db from := d] \<and>
     (\<forall>G'. \<not> edges_rep B C (files db') G')"
proof -
  let ?e = "\<lparr>e_id = edgeCtr db + 1, e_from = from, e_to = to, e_label = label, e_props = props\<rparr>"
  let ?src = "shardFor db from" and ?dst = "shardFor db to" and ?n = "length (db_shards db)"
  obtain db0 where al: "dbAllocEdgeID db = (edgeCtr db + 1, db0)"
    using ctr_alloc(1) [of db] assms(2) by (cases "dbAllocEdgeID db") (auto simp: edges_rep_def files_def)
  have db0: "files db0 = files db" "length (db_shards db0) = ?n" "db_faults db0 = [None, Some err]"
    using al files_alloc(2) [of db] length_shards_simps(3) [of db] assms(7)
    by (auto simp: dbAllocEdgeID_def Let_def updShard_def)
  have ne: "0 < ?n" using assms(2) by (auto simp: edges_rep_def files_def)
  have r: "?src = route ?n from" "?dst = route ?n to" by (simp_all add: shardFor_route)
  have lt: "?src < ?n" "?dst < ?n" using r route_less [OF ne] by simp_all
  have sh: "shardForEdge db0 from = ?src" "shardFor db0 to = ?dst"
    using db0 by (simp_all add: shardForEdge_def shardFor_route)
  have bk: "bucketsOf db0 ?src = files db ! ?src" using files_nth [of ?src db0] db0 lt by simp
  define db1 where "db1 = updShard ?src (\<lambda>s. s\<lparr>s_data := d\<rparr>) (db0\<lparr>db_faults := [Some err]\<rparr>)"
  have w1: "writeUpdate ?src (addEdgeSrcTx B C ?e) db0 = (Inr (), db1)"
    using assms(11) bk db0 by (simp add: writeUpdate_def db1_def)
  have f1: "db_faults (updShard ?src (addEdgeCount 1) db1) = [Some err]" by (simp add: db1_def updShard_def)
  then have w2: "writeUpdate ?dst (addEdgeDstTx B ?e) (updShard ?src (addEdgeCount 1) db1)
      = (Inl err, (updShard ?src (addEdgeCount 1) db1)\<lparr>db_faults := []\<rparr>)"
    by (simp add: writeUpdate_def)
  define db' where "db' = (updShard ?src (addEdgeCount 1) db1)\<lparr>db_faults := []\<rparr>"
  have files': "files db' = (files db)[?src := d]" by (simp add: db'_def db1_def db0)
  have res: "\<exists>e. AddEdge B C W from to label props db = (Inl e, db')"
    using assms(5,6,8-10) al sh w1 w2 by (simp add: AddEdge_def guarded_ok Let_def db'_def)
  have "\<not> edges_rep B C ((files db)[?src := d]) G'" for G'
  proof
    assume rep': "edges_rep B C ((files db)[?src := d]) G'"
    obtain data where v: "b_get B (bk_adj_out d) = (b_get B (bk_adj_out (files db ! ?src)))(outKey ?e := Some (outVal ?e))"
      and same: "b_get B (bk_adj_in d) = b_get B (bk_adj_in (files db ! ?src))"
      using bolt_laws.addEdgeSrcTx_view [OF graph_store.axioms(1) [OF assms(1)] assms(11)] by metis
    have "b_get B (bk_adj_out ((files db)[?src := d] ! ?src)) (outKey ?e) = Some (outVal ?e)" using v lt by simp
    then have "\<exists>eid e. G' eid = Some e \<and> route (length ((files db)[?src := d])) (e_from e) = ?src \<and> outKey ?e = outKey e \<and> outVal ?e = outVal e"
      using lt(1) by (subst edges_rep_out [OF rep', symmetric]) simp_all
    then obtain eid e where e: "G' eid = Some e" "outKey e = outKey ?e" "outVal e = outVal ?e" by metis
    then have sh: "e_from e = from" "e_id e = edgeCtr db + 1" by auto
    have "decodeAdjValue (outVal e) = decodeAdjValue (outVal ?e)" by (simp only: e(3))
    then have to: "e_to e = to" by simp
    have "b_get B (bk_adj_in ((files db)[?src := d] ! ?dst)) (inKey e) = Some (inVal e)"
      using rep' lt(2) e(1) to r unfolding edges_rep_def rep_index_def by auto
    then have "b_get B (bk_adj_in (files db ! ?dst)) (inKey e) = Some (inVal e)" using assms(8) by simp
    then obtain eid0 e0 where "G eid0 = Some e0" "inKey e = inKey e0"
      using assms(2) lt(2) unfolding edges_rep_def rep_index_def by auto
    then have "G (edgeCtr db + 1) \<noteq> None"
      using sh graph_store.rep_present [OF assms(1,2)] by auto
    then show False using edge_id_fresh [OF assms(3,4)] by simp
  qed
  then show ?thesis using res files' by auto
qed

theorem add_edge_partial_failure_witness:
  "\<exists>e db'. AddEdge kvs_bolt str_codec (str_wcodec 1) 1 2 ''KNOWS'' [] ((sampleDB 2)\<lparr>db_faults := [None, Some ErrWriteQueueFull]\<rparr>) = (Inl e, db') \<and>
     (\<forall>G'. \<not> edges_rep kvs_bolt str_codec (files db') G')"
proof -
  let ?db = "(sampleDB 2)\<lparr>db_faults := [None, Some ErrWriteQueueFull]\<rparr>"
  let ?e = "\<lparr>e_id = 1, e_from = 1, e_to = 2, e_label = ''KNOWS'', e_props = []\<rparr>"
  have sh: "shardFor ?db 1 = 1" "shardFor ?db 2 = 0" by (simp_all add: shardFor_def)
  have f: "files ?db ! 1 = sampleFile" by (simp add: files_def sampleDB_def)
  obtain data where data: "encodeEdge str_codec ?e = Inr data" and "length data \<le> MaxValueSize"
    by (simp add: encodeEdge_def encodeProps_def str_codec_def Let_def enc_strs_def)
  then obtain d where d: "addEdgeSrcTx kvs_bolt str_codec ?e sampleFile = Inr d"
    by (simp add: addEdgeSrcTx_def kvs_bolt_def enc_simps)
  have v: "verifyNodeExists kvs_bolt ?db 1 = Inr ()" "verifyNodeExists kvs_bolt ?db 2 = Inr ()"
    unfolding verifyNodeExists_def viewing_def sh by (simp_all add: sampleDB_def sampleFile_def kvs_bolt_def)
  have rep: "edges_rep kvs_bolt str_codec (files ?db) Map.empty" using edges_rep_sample [of 2] by simp
  show ?thesis
    using add_edge_partial_failure [OF kvs_store.graph_store_axioms rep _ _ _ _ _ _ v, where label = "''KNOWS''" and props = "[]" and W = "str_wcodec 1" and d = d and err = ErrWriteQueueFull]
      d f sh by (fastforce simp: isFollower_def)
qed

end
