(* ===== verification/NodeRep.thy ===== *)
theory NodeRep
  imports NodeOps EdgeRep
begin

text \<open>
  What the node buckets of all shards represent: a map from node identifiers to a label list and a
  property map. Five buckets describe it (the node records, the label records, the label index, the
  property index and the composite index). Every key of these buckets ends in the identifier of the node
  it belongs to, so that one lemma about a set of keys per node covers all of them. The relation for
  unique constraints is one-sided: every labelled node of a shard owns its entries there.
\<close>

type_synonym nrec = "string list \<times> Props"
type_synonym graph_nodes = "NodeID \<rightharpoonup> nrec"

section \<open>Keys owned by a node\<close>

definition owns :: "NodeID \<Rightarrow> bytes \<Rightarrow> bool" where
  "owns i k \<longleftrightarrow> (\<exists>p. k = p @ encodeNodeID i)"

lemma owns_unique: "owns i k \<Longrightarrow> owns j k \<Longrightarrow> i = j"
  unfolding owns_def by (metis append_eq_append_conv encode_id_inject(1) length_encode_id(1))

lemma owns_self [simp]: "owns i (encodeNodeID i)" "owns i (p @ encodeNodeID i)"
  by (auto simp: owns_def)

definition owned :: "(NodeID \<Rightarrow> nrec \<Rightarrow> bytes set) \<Rightarrow> bool" where
  "owned K \<longleftrightarrow> (\<forall>i x. \<forall>k \<in> K i x. owns i k)"

definition keysOf :: "(NodeID \<Rightarrow> nrec \<Rightarrow> bytes set) \<Rightarrow> NodeID \<Rightarrow> nrec option \<Rightarrow> bytes set" where
  "keysOf K i x = (case x of None \<Rightarrow> {} | Some x \<Rightarrow> K i x)"

lemma keysOf_simps [simp]: "keysOf K i None = {}" "keysOf K i (Some x) = K i x"
  by (simp_all add: keysOf_def)

text \<open>The keys present in the shards are those of the nodes, each in the shard of its node.\<close>

definition rep_keys :: "nat \<Rightarrow> (NodeID \<Rightarrow> nrec \<Rightarrow> bytes set) \<Rightarrow> lookup \<Rightarrow> graph_nodes \<Rightarrow> bool" where
  "rep_keys n K T N \<longleftrightarrow> (\<forall>s < n. \<forall>k. T s k \<noteq> None \<longleftrightarrow> (\<exists>i x. N i = Some x \<and> route n i = s \<and> k \<in> K i x))"

definition rep_vals :: "nat \<Rightarrow> (nrec \<Rightarrow> bytes \<Rightarrow> bool) \<Rightarrow> lookup \<Rightarrow> graph_nodes \<Rightarrow> bool" where
  "rep_vals n V T N \<longleftrightarrow> (\<forall>i v. T (route n i) (encodeNodeID i) = Some v \<longrightarrow> (\<exists>x. N i = Some x \<and> V x v))"

lemma rep_keys_own:
  assumes "rep_keys n K T N" and "owned K" and "owns i k" and "route n i < n"
  shows "T (route n i) k \<noteq> None \<longleftrightarrow> k \<in> keysOf K i (N i)"
proof -
  have "T (route n i) k \<noteq> None \<longleftrightarrow> (\<exists>j x. N j = Some x \<and> route n j = route n i \<and> k \<in> K j x)"
    using assms(1,4) unfolding rep_keys_def by blast
  also have "\<dots> \<longleftrightarrow> k \<in> keysOf K i (N i)"
  proof -
    have "j = i" if "k \<in> K j x" for j x using assms(2,3) owns_unique that unfolding owned_def by blast
    then show ?thesis by (cases "N i") (auto simp del: split_paired_Ex split_paired_All)
  qed
  finally show ?thesis .
qed

text \<open>One node changes: its own keys become those of the new record, all others stay.\<close>

lemma rep_keys_upd:
  assumes "rep_keys n K T N" and "owned K" and "0 < n"
    and other: "\<And>s. s \<noteq> route n i \<Longrightarrow> T' s = T s"
    and own: "\<And>k. owns i k \<Longrightarrow> T' (route n i) k \<noteq> None \<longleftrightarrow> k \<in> keysOf K i x'"
    and rest: "\<And>k. \<not> owns i k \<Longrightarrow> T' (route n i) k \<noteq> None \<longleftrightarrow> T (route n i) k \<noteq> None"
  shows "rep_keys n K T' (N(i := x'))"
  unfolding rep_keys_def
proof (intro allI impI)
  fix s k assume s: "s < n"
  let ?R = "\<exists>j x. (N(i := x')) j = Some x \<and> route n j = s \<and> k \<in> K j x"
  have old: "T s k \<noteq> None \<longleftrightarrow> (\<exists>j x. N j = Some x \<and> route n j = s \<and> k \<in> K j x)"
    using assms(1) s unfolding rep_keys_def by blast
  have ownK: "\<And>j x. k \<in> K j x \<Longrightarrow> owns j k" using assms(2) by (auto simp: owned_def)
  show "T' s k \<noteq> None \<longleftrightarrow> ?R"
  proof (cases "s = route n i")
    case True
    show ?thesis
    proof (cases "owns i k")
      case own_k: True
      have "?R \<longleftrightarrow> k \<in> keysOf K i x'"
        using True ownK owns_unique [OF own_k] by (cases x') (auto simp del: split_paired_Ex split_paired_All split: if_splits)
      then show ?thesis using own [OF own_k] True by simp
    next
      case False
      then have "?R \<longleftrightarrow> (\<exists>j x. N j = Some x \<and> route n j = s \<and> k \<in> K j x)" using ownK by (metis fun_upd_apply)
      then show ?thesis using old rest [OF False] True by simp
    qed
  next
    case False
    then have "?R \<longleftrightarrow> (\<exists>j x. N j = Some x \<and> route n j = s \<and> k \<in> K j x)" by (metis fun_upd_apply)
    then show ?thesis using old other [OF False] by simp
  qed
qed

lemma rep_vals_upd:
  assumes "rep_vals n V T N"
    and other: "\<And>s. s \<noteq> route n i \<Longrightarrow> T' s = T s"
    and own: "\<And>v. T' (route n i) (encodeNodeID i) = Some v \<Longrightarrow> \<exists>x. x' = Some x \<and> V x v"
    and rest: "\<And>j. j \<noteq> i \<Longrightarrow> T' (route n i) (encodeNodeID j) = T (route n i) (encodeNodeID j)"
  shows "rep_vals n V T' (N(i := x'))"
  unfolding rep_vals_def
proof (intro allI impI)
  fix j v assume j: "T' (route n j) (encodeNodeID j) = Some v"
  show "\<exists>x. (N(i := x')) j = Some x \<and> V x v"
  proof (cases "j = i")
    case True
    then show ?thesis using own j by simp
  next
    case False
    then have "T (route n j) (encodeNodeID j) = Some v" using j other [of "route n j"] rest [of j] by (cases "route n j = route n i") auto
    then show ?thesis using assms(1) False by (simp add: rep_vals_def)
  qed
qed

section \<open>The five buckets\<close>

definition nodeKeys :: "NodeID \<Rightarrow> nrec \<Rightarrow> bytes set" where
  "nodeKeys i x = {encodeNodeID i}"

definition labelRecKeys :: "NodeID \<Rightarrow> nrec \<Rightarrow> bytes set" where
  "labelRecKeys i x = (if fst x = [] then {} else {encodeNodeID i})"

definition labelKeys :: "NodeID \<Rightarrow> nrec \<Rightarrow> bytes set" where
  "labelKeys i x = (\<lambda>l. encodeLabelIndexKey l i) ` set (fst x)"

definition propKeyList :: "codec \<Rightarrow> string list \<Rightarrow> NodeID \<Rightarrow> Props \<Rightarrow> bytes list" where
  "propKeyList C idx i ps = concat (map (\<lambda>p. case map_of ps p of None \<Rightarrow> [] | Some v \<Rightarrow> [propIdxKey C p v i]) idx)"

definition compKeyList :: "codec \<Rightarrow> (string \<times> compositeIndexDef) list \<Rightarrow> NodeID \<Rightarrow> Props \<Rightarrow> bytes list" where
  "compKeyList C defs i ps = concat (map (\<lambda>kd. case buildCompositeKey C (snd kd) ps i of None \<Rightarrow> [] | Some k \<Rightarrow> [k]) defs)"

definition propKeys :: "codec \<Rightarrow> string list \<Rightarrow> NodeID \<Rightarrow> nrec \<Rightarrow> bytes set" where
  "propKeys C idx i x = set (propKeyList C idx i (snd x))"

definition compKeys :: "codec \<Rightarrow> (string \<times> compositeIndexDef) list \<Rightarrow> NodeID \<Rightarrow> nrec \<Rightarrow> bytes set" where
  "compKeys C defs i x = set (compKeyList C defs i (snd x))"

lemma encodeIndexKey_owns [simp]: "owns i (encodeIndexKey p i)"
  by (auto simp: owns_def encodeIndexKey_def encodeNodeID_def encodeUint64_def intro!: exI [of _ "p @ [CHR 0x00]"])

lemma owned_keys: "owned nodeKeys" "owned labelRecKeys" "owned labelKeys" "owned (propKeys C idx)" "owned (compKeys C defs)"
proof -
  show "owned (compKeys C defs)"
    by (auto simp: owned_def compKeys_def compKeyList_def buildCompositeKey_def encodeNodeID_def encodeUint64_def owns_def
        split: option.splits intro: append_assoc [symmetric])
qed (auto simp: owned_def nodeKeys_def labelRecKeys_def labelKeys_def propKeys_def propKeyList_def
      encodeLabelIndexKey_index propIdxKey_def split: if_splits option.splits)

definition propsVal :: "codec \<Rightarrow> nrec \<Rightarrow> bytes \<Rightarrow> bool" where
  "propsVal C x v \<longleftrightarrow> (\<exists>q. decodeProps C v = Inr q \<and> text_eq C (snd x) q)"

definition labelsVal :: "codec \<Rightarrow> nrec \<Rightarrow> bytes \<Rightarrow> bool" where
  "labelsVal C x v \<longleftrightarrow> c_unmarshal_labels C v = Inr (fst x)"

definition nodes_rep :: "'b bolt \<Rightarrow> codec \<Rightarrow> 'b buckets list \<Rightarrow> graph_nodes \<Rightarrow> bool" where
  "nodes_rep B C ds N \<longleftrightarrow> ds \<noteq> [] \<and>
     rep_keys (length ds) nodeKeys (\<lambda>s. b_get B (bk_nodes (ds ! s))) N \<and>
     rep_vals (length ds) (propsVal C) (\<lambda>s. b_get B (bk_nodes (ds ! s))) N \<and>
     rep_keys (length ds) labelRecKeys (\<lambda>s. b_get B (bk_node_labels (ds ! s))) N \<and>
     rep_vals (length ds) (labelsVal C) (\<lambda>s. b_get B (bk_node_labels (ds ! s))) N \<and>
     rep_keys (length ds) labelKeys (\<lambda>s. b_get B (bk_idx_node_label (ds ! s))) N"

definition index_rep :: "'b bolt \<Rightarrow> codec \<Rightarrow> string list \<Rightarrow> (string \<times> compositeIndexDef) list \<Rightarrow> 'b buckets list \<Rightarrow> graph_nodes \<Rightarrow> bool" where
  "index_rep B C idx defs ds N \<longleftrightarrow> (\<forall>kd \<in> set defs. cid_Properties (snd kd) \<noteq> []) \<and>
     rep_keys (length ds) (propKeys C idx) (\<lambda>s. b_get B (bk_idx_prop (ds ! s))) N \<and>
     rep_keys (length ds) (compKeys C defs) (\<lambda>s. b_get B (bk_idx_composite (ds ! s))) N"

text \<open>Index keys depend on the text of the values only.\<close>

lemma compositeValues_text: "text_eq C p q \<Longrightarrow> compositeValues C p ps = compositeValues C q ps"
proof (induction ps)
  case (Cons a ps)
  have "map_option (fmtv C) (map_of p a) = map_option (fmtv C) (map_of q a)" using Cons.prems by (simp add: same_text_def)
  then show ?case using Cons by (auto split: option.splits)
qed simp

lemma propKeyList_text:
  assumes "text_eq C p q"
  shows "propKeyList C idx i p = propKeyList C idx i q"
proof -
  have "(case map_of p a of None \<Rightarrow> [] | Some v \<Rightarrow> [propIdxKey C a v i]) = (case map_of q a of None \<Rightarrow> [] | Some v \<Rightarrow> [propIdxKey C a v i])" for a
  proof -
    have "map_option (fmtv C) (map_of p a) = map_option (fmtv C) (map_of q a)" using assms by (simp add: same_text_def)
    then show ?thesis by (cases "map_of p a"; cases "map_of q a") (auto simp: propIdxKey_def)
  qed
  then show ?thesis by (simp add: propKeyList_def)
qed

lemma compKeyList_text: "text_eq C p q \<Longrightarrow> compKeyList C defs i p = compKeyList C defs i q"
  by (simp add: compKeyList_def buildCompositeKey_def compositeValues_text [of C p q])

lemma text_eq_merge: "text_eq C p q \<Longrightarrow> text_eq C (props_merge p r) (props_merge q r)"
  by (auto simp: same_text_def map_of_props_merge map_add_def split: option.splits)

lemma text_eq_Nil: "text_eq C p [] \<longleftrightarrow> p = []" "text_eq C [] p \<longleftrightarrow> p = []"
  using same_text_keys [of "c_fmt_float C" p "[]"] same_text_keys [of "c_fmt_float C" "[]" p] by auto

lemma keyList_Nil: "propKeyList C idx i [] = []" "(\<forall>kd \<in> set defs. cid_Properties (snd kd) \<noteq> []) \<Longrightarrow> compKeyList C defs i [] = []"
proof -
  show "propKeyList C idx i [] = []" by (simp add: propKeyList_def)
  assume a: "\<forall>kd \<in> set defs. cid_Properties (snd kd) \<noteq> []"
  have "buildCompositeKey C (snd kd) [] i = None" if "kd \<in> set defs" for kd
    using a that by (cases "cid_Properties (snd kd)") (auto simp: buildCompositeKey_def)
  then show "compKeyList C defs i [] = []" by (simp add: compKeyList_def)
qed

section \<open>One node changes\<close>

definition node_change :: "'b bolt \<Rightarrow> codec \<Rightarrow> NodeID \<Rightarrow> nrec option \<Rightarrow> 'b buckets \<Rightarrow> 'b buckets \<Rightarrow> bool" where
  "node_change B C i x d d' \<longleftrightarrow>
     (\<exists>v. b_get B (bk_nodes d') = (b_get B (bk_nodes d))(encodeNodeID i := v) \<and>
        (case x of None \<Rightarrow> v = None | Some x \<Rightarrow> \<exists>b. v = Some b \<and> propsVal C x b)) \<and>
     (\<exists>v. b_get B (bk_node_labels d') = (b_get B (bk_node_labels d))(encodeNodeID i := v) \<and>
        (case x of None \<Rightarrow> v = None | Some x \<Rightarrow> if fst x = [] then v = None else \<exists>b. v = Some b \<and> labelsVal C x b)) \<and>
     (\<forall>k. if owns i k then b_get B (bk_idx_node_label d') k \<noteq> None \<longleftrightarrow> k \<in> keysOf labelKeys i x
          else b_get B (bk_idx_node_label d') k = b_get B (bk_idx_node_label d) k) \<and>
     edge_frame B d d'"

definition keys_replaced :: "(bytes \<rightharpoonup> bytes) \<Rightarrow> bytes set \<Rightarrow> bytes set \<Rightarrow> (bytes \<rightharpoonup> bytes) \<Rightarrow> bool" where
  "keys_replaced T old new T' \<longleftrightarrow> (\<forall>k. T' k \<noteq> None \<longleftrightarrow> T k \<noteq> None \<and> k \<notin> old \<or> k \<in> new)"

definition index_change :: "'b bolt \<Rightarrow> codec \<Rightarrow> string list \<Rightarrow> (string \<times> compositeIndexDef) list \<Rightarrow> NodeID \<Rightarrow> nrec option \<Rightarrow> nrec option \<Rightarrow> 'b buckets \<Rightarrow> 'b buckets \<Rightarrow> bool" where
  "index_change B C idx defs i x x' d d' \<longleftrightarrow>
     keys_replaced (b_get B (bk_idx_prop d)) (keysOf (propKeys C idx) i x) (keysOf (propKeys C idx) i x') (b_get B (bk_idx_prop d')) \<and>
     keys_replaced (b_get B (bk_idx_composite d)) (keysOf (compKeys C defs) i x) (keysOf (compKeys C defs) i x') (b_get B (bk_idx_composite d'))"

lemma rep_keys_replaced:
  assumes "rep_keys n K T N" and "owned K" and "0 < n"
    and other: "\<And>s. s \<noteq> route n i \<Longrightarrow> T' s = T s"
    and new: "keys_replaced (T (route n i)) (keysOf K i (N i)) (keysOf K i x') (T' (route n i))"
  shows "rep_keys n K T' (N(i := x'))"
proof (rule rep_keys_upd [OF assms(1-3) other])
  have own: "k \<in> keysOf K i x \<Longrightarrow> owns i k" for k x
    using assms(2) by (cases x) (auto simp: owned_def)
  show "T' (route n i) k \<noteq> None \<longleftrightarrow> k \<in> keysOf K i x'" if "owns i k" for k
    using new rep_keys_own [OF assms(1,2) that route_less [OF assms(3)]] unfolding keys_replaced_def by blast
  show "T' (route n i) k \<noteq> None \<longleftrightarrow> T (route n i) k \<noteq> None" if "\<not> owns i k" for k
    using new own that unfolding keys_replaced_def by blast
qed

lemma nodes_rep_change:
  assumes rep: "nodes_rep B C ds N" and ch: "node_change B C i x (ds ! route (length ds) i) d'"
  shows "nodes_rep B C (ds[route (length ds) i := d']) (N(i := x))"
proof -
  let ?r = "route (length ds) i"
  note r = rep [unfolded nodes_rep_def]
  have n: "0 < length ds" using r by simp
  have lt: "?r < length ds" by (rule route_less [OF n])
  obtain v where v: "b_get B (bk_nodes d') = (b_get B (bk_nodes (ds ! ?r)))(encodeNodeID i := v)"
    and vx: "case x of None \<Rightarrow> v = None | Some x \<Rightarrow> \<exists>b. v = Some b \<and> propsVal C x b"
    using ch unfolding node_change_def by blast
  obtain w where w: "b_get B (bk_node_labels d') = (b_get B (bk_node_labels (ds ! ?r)))(encodeNodeID i := w)"
    and wx: "case x of None \<Rightarrow> w = None | Some x \<Rightarrow> if fst x = [] then w = None else \<exists>b. w = Some b \<and> labelsVal C x b"
    using ch unfolding node_change_def by blast
  have l: "if owns i k then b_get B (bk_idx_node_label d') k \<noteq> None \<longleftrightarrow> k \<in> keysOf labelKeys i x
          else b_get B (bk_idx_node_label d') k = b_get B (bk_idx_node_label (ds ! ?r)) k" for k
    using ch unfolding node_change_def by blast
  have self: "owns i k \<Longrightarrow> k = encodeNodeID j \<Longrightarrow> j = i" for k j by (metis owns_unique owns_self(1))
  have nodes: "rep_keys (length ds) nodeKeys (\<lambda>s. b_get B (bk_nodes (ds[?r := d'] ! s))) (N(i := x))"
  proof (rule rep_keys_replaced [OF _ owned_keys(1) n])
    show "rep_keys (length ds) nodeKeys (\<lambda>s. b_get B (bk_nodes (ds ! s))) N" using r by simp
    show "keys_replaced (b_get B (bk_nodes (ds ! ?r))) (keysOf nodeKeys i (N i)) (keysOf nodeKeys i x) (b_get B (bk_nodes (ds[?r := d'] ! ?r)))"
    proof -
      have "b_get B (bk_nodes (ds ! ?r)) (encodeNodeID i) \<noteq> None \<longleftrightarrow> encodeNodeID i \<in> keysOf nodeKeys i (N i)"
        by (rule rep_keys_own [OF _ owned_keys(1) owns_self(1) lt]) (use r in simp)
      then show ?thesis using lt v vx unfolding keys_replaced_def
        by (cases x; cases "N i") (auto simp: nodeKeys_def)
    qed
  qed simp
  have labels: "rep_keys (length ds) labelRecKeys (\<lambda>s. b_get B (bk_node_labels (ds[?r := d'] ! s))) (N(i := x))"
  proof (rule rep_keys_replaced [OF _ owned_keys(2) n])
    show "rep_keys (length ds) labelRecKeys (\<lambda>s. b_get B (bk_node_labels (ds ! s))) N" using r by simp
    show "keys_replaced (b_get B (bk_node_labels (ds ! ?r))) (keysOf labelRecKeys i (N i)) (keysOf labelRecKeys i x) (b_get B (bk_node_labels (ds[?r := d'] ! ?r)))"
    proof -
      have "b_get B (bk_node_labels (ds ! ?r)) (encodeNodeID i) \<noteq> None \<longleftrightarrow> encodeNodeID i \<in> keysOf labelRecKeys i (N i)"
        by (rule rep_keys_own [OF _ owned_keys(2) owns_self(1) lt]) (use r in simp)
      then show ?thesis using lt w wx unfolding keys_replaced_def
        by (cases x; cases "N i") (auto simp: labelRecKeys_def split: if_splits)
    qed
  qed simp
  have index: "rep_keys (length ds) labelKeys (\<lambda>s. b_get B (bk_idx_node_label (ds[?r := d'] ! s))) (N(i := x))"
  proof (rule rep_keys_upd [OF _ owned_keys(3) n])
    show "rep_keys (length ds) labelKeys (\<lambda>s. b_get B (bk_idx_node_label (ds ! s))) N" using r by simp
    show "b_get B (bk_idx_node_label (ds[?r := d'] ! ?r)) k \<noteq> None \<longleftrightarrow> k \<in> keysOf labelKeys i x" if "owns i k" for k
      using l [of k] that lt by simp
    show "b_get B (bk_idx_node_label (ds[?r := d'] ! ?r)) k \<noteq> None \<longleftrightarrow> b_get B (bk_idx_node_label (ds ! ?r)) k \<noteq> None" if "\<not> owns i k" for k
      using l [of k] that lt by simp
  qed simp
  have vals: "rep_vals (length ds) (propsVal C) (\<lambda>s. b_get B (bk_nodes (ds[?r := d'] ! s))) (N(i := x))"
    by (rule rep_vals_upd) (use r v vx lt in \<open>auto split: option.splits\<close>)
  have lvals: "rep_vals (length ds) (labelsVal C) (\<lambda>s. b_get B (bk_node_labels (ds[?r := d'] ! s))) (N(i := x))"
    by (rule rep_vals_upd) (use r w wx lt in \<open>auto split: option.splits if_splits\<close>)
  show ?thesis using nodes labels index vals lvals r by (simp add: nodes_rep_def)
qed

lemma index_rep_change:
  assumes rep: "index_rep B C idx defs ds N" and "ds \<noteq> []" and ch: "index_change B C idx defs i (N i) x (ds ! route (length ds) i) d'"
  shows "index_rep B C idx defs (ds[route (length ds) i := d']) (N(i := x))"
proof -
  note r = rep [unfolded index_rep_def]
  have n: "0 < length ds" using assms(2) by simp
  have lt: "route (length ds) i < length ds" by (rule route_less [OF n])
  have "rep_keys (length ds) (propKeys C idx) (\<lambda>s. b_get B (bk_idx_prop (ds[route (length ds) i := d'] ! s))) (N(i := x))"
    by (rule rep_keys_replaced [OF _ owned_keys(4) n]) (use r ch lt in \<open>auto simp: index_change_def\<close>)
  moreover have "rep_keys (length ds) (compKeys C defs) (\<lambda>s. b_get B (bk_idx_composite (ds[route (length ds) i := d'] ! s))) (N(i := x))"
    by (rule rep_keys_replaced [OF _ owned_keys(5) n]) (use r ch lt in \<open>auto simp: index_change_def\<close>)
  ultimately show ?thesis using r by (simp add: index_rep_def)
qed

text \<open>The record a file holds for a node, and what the file has for it in the indexes.\<close>

abbreviation node_at :: "'b bolt \<Rightarrow> codec \<Rightarrow> NodeID \<Rightarrow> nrec option \<Rightarrow> 'b buckets \<Rightarrow> bool" where
  "node_at B C i x d \<equiv> node_change B C i x d d"

abbreviation index_at :: "'b bolt \<Rightarrow> codec \<Rightarrow> string list \<Rightarrow> (string \<times> compositeIndexDef) list \<Rightarrow> NodeID \<Rightarrow> nrec option \<Rightarrow> 'b buckets \<Rightarrow> bool" where
  "index_at B C idx defs i x d \<equiv> index_change B C idx defs i x x d d"

lemma edge_frame_refl [simp]: "edge_frame B d d"
  by (simp add: edge_frame_def)

lemma node_at_def:
  "node_at B C i x d \<longleftrightarrow>
     (case x of None \<Rightarrow> b_get B (bk_nodes d) (encodeNodeID i) = None
      | Some x \<Rightarrow> \<exists>b. b_get B (bk_nodes d) (encodeNodeID i) = Some b \<and> propsVal C x b) \<and>
     (case x of None \<Rightarrow> b_get B (bk_node_labels d) (encodeNodeID i) = None
      | Some x \<Rightarrow> if fst x = [] then b_get B (bk_node_labels d) (encodeNodeID i) = None
                  else \<exists>b. b_get B (bk_node_labels d) (encodeNodeID i) = Some b \<and> labelsVal C x b) \<and>
     (\<forall>k. owns i k \<longrightarrow> (b_get B (bk_idx_node_label d) k \<noteq> None \<longleftrightarrow> k \<in> keysOf labelKeys i x))"
proof -
  have upd: "(\<exists>v. g = g(a := v) \<and> P v) \<longleftrightarrow> P (g a)" for g :: "bytes \<rightharpoonup> bytes" and a P
    by (metis fun_upd_apply fun_upd_triv)
  show ?thesis unfolding node_change_def upd by auto
qed

lemma node_changeI:
  assumes "node_at B C i x d'" and "edge_frame B d d'"
    and "\<And>k. k \<noteq> encodeNodeID i \<Longrightarrow> b_get B (bk_nodes d') k = b_get B (bk_nodes d) k"
    and "\<And>k. k \<noteq> encodeNodeID i \<Longrightarrow> b_get B (bk_node_labels d') k = b_get B (bk_node_labels d) k"
    and "\<And>k. \<not> owns i k \<Longrightarrow> b_get B (bk_idx_node_label d') k = b_get B (bk_idx_node_label d) k"
  shows "node_change B C i x d d'"
proof -
  have upd: "f = g(a := f a)" if "\<And>k. k \<noteq> a \<Longrightarrow> f k = g k" for f g :: "bytes \<rightharpoonup> bytes" and a
    using that by (auto simp: fun_eq_iff)
  have n: "b_get B (bk_nodes d') = (b_get B (bk_nodes d))(encodeNodeID i := b_get B (bk_nodes d') (encodeNodeID i))"
    by (rule upd) (rule assms(3))
  have l: "b_get B (bk_node_labels d') = (b_get B (bk_node_labels d))(encodeNodeID i := b_get B (bk_node_labels d') (encodeNodeID i))"
    by (rule upd) (rule assms(4))
  note at = assms(1) [unfolded node_at_def]
  show ?thesis unfolding node_change_def
  proof (intro conjI)
    show "\<exists>v. b_get B (bk_nodes d') = (b_get B (bk_nodes d))(encodeNodeID i := v) \<and>
        (case x of None \<Rightarrow> v = None | Some x \<Rightarrow> \<exists>b. v = Some b \<and> propsVal C x b)"
      using n at by blast
    show "\<exists>v. b_get B (bk_node_labels d') = (b_get B (bk_node_labels d))(encodeNodeID i := v) \<and>
        (case x of None \<Rightarrow> v = None | Some x \<Rightarrow> if fst x = [] then v = None else \<exists>b. v = Some b \<and> labelsVal C x b)"
      using l at by blast
  qed (use assms(2,5) at in auto)
qed

lemma rep_node_at:
  assumes "nodes_rep B C ds N"
  shows "node_at B C i (N i) (ds ! route (length ds) i)"
proof -
  let ?r = "route (length ds) i"
  note r = assms [unfolded nodes_rep_def]
  have lt: "?r < length ds" using r by (simp add: route_less)
  have a: "b_get B (bk_nodes (ds ! ?r)) (encodeNodeID i) \<noteq> None \<longleftrightarrow> encodeNodeID i \<in> keysOf nodeKeys i (N i)"
    by (rule rep_keys_own [OF _ owned_keys(1) owns_self(1) lt]) (use r in simp)
  have b: "b_get B (bk_node_labels (ds ! ?r)) (encodeNodeID i) \<noteq> None \<longleftrightarrow> encodeNodeID i \<in> keysOf labelRecKeys i (N i)"
    by (rule rep_keys_own [OF _ owned_keys(2) owns_self(1) lt]) (use r in simp)
  have c: "b_get B (bk_idx_node_label (ds ! ?r)) k \<noteq> None \<longleftrightarrow> k \<in> keysOf labelKeys i (N i)" if "owns i k" for k
    by (rule rep_keys_own [OF _ owned_keys(3) that lt]) (use r in simp)
  have v: "b_get B (bk_nodes (ds ! ?r)) (encodeNodeID i) = Some v \<Longrightarrow> \<exists>x. N i = Some x \<and> propsVal C x v" for v
    using r by (simp add: rep_vals_def)
  have w: "b_get B (bk_node_labels (ds ! ?r)) (encodeNodeID i) = Some v \<Longrightarrow> \<exists>x. N i = Some x \<and> labelsVal C x v" for v
    using r by (simp add: rep_vals_def)
  show ?thesis
  proof (cases "N i")
    case None
    then show ?thesis using a b c by (simp add: node_at_def)
  next
    case (Some x)
    obtain q where q: "b_get B (bk_nodes (ds ! ?r)) (encodeNodeID i) = Some q" using a Some by (auto simp: nodeKeys_def)
    then have "propsVal C x q" using v Some by auto
    moreover have "fst x \<noteq> [] \<Longrightarrow> \<exists>q. b_get B (bk_node_labels (ds ! ?r)) (encodeNodeID i) = Some q \<and> labelsVal C x q"
      using b w Some by (auto simp: labelRecKeys_def)
    moreover have "fst x = [] \<Longrightarrow> b_get B (bk_node_labels (ds ! ?r)) (encodeNodeID i) = None"
      using b Some by (simp add: labelRecKeys_def)
    ultimately show ?thesis using Some q c by (simp add: node_at_def)
  qed
qed

lemma rep_index_at:
  assumes "index_rep B C idx defs ds N" and "ds \<noteq> []"
  shows "index_at B C idx defs i (N i) (ds ! route (length ds) i)"
proof -
  have lt: "route (length ds) i < length ds" using assms(2) by (simp add: route_less)
  have own: "owned K \<Longrightarrow> k \<in> keysOf K i x \<Longrightarrow> owns i k" for K k x
    by (cases x) (auto simp: owned_def)
  have "keys_replaced T (keysOf K i (N i)) (keysOf K i (N i)) T"
    if "rep_keys (length ds) K T0 N" "owned K" "T = T0 (route (length ds) i)" for K T0 T
    using rep_keys_own [OF that(1,2) own [OF that(2)] lt] that(3) unfolding keys_replaced_def by auto
  then show ?thesis using assms(1) owned_keys(4,5) unfolding index_rep_def index_change_def by blast
qed

lemma node_at_labels: "node_at B C i (Some (ls, ps)) d \<Longrightarrow> loadLabels B C d i = ls"
  by (auto simp: node_at_def loadLabels_def labelsVal_def split: if_splits)

lemma node_at_unlabelled: "node_at B C i None d \<Longrightarrow> loadLabels B C d i = []"
  by (auto simp: node_at_def loadLabels_def)

lemma node_at_data:
  assumes "node_at B C i x d"
  shows "b_get B (bk_nodes d) (encodeNodeID i) = None \<longleftrightarrow> x = None"
    and "b_get B (bk_nodes d) (encodeNodeID i) = Some data \<Longrightarrow> \<exists>ls ps q. x = Some (ls, ps) \<and> decodeProps C data = Inr q \<and> text_eq C ps q"
  using assms by (auto simp: node_at_def propsVal_def split: option.splits)

section \<open>Index maintenance\<close>

lemma efold_unfold: "efold f [] = Inr" "efold f (x # xs) = (\<lambda>s. ebind (f x s) (efold f xs))"
  by (simp_all add: fun_eq_iff)

lemma efold_map: "efold f (map g xs) = efold (\<lambda>x. f (g x)) xs"
  by (induction xs) (simp_all add: efold_unfold del: efold.simps)

lemma keys_replaced_trans:
  "keys_replaced T old {} T1 \<Longrightarrow> keys_replaced T1 {} new T2 \<Longrightarrow> keys_replaced T old new T2"
  by (simp add: keys_replaced_def)

lemma efold_keys:
  "efold (\<lambda>a b. case g a of None \<Rightarrow> Inr b | Some v \<Rightarrow> f (h a v) b) xs =
   efold f (concat (map (\<lambda>a. case g a of None \<Rightarrow> [] | Some v \<Rightarrow> [h a v]) xs))"
  by (induction xs) (auto simp: efold_unfold simp del: efold.simps split: option.splits)

lemma maintenance_lists:
  "indexProps B C idx i ps b = efold (\<lambda>k b. b_put B b k []) (propKeyList C idx i ps) b"
  "unindexProps B C idx i ps b = efold (\<lambda>k b. b_del B b k) (propKeyList C idx i ps) b"
  "indexNodeComposite B C defs i ps b = efold (\<lambda>k b. b_put B b k []) (compKeyList C defs i ps) b"
  "unindexNodeComposite B C defs i ps b = efold (\<lambda>k b. b_del B b k) (compKeyList C defs i ps) b"
  unfolding indexProps_def unindexProps_def propKeyList_def indexNodeComposite_def unindexNodeComposite_def compKeyList_def
  by (simp_all add: efold_keys [where f = "\<lambda>k b. b_put B b k []" and h = "\<lambda>p v. propIdxKey C p v i"]
      efold_keys [where f = "\<lambda>k b. b_del B b k" and h = "\<lambda>p v. propIdxKey C p v i"]
      efold_keys [where f = "\<lambda>k b. b_put B b k []" and h = "\<lambda>p v. v"]
      efold_keys [where f = "\<lambda>k b. b_del B b k" and h = "\<lambda>p v. v"])

definition defs_ok :: "(string \<times> compositeIndexDef) list \<Rightarrow> bool" where
  "defs_ok defs \<longleftrightarrow> (\<forall>kd \<in> set defs. cid_Properties (snd kd) \<noteq> [])"

context bolt_laws
begin

lemma efold_put: "efold (\<lambda>k b. b_put B b k []) ks b = Inr b' \<Longrightarrow> b_get B b' = (\<lambda>k. if k \<in> set ks then Some [] else b_get B b k)"
proof (induction ks arbitrary: b)
  case (Cons k ks)
  then obtain b1 where b1: "b_put B b k [] = Inr b1" "efold (\<lambda>k b. b_put B b k []) ks b1 = Inr b'" by auto
  then show ?case using Cons.IH [OF b1(2)] get_put [OF b1(1)] by (auto simp: fun_eq_iff)
qed simp

lemma indexNodeProps_change:
  assumes "indexNodeProps B C db i ps d = Inr d'" and "defs_ok (db_compositeIndexes db)"
  shows "\<exists>u w. d' = d\<lparr>bk_idx_prop := u, bk_idx_composite := w\<rparr> \<and>
    keys_replaced (b_get B (bk_idx_prop d)) {} (set (propKeyList C (db_indexedProps db) i ps)) (b_get B u) \<and>
    keys_replaced (b_get B (bk_idx_composite d)) {} (set (compKeyList C (db_compositeIndexes db) i ps)) (b_get B w)"
proof (cases "ps = []")
  case True
  then show ?thesis using assms keyList_Nil(2) [of "db_compositeIndexes db"] keyList_Nil(1)
    by (intro exI [of _ "bk_idx_prop d"] exI [of _ "bk_idx_composite d"]) (simp_all add: indexNodeProps_def keys_replaced_def defs_ok_def)
next
  case False
  then obtain u w where uw: "efold (\<lambda>k b. b_put B b k []) (propKeyList C (db_indexedProps db) i ps) (bk_idx_prop d) = Inr u"
      "efold (\<lambda>k b. b_put B b k []) (compKeyList C (db_compositeIndexes db) i ps) (bk_idx_composite d) = Inr w"
      "d' = d\<lparr>bk_idx_prop := u, bk_idx_composite := w\<rparr>"
    using assms(1) by (auto simp: indexNodeProps_def maintenance_lists)
  then show ?thesis
    by (intro exI [of _ u] exI [of _ w]) (auto simp: keys_replaced_def efold_put [OF uw(1)] efold_put [OF uw(2)])
qed

lemma unindexNodeProps_change:
  assumes "defs_ok (db_compositeIndexes db)"
  shows "\<exists>u w. unindexNodeProps B C db i ps d = Inr (d\<lparr>bk_idx_prop := u, bk_idx_composite := w\<rparr>) \<and>
    keys_replaced (b_get B (bk_idx_prop d)) (set (propKeyList C (db_indexedProps db) i ps)) {} (b_get B u) \<and>
    keys_replaced (b_get B (bk_idx_composite d)) (set (compKeyList C (db_compositeIndexes db) i ps)) {} (b_get B w)"
proof (cases "ps = []")
  case True
  then show ?thesis using assms keyList_Nil(2) [of "db_compositeIndexes db"] keyList_Nil(1)
    by (intro exI [of _ "bk_idx_prop d"] exI [of _ "bk_idx_composite d"]) (simp_all add: unindexNodeProps_def keys_replaced_def defs_ok_def)
next
  case False
  obtain u where u: "efold (\<lambda>k b. b_del B b k) (propKeyList C (db_indexedProps db) i ps) (bk_idx_prop d) = Inr u"
    "b_get B u = (\<lambda>k. if k \<in> set (propKeyList C (db_indexedProps db) i ps) then None else b_get B (bk_idx_prop d) k)"
    using efold_del by blast
  obtain w where w: "efold (\<lambda>k b. b_del B b k) (compKeyList C (db_compositeIndexes db) i ps) (bk_idx_composite d) = Inr w"
    "b_get B w = (\<lambda>k. if k \<in> set (compKeyList C (db_compositeIndexes db) i ps) then None else b_get B (bk_idx_composite d) k)"
    using efold_del by blast
  show ?thesis
    by (intro exI [of _ u] exI [of _ w]) (use False u w in \<open>auto simp: unindexNodeProps_def maintenance_lists keys_replaced_def\<close>)
qed

end

section \<open>Unique constraints\<close>

abbreviation ukey :: "string \<times> string \<times> string \<Rightarrow> bytes" where
  "ukey a \<equiv> (case a of (l, p, t) \<Rightarrow> encodeUniqueKey l p t)"

text \<open>The entries a record needs: label, property and value text of every constraint that applies.\<close>

definition uentries :: "codec \<Rightarrow> (string \<times> UniqueConstraint) list \<Rightarrow> nrec option \<Rightarrow> (string \<times> string \<times> string) set" where
  "uentries C ucs x = (case x of None \<Rightarrow> {} | Some (ls, ps) \<Rightarrow> set (applicable C ucs ls ps))"

definition uniq_change :: "'b bolt \<Rightarrow> NodeID \<Rightarrow> (string \<times> string \<times> string) set \<Rightarrow> 'b buckets \<Rightarrow> 'b buckets \<Rightarrow> bool" where
  "uniq_change B i A d d' \<longleftrightarrow>
     (\<forall>k v. b_get B (bk_idx_unique d') k = Some v \<longrightarrow> b_get B (bk_idx_unique d) k = Some v \<or> v = encodeNodeID i) \<and>
     (\<forall>k j. j \<noteq> i \<longrightarrow> j \<noteq> 0 \<longrightarrow> b_get B (bk_idx_unique d) k = Some (encodeNodeID j) \<longrightarrow> b_get B (bk_idx_unique d') k = Some (encodeNodeID j)) \<and>
     (\<forall>a \<in> A. b_get B (bk_idx_unique d') (ukey a) = Some (encodeNodeID i))"

definition uniq_rep :: "'b bolt \<Rightarrow> codec \<Rightarrow> (string \<times> UniqueConstraint) list \<Rightarrow> 'b buckets list \<Rightarrow> graph_nodes \<Rightarrow> bool" where
  "uniq_rep B C ucs ds N \<longleftrightarrow> N 0 = None \<and>
     (\<forall>d \<in> set ds. \<forall>k v. b_get B (bk_idx_unique d) k = Some v \<longrightarrow> (\<exists>j. v = encodeNodeID j)) \<and>
     (\<forall>i. \<forall>a \<in> uentries C ucs (N i). b_get B (bk_idx_unique (ds ! route (length ds) i)) (ukey a) = Some (encodeNodeID i))"

lemma uniq_rep_change:
  assumes "uniq_rep B C ucs ds N" and "ds \<noteq> []" and "i \<noteq> 0"
    and ch: "uniq_change B i (uentries C ucs x) (ds ! route (length ds) i) d'"
  shows "uniq_rep B C ucs (ds[route (length ds) i := d']) (N(i := x))"
proof -
  let ?r = "route (length ds) i"
  have lt: "?r < length ds" using assms(2) by (simp add: route_less)
  then have mem: "ds ! ?r \<in> set ds" by simp
  have vals: "\<exists>j. v = encodeNodeID j" if "d \<in> set (ds[?r := d'])" "b_get B (bk_idx_unique d) k = Some v" for d k v
  proof (cases "d = d'")
    case True
    then show ?thesis using that ch assms(1) mem unfolding uniq_change_def uniq_rep_def by blast
  next
    case False
    then have "d \<in> set ds" using that(1) set_update_subset_insert by fastforce
    then show ?thesis using that(2) assms(1) unfolding uniq_rep_def by blast
  qed
  have "b_get B (bk_idx_unique (ds[?r := d'] ! route (length ds) j)) (ukey a) = Some (encodeNodeID j)"
    if a: "a \<in> uentries C ucs ((N(i := x)) j)" for a j
  proof (cases "j = i")
    case True
    then show ?thesis using a ch lt by (simp add: uniq_change_def)
  next
    case False
    then have a': "a \<in> uentries C ucs (N j)" using a by simp
    then have old: "b_get B (bk_idx_unique (ds ! route (length ds) j)) (ukey a) = Some (encodeNodeID j)"
      using assms(1) unfolding uniq_rep_def by blast
    have "j \<noteq> 0" using a' assms(1) by (auto simp: uniq_rep_def uentries_def)
    then show ?thesis using old False ch lt by (cases "route (length ds) j = ?r") (auto simp: uniq_change_def)
  qed
  then show ?thesis using vals assms(1,3) by (simp add: uniq_rep_def)
qed

lemma applicable_Nil [simp]: "applicable C ucs [] ps = []" "applicable C ucs ls [] = []"
  by (auto simp: applicable_def)

lemma applicable_append: "set (applicable C ucs (ls @ ms) ps) = set (applicable C ucs ls ps) \<union> set (applicable C ucs ms ps)"
  by (simp add: applicable_def)

lemma applicable_text:
  assumes "text_eq C p q"
  shows "set (applicable C ucs ls p) = set (applicable C ucs ls q)"
proof -
  have t: "map_option (fmtv C) (map_of p a) = map_option (fmtv C) (map_of q a)" for a using assms by (simp add: same_text_def)
  have "(l, a, t) \<in> set (applicable C ucs ls p) \<longleftrightarrow> (l, a, t) \<in> set (applicable C ucs ls q)" for l a t
    unfolding set_applicable using t [of a] by (cases "map_of p a"; cases "map_of q a") auto
  then show ?thesis by auto
qed

lemma checkUnique_entries:
  assumes "checkUniqueConstraintsInTx B C db ls ps ex d = Inr u" and "a \<in> set (applicable C (db_uniqueConstraints db) ls ps)"
    and "b_get B (bk_idx_unique d) (ukey a) = Some e"
  shows "decodeUint64 e = Some ex"
proof -
  have all: "efold (\<lambda>x (_ :: unit). g x) xs () = Inr v \<Longrightarrow> \<forall>x \<in> set xs. g x = Inr ()" for g :: "'x \<Rightarrow> gerr + unit" and xs v
    by (induction xs) auto
  have ne: "ls \<noteq> [] \<and> ps \<noteq> []" using assms(2) by auto
  obtain l p t where a: "a = (l, p, t)" by (cases a)
  have "efold (\<lambda>x _. (\<lambda>(l, p, v). case b_get B (bk_idx_unique d) (encodeUniqueKey l p v) of None \<Rightarrow> Inr ()
      | Some existing \<Rightarrow> ebind (keyID existing) (\<lambda>existingID.
          if existingID \<noteq> ex then Inl (ErrUniqueConstraintViolation l p v existingID) else Inr ())) x)
      (applicable C (db_uniqueConstraints db) ls ps) () = Inr u"
    using assms(1) ne by (simp add: checkUniqueConstraintsInTx_def case_prod_unfold)
  from all [OF this] assms(2,3) show ?thesis by (force simp: a keyID_def split: option.splits if_splits)
qed

lemma unique_frames:
  "\<exists>u. indexUniqueConstraints B C db i ls ps d = d\<lparr>bk_idx_unique := u\<rparr>"
  "\<exists>u. unindexUniqueConstraints B C db i ls ps d = d\<lparr>bk_idx_unique := u\<rparr>"
  by (auto simp: indexUniqueConstraints_def unindexUniqueConstraints_def intro: exI [of _ "bk_idx_unique d"])

definition uniq_fits :: "codec \<Rightarrow> (string \<times> UniqueConstraint) list \<Rightarrow> nrec \<Rightarrow> bool" where
  "uniq_fits C ucs x \<longleftrightarrow> (\<forall>a \<in> set (applicable C ucs (fst x) (snd x)). length (ukey a) \<le> MaxKeySize)"

context bolt_laws
begin

lemma indexUnique_view:
  assumes "uniq_fits C (db_uniqueConstraints db) (ls, ps)"
  shows "b_get B (bk_idx_unique (indexUniqueConstraints B C db i ls ps d)) =
     (\<lambda>k. if k \<in> ukey ` set (applicable C (db_uniqueConstraints db) ls ps) then Some (encodeNodeID i) else b_get B (bk_idx_unique d) k)"
proof -
  have f: "b_get B (fold (\<lambda>(l, p, v) b. case b_put B b (encodeUniqueKey l p v) (encodeNodeID i) of Inl _ \<Rightarrow> b | Inr b' \<Rightarrow> b') as b) =
      (\<lambda>k. if k \<in> ukey ` set as then Some (encodeNodeID i) else b_get B b k)"
    if "\<forall>a \<in> set as. length (ukey a) \<le> MaxKeySize" for as b
    using that
  proof (induction as arbitrary: b)
    case (Cons a as)
    obtain l p t where a: "a = (l, p, t)" by (cases a)
    obtain b1 where b1: "b_put B b (ukey a) (encodeNodeID i) = Inr b1"
      using put_ok [of "ukey a" "encodeNodeID i" b] Cons.prems by (auto simp: a encodeUniqueKey_def)
    then show ?case using Cons.IH [of b1] Cons.prems get_put [OF b1] by (auto simp: a fun_eq_iff)
  qed simp
  show ?thesis using assms f [of "applicable C (db_uniqueConstraints db) ls ps" "bk_idx_unique d"]
    by (auto simp: indexUniqueConstraints_def uniq_fits_def)
qed

lemma unindexUnique_view:
  "b_get B (bk_idx_unique (unindexUniqueConstraints B C db i ls ps d)) k = b_get B (bk_idx_unique d) k \<or>
   (\<exists>v. b_get B (bk_idx_unique d) k = Some v \<and> decodeNodeID v = Some i \<and>
     b_get B (bk_idx_unique (unindexUniqueConstraints B C db i ls ps d)) k = None)"
proof -
  define g where "g = (\<lambda>(l, p, v) b. case b_get B b (encodeUniqueKey l p v) of None \<Rightarrow> b
      | Some existing \<Rightarrow> if decodeNodeID existing = Some i
          then (case b_del B b (encodeUniqueKey l p v) of Inl _ \<Rightarrow> b | Inr b' \<Rightarrow> b') else b)"
  have step: "b_get B (g a b) k = b_get B b k \<or> (\<exists>v. b_get B b k = Some v \<and> decodeNodeID v = Some i \<and> b_get B (g a b) k = None)" for a b
    by (auto simp: g_def split: option.splits sum.splits prod.splits dest!: get_del) blast
  have "b_get B (fold g as b) k = b_get B b k \<or> (\<exists>v. b_get B b k = Some v \<and> decodeNodeID v = Some i \<and> b_get B (fold g as b) k = None)" for as b
  proof (induction as arbitrary: b)
    case (Cons a as)
    show ?case using step [of a b] Cons.IH [of "g a b"] by auto
  qed simp
  then show ?thesis by (auto simp: unindexUniqueConstraints_def g_def)
qed

end

end
