(* ===== verification/NodeTx.thy ===== *)
theory NodeTx
  imports NodeRep
begin

text \<open>
  The transaction functions of the node and label operations as changes of one node: each turns a file
  that holds one record for the node into a file that holds another one, with the label index, the
  property index and the composite index moved along, the edge buckets untouched, and the unique index
  still naming every other node where it did.
\<close>

definition tx_change :: "'b bolt \<Rightarrow> codec \<Rightarrow> 'b DB \<Rightarrow> NodeID \<Rightarrow> nrec option \<Rightarrow> nrec option \<Rightarrow> 'b buckets \<Rightarrow> 'b buckets \<Rightarrow> bool" where
  "tx_change B C db i x x' d d' \<longleftrightarrow> node_change B C i x' d d' \<and>
     index_change B C (db_indexedProps db) (db_compositeIndexes db) i x x' d d'"

text \<open>What a file must satisfy before the transaction: the current record, its index keys, sound unique entries.\<close>

definition tx_pre :: "'b bolt \<Rightarrow> codec \<Rightarrow> 'b DB \<Rightarrow> NodeID \<Rightarrow> nrec option \<Rightarrow> 'b buckets \<Rightarrow> bool" where
  "tx_pre B C db i x d \<longleftrightarrow> node_at B C i x d \<and> defs_ok (db_compositeIndexes db) \<and>
     index_at B C (db_indexedProps db) (db_compositeIndexes db) i x d"

definition uniq_pre :: "'b bolt \<Rightarrow> codec \<Rightarrow> 'b DB \<Rightarrow> NodeID \<Rightarrow> nrec option \<Rightarrow> 'b buckets \<Rightarrow> bool" where
  "uniq_pre B C db i x d \<longleftrightarrow> i \<noteq> 0 \<and> (\<forall>k v. b_get B (bk_idx_unique d) k = Some v \<longrightarrow> (\<exists>j. v = encodeNodeID j)) \<and>
     (\<forall>a \<in> uentries C (db_uniqueConstraints db) x. b_get B (bk_idx_unique d) (ukey a) = Some (encodeNodeID i))"

lemma uniq_change_same:
  "uniq_pre B C db i x d \<Longrightarrow> bk_idx_unique d' = bk_idx_unique d \<Longrightarrow> A \<subseteq> uentries C (db_uniqueConstraints db) x \<Longrightarrow> uniq_change B i A d d'"
  by (auto simp: uniq_change_def uniq_pre_def)

lemma decode_id_inject: "decodeNodeID (encodeNodeID j) = Some i \<longleftrightarrow> j = i" "decodeUint64 (encodeNodeID j) = Some i \<longleftrightarrow> j = i"
  using decode_encode_id(1) [of j] by (auto simp: decodeNodeID_def)

context graph_store
begin

lemma unindexUnique_own:
  assumes "uniq_pre B C db i x d"
  shows "b_get B (bk_idx_unique (unindexUniqueConstraints B C db i us qs d)) k = b_get B (bk_idx_unique d) k \<or>
     b_get B (bk_idx_unique (unindexUniqueConstraints B C db i us qs d)) k = None \<and> b_get B (bk_idx_unique d) k = Some (encodeNodeID i)"
proof -
  have "v = encodeNodeID i" if h: "b_get B (bk_idx_unique d) k = Some v" "decodeNodeID v = Some i" for v
  proof -
    obtain j where "v = encodeNodeID j" using assms h(1) unfolding uniq_pre_def by blast
    then show ?thesis using h(2) decode_id_inject(1) by simp
  qed
  then show ?thesis using unindexUnique_view [of C db i us qs d k] by auto
qed

text \<open>Unindexing the old entries, checking the new ones and writing them keeps every other owner.\<close>

lemma uniq_change_index:
  assumes pre: "uniq_pre B C db i x d" and fits: "uniq_fits C (db_uniqueConstraints db) (ls, ps)"
    and un: "bk_idx_unique d1 = bk_idx_unique (unindexUniqueConstraints B C db i us qs d) \<or> bk_idx_unique d1 = bk_idx_unique d"
    and chk: "checkUniqueConstraintsInTx B C db ls ps ex d1 = Inr u" and "ex = i \<or> ex = 0"
    and d2: "bk_idx_unique d2 = bk_idx_unique d1"
    and A: "\<And>a. a \<in> A \<Longrightarrow> a \<in> set (applicable C (db_uniqueConstraints db) ls ps) \<or>
             bk_idx_unique d1 = bk_idx_unique d \<and> a \<in> uentries C (db_uniqueConstraints db) x"
    and d': "d' = indexUniqueConstraints B C db i ls ps d2"
  shows "uniq_change B i A d d'"
proof -
  let ?as = "set (applicable C (db_uniqueConstraints db) ls ps)"
  let ?T = "b_get B (bk_idx_unique d)" and ?T1 = "b_get B (bk_idx_unique d1)" and ?T2 = "b_get B (bk_idx_unique d')"
  have t2: "?T2 = (\<lambda>k. if k \<in> ukey ` ?as then Some (encodeNodeID i) else ?T1 k)"
    using indexUnique_view [OF fits, of i d2] unfolding d' d2 .
  have t1: "?T1 k = ?T k \<or> ?T1 k = None \<and> ?T k = Some (encodeNodeID i)" for k
    using un unindexUnique_own [OF pre, of us qs k] by auto
  have vals: "?T1 k = Some v \<Longrightarrow> \<exists>j. v = encodeNodeID j" for k v
    using t1 [of k] pre unfolding uniq_pre_def by auto
  have chk': "j = ex" if "a \<in> ?as" "?T1 (ukey a) = Some (encodeNodeID j)" for a j
    using checkUnique_entries [OF chk that] decode_id_inject by simp
  have "?T2 k = Some (encodeNodeID j)" if h: "j \<noteq> i" "j \<noteq> 0" "?T k = Some (encodeNodeID j)" for k j
  proof -
    have "?T1 k = Some (encodeNodeID j)" using t1 [of k] h by auto
    then show ?thesis using chk' h assms(5) t2 by auto
  qed
  moreover have "?T k = Some v \<or> v = encodeNodeID i" if "?T2 k = Some v" for k v
    using that t2 t1 [of k] by (auto split: if_splits)
  moreover have "?T2 (ukey a) = Some (encodeNodeID i)" if "a \<in> A" for a
    using A [OF that] t2 pre by (auto simp: uniq_pre_def)
  ultimately show ?thesis by (simp add: uniq_change_def)
qed

lemma uniq_change_unindex:
  assumes "uniq_pre B C db i x d" and "bk_idx_unique d' = bk_idx_unique (unindexUniqueConstraints B C db i us qs d)"
  shows "uniq_change B i {} d d'"
proof -
  have t: "b_get B (bk_idx_unique d') k = b_get B (bk_idx_unique d) k \<or>
      b_get B (bk_idx_unique d') k = None \<and> b_get B (bk_idx_unique d) k = Some (encodeNodeID i)" for k
    using assms(2) unindexUnique_own [OF assms(1), of us qs k] by auto
  have "b_get B (bk_idx_unique d') k = Some (encodeNodeID j)" if "j \<noteq> i" "b_get B (bk_idx_unique d) k = Some (encodeNodeID j)" for k j
    using t [of k] that by auto
  moreover have "b_get B (bk_idx_unique d) k = Some v" if "b_get B (bk_idx_unique d') k = Some v" for k v
    using t [of k] that by auto
  ultimately show ?thesis unfolding uniq_change_def by blast
qed

lemma putLabelEntries_view:
  assumes "putLabelEntries B i ls d = Inr d'"
  shows "\<exists>b. d' = d\<lparr>bk_idx_node_label := b\<rparr> \<and>
    b_get B b = (\<lambda>k. if k \<in> (\<lambda>l. encodeLabelIndexKey l i) ` set ls then Some [] else b_get B (bk_idx_node_label d) k)"
proof -
  obtain b where b: "efold (\<lambda>k b. b_put B b k []) (map (\<lambda>l. encodeLabelIndexKey l i) ls) (bk_idx_node_label d) = Inr b"
    and d': "d' = d\<lparr>bk_idx_node_label := b\<rparr>"
    using assms by (auto simp: putLabelEntries_def efold_map)
  show ?thesis using d' efold_put [OF b] by (intro exI [of _ b]) simp
qed

lemma addNodeTx_change:
  assumes tx: "addNodeTx B C db i data ps d = Inr d'" and enc: "encodeProps C ps = Inr data" and pre: "tx_pre B C db i None d"
  shows "tx_change B C db i None (Some ([], ps)) d d'" and "bk_idx_unique d' = bk_idx_unique d"
proof -
  obtain b where b: "b_put B (bk_nodes d) (encodeNodeID i) data = Inr b"
    and ix: "indexNodeProps B C db i ps (d\<lparr>bk_nodes := b\<rparr>) = Inr d'"
    using tx by (auto simp: addNodeTx_def putNode_def)
  obtain u w where d': "d' = d\<lparr>bk_nodes := b, bk_idx_prop := u, bk_idx_composite := w\<rparr>"
    and u: "keys_replaced (b_get B (bk_idx_prop d)) {} (set (propKeyList C (db_indexedProps db) i ps)) (b_get B u)"
    and w: "keys_replaced (b_get B (bk_idx_composite d)) {} (set (compKeyList C (db_compositeIndexes db) i ps)) (b_get B w)"
    using indexNodeProps_change [OF ix] pre by (auto simp: tx_pre_def)
  have at: "node_at B C i None d" using pre by (simp add: tx_pre_def)
  obtain q where q: "decodeProps C data = Inr q" "text_eq C ps q" using decodeProps_encodeProps [OF enc] by blast
  have "node_change B C i (Some ([], ps)) d d'"
    by (rule node_changeI) (use at get_put [OF b] q in \<open>auto simp: node_at_def d' propsVal_def labelKeys_def edge_frame_def\<close>)
  then show "tx_change B C db i None (Some ([], ps)) d d'" "bk_idx_unique d' = bk_idx_unique d"
    using u w by (simp_all add: tx_change_def index_change_def d' propKeys_def compKeys_def)
qed

lemma addNodeWithLabelsTx_change:
  assumes tx: "addNodeWithLabelsTx B C db i data labelData ls ps d = Inr d'" and enc: "encodeProps C ps = Inr data"
    and lab: "(if ls = [] then Inr [] else c_marshal_labels C ls) = Inr labelData" and pre: "tx_pre B C db i None d"
  shows "tx_change B C db i None (Some (ls, ps)) d d'"
    and "uniq_pre B C db i None d \<Longrightarrow> uniq_fits C (db_uniqueConstraints db) (ls, ps) \<Longrightarrow>
      uniq_change B i (uentries C (db_uniqueConstraints db) (Some (ls, ps))) d d'"
proof -
  obtain b d2 d3 where chk: "checkUniqueConstraintsInTx B C db ls ps 0 d = Inr ()"
    and b: "b_put B (bk_nodes d) (encodeNodeID i) data = Inr b"
    and ix: "indexNodeProps B C db i ps (d\<lparr>bk_nodes := b\<rparr>) = Inr d2"
    and d3: "(if labelData \<noteq> [] then ebind (putLabels B i labelData d2) (putLabelEntries B i ls) else Inr d2) = Inr d3"
    and d': "d' = indexUniqueConstraints B C db i ls ps d3"
    using tx by (auto simp: addNodeWithLabelsTx_def putNode_def)
  have at: "node_at B C i None d" and defs: "defs_ok (db_compositeIndexes db)" using pre by (simp_all add: tx_pre_def)
  obtain u w where d2: "d2 = d\<lparr>bk_nodes := b, bk_idx_prop := u, bk_idx_composite := w\<rparr>"
    and u: "keys_replaced (b_get B (bk_idx_prop d)) {} (set (propKeyList C (db_indexedProps db) i ps)) (b_get B u)"
    and w: "keys_replaced (b_get B (bk_idx_composite d)) {} (set (compKeyList C (db_compositeIndexes db) i ps)) (b_get B w)"
    using indexNodeProps_change [OF ix defs] by auto
  obtain q where q: "decodeProps C data = Inr q" "text_eq C ps q" using decodeProps_encodeProps [OF enc] by blast
  obtain c y where d3': "d3 = d2\<lparr>bk_node_labels := c, bk_idx_node_label := y\<rparr>"
    and c: "if ls = [] then c = bk_node_labels d else b_get B c = (b_get B (bk_node_labels d))(encodeNodeID i \<mapsto> labelData) \<and> labelsVal C (ls, ps) labelData"
    and y: "b_get B y = (\<lambda>k. if k \<in> (\<lambda>l. encodeLabelIndexKey l i) ` set ls then Some [] else b_get B (bk_idx_node_label d) k)"
  proof (cases "ls = []")
    case True
    then show ?thesis using that [where c = "bk_node_labels d2" and y = "bk_idx_node_label d2"] d3 lab d2 by simp
  next
    case False
    then have m: "c_marshal_labels C ls = Inr labelData" using lab by simp
    then obtain c where c: "b_put B (bk_node_labels d) (encodeNodeID i) labelData = Inr c"
      and p: "putLabelEntries B i ls (d2\<lparr>bk_node_labels := c\<rparr>) = Inr d3"
      using d3 labels_nonempty [OF m] d2 by (auto simp: putLabels_def)
    obtain y where "d3 = d2\<lparr>bk_node_labels := c, bk_idx_node_label := y\<rparr>"
      and "b_get B y = (\<lambda>k. if k \<in> (\<lambda>l. encodeLabelIndexKey l i) ` set ls then Some [] else b_get B (bk_idx_node_label d2) k)"
      using putLabelEntries_view [OF p] by (auto cong: if_cong)
    then show ?thesis
      using that [where c = c and y = y] False get_put [OF c] labels_roundtrip [OF m] d2 by (simp add: labelsVal_def cong: if_cong)
  qed
  obtain v where v: "d' = d3\<lparr>bk_idx_unique := v\<rparr>" using unique_frames(1) [of B C db i ls ps d3] d' by auto
  have "node_change B C i (Some (ls, ps)) d d'"
    by (rule node_changeI) (use at get_put [OF b] q c y in
      \<open>auto simp: node_at_def v d3' d2 propsVal_def labelKeys_def edge_frame_def encodeLabelIndexKey_index split: if_splits\<close>)
  then show "tx_change B C db i None (Some (ls, ps)) d d'"
    using u w by (simp add: tx_change_def index_change_def v d3' d2 propKeys_def compKeys_def)
  show "uniq_change B i (uentries C (db_uniqueConstraints db) (Some (ls, ps))) d d'"
    if p: "uniq_pre B C db i None d" "uniq_fits C (db_uniqueConstraints db) (ls, ps)"
    by (rule uniq_change_index [OF p _ chk _ _ _ d']) (simp_all add: d3' d2 uentries_def)
qed

text \<open>Replacing the properties of a node that exists.\<close>

lemma rewriteNodeTx_change:
  assumes tx: "rewriteNodeTx B C db i unq new d1 = Inr d'" and un: "unindexNodeProps B C db i old d = Inr d1"
    and pre: "tx_pre B C db i (Some (ls, ps)) d" and old: "text_eq C ps old" and new: "text_eq C ps' new"
  shows "tx_change B C db i (Some (ls, ps)) (Some (ls, ps')) d d'"
    and "uniq_pre B C db i (Some (ls, ps)) d \<Longrightarrow> uniq_fits C (db_uniqueConstraints db) (ls, new) \<Longrightarrow>
      uniq_change B i (uentries C (db_uniqueConstraints db) (Some (ls, ps'))) d d'"
proof -
  have at: "node_at B C i (Some (ls, ps)) d" and defs: "defs_ok (db_compositeIndexes db)" using pre by (simp_all add: tx_pre_def)
  obtain u1 w1 where d1: "d1 = d\<lparr>bk_idx_prop := u1, bk_idx_composite := w1\<rparr>"
    and u1: "keys_replaced (b_get B (bk_idx_prop d)) (set (propKeyList C (db_indexedProps db) i old)) {} (b_get B u1)"
    and w1: "keys_replaced (b_get B (bk_idx_composite d)) (set (compKeyList C (db_compositeIndexes db) i old)) {} (b_get B w1)"
    using unindexNodeProps_change [OF defs, of C i old d] un by auto
  have ls: "loadLabels B C d1 i = ls" using node_at_labels [OF at] by (simp add: d1 loadLabels_def)
  obtain d2 data b d4 where d2: "(if ls \<noteq> [] then let d2 = unindexUniqueConstraints B C db i ls unq d1
        in ebind (checkUniqueConstraintsInTx B C db ls new i d2) (\<lambda>_. Inr d2) else Inr d1) = Inr d2"
    and enc: "encodeProps C new = Inr data" and b: "b_put B (bk_nodes d2) (encodeNodeID i) data = Inr b"
    and ix: "indexNodeProps B C db i new (d2\<lparr>bk_nodes := b\<rparr>) = Inr d4"
    and d': "d' = (if ls \<noteq> [] then indexUniqueConstraints B C db i ls new d4 else d4)"
    using tx by (auto simp: rewriteNodeTx_def ls Let_def putNode_def)
  obtain v where v: "d2 = d1\<lparr>bk_idx_unique := v\<rparr>"
  proof (cases "ls = []")
    case True
    then show ?thesis using that [of "bk_idx_unique d1"] d2 by simp
  next
    case False
    then show ?thesis using that d2 unique_frames(2) [of B C db i ls unq d1] by (auto simp: Let_def)
  qed
  obtain u w where d4: "d4 = d2\<lparr>bk_nodes := b, bk_idx_prop := u, bk_idx_composite := w\<rparr>"
    and u: "keys_replaced (b_get B u1) {} (set (propKeyList C (db_indexedProps db) i new)) (b_get B u)"
    and w: "keys_replaced (b_get B w1) {} (set (compKeyList C (db_compositeIndexes db) i new)) (b_get B w)"
    using indexNodeProps_change [OF ix defs] by (auto simp: v d1)
  obtain v' where v': "d' = d4\<lparr>bk_idx_unique := v'\<rparr>"
    using d' unique_frames(1) [of B C db i ls new d4] that [of "bk_idx_unique d4"] by (cases "ls = []") auto
  obtain q where q: "decodeProps C data = Inr q" "text_eq C new q" using decodeProps_encodeProps [OF enc] by blast
  have t: "text_eq C ps' q" using new q(2) by (rule same_text_trans)
  have "node_change B C i (Some (ls, ps')) d d'"
    by (rule node_changeI) (use at get_put [OF b] q(1) t in
      \<open>auto simp: node_at_def v v' d1 d4 propsVal_def labelsVal_def labelKeys_def edge_frame_def split: if_splits\<close>)
  then show "tx_change B C db i (Some (ls, ps)) (Some (ls, ps')) d d'"
    using keys_replaced_trans [OF u1 u] keys_replaced_trans [OF w1 w]
    by (simp add: tx_change_def index_change_def v v' d4 d1 propKeys_def compKeys_def
        propKeyList_text [OF old] compKeyList_text [OF old] propKeyList_text [OF new] compKeyList_text [OF new])
  show "uniq_change B i (uentries C (db_uniqueConstraints db) (Some (ls, ps'))) d d'"
    if p: "uniq_pre B C db i (Some (ls, ps)) d" "uniq_fits C (db_uniqueConstraints db) (ls, new)"
  proof (cases "ls = []")
    case True
    then have "d2 = d1" using d2 by simp
    then have "bk_idx_unique d' = bk_idx_unique d" using True d' by (simp add: d4 d1)
    then show ?thesis using True by (intro uniq_change_same [OF p(1)]) (simp_all add: uentries_def)
  next
    case False
    then have "checkUniqueConstraintsInTx B C db ls new i (unindexUniqueConstraints B C db i ls unq d1) = Inr () \<and>
        unindexUniqueConstraints B C db i ls unq d1 = d2" using d2 unfolding Let_def ebind_eq_Inr by simp metis
    then have chk: "checkUniqueConstraintsInTx B C db ls new i d2 = Inr ()"
      and d2': "d2 = unindexUniqueConstraints B C db i ls unq d1" by fast+
    have un': "bk_idx_unique d2 = bk_idx_unique (unindexUniqueConstraints B C db i ls unq d)"
      unfolding d2' d1 unindexUniqueConstraints_def by simp
    show ?thesis
      by (rule uniq_change_index [OF p disjI1 [OF un'] chk, where ?d2.0 = d4])
        (use False d' applicable_text [OF new] in \<open>simp_all add: d4 uentries_def\<close>)
  qed
qed

lemma updateNodeTx_change:
  assumes tx: "updateNodeTx B C db i props d = Inr d'" and pre: "tx_pre B C db i x d"
  shows "\<exists>ls ps. x = Some (ls, ps) \<and> tx_change B C db i x (Some (ls, props_merge ps props)) d d' \<and>
    (uniq_pre B C db i x d \<and> uniq_fits C (db_uniqueConstraints db) (ls, props_merge ps props) \<longrightarrow>
     uniq_change B i (uentries C (db_uniqueConstraints db) (Some (ls, props_merge ps props))) d d')"
proof -
  obtain data old d1 where get: "b_get B (bk_nodes d) (encodeNodeID i) = Some data" and dec: "decodeProps C data = Inr old"
    and un: "unindexNodeProps B C db i old d = Inr d1"
    and rw: "rewriteNodeTx B C db i (props_merge old props) (props_merge old props) d1 = Inr d'"
    using tx by (auto simp: updateNodeTx_def Let_def split: option.splits)
  obtain ls ps where x: "x = Some (ls, ps)" and t: "text_eq C ps old"
    using node_at_data(2) [OF _ get] pre dec by (force simp: tx_pre_def)
  note m = text_eq_merge [OF t, of props]
  have "uniq_fits C (db_uniqueConstraints db) (ls, props_merge ps props) \<Longrightarrow> uniq_fits C (db_uniqueConstraints db) (ls, props_merge old props)"
    using applicable_text [OF m] by (simp add: uniq_fits_def)
  then show ?thesis
    using rewriteNodeTx_change [OF rw un _ t m, of ls] pre x by auto
qed

lemma setNodePropsTx_change:
  assumes tx: "setNodePropsTx B C db i props d = Inr d'" and pre: "tx_pre B C db i x d"
  shows "\<exists>ls ps. x = Some (ls, ps) \<and> tx_change B C db i x (Some (ls, props)) d d' \<and>
    (uniq_pre B C db i x d \<and> uniq_fits C (db_uniqueConstraints db) (ls, props) \<longrightarrow>
     uniq_change B i (uentries C (db_uniqueConstraints db) (Some (ls, props))) d d')"
proof -
  obtain data old d1 where get: "b_get B (bk_nodes d) (encodeNodeID i) = Some data" and dec: "decodeProps C data = Inr old"
    and un: "unindexNodeProps B C db i old d = Inr d1" and rw: "rewriteNodeTx B C db i old props d1 = Inr d'"
    using tx by (auto simp: setNodePropsTx_def Let_def split: option.splits)
  obtain ls ps where x: "x = Some (ls, ps)" and t: "text_eq C ps old"
    using node_at_data(2) [OF _ get] pre dec by (force simp: tx_pre_def)
  show ?thesis
    using rewriteNodeTx_change [OF rw un _ t same_text_refl, of ls] pre x by auto
qed

lemma deleteLabelEntries_view:
  "\<exists>b. deleteLabelEntries B i ls d = d\<lparr>bk_idx_node_label := b\<rparr> \<and>
     b_get B b = (\<lambda>k. if k \<in> (\<lambda>l. encodeLabelIndexKey l i) ` set ls then None else b_get B (bk_idx_node_label d) k)"
proof (induction ls arbitrary: d)
  case Nil
  then show ?case by (intro exI [of _ "bk_idx_node_label d"]) (simp add: deleteLabelEntries_def)
next
  case (Cons l ls)
  obtain b1 where b1: "b_del B (bk_idx_node_label d) (encodeLabelIndexKey l i) = Inr b1" using del_ok by blast
  have step: "deleteLabelEntries B i (l # ls) d = deleteLabelEntries B i ls (d\<lparr>bk_idx_node_label := b1\<rparr>)"
    by (simp add: deleteLabelEntries_def ignoring_def b1)
  obtain b where b: "deleteLabelEntries B i ls (d\<lparr>bk_idx_node_label := b1\<rparr>) = d\<lparr>bk_idx_node_label := b\<rparr>"
    "b_get B b = (\<lambda>k. if k \<in> (\<lambda>l. encodeLabelIndexKey l i) ` set ls then None else b_get B b1 k)"
    using Cons.IH [of "d\<lparr>bk_idx_node_label := b1\<rparr>"] by (auto cong: if_cong)
  show ?case unfolding step b(1) using b(2) get_del [OF b1] by (intro exI [of _ b]) (auto simp: fun_eq_iff)
qed

lemma deleteNodeTx_change:
  assumes tx: "deleteNodeTx B C db i d = Inr d'" and pre: "tx_pre B C db i x d"
  shows "x \<noteq> None \<and> tx_change B C db i x None d d' \<and> (uniq_pre B C db i x d \<longrightarrow> uniq_change B i {} d d')"
proof -
  have at: "node_at B C i x d" and defs: "defs_ok (db_compositeIndexes db)" using pre by (simp_all add: tx_pre_def)
  obtain data where get: "b_get B (bk_nodes d) (encodeNodeID i) = Some data"
    using tx by (auto simp: deleteNodeTx_def split: option.splits)
  obtain ls ps q where x: "x = Some (ls, ps)" and dec: "decodeProps C data = Inr q" and t: "text_eq C ps q"
    using node_at_data(2) [OF at get] by blast
  define d1 where "d1 = (if q \<noteq> [] then ignoring (unindexNodeProps B C db i q) d else d)"
  obtain u w where d1: "d1 = d\<lparr>bk_idx_prop := u, bk_idx_composite := w\<rparr>"
    and u: "keys_replaced (b_get B (bk_idx_prop d)) (set (propKeyList C (db_indexedProps db) i q)) {} (b_get B u)"
    and w: "keys_replaced (b_get B (bk_idx_composite d)) (set (compKeyList C (db_compositeIndexes db) i q)) {} (b_get B w)"
  proof (cases "q = []")
    case True
    then show ?thesis using that [where u = "bk_idx_prop d" and w = "bk_idx_composite d"] keyList_Nil(2) [of "db_compositeIndexes db"] keyList_Nil(1) defs
      by (simp add: keys_replaced_def defs_ok_def d1_def)
  next
    case False
    then show ?thesis using that unindexNodeProps_change [OF defs, of C i q d] by (auto simp: ignoring_def d1_def)
  qed
  have ls: "loadLabels B C d1 i = ls" using node_at_labels [of B C i ls ps d] at x by (simp add: d1 loadLabels_def)
  define d1' where "d1' = (if q \<noteq> [] then unindexUniqueConstraints B C db i ls q d1 else d1)"
  define d2 where "d2 = (if ls \<noteq> [] then ignoring (\<lambda>d. ebind (b_del B (bk_node_labels d) (encodeNodeID i)) (\<lambda>b. Inr (d\<lparr>bk_node_labels := b\<rparr>)))
      (deleteLabelEntries B i ls d1') else d1)"
  have "ebind (b_del B (bk_nodes d2) (encodeNodeID i)) (\<lambda>b. Inr (d2\<lparr>bk_nodes := b\<rparr>)) = Inr d'"
    using tx by (simp only: deleteNodeTx_def get option.case sum.case dec Let_def d1_def [symmetric] ls d1'_def [symmetric] d2_def)
  then obtain b where b: "b_del B (bk_nodes d2) (encodeNodeID i) = Inr b" and d': "d' = d2\<lparr>bk_nodes := b\<rparr>" by auto
  obtain v where v: "d1' = d1\<lparr>bk_idx_unique := v\<rparr>"
    using unique_frames(2) [of B C db i ls q d1] that [of "bk_idx_unique d1"] unfolding d1'_def by (cases "q = []") auto
  obtain c where c: "b_del B (bk_node_labels d) (encodeNodeID i) = Inr c" using del_ok by blast
  obtain y where y: "deleteLabelEntries B i ls d1' = d1'\<lparr>bk_idx_node_label := y\<rparr>"
    and gy: "b_get B y = (\<lambda>k. if k \<in> (\<lambda>l. encodeLabelIndexKey l i) ` set ls then None else b_get B (bk_idx_node_label d) k)"
    using deleteLabelEntries_view [of i ls d1'] v d1 by (auto cong: if_cong)
  have d2': "d2 = (if ls = [] then d1 else d1'\<lparr>bk_idx_node_label := y, bk_node_labels := c\<rparr>)"
    unfolding d2_def y by (simp add: ignoring_def v d1 c)
  have "node_change B C i None d d'"
    by (rule node_changeI) (use at x get_del [OF b] get_del [OF c] gy in
      \<open>auto simp: node_at_def d' d2' v d1 labelKeys_def edge_frame_def encodeLabelIndexKey_index split: if_splits\<close>)
  moreover have "index_change B C (db_indexedProps db) (db_compositeIndexes db) i x None d d'"
    using u w by (simp add: index_change_def d' d2' v d1 x propKeys_def compKeys_def propKeyList_text [OF t] compKeyList_text [OF t])
  moreover have "uniq_change B i {} d d'" if p: "uniq_pre B C db i x d"
  proof (cases "ls = [] \<or> q = []")
    case True
    then have "bk_idx_unique d' = bk_idx_unique d" by (auto simp: d' d2' d1'_def d1)
    then show ?thesis by (intro uniq_change_same [OF p]) simp_all
  next
    case False
    have "bk_idx_unique d' = bk_idx_unique (unindexUniqueConstraints B C db i ls q d)"
      using False by (simp add: d' d2' d1'_def d1) (simp add: unindexUniqueConstraints_def)
    then show ?thesis by (rule uniq_change_unindex [OF p])
  qed
  ultimately show ?thesis using x by (simp add: tx_change_def)
qed

text \<open>The label operations keep the record and its property index keys.\<close>

lemma label_index_change:
  assumes "tx_pre B C db i (Some (ls, ps)) d" and "bk_idx_prop d' = bk_idx_prop d" and "bk_idx_composite d' = bk_idx_composite d"
  shows "index_change B C (db_indexedProps db) (db_compositeIndexes db) i (Some (ls, ps)) (Some (ls', ps)) d d'"
  using assms by (simp add: tx_pre_def index_change_def propKeys_def compKeys_def)

lemma addLabelTx_change:
  assumes tx: "addLabelTx B C db i labels d = Inr d'" and pre: "tx_pre B C db i x d"
  shows "\<exists>ls ps. x = Some (ls, ps) \<and> tx_change B C db i x (Some (ls @ filter (\<lambda>l. l \<notin> set ls) labels, ps)) d d' \<and>
    (uniq_pre B C db i x d \<and> uniq_fits C (db_uniqueConstraints db) (filter (\<lambda>l. l \<notin> set ls) labels, ps) \<longrightarrow>
     uniq_change B i (uentries C (db_uniqueConstraints db) (Some (ls @ filter (\<lambda>l. l \<notin> set ls) labels, ps))) d d')"
proof -
  have at: "node_at B C i x d" using pre by (simp add: tx_pre_def)
  obtain data where get: "b_get B (bk_nodes d) (encodeNodeID i) = Some data"
    using tx by (auto simp: addLabelTx_def split: option.splits)
  obtain ls ps q where x: "x = Some (ls, ps)" and dec: "decodeProps C data = Inr q" and t: "text_eq C ps q"
    using node_at_data(2) [OF at get] by blast
  have ls: "loadLabels B C d i = ls" using node_at_labels at x by blast
  define new where "new = filter (\<lambda>l. l \<notin> set ls) labels"
  have ap: "set (applicable C (db_uniqueConstraints db) m q) = set (applicable C (db_uniqueConstraints db) m ps)" for m
    using applicable_text [OF t] by simp
  show ?thesis
  proof (cases "new = []")
    case True
    then have "d' = d" using tx by (simp add: addLabelTx_def get ls new_def Let_def)
    moreover have "tx_change B C db i x x d d" using pre by (simp add: tx_change_def tx_pre_def)
    moreover have "uniq_pre B C db i x d \<Longrightarrow> uniq_change B i (uentries C (db_uniqueConstraints db) x) d d"
      by (rule uniq_change_same [OF _ refl subset_refl])
    ultimately show ?thesis using True x by (simp add: new_def)
  next
    case False
    obtain ld c d2 where chk: "(if q \<noteq> [] then checkUniqueConstraintsInTx B C db new q i d else Inr ()) = Inr ()"
      and m: "c_marshal_labels C (ls @ new) = Inr ld" and c: "b_put B (bk_node_labels d) (encodeNodeID i) ld = Inr c"
      and p: "putLabelEntries B i new (d\<lparr>bk_node_labels := c\<rparr>) = Inr d2"
      and d': "d' = (if q \<noteq> [] then indexUniqueConstraints B C db i new q d2 else d2)"
      using tx False unfolding addLabelTx_def get option.case ls Let_def new_def [symmetric] dec sum.case
      by (auto simp: putLabels_def)
    obtain y where d2: "d2 = d\<lparr>bk_node_labels := c, bk_idx_node_label := y\<rparr>"
      and y: "b_get B y = (\<lambda>k. if k \<in> (\<lambda>l. encodeLabelIndexKey l i) ` set new then Some [] else b_get B (bk_idx_node_label d) k)"
      using putLabelEntries_view [OF p] by (auto cong: if_cong)
    obtain v where v: "d' = d2\<lparr>bk_idx_unique := v\<rparr>"
      using d' unique_frames(1) [of B C db i new q d2] that [of "bk_idx_unique d2"] by (cases "q = []") auto
    have "node_change B C i (Some (ls @ new, ps)) d d'"
      by (rule node_changeI) (use at x False get_put [OF c] y labels_roundtrip [OF m] in
        \<open>auto simp: node_at_def v d2 labelsVal_def propsVal_def labelKeys_def edge_frame_def encodeLabelIndexKey_index image_Un split: if_splits\<close>)
    moreover have "index_change B C (db_indexedProps db) (db_compositeIndexes db) i x (Some (ls @ new, ps)) d d'"
      using label_index_change [OF pre [unfolded x]] by (simp add: x v d2)
    moreover have "uniq_change B i (uentries C (db_uniqueConstraints db) (Some (ls @ new, ps))) d d'"
      if h: "uniq_pre B C db i x d" "uniq_fits C (db_uniqueConstraints db) (new, ps)"
    proof (cases "q = []")
      case True
      then have "ps = []" using t text_eq_Nil(1) by simp
      then show ?thesis using True d' by (intro uniq_change_same [OF h(1)]) (simp_all add: d2 uentries_def)
    next
      case False
      have fits: "uniq_fits C (db_uniqueConstraints db) (new, q)" using h(2) ap by (simp add: uniq_fits_def)
      have ck: "checkUniqueConstraintsInTx B C db new q i d = Inr ()" using chk False by simp
      show ?thesis
        by (rule uniq_change_index [OF h(1) fits disjI2 [OF refl] ck, where ?d2.0 = d2])
          (use False d' ap x in \<open>auto simp: d2 uentries_def applicable_append\<close>)
    qed
    ultimately show ?thesis using x by (simp add: tx_change_def new_def)
  qed
qed

lemma efold_del_map:
  "\<exists>b'. efold (\<lambda>l b. b_del B b (f l)) ls b = Inr b' \<and> b_get B b' = (\<lambda>k. if k \<in> f ` set ls then None else b_get B b k)"
proof -
  have "efold (\<lambda>l b. b_del B b (f l)) ls b = efold (\<lambda>k b. b_del B b k) (map f ls) b" by (simp add: efold_map)
  then show ?thesis using efold_del [of "map f ls" b] by simp
qed

lemma removeLabelTx_change:
  assumes tx: "removeLabelTx B C i labels d = Inr d'" and pre: "tx_pre B C db i x d"
  shows "\<exists>ls ps. x = Some (ls, ps) \<and> tx_change B C db i x (Some (filter (\<lambda>l. l \<notin> set labels) ls, ps)) d d' \<and>
    (uniq_pre B C db i x d \<longrightarrow> uniq_change B i (uentries C (db_uniqueConstraints db) (Some (filter (\<lambda>l. l \<notin> set labels) ls, ps))) d d')"
proof -
  have at: "node_at B C i x d" using pre by (simp add: tx_pre_def)
  obtain data where get: "b_get B (bk_nodes d) (encodeNodeID i) = Some data"
    using tx by (auto simp: removeLabelTx_def split: if_splits)
  obtain ls ps q where x: "x = Some (ls, ps)" using node_at_data(2) [OF at get] by blast
  have ls: "loadLabels B C d i = ls" using node_at_labels at x by blast
  define kept where "kept = filter (\<lambda>l. l \<notin> set labels) ls"
  obtain y where y: "efold (\<lambda>l b. b_del B b (encodeLabelIndexKey l i)) labels (bk_idx_node_label d) = Inr y"
    and gy: "b_get B y = (\<lambda>k. if k \<in> (\<lambda>l. encodeLabelIndexKey l i) ` set labels then None else b_get B (bk_idx_node_label d) k)"
    using efold_del_map [of "\<lambda>l. encodeLabelIndexKey l i" labels] by blast
  obtain d1 y' where d1: "(if kept = [] then ebind (b_del B (bk_node_labels d) (encodeNodeID i)) (\<lambda>b. Inr (d\<lparr>bk_node_labels := b\<rparr>))
        else ebind (c_marshal_labels C kept) (\<lambda>data. putLabels B i data d)) = Inr d1"
    and y': "efold (\<lambda>l b. b_del B b (encodeLabelIndexKey l i)) labels (bk_idx_node_label d1) = Inr y'"
    and d': "d' = d1\<lparr>bk_idx_node_label := y'\<rparr>"
    using tx by (auto simp: removeLabelTx_def get ls kept_def [symmetric] Let_def)
  obtain c where d1c: "d1 = d\<lparr>bk_node_labels := c\<rparr>"
    and c: "if kept = [] then b_get B c = (b_get B (bk_node_labels d))(encodeNodeID i := None)
            else \<exists>ld. b_get B c = (b_get B (bk_node_labels d))(encodeNodeID i \<mapsto> ld) \<and> c_unmarshal_labels C ld = Inr kept"
  proof (cases "kept = []")
    case True
    then obtain c where "b_del B (bk_node_labels d) (encodeNodeID i) = Inr c" "d1 = d\<lparr>bk_node_labels := c\<rparr>" using d1 by auto
    then show ?thesis using that get_del True by simp
  next
    case False
    then obtain ld c where "c_marshal_labels C kept = Inr ld" "b_put B (bk_node_labels d) (encodeNodeID i) ld = Inr c" "d1 = d\<lparr>bk_node_labels := c\<rparr>"
      using d1 by (auto simp: putLabels_def)
    then show ?thesis using that [of c] get_put labels_roundtrip False by fastforce
  qed
  have d'': "d' = d\<lparr>bk_node_labels := c, bk_idx_node_label := y\<rparr>" using d' y' y by (simp add: d1c)
  have "node_change B C i (Some (kept, ps)) d d'"
    by (rule node_changeI) (use at x c gy in
      \<open>auto simp: node_at_def d'' kept_def labelsVal_def propsVal_def labelKeys_def edge_frame_def encodeLabelIndexKey_index encodeIndexKey_inject split: if_splits\<close>)
  moreover have "index_change B C (db_indexedProps db) (db_compositeIndexes db) i x (Some (kept, ps)) d d'"
    using label_index_change [OF pre [unfolded x]] by (simp add: x d'')
  moreover have "uniq_change B i (uentries C (db_uniqueConstraints db) (Some (kept, ps))) d d'" if "uniq_pre B C db i x d"
    by (rule uniq_change_same [OF that]) (auto simp: d'' x uentries_def kept_def set_applicable)
  ultimately show ?thesis using x by (simp add: tx_change_def kept_def)
qed

end

end
