(* ===== verification/GraphInv.thy ===== *)
theory GraphInv
  imports NodeTx
begin

text \<open>
  The invariant of an open database: the shard files represent a property graph (nodes with labels and
  properties, edges between existing nodes), the indexes describe it, the counters bound its identifiers,
  the node cache holds only current nodes and the Bloom filter knows every edge. Each operation is a step
  from one represented graph to another.
\<close>

lemma files_Nil [simp]: "files db = [] \<longleftrightarrow> db_shards db = []"
  by (simp add: files_def)

section \<open>The invariant\<close>

definition cache_ok :: "codec \<Rightarrow> 'b DB \<Rightarrow> graph_nodes \<Rightarrow> bool" where
  "cache_ok C db N \<longleftrightarrow> nodecache.coherent (\<lambda>i n. \<exists>ps. N i = Some (n_labels n, ps) \<and> n_id n = i \<and> text_eq C ps (n_props n)) (db_ncache db)"

definition no_dangling :: "graph_nodes \<Rightarrow> graph_edges \<Rightarrow> bool" where
  "no_dangling N G \<longleftrightarrow> (\<forall>eid e. G eid = Some e \<longrightarrow> N (e_from e) \<noteq> None \<and> N (e_to e) \<noteq> None)"

definition node_ids_bounded :: "'b DB \<Rightarrow> graph_nodes \<Rightarrow> bool" where
  "node_ids_bounded db N \<longleftrightarrow> N 0 = None \<and> (\<forall>i. N i \<noteq> None \<longrightarrow> i \<le> nodeCtr db)"

definition graph_inv :: "'b bolt \<Rightarrow> codec \<Rightarrow> 'b DB \<Rightarrow> graph_nodes \<Rightarrow> graph_edges \<Rightarrow> bool" where
  "graph_inv B C db N G \<longleftrightarrow> nodes_rep B C (files db) N \<and>
     index_rep B C (db_indexedProps db) (db_compositeIndexes db) (files db) N \<and>
     edges_rep B C (files db) G \<and> no_dangling N G \<and> node_ids_bounded db N \<and> edge_ids_bounded db G \<and>
     cache_ok C db N \<and> bloom_covers db G"

definition uniq_inv :: "'b bolt \<Rightarrow> codec \<Rightarrow> 'b DB \<Rightarrow> graph_nodes \<Rightarrow> bool" where
  "uniq_inv B C db N \<longleftrightarrow> uniq_rep B C (db_uniqueConstraints db) (files db) N"

text \<open>Steps that leave the files, the registries, the counters, the cache and the filter alone.\<close>

definition same_graph :: "'b DB \<Rightarrow> 'b DB \<Rightarrow> bool" where
  "same_graph db db' \<longleftrightarrow> files db' = files db \<and> db_indexedProps db' = db_indexedProps db \<and>
     db_compositeIndexes db' = db_compositeIndexes db \<and> db_uniqueConstraints db' = db_uniqueConstraints db \<and>
     nodeCtr db' = nodeCtr db \<and> edgeCtr db' = edgeCtr db \<and> db_ncache db' = db_ncache db \<and> db_edgeBloom db' = db_edgeBloom db"

lemma same_graph_inv: "same_graph db db' \<Longrightarrow> graph_inv B C db' N G = graph_inv B C db N G"
  by (simp add: same_graph_def graph_inv_def cache_ok_def node_ids_bounded_def edge_ids_bounded_def bloom_covers_def)

lemma same_graph_uniq: "same_graph db db' \<Longrightarrow> uniq_inv B C db' N = uniq_inv B C db N"
  by (simp add: same_graph_def uniq_inv_def)

lemma registries_walAppend [simp]:
  "db_indexedProps (walAppend W op db) = db_indexedProps db" "db_compositeIndexes (walAppend W op db) = db_compositeIndexes db"
  "db_uniqueConstraints (walAppend W op db) = db_uniqueConstraints db" "db_ncache (walAppend W op db) = db_ncache db"
  "db_closed (walAppend W op db) = db_closed db" "db_role (walAppend W op db) = db_role db" "db_faults (walAppend W op db) = db_faults db"
  "db_shards (walAppend W op db) = db_shards db"
  by (simp_all add: walAppend_def split: option.splits sum.splits)

lemma registries_updShard [simp]:
  "db_indexedProps (updShard i f db) = db_indexedProps db" "db_compositeIndexes (updShard i f db) = db_compositeIndexes db"
  "db_uniqueConstraints (updShard i f db) = db_uniqueConstraints db" "db_ncache (updShard i f db) = db_ncache db"
  "db_closed (updShard i f db) = db_closed db" "db_role (updShard i f db) = db_role db" "db_faults (updShard i f db) = db_faults db"
  by (simp_all add: updShard_def)

lemma same_graph_steps [intro]:
  "same_graph db (walAppend W op db)" "same_graph db (updShard i (addNodeCount n) db)" "same_graph db (updShard i (addEdgeCount n) db)"
  "same_graph db (db\<lparr>db_faults := f\<rparr>)"
  by (simp_all add: same_graph_def bloom_fields)

lemma graph_inv_steps [simp]:
  "graph_inv B C (walAppend W op db) N G = graph_inv B C db N G"
  "graph_inv B C (updShard i (addNodeCount n) db) N G = graph_inv B C db N G"
  "graph_inv B C (updShard i (addEdgeCount n) db) N G = graph_inv B C db N G"
  "graph_inv B C (db\<lparr>db_faults := f\<rparr>) N G = graph_inv B C db N G"
  by (intro same_graph_inv same_graph_steps)+

lemma uniq_inv_steps [simp]:
  "uniq_inv B C (walAppend W op db) N = uniq_inv B C db N"
  "uniq_inv B C (updShard i (addNodeCount n) db) N = uniq_inv B C db N"
  "uniq_inv B C (updShard i (addEdgeCount n) db) N = uniq_inv B C db N"
  "uniq_inv B C (db\<lparr>db_faults := f\<rparr>) N = uniq_inv B C db N"
  by (intro same_graph_uniq same_graph_steps)+

lemma uniq_inv_ncache [simp]: "uniq_inv B C (db\<lparr>db_ncache := c\<rparr>) N = uniq_inv B C db N"
  by (simp add: uniq_inv_def)

lemma graph_inv_shards: "graph_inv B C db N G \<Longrightarrow> db_shards db \<noteq> []"
  by (auto simp: graph_inv_def nodes_rep_def files_def)

lemma graph_inv_failed: "writeUpdate i tx db = (Inl e, db') \<Longrightarrow> graph_inv B C db N G \<Longrightarrow> graph_inv B C db' N G"
  using writeUpdate_Inl by fastforce

lemma uniq_inv_failed: "writeUpdate i tx db = (Inl e, db') \<Longrightarrow> uniq_inv B C db N \<Longrightarrow> uniq_inv B C db' N"
  using writeUpdate_Inl by fastforce

lemma node_id_fresh: "node_ids_bounded db N \<Longrightarrow> nodeCtr db \<noteq> - 1 \<Longrightarrow> N (nodeCtr db + 1) = None"
  unfolding node_ids_bounded_def by (metis leD u64_less_succ)

text \<open>Allocating an identifier keeps everything but the counter.\<close>

lemma alloc_node:
  assumes "graph_inv B C db N G" and "nodeCtr db \<noteq> - 1" and "dbAllocNodeID db = (i, db0)"
  shows "graph_inv B C db0 N G" "i = nodeCtr db + 1" "nodeCtr db0 = i" "N i = None" "i \<noteq> 0"
    "db_uniqueConstraints db0 = db_uniqueConstraints db" "files db0 = files db"
proof -
  have ne: "db_shards db \<noteq> []" by (rule graph_inv_shards [OF assms(1)])
  note c = ctr_alloc(4-6) [OF ne] files_alloc(1) [of db]
  have f: "db_indexedProps db0 = db_indexedProps db" "db_compositeIndexes db0 = db_compositeIndexes db"
      "db_ncache db0 = db_ncache db" "db_edgeBloom db0 = db_edgeBloom db"
    and u: "db_uniqueConstraints db0 = db_uniqueConstraints db"
    using assms(3) by (auto simp: dbAllocNodeID_def Let_def updShard_def)
  show i: "i = nodeCtr db + 1" "nodeCtr db0 = i" "files db0 = files db" using c assms(3) by simp_all
  have less: "nodeCtr db < nodeCtr db + 1" by (rule u64_less_succ [OF assms(2)])
  have nb: "node_ids_bounded db N" using assms(1) by (simp add: graph_inv_def)
  have "j \<le> nodeCtr db0" if "N j \<noteq> None" for j
  proof -
    have "j \<le> nodeCtr db" using nb that unfolding node_ids_bounded_def by blast
    also note less
    finally show ?thesis using i by simp
  qed
  then have "node_ids_bounded db0 N" using nb by (simp add: node_ids_bounded_def)
  moreover have "edgeCtr db0 = edgeCtr db" using c assms(3) by simp
  ultimately show "graph_inv B C db0 N G" using assms(1) f i
    by (simp add: graph_inv_def cache_ok_def edge_ids_bounded_def bloom_covers_def)
  show "N i = None" using node_id_fresh [OF _ assms(2)] assms(1) i by (simp add: graph_inv_def)
  show "i \<noteq> 0" using less i by (metis word_not_simps(1))
  show "db_uniqueConstraints db0 = db_uniqueConstraints db" by (rule u)
qed

section \<open>One transaction that changes one node\<close>

lemma node_tx_step:
  assumes inv: "graph_inv B C db N G" and w: "writeUpdate (shardFor db i) tx db = (Inr u, db1)"
    and ch: "\<And>d'. tx (files db ! route (length (files db)) i) = Inr d' \<Longrightarrow>
               tx_change B C db i (N i) x' (files db ! route (length (files db)) i) d'"
    and dangling: "no_dangling (N(i := x')) G" and bounded: "x' \<noteq> None \<Longrightarrow> i \<noteq> 0 \<and> i \<le> nodeCtr db"
    and cache: "nodecache.coherent (\<lambda>j n. \<exists>ps. (N(i := x')) j = Some (n_labels n, ps) \<and> n_id n = j \<and> text_eq C ps (n_props n)) c"
  shows "graph_inv B C (db1\<lparr>db_ncache := c\<rparr>) (N(i := x')) G"
proof -
  let ?r = "route (length (files db)) i"
  note inv' = inv [unfolded graph_inv_def]
  have ne: "files db \<noteq> []" using inv' by (simp add: nodes_rep_def)
  have lt: "?r < length (db_shards db)" using ne route_less [of "length (files db)" i] by simp
  have r: "shardFor db i = ?r" by (simp add: shardFor_route)
  obtain d where d: "tx (files db ! ?r) = Inr d"
    and db1: "db1 = updShard ?r (\<lambda>s. s\<lparr>s_data := d\<rparr>) (db\<lparr>db_faults := tl (db_faults db)\<rparr>)"
    using writeUpdate_Inr [OF w [unfolded r]] files_nth [OF lt] by metis
  have f1: "files db1 = (files db)[?r := d]" by (simp add: db1)
  note t = ch [OF d, unfolded tx_change_def]
  have "nodes_rep B C (files db1) (N(i := x'))" unfolding f1 by (rule nodes_rep_change) (use inv' t in auto)
  moreover have "index_rep B C (db_indexedProps db) (db_compositeIndexes db) (files db1) (N(i := x'))"
    unfolding f1 by (rule index_rep_change) (use inv' ne t in auto)
  moreover have "edges_rep B C (files db1) G"
    unfolding f1 by (rule edges_rep_frame) (use inv' t in \<open>auto simp: node_change_def\<close>)
  moreover have "node_ids_bounded db1 (N(i := x'))" using inv' bounded by (cases x') (simp_all add: node_ids_bounded_def db1)
  moreover have "edge_ids_bounded db1 G" "bloom_covers db1 G"
    using inv' by (simp_all add: edge_ids_bounded_def bloom_covers_def db1 bloom_fields)
  ultimately show ?thesis using dangling cache
    by (simp add: graph_inv_def cache_ok_def node_ids_bounded_def edge_ids_bounded_def bloom_covers_def) (simp add: db1)
qed

lemma uniq_tx_step:
  assumes inv: "uniq_inv B C db N" and w: "writeUpdate (shardFor db i) tx db = (Inr u, db1)" and "files db \<noteq> []" and "i \<noteq> 0"
    and ch: "\<And>d'. tx (files db ! route (length (files db)) i) = Inr d' \<Longrightarrow>
               uniq_change B i (uentries C (db_uniqueConstraints db) x') (files db ! route (length (files db)) i) d'"
  shows "uniq_inv B C db1 (N(i := x'))"
proof -
  let ?r = "route (length (files db)) i"
  have lt: "?r < length (db_shards db)" using assms(3) route_less [of "length (files db)" i] by simp
  have r: "shardFor db i = ?r" by (simp add: shardFor_route)
  obtain d where d: "tx (files db ! ?r) = Inr d"
    and db1: "db1 = updShard ?r (\<lambda>s. s\<lparr>s_data := d\<rparr>) (db\<lparr>db_faults := tl (db_faults db)\<rparr>)"
    using writeUpdate_Inr [OF w [unfolded r]] files_nth [OF lt] by metis
  have f1: "files db1 = (files db)[?r := d]" and u1: "db_uniqueConstraints db1 = db_uniqueConstraints db" by (simp_all add: db1)
  show ?thesis unfolding uniq_inv_def f1 u1
    by (rule uniq_rep_change [OF inv [unfolded uniq_inv_def] assms(3,4) ch [OF d]])
qed

lemma inv_tx_pre:
  assumes "graph_inv B C db N G"
  shows "tx_pre B C db i (N i) (files db ! route (length (files db)) i)"
proof -
  note r = assms [unfolded graph_inv_def]
  have "files db \<noteq> []" using r by (simp add: nodes_rep_def)
  moreover have "defs_ok (db_compositeIndexes db)" using r unfolding index_rep_def defs_ok_def by blast
  ultimately show ?thesis using rep_node_at rep_index_at r unfolding tx_pre_def by blast
qed

lemma inv_uniq_pre:
  assumes "uniq_inv B C db N" and "files db \<noteq> []" and "i \<noteq> 0"
  shows "uniq_pre B C db i (N i) (files db ! route (length (files db)) i)"
proof -
  have "files db ! route (length (files db)) i \<in> set (files db)" using assms(2) route_less [of "length (files db)" i] by simp
  then show ?thesis using assms unfolding uniq_inv_def uniq_rep_def uniq_pre_def by blast
qed

text \<open>How the caches move.\<close>

lemma cache_put_node:
  assumes "cache_ok C db N" and "N i = None" and "n_id n = i"
  shows "nodecache.coherent (\<lambda>j m. \<exists>ps. (N(i := Some (n_labels n, n_props n))) j = Some (n_labels m, ps) \<and> n_id m = j \<and> text_eq C ps (n_props m))
    (nc_Put n (db_ncache db))"
proof (rule nodecache.coherent_put)
  show "nodecache.coherent (\<lambda>j m. \<exists>ps. (N(i := Some (n_labels n, n_props n))) j = Some (n_labels m, ps) \<and> n_id m = j \<and> text_eq C ps (n_props m)) (db_ncache db)"
    using assms(1) unfolding cache_ok_def by (rule nodecache.coherent_mono) (use assms(2) in auto)
qed (use assms(3) in simp)

lemma cache_invalidate_node:
  assumes "cache_ok C db N"
  shows "nodecache.coherent (\<lambda>j m. \<exists>ps. (N(i := x)) j = Some (n_labels m, ps) \<and> n_id m = j \<and> text_eq C ps (n_props m))
    (nc_Invalidate i (db_ncache db))"
  using assms unfolding cache_ok_def by (rule nodecache.coherent_invalidate) auto

lemma no_dangling_upd: "no_dangling N G \<Longrightarrow> no_dangling (N(i \<mapsto> x)) G"
  by (auto simp: no_dangling_def)

section \<open>The node operations as steps\<close>

text \<open>An operation that rewrites a node: it fails without a change, or the node has its new record.\<close>

lemma rewrite_op_step:
  assumes inv: "graph_inv B C db N G"
    and op: "guarded db (case writeUpdate (shardFor db i) tx db of (Inl e, db1) \<Rightarrow> (Inl e, db1)
        | (Inr _, db1) \<Rightarrow> (Inr (), invalidateNode i (walAppend W wop db1))) = (res, db')"
    and ch: "\<And>d'. tx (files db ! route (length (files db)) i) = Inr d' \<Longrightarrow>
        \<exists>x. N i = Some x \<and> tx_change B C db i (N i) (Some (g x)) (files db ! route (length (files db)) i) d' \<and>
          (uniq_pre B C db i (N i) (files db ! route (length (files db)) i) \<and> uniq_fits C (db_uniqueConstraints db) (h x) \<longrightarrow>
           uniq_change B i (uentries C (db_uniqueConstraints db) (Some (g x))) (files db ! route (length (files db)) i) d')"
  shows "case res of Inl e \<Rightarrow> graph_inv B C db' N G \<and> (uniq_inv B C db N \<longrightarrow> uniq_inv B C db' N)
    | Inr _ \<Rightarrow> \<exists>x. N i = Some x \<and> graph_inv B C db' (N(i \<mapsto> g x)) G \<and>
        (uniq_inv B C db N \<and> uniq_fits C (db_uniqueConstraints db) (h x) \<longrightarrow> uniq_inv B C db' (N(i \<mapsto> g x)))"
proof (cases "db_closed db \<or> isFollower db")
  case True
  then show ?thesis using op inv by (auto simp: guard_refuses)
next
  case False
  then have run: "(case writeUpdate (shardFor db i) tx db of (Inl e, db1) \<Rightarrow> (Inl e, db1)
        | (Inr _, db1) \<Rightarrow> (Inr (), invalidateNode i (walAppend W wop db1))) = (res, db')" using op by (simp add: guarded_ok)
  obtain r1 db1 where w: "writeUpdate (shardFor db i) tx db = (r1, db1)" by (cases "writeUpdate (shardFor db i) tx db")
  show ?thesis
  proof (cases r1)
    case (Inl e)
    then show ?thesis using run w graph_inv_failed [OF w [unfolded Inl] inv] uniq_inv_failed [OF w [unfolded Inl]] by (auto simp: w)
  next
    case (Inr u)
    let ?r = "route (length (files db)) i"
    have ne: "files db \<noteq> []" using graph_inv_shards [OF inv] by simp
    have "\<exists>d'. tx (files db ! ?r) = Inr d'"
      using writeUpdate_Inr [OF w [unfolded Inr]] ne files_nth [of ?r db] route_less [of "length (files db)" i]
      by (metis length_files length_greater_0_conv shardFor_route)
    then obtain x where x: "N i = Some x" using ch by blast
    have ch1: "\<And>d'. tx (files db ! ?r) = Inr d' \<Longrightarrow> tx_change B C db i (N i) (Some (g x)) (files db ! ?r) d'"
      using ch x by fastforce
    have nb: "i \<noteq> 0 \<and> i \<le> nodeCtr db" using inv x unfolding graph_inv_def node_ids_bounded_def by (metis option.distinct(1))
    have co: "cache_ok C db N" and nd: "no_dangling N G" using inv by (simp_all add: graph_inv_def)
    have g: "graph_inv B C (db1\<lparr>db_ncache := nc_Invalidate i (db_ncache db)\<rparr>) (N(i := Some (g x))) G"
      by (rule node_tx_step [OF inv w [unfolded Inr] ch1 no_dangling_upd [OF nd] _ cache_invalidate_node [OF co]]) (use nb in simp_all)
    have cc: "db_ncache db1 = db_ncache db" using writeUpdate_Inr [OF w [unfolded Inr]] by fastforce
    have s: "same_graph (db1\<lparr>db_ncache := nc_Invalidate i (db_ncache db)\<rparr>) db'" and res: "res = Inr ()"
      using run cc by (auto simp: w Inr same_graph_def invalidateNode_def bloom_fields)
    have "uniq_inv B C db1 (N(i := Some (g x)))" if h: "uniq_inv B C db N" "uniq_fits C (db_uniqueConstraints db) (h x)"
      by (rule uniq_tx_step [OF h(1) w [unfolded Inr] ne]) (use ch x h nb inv_uniq_pre [OF h(1) ne] in fastforce)+
    then show ?thesis using x g res same_graph_inv [OF s] same_graph_uniq [OF s] by auto
  qed
qed

text \<open>An operation that adds a node under a fresh identifier.\<close>

lemma add_op_step:
  assumes inv: "graph_inv B C db N G" and new: "N i = None" "i \<noteq> 0" "i \<le> nodeCtr db" and n: "n_id n = i"
    and op: "(case writeUpdate (shardFor db i) tx db of (Inl e, db1) \<Rightarrow> (Inl (ErrWrap m e), db1)
        | (Inr _, db1) \<Rightarrow> let db2 = walAppend W wop (updShard t (addNodeCount 1) db1)
             in (Inr i, db2\<lparr>db_ncache := nc_Put n (db_ncache db2)\<rparr>)) = (res, db')"
    and ch: "\<And>d'. tx (files db ! route (length (files db)) i) = Inr d' \<Longrightarrow>
        tx_change B C db i None (Some (n_labels n, n_props n)) (files db ! route (length (files db)) i) d' \<and>
          (uniq_pre B C db i None (files db ! route (length (files db)) i) \<and> uniq_fits C (db_uniqueConstraints db) (n_labels n, n_props n) \<longrightarrow>
           uniq_change B i (uentries C (db_uniqueConstraints db) (Some (n_labels n, n_props n))) (files db ! route (length (files db)) i) d')"
  shows "case res of Inl e \<Rightarrow> graph_inv B C db' N G \<and> (uniq_inv B C db N \<longrightarrow> uniq_inv B C db' N)
    | Inr j \<Rightarrow> j = i \<and> graph_inv B C db' (N(i \<mapsto> (n_labels n, n_props n))) G \<and>
        (uniq_inv B C db N \<and> uniq_fits C (db_uniqueConstraints db) (n_labels n, n_props n) \<longrightarrow> uniq_inv B C db' (N(i \<mapsto> (n_labels n, n_props n))))"
proof -
  obtain r1 db1 where w: "writeUpdate (shardFor db i) tx db = (r1, db1)" by (cases "writeUpdate (shardFor db i) tx db")
  show ?thesis
  proof (cases r1)
    case (Inl e)
    then show ?thesis using op w graph_inv_failed [OF w [unfolded Inl] inv] uniq_inv_failed [OF w [unfolded Inl]] by (auto simp: w)
  next
    case (Inr u)
    let ?x = "Some (n_labels n, n_props n)"
    have ne: "files db \<noteq> []" using graph_inv_shards [OF inv] by simp
    have co: "cache_ok C db N" and nd: "no_dangling N G" using inv by (simp_all add: graph_inv_def)
    have g: "graph_inv B C (db1\<lparr>db_ncache := nc_Put n (db_ncache db)\<rparr>) (N(i := ?x)) G"
      by (rule node_tx_step [OF inv w [unfolded Inr] _ no_dangling_upd [OF nd] _ cache_put_node [OF co new(1) n]]) (use new ch in simp_all)
    have cc: "db_ncache db1 = db_ncache db" using writeUpdate_Inr [OF w [unfolded Inr]] by fastforce
    have s: "same_graph (db1\<lparr>db_ncache := nc_Put n (db_ncache db)\<rparr>) db'" and res: "res = Inr i"
      using op w Inr cc by (auto simp: same_graph_def Let_def bloom_fields)
    have "uniq_inv B C db1 (N(i := ?x))" if h: "uniq_inv B C db N" "uniq_fits C (db_uniqueConstraints db) (n_labels n, n_props n)"
      by (rule uniq_tx_step [OF h(1) w [unfolded Inr] ne new(2)]) (use ch h new(1) inv_uniq_pre [OF h(1) ne new(2)] in auto)
    then show ?thesis using g res same_graph_inv [OF s] same_graph_uniq [OF s] by auto
  qed
qed

context graph_store
begin

lemma AddNode_step:
  assumes inv: "graph_inv B C db N G" and "nodeCtr db \<noteq> - 1" and op: "AddNode B C W props db = (r, db')"
  shows "case r of Inl e \<Rightarrow> graph_inv B C db' N G \<and> (uniq_inv B C db N \<longrightarrow> uniq_inv B C db' N)
    | Inr i \<Rightarrow> i = nodeCtr db + 1 \<and> N i = None \<and> graph_inv B C db' (N(i \<mapsto> ([], props))) G \<and>
        (uniq_inv B C db N \<longrightarrow> uniq_inv B C db' (N(i \<mapsto> ([], props))))"
proof (cases "db_closed db \<or> isFollower db")
  case True
  then show ?thesis using op inv by (auto simp: AddNode_def guard_refuses)
next
  case False
  obtain i db0 where al: "dbAllocNodeID db = (i, db0)" by (cases "dbAllocNodeID db")
  note a = alloc_node [OF assms(1,2) al]
  have u0: "uniq_inv B C db0 N = uniq_inv B C db N" by (simp add: uniq_inv_def a(6,7))
  show ?thesis
  proof (cases "encodeProps C props")
    case (Inl e)
    then show ?thesis using op False al a(1) u0 by (auto simp: AddNode_def guarded_ok Let_def)
  next
    case (Inr data)
    let ?n = "\<lparr>n_id = i, n_labels = [], n_props = props\<rparr>"
    have op': "(case writeUpdate (shardFor db0 i) (addNodeTx B C db0 i data props) db0 of (Inl e, db1) \<Rightarrow> (Inl (ErrWrap ''graphdb: failed to add node'' e), db1)
        | (Inr _, db1) \<Rightarrow> let db2 = walAppend W (WALAddNode i props) (updShard (shardFor db0 i) (addNodeCount 1) db1)
             in (Inr i, db2\<lparr>db_ncache := nc_Put ?n (db_ncache db2)\<rparr>)) = (r, db')"
      using op False al Inr by (simp add: AddNode_def guarded_ok Let_def)
    have "case r of Inl e \<Rightarrow> graph_inv B C db' N G \<and> (uniq_inv B C db0 N \<longrightarrow> uniq_inv B C db' N)
      | Inr j \<Rightarrow> j = i \<and> graph_inv B C db' (N(i \<mapsto> (n_labels ?n, n_props ?n))) G \<and>
        (uniq_inv B C db0 N \<and> uniq_fits C (db_uniqueConstraints db0) (n_labels ?n, n_props ?n) \<longrightarrow> uniq_inv B C db' (N(i \<mapsto> (n_labels ?n, n_props ?n))))"
    proof (rule add_op_step [OF a(1,4,5) _ _ op'])
      fix d' assume tx: "addNodeTx B C db0 i data props (files db0 ! route (length (files db0)) i) = Inr d'"
      note c = addNodeTx_change [OF tx Inr inv_tx_pre [OF a(1), of i, unfolded a(4)]]
      show "tx_change B C db0 i None (Some (n_labels ?n, n_props ?n)) (files db0 ! route (length (files db0)) i) d' \<and>
          (uniq_pre B C db0 i None (files db0 ! route (length (files db0)) i) \<and> uniq_fits C (db_uniqueConstraints db0) (n_labels ?n, n_props ?n) \<longrightarrow>
           uniq_change B i (uentries C (db_uniqueConstraints db0) (Some (n_labels ?n, n_props ?n))) (files db0 ! route (length (files db0)) i) d')"
        using c uniq_change_same [OF _ c(2), where C = C and db = db0 and x = None and A = "{}"] by (simp add: uentries_def)
    qed (use a in simp_all)
    then show ?thesis using u0 a(2,4) by (auto simp: uniq_fits_def split: sum.splits)
  qed
qed

lemma AddNodeWithLabels_step:
  assumes inv: "graph_inv B C db N G" and "nodeCtr db \<noteq> - 1" and op: "AddNodeWithLabels B C W ls props db = (r, db')"
  shows "case r of Inl e \<Rightarrow> graph_inv B C db' N G \<and> (uniq_inv B C db N \<longrightarrow> uniq_inv B C db' N)
    | Inr i \<Rightarrow> i = nodeCtr db + 1 \<and> N i = None \<and> graph_inv B C db' (N(i \<mapsto> (ls, props))) G \<and>
        (uniq_inv B C db N \<and> uniq_fits C (db_uniqueConstraints db) (ls, props) \<longrightarrow> uniq_inv B C db' (N(i \<mapsto> (ls, props))))"
proof (cases "db_closed db \<or> isFollower db")
  case True
  then show ?thesis using op inv by (auto simp: AddNodeWithLabels_def guard_refuses)
next
  case False
  obtain i db0 where al: "dbAllocNodeID db = (i, db0)" by (cases "dbAllocNodeID db")
  note a = alloc_node [OF assms(1,2) al]
  have u0: "uniq_inv B C db0 N = uniq_inv B C db N" by (simp add: uniq_inv_def a(6,7))
  show ?thesis
  proof (cases "\<exists>data ld. encodeProps C props = Inr data \<and> (if ls = [] then Inr [] else c_marshal_labels C ls) = Inr ld")
    case bad: False
    then have "graph_inv B C db' N G \<and> uniq_inv B C db' N = uniq_inv B C db N \<and> (\<exists>e. r = Inl e)"
      using op False al a(1) u0 by (auto simp: AddNodeWithLabels_def guarded_ok Let_def split: sum.splits)
    then show ?thesis by auto
  next
    case True
    then obtain data ld where enc: "encodeProps C props = Inr data" and lab: "(if ls = [] then Inr [] else c_marshal_labels C ls) = Inr ld" by blast
    let ?n = "\<lparr>n_id = i, n_labels = ls, n_props = props\<rparr>"
    have op': "(case writeUpdate (shardFor db0 i) (addNodeWithLabelsTx B C db0 i data ld ls props) db0 of (Inl e, db1) \<Rightarrow> (Inl (ErrWrap ''graphdb: failed to add node'' e), db1)
        | (Inr _, db1) \<Rightarrow> let db2 = walAppend W (WALAddNodeWithLabels i ls props) (updShard (shardFor db0 i) (addNodeCount 1) db1)
             in (Inr i, db2\<lparr>db_ncache := nc_Put ?n (db_ncache db2)\<rparr>)) = (r, db')"
      using op False al enc lab by (simp add: AddNodeWithLabels_def guarded_ok Let_def)
    have "case r of Inl e \<Rightarrow> graph_inv B C db' N G \<and> (uniq_inv B C db0 N \<longrightarrow> uniq_inv B C db' N)
      | Inr j \<Rightarrow> j = i \<and> graph_inv B C db' (N(i \<mapsto> (n_labels ?n, n_props ?n))) G \<and>
        (uniq_inv B C db0 N \<and> uniq_fits C (db_uniqueConstraints db0) (n_labels ?n, n_props ?n) \<longrightarrow> uniq_inv B C db' (N(i \<mapsto> (n_labels ?n, n_props ?n))))"
    proof (rule add_op_step [OF a(1,4,5) _ _ op'])
      fix d' assume tx: "addNodeWithLabelsTx B C db0 i data ld ls props (files db0 ! route (length (files db0)) i) = Inr d'"
      note c = addNodeWithLabelsTx_change [OF tx enc lab inv_tx_pre [OF a(1), of i, unfolded a(4)]]
      show "tx_change B C db0 i None (Some (n_labels ?n, n_props ?n)) (files db0 ! route (length (files db0)) i) d' \<and>
          (uniq_pre B C db0 i None (files db0 ! route (length (files db0)) i) \<and> uniq_fits C (db_uniqueConstraints db0) (n_labels ?n, n_props ?n) \<longrightarrow>
           uniq_change B i (uentries C (db_uniqueConstraints db0) (Some (n_labels ?n, n_props ?n))) (files db0 ! route (length (files db0)) i) d')"
        using c by simp
    qed (use a in simp_all)
    then show ?thesis using u0 a(2,4,6) by (auto split: sum.splits)
  qed
qed

lemma UpdateNode_step:
  assumes inv: "graph_inv B C db N G" and op: "UpdateNode B C W i props db = (r, db')"
  shows "case r of Inl e \<Rightarrow> graph_inv B C db' N G \<and> (uniq_inv B C db N \<longrightarrow> uniq_inv B C db' N)
    | Inr _ \<Rightarrow> \<exists>x. N i = Some x \<and> graph_inv B C db' (N(i \<mapsto> (fst x, props_merge (snd x) props))) G \<and>
        (uniq_inv B C db N \<and> uniq_fits C (db_uniqueConstraints db) (fst x, props_merge (snd x) props) \<longrightarrow>
         uniq_inv B C db' (N(i \<mapsto> (fst x, props_merge (snd x) props))))"
  by (rule rewrite_op_step [OF inv op [unfolded UpdateNode_def], where g = "\<lambda>x. (fst x, props_merge (snd x) props)" and h = "\<lambda>x. (fst x, props_merge (snd x) props)"])
    (drule updateNodeTx_change [OF _ inv_tx_pre [OF inv]], auto)

lemma SetNodeProps_step:
  assumes inv: "graph_inv B C db N G" and op: "SetNodeProps B C W i props db = (r, db')"
  shows "case r of Inl e \<Rightarrow> graph_inv B C db' N G \<and> (uniq_inv B C db N \<longrightarrow> uniq_inv B C db' N)
    | Inr _ \<Rightarrow> \<exists>x. N i = Some x \<and> graph_inv B C db' (N(i \<mapsto> (fst x, props))) G \<and>
        (uniq_inv B C db N \<and> uniq_fits C (db_uniqueConstraints db) (fst x, props) \<longrightarrow> uniq_inv B C db' (N(i \<mapsto> (fst x, props))))"
  by (rule rewrite_op_step [OF inv op [unfolded SetNodeProps_def], where g = "\<lambda>x. (fst x, props)" and h = "\<lambda>x. (fst x, props)"])
    (drule setNodePropsTx_change [OF _ inv_tx_pre [OF inv]], auto)

lemma AddLabel_step:
  assumes inv: "graph_inv B C db N G" and op: "AddLabel B C W i labels db = (r, db')" and "labels \<noteq> []"
  shows "case r of Inl e \<Rightarrow> graph_inv B C db' N G \<and> (uniq_inv B C db N \<longrightarrow> uniq_inv B C db' N)
    | Inr _ \<Rightarrow> \<exists>x. N i = Some x \<and> graph_inv B C db' (N(i \<mapsto> (fst x @ filter (\<lambda>l. l \<notin> set (fst x)) labels, snd x))) G \<and>
        (uniq_inv B C db N \<and> uniq_fits C (db_uniqueConstraints db) (filter (\<lambda>l. l \<notin> set (fst x)) labels, snd x) \<longrightarrow>
         uniq_inv B C db' (N(i \<mapsto> (fst x @ filter (\<lambda>l. l \<notin> set (fst x)) labels, snd x))))"
proof -
  have op': "guarded db (case writeUpdate (shardFor db i) (addLabelTx B C db i labels) db of (Inl e, db1) \<Rightarrow> (Inl e, db1)
        | (Inr _, db1) \<Rightarrow> (Inr (), invalidateNode i (walAppend W (WALAddLabel i labels) db1))) = (r, db')"
    using op assms(3) by (simp add: AddLabel_def)
  show ?thesis
    by (rule rewrite_op_step [OF inv op', where g = "\<lambda>x. (fst x @ filter (\<lambda>l. l \<notin> set (fst x)) labels, snd x)"
        and h = "\<lambda>x. (filter (\<lambda>l. l \<notin> set (fst x)) labels, snd x)"])
      (drule addLabelTx_change [OF _ inv_tx_pre [OF inv]], auto)
qed

lemma RemoveLabel_step:
  assumes inv: "graph_inv B C db N G" and op: "RemoveLabel B C W i labels db = (r, db')" and "labels \<noteq> []"
  shows "case r of Inl e \<Rightarrow> graph_inv B C db' N G \<and> (uniq_inv B C db N \<longrightarrow> uniq_inv B C db' N)
    | Inr _ \<Rightarrow> \<exists>x. N i = Some x \<and> graph_inv B C db' (N(i \<mapsto> (filter (\<lambda>l. l \<notin> set labels) (fst x), snd x))) G \<and>
        (uniq_inv B C db N \<longrightarrow> uniq_inv B C db' (N(i \<mapsto> (filter (\<lambda>l. l \<notin> set labels) (fst x), snd x))))"
proof -
  have op': "guarded db (case writeUpdate (shardFor db i) (removeLabelTx B C i labels) db of (Inl e, db1) \<Rightarrow> (Inl e, db1)
        | (Inr _, db1) \<Rightarrow> (Inr (), invalidateNode i (walAppend W (WALRemoveLabel i labels) db1))) = (r, db')"
    using op assms(3) by (simp add: RemoveLabel_def)
  have fits: "uniq_fits C (db_uniqueConstraints db) ([], snd x)" for x :: nrec by (simp add: uniq_fits_def)
  have "case r of Inl e \<Rightarrow> graph_inv B C db' N G \<and> (uniq_inv B C db N \<longrightarrow> uniq_inv B C db' N)
    | Inr _ \<Rightarrow> \<exists>x. N i = Some x \<and> graph_inv B C db' (N(i \<mapsto> (filter (\<lambda>l. l \<notin> set labels) (fst x), snd x))) G \<and>
        (uniq_inv B C db N \<and> uniq_fits C (db_uniqueConstraints db) ([], snd x) \<longrightarrow>
         uniq_inv B C db' (N(i \<mapsto> (filter (\<lambda>l. l \<notin> set labels) (fst x), snd x))))"
    by (rule rewrite_op_step [OF inv op', where g = "\<lambda>x. (filter (\<lambda>l. l \<notin> set labels) (fst x), snd x)" and h = "\<lambda>x. ([], snd x)"])
      (drule removeLabelTx_change [OF _ inv_tx_pre [OF inv]], auto)
  then show ?thesis using fits by (cases r) auto
qed

section \<open>Reading a node through the cache\<close>

lemma readNode_rep:
  assumes "graph_inv B C db N G"
  shows "case N i of None \<Rightarrow> readNode B C i (bucketsOf db (shardFor db i)) = Inl (ErrNodeNotFound i)
    | Some (ls, ps) \<Rightarrow> \<exists>q. readNode B C i (bucketsOf db (shardFor db i)) = Inr \<lparr>n_id = i, n_labels = ls, n_props = q\<rparr> \<and> text_eq C ps q"
proof -
  let ?d = "files db ! route (length (files db)) i"
  have ne: "files db \<noteq> []" using graph_inv_shards [OF assms] by simp
  have d: "bucketsOf db (shardFor db i) = ?d"
    using files_nth [of "route (length (files db)) i" db] route_less [of "length (files db)" i] ne by (simp add: shardFor_route)
  have at: "node_at B C i (N i) ?d" using inv_tx_pre [OF assms] by (simp add: tx_pre_def)
  show ?thesis unfolding d
  proof (cases "N i")
    case None
    then show "case N i of None \<Rightarrow> readNode B C i ?d = Inl (ErrNodeNotFound i)
        | Some (ls, ps) \<Rightarrow> \<exists>q. readNode B C i ?d = Inr \<lparr>n_id = i, n_labels = ls, n_props = q\<rparr> \<and> text_eq C ps q"
      using node_at_data(1) [OF at] by (simp add: readNode_def)
  next
    case (Some x)
    obtain ls ps where x: "x = (ls, ps)" by (cases x)
    obtain data where get: "b_get B (bk_nodes ?d) (encodeNodeID i) = Some data" using node_at_data(1) [OF at] Some by auto
    then obtain q where "decodeProps C data = Inr q" "text_eq C ps q" using node_at_data(2) [OF at get] Some x by auto
    then show "case N i of None \<Rightarrow> readNode B C i ?d = Inl (ErrNodeNotFound i)
        | Some (ls, ps) \<Rightarrow> \<exists>q. readNode B C i ?d = Inr \<lparr>n_id = i, n_labels = ls, n_props = q\<rparr> \<and> text_eq C ps q"
      using node_at_labels [of B C i ls ps ?d] at Some x get by (simp add: readNode_def)
  qed
qed

lemma getNode_step:
  assumes inv: "graph_inv B C db N G" and "\<not> db_closed db" and op: "getNode B C i db = (r, db')"
  shows "graph_inv B C db' N G" and "uniq_inv B C db' N = uniq_inv B C db N"
    and "case N i of None \<Rightarrow> r = Inl (ErrNodeNotFound i)
      | Some (ls, ps) \<Rightarrow> \<exists>q. r = Inr \<lparr>n_id = i, n_labels = ls, n_props = q\<rparr> \<and> text_eq C ps q"
proof -
  let ?P = "\<lambda>j n. \<exists>ps. N j = Some (n_labels n, ps) \<and> n_id n = j \<and> text_eq C ps (n_props n)"
  obtain hit nc where g: "nc_Get i (db_ncache db) = (hit, nc)" by (cases "nc_Get i (db_ncache db)")
  have co: "nodecache.coherent ?P (db_ncache db)" using inv by (simp add: graph_inv_def cache_ok_def)
  have co': "nodecache.coherent ?P nc" using nodecache.coherent_get [OF co, of i] g by simp
  have upd: "graph_inv B C (db\<lparr>db_ncache := c\<rparr>) N G" if "nodecache.coherent ?P c" for c
    using inv that by (simp add: graph_inv_def cache_ok_def node_ids_bounded_def edge_ids_bounded_def bloom_covers_def)
  have res: "graph_inv B C db' N G \<and> uniq_inv B C db' N = uniq_inv B C db N \<and> (case N i of None \<Rightarrow> r = Inl (ErrNodeNotFound i)
      | Some (ls, ps) \<Rightarrow> \<exists>q. r = Inr \<lparr>n_id = i, n_labels = ls, n_props = q\<rparr> \<and> text_eq C ps q)"
  proof (cases hit)
    case (Some n)
    then have "?P i n" using nodecache.coherent_get_result [OF co, of i n] g by simp
    then show ?thesis using op upd [OF co'] g Some by (cases n) (auto simp: getNode_def)
  next
    case None
    note rd = readNode_rep [OF inv, of i]
    show ?thesis
    proof (cases "N i")
      case N: None
      then show ?thesis using op g None rd upd [OF co'] assms(2) by (simp add: getNode_def viewing_def) auto
    next
      case (Some x)
      then obtain ls ps q where x: "x = (ls, ps)"
        and q: "readNode B C i (bucketsOf db (shardFor db i)) = Inr \<lparr>n_id = i, n_labels = ls, n_props = q\<rparr>" "text_eq C ps q"
        using rd by (cases x) auto
      have "nodecache.coherent ?P (nc_Put \<lparr>n_id = i, n_labels = ls, n_props = q\<rparr> nc)"
        by (rule nodecache.coherent_put [OF co']) (use Some x q(2) in simp)
      from upd [OF this] show ?thesis using op g None assms(2) Some x q(2) by (auto simp: getNode_def viewing_def q(1))
    qed
  qed
  then show "graph_inv B C db' N G" "uniq_inv B C db' N = uniq_inv B C db N" "case N i of None \<Rightarrow> r = Inl (ErrNodeNotFound i)
      | Some (ls, ps) \<Rightarrow> \<exists>q. r = Inr \<lparr>n_id = i, n_labels = ls, n_props = q\<rparr> \<and> text_eq C ps q" by blast+
qed

section \<open>The edge operations as steps\<close>

lemma verifyNodeExists_rep:
  assumes "graph_inv B C db N G" and "verifyNodeExists B db i = Inr u"
  shows "N i \<noteq> None"
proof -
  have ne: "files db \<noteq> []" using graph_inv_shards [OF assms(1)] by simp
  have d: "bucketsOf db (shardFor db i) = files db ! route (length (files db)) i"
    using files_nth [of "route (length (files db)) i" db] route_less [of "length (files db)" i] ne by (simp add: shardFor_route)
  have "node_at B C i (N i) (files db ! route (length (files db)) i)" using inv_tx_pre [OF assms(1)] by (simp add: tx_pre_def)
  from node_at_data(1) [OF this] show ?thesis
    using assms(2) by (auto simp: verifyNodeExists_def viewing_def d split: if_splits)
qed

end

text \<open>Steps that only touch the edge buckets keep the node side of the invariant.\<close>

definition node_frame :: "'b buckets \<Rightarrow> 'b buckets \<Rightarrow> bool" where
  "node_frame d d' \<longleftrightarrow> bk_nodes d' = bk_nodes d \<and> bk_node_labels d' = bk_node_labels d \<and> bk_idx_node_label d' = bk_idx_node_label d \<and>
     bk_idx_prop d' = bk_idx_prop d \<and> bk_idx_composite d' = bk_idx_composite d \<and> bk_idx_unique d' = bk_idx_unique d"

definition node_same :: "'b DB \<Rightarrow> 'b DB \<Rightarrow> bool" where
  "node_same db db' \<longleftrightarrow> list_all2 node_frame (files db) (files db') \<and> db_indexedProps db' = db_indexedProps db \<and>
     db_compositeIndexes db' = db_compositeIndexes db \<and> db_uniqueConstraints db' = db_uniqueConstraints db \<and>
     nodeCtr db' = nodeCtr db \<and> db_ncache db' = db_ncache db"

lemma node_frame_refl [simp]: "node_frame d d"
  by (simp add: node_frame_def)

lemma node_same_refl [simp]: "node_same db db"
  by (simp add: node_same_def list_all2_refl)

lemma node_same_trans: "node_same a b \<Longrightarrow> node_same b c \<Longrightarrow> node_same a c"
  using list_all2_trans [where ?P1.0 = node_frame and ?P2.0 = node_frame and ?P3.0 = node_frame, of "files a" "files b" "files c"]
  by (simp add: node_same_def) (simp add: node_frame_def)

lemma node_same_same: "same_graph db db' \<Longrightarrow> node_same db db'"
  by (simp add: same_graph_def node_same_def list_all2_refl)

lemma node_same_write:
  assumes "writeUpdate i tx db = (r, db')" and "\<And>d d'. tx d = Inr d' \<Longrightarrow> node_frame d d'"
  shows "node_same db db'"
proof (cases r)
  case (Inl e)
  then show ?thesis using writeUpdate_Inl assms(1) node_same_same [OF same_graph_steps(4)] by blast
next
  case (Inr u)
  obtain d where d: "tx (bucketsOf db i) = Inr d" and db': "db' = updShard i (\<lambda>s. s\<lparr>s_data := d\<rparr>) (db\<lparr>db_faults := tl (db_faults db)\<rparr>)"
    using writeUpdate_Inr [OF assms(1) [unfolded Inr]] by metis
  have "list_all2 node_frame (files db) ((files db)[i := d])"
  proof (cases "i < length (db_shards db)")
    case True
    then show ?thesis using assms(2) [OF d] by (auto simp: list_all2_conv_all_nth nth_list_update files_nth)
  qed (simp add: list_update_beyond list_all2_refl)
  then show ?thesis by (simp add: node_same_def db')
qed

lemma node_same_rep:
  assumes "node_same db db'"
  shows "nodes_rep B C (files db') N = nodes_rep B C (files db) N"
    and "index_rep B C idx defs (files db') N = index_rep B C idx defs (files db) N"
    and "uniq_inv B C db' N = uniq_inv B C db N"
proof -
  have len: "length (files db') = length (files db)" using assms unfolding node_same_def by (metis list_all2_lengthD)
  have fr: "node_frame (files db ! s) (files db' ! s)" if "s < length (files db)" for s
    using assms that unfolding node_same_def list_all2_conv_all_nth by blast
  have keys: "rep_keys (length (files db)) K (\<lambda>s. b_get B (f (files db' ! s))) N = rep_keys (length (files db)) K (\<lambda>s. b_get B (f (files db ! s))) N"
    if h: "\<And>d d'. node_frame d d' \<Longrightarrow> f d' = f d" for K f
  proof -
    have "f (files db' ! s) = f (files db ! s)" if "s < length (files db)" for s using fr that h by blast
    then show ?thesis unfolding rep_keys_def by simp
  qed
  have vals: "rep_vals (length (files db)) V (\<lambda>s. b_get B (f (files db' ! s))) N = rep_vals (length (files db)) V (\<lambda>s. b_get B (f (files db ! s))) N"
    if "files db \<noteq> []" "\<And>d d'. node_frame d d' \<Longrightarrow> f d' = f d" for V f
  proof -
    have "f (files db' ! route (length (files db)) i) = f (files db ! route (length (files db)) i)" for i
      using fr [of "route (length (files db)) i"] that route_less [of "length (files db)" i] by simp
    then show ?thesis by (simp add: rep_vals_def)
  qed
  show "nodes_rep B C (files db') N = nodes_rep B C (files db) N"
  proof (cases "files db = []")
    case True
    then have "files db' = []" using len by simp
    then show ?thesis using True by (simp add: nodes_rep_def)
  next
    case False
    then have "files db' \<noteq> []" using len by (metis length_0_conv)
    then show ?thesis
      using keys [of bk_nodes] keys [of bk_node_labels] keys [of bk_idx_node_label] vals [OF False, of bk_nodes] vals [OF False, of bk_node_labels] len False
      by (simp add: nodes_rep_def node_frame_def)
  qed
  show "index_rep B C idx defs (files db') N = index_rep B C idx defs (files db) N"
    using keys [of bk_idx_prop] keys [of bk_idx_composite] len by (auto simp: index_rep_def node_frame_def)
  show "uniq_inv B C db' N = uniq_inv B C db N"
  proof (cases "files db = []")
    case True
    then have "files db' = files db" using len by (metis length_0_conv)
    then show ?thesis using assms by (simp add: uniq_inv_def node_same_def)
  next
    case False
    have r: "bk_idx_unique (files db' ! route (length (files db)) i) = bk_idx_unique (files db ! route (length (files db)) i)" for i
      using fr [of "route (length (files db)) i"] False route_less [of "length (files db)" i] by (simp add: node_frame_def)
    have e: "map bk_idx_unique (files db') = map bk_idx_unique (files db)"
      by (rule nth_equalityI) (use fr len in \<open>auto simp: node_frame_def\<close>)
    have "(\<forall>d \<in> set (files db'). P (bk_idx_unique d)) = (\<forall>d \<in> set (files db). P (bk_idx_unique d))" for P
      using arg_cong [OF e, of "list_all P"] by (simp add: list_all_iff)
    from this [of "\<lambda>u. \<forall>k v. b_get B u k = Some v \<longrightarrow> (\<exists>j. v = encodeNodeID j)"] show ?thesis
      using r len assms unfolding uniq_inv_def uniq_rep_def node_same_def by (simp only: len)
  qed
qed

lemma edge_tx_frames:
  "addEdgeSameTx B C e d = Inr d' \<Longrightarrow> node_frame d d'" "addEdgeSrcTx B C e d = Inr d' \<Longrightarrow> node_frame d d'"
  "addEdgeDstTx B e d = Inr d' \<Longrightarrow> node_frame d d'" "delEdgeSrcTx B e d = Inr d' \<Longrightarrow> node_frame d d'"
  "delEdgeDstTx B e d = Inr d' \<Longrightarrow> node_frame d d'" "updateEdgeTx B C i e d = Inr d' \<Longrightarrow> node_frame d d'"
  by (auto simp: addEdgeSameTx_def addEdgeSrcTx_def addEdgeDstTx_def delEdgeSrcTx_def delEdgeDstTx_def updateEdgeTx_def node_frame_def)

lemma node_same_alloc: "db_shards db \<noteq> [] \<Longrightarrow> dbAllocEdgeID db = (i, db0) \<Longrightarrow> node_same db db0"
  using files_alloc(2) [of db] ctr_alloc(3) [of db]
  by (auto simp: node_same_def dbAllocEdgeID_def Let_def list_all2_refl)

lemma node_same_bloom: "node_same db (bloomAddDB a b db)"
  by (simp add: node_same_def bloomAddDB_def list_all2_refl)

lemma node_same_AddEdge:
  assumes "AddEdge B C W from to label props db = (r, db')" and "db_shards db \<noteq> []"
  shows "node_same db db'"
proof -
  obtain i db0 where al: "dbAllocEdgeID db = (i, db0)" by (cases "dbAllocEdgeID db")
  note a = node_same_alloc [OF assms(2) al]
  let ?e = "\<lparr>e_id = i, e_from = from, e_to = to, e_label = label, e_props = props\<rparr>"
  obtain r1 db1 where w1: "writeUpdate (shardForEdge db0 from) (addEdgeSameTx B C ?e) db0 = (r1, db1)" by (metis surj_pair)
  obtain r2 db2 where w2: "writeUpdate (shardForEdge db0 from) (addEdgeSrcTx B C ?e) db0 = (r2, db2)" by (metis surj_pair)
  obtain r3 db3 where w3: "writeUpdate (shardFor db0 to) (addEdgeDstTx B ?e) (updShard (shardForEdge db0 from) (addEdgeCount 1) db2) = (r3, db3)" by (metis surj_pair)
  have s1: "node_same db0 db1" by (rule node_same_write [OF w1]) (rule edge_tx_frames(1))
  have s2: "node_same db0 db2" by (rule node_same_write [OF w2]) (rule edge_tx_frames(2))
  have s3: "node_same (updShard (shardForEdge db0 from) (addEdgeCount 1) db2) db3"
    by (rule node_same_write [OF w3]) (rule edge_tx_frames(3))
  have s3': "node_same db0 db3" by (rule node_same_trans [OF node_same_trans [OF s2 node_same_same [OF same_graph_steps(3)]] s3])
  have fin: "node_same db0 (bloomAddDB from to (walAppend W op x))" if "node_same db0 x" for x op
    by (rule node_same_trans [OF node_same_trans [OF that node_same_same [OF same_graph_steps(1)]] node_same_bloom])
  have "node_same db0 db' \<or> db' = db"
    using assms(1) al w1 w2 w3 s1 s2 s3' fin node_same_trans [OF s1 node_same_same [OF same_graph_steps(3)]]
    by (auto simp: AddEdge_def guarded_def writeGuard_def Let_def split: if_splits sum.splits option.splits)
  then show ?thesis using node_same_trans [OF a] by auto
qed

lemma node_same_delete:
  assumes "deleteEdgeInternal B W e db = (r, db')"
  shows "node_same db db'"
proof -
  obtain r1 db1 where w1: "writeUpdate (shardForEdge db (e_from e)) (delEdgeSrcTx B e) db = (r1, db1)" by (metis surj_pair)
  define t where "t = (if shardFor db (e_to e) = shardForEdge db (e_from e) then shardForEdge db (e_from e) else shardFor db (e_to e))"
  obtain r2 db2 where w2: "writeUpdate t (delEdgeDstTx B e) (updShard (shardForEdge db (e_from e)) (addEdgeCount (- 1)) db1) = (r2, db2)" by (metis surj_pair)
  have s1: "node_same db db1" by (rule node_same_write [OF w1]) (rule edge_tx_frames(4))
  have s2: "node_same (updShard (shardForEdge db (e_from e)) (addEdgeCount (- 1)) db1) db2"
    by (rule node_same_write [OF w2]) (rule edge_tx_frames(5))
  have s2': "node_same db db2" by (rule node_same_trans [OF node_same_trans [OF s1 node_same_same [OF same_graph_steps(3)]] s2])
  have "node_same db (walAppend W op db2)" for op by (rule node_same_trans [OF s2' node_same_same [OF same_graph_steps(1)]])
  then show ?thesis using assms w1 w2 s1 s2' unfolding deleteEdgeInternal_def Let_def t_def [symmetric] by (auto split: sum.splits)
qed

lemma edge_step_inv:
  assumes "graph_inv B C db N G" and "node_same db db'" and "edges_rep B C (files db') G'" and "no_dangling N G'"
    and "edge_ids_bounded db' G'" and "bloom_covers db' G'"
  shows "graph_inv B C db' N G'"
  using assms node_same_rep(1,2) [OF assms(2), of B C]
  by (simp add: graph_inv_def cache_ok_def node_ids_bounded_def node_same_def)

lemma writeUpdate_faults: "writeUpdate i fn db = (r, db') \<Longrightarrow> db_faults db' = tl (db_faults db)"
  by (auto simp: writeUpdate_def Let_def updShard_def split: list.splits option.splits sum.splits)

lemma edge_ids_bounded_succ:
  assumes "edgeCtr db \<noteq> - 1" and ctr: "edgeCtr db' = edgeCtr db + 1" and bounded: "edge_ids_bounded db G"
  shows "edge_ids_bounded db' G" and "edge_ids_bounded db' (G(edgeCtr db + 1 \<mapsto> e))"
proof -
  have less: "i \<le> edgeCtr db'" if "G i \<noteq> None" for i
  proof -
    have "i \<le> edgeCtr db" using bounded that unfolding edge_ids_bounded_def by blast
    also have "edgeCtr db < edgeCtr db'" unfolding ctr by (rule u64_less_succ [OF assms(1)])
    finally show ?thesis by simp
  qed
  then show "edge_ids_bounded db' G" unfolding edge_ids_bounded_def by blast
  show "edge_ids_bounded db' (G(edgeCtr db + 1 \<mapsto> e))"
    unfolding edge_ids_bounded_def using less by (simp add: ctr)
qed

lemma alloc_edge_inv:
  assumes "graph_inv B C db N G" and "edgeCtr db \<noteq> - 1" and al: "dbAllocEdgeID db = (i, db0)"
  shows "graph_inv B C db0 N G"
proof (rule edge_step_inv [OF assms(1)])
  have ne: "db_shards db \<noteq> []" by (rule graph_inv_shards [OF assms(1)])
  show "node_same db db0" by (rule node_same_alloc [OF ne al])
  show "edges_rep B C (files db0) G" "no_dangling N G"
    using assms(1) files_alloc(2) [of db] al by (simp_all add: graph_inv_def)
  have "edgeCtr db0 = edgeCtr db + 1" using ctr_alloc(2) [OF ne] al by simp
  moreover have "edge_ids_bounded db G" using assms(1) by (simp add: graph_inv_def)
  ultimately show "edge_ids_bounded db0 G" by (rule edge_ids_bounded_succ [OF assms(2)])
  show "bloom_covers db0 G" using assms(1) bloom_fields(4) [of db] al by (simp add: graph_inv_def bloom_covers_def)
qed

context graph_store
begin

lemma addEdgeDstTx_ok:
  assumes "addEdgeSrcTx B C e d0 = Inr d1"
  shows "\<exists>d'. addEdgeDstTx B e d = Inr d'"
proof -
  obtain b b' where "b_put B b (typKey e) [] = Inr b'" using assms by (auto simp: addEdgeSrcTx_def)
  then have "length (e_label e) < 32768" using put_limit by (fastforce simp: enc_simps)
  then have "\<exists>b'. b_put B (bk_adj_in d) (inKey e) (inVal e) = Inr b'"
    by (intro put_ok) (simp_all add: enc_simps)
  then show ?thesis by (auto simp: addEdgeDstTx_def)
qed

lemma AddEdge_step:
  assumes inv: "graph_inv B C db N G" and ec: "edgeCtr db \<noteq> - 1" and op: "AddEdge B C W from to label props db = (r, db')"
  shows "\<And>i. r = Inr i \<Longrightarrow> G i = None \<and> N from \<noteq> None \<and> N to \<noteq> None \<and>
      graph_inv B C db' N (G(i \<mapsto> \<lparr>e_id = i, e_from = from, e_to = to, e_label = label, e_props = props\<rparr>))"
    and "\<And>e. r = Inl e \<Longrightarrow> db_faults db = [] \<Longrightarrow> graph_inv B C db' N G"
    and "uniq_inv B C db' N = uniq_inv B C db N"
proof -
  have ne: "db_shards db \<noteq> []" by (rule graph_inv_shards [OF inv])
  note same = node_same_AddEdge [OF op ne]
  note i = inv [unfolded graph_inv_def]
  have fresh: "G (edgeCtr db + 1) = None" using edge_id_fresh [OF _ ec] i by blast
  show "uniq_inv B C db' N = uniq_inv B C db N" by (rule node_same_rep(3) [OF same])
  show "G i = None \<and> N from \<noteq> None \<and> N to \<noteq> None \<and>
      graph_inv B C db' N (G(i \<mapsto> \<lparr>e_id = i, e_from = from, e_to = to, e_label = label, e_props = props\<rparr>))" if r: "r = Inr i" for i
  proof -
    let ?G = "G(i \<mapsto> \<lparr>e_id = i, e_from = from, e_to = to, e_label = label, e_props = props\<rparr>)"
    have rep: "i = edgeCtr db + 1" "edges_rep B C (files db') ?G"
      using AddEdge_rep [OF op [unfolded r]] inv fresh unfolding graph_inv_def edgeCtr_def by blast+
    have v: "\<exists>u. verifyNodeExists B db from = Inr u" "\<exists>u. verifyNodeExists B db to = Inr u"
      using guarded_Inr [OF op [unfolded r AddEdge_def]] by (auto split: sum.splits)
    then have N: "N from \<noteq> None" "N to \<noteq> None" using verifyNodeExists_rep [OF inv] by blast+
    have "edgeCtr db' = edgeCtr db + 1" by (rule edgeCtr_AddEdge [OF op [unfolded r] ne])
    moreover have "edge_ids_bounded db G" using inv by (simp add: graph_inv_def)
    ultimately have b: "edge_ids_bounded db' ?G" unfolding rep(1) by (rule edge_ids_bounded_succ(2) [OF ec])
    have bl: "bloom_covers db' ?G"
      using AddEdge_bloom [OF op [unfolded r]] inv bloomTest_add bloomTest_mono
      by (auto simp: graph_inv_def bloom_covers_def split: option.splits)
    have "no_dangling N ?G" using inv N by (simp add: graph_inv_def no_dangling_def)
    then show ?thesis using edge_step_inv [OF inv same rep(2) _ b bl] N fresh rep(1) by simp
  qed
  show "graph_inv B C db' N G" if r: "r = Inl e" and nf: "db_faults db = []" for e
  proof -
    obtain j db0 where al: "dbAllocEdgeID db = (j, db0)" by (cases "dbAllocEdgeID db")
    note inv0 = alloc_edge_inv [OF inv ec al]
    have f0: "db_faults db0 = []" "db_shards db0 \<noteq> []" using al nf ne by (auto simp: dbAllocEdgeID_def Let_def updShard_def)
    let ?e = "\<lparr>e_id = j, e_from = from, e_to = to, e_label = label, e_props = props\<rparr>"
    have dst: False if h: "writeUpdate s (addEdgeSrcTx B C ?e) db0 = (Inr u, db1)"
        "writeUpdate t (addEdgeDstTx B ?e) (updShard s (addEdgeCount 1) db1) = (Inl x, db3)" for s t u db1 x db3
    proof -
      obtain d where d: "addEdgeSrcTx B C ?e (bucketsOf db0 s) = Inr d"
        using writeUpdate_Inr [OF h(1)] by metis
      have "db_faults db1 = []" using writeUpdate_faults [OF h(1)] f0 by simp
      then have "db_faults (updShard s (addEdgeCount 1) db1) = []" using f0 by simp
      then show False using h(2) addEdgeDstTx_ok [OF d, of "bucketsOf (updShard s (addEdgeCount 1) db1) t"]
        by (auto simp: writeUpdate_def)
    qed
    show ?thesis
      using op inv inv0 al r graph_inv_failed [OF _ inv0]
      by (auto simp: AddEdge_def guarded_def writeGuard_def Let_def dest: dst split: if_splits sum.splits option.splits prod.splits)
  qed
qed

end

end
