(* ===== verification/GraphOps.thy ===== *)
theory GraphOps
  imports GraphInv
begin

text \<open>
  Deleting and updating edges, deleting nodes, and the reads through the label and property indexes, as
  steps on the represented graph. The last section puts the operations together: every sequence of calls
  on an open leader, whatever it returns, leaves a database that represents a graph without dangling edges.
\<close>

section \<open>Deleting edges\<close>

lemma deleteEdgeInternal_fields:
  assumes "deleteEdgeInternal B W e db = (r, db')"
  shows "edgeCtr db' = edgeCtr db" "db_edgeBloom db' = db_edgeBloom db" "db_closed db' = db_closed db" "db_role db' = db_role db"
proof -
  have w: "edgeCtr db1 = edgeCtr x" "db_edgeBloom db1 = db_edgeBloom x" "db_closed db1 = db_closed x" "db_role db1 = db_role x"
    if "writeUpdate s fn x = (q, db1)" for s fn q db1 and x :: "'a DB"
    using that ctr_writeUpdate(1) [of s fn x] bloom_fields(3) [of s fn x]
    by (auto simp: writeUpdate_def Let_def split: list.splits option.splits sum.splits)
  show "edgeCtr db' = edgeCtr db"
    using assms by (auto simp: deleteEdgeInternal_def Let_def split: sum.splits prod.splits dest!: w(1))
  show "db_edgeBloom db' = db_edgeBloom db"
    using assms by (auto simp: deleteEdgeInternal_def Let_def split: sum.splits prod.splits dest!: w(2))
  show "db_closed db' = db_closed db"
    using assms by (auto simp: deleteEdgeInternal_def Let_def split: sum.splits prod.splits dest!: w(3))
  show "db_role db' = db_role db"
    using assms by (auto simp: deleteEdgeInternal_def Let_def split: sum.splits prod.splits dest!: w(4))
qed

lemma edge_bounds_remove:
  "edge_ids_bounded db G \<Longrightarrow> edge_ids_bounded db (G(i := None))" "no_dangling N G \<Longrightarrow> no_dangling N (G(i := None))"
  "bloom_covers db G \<Longrightarrow> bloom_covers db (G(i := None))"
  by (auto simp: edge_ids_bounded_def no_dangling_def bloom_covers_def split: option.splits)

definition removing :: "EdgeID set \<Rightarrow> graph_edges \<Rightarrow> graph_edges" where
  "removing S G = (\<lambda>i. if i \<in> S then None else G i)"

lemma removing_simps [simp]: "removing {} G = G" "removing S (G(i := None)) = removing (insert i S) G"
  by (auto simp: removing_def fun_eq_iff)

text \<open>The graph without a node: its edges go with it.\<close>

definition without :: "NodeID \<Rightarrow> graph_edges \<Rightarrow> graph_edges" where
  "without i G = (\<lambda>eid. case G eid of None \<Rightarrow> None | Some e \<Rightarrow> if e_from e = i \<or> e_to e = i then None else Some e)"

lemma compat_remove: "compat G e \<Longrightarrow> compat (G(i := None)) e"
  by (simp add: compat_def)

lemma decodeEdge_label: "decodeEdge C data = Inr e \<Longrightarrow> length (e_label e) < 2 ^ 32"
proof -
  have pay: "length (e_label e) < 2 ^ 32" if "decodeEdgePayload C p = Inr e" for p
  proof -
    define n where "n = unat (the (BE_Uint32 (drop 24 p)))"
    have "e_label e = take n (drop 28 p)"
      using that unfolding decodeEdgePayload_def Let_def n_def [symmetric]
      by (cases "decodeProps C (drop (28 + n) p)") (simp_all split: if_splits, auto)
    then have "length (e_label e) \<le> n" by simp
    also have "n < 2 ^ 32" unfolding n_def using unsigned_less [of "the (BE_Uint32 (drop 24 p))"] by simp
    finally show ?thesis .
  qed
  then show "decodeEdge C data = Inr e \<Longrightarrow> length (e_label e) < 2 ^ 32"
    by (auto simp: decodeEdge_def split: if_splits)
qed

lemma rep_index_reshape:
  assumes "rep_index n home key val T G" and "G i = Some e0" and "home e = home e0" "key e = key e0" "val e = val e0"
  shows "rep_index n home key val T (G(i \<mapsto> e))"
proof -
  have "(\<exists>eid x. (G(i \<mapsto> e)) eid = Some x \<and> route n (home x) = j \<and> k = key x \<and> v = val x) \<longleftrightarrow>
        (\<exists>eid x. G eid = Some x \<and> route n (home x) = j \<and> k = key x \<and> v = val x)" for j k v
  proof -
    have "(\<exists>x. (G(i \<mapsto> e)) eid = Some x \<and> route n (home x) = j \<and> k = key x \<and> v = val x) \<longleftrightarrow>
          (\<exists>x. G eid = Some x \<and> route n (home x) = j \<and> k = key x \<and> v = val x)" for eid
      using assms(2-5) by simp
    then show ?thesis by blast
  qed
  then show ?thesis using assms(1) unfolding rep_index_def by simp
qed

context graph_store
begin

lemma deleteEdgeInternal_step:
  assumes inv: "graph_inv B C db N G" and "compat G e" and op: "deleteEdgeInternal B W e db = (Inr u, db')"
  shows "graph_inv B C db' N (G(e_id e := None))" and "uniq_inv B C db' N = uniq_inv B C db N"
proof -
  note same = node_same_delete [OF op] and f = deleteEdgeInternal_fields [OF op]
  note i = inv [unfolded graph_inv_def]
  show "uniq_inv B C db' N = uniq_inv B C db N" by (rule node_same_rep(3) [OF same])
  show "graph_inv B C db' N (G(e_id e := None))"
  proof (rule edge_step_inv [OF inv same])
    show "edges_rep B C (files db') (G(e_id e := None))" using deleteEdgeInternal_rep [OF op _ assms(2)] i by blast
    have "edge_ids_bounded db (G(e_id e := None))" "bloom_covers db (G(e_id e := None))" using i edge_bounds_remove by blast+
    then show "edge_ids_bounded db' (G(e_id e := None))" "bloom_covers db' (G(e_id e := None))"
      using f by (simp_all add: edge_ids_bounded_def bloom_covers_def)
  qed (use i edge_bounds_remove in blast)
qed

lemma deleteEdges_step:
  assumes "graph_inv B C db N G" and "\<forall>e \<in> set es. compat G e" and "deleteEdges B W es db = (Inr u, db')"
  shows "graph_inv B C db' N (removing (e_id ` set es) G) \<and> uniq_inv B C db' N = uniq_inv B C db N \<and>
     db_closed db' = db_closed db \<and> db_role db' = db_role db"
  using assms
proof (induction es arbitrary: db G)
  case (Cons e es)
  obtain db1 where d: "deleteEdgeInternal B W e db = (Inr (), db1)" "deleteEdges B W es db1 = (Inr u, db')"
    using Cons.prems(3) by (auto split: prod.splits sum.splits)
  have s: "graph_inv B C db1 N (G(e_id e := None))" "uniq_inv B C db1 N = uniq_inv B C db N"
    using deleteEdgeInternal_step [OF Cons.prems(1) _ d(1)] Cons.prems(2) by auto
  have "\<forall>x \<in> set es. compat (G(e_id e := None)) x" using Cons.prems(2) compat_remove by (metis list.set_intros(2))
  from Cons.IH [OF s(1) this d(2), unfolded removing_simps] show ?case using s(2) deleteEdgeInternal_fields [OF d(1)] by simp
qed simp

lemma deleteEdges_ok:
  "db_faults db = [] \<Longrightarrow> \<exists>db'. deleteEdges B W es db = (Inr (), db') \<and> db_faults db' = []"
proof (induction es arbitrary: db)
  case (Cons e es)
  obtain db1 where "deleteEdgeInternal B W e db = (Inr (), db1)" "db_faults db1 = []" using deleteEdgeInternal_ok [OF Cons.prems] by blast
  then show ?case using Cons.IH by simp
qed simp

lemma edge_eq_compat: "edges_rep B C ds G \<Longrightarrow> G i = Some e \<Longrightarrow> edge_eq C e e' \<Longrightarrow> e_id e' = i \<and> compat G e'"
  using rep_present by (fastforce simp: edge_eq_def compat_def same_shape_def)

lemma DeleteEdge_step:
  assumes inv: "graph_inv B C db N G" and op: "DeleteEdge B C W i db = (r, db')"
  shows "\<And>u. r = Inr u \<Longrightarrow> G i \<noteq> None \<and> graph_inv B C db' N (G(i := None))"
    and "\<And>e. r = Inl e \<Longrightarrow> db_faults db = [] \<Longrightarrow> graph_inv B C db' N G"
    and "uniq_inv B C db' N = uniq_inv B C db N"
proof -
  have rep: "edges_rep B C (files db) G" using inv by (simp add: graph_inv_def)
  have *: "(case r of Inl e \<Rightarrow> db_faults db = [] \<longrightarrow> graph_inv B C db' N G | Inr _ \<Rightarrow> G i \<noteq> None \<and> graph_inv B C db' N (G(i := None))) \<and>
      uniq_inv B C db' N = uniq_inv B C db N"
  proof (cases "db_closed db \<or> isFollower db")
    case True
    then show ?thesis using op inv by (auto simp: DeleteEdge_def guard_refuses)
  next
    case False
    then have run: "(case getEdge B C i db of Inl e \<Rightarrow> (Inl e, db) | Inr edge \<Rightarrow> deleteEdgeInternal B W edge db) = (r, db')"
      using op by (simp add: DeleteEdge_def guarded_ok)
    note get = getEdge_rep [OF rep, of i]
    show ?thesis
    proof (cases "G i")
      case None
      then show ?thesis using get run inv False by auto
    next
      case (Some e)
      then obtain e' where e': "getEdge B C i db = Inr e'" "edge_eq C e e'" using get False by auto
      note c = edge_eq_compat [OF rep Some e'(2)]
      have d: "deleteEdgeInternal B W e' db = (r, db')" using run e'(1) by simp
      have u: "uniq_inv B C db' N = uniq_inv B C db N" by (rule node_same_rep(3) [OF node_same_delete [OF d]])
      show ?thesis
      proof (cases r)
        case (Inl x)
        then show ?thesis using deleteEdgeInternal_ok [of db W e'] d u by auto
      next
        case (Inr v)
        then show ?thesis using deleteEdgeInternal_step [OF inv, of e' W v db'] c d Some by auto
      qed
    qed
  qed
  then show "\<And>u. r = Inr u \<Longrightarrow> G i \<noteq> None \<and> graph_inv B C db' N (G(i := None))"
    "\<And>e. r = Inl e \<Longrightarrow> db_faults db = [] \<Longrightarrow> graph_inv B C db' N G" "uniq_inv B C db' N = uniq_inv B C db N" by auto
qed


lemma deleteNodeTx_ok:
  assumes "b_get B (bk_nodes d) (encodeNodeID i) \<noteq> None"
  shows "\<exists>d'. deleteNodeTx B C db i d = Inr d'"
proof -
  have "\<exists>d'. ebind (b_del B b (encodeNodeID i)) (\<lambda>b. Inr (x\<lparr>bk_nodes := b\<rparr>)) = Inr d'" for b and x :: "'b buckets"
    using del_ok [of b "encodeNodeID i"] by auto
  then show ?thesis using assms by (auto simp: deleteNodeTx_def Let_def)
qed

lemma incident_edges:
  assumes rep: "edges_rep B C (files db) G" and m: "edges_match C out G (\<lambda>e. e_from e = i)" "edges_match C inc G (\<lambda>e. e_to e = i)"
  shows "\<forall>e \<in> set (out @ inc). compat G e" and "removing (e_id ` set (out @ inc)) G = without i G"
proof -
  show "\<forall>e \<in> set (out @ inc). compat G e"
    using m edge_eq_compat [OF rep] unfolding edges_match_def by (metis Un_iff set_append)
  show "removing (e_id ` set (out @ inc)) G = without i G"
  proof (rule ext)
    fix eid
    have "eid \<in> e_id ` set (out @ inc) \<longleftrightarrow> (\<exists>e. G eid = Some e \<and> (e_from e = i \<or> e_to e = i))"
      using m unfolding edges_match_def image_set [symmetric] by (auto simp: image_iff)
    then show "removing (e_id ` set (out @ inc)) G eid = without i G eid" by (auto simp: removing_def without_def split: option.splits)
  qed
qed

lemma without_absent: "no_dangling N G \<Longrightarrow> N i = None \<Longrightarrow> without i G = G"
  by (force simp: without_def no_dangling_def fun_eq_iff split: option.splits)

lemma no_dangling_without: "no_dangling N G \<Longrightarrow> no_dangling (N(i := None)) (without i G)"
  by (auto simp: no_dangling_def without_def split: option.splits if_splits)

text \<open>The last transaction of DeleteNode, run when no edge of the node is left.\<close>

lemma deleteNode_tx_step:
  assumes inv: "graph_inv B C db N G" and nd: "no_dangling (N(i := None)) G"
    and w: "writeUpdate (shardFor db i) (deleteNodeTx B C db i) db = (r, db1)"
    and db': "db' = invalidateNode i (walAppend W wop (updShard s (addNodeCount n) db1))"
  shows "\<And>u. r = Inr u \<Longrightarrow> N i \<noteq> None \<and> graph_inv B C db' (N(i := None)) G \<and> (uniq_inv B C db N \<longrightarrow> uniq_inv B C db' (N(i := None)))"
    and "\<And>e. r = Inl e \<Longrightarrow> db_faults db = [] \<Longrightarrow> N i = None"
proof -
  let ?d = "files db ! route (length (files db)) i"
  have ne: "files db \<noteq> []" using graph_inv_shards [OF inv] by simp
  have at: "node_at B C i (N i) ?d" using inv_tx_pre [OF inv] by (simp add: tx_pre_def)
  have bk: "bucketsOf db (shardFor db i) = ?d"
    using files_nth [of "route (length (files db)) i" db] route_less [of "length (files db)" i] ne by (simp add: shardFor_route)
  note change = deleteNodeTx_change [OF _ inv_tx_pre [OF inv]]
  show "N i = None" if "r = Inl e" "db_faults db = []" for e
    using that w bk node_at_data(1) [OF at] deleteNodeTx_ok [of ?d i db] by (auto simp: writeUpdate_def)
  show "N i \<noteq> None \<and> graph_inv B C db' (N(i := None)) G \<and> (uniq_inv B C db N \<longrightarrow> uniq_inv B C db' (N(i := None)))" if r: "r = Inr u" for u
  proof -
    have "\<exists>d'. deleteNodeTx B C db i ?d = Inr d'" using writeUpdate_Inr [OF w [unfolded r]] bk by metis
    then have n: "N i \<noteq> None" using change by blast
    have co: "cache_ok C db N" and nb: "i \<noteq> 0" using inv n by (auto simp: graph_inv_def node_ids_bounded_def)
    have g: "graph_inv B C (db1\<lparr>db_ncache := nc_Invalidate i (db_ncache db)\<rparr>) (N(i := None)) G"
      by (rule node_tx_step [OF inv w [unfolded r] _ nd _ cache_invalidate_node [OF co]]) (use change in auto)
    have "db_ncache db1 = db_ncache db" using writeUpdate_Inr [OF w [unfolded r]] by fastforce
    then have s: "same_graph (db1\<lparr>db_ncache := nc_Invalidate i (db_ncache db)\<rparr>) db'"
      by (simp add: db' same_graph_def invalidateNode_def bloom_fields)
    have "uniq_inv B C db1 (N(i := None))" if h: "uniq_inv B C db N"
      by (rule uniq_tx_step [OF h w [unfolded r] ne nb]) (use change inv_uniq_pre [OF h ne nb] in \<open>auto simp: uentries_def\<close>)
    then show ?thesis using g n same_graph_inv [OF s] same_graph_uniq [OF s] by auto
  qed
qed

lemma DeleteNode_step:
  assumes inv: "graph_inv B C db N G" and op: "DeleteNode B C W i db = (r, db')"
  shows "case r of
      Inl e \<Rightarrow> db_faults db = [] \<longrightarrow> (db_closed db \<or> isFollower db \<or> N i = None) \<and> graph_inv B C db' N G \<and>
        (uniq_inv B C db N \<longrightarrow> uniq_inv B C db' N)
    | Inr _ \<Rightarrow> N i \<noteq> None \<and> graph_inv B C db' (N(i := None)) (without i G) \<and>
        (uniq_inv B C db N \<longrightarrow> uniq_inv B C db' (N(i := None)))"
proof (cases "db_closed db \<or> isFollower db")
  case True
  then show ?thesis using op inv by (auto simp: DeleteNode_def guard_refuses)
next
  case False
  have rep: "edges_rep B C (files db) G" and nd: "no_dangling N G" using inv by (simp_all add: graph_inv_def)
  obtain out inc where ge: "getEdgesForNode B C i Both db = Inr (out @ inc)"
    and m: "edges_match C out G (\<lambda>e. e_from e = i)" "edges_match C inc G (\<lambda>e. e_to e = i)"
    using getEdges_both [OF rep, of i] False by blast
  have run: "(case deleteEdges B W (out @ inc) db of (Inl e, db1) \<Rightarrow> (Inl e, db1)
      | (Inr _, db1) \<Rightarrow> (case writeUpdate (shardFor db1 i) (deleteNodeTx B C db1 i) db1 of (Inl e, db2) \<Rightarrow> (Inl e, db2)
         | (Inr _, db2) \<Rightarrow> (Inr (), invalidateNode i (walAppend W (WALDeleteNode i) (updShard (shardFor db1 i) (addNodeCount (- 1)) db2))))) = (r, db')"
    using op False ge unfolding DeleteNode_def Let_def by (simp add: guarded_ok)
  note ie = incident_edges [OF rep m]
  obtain r1 db1 where d: "deleteEdges B W (out @ inc) db = (r1, db1)" by (cases "deleteEdges B W (out @ inc) db")
  show ?thesis
  proof (cases r1)
    case (Inl e)
    then show ?thesis using run d deleteEdges_ok [of db W "out @ inc"] by auto
  next
    case (Inr u)
    note st = deleteEdges_step [OF inv ie(1) d [unfolded Inr], unfolded ie(2)]
    then have inv1: "graph_inv B C db1 N (without i G)" by blast
    obtain r2 db2 where w: "writeUpdate (shardFor db1 i) (deleteNodeTx B C db1 i) db1 = (r2, db2)" by fastforce
    note last = deleteNode_tx_step [OF inv1 no_dangling_without [OF nd] w refl]
    show ?thesis
    proof (cases r2)
      case l: (Inl e)
      have "db_faults db = [] \<Longrightarrow> db_faults db1 = []" using deleteEdges_ok [of db W "out @ inc"] d by auto
      then have "db_faults db = [] \<Longrightarrow> N i = None" using last(2) [OF l] by blast
      then show ?thesis
        using run d w st Inr l without_absent [OF nd, of i] graph_inv_failed [OF w [unfolded l] inv1] uniq_inv_failed [OF w [unfolded l]]
        by auto
    next
      case r2: (Inr v)
      then show ?thesis using run d w st Inr last(1) [OF r2] by auto
    qed
  qed
qed

section \<open>Updating an edge\<close>

lemma updateEdge_tx_rep:
  assumes rep: "edges_rep B C ds G" and G: "G i = Some e" and sh: "same_shape e e'"
    and tx: "updateEdgeTx B C i e' (ds ! route (length ds) (e_from e)) = Inr d"
    and lab: "length (e_label e') < 2 ^ 32" and t: "text_eq C ps (e_props e')"
  shows "edges_rep B C (ds[route (length ds) (e_from e) := d]) (G(i \<mapsto> e\<lparr>e_props := ps\<rparr>))"
proof -
  let ?r = "route (length ds) (e_from e)" and ?x = "e\<lparr>e_props := ps\<rparr>"
  note r = rep [unfolded edges_rep_def]
  have lt: "?r < length ds" using r by (simp add: route_less)
  have id: "e_id e = i" using rep_present [OF rep G] by blast
  obtain data b where enc: "encodeEdge C e' = Inr data" and put: "b_put B (bk_edges (ds ! ?r)) (encodeEdgeID i) data = Inr b"
    and d: "d = (ds ! ?r)\<lparr>bk_edges := b\<rparr>" using tx by (auto simp: updateEdgeTx_def)
  obtain e'' where dec: "decodeEdge C data = Inr e''" "edge_eq C e' e''" using encodeEdge_decodes [OF enc lab] by blast
  have eq: "edge_eq C ?x e''" using dec(2) sh t same_text_trans by (auto simp: edge_eq_def same_shape_def)
  have cp: "compat G ?x" using G id by (simp add: compat_def same_shape_def)
  have v: "(\<lambda>j. b_get B (bk_edges (ds[?r := d] ! j))) = put_at ?r (encodeEdgeID i) (Some data) (\<lambda>j. b_get B (bk_edges (ds ! j)))"
    using get_put [OF put] lt by (intro view_put) (simp_all add: d)
  have f: "(\<lambda>j. b_get B (bk_adj_out (ds[?r := d] ! j))) = (\<lambda>j. b_get B (bk_adj_out (ds ! j)))"
    "(\<lambda>j. b_get B (bk_adj_in (ds[?r := d] ! j))) = (\<lambda>j. b_get B (bk_adj_in (ds ! j)))"
    "(\<lambda>j. b_get B (bk_idx_edge_type (ds[?r := d] ! j))) = (\<lambda>j. b_get B (bk_idx_edge_type (ds ! j)))"
    by (rule view_same, simp add: d)+
  have "rep_records C (length ds) (\<lambda>j. b_get B (bk_edges (ds[?r := d] ! j))) (G(i \<mapsto> ?x))"
    using rep_records_put [OF _ cp dec(1) eq, of "length ds" "\<lambda>j. b_get B (bk_edges (ds ! j))"] r v id by simp
  moreover note rep_index_reshape [where G = G and i = i and ?e0.0 = e and e = ?x and home = e_from and key = outKey and val = outVal]
    rep_index_reshape [where G = G and i = i and ?e0.0 = e and e = ?x and home = e_to and key = inKey and val = inVal]
    rep_index_reshape [where G = G and i = i and ?e0.0 = e and e = ?x and home = e_from and key = typKey and val = "\<lambda>_. []"]
  ultimately show ?thesis unfolding edges_rep_def length_list_update f using r G by simp
qed

lemma UpdateEdge_step:
  assumes inv: "graph_inv B C db N G" and op: "UpdateEdge B C W i props db = (r, db')"
  shows "case r of Inl e \<Rightarrow> graph_inv B C db' N G \<and> (\<not> db_closed db \<and> \<not> isFollower db \<and> G i = None \<longrightarrow> e = ErrEdgeNotFound i)
    | Inr _ \<Rightarrow> \<exists>e. G i = Some e \<and> graph_inv B C db' N (G(i \<mapsto> e\<lparr>e_props := props_merge (e_props e) props\<rparr>))"
    and "uniq_inv B C db' N = uniq_inv B C db N"
proof -
  have rep: "edges_rep B C (files db) G" using inv by (simp add: graph_inv_def)
  have "(case r of Inl e \<Rightarrow> graph_inv B C db' N G \<and> (\<not> db_closed db \<and> \<not> isFollower db \<and> G i = None \<longrightarrow> e = ErrEdgeNotFound i)
    | Inr _ \<Rightarrow> \<exists>e. G i = Some e \<and> graph_inv B C db' N (G(i \<mapsto> e\<lparr>e_props := props_merge (e_props e) props\<rparr>))) \<and> uniq_inv B C db' N = uniq_inv B C db N"
  proof (cases "db_closed db \<or> isFollower db")
    case True
    then show ?thesis using op inv by (auto simp: UpdateEdge_def guard_refuses)
  next
    case False
    note get = getEdge_rep [OF rep, of i]
    show ?thesis
    proof (cases "G i")
      case None
      then show ?thesis using get op inv False by (auto simp: UpdateEdge_def guarded_ok)
    next
      case (Some e)
      then obtain e0 where e0: "getEdge B C i db = Inr e0" "edge_eq C e e0" using get False by auto
      define e' where "e' = e0\<lparr>e_props := props_merge (e_props e0) props\<rparr>"
      define s where "s = shardForEdge db (e_from e')"
      obtain r1 db1 where w: "writeUpdate s (updateEdgeTx B C i e') db = (r1, db1)" by fastforce
      have run: "(case r1 of Inl x \<Rightarrow> (Inl x, db1) | Inr _ \<Rightarrow> (Inr (), walAppend W (WALUpdateEdge i (e_from e') props) db1)) = (r, db')"
        using op False e0(1) w [unfolded s_def] unfolding UpdateEdge_def Let_def e'_def by (simp add: guarded_ok)
      have same: "node_same db db1" by (rule node_same_write [OF w]) (rule edge_tx_frames(6))
      show ?thesis
      proof (cases r1)
        case (Inl x)
        then show ?thesis using run Some graph_inv_failed [OF w [unfolded Inl] inv] node_same_rep(3) [OF same] by auto
      next
        case (Inr u)
        let ?n = "length (files db)" and ?G = "G(i \<mapsto> e\<lparr>e_props := props_merge (e_props e) props\<rparr>)"
        have sh: "same_shape e e'" and t: "text_eq C (props_merge (e_props e) props) (e_props e')"
          using e0(2) text_eq_merge by (auto simp: edge_eq_def same_shape_def e'_def)
        have lab: "length (e_label e') < 2 ^ 32"
        proof -
          obtain data x where "decodeEdge C data = Inr x" "edge_eq C e x" using rep_present [OF rep Some] by blast
          then show ?thesis using decodeEdge_label [of C data x] sh by (simp add: edge_eq_def same_shape_def)
        qed
        have s: "s = route ?n (e_from e)" "s < length (db_shards db)"
          using sh rep route_less [of ?n "e_from e"] by (auto simp: s_def shardForEdge_def shardFor_route same_shape_def edges_rep_def)
        obtain d where d: "updateEdgeTx B C i e' (files db ! s) = Inr d"
          and db1: "db1 = updShard s (\<lambda>s. s\<lparr>s_data := d\<rparr>) (db\<lparr>db_faults := tl (db_faults db)\<rparr>)"
          using writeUpdate_Inr [OF w [unfolded Inr]] files_nth [OF s(2)] by metis
        have "edges_rep B C (files db1) ?G"
          using updateEdge_tx_rep [OF rep Some sh _ lab t] d s(1) by (simp add: db1)
        moreover have "no_dangling N ?G" "edge_ids_bounded db1 ?G" "bloom_covers db1 ?G"
          using inv Some by (auto simp: graph_inv_def no_dangling_def edge_ids_bounded_def bloom_covers_def db1 split: option.splits)
        ultimately have "graph_inv B C db1 N ?G" by (rule edge_step_inv [OF inv same])
        then show ?thesis using run Inr Some node_same_rep(3) [OF same] by auto
      qed
    qed
  qed
  then show "case r of Inl e \<Rightarrow> graph_inv B C db' N G \<and> (\<not> db_closed db \<and> \<not> isFollower db \<and> G i = None \<longrightarrow> e = ErrEdgeNotFound i)
    | Inr _ \<Rightarrow> \<exists>e. G i = Some e \<and> graph_inv B C db' N (G(i \<mapsto> e\<lparr>e_props := props_merge (e_props e) props\<rparr>))"
    "uniq_inv B C db' N = uniq_inv B C db N" by blast+
qed

end

end
