(* ===== verification/Lookup.thy ===== *)
theory Lookup
  imports GraphOps
begin

text \<open>
  Reads through the label and property indexes. Under the invariant of an open database a scan of index
  keys finds exactly the nodes it should, each once, whatever shard they live in; the indexed lookup of a
  property and the scan of all nodes agree.
\<close>

section \<open>Lists of nodes\<close>

text \<open>A list holds exactly the nodes with a property, each once, with the properties the graph gives them.\<close>

definition nodes_match :: "codec \<Rightarrow> Node list \<Rightarrow> graph_nodes \<Rightarrow> (NodeID \<Rightarrow> nrec \<Rightarrow> bool) \<Rightarrow> bool" where
  "nodes_match C ns N P \<longleftrightarrow> distinct (map n_id ns) \<and> (\<forall>i. i \<in> n_id ` set ns \<longleftrightarrow> (\<exists>x. N i = Some x \<and> P i x)) \<and>
     (\<forall>n \<in> set ns. \<exists>x. N (n_id n) = Some x \<and> text_eq C (snd x) (n_props n))"

lemma nodes_match_concat:
  assumes "\<And>s. s < length nss \<Longrightarrow> nodes_match C (nss ! s) N (\<lambda>i x. r i = s \<and> P i x)" and "\<And>i. r i < length nss"
  shows "nodes_match C (concat nss) N P"
proof -
  have ids: "r (n_id n) = s" if "s < length nss" "n \<in> set (nss ! s)" for n s
    using assms(1) [OF that(1)] that(2) unfolding nodes_match_def by blast
  have "distinct (map n_id (concat (take k nss)))" if "k \<le> length nss" for k
    using that
  proof (induction k)
    case (Suc k)
    then have k: "k < length nss" by simp
    have "n_id ` set (concat (take k nss)) \<inter> n_id ` set (nss ! k) = {}"
      using ids [OF k] ids by (fastforce simp: in_set_conv_nth)
    moreover have "distinct (map n_id (nss ! k))" using assms(1) [OF k] by (simp add: nodes_match_def)
    ultimately show ?case using Suc by (simp add: take_Suc_conv_app_nth)
  qed simp
  from this [of "length nss"] have d: "distinct (map n_id (concat nss))" by simp
  have mem: "n \<in> set (concat nss) \<longleftrightarrow> (\<exists>s < length nss. n \<in> set (nss ! s))" for n by (metis in_set_conv_nth set_concat UN_iff)
  have "i \<in> n_id ` set (concat nss) \<longleftrightarrow> (\<exists>x. N i = Some x \<and> P i x)" for i
  proof
    assume "i \<in> n_id ` set (concat nss)"
    then obtain s where "s < length nss" "i \<in> n_id ` set (nss ! s)" using mem by (metis image_iff)
    then show "\<exists>x. N i = Some x \<and> P i x" using assms(1) unfolding nodes_match_def by blast
  next
    assume "\<exists>x. N i = Some x \<and> P i x"
    then have "i \<in> n_id ` set (nss ! r i)" using assms unfolding nodes_match_def by blast
    then show "i \<in> n_id ` set (concat nss)" using mem assms(2) by (metis (no_types, lifting) image_iff)
  qed
  moreover have "\<exists>x. N (n_id n) = Some x \<and> text_eq C (snd x) (n_props n)" if "n \<in> set (concat nss)" for n
    using that assms(1) mem unfolding nodes_match_def by metis
  ultimately show ?thesis using d unfolding nodes_match_def by blast
qed

text \<open>A list of keys, each with the identifier of its node, read node by node.\<close>

lemma nodes_match_keys:
  fixes L :: "(bytes \<times> 'v) list" and key :: "NodeID \<Rightarrow> bytes"
  assumes keys: "distinct (map fst L)" and inj: "\<And>i j. key i = key j \<Longrightarrow> i = j"
    and mem: "\<And>k. k \<in> fst ` set L \<longleftrightarrow> (\<exists>i x. N i = Some x \<and> P i x \<and> k = key i)"
    and read: "\<And>i x kv. kv \<in> set L \<Longrightarrow> fst kv = key i \<Longrightarrow> N i = Some x \<Longrightarrow> \<exists>n. g kv = [n] \<and> n_id n = i \<and> text_eq C (snd x) (n_props n)"
  shows "nodes_match C (concat (map g L)) N P"
proof -
  define idOf where "idOf kv = (THE i. fst kv = key i)" for kv :: "bytes \<times> 'v"
  have idOf: "idOf kv = i" if "fst kv = key i" for kv i unfolding idOf_def using that inj by (intro the_equality) auto
  have g: "\<exists>i x n. g kv = [n] \<and> n_id n = i \<and> idOf kv = i \<and> fst kv = key i \<and> N i = Some x \<and> P i x \<and> text_eq C (snd x) (n_props n)" if h: "kv \<in> set L" for kv
  proof -
    have "fst kv \<in> fst ` set L" using h by simp
    then obtain i x where x: "N i = Some x" "P i x" "fst kv = key i" using mem by blast
    then show ?thesis using read [OF h x(3,1)] idOf [OF x(3)] by blast
  qed
  have ids: "map n_id (concat (map g L')) = map idOf L'" if "set L' \<subseteq> set L" for L'
    using that
  proof (induction L')
    case (Cons kv L')
    then show ?case using g [of kv] by fastforce
  qed simp
  have "kv = kv'" if "kv \<in> set L" "kv' \<in> set L" "idOf kv = idOf kv'" for kv kv'
    using g [OF that(1)] g [OF that(2)] that keys unfolding distinct_map inj_on_def by metis
  then have "distinct (map idOf L)" using keys by (auto simp: distinct_map inj_on_def)
  then have "distinct (map n_id (concat (map g L)))" using ids [of L] by simp
  moreover have "i \<in> n_id ` set (concat (map g L)) \<longleftrightarrow> (\<exists>x. N i = Some x \<and> P i x)" for i
  proof -
    have "n_id ` set (concat (map g L)) = idOf ` set L" using ids [of L] by (metis list.set_map order_refl)
    moreover have "i \<in> idOf ` set L \<longleftrightarrow> (\<exists>x. N i = Some x \<and> P i x)"
    proof
      assume "i \<in> idOf ` set L"
      then obtain kv where "kv \<in> set L" "i = idOf kv" by blast
      then show "\<exists>x. N i = Some x \<and> P i x" using g [of kv] by metis
    next
      assume "\<exists>x. N i = Some x \<and> P i x"
      then have "key i \<in> fst ` set L" using mem [of "key i"] by blast
      then obtain kv where "kv \<in> set L" "fst kv = key i" by auto
      then show "i \<in> idOf ` set L" using idOf [of kv i] by (metis imageI)
    qed
    ultimately show ?thesis by simp
  qed
  moreover have "\<exists>x. N (n_id n) = Some x \<and> text_eq C (snd x) (n_props n)" if h: "n \<in> set (concat (map g L))" for n
  proof -
    obtain kv where "kv \<in> set L" "n \<in> set (g kv)" using h by auto
    then show ?thesis using g [of kv] by (metis list.set_cases list.distinct(1) set_ConsD)
  qed
  ultimately show ?thesis unfolding nodes_match_def by blast
qed


lemma index_key_prefix:
  assumes "CHR 0x00 \<notin> set p" and "CHR 0x00 \<notin> set q"
  shows "prefix (encodeIndexPrefix p) (encodeIndexKey q i) \<longleftrightarrow> q = p"
  using nul_free_prefix [OF assms] by (auto simp: encodeIndexPrefix_def encodeIndexKey_def)

definition nul_free :: "string \<Rightarrow> bool" where
  "nul_free s \<longleftrightarrow> CHR 0x00 \<notin> set s"

definition labels_nul_free :: "graph_nodes \<Rightarrow> bool" where
  "labels_nul_free N \<longleftrightarrow> (\<forall>i x. N i = Some x \<longrightarrow> (\<forall>l \<in> set (fst x). nul_free l))"

text \<open>A property is indexed under a name without colon and zero byte, and its values print without zero byte.\<close>

definition texts_plain :: "codec \<Rightarrow> string list \<Rightarrow> graph_nodes \<Rightarrow> bool" where
  "texts_plain C idx N \<longleftrightarrow> (\<forall>p \<in> set idx. nul_free p \<and> CHR '':'' \<notin> set p) \<and>
     (\<forall>i x p v. N i = Some x \<longrightarrow> map_of (snd x) p = Some v \<longrightarrow> nul_free (fmtv C v))"

definition hasValue :: "codec \<Rightarrow> string \<Rightarrow> val \<Rightarrow> nrec \<Rightarrow> bool" where
  "hasValue C p v x \<longleftrightarrow> (\<exists>w. map_of (snd x) p = Some w \<and> fmtv C w = fmtv C v)"

lemma colon_split: "CHR '':'' \<notin> set p \<Longrightarrow> CHR '':'' \<notin> set q \<Longrightarrow> p @ CHR '':'' # v = q @ CHR '':'' # w \<longleftrightarrow> p = q \<and> v = w"
proof (induction p arbitrary: q)
  case Nil
  then show ?case by (cases q) auto
next
  case (Cons a p)
  then show ?case by (cases q) auto
qed

lemma propKeys_prefix:
  assumes "texts_plain C idx N" and "N i = Some x" and "p \<in> set idx" and "nul_free (fmtv C v)"
  shows "k \<in> propKeys C idx i x \<and> prefix (encodeIndexPrefix (p @ '':'' @ fmtv C v)) k \<longleftrightarrow>
     hasValue C p v x \<and> k = encodeIndexKey (p @ '':'' @ fmtv C v) i"
proof -
  let ?t = "p @ '':'' @ fmtv C v"
  have ok: "nul_free q \<and> CHR '':'' \<notin> set q" if "q \<in> set idx" for q using assms(1) that by (simp add: texts_plain_def)
  have ov: "nul_free (fmtv C w)" if "map_of (snd x) q = Some w" for q w using assms(1,2) that unfolding texts_plain_def by blast
  have "prefix (encodeIndexPrefix ?t) (propIdxKey C q w i) \<longleftrightarrow> q = p \<and> fmtv C w = fmtv C v" if "q \<in> set idx" "map_of (snd x) q = Some w" for q w
    unfolding propIdxKey_def
    by (subst index_key_prefix) (use ok [OF that(1)] ok [OF assms(3)] ov [OF that(2)] assms(4) colon_split in \<open>auto simp: nul_free_def\<close>)
  moreover have "k \<in> propKeys C idx i x \<longleftrightarrow> (\<exists>q \<in> set idx. \<exists>w. map_of (snd x) q = Some w \<and> k = propIdxKey C q w i)"
    by (auto simp: propKeys_def propKeyList_def split: option.splits) metis+
  ultimately show ?thesis using assms(3) unfolding hasValue_def propIdxKey_def by metis
qed

context graph_store
begin

text \<open>The keys of an index under a prefix, in one shard.\<close>

lemma index_scan_keys:
  assumes rep: "rep_keys (length ds) K (\<lambda>s. b_get B (f (ds ! s))) N" and s: "s < length ds"
    and K: "\<And>i x k. N i = Some x \<Longrightarrow> k \<in> K i x \<and> prefix p k \<longleftrightarrow> P i x \<and> k = key i"
  shows "k \<in> fst ` set (seekPrefix B (f (ds ! s)) p) \<longleftrightarrow> (\<exists>i x. N i = Some x \<and> (route (length ds) i = s \<and> P i x) \<and> k = key i)"
proof -
  have "k \<in> fst ` set (seekPrefix B (f (ds ! s)) p) \<longleftrightarrow> prefix p k \<and> b_get B (f (ds ! s)) k \<noteq> None"
    using set_seekPrefix [of k _ "f (ds ! s)" p] by (auto simp: image_iff) (metis fst_conv)+
  also have "\<dots> \<longleftrightarrow> (\<exists>i x. N i = Some x \<and> route (length ds) i = s \<and> k \<in> K i x \<and> prefix p k)"
    using rep s unfolding rep_keys_def by blast
  also have "\<dots> \<longleftrightarrow> (\<exists>i x. N i = Some x \<and> (route (length ds) i = s \<and> P i x) \<and> k = key i)"
    using K by blast
  finally show ?thesis .
qed

lemma nodeAt_rep:
  assumes "nodes_rep B C ds N" and "N i = Some x"
  shows "\<exists>q. nodeAt B C (ds ! route (length ds) i) i = Some q \<and> text_eq C (snd x) q"
    and "loadLabels B C (ds ! route (length ds) i) i = fst x"
proof -
  have at: "node_at B C i (Some x) (ds ! route (length ds) i)" using rep_node_at [OF assms(1), of i] assms(2) by simp
  then show "loadLabels B C (ds ! route (length ds) i) i = fst x" using node_at_labels [of B C i "fst x" "snd x"] by simp
  obtain data where "b_get B (bk_nodes (ds ! route (length ds) i)) (encodeNodeID i) = Some data" using node_at_data(1) [OF at] by auto
  then show "\<exists>q. nodeAt B C (ds ! route (length ds) i) i = Some q \<and> text_eq C (snd x) q"
    using node_at_data(2) [OF at] by (fastforce simp: nodeAt_def)
qed

lemma findByLabelIn_match:
  assumes rep: "nodes_rep B C ds N" and s: "s < length ds" and "nul_free label"
    and nul: "labels_nul_free N"
  shows "nodes_match C (findByLabelIn B C label (ds ! s)) N (\<lambda>i x. route (length ds) i = s \<and> label \<in> set (fst x))"
    and "\<forall>n \<in> set (findByLabelIn B C label (ds ! s)). \<exists>x. N (n_id n) = Some x \<and> n_labels n = fst x"
proof -
  let ?p = "encodeIndexPrefix label" and ?d = "ds ! s"
  let ?L = "seekPrefix B (bk_idx_node_label ?d) ?p"
  let ?g = "\<lambda>kv. case decodeNodeID (drop (length ?p) (fst kv)) of None \<Rightarrow> []
     | Some i \<Rightarrow> (case nodeAt B C ?d i of None \<Rightarrow> [] | Some props \<Rightarrow> [\<lparr>n_id = i, n_labels = loadLabels B C ?d i, n_props = props\<rparr>])"
  have eq: "findByLabelIn B C label ?d = concat (map ?g ?L)"
    by (simp add: findByLabelIn_def Let_def encodeLabelIndexPrefix_def encodeIndexPrefix_def)
  have K: "k \<in> labelKeys i x \<and> prefix ?p k \<longleftrightarrow> label \<in> set (fst x) \<and> k = encodeIndexKey label i" if "N i = Some x" for i x k
    using index_key_prefix nul that assms(3) unfolding labels_nul_free_def labelKeys_def encodeLabelIndexKey_index nul_free_def by blast
  have mem: "k \<in> fst ` set ?L \<longleftrightarrow> (\<exists>i x. N i = Some x \<and> (route (length ds) i = s \<and> label \<in> set (fst x)) \<and> k = encodeIndexKey label i)" for k
    by (rule index_scan_keys [OF _ s]) (use rep K in \<open>auto simp: nodes_rep_def\<close>)
  have read: "\<exists>n. ?g kv = [n] \<and> n_id n = i \<and> text_eq C (snd x) (n_props n) \<and> n_labels n = fst x"
    if "kv \<in> set ?L" "fst kv = encodeIndexKey label i" "N i = Some x" for kv i x
  proof -
    have "fst kv \<in> fst ` set ?L" using that(1) by simp
    then have "route (length ds) i = s" using mem that(2) by (auto simp: encodeIndexKey_inject)
    then show ?thesis using nodeAt_rep [OF rep that(3)] that(2) by (auto simp: decodeNodeID_def)
  qed
  show "nodes_match C (findByLabelIn B C label ?d) N (\<lambda>i x. route (length ds) i = s \<and> label \<in> set (fst x))"
    unfolding eq
  proof (rule nodes_match_keys [OF seekPrefix_distinct _ mem])
    show "\<exists>n. ?g kv = [n] \<and> n_id n = i \<and> text_eq C (snd x) (n_props n)"
      if "kv \<in> set ?L" "fst kv = encodeIndexKey label i" "N i = Some x" for kv i x using read [OF that] by blast
  qed (simp add: encodeIndexKey_inject)
  show "\<forall>n \<in> set (findByLabelIn B C label ?d). \<exists>x. N (n_id n) = Some x \<and> n_labels n = fst x"
  proof
    fix n assume "n \<in> set (findByLabelIn B C label ?d)"
    then obtain kv where kv: "kv \<in> set ?L" "n \<in> set (?g kv)" unfolding eq by auto
    then obtain i x where ix: "fst kv = encodeIndexKey label i" "N i = Some x" using mem [of "fst kv"] by auto
    obtain m where "?g kv = [m]" "n_id m = i" "n_labels m = fst x" using read [OF kv(1) ix] by blast
    then show "\<exists>x. N (n_id n) = Some x \<and> n_labels n = fst x" using kv(2) ix(2) by (intro exI [of _ x]) simp
  qed
qed

lemma FindByLabel_match:
  assumes "graph_inv B C db N G" and "\<not> db_closed db" and "nul_free label"
    and "labels_nul_free N"
  shows "\<exists>ns. FindByLabel B C label db = Inr ns \<and> nodes_match C ns N (\<lambda>i x. label \<in> set (fst x)) \<and>
    (\<forall>n \<in> set ns. \<exists>x. N (n_id n) = Some x \<and> n_labels n = fst x)"
proof -
  let ?nss = "map (findByLabelIn B C label) (files db)"
  have rep: "nodes_rep B C (files db) N" and ne: "files db \<noteq> []"
    using assms(1) by (auto simp: graph_inv_def nodes_rep_def)
  note m = findByLabelIn_match [OF rep _ assms(3,4)]
  have "nodes_match C (concat ?nss) N (\<lambda>i x. label \<in> set (fst x))"
    by (rule nodes_match_concat [where r = "route (length (files db))"]) (use m(1) ne in \<open>auto simp: route_less\<close>)
  moreover have "\<forall>n \<in> set (concat ?nss). \<exists>x. N (n_id n) = Some x \<and> n_labels n = fst x"
  proof
    fix n assume "n \<in> set (concat ?nss)"
    then obtain d where "d \<in> set (files db)" "n \<in> set (findByLabelIn B C label d)" by auto
    then obtain s where "s < length (files db)" "n \<in> set (findByLabelIn B C label (files db ! s))" by (metis in_set_conv_nth)
    then show "\<exists>x. N (n_id n) = Some x \<and> n_labels n = fst x" using m(2) by blast
  qed
  moreover have "FindByLabel B C label db = Inr (concat ?nss)" using assms(2) by (simp add: FindByLabel_def files_def comp_def)
  ultimately show ?thesis by blast
qed


section \<open>Properties\<close>

lemma findByPropertyIdx_match:
  assumes rep: "nodes_rep B C ds N" and idx: "index_rep B C idx defs ds N" and s: "s < length ds"
    and plain: "texts_plain C idx N" "p \<in> set idx" "nul_free (fmtv C v)"
  shows "nodes_match C (findByPropertyIdx B C p v (ds ! s)) N (\<lambda>i x. route (length ds) i = s \<and> hasValue C p v x)"
proof -
  let ?t = "p @ '':'' @ fmtv C v"
  let ?p = "encodeIndexPrefix ?t" and ?d = "ds ! s"
  let ?L = "seekPrefix B (bk_idx_prop ?d) ?p"
  let ?g = "\<lambda>kv. case decodeNodeID (drop (length ?p) (fst kv)) of None \<Rightarrow> []
     | Some i \<Rightarrow> (case nodeAt B C ?d i of None \<Rightarrow> [] | Some props \<Rightarrow> [\<lparr>n_id = i, n_labels = [], n_props = props\<rparr>])"
  have mem: "k \<in> fst ` set ?L \<longleftrightarrow> (\<exists>i x. N i = Some x \<and> (route (length ds) i = s \<and> hasValue C p v x) \<and> k = encodeIndexKey ?t i)" for k
    by (rule index_scan_keys [OF _ s]) (use idx propKeys_prefix [OF plain(1) _ plain(2,3)] in \<open>auto simp: index_rep_def\<close>)
  have "nodes_match C (concat (map ?g ?L)) N (\<lambda>i x. route (length ds) i = s \<and> hasValue C p v x)"
  proof (rule nodes_match_keys [OF seekPrefix_distinct _ mem])
    show "\<exists>n. ?g kv = [n] \<and> n_id n = i \<and> text_eq C (snd x) (n_props n)"
      if h: "kv \<in> set ?L" "fst kv = encodeIndexKey ?t i" "N i = Some x" for kv i x
    proof -
      have "fst kv \<in> fst ` set ?L" using h(1) by simp
      then have "route (length ds) i = s" using mem h(2) by (auto simp: encodeIndexKey_inject)
      then show ?thesis using nodeAt_rep [OF rep h(3)] h(2) by (auto simp: decodeNodeID_def)
    qed
  qed (simp add: encodeIndexKey_inject)
  then show ?thesis by (simp add: findByPropertyIdx_def Let_def)
qed

text \<open>The scan.\<close>

lemma efold_collect: "(\<And>x acc. x \<in> set xs \<Longrightarrow> f x acc = Inr (acc @ g x)) \<Longrightarrow> efold f xs acc = Inr (acc @ concat (map g xs))"
  by (induction xs arbitrary: acc) auto

lemma node_cursor:
  assumes rep: "nodes_rep B C ds N" and s: "s < length ds" and kv: "kv \<in> set (b_cursor B (bk_nodes (ds ! s)))"
  shows "\<exists>i x q. fst kv = encodeNodeID i \<and> N i = Some x \<and> route (length ds) i = s \<and> decodeProps C (snd kv) = Inr q \<and> text_eq C (snd x) q"
proof -
  have get: "b_get B (bk_nodes (ds ! s)) (fst kv) = Some (snd kv)" using kv set_cursor by (metis prod.collapse)
  then obtain i x where ix: "N i = Some x" "route (length ds) i = s" "fst kv = encodeNodeID i"
    using rep s unfolding nodes_rep_def rep_keys_def nodeKeys_def by (metis option.distinct(1) singletonD)
  have "node_at B C i (Some x) (ds ! s)" using rep_node_at [OF rep, of i] ix by simp
  from node_at_data(2) [OF this, of "snd kv"] obtain q where "decodeProps C (snd kv) = Inr q" "text_eq C (snd x) q"
    using get ix(3) by auto
  then show ?thesis using ix by blast
qed

lemma hasValue_text: "text_eq C (snd x) q \<Longrightarrow> hasValue C p v x \<longleftrightarrow> (\<exists>w. map_of q p = Some w \<and> fmtv C w = fmtv C v)"
  unfolding hasValue_def same_text_def by (cases "map_of q p"; cases "map_of (snd x) p") (auto dest: spec [of _ p])


lemma findByPropertyScan_match:
  assumes rep: "nodes_rep B C ds N" and s: "s < length ds"
  shows "\<exists>ns. findByPropertyScan B C p v (ds ! s) = Inr ns \<and>
     nodes_match C ns N (\<lambda>i x. route (length ds) i = s \<and> hasValue C p v x)"
proof -
  let ?cur = "b_cursor B (bk_nodes (ds ! s))"
  define hit where "hit kv = (case decodeProps C (snd kv) of Inl _ \<Rightarrow> False
     | Inr q \<Rightarrow> (case map_of q p of None \<Rightarrow> False | Some w \<Rightarrow> fmtv C w = fmtv C v))" for kv :: "bytes \<times> bytes"
  define g where "g kv = [\<lparr>n_id = the (decodeNodeID (fst kv)), n_labels = [],
     n_props = (case decodeProps C (snd kv) of Inl _ \<Rightarrow> [] | Inr q \<Rightarrow> q)\<rparr>]" for kv :: "bytes \<times> bytes"
  let ?L = "filter hit ?cur"
  have cur: "\<exists>i x. fst kv = encodeNodeID i \<and> N i = Some x \<and> route (length ds) i = s \<and> (hit kv \<longleftrightarrow> hasValue C p v x) \<and>
      (\<exists>q. decodeProps C (snd kv) = Inr q \<and> text_eq C (snd x) q)" if h: "kv \<in> set ?cur" for kv
  proof -
    obtain i x q where x: "fst kv = encodeNodeID i" "N i = Some x" "route (length ds) i = s" "decodeProps C (snd kv) = Inr q" "text_eq C (snd x) q"
      using node_cursor [OF rep s h] by blast
    have "hit kv \<longleftrightarrow> hasValue C p v x" using hasValue_text [OF x(5), of p v] x(4) by (auto simp: hit_def split: option.splits)
    then show ?thesis using x by blast
  qed
  have "findByPropertyScan B C p v (ds ! s) = Inr ([] @ concat (map (\<lambda>kv. if hit kv then g kv else []) ?cur))"
    unfolding findByPropertyScan_def forEachInBucket_def
  proof (rule efold_collect)
    fix kv acc assume "kv \<in> set ?cur"
    then obtain i q where "fst kv = encodeNodeID i" "decodeProps C (snd kv) = Inr q" using cur by blast
    then show "(case decodeProps C (snd kv) of Inl _ \<Rightarrow> Inr acc | Inr props \<Rightarrow> (case map_of props p of None \<Rightarrow> Inr acc
        | Some w \<Rightarrow> if fmtv C w = fmtv C v then ebind (keyID (fst kv)) (\<lambda>i. Inr (acc @ [\<lparr>n_id = i, n_labels = [], n_props = props\<rparr>])) else Inr acc))
      = Inr (acc @ (if hit kv then g kv else []))"
      by (auto simp: hit_def g_def keyID_def encodeNodeID_def decodeNodeID_def split: option.splits)
  qed
  moreover have "concat (map (\<lambda>kv. if hit kv then g kv else []) L) = concat (map g (filter hit L))" for L by (induction L) auto
  ultimately have eq: "findByPropertyScan B C p v (ds ! s) = Inr (concat (map g ?L))" by simp
  have mem: "k \<in> fst ` set ?L \<longleftrightarrow> (\<exists>i x. N i = Some x \<and> (route (length ds) i = s \<and> hasValue C p v x) \<and> k = encodeNodeID i)" for k
  proof
    assume "k \<in> fst ` set ?L"
    then obtain kv where "kv \<in> set ?cur" "hit kv" "k = fst kv" by auto
    then show "\<exists>i x. N i = Some x \<and> (route (length ds) i = s \<and> hasValue C p v x) \<and> k = encodeNodeID i" using cur by blast
  next
    assume "\<exists>i x. N i = Some x \<and> (route (length ds) i = s \<and> hasValue C p v x) \<and> k = encodeNodeID i"
    then obtain i x where x: "N i = Some x" "route (length ds) i = s" "hasValue C p v x" "k = encodeNodeID i" by blast
    then obtain data where "b_get B (bk_nodes (ds ! s)) k = Some data"
      using node_at_data(1) [OF rep_node_at [OF rep, of i]] by (cases "b_get B (bk_nodes (ds ! s)) k") auto
    then have kv: "(k, data) \<in> set ?cur" by (simp add: set_cursor)
    then have "hit (k, data)" using cur [OF kv] x by auto
    then show "k \<in> fst ` set ?L" using kv by (intro image_eqI [of _ _ "(k, data)"]) simp_all
  qed
  have "nodes_match C (concat (map g ?L)) N (\<lambda>i x. route (length ds) i = s \<and> hasValue C p v x)"
  proof (rule nodes_match_keys [OF _ _ mem])
    show "distinct (map fst ?L)" using sorted_keys_distinct [OF cursor_sorted] by (simp add: distinct_map_filter)
    show "\<exists>n. g kv = [n] \<and> n_id n = i \<and> text_eq C (snd x) (n_props n)" if "kv \<in> set ?L" "fst kv = encodeNodeID i" "N i = Some x" for kv i x
      using cur [of kv] that by (auto simp: g_def)
  qed simp
  then show ?thesis using eq by blast
qed

lemma FindByProperty_match:
  assumes "graph_inv B C db N G" and "\<not> db_closed db" and plain: "texts_plain C (db_indexedProps db) N" "nul_free (fmtv C v)"
  shows "\<exists>ns. FindByProperty B C p v db = Inr ns \<and> nodes_match C ns N (\<lambda>i. hasValue C p v)"
proof -
  have rep: "nodes_rep B C (files db) N" "index_rep B C (db_indexedProps db) (db_compositeIndexes db) (files db) N" and ne: "files db \<noteq> []"
    using assms(1) by (auto simp: graph_inv_def nodes_rep_def)
  let ?find = "\<lambda>d. if p \<in> set (db_indexedProps db) then Inr (findByPropertyIdx B C p v d) else findByPropertyScan B C p v d"
  define ns where "ns d = (case ?find d of Inl _ \<Rightarrow> [] | Inr l \<Rightarrow> l)" for d
  have one: "?find (files db ! s) = Inr (ns (files db ! s)) \<and>
      nodes_match C (ns (files db ! s)) N (\<lambda>i x. route (length (files db)) i = s \<and> hasValue C p v x)" if s: "s < length (files db)" for s
  proof (cases "p \<in> set (db_indexedProps db)")
    case True
    then show ?thesis using findByPropertyIdx_match [OF rep s plain(1) True plain(2)] by (simp add: ns_def)
  next
    case False
    then show ?thesis using findByPropertyScan_match [OF rep(1) s, of p v] by (auto simp: ns_def)
  qed
  have "emapM (\<lambda>s. ?find (s_data s)) (db_shards db) = Inr (map (\<lambda>s. ns (s_data s)) (db_shards db))"
  proof (rule emapM_pure)
    fix sh assume "sh \<in> set (db_shards db)"
    then obtain s where "s < length (files db)" "files db ! s = s_data sh" by (auto simp: in_set_conv_nth files_def)
    then show "?find (s_data sh) = Inr (ns (s_data sh))" using one [of s] by metis
  qed
  then have "FindByProperty B C p v db = Inr (concat (map ns (files db)))"
    using assms(2) by (simp add: FindByProperty_def files_def comp_def)
  moreover have "nodes_match C (concat (map ns (files db))) N (\<lambda>i. hasValue C p v)"
    by (rule nodes_match_concat [where r = "route (length (files db))"]) (use one ne in \<open>auto simp: route_less\<close>)
  ultimately show ?thesis by blast
qed

end

end
