(* ===== verification/System.thy ===== *)
theory System
  imports Lookup
begin

text \<open>
  The database as a system of calls. A call of the public interface is a step; the steps of a leader
  without environment faults keep the invariant, starting from a freshly created database, so that the
  reads are exact in every reachable state.
\<close>

section \<open>Calls\<close>

datatype gcall = CAddNode Props | CAddNodeWithLabels "string list" Props | CUpdateNode NodeID Props
  | CSetNodeProps NodeID Props | CAddLabel NodeID "string list" | CRemoveLabel NodeID "string list"
  | CDeleteNode NodeID | CGetNode NodeID | CAddEdge NodeID NodeID string Props | CDeleteEdge EdgeID | CUpdateEdge EdgeID Props

primrec runCall :: "'b bolt \<Rightarrow> codec \<Rightarrow> wcodec \<Rightarrow> gcall \<Rightarrow> 'b DB \<Rightarrow> 'b DB" where
  "runCall B C W (CAddNode p) db = snd (AddNode B C W p db)"
| "runCall B C W (CAddNodeWithLabels ls p) db = snd (AddNodeWithLabels B C W ls p db)"
| "runCall B C W (CUpdateNode i p) db = snd (UpdateNode B C W i p db)"
| "runCall B C W (CSetNodeProps i p) db = snd (SetNodeProps B C W i p db)"
| "runCall B C W (CAddLabel i ls) db = snd (AddLabel B C W i ls db)"
| "runCall B C W (CRemoveLabel i ls) db = snd (RemoveLabel B C W i ls db)"
| "runCall B C W (CDeleteNode i) db = snd (DeleteNode B C W i db)"
| "runCall B C W (CGetNode i) db = snd (GetNode B C i db)"
| "runCall B C W (CAddEdge a b l p) db = snd (AddEdge B C W a b l p db)"
| "runCall B C W (CDeleteEdge i) db = snd (DeleteEdge B C W i db)"
| "runCall B C W (CUpdateEdge i p) db = snd (UpdateEdge B C W i p db)"

text \<open>No write of this call fails for reasons outside the program, and the 64-bit identifiers are not used up.\<close>

definition callable :: "'b DB \<Rightarrow> bool" where
  "callable db \<longleftrightarrow> db_faults db = [] \<and> nodeCtr db \<noteq> - 1 \<and> edgeCtr db \<noteq> - 1"

inductive call_step :: "'b bolt \<Rightarrow> codec \<Rightarrow> wcodec \<Rightarrow> 'b DB \<Rightarrow> 'b DB \<Rightarrow> bool" for B C W where
  call: "callable db \<Longrightarrow> call_step B C W db (runCall B C W c db)"

inductive_cases call_stepE: "call_step B C W db db'"

definition represents :: "'b bolt \<Rightarrow> codec \<Rightarrow> 'b DB \<Rightarrow> bool" where
  "represents B C db \<longleftrightarrow> (\<exists>N G. graph_inv B C db N G)"

lemma representsI: "graph_inv B C db N G \<Longrightarrow> represents B C db"
  by (auto simp: represents_def)

context graph_store
begin

lemma GetNode_step:
  assumes "graph_inv B C db N G" and "GetNode B C i db = (r, db')"
  shows "graph_inv B C db' N G"
  using assms getNode_step(1) [OF assms(1)] by (auto simp: GetNode_def split: if_splits)

lemma runCall_represents:
  assumes inv: "graph_inv B C db N G" and ok: "callable db"
  shows "represents B C (runCall B C W c db)"
proof -
  have n: "nodeCtr db \<noteq> - 1" and e: "edgeCtr db \<noteq> - 1" and f: "db_faults db = []" using ok by (simp_all add: callable_def)
  show ?thesis
  proof (cases c)
    case (CAddNode p)
    obtain r db' where op: "AddNode B C W p db = (r, db')" by fastforce
    show ?thesis using AddNode_step [OF inv n op] op CAddNode by (auto split: sum.splits intro: representsI)
  next
    case (CAddNodeWithLabels ls p)
    obtain r db' where op: "AddNodeWithLabels B C W ls p db = (r, db')" by fastforce
    show ?thesis using AddNodeWithLabels_step [OF inv n op] op CAddNodeWithLabels by (auto split: sum.splits intro: representsI)
  next
    case (CUpdateNode i p)
    obtain r db' where op: "UpdateNode B C W i p db = (r, db')" by fastforce
    show ?thesis using UpdateNode_step [OF inv op] op CUpdateNode by (auto split: sum.splits intro: representsI)
  next
    case (CSetNodeProps i p)
    obtain r db' where op: "SetNodeProps B C W i p db = (r, db')" by fastforce
    show ?thesis using SetNodeProps_step [OF inv op] op CSetNodeProps by (auto split: sum.splits intro: representsI)
  next
    case (CAddLabel i ls)
    obtain r db' where op: "AddLabel B C W i ls db = (r, db')" by fastforce
    have "ls = [] \<Longrightarrow> db' = db" using op by (auto simp: AddLabel_def guarded_def split: if_splits option.splits)
    then show ?thesis using AddLabel_step [OF inv op] op CAddLabel inv by (cases "ls = []") (auto split: sum.splits intro: representsI)
  next
    case (CRemoveLabel i ls)
    obtain r db' where op: "RemoveLabel B C W i ls db = (r, db')" by fastforce
    have "ls = [] \<Longrightarrow> db' = db" using op by (auto simp: RemoveLabel_def guarded_def split: if_splits option.splits)
    then show ?thesis using RemoveLabel_step [OF inv op] op CRemoveLabel inv by (cases "ls = []") (auto split: sum.splits intro: representsI)
  next
    case (CDeleteNode i)
    obtain r db' where op: "DeleteNode B C W i db = (r, db')" by fastforce
    show ?thesis using DeleteNode_step [OF inv op] op CDeleteNode f by (auto split: sum.splits intro: representsI)
  next
    case (CGetNode i)
    obtain r db' where op: "GetNode B C i db = (r, db')" by fastforce
    show ?thesis using GetNode_step [OF inv op] op CGetNode by (auto intro: representsI)
  next
    case (CAddEdge a b l p)
    obtain r db' where op: "AddEdge B C W a b l p db = (r, db')" by fastforce
    show ?thesis using AddEdge_step(1,2) [OF inv e op] op CAddEdge f by (cases r) (auto intro: representsI)
  next
    case (CDeleteEdge i)
    obtain r db' where op: "DeleteEdge B C W i db = (r, db')" by fastforce
    show ?thesis using DeleteEdge_step(1,2) [OF inv op] op CDeleteEdge f by (cases r) (auto intro: representsI)
  next
    case (CUpdateEdge i p)
    obtain r db' where op: "UpdateEdge B C W i p db = (r, db')" by fastforce
    show ?thesis using UpdateEdge_step(1) [OF inv op] op CUpdateEdge by (cases r) (auto intro: representsI)
  qed
qed

lemma reachable_represents:
  assumes "(call_step B C W)\<^sup>*\<^sup>* db db'" and "represents B C db"
  shows "represents B C db'"
  using assms
proof (induction rule: rtranclp_induct)
  case (step y z)
  then show ?case using runCall_represents by (auto simp: represents_def elim!: call_stepE)
qed

end

section \<open>A new database\<close>

context bolt_laws
begin

lemma cursor_new [simp]: "b_cursor B (b_new B) = []"
proof -
  have "map_of (b_cursor B (b_new B)) = Map.empty" using get_new by (simp add: cursor_get fun_eq_iff)
  then show ?thesis by (metis list.exhaust map_of_eq_empty_iff)
qed

lemma openShard_new:
  "\<exists>m. openShard B newFile = Inr \<lparr>s_data = (allBuckets_new B)\<lparr>bk_meta := m\<rparr>, nextNodeID = 0, nextEdgeID = 0, nodeCount = 0, edgeCount = 0\<rparr>"
proof -
  let ?P = "\<lambda>m. \<forall>k v. b_get B m k = Some v \<longrightarrow> v = encodeUint64 0"
  let ?ks = "[metaNextNodeID, metaNextEdgeID, metaNodeCount, metaEdgeCount]"
  have "\<exists>m'. efold (initMetaKey B) ks m = Inr m' \<and> ?P m'" if "set ks \<subseteq> set ?ks" "?P m" for ks m
    using that
  proof (induction ks arbitrary: m)
    case (Cons k ks)
    then obtain m1 where put: "b_put B m k (encodeUint64 0) = Inr m1" using put_meta_ok [of k m 0] by auto
    have "?P m1" using get_put [OF put] Cons.prems(2) by auto
    then show ?case using Cons put by (auto simp: initMetaKey_def)
  qed simp
  from this [of ?ks "b_new B"] obtain m where m: "efold (initMetaKey B) ?ks (b_new B) = Inr m" "?P m" by (auto simp: get_new)
  have load: "loadMeta B m k = Inr 0" for k
  proof (cases "b_get B m k")
    case (Some v)
    then have "v = encodeUint64 0" using m(2) by blast
    then show ?thesis using Some by (simp add: loadMeta_def)
  qed (simp add: loadMeta_def)
  let ?d = "(allBuckets_new B)\<lparr>bk_meta := m\<rparr>"
  have nb: "bk_meta (allBuckets_new B) = b_new B" "bk_nodes ?d = b_new B" "bk_edges ?d = b_new B" "bk_meta ?d = m"
    by (simp_all add: createBuckets_def newFile_def CreateBucketIfNotExists_def)
  have "initBuckets B newFile = Inr ?d" unfolding initBuckets_def Let_def nb(1) m(1) by simp
  moreover have "recoverCounters B (b_new B) (0, 0) = Inr (0, 0)" by (simp add: recoverCounters_def cursorLast_def)
  then have "loadCounters B ?d = Inr \<lparr>s_data = ?d, nextNodeID = 0, nextEdgeID = 0, nodeCount = 0, edgeCount = 0\<rparr>"
    unfolding loadCounters_def nb(2-4) load by simp
  ultimately show ?thesis by (intro exI [of _ m]) (simp add: openShard_def)
qed

end


lemma emapM_replicate: "f x = Inr y \<Longrightarrow> emapM f (replicate n x) = Inr (replicate n y)"
  by (induction n) simp_all

lemma new_cache_coherent: "nodecache.coherent P (newNodeCache b)"
  by (simp add: nodecache.coherent_def cache_wf_new cache_lookup_new)

context graph_store
begin

lemma new_shards_rep:
  assumes d: "\<And>d. d \<in> set ds \<Longrightarrow> \<exists>m. d = (allBuckets_new B)\<lparr>bk_meta := m\<rparr>" and "ds \<noteq> []"
  shows "nodes_rep B C ds Map.empty" "index_rep B C [] [] ds Map.empty" "edges_rep B C ds Map.empty" "uniq_rep B C [] ds Map.empty"
proof -
  have e: "b_get B (bk_nodes (ds ! s)) k = None" "b_get B (bk_edges (ds ! s)) k = None" "b_get B (bk_adj_out (ds ! s)) k = None"
    "b_get B (bk_adj_in (ds ! s)) k = None" "b_get B (bk_idx_edge_type (ds ! s)) k = None" "b_get B (bk_idx_prop (ds ! s)) k = None"
    "b_get B (bk_node_labels (ds ! s)) k = None" "b_get B (bk_idx_node_label (ds ! s)) k = None"
    "b_get B (bk_idx_composite (ds ! s)) k = None" "b_get B (bk_idx_unique (ds ! s)) k = None" if "s < length ds" for s k
    using d [OF nth_mem [OF that]] by (auto simp: createBuckets_def newFile_def CreateBucketIfNotExists_def get_new)
  have r: "route (length ds) i < length ds" for i using assms(2) by (simp add: route_less)
  show "nodes_rep B C ds Map.empty" using e r assms(2) by (simp add: nodes_rep_def rep_keys_def rep_vals_def)
  show "index_rep B C [] [] ds Map.empty" using e by (simp add: index_rep_def rep_keys_def)
  show "edges_rep B C ds Map.empty" using e assms(2) by (simp add: edges_rep_def rep_records_def rep_index_def)
  show "uniq_rep B C [] ds Map.empty" using e by (auto simp: uniq_rep_def uentries_def in_set_conv_nth)
qed

lemma discover_new:
  assumes "\<And>s. s \<in> set shards \<Longrightarrow> \<exists>m. s_data s = (allBuckets_new B)\<lparr>bk_meta := m\<rparr>" and "shards \<noteq> []"
  shows "discoverIndexes B shards = []" "discoverCompositeIndexes B shards = Some []" "discoverUniqueConstraints B shards = []"
proof -
  have b: "b_cursor B (bk_idx_prop (s_data s)) = []" "b_cursor B (bk_idx_composite (s_data s)) = []" "b_cursor B (bk_unique_meta (s_data s)) = []"
    if "s \<in> set shards" for s
    using assms(1) [OF that] by (auto simp: createBuckets_def newFile_def CreateBucketIfNotExists_def)
  have "fold (\<lambda>s ps. fold storeKey (discoverLoop (map fst (b_cursor B (bk_idx_prop (s_data s))))) ps) ss ps = ps" if "set ss \<subseteq> set shards" for ss ps
    using that by (induction ss arbitrary: ps) (auto simp: b)
  then show "discoverIndexes B shards = []" by (simp add: discoverIndexes_def)
  have "discoverCompositeShards B ss st = Some st" if "set ss \<subseteq> set shards" for ss st
    using that by (induction ss) (auto simp: b discoverCompositeShard_def discoverCompositeLoop.simps)
  then show "discoverCompositeIndexes B shards = Some []" by (simp add: discoverCompositeIndexes_def)
  show "discoverUniqueConstraints B shards = []" using assms(2) b [of "shards ! 0"] by (simp add: discoverUniqueConstraints_def)
qed

lemma Open_new:
  assumes "Open B W opts [] segs = Some (Inr db)"
  shows "graph_inv B C db Map.empty Map.empty \<and> uniq_inv B C db Map.empty \<and> callable db \<and> \<not> db_closed db"
proof -
  define n where "n = (if o_ShardCount opts \<le> 0 then 1 else nat (o_ShardCount opts))"
  obtain m where sh: "openShard B newFile = Inr \<lparr>s_data = (allBuckets_new B)\<lparr>bk_meta := m\<rparr>, nextNodeID = 0, nextEdgeID = 0, nodeCount = 0, edgeCount = 0\<rparr>" (is "_ = Inr ?s")
    using openShard_new by blast
  let ?ss = "replicate n ?s"
  have n: "0 < n" by (auto simp: n_def)
  have em: "emapM (openShard B) (take n ([] @ replicate n newFile)) = Inr ?ss" using emapM_replicate [of "openShard B", OF sh] by simp
  have disc: "discoverIndexes B ?ss = []" "discoverCompositeIndexes B ?ss = Some []" "discoverUniqueConstraints B ?ss = []"
    by (rule discover_new; use n in auto)+
  obtain w r b where db: "db = \<lparr>db_closed = False, db_role = r, db_shards = ?ss, db_indexedProps = [], db_compositeIndexes = [],
      db_uniqueConstraints = [], db_ncache = newNodeCache b, db_edgeBloom = Some (initBloomFilter B ?ss), db_wal = w, db_faults = []\<rparr>"
    using assms unfolding Open_def Let_def n_def [symmetric] em sum.case disc option.case
    by (auto split: if_splits sum.splits)
  have f: "files db = replicate n ((allBuckets_new B)\<lparr>bk_meta := m\<rparr>)" by (simp add: db files_def)
  have rep: "nodes_rep B C (files db) Map.empty" "index_rep B C [] [] (files db) Map.empty" "edges_rep B C (files db) Map.empty" "uniq_rep B C [] (files db) Map.empty"
    unfolding f by (rule new_shards_rep; use n in auto)+
  have "sum_list (replicate n (0 :: u64)) = 0" by (induction n) simp_all
  then have "bloom_covers db Map.empty"
    by (intro bloom_covers_init [OF graph_store_axioms, of ?ss]) (use rep(3) f in \<open>simp_all add: db\<close>)
  moreover have "nodeCtr db = 0" "edgeCtr db = 0" using n by (simp_all add: db nodeCtr_def edgeCtr_def)
  ultimately show ?thesis
    using rep new_cache_coherent
    by (simp add: graph_inv_def uniq_inv_def cache_ok_def no_dangling_def node_ids_bounded_def callable_def) (simp add: db)
qed

end


lemma AddNodeWithLabels_frame:
  assumes "AddNodeWithLabels B C W ls props db = (Inr i, db')"
  shows "length (files db') = length (files db) \<and> db_uniqueConstraints db' = db_uniqueConstraints db"
proof -
  obtain j db0 where al: "dbAllocNodeID db = (j, db0)" by fastforce
  then have l0: "length (files db0) = length (files db)" "db_uniqueConstraints db0 = db_uniqueConstraints db"
    by (auto simp: dbAllocNodeID_def Let_def updShard_def files_def)
  have w: "length (files db1) = length (files db0) \<and> db_uniqueConstraints db1 = db_uniqueConstraints db0" if "writeUpdate s fn db0 = (Inr u, db1)" for s fn u db1
    using that by (auto simp: writeUpdate_def Let_def updShard_def files_def split: list.splits option.splits sum.splits)
  show ?thesis using guarded_Inr [OF assms [unfolded AddNodeWithLabels_def]] al l0
    by (auto simp: Let_def files_def split: sum.splits prod.splits if_splits dest!: w)
qed

text \<open>A small database for closed instances: one shard, a labelled and indexed node 1 and a node 2.\<close>

definition demoFile :: "kvs buckets" where
  "demoFile = (allBuckets_new kvs_bolt)\<lparr>
     bk_nodes := [(encodeNodeID 1, propsMagic # enc_strs [''n'', ''x'']), (encodeNodeID 2, propsMagic # enc_strs [])],
     bk_node_labels := [(encodeNodeID 1, enc_strs [''P''])],
     bk_idx_node_label := [(encodeLabelIndexKey ''P'' 1, [])],
     bk_idx_prop := [(encodeIndexKey ''n:x'' 1, [])]\<rparr>"

definition demoDB :: "kvs DB" where
  "demoDB = \<lparr>db_closed = False, db_role = ''leader'',
     db_shards = [\<lparr>s_data = demoFile, nextNodeID = 2, nextEdgeID = 0, nodeCount = 2, edgeCount = 0\<rparr>],
     db_indexedProps = [''n''], db_compositeIndexes = [], db_uniqueConstraints = [],
     db_ncache = newNodeCache 0, db_edgeBloom = None, db_wal = None, db_faults = []\<rparr>"

definition demoNodes :: graph_nodes where
  "demoNodes = [1 \<mapsto> ([''P''], [(''n'', VStr ''x'')]), 2 \<mapsto> ([], [])]"

lemma demo_props:
  "decodeProps str_codec (propsMagic # enc_strs [''n'', ''x'']) = Inr [(''n'', VStr ''x'')]"
  "decodeProps str_codec (propsMagic # enc_strs []) = Inr []" "c_unmarshal_labels str_codec (enc_strs [''P'']) = Inr [''P'']"
  by code_simp+

lemma demo_fields [simp]:
  "files demoDB = [demoFile]" "db_closed demoDB = False" "db_indexedProps demoDB = [''n'']" "db_faults demoDB = []"
  "db_compositeIndexes demoDB = []" "db_uniqueConstraints demoDB = []" "nodeCtr demoDB = 2" "edgeCtr demoDB = 0"
  "db_ncache demoDB = newNodeCache 0" "db_edgeBloom demoDB = None"
  by (simp_all add: demoDB_def files_def nodeCtr_def edgeCtr_def)

lemma route_1 [simp]: "route (Suc 0) i = 0"
  by (simp add: route_def)

lemma demo_rep:
  "nodes_rep kvs_bolt str_codec [demoFile] demoNodes" "index_rep kvs_bolt str_codec [''n''] [] [demoFile] demoNodes"
  "edges_rep kvs_bolt str_codec [demoFile] Map.empty" "uniq_rep kvs_bolt str_codec [] [demoFile] demoNodes"
proof -
  have g: "b_get kvs_bolt = map_of" by (simp add: kvs_bolt_def)
  have b: "bk_nodes demoFile = [(encodeNodeID 1, propsMagic # enc_strs [''n'', ''x'']), (encodeNodeID 2, propsMagic # enc_strs [])]"
    "bk_node_labels demoFile = [(encodeNodeID 1, enc_strs [''P''])]" "bk_idx_node_label demoFile = [(encodeLabelIndexKey ''P'' 1, [])]"
    "bk_idx_prop demoFile = [(encodeIndexKey ''n:x'' 1, [])]" "bk_idx_composite demoFile = []" "bk_edges demoFile = []"
    "bk_adj_out demoFile = []" "bk_adj_in demoFile = []" "bk_idx_edge_type demoFile = []" "bk_idx_unique demoFile = []"
    by (simp_all add: demoFile_def createBuckets_def newFile_def CreateBucketIfNotExists_def kvs_bolt_def)
  have N: "demoNodes i = Some x \<longleftrightarrow> i = 1 \<and> x = ([''P''], [(''n'', VStr ''x'')]) \<or> i = 2 \<and> x = ([], [])" for i x
    by (auto simp: demoNodes_def)
  have ex: "(\<exists>i x. demoNodes i = Some x \<and> P i x) \<longleftrightarrow> P 1 ([''P''], [(''n'', VStr ''x'')]) \<or> P 2 ([], [])" for P
    unfolding N by blast
  have k: "propIdxKey str_codec ''n'' (VStr ''x'') 1 = encodeIndexKey ''n:x'' 1" by (simp add: propIdxKey_def)
  have keys: "rep_keys (Suc 0) nodeKeys (\<lambda>s. map_of (bk_nodes ([demoFile] ! s))) demoNodes"
    "rep_keys (Suc 0) labelRecKeys (\<lambda>s. map_of (bk_node_labels ([demoFile] ! s))) demoNodes"
    "rep_keys (Suc 0) labelKeys (\<lambda>s. map_of (bk_idx_node_label ([demoFile] ! s))) demoNodes"
    unfolding rep_keys_def ex by (auto simp: b nodeKeys_def labelRecKeys_def labelKeys_def)
  have vals: "rep_vals (Suc 0) (propsVal str_codec) (\<lambda>s. map_of (bk_nodes ([demoFile] ! s))) demoNodes"
    "rep_vals (Suc 0) (labelsVal str_codec) (\<lambda>s. map_of (bk_node_labels ([demoFile] ! s))) demoNodes"
    by (auto simp: rep_vals_def b N propsVal_def labelsVal_def demo_props split: if_splits simp del: split_paired_Ex)
  show "nodes_rep kvs_bolt str_codec [demoFile] demoNodes" using keys vals by (simp add: nodes_rep_def g)
  show "index_rep kvs_bolt str_codec [''n''] [] [demoFile] demoNodes"
    unfolding index_rep_def rep_keys_def ex by (auto simp: b g propKeys_def propKeyList_def compKeys_def compKeyList_def k)
  show "edges_rep kvs_bolt str_codec [demoFile] Map.empty" by (simp add: edges_rep_def rep_records_def rep_index_def b g)
  show "uniq_rep kvs_bolt str_codec [] [demoFile] demoNodes" by (simp add: uniq_rep_def b g uentries_def N applicable_def demoNodes_def split: option.splits)
qed

lemma demo_inv: "graph_inv kvs_bolt str_codec demoDB demoNodes Map.empty" "uniq_inv kvs_bolt str_codec demoDB demoNodes"
proof -
  have "demoNodes 0 = None" "\<And>i. demoNodes i \<noteq> None \<Longrightarrow> i \<le> 2" by (auto simp: demoNodes_def split: if_splits)
  then show "graph_inv kvs_bolt str_codec demoDB demoNodes Map.empty"
    using demo_rep new_cache_coherent by (simp add: graph_inv_def cache_ok_def no_dangling_def node_ids_bounded_def bloom_covers_def)
  show "uniq_inv kvs_bolt str_codec demoDB demoNodes" using demo_rep(4) by (simp add: uniq_inv_def)
qed

lemmas kvs_graph_store = kvs_store.graph_store_axioms

text \<open>The same database with an edge from node 1 to node 2.\<close>

definition edgeDB :: "kvs DB" where
  "edgeDB = snd (AddEdge kvs_bolt str_codec (str_wcodec 1) 1 2 ''KNOWS'' [] demoDB)"

lemma demo_edge: "AddEdge kvs_bolt str_codec (str_wcodec 1) 1 2 ''KNOWS'' [] demoDB = (Inr 1, edgeDB)"
  and edge_fields: "db_closed edgeDB = False" "isFollower edgeDB = False" "db_faults edgeDB = []" "db_indexedProps edgeDB = [''n'']"
    "\<exists>d. files edgeDB = [d] \<and> bk_nodes d = bk_nodes demoFile" "nodeCtr edgeDB = 2" "edgeCtr edgeDB = 1"
proof -
  let ?s = "\<lparr>s_data = demoFile, nextNodeID = 2, nextEdgeID = 0, nodeCount = 2, edgeCount = 0\<rparr>"
  obtain data where data: "encodeEdge str_codec sampleEdge = Inr data" and len: "length data \<le> MaxValueSize"
    by (simp add: sampleEdge_def encodeEdge_def encodeProps_def str_codec_def Let_def enc_strs_def)
  from data len obtain d where d: "addEdgeSameTx kvs_bolt str_codec sampleEdge demoFile = Inr d" and nodes: "bk_nodes d = bk_nodes demoFile"
    by (simp add: sampleEdge_def addEdgeSameTx_def kvs_bolt_def enc_simps)
  have v: "verifyNodeExists kvs_bolt demoDB 1 = Inr ()" "verifyNodeExists kvs_bolt demoDB 2 = Inr ()"
    unfolding verifyNodeExists_def viewing_def by (simp_all add: shardFor_def demoDB_def demoFile_def kvs_bolt_def)
  have sh: "shardFor db i = 0" if "length (db_shards db) = Suc 0" for i and db :: "kvs DB"
    using that by (simp add: shardFor_def)
  have al: "dbAllocEdgeID demoDB = (1, demoDB\<lparr>db_shards := [?s\<lparr>nextEdgeID := 1\<rparr>]\<rparr>)"
    by (simp add: dbAllocEdgeID_def allocEdgeID_def updShard_def demoDB_def)
  have f: "db_role demoDB = ''leader''" "db_wal demoDB = None" by (simp_all add: demoDB_def)
  show "AddEdge kvs_bolt str_codec (str_wcodec 1) 1 2 ''KNOWS'' [] demoDB = (Inr 1, edgeDB)"
    "db_closed edgeDB = False" "isFollower edgeDB = False" "db_faults edgeDB = []" "db_indexedProps edgeDB = [''n'']"
    "\<exists>d. files edgeDB = [d] \<and> bk_nodes d = bk_nodes demoFile" "nodeCtr edgeDB = 2" "edgeCtr edgeDB = 1"
    unfolding edgeDB_def AddEdge_def guarded_def
    using nodes by (simp_all add: v al sh shardForEdge_def Let_def writeGuard_def isFollower_def d [unfolded sampleEdge_def]
      writeUpdate_def updShard_def addEdgeCount_def bloomAddDB_def walAppend_def nodeCtr_def edgeCtr_def files_def f)
qed

lemma edge_inv: "graph_inv kvs_bolt str_codec edgeDB demoNodes [1 \<mapsto> sampleEdge]"
  using kvs_store.AddEdge_step(1) [OF demo_inv(1) _ demo_edge, of 1] by (simp add: sampleEdge_def)

text \<open>The same nodes under a unique constraint on the property n of the label P.\<close>

definition demoUC :: UniqueConstraint where
  "demoUC = \<lparr>uc_Label = ''P'', uc_Property = ''n''\<rparr>"

definition uniqueDB :: "kvs DB" where
  "uniqueDB = demoDB\<lparr>db_uniqueConstraints := [(constraintKey demoUC, demoUC)],
     db_shards := [\<lparr>s_data = demoFile\<lparr>bk_idx_unique := [(encodeUniqueKey ''P'' ''n'' ''x'', encodeNodeID 1)]\<rparr>,
       nextNodeID = 2, nextEdgeID = 0, nodeCount = 2, edgeCount = 0\<rparr>]\<rparr>"

lemma kvs_put_small: "0 < length k \<Longrightarrow> length k \<le> 64 \<Longrightarrow> length v \<le> 64 \<Longrightarrow> b_put kvs_bolt b k v = Inr (AList.update k v b)"
  by (simp add: kvs_bolt_def)

lemma unique_add: "\<exists>db'. AddNodeWithLabels kvs_bolt str_codec (str_wcodec 1) [''P''] [(''n'', VStr ''y'')] uniqueDB = (Inr 3, db') \<and> nodeCtr db' = 3"
proof -
  let ?props = "[(''n'', VStr ''y'')]" and ?d = "demoFile\<lparr>bk_idx_unique := [(encodeUniqueKey ''P'' ''n'' ''x'', encodeNodeID 1)]\<rparr>"
  obtain data where data: "encodeProps str_codec ?props = Inr data" "length data \<le> 64"
    by (simp add: encodeProps_def str_codec_def enc_strs_def esc_def)
  define db0 where "db0 = snd (dbAllocNodeID uniqueDB)"
  have al: "dbAllocNodeID uniqueDB = (3, db0)" and bk: "bucketsOf db0 0 = ?d" and fields: "db_uniqueConstraints db0 = [(constraintKey demoUC, demoUC)]"
      "db_indexedProps db0 = [''n'']" "db_compositeIndexes db0 = []" "db_faults db0 = []" "length (db_shards db0) = 1" "nodeCtr db0 = 3"
    by (simp_all add: db0_def dbAllocNodeID_def allocNodeID_def updShard_def uniqueDB_def demoDB_def nodeCtr_def)
  have app: "applicable str_codec [(constraintKey demoUC, demoUC)] [''P''] ?props = [(''P'', ''n'', ''y'')]"
    by (simp add: applicable_def demoUC_def)
  have chk: "checkUniqueConstraintsInTx kvs_bolt str_codec db0 [''P''] ?props 0 ?d = Inr ()"
    by (simp add: checkUniqueConstraintsInTx_def fields app kvs_bolt_def encodeUniqueKey_def)
  have lab: "c_marshal_labels str_codec [''P''] = Inr (enc_strs [''P''])" "enc_strs [''P''] \<noteq> []" "length (enc_strs [''P'']) \<le> 64"
    by (simp_all add: str_codec_def enc_strs_def esc_def)
  obtain d where tx: "addNodeWithLabelsTx kvs_bolt str_codec db0 3 data (enc_strs [''P'']) [''P''] ?props ?d = Inr d"
    using data(2) lab(2,3) by (simp add: addNodeWithLabelsTx_def chk [unfolded key_defs] putNode_def putLabels_def putLabelEntries_def indexNodeProps_def indexProps_def
      indexNodeComposite_def fields kvs_put_small propIdxKey_def key_defs encodeLabelIndexKey_def encodeUint64Into_def)
  obtain db1 where w: "writeUpdate 0 (addNodeWithLabelsTx kvs_bolt str_codec db0 3 data (enc_strs [''P'']) [''P''] ?props) db0 = (Inr (), db1)" "nodeCtr db1 = 3"
    using ctr_writeUpdate(2) [of 0 _ db0] fields by (simp add: writeUpdate_def bk tx)
  have g: "\<not> db_closed uniqueDB" "\<not> isFollower uniqueDB" by (simp_all add: uniqueDB_def demoDB_def isFollower_def)
  have sh: "shardFor db0 3 = 0" using fields by (simp add: shardFor_def)
  have nc: "nodeCtr (db\<lparr>db_ncache := c\<rparr>) = nodeCtr db" for db :: "kvs DB" and c by (simp add: nodeCtr_def)
  show ?thesis using g w by (simp add: AddNodeWithLabels_def guarded_ok al data(1) lab sh nc)
qed

lemma unique_inv: "graph_inv kvs_bolt str_codec uniqueDB demoNodes Map.empty" "uniq_inv kvs_bolt str_codec uniqueDB demoNodes"
proof -
  let ?u = "[(encodeUniqueKey ''P'' ''n'' ''x'', encodeNodeID 1)]"
  have f: "files uniqueDB = [demoFile\<lparr>bk_idx_unique := ?u\<rparr>]" by (simp add: uniqueDB_def files_def)
  have c: "nodeCtr uniqueDB = 2" "edgeCtr uniqueDB = 0" "db_indexedProps uniqueDB = [''n'']" "db_compositeIndexes uniqueDB = []"
    "db_ncache uniqueDB = newNodeCache 0" "db_edgeBloom uniqueDB = None" "db_uniqueConstraints uniqueDB = [(constraintKey demoUC, demoUC)]"
    by (simp_all add: uniqueDB_def nodeCtr_def edgeCtr_def)
  have "nodes_rep kvs_bolt str_codec [demoFile\<lparr>bk_idx_unique := ?u\<rparr>] demoNodes" "index_rep kvs_bolt str_codec [''n''] [] [demoFile\<lparr>bk_idx_unique := ?u\<rparr>] demoNodes"
    "edges_rep kvs_bolt str_codec [demoFile\<lparr>bk_idx_unique := ?u\<rparr>] Map.empty"
    using demo_rep(1-3) by (simp_all add: nodes_rep_def index_rep_def edges_rep_def rep_keys_def rep_vals_def rep_records_def rep_index_def)
  moreover have "demoNodes 0 = None" "\<And>i. demoNodes i \<noteq> None \<Longrightarrow> i \<le> 2" by (auto simp: demoNodes_def split: if_splits)
  ultimately show "graph_inv kvs_bolt str_codec uniqueDB demoNodes Map.empty"
    using new_cache_coherent by (simp add: graph_inv_def cache_ok_def no_dangling_def node_ids_bounded_def edge_ids_bounded_def bloom_covers_def f c)
  have "uentries str_codec [(constraintKey demoUC, demoUC)] (demoNodes i) = (if i = 1 then {(''P'', ''n'', ''x'')} else {})" for i
    by (auto simp: uentries_def demoNodes_def applicable_def demoUC_def)
  then show "uniq_inv kvs_bolt str_codec uniqueDB demoNodes"
    by (auto simp: uniq_inv_def uniq_rep_def f c kvs_bolt_def split: if_splits) (simp add: demoNodes_def)
qed

text \<open>Opening an empty directory succeeds.\<close>

lemma open_demo: "\<exists>db. Open kvs_bolt W \<lparr>o_ShardCount = 2, o_CacheBudget = 0, o_EnableWAL = False, o_Role = ''leader''\<rparr> [] [] = Some (Inr db)"
proof -
  obtain m where sh: "openShard kvs_bolt newFile = Inr \<lparr>s_data = (allBuckets_new kvs_bolt)\<lparr>bk_meta := m\<rparr>, nextNodeID = 0, nextEdgeID = 0, nodeCount = 0, edgeCount = 0\<rparr>" (is "_ = Inr ?s")
    using kvs.openShard_new by blast
  have em: "emapM (openShard kvs_bolt) (take 2 ([] @ replicate 2 newFile)) = Inr (replicate 2 ?s)"
    using emapM_replicate [of "openShard kvs_bolt", OF sh] by simp
  have "discoverCompositeIndexes kvs_bolt (replicate 2 ?s) = Some []" by (rule kvs_store.discover_new(2)) auto
  then show ?thesis using em by (simp add: Open_def)
qed

section \<open>Properties\<close>

text \<open>
  C2. Without environment faults, DeleteNode that succeeds removes the node with all its labels, index
  entries and incident edges and nothing else; it can only fail because the database is closed, a replica,
  or has no such node, and then the represented graph is unchanged.
\<close>

theorem delete_node_detaches:
  assumes "graph_store B C" and "graph_inv B C db N G" and "DeleteNode B C W i db = (r, db')" and "db_faults db = []"
  shows "case r of
      Inl e \<Rightarrow> (db_closed db \<or> isFollower db \<or> N i = None) \<and> graph_inv B C db' N G
    | Inr _ \<Rightarrow> N i \<noteq> None \<and> graph_inv B C db' (N(i := None)) (without i G)"
  using graph_store.DeleteNode_step [OF assms(1-3)] assms(4) by (auto split: sum.splits)

theorem delete_node_detaches_witness:
  "\<exists>db'. DeleteNode kvs_bolt str_codec (str_wcodec 1) 1 edgeDB = (Inr (), db') \<and>
     graph_inv kvs_bolt str_codec db' [2 \<mapsto> ([], [])] Map.empty \<and> graph_inv kvs_bolt str_codec edgeDB demoNodes [1 \<mapsto> sampleEdge]"
proof -
  obtain r db' where op: "DeleteNode kvs_bolt str_codec (str_wcodec 1) 1 edgeDB = (r, db')" by fastforce
  have d: "demoNodes(1 := None) = [2 \<mapsto> ([], [])]" "without 1 [1 \<mapsto> sampleEdge] = Map.empty" "demoNodes 1 \<noteq> None"
    by (auto simp: demoNodes_def without_def sampleEdge_def)
  show ?thesis
    using delete_node_detaches [OF kvs_graph_store edge_inv op edge_fields(3)] op edge_inv edge_fields(1,2) d by (cases r) auto
qed

text \<open>
  C4. FindByLabel returns exactly the nodes that carry the label, each once and with all its labels,
  whatever shards they are in, provided labels have no zero byte.
\<close>

theorem find_by_label_exact:
  assumes "graph_store B C" and "graph_inv B C db N G" and "\<not> db_closed db" and "nul_free label" and "labels_nul_free N"
  shows "\<exists>ns. FindByLabel B C label db = Inr ns \<and> nodes_match C ns N (\<lambda>i x. label \<in> set (fst x)) \<and>
    (\<forall>n \<in> set ns. \<exists>x. N (n_id n) = Some x \<and> n_labels n = fst x)"
  by (rule graph_store.FindByLabel_match [OF assms])

theorem find_by_label_exact_witness:
  "\<exists>ns. FindByLabel kvs_bolt str_codec ''P'' demoDB = Inr ns \<and> n_id ` set ns = {1}"
proof -
  have "labels_nul_free demoNodes" by (auto simp: labels_nul_free_def nul_free_def demoNodes_def split: if_splits)
  then obtain ns where "FindByLabel kvs_bolt str_codec ''P'' demoDB = Inr ns" "nodes_match str_codec ns demoNodes (\<lambda>i x. ''P'' \<in> set (fst x))"
    using find_by_label_exact [OF kvs_graph_store demo_inv(1), of "''P''"] by (auto simp: nul_free_def)
  moreover have "(\<exists>x. demoNodes i = Some x \<and> ''P'' \<in> set (fst x)) \<longleftrightarrow> i = 1" for i by (auto simp: demoNodes_def)
  ultimately have "FindByLabel kvs_bolt str_codec ''P'' demoDB = Inr ns" "\<forall>i. i \<in> n_id ` set ns \<longleftrightarrow> i = 1"
    unfolding nodes_match_def by simp_all
  then show ?thesis by blast
qed



text \<open>
  C6. Updating a node: a successful UpdateNode merges the properties into the record of an existing node
  and moves its index entries; a failing one leaves the represented graph as it was.
\<close>

theorem update_node_merges:
  assumes "graph_store B C" and "graph_inv B C db N G" and "UpdateNode B C W i props db = (r, db')"
  shows "case r of Inl e \<Rightarrow> graph_inv B C db' N G
    | Inr _ \<Rightarrow> \<exists>x. N i = Some x \<and> graph_inv B C db' (N(i \<mapsto> (fst x, props_merge (snd x) props))) G"
  using graph_store.UpdateNode_step [OF assms] by (auto split: sum.splits)

theorem update_node_merges_witness:
  "\<exists>r db'. UpdateNode kvs_bolt str_codec (str_wcodec 1) 1 [(''n'', VStr ''y'')] demoDB = (r, db') \<and>
     (case r of Inl e \<Rightarrow> graph_inv kvs_bolt str_codec db' demoNodes Map.empty
      | Inr _ \<Rightarrow> graph_inv kvs_bolt str_codec db' (demoNodes(1 \<mapsto> ([''P''], [(''n'', VStr ''y'')]))) Map.empty)"
proof -
  obtain r db' where op: "UpdateNode kvs_bolt str_codec (str_wcodec 1) 1 [(''n'', VStr ''y'')] demoDB = (r, db')" by fastforce
  have "demoNodes 1 = Some ([''P''], [(''n'', VStr ''x'')])" by (simp add: demoNodes_def)
  then show ?thesis using update_node_merges [OF kvs_graph_store demo_inv(1) op] op by (cases r) (auto simp: props_merge_def)
qed

text \<open>
  C5. Unique constraints within a shard: a successful AddNodeWithLabels never gives a node a constrained
  value that another node of its shard has under the same label, and the constraint index afterwards
  covers the new node too, provided the constraint index was complete before and the keys of the node's
  constrained values fit the store (a longer value is silently left out of the index).
\<close>

theorem add_node_respects_unique:
  assumes "graph_store B C" and "graph_inv B C db N G" and "uniq_inv B C db N" and "nodeCtr db \<noteq> - 1"
    and "uniq_fits C (db_uniqueConstraints db) (ls, props)"
    and "AddNodeWithLabels B C W ls props db = (Inr i, db')"
  shows "uniq_inv B C db' (N(i \<mapsto> (ls, props))) \<and>
    (\<forall>j a. j \<noteq> i \<and> shardFor db j = shardFor db i \<and> a \<in> uentries C (db_uniqueConstraints db) (Some (ls, props)) \<longrightarrow>
       a \<notin> uentries C (db_uniqueConstraints db) (N j))"
proof -
  have u: "uniq_inv B C db' (N(i \<mapsto> (ls, props)))"
    using graph_store.AddNodeWithLabels_step [OF assms(1,2,4,6)] assms(3,5) by (simp del: fun_upd_apply) blast
  have len: "length (files db') = length (files db)" and ucs: "db_uniqueConstraints db' = db_uniqueConstraints db"
    using AddNodeWithLabels_frame [OF assms(6)] by simp_all
  have "a \<notin> uentries C (db_uniqueConstraints db) (N j)"
    if h: "j \<noteq> i" "shardFor db j = shardFor db i" "a \<in> uentries C (db_uniqueConstraints db) (Some (ls, props))" for j a
  proof
    assume a: "a \<in> uentries C (db_uniqueConstraints db) (N j)"
    have same: "route (length (files db')) j = route (length (files db')) i" using h(2) len by (simp add: shardFor_route)
    have ent: "b_get B (bk_idx_unique (files db' ! route (length (files db')) k)) (ukey b) = Some (encodeNodeID k)"
      if "b \<in> uentries C (db_uniqueConstraints db) ((N(i \<mapsto> (ls, props))) k)" for k b
      using u that unfolding uniq_inv_def uniq_rep_def ucs by blast
    have "encodeNodeID j = encodeNodeID i" using ent [of a j] ent [of a i] a h same by simp
    then show False using h(1) by simp
  qed
  then show ?thesis using u by blast
qed

theorem add_node_respects_unique_witness:
  "\<exists>db'. AddNodeWithLabels kvs_bolt str_codec (str_wcodec 1) [''P''] [(''n'', VStr ''y'')] uniqueDB = (Inr 3, db') \<and>
     db_uniqueConstraints db' = [(constraintKey demoUC, demoUC)] \<and> uniq_inv kvs_bolt str_codec db' (demoNodes(3 \<mapsto> ([''P''], [(''n'', VStr ''y'')]))) \<and>
     (''P'', ''n'', ''x'') \<in> uentries str_codec (db_uniqueConstraints uniqueDB) (demoNodes 1) \<and>
     (''P'', ''n'', ''y'') \<notin> uentries str_codec (db_uniqueConstraints uniqueDB) (demoNodes 1)"
proof -
  let ?x = "([''P''], [(''n'', VStr ''y'')])"
  obtain db' where op: "AddNodeWithLabels kvs_bolt str_codec (str_wcodec 1) [''P''] [(''n'', VStr ''y'')] uniqueDB = (Inr 3, db')" using unique_add by blast
  have c: "nodeCtr uniqueDB \<noteq> - 1" "db_uniqueConstraints uniqueDB = [(constraintKey demoUC, demoUC)]" "shardFor uniqueDB 1 = shardFor uniqueDB 3"
    by (simp_all add: uniqueDB_def nodeCtr_def shardFor_def)
  have app: "uentries str_codec (db_uniqueConstraints uniqueDB) (Some ?x) = {(''P'', ''n'', ''y'')}"
     "uentries str_codec (db_uniqueConstraints uniqueDB) (demoNodes 1) = {(''P'', ''n'', ''x'')}"
    by (simp_all add: uentries_def applicable_def demoUC_def c demoNodes_def)
  have "uniq_fits str_codec (db_uniqueConstraints uniqueDB) ?x" by (simp add: uniq_fits_def applicable_def demoUC_def c encodeUniqueKey_def)
  from add_node_respects_unique [OF kvs_graph_store unique_inv c(1) this op] AddNodeWithLabels_frame [OF op]
  have "uniq_inv kvs_bolt str_codec db' (demoNodes(3 \<mapsto> ?x))" "db_uniqueConstraints db' = [(constraintKey demoUC, demoUC)]"
     "(''P'', ''n'', ''y'') \<notin> uentries str_codec (db_uniqueConstraints uniqueDB) (demoNodes 1)"
    using c(2,3) app(1) by auto
  then show ?thesis using op app(2) by simp
qed

end
