(* ===== verification/Search.thy ===== *)
theory Search
  imports Types
begin

text \<open>
  Breadth-first and depth-first search over a successor function, free of storage: the reference the
  traversals of traversal.go and path.go are compared with. A search works on entries (node, path to it)
  and marks a node when it is discovered. Node identifiers are 64-bit words, so that a search ends: every
  discovery makes the set of unmarked nodes smaller.
\<close>

type_synonym succs = "NodeID \<Rightarrow> (Edge \<times> NodeID) list"
type_synonym entry = "NodeID \<times> Edge list"

lemma card_mark: "v \<notin> set V \<Longrightarrow> Suc (card (- set (v # V))) = card (- set (V :: NodeID list))"
proof -
  assume v: "v \<notin> set V"
  have "- set (v # V) = - set V - {v}" by auto
  then show ?thesis using v by (metis ComplI card_Suc_Diff1 finite_code)
qed

section \<open>Expanding one node\<close>

fun discover :: "Edge list \<Rightarrow> (Edge \<times> NodeID) list \<Rightarrow> NodeID list \<Rightarrow> entry list \<times> NodeID list" where
  "discover p [] V = ([], V)"
| "discover p ((e, v) # es) V =
     (if v \<in> set V then discover p es V
      else let (new, V') = discover p es (v # V) in ((v, p @ [e]) # new, V'))"

lemma discover_visited: "discover p es V = (new, V') \<Longrightarrow> set V' = set V \<union> snd ` set es"
proof (induction p es V arbitrary: new V' rule: discover.induct)
  case (2 p e v es V)
  show ?case
  proof (cases "v \<in> set V")
    case True
    then show ?thesis using "2.IH"(1) [OF True] "2.prems" by auto
  next
    case False
    obtain n1 V1 where d: "discover p es (v # V) = (n1, V1)" by (cases "discover p es (v # V)")
    then have "V' = V1" using "2.prems" False by simp
    then show ?thesis using "2.IH"(2) [OF False d] by auto
  qed
qed simp

lemma discover_entries_all:
  "discover p es V = (new, V') \<Longrightarrow> distinct (map fst new) \<and> fst ` set new = snd ` set es - set V \<and>
     (\<forall>v q. (v, q) \<in> set new \<longrightarrow> (\<exists>e. (e, v) \<in> set es \<and> q = p @ [e]))"
proof (induction p es V arbitrary: new V' rule: discover.induct)
  case (2 p e v es V)
  show ?case
  proof (cases "v \<in> set V")
    case True
    then have "discover p es V = (new, V')" using "2.prems" by simp
    from "2.IH"(1) [OF True this] show ?thesis using True by (auto 0 4)
  next
    case False
    obtain n1 V1 where d: "discover p es (v # V) = (n1, V1)" by (cases "discover p es (v # V)")
    then have new: "new = (v, p @ [e]) # n1" using "2.prems" False by simp
    note IH = "2.IH"(2) [OF False d]
    have "fst ` set n1 = snd ` set es - set (v # V)" using IH by blast
    then have "distinct (map fst new)" "fst ` set new = snd ` set ((e, v) # es) - set V" using IH False unfolding new by auto
    moreover have "\<exists>a. (a, w) \<in> set ((e, v) # es) \<and> q = p @ [a]" if "(w, q) \<in> set new" for w q
    proof (cases "(w, q) = (v, p @ [e])")
      case False
      then have "(w, q) \<in> set n1" using that unfolding new by auto
      then obtain a where "(a, w) \<in> set es" "q = p @ [a]" using IH by blast
      then show ?thesis by (intro exI [of _ a]) simp
    qed simp
    ultimately show ?thesis by blast
  qed
qed simp

lemma discover_entries:
  assumes "discover p es V = (new, V')"
  shows "distinct (map fst new)" and "fst ` set new = snd ` set es - set V"
    and "\<And>v q. (v, q) \<in> set new \<Longrightarrow> \<exists>e. (e, v) \<in> set es \<and> q = p @ [e]"
  using discover_entries_all [OF assms] by blast+

lemma discover_count: "discover p es V = (new, V') \<Longrightarrow> card (- set V') + length new = card (- set V)"
proof (induction p es V arbitrary: new V' rule: discover.induct)
  case (2 p e v es V)
  show ?case
  proof (cases "v \<in> set V")
    case False
    obtain n1 V1 where d: "discover p es (v # V) = (n1, V1)" by (cases "discover p es (v # V)")
    have "Suc (card (- set (v # V))) = card (- set V)" using False by (intro card_mark) simp
    then show ?thesis using "2.IH"(2) [OF False d] "2.prems" False d by auto
  qed (use 2 in simp)
qed simp

section \<open>Breadth first\<close>

function bfsOrder :: "succs \<Rightarrow> int \<Rightarrow> NodeID list \<Rightarrow> entry list \<Rightarrow> entry list" where
  "bfsOrder S maxDepth V [] = []"
| "bfsOrder S maxDepth V ((u, p) # q) =
     (if 0 \<le> maxDepth \<and> maxDepth \<le> int (length p) then bfsOrder S maxDepth V q
      else let (new, V') = discover p (S u) V in new @ bfsOrder S maxDepth V' (q @ new))"
  by pat_completeness auto
termination
  by (relation "measure (\<lambda>(S, m, V, q). 2 * card (- set V) + length q)") (auto dest!: discover_count [OF sym])

section \<open>Walks\<close>

inductive walk :: "succs \<Rightarrow> NodeID \<Rightarrow> Edge list \<Rightarrow> NodeID \<Rightarrow> bool" for S s where
  walk_Nil: "walk S s [] s"
| walk_snoc: "walk S s p u \<Longrightarrow> (e, v) \<in> set (S u) \<Longrightarrow> walk S s (p @ [e]) v"

inductive_cases walk_NilE: "walk S s [] v"
inductive_cases walk_snocE: "walk S s (p @ [e]) v"

definition within :: "succs \<Rightarrow> NodeID \<Rightarrow> nat \<Rightarrow> NodeID \<Rightarrow> bool" where
  "within S s n v \<longleftrightarrow> (\<exists>p. walk S s p v \<and> length p \<le> n)"

lemma within_mono: "within S s n v \<Longrightarrow> n \<le> m \<Longrightarrow> within S s m v"
  by (auto simp: within_def intro: order_trans)

lemma within_0: "within S s 0 v \<longleftrightarrow> v = s"
  by (auto simp: within_def intro: walk_Nil elim: walk_NilE)

lemma within_step: "within S s n u \<Longrightarrow> (e, v) \<in> set (S u) \<Longrightarrow> within S s (Suc n) v"
  unfolding within_def by (metis Suc_le_mono length_append_singleton walk_snoc)

lemma within_Suc_cases:
  assumes "within S s (Suc n) v"
  shows "within S s n v \<or> (\<exists>u e. within S s n u \<and> (e, v) \<in> set (S u))"
proof -
  obtain p where p: "walk S s p v" "length p \<le> Suc n" using assms by (auto simp: within_def)
  from p(1) show ?thesis
  proof cases
    case walk_Nil
    then show ?thesis by (auto simp: within_def intro: walk.walk_Nil)
  next
    case (walk_snoc p' u e)
    then show ?thesis using p(2) by (auto simp: within_def)
  qed
qed

text \<open>The shortest walks: as long as the distance.\<close>

definition shortest :: "succs \<Rightarrow> NodeID \<Rightarrow> entry \<Rightarrow> bool" where
  "shortest S s vp \<longleftrightarrow> walk S s (snd vp) (fst vp) \<and> (\<forall>q. walk S s q (fst vp) \<longrightarrow> length (snd vp) \<le> length q)"

lemma shortestI:
  assumes "walk S s p v" and "\<And>n. n < length p \<Longrightarrow> \<not> within S s n v"
  shows "shortest S s (v, p)"
  using assms by (fastforce simp: shortest_def within_def not_le [symmetric])


section \<open>Breadth-first search is exact\<close>

text \<open>
  The queue is split into the entries of the current level \<open>k\<close> and those of the next one. Everything
  within distance \<open>k\<close> is marked, and what is still missing at distance \<open>k + 1\<close> is a successor of an entry of
  the current level.
\<close>

definition bfs_inv :: "succs \<Rightarrow> NodeID \<Rightarrow> nat \<Rightarrow> NodeID list \<Rightarrow> entry list \<Rightarrow> entry list \<Rightarrow> bool" where
  "bfs_inv S s k V a b \<longleftrightarrow>
     (\<forall>vp \<in> set a. shortest S s vp \<and> length (snd vp) = k) \<and> (\<forall>vp \<in> set b. shortest S s vp \<and> length (snd vp) = Suc k) \<and>
     (\<forall>w. within S s k w \<longrightarrow> w \<in> set V) \<and> (\<forall>w \<in> set V. within S s (Suc k) w) \<and>
     (\<forall>w \<in> set V. \<not> within S s k w \<longrightarrow> w \<in> fst ` set b) \<and>
     (\<forall>w. w \<notin> set V \<and> within S s (Suc k) w \<longrightarrow> (\<exists>u \<in> fst ` set a. w \<in> snd ` set (S u)))"

lemma bfs_inv_start: "bfs_inv S s 0 [s] [(s, [])] []"
proof -
  have "\<exists>u \<in> fst ` set [(s, [] :: Edge list)]. w \<in> snd ` set (S u)" if "w \<notin> set [s]" "within S s (Suc 0) w" for w
    using within_Suc_cases [OF that(2)] that(1) by (force simp: within_0)
  moreover have "shortest S s (s, [])" by (simp add: shortest_def walk_Nil)
  ultimately show ?thesis by (auto simp: bfs_inv_def within_0 intro: within_mono [of S s 0])
qed

lemma bfs_inv_shift:
  assumes inv: "bfs_inv S s k V [] b"
  shows "bfs_inv S s (Suc k) V b []"
proof -
  have c: "w \<in> set V" if "within S s (Suc k) w" for w using inv that unfolding bfs_inv_def by auto
  have f: "\<exists>u \<in> fst ` set b. w \<in> snd ` set (S u)" if w: "w \<notin> set V" "within S s (Suc (Suc k)) w" for w
  proof -
    obtain u e where u: "within S s (Suc k) u" "(e, w) \<in> set (S u)" using within_Suc_cases [OF w(2)] c w(1) by blast
    have "\<not> within S s k u" using within_step [of S s k u e w] u(2) c w(1) by blast
    then have "u \<in> fst ` set b" using inv c [OF u(1)] unfolding bfs_inv_def by blast
    then show ?thesis using u(2) by (metis image_eqI snd_conv)
  qed
  have "\<forall>w \<in> set V. within S s (Suc k) w" using inv unfolding bfs_inv_def by blast
  then show ?thesis using inv c f within_mono [of S s "Suc k" _ "Suc (Suc k)"] unfolding bfs_inv_def by auto
qed

lemma bfs_inv_step:
  assumes inv: "bfs_inv S s k V ((u, p) # a) b" and d: "discover p (S u) V = (new, V')"
  shows "bfs_inv S s k V' a (b @ new)"
proof -
  note V' = discover_visited [OF d] and n = discover_entries [OF d]
  note i = inv [unfolded bfs_inv_def]
  have up: "walk S s p u" "length p = k" using i by (auto simp: shortest_def)
  then have u: "within S s k u" by (auto simp: within_def)
  have new: "shortest S s vp \<and> length (snd vp) = Suc k" if h: "vp \<in> set new" for vp
  proof -
    obtain v q where vp: "vp = (v, q)" by (cases vp)
    obtain e where e: "(e, v) \<in> set (S u)" "q = p @ [e]" using n(3) h vp by blast
    have "v \<notin> set V" using n(2) h vp by (metis DiffD2 fst_conv image_eqI)
    then have "\<not> within S s k v" using i by blast
    then have "\<not> within S s m v" if "m < length q" for m using within_mono [of S s m v k] that e up by auto
    then show ?thesis using shortestI [of S s q v] walk_snoc [OF up(1) e(1)] e up vp by simp
  qed
  have "within S s (Suc k) w" if "w \<in> set V'" for w
    using that V' i within_step [of S s k u] u by (auto simp: image_iff)
  moreover have "w \<in> fst ` set (b @ new)" if w: "w \<in> set V'" "\<not> within S s k w" for w
  proof (cases "w \<in> set V")
    case True
    then show ?thesis using i w(2) by (auto simp: image_iff)
  next
    case False
    then have "w \<in> fst ` set new" using n(2) V' w(1) by simp
    then show ?thesis by auto
  qed
  moreover have "\<exists>x \<in> fst ` set a. w \<in> snd ` set (S x)" if w: "w \<notin> set V'" "within S s (Suc k) w" for w
  proof -
    have "w \<notin> set V" "w \<notin> snd ` set (S u)" using w(1) V' by auto
    then obtain x where "x \<in> fst ` set ((u, p) # a)" "w \<in> snd ` set (S x)" using i w(2) by blast
    then show ?thesis using \<open>w \<notin> snd ` set (S u)\<close> by auto
  qed
  ultimately show ?thesis using i new V' unfolding bfs_inv_def by auto
qed

lemma bfs_inv_done:
  assumes "bfs_inv S s k V [] []" and "within S s n w"
  shows "w \<in> set V"
proof -
  have inv: "bfs_inv S s (k + m) V [] []" for m
    by (induction m) (use assms(1) bfs_inv_shift in auto)
  have "within S s (k + n) w" by (rule within_mono [OF assms(2)]) simp
  then show ?thesis using inv [of n] unfolding bfs_inv_def by blast
qed

lemma bfsOrder_limit:
  "0 \<le> m \<Longrightarrow> \<forall>vp \<in> set q. m \<le> int (length (snd vp)) \<Longrightarrow> bfsOrder S m V q = []"
  by (induction q) auto

definition depth_ok :: "int \<Rightarrow> nat \<Rightarrow> bool" where
  "depth_ok m n \<longleftrightarrow> m < 0 \<or> int n \<le> m"

lemma bfsOrder_exact:
  assumes "bfs_inv S s k V a b" and "q = a @ b"
  shows "distinct (map fst (bfsOrder S m V q)) \<and> fst ` set (bfsOrder S m V q) \<inter> set V = {} \<and>
    (\<forall>vp \<in> set (bfsOrder S m V q). shortest S s vp \<and> depth_ok m (length (snd vp)) \<and> k < length (snd vp)) \<and>
    sorted (map (\<lambda>vp. length (snd vp)) (bfsOrder S m V q)) \<and>
    (\<forall>w n. w \<notin> set V \<and> within S s n w \<and> depth_ok m n \<longrightarrow> w \<in> fst ` set (bfsOrder S m V q))"
  using assms
proof (induction S m V q arbitrary: k a b rule: bfsOrder.induct)
  case (1 S m V)
  then show ?case using bfs_inv_done [of S s k V] by auto
next
  case (2 S m V u p q)
  have "\<exists>k' a' b'. k \<le> k' \<and> bfs_inv S s k' V ((u, p) # a') b' \<and> q = a' @ b'"
  proof (cases a)
    case Nil
    then have "b = (u, p) # q" using "2.prems"(2) by simp
    then show ?thesis using bfs_inv_shift "2.prems"(1) Nil by (intro exI [of _ "Suc k"] exI [of _ q] exI [of _ "[]"]) simp
  next
    case (Cons x a')
    then show ?thesis using "2.prems" by auto
  qed
  then obtain k' a' b' where k: "k \<le> k'" and inv: "bfs_inv S s k' V ((u, p) # a') b'" and q: "q = a' @ b'" by blast
  note i = inv [unfolded bfs_inv_def]
  have lp: "length p = k'" using i by simp
  show ?case
  proof (cases "0 \<le> m \<and> m \<le> int (length p)")
    case True
    then have "bfsOrder S m V q = []" using i lp by (intro bfsOrder_limit) (auto simp: q)
    moreover have "w \<in> set V" if "within S s n w" "depth_ok m n" for w n
    proof -
      have "n \<le> k'" using that(2) True lp by (auto simp: depth_ok_def)
      then show ?thesis using within_mono [OF that(1)] i by blast
    qed
    ultimately show ?thesis using True by auto
  next
    case False
    obtain new V' where d: "discover p (S u) V = (new, V')" by fastforce
    let ?r = "bfsOrder S m V' (q @ new)"
    have out: "bfsOrder S m V ((u, p) # q) = new @ ?r" using False d by auto
    have "bfs_inv S s k' V' a' (b' @ new)" by (rule bfs_inv_step [OF inv d])
    then have st: "\<forall>vp \<in> set new. shortest S s vp \<and> length (snd vp) = Suc k'" unfolding bfs_inv_def by simp
    have IH: "distinct (map fst ?r)" "fst ` set ?r \<inter> set V' = {}"
        "\<forall>vp \<in> set ?r. shortest S s vp \<and> depth_ok m (length (snd vp)) \<and> k' < length (snd vp)" "sorted (map (\<lambda>vp. length (snd vp)) ?r)"
        "\<forall>w n. w \<notin> set V' \<and> within S s n w \<and> depth_ok m n \<longrightarrow> w \<in> fst ` set ?r"
      using "2.IH"(2) [OF False d [symmetric] refl \<open>bfs_inv S s k' V' a' (b' @ new)\<close>] q by simp_all
    note V' = discover_visited [OF d] and n = discover_entries [OF d]
    have lim: "depth_ok m (Suc k')" using False lp by (auto simp: depth_ok_def)
    have "distinct (map fst (new @ ?r))" using n(1,2) V' IH(1,2) by auto
    moreover have "fst ` set (new @ ?r) \<inter> set V = {}" using n(2) V' IH(2) by auto
    moreover have "\<forall>vp \<in> set (new @ ?r). shortest S s vp \<and> depth_ok m (length (snd vp)) \<and> k < length (snd vp)"
      using st IH(3) lim k by auto
    moreover have "sorted (map (\<lambda>vp. length (snd vp)) (new @ ?r))"
    proof -
      have "map (\<lambda>vp. length (snd vp)) new = replicate (length new) (Suc k')" using st by (intro replicate_eqI) auto
      then show ?thesis using IH(3,4) by (auto simp: sorted_append sorted_replicate)
    qed
    moreover have "w \<in> fst ` set (new @ ?r)" if "w \<notin> set V" "within S s j w" "depth_ok m j" for w j
    proof (cases "w \<in> set V'")
      case True
      then have "w \<in> fst ` set new" using n(2) V' that(1) by simp
      then show ?thesis by auto
    next
      case False
      then show ?thesis using IH(5) that by auto
    qed
    ultimately show ?thesis unfolding out by blast
  qed
qed

declare bfsOrder.simps(2) [simp del]

text \<open>The search from a node: the node itself first.\<close>

definition bfsFrom :: "succs \<Rightarrow> int \<Rightarrow> NodeID \<Rightarrow> entry list" where
  "bfsFrom S m s = (s, []) # bfsOrder S m [s] [(s, [])]"

lemma bfsFrom_exact:
  shows "distinct (map fst (bfsFrom S m s))" and "\<forall>vp \<in> set (bfsFrom S m s). shortest S s vp"
    and "sorted (map (\<lambda>vp. length (snd vp)) (bfsFrom S m s))"
    and "v \<in> fst ` set (bfsFrom S m s) \<longleftrightarrow> v = s \<or> (\<exists>n. within S s n v \<and> depth_ok m n)"
proof -
  note e = bfsOrder_exact [OF bfs_inv_start refl, of S m s]
  let ?q = "[(s, [])] @ []" and ?r = "bfsOrder S m [s] ([(s, [])] @ [])"
  have r: "distinct (map fst ?r)" "s \<notin> fst ` set ?r" "\<forall>vp \<in> set ?r. shortest S s vp \<and> depth_ok m (length (snd vp))"
    "sorted (map (\<lambda>vp. length (snd vp)) ?r)" "\<forall>w n. w \<noteq> s \<and> within S s n w \<and> depth_ok m n \<longrightarrow> w \<in> fst ` set ?r"
    using e by auto
  show "distinct (map fst (bfsFrom S m s))" using r by (simp add: bfsFrom_def)
  show "\<forall>vp \<in> set (bfsFrom S m s). shortest S s vp" using r by (simp add: bfsFrom_def shortest_def walk_Nil)
  show "sorted (map (\<lambda>vp. length (snd vp)) (bfsFrom S m s))" using r by (simp add: bfsFrom_def)
  show "v \<in> fst ` set (bfsFrom S m s) \<longleftrightarrow> v = s \<or> (\<exists>n. within S s n v \<and> depth_ok m n)"
  proof
    assume "v \<in> fst ` set (bfsFrom S m s)"
    then consider "v = s" | vp where "vp \<in> set ?r" "v = fst vp" by (auto simp: bfsFrom_def)
    then show "v = s \<or> (\<exists>n. within S s n v \<and> depth_ok m n)"
      using r(3) unfolding shortest_def within_def by cases (blast, metis order_refl)
  next
    assume "v = s \<or> (\<exists>n. within S s n v \<and> depth_ok m n)"
    then show "v \<in> fst ` set (bfsFrom S m s)" using r(5) by (auto simp: bfsFrom_def)
  qed
qed

section \<open>Depth first\<close>

text \<open>The edges of a node are taken in reverse; the stack is a list with its top first.\<close>

function dfsOrder :: "succs \<Rightarrow> int \<Rightarrow> NodeID list \<Rightarrow> entry list \<Rightarrow> entry list" where
  "dfsOrder S maxDepth V [] = []"
| "dfsOrder S maxDepth V ((u, p) # st) =
     (if 0 \<le> maxDepth \<and> maxDepth \<le> int (length p) then dfsOrder S maxDepth V st
      else let (new, V') = discover p (rev (S u)) V in new @ dfsOrder S maxDepth V' (rev new @ st))"
  by pat_completeness auto
termination
  by (relation "measure (\<lambda>(S, m, V, q). 2 * card (- set V) + length q)") (auto dest!: discover_count [OF sym])

definition dfsFrom :: "succs \<Rightarrow> int \<Rightarrow> NodeID \<Rightarrow> entry list" where
  "dfsFrom S m s = (s, []) # dfsOrder S m [s] [(s, [])]"

lemma dfsOrder_sound:
  assumes "\<forall>vp \<in> set st. walk S s (snd vp) (fst vp)"
  shows "distinct (map fst (dfsOrder S m V st)) \<and> fst ` set (dfsOrder S m V st) \<inter> set V = {} \<and>
    (\<forall>vp \<in> set (dfsOrder S m V st). walk S s (snd vp) (fst vp) \<and> depth_ok m (length (snd vp)))"
  using assms
proof (induction S m V st rule: dfsOrder.induct)
  case (2 S m V u p st)
  show ?case
  proof (cases "0 \<le> m \<and> m \<le> int (length p)")
    case True
    then show ?thesis using "2.IH"(1) [OF True] "2.prems" by simp
  next
    case False
    obtain new V' where d: "discover p (rev (S u)) V = (new, V')" by fastforce
    let ?r = "dfsOrder S m V' (rev new @ st)"
    have out: "dfsOrder S m V ((u, p) # st) = new @ ?r" using False d by auto
    note V' = discover_visited [OF d] and n = discover_entries [OF d]
    have new: "\<forall>vp \<in> set new. walk S s (snd vp) (fst vp) \<and> length (snd vp) = Suc (length p)"
    proof
      fix vp assume "vp \<in> set new"
      then obtain e where "(e, fst vp) \<in> set (rev (S u))" "snd vp = p @ [e]" using n(3) [of "fst vp" "snd vp"] by auto
      then show "walk S s (snd vp) (fst vp) \<and> length (snd vp) = Suc (length p)" using walk_snoc [of S s p u] "2.prems" by auto
    qed
    have "\<forall>vp \<in> set (rev new @ st). walk S s (snd vp) (fst vp)" using new "2.prems" by auto
    from "2.IH"(2) [OF False d [symmetric] refl this]
    have IH: "distinct (map fst ?r)" "fst ` set ?r \<inter> set V' = {}" "\<forall>vp \<in> set ?r. walk S s (snd vp) (fst vp) \<and> depth_ok m (length (snd vp))" by blast+
    have "distinct (map fst (new @ ?r))" using n(1,2) V' IH(1,2) by auto
    moreover have "fst ` set (new @ ?r) \<inter> set V = {}" using n(2) V' IH(2) by auto
    moreover have "\<forall>vp \<in> set (new @ ?r). walk S s (snd vp) (fst vp) \<and> depth_ok m (length (snd vp))"
      using new IH(3) False by (auto simp: depth_ok_def)
    ultimately show ?thesis unfolding out by blast
  qed
qed simp

lemma dfsOrder_closed:
  assumes "m < 0" and "\<forall>v \<in> set V. v \<in> fst ` set st \<or> snd ` set (S v) \<subseteq> set V"
  shows "\<forall>v \<in> set V \<union> fst ` set (dfsOrder S m V st). snd ` set (S v) \<subseteq> set V \<union> fst ` set (dfsOrder S m V st)"
  using assms
proof (induction S m V st rule: dfsOrder.induct)
  case (2 S m V u p st)
  have lim: "\<not> (0 \<le> m \<and> m \<le> int (length p))" using "2.prems"(1) by simp
  obtain new V' where d: "discover p (rev (S u)) V = (new, V')" by fastforce
  let ?r = "dfsOrder S m V' (rev new @ st)"
  have out: "dfsOrder S m V ((u, p) # st) = new @ ?r" using lim d by auto
  note V' = discover_visited [OF d] and n = discover_entries [OF d]
  have "\<forall>v \<in> set V'. v \<in> fst ` set (rev new @ st) \<or> snd ` set (S v) \<subseteq> set V'"
  proof
    fix v assume v: "v \<in> set V'"
    show "v \<in> fst ` set (rev new @ st) \<or> snd ` set (S v) \<subseteq> set V'"
    proof (cases "v \<in> set V")
      case True
      then consider "v = u" | "v \<in> fst ` set st" | "snd ` set (S v) \<subseteq> set V" using "2.prems"(2) by fastforce
      then show ?thesis using V' by cases auto
    next
      case False
      then have "v \<in> fst ` set new" using n(2) V' v by simp
      then show ?thesis by auto
    qed
  qed
  from "2.IH"(2) [OF lim d [symmetric] refl "2.prems"(1) this]
  have "\<forall>v \<in> set V' \<union> fst ` set ?r. snd ` set (S v) \<subseteq> set V' \<union> fst ` set ?r" .
  moreover have "set V' = set V \<union> fst ` set new" using n(2) V' by auto
  ultimately show ?case unfolding out by (simp add: Un_assoc image_Un)
qed auto

lemma closed_walk: "walk S s p v \<Longrightarrow> s \<in> X \<Longrightarrow> \<forall>v \<in> X. snd ` set (S v) \<subseteq> X \<Longrightarrow> v \<in> X"
  by (induction rule: walk.induct) force+

declare dfsOrder.simps(2) [simp del]

lemma dfsFrom_exact:
  shows "distinct (map fst (dfsFrom S m s))" and "\<forall>vp \<in> set (dfsFrom S m s). walk S s (snd vp) (fst vp) \<and> depth_ok m (length (snd vp))"
    and "m < 0 \<Longrightarrow> v \<in> fst ` set (dfsFrom S m s) \<longleftrightarrow> (\<exists>p. walk S s p v)"
proof -
  let ?r = "dfsOrder S m [s] [(s, [])]"
  have snd: "distinct (map fst ?r)" "fst ` set ?r \<inter> set [s] = {}" "\<forall>vp \<in> set ?r. walk S s (snd vp) (fst vp) \<and> depth_ok m (length (snd vp))"
    using dfsOrder_sound [of "[(s, [])]" S s m "[s]"] by (auto simp: walk_Nil)
  show "distinct (map fst (dfsFrom S m s))" using snd(1,2) by (auto simp: dfsFrom_def)
  show walks: "\<forall>vp \<in> set (dfsFrom S m s). walk S s (snd vp) (fst vp) \<and> depth_ok m (length (snd vp))"
    using snd(3) by (auto simp: dfsFrom_def walk_Nil depth_ok_def)
  show "v \<in> fst ` set (dfsFrom S m s) \<longleftrightarrow> (\<exists>p. walk S s p v)" if m: "m < 0"
  proof
    assume "v \<in> fst ` set (dfsFrom S m s)"
    then show "\<exists>p. walk S s p v" using walks by auto
  next
    assume "\<exists>p. walk S s p v"
    then obtain p where w: "walk S s p v" by blast
    have "\<forall>v \<in> set [s] \<union> fst ` set ?r. snd ` set (S v) \<subseteq> set [s] \<union> fst ` set ?r"
      by (rule dfsOrder_closed [OF m]) simp
    then have "v \<in> set [s] \<union> fst ` set ?r" by (intro closed_walk [OF w]) auto
    then show "v \<in> fst ` set (dfsFrom S m s)" by (auto simp: dfsFrom_def)
  qed
qed

end
