(* ===== verification/Traversal.thy ===== *)
theory Traversal
  imports System Search
begin

text \<open>
  The traversals of traversal.go on the database: breadth-first and depth-first search with an edge
  filter, a depth limit and a visitor that may stop the search, and their collecting wrappers. A visitor
  is a function on a state of its own. Reading nodes moves the cache, so the database is threaded through.
  The loops are compared with the storage-free searches of the theory Search.
\<close>

record TraversalResult =
  tr_Node :: Node
  tr_Depth :: int
  tr_Path :: "Edge list"

type_synonym EdgeFilter = "(Edge \<Rightarrow> bool) option"
type_synonym 's Visitor = "TraversalResult \<Rightarrow> 's \<Rightarrow> bool \<times> 's"

definition passes :: "EdgeFilter \<Rightarrow> Edge \<Rightarrow> bool" where
  "passes flt e = (case flt of None \<Rightarrow> True | Some f \<Rightarrow> f e)"

definition targetOf :: "Direction \<Rightarrow> NodeID \<Rightarrow> Edge \<Rightarrow> NodeID" where
  "targetOf dir u e = (if dir = Incoming then e_from e
     else if dir = Both then (if e_to e = u then e_from e else e_to e) else e_to e)"

section \<open>Breadth-first search\<close>

text \<open>
  The body of the loop over the edges of one queue entry. The state is the marked nodes, the paths, the
  queue, the visitor's state and the database; the first component says whether the visitor stopped.
\<close>

fun bfsEdges :: "'b bolt \<Rightarrow> codec \<Rightarrow> Direction \<Rightarrow> EdgeFilter \<Rightarrow> 's Visitor \<Rightarrow> NodeID \<times> int \<Rightarrow> Edge list \<Rightarrow>
    NodeID list \<Rightarrow> (NodeID \<times> Edge list) list \<Rightarrow> (NodeID \<times> int) list \<Rightarrow> 's \<Rightarrow> 'b DB \<Rightarrow>
    bool \<times> NodeID list \<times> (NodeID \<times> Edge list) list \<times> (NodeID \<times> int) list \<times> 's \<times> 'b DB" where
  "bfsEdges B C dir flt visitor ent [] visited pathTo queue st db = (False, visited, pathTo, queue, st, db)"
| "bfsEdges B C dir flt visitor ent (edge # edges) visited pathTo queue st db =
     (if \<not> passes flt edge then bfsEdges B C dir flt visitor ent edges visited pathTo queue st db
      else let targetID = targetOf dir (fst ent) edge
           in if targetID \<in> set visited then bfsEdges B C dir flt visitor ent edges visited pathTo queue st db
              else let visited' = targetID # visited;
                       edgePath = (case map_of pathTo (fst ent) of None \<Rightarrow> [] | Some p \<Rightarrow> p) @ [edge];
                       pathTo' = (targetID, edgePath) # pathTo
                   in case getNode B C targetID db of
                        (Inl _, db1) \<Rightarrow> bfsEdges B C dir flt visitor ent edges visited' pathTo' queue st db1
                      | (Inr node, db1) \<Rightarrow>
                          (case visitor \<lparr>tr_Node = node, tr_Depth = snd ent + 1, tr_Path = edgePath\<rparr> st of
                             (False, st') \<Rightarrow> (True, visited', pathTo', queue, st', db1)
                           | (True, st') \<Rightarrow> bfsEdges B C dir flt visitor ent edges visited' pathTo'
                                              (queue @ [(targetID, snd ent + 1)]) st' db1))"

lemma bfsEdges_measure:
  "bfsEdges B C dir flt visitor ent edges visited pathTo queue st db = (stop, visited', pathTo', queue', st', db') \<Longrightarrow>
   2 * card (- set visited') + length queue' \<le> 2 * card (- set visited) + length queue"
proof (induction edges arbitrary: visited pathTo queue st db)
  case (Cons edge edges)
  let ?t = "targetOf dir (fst ent) edge"
  show ?case
  proof (cases "passes flt edge \<and> ?t \<notin> set visited")
    case True
    have "Suc (card (- set (?t # visited))) = card (- set visited)" using True by (intro card_mark) simp
    then show ?thesis using Cons.prems True
      by (fastforce simp: Let_def split: prod.splits sum.splits bool.splits dest!: Cons.IH)
  next
    case False
    then show ?thesis using Cons.prems Cons.IH by (auto simp: Let_def split: if_splits)
  qed
qed simp

function bfsLoop :: "'b bolt \<Rightarrow> codec \<Rightarrow> int \<Rightarrow> Direction \<Rightarrow> EdgeFilter \<Rightarrow> 's Visitor \<Rightarrow>
    NodeID list \<Rightarrow> (NodeID \<times> Edge list) list \<Rightarrow> (NodeID \<times> int) list \<Rightarrow> 's \<Rightarrow> 'b DB \<Rightarrow> (gerr + unit) \<times> 's \<times> 'b DB" where
  "bfsLoop B C maxDepth dir flt visitor visited pathTo [] st db = (Inr (), st, db)"
| "bfsLoop B C maxDepth dir flt visitor visited pathTo (ent # queue) st db =
     (if 0 \<le> maxDepth \<and> maxDepth \<le> snd ent then bfsLoop B C maxDepth dir flt visitor visited pathTo queue st db
      else case getEdgesForNode B C (fst ent) dir db of
             Inl e \<Rightarrow> (Inl e, st, db)
           | Inr edges \<Rightarrow>
               (case bfsEdges B C dir flt visitor ent edges visited pathTo queue st db of
                  (stop, visited', pathTo', queue', st', db') \<Rightarrow>
                    if stop then (Inr (), st', db')
                    else bfsLoop B C maxDepth dir flt visitor visited' pathTo' queue' st' db'))"
  by pat_completeness auto
termination
  by (relation "measure (\<lambda>(B, C, m, dir, flt, vis, visited, pathTo, queue, st, db). 2 * card (- set visited) + length queue)")
    (auto dest!: bfsEdges_measure [OF sym])

definition BFS :: "'b bolt \<Rightarrow> codec \<Rightarrow> NodeID \<Rightarrow> int \<Rightarrow> Direction \<Rightarrow> EdgeFilter \<Rightarrow> 's Visitor \<Rightarrow> 's \<Rightarrow> 'b DB \<Rightarrow> (gerr + unit) \<times> 's \<times> 'b DB" where
  "BFS B C startID maxDepth dir flt visitor st db =
     (if db_closed db then (Inl ErrClosed, st, db)
      else case getNode B C startID db of
             (Inl e, db1) \<Rightarrow> (Inl e, st, db1)
           | (Inr startNode, db1) \<Rightarrow>
               (case visitor \<lparr>tr_Node = startNode, tr_Depth = 0, tr_Path = []\<rparr> st of
                  (False, st') \<Rightarrow> (Inr (), st', db1)
                | (True, st') \<Rightarrow> bfsLoop B C maxDepth dir flt visitor [startID] [(startID, [])] [(startID, 0)] st' db1))"

section \<open>Depth-first search\<close>

text \<open>The edges of an entry are taken in reverse; the stack is a list with its top at the head.\<close>

fun dfsEdges :: "'b bolt \<Rightarrow> codec \<Rightarrow> Direction \<Rightarrow> EdgeFilter \<Rightarrow> 's Visitor \<Rightarrow> NodeID \<times> int \<times> Edge list \<Rightarrow> Edge list \<Rightarrow>
    NodeID list \<Rightarrow> (NodeID \<times> int \<times> Edge list) list \<Rightarrow> 's \<Rightarrow> 'b DB \<Rightarrow>
    bool \<times> NodeID list \<times> (NodeID \<times> int \<times> Edge list) list \<times> 's \<times> 'b DB" where
  "dfsEdges B C dir flt visitor ent [] visited stack st db = (False, visited, stack, st, db)"
| "dfsEdges B C dir flt visitor (u, depth, path) (edge # edges) visited stack st db =
     (if \<not> passes flt edge then dfsEdges B C dir flt visitor (u, depth, path) edges visited stack st db
      else let targetID = targetOf dir u edge
           in if targetID \<in> set visited then dfsEdges B C dir flt visitor (u, depth, path) edges visited stack st db
              else let visited' = targetID # visited; edgePath = path @ [edge]
                   in case getNode B C targetID db of
                        (Inl _, db1) \<Rightarrow> dfsEdges B C dir flt visitor (u, depth, path) edges visited' stack st db1
                      | (Inr node, db1) \<Rightarrow>
                          (case visitor \<lparr>tr_Node = node, tr_Depth = depth + 1, tr_Path = edgePath\<rparr> st of
                             (False, st') \<Rightarrow> (True, visited', stack, st', db1)
                           | (True, st') \<Rightarrow> dfsEdges B C dir flt visitor (u, depth, path) edges visited'
                                              ((targetID, depth + 1, edgePath) # stack) st' db1))"

lemma dfsEdges_measure:
  "dfsEdges B C dir flt visitor ent edges visited stack st db = (stop, visited', stack', st', db') \<Longrightarrow>
   2 * card (- set visited') + length stack' \<le> 2 * card (- set visited) + length stack"
proof (induction B C dir flt visitor ent edges visited stack st db rule: dfsEdges.induct)
  case (2 B C dir flt visitor u depth path edge edges visited stack st db)
  let ?t = "targetOf dir u edge"
  show ?case
  proof (cases "passes flt edge \<and> ?t \<notin> set visited")
    case True
    have "Suc (card (- set (?t # visited))) = card (- set visited)" using True by (intro card_mark) simp
    then show ?thesis using "2.prems" "2.IH"(3,4) True
      by (fastforce simp: Let_def split: prod.splits sum.splits bool.splits)
  next
    case False
    then show ?thesis using "2.prems" "2.IH"(1,2) by (auto simp: Let_def split: if_splits)
  qed
qed simp

function dfsLoop :: "'b bolt \<Rightarrow> codec \<Rightarrow> int \<Rightarrow> Direction \<Rightarrow> EdgeFilter \<Rightarrow> 's Visitor \<Rightarrow>
    NodeID list \<Rightarrow> (NodeID \<times> int \<times> Edge list) list \<Rightarrow> 's \<Rightarrow> 'b DB \<Rightarrow> (gerr + unit) \<times> 's \<times> 'b DB" where
  "dfsLoop B C maxDepth dir flt visitor visited [] st db = (Inr (), st, db)"
| "dfsLoop B C maxDepth dir flt visitor visited ((u, depth, path) # stack) st db =
     (if 0 \<le> maxDepth \<and> maxDepth \<le> depth then dfsLoop B C maxDepth dir flt visitor visited stack st db
      else case getEdgesForNode B C u dir db of
             Inl e \<Rightarrow> (Inl e, st, db)
           | Inr edges \<Rightarrow>
               (case dfsEdges B C dir flt visitor (u, depth, path) (rev edges) visited stack st db of
                  (stop, visited', stack', st', db') \<Rightarrow>
                    if stop then (Inr (), st', db')
                    else dfsLoop B C maxDepth dir flt visitor visited' stack' st' db'))"
  by pat_completeness auto
termination
  by (relation "measure (\<lambda>(B, C, m, dir, flt, vis, visited, stack, st, db). 2 * card (- set visited) + length stack)")
    (auto dest!: dfsEdges_measure [OF sym])

definition DFS :: "'b bolt \<Rightarrow> codec \<Rightarrow> NodeID \<Rightarrow> int \<Rightarrow> Direction \<Rightarrow> EdgeFilter \<Rightarrow> 's Visitor \<Rightarrow> 's \<Rightarrow> 'b DB \<Rightarrow> (gerr + unit) \<times> 's \<times> 'b DB" where
  "DFS B C startID maxDepth dir flt visitor st db =
     (if db_closed db then (Inl ErrClosed, st, db)
      else case getNode B C startID db of
             (Inl e, db1) \<Rightarrow> (Inl e, st, db1)
           | (Inr startNode, db1) \<Rightarrow>
               (case visitor \<lparr>tr_Node = startNode, tr_Depth = 0, tr_Path = []\<rparr> st of
                  (False, st') \<Rightarrow> (Inr (), st', db1)
                | (True, st') \<Rightarrow> dfsLoop B C maxDepth dir flt visitor [startID] [(startID, 0, [])] st' db1))"

section \<open>Collecting wrappers\<close>

definition collecting :: "(Node \<Rightarrow> bool) option \<Rightarrow> TraversalResult list Visitor" where
  "collecting nf r results = (True, if (case nf of None \<Rightarrow> True | Some f \<Rightarrow> f (tr_Node r)) then results @ [r] else results)"

definition collected :: "(gerr + unit) \<times> TraversalResult list \<times> 'b DB \<Rightarrow> (TraversalResult list \<times> gerr option) \<times> 'b DB" where
  "collected r = (case r of (res, results, db) \<Rightarrow> ((results, case res of Inl e \<Rightarrow> Some e | Inr _ \<Rightarrow> None), db))"

definition BFSCollect :: "'b bolt \<Rightarrow> codec \<Rightarrow> NodeID \<Rightarrow> int \<Rightarrow> Direction \<Rightarrow> 'b DB \<Rightarrow> (TraversalResult list \<times> gerr option) \<times> 'b DB" where
  "BFSCollect B C startID maxDepth dir db = collected (BFS B C startID maxDepth dir None (collecting None) [] db)"

definition DFSCollect :: "'b bolt \<Rightarrow> codec \<Rightarrow> NodeID \<Rightarrow> int \<Rightarrow> Direction \<Rightarrow> 'b DB \<Rightarrow> (TraversalResult list \<times> gerr option) \<times> 'b DB" where
  "DFSCollect B C startID maxDepth dir db = collected (DFS B C startID maxDepth dir None (collecting None) [] db)"

definition BFSFiltered :: "'b bolt \<Rightarrow> codec \<Rightarrow> NodeID \<Rightarrow> int \<Rightarrow> Direction \<Rightarrow> EdgeFilter \<Rightarrow> (Node \<Rightarrow> bool) option \<Rightarrow> 'b DB \<Rightarrow> (TraversalResult list \<times> gerr option) \<times> 'b DB" where
  "BFSFiltered B C startID maxDepth dir flt nf db = collected (BFS B C startID maxDepth dir flt (collecting nf) [] db)"

definition DFSFiltered :: "'b bolt \<Rightarrow> codec \<Rightarrow> NodeID \<Rightarrow> int \<Rightarrow> Direction \<Rightarrow> EdgeFilter \<Rightarrow> (Node \<Rightarrow> bool) option \<Rightarrow> 'b DB \<Rightarrow> (TraversalResult list \<times> gerr option) \<times> 'b DB" where
  "DFSFiltered B C startID maxDepth dir flt nf db = collected (DFS B C startID maxDepth dir flt (collecting nf) [] db)"

section \<open>Reading the graph\<close>

definition succOf :: "'b bolt \<Rightarrow> codec \<Rightarrow> Direction \<Rightarrow> EdgeFilter \<Rightarrow> 'b DB \<Rightarrow> succs" where
  "succOf B C dir flt db u = (case getEdgesForNode B C u dir db of Inl _ \<Rightarrow> []
     | Inr es \<Rightarrow> map (\<lambda>e. (e, targetOf dir u e)) (filter (passes flt) es))"

definition node_of :: "codec \<Rightarrow> graph_nodes \<Rightarrow> NodeID \<Rightarrow> Node \<Rightarrow> bool" where
  "node_of C N i n \<longleftrightarrow> (\<exists>x. N i = Some x \<and> n_id n = i \<and> n_labels n = fst x \<and> text_eq C (snd x) (n_props n))"

text \<open>A result of a traversal for an entry of the search.\<close>

definition tmatch :: "codec \<Rightarrow> graph_nodes \<Rightarrow> TraversalResult \<Rightarrow> entry \<Rightarrow> bool" where
  "tmatch C N r vp \<longleftrightarrow> node_of C N (fst vp) (tr_Node r) \<and> tr_Path r = snd vp \<and> tr_Depth r = int (length (snd vp))"

text \<open>Reads move nothing but the node cache.\<close>

definition reading :: "'b bolt \<Rightarrow> codec \<Rightarrow> graph_nodes \<Rightarrow> graph_edges \<Rightarrow> 'b DB \<Rightarrow> 'b DB \<Rightarrow> bool" where
  "reading B C N G db0 db \<longleftrightarrow> (\<exists>c. db = db0\<lparr>db_ncache := c\<rparr>) \<and> graph_inv B C db N G \<and> \<not> db_closed db"

lemma edges_ncache [simp]: "getEdgesForNode B C u dir (db\<lparr>db_ncache := c\<rparr>) = getEdgesForNode B C u dir db"
  by (simp add: getEdgesForNode_def viewing_def collectIncoming_def shardFor_def shardForEdge_def Let_def)

lemma reading_edges: "reading B C N G db0 db \<Longrightarrow> getEdgesForNode B C u dir db = getEdgesForNode B C u dir db0"
  by (auto simp: reading_def)

lemma getNode_cache: "\<exists>c. snd (getNode B C i db) = db\<lparr>db_ncache := c\<rparr>"
  by (auto simp: getNode_def Let_def split: option.splits sum.splits prod.splits)

context graph_store
begin

lemma reading_node:
  assumes r: "reading B C N G db0 db" and "N i \<noteq> None"
  shows "\<exists>n db'. getNode B C i db = (Inr n, db') \<and> reading B C N G db0 db' \<and> node_of C N i n"
proof -
  obtain res db' where op: "getNode B C i db = (res, db')" by fastforce
  have inv: "graph_inv B C db N G" and op_open: "\<not> db_closed db" using r by (auto simp: reading_def)
  note st = getNode_step [OF inv op_open op]
  obtain ls ps where N: "N i = Some (ls, ps)" using assms(2) by auto
  then obtain q where "res = Inr \<lparr>n_id = i, n_labels = ls, n_props = q\<rparr>" "text_eq C ps q" using st(3) by auto
  then have "\<exists>n. res = Inr n \<and> node_of C N i n" using N by (simp add: node_of_def)
  moreover have "reading B C N G db0 db'"
    using r st(1) getNode_cache [of B C i db] op by (auto simp: reading_def)
  ultimately show ?thesis using op by blast
qed

lemma edges_present:
  assumes inv: "graph_inv B C db N G" and "\<not> db_closed db"
  shows "\<exists>es. getEdgesForNode B C u dir db = Inr es \<and> (\<forall>e \<in> set es. N (targetOf dir u e) \<noteq> None)"
proof -
  have rep: "edges_rep B C (files db) G" and nd: "no_dangling N G" using inv by (simp_all add: graph_inv_def)
  have ends: "N (targetOf dir u e) \<noteq> None" if h: "edges_match C es G P" "e \<in> set es" for es P e
  proof -
    obtain x where "G (e_id e) = Some x" "edge_eq C x e" using h unfolding edges_match_def by blast
    then have "N (e_from e) \<noteq> None" "N (e_to e) \<noteq> None" using nd by (auto simp: no_dangling_def edge_eq_def)
    then show ?thesis by (simp add: targetOf_def)
  qed
  consider "dir = Outgoing" | "dir = Incoming" | "dir = Both" by (cases dir) auto
  then show ?thesis
    using getEdges_out [OF rep assms(2), of u] getEdges_in [OF rep assms(2), of u] getEdges_both [OF rep assms(2), of u] ends
    by cases (metis Un_iff set_append)+
qed

lemma bfsEdges_discover:
  assumes "reading B C N G db0 db" and "\<forall>e \<in> set edges. N (targetOf dir u e) \<noteq> None"
    and "map_of pathTo u = Some p" and "u \<in> set V" and "\<forall>v \<in> set V. map_of pathTo v \<noteq> None"
    and "discover p (map (\<lambda>e. (e, targetOf dir u e)) (filter (passes flt) edges)) V = (new, V')"
  shows "\<exists>pathTo' rs' db'. bfsEdges B C dir flt (collecting None) (u, int (length p)) edges V pathTo queue rs db =
      (False, V', pathTo', queue @ map (\<lambda>vp. (fst vp, int (length (snd vp)))) new, rs @ rs', db') \<and>
     reading B C N G db0 db' \<and> list_all2 (tmatch C N) rs' new \<and>
     (\<forall>v \<in> set V. map_of pathTo' v = map_of pathTo v) \<and> (\<forall>vp \<in> set new. map_of pathTo' (fst vp) = Some (snd vp)) \<and>
     (\<forall>v \<in> set V'. map_of pathTo' v \<noteq> None)"
  using assms
proof (induction edges arbitrary: V pathTo queue rs db new V')
  case (Cons e edges)
  let ?t = "targetOf dir u e"
  show ?case
  proof (cases "passes flt e \<and> ?t \<notin> set V")
    case False
    then show ?thesis using Cons by (auto simp: Let_def split: if_splits)
  next
    case True
    obtain n1 V1 where d: "discover p (map (\<lambda>e. (e, targetOf dir u e)) (filter (passes flt) edges)) (?t # V) = (n1, V1)" by fastforce
    have new: "new = (?t, p @ [e]) # n1" "V' = V1" using Cons.prems(6) True d by auto
    obtain n db1 where g: "getNode B C ?t db = (Inr n, db1)" "reading B C N G db0 db1" "node_of C N ?t n"
      using reading_node [OF Cons.prems(1)] Cons.prems(2) by (metis list.set_intros(1))
    let ?pt = "(?t, p @ [e]) # pathTo" and ?r = "\<lparr>tr_Node = n, tr_Depth = int (length p) + 1, tr_Path = p @ [e]\<rparr>"
    have tu: "?t \<noteq> u" using True Cons.prems(4) by auto
    have pre: "\<forall>e \<in> set edges. N (targetOf dir u e) \<noteq> None" "map_of ?pt u = Some p" "u \<in> set (?t # V)" "\<forall>v \<in> set (?t # V). map_of ?pt v \<noteq> None"
      using Cons.prems(2-5) tu by (simp_all del: not_None_eq)
    obtain pt' rs' db' where IH: "bfsEdges B C dir flt (collecting None) (u, int (length p)) edges (?t # V) ?pt (queue @ [(?t, int (length p) + 1)]) (rs @ [?r]) db1 =
        (False, V1, pt', (queue @ [(?t, int (length p) + 1)]) @ map (\<lambda>vp. (fst vp, int (length (snd vp)))) n1, (rs @ [?r]) @ rs', db')"
      "reading B C N G db0 db'" "list_all2 (tmatch C N) rs' n1" "\<forall>v \<in> set (?t # V). map_of pt' v = map_of ?pt v"
      "\<forall>vp \<in> set n1. map_of pt' (fst vp) = Some (snd vp)" "\<forall>v \<in> set V1. map_of pt' v \<noteq> None"
      using Cons.IH [OF g(2) pre d, of "queue @ [(?t, int (length p) + 1)]" "rs @ [?r]"] by blast
    have "bfsEdges B C dir flt (collecting None) (u, int (length p)) (e # edges) V pathTo queue rs db =
        (False, V', pt', queue @ map (\<lambda>vp. (fst vp, int (length (snd vp)))) new, rs @ (?r # rs'), db')"
      using True g(1) IH(1) Cons.prems(3) by (simp add: Let_def collecting_def new add.commute)
    moreover have "list_all2 (tmatch C N) (?r # rs') new" using IH(3) g(3) by (simp add: new tmatch_def)
    moreover have "\<forall>v \<in> set V. map_of pt' v = map_of pathTo v" using IH(4) True by auto
    moreover have "\<forall>vp \<in> set new. map_of pt' (fst vp) = Some (snd vp)" using IH(4,5) by (simp add: new)
    ultimately show ?thesis using IH(2,6) new(2) by blast
  qed
qed simp

lemma bfsLoop_order:
  assumes "reading B C N G db0 db" and "\<forall>vp \<in> set q. map_of pathTo (fst vp) = Some (snd vp) \<and> fst vp \<in> set V"
    and "\<forall>v \<in> set V. map_of pathTo v \<noteq> None" and "S = succOf B C dir flt db0"
  shows "\<exists>rs' db'. bfsLoop B C m dir flt (collecting None) V pathTo (map (\<lambda>vp. (fst vp, int (length (snd vp)))) q) rs db =
      (Inr (), rs @ rs', db') \<and> reading B C N G db0 db' \<and> list_all2 (tmatch C N) rs' (bfsOrder S m V q)"
  using assms
proof (induction S m V q arbitrary: pathTo rs db rule: bfsOrder.induct)
  case (2 S m V u p q)
  show ?case
  proof (cases "0 \<le> m \<and> m \<le> int (length p)")
    case True
    then show ?thesis using "2.IH"(1) [OF True "2.prems"(1) _ "2.prems"(3,4), of rs] "2.prems"(2) by (simp add: bfsOrder.simps(2))
  next
    case False
    have inv: "graph_inv B C db N G" "\<not> db_closed db" using "2.prems"(1) by (auto simp: reading_def)
    obtain es where es: "getEdgesForNode B C u dir db = Inr es" "\<forall>e \<in> set es. N (targetOf dir u e) \<noteq> None"
      using edges_present [OF inv] by blast
    then have S: "S u = map (\<lambda>e. (e, targetOf dir u e)) (filter (passes flt) es)"
      using reading_edges [OF "2.prems"(1), of u dir] "2.prems"(4) by (simp add: succOf_def)
    obtain new V' where d: "discover p (S u) V = (new, V')" by fastforce
    obtain pt' rs1 db1 where b: "bfsEdges B C dir flt (collecting None) (u, int (length p)) es V pathTo (map (\<lambda>vp. (fst vp, int (length (snd vp)))) q) rs db =
        (False, V', pt', map (\<lambda>vp. (fst vp, int (length (snd vp)))) q @ map (\<lambda>vp. (fst vp, int (length (snd vp)))) new, rs @ rs1, db1)"
      and r1: "reading B C N G db0 db1" "list_all2 (tmatch C N) rs1 new" "\<forall>v \<in> set V. map_of pt' v = map_of pathTo v"
        "\<forall>vp \<in> set new. map_of pt' (fst vp) = Some (snd vp)" "\<forall>v \<in> set V'. map_of pt' v \<noteq> None"
      using bfsEdges_discover [OF "2.prems"(1) es(2) _ _ "2.prems"(3) d [unfolded S]] "2.prems"(2) by auto blast
    have V': "set V \<subseteq> set V'" "\<And>vp. vp \<in> set new \<Longrightarrow> fst vp \<in> set V'"
      using discover_visited [OF d] discover_entries(2) [OF d] by (auto simp: set_eq_iff)
    have "\<forall>vp \<in> set (q @ new). map_of pt' (fst vp) = Some (snd vp) \<and> fst vp \<in> set V'"
      using "2.prems"(2) r1(3,4) V' by auto
    from "2.IH"(2) [OF False d [symmetric] refl r1(1) this r1(5) "2.prems"(4), of "rs @ rs1"]
    obtain rs2 db2 where "bfsLoop B C m dir flt (collecting None) V' pt' (map (\<lambda>vp. (fst vp, int (length (snd vp)))) (q @ new)) (rs @ rs1) db1 = (Inr (), (rs @ rs1) @ rs2, db2)"
      "reading B C N G db0 db2" "list_all2 (tmatch C N) rs2 (bfsOrder S m V' (q @ new))" by blast
    moreover have "bfsOrder S m V ((u, p) # q) = new @ bfsOrder S m V' (q @ new)" using False d by (auto simp: bfsOrder.simps(2))
    ultimately show ?thesis using False es(1) b r1(2) by (auto intro!: exI [of _ "rs1 @ rs2"] list_all2_appendI)
  qed
qed simp

lemma BFSFiltered_order:
  assumes inv: "graph_inv B C db N G" and "\<not> db_closed db" and "N s \<noteq> None"
  shows "\<exists>rs db'. BFSFiltered B C s m dir flt None db = ((rs, None), db') \<and> reading B C N G db db' \<and>
     list_all2 (tmatch C N) rs (bfsFrom (succOf B C dir flt db) m s)"
proof -
  have r: "reading B C N G db db" using assms by (auto simp: reading_def intro: exI [of _ "db_ncache db"])
  obtain n db1 where g: "getNode B C s db = (Inr n, db1)" "reading B C N G db db1" "node_of C N s n"
    using reading_node [OF r assms(3)] by blast
  let ?r = "\<lparr>tr_Node = n, tr_Depth = 0, tr_Path = []\<rparr>"
  obtain rs db' where "bfsLoop B C m dir flt (collecting None) [s] [(s, [])] [(s, 0)] [?r] db1 = (Inr (), [?r] @ rs, db')"
    "reading B C N G db db'" "list_all2 (tmatch C N) rs (bfsOrder (succOf B C dir flt db) m [s] [(s, [])])"
    using bfsLoop_order [OF g(2), of "[(s, [])]" "[(s, [])]" "[s]" "succOf B C dir flt db" dir flt m "[?r]"] by auto
  then show ?thesis using assms(2) g
    by (auto simp: BFSFiltered_def BFS_def collecting_def collected_def bfsFrom_def tmatch_def intro!: exI [of _ "?r # rs"])
qed

text \<open>The same for depth first.\<close>

lemma dfsEdges_discover:
  assumes "reading B C N G db0 db" and "\<forall>e \<in> set edges. N (targetOf dir u e) \<noteq> None"
    and "discover p (map (\<lambda>e. (e, targetOf dir u e)) (filter (passes flt) edges)) V = (new, V')"
  shows "\<exists>rs' db'. dfsEdges B C dir flt (collecting None) (u, int (length p), p) edges V stack rs db =
      (False, V', rev (map (\<lambda>vp. (fst vp, int (length (snd vp)), snd vp)) new) @ stack, rs @ rs', db') \<and>
     reading B C N G db0 db' \<and> list_all2 (tmatch C N) rs' new"
  using assms
proof (induction edges arbitrary: V stack rs db new V')
  case (Cons e edges)
  let ?t = "targetOf dir u e"
  show ?case
  proof (cases "passes flt e \<and> ?t \<notin> set V")
    case False
    then show ?thesis using Cons by (auto simp: Let_def split: if_splits)
  next
    case True
    obtain n1 V1 where d: "discover p (map (\<lambda>e. (e, targetOf dir u e)) (filter (passes flt) edges)) (?t # V) = (n1, V1)" by fastforce
    have new: "new = (?t, p @ [e]) # n1" "V' = V1" using Cons.prems(3) True d by auto
    obtain n db1 where g: "getNode B C ?t db = (Inr n, db1)" "reading B C N G db0 db1" "node_of C N ?t n"
      using reading_node [OF Cons.prems(1)] Cons.prems(2) by (metis list.set_intros(1))
    let ?s = "(?t, int (length p) + 1, p @ [e]) # stack" and ?r = "\<lparr>tr_Node = n, tr_Depth = int (length p) + 1, tr_Path = p @ [e]\<rparr>"
    have pre: "\<forall>e \<in> set edges. N (targetOf dir u e) \<noteq> None" using Cons.prems(2) by (simp del: not_None_eq)
    obtain rs' db' where IH: "dfsEdges B C dir flt (collecting None) (u, int (length p), p) edges (?t # V) ?s (rs @ [?r]) db1 =
        (False, V1, rev (map (\<lambda>vp. (fst vp, int (length (snd vp)), snd vp)) n1) @ ?s, (rs @ [?r]) @ rs', db')"
      "reading B C N G db0 db'" "list_all2 (tmatch C N) rs' n1"
      using Cons.IH [OF g(2) pre d, of ?s "rs @ [?r]"] by blast
    have "dfsEdges B C dir flt (collecting None) (u, int (length p), p) (e # edges) V stack rs db =
        (False, V', rev (map (\<lambda>vp. (fst vp, int (length (snd vp)), snd vp)) new) @ stack, rs @ (?r # rs'), db')"
      using True g(1) IH(1) by (simp add: Let_def collecting_def new add.commute)
    moreover have "list_all2 (tmatch C N) (?r # rs') new" using IH(3) g(3) by (simp add: new tmatch_def)
    ultimately show ?thesis using IH(2) by blast
  qed
qed simp

lemma dfsLoop_order:
  assumes "reading B C N G db0 db" and "S = succOf B C dir flt db0"
  shows "\<exists>rs' db'. dfsLoop B C m dir flt (collecting None) V (map (\<lambda>vp. (fst vp, int (length (snd vp)), snd vp)) st) rs db =
      (Inr (), rs @ rs', db') \<and> reading B C N G db0 db' \<and> list_all2 (tmatch C N) rs' (dfsOrder S m V st)"
  using assms
proof (induction S m V st arbitrary: rs db rule: dfsOrder.induct)
  case (2 S m V u p st)
  show ?case
  proof (cases "0 \<le> m \<and> m \<le> int (length p)")
    case True
    then show ?thesis using "2.IH"(1) [OF True "2.prems", of rs] by (simp add: dfsOrder.simps(2))
  next
    case False
    have inv: "graph_inv B C db N G" "\<not> db_closed db" using "2.prems"(1) by (auto simp: reading_def)
    obtain es where es: "getEdgesForNode B C u dir db = Inr es" "\<forall>e \<in> set es. N (targetOf dir u e) \<noteq> None"
      using edges_present [OF inv] by blast
    then have S: "rev (S u) = map (\<lambda>e. (e, targetOf dir u e)) (filter (passes flt) (rev es))"
      using reading_edges [OF "2.prems"(1), of u dir] "2.prems"(2) by (simp add: succOf_def rev_map rev_filter)
    have es': "\<forall>e \<in> set (rev es). N (targetOf dir u e) \<noteq> None" using es(2) by simp
    obtain new V' where d: "discover p (rev (S u)) V = (new, V')" by fastforce
    let ?f = "\<lambda>vp. (fst vp, int (length (snd vp)), snd vp)"
    obtain rs1 db1 where b: "dfsEdges B C dir flt (collecting None) (u, int (length p), p) (rev es) V (map ?f st) rs db =
        (False, V', rev (map ?f new) @ map ?f st, rs @ rs1, db1)"
      and r1: "reading B C N G db0 db1" "list_all2 (tmatch C N) rs1 new"
      using dfsEdges_discover [OF "2.prems"(1) es' d [unfolded S]] by blast
    from "2.IH"(2) [OF False d [symmetric] refl r1(1) "2.prems"(2), of "rs @ rs1"]
    obtain rs2 db2 where "dfsLoop B C m dir flt (collecting None) V' (map ?f (rev new @ st)) (rs @ rs1) db1 = (Inr (), (rs @ rs1) @ rs2, db2)"
      "reading B C N G db0 db2" "list_all2 (tmatch C N) rs2 (dfsOrder S m V' (rev new @ st))" by blast
    moreover have "dfsOrder S m V ((u, p) # st) = new @ dfsOrder S m V' (rev new @ st)" using False d by (auto simp: dfsOrder.simps(2))
    ultimately show ?thesis using False es(1) b r1(2) by (auto simp: rev_map intro!: exI [of _ "rs1 @ rs2"] list_all2_appendI)
  qed
qed simp

lemma DFSFiltered_order:
  assumes inv: "graph_inv B C db N G" and "\<not> db_closed db" and "N s \<noteq> None"
  shows "\<exists>rs db'. DFSFiltered B C s m dir flt None db = ((rs, None), db') \<and> reading B C N G db db' \<and>
     list_all2 (tmatch C N) rs (dfsFrom (succOf B C dir flt db) m s)"
proof -
  have r: "reading B C N G db db" using assms by (auto simp: reading_def intro: exI [of _ "db_ncache db"])
  obtain n db1 where g: "getNode B C s db = (Inr n, db1)" "reading B C N G db db1" "node_of C N s n"
    using reading_node [OF r assms(3)] by blast
  let ?r = "\<lparr>tr_Node = n, tr_Depth = 0, tr_Path = []\<rparr>"
  obtain rs db' where "dfsLoop B C m dir flt (collecting None) [s] [(s, 0, [])] [?r] db1 = (Inr (), [?r] @ rs, db')"
    "reading B C N G db db'" "list_all2 (tmatch C N) rs (dfsOrder (succOf B C dir flt db) m [s] [(s, [])])"
    using dfsLoop_order [OF g(2), of "succOf B C dir flt db" dir flt m "[s]" "[(s, [])]" "[?r]"] by auto
  then show ?thesis using assms(2) g
    by (auto simp: DFSFiltered_def DFS_def collecting_def collected_def dfsFrom_def tmatch_def intro!: exI [of _ "?r # rs"])
qed

end

section \<open>Properties\<close>

lemma list_all2_ids: "list_all2 (tmatch C N) rs es \<Longrightarrow> map (\<lambda>r. n_id (tr_Node r)) rs = map fst es \<and>
    map tr_Path rs = map snd es \<and> map tr_Depth rs = map (\<lambda>vp. int (length (snd vp))) es"
  by (induction rule: list_all2_induct) (auto simp: tmatch_def node_of_def)

text \<open>The one edge of the example database.\<close>

lemma edge_out: "\<exists>e. getEdgesForNode kvs_bolt str_codec u Outgoing edgeDB = Inr (if u = 1 then [e] else []) \<and> e_to e = 2 \<and> e_from e = 1 \<and> e_label e = ''KNOWS''"
proof -
  have "edges_rep kvs_bolt str_codec (files edgeDB) [1 \<mapsto> sampleEdge]" using edge_inv by (simp add: graph_inv_def)
  from kvs_store.getEdges_out [OF this, of u] obtain es where es: "getEdgesForNode kvs_bolt str_codec u Outgoing edgeDB = Inr es"
    "edges_match str_codec es [1 \<mapsto> sampleEdge] (\<lambda>e. e_from e = u)" by (auto simp: edge_fields(1))
  have "if u = 1 then \<exists>e. es = [e] \<and> edge_eq str_codec sampleEdge e else es = []"
    using edges_match_single [OF es(2)] by (auto simp: sampleEdge_def)
  then show ?thesis using es(1) by (cases "u = 1") (auto simp: edge_eq_def sampleEdge_def intro: exI [of _ sampleEdge])
qed

lemma edge_walk: "\<exists>e. walk (succOf kvs_bolt str_codec Outgoing None edgeDB) 1 [e] 2"
proof -
  obtain e where "(e, 2) \<in> set (succOf kvs_bolt str_codec Outgoing None edgeDB 1)"
    using edge_out [of 1] by (force simp: succOf_def targetOf_def passes_def)
  then show ?thesis using walk_snoc [OF walk_Nil] by fastforce
qed

text \<open>
  C15. Breadth-first traversal of an open database, with any direction, edge filter and depth limit,
  returns without error every node within the limit exactly once, nearest first: each result carries the
  node of the graph, a walk to it that is as short as any, and that walk's length as its depth.
\<close>

theorem bfs_exact:
  assumes "graph_store B C" and "graph_inv B C db N G" and "\<not> db_closed db" and "N s \<noteq> None"
  shows "\<exists>rs db'. BFSFiltered B C s m dir flt None db = ((rs, None), db') \<and>
     distinct (map (\<lambda>r. n_id (tr_Node r)) rs) \<and> sorted (map tr_Depth rs) \<and>
     (\<forall>r \<in> set rs. node_of C N (n_id (tr_Node r)) (tr_Node r) \<and> tr_Depth r = int (length (tr_Path r)) \<and>
        shortest (succOf B C dir flt db) s (n_id (tr_Node r), tr_Path r)) \<and>
     (\<forall>v. v \<in> (\<lambda>r. n_id (tr_Node r)) ` set rs \<longleftrightarrow> v = s \<or> (\<exists>k. within (succOf B C dir flt db) s k v \<and> (m < 0 \<or> int k \<le> m)))"
proof -
  let ?S = "succOf B C dir flt db"
  obtain rs db' where b: "BFSFiltered B C s m dir flt None db = ((rs, None), db')" and l: "list_all2 (tmatch C N) rs (bfsFrom ?S m s)"
    using graph_store.BFSFiltered_order [OF assms] by blast
  note ids = list_all2_ids [OF l] and x = bfsFrom_exact [where S = ?S and m = m and s = s]
  have "\<forall>r \<in> set rs. \<exists>vp \<in> set (bfsFrom ?S m s). tmatch C N r vp" using l by (metis in_set_conv_nth list_all2_conv_all_nth)
  then have each: "\<forall>r \<in> set rs. node_of C N (n_id (tr_Node r)) (tr_Node r) \<and> tr_Depth r = int (length (tr_Path r)) \<and>
      shortest ?S s (n_id (tr_Node r), tr_Path r)"
    using x(2) by (fastforce simp: tmatch_def node_of_def)
  have set_ids: "(\<lambda>r. n_id (tr_Node r)) ` set rs = fst ` set (bfsFrom ?S m s)" using ids by (metis list.set_map)
  have "sorted (map tr_Depth rs)" using ids x(3) by (simp add: sorted_map)
  moreover have "distinct (map (\<lambda>r. n_id (tr_Node r)) rs)" using ids x(1) by simp
  moreover have "\<forall>v. v \<in> (\<lambda>r. n_id (tr_Node r)) ` set rs \<longleftrightarrow> v = s \<or> (\<exists>k. within ?S s k v \<and> (m < 0 \<or> int k \<le> m))"
    using x(4) unfolding set_ids depth_ok_def by blast
  ultimately show ?thesis using b each by blast
qed

theorem bfs_exact_witness:
  "\<exists>rs db'. BFSFiltered kvs_bolt str_codec 1 (- 1) Outgoing None None edgeDB = ((rs, None), db') \<and>
     distinct (map (\<lambda>r. n_id (tr_Node r)) rs) \<and> {1, 2} \<subseteq> (\<lambda>r. n_id (tr_Node r)) ` set rs"
proof -
  have "within (succOf kvs_bolt str_codec Outgoing None edgeDB) 1 1 2" using edge_walk by (fastforce simp: within_def)
  then show ?thesis
    using bfs_exact [OF kvs_graph_store edge_inv, of 1 "- 1" Outgoing None] edge_fields(1) by (fastforce simp: demoNodes_def)
qed

text \<open>
  C19. Depth-first traversal without a depth limit returns every reachable node exactly once, each with a
  walk to it whose length is the reported depth; with a limit all results are within it.
\<close>

theorem dfs_reaches:
  assumes "graph_store B C" and "graph_inv B C db N G" and "\<not> db_closed db" and "N s \<noteq> None"
  shows "\<exists>rs db'. DFSFiltered B C s m dir flt None db = ((rs, None), db') \<and>
     distinct (map (\<lambda>r. n_id (tr_Node r)) rs) \<and>
     (\<forall>r \<in> set rs. node_of C N (n_id (tr_Node r)) (tr_Node r) \<and> tr_Depth r = int (length (tr_Path r)) \<and>
        walk (succOf B C dir flt db) s (tr_Path r) (n_id (tr_Node r)) \<and> (m < 0 \<or> tr_Depth r \<le> m)) \<and>
     (m < 0 \<longrightarrow> (\<forall>v. v \<in> (\<lambda>r. n_id (tr_Node r)) ` set rs \<longleftrightarrow> (\<exists>p. walk (succOf B C dir flt db) s p v)))"
proof -
  let ?S = "succOf B C dir flt db"
  obtain rs db' where b: "DFSFiltered B C s m dir flt None db = ((rs, None), db')" and l: "list_all2 (tmatch C N) rs (dfsFrom ?S m s)"
    using graph_store.DFSFiltered_order [OF assms] by blast
  note ids = list_all2_ids [OF l] and x = dfsFrom_exact [where S = ?S and m = m and s = s]
  have "\<forall>r \<in> set rs. \<exists>vp \<in> set (dfsFrom ?S m s). tmatch C N r vp" using l by (metis in_set_conv_nth list_all2_conv_all_nth)
  then have each: "\<forall>r \<in> set rs. node_of C N (n_id (tr_Node r)) (tr_Node r) \<and> tr_Depth r = int (length (tr_Path r)) \<and>
      walk ?S s (tr_Path r) (n_id (tr_Node r)) \<and> (m < 0 \<or> tr_Depth r \<le> m)"
    using x(2) by (fastforce simp: tmatch_def node_of_def depth_ok_def)
  have set_ids: "(\<lambda>r. n_id (tr_Node r)) ` set rs = fst ` set (dfsFrom ?S m s)" using ids by (metis list.set_map)
  have "distinct (map (\<lambda>r. n_id (tr_Node r)) rs)" using ids x(1) by simp
  moreover have "m < 0 \<longrightarrow> (\<forall>v. v \<in> (\<lambda>r. n_id (tr_Node r)) ` set rs \<longleftrightarrow> (\<exists>p. walk ?S s p v))" using x(3) unfolding set_ids by blast
  ultimately show ?thesis using b each by blast
qed

theorem dfs_reaches_witness:
  "\<exists>rs db'. DFSFiltered kvs_bolt str_codec 1 (- 1) Outgoing None None edgeDB = ((rs, None), db') \<and>
     distinct (map (\<lambda>r. n_id (tr_Node r)) rs) \<and> 2 \<in> (\<lambda>r. n_id (tr_Node r)) ` set rs"
  using dfs_reaches [OF kvs_graph_store edge_inv, of 1 "- 1" Outgoing None] edge_fields(1) edge_walk by (fastforce simp: demoNodes_def)

end
