(* ===== verification/Path.thy ===== *)
theory Path
  imports Traversal
begin

text \<open>
  Paths between nodes (path.go): the unweighted shortest path, path existence, the enumeration of all
  simple paths, connected components and topological order. The cost of an unweighted path is its number
  of edges. The weighted search is not modelled: it computes with float64 edge weights.
\<close>

record PathResult =
  pr_Nodes :: "Node list"
  pr_Edges :: "Edge list"
  pr_Cost :: nat

section \<open>Shortest path\<close>

fun readNodes :: "'b bolt \<Rightarrow> codec \<Rightarrow> NodeID list \<Rightarrow> 'b DB \<Rightarrow> (gerr + Node list) \<times> 'b DB" where
  "readNodes B C [] db = (Inr [], db)"
| "readNodes B C (i # is) db = (case getNode B C i db of (Inl e, db1) \<Rightarrow> (Inl e, db1)
     | (Inr n, db1) \<Rightarrow> (case readNodes B C is db1 of (Inl e, db2) \<Rightarrow> (Inl e, db2) | (Inr ns, db2) \<Rightarrow> (Inr (n # ns), db2)))"

definition buildPathResult :: "'b bolt \<Rightarrow> codec \<Rightarrow> NodeID \<Rightarrow> Edge list \<Rightarrow> 'b DB \<Rightarrow> (gerr + PathResult) \<times> 'b DB" where
  "buildPathResult B C fromID pathEdges db = (case readNodes B C (fromID # map e_to pathEdges) db of
       (Inl e, db1) \<Rightarrow> (Inl e, db1)
     | (Inr ns, db1) \<Rightarrow> (Inr \<lparr>pr_Nodes = ns, pr_Edges = pathEdges, pr_Cost = length pathEdges\<rparr>, db1))"

text \<open>The edges of one queue entry: the target found, or the new marks and queue.\<close>

fun spEdges :: "string \<Rightarrow> NodeID \<Rightarrow> Edge list \<Rightarrow> Edge list \<Rightarrow> NodeID list \<Rightarrow> (NodeID \<times> Edge list) list \<Rightarrow>
    Edge list + NodeID list \<times> (NodeID \<times> Edge list) list" where
  "spEdges label toID path [] visited queue = Inr (visited, queue)"
| "spEdges label toID path (edge # edges) visited queue =
     (if label \<noteq> [] \<and> e_label edge \<noteq> label then spEdges label toID path edges visited queue
      else if e_to edge \<in> set visited then spEdges label toID path edges visited queue
      else let newPath = path @ [edge]
           in if e_to edge = toID then Inl newPath
              else spEdges label toID path edges (e_to edge # visited) (queue @ [(e_to edge, newPath)]))"

lemma spEdges_measure:
  "spEdges label toID path edges visited queue = Inr (visited', queue') \<Longrightarrow>
   2 * card (- set visited') + length queue' \<le> 2 * card (- set visited) + length queue"
proof (induction edges arbitrary: visited queue)
  case (Cons edge edges)
  let ?t = "e_to edge"
  show ?case
  proof (cases "(label \<noteq> [] \<and> e_label edge \<noteq> label) \<or> ?t \<in> set visited")
    case True
    then show ?thesis using Cons by (auto split: if_splits)
  next
    case False
    have "Suc (card (- set (?t # visited))) = card (- set visited)" using False by (intro card_mark) simp
    then show ?thesis using Cons.prems False Cons.IH [of "?t # visited" "queue @ [(?t, path @ [edge])]"] by (auto simp: Let_def split: if_splits)
  qed
qed simp

function spLoop :: "'b bolt \<Rightarrow> codec \<Rightarrow> string \<Rightarrow> NodeID \<Rightarrow> NodeID list \<Rightarrow> (NodeID \<times> Edge list) list \<Rightarrow> 'b DB \<Rightarrow> gerr + Edge list option" where
  "spLoop B C label toID visited [] db = Inr None"
| "spLoop B C label toID visited ((u, path) # queue) db =
     (case getEdgesForNode B C u Outgoing db of Inl e \<Rightarrow> Inl e
      | Inr edges \<Rightarrow> (case spEdges label toID path edges visited queue of
          Inl p \<Rightarrow> Inr (Some p)
        | Inr (visited', queue') \<Rightarrow> spLoop B C label toID visited' queue' db))"
  by pat_completeness auto
termination
  by (relation "measure (\<lambda>(B, C, l, t, visited, queue, db). 2 * card (- set visited) + length queue)")
    (auto dest!: spEdges_measure)

definition ShortestPathLabeled :: "'b bolt \<Rightarrow> codec \<Rightarrow> NodeID \<Rightarrow> NodeID \<Rightarrow> string \<Rightarrow> 'b DB \<Rightarrow> (gerr + PathResult option) \<times> 'b DB" where
  "ShortestPathLabeled B C fromID toID label db =
     (if db_closed db then (Inl ErrClosed, db)
      else if fromID = toID then
        (case getNode B C fromID db of (Inl e, db1) \<Rightarrow> (Inl e, db1)
         | (Inr n, db1) \<Rightarrow> (Inr (Some \<lparr>pr_Nodes = [n], pr_Edges = [], pr_Cost = 0\<rparr>), db1))
      else (case spLoop B C label toID [fromID] [(fromID, [])] db of
          Inl e \<Rightarrow> (Inl e, db)
        | Inr None \<Rightarrow> (Inr None, db)
        | Inr (Some p) \<Rightarrow> (case buildPathResult B C fromID p db of (Inl e, db1) \<Rightarrow> (Inl e, db1) | (Inr r, db1) \<Rightarrow> (Inr (Some r), db1))))"

definition ShortestPath :: "'b bolt \<Rightarrow> codec \<Rightarrow> NodeID \<Rightarrow> NodeID \<Rightarrow> 'b DB \<Rightarrow> (gerr + PathResult option) \<times> 'b DB" where
  "ShortestPath B C fromID toID db = ShortestPathLabeled B C fromID toID [] db"

definition HasPath :: "'b bolt \<Rightarrow> codec \<Rightarrow> NodeID \<Rightarrow> NodeID \<Rightarrow> 'b DB \<Rightarrow> (gerr + bool) \<times> 'b DB" where
  "HasPath B C fromID toID db = (case ShortestPath B C fromID toID db of
       (Inl e, db1) \<Rightarrow> (Inl e, db1) | (Inr r, db1) \<Rightarrow> (Inr (r \<noteq> None), db1))"

section \<open>All simple paths\<close>

text \<open>
  The recursive closure of AllPaths, by the number of edges that may still be added. The \<open>visited\<close> map is
  shared in the code, but every recursive call leaves it as it found it.
\<close>

fun apEdges :: "(NodeID \<Rightarrow> Edge list \<Rightarrow> NodeID list \<Rightarrow> PathResult list \<times> 'b DB \<Rightarrow> gerr + PathResult list \<times> 'b DB) \<Rightarrow>
    Edge list \<Rightarrow> NodeID list \<Rightarrow> Edge list \<Rightarrow> PathResult list \<times> 'b DB \<Rightarrow> gerr + PathResult list \<times> 'b DB" where
  "apEdges dfs path visited [] st = Inr st"
| "apEdges dfs path visited (edge # edges) st =
     (if e_to edge \<in> set visited then apEdges dfs path visited edges st
      else ebind (dfs (e_to edge) (path @ [edge]) (e_to edge # visited) st) (apEdges dfs path visited edges))"

primrec apDfs :: "'b bolt \<Rightarrow> codec \<Rightarrow> NodeID \<Rightarrow> NodeID \<Rightarrow> nat \<Rightarrow> NodeID \<Rightarrow> Edge list \<Rightarrow> NodeID list \<Rightarrow>
    PathResult list \<times> 'b DB \<Rightarrow> gerr + PathResult list \<times> 'b DB" where
  "apDfs B C fromID toID 0 = (\<lambda>current path visited st.
     if current = toID then
       (case buildPathResult B C fromID path (snd st) of (Inl e, _) \<Rightarrow> Inl e | (Inr r, db1) \<Rightarrow> Inr (fst st @ [r], db1))
     else Inr st)"
| "apDfs B C fromID toID (Suc n) = (\<lambda>current path visited st.
     if current = toID then
       (case buildPathResult B C fromID path (snd st) of (Inl e, _) \<Rightarrow> Inl e | (Inr r, db1) \<Rightarrow> Inr (fst st @ [r], db1))
     else (case getEdgesForNode B C current Outgoing (snd st) of Inl e \<Rightarrow> Inl e
       | Inr edges \<Rightarrow> apEdges (apDfs B C fromID toID n) path visited edges st))"

definition AllPaths :: "'b bolt \<Rightarrow> codec \<Rightarrow> NodeID \<Rightarrow> NodeID \<Rightarrow> int \<Rightarrow> 'b DB \<Rightarrow> gerr + PathResult list \<times> 'b DB" where
  "AllPaths B C fromID toID maxDepth db =
     (if db_closed db then Inl ErrClosed
      else let m = (if maxDepth \<le> 0 then 10 else maxDepth)
           in apDfs B C fromID toID (nat m) fromID [] [fromID] ([], db))"

section \<open>Connected components\<close>

fun ccEdges :: "NodeID \<Rightarrow> Edge list \<Rightarrow> NodeID list \<Rightarrow> NodeID list \<Rightarrow> NodeID list \<times> NodeID list" where
  "ccEdges u [] visited queue = (visited, queue)"
| "ccEdges u (edge # edges) visited queue =
     (let t = (if e_to edge = u then e_from edge else e_to edge)
      in if t \<in> set visited then ccEdges u edges visited queue else ccEdges u edges (t # visited) (queue @ [t]))"

lemma ccEdges_measure:
  "ccEdges u edges visited queue = (visited', queue') \<Longrightarrow>
   2 * card (- set visited') + length queue' \<le> 2 * card (- set visited) + length queue"
proof (induction u edges visited queue rule: ccEdges.induct)
  case (2 u edge edges visited queue)
  define t where "t = (if e_to edge = u then e_from edge else e_to edge)"
  note IH = "2.IH" [OF t_def]
  show ?case
  proof (cases "t \<in> set visited")
    case True
    then have "ccEdges u edges visited queue = (visited', queue')" using "2.prems" by (simp only: ccEdges.simps Let_def t_def [symmetric] if_True)
    then show ?thesis by (rule IH(1) [OF True])
  next
    case False
    have "Suc (card (- set (t # visited))) = card (- set visited)" using False by (intro card_mark) simp
    moreover have "ccEdges u edges (t # visited) (queue @ [t]) = (visited', queue')"
      using "2.prems" False by (simp only: ccEdges.simps Let_def t_def [symmetric] if_False)
    from IH(2) [OF False this] have "2 * card (- set visited') + length queue' \<le> 2 * card (- set (t # visited)) + Suc (length queue)" by simp
    ultimately show ?thesis by linarith
  qed
qed simp

function ccLoop :: "'b bolt \<Rightarrow> codec \<Rightarrow> 'b DB \<Rightarrow> NodeID list \<Rightarrow> NodeID list \<Rightarrow> NodeID list \<Rightarrow> gerr + NodeID list \<times> NodeID list" where
  "ccLoop B C db visited [] component = Inr (visited, component)"
| "ccLoop B C db visited (u # queue) component =
     (case getEdgesForNode B C u Both db of Inl e \<Rightarrow> Inl e
      | Inr edges \<Rightarrow> (case ccEdges u edges visited queue of (visited', queue') \<Rightarrow> ccLoop B C db visited' queue' (component @ [u])))"
  by pat_completeness auto
termination
  by (relation "measure (\<lambda>(B, C, db, visited, queue, component). 2 * card (- set visited) + length queue)")
    (auto dest!: ccEdges_measure [OF sym])

definition ConnectedComponents :: "'b bolt \<Rightarrow> codec \<Rightarrow> 'b DB \<Rightarrow> gerr + NodeID list list" where
  "ConnectedComponents B C db = (if db_closed db then Inl ErrClosed
     else ebind (forEachNode B C (\<lambda>node st. if n_id node \<in> set (fst st) then Inr st
            else ebind (ccLoop B C db (n_id node # fst st) [n_id node] [])
                   (\<lambda>vc. Inr (fst vc, snd st @ [snd vc]))) db ([], []))
          (\<lambda>st. Inr (snd st)))"

section \<open>Topological order\<close>

definition degOf :: "(NodeID \<times> int) list \<Rightarrow> NodeID \<Rightarrow> int" where
  "degOf m v = (case map_of m v of None \<Rightarrow> 0 | Some d \<Rightarrow> d)"

definition addDeg :: "int \<Rightarrow> NodeID \<Rightarrow> (NodeID \<times> int) list \<Rightarrow> (NodeID \<times> int) list" where
  "addDeg k v m = AList.update v (degOf m v + k) m"

lemma degOf_addDeg [simp]: "degOf (addDeg k v m) w = (if w = v then degOf m v + k else degOf m w)"
  by (simp add: degOf_def addDeg_def update_conv')

text \<open>The first pass: every node and every target, with the number of incoming edges.\<close>

definition topoDegrees :: "'b bolt \<Rightarrow> codec \<Rightarrow> 'b DB \<Rightarrow> gerr + (NodeID \<times> int) list \<times> NodeID list" where
  "topoDegrees B C db = forEachNode B C (\<lambda>node st.
     let allNodes = List.insert (n_id node) (snd st);
         inDegree = (if map_of (fst st) (n_id node) = None then AList.update (n_id node) 0 (fst st) else fst st)
     in ebind (getEdgesForNode B C (n_id node) Outgoing db) (\<lambda>edges.
          Inr (fold (\<lambda>e. addDeg 1 (e_to e)) edges inDegree, fold (\<lambda>e. List.insert (e_to e)) edges allNodes))) db ([], [])"

fun topoEdges :: "Edge list \<Rightarrow> (NodeID \<times> int) list \<Rightarrow> NodeID list \<Rightarrow> (NodeID \<times> int) list \<times> NodeID list" where
  "topoEdges [] inDegree queue = (inDegree, queue)"
| "topoEdges (e # es) inDegree queue =
     (let inDegree' = addDeg (- 1) (e_to e) inDegree
      in topoEdges es inDegree' (if degOf inDegree' (e_to e) = 0 then queue @ [e_to e] else queue))"

lemma topoEdges_measure:
  "topoEdges es m queue = (m', queue') \<Longrightarrow>
   2 * card {v. 0 < degOf m' v} + length queue' \<le> 2 * card {v. 0 < degOf m v} + length queue"
proof (induction es m queue rule: topoEdges.induct)
  case (2 e es m queue)
  let ?v = "e_to e" and ?m = "addDeg (- 1) (e_to e) m"
  let ?q = "if degOf ?m ?v = 0 then queue @ [?v] else queue"
  have "2 * card {v. 0 < degOf ?m v} + length ?q \<le> 2 * card {v. 0 < degOf m v} + length queue"
  proof (cases "degOf m ?v = 1")
    case True
    have "{v. 0 < degOf ?m v} = {v. 0 < degOf m v} - {?v}" using True by auto
    then have "Suc (card {v. 0 < degOf ?m v}) = card {v. 0 < degOf m v}" using True by (metis card_Suc_Diff1 finite_code mem_Collect_eq zero_less_one)
    then show ?thesis using True by simp
  next
    case False
    have "{v. 0 < degOf ?m v} \<subseteq> {v. 0 < degOf m v}" by (auto split: if_splits)
    then have "card {v. 0 < degOf ?m v} \<le> card {v. 0 < degOf m v}" by (intro card_mono) auto
    then show ?thesis using False by simp
  qed
  then show ?case using 2 by (fastforce simp: Let_def)
qed simp

function topoLoop :: "'b bolt \<Rightarrow> codec \<Rightarrow> 'b DB \<Rightarrow> (NodeID \<times> int) list \<Rightarrow> NodeID list \<Rightarrow> NodeID list \<Rightarrow> gerr + NodeID list" where
  "topoLoop B C db inDegree [] out = Inr out"
| "topoLoop B C db inDegree (u # queue) out =
     (case getEdgesForNode B C u Outgoing db of Inl e \<Rightarrow> Inl e
      | Inr edges \<Rightarrow> (case topoEdges edges inDegree queue of (inDegree', queue') \<Rightarrow> topoLoop B C db inDegree' queue' (out @ [u])))"
  by pat_completeness auto
termination
  by (relation "measure (\<lambda>(B, C, db, m, queue, out). 2 * card {v. 0 < degOf m v} + length queue)")
    (auto dest!: topoEdges_measure [OF sym])

text \<open>Go ranges over the map of all nodes in some order, the parameter \<open>ord\<close>.\<close>

definition TopologicalSort :: "'b bolt \<Rightarrow> codec \<Rightarrow> (NodeID list \<Rightarrow> NodeID list) \<Rightarrow> 'b DB \<Rightarrow> gerr + NodeID list" where
  "TopologicalSort B C ord db = (if db_closed db then Inl ErrClosed
     else ebind (topoDegrees B C db) (\<lambda>(inDegree, allNodes).
          ebind (topoLoop B C db inDegree (filter (\<lambda>i. degOf inDegree i = 0) (ord allNodes)) []) (\<lambda>out.
            if length out \<noteq> length allNodes
            then Inl (ErrMsg ''graphdb: graph contains cycles, topological sort not possible'')
            else Inr out)))"

section \<open>The shortest path is found\<close>

definition labelFilter :: "string \<Rightarrow> EdgeFilter" where
  "labelFilter label = (if label = [] then None else Some (\<lambda>e. e_label e = label))"

lemma spEdges_discover:
  assumes "discover p (map (\<lambda>e. (e, targetOf Outgoing u e)) (filter (passes (labelFilter label)) edges)) V = (new, V')"
  shows "spEdges label t p edges V queue = (case find (\<lambda>vp. fst vp = t) new of Some vp \<Rightarrow> Inl (snd vp) | None \<Rightarrow> Inr (V', queue @ new))"
  using assms
proof (induction edges arbitrary: V queue new V')
  case (Cons e edges)
  let ?v = "e_to e"
  have tgt: "targetOf Outgoing u e = ?v" by (simp add: targetOf_def)
  have pass: "passes (labelFilter label) e \<longleftrightarrow> \<not> (label \<noteq> [] \<and> e_label e \<noteq> label)" by (auto simp: passes_def labelFilter_def)
  show ?case
  proof (cases "passes (labelFilter label) e \<and> ?v \<notin> set V")
    case False
    then show ?thesis using Cons pass tgt by (auto split: if_splits)
  next
    case True
    obtain n1 V1 where d: "discover p (map (\<lambda>e. (e, targetOf Outgoing u e)) (filter (passes (labelFilter label)) edges)) (?v # V) = (n1, V1)" by fastforce
    have new: "new = (?v, p @ [e]) # n1" "V' = V1" using Cons.prems True d tgt by auto
    show ?thesis using True pass Cons.IH [OF d, of "queue @ [(?v, p @ [e])]"] by (auto simp: new Let_def split: option.splits)
  qed
qed simp

lemma find_append: "find P (xs @ ys) = (case find P xs of None \<Rightarrow> find P ys | Some x \<Rightarrow> Some x)"
  by (induction xs) simp_all

lemma find_distinct:
  "distinct (map fst xs) \<Longrightarrow> find (\<lambda>vp. fst vp = t) xs = Some vp \<longleftrightarrow> vp \<in> set xs \<and> fst vp = t"
  by (induction xs) (auto simp: image_iff)

text \<open>The simple paths to a target, as a predicate and as an enumeration.\<close>

fun spath :: "succs \<Rightarrow> NodeID \<Rightarrow> NodeID list \<Rightarrow> NodeID \<Rightarrow> Edge list \<Rightarrow> bool" where
  "spath S t V u [] \<longleftrightarrow> u = t"
| "spath S t V u (e # p) \<longleftrightarrow> u \<noteq> t \<and> (e, e_to e) \<in> set (S u) \<and> e_to e \<notin> set V \<and> spath S t (e_to e # V) (e_to e) p"

primrec enumPaths :: "succs \<Rightarrow> NodeID \<Rightarrow> nat \<Rightarrow> NodeID \<Rightarrow> Edge list \<Rightarrow> NodeID list \<Rightarrow> Edge list list" where
  "enumPaths S t 0 = (\<lambda>u path V. if u = t then [path] else [])"
| "enumPaths S t (Suc n) = (\<lambda>u path V. if u = t then [path]
     else concat (map (\<lambda>ev. if snd ev \<in> set V then [] else enumPaths S t n (snd ev) (path @ [fst ev]) (snd ev # V)) (S u)))"

lemma set_enumPaths:
  assumes "\<And>u e v. (e, v) \<in> set (S u) \<Longrightarrow> v = e_to e"
  shows "set (enumPaths S t n u path V) = {path @ p | p. spath S t V u p \<and> length p \<le> n}"
proof (induction n arbitrary: u path V)
  case (Suc n)
  show ?case
  proof (cases "u = t")
    case True
    then have "spath S t V u p \<longleftrightarrow> p = []" for p by (cases p) auto
    then show ?thesis using True by auto
  next
    case False
    have step: "spath S t V u p \<and> length p \<le> Suc n \<longleftrightarrow> (\<exists>e q. p = e # q \<and> (e, e_to e) \<in> set (S u) \<and> e_to e \<notin> set V \<and>
        spath S t (e_to e # V) (e_to e) q \<and> length q \<le> n)" for p
      using False by (cases p) auto
    have "set (enumPaths S t (Suc n) u path V) = (\<Union>ev \<in> {ev \<in> set (S u). snd ev \<notin> set V}. set (enumPaths S t n (snd ev) (path @ [fst ev]) (snd ev # V)))"
      using False by auto
    also have "\<dots> = (\<Union>ev \<in> {ev \<in> set (S u). snd ev \<notin> set V}. {(path @ [fst ev]) @ p | p. spath S t (snd ev # V) (snd ev) p \<and> length p \<le> n})"
      by (simp only: Suc.IH)
    also have "\<dots> = {path @ p | p. spath S t V u p \<and> length p \<le> Suc n}"
    proof (intro set_eqI iffI)
      fix r assume "r \<in> (\<Union>ev \<in> {ev \<in> set (S u). snd ev \<notin> set V}. {(path @ [fst ev]) @ p | p. spath S t (snd ev # V) (snd ev) p \<and> length p \<le> n})"
      then obtain e v p where h: "(e, v) \<in> set (S u)" "v \<notin> set V" "r = path @ e # p" "spath S t (v # V) v p" "length p \<le> n" by auto
      moreover have "v = e_to e" by (rule assms [OF h(1)])
      ultimately show "r \<in> {path @ p | p. spath S t V u p \<and> length p \<le> Suc n}" using step [of "e # p"] by blast
    next
      fix r assume "r \<in> {path @ p | p. spath S t V u p \<and> length p \<le> Suc n}"
      then obtain p where "r = path @ p" "spath S t V u p \<and> length p \<le> Suc n" by blast
      then obtain e q where h: "r = path @ e # q" "(e, e_to e) \<in> set (S u)" "e_to e \<notin> set V" "spath S t (e_to e # V) (e_to e) q" "length q \<le> n"
        using step [of p] by blast
      then show "r \<in> (\<Union>ev \<in> {ev \<in> set (S u). snd ev \<notin> set V}. {(path @ [fst ev]) @ p | p. spath S t (snd ev # V) (snd ev) p \<and> length p \<le> n})"
        by (intro UN_I [of "(e, e_to e)"]) auto
    qed
    finally show ?thesis .
  qed
qed (auto elim: spath.elims)

definition path_results :: "codec \<Rightarrow> graph_nodes \<Rightarrow> NodeID \<Rightarrow> PathResult list \<Rightarrow> bool" where
  "path_results C N a rs \<longleftrightarrow> (\<forall>r \<in> set rs. list_all2 (node_of C N) (a # map e_to (pr_Edges r)) (pr_Nodes r) \<and> pr_Cost r = length (pr_Edges r))"

context graph_store
begin

lemma spLoop_order:
  assumes "graph_inv B C db N G" and "\<not> db_closed db" and "S = succOf B C Outgoing (labelFilter label) db" and "m = - 1"
  shows "spLoop B C label t V q db = Inr (map_option snd (find (\<lambda>vp. fst vp = t) (bfsOrder S m V q)))"
  using assms(3,4)
proof (induction S m V q rule: bfsOrder.induct)
  case (2 S m V u p q)
  obtain es where es: "getEdgesForNode B C u Outgoing db = Inr es" using edges_present [OF assms(1,2)] by blast
  then have S: "S u = map (\<lambda>e. (e, targetOf Outgoing u e)) (filter (passes (labelFilter label)) es)"
    using "2.prems" by (simp add: succOf_def)
  obtain new V' where d: "discover p (S u) V = (new, V')" by fastforce
  have lim: "\<not> (0 \<le> m \<and> m \<le> int (length p))" using "2.prems" by simp
  have out: "bfsOrder S m V ((u, p) # q) = new @ bfsOrder S m V' (q @ new)" using lim d by (auto simp: bfsOrder.simps(2))
  show ?case using es spEdges_discover [OF d [unfolded S], of t q] "2.IH"(2) [OF lim d [symmetric] refl "2.prems"]
    by (auto simp: out find_append split: option.splits)
qed simp

lemma reading_refl: "graph_inv B C db N G \<Longrightarrow> \<not> db_closed db \<Longrightarrow> reading B C N G db db"
  by (auto simp: reading_def intro: exI [of _ "db_ncache db"])

lemma readNodes_ok:
  assumes "reading B C N G db0 db" and "\<forall>i \<in> set is. N i \<noteq> None"
  shows "\<exists>ns db'. readNodes B C is db = (Inr ns, db') \<and> reading B C N G db0 db' \<and> list_all2 (node_of C N) is ns"
  using assms
proof (induction "is" arbitrary: db)
  case (Cons i "is")
  obtain n db1 where g: "getNode B C i db = (Inr n, db1)" "reading B C N G db0 db1" "node_of C N i n"
    using reading_node [OF Cons.prems(1)] Cons.prems(2) by (metis list.set_intros(1))
  obtain ns db' where "readNodes B C is db1 = (Inr ns, db')" "reading B C N G db0 db'" "list_all2 (node_of C N) is ns"
    using Cons.IH [OF g(2)] Cons.prems(2) by auto
  then show ?case using g by auto
qed auto

text \<open>The nodes of a walk along outgoing edges exist.\<close>

lemma walk_present:
  assumes "graph_inv B C db N G" and "\<not> db_closed db" and "walk (succOf B C Outgoing flt db) s p v"
  shows "\<forall>e \<in> set p. N (e_to e) \<noteq> None"
  using assms(3)
proof (induction rule: walk.induct)
  case (walk_snoc p u e v)
  obtain es where es: "getEdgesForNode B C u Outgoing db = Inr es" "\<forall>e \<in> set es. N (targetOf Outgoing u e) \<noteq> None"
    using edges_present [OF assms(1,2)] by blast
  then have "N (e_to e) \<noteq> None" using walk_snoc(2) by (auto simp: succOf_def targetOf_def)
  then show ?case using walk_snoc.IH by simp
qed simp

lemma buildPathResult_ok:
  assumes r: "reading B C N G db db1" and "\<not> db_closed db" "graph_inv B C db N G" and "N s \<noteq> None" and w: "walk (succOf B C Outgoing flt db) s p v"
  shows "\<exists>ns db'. buildPathResult B C s p db1 = (Inr \<lparr>pr_Nodes = ns, pr_Edges = p, pr_Cost = length p\<rparr>, db') \<and>
    reading B C N G db db' \<and> list_all2 (node_of C N) (s # map e_to p) ns"
  using readNodes_ok [OF r, of "s # map e_to p"] walk_present [OF assms(3,2) w] assms(4) by (auto simp: buildPathResult_def)

text \<open>AllPaths enumerates.\<close>

lemma apDfs_order:
  assumes db0: "graph_inv B C db0 N G" "\<not> db_closed db0" and N: "N a \<noteq> None" and S: "S = succOf B C Outgoing None db0"
    and "reading B C N G db0 db" and "walk S a path u"
  shows "\<exists>rs' db'. apDfs B C a t n u path V (rs, db) = Inr (rs @ rs', db') \<and> reading B C N G db0 db' \<and>
    map pr_Edges rs' = enumPaths S t n u path V \<and> path_results C N a rs'"
  using assms(5,6)
proof (induction n arbitrary: u path V rs db)
  case 0
  then show ?case using buildPathResult_ok [OF 0(1) db0(2,1) N, of None path u] S by (auto simp: path_results_def)
next
  case (Suc n)
  show ?case
  proof (cases "u = t")
    case True
    then show ?thesis using buildPathResult_ok [OF Suc.prems(1) db0(2,1) N, of None path u] S Suc.prems(2) by (auto simp: path_results_def)
  next
    case False
    have inv: "graph_inv B C db N G" "\<not> db_closed db" using Suc.prems(1) by (auto simp: reading_def)
    obtain es where es: "getEdgesForNode B C u Outgoing db = Inr es" using edges_present [OF inv] by blast
    then have Su: "S u = map (\<lambda>e. (e, e_to e)) es"
      using reading_edges [OF Suc.prems(1), of u Outgoing] S by (simp add: succOf_def passes_def targetOf_def)
    have loop: "\<exists>rs' db'. apEdges (apDfs B C a t n) path V xs (rs, db) = Inr (rs @ rs', db') \<and> reading B C N G db0 db' \<and>
        map pr_Edges rs' = concat (map (\<lambda>ev. if snd ev \<in> set V then [] else enumPaths S t n (snd ev) (path @ [fst ev]) (snd ev # V)) (map (\<lambda>e. (e, e_to e)) xs)) \<and>
        path_results C N a rs'" if "set xs \<subseteq> set es" "reading B C N G db0 db" for xs rs db
      using that
    proof (induction xs arbitrary: rs db)
      case (Cons e xs)
      show ?case
      proof (cases "e_to e \<in> set V")
        case True
        then show ?thesis using Cons by simp
      next
        case False
        have "(e, e_to e) \<in> set (S u)" using Cons.prems(1) Su by auto
        then have "walk S a (path @ [e]) (e_to e)" by (rule walk_snoc [OF Suc.prems(2)])
        then obtain rs1 db1 where r1: "apDfs B C a t n (e_to e) (path @ [e]) (e_to e # V) (rs, db) = Inr (rs @ rs1, db1)" "reading B C N G db0 db1"
          "map pr_Edges rs1 = enumPaths S t n (e_to e) (path @ [e]) (e_to e # V)" "path_results C N a rs1"
          using Suc.IH [OF Cons.prems(2)] by blast
        obtain rs2 db2 where r2: "apEdges (apDfs B C a t n) path V xs (rs @ rs1, db1) = Inr ((rs @ rs1) @ rs2, db2)" "reading B C N G db0 db2"
          "map pr_Edges rs2 = concat (map (\<lambda>ev. if snd ev \<in> set V then [] else enumPaths S t n (snd ev) (path @ [fst ev]) (snd ev # V)) (map (\<lambda>e. (e, e_to e)) xs))"
          "path_results C N a rs2"
          using Cons.IH [OF _ r1(2), of "rs @ rs1"] Cons.prems(1) by auto
        have "map pr_Edges (rs1 @ rs2) = concat (map (\<lambda>ev. if snd ev \<in> set V then [] else enumPaths S t n (snd ev) (path @ [fst ev]) (snd ev # V)) (map (\<lambda>e. (e, e_to e)) (e # xs)))"
          using r1(3) r2(3) False by simp
        moreover have "path_results C N a (rs1 @ rs2)" using r1(4) r2(4) by (auto simp: path_results_def)
        ultimately show ?thesis using r1(1) r2(1,2) False by (intro exI [of _ "rs1 @ rs2"] exI [of _ db2]) simp
      qed
    qed (simp add: path_results_def)
    from loop [OF order_refl Suc.prems(1), of rs] show ?thesis using False es Su by simp
  qed
qed

end

section \<open>Properties\<close>

text \<open>
  C16. The unweighted shortest path between two nodes of an open database: when some walk along outgoing
  edges with the label leads to the target, the result is one with the fewest edges, together with the
  nodes it runs through and its length as cost; when there is none the result is nil. It never fails.
\<close>

theorem shortest_path_correct:
  assumes "graph_store B C" and "graph_inv B C db N G" and "\<not> db_closed db" and "N a \<noteq> None"
  shows "\<exists>r db'. ShortestPathLabeled B C a b label db = (Inr r, db') \<and>
     (case r of
        None \<Rightarrow> \<nexists>p. walk (succOf B C Outgoing (labelFilter label) db) a p b
      | Some pr \<Rightarrow> shortest (succOf B C Outgoing (labelFilter label) db) a (b, pr_Edges pr) \<and>
          list_all2 (node_of C N) (a # map e_to (pr_Edges pr)) (pr_Nodes pr) \<and> pr_Cost pr = length (pr_Edges pr))"
proof (cases "a = b")
  case True
  obtain n db' where "getNode B C a db = (Inr n, db')" "node_of C N a n"
    using graph_store.reading_node [OF assms(1) graph_store.reading_refl [OF assms(1-3)] assms(4)] by blast
  then show ?thesis using True assms(3) by (auto simp: ShortestPathLabeled_def shortest_def walk_Nil)
next
  case False
  let ?S = "succOf B C Outgoing (labelFilter label) db"
  let ?bs = "bfsOrder ?S (- 1) [a] [(a, [])]"
  have full: "bfsFrom ?S (- 1) a = (a, []) # ?bs" by (simp add: bfsFrom_def)
  have sp: "spLoop B C label b [a] [(a, [])] db = Inr (map_option snd (find (\<lambda>vp. fst vp = b) ?bs))"
    by (rule graph_store.spLoop_order [OF assms(1-3) refl refl])
  show ?thesis
  proof (cases "find (\<lambda>vp. fst vp = b) ?bs")
    case None
    then have "b \<notin> fst ` set (bfsFrom ?S (- 1) a)" using False by (auto simp: find_None_iff full)
    then have "\<nexists>p. walk ?S a p b" using bfsFrom_exact(4) [of b ?S "- 1" a] by (auto simp: within_def depth_ok_def)
    then show ?thesis using None sp False assms(3) by (auto simp: ShortestPathLabeled_def)
  next
    case (Some vp)
    have "distinct (map fst ?bs)" using bfsFrom_exact(1) [of ?S "- 1" a] by (simp add: full)
    then have vp: "vp \<in> set ?bs" "fst vp = b" using Some find_distinct by metis+
    then have sh: "shortest ?S a (b, snd vp)" using bfsFrom_exact(2) [of ?S "- 1" a] unfolding full by (metis list.set_intros(2) prod.collapse)
    then have w: "walk ?S a (snd vp) b" by (simp add: shortest_def)
    obtain ns db' where "buildPathResult B C a (snd vp) db = (Inr \<lparr>pr_Nodes = ns, pr_Edges = snd vp, pr_Cost = length (snd vp)\<rparr>, db')"
        "list_all2 (node_of C N) (a # map e_to (snd vp)) ns"
      using graph_store.buildPathResult_ok [OF assms(1) graph_store.reading_refl [OF assms(1-3)] assms(3,2,4) w] by blast
    then show ?thesis using Some sp False assms(3) sh by (simp add: ShortestPathLabeled_def)
  qed
qed

lemma edge_succ: "\<exists>e. e_to e = 2 \<and> e_label e = ''KNOWS'' \<and> (e, 2) \<in> set (succOf kvs_bolt str_codec Outgoing None edgeDB 1) \<and>
    (e, 2) \<in> set (succOf kvs_bolt str_codec Outgoing (labelFilter ''KNOWS'') edgeDB 1)"
  using edge_out [of 1] by (force simp: succOf_def targetOf_def labelFilter_def passes_def)

theorem shortest_path_correct_witness:
  "\<exists>pr db'. ShortestPathLabeled kvs_bolt str_codec 1 2 ''KNOWS'' edgeDB = (Inr (Some pr), db') \<and> pr_Cost pr = 1"
proof -
  let ?S = "succOf kvs_bolt str_codec Outgoing (labelFilter ''KNOWS'') edgeDB"
  obtain e where w: "walk ?S 1 ([] @ [e]) 2" using edge_succ walk_snoc [OF walk_Nil] by blast
  obtain r db' where r: "ShortestPathLabeled kvs_bolt str_codec 1 2 ''KNOWS'' edgeDB = (Inr r, db')" "case r of None \<Rightarrow> \<nexists>p. walk ?S 1 p 2
      | Some pr \<Rightarrow> shortest ?S 1 (2, pr_Edges pr) \<and> list_all2 (node_of str_codec demoNodes) (1 # map e_to (pr_Edges pr)) (pr_Nodes pr) \<and> pr_Cost pr = length (pr_Edges pr)"
    using shortest_path_correct [OF kvs_graph_store edge_inv, of 1 2 "''KNOWS''"] edge_fields(1) by (auto simp: demoNodes_def)
  obtain pr where pr: "r = Some pr" using r(2) w by (cases r) auto
  have "length (pr_Edges pr) \<le> 1" using r(2) w unfolding pr shortest_def by fastforce
  moreover have "pr_Edges pr \<noteq> []"
  proof
    assume "pr_Edges pr = []"
    then have "walk ?S 1 [] 2" using r(2) unfolding pr shortest_def by simp
    then show False by (rule walk_NilE) simp
  qed
  ultimately show ?thesis using r pr by (cases "pr_Edges pr") auto
qed

text \<open>
  C17. AllPaths returns, with the nodes along each, exactly the simple paths from one node to another with
  at most the given number of edges (ten when the bound is not positive).
\<close>

theorem all_paths_exact:
  assumes "graph_store B C" and "graph_inv B C db N G" and "\<not> db_closed db" and "N a \<noteq> None"
  shows "\<exists>rs db'. AllPaths B C a b m db = Inr (rs, db') \<and>
     pr_Edges ` set rs = {p. spath (succOf B C Outgoing None db) b [a] a p \<and> int (length p) \<le> (if m \<le> 0 then 10 else m)} \<and>
     (\<forall>r \<in> set rs. list_all2 (node_of C N) (a # map e_to (pr_Edges r)) (pr_Nodes r) \<and> pr_Cost r = length (pr_Edges r))"
proof -
  let ?S = "succOf B C Outgoing None db" and ?n = "nat (if m \<le> 0 then 10 else m)"
  obtain rs db' where r: "apDfs B C a b ?n a [] [a] ([], db) = Inr (rs, db')" "map pr_Edges rs = enumPaths ?S b ?n a [] [a]" "path_results C N a rs"
    using graph_store.apDfs_order [OF assms refl graph_store.reading_refl [OF assms(1-3)] walk_Nil, of b ?n "[a]" "[]"] by auto
  have "v = e_to e" if "(e, v) \<in> set (?S u)" for u e v using that by (auto simp: succOf_def targetOf_def split: sum.splits)
  from set_enumPaths [where S = ?S, OF this] have "set (enumPaths ?S b ?n a [] [a]) = {p. spath ?S b [a] a p \<and> length p \<le> ?n}" by simp
  then have "pr_Edges ` set rs = {p. spath ?S b [a] a p \<and> length p \<le> ?n}" using r(2) by (metis list.set_map)
  moreover have "length p \<le> ?n \<longleftrightarrow> int (length p) \<le> (if m \<le> 0 then 10 else m)" for p :: "Edge list" by auto
  ultimately show ?thesis using r(1,3) assms(3) by (auto simp: AllPaths_def Let_def path_results_def)
qed

theorem all_paths_exact_witness:
  "\<exists>rs db'. AllPaths kvs_bolt str_codec 1 2 0 edgeDB = Inr (rs, db') \<and> (\<exists>r \<in> set rs. pr_Cost r = 1)"
proof -
  let ?S = "succOf kvs_bolt str_codec Outgoing None edgeDB"
  obtain e where "(e, 2) \<in> set (?S 1)" "e_to e = 2" using edge_succ by blast
  then have p: "spath ?S 2 [1] 1 [e] \<and> int (length [e]) \<le> (if (0::int) \<le> 0 then 10 else 0)" by simp
  obtain rs db' where r: "AllPaths kvs_bolt str_codec 1 2 0 edgeDB = Inr (rs, db')"
     "pr_Edges ` set rs = {p. spath ?S 2 [1] 1 p \<and> int (length p) \<le> (if (0::int) \<le> 0 then 10 else 0)}"
     "\<forall>r \<in> set rs. pr_Cost r = length (pr_Edges r)"
    using all_paths_exact [OF kvs_graph_store edge_inv, of 1 2 0] edge_fields(1) by (auto simp: demoNodes_def)
  have "[e] \<in> pr_Edges ` set rs" unfolding r(2) using p by blast
  then obtain x where "x \<in> set rs" "pr_Edges x = [e]" by auto
  then show ?thesis using r by force
qed

end
