(* ===== verification/Topo.thy ===== *)
theory Topo
  imports Path
begin

text \<open>
  Iterating over all nodes, and Kahn's algorithm on top of it: TopologicalSort returns an order of all
  nodes in which every edge points forward, and refuses exactly the graphs with a cycle.
\<close>

section \<open>Every node once\<close>

lemma efold_concat: "efold f (concat xss) s = efold (\<lambda>xs. efold f xs) xss s"
  by (induction xss arbitrary: s) (auto simp: efold_append intro!: arg_cong [of _ _ "ebind _"] ext)

lemma efold_map_list: "efold f (map h xs) s = efold (\<lambda>x. f (h x)) xs s"
  by (induction xs arbitrary: s) (auto intro!: arg_cong [of _ _ "ebind _"] ext)

context graph_store
begin

lemma forEachNode_nodes:
  assumes inv: "graph_inv B C db N G"
  shows "\<exists>ns. (\<forall>fn :: Node \<Rightarrow> 's \<Rightarrow> gerr + 's. \<forall>st. forEachNode B C fn db st = efold fn ns st) \<and> distinct (map n_id ns) \<and>
    (\<forall>i. i \<in> n_id ` set ns \<longleftrightarrow> N i \<noteq> None) \<and> (\<forall>n \<in> set ns. node_of C N (n_id n) n)"
proof -
  have rep: "nodes_rep B C (files db) N" and ne: "files db \<noteq> []" using inv by (auto simp: graph_inv_def nodes_rep_def)
  define mk where "mk d kv = \<lparr>n_id = the (decodeUint64 (fst kv)), n_labels = loadLabels B C d (the (decodeUint64 (fst kv))),
     n_props = (case decodeProps C (snd kv) of Inl _ \<Rightarrow> [] | Inr q \<Rightarrow> q)\<rparr>" for d and kv :: "bytes \<times> bytes"
  let ?nss = "map (\<lambda>d. map (mk d) (b_cursor B (bk_nodes d))) (files db)"
  have cur: "\<exists>i x q. fst kv = encodeNodeID i \<and> N i = Some x \<and> route (length (files db)) i = s \<and> decodeProps C (snd kv) = Inr q \<and> text_eq C (snd x) q \<and>
      mk (files db ! s) kv = \<lparr>n_id = i, n_labels = fst x, n_props = q\<rparr>" if s: "s < length (files db)" "kv \<in> set (b_cursor B (bk_nodes (files db ! s)))" for s kv
  proof -
    obtain i x q where h: "fst kv = encodeNodeID i" "N i = Some x" "route (length (files db)) i = s" "decodeProps C (snd kv) = Inr q" "text_eq C (snd x) q"
      using node_cursor [OF rep s] by blast
    moreover have "loadLabels B C (files db ! s) i = fst x" using nodeAt_rep(2) [OF rep h(2)] h(3) by simp
    ultimately have "mk (files db ! s) kv = \<lparr>n_id = i, n_labels = fst x, n_props = q\<rparr>" by (simp add: mk_def encodeNodeID_def)
    then show ?thesis using h by blast
  qed
  have fold: "forEachNode B C fn db st = efold fn (concat ?nss) st" for fn :: "Node \<Rightarrow> 's \<Rightarrow> gerr + 's" and st
  proof -
    have "forEachInBucket B (bk_nodes d) (\<lambda>kv st. ebind (keyID (fst kv)) (\<lambda>i. ebind (decodeProps C (snd kv)) (\<lambda>props.
        fn \<lparr>n_id = i, n_labels = loadLabels B C d i, n_props = props\<rparr> st))) st = efold fn (map (mk d) (b_cursor B (bk_nodes d))) st"
      if d: "d \<in> set (files db)" for d st
    proof -
      obtain s where s: "s < length (files db)" "files db ! s = d" using d by (metis in_set_conv_nth)
      show ?thesis unfolding forEachInBucket_def efold_map_list
      proof (rule efold_cong)
        fix kv st assume "kv \<in> set (b_cursor B (bk_nodes d))"
        then obtain i q where "fst kv = encodeNodeID i" "decodeProps C (snd kv) = Inr q" using cur [OF s(1), of kv] s(2) by blast
        then show "ebind (keyID (fst kv)) (\<lambda>i. ebind (decodeProps C (snd kv)) (\<lambda>props. fn \<lparr>n_id = i, n_labels = loadLabels B C d i, n_props = props\<rparr> st)) = fn (mk d kv) st"
          by (simp add: keyID_def mk_def encodeNodeID_def)
      qed
    qed
    then show ?thesis unfolding forEachNode_def efold_concat efold_map_list files_def by (intro efold_cong) auto
  qed
  have match: "nodes_match C (concat ?nss) N (\<lambda>_ _. True)"
  proof (rule nodes_match_concat [where r = "route (length (files db))"])
    fix s assume "s < length ?nss"
    then have s: "s < length (files db)" by simp
    let ?cur = "b_cursor B (bk_nodes (files db ! s))"
    have "nodes_match C (concat (map (\<lambda>kv. [mk (files db ! s) kv]) ?cur)) N (\<lambda>i x. route (length (files db)) i = s \<and> True)"
    proof (rule nodes_match_keys [where key = encodeNodeID])
      show "distinct (map fst ?cur)" using sorted_keys_distinct [OF cursor_sorted] .
      show "k \<in> fst ` set ?cur \<longleftrightarrow> (\<exists>i x. N i = Some x \<and> (route (length (files db)) i = s \<and> True) \<and> k = encodeNodeID i)" for k
      proof
        assume "k \<in> fst ` set ?cur"
        then show "\<exists>i x. N i = Some x \<and> (route (length (files db)) i = s \<and> True) \<and> k = encodeNodeID i" using cur [OF s] by blast
      next
        assume "\<exists>i x. N i = Some x \<and> (route (length (files db)) i = s \<and> True) \<and> k = encodeNodeID i"
        then obtain i x where x: "N i = Some x" "route (length (files db)) i = s" "k = encodeNodeID i" by blast
        then obtain data where "b_get B (bk_nodes (files db ! s)) k = Some data"
          using node_at_data(1) [OF rep_node_at [OF rep, of i]] by (cases "b_get B (bk_nodes (files db ! s)) k") auto
        then have "(k, data) \<in> set ?cur" by (simp add: set_cursor)
        then show "k \<in> fst ` set ?cur" by (metis fst_conv image_eqI)
      qed
      show "\<exists>n. [mk (files db ! s) kv] = [n] \<and> n_id n = i \<and> text_eq C (snd x) (n_props n)" if "kv \<in> set ?cur" "fst kv = encodeNodeID i" "N i = Some x" for i x kv
        using cur [OF s that(1)] that by auto
    qed simp
    moreover have "concat (map (\<lambda>kv. [mk (files db ! s) kv]) ?cur) = ?nss ! s" using s by simp
    ultimately show "nodes_match C (?nss ! s) N (\<lambda>i x. route (length (files db)) i = s \<and> True)" by simp
  qed (use ne in \<open>simp add: route_less\<close>)
  have "node_of C N (n_id n) n" if h: "n \<in> set (concat ?nss)" for n
  proof -
    obtain d kv where d: "d \<in> set (files db)" "kv \<in> set (b_cursor B (bk_nodes d))" "n = mk d kv" using h by auto
    then obtain s where "s < length (files db)" "files db ! s = d" by (metis in_set_conv_nth)
    then show ?thesis using cur [of s kv] d by (auto simp: node_of_def)
  qed
  then show ?thesis using fold match unfolding nodes_match_def by (intro exI [of _ "concat ?nss"]) auto
qed

end

section \<open>Kahn's algorithm\<close>

abbreviation hits :: "Edge list \<Rightarrow> NodeID \<Rightarrow> nat" where
  "hits es v \<equiv> count_list (map e_to es) v"

definition pending :: "(NodeID \<Rightarrow> Edge list) \<Rightarrow> NodeID set \<Rightarrow> NodeID \<Rightarrow> int" where
  "pending E X v = (\<Sum>u\<in>X. int (hits (E u) v))"

lemma pending_remove: "u \<in> X \<Longrightarrow> pending E (X - {u}) v = pending E X v - int (hits (E u) v)"
  unfolding pending_def by (simp add: sum_diff1)

lemma pending_0: "pending E X v = 0 \<longleftrightarrow> (\<forall>u \<in> X. v \<notin> e_to ` set (E u))"
  unfolding pending_def by (simp add: sum_nonneg_eq_0_iff count_list_0_iff)

lemma pending_ge: "u \<in> X \<Longrightarrow> int (hits (E u) v) \<le> pending E X v"
  unfolding pending_def by (rule member_le_sum) auto

lemma topoEdges_spec:
  assumes "topoEdges es m queue = (m', queue')" and "\<And>v. int (hits es v) \<le> degOf m v"
  shows "(\<forall>v. degOf m' v = degOf m v - int (hits es v)) \<and>
    (\<exists>new. queue' = queue @ new \<and> distinct new \<and> set new = {v \<in> e_to ` set es. degOf m' v = 0})"
  using assms
proof (induction es m queue rule: topoEdges.induct)
  case (2 e es m queue)
  let ?v = "e_to e" and ?m = "addDeg (- 1) (e_to e) m"
  let ?q = "if degOf ?m ?v = 0 then queue @ [?v] else queue"
  have run: "topoEdges es ?m ?q = (m', queue')" using "2.prems"(1) by (simp add: Let_def)
  have le: "int (hits es w) \<le> degOf ?m w" for w using "2.prems"(2) [of w] by (auto split: if_splits)
  have d: "degOf m' w = degOf ?m w - int (hits es w)" for w using "2.IH" [OF refl run le] by blast
  obtain new where n: "queue' = ?q @ new" "distinct new" "set new = {v \<in> e_to ` set es. degOf m' v = 0}" using "2.IH" [OF refl run le] by blast
  have deg: "\<forall>w. degOf m' w = degOf m w - int (hits (e # es) w)" using d by simp
  show ?case
  proof (cases "degOf ?m ?v = 0")
    case True
    then have z: "hits es ?v = 0" using le [of ?v] by linarith
    then have "?v \<notin> e_to ` set es" by (simp add: count_list_0_iff)
    moreover have "degOf m' ?v = 0" using d [of ?v] True z by simp
    ultimately have "distinct (?v # new)" "set (?v # new) = {v \<in> e_to ` set (e # es). degOf m' v = 0}" using n by auto
    then show ?thesis using deg n(1) True by (intro conjI exI [of _ "?v # new"]) auto
  next
    case False
    have "?v \<in> e_to ` set es" if "degOf m' ?v = 0" using that d [of ?v] False by (auto simp: count_list_0_iff intro: ccontr)
    then have "set new = {v \<in> e_to ` set (e # es). degOf m' v = 0}" using n(3) by auto
    then show ?thesis using deg n(1,2) False by (intro conjI exI [of _ new]) auto
  qed
qed simp

definition kahn_inv :: "(NodeID \<Rightarrow> Edge list) \<Rightarrow> NodeID set \<Rightarrow> (NodeID \<times> int) list \<Rightarrow> NodeID list \<Rightarrow> NodeID list \<Rightarrow> bool" where
  "kahn_inv E U m queue out \<longleftrightarrow> distinct (out @ queue) \<and> set (out @ queue) \<subseteq> U \<and>
     (\<forall>v. degOf m v = pending E (U - set out) v) \<and> (\<forall>v \<in> U. v \<in> set (out @ queue) \<longleftrightarrow> degOf m v = 0) \<and>
     (\<forall>i < length out. \<forall>u \<in> U. out ! i \<in> e_to ` set (E u) \<longrightarrow> u \<in> set (take i out))"

lemma kahn_step:
  assumes inv: "kahn_inv E U m (u # queue) out" and run: "topoEdges (E u) m queue = (m', queue')" and ends: "\<forall>x \<in> U. e_to ` set (E x) \<subseteq> U"
  shows "kahn_inv E U m' queue' (out @ [u])"
proof -
  note i = inv [unfolded kahn_inv_def]
  have u: "u \<in> U - set out" using i by auto
  have deg: "degOf m v = pending E (U - set out) v" for v using i by blast
  have le: "int (hits (E u) v) \<le> degOf m v" for v unfolding deg by (rule pending_ge [OF u])
  have dm: "degOf m' v = degOf m v - int (hits (E u) v)" for v using topoEdges_spec [OF run le] by blast
  obtain new where q: "queue' = queue @ new" and n: "distinct new" "set new = {v \<in> e_to ` set (E u). degOf m' v = 0}"
    using topoEdges_spec [OF run le] by blast
  have old: "degOf m v = 0 \<and> hits (E u) v = 0" if "v \<in> set (out @ u # queue)" for v
  proof -
    have "degOf m v = 0" using i that by blast
    then show ?thesis using le [of v] by simp
  qed
  have newU: "set new \<subseteq> U" using n(2) ends u by blast
  have dis: "v \<notin> set (out @ u # queue)" if "v \<in> set new" for v using old [of v] that n(2) by (auto simp: count_list_0_iff)
  have "distinct ((out @ [u]) @ queue')" using i n(1) dis by (auto simp: q)
  moreover have "set ((out @ [u]) @ queue') \<subseteq> U" using i newU by (auto simp: q)
  moreover have "degOf m' v = pending E (U - set (out @ [u])) v" for v
  proof -
    have "U - set (out @ [u]) = (U - set out) - {u}" by auto
    then show ?thesis using dm deg pending_remove [OF u] by simp
  qed
  moreover have "v \<in> set ((out @ [u]) @ queue') \<longleftrightarrow> degOf m' v = 0" if "v \<in> U" for v
  proof (cases "v \<in> set (out @ u # queue)")
    case True
    then show ?thesis using old [OF True] dm [of v] by (auto simp: q)
  next
    case False
    then have "degOf m v \<noteq> 0" using i that by blast
    then have "degOf m' v = 0 \<Longrightarrow> v \<in> e_to ` set (E u)" using dm [of v] by (auto simp: count_list_0_iff intro: ccontr)
    then show ?thesis using False n(2) by (auto simp: q)
  qed
  moreover have "x \<in> set (take j (out @ [u]))" if "j < length (out @ [u])" "x \<in> U" "(out @ [u]) ! j \<in> e_to ` set (E x)" for j x
  proof (cases "j < length out")
    case True
    then show ?thesis using i that by (simp add: nth_append)
  next
    case False
    then have j: "j = length out" using that(1) by simp
    have "pending E (U - set out) u = 0" using old [of u] deg by simp
    then show ?thesis using that(2,3) j unfolding pending_0 by auto
  qed
  ultimately show ?thesis unfolding kahn_inv_def by blast
qed

lemma kahn_loop:
  assumes "\<And>u. getEdgesForNode B C u Outgoing db = Inr (E u)" and ends: "\<forall>x \<in> U. e_to ` set (E x) \<subseteq> U" and "kahn_inv E U m queue out"
  shows "\<exists>out' m'. topoLoop B C db m queue out = Inr out' \<and> kahn_inv E U m' [] out'"
  using assms(1,3)
proof (induction B C db m queue out rule: topoLoop.induct)
  case (2 B C db m u queue out)
  obtain m' queue' where t: "topoEdges (E u) m queue = (m', queue')" by fastforce
  from kahn_step [OF "2.prems"(2) t ends] "2.IH" [OF "2.prems"(1) t [symmetric] "2.prems"(1)]
  show ?case using "2.prems"(1) [of u] t by auto
qed auto

text \<open>What the invariant says when the queue is empty.\<close>

definition forward :: "(NodeID \<Rightarrow> Edge list) \<Rightarrow> NodeID set \<Rightarrow> (NodeID \<times> NodeID) set" where
  "forward E U = {(u, v). u \<in> U \<and> v \<in> e_to ` set (E u)}"

definition topo_order :: "(NodeID \<Rightarrow> Edge list) \<Rightarrow> NodeID set \<Rightarrow> NodeID list \<Rightarrow> bool" where
  "topo_order E U out \<longleftrightarrow> distinct out \<and> set out = U \<and>
     (\<forall>i < length out. \<forall>j < length out. (out ! i, out ! j) \<in> forward E U \<longrightarrow> i < j)"

lemma kahn_sound:
  assumes "kahn_inv E U m [] out" and "set out = U"
  shows "topo_order E U out"
proof -
  note i = assms(1) [unfolded kahn_inv_def]
  have "i < j" if h: "i < length out" "j < length out" "(out ! i, out ! j) \<in> forward E U" for i j
  proof -
    have "out ! i \<in> set (take j out)" using i h unfolding forward_def by blast
    then obtain k where "k < j" "k < length out" "out ! k = out ! i" by (auto simp: in_set_conv_nth)
    then show ?thesis using h(1) i by (metis append_Nil2 nth_eq_iff_index_eq)
  qed
  then show ?thesis using i assms(2) unfolding topo_order_def by auto
qed

lemma kahn_complete:
  assumes "kahn_inv E U m [] out" and "acyclic (forward E U)"
  shows "set out = U"
proof (rule ccontr)
  note i = assms(1) [unfolded kahn_inv_def]
  assume "set out \<noteq> U"
  then obtain x where "x \<in> U - set out" using i by auto
  moreover have "wf (forward E U)" by (rule finite_acyclic_wf [OF _ assms(2)]) simp
  ultimately obtain z where z: "z \<in> U - set out" and "\<And>y. (y, z) \<in> forward E U \<Longrightarrow> y \<notin> U - set out"
    using wfE_min [of "forward E U" x "U - set out"] by blast
  then have "pending E (U - set out) z = 0" unfolding pending_0 forward_def by blast
  then show False using i z by auto
qed

lemma topo_order_acyclic:
  assumes "topo_order E U out" and "\<forall>x \<in> U. e_to ` set (E x) \<subseteq> U"
  shows "acyclic (forward E U)"
proof -
  have lt: "i < j" if "(x, y) \<in> (forward E U)\<^sup>+" "i < length out" "j < length out" "out ! i = x" "out ! j = y" for x y i j
    using that
  proof (induction arbitrary: j rule: trancl_induct)
    case (base y)
    then show ?case using assms(1) unfolding topo_order_def by blast
  next
    case (step y z)
    have "y \<in> set out" using step(2) assms(1) by (auto simp: forward_def topo_order_def)
    then obtain k where k: "k < length out" "out ! k = y" by (auto simp: in_set_conv_nth)
    have "k < j" using assms(1) step k unfolding topo_order_def by blast
    moreover have "i < k" using step.IH k step.prems by blast
    ultimately show ?case by simp
  qed
  have "(x, x) \<notin> (forward E U)\<^sup>+" for x
  proof
    assume x: "(x, x) \<in> (forward E U)\<^sup>+"
    then have "x \<in> set out" using tranclD [OF x] assms(1) by (auto simp: forward_def topo_order_def)
    then obtain k where "k < length out" "out ! k = x" by (auto simp: in_set_conv_nth)
    then show False using lt [OF x] by blast
  qed
  then show ?thesis by (simp add: acyclic_def)
qed

section \<open>The degrees\<close>

lemma degOf_fold: "degOf (fold (\<lambda>e. addDeg 1 (e_to e)) es m) v = degOf m v + int (hits es v)"
  by (induction es arbitrary: m) auto

lemma set_fold_insert: "set (fold (\<lambda>e. List.insert (e_to e)) es xs) = set xs \<union> e_to ` set es"
  "distinct (fold (\<lambda>e. List.insert (e_to e)) es xs) = distinct xs"
  by (induction es arbitrary: xs) auto

lemma degOf_init: "degOf (if map_of m v = None then AList.update v 0 m else m) w = degOf m w"
  by (auto simp: degOf_def update_conv')

lemma topoDegrees_fold:
  assumes "\<And>u. getEdgesForNode B C u Outgoing db = Inr (E u)"
  shows "\<exists>m' all'. efold (\<lambda>node st. let allNodes = List.insert (n_id node) (snd st);
         inDegree = (if map_of (fst st) (n_id node) = None then AList.update (n_id node) 0 (fst st) else fst st)
     in ebind (getEdgesForNode B C (n_id node) Outgoing db) (\<lambda>edges.
          Inr (fold (\<lambda>e. addDeg 1 (e_to e)) edges inDegree, fold (\<lambda>e. List.insert (e_to e)) edges allNodes))) ns (m, all) = Inr (m', all') \<and>
    (\<forall>v. degOf m' v = degOf m v + sum_list (map (\<lambda>n. int (hits (E (n_id n)) v)) ns)) \<and>
    set all' = set all \<union> n_id ` set ns \<union> (\<Union>n \<in> set ns. e_to ` set (E (n_id n))) \<and> (distinct all \<longrightarrow> distinct all')"
proof (induction ns arbitrary: m all)
  case (Cons n ns)
  let ?m = "fold (\<lambda>e. addDeg 1 (e_to e)) (E (n_id n)) (if map_of m (n_id n) = None then AList.update (n_id n) 0 m else m)"
  let ?a = "fold (\<lambda>e. List.insert (e_to e)) (E (n_id n)) (List.insert (n_id n) all)"
  from Cons [of ?m ?a] show ?case using assms [of "n_id n"]
    by (auto simp: Let_def degOf_fold degOf_init set_fold_insert)
qed auto

context graph_store
begin

lemma topoDegrees_spec:
  assumes inv: "graph_inv B C db N G" and E: "\<And>u. getEdgesForNode B C u Outgoing db = Inr (E u)"
    and ends: "\<forall>x \<in> dom N. e_to ` set (E x) \<subseteq> dom N"
  shows "\<exists>m all. topoDegrees B C db = Inr (m, all) \<and> distinct all \<and> set all = dom N \<and> (\<forall>v. degOf m v = pending E (dom N) v)"
proof -
  obtain ns where ns: "\<And>fn st. forEachNode B C fn db (st :: (NodeID \<times> int) list \<times> NodeID list) = efold fn ns st" "distinct (map n_id ns)" "\<And>i. i \<in> n_id ` set ns \<longleftrightarrow> N i \<noteq> None"
    using forEachNode_nodes [OF inv] by blast
  have dom: "dom N = n_id ` set ns" using ns(3) by auto
  obtain m all where t: "topoDegrees B C db = Inr (m, all)" "\<And>v. degOf m v = degOf [] v + sum_list (map (\<lambda>n. int (hits (E (n_id n)) v)) ns)"
      "set all = set [] \<union> n_id ` set ns \<union> (\<Union>n \<in> set ns. e_to ` set (E (n_id n)))" "distinct all"
    using topoDegrees_fold [OF E, of ns "[]" "[]"] unfolding topoDegrees_def ns(1) by auto
  have "sum_list (map (\<lambda>n. int (hits (E (n_id n)) v)) ns) = pending E (dom N) v" for v
  proof -
    have "sum_list (map (\<lambda>i. int (hits (E i) v)) (map n_id ns)) = (\<Sum>i\<in>set (map n_id ns). int (hits (E i) v))"
      using ns(2) by (rule sum_list_distinct_conv_sum_set)
    then show ?thesis by (simp add: pending_def dom comp_def)
  qed
  then have "degOf m v = pending E (dom N) v" for v using t(2) [of v] by (simp add: degOf_def)
  moreover have "(\<Union>n \<in> set ns. e_to ` set (E (n_id n))) \<subseteq> n_id ` set ns" using ends unfolding dom by blast
  then have "set all = dom N" using t(3) unfolding dom by auto
  ultimately show ?thesis using t by blast
qed

end

section \<open>Properties\<close>

text \<open>
  C18. TopologicalSort on an open database, whatever order Go's map iteration takes: on a graph without
  cycles it returns every node exactly once with each edge pointing forward; on a graph with a cycle it
  reports the cycle and returns nothing. There is no other outcome.
\<close>

theorem topological_sort_correct:
  assumes "graph_store B C" and "graph_inv B C db N G" and "\<not> db_closed db" and "\<And>xs. mset (ord xs) = mset xs"
  shows "\<exists>E. (\<forall>u. getEdgesForNode B C u Outgoing db = Inr (E u)) \<and>
     (if acyclic (forward E (dom N)) then (\<exists>out. TopologicalSort B C ord db = Inr out \<and> topo_order E (dom N) out)
      else TopologicalSort B C ord db = Inl (ErrMsg ''graphdb: graph contains cycles, topological sort not possible''))"
proof -
  have "\<forall>u. \<exists>es. getEdgesForNode B C u Outgoing db = Inr es \<and> (\<forall>e \<in> set es. N (targetOf Outgoing u e) \<noteq> None)"
    using graph_store.edges_present [OF assms(1-3)] by blast
  then obtain E where E: "\<And>u. getEdgesForNode B C u Outgoing db = Inr (E u)" and t: "\<And>u e. e \<in> set (E u) \<Longrightarrow> N (targetOf Outgoing u e) \<noteq> None" by metis
  have ends: "\<forall>x \<in> dom N. e_to ` set (E x) \<subseteq> dom N" using t by (force simp: targetOf_def)
  obtain m all where d: "topoDegrees B C db = Inr (m, all)" "distinct all" "set all = dom N" "\<And>v. degOf m v = pending E (dom N) v"
    using graph_store.topoDegrees_spec [OF assms(1,2) E ends] by blast
  have ord: "set (ord all) = dom N" "distinct (ord all)" using assms(4) d(2,3) by (metis mset_eq_setD, metis mset_eq_imp_distinct_iff)
  let ?q = "filter (\<lambda>i. degOf m i = 0) (ord all)"
  have "kahn_inv E (dom N) m ?q []" using ord d(4) by (auto simp: kahn_inv_def)
  then obtain out m' where o: "topoLoop B C db m ?q [] = Inr out" "kahn_inv E (dom N) m' [] out" using kahn_loop [OF E ends] by blast
  have len: "length out = length all \<longleftrightarrow> set out = dom N"
  proof -
    have "distinct out" "set out \<subseteq> dom N" using o(2) by (simp_all add: kahn_inv_def)
    then show ?thesis using d(2,3) by (metis card_subset_eq distinct_card finite_set)
  qed
  have run: "TopologicalSort B C ord db = (if set out = dom N then Inr out
      else Inl (ErrMsg ''graphdb: graph contains cycles, topological sort not possible''))"
    using assms(3) d(1) o(1) len by (simp add: TopologicalSort_def)
  show ?thesis
  proof (cases "acyclic (forward E (dom N))")
    case True
    then have "set out = dom N" by (rule kahn_complete [OF o(2)])
    then show ?thesis using True E run kahn_sound [OF o(2)] by auto
  next
    case False
    then have "set out \<noteq> dom N" using kahn_sound [OF o(2)] topo_order_acyclic [OF _ ends] by blast
    then show ?thesis using False E run by auto
  qed
qed

theorem topological_sort_correct_witness:
  "TopologicalSort kvs_bolt str_codec rev edgeDB = Inr [1, 2]"
proof -
  obtain E where E: "\<forall>u. getEdgesForNode kvs_bolt str_codec u Outgoing edgeDB = Inr (E u)" and
     t: "if acyclic (forward E (dom demoNodes)) then (\<exists>out. TopologicalSort kvs_bolt str_codec rev edgeDB = Inr out \<and> topo_order E (dom demoNodes) out)
      else TopologicalSort kvs_bolt str_codec rev edgeDB = Inl (ErrMsg ''graphdb: graph contains cycles, topological sort not possible'')"
    using topological_sort_correct [OF kvs_graph_store edge_inv edge_fields(1) [THEN iffD1 [OF eq_False]], of rev] by auto
  have dom: "dom demoNodes = {1, 2}" by (auto simp: demoNodes_def)
  obtain e where "E 1 = [e]" "e_to e = 2" using edge_out [of 1] E by auto
  moreover have "E u = []" if "u \<noteq> 1" for u using edge_out [of u] E that by auto
  ultimately have "\<forall>u. E u = (if u = 1 then [e] else [])" "e_to e = 2" by simp_all
  then have fw: "forward E (dom demoNodes) = {(1, 2)}" by (auto simp: forward_def dom split: if_splits)
  have "acyclic {(1 :: NodeID, 2)}" by (simp add: acyclic_insert wf_acyclic)
  then have "acyclic (forward E (dom demoNodes))" unfolding fw .
  then obtain out where out: "TopologicalSort kvs_bolt str_codec rev edgeDB = Inr out" "topo_order E (dom demoNodes) out" using t by auto
  have d: "distinct out" "set out = {1, 2}" using out(2) by (simp_all add: topo_order_def dom)
  then have "length out = 2" using distinct_card [of out] by simp
  then obtain a b where ab: "out = [a, b]" by (auto simp: length_Suc_conv numeral_2_eq_2)
  have "\<not> (a = 2 \<and> b = 1)"
  proof
    assume h: "a = 2 \<and> b = 1"
    have "(out ! 1, out ! 0) \<in> forward E (dom demoNodes)" unfolding fw ab using h by simp
    moreover have "\<forall>i < length out. \<forall>j < length out. (out ! i, out ! j) \<in> forward E (dom demoNodes) \<longrightarrow> i < j"
      using out(2) unfolding topo_order_def by blast
    ultimately have "(1::nat) < 0" using ab by (metis One_nat_def length_Cons lessI list.size(3) zero_less_Suc)
    then show False by simp
  qed
  then have "out = [1, 2]" using d ab by auto
  then show ?thesis using out by simp
qed
end
