(* ===== verification/Schema.thy ===== *)
theory Schema
  imports System
begin

text \<open>
  The calls that change the schema: creating, dropping and rebuilding an index, creating a composite
  index, creating and dropping a unique constraint. Together with the calls on nodes and edges they are
  the steps of a leader whose reachable states all represent a property graph.
\<close>

section \<open>One transaction in every shard\<close>

text \<open>What such an operation leaves alone: everything but the files, the environment script and the log.\<close>

definition files_frame :: "'b DB \<Rightarrow> 'b DB \<Rightarrow> bool" where
  "files_frame db db' \<longleftrightarrow> length (files db') = length (files db) \<and> db_indexedProps db' = db_indexedProps db \<and>
     db_compositeIndexes db' = db_compositeIndexes db \<and> nodeCtr db' = nodeCtr db \<and> edgeCtr db' = edgeCtr db \<and>
     db_ncache db' = db_ncache db \<and> db_edgeBloom db' = db_edgeBloom db"

lemma files_frame_refl: "files_frame db db"
  by (simp add: files_frame_def)

lemma files_frame_trans: "files_frame a b \<Longrightarrow> files_frame b c \<Longrightarrow> files_frame a c"
  by (simp add: files_frame_def)

lemma ctr_data [simp]: "nodeCtr (updShard i (\<lambda>s. s\<lparr>s_data := d\<rparr>) db) = nodeCtr db" "edgeCtr (updShard i (\<lambda>s. s\<lparr>s_data := d\<rparr>) db) = edgeCtr db"
  by (cases "db_shards db"; cases i; simp add: nodeCtr_def edgeCtr_def updShard_def)+

lemma ctr_registries [simp]: "nodeCtr (db\<lparr>db_indexedProps := x\<rparr>) = nodeCtr db" "edgeCtr (db\<lparr>db_indexedProps := x\<rparr>) = edgeCtr db"
  "nodeCtr (db\<lparr>db_compositeIndexes := y\<rparr>) = nodeCtr db" "edgeCtr (db\<lparr>db_compositeIndexes := y\<rparr>) = edgeCtr db"
  "nodeCtr (db\<lparr>db_uniqueConstraints := z\<rparr>) = nodeCtr db" "edgeCtr (db\<lparr>db_uniqueConstraints := z\<rparr>) = edgeCtr db"
  by (simp_all add: nodeCtr_def edgeCtr_def)

lemma files_frame_write: "writeUpdate i tx db = (r, db') \<Longrightarrow> files_frame db db'"
  using ctr_writeUpdate [of i tx db] bloom_fields(3) [of i tx db]
  by (auto simp: files_frame_def writeUpdate_def Let_def split: option.splits sum.splits list.splits)

lemma forShards_writes:
  assumes "forShards is (\<lambda>i. writeUpdate i tx) db = (Inr u, db')" and "distinct is" and "set is \<subseteq> {..<length (files db)}"
  shows "files_frame db db' \<and> (\<forall>i < length (files db). if i \<in> set is then tx (files db ! i) = Inr (files db' ! i) else files db' ! i = files db ! i)"
  using assms
proof (induction "is" arbitrary: db)
  case (Cons i "is")
  obtain db1 where w: "writeUpdate i tx db = (Inr (), db1)" and r: "forShards is (\<lambda>i. writeUpdate i tx) db1 = (Inr u, db')"
    using Cons.prems(1) by (auto split: prod.splits sum.splits)
  have lt: "i < length (db_shards db)" using Cons.prems(3) by simp
  obtain d where d: "tx (files db ! i) = Inr d" and f1: "files db1 = (files db)[i := d]"
    using writeUpdate_Inr [OF w] files_nth [OF lt] by (metis files_fields(1) files_updShard_data)
  have fr: "files_frame db db1" by (rule files_frame_write [OF w])
  have ih: "files_frame db1 db' \<and> (\<forall>j < length (files db1). if j \<in> set is then tx (files db1 ! j) = Inr (files db' ! j) else files db' ! j = files db1 ! j)"
    by (rule Cons.IH [OF r]) (use Cons.prems f1 in auto)
  have "if j \<in> set (i # is) then tx (files db ! j) = Inr (files db' ! j) else files db' ! j = files db ! j" if j: "j < length (files db)" for j
  proof -
    have "if j \<in> set is then tx (files db1 ! j) = Inr (files db' ! j) else files db' ! j = files db1 ! j"
      using ih j unfolding f1 length_list_update by blast
    then show ?thesis using Cons.prems(2) d f1 lt by (cases "j = i") auto
  qed
  then show ?case using ih files_frame_trans [OF fr] by blast
qed (simp add: files_frame_refl)

text \<open>Keys added to, and removed from, a bucket of every shard.\<close>

lemma rep_keys_extend:
  assumes "rep_keys n K T N" and "\<And>s k. s < n \<Longrightarrow> T' s k \<noteq> None \<longleftrightarrow> T s k \<noteq> None \<or> (\<exists>i x. N i = Some x \<and> route n i = s \<and> k \<in> L i x)"
    and "\<And>i x. K' i x = K i x \<union> L i x"
  shows "rep_keys n K' T' N"
  using assms(1,2) unfolding rep_keys_def assms(3) by blast

text \<open>The graph is what the files hold outside the index buckets.\<close>

definition same_data :: "'b buckets \<Rightarrow> 'b buckets \<Rightarrow> bool" where
  "same_data d d' \<longleftrightarrow> bk_nodes d' = bk_nodes d \<and> bk_node_labels d' = bk_node_labels d \<and> bk_idx_node_label d' = bk_idx_node_label d \<and>
     bk_edges d' = bk_edges d \<and> bk_adj_out d' = bk_adj_out d \<and> bk_adj_in d' = bk_adj_in d \<and> bk_idx_edge_type d' = bk_idx_edge_type d"

definition same_indexed :: "'b buckets \<Rightarrow> 'b buckets \<Rightarrow> bool" where
  "same_indexed d d' \<longleftrightarrow> same_data d d' \<and> bk_idx_prop d' = bk_idx_prop d \<and> bk_idx_composite d' = bk_idx_composite d"

definition graph_frame :: "'b DB \<Rightarrow> 'b DB \<Rightarrow> bool" where
  "graph_frame db db' \<longleftrightarrow> files_frame db db' \<and> (\<forall>s < length (files db). same_indexed (files db ! s) (files db' ! s))"

lemma graph_frame_refl: "graph_frame db db"
  by (simp add: graph_frame_def files_frame_refl same_indexed_def same_data_def)

lemma graph_frame_trans: "graph_frame a b \<Longrightarrow> graph_frame b c \<Longrightarrow> graph_frame a c"
  unfolding graph_frame_def by (auto simp: files_frame_def same_indexed_def same_data_def)

lemma graph_frame_write:
  assumes "writeUpdate i tx db = (r, db')" and "\<And>d d'. tx d = Inr d' \<Longrightarrow> same_indexed d d'"
  shows "graph_frame db db'"
proof (cases r)
  case (Inl e)
  then show ?thesis using files_frame_write [OF assms(1)] writeUpdate_Inl [of i tx db e db'] assms(1)
    by (simp add: graph_frame_def same_indexed_def same_data_def)
next
  case (Inr u)
  then obtain d where d: "tx (bucketsOf db i) = Inr d" "files db' = (files db)[i := d]"
    using writeUpdate_Inr [of i tx db u db'] assms(1) by (metis files_fields(1) files_updShard_data)
  have "same_indexed (files db ! s) (files db' ! s)" if "s < length (files db)" for s
    using assms(2) [OF d(1)] d(2) files_nth [of i db] that by (cases "s = i") (auto simp: same_indexed_def same_data_def)
  then show ?thesis using files_frame_write [OF assms(1)] by (simp add: graph_frame_def)
qed

lemma graph_frame_forShards:
  assumes "\<And>i db r db'. f i db = (r, db') \<Longrightarrow> graph_frame db db'"
  shows "forShards is f db = (r, db') \<Longrightarrow> graph_frame db db'"
proof (induction "is" arbitrary: db)
  case (Cons i "is")
  obtain r1 db1 where w: "f i db = (r1, db1)" by fastforce
  then show ?case using Cons assms [OF w] graph_frame_trans [of db db1 db'] by (auto split: sum.splits)
qed (simp add: graph_frame_refl)

lemma rep_congs:
  assumes "\<And>s. s < n \<Longrightarrow> T' s = T s"
  shows "rep_keys n K T' N = rep_keys n K T N" "rep_index n home key val T' G = rep_index n home key val T G"
    and "0 < n \<Longrightarrow> rep_vals n V T' N = rep_vals n V T N" "0 < n \<Longrightarrow> rep_records C n T' G = rep_records C n T G"
proof -
  show "rep_keys n K T' N = rep_keys n K T N" unfolding rep_keys_def using assms by metis
  show "rep_index n home key val T' G = rep_index n home key val T G" unfolding rep_index_def by (simp add: assms)
  assume n: "0 < n"
  then have r: "T' (route n i) = T (route n i)" for i by (rule assms [OF route_less])
  show "rep_vals n V T' N = rep_vals n V T N" unfolding rep_vals_def r ..
  have "(\<forall>i < n. \<forall>k v. T' i k = Some v \<longrightarrow> P i k v) \<longleftrightarrow> (\<forall>i < n. \<forall>k v. T i k = Some v \<longrightarrow> P i k v)" for P using assms by metis
  then show "rep_records C n T' G = rep_records C n T G" unfolding rep_records_def r by simp
qed

lemma same_data_rep:
  assumes "length ds' = length ds" and "\<And>s. s < length ds \<Longrightarrow> same_data (ds ! s) (ds' ! s)"
  shows "nodes_rep B C ds N \<Longrightarrow> nodes_rep B C ds' N" "edges_rep B C ds G \<Longrightarrow> edges_rep B C ds' G"
proof -
  have e: "s < length ds \<Longrightarrow> bk_nodes (ds' ! s) = bk_nodes (ds ! s)" "s < length ds \<Longrightarrow> bk_node_labels (ds' ! s) = bk_node_labels (ds ! s)"
    "s < length ds \<Longrightarrow> bk_idx_node_label (ds' ! s) = bk_idx_node_label (ds ! s)" "s < length ds \<Longrightarrow> bk_edges (ds' ! s) = bk_edges (ds ! s)"
    "s < length ds \<Longrightarrow> bk_adj_out (ds' ! s) = bk_adj_out (ds ! s)" "s < length ds \<Longrightarrow> bk_adj_in (ds' ! s) = bk_adj_in (ds ! s)"
    "s < length ds \<Longrightarrow> bk_idx_edge_type (ds' ! s) = bk_idx_edge_type (ds ! s)" for s
    using assms(2) by (simp_all add: same_data_def)
  show "nodes_rep B C ds' N" if "nodes_rep B C ds N"
    using that assms(1) e(1-3)
      rep_congs(1) [where n = "length ds" and T' = "\<lambda>s. b_get B (bk_nodes (ds' ! s))" and T = "\<lambda>s. b_get B (bk_nodes (ds ! s))" and K = nodeKeys]
      rep_congs(1) [where n = "length ds" and T' = "\<lambda>s. b_get B (bk_node_labels (ds' ! s))" and T = "\<lambda>s. b_get B (bk_node_labels (ds ! s))" and K = labelRecKeys]
      rep_congs(1) [where n = "length ds" and T' = "\<lambda>s. b_get B (bk_idx_node_label (ds' ! s))" and T = "\<lambda>s. b_get B (bk_idx_node_label (ds ! s))" and K = labelKeys]
      rep_congs(3) [where n = "length ds" and T' = "\<lambda>s. b_get B (bk_nodes (ds' ! s))" and T = "\<lambda>s. b_get B (bk_nodes (ds ! s))" and V = "propsVal C"]
      rep_congs(3) [where n = "length ds" and T' = "\<lambda>s. b_get B (bk_node_labels (ds' ! s))" and T = "\<lambda>s. b_get B (bk_node_labels (ds ! s))" and V = "labelsVal C"]
    unfolding nodes_rep_def by auto
  show "edges_rep B C ds' G" if "edges_rep B C ds G"
    using that assms(1) e(4-7)
      rep_congs(4) [where n = "length ds" and T' = "\<lambda>s. b_get B (bk_edges (ds' ! s))" and T = "\<lambda>s. b_get B (bk_edges (ds ! s))" and C = C]
      rep_congs(2) [where n = "length ds" and T' = "\<lambda>s. b_get B (bk_adj_out (ds' ! s))" and T = "\<lambda>s. b_get B (bk_adj_out (ds ! s))"]
      rep_congs(2) [where n = "length ds" and T' = "\<lambda>s. b_get B (bk_adj_in (ds' ! s))" and T = "\<lambda>s. b_get B (bk_adj_in (ds ! s))"]
      rep_congs(2) [where n = "length ds" and T' = "\<lambda>s. b_get B (bk_idx_edge_type (ds' ! s))" and T = "\<lambda>s. b_get B (bk_idx_edge_type (ds ! s))"]
    unfolding edges_rep_def by auto
qed

context graph_store
begin

text \<open>A loop over the nodes of a file that puts a key for some of them.\<close>

lemma efold_put_nodes:
  assumes "efold (\<lambda>kv b. case f kv of None \<Rightarrow> Inr b | Some k \<Rightarrow> b_put B b k []) kvs b = Inr b'"
  shows "b_get B b' k \<noteq> None \<longleftrightarrow> b_get B b k \<noteq> None \<or> (\<exists>kv \<in> set kvs. f kv = Some k)"
  using assms
proof (induction kvs arbitrary: b)
  case (Cons kv kvs)
  show ?case
  proof (cases "f kv")
    case None
    then show ?thesis using Cons by auto
  next
    case (Some k1)
    then obtain b1 where "b_put B b k1 [] = Inr b1" "efold (\<lambda>kv b. case f kv of None \<Rightarrow> Inr b | Some k \<Rightarrow> b_put B b k []) kvs b1 = Inr b'"
      using Cons.prems by auto
    then show ?thesis using Cons.IH [of b1] get_put [of b k1 "[]" b1] Some by auto
  qed
qed simp

lemma createIndexTx_keys:
  assumes rep: "nodes_rep B C ds N" and s: "s < length ds" and tx: "createIndexTx B C p (ds ! s) = Inr d'"
  shows "\<exists>b. d' = (ds ! s)\<lparr>bk_idx_prop := b\<rparr> \<and> (\<forall>k. b_get B b k \<noteq> None \<longleftrightarrow> b_get B (bk_idx_prop (ds ! s)) k \<noteq> None \<or>
     (\<exists>i x. N i = Some x \<and> route (length ds) i = s \<and> k \<in> propKeys C [p] i x))"
proof -
  let ?kvs = "b_cursor B (bk_nodes (ds ! s))"
  define f where "f kv = (case decodeProps C (snd kv) of Inl _ \<Rightarrow> None | Inr q \<Rightarrow> map_option (\<lambda>v. propIdxKey C p v (the (decodeNodeID (fst kv)))) (map_of q p))" for kv :: "bytes \<times> bytes"
  have step: "(case decodeProps C (snd kv) of Inl _ \<Rightarrow> Inr b | Inr props \<Rightarrow> (case map_of props p of None \<Rightarrow> Inr b
           | Some v \<Rightarrow> ebind (keyID (fst kv)) (\<lambda>i. b_put B b (propIdxKey C p v i) []))) = (case f kv of None \<Rightarrow> Inr b | Some k \<Rightarrow> b_put B b k [])"
    if "kv \<in> set ?kvs" for kv b
    using node_cursor [OF rep s that] by (auto simp: f_def keyID_def encodeNodeID_def decodeNodeID_def split: option.splits)
  have eq: "forEachInBucket B (bk_nodes (ds ! s)) (\<lambda>kv b. case decodeProps C (snd kv) of Inl _ \<Rightarrow> Inr b
      | Inr props \<Rightarrow> (case map_of props p of None \<Rightarrow> Inr b
           | Some v \<Rightarrow> ebind (keyID (fst kv)) (\<lambda>i. b_put B b (propIdxKey C p v i) []))) (bk_idx_prop (ds ! s))
     = efold (\<lambda>kv b. case f kv of None \<Rightarrow> Inr b | Some k \<Rightarrow> b_put B b k []) ?kvs (bk_idx_prop (ds ! s))"
    unfolding forEachInBucket_def by (rule efold_cong) (rule step)
  obtain b where b: "efold (\<lambda>kv b. case f kv of None \<Rightarrow> Inr b | Some k \<Rightarrow> b_put B b k []) ?kvs (bk_idx_prop (ds ! s)) = Inr b" and d': "d' = (ds ! s)\<lparr>bk_idx_prop := b\<rparr>"
    using tx unfolding createIndexTx_def eq by auto
  have "(\<exists>kv \<in> set ?kvs. f kv = Some k) \<longleftrightarrow> (\<exists>i x. N i = Some x \<and> route (length ds) i = s \<and> k \<in> propKeys C [p] i x)" for k
  proof
    assume "\<exists>kv \<in> set ?kvs. f kv = Some k"
    then obtain kv where kv: "kv \<in> set ?kvs" "f kv = Some k" by blast
    obtain i x q where h: "fst kv = encodeNodeID i" "N i = Some x" "route (length ds) i = s" "decodeProps C (snd kv) = Inr q" "text_eq C (snd x) q"
      using node_cursor [OF rep s kv(1)] by blast
    have "k \<in> set (propKeyList C [p] i q)" using kv(2) h(1,4) by (auto simp: f_def propKeyList_def decodeNodeID_def encodeNodeID_def split: option.splits)
    then have "k \<in> propKeys C [p] i x" by (simp add: propKeys_def propKeyList_text [OF h(5)])
    then show "\<exists>i x. N i = Some x \<and> route (length ds) i = s \<and> k \<in> propKeys C [p] i x" using h(2,3) by blast
  next
    assume "\<exists>i x. N i = Some x \<and> route (length ds) i = s \<and> k \<in> propKeys C [p] i x"
    then obtain i x where h: "N i = Some x" "route (length ds) i = s" "k \<in> propKeys C [p] i x" by blast
    have at: "node_at B C i (Some x) (ds ! s)" using rep_node_at [OF rep, of i] h by simp
    then obtain data where data: "b_get B (bk_nodes (ds ! s)) (encodeNodeID i) = Some data" using node_at_data(1) [OF at] by fastforce
    then obtain q where q: "decodeProps C data = Inr q" "text_eq C (snd x) q" using node_at_data(2) [OF at data] by auto
    have "k \<in> set (propKeyList C [p] i q)" using h(3) propKeyList_text [OF q(2)] by (simp add: propKeys_def)
    then have "f (encodeNodeID i, data) = Some k"
      using q(1) by (cases "map_of q p") (auto simp: f_def propKeyList_def decodeNodeID_def encodeNodeID_def)
    then show "\<exists>kv \<in> set ?kvs. f kv = Some k" using data set_cursor by blast
  qed
  then show ?thesis using d' efold_put_nodes [OF b] by auto
qed


lemma propKeys_store: "propKeys C (storeKey p idx) i x = propKeys C idx i x \<union> propKeys C [p] i x"
  by (auto simp: propKeys_def propKeyList_def storeKey_def split: option.splits)

lemma graph_inv_schema:
  assumes inv: "graph_inv B C db N G" and fr: "files_frame db db1"
    and data: "\<And>s. s < length (files db) \<Longrightarrow> same_data (files db ! s) (files db1 ! s)"
    and ix: "index_rep B C idx defs (files db1) N"
  shows "graph_inv B C (db1\<lparr>db_indexedProps := idx, db_compositeIndexes := defs\<rparr>) N G"
proof -
  note inv' = inv [unfolded graph_inv_def]
  have len: "length (files db1) = length (files db)" using fr by (simp add: files_frame_def)
  have "nodes_rep B C (files db1) N" "edges_rep B C (files db1) G"
    using same_data_rep [OF len data] inv' by blast+
  then show ?thesis using inv' ix fr
    by (simp add: graph_inv_def cache_ok_def node_ids_bounded_def edge_ids_bounded_def bloom_covers_def files_frame_def)
qed


lemma graph_inv_index_rep: "graph_inv B C db N G \<Longrightarrow> index_rep B C (db_indexedProps db) (db_compositeIndexes db) (files db) N"
  by (simp add: graph_inv_def)

lemma CreateIndex_step:
  assumes inv: "graph_inv B C db N G" and op: "CreateIndex B C W p db = (Inr u, db')"
  shows "graph_inv B C db' N G"
proof -
  let ?n = "length (files db)" and ?idx = "storeKey p (db_indexedProps db)"
  obtain v db1 where f: "forShards [0..<length (db_shards db)] (\<lambda>i. writeUpdate i (createIndexTx B C p)) db = (Inr v, db1)"
    and db': "db' = walAppend W (WALCreateIndex p) (db1\<lparr>db_indexedProps := storeKey p (db_indexedProps db1)\<rparr>)"
    using guarded_Inr [OF op [unfolded CreateIndex_def]] by (auto split: sum.splits prod.splits)
  have w: "files_frame db db1" and tx: "\<And>s. s < ?n \<Longrightarrow> createIndexTx B C p (files db ! s) = Inr (files db1 ! s)"
    using forShards_writes [OF f distinct_upt] by (force simp: lessThan_atLeast0)+
  have len: "length (files db1) = ?n" using w by (simp add: files_frame_def)
  have nodes: "nodes_rep B C (files db) N" using inv by (simp add: graph_inv_def)
  have keys: "\<exists>b. files db1 ! s = (files db ! s)\<lparr>bk_idx_prop := b\<rparr> \<and> (\<forall>k. b_get B b k \<noteq> None \<longleftrightarrow> b_get B (bk_idx_prop (files db ! s)) k \<noteq> None \<or>
     (\<exists>i x. N i = Some x \<and> route ?n i = s \<and> k \<in> propKeys C [p] i x))" if "s < ?n" for s
    by (rule createIndexTx_keys [OF nodes that tx [OF that]])
  have frame: "same_data (files db ! s) (files db1 ! s)" "bk_idx_composite (files db1 ! s) = bk_idx_composite (files db ! s)" if "s < ?n" for s
    using keys [OF that] by (auto simp: same_data_def)
  have "index_rep B C ?idx (db_compositeIndexes db) (files db1) N"
  proof -
    note ix = graph_inv_index_rep [OF inv, unfolded index_rep_def]
    have "rep_keys ?n (propKeys C ?idx) (\<lambda>s. b_get B (bk_idx_prop (files db1 ! s))) N"
    proof (rule rep_keys_extend [where L = "propKeys C [p]"])
      show "rep_keys ?n (propKeys C (db_indexedProps db)) (\<lambda>s. b_get B (bk_idx_prop (files db ! s))) N" using ix by blast
      show "b_get B (bk_idx_prop (files db1 ! s)) k \<noteq> None \<longleftrightarrow> b_get B (bk_idx_prop (files db ! s)) k \<noteq> None \<or>
          (\<exists>i x. N i = Some x \<and> route ?n i = s \<and> k \<in> propKeys C [p] i x)" if lt: "s < ?n" for s k
      proof -
        obtain b where b: "files db1 ! s = (files db ! s)\<lparr>bk_idx_prop := b\<rparr>" and bk: "\<forall>k. b_get B b k \<noteq> None \<longleftrightarrow>
          b_get B (bk_idx_prop (files db ! s)) k \<noteq> None \<or> (\<exists>i x. N i = Some x \<and> route ?n i = s \<and> k \<in> propKeys C [p] i x)"
          using keys [OF lt] by (elim exE conjE)
        have "bk_idx_prop (files db1 ! s) = b" unfolding b by simp
        then show ?thesis using bk [rule_format, of k] by (simp only:)
      qed
    qed (rule propKeys_store)
    moreover have "rep_keys ?n (compKeys C (db_compositeIndexes db)) (\<lambda>s. b_get B (bk_idx_composite (files db1 ! s))) N"
      by (subst rep_congs(1) [where T = "\<lambda>s. b_get B (bk_idx_composite (files db ! s))"]) (use frame(2) ix in auto)
    ultimately show ?thesis using ix len by (simp add: index_rep_def)
  qed
  from graph_inv_schema [OF inv w frame(1) this]
  have "graph_inv B C (db1\<lparr>db_indexedProps := ?idx, db_compositeIndexes := db_compositeIndexes db\<rparr>) N G" by blast
  moreover have "db1\<lparr>db_indexedProps := ?idx, db_compositeIndexes := db_compositeIndexes db\<rparr> = db1\<lparr>db_indexedProps := ?idx\<rparr>"
    using w by (simp add: files_frame_def)
  ultimately show ?thesis using w by (simp add: db' files_frame_def)
qed


section \<open>Dropping an index\<close>

end

definition colon_free :: "string \<Rightarrow> bool" where
  "colon_free s \<longleftrightarrow> CHR '':'' \<notin> set s"

lemma colon_prefix: "colon_free p \<Longrightarrow> colon_free q \<Longrightarrow> prefix (p @ '':'') (q @ '':'' @ r) \<longleftrightarrow> p = q"
proof -
  assume h: "colon_free p" "colon_free q"
  have t: "takeWhile (\<lambda>c. c \<noteq> CHR '':'') (s @ '':'' @ r) = s" if "colon_free s" for s r
    using that by (subst takeWhile_append2) (auto simp: colon_free_def)
  show ?thesis
  proof
    assume "prefix (p @ '':'') (q @ '':'' @ r)"
    then obtain r' where "q @ '':'' @ r = p @ '':'' @ r'" by (auto simp: prefix_def)
    then show "p = q" using t [OF h(1), of r'] t [OF h(2), of r] by simp
  qed simp
qed

lemma propKeys_drop:
  assumes "colon_free p" and "\<forall>q \<in> set idx. colon_free q"
  shows "k \<in> propKeys C (removeAll p idx) i x \<longleftrightarrow> k \<in> propKeys C idx i x \<and> \<not> prefix (p @ '':'') k"
proof -
  have "prefix (p @ '':'') (propIdxKey C q v i) \<longleftrightarrow> p = q" if "q \<in> set idx" for q v
    using colon_prefix [OF assms(1), of q] assms(2) that by (simp add: propIdxKey_def encodeIndexKey_def)
  then show ?thesis by (auto simp: propKeys_def propKeyList_def split: option.splits)
qed

context graph_store
begin

lemma DropIndex_step:
  assumes inv: "graph_inv B C db N G" and op: "DropIndex B W p db = (Inr u, db')"
    and plain: "colon_free p" "\<forall>q \<in> set (db_indexedProps db). colon_free q"
  shows "graph_inv B C db' N G"
proof -
  let ?n = "length (files db)" and ?idx = "removeAll p (db_indexedProps db)"
  obtain v db1 where f: "forShards [0..<length (db_shards db)] (\<lambda>i. writeUpdate i (dropIndexTx B p)) db = (Inr v, db1)"
    and db': "db' = walAppend W (WALDropIndex p) (db1\<lparr>db_indexedProps := removeAll p (db_indexedProps db1)\<rparr>)"
    using guarded_Inr [OF op [unfolded DropIndex_def]] by (auto split: sum.splits prod.splits)
  have w: "files_frame db db1" and tx: "\<And>s. s < ?n \<Longrightarrow> dropIndexTx B p (files db ! s) = Inr (files db1 ! s)"
    using forShards_writes [OF f distinct_upt] by (force simp: lessThan_atLeast0)+
  have len: "length (files db1) = ?n" using w by (simp add: files_frame_def)
  have keys: "files db1 ! s = (files db ! s)\<lparr>bk_idx_prop := bk_idx_prop (files db1 ! s)\<rparr> \<and>
      b_get B (bk_idx_prop (files db1 ! s)) = (\<lambda>k. if prefix (p @ '':'') k then None else b_get B (bk_idx_prop (files db ! s)) k)" if "s < ?n" for s
  proof -
    obtain b where "deletePrefix B (p @ '':'') (bk_idx_prop (files db ! s)) = Inr b"
      "b_get B b = (\<lambda>k. if prefix (p @ '':'') k then None else b_get B (bk_idx_prop (files db ! s)) k)" using deletePrefix_get by blast
    moreover from this tx [OF that] have "files db1 ! s = (files db ! s)\<lparr>bk_idx_prop := b\<rparr>" by (simp add: dropIndexTx_def)
    ultimately show ?thesis by simp
  qed
  have frame: "same_data (files db ! s) (files db1 ! s)" "bk_idx_composite (files db1 ! s) = bk_idx_composite (files db ! s)" if lt: "s < ?n" for s
  proof -
    obtain b where "files db1 ! s = (files db ! s)\<lparr>bk_idx_prop := b\<rparr>" using keys [OF lt] by blast
    then show "same_data (files db ! s) (files db1 ! s)" "bk_idx_composite (files db1 ! s) = bk_idx_composite (files db ! s)"
      by (simp_all add: same_data_def)
  qed
  have "index_rep B C ?idx (db_compositeIndexes db) (files db1) N"
  proof -
    note ix = graph_inv_index_rep [OF inv, unfolded index_rep_def]
    have "rep_keys ?n (propKeys C (db_indexedProps db)) (\<lambda>s. b_get B (bk_idx_prop (files db ! s))) N" using ix by blast
    then have "rep_keys ?n (propKeys C ?idx) (\<lambda>s. b_get B (bk_idx_prop (files db1 ! s))) N"
      unfolding rep_keys_def propKeys_drop [OF plain] using keys by auto
    moreover have "rep_keys ?n (compKeys C (db_compositeIndexes db)) (\<lambda>s. b_get B (bk_idx_composite (files db1 ! s))) N"
      by (subst rep_congs(1) [where T = "\<lambda>s. b_get B (bk_idx_composite (files db ! s))"]) (use frame(2) ix in auto)
    ultimately show ?thesis using ix len by (simp add: index_rep_def)
  qed
  from graph_inv_schema [OF inv w frame(1) this]
  have "graph_inv B C (db1\<lparr>db_indexedProps := ?idx, db_compositeIndexes := db_compositeIndexes db\<rparr>) N G" by blast
  moreover have "db1\<lparr>db_indexedProps := ?idx, db_compositeIndexes := db_compositeIndexes db\<rparr> = db1\<lparr>db_indexedProps := ?idx\<rparr>"
    using w by (simp add: files_frame_def)
  ultimately show ?thesis using w by (simp add: db' files_frame_def)
qed


section \<open>Composite indexes and unique constraints\<close>

lemma set_update: "set (AList.update k v xs) \<subseteq> insert (k, v) (set xs)"
  by (induction xs) auto

lemma compKeys_store:
  assumes "map_of defs key = None \<or> map_of defs key = Some def"
  shows "compKeys C (AList.update key def defs) i x = compKeys C defs i x \<union> compKeys C [(key, def)] i x"
proof (cases "map_of defs key")
  case None
  then have "AList.update key def defs = defs @ [(key, def)]" by (induction defs) (auto split: if_splits)
  then show ?thesis by (simp add: compKeys_def compKeyList_def)
next
  case (Some d)
  then have "AList.update key def defs = defs" "(key, def) \<in> set defs" using assms by (simp_all add: update_triv map_of_SomeD)
  then show ?thesis by (force simp: compKeys_def compKeyList_def)
qed

lemma createCompositeTx_keys:
  assumes rep: "nodes_rep B C ds N" and s: "s < length ds" and tx: "createCompositeTx B C def (ds ! s) = Inr d'"
  shows "\<exists>b. d' = (ds ! s)\<lparr>bk_idx_composite := b\<rparr> \<and> (\<forall>k. b_get B b k \<noteq> None \<longleftrightarrow> b_get B (bk_idx_composite (ds ! s)) k \<noteq> None \<or>
     (\<exists>i x. N i = Some x \<and> route (length ds) i = s \<and> k \<in> compKeys C [(cid_Key def, def)] i x))"
proof -
  let ?kvs = "b_cursor B (bk_nodes (ds ! s))"
  define f where "f kv = (case decodeProps C (snd kv) of Inl _ \<Rightarrow> None | Inr q \<Rightarrow> buildCompositeKey C def q (the (decodeNodeID (fst kv))))" for kv :: "bytes \<times> bytes"
  have dec: "decodeNodeID (encodeNodeID i) = Some i" for i by (simp add: decodeNodeID_def encodeNodeID_def)
  have step: "(case decodeProps C (snd kv) of Inl _ \<Rightarrow> Inr b
       | Inr props \<Rightarrow> ebind (keyID (fst kv)) (\<lambda>i.
           case buildCompositeKey C def props i of None \<Rightarrow> Inr b | Some key \<Rightarrow> b_put B b key [])) = (case f kv of None \<Rightarrow> Inr b | Some k \<Rightarrow> b_put B b k [])"
    if "kv \<in> set ?kvs" for kv b
    using node_cursor [OF rep s that] by (auto simp: f_def keyID_def encodeNodeID_def decodeNodeID_def split: option.splits)
  have eq: "forEachInBucket B (bk_nodes (ds ! s)) (\<lambda>kv b. case decodeProps C (snd kv) of Inl _ \<Rightarrow> Inr b
       | Inr props \<Rightarrow> ebind (keyID (fst kv)) (\<lambda>i.
           case buildCompositeKey C def props i of None \<Rightarrow> Inr b | Some key \<Rightarrow> b_put B b key [])) (bk_idx_composite (ds ! s))
     = efold (\<lambda>kv b. case f kv of None \<Rightarrow> Inr b | Some k \<Rightarrow> b_put B b k []) ?kvs (bk_idx_composite (ds ! s))"
    unfolding forEachInBucket_def by (rule efold_cong) (rule step)
  obtain b where b: "efold (\<lambda>kv b. case f kv of None \<Rightarrow> Inr b | Some k \<Rightarrow> b_put B b k []) ?kvs (bk_idx_composite (ds ! s)) = Inr b"
    and d': "d' = (ds ! s)\<lparr>bk_idx_composite := b\<rparr>"
    using tx unfolding createCompositeTx_def eq by auto
  have f_key: "f (encodeNodeID i, data) = Some k \<longleftrightarrow> k \<in> compKeys C [(cid_Key def, def)] i x"
    if "decodeProps C data = Inr q" "text_eq C (snd x) q" for i data q x k
    using that compKeyList_text [OF that(2), of "[(cid_Key def, def)]" i]
    by (auto simp: f_def dec compKeys_def compKeyList_def split: option.splits)
  have "(\<exists>kv \<in> set ?kvs. f kv = Some k) \<longleftrightarrow> (\<exists>i x. N i = Some x \<and> route (length ds) i = s \<and> k \<in> compKeys C [(cid_Key def, def)] i x)" for k
  proof
    assume "\<exists>kv \<in> set ?kvs. f kv = Some k"
    then obtain kv where kv: "kv \<in> set ?kvs" "f kv = Some k" by blast
    obtain i x q where h: "fst kv = encodeNodeID i" "N i = Some x" "route (length ds) i = s" "decodeProps C (snd kv) = Inr q" "text_eq C (snd x) q"
      using node_cursor [OF rep s kv(1)] by blast
    have "f (encodeNodeID i, snd kv) = Some k" using kv(2) h(1) by (metis prod.collapse)
    then show "\<exists>i x. N i = Some x \<and> route (length ds) i = s \<and> k \<in> compKeys C [(cid_Key def, def)] i x" using h(2,3) f_key [OF h(4,5)] by blast
  next
    assume "\<exists>i x. N i = Some x \<and> route (length ds) i = s \<and> k \<in> compKeys C [(cid_Key def, def)] i x"
    then obtain i x where h: "N i = Some x" "route (length ds) i = s" "k \<in> compKeys C [(cid_Key def, def)] i x" by blast
    have at: "node_at B C i (Some x) (ds ! s)" using rep_node_at [OF rep, of i] h by simp
    then obtain data where data: "b_get B (bk_nodes (ds ! s)) (encodeNodeID i) = Some data" using node_at_data(1) [OF at] by fastforce
    then obtain q where q: "decodeProps C data = Inr q" "text_eq C (snd x) q" using node_at_data(2) [OF at data] by auto
    then have "f (encodeNodeID i, data) = Some k" using f_key [OF q] h(3) by blast
    then show "\<exists>kv \<in> set ?kvs. f kv = Some k" using data set_cursor by blast
  qed
  then show ?thesis using d' efold_put_nodes [OF b] by auto
qed


lemma CreateCompositeIndex_step:
  assumes inv: "graph_inv B C db N G" and op: "CreateCompositeIndex B C W ps db = (Inr u, db')"
    and key: "map_of (db_compositeIndexes db) (cid_Key (newCompositeIndexDef ps)) \<in> {None, Some (newCompositeIndexDef ps)}"
  shows "graph_inv B C db' N G"
proof -
  let ?n = "length (files db)" and ?def = "newCompositeIndexDef ps"
  let ?key = "cid_Key ?def"
  let ?defs = "AList.update ?key ?def (db_compositeIndexes db)"
  obtain v db1 where f: "forShards [0..<length (db_shards db)] (\<lambda>i. writeUpdate i (createCompositeTx B C ?def)) db = (Inr v, db1)"
    and db': "db' = walAppend W (WALCreateCompositeIndex ps) (db1\<lparr>db_compositeIndexes := AList.update ?key ?def (db_compositeIndexes db1)\<rparr>)"
    and two: "2 \<le> length ps"
    using guarded_Inr [OF op [unfolded CreateCompositeIndex_def]] by (auto simp: Let_def split: sum.splits prod.splits if_splits)
  have w: "files_frame db db1" and tx: "\<And>s. s < ?n \<Longrightarrow> createCompositeTx B C ?def (files db ! s) = Inr (files db1 ! s)"
    using forShards_writes [OF f distinct_upt] by (force simp: lessThan_atLeast0)+
  have len: "length (files db1) = ?n" using w by (simp add: files_frame_def)
  have nodes: "nodes_rep B C (files db) N" using inv by (simp add: graph_inv_def)
  have keys: "\<exists>b. files db1 ! s = (files db ! s)\<lparr>bk_idx_composite := b\<rparr> \<and> (\<forall>k. b_get B b k \<noteq> None \<longleftrightarrow> b_get B (bk_idx_composite (files db ! s)) k \<noteq> None \<or>
     (\<exists>i x. N i = Some x \<and> route ?n i = s \<and> k \<in> compKeys C [(?key, ?def)] i x))" if "s < ?n" for s
    by (rule createCompositeTx_keys [OF nodes that tx [OF that]])
  have frame: "same_data (files db ! s) (files db1 ! s)" "bk_idx_prop (files db1 ! s) = bk_idx_prop (files db ! s)" if "s < ?n" for s
    using keys [OF that] by (auto simp: same_data_def)
  have "index_rep B C (db_indexedProps db) ?defs (files db1) N"
  proof -
    note ix = graph_inv_index_rep [OF inv, unfolded index_rep_def]
    have comp: "rep_keys ?n (compKeys C ?defs) (\<lambda>s. b_get B (bk_idx_composite (files db1 ! s))) N"
    proof (rule rep_keys_extend [where L = "compKeys C [(?key, ?def)]"])
      show "rep_keys ?n (compKeys C (db_compositeIndexes db)) (\<lambda>s. b_get B (bk_idx_composite (files db ! s))) N" using ix by blast
      show "b_get B (bk_idx_composite (files db1 ! s)) k \<noteq> None \<longleftrightarrow> b_get B (bk_idx_composite (files db ! s)) k \<noteq> None \<or>
          (\<exists>i x. N i = Some x \<and> route ?n i = s \<and> k \<in> compKeys C [(?key, ?def)] i x)" if lt: "s < ?n" for s k
      proof -
        obtain b where b: "files db1 ! s = (files db ! s)\<lparr>bk_idx_composite := b\<rparr>" and bk: "\<forall>k. b_get B b k \<noteq> None \<longleftrightarrow>
          b_get B (bk_idx_composite (files db ! s)) k \<noteq> None \<or> (\<exists>i x. N i = Some x \<and> route ?n i = s \<and> k \<in> compKeys C [(?key, ?def)] i x)"
          using keys [OF lt] by (elim exE conjE)
        have "bk_idx_composite (files db1 ! s) = b" unfolding b by simp
        then show ?thesis using bk [rule_format, of k] by (simp only:)
      qed
      show "compKeys C ?defs i x = compKeys C (db_compositeIndexes db) i x \<union> compKeys C [(?key, ?def)] i x" for i x
        by (rule compKeys_store) (use key in auto)
    qed
    have props: "rep_keys ?n (propKeys C (db_indexedProps db)) (\<lambda>s. b_get B (bk_idx_prop (files db1 ! s))) N"
      by (subst rep_congs(1) [where T = "\<lambda>s. b_get B (bk_idx_prop (files db ! s))"]) (use frame(2) ix in auto)
    have "cid_Properties (snd kd) \<noteq> []" if kd: "kd \<in> set ?defs" for kd
    proof -
      have "kd = (?key, ?def) \<or> kd \<in> set (db_compositeIndexes db)" using set_update [of ?key ?def "db_compositeIndexes db"] kd by blast
      moreover have "cid_Properties ?def \<noteq> []" using two by (auto simp: newCompositeIndexDef_def simp flip: length_0_conv)
      ultimately show ?thesis using ix by auto
    qed
    then show ?thesis using comp props len by (simp add: index_rep_def)
  qed
  from graph_inv_schema [OF inv w frame(1) this]
  have "graph_inv B C (db1\<lparr>db_indexedProps := db_indexedProps db, db_compositeIndexes := ?defs\<rparr>) N G" by blast
  moreover have "db1\<lparr>db_indexedProps := db_indexedProps db, db_compositeIndexes := ?defs\<rparr> = db1\<lparr>db_compositeIndexes := ?defs\<rparr>"
    using w by (simp add: files_frame_def)
  ultimately show ?thesis using w by (simp add: db' files_frame_def)
qed

text \<open>Constraints live in buckets of their own.\<close>

lemma graph_frame_inv:
  assumes "graph_inv B C db N G" and "graph_frame db db'"
  shows "graph_inv B C db' N G"
proof -
  have w: "files_frame db db'" and d: "\<And>s. s < length (files db) \<Longrightarrow> same_indexed (files db ! s) (files db' ! s)"
    using assms(2) by (simp_all add: graph_frame_def)
  note ix = graph_inv_index_rep [OF assms(1), unfolded index_rep_def]
  have "index_rep B C (db_indexedProps db) (db_compositeIndexes db) (files db') N"
    unfolding index_rep_def using ix w d
      rep_congs(1) [where n = "length (files db)" and T' = "\<lambda>s. b_get B (bk_idx_prop (files db' ! s))" and T = "\<lambda>s. b_get B (bk_idx_prop (files db ! s))"]
      rep_congs(1) [where n = "length (files db)" and T' = "\<lambda>s. b_get B (bk_idx_composite (files db' ! s))" and T = "\<lambda>s. b_get B (bk_idx_composite (files db ! s))"]
    by (simp add: same_indexed_def files_frame_def)
  from graph_inv_schema [OF assms(1) w _ this] d
  have "graph_inv B C (db'\<lparr>db_indexedProps := db_indexedProps db, db_compositeIndexes := db_compositeIndexes db\<rparr>) N G"
    by (simp add: same_indexed_def)
  moreover have "db'\<lparr>db_indexedProps := db_indexedProps db, db_compositeIndexes := db_compositeIndexes db\<rparr> = db'"
    using w by (simp add: files_frame_def)
  ultimately show ?thesis by simp
qed

end

lemma unique_txs:
  "putUniqueTx B label property v i d = Inr d' \<Longrightarrow> same_indexed d d'" "putUniqueMetaTx B label property d = Inr d' \<Longrightarrow> same_indexed d d'"
  "dropUniqueTx B label property d = Inr d' \<Longrightarrow> same_indexed d d'" "dropUniqueMetaTx B label property d = Inr d' \<Longrightarrow> same_indexed d d'"
  by (auto simp: putUniqueTx_def putUniqueMetaTx_def dropUniqueTx_def dropUniqueMetaTx_def same_indexed_def same_data_def)

lemma graph_frame_rest [simp]:
  "graph_frame db (walAppend W wop db') = graph_frame db db'" "graph_frame db (db'\<lparr>db_uniqueConstraints := c\<rparr>) = graph_frame db db'"
  by (simp_all add: graph_frame_def files_frame_def files_def [of "db'\<lparr>db_uniqueConstraints := c\<rparr>"] files_def [of db', symmetric])

lemma graph_frame_writeSeen: "writeSeen B label property seen db = (r, db') \<Longrightarrow> graph_frame db db'"
proof (induction B label property seen db rule: writeSeen.induct)
  case (2 B label property v i rest db)
  obtain r1 db1 where w: "writeUpdate (shardFor db i) (putUniqueTx B label property v i) db = (r1, db1)" by fastforce
  have "graph_frame db db1" by (rule graph_frame_write [OF w unique_txs(1)])
  then show ?case using 2 w graph_frame_trans [of db db1 db'] by (auto split: sum.splits)
qed (simp add: graph_frame_refl)

lemma unique_calls_frame:
  "CreateUniqueConstraint B C W label property db = (r, db') \<Longrightarrow> graph_frame db db'"
  "DropUniqueConstraint B W label property db = (r, db') \<Longrightarrow> graph_frame db db'"
proof -
  have wr: "writeUpdate i (putUniqueMetaTx B label property) x = (r1, y) \<Longrightarrow> graph_frame x y"
    "writeUpdate i (dropUniqueMetaTx B label property) x = (r1, y) \<Longrightarrow> graph_frame x y"
    "writeUpdate i (dropUniqueTx B label property) x = (r1, y) \<Longrightarrow> graph_frame x y" for i x r1 y
    by (erule graph_frame_write, erule unique_txs)+
  have fs: "forShards is (\<lambda>i. writeUpdate i (dropUniqueTx B label property)) x = (r1, y) \<Longrightarrow> graph_frame x y" for "is" x r1 y
    by (rule graph_frame_forShards [OF wr(3)])
  show "graph_frame db db'" if op: "CreateUniqueConstraint B C W label property db = (r, db')"
  proof (cases "db_closed db \<or> isFollower db")
    case True
    then show ?thesis using op by (auto simp: CreateUniqueConstraint_def guard_refuses graph_frame_refl)
  next
    case False
    then show ?thesis using op
      by (auto simp: CreateUniqueConstraint_def guarded_ok Let_def graph_frame_refl split: if_splits sum.splits prod.splits
          dest!: wr graph_frame_writeSeen intro: graph_frame_trans)
  qed
  show "graph_frame db db'" if op: "DropUniqueConstraint B W label property db = (r, db')"
  proof (cases "db_closed db \<or> isFollower db")
    case True
    then show ?thesis using op by (auto simp: DropUniqueConstraint_def guard_refuses graph_frame_refl)
  next
    case False
    then show ?thesis using op
      by (auto simp: DropUniqueConstraint_def guarded_ok Let_def graph_frame_refl split: if_splits sum.splits prod.splits
          dest!: wr(2) fs intro: graph_frame_trans)
  qed
qed

section \<open>The steps of a leader\<close>

text \<open>
  A step is one of the eleven calls on nodes and edges, or a schema call. An index call counts as a step
  when it succeeds (a failure half way leaves entries in the shards done so far). DropIndex deletes all
  keys that start with the name and a colon, so the indexed names must have none.
\<close>

inductive leader_step :: "'b bolt \<Rightarrow> codec \<Rightarrow> wcodec \<Rightarrow> 'b DB \<Rightarrow> 'b DB \<Rightarrow> bool" for B C W where
  data: "call_step B C W db db' \<Longrightarrow> leader_step B C W db db'"
| create_index: "CreateIndex B C W p db = (Inr u, db') \<Longrightarrow> leader_step B C W db db'"
| drop_index: "DropIndex B W p db = (Inr u, db') \<Longrightarrow> colon_free p \<Longrightarrow> \<forall>q \<in> set (db_indexedProps db). colon_free q \<Longrightarrow> leader_step B C W db db'"
| re_index: "ReIndex B C W p db = (Inr u, db') \<Longrightarrow> colon_free p \<Longrightarrow> \<forall>q \<in> set (db_indexedProps db). colon_free q \<Longrightarrow> leader_step B C W db db'"
| create_composite: "CreateCompositeIndex B C W ps db = (Inr u, db') \<Longrightarrow>
    map_of (db_compositeIndexes db) (cid_Key (newCompositeIndexDef ps)) \<in> {None, Some (newCompositeIndexDef ps)} \<Longrightarrow> leader_step B C W db db'"
| create_unique: "CreateUniqueConstraint B C W label property db = (r, db') \<Longrightarrow> leader_step B C W db db'"
| drop_unique: "DropUniqueConstraint B W label property db = (r, db') \<Longrightarrow> leader_step B C W db db'"

context graph_store
begin

lemma ReIndex_step:
  assumes "graph_inv B C db N G" and "ReIndex B C W p db = (Inr u, db')" and "colon_free p" and "\<forall>q \<in> set (db_indexedProps db). colon_free q"
  shows "graph_inv B C db' N G"
proof -
  obtain v db1 where "DropIndex B W p db = (Inr v, db1)" "CreateIndex B C W p db1 = (Inr u, db')"
    using assms(2) by (auto simp: ReIndex_def split: sum.splits prod.splits)
  then show ?thesis using CreateIndex_step DropIndex_step [OF assms(1) _ assms(3,4)] by blast
qed

lemma leader_step_represents:
  assumes "leader_step B C W db db'" and "represents B C db"
  shows "represents B C db'"
  using assms
proof cases
  case data
  then show ?thesis using runCall_represents assms(2) by (auto simp: represents_def elim!: call_stepE)
next
  case (create_unique label property r)
  then show ?thesis using graph_frame_inv [OF _ unique_calls_frame(1)] assms(2) unfolding represents_def by blast
next
  case (drop_unique label property r)
  then show ?thesis using graph_frame_inv [OF _ unique_calls_frame(2)] assms(2) unfolding represents_def by blast
next
  case (create_index p u)
  then show ?thesis using CreateIndex_step assms(2) unfolding represents_def by blast
next
  case (drop_index p u)
  then show ?thesis using DropIndex_step assms(2) unfolding represents_def by blast
next
  case (re_index p u)
  then show ?thesis using ReIndex_step assms(2) unfolding represents_def by blast
next
  case (create_composite ps u)
  then show ?thesis using CreateCompositeIndex_step assms(2) unfolding represents_def by blast
qed

lemma leader_reachable_represents: "(leader_step B C W)\<^sup>*\<^sup>* db db' \<Longrightarrow> represents B C db \<Longrightarrow> represents B C db'"
  by (induction rule: rtranclp_induct) (auto intro: leader_step_represents)

end

section \<open>Properties\<close>

text \<open>
  C1. From a newly created database, or from any database that represents a property graph, with whatever
  indexes and constraints it has: whatever sequence of steps a leader makes, the shard files, indexes,
  counters, cache and Bloom filter represent a property graph, and no edge that can be read has a missing
  endpoint. The steps are the eleven calls on single nodes and edges (whatever they return, without
  environment faults), a successful CreateIndex, DropIndex, ReIndex or CreateCompositeIndex, and creating
  or dropping a unique constraint; index names have no colon. AddEdgeBatch, which does not look at the
  endpoints, and AddNodeBatch, which leaves the indexes to ReIndex, are no steps.
\<close>

theorem reachable_referential_integrity:
  assumes "graph_store B C" and "represents B C db0 \<or> Open B W opts [] segs = Some (Inr db0)" and "(leader_step B C W)\<^sup>*\<^sup>* db0 db"
  shows "(\<exists>N G. graph_inv B C db N G) \<and>
     (\<forall>eid e. GetEdge B C eid db = Inr e \<longrightarrow>
        (\<exists>n db'. getNode B C (e_from e) db = (Inr n, db') \<and> n_id n = e_from e) \<and>
        (\<exists>n db'. getNode B C (e_to e) db = (Inr n, db') \<and> n_id n = e_to e))"
proof -
  have "represents B C db0" using assms(2) graph_store.Open_new [OF assms(1)] representsI by metis
  then obtain N G where inv: "graph_inv B C db N G"
    using graph_store.leader_reachable_represents [OF assms(1,3)] by (auto simp: represents_def)
  have node: "\<exists>n db'. getNode B C i db = (Inr n, db') \<and> n_id n = i" if "\<not> db_closed db" "N i \<noteq> None" for i
  proof -
    obtain r db' where op: "getNode B C i db = (r, db')" by fastforce
    then show ?thesis using graph_store.getNode_step(3) [OF assms(1) inv that(1) op] that(2) by auto
  qed
  have "(\<exists>n db'. getNode B C (e_from e) db = (Inr n, db') \<and> n_id n = e_from e) \<and>
        (\<exists>n db'. getNode B C (e_to e) db = (Inr n, db') \<and> n_id n = e_to e)" if get: "GetEdge B C eid db = Inr e" for eid e
  proof -
    have open_db: "\<not> db_closed db" and get': "getEdge B C eid db = Inr e" using get by (auto simp: GetEdge_def split: if_splits)
    have rep: "edges_rep B C (files db) G" and nd: "no_dangling N G" using inv by (simp_all add: graph_inv_def)
    obtain x where "G eid = Some x" "edge_eq C x e"
      using graph_store.getEdge_rep [OF assms(1) rep open_db, of eid] get' by (cases "G eid") auto
    then have "N (e_from e) \<noteq> None" "N (e_to e) \<noteq> None" using nd by (auto simp: edge_eq_def no_dangling_def)
    then show ?thesis using node [OF open_db] by blast
  qed
  then show ?thesis using inv by blast
qed

text \<open>On the indexed database: an edge is added, a second index is created.\<close>

lemma edge_create_index: "\<exists>db'. CreateIndex kvs_bolt str_codec (str_wcodec 1) ''m'' edgeDB = (Inr (), db') \<and> db_indexedProps db' = [''m'', ''n''] \<and> \<not> db_closed db'"
proof -
  obtain d where d: "files edgeDB = [d]" "bk_nodes d = bk_nodes demoFile" using edge_fields(5) by blast
  have n: "length (db_shards edgeDB) = 1" using d(1) by (auto simp: files_def)
  then have b: "bucketsOf edgeDB 0 = d" using files_nth [of 0 edgeDB] d(1) by simp
  have id: "efold f xs s = Inr s" if "\<And>x. x \<in> set xs \<Longrightarrow> f x s = Inr s" for f xs and s :: kvs
    using that by (induction xs) auto
  have kv: "kv \<in> {(encodeNodeID 1, propsMagic # enc_strs [''n'', ''x'']), (encodeNodeID 2, propsMagic # enc_strs [])}"
    if "kv \<in> set (b_cursor kvs_bolt (bk_nodes d))" for kv
    using that kvs.set_cursor [of "fst kv" "snd kv" "bk_nodes d"] by (auto simp: prod_eq_iff d(2) demoFile_def kvs_bolt_def split: if_splits)
  have "createIndexTx kvs_bolt str_codec ''m'' d = ebind (Inr (bk_idx_prop d)) (\<lambda>b. Inr (d\<lparr>bk_idx_prop := b\<rparr>))"
    unfolding createIndexTx_def forEachInBucket_def
    by (rule arg_cong2 [where f = ebind], rule id) (use kv in \<open>force simp: demo_props\<close>)+
  then have "createIndexTx kvs_bolt str_codec ''m'' d = Inr d" by simp
  then show ?thesis
    by (simp add: CreateIndex_def guarded_def writeGuard_def edge_fields n b writeUpdate_def storeKey_def)
qed

theorem reachable_referential_integrity_witness:
  "\<exists>db e. (leader_step kvs_bolt str_codec (str_wcodec 1))\<^sup>*\<^sup>* demoDB db \<and> db_indexedProps db = [''m'', ''n''] \<and>
     GetEdge kvs_bolt str_codec 1 db = Inr e \<and> (\<exists>n db'. getNode kvs_bolt str_codec (e_to e) db = (Inr n, db') \<and> n_id n = e_to e)"
proof -
  let ?step = "leader_step kvs_bolt str_codec (str_wcodec 1)"
  obtain db where op: "CreateIndex kvs_bolt str_codec (str_wcodec 1) ''m'' edgeDB = (Inr (), db)" and db: "db_indexedProps db = [''m'', ''n'']" "\<not> db_closed db"
    using edge_create_index by blast
  have "callable demoDB" by (simp add: callable_def)
  then have "?step demoDB (runCall kvs_bolt str_codec (str_wcodec 1) (CAddEdge 1 2 ''KNOWS'' []) demoDB)"
    by (intro leader_step.data call_step.call)
  then have "?step demoDB edgeDB" by (simp add: edgeDB_def)
  then have run: "?step\<^sup>*\<^sup>* demoDB db" using leader_step.create_index [OF op] by auto
  have "graph_inv kvs_bolt str_codec db demoNodes [1 \<mapsto> sampleEdge]" by (rule kvs_store.CreateIndex_step [OF edge_inv op])
  then have "edges_rep kvs_bolt str_codec (files db) [1 \<mapsto> sampleEdge]" by (simp add: graph_inv_def)
  then obtain e where e: "GetEdge kvs_bolt str_codec 1 db = Inr e"
    using kvs_store.getEdge_rep [of db "[1 \<mapsto> sampleEdge]" 1] db(2) by (auto simp: GetEdge_def)
  have "represents kvs_bolt str_codec demoDB" using demo_inv by (auto intro: representsI)
  from reachable_referential_integrity [OF kvs_graph_store _ run] this e show ?thesis using run db(1) by blast
qed

section \<open>Why AddEdgeBatch is no step\<close>

text \<open>AddEdgeBatch takes an edge to a node that does not exist, reports success, and the edge can be read.\<close>

definition strayEdge :: Edge where
  "strayEdge = \<lparr>e_id = 1, e_from = 1, e_to = 7, e_label = ''KNOWS'', e_props = []\<rparr>"

lemma batch_dangling_edge:
  "\<exists>db' e. AddEdgeBatch kvs_bolt str_codec (str_wcodec 1) [strayEdge\<lparr>e_id := 0\<rparr>] demoDB = (Inr [1], db') \<and>
     GetEdge kvs_bolt str_codec 1 db' = Inr e \<and> e_to e = 7 \<and> (\<exists>x. fst (getNode kvs_bolt str_codec 7 db') = Inl x)"
proof -
  let ?s = "\<lparr>s_data = demoFile, nextNodeID = 2, nextEdgeID = 0, nodeCount = 2, edgeCount = 0\<rparr>"
  obtain data where data: "encodeEdge str_codec strayEdge = Inr data" and len: "length data \<le> MaxValueSize"
    by (simp add: strayEdge_def encodeEdge_def encodeProps_def str_codec_def Let_def enc_strs_def)
  from data len obtain d where d: "addEdgeSameTx kvs_bolt str_codec strayEdge demoFile = Inr d" and nodes: "bk_nodes d = bk_nodes demoFile"
    and rec: "map_of (bk_edges d) (encodeEdgeID 1) = Some data"
    by (auto simp: strayEdge_def addEdgeSameTx_def kvs_bolt_def enc_simps update_conv)
  obtain e where e: "decodeEdge str_codec data = Inr e" "e_to e = 7"
    using str_codec.decodeEdge_encodeEdge [OF data] by (auto simp: strayEdge_def)
  define db' where "db' = snd (AddEdgeBatch kvs_bolt str_codec (str_wcodec 1) [strayEdge\<lparr>e_id := 0\<rparr>] demoDB)"
  have "AddEdgeBatch kvs_bolt str_codec (str_wcodec 1) [strayEdge\<lparr>e_id := 0\<rparr>] demoDB = (Inr [1], db')"
    "db_shards db' = [?s\<lparr>s_data := d, nextEdgeID := 1, edgeCount := 1\<rparr>]" "db_closed db' = False" "db_ncache db' = newNodeCache 0"
    using d unfolding db'_def
    by (simp_all add: strayEdge_def AddEdgeBatch_def guarded_def writeGuard_def isFollower_def demoDB_def writeUpdateAlloc_def allocEdgeID_def
       updShard_def addEdgeCount_def walAppend_def bloomAddDB_def)
  moreover from this have "readNode kvs_bolt str_codec 7 (bucketsOf db' (shardFor db' 7)) = Inl (ErrNodeNotFound 7)"
    using nodes by (simp add: shardFor_def readNode_def demoFile_def kvs_bolt_def)
  moreover have "fst (nc_Get 7 (newNodeCache 0)) = None"
    using nodecache.coherent_get_result [OF new_cache_coherent [of "\<lambda>_ _. False"]] by (cases "fst (nc_Get 7 (newNodeCache 0))") auto
  then obtain nc where "nc_Get 7 (newNodeCache 0) = (None, nc)" by (metis prod.collapse)
  moreover have "b_get kvs_bolt (bk_edges d) (encodeEdgeID 1) = Some data" using rec by (simp add: kvs_bolt_def)
  ultimately show ?thesis using e by (simp add: GetEdge_def getEdge_def viewing_def getNode_def)
qed

end
