(* ===== verification/Applier.thy ===== *)
theory Applier
  imports System
begin

text \<open>
  The applier of a follower (applier.go): it replays the operations of the leader's log on the local
  files, past the write guard and with the leader's identifiers. Every \<open>applyX\<close> takes the fields of
  the payload it decodes. The text ``applier: node ... not found'' is \<^term>\<open>ErrWrap ''applier'' (ErrNodeNotFound i)\<close>.
\<close>

section \<open>Nodes\<close>

definition applyAddNode :: "'b bolt \<Rightarrow> codec \<Rightarrow> NodeID \<Rightarrow> Props \<Rightarrow> 'b DB \<Rightarrow> (gerr + unit) \<times> 'b DB" where
  "applyAddNode B C i props db = (let target = shardFor db i
     in case encodeProps C props of Inl e \<Rightarrow> (Inl e, db)
      | Inr data \<Rightarrow> (case writeUpdate target (addNodeTx B C db i data props) db of
          (Inl e, db1) \<Rightarrow> (Inl e, db1)
        | (Inr _, db1) \<Rightarrow> (Inr (), updShard target (addNodeCount 1) db1)))"

definition applyAddNodeBatch :: "'b bolt \<Rightarrow> codec \<Rightarrow> (NodeID \<times> Props) list \<Rightarrow> 'b DB \<Rightarrow> (gerr + unit) \<times> 'b DB" where
  "applyAddNodeBatch B C nodes db =
     (case emapM (\<lambda>n. ebind (encodeProps C (snd n)) (\<lambda>data. Inr (fst n, data))) nodes of Inl e \<Rightarrow> (Inl e, db)
      | Inr entries \<Rightarrow> runGroups (groupBy (\<lambda>x. unat (fst x) mod length (db_shards db)) entries)
          (\<lambda>s es db. case writeUpdate s (efold (\<lambda>(nid, data). putNode B nid data) es) db of
             (Inl e, db1) \<Rightarrow> (Inl e, db1)
           | (Inr _, db1) \<Rightarrow> (Inr (), updShard s (addNodeCount (word_of_nat (length es))) db1)) db)"

definition applyUpdateNodeTx :: "'b bolt \<Rightarrow> codec \<Rightarrow> 'b DB \<Rightarrow> NodeID \<Rightarrow> Props \<Rightarrow> 'b buckets \<Rightarrow> gerr + 'b buckets" where
  "applyUpdateNodeTx B C db i props d = (case b_get B (bk_nodes d) (encodeNodeID i) of
       None \<Rightarrow> Inl (ErrWrap ''applier'' (ErrNodeNotFound i))
     | Some existing \<Rightarrow>
         ebind (decodeProps C existing) (\<lambda>oldProps.
         ebind (unindexNodeProps B C db i oldProps d) (\<lambda>d1.
           let merged = props_merge oldProps props
           in ebind (encodeProps C merged) (\<lambda>data.
              ebind (putNode B i data d1) (\<lambda>d2. indexNodeProps B C db i merged d2)))))"

definition applyUpdateNode :: "'b bolt \<Rightarrow> codec \<Rightarrow> NodeID \<Rightarrow> Props \<Rightarrow> 'b DB \<Rightarrow> (gerr + unit) \<times> 'b DB" where
  "applyUpdateNode B C i props db = writeUpdate (shardFor db i) (applyUpdateNodeTx B C db i props) db"

definition applySetNodePropsTx :: "'b bolt \<Rightarrow> codec \<Rightarrow> 'b DB \<Rightarrow> NodeID \<Rightarrow> Props \<Rightarrow> 'b buckets \<Rightarrow> gerr + 'b buckets" where
  "applySetNodePropsTx B C db i props d =
     (let d1 = (case b_get B (bk_nodes d) (encodeNodeID i) of None \<Rightarrow> d
          | Some existing \<Rightarrow> (case decodeProps C existing of Inl _ \<Rightarrow> d
              | Inr oldProps \<Rightarrow> ignoring (unindexNodeProps B C db i oldProps) d))
      in ebind (encodeProps C props) (\<lambda>data.
         ebind (putNode B i data d1) (\<lambda>d2. indexNodeProps B C db i props d2)))"

definition applySetNodeProps :: "'b bolt \<Rightarrow> codec \<Rightarrow> NodeID \<Rightarrow> Props \<Rightarrow> 'b DB \<Rightarrow> (gerr + unit) \<times> 'b DB" where
  "applySetNodeProps B C i props db = writeUpdate (shardFor db i) (applySetNodePropsTx B C db i props) db"

definition applyDeleteNodeTx :: "'b bolt \<Rightarrow> codec \<Rightarrow> 'b DB \<Rightarrow> NodeID \<Rightarrow> 'b buckets \<Rightarrow> gerr + 'b buckets" where
  "applyDeleteNodeTx B C db i d = (case b_get B (bk_nodes d) (encodeNodeID i) of
       None \<Rightarrow> Inr d
     | Some existing \<Rightarrow>
         let d1 = (case decodeProps C existing of Inl _ \<Rightarrow> d | Inr props \<Rightarrow> ignoring (unindexNodeProps B C db i props) d);
             labels = loadLabels B C d1 i;
             d2 = (if labels \<noteq> [] then
                     ignoring (\<lambda>d. ebind (b_del B (bk_node_labels d) (encodeNodeID i)) (\<lambda>b. Inr (d\<lparr>bk_node_labels := b\<rparr>)))
                       (deleteLabelEntries B i labels d1)
                   else d1)
         in ebind (b_del B (bk_nodes d2) (encodeNodeID i)) (\<lambda>b. Inr (d2\<lparr>bk_nodes := b\<rparr>)))"

definition applyDeleteNode :: "'b bolt \<Rightarrow> codec \<Rightarrow> NodeID \<Rightarrow> 'b DB \<Rightarrow> (gerr + unit) \<times> 'b DB" where
  "applyDeleteNode B C i db = (let s = shardFor db i
     in case writeUpdate s (applyDeleteNodeTx B C db i) db of
          (Inl e, db1) \<Rightarrow> (Inl e, db1)
        | (Inr _, db1) \<Rightarrow> (Inr (), updShard s (addNodeCount (- 1)) db1))"

section \<open>Edges\<close>

definition applyAddEdge :: "'b bolt \<Rightarrow> codec \<Rightarrow> EdgeID \<Rightarrow> NodeID \<Rightarrow> NodeID \<Rightarrow> string \<Rightarrow> Props \<Rightarrow> 'b DB \<Rightarrow> (gerr + unit) \<times> 'b DB" where
  "applyAddEdge B C i from to label props db =
     (let edge = \<lparr>e_id = i, e_from = from, e_to = to, e_label = label, e_props = props\<rparr>;
          src = shardForEdge db from; dst = shardFor db to
      in if src = dst then
           (case writeUpdate src (addEdgeSameTx B C edge) db of
              (Inl e, db1) \<Rightarrow> (Inl e, db1)
            | (Inr _, db1) \<Rightarrow> (Inr (), updShard src (addEdgeCount 1) db1))
         else
           (case writeUpdate src (addEdgeSrcTx B C edge) db of
              (Inl e, db1) \<Rightarrow> (Inl e, db1)
            | (Inr _, db1) \<Rightarrow> writeUpdate dst (addEdgeDstTx B edge) (updShard src (addEdgeCount 1) db1)))"

text \<open>A batch is replayed edge by edge, each encoded again as the payload of a single edge.\<close>

fun applyAddEdgeBatch :: "'b bolt \<Rightarrow> codec \<Rightarrow> wcodec \<Rightarrow> (EdgeID \<times> NodeID \<times> NodeID \<times> string \<times> Props) list \<Rightarrow> 'b DB \<Rightarrow> (gerr + unit) \<times> 'b DB" where
  "applyAddEdgeBatch B C W [] db = (Inr (), db)"
| "applyAddEdgeBatch B C W ((i, a, b, l, ps) # es) db =
     (case ebind (encodeWALPayload W (WALAddEdge i a b l ps)) (decodeWALPayload W OpAddEdge) of
        Inr (WALAddEdge i' a' b' l' ps') \<Rightarrow>
          (case applyAddEdge B C i' a' b' l' ps' db of
             (Inl e, db1) \<Rightarrow> (Inl e, db1)
           | (Inr _, db1) \<Rightarrow> applyAddEdgeBatch B C W es db1)
      | Inl e \<Rightarrow> (Inl e, db)
      | _ \<Rightarrow> (Inl ErrUnmarshal, db))"

text \<open>The errors of the three deletes of the first transaction are ignored.\<close>

definition applyDelSrcTx :: "'b bolt \<Rightarrow> EdgeID \<Rightarrow> NodeID \<Rightarrow> string \<Rightarrow> 'b buckets \<Rightarrow> gerr + 'b buckets" where
  "applyDelSrcTx B i from label d =
     (let d1 = ignoring (\<lambda>d. ebind (b_del B (bk_edges d) (encodeEdgeID i)) (\<lambda>b. Inr (d\<lparr>bk_edges := b\<rparr>))) d;
          d2 = ignoring (\<lambda>d. ebind (b_del B (bk_adj_out d) (encodeAdjKey from i)) (\<lambda>b. Inr (d\<lparr>bk_adj_out := b\<rparr>))) d1
      in Inr (ignoring (\<lambda>d. ebind (b_del B (bk_idx_edge_type d) (encodeIndexKey label i)) (\<lambda>b. Inr (d\<lparr>bk_idx_edge_type := b\<rparr>))) d2))"

definition applyDelDstTx :: "'b bolt \<Rightarrow> EdgeID \<Rightarrow> NodeID \<Rightarrow> 'b buckets \<Rightarrow> gerr + 'b buckets" where
  "applyDelDstTx B i to d = ebind (b_del B (bk_adj_in d) (encodeAdjKey to i)) (\<lambda>b. Inr (d\<lparr>bk_adj_in := b\<rparr>))"

definition applyDeleteEdge :: "'b bolt \<Rightarrow> EdgeID \<Rightarrow> NodeID \<Rightarrow> NodeID \<Rightarrow> string \<Rightarrow> 'b DB \<Rightarrow> (gerr + unit) \<times> 'b DB" where
  "applyDeleteEdge B i from to label db =
     (let src = shardForEdge db from; dst = shardFor db to
      in case writeUpdate src (applyDelSrcTx B i from label) db of
           (Inl e, db1) \<Rightarrow> (Inl e, db1)
         | (Inr _, db1) \<Rightarrow> writeUpdate dst (applyDelDstTx B i to) (updShard src (addEdgeCount (- 1)) db1))"

definition applyUpdateEdgeTx :: "'b bolt \<Rightarrow> codec \<Rightarrow> EdgeID \<Rightarrow> Props \<Rightarrow> 'b buckets \<Rightarrow> gerr + 'b buckets" where
  "applyUpdateEdgeTx B C i props d = (case b_get B (bk_edges d) (encodeEdgeID i) of
       None \<Rightarrow> Inl (ErrWrap ''applier'' (ErrEdgeNotFound i))
     | Some data \<Rightarrow> ebind (decodeEdge C data) (\<lambda>edge.
         updateEdgeTx B C i (edge\<lparr>e_props := props_merge (e_props edge) props\<rparr>) d))"

definition applyUpdateEdge :: "'b bolt \<Rightarrow> codec \<Rightarrow> EdgeID \<Rightarrow> NodeID \<Rightarrow> Props \<Rightarrow> 'b DB \<Rightarrow> (gerr + unit) \<times> 'b DB" where
  "applyUpdateEdge B C i from props db = writeUpdate (shardForEdge db from) (applyUpdateEdgeTx B C i props) db"

section \<open>Labels\<close>

definition applyAddNodeWithLabelsTx :: "'b bolt \<Rightarrow> codec \<Rightarrow> 'b DB \<Rightarrow> NodeID \<Rightarrow> bytes \<Rightarrow> bytes \<Rightarrow> string list \<Rightarrow> Props \<Rightarrow> 'b buckets \<Rightarrow> gerr + 'b buckets" where
  "applyAddNodeWithLabelsTx B C db i data labelData labels props d =
     ebind (putNode B i data d) (\<lambda>d1.
     ebind (indexNodeProps B C db i props d1) (\<lambda>d2.
       if labelData \<noteq> [] then ebind (putLabels B i labelData d2) (putLabelEntries B i labels) else Inr d2))"

definition applyAddNodeWithLabels :: "'b bolt \<Rightarrow> codec \<Rightarrow> NodeID \<Rightarrow> string list \<Rightarrow> Props \<Rightarrow> 'b DB \<Rightarrow> (gerr + unit) \<times> 'b DB" where
  "applyAddNodeWithLabels B C i labels props db = (let target = shardFor db i
     in case encodeProps C props of Inl e \<Rightarrow> (Inl e, db)
      | Inr data \<Rightarrow> (case (if labels = [] then Inr [] else c_marshal_labels C labels) of Inl e \<Rightarrow> (Inl e, db)
          | Inr labelData \<Rightarrow> (case writeUpdate target (applyAddNodeWithLabelsTx B C db i data labelData labels props) db of
              (Inl e, db1) \<Rightarrow> (Inl e, db1)
            | (Inr _, db1) \<Rightarrow> (Inr (), updShard target (addNodeCount 1) db1))))"

definition applyAddLabelTx :: "'b bolt \<Rightarrow> codec \<Rightarrow> NodeID \<Rightarrow> string list \<Rightarrow> 'b buckets \<Rightarrow> gerr + 'b buckets" where
  "applyAddLabelTx B C i labels d =
     (if b_get B (bk_nodes d) (encodeNodeID i) = None then Inl (ErrWrap ''applier'' (ErrNodeNotFound i))
      else let existing = loadLabels B C d i; added = filter (\<lambda>l. l \<notin> set existing) labels
           in if added = [] then Inr d
              else ebind (c_marshal_labels C (existing @ added)) (\<lambda>data.
                   ebind (putLabels B i data d) (putLabelEntries B i added)))"

definition applyAddLabel :: "'b bolt \<Rightarrow> codec \<Rightarrow> NodeID \<Rightarrow> string list \<Rightarrow> 'b DB \<Rightarrow> (gerr + unit) \<times> 'b DB" where
  "applyAddLabel B C i labels db = writeUpdate (shardFor db i) (applyAddLabelTx B C i labels) db"

definition applyRemoveLabelTx :: "'b bolt \<Rightarrow> codec \<Rightarrow> NodeID \<Rightarrow> string list \<Rightarrow> 'b buckets \<Rightarrow> gerr + 'b buckets" where
  "applyRemoveLabelTx B C i labels d =
     (if b_get B (bk_nodes d) (encodeNodeID i) = None then Inr d
      else let kept = filter (\<lambda>l. l \<notin> set labels) (loadLabels B C d i)
           in ebind (if kept = []
                     then Inr (ignoring (\<lambda>d. ebind (b_del B (bk_node_labels d) (encodeNodeID i)) (\<lambda>b. Inr (d\<lparr>bk_node_labels := b\<rparr>))) d)
                     else ebind (c_marshal_labels C kept) (\<lambda>data. putLabels B i data d)) (\<lambda>d1.
                Inr (deleteLabelEntries B i labels d1)))"

definition applyRemoveLabel :: "'b bolt \<Rightarrow> codec \<Rightarrow> NodeID \<Rightarrow> string list \<Rightarrow> 'b DB \<Rightarrow> (gerr + unit) \<times> 'b DB" where
  "applyRemoveLabel B C i labels db = writeUpdate (shardFor db i) (applyRemoveLabelTx B C i labels) db"

section \<open>Indexes and constraints\<close>

definition applyCreateIndex :: "'b bolt \<Rightarrow> codec \<Rightarrow> string \<Rightarrow> 'b DB \<Rightarrow> (gerr + unit) \<times> 'b DB" where
  "applyCreateIndex B C p db =
     (case forShards [0..<length (db_shards db)] (\<lambda>i. writeUpdate i (createIndexTx B C p)) db of
        (Inl e, db1) \<Rightarrow> (Inl e, db1)
      | (Inr _, db1) \<Rightarrow> (Inr (), db1\<lparr>db_indexedProps := storeKey p (db_indexedProps db1)\<rparr>))"

definition applyDropIndex :: "'b bolt \<Rightarrow> string \<Rightarrow> 'b DB \<Rightarrow> (gerr + unit) \<times> 'b DB" where
  "applyDropIndex B p db =
     (case forShards [0..<length (db_shards db)] (\<lambda>i. writeUpdate i (dropIndexTx B p)) db of
        (Inl e, db1) \<Rightarrow> (Inl e, db1)
      | (Inr _, db1) \<Rightarrow> (Inr (), db1\<lparr>db_indexedProps := removeAll p (db_indexedProps db1)\<rparr>))"

definition applyCreateCompositeIndex :: "'b bolt \<Rightarrow> codec \<Rightarrow> string list \<Rightarrow> 'b DB \<Rightarrow> (gerr + unit) \<times> 'b DB" where
  "applyCreateCompositeIndex B C propNames db =
     (let def = newCompositeIndexDef propNames
      in case forShards [0..<length (db_shards db)] (\<lambda>i. writeUpdate i (createCompositeTx B C def)) db of
           (Inl e, db1) \<Rightarrow> (Inl e, db1)
         | (Inr _, db1) \<Rightarrow> (Inr (), db1\<lparr>db_compositeIndexes := AList.update (cid_Key def) def (db_compositeIndexes db1)\<rparr>))"

definition applyDropCompositeIndex :: "'b bolt \<Rightarrow> string list \<Rightarrow> 'b DB \<Rightarrow> (gerr + unit) \<times> 'b DB" where
  "applyDropCompositeIndex B propNames db =
     (let def = newCompositeIndexDef propNames
      in case forShards [0..<length (db_shards db)] (\<lambda>i. writeUpdate i (dropCompositeTx B def)) db of
           (Inl e, db1) \<Rightarrow> (Inl e, db1)
         | (Inr _, db1) \<Rightarrow> (Inr (), db1\<lparr>db_compositeIndexes := AList.delete (cid_Key def) (db_compositeIndexes db1)\<rparr>))"

text \<open>The follower trusts the leader's check: a value met twice keeps the last node.\<close>

definition applyScanConstraint :: "'b bolt \<Rightarrow> codec \<Rightarrow> string \<Rightarrow> string \<Rightarrow> 'b buckets \<Rightarrow> (string \<times> NodeID) list \<Rightarrow> (string \<times> NodeID) list" where
  "applyScanConstraint B C label property d seen =
     (let pfx = encodeLabelIndexPrefix label
      in fold (\<lambda>kv seen.
           case decodeNodeID (drop (length pfx) (fst kv)) of None \<Rightarrow> seen
           | Some i \<Rightarrow> (case nodeAt B C d i of None \<Rightarrow> seen
               | Some props \<Rightarrow> (case map_of props property of None \<Rightarrow> seen
                   | Some v \<Rightarrow> AList.update (fmtv C v) i seen)))
         (seekPrefix B (bk_idx_node_label d) pfx) seen)"

fun applyWriteSeen :: "'b bolt \<Rightarrow> string \<Rightarrow> string \<Rightarrow> (string \<times> NodeID) list \<Rightarrow> 'b DB \<Rightarrow> (gerr + unit) \<times> 'b DB" where
  "applyWriteSeen B label property [] db = (Inr (), db)"
| "applyWriteSeen B label property ((v, i) # r) db =
     (case writeUpdate (shardFor db i) (putUniqueTx B label property v i) db of
        (Inl e, db1) \<Rightarrow> (Inl e, db1)
      | (Inr _, db1) \<Rightarrow> applyWriteSeen B label property r db1)"

definition applyCreateUniqueConstraint :: "'b bolt \<Rightarrow> codec \<Rightarrow> string \<Rightarrow> string \<Rightarrow> 'b DB \<Rightarrow> (gerr + unit) \<times> 'b DB" where
  "applyCreateUniqueConstraint B C label property db =
     (let uc = \<lparr>uc_Label = label, uc_Property = property\<rparr>
      in if map_of (db_uniqueConstraints db) (constraintKey uc) \<noteq> None then (Inr (), db)
         else if db_closed db then (Inl (ErrBolt ''database not open''), db)
         else let seen = fold (\<lambda>s. applyScanConstraint B C label property (s_data s)) (db_shards db) []
           in case applyWriteSeen B label property seen db of
                (Inl e, db1) \<Rightarrow> (Inl e, db1)
              | (Inr _, db1) \<Rightarrow> (case writeUpdate 0 (putUniqueMetaTx B label property) db1 of
                  (Inl e, db2) \<Rightarrow> (Inl e, db2)
                | (Inr _, db2) \<Rightarrow> (Inr (), db2\<lparr>db_uniqueConstraints := AList.update (constraintKey uc) uc (db_uniqueConstraints db2)\<rparr>)))"

definition applyDropUniqueConstraint :: "'b bolt \<Rightarrow> string \<Rightarrow> string \<Rightarrow> 'b DB \<Rightarrow> (gerr + unit) \<times> 'b DB" where
  "applyDropUniqueConstraint B label property db =
     (let uc = \<lparr>uc_Label = label, uc_Property = property\<rparr>
      in if map_of (db_uniqueConstraints db) (constraintKey uc) = None then (Inr (), db)
         else case forShards [0..<length (db_shards db)] (\<lambda>i. writeUpdate i (dropUniqueTx B label property)) db of
           (Inl e, db1) \<Rightarrow> (Inl e, db1)
         | (Inr _, db1) \<Rightarrow>
             let db2 = snd (writeUpdate 0 (dropUniqueMetaTx B label property) db1)
             in (Inr (), db2\<lparr>db_uniqueConstraints := AList.delete (constraintKey uc) (db_uniqueConstraints db2)\<rparr>))"

section \<open>Dispatch and sequence numbers\<close>

fun applyPayload :: "'b bolt \<Rightarrow> codec \<Rightarrow> wcodec \<Rightarrow> Props wal_op \<Rightarrow> 'b DB \<Rightarrow> (gerr + unit) \<times> 'b DB" where
  "applyPayload B C W (WALAddNode i ps) db = applyAddNode B C i ps db"
| "applyPayload B C W (WALAddNodeBatch ns) db = applyAddNodeBatch B C ns db"
| "applyPayload B C W (WALUpdateNode i ps) db = applyUpdateNode B C i ps db"
| "applyPayload B C W (WALSetNodeProps i ps) db = applySetNodeProps B C i ps db"
| "applyPayload B C W (WALDeleteNode i) db = applyDeleteNode B C i db"
| "applyPayload B C W (WALAddEdge i a b l ps) db = applyAddEdge B C i a b l ps db"
| "applyPayload B C W (WALAddEdgeBatch es) db = applyAddEdgeBatch B C W es db"
| "applyPayload B C W (WALDeleteEdge i a b l) db = applyDeleteEdge B i a b l db"
| "applyPayload B C W (WALUpdateEdge i a ps) db = applyUpdateEdge B C i a ps db"
| "applyPayload B C W (WALAddNodeWithLabels i ls ps) db = applyAddNodeWithLabels B C i ls ps db"
| "applyPayload B C W (WALAddLabel i ls) db = applyAddLabel B C i ls db"
| "applyPayload B C W (WALRemoveLabel i ls) db = applyRemoveLabel B C i ls db"
| "applyPayload B C W (WALCreateIndex p) db = applyCreateIndex B C p db"
| "applyPayload B C W (WALDropIndex p) db = applyDropIndex B p db"
| "applyPayload B C W (WALCreateCompositeIndex ps) db = applyCreateCompositeIndex B C ps db"
| "applyPayload B C W (WALDropCompositeIndex ps) db = applyDropCompositeIndex B ps db"
| "applyPayload B C W (WALCreateUniqueConstraint l p) db = applyCreateUniqueConstraint B C l p db"
| "applyPayload B C W (WALDropUniqueConstraint l p) db = applyDropUniqueConstraint B l p db"

text \<open>
  \<open>applyOp\<close>: the entry's operation selects the payload type to decode; unmarshalling into the struct of
  an operation gives a payload of that operation.
\<close>

definition applyOp :: "'b bolt \<Rightarrow> codec \<Rightarrow> wcodec \<Rightarrow> WALEntry \<Rightarrow> 'b DB \<Rightarrow> (gerr + unit) \<times> 'b DB" where
  "applyOp B C W entry db =
     (case (case we_op entry of
              OpOther n \<Rightarrow> (Inl (ErrMsg ''applier: unknown op type''), db)
            | op \<Rightarrow> (case decodeWALPayload W op (we_payload entry) of
                Inl e \<Rightarrow> (Inl e, db) | Inr p \<Rightarrow> applyPayload B C W p db)) of
        (Inl e, db1) \<Rightarrow> (Inl (ErrWrap ''applier: failed to apply LSN'' e), db1)
      | (Inr _, db1) \<Rightarrow> (Inr (), db1))"

record 'b Applier =
  ap_db :: "'b DB"
  ap_appliedLSN :: u64

definition NewApplier :: "'b DB \<Rightarrow> 'b Applier" where
  "NewApplier db = \<lparr>ap_db = db, ap_appliedLSN = 0\<rparr>"

definition AppliedLSN :: "'b Applier \<Rightarrow> u64" where
  "AppliedLSN a = ap_appliedLSN a"

definition ResetLSN :: "'b Applier \<Rightarrow> 'b Applier" where
  "ResetLSN a = a\<lparr>ap_appliedLSN := 0\<rparr>"

definition SetAppliedLSN :: "u64 \<Rightarrow> 'b Applier \<Rightarrow> 'b Applier" where
  "SetAppliedLSN lsn a = a\<lparr>ap_appliedLSN := lsn\<rparr>"

definition ApplyOp :: "'b bolt \<Rightarrow> codec \<Rightarrow> wcodec \<Rightarrow> WALEntry \<Rightarrow> 'b Applier \<Rightarrow> (gerr + unit) \<times> 'b Applier" where
  "ApplyOp B C W entry a = (let r = applyOp B C W entry (ap_db a) in (fst r, a\<lparr>ap_db := snd r\<rparr>))"

definition Apply :: "'b bolt \<Rightarrow> codec \<Rightarrow> wcodec \<Rightarrow> WALEntry \<Rightarrow> 'b Applier \<Rightarrow> (gerr + unit) \<times> 'b Applier" where
  "Apply B C W entry a =
     (if we_lsn entry \<le> ap_appliedLSN a then (Inr (), a)
      else case applyOp B C W entry (ap_db a) of
             (Inl e, db) \<Rightarrow> (Inl e, a\<lparr>ap_db := db\<rparr>)
           | (Inr _, db) \<Rightarrow> (Inr (), a\<lparr>ap_db := db, ap_appliedLSN := we_lsn entry\<rparr>))"

end
