(* ===== verification/Replica.thy ===== *)
theory Replica
  imports Applier
begin

text \<open>
  Replication of the graph. The effect of a logged operation on the represented graph is the function
  \<open>replayed\<close>; the applier refines it on the files of a follower, and every call of the leader logs
  operations whose replay is the change the call made. A follower that applies the leader's log
  therefore represents the leader's graph, up to the text of the property values.
\<close>

section \<open>What a follower represents\<close>

definition store_rep :: "'b bolt \<Rightarrow> codec \<Rightarrow> 'b DB \<Rightarrow> graph_nodes \<Rightarrow> graph_edges \<Rightarrow> bool" where
  "store_rep B C db N G \<longleftrightarrow> nodes_rep B C (files db) N \<and>
     index_rep B C (db_indexedProps db) (db_compositeIndexes db) (files db) N \<and> edges_rep B C (files db) G"

fun replayed :: "Props wal_op \<Rightarrow> graph_nodes \<times> graph_edges \<Rightarrow> graph_nodes \<times> graph_edges" where
  "replayed (WALAddNode i ps) (N, G) = (N(i \<mapsto> ([], ps)), G)"
| "replayed (WALAddNodeWithLabels i ls ps) (N, G) = (N(i \<mapsto> (ls, ps)), G)"
| "replayed (WALUpdateNode i ps) (N, G) = (N(i := map_option (\<lambda>x. (fst x, props_merge (snd x) ps)) (N i)), G)"
| "replayed (WALSetNodeProps i ps) (N, G) = (N(i := map_option (\<lambda>x. (fst x, ps)) (N i)), G)"
| "replayed (WALAddLabel i ls) (N, G) = (N(i := map_option (\<lambda>x. (fst x @ filter (\<lambda>l. l \<notin> set (fst x)) ls, snd x)) (N i)), G)"
| "replayed (WALRemoveLabel i ls) (N, G) = (N(i := map_option (\<lambda>x. (filter (\<lambda>l. l \<notin> set ls) (fst x), snd x)) (N i)), G)"
| "replayed (WALDeleteNode i) (N, G) = (N(i := None), G)"
| "replayed (WALAddEdge i a b l ps) (N, G) = (N, G(i \<mapsto> \<lparr>e_id = i, e_from = a, e_to = b, e_label = l, e_props = ps\<rparr>))"
| "replayed (WALDeleteEdge i a b l) (N, G) = (N, G(i := None))"
| "replayed (WALUpdateEdge i a ps) (N, G) = (N, G(i := map_option (\<lambda>e. e\<lparr>e_props := props_merge (e_props e) ps\<rparr>) (G i)))"
| "replayed _ g = g"

text \<open>
  Operations on the graph whose replay is defined in a state: an added node is new, and an edge entry does not
  contradict an edge with the same identifier. The batch and index operations are not among them.
\<close>

fun replayable :: "Props wal_op \<Rightarrow> graph_nodes \<times> graph_edges \<Rightarrow> bool" where
  "replayable (WALAddNode i ps) (N, G) = (N i = None)"
| "replayable (WALAddNodeWithLabels i ls ps) (N, G) = (N i = None)"
| "replayable (WALSetNodeProps i ps) (N, G) = (N i \<noteq> None)"
| "replayable (WALAddEdge i a b l ps) (N, G) = compat G \<lparr>e_id = i, e_from = a, e_to = b, e_label = l, e_props = ps\<rparr>"
| "replayable (WALDeleteEdge i a b l) (N, G) = compat G \<lparr>e_id = i, e_from = a, e_to = b, e_label = l, e_props = []\<rparr>"
| "replayable (WALUpdateNode i ps) g = True"
| "replayable (WALDeleteNode i) g = True"
| "replayable (WALUpdateEdge i a ps) g = True"
| "replayable (WALAddLabel i ls) g = True"
| "replayable (WALRemoveLabel i ls) g = True"
| "replayable _ g = False"

section \<open>One transaction on one node\<close>

lemma store_rep_failed: "writeUpdate i tx db = (Inl e, db') \<Longrightarrow> store_rep B C db' N G = store_rep B C db N G"
  using writeUpdate_Inl [of i tx db e db'] by (auto simp: store_rep_def files_def)

lemma store_rep_count [simp]:
  "store_rep B C (updShard s (addNodeCount n) db) N G = store_rep B C db N G"
  "store_rep B C (updShard s (addEdgeCount n) db) N G = store_rep B C db N G"
  by (simp_all add: store_rep_def)

lemma store_tx_pre:
  assumes "store_rep B C db N G"
  shows "tx_pre B C db i (N i) (files db ! route (length (files db)) i)"
proof -
  note r = assms [unfolded store_rep_def]
  have "files db \<noteq> []" using r by (simp add: nodes_rep_def)
  moreover have "defs_ok (db_compositeIndexes db)" using r unfolding index_rep_def defs_ok_def by blast
  ultimately show ?thesis using rep_node_at rep_index_at r unfolding tx_pre_def by blast
qed

lemma store_tx_step:
  assumes rep: "store_rep B C db N G" and w: "writeUpdate (shardFor db i) tx db = (r, db1)"
    and ch: "\<And>d'. tx (files db ! route (length (files db)) i) = Inr d' \<Longrightarrow>
               tx_change B C db i (N i) x' (files db ! route (length (files db)) i) d'"
  shows "case r of Inl e \<Rightarrow> store_rep B C db1 N G | Inr _ \<Rightarrow> store_rep B C db1 (N(i := x')) G"
proof (cases r)
  case (Inl e)
  then show ?thesis using rep store_rep_failed w by fastforce
next
  case (Inr u)
  let ?r = "route (length (files db)) i"
  note rep' = rep [unfolded store_rep_def]
  have ne: "files db \<noteq> []" using rep' by (simp add: nodes_rep_def)
  have lt: "?r < length (db_shards db)" using ne route_less [of "length (files db)" i] by simp
  have s: "shardFor db i = ?r" by (simp add: shardFor_route)
  obtain d where d: "tx (files db ! ?r) = Inr d"
    and db1: "db1 = updShard ?r (\<lambda>s. s\<lparr>s_data := d\<rparr>) (db\<lparr>db_faults := tl (db_faults db)\<rparr>)"
    using writeUpdate_Inr [OF w [unfolded s Inr]] files_nth [OF lt] by metis
  have f1: "files db1 = (files db)[?r := d]" by (simp add: db1)
  have r1: "db_indexedProps db1 = db_indexedProps db" "db_compositeIndexes db1 = db_compositeIndexes db" by (simp_all add: db1)
  note t = ch [OF d, unfolded tx_change_def]
  have "nodes_rep B C (files db1) (N(i := x'))" unfolding f1 by (rule nodes_rep_change) (use rep' t in auto)
  moreover have "index_rep B C (db_indexedProps db) (db_compositeIndexes db) (files db1) (N(i := x'))"
    unfolding f1 by (rule index_rep_change) (use rep' ne t in auto)
  moreover have "edges_rep B C (files db1) G"
    unfolding f1 by (rule edges_rep_frame) (use rep' t in \<open>auto simp: node_change_def\<close>)
  ultimately show ?thesis by (simp add: store_rep_def r1 Inr)
qed

section \<open>The applier's transactions are the leader's without constraints\<close>

text \<open>A follower writes no unique index entries while replaying.\<close>

abbreviation unconstrained :: "'b DB \<Rightarrow> 'b DB" where
  "unconstrained db \<equiv> db\<lparr>db_uniqueConstraints := []\<rparr>"

lemma applicable_none [simp]: "applicable C [] ls ps = []"
  by (simp add: applicable_def)

lemma unconstrained_checks [simp]:
  "checkUniqueConstraintsInTx B C (unconstrained db) ls ps x d = Inr ()"
  "indexUniqueConstraints B C (unconstrained db) i ls ps d = d"
  "unindexUniqueConstraints B C (unconstrained db) i ls ps d = d"
  by (simp_all add: checkUniqueConstraintsInTx_def indexUniqueConstraints_def unindexUniqueConstraints_def)

lemma unconstrained_index [simp]:
  "indexNodeProps B C (unconstrained db) = indexNodeProps B C db"
  "unindexNodeProps B C (unconstrained db) = unindexNodeProps B C db"
  by (simp_all add: indexNodeProps_def unindexNodeProps_def fun_eq_iff)

lemma unconstrained_tx [simp]:
  "tx_pre B C (unconstrained db) = tx_pre B C db" "tx_change B C (unconstrained db) = tx_change B C db"
  by (simp_all add: tx_pre_def tx_change_def fun_eq_iff)

lemma ebind_Inr [simp]: "ebind x Inr = x"
  by (cases x) simp_all

lemma apply_leader_tx:
  "applyUpdateNodeTx B C db i ps d = Inr d' \<Longrightarrow> updateNodeTx B C (unconstrained db) i ps d = Inr d'"
  "applyAddNodeWithLabelsTx B C db i data ld ls ps d = addNodeWithLabelsTx B C (unconstrained db) i data ld ls ps d"
  "applyAddLabelTx B C i ls d = Inr d' \<Longrightarrow> addLabelTx B C (unconstrained db) i ls d = Inr d'"
  by (auto simp: applyUpdateNodeTx_def updateNodeTx_def rewriteNodeTx_def applyAddNodeWithLabelsTx_def
      addNodeWithLabelsTx_def applyAddLabelTx_def addLabelTx_def Let_def split: option.splits if_splits)

context graph_store
begin

lemma applySetNodePropsTx_leader:
  assumes tx: "applySetNodePropsTx B C db i ps d = Inr d'" and pre: "tx_pre B C db i (Some x) d"
  shows "setNodePropsTx B C (unconstrained db) i ps d = Inr d'"
proof -
  have at: "node_at B C i (Some x) d" and defs: "defs_ok (db_compositeIndexes db)" using pre by (simp_all add: tx_pre_def)
  obtain data where get: "b_get B (bk_nodes d) (encodeNodeID i) = Some data"
    using at by (cases x) (auto simp: node_at_def)
  obtain q where dec: "decodeProps C data = Inr q" using node_at_data(2) [OF at get] by blast
  obtain d1 where un: "unindexNodeProps B C db i q d = Inr d1" using unindexNodeProps_change [OF defs, of C i q d] by blast
  show ?thesis using tx by (auto simp: applySetNodePropsTx_def setNodePropsTx_def get dec un ignoring_def rewriteNodeTx_def Let_def)
qed

lemma applyDeleteNodeTx_leader:
  assumes tx: "applyDeleteNodeTx B C db i d = Inr d'" and pre: "tx_pre B C db i x d"
  shows "if x = None then d' = d else deleteNodeTx B C (unconstrained db) i d = Inr d'"
proof -
  have at: "node_at B C i x d" and defs: "defs_ok (db_compositeIndexes db)" using pre by (simp_all add: tx_pre_def)
  show ?thesis
  proof (cases "b_get B (bk_nodes d) (encodeNodeID i)")
    case None
    then show ?thesis using tx at by (auto simp: applyDeleteNodeTx_def node_at_def split: option.splits)
  next
    case (Some data)
    obtain q where dec: "decodeProps C data = Inr q" and x: "x \<noteq> None" using node_at_data(2) [OF at Some] by blast
    have un: "ignoring (unindexNodeProps B C db i []) d = d" by (simp add: ignoring_def unindexNodeProps_def)
    show ?thesis using tx x un by (cases "q = []") (auto simp: applyDeleteNodeTx_def deleteNodeTx_def Some dec Let_def)
  qed
qed

lemma deleteLabelEntries_efold:
  "efold (\<lambda>l b. b_del B b (encodeLabelIndexKey l i)) ls (bk_idx_node_label d) = Inr (bk_idx_node_label (deleteLabelEntries B i ls d)) \<and>
   deleteLabelEntries B i ls d = d\<lparr>bk_idx_node_label := bk_idx_node_label (deleteLabelEntries B i ls d)\<rparr>"
proof (induction ls arbitrary: d)
  case (Cons l ls)
  obtain b where b: "b_del B (bk_idx_node_label d) (encodeLabelIndexKey l i) = Inr b" using del_ok by blast
  have "deleteLabelEntries B i (l # ls) d = deleteLabelEntries B i ls (d\<lparr>bk_idx_node_label := b\<rparr>)"
    by (simp add: deleteLabelEntries_def ignoring_def b)
  then show ?case using Cons.IH [of "d\<lparr>bk_idx_node_label := b\<rparr>"] by (simp add: b)
qed (simp add: deleteLabelEntries_def)

lemma applyRemoveLabelTx_leader:
  assumes tx: "applyRemoveLabelTx B C i ls d = Inr d'" and at: "node_at B C i x d"
  shows "if x = None then d' = d else removeLabelTx B C i ls d = Inr d'"
proof (cases "b_get B (bk_nodes d) (encodeNodeID i) = None")
  case True
  then show ?thesis using tx at by (auto simp: applyRemoveLabelTx_def node_at_def split: option.splits)
next
  case False
  then have x: "x \<noteq> None" using node_at_data(2) [OF at] by blast
  obtain c where c: "b_del B (bk_node_labels d) (encodeNodeID i) = Inr c" using del_ok by blast
  define e where "e d1 = deleteLabelEntries B i ls d1" for d1
  have ef: "efold (\<lambda>l b. b_del B b (encodeLabelIndexKey l i)) ls (bk_idx_node_label d1) = Inr (bk_idx_node_label (e d1))"
    "d1\<lparr>bk_idx_node_label := bk_idx_node_label (e d1)\<rparr> = e d1" for d1
    using deleteLabelEntries_efold [of i ls d1] by (simp_all add: e_def)
  show ?thesis using tx x False
    unfolding applyRemoveLabelTx_def removeLabelTx_def Let_def e_def [symmetric] ef(1)
    by (auto simp: c ignoring_def ef(2) split: if_splits)
qed

section \<open>Replaying a node operation\<close>

lemma applyAddNode_step:
  assumes rep: "store_rep B C db N G" and new: "N i = None" and op: "applyAddNode B C i ps db = (r, db')"
  shows "case r of Inl e \<Rightarrow> store_rep B C db' N G | Inr _ \<Rightarrow> store_rep B C db' (N(i \<mapsto> ([], ps))) G"
proof (cases "encodeProps C ps")
  case (Inl e)
  then show ?thesis using op rep by (auto simp: applyAddNode_def Let_def)
next
  case (Inr data)
  obtain r1 db1 where w: "writeUpdate (shardFor db i) (addNodeTx B C db i data ps) db = (r1, db1)" by (metis surj_pair)
  have "case r1 of Inl e \<Rightarrow> store_rep B C db1 N G | Inr _ \<Rightarrow> store_rep B C db1 (N(i := Some ([], ps))) G"
    by (rule store_tx_step [OF rep w]) (use addNodeTx_change(1) [OF _ Inr] store_tx_pre [OF rep, of i] new in auto)
  then show ?thesis using op w by (auto simp: applyAddNode_def Let_def Inr split: sum.splits)
qed

lemma applyAddNodeWithLabels_step:
  assumes rep: "store_rep B C db N G" and new: "N i = None" and op: "applyAddNodeWithLabels B C i ls ps db = (r, db')"
  shows "case r of Inl e \<Rightarrow> store_rep B C db' N G | Inr _ \<Rightarrow> store_rep B C db' (N(i \<mapsto> (ls, ps))) G"
proof (cases "encodeProps C ps")
  case (Inl e)
  then show ?thesis using op rep by (auto simp: applyAddNodeWithLabels_def Let_def)
next
  case enc: (Inr data)
  show ?thesis
  proof (cases "if ls = [] then Inr [] else c_marshal_labels C ls")
    case (Inl e)
    then show ?thesis using op rep by (auto simp: applyAddNodeWithLabels_def Let_def enc split: if_splits)
  next
    case (Inr ld)
    obtain r1 db1 where w: "writeUpdate (shardFor db i) (applyAddNodeWithLabelsTx B C db i data ld ls ps) db = (r1, db1)" by (metis surj_pair)
    have pre: "tx_pre B C (unconstrained db) i None (files db ! route (length (files db)) i)"
      using store_tx_pre [OF rep, of i] new by simp
    have "case r1 of Inl e \<Rightarrow> store_rep B C db1 N G | Inr _ \<Rightarrow> store_rep B C db1 (N(i := Some (ls, ps))) G"
      by (rule store_tx_step [OF rep w]) (use addNodeWithLabelsTx_change(1) [OF _ enc Inr pre] new in \<open>simp add: apply_leader_tx(2)\<close>)
    then show ?thesis using op w unfolding applyAddNodeWithLabels_def Let_def enc sum.case Inr by (auto split: sum.splits)
  qed
qed

text \<open>The operations that are one transaction on one node.\<close>

lemma apply_node_step:
  assumes rep: "store_rep B C db N G" and w: "writeUpdate (shardFor db i) tx db = (r, db')"
    and ch: "\<And>d'. tx (files db ! route (length (files db)) i) = Inr d' \<Longrightarrow>
        (if N i = None then d' = files db ! route (length (files db)) i
         else \<exists>x. N i = Some x \<and> tx_change B C (unconstrained db) i (N i) (g x) (files db ! route (length (files db)) i) d')"
  shows "case r of Inl e \<Rightarrow> store_rep B C db' N G | Inr _ \<Rightarrow> store_rep B C db' (N(i := Option.bind (N i) g)) G"
proof (rule store_tx_step [OF rep w])
  fix d' assume d': "tx (files db ! route (length (files db)) i) = Inr d'"
  let ?d = "files db ! route (length (files db)) i"
  show "tx_change B C db i (N i) (Option.bind (N i) g) ?d d'"
  proof (cases "N i")
    case None
    then have "d' = ?d" using ch [OF d'] by simp
    moreover have "tx_change B C db i None None ?d ?d"
      using store_tx_pre [OF rep, of i] None by (simp add: tx_change_def tx_pre_def)
    ultimately show ?thesis using None by simp
  next
    case (Some x)
    then show ?thesis using ch [OF d'] by auto
  qed
qed

lemma apply_rewrite_steps:
  assumes rep: "store_rep B C db N G"
  shows "applyUpdateNode B C i ps db = (r, db') \<Longrightarrow>
      case r of Inl e \<Rightarrow> store_rep B C db' N G | Inr _ \<Rightarrow> store_rep B C db' (fst (replayed (WALUpdateNode i ps) (N, G))) G"
    and "N i \<noteq> None \<Longrightarrow> applySetNodeProps B C i ps db = (r, db') \<Longrightarrow>
      case r of Inl e \<Rightarrow> store_rep B C db' N G | Inr _ \<Rightarrow> store_rep B C db' (fst (replayed (WALSetNodeProps i ps) (N, G))) G"
    and "applyAddLabel B C i ls db = (r, db') \<Longrightarrow>
      case r of Inl e \<Rightarrow> store_rep B C db' N G | Inr _ \<Rightarrow> store_rep B C db' (fst (replayed (WALAddLabel i ls) (N, G))) G"
    and "applyRemoveLabel B C i ls db = (r, db') \<Longrightarrow>
      case r of Inl e \<Rightarrow> store_rep B C db' N G | Inr _ \<Rightarrow> store_rep B C db' (fst (replayed (WALRemoveLabel i ls) (N, G))) G"
proof -
  let ?d = "files db ! route (length (files db)) i"
  have pre: "tx_pre B C (unconstrained db) i (N i) ?d" using store_tx_pre [OF rep, of i] by simp
  have at: "node_at B C i (N i) ?d" using pre by (simp add: tx_pre_def)
  have bind: "Option.bind x (\<lambda>y. Some (f y)) = map_option f x" for x :: "nrec option" and f by (cases x) simp_all
  show "case r of Inl e \<Rightarrow> store_rep B C db' N G | Inr _ \<Rightarrow> store_rep B C db' (fst (replayed (WALUpdateNode i ps) (N, G))) G" if w: "applyUpdateNode B C i ps db = (r, db')"
  proof -
    have ch: "if N i = None then d' = ?d
        else \<exists>x. N i = Some x \<and> tx_change B C (unconstrained db) i (N i) (Some (fst x, props_merge (snd x) ps)) ?d d'"
      if t: "applyUpdateNodeTx B C db i ps ?d = Inr d'" for d'
      using updateNodeTx_change [OF apply_leader_tx(1) [OF t] pre] by (auto simp del: split_paired_Ex)
    show ?thesis
      using apply_node_step [where g = "\<lambda>x. Some (fst x, props_merge (snd x) ps)", OF rep w [unfolded applyUpdateNode_def] ch]
      by (cases r) (simp_all add: bind)
  qed
  show "case r of Inl e \<Rightarrow> store_rep B C db' N G | Inr _ \<Rightarrow> store_rep B C db' (fst (replayed (WALSetNodeProps i ps) (N, G))) G" if ex: "N i \<noteq> None" and w: "applySetNodeProps B C i ps db = (r, db')"
  proof -
    obtain x where x: "N i = Some x" using ex by blast
    have ch: "if N i = None then d' = ?d else \<exists>x. N i = Some x \<and> tx_change B C (unconstrained db) i (N i) (Some (fst x, ps)) ?d d'"
      if "applySetNodePropsTx B C db i ps ?d = Inr d'" for d'
      using setNodePropsTx_change [OF applySetNodePropsTx_leader [OF that, of x] pre] pre x by auto
    show ?thesis
      using apply_node_step [where g = "\<lambda>x. Some (fst x, ps)", OF rep w [unfolded applySetNodeProps_def] ch] x by (cases r) (simp_all add: bind)
  qed
  show "case r of Inl e \<Rightarrow> store_rep B C db' N G | Inr _ \<Rightarrow> store_rep B C db' (fst (replayed (WALAddLabel i ls) (N, G))) G" if w: "applyAddLabel B C i ls db = (r, db')"
  proof -
    have ch: "if N i = None then d' = ?d
        else \<exists>x. N i = Some x \<and> tx_change B C (unconstrained db) i (N i) (Some (fst x @ filter (\<lambda>l. l \<notin> set (fst x)) ls, snd x)) ?d d'"
      if t: "applyAddLabelTx B C i ls ?d = Inr d'" for d'
      using addLabelTx_change [OF apply_leader_tx(3) [OF t] pre] by (auto simp del: split_paired_Ex)
    show ?thesis
      using apply_node_step [where g = "\<lambda>x. Some (fst x @ filter (\<lambda>l. l \<notin> set (fst x)) ls, snd x)", OF rep w [unfolded applyAddLabel_def] ch]
      by (cases r) (simp_all add: bind)
  qed
  show "case r of Inl e \<Rightarrow> store_rep B C db' N G | Inr _ \<Rightarrow> store_rep B C db' (fst (replayed (WALRemoveLabel i ls) (N, G))) G" if w: "applyRemoveLabel B C i ls db = (r, db')"
  proof -
    have ch: "if N i = None then d' = ?d
        else \<exists>x. N i = Some x \<and> tx_change B C (unconstrained db) i (N i) (Some (filter (\<lambda>l. l \<notin> set ls) (fst x), snd x)) ?d d'"
      if t: "applyRemoveLabelTx B C i ls ?d = Inr d'" for d'
      using applyRemoveLabelTx_leader [OF t at] removeLabelTx_change [OF _ pre, of ls d'] by (auto simp del: split_paired_Ex)
    show ?thesis
      using apply_node_step [where g = "\<lambda>x. Some (filter (\<lambda>l. l \<notin> set ls) (fst x), snd x)", OF rep w [unfolded applyRemoveLabel_def] ch]
      by (cases r) (simp_all add: bind)
  qed
qed

lemma applyDeleteNode_step:
  assumes rep: "store_rep B C db N G" and op: "applyDeleteNode B C i db = (r, db')"
  shows "case r of Inl e \<Rightarrow> store_rep B C db' N G | Inr _ \<Rightarrow> store_rep B C db' (N(i := None)) G"
proof -
  let ?d = "files db ! route (length (files db)) i"
  have pre: "tx_pre B C db i (N i) ?d" using store_tx_pre [OF rep] .
  obtain r1 db1 where w: "writeUpdate (shardFor db i) (applyDeleteNodeTx B C db i) db = (r1, db1)" by (metis surj_pair)
  have "tx_change B C (unconstrained db) i (N i) None ?d d'" if "applyDeleteNodeTx B C db i ?d = Inr d'" "N i \<noteq> None" for d'
    using applyDeleteNodeTx_leader [OF that(1) pre] deleteNodeTx_change [of "unconstrained db" i ?d d' "N i"] pre that(2) by simp
  moreover have "d' = ?d" if "applyDeleteNodeTx B C db i ?d = Inr d'" "N i = None" for d'
    using applyDeleteNodeTx_leader [OF that(1) pre] that(2) by simp
  ultimately have "case r1 of Inl e \<Rightarrow> store_rep B C db1 N G | Inr _ \<Rightarrow> store_rep B C db1 (N(i := Option.bind (N i) (\<lambda>_. None))) G"
    by (intro apply_node_step [OF rep w]) auto
  then show ?thesis using op w by (auto simp: applyDeleteNode_def Let_def split: sum.splits)
qed

section \<open>Replaying an edge operation\<close>

lemma write_files:
  assumes "writeUpdate s tx db = (Inr u, db1)" and "s < length (db_shards db)"
  obtains d where "tx (files db ! s) = Inr d" and "files db1 = (files db)[s := d]"
proof -
  obtain d where "tx (bucketsOf db s) = Inr d" and "db1 = updShard s (\<lambda>t. t\<lparr>s_data := d\<rparr>) (db\<lparr>db_faults := tl (db_faults db)\<rparr>)"
    using writeUpdate_Inr [OF assms(1)] by metis
  then show ?thesis using that [of d] files_nth [OF assms(2)] by simp
qed

lemma store_edge_step:
  assumes "store_rep B C db N G" and "node_same db db'" and "edges_rep B C (files db') G'"
  shows "store_rep B C db' N G'"
  using assms node_same_rep(1,2) [OF assms(2), of B C] by (simp add: store_rep_def node_same_def)

lemma route_in_range:
  assumes "store_rep B C db N G"
  shows "route (length (db_shards db)) i < length (db_shards db)"
proof -
  have "files db \<noteq> []" using assms unfolding store_rep_def nodes_rep_def by blast
  then show ?thesis by (simp add: route_less)
qed

lemma applyAddEdge_step:
  assumes rep: "store_rep B C db N G" and cp: "compat G \<lparr>e_id = i, e_from = a, e_to = b, e_label = l, e_props = ps\<rparr>"
    and op: "applyAddEdge B C i a b l ps db = (r, db')"
  shows "case r of Inl e \<Rightarrow> db_faults db = [] \<longrightarrow> store_rep B C db' N G
    | Inr _ \<Rightarrow> store_rep B C db' N (G(i \<mapsto> \<lparr>e_id = i, e_from = a, e_to = b, e_label = l, e_props = ps\<rparr>))"
proof -
  let ?e = "\<lparr>e_id = i, e_from = a, e_to = b, e_label = l, e_props = ps\<rparr>" and ?n = "length (db_shards db)"
  let ?src = "route ?n a" and ?dst = "route ?n b"
  have er: "edges_rep B C (files db) G" using rep by (simp add: store_rep_def)
  have sh: "shardForEdge db a = ?src" "shardFor db b = ?dst" by (simp_all add: shardForEdge_def shardFor_route)
  note lt = route_in_range [OF rep]
  show ?thesis
  proof (cases "?src = ?dst")
    case True
    obtain r1 db1 where w: "writeUpdate ?src (addEdgeSameTx B C ?e) db = (r1, db1)" by (metis surj_pair)
    show ?thesis
    proof (cases r1)
      case (Inl e)
      then show ?thesis using op True w rep store_rep_failed [OF w [unfolded Inl], of B C N G] by (auto simp: applyAddEdge_def sh)
    next
      case (Inr u)
      obtain d where d: "addEdgeSameTx B C ?e (files db ! ?src) = Inr d" "files db1 = (files db)[?src := d]"
        by (rule write_files [OF w [unfolded Inr] lt])
      have "edges_rep B C (files db1) (G(e_id ?e \<mapsto> ?e))"
        unfolding d(2) by (rule edges_rep_addSame [OF er cp]) (use d True in simp_all)
      then have "store_rep B C db1 N (G(i \<mapsto> ?e))"
        using store_edge_step [OF rep node_same_write [OF w edge_tx_frames(1)]] by simp
      then show ?thesis using op True w Inr by (auto simp: applyAddEdge_def sh)
    qed
  next
    case False
    obtain r1 db1 where w: "writeUpdate ?src (addEdgeSrcTx B C ?e) db = (r1, db1)" by (metis surj_pair)
    show ?thesis
    proof (cases r1)
      case (Inl e)
      then show ?thesis using op False w rep store_rep_failed [OF w [unfolded Inl], of B C N G] by (auto simp: applyAddEdge_def sh)
    next
      case (Inr u)
      let ?db2 = "updShard ?src (addEdgeCount 1) db1"
      have op2: "writeUpdate ?dst (addEdgeDstTx B ?e) ?db2 = (r, db')"
        using op False w Inr by (auto simp: applyAddEdge_def sh)
      obtain d where d: "addEdgeSrcTx B C ?e (files db ! ?src) = Inr d" "files db1 = (files db)[?src := d]"
        by (rule write_files [OF w [unfolded Inr] lt])
      have f2: "files ?db2 = (files db)[?src := d]" by (simp add: d(2))
      have len: "length (db_shards ?db2) = ?n" using arg_cong [OF f2, of length] by simp
      show ?thesis
      proof (cases r)
        case r: (Inl x)
        have "db_faults db \<noteq> []"
        proof
          assume "db_faults db = []"
          then have "db_faults ?db2 = []" using writeUpdate_faults [OF w] by simp
          then show False using op2 r addEdgeDstTx_ok [OF d(1), of "bucketsOf ?db2 ?dst"] by (auto simp: writeUpdate_def)
        qed
        then show ?thesis using r by simp
      next
        case r: (Inr v)
        obtain d2 where d2: "addEdgeDstTx B ?e (files ?db2 ! ?dst) = Inr d2" "files db' = (files ?db2)[?dst := d2]"
          by (rule write_files [OF op2 [unfolded r]]) (use len lt in auto)
        have "edges_rep B C (files db') (G(e_id ?e \<mapsto> ?e))"
          unfolding d2(2) f2 by (rule edges_rep_addSplit [OF er cp]) (use d d2 False in \<open>simp_all add: f2\<close>)
        moreover have "node_same db db'"
        proof -
          have "node_same db db1" by (rule node_same_write [OF w]) (rule edge_tx_frames(2))
          moreover have "node_same ?db2 db'" by (rule node_same_write [OF op2]) (rule edge_tx_frames(3))
          ultimately show ?thesis using node_same_trans node_same_same [OF same_graph_steps(3)] by blast
        qed
        ultimately show ?thesis using store_edge_step [OF rep] r by simp
      qed
    qed
  qed
qed

lemma apply_del_txs:
  assumes "e_id e = i" and "e_from e = a" and "e_to e = b" and "e_label e = l"
  shows "applyDelSrcTx B i a l d = delEdgeSrcTx B e d" and "applyDelDstTx B i b d = delEdgeDstTx B e d"
proof -
  obtain x y z where "b_del B (bk_edges d) (encodeEdgeID i) = Inr x" "b_del B (bk_adj_out d) (encodeAdjKey a i) = Inr y"
    "b_del B (bk_idx_edge_type d) (encodeIndexKey l i) = Inr z" using del_ok by meson
  then show "applyDelSrcTx B i a l d = delEdgeSrcTx B e d"
    using assms by (simp add: applyDelSrcTx_def delEdgeSrcTx_def ignoring_def)
  show "applyDelDstTx B i b d = delEdgeDstTx B e d" using assms by (simp add: applyDelDstTx_def delEdgeDstTx_def)
qed

lemma applyDeleteEdge_step:
  assumes rep: "store_rep B C db N G" and cp: "compat G \<lparr>e_id = i, e_from = a, e_to = b, e_label = l, e_props = []\<rparr>"
    and op: "applyDeleteEdge B i a b l db = (r, db')"
  shows "case r of Inl e \<Rightarrow> db_faults db = [] \<longrightarrow> store_rep B C db' N G | Inr _ \<Rightarrow> store_rep B C db' N (G(i := None))"
proof -
  let ?e = "\<lparr>e_id = i, e_from = a, e_to = b, e_label = l, e_props = []\<rparr>"
  have tx: "applyDelSrcTx B i a l = delEdgeSrcTx B ?e" "applyDelDstTx B i b = delEdgeDstTx B ?e"
    by (simp_all add: fun_eq_iff apply_del_txs)
  have eq: "deleteEdgeInternal B W ?e db = (case applyDeleteEdge B i a b l db of (Inl e, db1) \<Rightarrow> (Inl e, db1)
      | (Inr _, db3) \<Rightarrow> (Inr (), walAppend W (WALDeleteEdge i a b l) db3))" for W
    by (auto simp: deleteEdgeInternal_def applyDeleteEdge_def tx Let_def split: sum.splits prod.splits)
  show ?thesis
  proof (cases r)
    case (Inl x)
    then have "deleteEdgeInternal B undefined ?e db = (Inl x, db')" using eq op by simp
    then have "db_faults db \<noteq> []" using deleteEdgeInternal_ok [of db undefined ?e] by auto
    then show ?thesis using Inl by simp
  next
    case (Inr u)
    define W :: wcodec where "W = undefined"
    have del: "deleteEdgeInternal B W ?e db = (Inr (), walAppend W (WALDeleteEdge i a b l) db')" using eq op Inr by simp
    have "edges_rep B C (files (walAppend W (WALDeleteEdge i a b l) db')) (G(e_id ?e := None))"
      using deleteEdgeInternal_rep [OF del _ cp] rep by (simp add: store_rep_def)
    then have "store_rep B C (walAppend W (WALDeleteEdge i a b l) db') N (G(i := None))"
      using store_edge_step [OF rep node_same_delete [OF del]] by simp
    then show ?thesis using Inr by (simp add: store_rep_def)
  qed
qed

lemma applyUpdateEdge_step:
  assumes rep: "store_rep B C db N G" and op: "applyUpdateEdge B C i a ps db = (r, db')"
  shows "case r of Inl e \<Rightarrow> store_rep B C db' N G
    | Inr _ \<Rightarrow> store_rep B C db' N (G(i := map_option (\<lambda>e. e\<lparr>e_props := props_merge (e_props e) ps\<rparr>) (G i)))"
proof (cases r)
  case (Inl e)
  then show ?thesis using op rep store_rep_failed by (fastforce simp: applyUpdateEdge_def)
next
  case (Inr u)
  let ?s = "route (length (db_shards db)) a"
  have w: "writeUpdate ?s (applyUpdateEdgeTx B C i ps) db = (Inr u, db')"
    using op Inr by (simp add: applyUpdateEdge_def shardForEdge_def shardFor_route)
  obtain d where d: "applyUpdateEdgeTx B C i ps (files db ! ?s) = Inr d" "files db' = (files db)[?s := d]"
    by (rule write_files [OF w route_in_range [OF rep]])
  have er: "edges_rep B C (files db) G" using rep by (simp add: store_rep_def)
  obtain data e' where get: "b_get B (bk_edges (files db ! ?s)) (encodeEdgeID i) = Some data" and dec: "decodeEdge C data = Inr e'"
    and tx: "updateEdgeTx B C i (e'\<lparr>e_props := props_merge (e_props e') ps\<rparr>) (files db ! ?s) = Inr d"
    using d(1) by (auto simp: applyUpdateEdgeTx_def split: option.splits)
  obtain e where G: "G i = Some e" and s: "route (length (files db)) (e_from e) = ?s" and eq: "edge_eq C e e'"
    using rep_lookup [OF er _ get] route_in_range [OF rep, of a] dec by auto
  have "edges_rep B C ((files db)[route (length (files db)) (e_from e) := d]) (G(i \<mapsto> e\<lparr>e_props := props_merge (e_props e) ps\<rparr>))"
    by (rule updateEdge_tx_rep [OF er G _ tx [folded s]])
      (use eq decodeEdge_label [OF dec] text_eq_merge [of C "e_props e" "e_props e'" ps] in \<open>auto simp: edge_eq_def same_shape_def\<close>)
  moreover have "node_same db db'"
    by (rule node_same_write [OF w]) (auto simp: applyUpdateEdgeTx_def edge_tx_frames(6) split: option.splits)
  ultimately show ?thesis using store_edge_step [OF rep] s d(2) G Inr by simp
qed

text \<open>The applier refines the effect on the graph.\<close>

lemma applyPayload_step:
  assumes rep: "store_rep B C db N G" and can: "replayable p (N, G)" and op: "applyPayload B C W p db = (r, db')"
  shows "case r of Inl e \<Rightarrow> db_faults db = [] \<longrightarrow> store_rep B C db' N G
    | Inr _ \<Rightarrow> store_rep B C db' (fst (replayed p (N, G))) (snd (replayed p (N, G)))"
proof (cases p)
  case (WALAddNode i ps)
  then show ?thesis using applyAddNode_step [OF rep, of i ps r db'] can op by (cases r) simp_all
next
  case (WALAddNodeWithLabels i ls ps)
  then show ?thesis using applyAddNodeWithLabels_step [OF rep, of i ls ps r db'] can op by (cases r) simp_all
next
  case (WALUpdateNode i ps)
  then show ?thesis using apply_rewrite_steps(1) [OF rep, of i ps r db'] op by (cases r) simp_all
next
  case (WALSetNodeProps i ps)
  then show ?thesis using apply_rewrite_steps(2) [OF rep, of i ps r db'] op can by (cases r) simp_all
next
  case (WALAddLabel i ls)
  then show ?thesis using apply_rewrite_steps(3) [OF rep, of i ls r db'] op by (cases r) simp_all
next
  case (WALRemoveLabel i ls)
  then show ?thesis using apply_rewrite_steps(4) [OF rep, of i ls r db'] op by (cases r) simp_all
next
  case (WALDeleteNode i)
  then show ?thesis using applyDeleteNode_step [OF rep, of i r db'] op by (cases r) simp_all
next
  case (WALAddEdge i a b l ps)
  then show ?thesis using applyAddEdge_step [OF rep, of i a b l ps r db'] can op by (cases r) simp_all
next
  case (WALDeleteEdge i a b l)
  then show ?thesis using applyDeleteEdge_step [OF rep, of i a b l r db'] can op by (cases r) simp_all
next
  case (WALUpdateEdge i a ps)
  then show ?thesis using applyUpdateEdge_step [OF rep, of i a ps r db'] op by (cases r) simp_all
qed (use can in simp_all)

end

end
