(* ===== verification/Replication.thy ===== *)
theory Replication
  imports Replica
begin

text \<open>
  Leader and follower together: the operations a call of the leader logs, their replay, and the
  follower that applies the entries of the log in order.
\<close>

section \<open>Graphs equal up to the text of property values\<close>

definition graph_like :: "codec \<Rightarrow> graph_nodes \<times> graph_edges \<Rightarrow> graph_nodes \<times> graph_edges \<Rightarrow> bool" where
  "graph_like C g h \<longleftrightarrow>
     (\<forall>i. rel_option (\<lambda>x y. fst x = fst y \<and> text_eq C (snd x) (snd y)) (fst g i) (fst h i)) \<and>
     (\<forall>e. rel_option (edge_eq C) (snd g e) (snd h e))"

lemma graph_like_refl [simp]: "graph_like C g g"
  by (auto simp: graph_like_def edge_eq_def intro!: rel_option_reflI)

lemma text_eq_merge2: "text_eq C p q \<Longrightarrow> text_eq C r s \<Longrightarrow> text_eq C (props_merge p r) (props_merge q s)"
  unfolding same_text_def map_of_props_merge map_add_def
proof
  fix k assume "\<forall>k. map_option (fmtv C) (map_of p k) = map_option (fmtv C) (map_of q k)"
    and "\<forall>k. map_option (fmtv C) (map_of r k) = map_option (fmtv C) (map_of s k)"
  then have "map_option (fmtv C) (map_of p k) = map_option (fmtv C) (map_of q k)"
    and "map_option (fmtv C) (map_of r k) = map_option (fmtv C) (map_of s k)" by blast+
  then show "map_option (fmtv C) (case map_of r k of None \<Rightarrow> map_of p k | Some x \<Rightarrow> Some x) =
      map_option (fmtv C) (case map_of s k of None \<Rightarrow> map_of q k | Some x \<Rightarrow> Some x)"
    by (cases "map_of r k"; cases "map_of s k") simp_all
qed

lemma graph_like_node:
  assumes "graph_like C (N, G) (N', G')" and "rel_option (\<lambda>x y. fst x = fst y \<and> text_eq C (snd x) (snd y)) x x'"
  shows "graph_like C (N(i := x), G) (N'(i := x'), G')"
  using assms by (simp add: graph_like_def)

lemma graph_like_edge:
  assumes "graph_like C (N, G) (N', G')" and "rel_option (edge_eq C) x x'"
  shows "graph_like C (N, G(i := x)) (N', G'(i := x'))"
  using assms by (simp add: graph_like_def)

lemma graph_like_map_node:
  assumes "graph_like C (N, G) (N', G')"
    and "\<And>x y. fst x = fst y \<Longrightarrow> text_eq C (snd x) (snd y) \<Longrightarrow> fst (f x) = fst (f' y) \<and> text_eq C (snd (f x)) (snd (f' y))"
  shows "graph_like C (N(i := map_option f (N i)), G) (N'(i := map_option f' (N' i)), G')"
proof (rule graph_like_node [OF assms(1)])
  have "rel_option (\<lambda>x y. fst x = fst y \<and> text_eq C (snd x) (snd y)) (N i) (N' i)" using assms(1) by (simp add: graph_like_def)
  then show "rel_option (\<lambda>x y. fst x = fst y \<and> text_eq C (snd x) (snd y)) (map_option f (N i)) (map_option f' (N' i))"
    unfolding option.rel_map by (rule option.rel_mono_strong) (use assms(2) in blast)
qed

lemma replayed_like:
  assumes g: "graph_like C (N, G) (N', G')" and p: "rel_wal_op (text_eq C) p q"
  shows "graph_like C (replayed p (N, G)) (replayed q (N', G'))"
proof (cases p)
  case (WALUpdateNode i ps)
  then obtain ps' where q: "q = WALUpdateNode i ps'" and t: "text_eq C ps ps'" using p by (cases q) auto
  show ?thesis unfolding WALUpdateNode q replayed.simps
    by (rule graph_like_map_node [OF g]) (use t text_eq_merge2 in simp)
next
  case (WALSetNodeProps i ps)
  then obtain ps' where q: "q = WALSetNodeProps i ps'" and t: "text_eq C ps ps'" using p by (cases q) auto
  show ?thesis unfolding WALSetNodeProps q replayed.simps by (rule graph_like_map_node [OF g]) (use t in simp)
next
  case (WALAddLabel i ls)
  then have q: "q = WALAddLabel i ls" using p by (cases q) auto
  show ?thesis unfolding WALAddLabel q replayed.simps by (rule graph_like_map_node [OF g]) simp
next
  case (WALRemoveLabel i ls)
  then have q: "q = WALRemoveLabel i ls" using p by (cases q) auto
  show ?thesis unfolding WALRemoveLabel q replayed.simps by (rule graph_like_map_node [OF g]) simp
next
  case (WALUpdateEdge i a ps)
  then obtain ps' where q: "q = WALUpdateEdge i a ps'" and t: "text_eq C ps ps'" using p by (cases q) auto
  have "rel_option (edge_eq C) (G i) (G' i)" using g by (simp add: graph_like_def)
  then have "rel_option (edge_eq C) (map_option (\<lambda>e. e\<lparr>e_props := props_merge (e_props e) ps\<rparr>) (G i))
      (map_option (\<lambda>e. e\<lparr>e_props := props_merge (e_props e) ps'\<rparr>) (G' i))"
    unfolding option.rel_map by (rule option.rel_mono_strong) (use t text_eq_merge2 in \<open>simp add: edge_eq_def\<close>)
  then show ?thesis unfolding WALUpdateEdge q replayed.simps by (rule graph_like_edge [OF g])
next
  case (WALAddNode i ps)
  then obtain ps' where q: "q = WALAddNode i ps'" and t: "text_eq C ps ps'" using p by (cases q) auto
  show ?thesis unfolding WALAddNode q replayed.simps by (rule graph_like_node [OF g]) (use t in simp)
next
  case (WALAddNodeWithLabels i ls ps)
  then obtain ps' where q: "q = WALAddNodeWithLabels i ls ps'" and t: "text_eq C ps ps'" using p by (cases q) auto
  show ?thesis unfolding WALAddNodeWithLabels q replayed.simps by (rule graph_like_node [OF g]) (use t in simp)
next
  case (WALDeleteNode i)
  then have q: "q = WALDeleteNode i" using p by (cases q) auto
  show ?thesis unfolding WALDeleteNode q replayed.simps by (rule graph_like_node [OF g]) simp
next
  case (WALAddEdge i a b l ps)
  then obtain ps' where q: "q = WALAddEdge i a b l ps'" and t: "text_eq C ps ps'" using p by (cases q) auto
  show ?thesis unfolding WALAddEdge q replayed.simps by (rule graph_like_edge [OF g]) (use t in \<open>simp add: edge_eq_def\<close>)
next
  case (WALDeleteEdge i a b l)
  then have q: "q = WALDeleteEdge i a b l" using p by (cases q) auto
  show ?thesis unfolding WALDeleteEdge q replayed.simps by (rule graph_like_edge [OF g]) simp
qed (use p g in \<open>cases q; simp\<close>)+

lemma replayable_like:
  assumes g: "graph_like C (N, G) (N', G')" and p: "rel_wal_op (text_eq C) p q" and can: "replayable p (N, G)"
  shows "replayable q (N', G')"
proof -
  have n: "N i = None \<longleftrightarrow> N' i = None" for i
  proof -
    have "rel_option (\<lambda>x y. fst x = fst y \<and> text_eq C (snd x) (snd y)) (N i) (N' i)" using g by (simp add: graph_like_def)
    then show ?thesis by (cases "N i"; cases "N' i") simp_all
  qed
  have c: "compat G e \<Longrightarrow> same_shape e e' \<Longrightarrow> compat G' e'" for e e'
  proof -
    assume h: "compat G e" "same_shape e e'"
    have "rel_option (edge_eq C) (G (e_id e)) (G' (e_id e))" using g by (simp add: graph_like_def)
    then show "compat G' e'" using h by (auto simp: compat_def same_shape_def edge_eq_def option_rel_Some2)
  qed
  show ?thesis using p can n by (cases p; cases q) (auto intro: c simp: same_shape_def)
qed

section \<open>What a call of the leader logs\<close>

definition logWal :: "wcodec \<Rightarrow> Props wal_op \<Rightarrow> WAL option \<Rightarrow> WAL option" where
  "logWal W op w = (case w of None \<Rightarrow> None
     | Some w \<Rightarrow> (case encodeWALPayload W op of Inl _ \<Rightarrow> Some w
         | Inr payload \<Rightarrow> Some (snd (wal_Append W (opType op) payload w))))"

lemma wal_fields [simp]:
  "db_wal (walAppend W op db) = logWal W op (db_wal db)" "db_wal (updShard s f db) = db_wal db"
  "db_wal (invalidateNode i db) = db_wal db" "db_wal (bloomAddDB a b db) = db_wal db"
  by (simp_all add: walAppend_def logWal_def updShard_def invalidateNode_def bloomAddDB_def split: option.splits sum.splits)

lemma wal_writeUpdate: "writeUpdate i tx db = (r, db') \<Longrightarrow> db_wal db' = db_wal db"
  by (auto simp: writeUpdate_def Let_def split: option.splits sum.splits list.splits)

lemma wal_alloc: "dbAllocNodeID db = (i, db0) \<Longrightarrow> db_wal db0 = db_wal db" "dbAllocEdgeID db = (j, db1) \<Longrightarrow> db_wal db1 = db_wal db"
  by (auto simp: dbAllocNodeID_def dbAllocEdgeID_def Let_def)

definition delOp :: "Edge \<Rightarrow> Props wal_op" where
  "delOp e = WALDeleteEdge (e_id e) (e_from e) (e_to e) (e_label e)"

text \<open>The operations a call writes to the log, in order; a refused or failed call writes none.\<close>

fun loggedOps :: "'b bolt \<Rightarrow> codec \<Rightarrow> wcodec \<Rightarrow> gcall \<Rightarrow> 'b DB \<Rightarrow> Props wal_op list" where
  "loggedOps B C W (CAddNode p) db = (case fst (AddNode B C W p db) of Inl _ \<Rightarrow> [] | Inr i \<Rightarrow> [WALAddNode i p])"
| "loggedOps B C W (CAddNodeWithLabels ls p) db =
     (case fst (AddNodeWithLabels B C W ls p db) of Inl _ \<Rightarrow> [] | Inr i \<Rightarrow> [WALAddNodeWithLabels i ls p])"
| "loggedOps B C W (CUpdateNode i p) db = (case fst (UpdateNode B C W i p db) of Inl _ \<Rightarrow> [] | Inr _ \<Rightarrow> [WALUpdateNode i p])"
| "loggedOps B C W (CSetNodeProps i p) db = (case fst (SetNodeProps B C W i p db) of Inl _ \<Rightarrow> [] | Inr _ \<Rightarrow> [WALSetNodeProps i p])"
| "loggedOps B C W (CAddLabel i ls) db =
     (case fst (AddLabel B C W i ls db) of Inl _ \<Rightarrow> [] | Inr _ \<Rightarrow> if ls = [] then [] else [WALAddLabel i ls])"
| "loggedOps B C W (CRemoveLabel i ls) db =
     (case fst (RemoveLabel B C W i ls db) of Inl _ \<Rightarrow> [] | Inr _ \<Rightarrow> if ls = [] then [] else [WALRemoveLabel i ls])"
| "loggedOps B C W (CDeleteNode i) db = (case fst (DeleteNode B C W i db) of Inl _ \<Rightarrow> []
     | Inr _ \<Rightarrow> (case getEdgesForNode B C i Both db of Inl _ \<Rightarrow> [] | Inr es \<Rightarrow> map delOp es @ [WALDeleteNode i]))"
| "loggedOps B C W (CGetNode i) db = []"
| "loggedOps B C W (CAddEdge a b l p) db = (case fst (AddEdge B C W a b l p db) of Inl _ \<Rightarrow> [] | Inr i \<Rightarrow> [WALAddEdge i a b l p])"
| "loggedOps B C W (CDeleteEdge i) db = (case fst (DeleteEdge B C W i db) of Inl _ \<Rightarrow> []
     | Inr _ \<Rightarrow> (case getEdge B C i db of Inl _ \<Rightarrow> [] | Inr e \<Rightarrow> [delOp e]))"
| "loggedOps B C W (CUpdateEdge i p) db = (case fst (UpdateEdge B C W i p db) of Inl _ \<Rightarrow> []
     | Inr _ \<Rightarrow> (case getEdge B C i db of Inl _ \<Rightarrow> [] | Inr e \<Rightarrow> [WALUpdateEdge i (e_from e) p]))"

lemma wal_single:
  "AddNode B C W p db = (r, db') \<Longrightarrow> db_wal db' = fold (logWal W) (case r of Inl _ \<Rightarrow> [] | Inr i \<Rightarrow> [WALAddNode i p]) (db_wal db)"
  "AddNodeWithLabels B C W ls p db = (r, db') \<Longrightarrow>
     db_wal db' = fold (logWal W) (case r of Inl _ \<Rightarrow> [] | Inr i \<Rightarrow> [WALAddNodeWithLabels i ls p]) (db_wal db)"
  by (auto simp: AddNode_def AddNodeWithLabels_def guarded_def Let_def dest!: wal_writeUpdate wal_alloc
      split: if_splits option.splits sum.splits prod.splits)

lemma wal_node:
  "UpdateNode B C W i p db = (s, db') \<Longrightarrow> db_wal db' = fold (logWal W) (case s of Inl _ \<Rightarrow> [] | Inr _ \<Rightarrow> [WALUpdateNode i p]) (db_wal db)"
  "SetNodeProps B C W i p db = (s, db') \<Longrightarrow> db_wal db' = fold (logWal W) (case s of Inl _ \<Rightarrow> [] | Inr _ \<Rightarrow> [WALSetNodeProps i p]) (db_wal db)"
  "AddLabel B C W i ls db = (s, db') \<Longrightarrow>
     db_wal db' = fold (logWal W) (case s of Inl _ \<Rightarrow> [] | Inr _ \<Rightarrow> if ls = [] then [] else [WALAddLabel i ls]) (db_wal db)"
  "RemoveLabel B C W i ls db = (s, db') \<Longrightarrow>
     db_wal db' = fold (logWal W) (case s of Inl _ \<Rightarrow> [] | Inr _ \<Rightarrow> if ls = [] then [] else [WALRemoveLabel i ls]) (db_wal db)"
  by (auto simp: UpdateNode_def SetNodeProps_def AddLabel_def RemoveLabel_def guarded_def dest!: wal_writeUpdate
      split: if_splits option.splits sum.splits prod.splits)

lemma wal_deleteEdge:
  "deleteEdgeInternal B W e db = (r, db') \<Longrightarrow> db_wal db' = fold (logWal W) (case r of Inl _ \<Rightarrow> [] | Inr _ \<Rightarrow> [delOp e]) (db_wal db)"
  by (auto simp: deleteEdgeInternal_def delOp_def Let_def dest!: wal_writeUpdate split: sum.splits prod.splits)

lemma wal_deleteEdges:
  "deleteEdges B W es db = (Inr u, db') \<Longrightarrow> db_wal db' = fold (logWal W) (map delOp es) (db_wal db)"
proof (induction es arbitrary: db)
  case (Cons e es)
  obtain db1 where d: "deleteEdgeInternal B W e db = (Inr (), db1)" "deleteEdges B W es db1 = (Inr u, db')"
    using Cons.prems by (auto split: prod.splits sum.splits)
  then show ?case using Cons.IH [OF d(2)] wal_deleteEdge [OF d(1)] by simp
qed simp

lemma wal_edge:
  "AddEdge B C W a b l p db = (r, db') \<Longrightarrow> db_faults db = [] \<Longrightarrow>
     db_wal db' = fold (logWal W) (case r of Inl _ \<Rightarrow> [] | Inr i \<Rightarrow> [WALAddEdge i a b l p]) (db_wal db)"
  "DeleteEdge B C W i db = (s, db') \<Longrightarrow> db_wal db' = fold (logWal W) (loggedOps B C W (CDeleteEdge i) db) (db_wal db)"
  "UpdateEdge B C W i p db = (s, db') \<Longrightarrow> db_wal db' = fold (logWal W) (loggedOps B C W (CUpdateEdge i p) db) (db_wal db)"
  by (auto simp: AddEdge_def DeleteEdge_def UpdateEdge_def guarded_def Let_def dest!: wal_writeUpdate wal_alloc wal_deleteEdge
      split: if_splits option.splits sum.splits prod.splits)

section \<open>The log of a call replays to its effect\<close>

fun replayableAll :: "Props wal_op list \<Rightarrow> graph_nodes \<times> graph_edges \<Rightarrow> bool" where
  "replayableAll [] g = True"
| "replayableAll (p # ps) g = (replayable p g \<and> replayableAll ps (replayed p g))"

lemma replayableAll_append [simp]: "replayableAll (ps @ qs) g = (replayableAll ps g \<and> replayableAll qs (fold replayed ps g))"
  by (induction ps arbitrary: g) auto

lemma replay_deletes:
  assumes "\<forall>e \<in> set es. compat G e"
  shows "replayableAll (map delOp es) (N, G)" and "fold replayed (map delOp es) (N, G) = (N, removing (e_id ` set es) G)"
proof -
  have "replayableAll (map delOp es) (N, G) \<and> fold replayed (map delOp es) (N, G) = (N, removing (e_id ` set es) G)"
    using assms
  proof (induction es arbitrary: G)
    case (Cons e es)
    have "compat G \<lparr>e_id = e_id e, e_from = e_from e, e_to = e_to e, e_label = e_label e, e_props = []\<rparr>"
      using bspec [OF Cons.prems, of e] unfolding compat_def same_shape_def Edge.select_convs list.set by blast
    moreover have "\<forall>x \<in> set es. compat (G(e_id e := None)) x" using Cons.prems compat_remove by (metis list.set_intros(2))
    from Cons.IH [OF this, unfolded removing_simps]
    have "replayableAll (map delOp es) (N, G(e_id e := None)) \<and>
      fold replayed (map delOp es) (N, G(e_id e := None)) = (N, removing (insert (e_id e) (e_id ` set es)) G)" .
    ultimately show ?case by (simp add: delOp_def [of e])
  qed simp
  then show "replayableAll (map delOp es) (N, G)" "fold replayed (map delOp es) (N, G) = (N, removing (e_id ` set es) G)" by simp_all
qed

definition logged_step :: "'b bolt \<Rightarrow> codec \<Rightarrow> wcodec \<Rightarrow> Props wal_op list \<Rightarrow> 'b DB \<Rightarrow> 'b DB \<Rightarrow> graph_nodes \<Rightarrow> graph_edges \<Rightarrow> bool" where
  "logged_step B C W ops db db' N G \<longleftrightarrow> replayableAll ops (N, G) \<and>
     graph_inv B C db' (fst (fold replayed ops (N, G))) (snd (fold replayed ops (N, G))) \<and>
     db_wal db' = fold (logWal W) ops (db_wal db)"

context graph_store
begin

lemma CDeleteNode_logged:
  assumes inv: "graph_inv B C db N G" and ok: "callable db"
  shows "logged_step B C W (loggedOps B C W (CDeleteNode i) db) db (runCall B C W (CDeleteNode i) db) N G"
proof -
  obtain r db' where op: "DeleteNode B C W i db = (r, db')" by fastforce
  have nf: "db_faults db = []" using ok by (simp add: callable_def)
  note step = DeleteNode_step [OF inv op]
  show ?thesis
  proof (cases r)
    case (Inl e)
    have g: "db_closed db \<or> isFollower db \<or> N i = None" "graph_inv B C db' N G" using step Inl nf by auto
    have "db_wal db' = db_wal db"
    proof (cases "db_closed db \<or> isFollower db")
      case True
      then show ?thesis using op by (auto simp: DeleteNode_def guard_refuses)
    next
      case False
      have er: "edges_rep B C (files db) G" and nd: "no_dangling N G" using inv by (simp_all add: graph_inv_def)
      obtain out inc where ge: "getEdgesForNode B C i Both db = Inr (out @ inc)"
        and m: "edges_match C out G (\<lambda>e. e_from e = i)" "edges_match C inc G (\<lambda>e. e_to e = i)"
        using getEdges_both [OF er] False by blast
      have "out = []" "inc = []" using m nd g(1) False unfolding edges_match_def no_dangling_def
        by (metis (no_types, lifting) list.set_intros(1) neq_Nil_conv)+
      then show ?thesis using op False Inl
        by (auto simp: DeleteNode_def guarded_ok ge Let_def dest!: wal_writeUpdate split: prod.splits sum.splits)
    qed
    then show ?thesis using op Inl g by (simp add: logged_step_def)
  next
    case (Inr u)
    have open_: "\<not> db_closed db" "\<not> isFollower db" using op Inr by (auto simp: DeleteNode_def guarded_def writeGuard_def split: if_splits)
    have er: "edges_rep B C (files db) G" using inv by (simp add: graph_inv_def)
    obtain out inc where ge: "getEdgesForNode B C i Both db = Inr (out @ inc)"
      and m: "edges_match C out G (\<lambda>e. e_from e = i)" "edges_match C inc G (\<lambda>e. e_to e = i)"
      using getEdges_both [OF er open_(1)] by blast
    note inc = incident_edges [OF er m]
    obtain db1 db2 v where d: "deleteEdges B W (out @ inc) db = (Inr v, db1)"
      and w: "writeUpdate (shardFor db1 i) (deleteNodeTx B C db1 i) db1 = (Inr (), db2)"
      and db': "db' = invalidateNode i (walAppend W (WALDeleteNode i) (updShard (shardFor db1 i) (addNodeCount (- 1)) db2))"
      using op Inr open_ by (auto simp: DeleteNode_def guarded_ok ge Let_def split: prod.splits sum.splits)
    have "db_wal db' = fold (logWal W) (map delOp (out @ inc) @ [WALDeleteNode i]) (db_wal db)"
      using wal_deleteEdges [OF d] wal_writeUpdate [OF w] by (simp add: db')
    moreover have "loggedOps B C W (CDeleteNode i) db = map delOp (out @ inc) @ [WALDeleteNode i]"
      using op Inr by (simp add: ge)
    moreover have "graph_inv B C db' (N(i := None)) (without i G)" using step Inr by simp
    moreover note replay_deletes [OF inc(1), of N] inc(2)
    ultimately show ?thesis using op unfolding logged_step_def by simp
  qed
qed

lemma runCall_logged:
  assumes inv: "graph_inv B C db N G" and ok: "callable db"
  shows "logged_step B C W (loggedOps B C W c db) db (runCall B C W c db) N G"
proof -
  have n: "nodeCtr db \<noteq> - 1" and e: "edgeCtr db \<noteq> - 1" and f: "db_faults db = []" using ok by (simp_all add: callable_def)
  show ?thesis
  proof (cases c)
    case (CAddNode p)
    obtain r db' where op: "AddNode B C W p db = (r, db')" by fastforce
    show ?thesis using AddNode_step [OF inv n op] wal_single(1) [OF op] op CAddNode by (cases r) (auto simp: logged_step_def)
  next
    case (CAddNodeWithLabels ls p)
    obtain r db' where op: "AddNodeWithLabels B C W ls p db = (r, db')" by fastforce
    show ?thesis using AddNodeWithLabels_step [OF inv n op] wal_single(2) [OF op] op CAddNodeWithLabels by (cases r) (auto simp: logged_step_def)
  next
    case (CUpdateNode i p)
    obtain r db' where op: "UpdateNode B C W i p db = (r, db')" by fastforce
    show ?thesis using UpdateNode_step [OF inv op] wal_node(1) [OF op] op CUpdateNode by (cases r) (auto simp: logged_step_def)
  next
    case (CSetNodeProps i p)
    obtain r db' where op: "SetNodeProps B C W i p db = (r, db')" by fastforce
    show ?thesis using SetNodeProps_step [OF inv op] wal_node(2) [OF op] op CSetNodeProps by (cases r) (auto simp: logged_step_def)
  next
    case (CAddLabel i ls)
    obtain r db' where op: "AddLabel B C W i ls db = (r, db')" by fastforce
    have "ls = [] \<Longrightarrow> db' = db" using op by (auto simp: AddLabel_def guarded_def split: if_splits option.splits)
    then show ?thesis using AddLabel_step [OF inv op] wal_node(3) [OF op] op CAddLabel inv
      by (cases r; cases "ls = []") (auto simp: logged_step_def)
  next
    case (CRemoveLabel i ls)
    obtain r db' where op: "RemoveLabel B C W i ls db = (r, db')" by fastforce
    have "ls = [] \<Longrightarrow> db' = db" using op by (auto simp: RemoveLabel_def guarded_def split: if_splits option.splits)
    then show ?thesis using RemoveLabel_step [OF inv op] wal_node(4) [OF op] op CRemoveLabel inv
      by (cases r; cases "ls = []") (auto simp: logged_step_def)
  next
    case (CDeleteNode i)
    then show ?thesis using CDeleteNode_logged [OF inv ok] by simp
  next
    case (CGetNode i)
    obtain r db' where op: "GetNode B C i db = (r, db')" by fastforce
    have "db_wal db' = db_wal db" using op by (auto simp: GetNode_def getNode_def split: if_splits prod.splits option.splits sum.splits)
    then show ?thesis using GetNode_step [OF inv op] op CGetNode by (simp add: logged_step_def)
  next
    case (CAddEdge a b l p)
    obtain r db' where op: "AddEdge B C W a b l p db = (r, db')" by fastforce
    show ?thesis using AddEdge_step(1,2) [OF inv e op] wal_edge(1) [OF op f] op CAddEdge f
      by (cases r) (auto simp: logged_step_def compat_fresh)
  next
    case (CDeleteEdge i)
    obtain r db' where op: "DeleteEdge B C W i db = (r, db')" by fastforce
    show ?thesis
    proof (cases r)
      case (Inl x)
      then show ?thesis using DeleteEdge_step(2) [OF inv op Inl f] wal_edge(2) [OF op] op CDeleteEdge by (simp add: logged_step_def)
    next
      case (Inr u)
      have er: "edges_rep B C (files db) G" using inv by (simp add: graph_inv_def)
      obtain x where get: "getEdge B C i db = Inr x" and op1: "\<not> db_closed db"
        using op Inr by (auto simp: DeleteEdge_def guarded_def split: if_splits option.splits sum.splits)
      obtain y where y: "G i = Some y" "edge_eq C y x" using getEdge_rep [OF er op1, of i] get by (auto split: option.splits)
      have id: "e_id y = i" using rep_present [OF er y(1)] by blast
      then have idx: "e_id x = i" using y(2) by (simp add: edge_eq_def)
      have "compat G x" using edge_eq_compat [OF er y] idx by blast
      from replay_deletes [of "[x]" G N] this
      have "replayableAll [delOp x] (N, G)" "fold replayed [delOp x] (N, G) = (N, removing {i} G)" by (simp_all add: idx)
      moreover have "removing {i} G = G(i := None)" by (auto simp: removing_def fun_eq_iff)
      ultimately show ?thesis using DeleteEdge_step(1) [OF inv op Inr] wal_edge(2) [OF op] op Inr get CDeleteEdge
        by (simp add: logged_step_def)
    qed
  next
    case (CUpdateEdge i p)
    obtain r db' where op: "UpdateEdge B C W i p db = (r, db')" by fastforce
    show ?thesis
    proof (cases r)
      case (Inl x)
      then show ?thesis using UpdateEdge_step(1) [OF inv op] wal_edge(3) [OF op] op CUpdateEdge by (simp add: logged_step_def)
    next
      case (Inr u)
      obtain x where get: "getEdge B C i db = Inr x"
        using op Inr by (auto simp: UpdateEdge_def guarded_def split: if_splits option.splits sum.splits)
      show ?thesis using UpdateEdge_step(1) [OF inv op] wal_edge(3) [OF op] op Inr get CUpdateEdge by (auto simp: logged_step_def)
    qed
  qed
qed

end

section \<open>Histories\<close>

fun runCalls :: "'b bolt \<Rightarrow> codec \<Rightarrow> wcodec \<Rightarrow> gcall list \<Rightarrow> 'b DB \<Rightarrow> 'b DB" where
  "runCalls B C W [] db = db"
| "runCalls B C W (c # cs) db = runCalls B C W cs (runCall B C W c db)"

fun callableAll :: "'b bolt \<Rightarrow> codec \<Rightarrow> wcodec \<Rightarrow> gcall list \<Rightarrow> 'b DB \<Rightarrow> bool" where
  "callableAll B C W [] db = True"
| "callableAll B C W (c # cs) db = (callable db \<and> callableAll B C W cs (runCall B C W c db))"

fun history :: "'b bolt \<Rightarrow> codec \<Rightarrow> wcodec \<Rightarrow> gcall list \<Rightarrow> 'b DB \<Rightarrow> Props wal_op list" where
  "history B C W [] db = []"
| "history B C W (c # cs) db = loggedOps B C W c db @ history B C W cs (runCall B C W c db)"

context graph_store
begin

lemma history_logged:
  "graph_inv B C db N G \<Longrightarrow> callableAll B C W cs db \<Longrightarrow> logged_step B C W (history B C W cs db) db (runCalls B C W cs db) N G"
proof (induction cs arbitrary: db N G)
  case (Cons c cs)
  let ?g = "fold replayed (loggedOps B C W c db) (N, G)"
  have s: "logged_step B C W (loggedOps B C W c db) db (runCall B C W c db) N G"
    using runCall_logged [OF Cons.prems(1)] Cons.prems(2) by simp
  then have "graph_inv B C (runCall B C W c db) (fst ?g) (snd ?g)" by (simp add: logged_step_def)
  then have "logged_step B C W (history B C W cs (runCall B C W c db)) (runCall B C W c db) (runCalls B C W (c # cs) db) (fst ?g) (snd ?g)"
    using Cons.IH Cons.prems(2) by simp
  with s show ?case by (simp add: logged_step_def)
qed (simp add: logged_step_def)

end

section \<open>The follower\<close>

text \<open>An entry carries an operation when its payload is the operation's encoding.\<close>

definition carries :: "wcodec \<Rightarrow> Props wal_op \<Rightarrow> WALEntry \<Rightarrow> bool" where
  "carries W p e \<longleftrightarrow> we_op e = opType p \<and> encodeWALPayload W p = Inr (we_payload e)"

fun applyAll :: "'b bolt \<Rightarrow> codec \<Rightarrow> wcodec \<Rightarrow> WALEntry list \<Rightarrow> 'b Applier \<Rightarrow> (gerr + unit) \<times> 'b Applier" where
  "applyAll B C W [] a = (Inr (), a)"
| "applyAll B C W (e # es) a = (case Apply B C W e a of (Inl x, a1) \<Rightarrow> (Inl x, a1) | (Inr _, a1) \<Rightarrow> applyAll B C W es a1)"

text \<open>What replaying leaves alone on the follower.\<close>

definition replay_frame :: "'b DB \<Rightarrow> 'b DB \<Rightarrow> bool" where
  "replay_frame db db' \<longleftrightarrow> db_ncache db' = db_ncache db \<and> db_closed db' = db_closed db \<and> (db_faults db = [] \<longrightarrow> db_faults db' = [])"

lemma replay_frame_refl [simp]: "replay_frame db db"
  by (simp add: replay_frame_def)

lemma replay_frame_trans: "replay_frame a b \<Longrightarrow> replay_frame b c \<Longrightarrow> replay_frame a c"
  by (simp add: replay_frame_def)

lemma replay_frame_steps [simp]:
  "replay_frame a (updShard s f b) = replay_frame a b" "replay_frame a (b\<lparr>db_indexedProps := x\<rparr>) = replay_frame a b"
  "replay_frame a (b\<lparr>db_compositeIndexes := y\<rparr>) = replay_frame a b" "replay_frame a (b\<lparr>db_uniqueConstraints := z\<rparr>) = replay_frame a b"
  "replay_frame (updShard s f b) c = replay_frame b c"
  by (simp_all add: replay_frame_def updShard_def)

lemma replay_frame_write: "writeUpdate i tx db = (r, db') \<Longrightarrow> replay_frame db db'"
  by (auto simp: writeUpdate_def Let_def replay_frame_def updShard_def split: option.splits sum.splits list.splits)

lemma replay_frame_forShards:
  assumes "\<And>i db r db'. f i db = (r, db') \<Longrightarrow> replay_frame db db'"
  shows "forShards is f db = (r, db') \<Longrightarrow> replay_frame db db'"
proof (induction "is" arbitrary: db)
  case (Cons i "is")
  obtain r1 db1 where f: "f i db = (r1, db1)" by fastforce
  then show ?case using Cons assms [OF f] replay_frame_trans by (cases r1) fastforce+
qed simp

lemma replay_frame_runGroups:
  assumes "\<And>i xs db r db'. f i xs db = (r, db') \<Longrightarrow> replay_frame db db'"
  shows "runGroups gs f db = (r, db') \<Longrightarrow> replay_frame db db'"
proof (induction gs arbitrary: db)
  case (Cons g gs)
  obtain r1 db1 where f: "f (fst g) (snd g) db = (r1, db1)" by fastforce
  then show ?case using Cons assms [OF f] replay_frame_trans by (cases g; cases r1) fastforce+
qed simp

lemma applyAddEdge_frame: "applyAddEdge B C i a b l ps db = (r, db') \<Longrightarrow> replay_frame db db'"
  by (auto simp: applyAddEdge_def Let_def dest!: replay_frame_write intro: replay_frame_trans split: if_splits sum.splits prod.splits)

lemma applyAddEdgeBatch_frame: "applyAddEdgeBatch B C W es db = (r, db') \<Longrightarrow> replay_frame db db'"
proof (induction es arbitrary: db rule: list.induct)
  case (Cons x es)
  obtain i a b l ps where x: "x = (i, a, b, l, ps)" by (cases x)
  show ?case
  proof (cases "\<exists>i' a' b' l' ps'. ebind (encodeWALPayload W (WALAddEdge i a b l ps)) (decodeWALPayload W OpAddEdge) = Inr (WALAddEdge i' a' b' l' ps')")
    case True
    then obtain i' a' b' l' ps' where d: "ebind (encodeWALPayload W (WALAddEdge i a b l ps)) (decodeWALPayload W OpAddEdge) = Inr (WALAddEdge i' a' b' l' ps')"
      by blast
    obtain r1 db1 where e: "applyAddEdge B C i' a' b' l' ps' db = (r1, db1)" by fastforce
    show ?thesis
    proof (cases r1)
      case (Inl y)
      then show ?thesis using Cons.prems e applyAddEdge_frame [OF e] by (simp add: x d)
    next
      case (Inr u)
      then have "applyAddEdgeBatch B C W es db1 = (r, db')" using Cons.prems e by (simp add: x d)
      from replay_frame_trans [OF applyAddEdge_frame [OF e] Cons.IH [OF this]] show ?thesis .
    qed
  next
    case False
    then show ?thesis using Cons.prems by (auto simp: x split: sum.splits wal_op.splits)
  qed
qed simp

lemma applyWriteSeen_frame: "applyWriteSeen B l p seen db = (r, db') \<Longrightarrow> replay_frame db db'"
proof (induction seen arbitrary: db)
  case (Cons x seen)
  obtain r1 db1 where w: "writeUpdate (shardFor db (snd x)) (putUniqueTx B l p (fst x) (snd x)) db = (r1, db1)" by fastforce
  then show ?case using Cons replay_frame_trans [OF replay_frame_write [OF w]] replay_frame_write [OF w]
    by (cases x; cases r1) auto
qed simp

lemma apply_index_frames:
  "applyCreateIndex B C p db = (r, db') \<Longrightarrow> replay_frame db db'" "applyDropIndex B p db = (r, db') \<Longrightarrow> replay_frame db db'"
  "applyCreateCompositeIndex B C ps db = (r, db') \<Longrightarrow> replay_frame db db'" "applyDropCompositeIndex B ps db = (r, db') \<Longrightarrow> replay_frame db db'"
  by (auto simp: applyCreateIndex_def applyDropIndex_def applyCreateCompositeIndex_def applyDropCompositeIndex_def Let_def
      dest!: replay_frame_forShards [rotated] intro: replay_frame_write split: sum.splits prod.splits)

lemma applyUnique_frames:
  "applyCreateUniqueConstraint B C l p db = (r, db') \<Longrightarrow> replay_frame db db'"
  "applyDropUniqueConstraint B l p db = (r, db') \<Longrightarrow> replay_frame db db'"
proof -
  show "replay_frame db db'" if op: "applyCreateUniqueConstraint B C l p db = (r, db')"
    using op by (auto simp: applyCreateUniqueConstraint_def Let_def dest!: applyWriteSeen_frame replay_frame_write
        intro: replay_frame_trans split: if_splits sum.splits prod.splits)
  show "replay_frame db db'" if op: "applyDropUniqueConstraint B l p db = (r, db')"
  proof -
    obtain r1 db1 where f: "forShards [0..<length (db_shards db)] (\<lambda>i. writeUpdate i (dropUniqueTx B l p)) db = (r1, db1)" by fastforce
    obtain r2 db2 where w: "writeUpdate 0 (dropUniqueMetaTx B l p) db1 = (r2, db2)" by fastforce
    have "replay_frame db db1" by (rule replay_frame_forShards [OF _ f]) (rule replay_frame_write)
    then show ?thesis using op f w replay_frame_write [OF w] replay_frame_trans
      by (auto simp: applyDropUniqueConstraint_def Let_def split: if_splits sum.splits)
  qed
qed

lemma applyAddNodeBatch_frame: "applyAddNodeBatch B C ns db = (r, db') \<Longrightarrow> replay_frame db db'"
  unfolding applyAddNodeBatch_def
  by (auto elim!: replay_frame_runGroups [rotated] dest!: replay_frame_write split: sum.splits prod.splits)

lemma applyPayload_frame: "applyPayload B C W p db = (r, db') \<Longrightarrow> replay_frame db db'"
proof (cases p)
qed (auto simp: applyAddEdge_frame applyAddEdgeBatch_frame apply_index_frames applyUnique_frames applyAddNodeBatch_frame
    applyAddNode_def applyUpdateNode_def applySetNodeProps_def applyDeleteNode_def applyDeleteEdge_def applyUpdateEdge_def
    applyAddNodeWithLabels_def applyAddLabel_def applyRemoveLabel_def Let_def
    dest!: replay_frame_write intro: replay_frame_trans split: if_splits sum.splits prod.splits)

lemma applyOp_carried:
  assumes "carries W p e"
  shows "applyOp B C W e db = (case decodeWALPayload W (opType p) (we_payload e) of
      Inl x \<Rightarrow> (Inl (ErrWrap ''applier: failed to apply LSN'' x), db)
    | Inr q \<Rightarrow> (case applyPayload B C W q db of (Inl x, db1) \<Rightarrow> (Inl (ErrWrap ''applier: failed to apply LSN'' x), db1)
        | (Inr _, db1) \<Rightarrow> (Inr (), db1)))"
  using assms by (cases p) (auto simp: applyOp_def carries_def split: sum.splits prod.splits)

locale replication = graph_store B C + wal_codec_laws C W for B :: "'b bolt" and C :: codec and W :: wcodec
begin

lemma applyOp_step:
  assumes rep: "store_rep B C db N' G'" and like: "graph_like C (N, G) (N', G')" and can: "replayable p (N, G)"
    and e: "carries W p e" and nf: "db_faults db = []" and op: "applyOp B C W e db = (r, db')"
  shows "db_faults db' = [] \<and> (\<exists>N1 G1. store_rep B C db' N1 G1 \<and>
     graph_like C (case r of Inl _ \<Rightarrow> (N, G) | Inr _ \<Rightarrow> replayed p (N, G)) (N1, G1))"
proof -
  obtain q where q: "decodeWALPayload W (opType p) (we_payload e) = Inr q" and pq: "rel_wal_op (text_eq C) p q"
    using payload_roundtrip e by (auto simp: carries_def encodeWALPayload_def decodeWALPayload_def)
  obtain r1 db1 where a: "applyPayload B C W q db = (r1, db1)" by fastforce
  have db1: "db1 = db'" and rr: "(\<exists>x. r = Inl x) = (\<exists>x. r1 = Inl x)"
    using op a unfolding applyOp_carried [OF e] q by (auto split: sum.splits)
  have f: "db_faults db' = []" using applyPayload_frame [OF a] nf db1 by (simp add: replay_frame_def)
  note st = applyPayload_step [OF rep replayable_like [OF like pq can] a]
  show ?thesis
  proof (cases r1)
    case (Inl x)
    then obtain y where "r = Inl y" using rr by blast
    then show ?thesis using st Inl nf f like db1 by auto
  next
    case (Inr u)
    then obtain y where "r = Inr y" using rr by (cases r) auto
    moreover have "graph_like C (replayed p (N, G)) (fst (replayed q (N', G')), snd (replayed q (N', G')))"
      using replayed_like [OF like pq] by simp
    ultimately show ?thesis using st Inr f db1
      by (intro conjI exI [of _ "fst (replayed q (N', G'))"] exI [of _ "snd (replayed q (N', G'))"]) simp_all
  qed
qed

lemma applyAll_prefix:
  assumes "list_all2 (carries W) ps es" and "store_rep B C (ap_db a) N' G'" and "graph_like C g (N', G')" and "replayableAll ps g"
    and "db_faults (ap_db a) = []" and "sorted_wrt (<) (map we_lsn es)" and "\<forall>e \<in> set es. ap_appliedLSN a < we_lsn e"
    and "applyAll B C W es a = (r, a')"
  shows "\<exists>k N1 G1. k \<le> length ps \<and> (r = Inr () \<longrightarrow> k = length ps) \<and> store_rep B C (ap_db a') N1 G1 \<and>
    graph_like C (fold replayed (take k ps) g) (N1, G1)"
  using assms
proof (induction ps es arbitrary: a g N' G' rule: list_all2_induct)
  case Nil
  then show ?case by auto
next
  case (Cons p ps e es)
  obtain N G where g: "g = (N, G)" by fastforce
  obtain r1 db1 where op: "applyOp B C W e (ap_db a) = (r1, db1)" by fastforce
  have "replayable p (N, G)" using Cons.prems by (simp add: g)
  from applyOp_step [OF Cons.prems(1) Cons.prems(2) [unfolded g] this Cons.hyps(1) Cons.prems(4) op]
  obtain N1 G1 where f1: "db_faults db1 = []" and s1: "store_rep B C db1 N1 G1"
    and l1: "graph_like C (case r1 of Inl _ \<Rightarrow> (N, G) | Inr _ \<Rightarrow> replayed p (N, G)) (N1, G1)" by blast
  have fresh: "\<not> we_lsn e \<le> ap_appliedLSN a" using Cons.prems(6) by (simp add: not_le)
  show ?case
  proof (cases r1)
    case (Inl x)
    then have "r = Inl x" "ap_db a' = db1" using Cons.prems(7) fresh op by (auto simp: Apply_def)
    then show ?thesis using s1 l1 Inl g by (intro exI [of _ 0] exI [of _ N1] exI [of _ G1]) simp
  next
    case (Inr u)
    let ?a = "a\<lparr>ap_db := db1, ap_appliedLSN := we_lsn e\<rparr>"
    have rest: "applyAll B C W es ?a = (r, a')" using Cons.prems(7) fresh op Inr by (simp add: Apply_def)
    have l2: "graph_like C (replayed p g) (N1, G1)" using l1 Inr g by simp
    have "\<exists>k N2 G2. k \<le> length ps \<and> (r = Inr () \<longrightarrow> k = length ps) \<and> store_rep B C (ap_db a') N2 G2 \<and>
        graph_like C (fold replayed (take k ps) (replayed p g)) (N2, G2)"
      by (rule Cons.IH [where a = ?a, OF _ l2 _ _ _ _ rest]) (use Cons.prems s1 f1 in auto)
    then obtain k N2 G2 where "k \<le> length ps" "r = Inr () \<longrightarrow> k = length ps" "store_rep B C (ap_db a') N2 G2"
      "graph_like C (fold replayed (take k ps) (replayed p g)) (N2, G2)" by blast
    then show ?thesis by (intro exI [of _ "Suc k"] exI [of _ N2] exI [of _ G2]) simp
  qed
qed

end

interpretation kvs_replication: replication kvs_bolt str_codec "str_wcodec m"
  by (intro replication.intro kvs_graph_store str_wcodec.wal_codec_laws_axioms)

section \<open>Properties\<close>

lemma logging_history: "history kvs_bolt str_codec W [CDeleteNode 2] (demoDB\<lparr>db_wal := w\<rparr>) = [WALDeleteNode 2]"
proof -
  let ?db = "demoDB\<lparr>db_wal := w\<rparr>"
  have inv: "graph_inv kvs_bolt str_codec ?db demoNodes Map.empty"
    using demo_inv(1) by (subst same_graph_inv [of demoDB]) (simp_all add: same_graph_def files_def nodeCtr_def edgeCtr_def)
  obtain r db' where op: "DeleteNode kvs_bolt str_codec W 2 ?db = (r, db')" by fastforce
  have "r = Inr ()" using kvs_store.DeleteNode_step [OF inv op] by (cases r) (auto simp: isFollower_def demoDB_def demoNodes_def)
  moreover have "getEdgesForNode kvs_bolt str_codec 2 Both ?db = Inr []"
  proof -
    have "files ?db = [demoFile]" "\<not> db_closed ?db" by (simp_all add: files_def demoDB_def)
    then show ?thesis using kvs_store.getEdges_both [of ?db Map.empty 2] demo_rep(3) by (auto simp: edges_match_def)
  qed
  ultimately show ?thesis using op by simp
qed

lemma logging_payload: "encodeWALPayload (str_wcodec 100) (WALDeleteNode 2) = Inr (enc_strs [BE_PutUint64 2])"
  by code_simp

text \<open>
  C8. From any database that represents a property graph, whatever sequence of the eleven calls on single
  nodes and edges the leader runs, each without environment faults and with identifiers left: the
  operations written to the log are replayable one after the other, replaying them gives exactly the graph
  the leader's files represent afterwards, and the log, when there is one, is extended by these operations
  in order and nothing else. The batch, index and constraint calls are not among them.
\<close>

theorem leader_log_replays:
  assumes "graph_store B C" and "graph_inv B C L N G" and "callableAll B C W cs L" and "g = fold replayed (history B C W cs L) (N, G)"
  shows "graph_inv B C (runCalls B C W cs L) (fst g) (snd g) \<and> replayableAll (history B C W cs L) (N, G) \<and>
    db_wal (runCalls B C W cs L) = fold (logWal W) (history B C W cs L) (db_wal L)"
  using graph_store.history_logged [OF assms(1-3)] assms(4) by (simp add: logged_step_def)

theorem leader_log_replays_witness:
  "\<exists>w. OpenWAL (str_wcodec 100) [] = Inr w \<and> (let db = runCalls kvs_bolt str_codec (str_wcodec 100) [CDeleteNode 2] (demoDB\<lparr>db_wal := Some w\<rparr>) in
     graph_inv kvs_bolt str_codec db (demoNodes(2 := None)) Map.empty \<and>
     db_wal db = Some (snd (wal_Append (str_wcodec 100) OpDeleteNode (enc_strs [BE_PutUint64 2]) w)))"
proof -
  obtain w where w: "OpenWAL (str_wcodec 100) [] = Inr w" by (simp add: OpenWAL_def)
  let ?db = "demoDB\<lparr>db_wal := Some w\<rparr>"
  have inv: "graph_inv kvs_bolt str_codec ?db demoNodes Map.empty"
    using demo_inv(1) by (subst same_graph_inv [of demoDB]) (simp_all add: same_graph_def files_def nodeCtr_def edgeCtr_def)
  have "callableAll kvs_bolt str_codec (str_wcodec 100) [CDeleteNode 2] ?db"
    using demo_fields(4,7,8) by (simp add: callable_def nodeCtr_def edgeCtr_def)
  note r = leader_log_replays [OF kvs_graph_store inv this refl]
  have "fold (logWal (str_wcodec 100)) [WALDeleteNode 2] (Some w) = Some (snd (wal_Append (str_wcodec 100) OpDeleteNode (enc_strs [BE_PutUint64 2]) w))"
    by (simp add: logWal_def logging_payload)
  then show ?thesis using r w unfolding Let_def logging_history by (simp add: without_def)
qed

text \<open>
  C7. A follower that represents the leader's graph and applies the entries of the operations the leader
  logged during a sequence of calls, in order and with ascending sequence numbers, represents at every moment the
  graph after a prefix of these operations; when no entry fails it represents the graph the leader has at
  the end. Graphs are compared up to the text of property values.
\<close>

theorem follower_converges:
  assumes "graph_store B C" and "wal_codec_laws C W"
    and "graph_inv B C L N G" and "callableAll B C W cs L"
    and "store_rep B C (ap_db f) N' G'" and "graph_like C (N, G) (N', G')" and "db_faults (ap_db f) = []"
    and "list_all2 (carries W) (history B C W cs L) es" and "sorted_wrt (<) (map we_lsn es)" and "\<forall>e \<in> set es. AppliedLSN f < we_lsn e"
    and "applyAll B C W es f = (r, f')"
  shows "\<exists>k N1 G1 N2 G2. k \<le> length es \<and> store_rep B C (ap_db f') N1 G1 \<and>
    graph_like C (fold replayed (take k (history B C W cs L)) (N, G)) (N1, G1) \<and>
    graph_inv B C (runCalls B C W cs L) N2 G2 \<and> (r = Inr () \<longrightarrow> k = length es \<and> graph_like C (N2, G2) (N1, G1))"
proof -
  let ?h = "history B C W cs L"
  have len: "length es = length ?h" using list_all2_lengthD [OF assms(8)] by simp
  have step: "logged_step B C W ?h L (runCalls B C W cs L) N G" by (rule graph_store.history_logged [OF assms(1,3,4)])
  have r: "replication B C W" by (rule replication.intro [OF assms(1,2)])
  have lsn: "\<forall>e \<in> set es. ap_appliedLSN f < we_lsn e" using assms(10) by (simp add: AppliedLSN_def)
  have "replayableAll ?h (N, G)" using step by (simp add: logged_step_def)
  from replication.applyAll_prefix [OF r assms(8,5,6) this assms(7,9) lsn assms(11)]
  obtain k N1 G1 where k: "k \<le> length ?h" "r = Inr () \<longrightarrow> k = length ?h" "store_rep B C (ap_db f') N1 G1"
    "graph_like C (fold replayed (take k ?h) (N, G)) (N1, G1)" by blast
  let ?g = "fold replayed ?h (N, G)"
  have "graph_inv B C (runCalls B C W cs L) (fst ?g) (snd ?g)" using step by (simp add: logged_step_def)
  then show ?thesis using k len by (intro exI [of _ k] exI [of _ N1] exI [of _ G1] exI [of _ "fst ?g"] exI [of _ "snd ?g"]) auto
qed

text \<open>The leader deletes a node; the follower applies the entry.\<close>

definition demoFollower :: "kvs Applier" where
  "demoFollower = NewApplier (SetRole ''follower'' demoDB)"

definition demoEntry :: WALEntry where
  "demoEntry = \<lparr>we_lsn = 1, we_ts = 0, we_op = OpDeleteNode, we_payload = enc_strs [BE_PutUint64 2]\<rparr>"

lemma demo_entry: "encodeWALPayload (str_wcodec 1) (WALDeleteNode 2) = Inr (enc_strs [BE_PutUint64 2])"
  by code_simp

lemma demo_applied: "fst (Apply kvs_bolt str_codec (str_wcodec 1) demoEntry demoFollower) = Inr ()"
  by code_simp

lemma demo_history: "history kvs_bolt str_codec (str_wcodec 1) [CDeleteNode 2] demoDB = [WALDeleteNode 2]"
  using logging_history [of "str_wcodec 1" None] by (simp add: demoDB_def)

lemma demo_store: "store_rep kvs_bolt str_codec (ap_db demoFollower) demoNodes Map.empty"
  "db_faults (ap_db demoFollower) = []" "AppliedLSN demoFollower = 0"
proof -
  have "files (demoDB\<lparr>db_role := x\<rparr>) = [demoFile]" for x by (simp add: files_def demoDB_def)
  then show "store_rep kvs_bolt str_codec (ap_db demoFollower) demoNodes Map.empty" "db_faults (ap_db demoFollower) = []" "AppliedLSN demoFollower = 0"
    using demo_rep by (simp_all add: demoFollower_def NewApplier_def SetRole_def store_rep_def AppliedLSN_def)
qed

theorem follower_converges_witness:
  "\<exists>f' N1 G1 N2 G2. applyAll kvs_bolt str_codec (str_wcodec 1) [demoEntry] demoFollower = (Inr (), f') \<and>
     store_rep kvs_bolt str_codec (ap_db f') N1 G1 \<and>
     graph_inv kvs_bolt str_codec (runCalls kvs_bolt str_codec (str_wcodec 1) [CDeleteNode 2] demoDB) N2 G2 \<and> graph_like str_codec (N2, G2) (N1, G1)"
proof -
  let ?W = "str_wcodec 1"
  have c: "list_all2 (carries ?W) (history kvs_bolt str_codec ?W [CDeleteNode 2] demoDB) [demoEntry]"
    unfolding demo_history using demo_entry by (simp add: carries_def demoEntry_def)
  obtain f' where "Apply kvs_bolt str_codec ?W demoEntry demoFollower = (Inr (), f')"
    using demo_applied by (metis prod.collapse)
  then have a: "applyAll kvs_bolt str_codec ?W [demoEntry] demoFollower = (Inr (), f')" by simp
  have ok: "callableAll kvs_bolt str_codec ?W [CDeleteNode 2] demoDB" by (simp add: callable_def)
  from follower_converges [OF kvs_graph_store str_wcodec.wal_codec_laws_axioms demo_inv(1) ok demo_store(1) graph_like_refl demo_store(2) c _ _ a]
  show ?thesis using a by (auto simp: demo_store(3) demoEntry_def)
qed

text \<open>
  C39. Replaying an entry never touches the follower's node cache: a node that is cached keeps being
  returned as it was cached, whatever the entry changes in the files.
\<close>

theorem follower_cache_not_invalidated:
  assumes "nc_Get i (db_ncache (ap_db a)) = (Some n, nc)" and "\<not> db_closed (ap_db a)"
  shows "fst (GetNode B C i (ap_db (snd (Apply B C W e a)))) = Inr n"
proof -
  obtain r db where op: "applyOp B C W e (ap_db a) = (r, db)" by fastforce
  have "replay_frame (ap_db a) db"
    using op by (auto simp: applyOp_def dest!: applyPayload_frame split: OpType.splits sum.splits prod.splits)
  then have "db_ncache db = db_ncache (ap_db a)" "\<not> db_closed db" using assms(2) by (simp_all add: replay_frame_def)
  then show ?thesis using assms op by (auto simp: Apply_def GetNode_def getNode_def split: sum.splits)
qed

definition demoCached :: "kvs Applier" where
  "demoCached = NewApplier (demoDB\<lparr>db_ncache := nc_Put \<lparr>n_id = 2, n_labels = [], n_props = []\<rparr> (newNodeCache 1000000)\<rparr>)"

lemma demo_cached:
  "fst (nc_Get 2 (db_ncache (ap_db demoCached))) = Some \<lparr>n_id = 2, n_labels = [], n_props = []\<rparr>" "\<not> db_closed (ap_db demoCached)"
  "fst (Apply kvs_bolt str_codec (str_wcodec 1) demoEntry demoCached) = Inr ()"
  "readNode kvs_bolt str_codec 2 (bucketsOf (ap_db (snd (Apply kvs_bolt str_codec (str_wcodec 1) demoEntry demoCached))) 0) =
     Inl (ErrNodeNotFound 2)"
  by code_simp+

theorem follower_cache_not_invalidated_witness:
  "fst (Apply kvs_bolt str_codec (str_wcodec 1) demoEntry demoCached) = Inr () \<and>
   readNode kvs_bolt str_codec 2 (bucketsOf (ap_db (snd (Apply kvs_bolt str_codec (str_wcodec 1) demoEntry demoCached))) 0) =
     Inl (ErrNodeNotFound 2) \<and>
   fst (GetNode kvs_bolt str_codec 2 (ap_db (snd (Apply kvs_bolt str_codec (str_wcodec 1) demoEntry demoCached)))) =
     Inr \<lparr>n_id = 2, n_labels = [], n_props = []\<rparr>"
  using follower_cache_not_invalidated [of 2 demoCached _ "snd (nc_Get 2 (db_ncache (ap_db demoCached)))", OF _ demo_cached(2)]
    demo_cached by (metis prod.collapse)

text \<open>
  C38. Applying an entry a second time changes nothing, the applied sequence number never decreases and is
  the entry's own after an entry was applied.
\<close>

theorem apply_at_most_once:
  assumes "Apply B C W e a = (r, a')"
  shows "AppliedLSN a \<le> AppliedLSN a' \<and>
    (r = Inr () \<longrightarrow> Apply B C W e a' = (Inr (), a') \<and> AppliedLSN a' = max (AppliedLSN a) (we_lsn e))"
  using assms by (auto simp: Apply_def AppliedLSN_def max_def split: if_splits sum.splits prod.splits)

theorem apply_at_most_once_witness:
  "\<exists>a. Apply kvs_bolt str_codec (str_wcodec 1) demoEntry demoFollower = (Inr (), a) \<and>
     Apply kvs_bolt str_codec (str_wcodec 1) demoEntry a = (Inr (), a) \<and> AppliedLSN a = 1"
proof -
  obtain a where a: "Apply kvs_bolt str_codec (str_wcodec 1) demoEntry demoFollower = (Inr (), a)"
    using demo_applied by (metis prod.collapse)
  from apply_at_most_once [OF a] show ?thesis using a demo_store(3) by (simp add: demoEntry_def)
qed

end
