(* ===== verification/Pipeline.thy ===== *)
theory Pipeline
  imports Replication
begin

text \<open>
  The follower's receiving pipeline (replication/client.go, \<open>streamOnce\<close>): a receiver puts the entries of
  the leader's stream into a channel, eight workers take them and call \<open>ApplyOp\<close> concurrently, and the
  tracker turns the completed sequence numbers into a contiguous watermark. The goroutines are a step
  relation: every rule is one atomic action of one goroutine. The stream and the connection are the
  list of entries still to come; \<open>stop\<close> is the cancellation of the client's context.
\<close>

section \<open>The tracker of sequence numbers\<close>

record lsnTracker =
  lt_done :: "u64 list"
  lt_baseline :: u64

definition newLSNTracker :: "u64 \<Rightarrow> lsnTracker" where
  "newLSNTracker baseline = \<lparr>lt_done = [], lt_baseline = baseline\<rparr>"

text \<open>The loop of \<open>MarkDone\<close>: every round removes an element of the finite set.\<close>

function advance :: "lsnTracker \<Rightarrow> lsnTracker" where
  "advance t = (if lt_baseline t + 1 \<in> set (lt_done t)
     then advance \<lparr>lt_done = removeAll (lt_baseline t + 1) (lt_done t), lt_baseline = lt_baseline t + 1\<rparr> else t)"
  by pat_completeness auto
termination
  by (relation "measure (\<lambda>t. length (lt_done t))") (auto intro: length_removeAll_less)

declare advance.simps [simp del]

definition MarkDone :: "u64 \<Rightarrow> lsnTracker \<Rightarrow> u64 \<times> lsnTracker" where
  "MarkDone lsn t = (let t' = advance (t\<lparr>lt_done := List.insert lsn (lt_done t)\<rparr>) in (lt_baseline t', t'))"

text \<open>
  A tracker stands for the set \<open>S\<close> of completed numbers above the start: everything up to the baseline is
  completed, and the rest is still in the set.
\<close>

definition tracks :: "u64 \<Rightarrow> u64 set \<Rightarrow> lsnTracker \<Rightarrow> bool" where
  "tracks start S t \<longleftrightarrow> start \<le> lt_baseline t \<and> (\<forall>l. start < l \<and> l \<le> lt_baseline t \<longrightarrow> l \<in> S) \<and>
     (\<forall>l. lt_baseline t < l \<longrightarrow> (l \<in> S \<longleftrightarrow> l \<in> set (lt_done t)))"

lemma tracks_new: "tracks start {} (newLSNTracker start)"
  by (auto simp: tracks_def newLSNTracker_def)

lemma le_succ_cases: "(l :: u64) \<le> b + 1 \<Longrightarrow> l \<le> b \<or> l = b + 1"
  by (metis inc_le le_neq_trans linorder_not_less order.strict_iff_order)

lemma advance_tracks:
  assumes "tracks start S t" and "set (lt_done t) \<subseteq> S" and "0 \<notin> S"
  shows "tracks start S (advance t) \<and> lt_baseline t \<le> lt_baseline (advance t) \<and> lt_baseline (advance t) + 1 \<notin> S \<and>
    set (lt_done (advance t)) \<subseteq> S"
  using assms
proof (induction t rule: advance.induct)
  case (1 t)
  let ?b = "lt_baseline t"
  show ?case
  proof (cases "?b + 1 \<in> set (lt_done t)")
    case True
    let ?t = "\<lparr>lt_done = removeAll (?b + 1) (lt_done t), lt_baseline = ?b + 1\<rparr>"
    have S: "?b + 1 \<in> S" using True 1(3) by blast
    have less: "?b < ?b + 1" using S 1(4) by (metis add.commute add_neg_numeral_special(7) u64_less_succ)
    have "tracks start S ?t"
      unfolding tracks_def
    proof (intro conjI allI impI)
      have "start \<le> ?b" using 1(2) by (simp add: tracks_def)
      then show "start \<le> lt_baseline ?t" using less by (simp add: order_trans [OF _ less_imp_le])
      fix l
      show "l \<in> S" if "start < l \<and> l \<le> lt_baseline ?t" using that le_succ_cases [of l ?b] 1(2) S by (auto simp: tracks_def)
      show "(l \<in> S) = (l \<in> set (lt_done ?t))" if "lt_baseline ?t < l"
      proof -
        have "?b < l" "l \<noteq> ?b + 1" using that less by auto
        then show ?thesis using 1(2) by (simp add: tracks_def)
      qed
    qed
    moreover have "set (lt_done ?t) \<subseteq> S" using 1(3) by auto
    ultimately have "tracks start S (advance ?t) \<and> lt_baseline ?t \<le> lt_baseline (advance ?t) \<and> lt_baseline (advance ?t) + 1 \<notin> S \<and>
        set (lt_done (advance ?t)) \<subseteq> S"
      using 1(1) [OF True] 1(4) by blast
    then show ?thesis using True less advance.simps [of t] by auto
  next
    case False
    then have e: "advance t = t" by (simp add: advance.simps [of t])
    have "?b + 1 \<notin> S"
    proof
      assume S: "?b + 1 \<in> S"
      then have "?b < ?b + 1" using 1(4) by (metis add.commute add_neg_numeral_special(7) u64_less_succ)
      then show False using 1(2) S False by (auto simp: tracks_def)
    qed
    then show ?thesis using 1 e by simp
  qed
qed

lemma tracks_mark:
  assumes "tracks start S t" and "set (lt_done t) \<subseteq> S" and "0 \<notin> S" and "l \<noteq> 0" and "MarkDone l t = (b, t')"
  shows "tracks start (insert l S) t'" and "lt_baseline t \<le> lt_baseline t'" and "b = lt_baseline t'"
    and "set (lt_done t') \<subseteq> insert l S" and "lt_baseline t' + 1 \<notin> insert l S"
proof -
  let ?t = "t\<lparr>lt_done := List.insert l (lt_done t)\<rparr>"
  have "tracks start (insert l S) ?t" using assms(1) by (auto simp: tracks_def)
  moreover have "set (lt_done ?t) \<subseteq> insert l S" "0 \<notin> insert l S" using assms(2-4) by auto
  ultimately have a: "tracks start (insert l S) (advance ?t) \<and> lt_baseline ?t \<le> lt_baseline (advance ?t) \<and>
      lt_baseline (advance ?t) + 1 \<notin> insert l S \<and> set (lt_done (advance ?t)) \<subseteq> insert l S" by (rule advance_tracks)
  have t': "t' = advance ?t" "b = lt_baseline t'" using assms(5) by (auto simp: MarkDone_def Let_def)
  show "tracks start (insert l S) t'" "lt_baseline t \<le> lt_baseline t'" "b = lt_baseline t'"
    "set (lt_done t') \<subseteq> insert l S" "lt_baseline t' + 1 \<notin> insert l S" using a t' by simp_all
qed

section \<open>The pipeline\<close>

text \<open>
  \<open>pp_busy\<close>, \<open>pp_mark\<close> and \<open>pp_set\<close> are the entries and numbers in the hands of workers before \<open>ApplyOp\<close>, before
  \<open>MarkDone\<close> and before \<open>SetAppliedLSN\<close>; \<open>pp_exited\<close> counts workers that have returned. \<open>pp_applied\<close> records
  the entries in the order in which \<open>ApplyOp\<close> succeeded.
\<close>

record 'b pipe =
  pp_stream :: "WALEntry list"
  pp_recv :: bool
  pp_chan :: "WALEntry list"
  pp_busy :: "WALEntry list"
  pp_mark :: "u64 list"
  pp_set :: "u64 list"
  pp_exited :: nat
  pp_cancelled :: bool
  pp_tracker :: lsnTracker
  pp_applier :: "'b Applier"
  pp_applied :: "WALEntry list"

definition applierWorkers :: nat where "applierWorkers = 8"
definition applierChBuffer :: nat where "applierChBuffer = 64"

definition idle :: "'b pipe \<Rightarrow> bool" where
  "idle p \<longleftrightarrow> length (pp_busy p) + length (pp_mark p) + length (pp_set p) + pp_exited p < applierWorkers"

definition streamStart :: "WALEntry list \<Rightarrow> 'b Applier \<Rightarrow> 'b pipe" where
  "streamStart es a = \<lparr>pp_stream = es, pp_recv = True, pp_chan = [], pp_busy = [], pp_mark = [], pp_set = [], pp_exited = 0,
     pp_cancelled = False, pp_tracker = newLSNTracker (AppliedLSN a), pp_applier = a, pp_applied = []\<rparr>"

inductive streamOnce :: "'b bolt \<Rightarrow> codec \<Rightarrow> wcodec \<Rightarrow> 'b pipe \<Rightarrow> 'b pipe \<Rightarrow> bool" for B C W where
  recv_skip: "pp_recv p \<Longrightarrow> pp_stream p = e # es \<Longrightarrow> we_lsn e \<le> AppliedLSN (pp_applier p) \<Longrightarrow>
    streamOnce B C W p (p\<lparr>pp_stream := es\<rparr>)"
| recv_send: "pp_recv p \<Longrightarrow> pp_stream p = e # es \<Longrightarrow> AppliedLSN (pp_applier p) < we_lsn e \<Longrightarrow> length (pp_chan p) < applierChBuffer \<Longrightarrow>
    streamOnce B C W p (p\<lparr>pp_stream := es, pp_chan := pp_chan p @ [e], pp_recv := \<not> pp_cancelled p\<rparr>)"
| recv_abort: "pp_recv p \<Longrightarrow> pp_stream p = e # es \<Longrightarrow> AppliedLSN (pp_applier p) < we_lsn e \<Longrightarrow> pp_cancelled p \<Longrightarrow>
    streamOnce B C W p (p\<lparr>pp_stream := es, pp_recv := False\<rparr>)"
| recv_end: "pp_recv p \<Longrightarrow> streamOnce B C W p (p\<lparr>pp_recv := False\<rparr>)"
| stop: "\<not> pp_cancelled p \<Longrightarrow> streamOnce B C W p (p\<lparr>pp_cancelled := True\<rparr>)"
| take: "pp_chan p = e # es \<Longrightarrow> idle p \<Longrightarrow> \<not> pp_cancelled p \<Longrightarrow>
    streamOnce B C W p (p\<lparr>pp_chan := es, pp_busy := e # pp_busy p\<rparr>)"
| take_cancelled: "pp_chan p = e # es \<Longrightarrow> idle p \<Longrightarrow> pp_cancelled p \<Longrightarrow>
    streamOnce B C W p (p\<lparr>pp_chan := es, pp_exited := Suc (pp_exited p)\<rparr>)"
| apply_ok: "e \<in> set (pp_busy p) \<Longrightarrow> ApplyOp B C W e (pp_applier p) = (Inr (), a) \<Longrightarrow>
    streamOnce B C W p (p\<lparr>pp_busy := remove1 e (pp_busy p), pp_mark := we_lsn e # pp_mark p, pp_applier := a, pp_applied := pp_applied p @ [e]\<rparr>)"
| apply_err: "e \<in> set (pp_busy p) \<Longrightarrow> ApplyOp B C W e (pp_applier p) = (Inl x, a) \<Longrightarrow>
    streamOnce B C W p (p\<lparr>pp_busy := remove1 e (pp_busy p), pp_exited := Suc (pp_exited p), pp_cancelled := True, pp_applier := a\<rparr>)"
| mark: "l \<in> set (pp_mark p) \<Longrightarrow> MarkDone l (pp_tracker p) = (b, t) \<Longrightarrow>
    streamOnce B C W p (p\<lparr>pp_mark := remove1 l (pp_mark p), pp_set := b # pp_set p, pp_tracker := t\<rparr>)"
| set_lsn: "b \<in> set (pp_set p) \<Longrightarrow>
    streamOnce B C W p (p\<lparr>pp_set := remove1 b (pp_set p), pp_applier := SetAppliedLSN b (pp_applier p)\<rparr>)"

inductive_cases streamOnceE: "streamOnce B C W p p'"

section \<open>The watermark is sound\<close>

text \<open>The completed numbers behind the tracker are applied, and no stored watermark is above the baseline.\<close>

definition marked :: "u64 \<Rightarrow> u64 set \<Rightarrow> lsnTracker \<Rightarrow> bool" where
  "marked start A t \<longleftrightarrow> (\<exists>S. tracks start S t \<and> set (lt_done t) \<subseteq> S \<and> 0 \<notin> S \<and> S \<subseteq> A)"

definition below :: "u64 \<Rightarrow> u64 set \<Rightarrow> lsnTracker \<Rightarrow> bool" where
  "below start X t \<longleftrightarrow> (\<forall>b \<in> X. start \<le> b \<and> b \<le> lt_baseline t)"

definition pipe_inv :: "'b bolt \<Rightarrow> codec \<Rightarrow> wcodec \<Rightarrow> 'b Applier \<Rightarrow> 'b pipe \<Rightarrow> bool" where
  "pipe_inv B C W a p \<longleftrightarrow>
     marked (AppliedLSN a) (we_lsn ` set (pp_applied p)) (pp_tracker p) \<and>
     below (AppliedLSN a) (insert (AppliedLSN (pp_applier p)) (set (pp_set p))) (pp_tracker p) \<and>
     0 \<notin> we_lsn ` set (pp_chan p @ pp_busy p) \<and> 0 \<notin> set (pp_mark p) \<and> set (pp_mark p) \<subseteq> we_lsn ` set (pp_applied p) \<and>
     length (pp_busy p) + length (pp_mark p) + length (pp_set p) + pp_exited p \<le> applierWorkers \<and> length (pp_chan p) \<le> applierChBuffer \<and>
     (\<not> pp_cancelled p \<longrightarrow> ap_db (pp_applier p) = fold (\<lambda>e db. snd (applyOp B C W e db)) (pp_applied p) (ap_db a))"

lemma marked_mono: "marked start A t \<Longrightarrow> A \<subseteq> A' \<Longrightarrow> marked start A' t"
  unfolding marked_def by blast

lemma below_mono: "below start X t \<Longrightarrow> Y \<subseteq> X \<Longrightarrow> below start Y t"
  unfolding below_def by blast

lemma marked_step:
  assumes "marked start A t" and "l \<noteq> 0" and "l \<in> A" and "MarkDone l t = (b, t')" and "below start X t"
  shows "marked start A t'" and "below start (insert b X) t'"
proof -
  obtain S where S: "tracks start S t" "set (lt_done t) \<subseteq> S" "0 \<notin> S" "S \<subseteq> A" using assms(1) unfolding marked_def by blast
  note m = tracks_mark [OF S(1-3) assms(2,4)]
  have "insert l S \<subseteq> A" "0 \<notin> insert l S" using S(3,4) assms(2,3) by auto
  then show "marked start A t'" unfolding marked_def using m(1,4) by blast
  have "start \<le> lt_baseline t'" using m(1) by (simp add: tracks_def)
  moreover have "start \<le> c \<and> c \<le> lt_baseline t'" if "c \<in> X" for c
    using assms(5) that m(2) unfolding below_def by (meson order_trans)
  ultimately show "below start (insert b X) t'" using m(3) unfolding below_def by simp
qed

lemma pipe_inv_start: "pipe_inv B C W a (streamStart es a)"
proof -
  have "marked (AppliedLSN a) {} (newLSNTracker (AppliedLSN a))"
    unfolding marked_def using tracks_new [of "AppliedLSN a"] by (intro exI [of _ "{}"]) (simp add: newLSNTracker_def)
  then show ?thesis by (simp add: pipe_inv_def streamStart_def below_def newLSNTracker_def)
qed

lemma ApplyOp_fields:
  "ApplyOp B C W e a = (r, a') \<Longrightarrow> AppliedLSN a' = AppliedLSN a \<and> ap_db a' = snd (applyOp B C W e (ap_db a))"
  by (auto simp: ApplyOp_def AppliedLSN_def Let_def)

lemma length_remove1_in: "x \<in> set xs \<Longrightarrow> length xs = Suc (length (remove1 x xs))"
  by (induction xs) (auto simp: length_remove1 length_pos_if_in_set)

lemma pipe_inv_step:
  assumes "streamOnce B C W p p'" and "pipe_inv B C W a p"
  shows "pipe_inv B C W a p'"
  using assms(1)
proof cases
  case (recv_send e es)
  then have "we_lsn e \<noteq> 0" by auto
  then show ?thesis using assms(2) recv_send by (simp add: pipe_inv_def)
next
  case (take e es)
  then show ?thesis using assms(2) by (auto simp: pipe_inv_def idle_def)
next
  case (take_cancelled e es)
  then show ?thesis using assms(2) by (auto simp: pipe_inv_def idle_def)
next
  case (apply_ok e a')
  note f = ApplyOp_fields [OF apply_ok(3)]
  have "marked (AppliedLSN a) (insert (we_lsn e) (we_lsn ` set (pp_applied p))) (pp_tracker p)"
    by (rule marked_mono [OF _ subset_insertI]) (use assms(2) in \<open>simp add: pipe_inv_def\<close>)
  then show ?thesis using assms(2) apply_ok(1,2) f length_remove1_in [OF apply_ok(2)]
    by (auto simp: pipe_inv_def dest: notin_set_remove1)
next
  case (apply_err e x a')
  note f = ApplyOp_fields [OF apply_err(3)]
  show ?thesis using assms(2) apply_err(1,2) f length_remove1_in [OF apply_err(2)]
    by (auto simp: pipe_inv_def dest: notin_set_remove1)
next
  case (mark l b t)
  have l: "l \<noteq> 0" "l \<in> we_lsn ` set (pp_applied p)" using assms(2) mark(2) by (auto simp: pipe_inv_def)
  have "marked (AppliedLSN a) (we_lsn ` set (pp_applied p)) (pp_tracker p)"
    "below (AppliedLSN a) (insert (AppliedLSN (pp_applier p)) (set (pp_set p))) (pp_tracker p)"
    using assms(2) by (simp_all add: pipe_inv_def)
  note marked_step [OF this(1) l mark(3) this(2)]
  then show ?thesis using assms(2) mark(1) length_remove1_in [OF mark(2)]
    by (auto simp: pipe_inv_def insert_commute dest: notin_set_remove1)
next
  case (set_lsn b)
  have "below (AppliedLSN a) (insert b (set (remove1 b (pp_set p)))) (pp_tracker p)"
    by (rule below_mono) (use assms(2) set_lsn(2) in \<open>auto simp: pipe_inv_def dest: notin_set_remove1\<close>)
  then show ?thesis using assms(2) set_lsn(1) length_remove1_in [OF set_lsn(2)]
    by (simp add: pipe_inv_def SetAppliedLSN_def AppliedLSN_def)
qed (use assms(2) in \<open>auto simp: pipe_inv_def\<close>)

lemma pipe_inv_reachable: "(streamOnce B C W)\<^sup>*\<^sup>* (streamStart es a) p \<Longrightarrow> pipe_inv B C W a p"
proof (induction rule: rtranclp_induct)
  case base
  then show ?case by (rule pipe_inv_start)
next
  case (step y z)
  then show ?case using pipe_inv_step by blast
qed

lemma watermark_applied:
  assumes "(streamOnce B C W)\<^sup>*\<^sup>* (streamStart es a) p" and "AppliedLSN a < l" and "l \<le> AppliedLSN (pp_applier p)"
  shows "l \<in> we_lsn ` set (pp_applied p)"
proof -
  note inv = pipe_inv_reachable [OF assms(1), unfolded pipe_inv_def]
  obtain S where S: "tracks (AppliedLSN a) S (pp_tracker p)" "S \<subseteq> we_lsn ` set (pp_applied p)" using inv unfolding marked_def by blast
  have "AppliedLSN (pp_applier p) \<le> lt_baseline (pp_tracker p)" using inv unfolding below_def by blast
  then have "l \<le> lt_baseline (pp_tracker p)" using assms(3) by (rule order_trans [rotated])
  then show ?thesis using S assms(2) unfolding tracks_def by blast
qed

section \<open>Entries may be applied out of order\<close>

text \<open>A running state of the pipeline, for the runs below.\<close>

abbreviation pipe_state :: "WALEntry list \<Rightarrow> WALEntry list \<Rightarrow> WALEntry list \<Rightarrow> u64 list \<Rightarrow> u64 list \<Rightarrow> lsnTracker \<Rightarrow> 'b Applier \<Rightarrow> WALEntry list \<Rightarrow> 'b pipe" where
  "pipe_state str ch bu ma se t a ap \<equiv> \<lparr>pp_stream = str, pp_recv = True, pp_chan = ch, pp_busy = bu, pp_mark = ma, pp_set = se,
     pp_exited = 0, pp_cancelled = False, pp_tracker = t, pp_applier = a, pp_applied = ap\<rparr>"

lemma pipe_take_two:
  assumes "AppliedLSN a < we_lsn e1" and "AppliedLSN a < we_lsn e2"
  shows "(streamOnce B C W)\<^sup>*\<^sup>* (streamStart [e1, e2] a) (pipe_state [] [] [e2, e1] [] [] (newLSNTracker (AppliedLSN a)) a [])"
proof -
  let ?t = "newLSNTracker (AppliedLSN a)"
  have "streamOnce B C W (pipe_state [e1, e2] [] [] [] [] ?t a []) (pipe_state [e2] [e1] [] [] [] ?t a [])"
    using streamOnce.recv_send [of "pipe_state [e1, e2] [] [] [] [] ?t a []" e1 "[e2]"] assms by (simp add: applierChBuffer_def)
  moreover have "streamOnce B C W (pipe_state [e2] [e1] [] [] [] ?t a []) (pipe_state [] [e1, e2] [] [] [] ?t a [])"
    using streamOnce.recv_send [of "pipe_state [e2] [e1] [] [] [] ?t a []" e2 "[]"] assms by (simp add: applierChBuffer_def)
  moreover have "streamOnce B C W (pipe_state [] [e1, e2] [] [] [] ?t a []) (pipe_state [] [e2] [e1] [] [] ?t a [])"
    using streamOnce.take [of "pipe_state [] [e1, e2] [] [] [] ?t a []" e1 "[e2]"] by (simp add: idle_def applierWorkers_def)
  moreover have "streamOnce B C W (pipe_state [] [e2] [e1] [] [] ?t a []) (pipe_state [] [] [e2, e1] [] [] ?t a [])"
    using streamOnce.take [of "pipe_state [] [e2] [e1] [] [] ?t a []" e2 "[]"] by (simp add: idle_def applierWorkers_def)
  ultimately show ?thesis unfolding streamStart_def by (meson converse_rtranclp_into_rtranclp r_into_rtranclp)
qed

lemma mark_swapped:
  "MarkDone (s + 2) (newLSNTracker s) = (s, \<lparr>lt_done = [s + 2], lt_baseline = s\<rparr>)"
  "MarkDone (s + 1) \<lparr>lt_done = [s + 2], lt_baseline = s\<rparr> = (s + 2, \<lparr>lt_done = [], lt_baseline = s + 2\<rparr>)"
  by (simp_all add: MarkDone_def newLSNTracker_def advance.simps Let_def)

lemma pipe_swap:
  assumes lsn: "we_lsn e1 = AppliedLSN a + 1" "we_lsn e2 = AppliedLSN a + 2"
    and ap: "ApplyOp B C W e2 a = (Inr (), a1)" "ApplyOp B C W e1 a1 = (Inr (), a2)"
  shows "\<exists>p. (streamOnce B C W)\<^sup>*\<^sup>* (pipe_state [] [] [e2, e1] [] [] (newLSNTracker (AppliedLSN a)) a []) p \<and>
    pp_stream p = [] \<and> pp_chan p = [] \<and> pp_busy p = [] \<and> pp_mark p = [] \<and> pp_set p = [] \<and> pp_applied p = [e2, e1] \<and>
    AppliedLSN (pp_applier p) = we_lsn e2 \<and> ap_db (pp_applier p) = ap_db a2 \<and> \<not> pp_cancelled p"
proof -
  let ?s = "AppliedLSN a" and ?t = "newLSNTracker (AppliedLSN a)"
  let ?t1 = "\<lparr>lt_done = [?s + 2], lt_baseline = ?s\<rparr>" and ?t2 = "\<lparr>lt_done = [], lt_baseline = ?s + 2\<rparr>"
  have ne: "e2 \<noteq> e1" using lsn by auto
  have "streamOnce B C W (pipe_state [] [] [e2, e1] [] [] ?t a []) (pipe_state [] [] [e1] [?s + 2] [] ?t a1 [e2])"
    using streamOnce.apply_ok [of e2 "pipe_state [] [] [e2, e1] [] [] ?t a []"] ap lsn by simp
  moreover have "streamOnce B C W (pipe_state [] [] [e1] [?s + 2] [] ?t a1 [e2]) (pipe_state [] [] [] [?s + 1, ?s + 2] [] ?t a2 [e2, e1])"
    using streamOnce.apply_ok [of e1 "pipe_state [] [] [e1] [?s + 2] [] ?t a1 [e2]"] ap lsn by simp
  moreover have "streamOnce B C W (pipe_state [] [] [] [?s + 1, ?s + 2] [] ?t a2 [e2, e1]) (pipe_state [] [] [] [?s + 1] [?s] ?t1 a2 [e2, e1])"
    using streamOnce.mark [of "?s + 2" "pipe_state [] [] [] [?s + 1, ?s + 2] [] ?t a2 [e2, e1]"] mark_swapped(1) by simp
  moreover have "streamOnce B C W (pipe_state [] [] [] [?s + 1] [?s] ?t1 a2 [e2, e1]) (pipe_state [] [] [] [] [?s + 2, ?s] ?t2 a2 [e2, e1])"
    using streamOnce.mark [of "?s + 1" "pipe_state [] [] [] [?s + 1] [?s] ?t1 a2 [e2, e1]"] mark_swapped(2) by simp
  moreover have "streamOnce B C W (pipe_state [] [] [] [] [?s + 2, ?s] ?t2 a2 [e2, e1]) (pipe_state [] [] [] [] [?s + 2] ?t2 (SetAppliedLSN ?s a2) [e2, e1])"
    using streamOnce.set_lsn [of ?s "pipe_state [] [] [] [] [?s + 2, ?s] ?t2 a2 [e2, e1]"] by simp
  moreover have "streamOnce B C W (pipe_state [] [] [] [] [?s + 2] ?t2 (SetAppliedLSN ?s a2) [e2, e1])
      (pipe_state [] [] [] [] [] ?t2 (SetAppliedLSN (?s + 2) (SetAppliedLSN ?s a2)) [e2, e1])"
    using streamOnce.set_lsn [of "?s + 2" "pipe_state [] [] [] [] [?s + 2] ?t2 (SetAppliedLSN ?s a2) [e2, e1]"] by simp
  ultimately have "(streamOnce B C W)\<^sup>*\<^sup>* (pipe_state [] [] [e2, e1] [] [] ?t a [])
      (pipe_state [] [] [] [] [] ?t2 (SetAppliedLSN (?s + 2) (SetAppliedLSN ?s a2)) [e2, e1])"
    by (meson converse_rtranclp_into_rtranclp r_into_rtranclp)
  then show ?thesis using lsn by (intro exI [of _ "pipe_state [] [] [] [] [] ?t2 (SetAppliedLSN (?s + 2) (SetAppliedLSN ?s a2)) [e2, e1]"])
    (simp add: SetAppliedLSN_def AppliedLSN_def)
qed

section \<open>Properties\<close>

text \<open>
  C9. In every reachable state of the pipeline, whatever the interleaving of the receiver and the workers and
  wherever the stream or a worker fails: the stored watermark has not fallen below the start, every sequence number above
  the start and up to the watermark belongs to an entry whose application succeeded, so reconnecting after the watermark
  skips nothing; and until a worker fails, the database is the result of the applied entries in the order of
  their application. At most eight entries are in the hands of workers and 64 in the channel.
\<close>

theorem pipeline_watermark_sound:
  assumes "(streamOnce B C W)\<^sup>*\<^sup>* (streamStart es a) p"
  shows "AppliedLSN a \<le> AppliedLSN (pp_applier p) \<and>
    (\<forall>l. AppliedLSN a < l \<and> l \<le> AppliedLSN (pp_applier p) \<longrightarrow> l \<in> we_lsn ` set (pp_applied p)) \<and>
    (\<not> pp_cancelled p \<longrightarrow> ap_db (pp_applier p) = fold (\<lambda>e db. snd (applyOp B C W e db)) (pp_applied p) (ap_db a)) \<and>
    length (pp_busy p) \<le> 8 \<and> length (pp_chan p) \<le> 64"
proof -
  note inv = pipe_inv_reachable [OF assms, unfolded pipe_inv_def]
  have "AppliedLSN a \<le> AppliedLSN (pp_applier p)" using inv unfolding below_def by blast
  then show ?thesis using inv watermark_applied [OF assms] by (auto simp: applierWorkers_def applierChBuffer_def)
qed

text \<open>
  C40. Entries may be applied out of order: a leader creates a node and deletes it again, and the two entries are consecutive in its
  log. Two workers of the follower take one each; when the second one is applied first, the pipeline drains with the
  watermark behind both entries and the follower keeps the node, while applying the entries in order leaves the graph as it was.
\<close>

theorem pipeline_may_reorder:
  assumes store: "graph_store B C" and rep: "store_rep B C (ap_db a) N G" "N i = None"
    and op: "we_op e1 = OpAddNode" "we_op e2 = OpDeleteNode"
    and pay: "decodeWALPayload W OpAddNode (we_payload e1) = Inr (WALAddNode i ps)"
      "decodeWALPayload W OpDeleteNode (we_payload e2) = Inr (WALDeleteNode i)"
    and lsn: "we_lsn e1 = AppliedLSN a + 1" "we_lsn e2 = AppliedLSN a + 2" "AppliedLSN a < we_lsn e1" "AppliedLSN a < we_lsn e2"
    and ok: "ApplyOp B C W e2 a = (Inr (), a1)" "ApplyOp B C W e1 a1 = (Inr (), a2)"
  shows "(\<exists>p N'. (streamOnce B C W)\<^sup>*\<^sup>* (streamStart [e1, e2] a) p \<and> pp_stream p = [] \<and> pp_chan p = [] \<and> pp_busy p = [] \<and> pp_mark p = [] \<and>
      pp_set p = [] \<and> AppliedLSN (pp_applier p) = we_lsn e2 \<and> store_rep B C (ap_db (pp_applier p)) N' G \<and> N' i = Some ([], ps)) \<and>
    (\<forall>b1 b2. ApplyOp B C W e1 a = (Inr (), b1) \<and> ApplyOp B C W e2 b1 = (Inr (), b2) \<longrightarrow> store_rep B C (ap_db b2) N G)"
proof -
  have addS: "store_rep B C (ap_db y) (M(i \<mapsto> ([], ps))) G"
    if "store_rep B C (ap_db x) M G" "M i = None" "ApplyOp B C W e1 x = (Inr (), y)" for x y M
  proof -
    obtain r db' where d: "applyAddNode B C i ps (ap_db x) = (r, db')" by (metis surj_pair)
    then have "r = Inr ()" "ap_db y = db'"
      using that(3) op pay by (auto simp: ApplyOp_def applyOp_def Let_def split: sum.splits)
    then show ?thesis using graph_store.applyAddNode_step [OF store that(1,2) d] by simp
  qed
  have delS: "store_rep B C (ap_db y) (M(i := None)) G"
    if "store_rep B C (ap_db x) M G" "ApplyOp B C W e2 x = (Inr (), y)" for x y M
  proof -
    obtain r db' where d: "applyDeleteNode B C i (ap_db x) = (r, db')" by (metis surj_pair)
    then have "r = Inr ()" "ap_db y = db'"
      using that(2) op pay by (auto simp: ApplyOp_def applyOp_def Let_def split: sum.splits)
    then show ?thesis using graph_store.applyDeleteNode_step [OF store that(1) d] by simp
  qed
  have "store_rep B C (ap_db a2) ((N(i := None))(i \<mapsto> ([], ps))) G"
    by (rule addS [OF delS [OF rep(1) ok(1)] _ ok(2)]) simp
  then have res: "store_rep B C (ap_db a2) (N(i \<mapsto> ([], ps))) G" by simp
  obtain p where p: "(streamOnce B C W)\<^sup>*\<^sup>* (pipe_state [] [] [e2, e1] [] [] (newLSNTracker (AppliedLSN a)) a []) p"
    "pp_stream p = [] \<and> pp_chan p = [] \<and> pp_busy p = [] \<and> pp_mark p = [] \<and> pp_set p = []"
    "AppliedLSN (pp_applier p) = we_lsn e2" "ap_db (pp_applier p) = ap_db a2"
    using pipe_swap [OF lsn(1,2) ok] by blast
  have "(streamOnce B C W)\<^sup>*\<^sup>* (streamStart [e1, e2] a) p"
    using pipe_take_two [OF lsn(3,4)] p(1) by (rule rtranclp_trans)
  moreover have "store_rep B C (ap_db b2) N G" if "ApplyOp B C W e1 a = (Inr (), b1)" "ApplyOp B C W e2 b1 = (Inr (), b2)" for b1 b2
    using delS [OF addS [OF rep that(1)] that(2)] rep(2) by (simp add: fun_upd_idem)
  ultimately show ?thesis using p res by (metis fun_upd_same)
qed

definition demoAdd :: WALEntry where
  "demoAdd = \<lparr>we_lsn = 1, we_ts = 0, we_op = OpAddNode, we_payload = enc_strs [BE_PutUint64 3]\<rparr>"

definition demoDel :: WALEntry where
  "demoDel = \<lparr>we_lsn = 2, we_ts = 0, we_op = OpDeleteNode, we_payload = enc_strs [BE_PutUint64 3]\<rparr>"

lemma demo_add_del:
  "decodeWALPayload (str_wcodec 1) OpAddNode (we_payload demoAdd) = Inr (WALAddNode 3 [])"
  "decodeWALPayload (str_wcodec 1) OpDeleteNode (we_payload demoDel) = Inr (WALDeleteNode 3)"
  by code_simp+

lemma demo_del_ok: "fst (ApplyOp kvs_bolt str_codec (str_wcodec 1) demoDel demoFollower) = Inr ()"
  by code_simp

lemma demo_del_state: "db_faults (ap_db (snd (ApplyOp kvs_bolt str_codec (str_wcodec 1) demoDel demoFollower))) = []"
  by code_simp

lemma demo_empty_props: "\<exists>d. encodeProps str_codec [] = Inr d \<and> length d \<le> 100"
  by (simp add: encodeProps_def str_codec_def enc_strs_def Let_def)

lemma kvs_add_ok:
  assumes "db_faults db = []"
  shows "fst (applyAddNode kvs_bolt str_codec i [] db) = Inr ()"
proof -
  obtain d where "encodeProps str_codec [] = Inr d" "length d \<le> 100" using demo_empty_props by blast
  moreover have "encodeNodeID i \<noteq> []" by (metis length_encode_id(1) list.size(3) zero_neq_numeral)
  ultimately show ?thesis using assms
    by (simp add: applyAddNode_def Let_def writeUpdate_def addNodeTx_def putNode_def kvs_bolt_def indexNodeProps_def)
qed



theorem pipeline_may_reorder_witness:
  "\<exists>p N'. (streamOnce kvs_bolt str_codec (str_wcodec 1))\<^sup>*\<^sup>* (streamStart [demoAdd, demoDel] demoFollower) p \<and>
     AppliedLSN (pp_applier p) = 2 \<and> store_rep kvs_bolt str_codec (ap_db (pp_applier p)) N' Map.empty \<and> N' 3 = Some ([], [])"
proof -
  let ?W = "str_wcodec 1"
  obtain a1 where a1: "ApplyOp kvs_bolt str_codec ?W demoDel demoFollower = (Inr (), a1)" using demo_del_ok by (metis prod.collapse)
  have "db_faults (ap_db a1) = []"
    using a1 demo_del_state by auto
  then obtain a2 where a2: "ApplyOp kvs_bolt str_codec ?W demoAdd a1 = (Inr (), a2)"
    using kvs_add_ok [of "ap_db a1" 3] demo_add_del(1) by (cases "applyAddNode kvs_bolt str_codec 3 [] (ap_db a1)") (auto simp: ApplyOp_def applyOp_def demoAdd_def)
  have "demoNodes 3 = None" by (simp add: demoNodes_def)
  from pipeline_may_reorder [OF kvs_graph_store demo_store(1) this _ _ demo_add_del _ _ _ _ a1 a2] show ?thesis
    by (simp add: demoAdd_def demoDel_def demo_store(3)) blast
qed

theorem pipeline_watermark_sound_witness:
  "\<exists>p. (streamOnce kvs_bolt str_codec (str_wcodec 1))\<^sup>*\<^sup>* (streamStart [demoAdd, demoDel] demoFollower) p \<and> length (pp_busy p) = 2 \<and>
     AppliedLSN (pp_applier p) = 0 \<and> ap_db (pp_applier p) = ap_db demoFollower"
proof -
  let ?p = "pipe_state [] [] [demoDel, demoAdd] [] [] (newLSNTracker 0) demoFollower []"
  have r: "(streamOnce kvs_bolt str_codec (str_wcodec 1))\<^sup>*\<^sup>* (streamStart [demoAdd, demoDel] demoFollower) ?p"
    using pipe_take_two [of demoFollower demoAdd demoDel] by (simp add: demo_store(3) demoAdd_def demoDel_def)
  from pipeline_watermark_sound [OF r] r show ?thesis by (intro exI [of _ ?p]) (simp add: demo_store(3))
qed

end
