(* ===== verification/PipelineLive.thy ===== *)
theory PipelineLive
  imports Pipeline
begin

text \<open>
  Termination and liveness of the receiving pipeline: its runs are bounded by the length of the stream, it cannot deadlock, and
  when it rests every entry it has received is applied, unless a worker failed or the client was stopped.
\<close>

section \<open>A bound on runs\<close>

text \<open>The work ahead: an entry has five steps before it, and the receiver and the context can each end once.\<close>

definition pipe_work :: "'b pipe \<Rightarrow> nat" where
  "pipe_work p = 5 * length (pp_stream p) + 4 * length (pp_chan p) + 3 * length (pp_busy p) + 2 * length (pp_mark p) + length (pp_set p) +
     of_bool (pp_recv p) + of_bool (\<not> pp_cancelled p)"

lemma pipe_work_step: "streamOnce B C W p p' \<Longrightarrow> pipe_work p' < pipe_work p"
  by (induction rule: streamOnce.induct) (auto simp: pipe_work_def length_remove1_in)

text \<open>
  C11. The pipeline terminates: however the receiver and the workers are interleaved, a run on a stream of n entries has at most
  5 n + 2 steps.
\<close>

theorem pipeline_terminates:
  assumes "(streamOnce B C W ^^ n) (streamStart es a) p"
  shows "n \<le> 5 * length es + 2"
proof -
  have "n + pipe_work p \<le> pipe_work (streamStart es a)"
    using assms
  proof (induction n arbitrary: p)
    case (Suc n)
    then obtain y where "(streamOnce B C W ^^ n) (streamStart es a) y" "streamOnce B C W y p" by auto
    then show ?case using Suc.IH [of y] pipe_work_step [of B C W y p] by simp
  qed simp
  then show ?thesis by (simp add: pipe_work_def streamStart_def)
qed

section \<open>Resting states\<close>

text \<open>What has been received is applied, in the hands of the pipeline, or was completed before.\<close>

definition received :: "WALEntry list \<Rightarrow> 'b Applier \<Rightarrow> 'b pipe \<Rightarrow> bool" where
  "received es a p \<longleftrightarrow> (0 < pp_exited p \<longrightarrow> pp_cancelled p) \<and> (\<exists>k. pp_stream p = drop k es \<and> (pp_cancelled p \<or>
     (\<forall>e \<in> set (take k es). we_lsn e \<le> AppliedLSN a \<or> e \<in> set (pp_chan p) \<or> e \<in> set (pp_busy p) \<or> we_lsn e \<in> we_lsn ` set (pp_applied p))))"

lemma received_start: "received es a (streamStart es a)"
  by (simp add: received_def streamStart_def exI [of _ 0])

lemma stream_advance: "drop k es = e # es' \<Longrightarrow> es' = drop (Suc k) es \<and> set (take (Suc k) es) = insert e (set (take k es))"
proof -
  assume d: "drop k es = e # es'"
  then have "k < length es" by (metis drop_all linorder_not_less list.distinct(1))
  then show ?thesis using d by (auto simp: Cons_nth_drop_Suc [symmetric] take_Suc_conv_app_nth)
qed

lemma received_take:
  assumes "received es a p" and "pp_stream p = e # es'"
    and "p' = p\<lparr>pp_stream := es', pp_chan := ch, pp_recv := r\<rparr>" and "set (pp_chan p) \<subseteq> set ch"
    and "pp_cancelled p \<or> we_lsn e \<le> AppliedLSN a \<or> e \<in> set ch \<or> we_lsn e \<in> we_lsn ` set (pp_applied p)"
  shows "received es a p'"
proof -
  obtain k where k: "drop k es = e # es'" "pp_cancelled p \<or> (\<forall>e \<in> set (take k es). we_lsn e \<le> AppliedLSN a \<or> e \<in> set (pp_chan p) \<or>
      e \<in> set (pp_busy p) \<or> we_lsn e \<in> we_lsn ` set (pp_applied p))"
    using assms(1,2) unfolding received_def by metis
  note s = stream_advance [OF k(1)]
  have "pp_cancelled p \<or> (\<forall>x \<in> set (take (Suc k) es). we_lsn x \<le> AppliedLSN a \<or> x \<in> set ch \<or> x \<in> set (pp_busy p) \<or> we_lsn x \<in> we_lsn ` set (pp_applied p))"
    using k(2) assms(4,5) s by auto
  then show ?thesis using assms(1,3) s unfolding received_def by (auto intro!: exI [of _ "Suc k"])
qed

lemma received_move:
  assumes "received es a p" and "pp_stream p' = pp_stream p" and "0 < pp_exited p' \<longrightarrow> pp_cancelled p'" and "pp_cancelled p \<longrightarrow> pp_cancelled p'"
    and "\<not> pp_cancelled p' \<Longrightarrow> set (pp_chan p) \<union> set (pp_busy p) \<subseteq> set (pp_chan p') \<union> set (pp_busy p') \<union> {e. we_lsn e \<in> we_lsn ` set (pp_applied p')}"
    and "set (pp_applied p) \<subseteq> set (pp_applied p')"
  shows "received es a p'"
proof -
  obtain k where k: "pp_stream p = drop k es" "pp_cancelled p \<or> (\<forall>e \<in> set (take k es). we_lsn e \<le> AppliedLSN a \<or> e \<in> set (pp_chan p) \<or>
      e \<in> set (pp_busy p) \<or> we_lsn e \<in> we_lsn ` set (pp_applied p))"
    using assms(1) unfolding received_def by metis
  have "pp_cancelled p' \<or> (\<forall>e \<in> set (take k es). we_lsn e \<le> AppliedLSN a \<or> e \<in> set (pp_chan p') \<or> e \<in> set (pp_busy p') \<or> we_lsn e \<in> we_lsn ` set (pp_applied p'))"
    using k(2) assms(4-6) by blast
  then show ?thesis using k(1) assms(2,3) unfolding received_def by auto
qed

lemma received_step:
  assumes st: "streamOnce B C W p p'" and rec: "received es a p" and reach: "(streamOnce B C W)\<^sup>*\<^sup>* (streamStart es a) p"
  shows "received es a p'"
  using st
proof cases
  case (recv_skip e es')
  have "we_lsn e \<le> AppliedLSN a \<or> we_lsn e \<in> we_lsn ` set (pp_applied p)"
    using watermark_applied [OF reach] recv_skip(4) by (meson linorder_not_less)
  then show ?thesis using received_take [OF rec recv_skip(3), where p' = p' and ch = "pp_chan p" and r = "pp_recv p"] recv_skip(1) by auto
next
  case (recv_send e es')
  show ?thesis by (rule received_take [OF rec recv_send(3) recv_send(1)]) auto
next
  case (recv_abort e es')
  show ?thesis by (rule received_take [OF rec recv_abort(3), where p' = p' and ch = "pp_chan p" and r = False]) (use recv_abort in auto)
next
  case (apply_ok e a')
  have "set (pp_busy p) \<subseteq> insert e (set (remove1 e (pp_busy p)))" using in_set_remove1 by fast
  then show ?thesis by (intro received_move [OF rec]) (use apply_ok rec in \<open>auto simp: received_def\<close>)
qed (rule received_move [OF rec]; use rec in \<open>auto simp: received_def\<close>)+

lemma received_reachable: "(streamOnce B C W)\<^sup>*\<^sup>* (streamStart es a) p \<Longrightarrow> received es a p"
proof (induction rule: rtranclp_induct)
  case base
  then show ?case by (rule received_start)
next
  case (step y z)
  then show ?case using received_step by blast
qed

text \<open>
  C10. The pipeline does not get stuck before its work is done: in a reachable state in which nothing but the end of the stream or of
  the context can happen next, no worker holds an entry and the receiver has taken all entries the stream has delivered; and
  unless a worker failed or the client was stopped, the channel is empty and every entry received had been completed before the
  start or has been applied.
\<close>

theorem pipeline_completes:
  assumes reach: "(streamOnce B C W)\<^sup>*\<^sup>* (streamStart es a) p"
    and quiet: "\<And>p'. streamOnce B C W p p' \<Longrightarrow> p' \<in> {p\<lparr>pp_recv := False\<rparr>, p\<lparr>pp_cancelled := True\<rparr>}"
  shows "pp_busy p = [] \<and> pp_mark p = [] \<and> pp_set p = [] \<and> (pp_recv p \<longrightarrow> pp_stream p = []) \<and>
    (\<not> pp_cancelled p \<longrightarrow> pp_chan p = [] \<and> (\<exists>k. pp_stream p = drop k es \<and>
       (\<forall>e \<in> set (take k es). we_lsn e \<le> AppliedLSN a \<or> we_lsn e \<in> we_lsn ` set (pp_applied p))))"
proof -
  have rec: "received es a p" by (rule received_reachable [OF reach])
  have shrink: "remove1 x xs \<noteq> xs" if "x \<in> set xs" for x :: 'x and xs using length_remove1_in [OF that] by (metis n_not_Suc_n)
  have busy: "pp_busy p = []"
  proof (rule ccontr)
    assume "pp_busy p \<noteq> []"
    then obtain e where e: "e \<in> set (pp_busy p)" by (cases "pp_busy p") auto
    obtain r a' where "ApplyOp B C W e (pp_applier p) = (r, a')" by fastforce
    then obtain p' where "streamOnce B C W p p'" "pp_busy p' = remove1 e (pp_busy p)"
      using streamOnce.apply_ok [OF e] streamOnce.apply_err [OF e] by (cases r) fastforce+
    then show False using quiet shrink [OF e] by fastforce
  qed
  have mark: "pp_mark p = []"
  proof (rule ccontr)
    assume "pp_mark p \<noteq> []"
    then obtain l where l: "l \<in> set (pp_mark p)" by (cases "pp_mark p") auto
    obtain b t where "MarkDone l (pp_tracker p) = (b, t)" by fastforce
    then show False using quiet [OF streamOnce.mark [OF l]] shrink [OF l] by (auto dest: arg_cong [where f = pp_mark])
  qed
  have set: "pp_set p = []"
  proof (rule ccontr)
    assume "pp_set p \<noteq> []"
    then obtain b where b: "b \<in> set (pp_set p)" by (cases "pp_set p") auto
    then show False using quiet [OF streamOnce.set_lsn [OF b]] shrink [OF b] by (auto dest: arg_cong [where f = pp_set])
  qed
  have chan: "pp_chan p = []" if n: "\<not> pp_cancelled p"
  proof (rule ccontr)
    assume "pp_chan p \<noteq> []"
    then obtain e ch where c: "pp_chan p = e # ch" by (cases "pp_chan p") auto
    have "idle p" using rec n busy mark set by (auto simp: idle_def received_def applierWorkers_def)
    then show False using quiet [OF streamOnce.take [OF c _ n]] busy by (auto dest: arg_cong [where f = pp_busy])
  qed
  have stream: "pp_stream p = []" if r: "pp_recv p"
  proof (rule ccontr)
    assume "pp_stream p \<noteq> []"
    then obtain e str where s: "pp_stream p = e # str" by (cases "pp_stream p") auto
    have ne: "str \<noteq> e # str" by simp
    show False
    proof (cases "we_lsn e \<le> AppliedLSN (pp_applier p)")
      case True
      then show False using quiet [OF streamOnce.recv_skip [OF r s]] s by (auto dest: arg_cong [where f = pp_stream])
    next
      case False
      then have lt: "AppliedLSN (pp_applier p) < we_lsn e" by simp
      show False
      proof (cases "pp_cancelled p")
        case True
        then show False using quiet [OF streamOnce.recv_abort [OF r s lt]] s by (auto dest: arg_cong [where f = pp_stream])
      next
        case False
        then have "length (pp_chan p) < applierChBuffer" using chan by (simp add: applierChBuffer_def)
        then show False using quiet [OF streamOnce.recv_send [OF r s lt]] s by (auto dest: arg_cong [where f = pp_stream])
      qed
    qed
  qed
  show ?thesis using busy mark set chan stream rec unfolding received_def by auto
qed

theorem pipeline_terminates_witness:
  "\<exists>n p. 0 < n \<and> (streamOnce kvs_bolt str_codec (str_wcodec 1) ^^ n) (streamStart [demoAdd, demoDel] demoFollower) p \<and> n \<le> 12"
proof -
  let ?p = "pipe_state [] [] [demoDel, demoAdd] [] [] (newLSNTracker 0) demoFollower []"
  have "(streamOnce kvs_bolt str_codec (str_wcodec 1))\<^sup>*\<^sup>* (streamStart [demoAdd, demoDel] demoFollower) ?p"
    using pipe_take_two [of demoFollower demoAdd demoDel] by (simp add: demo_store(3) demoAdd_def demoDel_def)
  then obtain n where n: "(streamOnce kvs_bolt str_codec (str_wcodec 1) ^^ n) (streamStart [demoAdd, demoDel] demoFollower) ?p"
    by (metis rtranclp_imp_relpowp)
  have "streamStart [demoAdd, demoDel] demoFollower \<noteq> ?p" by (simp add: streamStart_def)
  then have "0 < n" using n by (cases n) auto
  moreover have "n \<le> 12" using pipeline_terminates [OF n] by simp
  ultimately show ?thesis using n by blast
qed

lemma quiet_empty:
  "streamOnce B C W p p' \<Longrightarrow> pp_stream p = [] \<and> pp_chan p = [] \<and> pp_busy p = [] \<and> pp_mark p = [] \<and> pp_set p = [] \<Longrightarrow>
   p' \<in> {p\<lparr>pp_recv := False\<rparr>, p\<lparr>pp_cancelled := True\<rparr>}"
  by (auto elim: streamOnceE)

theorem pipeline_completes_witness:
  "\<exists>p k. (streamOnce kvs_bolt str_codec (str_wcodec 1))\<^sup>*\<^sup>* (streamStart [demoAdd, demoDel] demoFollower) p \<and> pp_applied p \<noteq> [] \<and>
     pp_chan p = [] \<and> pp_stream p = drop k [demoAdd, demoDel]"
proof -
  let ?W = "str_wcodec 1"
  obtain a1 where a1: "ApplyOp kvs_bolt str_codec ?W demoDel demoFollower = (Inr (), a1)" using demo_del_ok by (metis prod.collapse)
  have "db_faults (ap_db a1) = []"
    using a1 demo_del_state by auto
  then obtain a2 where a2: "ApplyOp kvs_bolt str_codec ?W demoAdd a1 = (Inr (), a2)"
    using kvs_add_ok [of "ap_db a1" 3] demo_add_del(1) by (cases "applyAddNode kvs_bolt str_codec 3 [] (ap_db a1)") (auto simp: ApplyOp_def applyOp_def demoAdd_def)
  have lsn: "we_lsn demoAdd = AppliedLSN demoFollower + 1" "we_lsn demoDel = AppliedLSN demoFollower + 2"
      "AppliedLSN demoFollower < we_lsn demoAdd" "AppliedLSN demoFollower < we_lsn demoDel"
    by (simp_all add: demoAdd_def demoDel_def demo_store(3))
  obtain p where p: "(streamOnce kvs_bolt str_codec ?W)\<^sup>*\<^sup>* (pipe_state [] [] [demoDel, demoAdd] [] [] (newLSNTracker (AppliedLSN demoFollower)) demoFollower []) p"
      "pp_stream p = [] \<and> pp_chan p = [] \<and> pp_busy p = [] \<and> pp_mark p = [] \<and> pp_set p = []" "pp_applied p = [demoDel, demoAdd]" "\<not> pp_cancelled p"
    using pipe_swap [OF lsn(1,2) a1 a2] by blast
  have r: "(streamOnce kvs_bolt str_codec ?W)\<^sup>*\<^sup>* (streamStart [demoAdd, demoDel] demoFollower) p"
    using pipe_take_two [OF lsn(3,4)] p(1) by (rule rtranclp_trans)
  have quiet: "\<And>p'. streamOnce kvs_bolt str_codec ?W p p' \<Longrightarrow> p' \<in> {p\<lparr>pp_recv := False\<rparr>, p\<lparr>pp_cancelled := True\<rparr>}"
    using quiet_empty p(2) by blast
  obtain k where "pp_chan p = []" "pp_stream p = drop k [demoAdd, demoDel]" using pipeline_completes [OF r quiet] p(4) by blast
  then show ?thesis using r p(3) by (metis list.distinct(1))
qed

end
