(* ===== verification/Lexer.thy ===== *)
theory Lexer
  imports Types
begin

text \<open>
  The Cypher lexer (cypher_lexer.go). The scanner keeps the input, a byte position and the tokens found so
  far; every scanning method is a function on that state. A Go string is its list of bytes. The theory ends with the
  round trip: the text of a list of tokens is scanned back to the same tokens.
\<close>

section \<open>Tokens\<close>

datatype TokenKind =
    tokEOF | tokError
  | tokIdent | tokString | tokInt | tokFloat
  | tokMatch | tokWhere | tokReturn | tokOrder | tokBy | tokLimit | tokAnd | tokOr | tokNot | tokAs | tokAsc | tokDesc
  | tokTrue | tokFalse | tokNull | tokType | tokExplain | tokProfile | tokOptional | tokCreate | tokMerge | tokSet
  | tokDelete | tokRemove | tokOn | tokSkip
  | tokEq | tokNeq | tokLt | tokGt | tokLte | tokGte
  | tokLParen | tokRParen | tokLBracket | tokRBracket | tokLBrace | tokRBrace | tokColon | tokDot | tokDotDot | tokComma
  | tokStar | tokDash | tokArrow | tokLArrow | tokParam

record Token =
  t_kind :: TokenKind
  t_text :: string
  t_pos :: nat

text \<open>The errors of the lexer and the parser, one constructor per message.\<close>

datatype cerr =
    UnexpectedChar byte nat
  | UnterminatedString nat
  | Expected TokenKind TokenKind nat
  | UnexpectedToken TokenKind nat
  | InvalidNumber string
  | SyntaxAt string nat
  | Syntax string
  | Wrapped string cerr

primrec tokenKindName :: "TokenKind \<Rightarrow> string" where
  "tokenKindName tokEOF = ''EOF''" | "tokenKindName tokError = ''ERROR''"
| "tokenKindName tokIdent = ''IDENT''" | "tokenKindName tokString = ''STRING''" | "tokenKindName tokInt = ''INT''" | "tokenKindName tokFloat = ''FLOAT''"
| "tokenKindName tokMatch = ''MATCH''" | "tokenKindName tokWhere = ''WHERE''" | "tokenKindName tokReturn = ''RETURN''"
| "tokenKindName tokOrder = ''ORDER''" | "tokenKindName tokBy = ''BY''" | "tokenKindName tokLimit = ''LIMIT''"
| "tokenKindName tokAnd = ''AND''" | "tokenKindName tokOr = ''OR''" | "tokenKindName tokNot = ''NOT''" | "tokenKindName tokAs = ''AS''"
| "tokenKindName tokAsc = ''ASC''" | "tokenKindName tokDesc = ''DESC''" | "tokenKindName tokTrue = ''TRUE''" | "tokenKindName tokFalse = ''FALSE''"
| "tokenKindName tokNull = ''NULL''" | "tokenKindName tokType = ''TYPE''" | "tokenKindName tokExplain = ''EXPLAIN''"
| "tokenKindName tokProfile = ''PROFILE''" | "tokenKindName tokOptional = ''OPTIONAL''" | "tokenKindName tokCreate = ''CREATE''"
| "tokenKindName tokMerge = ''MERGE''" | "tokenKindName tokSet = ''SET''" | "tokenKindName tokDelete = ''DELETE''"
| "tokenKindName tokRemove = ''REMOVE''" | "tokenKindName tokOn = ''ON''" | "tokenKindName tokSkip = ''SKIP''"
| "tokenKindName tokEq = ''=''" | "tokenKindName tokNeq = ''<>''" | "tokenKindName tokLt = ''<''" | "tokenKindName tokGt = ''>''"
| "tokenKindName tokLte = ''<=''" | "tokenKindName tokGte = ''>=''" | "tokenKindName tokLParen = ''(''" | "tokenKindName tokRParen = '')''"
| "tokenKindName tokLBracket = ''[''" | "tokenKindName tokRBracket = '']''" | "tokenKindName tokLBrace = ''{''" | "tokenKindName tokRBrace = ''}''"
| "tokenKindName tokColon = '':''" | "tokenKindName tokDot = ''.''" | "tokenKindName tokDotDot = ''..''" | "tokenKindName tokComma = '',''"
| "tokenKindName tokStar = ''*''" | "tokenKindName tokDash = ''-''" | "tokenKindName tokArrow = ''->''" | "tokenKindName tokLArrow = ''<-''"
| "tokenKindName tokParam = ''PARAM''"

definition keywordTable :: "(string \<times> TokenKind) list" where
  "keywordTable = [(''MATCH'', tokMatch), (''WHERE'', tokWhere), (''RETURN'', tokReturn), (''ORDER'', tokOrder), (''BY'', tokBy),
     (''LIMIT'', tokLimit), (''AND'', tokAnd), (''OR'', tokOr), (''NOT'', tokNot), (''AS'', tokAs), (''ASC'', tokAsc), (''DESC'', tokDesc),
     (''TRUE'', tokTrue), (''FALSE'', tokFalse), (''NULL'', tokNull), (''TYPE'', tokType), (''EXPLAIN'', tokExplain),
     (''PROFILE'', tokProfile), (''OPTIONAL'', tokOptional), (''CREATE'', tokCreate), (''MERGE'', tokMerge), (''SET'', tokSet),
     (''DELETE'', tokDelete), (''REMOVE'', tokRemove), (''ON'', tokOn), (''SKIP'', tokSkip)]"

section \<open>Characters\<close>

abbreviation code :: "byte \<Rightarrow> nat" where "code c \<equiv> of_char c"

definition isWhitespace :: "byte \<Rightarrow> bool" where
  "isWhitespace ch = (code ch \<in> {32, 9, 10, 13})"

definition isDigit :: "byte \<Rightarrow> bool" where
  "isDigit ch = (48 \<le> code ch \<and> code ch \<le> 57)"

text \<open>The letters among the code points below 256 (\<open>unicode.IsLetter\<close> of a single byte).\<close>

definition latin1Letter :: "byte \<Rightarrow> bool" where
  "latin1Letter ch = (let n = code ch in (65 \<le> n \<and> n \<le> 90) \<or> (97 \<le> n \<and> n \<le> 122) \<or> n \<in> {170, 181, 186} \<or> (192 \<le> n \<and> n \<noteq> 215 \<and> n \<noteq> 247))"

definition isIdentStart :: "byte \<Rightarrow> bool" where
  "isIdentStart ch = (ch = CHR ''_'' \<or> (97 \<le> code ch \<and> code ch \<le> 122) \<or> (65 \<le> code ch \<and> code ch \<le> 90) \<or> latin1Letter ch)"

definition isIdentPart :: "byte \<Rightarrow> bool" where
  "isIdentPart ch = (isIdentStart ch \<or> isDigit ch)"

text \<open>
  \<open>strings.ToUpper\<close>, of which only the membership of the result in the keyword table matters. A character outside ASCII whose upper case is
  ASCII (dotless i, long s) has a UTF-8 encoding with a byte that is no identifier byte, so it never reaches this function.
\<close>

definition toUpper :: "string \<Rightarrow> string" where
  "toUpper = map (\<lambda>c. if 97 \<le> code c \<and> code c \<le> 122 then char_of (code c - 32) else c)"

section \<open>The scanner\<close>

record lexer =
  lx_input :: string
  lx_pos :: nat
  lx_tokens :: "Token list"

definition emitN :: "TokenKind \<Rightarrow> string \<Rightarrow> nat \<Rightarrow> lexer \<Rightarrow> lexer" where
  "emitN kind text n l = l\<lparr>lx_tokens := lx_tokens l @ [\<lparr>t_kind = kind, t_text = text, t_pos = lx_pos l\<rparr>], lx_pos := lx_pos l + n\<rparr>"

definition emit :: "TokenKind \<Rightarrow> string \<Rightarrow> lexer \<Rightarrow> lexer" where
  "emit kind text l = l\<lparr>lx_tokens := lx_tokens l @ [\<lparr>t_kind = kind, t_text = text, t_pos = lx_pos l\<rparr>], lx_pos := lx_pos l + 1\<rparr>"

definition peek :: "nat \<Rightarrow> lexer \<Rightarrow> byte" where
  "peek offset l = (let idx = lx_pos l + offset in if length (lx_input l) \<le> idx then CHR 0x00 else lx_input l ! idx)"

function skipWhile :: "(byte \<Rightarrow> bool) \<Rightarrow> lexer \<Rightarrow> lexer" where
  "skipWhile P l = (if lx_pos l < length (lx_input l) \<and> P (lx_input l ! lx_pos l) then skipWhile P (l\<lparr>lx_pos := lx_pos l + 1\<rparr>) else l)"
  by pat_completeness auto
termination by (relation "measure (\<lambda>(P, l). length (lx_input l) - lx_pos l)") auto

declare skipWhile.simps [simp del]

definition skipWhitespace :: "lexer \<Rightarrow> lexer" where
  "skipWhitespace = skipWhile isWhitespace"

definition unescape :: "byte \<Rightarrow> string" where
  "unescape c = (if c = CHR 0x5C then [CHR 0x5C] else if c = CHR 0x27 then [CHR 0x27] else if c = CHR 0x22 then [CHR 0x22]
     else if c = CHR ''n'' then [CHR 0x0A] else if c = CHR ''t'' then [CHR 0x09] else [CHR 0x5C, c])"

function scanStringLoop :: "byte \<Rightarrow> nat \<Rightarrow> string \<Rightarrow> lexer \<Rightarrow> cerr + lexer" where
  "scanStringLoop quote start b l =
     (if lx_pos l < length (lx_input l) then
        let ch = lx_input l ! lx_pos l
        in if ch = CHR 0x5C \<and> lx_pos l + 1 < length (lx_input l) then
             scanStringLoop quote start (b @ unescape (lx_input l ! (lx_pos l + 1))) (l\<lparr>lx_pos := lx_pos l + 2\<rparr>)
           else if ch = quote then
             Inr (l\<lparr>lx_pos := lx_pos l + 1, lx_tokens := lx_tokens l @ [\<lparr>t_kind = tokString, t_text = b, t_pos = start\<rparr>]\<rparr>)
           else scanStringLoop quote start (b @ [ch]) (l\<lparr>lx_pos := lx_pos l + 1\<rparr>)
      else Inl (UnterminatedString start))"
  by pat_completeness auto
termination by (relation "measure (\<lambda>(q, s, b, l). length (lx_input l) - lx_pos l)") auto

declare scanStringLoop.simps [simp del]

definition scanString :: "byte \<Rightarrow> lexer \<Rightarrow> cerr + lexer" where
  "scanString quote l = scanStringLoop quote (lx_pos l) [] (l\<lparr>lx_pos := lx_pos l + 1\<rparr>)"

function scanNumberLoop :: "bool \<Rightarrow> lexer \<Rightarrow> bool \<times> lexer" where
  "scanNumberLoop isFloat l =
     (if lx_pos l < length (lx_input l) then
        let ch = lx_input l ! lx_pos l
        in if ch = CHR ''.'' \<and> \<not> isFloat \<and> peek 1 l \<noteq> CHR ''.'' then
             if lx_pos l + 1 < length (lx_input l) \<and> isDigit (lx_input l ! (lx_pos l + 1)) then scanNumberLoop True (l\<lparr>lx_pos := lx_pos l + 1\<rparr>)
             else (isFloat, l)
           else if \<not> isDigit ch then (isFloat, l)
           else scanNumberLoop isFloat (l\<lparr>lx_pos := lx_pos l + 1\<rparr>)
      else (isFloat, l))"
  by pat_completeness auto
termination by (relation "measure (\<lambda>(f, l). length (lx_input l) - lx_pos l)") auto

declare scanNumberLoop.simps [simp del]

definition slice :: "nat \<Rightarrow> nat \<Rightarrow> string \<Rightarrow> string" where
  "slice i j s = take (j - i) (drop i s)"

definition scanNumber :: "lexer \<Rightarrow> lexer" where
  "scanNumber l = (let (isFloat, l') = scanNumberLoop False l; text = slice (lx_pos l) (lx_pos l') (lx_input l)
     in l'\<lparr>lx_tokens := lx_tokens l' @ [\<lparr>t_kind = (if isFloat then tokFloat else tokInt), t_text = text, t_pos = lx_pos l\<rparr>]\<rparr>)"

definition scanIdentOrKeyword :: "lexer \<Rightarrow> lexer" where
  "scanIdentOrKeyword l =
     (let l' = skipWhile isIdentPart l; text = slice (lx_pos l) (lx_pos l') (lx_input l);
          kind = (case map_of keywordTable (toUpper text) of Some k \<Rightarrow> k | None \<Rightarrow> tokIdent)
      in l'\<lparr>lx_tokens := lx_tokens l' @ [\<lparr>t_kind = kind, t_text = text, t_pos = lx_pos l\<rparr>]\<rparr>)"

definition scanParam :: "lexer \<Rightarrow> lexer" where
  "scanParam l =
     (let l' = skipWhile isIdentPart (l\<lparr>lx_pos := lx_pos l + 1\<rparr>); text = slice (lx_pos l + 1) (lx_pos l') (lx_input l)
      in l'\<lparr>lx_tokens := lx_tokens l' @ [\<lparr>t_kind = tokParam, t_text = text, t_pos = lx_pos l\<rparr>]\<rparr>)"

text \<open>The switch in the body of the scanning loop, and the loop.\<close>

definition scanToken :: "lexer \<Rightarrow> cerr + lexer" where
  "scanToken l = (let ch = lx_input l ! lx_pos l in
     if ch = CHR ''('' then Inr (emit tokLParen ''('' l)
     else if ch = CHR '')'' then Inr (emit tokRParen '')'' l)
     else if ch = CHR ''['' then Inr (emit tokLBracket ''['' l)
     else if ch = CHR '']'' then Inr (emit tokRBracket '']'' l)
     else if ch = CHR ''{'' then Inr (emit tokLBrace ''{'' l)
     else if ch = CHR ''}'' then Inr (emit tokRBrace ''}'' l)
     else if ch = CHR '':'' then Inr (emit tokColon '':'' l)
     else if ch = CHR '','' then Inr (emit tokComma '','' l)
     else if ch = CHR ''*'' then Inr (emit tokStar ''*'' l)
     else if ch = CHR ''.'' then
       (if peek 1 l = CHR ''.'' then Inr (emitN tokDotDot ''..'' 2 l) else Inr (emit tokDot ''.'' l))
     else if ch = CHR ''-'' then
       (if peek 1 l = CHR ''>'' then Inr (emitN tokArrow ''->'' 2 l) else Inr (emit tokDash ''-'' l))
     else if ch = CHR ''<'' then
       (if peek 1 l = CHR ''-'' then Inr (emitN tokLArrow ''<-'' 2 l)
        else if peek 1 l = CHR ''='' then Inr (emitN tokLte ''<='' 2 l)
        else if peek 1 l = CHR ''>'' then Inr (emitN tokNeq ''<>'' 2 l)
        else Inr (emit tokLt ''<'' l))
     else if ch = CHR ''>'' then
       (if peek 1 l = CHR ''='' then Inr (emitN tokGte ''>='' 2 l) else Inr (emit tokGt ''>'' l))
     else if ch = CHR ''='' then Inr (emit tokEq ''='' l)
     else if ch = CHR 0x27 \<or> ch = CHR 0x22 then scanString ch l
     else if isDigit ch then Inr (scanNumber l)
     else if ch = CHR ''$'' then Inr (scanParam l)
     else if isIdentStart ch then Inr (scanIdentOrKeyword l)
     else Inl (UnexpectedChar ch (lx_pos l)))"

lemma skipWhile_props:
  "lx_input (skipWhile P l) = lx_input l \<and> lx_tokens (skipWhile P l) = lx_tokens l \<and> lx_pos l \<le> lx_pos (skipWhile P l)"
proof (induction P l rule: skipWhile.induct)
  case (1 P l)
  then show ?case by (subst (1 2 3) skipWhile.simps) auto
qed

lemma skipWhile_progress: "lx_pos l < length (lx_input l) \<Longrightarrow> P (lx_input l ! lx_pos l) \<Longrightarrow> lx_pos l < lx_pos (skipWhile P l)"
  using skipWhile_props [of P "l\<lparr>lx_pos := lx_pos l + 1\<rparr>"] by (simp add: skipWhile.simps [of P l])

lemma scanStringLoop_props:
  "scanStringLoop q s b l = Inr l' \<Longrightarrow> lx_input l' = lx_input l \<and> lx_pos l < lx_pos l'"
proof (induction q s b l rule: scanStringLoop.induct)
  case (1 q s b l)
  let ?c = "lx_input l ! lx_pos l"
  consider "lx_pos l < length (lx_input l)" "?c = CHR 0x5C" "lx_pos l + 1 < length (lx_input l)"
    | "lx_pos l < length (lx_input l)" "\<not> (?c = CHR 0x5C \<and> lx_pos l + 1 < length (lx_input l))" "?c = q"
    | "lx_pos l < length (lx_input l)" "\<not> (?c = CHR 0x5C \<and> lx_pos l + 1 < length (lx_input l))" "?c \<noteq> q"
    | "\<not> lx_pos l < length (lx_input l)" by blast
  then show ?case
  proof cases
    case a: 1
    then show ?thesis using 1(1) [OF a(1) refl conjI [OF a(2,3)]] 1(3) by (simp add: scanStringLoop.simps [of q s b l])
  next
    case 2
    then show ?thesis using 1(3) by (auto simp: scanStringLoop.simps [of q s b l] Let_def)
  next
    case a: 3
    then show ?thesis using 1(2) [OF a(1) refl a(2,3)] 1(3) by (auto simp: scanStringLoop.simps [of q s b l] Let_def split: if_splits)
  next
    case 4
    then show ?thesis using 1(3) by (simp add: scanStringLoop.simps [of q s b l])
  qed
qed

lemma scanNumberLoop_props: "lx_input (snd (scanNumberLoop f l)) = lx_input l \<and> lx_tokens (snd (scanNumberLoop f l)) = lx_tokens l \<and>
   lx_pos l \<le> lx_pos (snd (scanNumberLoop f l))"
proof (induction f l rule: scanNumberLoop.induct)
  case (1 f l)
  then show ?case by (subst (1 2 3) scanNumberLoop.simps) (auto simp: Let_def)
qed

lemma scanNumber_progress:
  assumes "lx_pos l < length (lx_input l)" and "isDigit (lx_input l ! lx_pos l)"
  shows "lx_pos l < lx_pos (scanNumber l) \<and> lx_input (scanNumber l) = lx_input l"
proof -
  have "lx_input l ! lx_pos l \<noteq> CHR ''.''" using assms(2) by (auto simp: isDigit_def)
  then have "scanNumberLoop False l = scanNumberLoop False (l\<lparr>lx_pos := lx_pos l + 1\<rparr>)"
    using assms by (simp add: scanNumberLoop.simps [of False l] Let_def)
  then show ?thesis using scanNumberLoop_props [of False "l\<lparr>lx_pos := lx_pos l + 1\<rparr>"] by (auto simp: scanNumber_def Let_def split: prod.splits)
qed

definition moved :: "lexer \<Rightarrow> lexer \<Rightarrow> bool" where
  "moved l l' \<longleftrightarrow> lx_input l' = lx_input l \<and> lx_pos l < lx_pos l'"

lemma moved_emit: "moved l (emit k t l)" "moved l (emitN k t 2 l)"
  by (simp_all add: moved_def emit_def emitN_def)

lemma moved_scan:
  assumes "lx_pos l < length (lx_input l)"
  shows "scanString q l = Inr l' \<Longrightarrow> moved l l'" "isDigit (lx_input l ! lx_pos l) \<Longrightarrow> moved l (scanNumber l)"
    "isIdentStart (lx_input l ! lx_pos l) \<Longrightarrow> moved l (scanIdentOrKeyword l)" "moved l (scanParam l)"
proof -
  show "scanString q l = Inr l' \<Longrightarrow> moved l l'"
    using scanStringLoop_props [of q "lx_pos l" "[]" "l\<lparr>lx_pos := lx_pos l + 1\<rparr>" l'] by (simp add: scanString_def moved_def)
  show "isDigit (lx_input l ! lx_pos l) \<Longrightarrow> moved l (scanNumber l)" using scanNumber_progress [OF assms] by (simp add: moved_def)
  show "isIdentStart (lx_input l ! lx_pos l) \<Longrightarrow> moved l (scanIdentOrKeyword l)"
    using skipWhile_progress [OF assms, of isIdentPart] skipWhile_props [of isIdentPart l]
    by (simp add: scanIdentOrKeyword_def Let_def isIdentPart_def moved_def)
  show "moved l (scanParam l)"
    using skipWhile_props [of isIdentPart "l\<lparr>lx_pos := lx_pos l + 1\<rparr>"] by (simp add: scanParam_def Let_def moved_def)
qed

lemma scanToken_progress:
  assumes "lx_pos l < length (lx_input l)" and "scanToken l = Inr l'"
  shows "moved l l'"
  using assms(2) unfolding scanToken_def Let_def
  by (simp only: split: if_split_asm) (simp_all only: sum.inject, auto intro: moved_emit moved_scan [OF assms(1)])

function scan :: "lexer \<Rightarrow> cerr + lexer" where
  "scan l =
     (if lx_pos l < length (lx_input l) then
        let l1 = skipWhitespace l
        in if length (lx_input l1) \<le> lx_pos l1 then Inr (emitN tokEOF [] 0 l1)
           else (case scanToken l1 of Inl e \<Rightarrow> Inl e | Inr l2 \<Rightarrow> scan l2)
      else Inr (emitN tokEOF [] 0 l))"
  by pat_completeness auto
termination
proof (relation "measure (\<lambda>l. length (lx_input l) - lx_pos l)")
  fix l l1 l2
  assume a: "lx_pos l < length (lx_input l)" "l1 = skipWhitespace l" "\<not> length (lx_input l1) \<le> lx_pos l1" "scanToken l1 = Inr l2"
  then have "moved l1 l2" by (intro scanToken_progress) simp_all
  then show "(l2, l) \<in> measure (\<lambda>l. length (lx_input l) - lx_pos l)"
    using a(1,2) skipWhile_props [of isWhitespace l] by (auto simp: skipWhitespace_def moved_def)
qed simp

declare scan.simps [simp del]

definition tokenize :: "string \<Rightarrow> cerr + Token list" where
  "tokenize input = (case scan \<lparr>lx_input = input, lx_pos = 0, lx_tokens = []\<rparr> of Inl e \<Rightarrow> Inl e | Inr l \<Rightarrow> Inr (lx_tokens l))"

section \<open>The text of tokens\<close>

definition escape :: "string \<Rightarrow> string" where
  "escape s = concat (map (\<lambda>c. if c = CHR 0x5C \<or> c = CHR 0x22 then [CHR 0x5C, c] else [c]) s)"

definition tokenText :: "TokenKind \<times> string \<Rightarrow> string" where
  "tokenText = (\<lambda>(k, t). if k = tokString then CHR 0x22 # escape t @ [CHR 0x22] else if k = tokParam then CHR ''$'' # t else t)"

definition render :: "(TokenKind \<times> string) list \<Rightarrow> string" where
  "render ts = concat (map (\<lambda>t. tokenText t @ '' '') ts)"

abbreviation identText :: "string \<Rightarrow> bool" where
  "identText t \<equiv> t \<noteq> [] \<and> isIdentStart (hd t) \<and> list_all isIdentPart t"

definition punctuation :: "TokenKind list" where
  "punctuation = [tokEq, tokNeq, tokLt, tokGt, tokLte, tokGte, tokLParen, tokRParen, tokLBracket, tokRBracket, tokLBrace, tokRBrace,
     tokColon, tokDot, tokDotDot, tokComma, tokStar, tokDash, tokArrow, tokLArrow]"

definition token_ok :: "TokenKind \<times> string \<Rightarrow> bool" where
  "token_ok = (\<lambda>(k, t). if k = tokString then True
     else if k = tokParam then list_all isIdentPart t
     else if k = tokInt then t \<noteq> [] \<and> list_all isDigit t
     else if k = tokFloat then (\<exists>a b. t = a @ CHR ''.'' # b \<and> a \<noteq> [] \<and> b \<noteq> [] \<and> list_all isDigit a \<and> list_all isDigit b)
     else if k \<in> set punctuation then t = tokenKindName k
     else identText t \<and> (if k = tokIdent then map_of keywordTable (toUpper t) = None else map_of keywordTable (toUpper t) = Some k))"

abbreviation kt :: "Token \<Rightarrow> TokenKind \<times> string" where "kt t \<equiv> (t_kind t, t_text t)"

section \<open>Scanning what was printed\<close>

text \<open>A scanner that has consumed \<open>pre\<close> and stands before \<open>rest\<close>.\<close>

definition lx :: "string \<Rightarrow> string \<Rightarrow> Token list \<Rightarrow> lexer" where
  "lx pre rest ts = \<lparr>lx_input = pre @ rest, lx_pos = length pre, lx_tokens = ts\<rparr>"

lemma lx_simps [simp]:
  "lx_input (lx pre rest ts) = pre @ rest" "lx_pos (lx pre rest ts) = length pre" "lx_tokens (lx pre rest ts) = ts"
  "peek (Suc 0) (lx pre (c # d # rest) ts) = d" "peek (Suc 0) (lx pre [c] ts) = CHR 0x00"
  by (simp_all add: lx_def peek_def nth_append)

lemma lx_move: "(lx pre (u @ rest) ts)\<lparr>lx_pos := length pre + length u\<rparr> = lx (pre @ u) rest ts"
  "(lx pre (c # rest) ts)\<lparr>lx_pos := Suc (length pre)\<rparr> = lx (pre @ [c]) rest ts"
  "(lx pre (c # d # rest) ts)\<lparr>lx_pos := Suc (Suc (length pre))\<rparr> = lx (pre @ [c, d]) rest ts"
  "(lx pre rest ts)\<lparr>lx_tokens := ts'\<rparr> = lx pre rest ts'"
  by (simp_all add: lx_def)

lemma skipWhile_lx:
  "skipWhile P (lx pre [] ts) = lx pre [] ts"
  "skipWhile P (lx pre (c # rest) ts) = (if P c then skipWhile P (lx (pre @ [c]) rest ts) else lx pre (c # rest) ts)"
  by (simp_all add: skipWhile.simps [of P "lx pre [] ts"] skipWhile.simps [of P "lx pre (c # rest) ts"] lx_move)

lemma skipWhile_at:
  "list_all P u \<Longrightarrow> v = [] \<or> \<not> P (hd v) \<Longrightarrow> skipWhile P (lx pre (u @ v) ts) = lx (pre @ u) v ts"
  by (induction u arbitrary: pre; cases v) (simp_all add: skipWhile_lx)

lemma scanStringLoop_lx:
  "scanStringLoop q start b (lx pre (CHR 0x5C # c # rest) ts) = scanStringLoop q start (b @ unescape c) (lx (pre @ [CHR 0x5C, c]) rest ts)"
  "c \<noteq> CHR 0x5C \<Longrightarrow> scanStringLoop q start b (lx pre (c # rest) ts) =
     (if c = q then Inr (lx (pre @ [c]) rest (ts @ [\<lparr>t_kind = tokString, t_text = b, t_pos = start\<rparr>]))
      else scanStringLoop q start (b @ [c]) (lx (pre @ [c]) rest ts))"
  by (simp_all add: scanStringLoop.simps [of q start b "lx pre (CHR 0x5C # c # rest) ts"]
      scanStringLoop.simps [of q start b "lx pre (c # rest) ts"] lx_move nth_append)

lemma scanStringLoop_at:
  "scanStringLoop (CHR 0x22) start b (lx pre (escape s @ CHR 0x22 # v) ts) =
    Inr (lx (pre @ escape s @ [CHR 0x22]) v (ts @ [\<lparr>t_kind = tokString, t_text = b @ s, t_pos = start\<rparr>]))"
proof (induction s arbitrary: pre b)
  case Nil
  show ?case by (simp add: escape_def scanStringLoop_lx)
next
  case (Cons c s)
  have e: "escape (c # s) = (if c = CHR 0x5C \<or> c = CHR 0x22 then [CHR 0x5C, c] else [c]) @ escape s" by (simp add: escape_def)
  show ?case by (cases "c = CHR 0x5C \<or> c = CHR 0x22") (auto simp: e scanStringLoop_lx unescape_def Cons.IH)
qed

lemma digit_not_dot: "isDigit c \<Longrightarrow> c \<noteq> CHR ''.''"
  by (auto simp: isDigit_def)

lemma scanNumberLoop_lx:
  "scanNumberLoop f (lx pre [] ts) = (f, lx pre [] ts)"
  "isDigit c \<Longrightarrow> scanNumberLoop f (lx pre (c # rest) ts) = scanNumberLoop f (lx (pre @ [c]) rest ts)"
  "\<not> isDigit c \<Longrightarrow> c \<noteq> CHR ''.'' \<Longrightarrow> scanNumberLoop f (lx pre (c # rest) ts) = (f, lx pre (c # rest) ts)"
  "isDigit c \<Longrightarrow> scanNumberLoop False (lx pre (CHR ''.'' # c # rest) ts) = scanNumberLoop True (lx (pre @ ''.'') (c # rest) ts)"
  using digit_not_dot [of c]
  by (simp_all add: scanNumberLoop.simps [of f "lx pre [] ts"] scanNumberLoop.simps [of f "lx pre (c # rest) ts"]
      scanNumberLoop.simps [of False "lx pre (CHR ''.'' # c # rest) ts"] lx_move nth_append)

lemma scanNumberLoop_at:
  "list_all isDigit u \<Longrightarrow> v = [] \<or> (\<not> isDigit (hd v) \<and> hd v \<noteq> CHR ''.'') \<Longrightarrow>
   scanNumberLoop f (lx pre (u @ v) ts) = (f, lx (pre @ u) v ts)"
  by (induction u arbitrary: pre; cases v) (simp_all add: scanNumberLoop_lx)

lemma scanNumberLoop_float:
  assumes "list_all isDigit u" "list_all isDigit w" "w \<noteq> []" "v = [] \<or> (\<not> isDigit (hd v) \<and> hd v \<noteq> CHR ''.'')"
  shows "scanNumberLoop False (lx pre (u @ CHR ''.'' # w @ v) ts) = (True, lx (pre @ u @ CHR ''.'' # w) v ts)"
  using assms(1)
proof (induction u arbitrary: pre)
  case Nil
  obtain d w' where "w = d # w'" "isDigit d" using assms(2,3) by (cases w) auto
  then show ?case using scanNumberLoop_at [OF assms(2,4), of True "pre @ ''.''" ts] by (simp add: scanNumberLoop_lx)
qed (simp add: scanNumberLoop_lx)


lemma slice_lx: "slice (length pre) (length pre + length u) (pre @ u @ v) = u"
  by (simp add: slice_def)

lemma ident_start_char:
  assumes "isIdentStart c"
  shows "c \<notin> set ''()[]{}:,*.-<>=$'' \<and> c \<noteq> CHR 0x27 \<and> c \<noteq> CHR 0x22 \<and> \<not> isDigit c"
  using assms by (auto simp: isIdentStart_def latin1Letter_def isDigit_def Let_def)

lemma digit_char:
  assumes "isDigit c"
  shows "c \<notin> set ''()[]{}:,*.-<>='' \<and> c \<noteq> CHR 0x27 \<and> c \<noteq> CHR 0x22"
  using assms by (auto simp: isDigit_def)

lemma scanToken_ident:
  assumes "identText t" and "v = [] \<or> \<not> isIdentPart (hd v)"
  shows "scanToken (lx pre (t @ v) ts) = Inr (lx (pre @ t) v (ts @ [\<lparr>t_kind = (case map_of keywordTable (toUpper t) of Some k \<Rightarrow> k | None \<Rightarrow> tokIdent),
     t_text = t, t_pos = length pre\<rparr>]))"
proof -
  have "scanToken (lx pre (t @ v) ts) = Inr (scanIdentOrKeyword (lx pre (t @ v) ts))"
    using assms(1) ident_start_char [of "hd t"] by (cases t) (simp_all add: scanToken_def nth_append)
  then show ?thesis using assms slice_lx [of pre t v]
    by (simp add: scanIdentOrKeyword_def skipWhile_at lx_move)
qed

lemma scanToken_number:
  assumes "scanNumberLoop False (lx pre (t @ v) ts) = (f, lx (pre @ t) v ts)" and "t \<noteq> []" and "isDigit (hd t)"
  shows "scanToken (lx pre (t @ v) ts) = Inr (lx (pre @ t) v (ts @ [\<lparr>t_kind = (if f then tokFloat else tokInt), t_text = t, t_pos = length pre\<rparr>]))"
proof -
  have "scanToken (lx pre (t @ v) ts) = Inr (scanNumber (lx pre (t @ v) ts))"
    using assms(2,3) digit_char [of "hd t"] by (cases t) (simp_all add: scanToken_def nth_append)
  then show ?thesis using assms(1) slice_lx [of pre t v] by (simp add: scanNumber_def lx_move)
qed

lemma emit_lx:
  "emit k t (lx pre (c # rest) ts) = lx (pre @ [c]) rest (ts @ [\<lparr>t_kind = k, t_text = t, t_pos = length pre\<rparr>])"
  "emitN k t 2 (lx pre (c # d # rest) ts) = lx (pre @ [c, d]) rest (ts @ [\<lparr>t_kind = k, t_text = t, t_pos = length pre\<rparr>])"
  by (simp_all add: emit_def emitN_def lx_def)

lemma scanToken_punctuation:
  "k \<in> set punctuation \<Longrightarrow> scanToken (lx pre (tokenKindName k @ CHR '' '' # v) ts) =
     Inr (lx (pre @ tokenKindName k) (CHR '' '' # v) (ts @ [\<lparr>t_kind = k, t_text = tokenKindName k, t_pos = length pre\<rparr>]))"
  by (cases k) (simp_all add: punctuation_def scanToken_def Let_def emit_lx)

lemma space_char: "\<not> isIdentPart (CHR '' '')" "\<not> isDigit (CHR '' '')" "isWhitespace (CHR '' '')"
  by (auto simp: isIdentPart_def isIdentStart_def isDigit_def latin1Letter_def isWhitespace_def)

lemma scanToken_string:
  "scanToken (lx pre (CHR 0x22 # escape t @ CHR 0x22 # v) ts) =
     Inr (lx (pre @ CHR 0x22 # escape t @ [CHR 0x22]) v (ts @ [\<lparr>t_kind = tokString, t_text = t, t_pos = length pre\<rparr>]))"
  using scanStringLoop_at [of "length pre" "[]" "pre @ [CHR 0x22]" t v ts]
  by (simp add: scanToken_def Let_def nth_append scanString_def lx_move)

lemma scanToken_param:
  assumes "list_all isIdentPart t" and "v = [] \<or> \<not> isIdentPart (hd v)"
  shows "scanToken (lx pre (CHR ''$'' # t @ v) ts) =
     Inr (lx (pre @ CHR ''$'' # t) v (ts @ [\<lparr>t_kind = tokParam, t_text = t, t_pos = length pre\<rparr>]))"
  using skipWhile_at [OF assms, of "pre @ ''$''" ts] slice_lx [of "pre @ ''$''" t v]
  by (simp add: scanToken_def nth_append scanParam_def lx_move isDigit_def)

lemma scanToken_at:
  assumes "token_ok (k, t)"
  shows "scanToken (lx pre (tokenText (k, t) @ CHR '' '' # v) ts) =
    Inr (lx (pre @ tokenText (k, t)) (CHR '' '' # v) (ts @ [\<lparr>t_kind = k, t_text = t, t_pos = length pre\<rparr>]))"
proof -
  let ?v = "CHR '' '' # v"
  consider "k = tokString" | "k = tokParam" "list_all isIdentPart t" | "k = tokInt" "t \<noteq> []" "list_all isDigit t"
    | a b where "k = tokFloat" "t = a @ CHR ''.'' # b" "a \<noteq> []" "b \<noteq> []" "list_all isDigit a" "list_all isDigit b"
    | "k \<notin> {tokString, tokParam}" "k \<in> set punctuation" "t = tokenKindName k"
    | "k \<notin> {tokString, tokParam}" "identText t" "(case map_of keywordTable (toUpper t) of Some k \<Rightarrow> k | None \<Rightarrow> tokIdent) = k"
    using assms by (auto simp: token_ok_def split: if_splits)
  then show ?thesis
  proof cases
    case 1
    then show ?thesis using scanToken_string [of pre t ?v ts] by (simp add: tokenText_def)
  next
    case 2
    then show ?thesis using scanToken_param [of t ?v pre ts] space_char by (simp add: tokenText_def)
  next
    case 3
    then show ?thesis using scanToken_number [OF scanNumberLoop_at, of t ?v pre ts] space_char
      by (cases t) (simp_all add: tokenText_def)
  next
    case (4 a b)
    have "scanNumberLoop False (lx pre (t @ ?v) ts) = (True, lx (pre @ t) ?v ts)"
      using scanNumberLoop_float [OF 4(5,6,4), of ?v pre ts] 4(2) space_char by simp
    from scanToken_number [OF this] show ?thesis using 4 by (cases a) (simp_all add: tokenText_def)
  next
    case 5
    then show ?thesis using scanToken_punctuation by (simp add: tokenText_def)
  next
    case 6
    then show ?thesis using scanToken_ident [of t ?v pre ts] space_char by (simp add: tokenText_def)
  qed
qed

lemma not_space: "isIdentStart c \<Longrightarrow> \<not> isWhitespace c" "isDigit c \<Longrightarrow> \<not> isWhitespace c"
  by (auto simp: isIdentStart_def isDigit_def latin1Letter_def isWhitespace_def Let_def)

lemma tokenText_head:
  assumes "token_ok (k, t)"
  shows "\<exists>c r. tokenText (k, t) = c # r \<and> \<not> isWhitespace c"
proof -
  have "k \<in> set punctuation \<Longrightarrow> \<exists>c r. tokenKindName k = c # r \<and> \<not> isWhitespace c"
    by (cases k) (simp_all add: punctuation_def isWhitespace_def)
  moreover have "list_all isDigit u \<Longrightarrow> u \<noteq> [] \<Longrightarrow> \<exists>c r. u @ v = c # r \<and> \<not> isWhitespace c" for u v
    using not_space(2) by (cases u) auto
  moreover from this [of t "[]"] have "list_all isDigit t \<Longrightarrow> t \<noteq> [] \<Longrightarrow> \<exists>c r. t = c # r \<and> \<not> isWhitespace c" by simp
  moreover have "identText t \<Longrightarrow> \<exists>c r. t = c # r \<and> \<not> isWhitespace c" using not_space(1) by (cases t) auto
  ultimately show ?thesis using assms
    by (auto simp: token_ok_def tokenText_def isWhitespace_def split: if_splits)
qed

lemma scan_render:
  assumes "list_all token_ok ts" and "list_all isWhitespace w"
  shows "\<exists>l ts'. scan (lx pre (w @ render ts) toks) = Inr l \<and> lx_tokens l = toks @ ts' \<and> map kt ts' = ts @ [(tokEOF, [])]"
  using assms
proof (induction ts arbitrary: pre w toks)
  case Nil
  have "skipWhitespace (lx pre w toks) = lx (pre @ w) [] toks"
    using skipWhile_at [OF Nil(2), of "[]" pre toks] by (simp add: skipWhitespace_def)
  then show ?case by (subst scan.simps) (simp add: render_def emitN_def)
next
  case (Cons t ts)
  obtain k x where t: "t = (k, x)" "token_ok (k, x)" using Cons.prems by (cases t) auto
  let ?r = "tokenText t @ '' '' @ render ts" and ?l = "lx pre (w @ tokenText t @ '' '' @ render ts) toks"
  have r: "render (t # ts) = ?r" by (simp add: render_def)
  have "scanToken (lx (pre @ w) ?r toks) = Inr (lx (pre @ w @ tokenText t) ('' '' @ render ts) (toks @ [\<lparr>t_kind = k, t_text = x, t_pos = length (pre @ w)\<rparr>]))"
    using scanToken_at [OF t(2), of "pre @ w" "render ts" toks] t(1) by simp
  moreover have "?r = [] \<or> \<not> isWhitespace (hd ?r)" using tokenText_head [OF t(2)] t(1) by auto
  then have "skipWhitespace ?l = lx (pre @ w) ?r toks"
    unfolding skipWhitespace_def by (rule skipWhile_at [OF Cons.prems(2)])
  ultimately have s: "scan ?l = scan (lx (pre @ w @ tokenText t) ('' '' @ render ts) (toks @ [\<lparr>t_kind = k, t_text = x, t_pos = length (pre @ w)\<rparr>]))"
    by (subst scan.simps) simp
  then show ?case using Cons.IH [of "'' ''" "pre @ w @ tokenText t" "toks @ [\<lparr>t_kind = k, t_text = x, t_pos = length (pre @ w)\<rparr>]"] Cons.prems t(1) space_char(3)
    unfolding r s by fastforce
qed


section \<open>What the scanner produces\<close>

lemma skipWhile_split: "skipWhile P (lx pre rest ts) = lx (pre @ takeWhile P rest) (dropWhile P rest) ts"
  using skipWhile_at [of P "takeWhile P rest" "dropWhile P rest" pre ts] hd_dropWhile [of P rest]
  by (auto simp: list_all_iff dest: set_takeWhileD)

lemma scanStringLoop_split:
  "scanStringLoop q start b (lx pre rest ts) = Inr l \<Longrightarrow>
     \<exists>u v t. rest = u @ v \<and> l = lx (pre @ u) v (ts @ [\<lparr>t_kind = tokString, t_text = t, t_pos = start\<rparr>])"
proof (induction "length rest" arbitrary: rest pre b rule: less_induct)
  case less
  show ?case
  proof (cases rest)
    case Nil
    then show ?thesis using less(2) by (simp add: scanStringLoop.simps [of q start b "lx pre [] ts"])
  next
    case (Cons c r)
    show ?thesis
    proof (cases "c = CHR 0x5C \<and> r \<noteq> []")
      case True
      then obtain d r' where r: "r = d # r'" "c = CHR 0x5C" by (cases r) auto
      then obtain u v t where "r' = u @ v" "l = lx (pre @ [c, d] @ u) v (ts @ [\<lparr>t_kind = tokString, t_text = t, t_pos = start\<rparr>])"
        using less(1) [of r' "b @ unescape d" "pre @ [c, d]"] less(2) Cons by (auto simp: scanStringLoop_lx)
      then show ?thesis using Cons r by (metis append_Cons append_Nil)
    next
      case False
      have e: "scanStringLoop q start b (lx pre rest ts) =
         (if c = q then Inr (lx (pre @ [c]) r (ts @ [\<lparr>t_kind = tokString, t_text = b, t_pos = start\<rparr>]))
          else scanStringLoop q start (b @ [c]) (lx (pre @ [c]) r ts))"
        using False Cons by (subst scanStringLoop.simps) (auto simp: lx_move nth_append)
      show ?thesis
      proof (cases "c = q")
        case True
        then show ?thesis using e less(2) Cons by (metis append_Cons append_Nil sum.inject(2))
      next
        case ne: False
        then obtain u v t where "r = u @ v" "l = lx (pre @ [c] @ u) v (ts @ [\<lparr>t_kind = tokString, t_text = t, t_pos = start\<rparr>])"
          using less(1) [of r "b @ [c]" "pre @ [c]"] less(2) Cons e by auto
        then show ?thesis using Cons by (metis append_Cons append_Nil)
      qed
    qed
  qed
qed

lemma scanNumberLoop_stop:
  assumes "c = CHR ''.''" and "f \<or> rest = [] \<or> \<not> isDigit (hd rest)"
  shows "scanNumberLoop f (lx pre (c # rest) ts) = (f, lx pre (c # rest) ts)"
  using assms by (cases rest; subst scanNumberLoop.simps) (auto simp: nth_append isDigit_def Let_def)

lemma scanNumberLoop_True: "scanNumberLoop True (lx pre rest ts) = (True, lx (pre @ takeWhile isDigit rest) (dropWhile isDigit rest) ts)"
proof (induction rest arbitrary: pre)
  case (Cons c rest)
  then show ?case by (cases "isDigit c"; cases "c = CHR ''.''") (simp_all add: scanNumberLoop_lx scanNumberLoop_stop isDigit_def)
qed (simp add: scanNumberLoop_lx)

lemma scanNumberLoop_False:
  "\<exists>f t v. rest = t @ v \<and> scanNumberLoop False (lx pre rest ts) = (f, lx (pre @ t) v ts) \<and>
     (if f then \<exists>a b. t = a @ CHR ''.'' # b \<and> b \<noteq> [] \<and> a = takeWhile isDigit rest \<and> list_all isDigit b else t = takeWhile isDigit rest)"
proof (induction rest arbitrary: pre)
  case Nil
  show ?case by (rule exI [of _ False]) (simp add: scanNumberLoop_lx)
next
  case (Cons c rest)
  consider "isDigit c" | "c = CHR ''.''" "rest \<noteq> []" "isDigit (hd rest)" | "c = CHR ''.''" "rest = [] \<or> \<not> isDigit (hd rest)"
    | "\<not> isDigit c" "c \<noteq> CHR ''.''" by blast
  then show ?case
  proof cases
    case 1
    obtain f t v where i: "rest = t @ v" "scanNumberLoop False (lx (pre @ [c]) rest ts) = (f, lx (pre @ [c] @ t) v ts)"
      "if f then \<exists>a b. t = a @ CHR ''.'' # b \<and> b \<noteq> [] \<and> a = takeWhile isDigit rest \<and> list_all isDigit b else t = takeWhile isDigit rest"
      using Cons.IH [of "pre @ [c]"] by auto
    have "if f then \<exists>a b. c # t = a @ CHR ''.'' # b \<and> b \<noteq> [] \<and> a = takeWhile isDigit (c # rest) \<and> list_all isDigit b
        else c # t = takeWhile isDigit (c # rest)" using i(3) 1 by (cases f) auto
    moreover have "c # rest = (c # t) @ v" "scanNumberLoop False (lx pre (c # rest) ts) = (f, lx (pre @ c # t) v ts)"
      using i(1,2) 1 by (simp_all add: scanNumberLoop_lx)
    ultimately show ?thesis by blast
  next
    case 2
    then have n: "\<not> isDigit c" by (simp add: isDigit_def)
    obtain d r where rest: "rest = d # r" "isDigit d" using 2 by (cases rest) auto
    let ?t = "CHR ''.'' # takeWhile isDigit rest"
    have "scanNumberLoop False (lx pre (c # rest) ts) = (True, lx (pre @ ?t) (dropWhile isDigit rest) ts)"
      using 2 rest scanNumberLoop_True [of "pre @ ''.''" rest ts] by (simp add: scanNumberLoop_lx)
    then show ?thesis using 2 rest n
      by (intro exI [of _ True] exI [of _ ?t] exI [of _ "dropWhile isDigit rest"]) (auto simp: list_all_iff dest: set_takeWhileD)
  next
    case 3
    then show ?thesis using scanNumberLoop_stop [of c False rest pre ts] by (intro exI [of _ False]) (simp add: isDigit_def)
  next
    case 4
    then show ?thesis by (intro exI [of _ False]) (simp add: scanNumberLoop_lx)
  qed
qed

definition scanned :: "string \<Rightarrow> string \<Rightarrow> Token list \<Rightarrow> lexer \<Rightarrow> bool" where
  "scanned pre rest ts l \<longleftrightarrow> (\<exists>u v t. rest = u @ v \<and> l = lx (pre @ u) v (ts @ [t]) \<and> token_ok (kt t) \<and> t_pos t = length pre)"

lemma scannedI: "rest = u @ v \<Longrightarrow> token_ok (k, t) \<Longrightarrow> scanned pre rest ts (lx (pre @ u) v (ts @ [\<lparr>t_kind = k, t_text = t, t_pos = length pre\<rparr>]))"
  unfolding scanned_def by (intro exI [where x = u] exI [where x = v] exI [where x = "\<lparr>t_kind = k, t_text = t, t_pos = length pre\<rparr>"]) simp

lemma scanned_emit:
  "token_ok (k, t) \<Longrightarrow> scanned pre (c # rest) ts (emit k t (lx pre (c # rest) ts))"
  "token_ok (k, t) \<Longrightarrow> peek (Suc 0) (lx pre (c # rest) ts) = d \<Longrightarrow> d \<noteq> CHR 0x00 \<Longrightarrow> scanned pre (c # rest) ts (emitN k t 2 (lx pre (c # rest) ts))"
proof -
  show "token_ok (k, t) \<Longrightarrow> scanned pre (c # rest) ts (emit k t (lx pre (c # rest) ts))"
    using scannedI [of "c # rest" "[c]" rest k t pre ts] by (simp add: emit_lx)
  show "token_ok (k, t) \<Longrightarrow> peek (Suc 0) (lx pre (c # rest) ts) = d \<Longrightarrow> d \<noteq> CHR 0x00 \<Longrightarrow> scanned pre (c # rest) ts (emitN k t 2 (lx pre (c # rest) ts))"
    using scannedI [of "c # rest" "[c, hd rest]" "tl rest" k t pre ts] by (cases rest) (simp_all add: emit_lx)
qed

lemma scanned_ident:
  assumes "isIdentStart c"
  shows "scanned pre (c # rest) ts (scanIdentOrKeyword (lx pre (c # rest) ts))"
proof -
  let ?u = "takeWhile isIdentPart (c # rest)" and ?v = "dropWhile isIdentPart (c # rest)"
  let ?k = "case map_of keywordTable (toUpper ?u) of Some k \<Rightarrow> k | None \<Rightarrow> tokIdent"
  have u: "identText ?u" using assms by (auto simp: isIdentPart_def list_all_iff dest: set_takeWhileD)
  have kw: "map_of keywordTable x = Some k \<Longrightarrow> k \<notin> set [tokString, tokParam, tokInt, tokFloat, tokIdent] \<and> k \<notin> set punctuation" for x k
    using map_of_SomeD [of keywordTable x k] by (auto simp: keywordTable_def punctuation_def simp del: map_of.simps)
  have "token_ok (?k, ?u)" using u kw [of "toUpper ?u"]
    by (cases "map_of keywordTable (toUpper ?u)") (auto simp: token_ok_def punctuation_def)
  moreover have "slice (length pre) (length pre + length ?u) (pre @ c # rest) = ?u"
    using slice_lx [of pre ?u ?v] takeWhile_dropWhile_id [of isIdentPart "c # rest"] by metis
  ultimately show ?thesis using scannedI [of "c # rest" ?u ?v ?k ?u pre ts] takeWhile_dropWhile_id [of isIdentPart "c # rest"]
    by (simp only: scanIdentOrKeyword_def skipWhile_split Let_def lx_simps length_append lx_move)
qed

lemma scanned_param: "scanned pre (c # rest) ts (scanParam (lx pre (c # rest) ts))"
proof -
  let ?u = "takeWhile isIdentPart rest" and ?v = "dropWhile isIdentPart rest"
  have "token_ok (tokParam, ?u)" by (auto simp: token_ok_def list_all_iff dest: set_takeWhileD)
  moreover have "slice (Suc (length pre)) (Suc (length pre + length ?u)) (pre @ c # rest) = ?u"
    using slice_lx [of "pre @ [c]" ?u ?v] by simp
  ultimately show ?thesis using scannedI [of "c # rest" "c # ?u" ?v tokParam ?u pre ts]
    by (simp add: scanParam_def skipWhile_split lx_move)
qed

lemma scanned_number:
  assumes "isDigit c"
  shows "scanned pre (c # rest) ts (scanNumber (lx pre (c # rest) ts))"
proof -
  obtain f t v where s: "c # rest = t @ v" "scanNumberLoop False (lx pre (c # rest) ts) = (f, lx (pre @ t) v ts)"
    and t: "if f then \<exists>a b. t = a @ CHR ''.'' # b \<and> b \<noteq> [] \<and> a = takeWhile isDigit (c # rest) \<and> list_all isDigit b else t = takeWhile isDigit (c # rest)"
    using scanNumberLoop_False [of "c # rest" pre ts] by blast
  have "takeWhile isDigit (c # rest) \<noteq> []" "list_all isDigit (takeWhile isDigit (c # rest))"
    using assms by (auto simp: list_all_iff dest: set_takeWhileD)
  then have "token_ok (if f then tokFloat else tokInt, t)" using t unfolding token_ok_def by (cases f) (auto simp del: takeWhile.simps)
  then show ?thesis using scannedI [OF s(1), of _ t pre ts] slice_lx [of pre t v] s
    by (simp add: scanNumber_def lx_move)
qed

lemma scanned_string: "scanString q (lx pre (c # rest) ts) = Inr l \<Longrightarrow> scanned pre (c # rest) ts l"
  using scanStringLoop_split [of q "length pre" "[]" "pre @ [c]" rest ts l] scannedI [of "c # rest" "c # u" v tokString _ pre ts for u v]
  by (auto simp: scanString_def lx_move token_ok_def)

lemma scanToken_scanned:
  assumes "scanToken (lx pre (c # rest) ts) = Inr l"
  shows "scanned pre (c # rest) ts l"
proof -
  have ok': "token_ok (tokEq, ''='')" "token_ok (tokNeq, ''<>'')" "token_ok (tokLt, ''<'')" "token_ok (tokGt, ''>'')" "token_ok (tokLte, ''<='')"
    "token_ok (tokGte, ''>='')" "token_ok (tokLParen, ''('')" "token_ok (tokRParen, '')'')" "token_ok (tokLBracket, ''['')"
    "token_ok (tokRBracket, '']'')" "token_ok (tokLBrace, ''{'')" "token_ok (tokRBrace, ''}'')" "token_ok (tokColon, '':'')" "token_ok (tokDot, ''.'')"
    "token_ok (tokDotDot, ''..'')" "token_ok (tokComma, '','')" "token_ok (tokStar, ''*'')" "token_ok (tokDash, ''-'')" "token_ok (tokArrow, ''->'')"
    "token_ok (tokLArrow, ''<-'')"
    by (simp_all add: token_ok_def punctuation_def)
  note e1 = ok' [THEN scanned_emit(1)] and e2 = ok' [THEN scanned_emit(2)]
  show ?thesis using assms unfolding scanToken_def Let_def
    by (simp only: split: if_split_asm) (simp_all only: sum.inject lx_simps nth_append_length,
        auto simp: e1 e2 scanned_number scanned_param scanned_ident scanned_string)
qed


definition tokens_ok :: "nat \<Rightarrow> nat \<Rightarrow> Token list \<Rightarrow> bool" where
  "tokens_ok i j us \<longleftrightarrow> list_all (\<lambda>t. token_ok (kt t) \<and> i \<le> t_pos t \<and> t_pos t < j) us \<and> sorted_wrt (<) (map t_pos us)"

lemma tokens_ok_Cons: "tokens_ok i j (t # us) \<longleftrightarrow> token_ok (kt t) \<and> i \<le> t_pos t \<and> t_pos t < j \<and> tokens_ok (Suc (t_pos t)) j us"
  by (auto simp: tokens_ok_def list_all_iff)

lemma tokens_ok_mono: "tokens_ok i j us \<Longrightarrow> i' \<le> i \<Longrightarrow> tokens_ok i' j us"
  by (auto simp: tokens_ok_def list_all_iff)

lemma scan_ok:
  "scan (lx pre rest ts) = Inr l \<Longrightarrow>
     \<exists>us. lx_tokens l = ts @ us @ [\<lparr>t_kind = tokEOF, t_text = [], t_pos = length (pre @ rest)\<rparr>] \<and> tokens_ok (length pre) (length (pre @ rest)) us"
proof (induction "length rest" arbitrary: pre rest ts rule: less_induct)
  case less
  let ?w = "takeWhile isWhitespace rest" and ?r = "dropWhile isWhitespace rest"
  have sk: "skipWhitespace (lx pre rest ts) = lx (pre @ ?w) ?r ts" unfolding skipWhitespace_def by (rule skipWhile_split)
  show ?case
  proof (cases ?r)
    case Nil
    then have "takeWhile isWhitespace rest = rest" by (metis append_Nil2 takeWhile_dropWhile_id)
    then have "skipWhitespace (lx pre rest ts) = lx (pre @ rest) [] ts" using sk unfolding Nil by metis
    then have "scan (lx pre rest ts) = Inr (emitN tokEOF [] 0 (lx (pre @ rest) [] ts))"
      by (subst scan.simps) (cases rest; simp)
    then have "lx_tokens l = ts @ [] @ [\<lparr>t_kind = tokEOF, t_text = [], t_pos = length (pre @ rest)\<rparr>]" using less(2) by (auto simp: emitN_def)
    then show ?thesis by (rule exI [of _ "[]", OF conjI]) (simp add: tokens_ok_def)
  next
    case (Cons c r)
    have rest: "pre @ ?w @ c # r = pre @ rest" using Cons takeWhile_dropWhile_id [of isWhitespace rest] by metis
    obtain l2 where t: "scanToken (lx (pre @ ?w) (c # r) ts) = Inr l2" "scan l2 = Inr l"
      using less(2) sk Cons by (subst (asm) scan.simps) (auto split: sum.splits if_splits)
    obtain u v tk where s: "c # r = u @ v" "l2 = lx (pre @ ?w @ u) v (ts @ [tk])" "token_ok (kt tk)" "t_pos tk = length (pre @ ?w)"
      using scanToken_scanned [OF t(1)] by (auto simp: scanned_def)
    have "u \<noteq> []"
    proof
      assume "u = []"
      moreover have "moved (lx (pre @ ?w) (c # r) ts) l2" using t(1) by (intro scanToken_progress) simp_all
      ultimately show False using s by (simp add: moved_def)
    qed
    then have v: "length v < length rest"
      using s(1) Cons length_dropWhile_le [of isWhitespace rest] by (cases u) auto
    have n: "length (pre @ rest) = length (pre @ ?w @ u) + length v" using rest s(1) by (metis append.assoc length_append)
    obtain us where us: "lx_tokens l = (ts @ [tk]) @ us @ [\<lparr>t_kind = tokEOF, t_text = [], t_pos = length ((pre @ ?w @ u) @ v)\<rparr>]"
      "tokens_ok (length (pre @ ?w @ u)) (length ((pre @ ?w @ u) @ v)) us"
      using less(1) [OF v, of "pre @ ?w @ u" "ts @ [tk]"] t(2) s(2) by auto
    have "tokens_ok (length pre) (length (pre @ rest)) (tk # us)"
      using tokens_ok_mono [OF us(2), of "Suc (length (pre @ ?w))"] s(3,4) n \<open>u \<noteq> []\<close> by (cases u) (auto simp: tokens_ok_Cons)
    then show ?thesis using us(1) n by (intro exI [of _ "tk # us"]) simp
  qed
qed

section \<open>Properties\<close>

text \<open>
  The lexer reads back what is printed: the text of any list of well-formed tokens (identifiers, keywords in any case,
  numbers, strings with their quotes and backslashes escaped, parameters, punctuation), separated by blanks, is scanned to exactly these tokens and the end marker.
\<close>

theorem lexer_roundtrip:
  assumes "list_all token_ok ts"
  shows "\<exists>toks. tokenize (render ts) = Inr toks \<and> map kt toks = ts @ [(tokEOF, [])]"
  using scan_render [OF assms, of "[]" "[]" "[]"] by (auto simp: tokenize_def lx_def)

theorem lexer_roundtrip_witness:
  "\<exists>toks. tokenize (render [(tokMatch, ''match''), (tokIdent, ''n''), (tokString, ''a\"b''), (tokFloat, ''1.5'')]) = Inr toks \<and>
     map kt toks = [(tokMatch, ''match''), (tokIdent, ''n''), (tokString, ''a\"b''), (tokFloat, ''1.5''), (tokEOF, [])]"
proof -
  have "\<exists>a b. ''1.5'' = a @ CHR ''.'' # b \<and> a \<noteq> [] \<and> b \<noteq> [] \<and> list_all isDigit a \<and> list_all isDigit b"
    by (intro exI [of _ "''1''"] exI [of _ "''5''"]) (simp add: isDigit_def)
  moreover have "map_of keywordTable (toUpper ''match'') = Some tokMatch" "map_of keywordTable (toUpper ''n'') = None" by code_simp+
  ultimately have "list_all token_ok [(tokMatch, ''match''), (tokIdent, ''n''), (tokString, ''a\"b''), (tokFloat, ''1.5'')]"
    by (simp add: token_ok_def punctuation_def isIdentStart_def isIdentPart_def)
  from lexer_roundtrip [OF this] show ?thesis by simp
qed

text \<open>
  Whatever the lexer accepts it turns into well-formed tokens at increasing positions of the input, closed by one end marker
  behind the input; in particular there are no more tokens than bytes. Printing the tokens and scanning them again gives the same tokens.
\<close>

theorem lexer_output_wellformed:
  assumes "tokenize input = Inr toks"
  shows "\<exists>us. toks = us @ [\<lparr>t_kind = tokEOF, t_text = [], t_pos = length input\<rparr>] \<and>
    list_all (\<lambda>t. token_ok (kt t) \<and> t_pos t < length input) us \<and> sorted_wrt (<) (map t_pos us) \<and> length us \<le> length input \<and>
    (\<exists>toks'. tokenize (render (map kt us)) = Inr toks' \<and> map kt toks' = map kt toks)"
proof -
  obtain l where l: "scan (lx [] input []) = Inr l" "toks = lx_tokens l"
    using assms by (auto simp: tokenize_def lx_def split: sum.splits)
  obtain us where us: "toks = us @ [\<lparr>t_kind = tokEOF, t_text = [], t_pos = length input\<rparr>]" "tokens_ok 0 (length input) us"
    using scan_ok [OF l(1)] l(2) by auto
  have "length us = card (set (map t_pos us))"
    using us(2) by (metis distinct_card length_map strict_sorted_iff tokens_ok_def)
  also have "\<dots> \<le> card {..<length input}"
    using us(2) by (intro card_mono) (auto simp: tokens_ok_def list_all_iff)
  finally have n: "length us \<le> length input" by simp
  have "list_all token_ok (map kt us)" using us(2) by (simp add: tokens_ok_def list_all_iff)
  from scan_render [OF this, of "[]" "[]" "[]"]
  have "\<exists>toks'. tokenize (render (map kt us)) = Inr toks' \<and> map kt toks' = map kt toks"
    using us(1) by (auto simp: tokenize_def lx_def)
  then show ?thesis using us n by (auto simp: tokens_ok_def list_all_iff)
qed

theorem lexer_output_wellformed_witness:
  "\<exists>us. tokenize ''a<-b'' = Inr (us @ [\<lparr>t_kind = tokEOF, t_text = [], t_pos = 4\<rparr>]) \<and> length us \<le> 4"
proof -
  have "case tokenize ''a<-b'' of Inl e \<Rightarrow> False | Inr t \<Rightarrow> True" by code_simp
  then obtain toks where t: "tokenize ''a<-b'' = Inr toks" by (auto split: sum.splits)
  from lexer_output_wellformed [OF t] show ?thesis using t by auto
qed

end
