(* ===== verification/Parser.thy ===== *)
theory Parser
  imports Lexer "HOL-Library.AList"
begin

text \<open>
  The syntax tree of Cypher queries (cypher_ast.go) and the recursive-descent parser (cypher_parser.go). The parser keeps its
  tokens and a position; every parsing method is a function on that state that returns an error or a result with the new state.
  The expression parser is one group of mutually recursive functions, shown to terminate by the number of tokens left.
\<close>

section \<open>Syntax trees\<close>

datatype ExplainMode = ExplainNone | ExplainOnly | ExplainProfile

datatype CompOp = OpEq | OpNeq | OpLt | OpGt | OpLte | OpGte

text \<open>
  An \<open>Expression\<close> of the source has a kind and the fields of all kinds; here every kind is a constructor with the fields
  it uses. A value of a property map is a literal or a reference to a parameter.
\<close>

datatype Expression =
    ExprLiteral val
  | ExprVarRef string
  | ExprPropAccess string string
  | ExprFuncCall string "Expression list"
  | ExprComparison Expression CompOp Expression
  | ExprAnd "Expression list"
  | ExprOr "Expression list"
  | ExprNot Expression
  | ExprParam string

datatype pval = PVal val | ParamRef string

record NodePattern =
  np_Variable :: string
  np_Labels :: "string list"
  np_Props :: "(string \<times> pval) list"

record RelPattern =
  rp_Variable :: string
  rp_Label :: string
  rp_Dir :: Direction
  rp_VarLength :: bool
  rp_MinHops :: int
  rp_MaxHops :: int

record Pattern =
  pt_Nodes :: "NodePattern list"
  pt_Rels :: "RelPattern list"

record ReturnItem =
  ri_Expr :: Expression
  ri_Alias :: string

type_synonym ReturnClause = "ReturnItem list"

record OrderItem =
  oi_Expr :: Expression
  oi_Desc :: bool

record SetItem =
  si_Variable :: string
  si_Property :: string
  si_Value :: Expression

record CypherQuery =
  q_Explain :: ExplainMode
  q_Match :: Pattern
  q_Where :: "Expression option"
  q_OptionalMatch :: "Pattern option"
  q_OptionalWhere :: "Expression option"
  q_Set :: "SetItem list"
  q_Delete :: "string list"
  q_Return :: ReturnClause
  q_OrderBy :: "OrderItem list"
  q_Skip :: int
  q_Limit :: int

record CypherWrite =
  w_Creates :: "Pattern list"
  w_Return :: "ReturnClause option"

record MergePattern =
  mp_Variable :: string
  mp_Labels :: "string list"
  mp_Props :: "(string \<times> pval) list"

record CypherMerge =
  m_Pattern :: MergePattern
  m_OnCreateSet :: "SetItem list"
  m_OnMatchSet :: "SetItem list"
  m_Return :: "ReturnClause option"

datatype parsedCypher = CRead CypherQuery | CWrite CypherWrite | CMerge CypherMerge

section \<open>Numbers (strconv)\<close>

text \<open>
  \<open>ParseInt\<close> and \<open>Atoi\<close> on a text: the value and whether there was an error. A value out of range is clamped and an error; a text that is no
  number gives 0 and an error. Parsing a float64 is the parameter \<open>pf\<close>, with the same kind of result.
\<close>

definition MaxInt64 :: int where "MaxInt64 = 2 ^ 63 - 1"

definition ParseInt :: "string \<Rightarrow> int \<times> bool" where
  "ParseInt s = (let (neg, ds) = (case s of [] \<Rightarrow> (False, []) | c # r \<Rightarrow> if c = CHR ''-'' then (True, r) else if c = CHR ''+'' then (False, r) else (False, s))
     in if ds = [] \<or> \<not> list_all isDigit ds then (0, True)
        else let n = int (undigits ds)
             in if neg then (if MaxInt64 + 1 < n then (- (MaxInt64 + 1), True) else (- n, False))
                else if MaxInt64 < n then (MaxInt64, True) else (n, False))"

definition Atoi :: "string \<Rightarrow> int" where "Atoi s = fst (ParseInt s)"

type_synonym floats = "string \<Rightarrow> u64 \<times> bool"

section \<open>The parser state\<close>

record parser =
  ps_tokens :: "Token list"
  ps_pos :: nat

definition cur :: "parser \<Rightarrow> Token" where
  "cur p = (if length (ps_tokens p) \<le> ps_pos p then \<lparr>t_kind = tokEOF, t_text = [], t_pos = 0\<rparr> else ps_tokens p ! ps_pos p)"

definition is_tok :: "TokenKind \<Rightarrow> parser \<Rightarrow> bool" where
  "is_tok kind p = (t_kind (cur p) = kind)"

definition adv :: "parser \<Rightarrow> parser" where
  "adv p = p\<lparr>ps_pos := ps_pos p + 1\<rparr>"

definition expect :: "TokenKind \<Rightarrow> parser \<Rightarrow> cerr + Token \<times> parser" where
  "expect kind p = (let t = cur p in if t_kind t \<noteq> kind then Inl (Expected kind (t_kind t) (t_pos t)) else Inr (t, adv p))"

text \<open>A call whose result is used, and a failing call reported with another error.\<close>

definition pbind :: "cerr + 'a \<times> parser \<Rightarrow> ('a \<Rightarrow> parser \<Rightarrow> cerr + 'c) \<Rightarrow> cerr + 'c" where
  "pbind m f = (case m of Inl e \<Rightarrow> Inl e | Inr (x, p) \<Rightarrow> f x p)"

definition or_fail :: "cerr + 'a \<Rightarrow> (cerr \<Rightarrow> cerr) \<Rightarrow> cerr + 'a" where
  "or_fail m f = (case m of Inl e \<Rightarrow> Inl (f e) | Inr x \<Rightarrow> Inr x)"

lemma pbind_cong [fundef_cong]:
  "m = m' \<Longrightarrow> (\<And>x p. m' = Inr (x, p) \<Longrightarrow> f x p = g x p) \<Longrightarrow> pbind m f = pbind m' g"
  by (auto simp: pbind_def split: sum.splits)

lemma pbind_simps [simp]: "pbind (Inl e) f = Inl e" "pbind (Inr (x, p)) f = f x p"
  by (simp_all add: pbind_def)

lemma pbind_Inr: "pbind m f = Inr y \<longleftrightarrow> (\<exists>x p. m = Inr (x, p) \<and> f x p = Inr y)"
  by (auto simp: pbind_def split: sum.splits)

lemma or_fail_Inr [simp]: "or_fail m f = Inr y \<longleftrightarrow> m = Inr y" "or_fail (Inr y) f = Inr y"
  by (auto simp: or_fail_def split: sum.splits)

lemma expect_Inr: "expect k p = Inr (t, p') \<longleftrightarrow> t_kind (cur p) = k \<and> t = cur p \<and> p' = adv p"
  by (auto simp: expect_def Let_def)

text \<open>The tokens left; the parser only moves forward over the same tokens.\<close>

definition left :: "parser \<Rightarrow> nat" where "left p = length (ps_tokens p) - ps_pos p"

definition ahead :: "parser \<Rightarrow> parser \<Rightarrow> bool" where
  "ahead p p' \<longleftrightarrow> ps_tokens p' = ps_tokens p \<and> left p' < left p"

lemma ahead_adv: "t_kind (cur p) \<noteq> tokEOF \<Longrightarrow> ahead p (adv p)"
  by (auto simp: ahead_def left_def adv_def cur_def split: if_splits)

lemma ahead_trans: "ahead p q \<Longrightarrow> ahead q r \<Longrightarrow> ahead p r"
  by (simp add: ahead_def)

lemma ahead_left: "ahead p q \<Longrightarrow> left q < left p"
  by (simp add: ahead_def)

section \<open>Expressions\<close>

definition compOp :: "TokenKind \<Rightarrow> CompOp option" where
  "compOp k = (case k of tokEq \<Rightarrow> Some OpEq | tokNeq \<Rightarrow> Some OpNeq | tokLt \<Rightarrow> Some OpLt | tokGt \<Rightarrow> Some OpGt
     | tokLte \<Rightarrow> Some OpLte | tokGte \<Rightarrow> Some OpGte | _ \<Rightarrow> None)"

text \<open>The literals of \<open>parsePrimary\<close>: an integer out of range is clamped without an error.\<close>

definition primaryLiteral :: "floats \<Rightarrow> Token \<Rightarrow> val option" where
  "primaryLiteral pf t = (case t_kind t of tokString \<Rightarrow> Some (VStr (t_text t)) | tokInt \<Rightarrow> Some (VInt K_int64 (fst (ParseInt (t_text t))))
     | tokFloat \<Rightarrow> Some (VFloat (fst (pf (t_text t)))) | tokTrue \<Rightarrow> Some (VBool True) | tokFalse \<Rightarrow> Some (VBool False) | tokNull \<Rightarrow> Some VNil
     | _ \<Rightarrow> None)"

function parsePrimary :: "floats \<Rightarrow> parser \<Rightarrow> cerr + Expression \<times> parser"
  and parseArgs :: "floats \<Rightarrow> Expression list \<Rightarrow> parser \<Rightarrow> cerr + Expression list \<times> parser"
  and parseComparison :: "floats \<Rightarrow> parser \<Rightarrow> cerr + Expression \<times> parser"
  and parseNotExpr :: "floats \<Rightarrow> parser \<Rightarrow> cerr + Expression \<times> parser"
  and parseAndLoop :: "floats \<Rightarrow> Expression list \<Rightarrow> parser \<Rightarrow> cerr + Expression list \<times> parser"
  and parseAndExpr :: "floats \<Rightarrow> parser \<Rightarrow> cerr + Expression \<times> parser"
  and parseOrLoop :: "floats \<Rightarrow> Expression list \<Rightarrow> parser \<Rightarrow> cerr + Expression list \<times> parser"
  and parseOrExpr :: "floats \<Rightarrow> parser \<Rightarrow> cerr + Expression \<times> parser"
where
  "parsePrimary pf p =
     (if t_kind (cur p) = tokIdent \<or> t_kind (cur p) = tokType then
        if is_tok tokDot (adv p) then
          pbind (or_fail (expect tokIdent (adv (adv p))) (\<lambda>_. Syntax ''expected property name after .''))
            (\<lambda>propTok p2. Inr (ExprPropAccess (t_text (cur p)) (t_text propTok), p2))
        else if is_tok tokLParen (adv p) then
          pbind (if \<not> is_tok tokRParen (adv (adv p)) then pbind (parseOrExpr pf (adv (adv p))) (\<lambda>arg p3. parseArgs pf [arg] p3)
                 else Inr ([], adv (adv p))) (\<lambda>args p4.
          pbind (expect tokRParen p4) (\<lambda>_ p5. Inr (ExprFuncCall (t_text (cur p)) args, p5)))
        else Inr (ExprVarRef (t_text (cur p)), adv p)
      else if t_kind (cur p) = tokParam then Inr (ExprParam (t_text (cur p)), adv p)
      else case primaryLiteral pf (cur p) of
             Some v \<Rightarrow> Inr (ExprLiteral v, adv p)
           | None \<Rightarrow> Inl (UnexpectedToken (t_kind (cur p)) (t_pos (cur p))))"
| "parseArgs pf args p =
     (if is_tok tokComma p then pbind (parseOrExpr pf (adv p)) (\<lambda>arg p1. parseArgs pf (args @ [arg]) p1) else Inr (args, p))"
| "parseComparison pf p =
     pbind (parsePrimary pf p) (\<lambda>lhs p1. case compOp (t_kind (cur p1)) of
         None \<Rightarrow> Inr (lhs, p1)
       | Some op \<Rightarrow> pbind (parsePrimary pf (adv p1)) (\<lambda>rhs p2. Inr (ExprComparison lhs op rhs, p2)))"
| "parseNotExpr pf p =
     (if is_tok tokNot p then pbind (parseComparison pf (adv p)) (\<lambda>inner p1. Inr (ExprNot inner, p1)) else parseComparison pf p)"
| "parseAndLoop pf operands p =
     (if is_tok tokAnd p then pbind (parseNotExpr pf (adv p)) (\<lambda>rhs p1. parseAndLoop pf (operands @ [rhs]) p1) else Inr (operands, p))"
| "parseAndExpr pf p =
     pbind (parseNotExpr pf p) (\<lambda>lhs p1. if \<not> is_tok tokAnd p1 then Inr (lhs, p1)
       else pbind (parseAndLoop pf [lhs] p1) (\<lambda>operands p2. Inr (ExprAnd operands, p2)))"
| "parseOrLoop pf operands p =
     (if is_tok tokOr p then pbind (parseAndExpr pf (adv p)) (\<lambda>rhs p1. parseOrLoop pf (operands @ [rhs]) p1) else Inr (operands, p))"
| "parseOrExpr pf p =
     pbind (parseAndExpr pf p) (\<lambda>lhs p1. if \<not> is_tok tokOr p1 then Inr (lhs, p1)
       else pbind (parseOrLoop pf [lhs] p1) (\<lambda>operands p2. Inr (ExprOr operands, p2)))"
  by pat_completeness auto

text \<open>Every parser of an expression consumes at least one token; this holds wherever it returns, and so the recursion ends.\<close>

abbreviation expr_dom where "expr_dom \<equiv> parsePrimary_parseArgs_parseComparison_parseNotExpr_parseAndLoop_parseAndExpr_parseOrLoop_parseOrExpr_dom"

lemma is_tok_ahead: "is_tok k p \<Longrightarrow> k \<noteq> tokEOF \<Longrightarrow> ahead p (adv p)"
  by (rule ahead_adv) (simp add: is_tok_def)

lemma parse_ahead_dom:
  "expr_dom (Inl (Inl (Inl (pf, p)))) \<Longrightarrow> parsePrimary pf p = Inr (e, p') \<Longrightarrow> ahead p p'"
  "expr_dom (Inl (Inl (Inr (pf, es, p)))) \<Longrightarrow> parseArgs pf es p = Inr (es', p') \<Longrightarrow> ahead p p' \<or> p' = p"
  "expr_dom (Inl (Inr (Inl (pf, p)))) \<Longrightarrow> parseComparison pf p = Inr (e, p') \<Longrightarrow> ahead p p'"
  "expr_dom (Inl (Inr (Inr (pf, p)))) \<Longrightarrow> parseNotExpr pf p = Inr (e, p') \<Longrightarrow> ahead p p'"
  "expr_dom (Inr (Inl (Inl (pf, es, p)))) \<Longrightarrow> parseAndLoop pf es p = Inr (es', p') \<Longrightarrow> ahead p p' \<or> p' = p"
  "expr_dom (Inr (Inl (Inr (pf, p)))) \<Longrightarrow> parseAndExpr pf p = Inr (e, p') \<Longrightarrow> ahead p p'"
  "expr_dom (Inr (Inr (Inl (pf, es, p)))) \<Longrightarrow> parseOrLoop pf es p = Inr (es', p') \<Longrightarrow> ahead p p' \<or> p' = p"
  "expr_dom (Inr (Inr (Inr (pf, p)))) \<Longrightarrow> parseOrExpr pf p = Inr (e, p') \<Longrightarrow> ahead p p'"
proof (induction pf p and pf es p and pf p and pf p and pf es p and pf p and pf es p and pf p
    arbitrary: e p' and es' p' and e p' and e p' and es' p' and e p' and es' p' and e p' rule: parsePrimary_parseArgs_parseComparison_parseNotExpr_parseAndLoop_parseAndExpr_parseOrLoop_parseOrExpr.pinduct)
  case (1 pf p)
  note eq = parsePrimary.psimps [OF 1(1)]
  consider "t_kind (cur p) = tokIdent \<or> t_kind (cur p) = tokType" | "t_kind (cur p) \<noteq> tokIdent" "t_kind (cur p) \<noteq> tokType" by blast
  then show ?case
  proof cases
    case a: 1
    then have h: "ahead p (adv p)" by (intro ahead_adv) auto
    have h2: "t_kind (cur (adv p)) \<noteq> tokEOF \<Longrightarrow> ahead p (adv (adv p))" using h ahead_adv ahead_trans by blast
    show ?thesis
    proof (cases "is_tok tokDot (adv p)")
      case True
      then show ?thesis using 1(4) a h2 ahead_adv [of "adv (adv p)"]
        by (auto simp: eq pbind_Inr expect_Inr is_tok_def intro: ahead_trans)
    next
      case nd: False
      show ?thesis
      proof (cases "is_tok tokLParen (adv p)")
        case True
        then have "ahead p (adv (adv p))" using h2 by (simp add: is_tok_def)
        moreover obtain args p4 where r: "(if \<not> is_tok tokRParen (adv (adv p)) then pbind (parseOrExpr pf (adv (adv p))) (\<lambda>arg p3. parseArgs pf [arg] p3)
            else Inr ([], adv (adv p))) = Inr (args, p4)" "t_kind (cur p4) = tokRParen" "p' = adv p4"
          using 1(4) a nd True by (auto simp: eq pbind_Inr expect_Inr)
        moreover have "ahead (adv (adv p)) p4 \<or> p4 = adv (adv p)"
        proof (cases "is_tok tokRParen (adv (adv p))")
          case False
          then obtain arg p3 where "parseOrExpr pf (adv (adv p)) = Inr (arg, p3)" "parseArgs pf [arg] p3 = Inr (args, p4)"
            using r(1) by (auto simp: pbind_Inr)
          then have "ahead (adv (adv p)) p3" "ahead p3 p4 \<or> p4 = p3" using 1(2,3) [OF a nd True False] by blast+
          then show ?thesis using ahead_trans by blast
        qed (use r in simp)
        moreover have "ahead p4 (adv p4)" using r(2) by (intro ahead_adv) simp
        ultimately show ?thesis by (metis ahead_trans)
      next
        case False
        then show ?thesis using 1(4) a nd h by (simp add: eq)
      qed
    qed
  next
    case 2
    then show ?thesis using 1(4) ahead_adv [of p] by (auto simp: eq primaryLiteral_def split: if_splits option.splits TokenKind.splits)
  qed
next
  case (2 pf es p)
  then show ?case using is_tok_ahead [of tokComma p]
    by (fastforce simp: parseArgs.psimps pbind_Inr split: if_splits intro: ahead_trans)
next
  case (3 pf p)
  obtain l p1 where l: "parsePrimary pf p = Inr (l, p1)" using 3(1,4) by (auto simp: parseComparison.psimps pbind_Inr)
  then have a: "ahead p p1" using 3(2) by blast
  show ?case
  proof (cases "compOp (t_kind (cur p1))")
    case None
    then show ?thesis using 3(1,4) l a by (simp add: parseComparison.psimps)
  next
    case (Some op)
    then have "ahead p1 (adv p1)" by (intro ahead_adv) (auto simp: compOp_def)
    then show ?thesis using 3(1,4) 3(3) [OF l Some] l a Some by (auto simp: parseComparison.psimps pbind_Inr intro: ahead_trans)
  qed
next
  case (4 pf p)
  then show ?case using is_tok_ahead [of tokNot p] by (fastforce simp: parseNotExpr.psimps pbind_Inr split: if_splits intro: ahead_trans)
next
  case (5 pf es p)
  then show ?case using is_tok_ahead [of tokAnd p]
    by (fastforce simp: parseAndLoop.psimps pbind_Inr split: if_splits intro: ahead_trans)
next
  case (6 pf p)
  then show ?case by (fastforce simp: parseAndExpr.psimps pbind_Inr split: if_splits intro: ahead_trans)
next
  case (7 pf es p)
  then show ?case using is_tok_ahead [of tokOr p]
    by (fastforce simp: parseOrLoop.psimps pbind_Inr split: if_splits intro: ahead_trans)
next
  case (8 pf p)
  then show ?case by (fastforce simp: parseOrExpr.psimps pbind_Inr split: if_splits intro: ahead_trans)
qed

definition expr_rank :: "(((floats \<times> parser) + floats \<times> Expression list \<times> parser) + (floats \<times> parser) + (floats \<times> parser)) +
    ((floats \<times> Expression list \<times> parser) + (floats \<times> parser)) + (floats \<times> Expression list \<times> parser) + (floats \<times> parser) \<Rightarrow> nat" where
  "expr_rank = case_sum (case_sum (case_sum (\<lambda>(pf, p). 8 * left p) (\<lambda>(pf, es, p). 8 * left p)) (case_sum (\<lambda>(pf, p). 8 * left p + 1) (\<lambda>(pf, p). 8 * left p + 2)))
     (case_sum (case_sum (\<lambda>(pf, es, p). 8 * left p) (\<lambda>(pf, p). 8 * left p + 3)) (case_sum (\<lambda>(pf, es, p). 8 * left p) (\<lambda>(pf, p). 8 * left p + 4)))"

lemma left_adv:
  "is_tok tokComma p \<Longrightarrow> left (adv p) < left p" "is_tok tokNot p \<Longrightarrow> left (adv p) < left p" "is_tok tokAnd p \<Longrightarrow> left (adv p) < left p"
  "is_tok tokOr p \<Longrightarrow> left (adv p) < left p" "is_tok tokLParen p \<Longrightarrow> left (adv p) < left p" "compOp (t_kind (cur p)) = Some k \<Longrightarrow> left (adv p) < left p"
  "t_kind (cur p) = tokIdent \<or> t_kind (cur p) = tokType \<Longrightarrow> left (adv p) < left p"
  by (rule ahead_left, rule ahead_adv, auto simp: is_tok_def compOp_def)+

lemmas left_parsed = parse_ahead_dom(1,3,4,6,8) [THEN ahead_left]

lemma expr_total: "All expr_dom"
  by (rule "parsePrimary_parseArgs_parseComparison_parseNotExpr_parseAndLoop_parseAndExpr_parseOrLoop_parseOrExpr.termination" [OF wf_measure [of expr_rank]]) (auto simp: expr_rank_def dest!: left_adv left_parsed)

termination parsePrimary by (rule expr_total)


lemmas parse_ahead = parse_ahead_dom [OF spec [OF expr_total]]

declare parsePrimary.simps [simp del] parseArgs.simps [simp del] parseComparison.simps [simp del] parseNotExpr.simps [simp del]
  parseAndLoop.simps [simp del] parseAndExpr.simps [simp del] parseOrLoop.simps [simp del] parseOrExpr.simps [simp del]

definition parseExpr :: "floats \<Rightarrow> parser \<Rightarrow> cerr + Expression \<times> parser" where
  "parseExpr pf p = parseOrExpr pf p"

lemma parseExpr_ahead: "parseExpr pf p = Inr (e, p') \<Longrightarrow> ahead p p'"
  unfolding parseExpr_def by (rule parse_ahead(8))

section \<open>Patterns\<close>

definition skip_tok :: "TokenKind \<Rightarrow> parser \<Rightarrow> parser" where
  "skip_tok kind p = (if is_tok kind p then adv p else p)"

definition parseLiteral :: "floats \<Rightarrow> parser \<Rightarrow> cerr + pval \<times> parser" where
  "parseLiteral pf p = (let t = cur p; p1 = adv p in case t_kind t of
       tokParam \<Rightarrow> Inr (ParamRef (t_text t), p1)
     | tokString \<Rightarrow> Inr (PVal (VStr (t_text t)), p1)
     | tokInt \<Rightarrow> (let (n, err) = ParseInt (t_text t) in if err then Inl (InvalidNumber (t_text t)) else Inr (PVal (VInt K_int64 n), p1))
     | tokFloat \<Rightarrow> (let (f, err) = pf (t_text t) in if err then Inl (InvalidNumber (t_text t)) else Inr (PVal (VFloat f), p1))
     | tokTrue \<Rightarrow> Inr (PVal (VBool True), p1)
     | tokFalse \<Rightarrow> Inr (PVal (VBool False), p1)
     | tokNull \<Rightarrow> Inr (PVal VNil, p1)
     | _ \<Rightarrow> Inl (Expected tokNull (t_kind t) (t_pos t)))"

lemma expect_ahead: "expect k p = Inr (t, p') \<Longrightarrow> k \<noteq> tokEOF \<Longrightarrow> ahead p p'"
  using ahead_adv by (auto simp: expect_Inr)

lemma parseLiteral_ahead: "parseLiteral pf p = Inr (v, p') \<Longrightarrow> ahead p p'"
  using ahead_adv [of p] by (auto simp: parseLiteral_def Let_def split: TokenKind.splits if_splits prod.splits)

lemma skip_tok_left: "k \<noteq> tokEOF \<Longrightarrow> left (skip_tok k p) \<le> left p"
  using is_tok_ahead [of k p] by (auto simp: skip_tok_def ahead_def)

function parsePropMapLoop :: "floats \<Rightarrow> (string \<times> pval) list \<Rightarrow> parser \<Rightarrow> cerr + (string \<times> pval) list \<times> parser" where
  "parsePropMapLoop pf props p =
     (if \<not> is_tok tokRBrace p \<and> \<not> is_tok tokEOF p then
        pbind (or_fail (expect tokIdent p) (\<lambda>_. Expected tokIdent (t_kind (cur p)) 0)) (\<lambda>keyTok p1.
        pbind (expect tokColon p1) (\<lambda>_ p2.
        pbind (parseLiteral pf p2) (\<lambda>val p3. parsePropMapLoop pf (AList.update (t_text keyTok) val props) (skip_tok tokComma p3))))
      else Inr (props, p))"
  by pat_completeness auto
termination
proof (relation "measure (\<lambda>(pf, props, p). left p)")
  fix pf props p k p1 c p2 v p3
  assume "or_fail (expect tokIdent p) (\<lambda>_. Expected tokIdent (t_kind (cur p)) 0) = Inr (k, p1)" "expect tokColon p1 = Inr (c, p2)" "parseLiteral pf p2 = Inr (v, p3)"
  then have "ahead p p1" "ahead p1 p2" "ahead p2 p3" using expect_ahead parseLiteral_ahead by auto
  then show "((pf, AList.update (t_text k) v props, skip_tok tokComma p3), pf, props, p) \<in> measure (\<lambda>(pf, props, p). left p)"
    using skip_tok_left [of tokComma p3] by (auto simp: ahead_def)
qed simp

definition parsePropMap :: "floats \<Rightarrow> parser \<Rightarrow> cerr + (string \<times> pval) list \<times> parser" where
  "parsePropMap pf p = pbind (parsePropMapLoop pf [] p) (\<lambda>props p1. pbind (expect tokRBrace p1) (\<lambda>_ p2. Inr (props, p2)))"

function parseLabels :: "string list \<Rightarrow> parser \<Rightarrow> cerr + string list \<times> parser" where
  "parseLabels labels p =
     (if is_tok tokColon p then
        if \<not> is_tok tokIdent (adv p) then Inl (SyntaxAt ''expected label name after :'' (t_pos (cur (adv p))))
        else parseLabels (labels @ [t_text (cur (adv p))]) (adv (adv p))
      else Inr (labels, p))"
  by pat_completeness auto
termination
proof (relation "measure (\<lambda>(ls, p). left p)")
  fix ls :: "string list" and p
  assume "is_tok tokColon p" "\<not> \<not> is_tok tokIdent (adv p)"
  then have "ahead p (adv p)" "ahead (adv p) (adv (adv p))" using is_tok_ahead by blast+
  then show "((ls @ [t_text (cur (adv p))], adv (adv p)), ls, p) \<in> measure (\<lambda>(ls, p). left p)" by (simp add: ahead_def)
qed simp

declare parsePropMapLoop.simps [simp del] parseLabels.simps [simp del]

definition parseOptVar :: "parser \<Rightarrow> cerr + string \<times> parser" where
  "parseOptVar p = (if is_tok tokIdent p then Inr (t_text (cur p), adv p) else Inr ([], p))"

definition parseNodePattern :: "floats \<Rightarrow> parser \<Rightarrow> cerr + NodePattern \<times> parser" where
  "parseNodePattern pf p =
     pbind (expect tokLParen p) (\<lambda>_ p1.
     pbind (parseOptVar p1) (\<lambda>variable p2.
     pbind (parseLabels [] p2) (\<lambda>labels p3.
     pbind (if is_tok tokLBrace p3 then parsePropMap pf (adv p3) else Inr ([], p3)) (\<lambda>props p4.
     pbind (expect tokRParen p4) (\<lambda>_ p5.
       Inr (\<lparr>np_Variable = variable, np_Labels = labels, np_Props = props\<rparr>, p5))))))"

text \<open>The parts of a relationship pattern: the label, the hops \<open>*min..max\<close> and the closing direction.\<close>

definition parseRelLabel :: "parser \<Rightarrow> cerr + string \<times> parser" where
  "parseRelLabel p = (if is_tok tokColon p then
      pbind (or_fail (expect tokIdent (adv p)) (\<lambda>_. Syntax ''expected relationship label after :'')) (\<lambda>t p1. Inr (t_text t, p1))
    else Inr ([], p))"

definition parseMaxHops :: "int \<Rightarrow> int \<Rightarrow> parser \<Rightarrow> cerr + (bool \<times> int \<times> int) \<times> parser" where
  "parseMaxHops mn mx p = (if is_tok tokDotDot p then
      if is_tok tokInt (adv p) then Inr ((True, mn, Atoi (t_text (cur (adv p)))), adv (adv p)) else Inr ((True, mn, -1), adv p)
    else Inr ((True, mn, mx), p))"

definition parseHops :: "parser \<Rightarrow> cerr + (bool \<times> int \<times> int) \<times> parser" where
  "parseHops p = (if is_tok tokStar p then
      if is_tok tokInt (adv p) then parseMaxHops (Atoi (t_text (cur (adv p)))) (Atoi (t_text (cur (adv p)))) (adv (adv p))
      else parseMaxHops 1 (-1) (adv p)
    else Inr ((False, 1, 1), p))"

definition parseRelEnd :: "bool \<Rightarrow> parser \<Rightarrow> cerr + Direction \<times> parser" where
  "parseRelEnd leftArrow p = (if leftArrow then
      pbind (or_fail (expect tokDash p) (\<lambda>_. Syntax ''expected - to close the <-[...]- pattern'')) (\<lambda>_ p1. Inr (Incoming, p1))
    else if is_tok tokArrow p then Inr (Outgoing, adv p)
    else if is_tok tokDash p then Inr (Both, adv p)
    else Inl (SyntaxAt ''expected -> or - after relationship pattern'' (t_pos (cur p))))"

definition parseRelPattern :: "parser \<Rightarrow> cerr + RelPattern \<times> parser" where
  "parseRelPattern p =
     (if \<not> is_tok tokLArrow p \<and> \<not> is_tok tokDash p then Inl (SyntaxAt ''expected - or <-'' (t_pos (cur p)))
      else
        pbind (expect tokLBracket (adv p)) (\<lambda>_ p1.
        pbind (parseOptVar p1) (\<lambda>variable p2.
        pbind (parseRelLabel p2) (\<lambda>label p3.
        pbind (parseHops p3) (\<lambda>(varLength, minHops, maxHops) p4.
        pbind (expect tokRBracket p4) (\<lambda>_ p5.
        pbind (parseRelEnd (is_tok tokLArrow p) p5) (\<lambda>dir p6.
          Inr (\<lparr>rp_Variable = variable, rp_Label = label, rp_Dir = dir, rp_VarLength = varLength, rp_MinHops = minHops, rp_MaxHops = maxHops\<rparr>, p6))))))))"

lemma ahead_then: "ahead p q \<Longrightarrow> ahead q r \<or> r = q \<Longrightarrow> ahead p r"
  using ahead_trans by blast

lemma ahead_weak: "ahead p q \<or> q = p \<Longrightarrow> ahead q r \<Longrightarrow> ahead p r"
  using ahead_trans by blast

lemma parseLabels_ahead: "parseLabels ls p = Inr (ls', p') \<Longrightarrow> ahead p p' \<or> p' = p"
proof (induction ls p rule: parseLabels.induct)
  case (1 ls p)
  then show ?case using is_tok_ahead [of tokColon p] is_tok_ahead [of tokIdent "adv p"]
    by (subst (asm) (2) parseLabels.simps) (auto split: if_splits intro: ahead_trans)
qed

lemma parsePropMapLoop_ahead: "parsePropMapLoop pf props p = Inr (props', p') \<Longrightarrow> ahead p p' \<or> p' = p"
proof (induction pf props p rule: parsePropMapLoop.induct)
  case (1 pf props p)
  show ?case
  proof (cases "\<not> is_tok tokRBrace p \<and> \<not> is_tok tokEOF p")
    case True
    then obtain k p1 c p2 v p3 where r: "expect tokIdent p = Inr (k, p1)" "expect tokColon p1 = Inr (c, p2)" "parseLiteral pf p2 = Inr (v, p3)"
      "parsePropMapLoop pf (AList.update (t_text k) v props) (skip_tok tokComma p3) = Inr (props', p')"
      using 1(2) by (subst (asm) parsePropMapLoop.simps) (auto simp: pbind_Inr)
    have a: "ahead p p1" "ahead p1 p2" "ahead p2 p3" using r expect_ahead parseLiteral_ahead by auto
    have "ahead (skip_tok tokComma p3) p' \<or> p' = skip_tok tokComma p3"
      by (rule 1(1) [OF True]) (use r in simp_all)
    moreover have "ahead p3 (skip_tok tokComma p3) \<or> skip_tok tokComma p3 = p3"
      using is_tok_ahead [of tokComma p3] by (auto simp: skip_tok_def)
    ultimately show ?thesis using a by (metis ahead_trans)
  next
    case False
    then show ?thesis using 1(2) by (subst (asm) parsePropMapLoop.simps) auto
  qed
qed

lemma parsePropMap_ahead: "parsePropMap pf p = Inr (props, p') \<Longrightarrow> ahead p p'"
  using parsePropMapLoop_ahead expect_ahead by (fastforce simp: parsePropMap_def pbind_Inr intro: ahead_weak)

lemma parseOptVar_ahead: "parseOptVar p = Inr (v, p') \<Longrightarrow> ahead p p' \<or> p' = p"
  using is_tok_ahead [of tokIdent p] by (auto simp: parseOptVar_def split: if_splits)

lemma parseRel_parts_ahead:
  "parseRelLabel p = Inr (l, p') \<Longrightarrow> ahead p p' \<or> p' = p"
  "parseMaxHops mn mx p = Inr (h, p') \<Longrightarrow> ahead p p' \<or> p' = p"
  "parseRelEnd b p = Inr (d, p') \<Longrightarrow> ahead p p'"
proof -
  show "parseRelLabel p = Inr (l, p') \<Longrightarrow> ahead p p' \<or> p' = p"
    using is_tok_ahead [of tokColon p] ahead_adv [of "adv p"] by (auto simp: parseRelLabel_def pbind_Inr expect_Inr split: if_splits intro: ahead_trans)
  show "parseMaxHops mn mx p = Inr (h, p') \<Longrightarrow> ahead p p' \<or> p' = p"
    using is_tok_ahead [of tokDotDot p] is_tok_ahead [of tokInt "adv p"] by (auto simp: parseMaxHops_def split: if_splits intro: ahead_trans)
  show "parseRelEnd b p = Inr (d, p') \<Longrightarrow> ahead p p'"
    using is_tok_ahead [of tokArrow p] is_tok_ahead [of tokDash p] by (auto simp: parseRelEnd_def pbind_Inr expect_Inr is_tok_def split: if_splits)
qed

lemma parseHops_ahead:
  assumes "parseHops p = Inr (h, p')"
  shows "ahead p p' \<or> p' = p"
proof (cases "is_tok tokStar p")
  case s: True
  then have a: "ahead p (adv p)" by (rule is_tok_ahead) simp
  show ?thesis
  proof (cases "is_tok tokInt (adv p)")
    case True
    then have "ahead p (adv (adv p))" using ahead_trans [OF a is_tok_ahead] by simp
    then show ?thesis using assms s True parseRel_parts_ahead(2) ahead_then by (simp add: parseHops_def; blast)
  next
    case False
    then show ?thesis using assms s a parseRel_parts_ahead(2) ahead_then by (simp add: parseHops_def; blast)
  qed
qed (use assms in \<open>simp add: parseHops_def\<close>)

lemma parseNodePattern_ahead:
  assumes "parseNodePattern pf p = Inr (n, p')"
  shows "ahead p p'"
proof -
  obtain t p1 v p2 ls p3 props p4 t' where r: "expect tokLParen p = Inr (t, p1)" "parseOptVar p1 = Inr (v, p2)" "parseLabels [] p2 = Inr (ls, p3)"
    "(if is_tok tokLBrace p3 then parsePropMap pf (adv p3) else Inr ([], p3)) = Inr (props, p4)" "expect tokRParen p4 = Inr (t', p')"
    using assms by (auto simp: parseNodePattern_def pbind_Inr)
  have b: "ahead p3 p4 \<or> p4 = p3"
    using r(4) is_tok_ahead [of tokLBrace p3] parsePropMap_ahead by (fastforce split: if_splits intro: ahead_trans)
  have a: "ahead p p1" "ahead p4 p'" using r expect_ahead by auto
  show ?thesis by (rule ahead_trans [OF ahead_then [OF ahead_then [OF ahead_then [OF a(1) parseOptVar_ahead [OF r(2)]] parseLabels_ahead [OF r(3)]] b] a(2)])
qed

lemma parseRelPattern_ahead:
  assumes "parseRelPattern p = Inr (r, p')"
  shows "ahead p p'"
proof -
  have a: "ahead p (adv p)" using assms is_tok_ahead by (auto simp: parseRelPattern_def split: if_splits)
  obtain t p1 v p2 lb p3 h p4 t' p5 b d where r: "expect tokLBracket (adv p) = Inr (t, p1)" "parseOptVar p1 = Inr (v, p2)"
    "parseRelLabel p2 = Inr (lb, p3)" "parseHops p3 = Inr (h, p4)" "expect tokRBracket p4 = Inr (t', p5)" "parseRelEnd b p5 = Inr (d, p')"
    using assms by (auto simp: parseRelPattern_def pbind_Inr split: if_splits)
  have e: "ahead (adv p) p1" "ahead p4 p5" using r expect_ahead by auto
  show ?thesis
    by (rule ahead_trans [OF ahead_trans [OF ahead_then [OF ahead_then [OF ahead_then [OF ahead_trans [OF a e(1)] parseOptVar_ahead [OF r(2)]]
      parseRel_parts_ahead(1) [OF r(3)]] parseHops_ahead [OF r(4)]] e(2)] parseRel_parts_ahead(3) [OF r(6)]])
qed


text \<open>\<open>parsePattern\<close> and \<open>parseCreatePattern\<close> are the same code over two types of the same shape.\<close>

function parsePatternLoop :: "floats \<Rightarrow> Pattern \<Rightarrow> parser \<Rightarrow> cerr + Pattern \<times> parser" where
  "parsePatternLoop pf pat p =
     (if is_tok tokDash p \<or> is_tok tokLArrow p then
        pbind (parseRelPattern p) (\<lambda>rel p1.
        pbind (parseNodePattern pf p1) (\<lambda>node p2.
          parsePatternLoop pf (pat\<lparr>pt_Rels := pt_Rels pat @ [rel], pt_Nodes := pt_Nodes pat @ [node]\<rparr>) p2))
      else Inr (pat, p))"
  by pat_completeness auto
termination
  by (relation "measure (\<lambda>(pf, pat, p). left p)") (auto dest!: parseRelPattern_ahead parseNodePattern_ahead simp: ahead_def)

declare parsePatternLoop.simps [simp del]

definition parsePattern :: "floats \<Rightarrow> parser \<Rightarrow> cerr + Pattern \<times> parser" where
  "parsePattern pf p = pbind (parseNodePattern pf p) (\<lambda>node p1. parsePatternLoop pf \<lparr>pt_Nodes = [node], pt_Rels = []\<rparr> p1)"

definition parseCreatePattern :: "floats \<Rightarrow> parser \<Rightarrow> cerr + Pattern \<times> parser" where
  "parseCreatePattern pf p = pbind (parseNodePattern pf p) (\<lambda>node p1. parsePatternLoop pf \<lparr>pt_Nodes = [node], pt_Rels = []\<rparr> p1)"

lemma parsePatternLoop_ahead: "parsePatternLoop pf pat p = Inr (pat', p') \<Longrightarrow> ahead p p' \<or> p' = p"
proof (induction pf pat p rule: parsePatternLoop.induct)
  case (1 pf pat p)
  show ?case
  proof (cases "is_tok tokDash p \<or> is_tok tokLArrow p")
    case True
    then obtain r p1 n p2 where r: "parseRelPattern p = Inr (r, p1)" "parseNodePattern pf p1 = Inr (n, p2)"
      "parsePatternLoop pf (pat\<lparr>pt_Rels := pt_Rels pat @ [r], pt_Nodes := pt_Nodes pat @ [n]\<rparr>) p2 = Inr (pat', p')"
      using 1(2) by (subst (asm) parsePatternLoop.simps) (auto simp: pbind_Inr)
    show ?thesis
      using ahead_then [OF ahead_trans [OF parseRelPattern_ahead [OF r(1)] parseNodePattern_ahead [OF r(2)]] 1(1) [OF True r]] ..
  next
    case False
    then show ?thesis using 1(2) by (subst (asm) parsePatternLoop.simps) auto
  qed
qed

lemma parsePattern_ahead: "parsePattern pf p = Inr (pat, p') \<Longrightarrow> ahead p p'"
  using parseNodePattern_ahead parsePatternLoop_ahead ahead_then by (fastforce simp: parsePattern_def pbind_Inr)

section \<open>Clauses\<close>

definition parseReturnItem :: "floats \<Rightarrow> parser \<Rightarrow> cerr + ReturnItem \<times> parser" where
  "parseReturnItem pf p =
     pbind (parseExpr pf p) (\<lambda>expr p1.
       if is_tok tokAs p1 then
         pbind (or_fail (expect tokIdent (adv p1)) (\<lambda>_. Syntax ''expected alias after AS'')) (\<lambda>aliasTok p2.
           Inr (\<lparr>ri_Expr = expr, ri_Alias = t_text aliasTok\<rparr>, p2))
       else Inr (\<lparr>ri_Expr = expr, ri_Alias = []\<rparr>, p1))"

definition parseOrderItem :: "floats \<Rightarrow> parser \<Rightarrow> cerr + OrderItem \<times> parser" where
  "parseOrderItem pf p =
     pbind (parseExpr pf p) (\<lambda>expr p1.
       if is_tok tokDesc p1 then Inr (\<lparr>oi_Expr = expr, oi_Desc = True\<rparr>, adv p1)
       else if is_tok tokAsc p1 then Inr (\<lparr>oi_Expr = expr, oi_Desc = False\<rparr>, adv p1)
       else Inr (\<lparr>oi_Expr = expr, oi_Desc = False\<rparr>, p1))"

definition parseSetItem :: "floats \<Rightarrow> parser \<Rightarrow> cerr + SetItem \<times> parser" where
  "parseSetItem pf p =
     pbind (or_fail (expect tokIdent p) (\<lambda>_. Expected tokIdent (t_kind (cur p)) (t_pos (cur p)))) (\<lambda>varTok p1.
     pbind (or_fail (expect tokDot p1) (\<lambda>_. SyntaxAt ''SET expects variable.property'' (t_pos (cur p1)))) (\<lambda>_ p2.
     pbind (or_fail (expect tokIdent p2) (\<lambda>_. Expected tokIdent (t_kind (cur p2)) (t_pos (cur p2)))) (\<lambda>propTok p3.
     pbind (or_fail (expect tokEq p3) (\<lambda>_. SyntaxAt (''SET expects = after '' @ t_text varTok @ ''.'' @ t_text propTok) (t_pos (cur p3)))) (\<lambda>_ p4.
     pbind (or_fail (parsePrimary pf p4) (Wrapped ''SET value'')) (\<lambda>val p5.
       Inr (\<lparr>si_Variable = t_text varTok, si_Property = t_text propTok, si_Value = val\<rparr>, p5))))))"

definition parseDeleteItem :: "parser \<Rightarrow> cerr + string \<times> parser" where
  "parseDeleteItem p =
     pbind (or_fail (expect tokIdent p) (\<lambda>_. Expected tokIdent (t_kind (cur p)) (t_pos (cur p)))) (\<lambda>tok p1. Inr (t_text tok, p1))"


text \<open>
  The loop \<open>for { item; if !p.match(tokComma) { break } }\<close> of the clauses, for any parser of an item. The inner test
  makes the function total for every \<open>item\<close>; for an item parser that consumes a token it always holds (\<open>commaList_unfold\<close>).
\<close>

function commaList :: "(parser \<Rightarrow> cerr + 'a \<times> parser) \<Rightarrow> 'a list \<Rightarrow> parser \<Rightarrow> cerr + 'a list \<times> parser" where
  "commaList item items p =
     pbind (item p) (\<lambda>x p1.
       if is_tok tokComma p1 then
         if left (adv p1) < left p then commaList item (items @ [x]) (adv p1) else Inl (Syntax ''no progress'')
       else Inr (items @ [x], p1))"
  by pat_completeness auto
termination by (relation "measure (\<lambda>(item, items, p). left p)") auto

declare commaList.simps [simp del]

definition progresses :: "(parser \<Rightarrow> cerr + 'a \<times> parser) \<Rightarrow> bool" where
  "progresses item \<longleftrightarrow> (\<forall>p x p'. item p = Inr (x, p') \<longrightarrow> ahead p p')"

lemma commaList_unfold:
  assumes "progresses item"
  shows "commaList item items p = pbind (item p) (\<lambda>x p1. if is_tok tokComma p1 then commaList item (items @ [x]) (adv p1) else Inr (items @ [x], p1))"
proof -
  have "left (adv p1) < left p" if "item p = Inr (x, p1)" "is_tok tokComma p1" for x p1
    using that assms is_tok_ahead [of tokComma p1] unfolding progresses_def ahead_def by fastforce
  then show ?thesis by (subst commaList.simps) (rule pbind_cong, auto)
qed

lemma commaList_ahead:
  "commaList item items p = Inr (xs, p') \<Longrightarrow> progresses item \<Longrightarrow> ahead p p'"
proof (induction item items p rule: commaList.induct)
  case (1 item items p)
  obtain x p1 where i: "item p = Inr (x, p1)" using 1(2) by (subst (asm) commaList.simps) (auto simp: pbind_Inr)
  then have a: "ahead p p1" using 1(3) by (simp add: progresses_def)
  show ?case
  proof (cases "is_tok tokComma p1")
    case True
    then have "ahead p (adv p1)" using ahead_trans [OF a is_tok_ahead] by simp
    moreover have "ahead (adv p1) p'"
      by (rule 1(1) [OF i True]) (use calculation 1(2,3) i True in \<open>auto simp: commaList.simps [of item items p] ahead_def\<close>)
    ultimately show ?thesis by (rule ahead_trans)
  next
    case False
    then show ?thesis using 1(2) i a by (simp add: commaList.simps [of item items p])
  qed
qed

lemma expr_then_ahead: "parseExpr pf p = Inr (e, p1) \<Longrightarrow> is_tok k p1 \<Longrightarrow> k \<noteq> tokEOF \<Longrightarrow> ahead p (adv p1)"
  using parseExpr_ahead is_tok_ahead ahead_trans by blast

lemma progresses_items:
  "progresses (parseReturnItem pf)" "progresses (parseOrderItem pf)" "progresses (parseSetItem pf)" "progresses parseDeleteItem"
  "progresses (parseCreatePattern pf)"
proof -
  show "progresses (parseReturnItem pf)" unfolding progresses_def
  proof (intro allI impI)
    fix p i p' assume i: "parseReturnItem pf p = Inr (i, p')"
    then obtain e p1 where e: "parseExpr pf p = Inr (e, p1)" "p' = p1 \<or> (is_tok tokAs p1 \<and> p' = adv (adv p1) \<and> t_kind (cur (adv p1)) = tokIdent)"
      by (auto simp: parseReturnItem_def pbind_Inr expect_Inr split: if_splits)
    then show "ahead p p'" using parseExpr_ahead [OF e(1)] expr_then_ahead [OF e(1), of tokAs] ahead_adv [of "adv p1"] ahead_trans by auto
  qed
  show "progresses (parseOrderItem pf)" unfolding progresses_def
  proof (intro allI impI)
    fix p i p' assume i: "parseOrderItem pf p = Inr (i, p')"
    then obtain e p1 where e: "parseExpr pf p = Inr (e, p1)" "p' = p1 \<or> (p' = adv p1 \<and> (is_tok tokDesc p1 \<or> is_tok tokAsc p1))"
      by (auto simp: parseOrderItem_def pbind_Inr split: if_splits)
    then show "ahead p p'" using parseExpr_ahead [OF e(1)] expr_then_ahead [OF e(1), of tokDesc] expr_then_ahead [OF e(1), of tokAsc] by auto
  qed
  show "progresses (parseSetItem pf)" unfolding progresses_def
  proof (intro allI impI)
    fix p i p' assume i: "parseSetItem pf p = Inr (i, p')"
    then obtain t1 p1 t2 p2 t3 p3 t4 p4 v where r: "expect tokIdent p = Inr (t1, p1)" "expect tokDot p1 = Inr (t2, p2)" "expect tokIdent p2 = Inr (t3, p3)"
      "expect tokEq p3 = Inr (t4, p4)" "parsePrimary pf p4 = Inr (v, p')"
      by (auto simp: parseSetItem_def pbind_Inr)
    have a: "ahead p p1" "ahead p1 p2" "ahead p2 p3" "ahead p3 p4" using r expect_ahead by simp_all
    show "ahead p p'" by (rule ahead_trans [OF a(1) ahead_trans [OF a(2) ahead_trans [OF a(3) ahead_trans [OF a(4) parse_ahead(1) [OF r(5)]]]]])
  qed
  show "progresses parseDeleteItem" unfolding progresses_def using expect_ahead [of tokIdent]
    by (auto simp: parseDeleteItem_def pbind_Inr)
  show "progresses (parseCreatePattern pf)" unfolding progresses_def using parsePattern_ahead [of pf]
    by (simp add: parseCreatePattern_def parsePattern_def)
qed

section \<open>Queries\<close>

definition parseReturnClause :: "floats \<Rightarrow> parser \<Rightarrow> cerr + ReturnClause \<times> parser" where
  "parseReturnClause pf p = pbind (expect tokReturn p) (\<lambda>_ p1. commaList (parseReturnItem pf) [] p1)"

definition parseOrderItems :: "floats \<Rightarrow> parser \<Rightarrow> cerr + OrderItem list \<times> parser" where
  "parseOrderItems pf p = commaList (parseOrderItem pf) [] p"

definition parseSetItems :: "floats \<Rightarrow> parser \<Rightarrow> cerr + SetItem list \<times> parser" where
  "parseSetItems pf p = commaList (parseSetItem pf) [] p"

definition parseSetClause :: "floats \<Rightarrow> parser \<Rightarrow> cerr + SetItem list \<times> parser" where
  "parseSetClause pf p = pbind (expect tokSet p) (\<lambda>_ p1. parseSetItems pf p1)"

definition parseDeleteClause :: "parser \<Rightarrow> cerr + string list \<times> parser" where
  "parseDeleteClause p = pbind (expect tokDelete p) (\<lambda>_ p1. commaList parseDeleteItem [] p1)"

text \<open>An optional part introduced by a keyword: the part is parsed after the keyword, and absent otherwise.\<close>

definition optional :: "TokenKind \<Rightarrow> (parser \<Rightarrow> cerr + 'a \<times> parser) \<Rightarrow> 'a \<Rightarrow> parser \<Rightarrow> cerr + 'a \<times> parser" where
  "optional kind f dflt p = (if is_tok kind p then f (adv p) else Inr (dflt, p))"

definition pmap :: "('a \<Rightarrow> 'c) \<Rightarrow> cerr + 'a \<times> parser \<Rightarrow> cerr + 'c \<times> parser" where
  "pmap f m = pbind m (\<lambda>x p. Inr (f x, p))"

definition parseWhere :: "floats \<Rightarrow> parser \<Rightarrow> cerr + Expression option \<times> parser" where
  "parseWhere pf = optional tokWhere (\<lambda>p. pmap Some (parseExpr pf p)) None"

definition parseOptionalMatch :: "floats \<Rightarrow> parser \<Rightarrow> cerr + (Pattern option \<times> Expression option) \<times> parser" where
  "parseOptionalMatch pf = optional tokOptional (\<lambda>p.
     pbind (or_fail (expect tokMatch p) (\<lambda>_. Syntax ''expected MATCH after OPTIONAL'')) (\<lambda>_ p1.
     pbind (parsePattern pf p1) (\<lambda>optPat p2.
     pbind (parseWhere pf p2) (\<lambda>w p3. Inr ((Some optPat, w), p3))))) (None, None)"

definition parseOrderBy :: "floats \<Rightarrow> parser \<Rightarrow> cerr + OrderItem list \<times> parser" where
  "parseOrderBy pf = optional tokOrder (\<lambda>p. pbind (expect tokBy p) (\<lambda>_ p1. parseOrderItems pf p1)) []"

definition parseCount :: "TokenKind \<Rightarrow> string \<Rightarrow> parser \<Rightarrow> cerr + int \<times> parser" where
  "parseCount kind name = optional kind (\<lambda>p.
     pbind (or_fail (expect tokInt p) (\<lambda>_. Syntax (name @ '' requires an integer''))) (\<lambda>tok p1. Inr (Atoi (t_text tok), p1))) 0"

definition parseExplain :: "parser \<Rightarrow> ExplainMode \<times> parser" where
  "parseExplain p = (if is_tok tokExplain p then (ExplainOnly, adv p) else if is_tok tokProfile p then (ExplainProfile, adv p) else (ExplainNone, p))"

definition atEOF :: "'a \<Rightarrow> parser \<Rightarrow> cerr + 'a" where
  "atEOF x p = (if is_tok tokEOF p then Inr x else Inl (UnexpectedToken (t_kind (cur p)) (t_pos (cur p))))"

definition parseQuery :: "floats \<Rightarrow> parser \<Rightarrow> cerr + CypherQuery" where
  "parseQuery pf p =
     (let (explain, p0) = parseExplain p in
      pbind (expect tokMatch p0) (\<lambda>_ p1.
      pbind (parsePattern pf p1) (\<lambda>pat p2.
      pbind (parseWhere pf p2) (\<lambda>whr p3.
      pbind (parseOptionalMatch pf p3) (\<lambda>(optPat, optWhere) p4.
      pbind (if is_tok tokSet p4 then parseSetClause pf p4 else Inr ([], p4)) (\<lambda>sets p5.
      pbind (if is_tok tokDelete p5 then parseDeleteClause p5 else Inr ([], p5)) (\<lambda>dels p6.
      pbind (parseReturnClause pf p6) (\<lambda>ret p7.
      pbind (parseOrderBy pf p7) (\<lambda>order p8.
      pbind (parseCount tokSkip ''SKIP'' p8) (\<lambda>skip p9.
      pbind (parseCount tokLimit ''LIMIT'' p9) (\<lambda>limit p10.
        atEOF \<lparr>q_Explain = explain, q_Match = pat, q_Where = whr, q_OptionalMatch = optPat, q_OptionalWhere = optWhere, q_Set = sets, q_Delete = dels,
               q_Return = ret, q_OrderBy = order, q_Skip = skip, q_Limit = limit\<rparr> p10)))))))))))"

definition parseOptReturn :: "floats \<Rightarrow> parser \<Rightarrow> cerr + ReturnClause option \<times> parser" where
  "parseOptReturn pf p = (if is_tok tokReturn p then pmap Some (parseReturnClause pf p) else Inr (None, p))"

definition parseCreateQuery :: "floats \<Rightarrow> parser \<Rightarrow> cerr + CypherWrite" where
  "parseCreateQuery pf p =
     pbind (expect tokCreate p) (\<lambda>_ p1.
     pbind (commaList (parseCreatePattern pf) [] p1) (\<lambda>pats p2.
     pbind (parseOptReturn pf p2) (\<lambda>ret p3. atEOF \<lparr>w_Creates = pats, w_Return = ret\<rparr> p3)))"


lemma parseSetItems_ahead: "parseSetItems pf p = Inr (xs, p') \<Longrightarrow> ahead p p'"
  using commaList_ahead [OF _ progresses_items(3)] by (simp add: parseSetItems_def)

text \<open>The clauses \<open>ON CREATE SET\<close> and \<open>ON MATCH SET\<close>, in any order; the last of a kind wins.\<close>

definition parseOn :: "floats \<Rightarrow> CypherMerge \<Rightarrow> parser \<Rightarrow> cerr + CypherMerge \<times> parser" where
  "parseOn pf m p = (let tok = cur p in case t_kind tok of
       tokCreate \<Rightarrow>
         pbind (or_fail (expect tokSet (adv p)) (\<lambda>_. SyntaxAt ''expected SET after ON CREATE'' (t_pos tok))) (\<lambda>_ p1.
         pbind (parseSetItems pf p1) (\<lambda>items p2. Inr (m\<lparr>m_OnCreateSet := items\<rparr>, p2)))
     | tokMatch \<Rightarrow>
         pbind (or_fail (expect tokSet (adv p)) (\<lambda>_. SyntaxAt ''expected SET after ON MATCH'' (t_pos tok))) (\<lambda>_ p1.
         pbind (parseSetItems pf p1) (\<lambda>items p2. Inr (m\<lparr>m_OnMatchSet := items\<rparr>, p2)))
     | _ \<Rightarrow> Inl (UnexpectedToken (t_kind tok) (t_pos tok)))"

lemma parseOn_ahead:
  assumes "parseOn pf m p = Inr (m', p')"
  shows "ahead p p'"
proof -
  obtain t p1 items where r: "expect tokSet (adv p) = Inr (t, p1)" "parseSetItems pf p1 = Inr (items, p')" "t_kind (cur p) \<in> {tokCreate, tokMatch}"
    using assms by (auto simp: parseOn_def Let_def pbind_Inr split: TokenKind.splits)
  then have "ahead p (adv p)" "ahead (adv p) p1" using ahead_adv expect_ahead by auto
  then show ?thesis using parseSetItems_ahead [OF r(2)] ahead_trans by blast
qed

function parseOnLoop :: "floats \<Rightarrow> CypherMerge \<Rightarrow> parser \<Rightarrow> cerr + CypherMerge \<times> parser" where
  "parseOnLoop pf m p = (if is_tok tokOn p then pbind (parseOn pf m (adv p)) (\<lambda>m1 p1. parseOnLoop pf m1 p1) else Inr (m, p))"
  by pat_completeness auto
termination
  by (relation "measure (\<lambda>(pf, m, p). left p)") (auto dest!: parseOn_ahead is_tok_ahead simp: ahead_def)

declare parseOnLoop.simps [simp del]

definition parseMergeQuery :: "floats \<Rightarrow> parser \<Rightarrow> cerr + CypherMerge" where
  "parseMergeQuery pf p =
     pbind (expect tokMerge p) (\<lambda>_ p1.
     pbind (or_fail (parseNodePattern pf p1) (Wrapped ''MERGE requires a node pattern'')) (\<lambda>node p2.
       if np_Labels node = [] then Inl (SyntaxAt ''MERGE node must have at least one label'' (t_pos (cur p2)))
       else pbind (parseOnLoop pf \<lparr>m_Pattern = \<lparr>mp_Variable = np_Variable node, mp_Labels = np_Labels node, mp_Props = np_Props node\<rparr>,
                     m_OnCreateSet = [], m_OnMatchSet = [], m_Return = None\<rparr> p2) (\<lambda>m p3.
            pbind (parseOptReturn pf p3) (\<lambda>ret p4. atEOF (m\<lparr>m_Return := ret\<rparr>) p4))))"

definition parseCypher :: "floats \<Rightarrow> string \<Rightarrow> cerr + parsedCypher" where
  "parseCypher pf input = (case tokenize input of Inl e \<Rightarrow> Inl e
     | Inr tokens \<Rightarrow>
         let p = \<lparr>ps_tokens = tokens, ps_pos = 0\<rparr>
         in if is_tok tokCreate p then map_sum id CWrite (parseCreateQuery pf p)
            else if is_tok tokMerge p then map_sum id CMerge (parseMergeQuery pf p)
            else map_sum id CRead (parseQuery pf p))"

end
