(* ===== verification/Grammar.thy ===== *)
theory Grammar
  imports Parser
begin

text \<open>
  Printing of syntax trees and the round trip through the parser: a well-formed syntax tree is printed as tokens, and the
  parser returns exactly that tree. Conversely every tree the parser returns is well-formed.
\<close>

section \<open>Well-formed trees\<close>

type_synonym toks = "(TokenKind \<times> string) list"

abbreviation ident_ok :: "string \<Rightarrow> bool" where "ident_ok s \<equiv> token_ok (tokIdent, s)"
abbreviation name_ok :: "string \<Rightarrow> bool" where "name_ok s \<equiv> token_ok (tokIdent, s) \<or> token_ok (tokType, s)"
abbreviation opt_ident_ok :: "string \<Rightarrow> bool" where "opt_ident_ok s \<equiv> s = [] \<or> ident_ok s"

definition count_ok :: "int \<Rightarrow> bool" where "count_ok n \<longleftrightarrow> 0 \<le> n \<and> n \<le> MaxInt64"

text \<open>The literals of a query; the predicate on the bits of a float is a parameter.\<close>

fun lit_ok :: "(u64 \<Rightarrow> bool) \<Rightarrow> val \<Rightarrow> bool" where
  "lit_ok F (VStr s) = True"
| "lit_ok F (VInt k n) = (k = K_int64 \<and> count_ok n)"
| "lit_ok F (VFloat w) = F w"
| "lit_ok F (VBool b) = True"
| "lit_ok F VNil = True"
| "lit_ok F _ = False"

text \<open>The levels of the expression grammar: 0 primary, 1 comparison, 2 negation, 3 conjunction, 4 disjunction.\<close>

fun expr_ok :: "(u64 \<Rightarrow> bool) \<Rightarrow> nat \<Rightarrow> Expression \<Rightarrow> bool" where
  "expr_ok F l (ExprLiteral v) = lit_ok F v"
| "expr_ok F l (ExprVarRef s) = name_ok s"
| "expr_ok F l (ExprPropAccess x p) = (name_ok x \<and> ident_ok p)"
| "expr_ok F l (ExprFuncCall f args) = (name_ok f \<and> (\<forall>a \<in> set args. expr_ok F 4 a))"
| "expr_ok F l (ExprComparison a op b) = (1 \<le> l \<and> expr_ok F 0 a \<and> expr_ok F 0 b)"
| "expr_ok F l (ExprNot a) = (2 \<le> l \<and> expr_ok F 1 a)"
| "expr_ok F l (ExprAnd es) = (3 \<le> l \<and> 2 \<le> length es \<and> (\<forall>a \<in> set es. expr_ok F 2 a))"
| "expr_ok F l (ExprOr es) = (4 \<le> l \<and> 2 \<le> length es \<and> (\<forall>a \<in> set es. expr_ok F 3 a))"
| "expr_ok F l (ExprParam s) = list_all isIdentPart s"

fun pval_ok :: "(u64 \<Rightarrow> bool) \<Rightarrow> pval \<Rightarrow> bool" where
  "pval_ok F (PVal v) = lit_ok F v"
| "pval_ok F (ParamRef s) = list_all isIdentPart s"

definition props_ok :: "(u64 \<Rightarrow> bool) \<Rightarrow> (string \<times> pval) list \<Rightarrow> bool" where
  "props_ok F ps \<longleftrightarrow> distinct (map fst ps) \<and> (\<forall>(k, v) \<in> set ps. ident_ok k \<and> pval_ok F v)"

definition node_ok :: "(u64 \<Rightarrow> bool) \<Rightarrow> NodePattern \<Rightarrow> bool" where
  "node_ok F n \<longleftrightarrow> opt_ident_ok (np_Variable n) \<and> list_all ident_ok (np_Labels n) \<and> props_ok F (np_Props n)"

definition rel_ok :: "RelPattern \<Rightarrow> bool" where
  "rel_ok r \<longleftrightarrow> opt_ident_ok (rp_Variable r) \<and> opt_ident_ok (rp_Label r) \<and>
     (if rp_VarLength r then count_ok (rp_MinHops r) \<and> (rp_MaxHops r = -1 \<or> count_ok (rp_MaxHops r)) else rp_MinHops r = 1 \<and> rp_MaxHops r = 1)"

definition pattern_ok :: "(u64 \<Rightarrow> bool) \<Rightarrow> Pattern \<Rightarrow> bool" where
  "pattern_ok F pt \<longleftrightarrow> length (pt_Nodes pt) = length (pt_Rels pt) + 1 \<and> list_all (node_ok F) (pt_Nodes pt) \<and> list_all rel_ok (pt_Rels pt)"

definition return_ok :: "(u64 \<Rightarrow> bool) \<Rightarrow> ReturnClause \<Rightarrow> bool" where
  "return_ok F rs \<longleftrightarrow> rs \<noteq> [] \<and> (\<forall>r \<in> set rs. expr_ok F 4 (ri_Expr r) \<and> opt_ident_ok (ri_Alias r))"

definition set_ok :: "(u64 \<Rightarrow> bool) \<Rightarrow> SetItem list \<Rightarrow> bool" where
  "set_ok F ss \<longleftrightarrow> (\<forall>s \<in> set ss. ident_ok (si_Variable s) \<and> ident_ok (si_Property s) \<and> expr_ok F 0 (si_Value s))"

definition query_ok :: "(u64 \<Rightarrow> bool) \<Rightarrow> CypherQuery \<Rightarrow> bool" where
  "query_ok F q \<longleftrightarrow> pattern_ok F (q_Match q) \<and> pred_option (expr_ok F 4) (q_Where q) \<and> pred_option (pattern_ok F) (q_OptionalMatch q) \<and>
     pred_option (expr_ok F 4) (q_OptionalWhere q) \<and> (q_OptionalMatch q = None \<longrightarrow> q_OptionalWhere q = None) \<and>
     set_ok F (q_Set q) \<and> list_all ident_ok (q_Delete q) \<and> return_ok F (q_Return q) \<and>
     (\<forall>i \<in> set (q_OrderBy q). expr_ok F 4 (oi_Expr i)) \<and> count_ok (q_Skip q) \<and> count_ok (q_Limit q)"

definition write_ok :: "(u64 \<Rightarrow> bool) \<Rightarrow> CypherWrite \<Rightarrow> bool" where
  "write_ok F w \<longleftrightarrow> w_Creates w \<noteq> [] \<and> list_all (pattern_ok F) (w_Creates w) \<and> pred_option (return_ok F) (w_Return w)"

definition merge_ok :: "(u64 \<Rightarrow> bool) \<Rightarrow> CypherMerge \<Rightarrow> bool" where
  "merge_ok F m \<longleftrightarrow> opt_ident_ok (mp_Variable (m_Pattern m)) \<and> mp_Labels (m_Pattern m) \<noteq> [] \<and> list_all ident_ok (mp_Labels (m_Pattern m)) \<and>
     props_ok F (mp_Props (m_Pattern m)) \<and> set_ok F (m_OnCreateSet m) \<and> set_ok F (m_OnMatchSet m) \<and> pred_option (return_ok F) (m_Return m)"

fun cypher_ok :: "(u64 \<Rightarrow> bool) \<Rightarrow> parsedCypher \<Rightarrow> bool" where
  "cypher_ok F (CRead q) = query_ok F q"
| "cypher_ok F (CWrite w) = write_ok F w"
| "cypher_ok F (CMerge m) = merge_ok F m"

section \<open>Printing\<close>

fun sep :: "'a list \<Rightarrow> 'a list list \<Rightarrow> 'a list" where
  "sep c [] = []"
| "sep c [x] = x"
| "sep c (x # y # xs) = x @ c @ sep c (y # xs)"

definition nameTok :: "string \<Rightarrow> TokenKind \<times> string" where
  "nameTok s = (if map_of keywordTable (toUpper s) = Some tokType then tokType else tokIdent, s)"

fun showLit :: "(u64 \<Rightarrow> string) \<Rightarrow> val \<Rightarrow> toks" where
  "showLit ff (VStr s) = [(tokString, s)]"
| "showLit ff (VInt k n) = [(tokInt, utoa (nat n))]"
| "showLit ff (VFloat w) = [(tokFloat, ff w)]"
| "showLit ff (VBool b) = [if b then (tokTrue, ''TRUE'') else (tokFalse, ''FALSE'')]"
| "showLit ff _ = [(tokNull, ''NULL'')]"

definition opTok :: "CompOp \<Rightarrow> TokenKind \<times> string" where
  "opTok op = (case op of OpEq \<Rightarrow> (tokEq, ''='') | OpNeq \<Rightarrow> (tokNeq, ''<>'') | OpLt \<Rightarrow> (tokLt, ''<'') | OpGt \<Rightarrow> (tokGt, ''>'')
     | OpLte \<Rightarrow> (tokLte, ''<='') | OpGte \<Rightarrow> (tokGte, ''>=''))"

fun showExpr :: "(u64 \<Rightarrow> string) \<Rightarrow> Expression \<Rightarrow> toks" where
  "showExpr ff (ExprLiteral v) = showLit ff v"
| "showExpr ff (ExprVarRef s) = [nameTok s]"
| "showExpr ff (ExprPropAccess x p) = [nameTok x, (tokDot, ''.''), (tokIdent, p)]"
| "showExpr ff (ExprFuncCall f args) = [nameTok f, (tokLParen, ''('')] @ sep [(tokComma, '','')] (map (showExpr ff) args) @ [(tokRParen, '')'')]"
| "showExpr ff (ExprComparison a op b) = showExpr ff a @ opTok op # showExpr ff b"
| "showExpr ff (ExprNot a) = (tokNot, ''NOT'') # showExpr ff a"
| "showExpr ff (ExprAnd es) = sep [(tokAnd, ''AND'')] (map (showExpr ff) es)"
| "showExpr ff (ExprOr es) = sep [(tokOr, ''OR'')] (map (showExpr ff) es)"
| "showExpr ff (ExprParam s) = [(tokParam, s)]"

section \<open>The tokens a parser has left\<close>

definition rest :: "parser \<Rightarrow> toks" where
  "rest p = map kt (drop (ps_pos p) (ps_tokens p))"

definition next_kind :: "toks \<Rightarrow> TokenKind" where
  "next_kind r = (case r of [] \<Rightarrow> tokEOF | (k, t) # _ \<Rightarrow> k)"

lemma next_kind_simps [simp]: "next_kind [] = tokEOF" "next_kind ((k, t) # r) = k"
  by (simp_all add: next_kind_def)

lemma rest_unfold: "rest p = (if ps_pos p < length (ps_tokens p) then kt (cur p) # rest (adv p) else [])"
  using Cons_nth_drop_Suc [of "ps_pos p" "ps_tokens p", symmetric] by (auto simp: rest_def cur_def adv_def)

lemma rest_cur: "t_kind (cur p) = next_kind (rest p)"
  by (subst rest_unfold) (simp add: cur_def)

lemma rest_Cons: "rest p = (k, t) # r \<longleftrightarrow> ps_pos p < length (ps_tokens p) \<and> t_kind (cur p) = k \<and> t_text (cur p) = t \<and> rest (adv p) = r"
  by (subst rest_unfold) auto

lemma is_tok_rest: "is_tok k p \<longleftrightarrow> next_kind (rest p) = k"
  by (simp add: is_tok_def rest_cur)

text \<open>A parsing result that returns a value and leaves the given tokens.\<close>

definition yields :: "cerr + 'a \<times> parser \<Rightarrow> 'a \<Rightarrow> toks \<Rightarrow> bool" where
  "yields m x r \<longleftrightarrow> (\<exists>p. m = Inr (x, p) \<and> rest p = r)"

lemma yields_Inr: "rest p = r \<Longrightarrow> yields (Inr (x, p)) x r"
  by (simp add: yields_def)

lemma yields_bind: "yields m x r \<Longrightarrow> (\<And>p. rest p = r \<Longrightarrow> yields (f x p) y r') \<Longrightarrow> yields (pbind m f) y r'"
  by (auto simp: yields_def)

lemma yields_expect: "rest p = (k, t) # r \<Longrightarrow> \<exists>tok. yields (expect k p) tok r \<and> t_text tok = t"
  by (auto simp: yields_def rest_Cons expect_def)

lemma yields_expect_bind:
  assumes "rest p = (k, t) # r" and "\<And>tok p'. t_text tok = t \<Longrightarrow> rest p' = r \<Longrightarrow> yields (f tok p') y r'"
  shows "yields (pbind (expect k p) f) y r'" "yields (pbind (or_fail (expect k p) g) f) y r'"
  using assms by (auto simp: rest_Cons expect_def)

section \<open>Expressions\<close>

definition follows :: "nat \<Rightarrow> toks \<Rightarrow> bool" where
  "follows l r \<longleftrightarrow> next_kind r \<notin> {tokDot, tokLParen} \<and> (1 \<le> l \<longrightarrow> compOp (next_kind r) = None) \<and> (3 \<le> l \<longrightarrow> next_kind r \<noteq> tokAnd) \<and>
     (4 \<le> l \<longrightarrow> next_kind r \<noteq> tokOr)"

definition parseLevel :: "nat \<Rightarrow> floats \<Rightarrow> parser \<Rightarrow> cerr + Expression \<times> parser" where
  "parseLevel l = (if l = 0 then parsePrimary else if l = 1 then parseComparison else if l = 2 then parseNotExpr
     else if l = 3 then parseAndExpr else parseOrExpr)"

lemma level_up:
  assumes "yields (parseLevel l pf p) e r" and "follows (Suc l) r" and "l = 1 \<longrightarrow> next_kind (rest p) \<noteq> tokNot"
  shows "yields (parseLevel (Suc l) pf p) e r"
proof -
  obtain p1 where p1: "parseLevel l pf p = Inr (e, p1)" "rest p1 = r" using assms(1) by (auto simp: yields_def)
  consider "l = 0" | "l = 1" | "l = 2" | "l = 3" | "4 \<le> l" by linarith
  then show ?thesis
  proof cases
    case 1
    then show ?thesis using p1 assms(2) by (simp add: parseLevel_def parseComparison.simps [of pf p] follows_def rest_cur yields_def)
  next
    case 2
    then show ?thesis using p1 assms(3) by (simp add: parseLevel_def parseNotExpr.simps [of pf p] is_tok_rest yields_def)
  next
    case 3
    then show ?thesis using p1 assms(2) by (simp add: parseLevel_def parseAndExpr.simps [of pf p] is_tok_rest yields_def follows_def)
  next
    case 4
    then show ?thesis using p1 assms(2) by (simp add: parseLevel_def parseOrExpr.simps [of pf p] is_tok_rest yields_def follows_def)
  next
    case 5
    then show ?thesis using p1 by (simp add: parseLevel_def yields_def)
  qed
qed

lemma follows_mono: "follows l r \<Longrightarrow> k \<le> l \<Longrightarrow> follows k r"
  by (auto simp: follows_def)

lemma level_up_to:
  assumes "yields (parseLevel k pf p) e r" and "follows l r" and "k \<le> 1 \<longrightarrow> next_kind (rest p) \<noteq> tokNot" and "k \<le> l"
  shows "yields (parseLevel l pf p) e r"
  using assms(4,2)
proof (induction l rule: dec_induct)
  case base
  show ?case by (rule assms(1))
next
  case (step n)
  then show ?case using level_up [of n pf p e r] follows_mono [of "Suc n" r n] assms(3) by simp
qed

text \<open>The tokens of an expression start with a name, a literal, a parameter or a negation.\<close>

lemma nameTok_cases: "name_ok s \<Longrightarrow> nameTok s = (tokIdent, s) \<or> nameTok s = (tokType, s)"
  by (simp add: nameTok_def)

lemma showLit_cases: "\<exists>k t. showLit ff v = [(k, t)] \<and> k \<in> {tokString, tokInt, tokFloat, tokTrue, tokFalse, tokNull}"
  by (cases v) auto

lemma showExpr_start:
  "expr_ok F l e \<Longrightarrow> next_kind (showExpr ff e @ r) \<notin> {tokRParen, tokEOF, tokComma} \<and> (l \<le> 1 \<longrightarrow> next_kind (showExpr ff e @ r) \<noteq> tokNot)"
proof (induction e arbitrary: l r)
  case (ExprLiteral v)
  then show ?case using showLit_cases [of ff v] by auto
next
  case (ExprComparison a op b)
  then show ?case using ExprComparison.IH(1) [of 0] by fastforce
next
  case (ExprAnd es)
  then obtain e es' where "es = e # es'" by (cases es) auto
  then show ?case using ExprAnd.IH [of e 2] ExprAnd.prems by (cases es') auto
next
  case (ExprOr es)
  then obtain e es' where "es = e # es'" by (cases es) auto
  then show ?case using ExprOr.IH [of e 3] ExprOr.prems by (cases es') auto
qed (auto simp: nameTok_def)


lemma digits_utoa: "list_all isDigit (utoa n) \<and> utoa n \<noteq> []"
proof (induction n rule: utoa.induct)
  case (1 n)
  have "d < 10 \<Longrightarrow> isDigit (char_of (48 + d))" for d :: nat by (simp add: isDigit_def)
  then show ?case using 1 by (subst (1 2) utoa.simps) simp
qed

lemma ParseInt_utoa: "count_ok n \<Longrightarrow> ParseInt (utoa (nat n)) = (n, False)"
proof -
  assume n: "count_ok n"
  obtain c r where u: "utoa (nat n) = c # r" "isDigit c" using digits_utoa [of "nat n"] by (cases "utoa (nat n)") auto
  then have "c \<noteq> CHR ''-''" "c \<noteq> CHR ''+''" by (auto simp: isDigit_def)
  then show ?thesis using u n digits_utoa [of "nat n"] undigits_utoa [of "nat n"] by (simp add: ParseInt_def count_ok_def)
qed

lemma Atoi_utoa: "count_ok n \<Longrightarrow> Atoi (utoa (nat n)) = n"
  by (simp add: Atoi_def ParseInt_utoa)

definition float_ok :: "(u64 \<Rightarrow> string) \<Rightarrow> floats \<Rightarrow> u64 \<Rightarrow> bool" where
  "float_ok ff pf w \<longleftrightarrow> token_ok (tokFloat, ff w) \<and> pf (ff w) = (w, False)"

lemma primary_literal:
  assumes "lit_ok (float_ok ff pf) v" and "rest p = showLit ff v @ r"
  shows "yields (parsePrimary pf p) (ExprLiteral v) r"
proof -
  obtain k t where k: "showLit ff v = [(k, t)]" "k \<in> {tokString, tokInt, tokFloat, tokTrue, tokFalse, tokNull}" using showLit_cases by blast
  have "primaryLiteral pf (cur p) = Some v" using assms k
    by (cases v) (auto simp: primaryLiteral_def rest_Cons ParseInt_utoa float_ok_def split: if_splits)
  then show ?thesis using assms(2) k by (auto simp: parsePrimary.simps [of pf p] rest_Cons yields_def)
qed

text \<open>A loop that parses an item after every token of a kind reads back a sequence of such items.\<close>

lemma loop_roundtrip:
  assumes loop: "\<And>xs p. loop xs p = (if is_tok k p then pbind (item (adv p)) (\<lambda>e p1. loop (xs @ [e]) p1) else Inr (xs, p))"
    and items: "\<forall>e \<in> set es. \<forall>p r. rest p = sh e @ r \<longrightarrow> G r \<longrightarrow> yields (item p) e r"
    and G: "G r" "\<And>x. G ((k, t) # x)" and r: "next_kind r \<noteq> k"
  shows "rest p = concat (map (\<lambda>e. (k, t) # sh e) es) @ r \<Longrightarrow> yields (loop xs p) (xs @ es) r"
  using items
proof (induction es arbitrary: xs p)
  case Nil
  then show ?case using r by (simp add: loop [of xs p] is_tok_rest yields_def)
next
  case (Cons e es)
  let ?r = "concat (map (\<lambda>e. (k, t) # sh e) es) @ r"
  have f: "G ?r" using G by (cases es) auto
  have c: "rest (adv p) = sh e @ ?r" "is_tok k p" using Cons.prems(1) by (auto simp: rest_Cons is_tok_def)
  then obtain p1 where "item (adv p) = Inr (e, p1)" "rest p1 = ?r" using Cons.prems(2) f by (fastforce simp: yields_def)
  then show ?case using Cons.IH [of p1 "xs @ [e]"] Cons.prems(2) c(2) by (simp add: loop [of xs p])
qed

lemma sep_Cons: "sep c (x # xs) = x @ concat (map (\<lambda>y. c @ y) xs)"
  by (induction xs arbitrary: x) simp_all

lemma sep_show: "sep [t] (map f (e # es)) = f e @ concat (map (\<lambda>e. t # f e) es)"
  by (simp add: sep_Cons comp_def)


lemma follows_tokens:
  "follows 4 ((tokComma, t) # x)" "follows 4 ((tokRParen, t) # x)" "follows 2 ((tokAnd, t) # x)" "follows 3 ((tokOr, t) # x)" "follows 0 (opTok op # x)"
  by (cases op; simp add: follows_def compOp_def opTok_def)+

lemma call_roundtrip:
  assumes p: "t_kind (cur p) = tokIdent \<or> t_kind (cur p) = tokType" "t_text (cur p) = f" "t_kind (cur (adv p)) = tokLParen"
    "rest (adv (adv p)) = sep [(tokComma, '','')] (map (showExpr ff) args) @ (tokRParen, '')'') # r"
    and ok: "\<forall>a \<in> set args. expr_ok F 4 a"
    and IH: "\<forall>e \<in> set args. \<forall>p r. rest p = showExpr ff e @ r \<longrightarrow> follows 4 r \<longrightarrow> yields (parseOrExpr pf p) e r"
  shows "yields (parsePrimary pf p) (ExprFuncCall f args) r"
proof -
  let ?q = "adv (adv p)"
  have as: "yields (if \<not> is_tok tokRParen ?q then pbind (parseOrExpr pf ?q) (\<lambda>arg p3. parseArgs pf [arg] p3) else Inr ([], ?q)) args ((tokRParen, '')'') # r)"
  proof (cases args)
    case Nil
    then show ?thesis using p(4) by (simp add: is_tok_rest yields_def)
  next
    case (Cons a as)
    let ?r = "concat (map (\<lambda>e. (tokComma, '','') # showExpr ff e) as) @ (tokRParen, '')'') # r"
    have q: "rest ?q = showExpr ff a @ ?r" using p(4) sep_show [of "(tokComma, '','')" "showExpr ff" a as] Cons by simp
    have "\<not> is_tok tokRParen ?q" using showExpr_start [of F 4 a ff ?r] ok Cons q by (simp add: is_tok_rest)
    moreover have "follows 4 ?r" by (cases as) (simp_all add: follows_tokens)
    then have "yields (parseOrExpr pf ?q) a ?r" using IH q Cons by simp
    moreover have "yields (parseArgs pf [a] p') ([a] @ as) ((tokRParen, '')'') # r)" if "rest p' = ?r" for p'
      by (rule loop_roundtrip [where G = "follows 4" and item = "parseOrExpr pf", OF parseArgs.simps _ _ _ _ that]) (use IH Cons in \<open>simp_all add: follows_tokens\<close>)
    ultimately show ?thesis using Cons by (simp add: yields_bind)
  qed
  have "parsePrimary pf p = pbind (if \<not> is_tok tokRParen ?q then pbind (parseOrExpr pf ?q) (\<lambda>arg p3. parseArgs pf [arg] p3) else Inr ([], ?q))
      (\<lambda>args p4. pbind (expect tokRParen p4) (\<lambda>_ p5. Inr (ExprFuncCall f args, p5)))"
    using p(1-3) by (simp add: parsePrimary.simps [of pf p] is_tok_def)
  then show ?thesis
    by (simp only:) (rule yields_bind [OF as], rule yields_expect_bind(1), assumption, rule yields_Inr)
qed

text \<open>Conjunctions and disjunctions: a first operand and a loop over the others.\<close>

lemma chain_roundtrip:
  assumes top: "parse p = pbind (item p) (\<lambda>lhs p1. if \<not> is_tok k p1 then Inr (lhs, p1) else pbind (loop [lhs] p1) (\<lambda>operands p2. Inr (mk operands, p2)))"
    and loop: "\<And>xs p. loop xs p = (if is_tok k p then pbind (item (adv p)) (\<lambda>e p1. loop (xs @ [e]) p1) else Inr (xs, p))"
    and IH: "\<forall>e \<in> set es. \<forall>p r. rest p = showExpr ff e @ r \<longrightarrow> follows l r \<longrightarrow> yields (item p) e r"
    and r: "follows l r" "next_kind r \<noteq> k" "\<And>x. follows l ((k, t) # x)" and es: "2 \<le> length es"
    and p: "rest p = sep [(k, t)] (map (showExpr ff) es) @ r"
  shows "yields (parse p) (mk es) r"
proof -
  obtain a b es' where e: "es = a # b # es'" using es by (cases es; cases "tl es") auto
  let ?r = "concat (map (\<lambda>e. (k, t) # showExpr ff e) (b # es')) @ r"
  have "rest p = showExpr ff a @ ?r" using p sep_show [of "(k, t)" "showExpr ff" a "b # es'"] e by simp
  then have fst: "yields (item p) a ?r" using IH e r(3) by simp
  have rest: "yields (loop [a] p') ([a] @ b # es') r" if "rest p' = ?r" for p'
    by (rule loop_roundtrip [where G = "follows l" and item = item, OF loop _ _ _ _ that]) (use IH e r in simp_all)
  show ?thesis unfolding top
  proof (rule yields_bind [OF fst])
    fix p1 assume p1: "rest p1 = ?r"
    show "yields (if \<not> is_tok k p1 then Inr (a, p1) else pbind (loop [a] p1) (\<lambda>operands p2. Inr (mk operands, p2))) (mk es) r"
      using p1 yields_bind [OF rest [OF p1], of "\<lambda>operands p2. Inr (mk operands, p2)"] e by (simp add: is_tok_rest yields_Inr)
  qed
qed

lemma expr_roundtrip:
  "expr_ok (float_ok ff pf) l e \<Longrightarrow> rest p = showExpr ff e @ r \<Longrightarrow> follows l r \<Longrightarrow> yields (parseLevel l pf p) e r"
proof (induction e arbitrary: l p r)
  case (ExprLiteral v)
  then have "yields (parseLevel 0 pf p) (ExprLiteral v) r" using primary_literal by (simp add: parseLevel_def)
  then show ?case by (rule level_up_to) (use ExprLiteral showLit_cases [of ff v] in auto)
next
  case (ExprVarRef s)
  then have "yields (parseLevel 0 pf p) (ExprVarRef s) r"
    by (auto simp: parseLevel_def nameTok_def rest_Cons parsePrimary.simps [of pf p] is_tok_rest follows_def yields_def)
  then show ?case by (rule level_up_to) (use ExprVarRef in \<open>auto simp: nameTok_def\<close>)
next
  case (ExprPropAccess x y)
  then have "yields (parseLevel 0 pf p) (ExprPropAccess x y) r"
    by (auto simp: parseLevel_def nameTok_def rest_Cons parsePrimary.simps [of pf p] is_tok_def expect_def yields_def)
  then show ?case by (rule level_up_to) (use ExprPropAccess in \<open>auto simp: nameTok_def\<close>)
next
  case (ExprParam s)
  then have "yields (parseLevel 0 pf p) (ExprParam s) r"
    by (auto simp: parseLevel_def rest_Cons parsePrimary.simps [of pf p] yields_def)
  then show ?case by (rule level_up_to) (use ExprParam in auto)
next
  case (ExprFuncCall f args)
  have "\<forall>e \<in> set args. \<forall>p r. rest p = showExpr ff e @ r \<longrightarrow> follows 4 r \<longrightarrow> yields (parseOrExpr pf p) e r"
    using ExprFuncCall.IH [where l = 4] ExprFuncCall.prems(1) by (fastforce simp: parseLevel_def)
  then have "yields (parsePrimary pf p) (ExprFuncCall f args) r"
    using ExprFuncCall.prems(1,2) by (intro call_roundtrip [where F = "float_ok ff pf" and ff = ff]) (auto simp: nameTok_def rest_Cons)
  then have "yields (parseLevel 0 pf p) (ExprFuncCall f args) r" by (simp add: parseLevel_def)
  then show ?case by (rule level_up_to) (use ExprFuncCall in \<open>auto simp: nameTok_def\<close>)
next
  case (ExprComparison a op b)
  have a: "yields (parsePrimary pf p) a (opTok op # showExpr ff b @ r)"
    using ExprComparison.IH(1) [of 0 p] ExprComparison.prems by (simp add: parseLevel_def follows_tokens)
  have b: "yields (parsePrimary pf p') b r" if "rest p' = showExpr ff b @ r" for p'
    using ExprComparison.IH(2) [of 0 p' r] ExprComparison.prems that follows_mono [of l r 0] by (simp add: parseLevel_def)
  have "yields (parseComparison pf p) (ExprComparison a op b) r"
    unfolding parseComparison.simps [of pf p]
  proof (rule yields_bind [OF a])
    fix p1 assume p1: "rest p1 = opTok op # showExpr ff b @ r"
    then have "compOp (t_kind (cur p1)) = Some op" "rest (adv p1) = showExpr ff b @ r"
      by (cases op; simp add: opTok_def rest_Cons compOp_def)+
    then show "yields (case compOp (t_kind (cur p1)) of None \<Rightarrow> Inr (a, p1)
        | Some op \<Rightarrow> pbind (parsePrimary pf (adv p1)) (\<lambda>rhs p2. Inr (ExprComparison a op rhs, p2))) (ExprComparison a op b) r"
      by (auto intro!: yields_bind [OF b] yields_Inr)
  qed
  then have "yields (parseLevel 1 pf p) (ExprComparison a op b) r" by (simp add: parseLevel_def)
  then show ?case by (rule level_up_to)
      (use ExprComparison.prems showExpr_start [of "float_ok ff pf" 0 a ff "opTok op # showExpr ff b @ r"] in auto)
next
  case (ExprNot e)
  have "rest (adv p) = showExpr ff e @ r" "is_tok tokNot p" using ExprNot.prems(2) by (auto simp: rest_Cons is_tok_def)
  moreover have "yields (parseComparison pf (adv p)) e r"
    using ExprNot.IH [of 1 "adv p" r] ExprNot.prems calculation(1) follows_mono [of l r 1] by (simp add: parseLevel_def)
  ultimately have "yields (parseLevel 2 pf p) (ExprNot e) r"
    by (auto simp: parseLevel_def parseNotExpr.simps [of pf p] intro: yields_bind yields_Inr)
  then show ?case by (rule level_up_to) (use ExprNot in auto)
next
  case (ExprAnd es)
  have IH: "\<forall>e \<in> set es. \<forall>p r. rest p = showExpr ff e @ r \<longrightarrow> follows 2 r \<longrightarrow> yields (parseNotExpr pf p) e r"
    using ExprAnd.IH [where l = 2] ExprAnd.prems(1) by (fastforce simp: parseLevel_def)
  have "next_kind r \<noteq> tokAnd" "follows 2 r" using ExprAnd.prems(1,3) follows_mono [of l r 2] by (auto simp: follows_def)
  then have "yields (parseAndExpr pf p) (ExprAnd es) r"
    by (intro chain_roundtrip [OF parseAndExpr.simps parseAndLoop.simps IH]) (use ExprAnd.prems in \<open>simp_all add: follows_tokens\<close>)
  then have "yields (parseLevel 3 pf p) (ExprAnd es) r" by (simp add: parseLevel_def)
  then show ?case by (rule level_up_to) (use ExprAnd in auto)
next
  case (ExprOr es)
  have IH: "\<forall>e \<in> set es. \<forall>p r. rest p = showExpr ff e @ r \<longrightarrow> follows 3 r \<longrightarrow> yields (parseAndExpr pf p) e r"
    using ExprOr.IH [where l = 3] ExprOr.prems(1) by (fastforce simp: parseLevel_def)
  have "next_kind r \<noteq> tokOr" "follows 3 r" using ExprOr.prems(1,3) follows_mono [of l r 3] by (auto simp: follows_def)
  then have "yields (parseOrExpr pf p) (ExprOr es) r"
    by (intro chain_roundtrip [OF parseOrExpr.simps parseOrLoop.simps IH]) (use ExprOr.prems in \<open>simp_all add: follows_tokens\<close>)
  then have "yields (parseLevel 4 pf p) (ExprOr es) r" by (simp add: parseLevel_def)
  then show ?case by (rule level_up_to) (use ExprOr in auto)
qed

end
