(* ===== verification/QueryText.thy ===== *)
theory QueryText
  imports Grammar
begin

text \<open>
  Printing of whole queries and their round trip through lexer and parser.
\<close>

section \<open>Printing\<close>

definition optTok :: "string \<Rightarrow> toks" where
  "optTok s = (if s = [] then [] else [(tokIdent, s)])"

fun showPVal :: "(u64 \<Rightarrow> string) \<Rightarrow> pval \<Rightarrow> toks" where
  "showPVal ff (PVal v) = showLit ff v"
| "showPVal ff (ParamRef s) = [(tokParam, s)]"

definition showProp :: "(u64 \<Rightarrow> string) \<Rightarrow> string \<times> pval \<Rightarrow> toks" where
  "showProp ff kv = [(tokIdent, fst kv), (tokColon, '':'')] @ showPVal ff (snd kv)"

definition showProps :: "(u64 \<Rightarrow> string) \<Rightarrow> (string \<times> pval) list \<Rightarrow> toks" where
  "showProps ff ps = (if ps = [] then [] else [(tokLBrace, ''{'')] @ sep [(tokComma, '','')] (map (showProp ff) ps) @ [(tokRBrace, ''}'')])"

definition showLabels :: "string list \<Rightarrow> toks" where
  "showLabels ls = concat (map (\<lambda>l. [(tokColon, '':''), (tokIdent, l)]) ls)"

definition showNode :: "(u64 \<Rightarrow> string) \<Rightarrow> NodePattern \<Rightarrow> toks" where
  "showNode ff n = [(tokLParen, ''('')] @ optTok (np_Variable n) @ showLabels (np_Labels n) @ showProps ff (np_Props n) @ [(tokRParen, '')'')]"

definition showHops :: "RelPattern \<Rightarrow> toks" where
  "showHops r = (if rp_VarLength r then [(tokStar, ''*''), (tokInt, utoa (nat (rp_MinHops r))), (tokDotDot, ''..'')] @
     (if rp_MaxHops r = -1 then [] else [(tokInt, utoa (nat (rp_MaxHops r)))]) else [])"

definition showRel :: "RelPattern \<Rightarrow> toks" where
  "showRel r = [if rp_Dir r = Incoming then (tokLArrow, ''<-'') else (tokDash, ''-''), (tokLBracket, ''['')] @ optTok (rp_Variable r) @
     (if rp_Label r = [] then [] else [(tokColon, '':''), (tokIdent, rp_Label r)]) @ showHops r @
     [(tokRBracket, '']''), if rp_Dir r = Outgoing then (tokArrow, ''->'') else (tokDash, ''-'')]"

definition showPattern :: "(u64 \<Rightarrow> string) \<Rightarrow> Pattern \<Rightarrow> toks" where
  "showPattern ff pt = showNode ff (hd (pt_Nodes pt)) @ concat (map (\<lambda>(r, n). showRel r @ showNode ff n) (zip (pt_Rels pt) (tl (pt_Nodes pt))))"

definition showReturnItem :: "(u64 \<Rightarrow> string) \<Rightarrow> ReturnItem \<Rightarrow> toks" where
  "showReturnItem ff i = showExpr ff (ri_Expr i) @ (if ri_Alias i = [] then [] else [(tokAs, ''AS''), (tokIdent, ri_Alias i)])"

definition showOrderItem :: "(u64 \<Rightarrow> string) \<Rightarrow> OrderItem \<Rightarrow> toks" where
  "showOrderItem ff i = showExpr ff (oi_Expr i) @ [if oi_Desc i then (tokDesc, ''DESC'') else (tokAsc, ''ASC'')]"

definition showSetItem :: "(u64 \<Rightarrow> string) \<Rightarrow> SetItem \<Rightarrow> toks" where
  "showSetItem ff i = [(tokIdent, si_Variable i), (tokDot, ''.''), (tokIdent, si_Property i), (tokEq, ''='')] @ showExpr ff (si_Value i)"

abbreviation commas :: "toks list \<Rightarrow> toks" where "commas \<equiv> sep [(tokComma, '','')]"

definition showReturn :: "(u64 \<Rightarrow> string) \<Rightarrow> ReturnClause \<Rightarrow> toks" where
  "showReturn ff rs = (tokReturn, ''RETURN'') # commas (map (showReturnItem ff) rs)"

definition showWhere :: "(u64 \<Rightarrow> string) \<Rightarrow> Expression option \<Rightarrow> toks" where
  "showWhere ff w = (case w of None \<Rightarrow> [] | Some e \<Rightarrow> (tokWhere, ''WHERE'') # showExpr ff e)"

definition showCount :: "TokenKind \<Rightarrow> string \<Rightarrow> int \<Rightarrow> toks" where
  "showCount k name n = [(k, name), (tokInt, utoa (nat n))]"

definition showQuery :: "(u64 \<Rightarrow> string) \<Rightarrow> CypherQuery \<Rightarrow> toks" where
  "showQuery ff q =
     (case q_Explain q of ExplainNone \<Rightarrow> [] | ExplainOnly \<Rightarrow> [(tokExplain, ''EXPLAIN'')] | ExplainProfile \<Rightarrow> [(tokProfile, ''PROFILE'')]) @
     [(tokMatch, ''MATCH'')] @ showPattern ff (q_Match q) @ showWhere ff (q_Where q) @
     (case q_OptionalMatch q of None \<Rightarrow> []
      | Some pt \<Rightarrow> [(tokOptional, ''OPTIONAL''), (tokMatch, ''MATCH'')] @ showPattern ff pt @ showWhere ff (q_OptionalWhere q)) @
     (if q_Set q = [] then [] else (tokSet, ''SET'') # commas (map (showSetItem ff) (q_Set q))) @
     (if q_Delete q = [] then [] else (tokDelete, ''DELETE'') # commas (map (\<lambda>v. [(tokIdent, v)]) (q_Delete q))) @
     showReturn ff (q_Return q) @
     (if q_OrderBy q = [] then [] else [(tokOrder, ''ORDER''), (tokBy, ''BY'')] @ commas (map (showOrderItem ff) (q_OrderBy q))) @
     showCount tokSkip ''SKIP'' (q_Skip q) @ showCount tokLimit ''LIMIT'' (q_Limit q)"

definition showOptReturn :: "(u64 \<Rightarrow> string) \<Rightarrow> ReturnClause option \<Rightarrow> toks" where
  "showOptReturn ff r = (case r of None \<Rightarrow> [] | Some rs \<Rightarrow> showReturn ff rs)"

definition showCreate :: "(u64 \<Rightarrow> string) \<Rightarrow> CypherWrite \<Rightarrow> toks" where
  "showCreate ff w = (tokCreate, ''CREATE'') # commas (map (showPattern ff) (w_Creates w)) @ showOptReturn ff (w_Return w)"

definition showOn :: "(u64 \<Rightarrow> string) \<Rightarrow> TokenKind \<times> string \<Rightarrow> SetItem list \<Rightarrow> toks" where
  "showOn ff kd ss = (if ss = [] then [] else [(tokOn, ''ON''), kd, (tokSet, ''SET'')] @ commas (map (showSetItem ff) ss))"

definition showMerge :: "(u64 \<Rightarrow> string) \<Rightarrow> CypherMerge \<Rightarrow> toks" where
  "showMerge ff m = (tokMerge, ''MERGE'') #
     showNode ff \<lparr>np_Variable = mp_Variable (m_Pattern m), np_Labels = mp_Labels (m_Pattern m), np_Props = mp_Props (m_Pattern m)\<rparr> @
     showOn ff (tokCreate, ''CREATE'') (m_OnCreateSet m) @ showOn ff (tokMatch, ''MATCH'') (m_OnMatchSet m) @ showOptReturn ff (m_Return m)"

fun showCypher :: "(u64 \<Rightarrow> string) \<Rightarrow> parsedCypher \<Rightarrow> toks" where
  "showCypher ff (CRead q) = showQuery ff q"
| "showCypher ff (CWrite w) = showCreate ff w"
| "showCypher ff (CMerge m) = showMerge ff m"

section \<open>Patterns\<close>

lemma pval_roundtrip:
  assumes "pval_ok (float_ok ff pf) v" and "rest p = showPVal ff v @ r"
  shows "yields (parseLiteral pf p) v r"
proof (cases v)
  case (PVal x)
  then show ?thesis using assms
    by (cases x) (auto simp: parseLiteral_def Let_def rest_Cons ParseInt_utoa float_ok_def yields_def split: if_splits)
next
  case (ParamRef s)
  then show ?thesis using assms by (auto simp: parseLiteral_def Let_def rest_Cons yields_def)
qed

lemma optVar_roundtrip: "rest p = optTok v @ r \<Longrightarrow> next_kind r \<noteq> tokIdent \<Longrightarrow> yields (parseOptVar p) v r"
  by (auto simp: parseOptVar_def optTok_def is_tok_rest rest_Cons yields_def split: if_splits)

lemma labels_roundtrip: "rest p = showLabels ls @ r \<Longrightarrow> next_kind r \<noteq> tokColon \<Longrightarrow> yields (parseLabels xs p) (xs @ ls) r"
proof (induction ls arbitrary: xs p)
  case Nil
  then show ?case by (subst parseLabels.simps) (simp add: showLabels_def is_tok_rest yields_def)
next
  case (Cons l ls)
  then have "is_tok tokColon p" "is_tok tokIdent (adv p)" "t_text (cur (adv p)) = l" "rest (adv (adv p)) = showLabels ls @ r"
    by (auto simp: showLabels_def rest_Cons is_tok_def)
  then show ?case using Cons.IH [of "adv (adv p)" "xs @ [l]"] Cons.prems(2) by (subst parseLabels.simps) simp
qed

lemma propLoop_roundtrip:
  assumes "props_ok (float_ok ff pf) (xs @ ps)" and "rest p = commas (map (showProp ff) ps) @ (tokRBrace, t) # r"
  shows "yields (parsePropMapLoop pf xs p) (xs @ ps) ((tokRBrace, t) # r)"
  using assms
proof (induction ps arbitrary: xs p)
  case Nil
  then show ?case by (subst parsePropMapLoop.simps) (simp add: is_tok_rest yields_def)
next
  case (Cons kv ps)
  obtain k v where kv: "kv = (k, v)" by (cases kv)
  let ?c = "if ps = [] then [] else (tokComma, '','') # commas (map (showProp ff) ps)"
  let ?r = "?c @ (tokRBrace, t) # r"
  have rest: "rest p = [(tokIdent, k), (tokColon, '':'')] @ showPVal ff v @ ?r"
  proof -
    have "showProp ff kv = [(tokIdent, k), (tokColon, '':'')] @ showPVal ff v" using kv by (simp add: showProp_def)
    then show ?thesis using Cons.prems(2) by (cases ps) simp_all
  qed
  have v: "pval_ok (float_ok ff pf) v" "k \<notin> fst ` set xs" using Cons.prems(1) kv by (auto simp: props_ok_def)
  obtain tok p1 where p1: "expect tokIdent p = Inr (tok, p1)" "t_text tok = k" "rest p1 = (tokColon, '':'') # showPVal ff v @ ?r"
    using rest by (auto simp: rest_Cons expect_def)
  obtain tok2 p2 where p2: "expect tokColon p1 = Inr (tok2, p2)" "rest p2 = showPVal ff v @ ?r"
    using p1(3) by (auto simp: rest_Cons expect_def)
  obtain p3 where p3: "parseLiteral pf p2 = Inr (v, p3)" "rest p3 = ?r" using pval_roundtrip [OF v(1) p2(2)] by (auto simp: yields_def)
  have "rest (skip_tok tokComma p3) = commas (map (showProp ff) ps) @ (tokRBrace, t) # r"
    using p3(2) by (auto simp: skip_tok_def is_tok_rest rest_Cons split: if_splits)
  moreover have "AList.update k v xs = xs @ [kv]" using v(2) kv by (induction xs) auto
  ultimately have "yields (parsePropMapLoop pf (AList.update k v xs) (skip_tok tokComma p3)) (xs @ kv # ps) ((tokRBrace, t) # r)"
    using Cons.IH [of "xs @ [kv]" "skip_tok tokComma p3"] Cons.prems(1) by simp
  moreover have "\<not> is_tok tokRBrace p \<and> \<not> is_tok tokEOF p" using rest by (simp add: is_tok_rest)
  ultimately show ?case using p1 p2 p3 by (subst parsePropMapLoop.simps) simp
qed


lemma props_roundtrip:
  assumes "props_ok (float_ok ff pf) ps" and "rest p = showProps ff ps @ r" and "next_kind r \<noteq> tokLBrace"
  shows "yields (if is_tok tokLBrace p then parsePropMap pf (adv p) else Inr ([], p)) ps r"
proof (cases "ps = []")
  case True
  then show ?thesis using assms(2,3) by (simp add: showProps_def is_tok_rest yields_def)
next
  case False
  then have "is_tok tokLBrace p" "rest (adv p) = commas (map (showProp ff) ps) @ (tokRBrace, ''}'') # r"
    using assms(2) by (auto simp: showProps_def rest_Cons is_tok_def)
  moreover have "yields (parsePropMap pf (adv p)) ps r"
    unfolding parsePropMap_def
    by (rule yields_bind [OF propLoop_roundtrip [of ff pf "[]", simplified, OF assms(1) calculation(2)]], rule yields_expect_bind(1), assumption, rule yields_Inr)
  ultimately show ?thesis by simp
qed

lemma next_kind_props: "next_kind (showProps ff ps @ r) = (if ps = [] then next_kind r else tokLBrace)"
  by (simp add: showProps_def)

lemma next_kind_labels: "next_kind (showLabels ls @ r) = (if ls = [] then next_kind r else tokColon)"
  by (cases ls) (simp_all add: showLabels_def)

lemma node_roundtrip:
  assumes "node_ok (float_ok ff pf) n" and "rest p = showNode ff n @ r"
  shows "yields (parseNodePattern pf p) n r"
proof -
  let ?r4 = "(tokRParen, '')'') # r" and ?n = "\<lparr>np_Variable = np_Variable n, np_Labels = np_Labels n, np_Props = np_Props n\<rparr>"
  let ?r3 = "showProps ff (np_Props n) @ ?r4"
  let ?r2 = "showLabels (np_Labels n) @ ?r3"
  have "rest p = (tokLParen, ''('') # optTok (np_Variable n) @ ?r2" using assms(2) by (simp add: showNode_def)
  then have "yields (parseNodePattern pf p) ?n r"
    unfolding parseNodePattern_def
  proof (rule yields_expect_bind(1))
    fix p1 assume p1: "rest p1 = optTok (np_Variable n) @ ?r2"
    have k: "next_kind ?r2 \<noteq> tokIdent" by (simp add: next_kind_props next_kind_labels)
    show "yields (pbind (parseOptVar p1) (\<lambda>variable p2. pbind (parseLabels [] p2) (\<lambda>labels p3.
       pbind (if is_tok tokLBrace p3 then parsePropMap pf (adv p3) else Inr ([], p3)) (\<lambda>props p4.
       pbind (expect tokRParen p4) (\<lambda>_ p5. Inr (\<lparr>np_Variable = variable, np_Labels = labels, np_Props = props\<rparr>, p5)))))) ?n r"
    proof (rule yields_bind [OF optVar_roundtrip [OF p1 k]], rule yields_bind [OF labels_roundtrip [where xs = "[]", simplified]])
      show "next_kind ?r3 \<noteq> tokColon" by (simp add: next_kind_props)
      fix p3 assume p3: "rest p3 = ?r3"
      have "props_ok (float_ok ff pf) (np_Props n)" using assms(1) by (simp add: node_ok_def)
      then have y: "yields (if is_tok tokLBrace p3 then parsePropMap pf (adv p3) else Inr ([], p3)) (np_Props n) ?r4"
        by (rule props_roundtrip [OF _ p3]) simp
      show "yields (pbind (if is_tok tokLBrace p3 then parsePropMap pf (adv p3) else Inr ([], p3)) (\<lambda>props p4. pbind (expect tokRParen p4)
          (\<lambda>_ p5. Inr (\<lparr>np_Variable = np_Variable n, np_Labels = np_Labels n, np_Props = props\<rparr>, p5)))) ?n r"
        by (rule yields_bind [OF y], rule yields_expect_bind(1), assumption, rule yields_Inr)
    qed
  qed
  moreover have "?n = n" by simp
  ultimately show ?thesis by metis
qed

lemma label_roundtrip:
  "rest p = (if l = [] then [] else [(tokColon, '':''), (tokIdent, l)]) @ r \<Longrightarrow> next_kind r \<noteq> tokColon \<Longrightarrow> yields (parseRelLabel p) l r"
  by (auto simp: parseRelLabel_def is_tok_def rest_Cons rest_cur [symmetric] expect_def yields_def split: if_splits)

lemma hops_roundtrip:
  assumes "rel_ok rp" and "rest p = showHops rp @ r" and "next_kind r \<notin> {tokStar, tokInt, tokDotDot}"
  shows "yields (parseHops p) (rp_VarLength rp, rp_MinHops rp, rp_MaxHops rp) r"
  using assms
  by (auto simp: parseHops_def parseMaxHops_def showHops_def rel_ok_def is_tok_def rest_Cons rest_cur [symmetric] Atoi_utoa yields_def split: if_splits)


lemma relEnd_roundtrip:
  "rest p = (if d = Outgoing then (tokArrow, ''->'') else (tokDash, ''-'')) # r \<Longrightarrow> yields (parseRelEnd (d = Incoming) p) d r"
  by (cases d) (auto simp: parseRelEnd_def rest_Cons is_tok_def expect_def yields_def)

lemma rel_roundtrip:
  assumes ok: "rel_ok rp" and p: "rest p = showRel rp @ r"
  shows "yields (parseRelPattern p) rp r"
proof -
  let ?r5 = "(if rp_Dir rp = Outgoing then (tokArrow, ''->'') else (tokDash, ''-'')) # r"
  let ?r4 = "(tokRBracket, '']'') # ?r5"
  let ?r3 = "showHops rp @ ?r4"
  let ?r2 = "(if rp_Label rp = [] then [] else [(tokColon, '':''), (tokIdent, rp_Label rp)]) @ ?r3"
  have h: "next_kind ?r3 \<in> {tokStar, tokRBracket}" by (simp add: showHops_def)
  then have k: "next_kind ?r2 \<noteq> tokIdent" "next_kind ?r3 \<noteq> tokColon" by auto
  have a: "is_tok tokLArrow p = (rp_Dir rp = Incoming)" "is_tok tokLArrow p \<or> is_tok tokDash p"
    "rest (adv p) = (tokLBracket, ''['') # optTok (rp_Variable rp) @ ?r2"
    using p by (auto simp: showRel_def rest_Cons is_tok_def split: if_splits)
  obtain t p1 where 1: "expect tokLBracket (adv p) = Inr (t, p1)" "rest p1 = optTok (rp_Variable rp) @ ?r2"
    using yields_expect [OF a(3)] by (auto simp: yields_def)
  obtain p2 where 2: "parseOptVar p1 = Inr (rp_Variable rp, p2)" "rest p2 = ?r2" using optVar_roundtrip [OF 1(2) k(1)] by (auto simp: yields_def)
  obtain p3 where 3: "parseRelLabel p2 = Inr (rp_Label rp, p3)" "rest p3 = ?r3" using label_roundtrip [OF 2(2) k(2)] by (auto simp: yields_def)
  obtain p4 where 4: "parseHops p3 = Inr ((rp_VarLength rp, rp_MinHops rp, rp_MaxHops rp), p4)" "rest p4 = ?r4"
    using hops_roundtrip [OF ok 3(2)] by (auto simp: yields_def)
  obtain t' p5 where 5: "expect tokRBracket p4 = Inr (t', p5)" "rest p5 = ?r5" using yields_expect [OF 4(2)] by (auto simp: yields_def)
  obtain p6 where 6: "parseRelEnd (rp_Dir rp = Incoming) p5 = Inr (rp_Dir rp, p6)" "rest p6 = r" using relEnd_roundtrip [OF 5(2)] by (auto simp: yields_def)
  show ?thesis using a(1,2) 1 2 3 4 5 6 by (auto simp: parseRelPattern_def yields_def)
qed

lemma pattern_loop_roundtrip:
  assumes "list_all rel_ok rs" and "list_all (node_ok (float_ok ff pf)) ns" and "length rs = length ns" and "next_kind r \<notin> {tokDash, tokLArrow}"
    and "rest p = concat (map (\<lambda>(r, n). showRel r @ showNode ff n) (zip rs ns)) @ r"
  shows "yields (parsePatternLoop pf pat p) \<lparr>pt_Nodes = pt_Nodes pat @ ns, pt_Rels = pt_Rels pat @ rs\<rparr> r"
  using assms(3,1,2,4,5)
proof (induction rs ns arbitrary: pat p rule: list_induct2)
  case Nil
  then show ?case by (subst parsePatternLoop.simps) (simp add: is_tok_rest yields_def)
next
  case (Cons rp rs n ns)
  let ?r = "concat (map (\<lambda>(r, n). showRel r @ showNode ff n) (zip rs ns)) @ r"
  have p: "rest p = showRel rp @ showNode ff n @ ?r" using Cons.prems(4) by simp
  obtain p1 where 1: "parseRelPattern p = Inr (rp, p1)" "rest p1 = showNode ff n @ ?r"
    using rel_roundtrip [OF _ p] Cons.prems(1) by (auto simp: yields_def)
  obtain p2 where 2: "parseNodePattern pf p1 = Inr (n, p2)" "rest p2 = ?r" using node_roundtrip [OF _ 1(2)] Cons.prems(2) by (auto simp: yields_def)
  have "is_tok tokDash p \<or> is_tok tokLArrow p" using p by (auto simp: is_tok_rest showRel_def)
  then show ?case using 1 2 Cons.IH [OF _ _ _ 2(2), of "pat\<lparr>pt_Rels := pt_Rels pat @ [rp], pt_Nodes := pt_Nodes pat @ [n]\<rparr>"] Cons.prems
    by (subst parsePatternLoop.simps) simp
qed

lemma pattern_roundtrip:
  assumes ok: "pattern_ok (float_ok ff pf) pt" and p: "rest p = showPattern ff pt @ r" and r: "next_kind r \<notin> {tokDash, tokLArrow}"
  shows "yields (parsePattern pf p) pt r" "yields (parseCreatePattern pf p) pt r"
proof -
  obtain n ns where ns: "pt_Nodes pt = n # ns" using ok by (cases "pt_Nodes pt") (auto simp: pattern_ok_def)
  let ?r = "concat (map (\<lambda>(r, n). showRel r @ showNode ff n) (zip (pt_Rels pt) ns)) @ r"
  have "rest p = showNode ff n @ ?r" using p ns by (simp add: showPattern_def)
  then obtain p1 where 1: "parseNodePattern pf p = Inr (n, p1)" "rest p1 = ?r"
    using node_roundtrip [of ff pf n p ?r] ok ns by (auto simp: yields_def pattern_ok_def)
  have "yields (parsePatternLoop pf \<lparr>pt_Nodes = [n], pt_Rels = []\<rparr> p1) \<lparr>pt_Nodes = n # ns, pt_Rels = pt_Rels pt\<rparr> r"
    using pattern_loop_roundtrip [OF _ _ _ r 1(2), of pf "\<lparr>pt_Nodes = [n], pt_Rels = []\<rparr>"] ok ns by (simp add: pattern_ok_def)
  moreover have "pt = \<lparr>pt_Nodes = n # ns, pt_Rels = pt_Rels pt\<rparr>" using ns by simp
  ultimately show "yields (parsePattern pf p) pt r" "yields (parseCreatePattern pf p) pt r"
    using 1 by (simp_all add: parsePattern_def parseCreatePattern_def)
qed

section \<open>Clauses\<close>

lemma commaList_roundtrip:
  assumes prog: "progresses item"
    and items: "\<forall>x \<in> set xs. \<forall>p r. rest p = sh x @ r \<longrightarrow> G r \<longrightarrow> yields (item p) x r"
    and G: "G r" "\<And>y. G ((tokComma, '','') # y)" and r: "next_kind r \<noteq> tokComma" and xs: "xs \<noteq> []"
  shows "rest p = commas (map sh xs) @ r \<Longrightarrow> yields (commaList item ys p) (ys @ xs) r"
  using xs items
proof (induction xs arbitrary: ys p)
  case (Cons x xs)
  let ?r = "(if xs = [] then [] else (tokComma, '','') # commas (map sh xs)) @ r"
  have p: "rest p = sh x @ ?r" using Cons.prems(1) by (cases xs) simp_all
  have "G ?r" using G by auto
  then obtain p1 where 1: "item p = Inr (x, p1)" "rest p1 = ?r" using Cons.prems(3) p by (fastforce simp: yields_def)
  show ?case
  proof (cases "xs = []")
    case True
    then show ?thesis using 1 r by (simp add: commaList_unfold [OF prog, of ys p] is_tok_rest yields_def)
  next
    case False
    then have "is_tok tokComma p1" "rest (adv p1) = commas (map sh xs) @ r" using 1(2) by (auto simp: is_tok_def rest_Cons)
    then show ?thesis using 1(1) Cons.IH [of "adv p1" "ys @ [x]"] Cons.prems(3) False by (simp add: commaList_unfold [OF prog, of ys p])
  qed
qed simp


lemma parseExpr_roundtrip:
  "expr_ok (float_ok ff pf) 4 e \<Longrightarrow> rest p = showExpr ff e @ r \<Longrightarrow> follows 4 r \<Longrightarrow> \<exists>p'. parseExpr pf p = Inr (e, p') \<and> rest p' = r"
  using expr_roundtrip [of ff pf 4 e p r] by (simp add: parseLevel_def parseExpr_def yields_def)

lemma follows_kinds:
  "next_kind r \<in> {tokEOF, tokComma, tokAs, tokAsc, tokDesc, tokOptional, tokSet, tokDelete, tokReturn, tokOrder, tokSkip, tokLimit, tokOn} \<Longrightarrow> follows l r"
  by (auto simp: follows_def compOp_def)

lemma returnItem_roundtrip:
  assumes ok: "expr_ok (float_ok ff pf) 4 (ri_Expr i)" and p: "rest p = showReturnItem ff i @ r" and r: "follows 4 r" "next_kind r \<noteq> tokAs"
  shows "yields (parseReturnItem pf p) i r"
proof -
  let ?r = "(if ri_Alias i = [] then [] else [(tokAs, ''AS''), (tokIdent, ri_Alias i)]) @ r"
  have "follows 4 ?r" using r(1) follows_kinds [of ?r 4] by auto
  then obtain p1 where 1: "parseExpr pf p = Inr (ri_Expr i, p1)" "rest p1 = ?r"
    using parseExpr_roundtrip [OF ok, of p ?r] p by (auto simp: showReturnItem_def)
  show ?thesis
  proof (cases "ri_Alias i = []")
    case True
    then show ?thesis using 1 r(2) by (auto simp: parseReturnItem_def is_tok_rest yields_def)
  next
    case False
    then have "is_tok tokAs p1" "rest (adv p1) = (tokIdent, ri_Alias i) # r" using 1(2) by (auto simp: rest_Cons is_tok_def)
    then show ?thesis using 1(1) yields_expect_bind(2) [of "adv p1" tokIdent "ri_Alias i" r]
      by (auto simp: parseReturnItem_def yields_def rest_Cons expect_def)
  qed
qed

lemma orderItem_roundtrip:
  assumes ok: "expr_ok (float_ok ff pf) 4 (oi_Expr i)" and p: "rest p = showOrderItem ff i @ r"
  shows "yields (parseOrderItem pf p) i r"
proof -
  let ?r = "(if oi_Desc i then (tokDesc, ''DESC'') else (tokAsc, ''ASC'')) # r"
  have "follows 4 ?r" by (rule follows_kinds) simp
  then obtain p1 where 1: "parseExpr pf p = Inr (oi_Expr i, p1)" "rest p1 = ?r"
    using parseExpr_roundtrip [OF ok, of p ?r] p by (auto simp: showOrderItem_def)
  then show ?thesis by (cases "oi_Desc i") (auto simp: parseOrderItem_def is_tok_def rest_Cons yields_def)
qed

lemma setItem_roundtrip:
  assumes ok: "expr_ok (float_ok ff pf) 0 (si_Value i)" and p: "rest p = showSetItem ff i @ r" and r: "follows 0 r"
  shows "yields (parseSetItem pf p) i r"
proof -
  have p': "rest p = (tokIdent, si_Variable i) # (tokDot, ''.'') # (tokIdent, si_Property i) # (tokEq, ''='') # showExpr ff (si_Value i) @ r"
    using p by (simp add: showSetItem_def)
  then have "rest (adv (adv (adv (adv p)))) = showExpr ff (si_Value i) @ r" by (simp add: rest_Cons)
  then obtain p5 where "parsePrimary pf (adv (adv (adv (adv p)))) = Inr (si_Value i, p5)" "rest p5 = r"
    using expr_roundtrip [OF ok _ r] by (auto simp: parseLevel_def yields_def)
  then show ?thesis using p' by (auto simp: parseSetItem_def rest_Cons expect_def yields_def)
qed

lemma return_roundtrip:
  assumes "return_ok (float_ok ff pf) rs" and "rest p = showReturn ff rs @ r" and "follows 4 r" "next_kind r \<notin> {tokAs, tokComma}"
  shows "yields (parseReturnClause pf p) rs r"
  unfolding parseReturnClause_def
proof (rule yields_expect_bind(1))
  show "rest p = (tokReturn, ''RETURN'') # commas (map (showReturnItem ff) rs) @ r" using assms(2) by (simp add: showReturn_def)
  fix p1 assume p1: "rest p1 = commas (map (showReturnItem ff) rs) @ r"
  have "\<forall>x \<in> set rs. \<forall>p r. rest p = showReturnItem ff x @ r \<longrightarrow> (follows 4 r \<and> next_kind r \<noteq> tokAs) \<longrightarrow> yields (parseReturnItem pf p) x r"
    using assms(1) returnItem_roundtrip by (auto simp: return_ok_def)
  from commaList_roundtrip [OF progresses_items(1) this _ _ _ _ p1, of "[]"]
  show "yields (commaList (parseReturnItem pf) [] p1) rs r" using assms by (simp add: return_ok_def follows_kinds)
qed

lemma setItems_roundtrip:
  assumes "set_ok (float_ok ff pf) ss" and "ss \<noteq> []" and "rest p = commas (map (showSetItem ff) ss) @ r" and "follows 0 r" "next_kind r \<noteq> tokComma"
  shows "yields (parseSetItems pf p) ss r"
proof -
  have "\<forall>x \<in> set ss. \<forall>p r. rest p = showSetItem ff x @ r \<longrightarrow> follows 0 r \<longrightarrow> yields (parseSetItem pf p) x r"
    using assms(1) setItem_roundtrip by (auto simp: set_ok_def)
  from commaList_roundtrip [OF progresses_items(3) this _ _ _ _ assms(3), of "[]"]
  show ?thesis using assms by (simp add: parseSetItems_def follows_kinds)
qed

lemma where_roundtrip:
  assumes "pred_option (expr_ok (float_ok ff pf) 4) w" and "rest p = showWhere ff w @ r" and "follows 4 r" "next_kind r \<noteq> tokWhere"
  shows "yields (parseWhere pf p) w r"
proof (cases w)
  case None
  then show ?thesis using assms by (simp add: parseWhere_def optional_def showWhere_def is_tok_rest yields_def)
next
  case (Some e)
  then have "is_tok tokWhere p" "rest (adv p) = showExpr ff e @ r" using assms(2) by (auto simp: showWhere_def rest_Cons is_tok_def)
  then show ?thesis using parseExpr_roundtrip [of ff pf e "adv p" r] assms Some
    by (auto simp: parseWhere_def optional_def pmap_def yields_def)
qed

lemma count_roundtrip:
  "count_ok n \<Longrightarrow> rest p = showCount k name n @ r \<Longrightarrow> yields (parseCount k name p) n r"
  by (auto simp: parseCount_def optional_def showCount_def is_tok_def rest_Cons expect_def Atoi_utoa yields_def)

lemma optReturn_roundtrip:
  assumes "pred_option (return_ok (float_ok ff pf)) rs" and "rest p = showOptReturn ff rs @ r" and "follows 4 r" "next_kind r \<notin> {tokAs, tokComma, tokReturn}"
  shows "yields (parseOptReturn pf p) rs r"
proof (cases rs)
  case None
  then show ?thesis using assms by (simp add: parseOptReturn_def showOptReturn_def is_tok_rest yields_def)
next
  case (Some x)
  then have "is_tok tokReturn p" using assms(2) by (auto simp: showOptReturn_def showReturn_def is_tok_rest)
  then show ?thesis using return_roundtrip [of ff pf x p r] assms Some
    by (auto simp: parseOptReturn_def showOptReturn_def pmap_def yields_def)
qed


text \<open>The optional clauses of a read query with their printed forms.\<close>

definition showOptional :: "(u64 \<Rightarrow> string) \<Rightarrow> Pattern option \<Rightarrow> Expression option \<Rightarrow> toks" where
  "showOptional ff pt w = (case pt of None \<Rightarrow> []
     | Some pt \<Rightarrow> [(tokOptional, ''OPTIONAL''), (tokMatch, ''MATCH'')] @ showPattern ff pt @ showWhere ff w)"

definition showSet :: "(u64 \<Rightarrow> string) \<Rightarrow> SetItem list \<Rightarrow> toks" where
  "showSet ff ss = (if ss = [] then [] else (tokSet, ''SET'') # commas (map (showSetItem ff) ss))"

definition showDelete :: "string list \<Rightarrow> toks" where
  "showDelete vs = (if vs = [] then [] else (tokDelete, ''DELETE'') # commas (map (\<lambda>v. [(tokIdent, v)]) vs))"

definition showOrder :: "(u64 \<Rightarrow> string) \<Rightarrow> OrderItem list \<Rightarrow> toks" where
  "showOrder ff os = (if os = [] then [] else [(tokOrder, ''ORDER''), (tokBy, ''BY'')] @ commas (map (showOrderItem ff) os))"

lemma pattern_follow: "next_kind (showWhere ff w @ r) = (if w = None then next_kind r else tokWhere)"
  by (cases w) (simp_all add: showWhere_def)

lemma optional_roundtrip:
  assumes ok: "pred_option (pattern_ok (float_ok ff pf)) pt" "pred_option (expr_ok (float_ok ff pf) 4) w" "pt = None \<longrightarrow> w = None"
    and p: "rest p = showOptional ff pt w @ r" and r: "follows 4 r" "next_kind r \<notin> {tokDash, tokLArrow, tokWhere, tokOptional}"
  shows "yields (parseOptionalMatch pf p) (pt, w) r"
proof (cases pt)
  case None
  then show ?thesis using ok(3) p r by (simp add: parseOptionalMatch_def optional_def showOptional_def is_tok_rest yields_def)
next
  case (Some x)
  then have a: "is_tok tokOptional p" "rest (adv p) = (tokMatch, ''MATCH'') # showPattern ff x @ showWhere ff w @ r"
    using p by (auto simp: showOptional_def rest_Cons is_tok_def)
  obtain t p1 where 1: "expect tokMatch (adv p) = Inr (t, p1)" "rest p1 = showPattern ff x @ showWhere ff w @ r"
    using yields_expect [OF a(2)] by (auto simp: yields_def)
  have "pattern_ok (float_ok ff pf) x" "next_kind (showWhere ff w @ r) \<notin> {tokDash, tokLArrow}" using ok(1) r(2) Some by (auto simp: pattern_follow)
  then obtain p2 where 2: "parsePattern pf p1 = Inr (x, p2)" "rest p2 = showWhere ff w @ r"
    using pattern_roundtrip(1) [OF _ 1(2)] by (auto simp: yields_def)
  show ?thesis using where_roundtrip [OF ok(2) 2(2) r(1)] r(2) a(1) 1 2 Some by (auto simp: parseOptionalMatch_def optional_def yields_def)
qed

lemma set_roundtrip:
  assumes "set_ok (float_ok ff pf) ss" and "rest p = showSet ff ss @ r" and "follows 4 r" "next_kind r \<notin> {tokComma, tokSet}"
  shows "yields (if is_tok tokSet p then parseSetClause pf p else Inr ([], p)) ss r"
proof (cases "ss = []")
  case True
  then show ?thesis using assms by (simp add: showSet_def is_tok_rest yields_def)
next
  case False
  then have a: "is_tok tokSet p" "rest p = (tokSet, ''SET'') # commas (map (showSetItem ff) ss) @ r" using assms(2) by (simp_all add: showSet_def is_tok_rest)
  have "yields (parseSetClause pf p) ss r"
    unfolding parseSetClause_def
    by (rule yields_expect_bind(1) [OF a(2)]) (rule setItems_roundtrip [OF assms(1) False _ follows_mono [OF assms(3)]], use assms(4) in auto)
  then show ?thesis using a(1) by simp
qed

lemma delete_roundtrip:
  assumes "rest p = showDelete vs @ r" and "next_kind r \<notin> {tokComma, tokDelete}"
  shows "yields (if is_tok tokDelete p then parseDeleteClause p else Inr ([], p)) vs r"
proof (cases "vs = []")
  case True
  then show ?thesis using assms by (simp add: showDelete_def is_tok_rest yields_def)
next
  case False
  then have a: "is_tok tokDelete p" "rest p = (tokDelete, ''DELETE'') # commas (map (\<lambda>v. [(tokIdent, v)]) vs) @ r"
    using assms(1) by (simp_all add: showDelete_def is_tok_rest)
  have i: "\<forall>x \<in> set vs. \<forall>p r. rest p = [(tokIdent, x)] @ r \<longrightarrow> True \<longrightarrow> yields (parseDeleteItem p) x r"
    by (auto simp: parseDeleteItem_def rest_Cons expect_def yields_def)
  have "yields (parseDeleteClause p) vs r"
    unfolding parseDeleteClause_def
    by (rule yields_expect_bind(1) [OF a(2)]) (use commaList_roundtrip [OF progresses_items(4) i, of _ _ "[]"] assms(2) False in auto)
  then show ?thesis using a(1) by simp
qed

lemma order_roundtrip:
  assumes "\<forall>i \<in> set os. expr_ok (float_ok ff pf) 4 (oi_Expr i)" and "rest p = showOrder ff os @ r" and "next_kind r \<notin> {tokComma, tokOrder}"
  shows "yields (parseOrderBy pf p) os r"
proof (cases "os = []")
  case True
  then show ?thesis using assms by (simp add: parseOrderBy_def optional_def showOrder_def is_tok_rest yields_def)
next
  case False
  then have a: "is_tok tokOrder p" "rest (adv p) = (tokBy, ''BY'') # commas (map (showOrderItem ff) os) @ r"
    using assms(2) by (auto simp: showOrder_def rest_Cons is_tok_def)
  have i: "\<forall>x \<in> set os. \<forall>p r. rest p = showOrderItem ff x @ r \<longrightarrow> True \<longrightarrow> yields (parseOrderItem pf p) x r"
    using assms(1) orderItem_roundtrip by blast
  have "yields (pbind (expect tokBy (adv p)) (\<lambda>_ p1. parseOrderItems pf p1)) os r"
    by (rule yields_expect_bind(1) [OF a(2)]) (use commaList_roundtrip [OF progresses_items(2) i, of _ _ "[]"] assms(3) False in \<open>auto simp: parseOrderItems_def\<close>)
  then show ?thesis using a(1) by (simp add: parseOrderBy_def optional_def)
qed

section \<open>Queries\<close>

lemma showQuery_alt:
  "showQuery ff q = (case q_Explain q of ExplainNone \<Rightarrow> [] | ExplainOnly \<Rightarrow> [(tokExplain, ''EXPLAIN'')] | ExplainProfile \<Rightarrow> [(tokProfile, ''PROFILE'')]) @
     (tokMatch, ''MATCH'') # showPattern ff (q_Match q) @ showWhere ff (q_Where q) @ showOptional ff (q_OptionalMatch q) (q_OptionalWhere q) @
     showSet ff (q_Set q) @ showDelete (q_Delete q) @ showReturn ff (q_Return q) @ showOrder ff (q_OrderBy q) @
     showCount tokSkip ''SKIP'' (q_Skip q) @ showCount tokLimit ''LIMIT'' (q_Limit q)"
  by (simp add: showQuery_def showOptional_def showSet_def showDelete_def showOrder_def)

lemma next_kind_clauses:
  "next_kind (showOptional ff pt w @ r) = (if pt = None then next_kind r else tokOptional)"
  "next_kind (showSet ff ss @ r) = (if ss = [] then next_kind r else tokSet)"
  "next_kind (showDelete vs @ r) = (if vs = [] then next_kind r else tokDelete)"
  "next_kind (showReturn ff rs @ r) = tokReturn"
  "next_kind (showOrder ff os @ r) = (if os = [] then next_kind r else tokOrder)"
  "next_kind (showCount k name n @ r) = k"
  by (auto simp: showOptional_def showSet_def showDelete_def showReturn_def showOrder_def showCount_def split: option.splits)

lemma explain_roundtrip:
  "rest p = (case x of ExplainNone \<Rightarrow> [] | ExplainOnly \<Rightarrow> [(tokExplain, ''EXPLAIN'')] | ExplainProfile \<Rightarrow> [(tokProfile, ''PROFILE'')]) @ (tokMatch, t) # r \<Longrightarrow>
     \<exists>p'. parseExplain p = (x, p') \<and> rest p' = (tokMatch, t) # r"
  by (cases x) (auto simp: parseExplain_def rest_Cons is_tok_def)

lemma query_roundtrip:
  assumes ok: "query_ok (float_ok ff pf) q" and p: "rest p = showQuery ff q @ [(tokEOF, [])]"
  shows "parseQuery pf p = Inr q"
proof -
  let ?r10 = "[(tokEOF, [])] :: toks"
  let ?r9 = "showCount tokLimit ''LIMIT'' (q_Limit q) @ ?r10"
  let ?r8 = "showCount tokSkip ''SKIP'' (q_Skip q) @ ?r9"
  let ?r7 = "showOrder ff (q_OrderBy q) @ ?r8"
  let ?r6 = "showReturn ff (q_Return q) @ ?r7"
  let ?r5 = "showDelete (q_Delete q) @ ?r6"
  let ?r4 = "showSet ff (q_Set q) @ ?r5"
  let ?r3 = "showOptional ff (q_OptionalMatch q) (q_OptionalWhere q) @ ?r4"
  let ?r2 = "showWhere ff (q_Where q) @ ?r3"
  note nk = next_kind_clauses pattern_follow
  have k: "next_kind ?r7 \<in> {tokOrder, tokSkip}" "next_kind ?r6 = tokReturn" "next_kind ?r5 \<in> {tokDelete, tokReturn}"
    "next_kind ?r4 \<in> {tokSet, tokDelete, tokReturn}" "next_kind ?r3 \<in> {tokOptional, tokSet, tokDelete, tokReturn}"
    "next_kind ?r2 \<in> {tokWhere, tokOptional, tokSet, tokDelete, tokReturn}"
    by (simp_all add: nk)
  have f: "follows 4 ?r7" "follows 4 ?r5" "follows 4 ?r4" "follows 4 ?r3"
    by (rule follows_kinds, use k in blast)+
  note ok = ok [unfolded query_ok_def]
  obtain p0 where 0: "parseExplain p = (q_Explain q, p0)" "rest p0 = (tokMatch, ''MATCH'') # showPattern ff (q_Match q) @ ?r2"
    using explain_roundtrip [of p "q_Explain q" "''MATCH''" "showPattern ff (q_Match q) @ ?r2"] p by (auto simp: showQuery_alt)
  obtain t p1 where 1: "expect tokMatch p0 = Inr (t, p1)" "rest p1 = showPattern ff (q_Match q) @ ?r2" using yields_expect [OF 0(2)] by (auto simp: yields_def)
  have "yields (parsePattern pf p1) (q_Match q) ?r2" by (rule pattern_roundtrip(1) [OF _ 1(2)]) (use ok k(6) in auto)
  then obtain p2 where 2: "parsePattern pf p1 = Inr (q_Match q, p2)" "rest p2 = ?r2" by (auto simp: yields_def)
  have "yields (parseWhere pf p2) (q_Where q) ?r3" by (rule where_roundtrip [OF _ 2(2) f(4)]) (use ok k(5) in auto)
  then obtain p3 where 3: "parseWhere pf p2 = Inr (q_Where q, p3)" "rest p3 = ?r3" by (auto simp: yields_def)
  have "yields (parseOptionalMatch pf p3) (q_OptionalMatch q, q_OptionalWhere q) ?r4" by (rule optional_roundtrip [OF _ _ _ 3(2) f(3)]) (use ok k(4) in auto)
  then obtain p4 where 4: "parseOptionalMatch pf p3 = Inr ((q_OptionalMatch q, q_OptionalWhere q), p4)" "rest p4 = ?r4" by (auto simp: yields_def)
  have "yields (if is_tok tokSet p4 then parseSetClause pf p4 else Inr ([], p4)) (q_Set q) ?r5" by (rule set_roundtrip [OF _ 4(2) f(2)]) (use ok k(3) in auto)
  then obtain p5 where 5: "(if is_tok tokSet p4 then parseSetClause pf p4 else Inr ([], p4)) = Inr (q_Set q, p5)" "rest p5 = ?r5" by (auto simp: yields_def)
  have "yields (if is_tok tokDelete p5 then parseDeleteClause p5 else Inr ([], p5)) (q_Delete q) ?r6" by (rule delete_roundtrip [OF 5(2)]) (use k(2) in auto)
  then obtain p6 where 6: "(if is_tok tokDelete p5 then parseDeleteClause p5 else Inr ([], p5)) = Inr (q_Delete q, p6)" "rest p6 = ?r6" by (auto simp: yields_def)
  have "yields (parseReturnClause pf p6) (q_Return q) ?r7" by (rule return_roundtrip [OF _ 6(2) f(1)]) (use ok k(1) in auto)
  then obtain p7 where 7: "parseReturnClause pf p6 = Inr (q_Return q, p7)" "rest p7 = ?r7" by (auto simp: yields_def)
  have "yields (parseOrderBy pf p7) (q_OrderBy q) ?r8" by (rule order_roundtrip [OF _ 7(2)]) (use ok in \<open>auto simp: nk\<close>)
  then obtain p8 where 8: "parseOrderBy pf p7 = Inr (q_OrderBy q, p8)" "rest p8 = ?r8" by (auto simp: yields_def)
  have "yields (parseCount tokSkip ''SKIP'' p8) (q_Skip q) ?r9" by (rule count_roundtrip [OF _ 8(2)]) (use ok in simp)
  then obtain p9 where 9: "parseCount tokSkip ''SKIP'' p8 = Inr (q_Skip q, p9)" "rest p9 = ?r9" by (auto simp: yields_def)
  have "yields (parseCount tokLimit ''LIMIT'' p9) (q_Limit q) ?r10" by (rule count_roundtrip [OF _ 9(2)]) (use ok in simp)
  then obtain p10 where 10: "parseCount tokLimit ''LIMIT'' p9 = Inr (q_Limit q, p10)" "rest p10 = ?r10" by (auto simp: yields_def)
  show ?thesis using 0 1 2 3 4 5 6 7 8 9 10 by (simp add: parseQuery_def atEOF_def is_tok_rest)
qed


lemma create_roundtrip:
  assumes ok: "write_ok (float_ok ff pf) w" and p: "rest p = showCreate ff w @ [(tokEOF, [])]"
  shows "parseCreateQuery pf p = Inr w"
proof -
  let ?r3 = "[(tokEOF, [])] :: toks"
  let ?r2 = "showOptReturn ff (w_Return w) @ ?r3"
  have k: "next_kind ?r2 \<in> {tokReturn, tokEOF}" by (simp add: showOptReturn_def showReturn_def split: option.splits)
  have "rest p = (tokCreate, ''CREATE'') # commas (map (showPattern ff) (w_Creates w)) @ ?r2" using p by (simp add: showCreate_def)
  then obtain t p1 where 1: "expect tokCreate p = Inr (t, p1)" "rest p1 = commas (map (showPattern ff) (w_Creates w)) @ ?r2"
    by (auto simp: rest_Cons expect_def)
  have i: "\<forall>x \<in> set (w_Creates w). \<forall>p r. rest p = showPattern ff x @ r \<longrightarrow> next_kind r \<notin> {tokDash, tokLArrow} \<longrightarrow> yields (parseCreatePattern pf p) x r"
    using ok pattern_roundtrip(2) by (auto simp: write_ok_def list_all_iff)
  have "yields (commaList (parseCreatePattern pf) [] p1) ([] @ w_Creates w) ?r2"
    by (rule commaList_roundtrip [OF progresses_items(5) i _ _ _ _ 1(2)]) (use ok k in \<open>auto simp: write_ok_def\<close>)
  then obtain p2 where 2: "commaList (parseCreatePattern pf) [] p1 = Inr (w_Creates w, p2)" "rest p2 = ?r2" by (auto simp: yields_def)
  have "yields (parseOptReturn pf p2) (w_Return w) ?r3" by (rule optReturn_roundtrip [OF _ 2(2) follows_kinds]) (use ok in \<open>auto simp: write_ok_def\<close>)
  then show ?thesis using 1 2 by (auto simp: parseCreateQuery_def yields_def atEOF_def is_tok_rest)
qed

lemma on_step:
  assumes p: "rest p = showOn ff kd ss @ r" and kd: "kd = (tokCreate, ''CREATE'') \<and> m' = m\<lparr>m_OnCreateSet := ss\<rparr> \<or> kd = (tokMatch, ''MATCH'') \<and> m' = m\<lparr>m_OnMatchSet := ss\<rparr>"
    and ss: "ss \<noteq> []" "set_ok (float_ok ff pf) ss" and r: "next_kind r \<in> {tokOn, tokReturn, tokEOF}"
  shows "\<exists>p'. parseOnLoop pf m p = parseOnLoop pf m' p' \<and> rest p' = r"
proof -
  have a: "is_tok tokOn p" "t_kind (cur (adv p)) = fst kd" "rest (adv (adv p)) = (tokSet, ''SET'') # commas (map (showSetItem ff) ss) @ r"
    using p ss(1) by (cases kd; auto simp: showOn_def rest_Cons is_tok_def)+
  obtain t p2 where 2: "expect tokSet (adv (adv p)) = Inr (t, p2)" "rest p2 = commas (map (showSetItem ff) ss) @ r"
    using yields_expect [OF a(3)] by (auto simp: yields_def)
  have "yields (parseSetItems pf p2) ss r" by (rule setItems_roundtrip [OF ss(2,1) 2(2) follows_kinds]) (use r in auto)
  then obtain p3 where 3: "parseSetItems pf p2 = Inr (ss, p3)" "rest p3 = r" by (auto simp: yields_def)
  have "parseOn pf m (adv p) = Inr (m', p3)" using kd a(2) 2(1) 3(1) by (auto simp: parseOn_def Let_def)
  then show ?thesis using a(1) 3(2) by (auto simp: parseOnLoop.simps [of pf m p])
qed

lemma on_roundtrip:
  assumes p: "rest p = showOn ff (tokCreate, ''CREATE'') cs @ showOn ff (tokMatch, ''MATCH'') ms @ r"
    and ok: "set_ok (float_ok ff pf) cs" "set_ok (float_ok ff pf) ms" and r: "next_kind r \<in> {tokReturn, tokEOF}"
    and m: "m_OnCreateSet m = []" "m_OnMatchSet m = []"
  shows "yields (parseOnLoop pf m p) (m\<lparr>m_OnCreateSet := cs, m_OnMatchSet := ms\<rparr>) r"
proof -
  let ?r = "showOn ff (tokMatch, ''MATCH'') ms @ r" and ?m = "m\<lparr>m_OnCreateSet := cs\<rparr>"
  have k: "next_kind ?r \<in> {tokOn, tokReturn, tokEOF}" using r by (auto simp: showOn_def)
  obtain p1 where 1: "parseOnLoop pf m p = parseOnLoop pf ?m p1" "rest p1 = ?r"
  proof (cases "cs = []")
    case True
    then have "?m = m" using m(1) by simp
    then show ?thesis using that [of p] p True by (simp add: showOn_def)
  next
    case False
    then show ?thesis using that on_step [OF p _ False ok(1) k, of ?m m] by auto
  qed
  have m2: "?m\<lparr>m_OnMatchSet := ms\<rparr> = m\<lparr>m_OnCreateSet := cs, m_OnMatchSet := ms\<rparr>" by simp
  obtain p2 where 2: "parseOnLoop pf ?m p1 = parseOnLoop pf (?m\<lparr>m_OnMatchSet := ms\<rparr>) p2" "rest p2 = r"
  proof (cases "ms = []")
    case True
    then have "?m\<lparr>m_OnMatchSet := ms\<rparr> = ?m" using m(2) by simp
    then show ?thesis using that [of p1] 1(2) True by (simp add: showOn_def)
  next
    case False
    then show ?thesis using that on_step [OF 1(2) _ False ok(2), of "?m\<lparr>m_OnMatchSet := ms\<rparr>" ?m] r by auto
  qed
  have "\<not> is_tok tokOn p2" using r 2(2) by (auto simp: is_tok_rest)
  then show ?thesis using 1(1) 2 m2 by (simp add: parseOnLoop.simps [of pf "?m\<lparr>m_OnMatchSet := ms\<rparr>" p2] yields_def)
qed

lemma merge_roundtrip:
  assumes ok: "merge_ok (float_ok ff pf) m" and p: "rest p = showMerge ff m @ [(tokEOF, [])]"
  shows "parseMergeQuery pf p = Inr m"
proof -
  let ?r4 = "[(tokEOF, [])] :: toks"
  let ?r3 = "showOptReturn ff (m_Return m) @ ?r4"
  let ?r2 = "showOn ff (tokCreate, ''CREATE'') (m_OnCreateSet m) @ showOn ff (tokMatch, ''MATCH'') (m_OnMatchSet m) @ ?r3"
  let ?n = "\<lparr>np_Variable = mp_Variable (m_Pattern m), np_Labels = mp_Labels (m_Pattern m), np_Props = mp_Props (m_Pattern m)\<rparr>"
  let ?m = "\<lparr>m_Pattern = m_Pattern m, m_OnCreateSet = [], m_OnMatchSet = [], m_Return = None\<rparr>"
  have k: "next_kind ?r3 \<in> {tokReturn, tokEOF}" by (simp add: showOptReturn_def showReturn_def split: option.splits)
  note ok = ok [unfolded merge_ok_def]
  have "rest p = (tokMerge, ''MERGE'') # showNode ff ?n @ ?r2" using p by (simp add: showMerge_def)
  then obtain t p1 where 1: "expect tokMerge p = Inr (t, p1)" "rest p1 = showNode ff ?n @ ?r2" by (auto simp: rest_Cons expect_def)
  have "yields (parseNodePattern pf p1) ?n ?r2" by (rule node_roundtrip [OF _ 1(2)]) (use ok in \<open>simp add: node_ok_def\<close>)
  then obtain p2 where 2: "parseNodePattern pf p1 = Inr (?n, p2)" "rest p2 = ?r2" by (auto simp: yields_def)
  have "yields (parseOnLoop pf ?m p2) (?m\<lparr>m_OnCreateSet := m_OnCreateSet m, m_OnMatchSet := m_OnMatchSet m\<rparr>) ?r3"
    by (rule on_roundtrip [OF 2(2) _ _ k]) (use ok in simp_all)
  then obtain p3 where 3: "parseOnLoop pf ?m p2 = Inr (?m\<lparr>m_OnCreateSet := m_OnCreateSet m, m_OnMatchSet := m_OnMatchSet m\<rparr>, p3)" "rest p3 = ?r3"
    by (auto simp: yields_def)
  have "yields (parseOptReturn pf p3) (m_Return m) ?r4" by (rule optReturn_roundtrip [OF _ 3(2) follows_kinds]) (use ok in auto)
  then obtain p4 where 4: "parseOptReturn pf p3 = Inr (m_Return m, p4)" "rest p4 = ?r4" by (auto simp: yields_def)
  have mp: "\<lparr>mp_Variable = mp_Variable (m_Pattern m), mp_Labels = mp_Labels (m_Pattern m), mp_Props = mp_Props (m_Pattern m)\<rparr> = m_Pattern m" by simp
  have l: "np_Labels ?n \<noteq> []" using ok by simp
  show ?thesis using 1(1) 2(1) 3(1) 4 l
    by (simp only: parseMergeQuery_def or_fail_Inr(2) pbind_simps if_False NodePattern.select_convs mp) (simp add: atEOF_def is_tok_rest)
qed


section \<open>The printed tokens are well-formed\<close>

lemma keyword_kind: "map_of keywordTable x = Some k \<Longrightarrow> k \<notin> {tokString, tokParam, tokInt, tokFloat, tokIdent} \<and> k \<notin> set punctuation"
  using map_of_SomeD [of keywordTable x k] by (auto simp: keywordTable_def punctuation_def simp del: map_of.simps)

lemma keyword_ok: "map_of keywordTable (toUpper t) = Some k \<Longrightarrow> identText t \<Longrightarrow> token_ok (k, t)"
  using keyword_kind [of "toUpper t" k] by (auto simp: token_ok_def)

lemma keywords_ok [simp]:
  "token_ok (tokTrue, ''TRUE'')" "token_ok (tokFalse, ''FALSE'')" "token_ok (tokNull, ''NULL'')" "token_ok (tokNot, ''NOT'')" "token_ok (tokAnd, ''AND'')"
  "token_ok (tokOr, ''OR'')" "token_ok (tokAs, ''AS'')" "token_ok (tokAsc, ''ASC'')" "token_ok (tokDesc, ''DESC'')" "token_ok (tokReturn, ''RETURN'')"
  "token_ok (tokWhere, ''WHERE'')" "token_ok (tokMatch, ''MATCH'')" "token_ok (tokOptional, ''OPTIONAL'')" "token_ok (tokSet, ''SET'')"
  "token_ok (tokDelete, ''DELETE'')" "token_ok (tokOrder, ''ORDER'')" "token_ok (tokBy, ''BY'')" "token_ok (tokSkip, ''SKIP'')"
  "token_ok (tokLimit, ''LIMIT'')" "token_ok (tokExplain, ''EXPLAIN'')" "token_ok (tokProfile, ''PROFILE'')" "token_ok (tokCreate, ''CREATE'')"
  "token_ok (tokMerge, ''MERGE'')" "token_ok (tokOn, ''ON'')"
  by (rule keyword_ok, code_simp, code_simp)+

lemma punctuation_ok [simp]:
  "token_ok (tokEq, ''='')" "token_ok (tokNeq, ''<>'')" "token_ok (tokLt, ''<'')" "token_ok (tokGt, ''>'')" "token_ok (tokLte, ''<='')"
  "token_ok (tokGte, ''>='')" "token_ok (tokLParen, ''('')" "token_ok (tokRParen, '')'')" "token_ok (tokLBracket, ''['')"
  "token_ok (tokRBracket, '']'')" "token_ok (tokLBrace, ''{'')" "token_ok (tokRBrace, ''}'')" "token_ok (tokColon, '':'')" "token_ok (tokDot, ''.'')"
  "token_ok (tokDotDot, ''..'')" "token_ok (tokComma, '','')" "token_ok (tokStar, ''*'')" "token_ok (tokDash, ''-'')" "token_ok (tokArrow, ''->'')"
  "token_ok (tokLArrow, ''<-'')"
  by (simp_all add: token_ok_def punctuation_def)

lemma name_tok_ok: "name_ok s \<Longrightarrow> token_ok (nameTok s)"
proof -
  have "token_ok (tokIdent, s) \<Longrightarrow> map_of keywordTable (toUpper s) = None" "token_ok (tokType, s) \<Longrightarrow> map_of keywordTable (toUpper s) = Some tokType"
    by (simp_all add: token_ok_def punctuation_def)
  then show "name_ok s \<Longrightarrow> token_ok (nameTok s)" by (auto simp: nameTok_def)
qed

lemma data_ok [simp]: "token_ok (tokString, s)" "token_ok (tokInt, utoa n)" "list_all isIdentPart s \<Longrightarrow> token_ok (tokParam, s)"
  using digits_utoa [of n] by (simp_all add: token_ok_def)

definition toks_ok :: "toks \<Rightarrow> bool" where "toks_ok ts \<longleftrightarrow> list_all token_ok ts"

lemma toks_ok_simps [simp]:
  "toks_ok []" "toks_ok (t # ts) \<longleftrightarrow> token_ok t \<and> toks_ok ts" "toks_ok (ts @ us) \<longleftrightarrow> toks_ok ts \<and> toks_ok us"
  "toks_ok (concat tss) \<longleftrightarrow> (\<forall>ts \<in> set tss. toks_ok ts)"
  by (auto simp: toks_ok_def list_all_iff)

lemma sep_ok: "token_ok c \<Longrightarrow> (\<And>x. x \<in> set xs \<Longrightarrow> toks_ok (f x)) \<Longrightarrow> toks_ok (sep [c] (map f xs))"
  by (induction xs rule: induct_list012) auto

lemma lit_tokens_ok: "lit_ok (float_ok ff pf) v \<Longrightarrow> toks_ok (showLit ff v)"
  by (cases v) (auto simp: float_ok_def)

lemma expr_tokens_ok: "expr_ok (float_ok ff pf) l e \<Longrightarrow> toks_ok (showExpr ff e)"
proof (induction e arbitrary: l)
  case (ExprComparison a op b)
  moreover have "token_ok (opTok op)" by (cases op) (simp_all add: opTok_def)
  ultimately show ?case by auto
next
  case (ExprFuncCall f args)
  then have "toks_ok (commas (map (showExpr ff) args))" by (intro sep_ok) auto
  then show ?case using ExprFuncCall.prems by (simp add: name_tok_ok)
next
  case (ExprAnd es)
  then have "toks_ok (sep [(tokAnd, ''AND'')] (map (showExpr ff) es))" by (intro sep_ok) auto
  then show ?case by simp
next
  case (ExprOr es)
  then have "toks_ok (sep [(tokOr, ''OR'')] (map (showExpr ff) es))" by (intro sep_ok) auto
  then show ?case by simp
qed (auto simp: lit_tokens_ok name_tok_ok)

lemma props_tokens_ok:
  assumes "props_ok (float_ok ff pf) ps"
  shows "toks_ok (showProps ff ps)"
proof -
  have v: "pval_ok (float_ok ff pf) v \<Longrightarrow> toks_ok (showPVal ff v)" for v by (cases v) (auto simp: lit_tokens_ok)
  have "toks_ok (commas (map (showProp ff) ps))" by (rule sep_ok) (use assms in \<open>auto simp: props_ok_def showProp_def intro!: v\<close>)
  then show ?thesis by (simp add: showProps_def)
qed

lemma node_tokens_ok: "node_ok (float_ok ff pf) n \<Longrightarrow> toks_ok (showNode ff n)"
  by (auto simp: node_ok_def showNode_def optTok_def showLabels_def list_all_iff props_tokens_ok)

lemma rel_tokens_ok: "rel_ok r \<Longrightarrow> toks_ok (showRel r)"
  by (auto simp: rel_ok_def showRel_def optTok_def showHops_def)

lemma pattern_tokens_ok:
  assumes "pattern_ok (float_ok ff pf) pt"
  shows "toks_ok (showPattern ff pt)"
proof -
  have "pt_Nodes pt \<noteq> []" "\<forall>n \<in> set (pt_Nodes pt). toks_ok (showNode ff n)" "\<forall>r \<in> set (pt_Rels pt). toks_ok (showRel r)"
    using assms node_tokens_ok rel_tokens_ok by (auto simp: pattern_ok_def list_all_iff)
  then have "toks_ok (showRel r @ showNode ff n)" if "(r, n) \<in> set (zip (pt_Rels pt) (tl (pt_Nodes pt)))" for r n
    using that by (meson list.set_sel(2) set_zip_leftD set_zip_rightD toks_ok_simps(3))
  then show ?thesis using \<open>pt_Nodes pt \<noteq> []\<close> \<open>\<forall>n \<in> set (pt_Nodes pt). toks_ok (showNode ff n)\<close> by (auto simp: showPattern_def)
qed

lemma return_tokens_ok: "return_ok (float_ok ff pf) rs \<Longrightarrow> toks_ok (showReturn ff rs)"
  by (auto simp: showReturn_def return_ok_def showReturnItem_def intro!: sep_ok expr_tokens_ok)

lemma clause_tokens_ok:
  "pred_option (return_ok (float_ok ff pf)) rs \<Longrightarrow> toks_ok (showOptReturn ff rs)"
  "set_ok (float_ok ff pf) ss \<Longrightarrow> toks_ok (commas (map (showSetItem ff) ss))"
  "pred_option (expr_ok (float_ok ff pf) 4) w \<Longrightarrow> toks_ok (showWhere ff w)"
  "\<forall>i \<in> set os. expr_ok (float_ok ff pf) 4 (oi_Expr i) \<Longrightarrow> toks_ok (commas (map (showOrderItem ff) os))"
  "list_all ident_ok vs \<Longrightarrow> toks_ok (commas (map (\<lambda>v. [(tokIdent, v)]) vs))"
proof -
  show "pred_option (return_ok (float_ok ff pf)) rs \<Longrightarrow> toks_ok (showOptReturn ff rs)" by (cases rs) (auto simp: showOptReturn_def return_tokens_ok)
  show "set_ok (float_ok ff pf) ss \<Longrightarrow> toks_ok (commas (map (showSetItem ff) ss))"
    by (rule sep_ok) (auto simp: set_ok_def showSetItem_def intro!: expr_tokens_ok)
  show "pred_option (expr_ok (float_ok ff pf) 4) w \<Longrightarrow> toks_ok (showWhere ff w)" by (cases w) (auto simp: showWhere_def intro!: expr_tokens_ok)
  show "\<forall>i \<in> set os. expr_ok (float_ok ff pf) 4 (oi_Expr i) \<Longrightarrow> toks_ok (commas (map (showOrderItem ff) os))"
    by (rule sep_ok) (auto simp: showOrderItem_def intro!: expr_tokens_ok)
  show "list_all ident_ok vs \<Longrightarrow> toks_ok (commas (map (\<lambda>v. [(tokIdent, v)]) vs))" by (rule sep_ok) (auto simp: list_all_iff)
qed

lemma cypher_tokens_ok:
  assumes "cypher_ok (float_ok ff pf) c"
  shows "toks_ok (showCypher ff c)"
proof (cases c)
  case (CRead q)
  then show ?thesis using assms
    by (auto simp: query_ok_def showQuery_def showCount_def pattern_tokens_ok clause_tokens_ok return_tokens_ok split: option.splits ExplainMode.splits)
next
  case (CWrite w)
  then show ?thesis using assms by (auto simp: write_ok_def list_all_iff showCreate_def clause_tokens_ok intro!: sep_ok pattern_tokens_ok)
next
  case (CMerge m)
  then show ?thesis using assms by (auto simp: merge_ok_def showMerge_def showOn_def clause_tokens_ok intro!: node_tokens_ok [of ff pf] simp: node_ok_def)
qed

end
