(* ===== verification/QuerySound.thy ===== *)
theory QuerySound
  imports QueryText
begin

text \<open>
  Every syntax tree the parser returns is well-formed: patterns alternate nodes and relationships, property maps have
  distinct keys, identifiers are identifier tokens, numbers are in range, the expression levels are respected. The theory ends with the properties of the Cypher front end.
\<close>

section \<open>Results of the parser\<close>

definition sane :: "Token list \<Rightarrow> bool" where
  "sane T \<longleftrightarrow> (\<forall>t \<in> set T. t_kind t = tokEOF \<or> token_ok (kt t))"

definition good :: "Token list \<Rightarrow> ('a \<Rightarrow> bool) \<Rightarrow> cerr + 'a \<times> parser \<Rightarrow> bool" where
  "good T P m \<longleftrightarrow> (\<forall>x p. m = Inr (x, p) \<longrightarrow> P x \<and> ps_tokens p = T)"

lemma good_Inl [simp]: "good T P (Inl e)"
  by (simp add: good_def)

lemma good_Inr [simp]: "good T P (Inr (x, p)) \<longleftrightarrow> P x \<and> ps_tokens p = T"
  unfolding good_def by (simp only: sum.inject prod.inject) blast

lemma good_or_fail [simp]: "good T P (or_fail m f) \<longleftrightarrow> good T P m"
  unfolding good_def or_fail_Inr ..

lemma adv_tokens [simp]: "ps_tokens (adv p) = ps_tokens p"
  by (simp add: adv_def)

lemma good_bind: "good T P m \<Longrightarrow> (\<And>x p. m = Inr (x, p) \<Longrightarrow> P x \<Longrightarrow> ps_tokens p = T \<Longrightarrow> good T Q (f x p)) \<Longrightarrow> good T Q (pbind m f)"
  unfolding good_def pbind_Inr by blast

lemma goodI: "(\<And>x p. m = Inr (x, p) \<Longrightarrow> P x \<and> ps_tokens p = T) \<Longrightarrow> good T P m"
  unfolding good_def by blast

lemma goodD: "good T P m \<Longrightarrow> m = Inr (x, p) \<Longrightarrow> P x \<and> ps_tokens p = T"
  unfolding good_def by blast

lemma good_mono: "good T P m \<Longrightarrow> (\<And>x. P x \<Longrightarrow> Q x) \<Longrightarrow> good T Q m"
  by (auto simp: good_def)

lemma cur_ok: "sane (ps_tokens p) \<Longrightarrow> t_kind (cur p) \<noteq> tokEOF \<Longrightarrow> token_ok (t_kind (cur p), t_text (cur p))"
  by (auto simp: sane_def cur_def split: if_splits)

lemma good_expect: "sane T \<Longrightarrow> ps_tokens p = T \<Longrightarrow> k \<noteq> tokEOF \<Longrightarrow> good T (\<lambda>t. token_ok (k, t_text t)) (expect k p)"
  using cur_ok [of p] by (auto simp: good_def expect_Inr)

abbreviation any :: "u64 \<Rightarrow> bool" where "any \<equiv> \<lambda>_. True"

lemma expr_ok_mono: "expr_ok F l e \<Longrightarrow> l \<le> l' \<Longrightarrow> expr_ok F l' e"
  by (cases e) auto

lemma count_ParseInt: "token_ok (tokInt, t) \<Longrightarrow> count_ok (fst (ParseInt t))"
proof -
  assume "token_ok (tokInt, t)"
  then have d: "t \<noteq> []" "list_all isDigit t" by (simp_all add: token_ok_def)
  then obtain c r where t: "t = c # r" "isDigit c" by (cases t) auto
  then have "c \<noteq> CHR ''-''" "c \<noteq> CHR ''+''" by (auto simp: isDigit_def)
  then show ?thesis using t d by (auto simp: ParseInt_def Let_def count_ok_def MaxInt64_def)
qed

lemma token_kinds:
  "token_ok (tokIdent, s) \<Longrightarrow> name_ok s" "token_ok (tokType, s) \<Longrightarrow> name_ok s" "token_ok (tokParam, s) \<Longrightarrow> list_all isIdentPart s"
  by (auto simp: token_ok_def)

lemma primaryLiteral_good:
  assumes "sane (ps_tokens p)" and "primaryLiteral pf (cur p) = Some v"
  shows "lit_ok any v"
  using assms cur_ok [of p] count_ParseInt [of "t_text (cur p)"]
  by (auto simp: primaryLiteral_def split: TokenKind.splits)

section \<open>Expressions\<close>

lemma expr_good:
  "sane (ps_tokens p) \<Longrightarrow> good (ps_tokens p) (expr_ok any 0) (parsePrimary pf p)"
  "sane (ps_tokens p) \<Longrightarrow> \<forall>e \<in> set es. expr_ok any 4 e \<Longrightarrow> good (ps_tokens p) (\<lambda>es. \<forall>e \<in> set es. expr_ok any 4 e) (parseArgs pf es p)"
  "sane (ps_tokens p) \<Longrightarrow> good (ps_tokens p) (expr_ok any 1) (parseComparison pf p)"
  "sane (ps_tokens p) \<Longrightarrow> good (ps_tokens p) (expr_ok any 2) (parseNotExpr pf p)"
  "sane (ps_tokens p) \<Longrightarrow> \<forall>e \<in> set es. expr_ok any 2 e \<Longrightarrow> good (ps_tokens p) (\<lambda>xs. length es \<le> length xs \<and> (is_tok tokAnd p \<longrightarrow> length es < length xs) \<and> (\<forall>e \<in> set xs. expr_ok any 2 e)) (parseAndLoop pf es p)"
  "sane (ps_tokens p) \<Longrightarrow> good (ps_tokens p) (expr_ok any 3) (parseAndExpr pf p)"
  "sane (ps_tokens p) \<Longrightarrow> \<forall>e \<in> set es. expr_ok any 3 e \<Longrightarrow> good (ps_tokens p) (\<lambda>xs. length es \<le> length xs \<and> (is_tok tokOr p \<longrightarrow> length es < length xs) \<and> (\<forall>e \<in> set xs. expr_ok any 3 e)) (parseOrLoop pf es p)"
  "sane (ps_tokens p) \<Longrightarrow> good (ps_tokens p) (expr_ok any 4) (parseOrExpr pf p)"
proof (induction pf p and pf es p and pf p and pf p and pf es p and pf p and pf es p and pf p
    rule: parsePrimary_parseArgs_parseComparison_parseNotExpr_parseAndLoop_parseAndExpr_parseOrLoop_parseOrExpr.induct)
  case (1 pf p)
  let ?T = "ps_tokens p"
  show ?case
  proof (cases "t_kind (cur p) = tokIdent \<or> t_kind (cur p) = tokType")
    case a: True
    then have n: "name_ok (t_text (cur p))" using cur_ok [OF 1(3)] by auto
    consider "is_tok tokDot (adv p)" | "\<not> is_tok tokDot (adv p)" "is_tok tokLParen (adv p)" | "\<not> is_tok tokDot (adv p)" "\<not> is_tok tokLParen (adv p)" by blast
    then show ?thesis
    proof cases
      case 1
      show ?thesis using a 1 n good_expect [OF \<open>sane ?T\<close>, of "adv (adv p)" tokIdent]
        by (subst parsePrimary.simps) (auto intro: good_bind)
    next
      case 2
      have "good ?T (\<lambda>as. \<forall>e \<in> set as. expr_ok any 4 e) (if \<not> is_tok tokRParen (adv (adv p)) then pbind (parseOrExpr pf (adv (adv p))) (\<lambda>arg p3. parseArgs pf [arg] p3) else Inr ([], adv (adv p)))"
        using "1.IH"(1,2) [OF a 2] \<open>sane ?T\<close> by (auto intro!: good_bind [where P = "expr_ok any 4"])
      then have "good ?T (expr_ok any 0) (pbind (if \<not> is_tok tokRParen (adv (adv p)) then pbind (parseOrExpr pf (adv (adv p))) (\<lambda>arg p3. parseArgs pf [arg] p3) else Inr ([], adv (adv p)))
         (\<lambda>args p4. pbind (expect tokRParen p4) (\<lambda>_ p5. Inr (ExprFuncCall (t_text (cur p)) args, p5))))"
        by (rule good_bind) (rule good_bind [OF good_expect [OF \<open>sane ?T\<close>]], use n in auto)
      then show ?thesis using a 2 by (subst parsePrimary.simps) simp
    next
      case 3
      then show ?thesis using a n by (subst parsePrimary.simps) simp
    qed
  next
    case False
    then show ?thesis using cur_ok [OF \<open>sane ?T\<close>] primaryLiteral_good [OF \<open>sane ?T\<close>, of pf] token_kinds(3)
      by (subst parsePrimary.simps) (auto split: option.splits)
  qed
next
  case (2 pf es p)
  then show ?case by (subst parseArgs.simps) (auto intro!: good_bind [of "ps_tokens p" "expr_ok any 4"])
next
  case (3 pf p)
  have l: "good (ps_tokens p) (expr_ok any 0) (parsePrimary pf p)" using 3 by blast
  show ?case
  proof (subst parseComparison.simps, rule good_bind [OF l])
    fix lhs p1 assume a: "parsePrimary pf p = Inr (lhs, p1)" "expr_ok any 0 lhs" "ps_tokens p1 = ps_tokens p"
    show "good (ps_tokens p) (expr_ok any 1) (case compOp (t_kind (cur p1)) of None \<Rightarrow> Inr (lhs, p1)
        | Some op \<Rightarrow> pbind (parsePrimary pf (adv p1)) (\<lambda>rhs p2. Inr (ExprComparison lhs op rhs, p2)))"
      using a 3(2) [OF a(1)] 3(3) by (auto split: option.splits intro: expr_ok_mono good_bind [where P = "expr_ok any 0"])
  qed
next
  case (4 pf p)
  have "good (ps_tokens p) (expr_ok any 2) (parseComparison pf p)" if "\<not> is_tok tokNot p"
    by (rule good_mono [OF 4(2) [OF that 4(3)]]) (rule expr_ok_mono, assumption, simp)
  then show ?case using 4(1,3) by (subst parseNotExpr.simps) (auto intro!: good_bind [of "ps_tokens p" "expr_ok any 1"])
next
  case (5 pf es p)
  show ?case
  proof (cases "is_tok tokAnd p")
    case True
    have i: "good (ps_tokens p) (expr_ok any 2) (parseNotExpr pf (adv p))" using 5(1) [OF True] 5(3) by simp
    show ?thesis using True
    proof (subst parseAndLoop.simps, simp, intro good_bind [OF i])
      fix x p1 assume x: "parseNotExpr pf (adv p) = Inr (x, p1)" "expr_ok any 2 x" "ps_tokens p1 = ps_tokens p"
      have "good (ps_tokens p1) (\<lambda>xs. length (es @ [x]) \<le> length xs \<and> (is_tok tokAnd p1 \<longrightarrow> length (es @ [x]) < length xs) \<and> (\<forall>e \<in> set xs. expr_ok any 2 e)) (parseAndLoop pf (es @ [x]) p1)"
        by (rule 5(2) [OF True x(1)]) (use x 5(3,4) in auto)
      then show "good (ps_tokens p) (\<lambda>xs. length es \<le> length xs \<and> length es < length xs \<and> (\<forall>e \<in> set xs. expr_ok any 2 e)) (parseAndLoop pf (es @ [x]) p1)"
        using x(3) by (auto elim!: good_mono)
    qed
  next
    case False
    then show ?thesis using 5(4) by (subst parseAndLoop.simps) simp
  qed
next
  case (6 pf p)
  have i: "good (ps_tokens p) (expr_ok any 2) (parseNotExpr pf p)" using 6 by blast
  show ?case
  proof (subst parseAndExpr.simps, rule good_bind [OF i])
    fix x p1 assume x: "parseNotExpr pf p = Inr (x, p1)" "expr_ok any 2 x" "ps_tokens p1 = ps_tokens p"
    have "is_tok tokAnd p1 \<Longrightarrow> good (ps_tokens p) (\<lambda>xs. length [x] < length xs \<and> (\<forall>e \<in> set xs. expr_ok any 2 e)) (parseAndLoop pf [x] p1)"
      using 6(2) [OF x(1)] x 6(3) by (auto elim!: good_mono)
    then show "good (ps_tokens p) (expr_ok any 3) (if \<not> is_tok tokAnd p1 then Inr (x, p1) else pbind (parseAndLoop pf [x] p1) (\<lambda>operands p2. Inr (ExprAnd operands, p2)))"
      using x by (auto intro: expr_ok_mono good_bind)
  qed
next
  case (7 pf es p)
  show ?case
  proof (cases "is_tok tokOr p")
    case True
    have i: "good (ps_tokens p) (expr_ok any 3) (parseAndExpr pf (adv p))" using 7(1) [OF True] 7(3) by simp
    show ?thesis using True
    proof (subst parseOrLoop.simps, simp, intro good_bind [OF i])
      fix x p1 assume x: "parseAndExpr pf (adv p) = Inr (x, p1)" "expr_ok any 3 x" "ps_tokens p1 = ps_tokens p"
      have "good (ps_tokens p1) (\<lambda>xs. length (es @ [x]) \<le> length xs \<and> (is_tok tokOr p1 \<longrightarrow> length (es @ [x]) < length xs) \<and> (\<forall>e \<in> set xs. expr_ok any 3 e)) (parseOrLoop pf (es @ [x]) p1)"
        by (rule 7(2) [OF True x(1)]) (use x 7(3,4) in auto)
      then show "good (ps_tokens p) (\<lambda>xs. length es \<le> length xs \<and> length es < length xs \<and> (\<forall>e \<in> set xs. expr_ok any 3 e)) (parseOrLoop pf (es @ [x]) p1)"
        using x(3) by (auto elim!: good_mono)
    qed
  next
    case False
    then show ?thesis using 7(4) by (subst parseOrLoop.simps) simp
  qed
next
  case (8 pf p)
  have i: "good (ps_tokens p) (expr_ok any 3) (parseAndExpr pf p)" using 8 by blast
  show ?case
  proof (subst parseOrExpr.simps, rule good_bind [OF i])
    fix x p1 assume x: "parseAndExpr pf p = Inr (x, p1)" "expr_ok any 3 x" "ps_tokens p1 = ps_tokens p"
    have "is_tok tokOr p1 \<Longrightarrow> good (ps_tokens p) (\<lambda>xs. length [x] < length xs \<and> (\<forall>e \<in> set xs. expr_ok any 3 e)) (parseOrLoop pf [x] p1)"
      using 8(2) [OF x(1)] x 8(3) by (auto elim!: good_mono)
    then show "good (ps_tokens p) (expr_ok any 4) (if \<not> is_tok tokOr p1 then Inr (x, p1) else pbind (parseOrLoop pf [x] p1) (\<lambda>operands p2. Inr (ExprOr operands, p2)))"
      using x by (auto intro: expr_ok_mono good_bind)
  qed
qed


section \<open>Patterns and clauses\<close>

lemma literal_good:
  assumes "sane T" and "ps_tokens p = T"
  shows "good T (pval_ok any) (parseLiteral pf p)"
proof -
  have n: "t_kind (cur p) = tokInt \<Longrightarrow> ParseInt (t_text (cur p)) = (n, False) \<Longrightarrow> count_ok n" for n
    using cur_ok [of p] count_ParseInt [of "t_text (cur p)"] assms by auto
  have s: "t_kind (cur p) = tokParam \<Longrightarrow> list_all isIdentPart (t_text (cur p))" using cur_ok [of p] token_kinds(3) assms by auto
  show ?thesis using assms n s
    by (cases "ParseInt (t_text (cur p))"; cases "pf (t_text (cur p))") (auto simp: parseLiteral_def Let_def split: TokenKind.splits)
qed

lemma update_mem: "kv \<in> set (AList.update k v ps) \<Longrightarrow> kv = (k, v) \<or> kv \<in> set ps"
  by (induction ps) (auto split: if_splits)

lemma propLoop_good:
  "sane (ps_tokens p) \<Longrightarrow> props_ok any props \<Longrightarrow> good (ps_tokens p) (props_ok any) (parsePropMapLoop pf props p)"
proof (induction pf props p rule: parsePropMapLoop.induct)
  case (1 pf props p)
  let ?T = "ps_tokens p"
  show ?case
  proof (cases "\<not> is_tok tokRBrace p \<and> \<not> is_tok tokEOF p")
    case True
    have "good ?T (props_ok any) (pbind (or_fail (expect tokIdent p) (\<lambda>_. Expected tokIdent (t_kind (cur p)) 0)) (\<lambda>keyTok p1.
        pbind (expect tokColon p1) (\<lambda>_ p2.
        pbind (parseLiteral pf p2) (\<lambda>val p3. parsePropMapLoop pf (AList.update (t_text keyTok) val props) (skip_tok tokComma p3)))))"
    proof (rule good_bind)
      show "good ?T (\<lambda>t. ident_ok (t_text t)) (or_fail (expect tokIdent p) (\<lambda>_. Expected tokIdent (t_kind (cur p)) 0))"
        using good_expect [OF 1(2) refl, of tokIdent] by simp
      fix k p1 assume k: "or_fail (expect tokIdent p) (\<lambda>_. Expected tokIdent (t_kind (cur p)) 0) = Inr (k, p1)" "ident_ok (t_text k)" "ps_tokens p1 = ?T"
      show "good ?T (props_ok any) (pbind (expect tokColon p1) (\<lambda>_ p2.
        pbind (parseLiteral pf p2) (\<lambda>val p3. parsePropMapLoop pf (AList.update (t_text k) val props) (skip_tok tokComma p3))))"
      proof (rule good_bind [OF good_expect [OF 1(2) k(3)]], simp)
        fix c p2 assume c: "expect tokColon p1 = Inr (c, p2)" "ps_tokens p2 = ?T"
        show "good ?T (props_ok any) (pbind (parseLiteral pf p2) (\<lambda>val p3. parsePropMapLoop pf (AList.update (t_text k) val props) (skip_tok tokComma p3)))"
        proof (rule good_bind [OF literal_good [OF 1(2) c(2)]])
          fix v p3 assume v: "parseLiteral pf p2 = Inr (v, p3)" "pval_ok any v" "ps_tokens p3 = ?T"
          have "props_ok any (AList.update (t_text k) v props)"
            using 1(3) v(2) k(2) by (auto simp: props_ok_def distinct_update dest!: update_mem)
          moreover have t: "ps_tokens (skip_tok tokComma p3) = ?T" using v(3) by (simp add: skip_tok_def)
          ultimately show "good ?T (props_ok any) (parsePropMapLoop pf (AList.update (t_text k) v props) (skip_tok tokComma p3))"
            using 1(1) [OF True k(1) c(1) v(1)] 1(2) by simp
        qed
      qed
    qed
    then show ?thesis using True by (subst parsePropMapLoop.simps) simp
  next
    case False
    then show ?thesis using 1(3) by (subst parsePropMapLoop.simps) auto
  qed
qed


lemma propMap_good:
  assumes "sane T" and "ps_tokens p = T"
  shows "good T (props_ok any) (parsePropMap pf p)"
  unfolding parsePropMap_def
proof (rule good_bind)
  show "good T (props_ok any) (parsePropMapLoop pf [] p)" using propLoop_good [of p "[]" pf] assms by (simp add: props_ok_def)
  show "good T (props_ok any) (pbind (expect tokRBrace p1) (\<lambda>_ p2. Inr (props, p2)))" if "props_ok any props" "ps_tokens p1 = T" for props p1
    by (rule good_bind [OF good_expect [OF assms(1) that(2)]]) (use that in simp_all)
qed

lemma labels_good: "sane (ps_tokens p) \<Longrightarrow> list_all ident_ok ls \<Longrightarrow> good (ps_tokens p) (list_all ident_ok) (parseLabels ls p)"
proof (induction ls p rule: parseLabels.induct)
  case (1 ls p)
  then show ?case using cur_ok [of "adv p"] by (subst parseLabels.simps) (auto simp: is_tok_def)
qed

lemma optVar_good: "sane T \<Longrightarrow> ps_tokens p = T \<Longrightarrow> good T opt_ident_ok (parseOptVar p)"
  using cur_ok [of p] by (auto simp: parseOptVar_def is_tok_def)

lemma node_good:
  assumes T: "sane T" and p: "ps_tokens p = T"
  shows "good T (node_ok any) (parseNodePattern pf p)"
proof (rule goodI)
  fix n p' assume "parseNodePattern pf p = Inr (n, p')"
  then obtain t p1 v p2 ls p3 ps p4 t' where r: "expect tokLParen p = Inr (t, p1)" "parseOptVar p1 = Inr (v, p2)" "parseLabels [] p2 = Inr (ls, p3)"
    "(if is_tok tokLBrace p3 then parsePropMap pf (adv p3) else Inr ([], p3)) = Inr (ps, p4)" "expect tokRParen p4 = Inr (t', p')"
    "n = \<lparr>np_Variable = v, np_Labels = ls, np_Props = ps\<rparr>"
    unfolding parseNodePattern_def pbind_Inr by blast
  have 1: "ps_tokens p1 = T" using goodD [OF good_expect [OF T p] r(1)] by simp
  have 2: "opt_ident_ok v" "ps_tokens p2 = T" using goodD [OF optVar_good [OF T 1] r(2)] by simp_all
  have 3: "list_all ident_ok ls" "ps_tokens p3 = T" using goodD [OF labels_good [of p2 "[]"] r(3)] T 2(2) by simp_all
  have "good T (props_ok any) (if is_tok tokLBrace p3 then parsePropMap pf (adv p3) else Inr ([], p3))"
    using propMap_good [OF T, of "adv p3" pf] 3(2) by (auto simp: props_ok_def)
  from goodD [OF this r(4)] have 4: "props_ok any ps" "ps_tokens p4 = T" by simp_all
  have "ps_tokens p' = T" using goodD [OF good_expect [OF T 4(2)] r(5)] by simp
  then show "node_ok any n \<and> ps_tokens p' = T" using 2 3 4 r(6) by (simp add: node_ok_def)
qed

definition hops_ok :: "bool \<times> int \<times> int \<Rightarrow> bool" where
  "hops_ok h \<longleftrightarrow> (case h of (v, mn, mx) \<Rightarrow> if v then count_ok mn \<and> (mx = -1 \<or> count_ok mx) else mn = 1 \<and> mx = 1)"

lemma hops_good:
  assumes "sane T" and "ps_tokens p = T"
  shows "good T hops_ok (parseHops p)"
proof -
  have n: "t_kind (cur q) = tokInt \<Longrightarrow> count_ok (Atoi (t_text (cur q)))" if "ps_tokens q = T" for q
    using that cur_ok [of q] assms(1) count_ParseInt by (simp add: Atoi_def)
  have m: "good T hops_ok (parseMaxHops mn mx q)" if "ps_tokens q = T" "count_ok mn" "mx = -1 \<or> count_ok mx" for mn mx q
    using that n [of "adv q"] by (auto simp: parseMaxHops_def hops_ok_def is_tok_def)
  show ?thesis using assms n [of "adv p"] m [of "adv p" 1 "-1"] m [of "adv (adv p)"]
    by (auto simp: parseHops_def is_tok_def hops_ok_def count_ok_def MaxInt64_def)
qed

lemma rel_parts_good:
  assumes T: "sane T" and q: "ps_tokens q = T"
  shows "good T opt_ident_ok (parseRelLabel q)" "good T (\<lambda>_. True) (parseRelEnd b q)"
  using good_expect [OF T, of "adv q" tokIdent] good_expect [OF T, of q tokDash] q
  by (auto simp: parseRelLabel_def parseRelEnd_def intro!: good_bind)

lemma rel_good:
  assumes T: "sane T" and p: "ps_tokens p = T"
  shows "good T rel_ok (parseRelPattern p)"
proof (rule goodI)
  fix rp p' assume "parseRelPattern p = Inr (rp, p')"
  then obtain t p1 v p2 lb p3 h mn mx p4 t' p5 b d where r: "expect tokLBracket (adv p) = Inr (t, p1)" "parseOptVar p1 = Inr (v, p2)"
    "parseRelLabel p2 = Inr (lb, p3)" "parseHops p3 = Inr ((h, mn, mx), p4)" "expect tokRBracket p4 = Inr (t', p5)" "parseRelEnd b p5 = Inr (d, p')"
    and rp: "rp = \<lparr>rp_Variable = v, rp_Label = lb, rp_Dir = d, rp_VarLength = h, rp_MinHops = mn, rp_MaxHops = mx\<rparr>"
    by (auto simp: parseRelPattern_def pbind_Inr split: if_splits)
  have 1: "ps_tokens p1 = T" using goodD [OF good_expect [OF T] r(1)] p by simp
  have 2: "opt_ident_ok v" "ps_tokens p2 = T" using goodD [OF optVar_good [OF T 1] r(2)] by simp_all
  have 3: "opt_ident_ok lb" "ps_tokens p3 = T" using goodD [OF rel_parts_good(1) [OF T 2(2)] r(3)] by simp_all
  have 4: "hops_ok (h, mn, mx)" "ps_tokens p4 = T" using goodD [OF hops_good [OF T 3(2)] r(4)] by simp_all
  have 5: "ps_tokens p5 = T" using goodD [OF good_expect [OF T 4(2)] r(5)] by simp
  have "ps_tokens p' = T" using goodD [OF rel_parts_good(2) [OF T 5] r(6)] by simp
  then show "rel_ok rp \<and> ps_tokens p' = T" using 2 3 4 rp by (simp add: rel_ok_def hops_ok_def)
qed

lemma pattern_loop_good:
  "sane (ps_tokens p) \<Longrightarrow> pattern_ok any pat \<Longrightarrow> good (ps_tokens p) (pattern_ok any) (parsePatternLoop pf pat p)"
proof (induction pf pat p rule: parsePatternLoop.induct)
  case (1 pf pat p)
  show ?case
  proof (cases "is_tok tokDash p \<or> is_tok tokLArrow p")
    case True
    have "good (ps_tokens p) (pattern_ok any) (pbind (parseRelPattern p) (\<lambda>rel p1. pbind (parseNodePattern pf p1) (\<lambda>node p2.
        parsePatternLoop pf (pat\<lparr>pt_Rels := pt_Rels pat @ [rel], pt_Nodes := pt_Nodes pat @ [node]\<rparr>) p2)))"
    proof (rule good_bind [OF rel_good [OF 1(2) refl]], rule good_bind [OF node_good [OF 1(2)]])
      fix rel p1 node p2
      assume a: "parseRelPattern p = Inr (rel, p1)" "rel_ok rel" "parseNodePattern pf p1 = Inr (node, p2)" "node_ok any node" "ps_tokens p2 = ps_tokens p"
      have "pattern_ok any (pat\<lparr>pt_Rels := pt_Rels pat @ [rel], pt_Nodes := pt_Nodes pat @ [node]\<rparr>)" using 1(3) a by (simp add: pattern_ok_def)
      then show "good (ps_tokens p) (pattern_ok any) (parsePatternLoop pf (pat\<lparr>pt_Rels := pt_Rels pat @ [rel], pt_Nodes := pt_Nodes pat @ [node]\<rparr>) p2)"
        using 1(1) [OF True a(1,3)] 1(2) a(5) by simp
    qed
    then show ?thesis using True by (subst parsePatternLoop.simps) simp
  next
    case False
    then show ?thesis using 1(3) by (subst parsePatternLoop.simps) simp
  qed
qed

lemma pattern_good:
  assumes T: "sane T" and p: "ps_tokens p = T"
  shows "good T (pattern_ok any) (parsePattern pf p)" "good T (pattern_ok any) (parseCreatePattern pf p)"
proof -
  have "good T (pattern_ok any) (pbind (parseNodePattern pf p) (\<lambda>node p1. parsePatternLoop pf \<lparr>pt_Nodes = [node], pt_Rels = []\<rparr> p1))"
  proof (rule good_bind [OF node_good [OF T p]])
    fix n and p1 :: parser assume n: "node_ok any n" "ps_tokens p1 = T"
    then have "pattern_ok any \<lparr>pt_Nodes = [n], pt_Rels = []\<rparr>" by (simp add: pattern_ok_def)
    from pattern_loop_good [OF _ this, of p1 pf] show "good T (pattern_ok any) (parsePatternLoop pf \<lparr>pt_Nodes = [n], pt_Rels = []\<rparr> p1)" using T n by simp
  qed
  then show "good T (pattern_ok any) (parsePattern pf p)" "good T (pattern_ok any) (parseCreatePattern pf p)"
    by (simp_all add: parsePattern_def parseCreatePattern_def)
qed

lemma commaList_good:
  assumes "\<And>p. ps_tokens p = T \<Longrightarrow> good T P (item p)"
  shows "ps_tokens p = T \<Longrightarrow> \<forall>x \<in> set xs. P x \<Longrightarrow> good T (\<lambda>ys. ys \<noteq> [] \<and> (\<forall>y \<in> set ys. P y)) (commaList item xs p)"
  using assms
proof (induction item xs p rule: commaList.induct)
  case (1 item xs p)
  show ?case
  proof (subst commaList.simps, rule good_bind [OF 1(4) [OF 1(2)]])
    fix x p1 assume x: "item p = Inr (x, p1)" "P x" "ps_tokens p1 = T"
    show "good T (\<lambda>ys. ys \<noteq> [] \<and> (\<forall>y \<in> set ys. P y)) (if is_tok tokComma p1 then if left (adv p1) < left p then commaList item (xs @ [x]) (adv p1)
        else Inl (Syntax ''no progress'') else Inr (xs @ [x], p1))"
      using 1(1) [OF x(1)] 1(3,4) x by auto
  qed
qed


lemma exprs_good:
  assumes "sane T" and "ps_tokens p = T"
  shows "good T (expr_ok any 4) (parseExpr pf p)" "good T (expr_ok any 0) (parsePrimary pf p)"
  using expr_good(8) [of p pf] expr_good(1) [of p pf] assms by (simp_all add: parseExpr_def)

lemma returnItem_good:
  assumes T: "sane T" and p: "ps_tokens p = T"
  shows "good T (\<lambda>r. expr_ok any 4 (ri_Expr r) \<and> opt_ident_ok (ri_Alias r)) (parseReturnItem pf p)"
  unfolding parseReturnItem_def
proof (rule good_bind [OF exprs_good(1) [OF T p]])
  fix e and p1 :: parser assume e: "expr_ok any 4 e" "ps_tokens p1 = T"
  have "good T (\<lambda>t. ident_ok (t_text t)) (or_fail (expect tokIdent (adv p1)) (\<lambda>_. Syntax ''expected alias after AS''))"
    using good_expect [OF T, of "adv p1" tokIdent] e(2) by simp
  then have "good T (\<lambda>r. expr_ok any 4 (ri_Expr r) \<and> opt_ident_ok (ri_Alias r)) (pbind (or_fail (expect tokIdent (adv p1)) (\<lambda>_. Syntax ''expected alias after AS''))
     (\<lambda>aliasTok p2. Inr (\<lparr>ri_Expr = e, ri_Alias = t_text aliasTok\<rparr>, p2)))"
    by (rule good_bind) (use e in simp)
  then show "good T (\<lambda>r. expr_ok any 4 (ri_Expr r) \<and> opt_ident_ok (ri_Alias r)) (if is_tok tokAs p1 then
      pbind (or_fail (expect tokIdent (adv p1)) (\<lambda>_. Syntax ''expected alias after AS'')) (\<lambda>aliasTok p2. Inr (\<lparr>ri_Expr = e, ri_Alias = t_text aliasTok\<rparr>, p2))
     else Inr (\<lparr>ri_Expr = e, ri_Alias = []\<rparr>, p1))" using e by simp
qed

lemma orderItem_good:
  assumes T: "sane T" and p: "ps_tokens p = T"
  shows "good T (\<lambda>i. expr_ok any 4 (oi_Expr i)) (parseOrderItem pf p)"
  unfolding parseOrderItem_def by (rule good_bind [OF exprs_good(1) [OF T p]]) simp

lemma setItem_good:
  assumes T: "sane T" and p: "ps_tokens p = T"
  shows "good T (\<lambda>s. ident_ok (si_Variable s) \<and> ident_ok (si_Property s) \<and> expr_ok any 0 (si_Value s)) (parseSetItem pf p)"
proof (rule goodI)
  fix i p' assume "parseSetItem pf p = Inr (i, p')"
  then obtain t1 p1 t2 p2 t3 p3 t4 p4 v where r: "expect tokIdent p = Inr (t1, p1)" "expect tokDot p1 = Inr (t2, p2)" "expect tokIdent p2 = Inr (t3, p3)"
    "expect tokEq p3 = Inr (t4, p4)" "parsePrimary pf p4 = Inr (v, p')" "i = \<lparr>si_Variable = t_text t1, si_Property = t_text t3, si_Value = v\<rparr>"
    unfolding parseSetItem_def pbind_Inr or_fail_Inr by blast
  have 1: "ident_ok (t_text t1)" "ps_tokens p1 = T" using goodD [OF good_expect [OF T p] r(1)] by simp_all
  have 2: "ps_tokens p2 = T" using goodD [OF good_expect [OF T 1(2)] r(2)] by simp
  have 3: "ident_ok (t_text t3)" "ps_tokens p3 = T" using goodD [OF good_expect [OF T 2] r(3)] by simp_all
  have 4: "ps_tokens p4 = T" using goodD [OF good_expect [OF T 3(2)] r(4)] by simp
  show "(ident_ok (si_Variable i) \<and> ident_ok (si_Property i) \<and> expr_ok any 0 (si_Value i)) \<and> ps_tokens p' = T"
    using goodD [OF exprs_good(2) [OF T 4] r(5)] 1 3 r(6) by simp
qed

lemma clauses_good:
  assumes T: "sane T" and p: "ps_tokens p = T"
  shows "good T (return_ok any) (parseReturnClause pf p)" "good T (set_ok any) (parseSetItems pf p)" "good T (set_ok any) (parseSetClause pf p)"
    "good T (list_all ident_ok) (parseDeleteClause p)" "good T (pred_option (expr_ok any 4)) (parseWhere pf p)"
    "good T (\<lambda>os. \<forall>i \<in> set os. expr_ok any 4 (oi_Expr i)) (parseOrderBy pf p)" "good T count_ok (parseCount k name p)"
    "good T (pred_option (return_ok any)) (parseOptReturn pf p)"
proof -
  have ret: "good T (return_ok any) (commaList (parseReturnItem pf) [] q)" if "ps_tokens q = T" for q
    by (rule good_mono [OF commaList_good [where T = T, OF returnItem_good [OF T] that]]) (simp_all add: return_ok_def)
  show r: "good T (return_ok any) (parseReturnClause pf p)"
    unfolding parseReturnClause_def by (rule good_bind [OF good_expect [OF T p] ret]) simp_all
  have sets: "good T (set_ok any) (parseSetItems pf q)" if "ps_tokens q = T" for q
    unfolding parseSetItems_def by (rule good_mono [OF commaList_good [where T = T, OF setItem_good [OF T] that]]) (simp_all add: set_ok_def)
  then show "good T (set_ok any) (parseSetItems pf p)" using p by blast
  show "good T (set_ok any) (parseSetClause pf p)" unfolding parseSetClause_def by (rule good_bind [OF good_expect [OF T p] sets]) simp_all
  have del: "good T ident_ok (parseDeleteItem q)" if "ps_tokens q = T" for q
    using good_expect [OF T that, of tokIdent] unfolding parseDeleteItem_def by (intro good_bind [where P = "\<lambda>t. ident_ok (t_text t)"]) auto
  have dels: "good T (list_all ident_ok) (commaList parseDeleteItem [] q)" if "ps_tokens q = T" for q
    by (rule good_mono [OF commaList_good [where T = T, OF del that]]) (simp_all add: list_all_iff)
  show "good T (list_all ident_ok) (parseDeleteClause p)" unfolding parseDeleteClause_def by (rule good_bind [OF good_expect [OF T p] dels]) simp_all
  show "good T (pred_option (expr_ok any 4)) (parseWhere pf p)"
    using exprs_good(1) [OF T, of "adv p" pf] p by (auto simp: parseWhere_def optional_def pmap_def intro!: good_bind)
  have ord: "good T (\<lambda>os. \<forall>i \<in> set os. expr_ok any 4 (oi_Expr i)) (parseOrderItems pf q)" if "ps_tokens q = T" for q
    unfolding parseOrderItems_def by (rule good_mono [OF commaList_good [where T = T, OF orderItem_good [OF T] that]]) simp_all
  have "good T (\<lambda>os. \<forall>i \<in> set os. expr_ok any 4 (oi_Expr i)) (pbind (expect tokBy (adv p)) (\<lambda>_ p1. parseOrderItems pf p1))"
    by (rule good_bind [OF good_expect [OF T] ord]) (use p in simp_all)
  then show "good T (\<lambda>os. \<forall>i \<in> set os. expr_ok any 4 (oi_Expr i)) (parseOrderBy pf p)" using p by (simp add: parseOrderBy_def optional_def)
  show "good T count_ok (parseCount k name p)"
    using good_expect [OF T, of "adv p" tokInt] p
    by (auto simp: parseCount_def optional_def count_ok_def MaxInt64_def Atoi_def intro!: good_bind dest!: count_ParseInt)
  show "good T (pred_option (return_ok any)) (parseOptReturn pf p)"
    using r p by (auto simp: parseOptReturn_def pmap_def intro!: good_bind)
qed


section \<open>Queries\<close>

lemma optionalMatch_good:
  assumes T: "sane T" and p: "ps_tokens p = T"
  shows "good T (\<lambda>(pt, w). pred_option (pattern_ok any) pt \<and> pred_option (expr_ok any 4) w \<and> (pt = None \<longrightarrow> w = None)) (parseOptionalMatch pf p)"
proof (rule goodI)
  fix x p' assume "parseOptionalMatch pf p = Inr (x, p')"
  then consider "x = (None, None)" "p' = p" | t p1 pt p2 w where "expect tokMatch (adv p) = Inr (t, p1)" "parsePattern pf p1 = Inr (pt, p2)"
      "parseWhere pf p2 = Inr (w, p')" "x = (Some pt, w)"
    by (auto simp: parseOptionalMatch_def optional_def pbind_Inr split: if_splits)
  then show "(case x of (pt, w) \<Rightarrow> pred_option (pattern_ok any) pt \<and> pred_option (expr_ok any 4) w \<and> (pt = None \<longrightarrow> w = None)) \<and> ps_tokens p' = T"
  proof cases
    case 1
    then show ?thesis using p by simp
  next
    case (2 t p1 pt p2 w)
    have 3: "ps_tokens p1 = T" using goodD [OF good_expect [OF T] 2(1)] p by simp
    have 4: "pattern_ok any pt" "ps_tokens p2 = T" using goodD [OF pattern_good(1) [OF T 3] 2(2)] by simp_all
    show ?thesis using goodD [OF clauses_good(5) [OF T 4(2)] 2(3)] 4 2(4) by simp
  qed
qed

lemma atEOF_Inr: "atEOF x p = Inr y \<Longrightarrow> y = x"
  by (simp add: atEOF_def split: if_splits)

lemma query_good:
  assumes T: "sane T" and p: "ps_tokens p = T" and q: "parseQuery pf p = Inr q"
  shows "query_ok any q"
proof -
  obtain ex p0 where e: "parseExplain p = (ex, p0)" by (metis surj_pair)
  have 0: "ps_tokens p0 = T" using e p by (auto simp: parseExplain_def split: if_splits)
  obtain t p1 pat p2 whr p3 opt optW p4 sets p5 dels p6 ret p7 ord p8 sk p9 lim p10 where r:
    "expect tokMatch p0 = Inr (t, p1)" "parsePattern pf p1 = Inr (pat, p2)" "parseWhere pf p2 = Inr (whr, p3)" "parseOptionalMatch pf p3 = Inr ((opt, optW), p4)"
    "(if is_tok tokSet p4 then parseSetClause pf p4 else Inr ([], p4)) = Inr (sets, p5)" "(if is_tok tokDelete p5 then parseDeleteClause p5 else Inr ([], p5)) = Inr (dels, p6)"
    "parseReturnClause pf p6 = Inr (ret, p7)" "parseOrderBy pf p7 = Inr (ord, p8)" "parseCount tokSkip ''SKIP'' p8 = Inr (sk, p9)" "parseCount tokLimit ''LIMIT'' p9 = Inr (lim, p10)"
    and a: "atEOF \<lparr>q_Explain = ex, q_Match = pat, q_Where = whr, q_OptionalMatch = opt, q_OptionalWhere = optW, q_Set = sets, q_Delete = dels, q_Return = ret,
      q_OrderBy = ord, q_Skip = sk, q_Limit = lim\<rparr> p10 = Inr q"
    using q by (simp only: parseQuery_def e Let_def prod.case pbind_Inr split_paired_Ex) (elim exE conjE, rule that, assumption+)
  have 1: "ps_tokens p1 = T" using goodD [OF good_expect [OF T 0] r(1)] by simp
  have 2: "pattern_ok any pat" "ps_tokens p2 = T" using goodD [OF pattern_good(1) [OF T 1] r(2)] by simp_all
  have 3: "pred_option (expr_ok any 4) whr" "ps_tokens p3 = T" using goodD [OF clauses_good(5) [OF T 2(2)] r(3)] by simp_all
  have 4: "pred_option (pattern_ok any) opt \<and> pred_option (expr_ok any 4) optW \<and> (opt = None \<longrightarrow> optW = None)" "ps_tokens p4 = T"
    using goodD [OF optionalMatch_good [OF T 3(2)] r(4)] by simp_all
  have "good T (set_ok any) (if is_tok tokSet p4 then parseSetClause pf p4 else Inr ([], p4))" using clauses_good(3) [OF T 4(2)] 4(2) by (simp add: set_ok_def)
  from goodD [OF this r(5)] have 5: "set_ok any sets" "ps_tokens p5 = T" by simp_all
  have "good T (list_all ident_ok) (if is_tok tokDelete p5 then parseDeleteClause p5 else Inr ([], p5))" using clauses_good(4) [OF T 5(2)] 5(2) by simp
  from goodD [OF this r(6)] have 6: "list_all ident_ok dels" "ps_tokens p6 = T" by simp_all
  have 7: "return_ok any ret" "ps_tokens p7 = T" using goodD [OF clauses_good(1) [OF T 6(2)] r(7)] by simp_all
  have 8: "\<forall>i \<in> set ord. expr_ok any 4 (oi_Expr i)" "ps_tokens p8 = T" using goodD [OF clauses_good(6) [OF T 7(2)] r(8)] by simp_all
  have 9: "count_ok sk" "ps_tokens p9 = T" using goodD [OF clauses_good(7) [OF T 8(2)] r(9)] by simp_all
  have 10: "count_ok lim" using goodD [OF clauses_good(7) [OF T 9(2)] r(10)] by simp
  show ?thesis using atEOF_Inr [OF a] 2 3 4 5 6 7 8 9 10 by (simp add: query_ok_def)
qed

lemma create_good:
  assumes T: "sane T" and p: "ps_tokens p = T" and q: "parseCreateQuery pf p = Inr w"
  shows "write_ok any w"
proof -
  obtain t p1 pats p2 ret p3 where r: "expect tokCreate p = Inr (t, p1)" "commaList (parseCreatePattern pf) [] p1 = Inr (pats, p2)"
    "parseOptReturn pf p2 = Inr (ret, p3)" "atEOF \<lparr>w_Creates = pats, w_Return = ret\<rparr> p3 = Inr w"
    using q unfolding parseCreateQuery_def pbind_Inr by blast
  have 1: "ps_tokens p1 = T" using goodD [OF good_expect [OF T p] r(1)] by simp
  have 2: "pats \<noteq> [] \<and> (\<forall>x \<in> set pats. pattern_ok any x)" "ps_tokens p2 = T"
    using goodD [OF commaList_good [where T = T, OF pattern_good(2) [OF T] 1] r(2)] by auto
  show ?thesis using goodD [OF clauses_good(8) [OF T 2(2)] r(3)] 2 atEOF_Inr [OF r(4)] by (simp add: write_ok_def list_all_iff)
qed

definition merge_part_ok :: "CypherMerge \<Rightarrow> bool" where
  "merge_part_ok m \<longleftrightarrow> opt_ident_ok (mp_Variable (m_Pattern m)) \<and> mp_Labels (m_Pattern m) \<noteq> [] \<and> list_all ident_ok (mp_Labels (m_Pattern m)) \<and>
     props_ok any (mp_Props (m_Pattern m)) \<and> set_ok any (m_OnCreateSet m) \<and> set_ok any (m_OnMatchSet m)"

lemma on_good:
  assumes T: "sane T" and p: "ps_tokens p = T" and m: "merge_part_ok m"
  shows "good T merge_part_ok (parseOn pf m p)"
proof (rule goodI)
  fix m' p' assume "parseOn pf m p = Inr (m', p')"
  then obtain t p1 items where r: "expect tokSet (adv p) = Inr (t, p1)" "parseSetItems pf p1 = Inr (items, p')"
    "m' = m\<lparr>m_OnCreateSet := items\<rparr> \<or> m' = m\<lparr>m_OnMatchSet := items\<rparr>"
    by (auto simp: parseOn_def Let_def pbind_Inr split: TokenKind.splits)
  have 1: "ps_tokens p1 = T" using goodD [OF good_expect [OF T] r(1)] p by simp
  show "merge_part_ok m' \<and> ps_tokens p' = T" using goodD [OF clauses_good(2) [OF T 1] r(2)] r(3) m by (auto simp: merge_part_ok_def)
qed

lemma onLoop_good: "sane (ps_tokens p) \<Longrightarrow> merge_part_ok m \<Longrightarrow> good (ps_tokens p) merge_part_ok (parseOnLoop pf m p)"
proof (induction pf m p rule: parseOnLoop.induct)
  case (1 pf m p)
  show ?case
  proof (cases "is_tok tokOn p")
    case True
    have "good (ps_tokens p) merge_part_ok (pbind (parseOn pf m (adv p)) (\<lambda>m1 p1. parseOnLoop pf m1 p1))"
      by (rule good_bind [OF on_good [OF 1(2) _ 1(3)]]) (use 1(1) [OF True] 1(2) in simp_all)
    then show ?thesis using True by (simp add: parseOnLoop.simps [of pf m p])
  next
    case False
    then show ?thesis using 1(3) by (simp add: parseOnLoop.simps [of pf m p])
  qed
qed

lemma merge_good:
  assumes T: "sane T" and p: "ps_tokens p = T" and q: "parseMergeQuery pf p = Inr m"
  shows "merge_ok any m"
proof -
  obtain t p1 n p2 m1 p3 ret p4 where r: "expect tokMerge p = Inr (t, p1)" "parseNodePattern pf p1 = Inr (n, p2)" "np_Labels n \<noteq> []"
    "parseOnLoop pf \<lparr>m_Pattern = \<lparr>mp_Variable = np_Variable n, mp_Labels = np_Labels n, mp_Props = np_Props n\<rparr>, m_OnCreateSet = [], m_OnMatchSet = [], m_Return = None\<rparr> p2 = Inr (m1, p3)"
    "parseOptReturn pf p3 = Inr (ret, p4)" "atEOF (m1\<lparr>m_Return := ret\<rparr>) p4 = Inr m"
    using q by (auto simp: parseMergeQuery_def pbind_Inr split: if_splits)
  have 1: "ps_tokens p1 = T" using goodD [OF good_expect [OF T p] r(1)] by simp
  have 2: "node_ok any n" "ps_tokens p2 = T" using goodD [OF node_good [OF T 1] r(2)] by simp_all
  have "good T merge_part_ok (parseOnLoop pf \<lparr>m_Pattern = \<lparr>mp_Variable = np_Variable n, mp_Labels = np_Labels n, mp_Props = np_Props n\<rparr>,
      m_OnCreateSet = [], m_OnMatchSet = [], m_Return = None\<rparr> p2)"
    using onLoop_good [of p2 _ pf] T 2 r(3) by (simp add: merge_part_ok_def node_ok_def set_ok_def)
  from goodD [OF this r(4)] have 3: "merge_part_ok m1" "ps_tokens p3 = T" by simp_all
  show ?thesis using goodD [OF clauses_good(8) [OF T 3(2)] r(5)] 3 atEOF_Inr [OF r(6)] by (simp add: merge_ok_def merge_part_ok_def)
qed


section \<open>Properties\<close>

lemma tokenize_sane: "tokenize s = Inr toks \<Longrightarrow> sane toks"
proof -
  assume "tokenize s = Inr toks"
  then obtain l where l: "scan (lx [] s []) = Inr l" "toks = lx_tokens l" by (auto simp: tokenize_def lx_def split: sum.splits)
  show "sane toks" using scan_ok [OF l(1)] l(2) by (auto simp: sane_def tokens_ok_def list_all_iff)
qed

lemma parse_ok: "parseCypher pf s = Inr c \<Longrightarrow> cypher_ok any c"
proof -
  assume p: "parseCypher pf s = Inr c"
  then obtain toks where t: "tokenize s = Inr toks" by (auto simp: parseCypher_def split: sum.splits)
  note sn = tokenize_sane [OF t]
  let ?p = "\<lparr>ps_tokens = toks, ps_pos = 0\<rparr>"
  show "cypher_ok any c"
    using p t create_good [OF sn, of ?p pf] merge_good [OF sn, of ?p pf] query_good [OF sn, of ?p pf]
    by (cases "parseCreateQuery pf ?p"; cases "parseMergeQuery pf ?p"; cases "parseQuery pf ?p") (auto simp: parseCypher_def Let_def split: if_splits)
qed

lemma print_parse:
  assumes ok: "cypher_ok (float_ok ff pf) c"
  shows "parseCypher pf (render (showCypher ff c)) = Inr c"
proof -
  have "list_all token_ok (showCypher ff c)" using cypher_tokens_ok [OF ok] by (simp add: toks_ok_def)
  then obtain toks where t: "tokenize (render (showCypher ff c)) = Inr toks" "map kt toks = showCypher ff c @ [(tokEOF, [])]"
    using scan_render [of "showCypher ff c" "[]" "[]" "[]"] by (auto simp: tokenize_def lx_def)
  let ?p = "\<lparr>ps_tokens = toks, ps_pos = 0\<rparr>"
  have r: "rest ?p = showCypher ff c @ [(tokEOF, [])]" using t(2) by (simp add: rest_def)
  have k: "is_tok tokCreate ?p = (\<exists>w. c = CWrite w)" "is_tok tokMerge ?p = (\<exists>m. c = CMerge m)"
    unfolding is_tok_rest r by (cases c; auto simp: showQuery_def showCreate_def showMerge_def split: ExplainMode.splits)+
  show ?thesis
  proof (cases c)
    case (CRead q)
    then show ?thesis using query_roundtrip [of ff pf q ?p] ok r t(1) k by (simp add: parseCypher_def)
  next
    case (CWrite w)
    then show ?thesis using create_roundtrip [of ff pf w ?p] ok r t(1) k by (simp add: parseCypher_def)
  next
    case (CMerge m)
    then show ?thesis using merge_roundtrip [of ff pf m ?p] ok r t(1) k by (simp add: parseCypher_def)
  qed
qed

text \<open>
  C27. Whatever the parser accepts is a well-formed syntax tree: a pattern has one node more than relationships (as the
  comment of the type says), property maps have distinct keys, variables, labels and keys are identifiers and never reserved words, counts and
  hops are in the range of int64, OPTIONAL WHERE occurs only with OPTIONAL MATCH, RETURN is not empty, MERGE has a
  label, and the nesting of expressions follows the grammar. The parser terminates on every input: it is a total function.
\<close>

theorem parser_result_wellformed:
  assumes "parseCypher pf input = Inr c"
  shows "cypher_ok (\<lambda>_. True) c"
  using assms by (rule parse_ok)

theorem parser_result_wellformed_witness:
  "\<exists>c. parseCypher (\<lambda>_. (0, True)) ''MATCH (n:P {a: 1})-[r:K*1..3]->(m) WHERE n.x > 5 AND NOT m.y = $p RETURN n, type(r) AS t ORDER BY n.x DESC LIMIT 10'' = Inr c \<and>
     cypher_ok (\<lambda>_. True) c"
proof -
  have "case parseCypher (\<lambda>_. (0, True)) ''MATCH (n:P {a: 1})-[r:K*1..3]->(m) WHERE n.x > 5 AND NOT m.y = $p RETURN n, type(r) AS t ORDER BY n.x DESC LIMIT 10'' of
      Inl e \<Rightarrow> False | Inr c \<Rightarrow> True" by code_simp
  then obtain c where c: "parseCypher (\<lambda>_. (0, True)) ''MATCH (n:P {a: 1})-[r:K*1..3]->(m) WHERE n.x > 5 AND NOT m.y = $p RETURN n, type(r) AS t ORDER BY n.x DESC LIMIT 10'' = Inr c"
    by (auto split: sum.splits)
  from parser_result_wellformed [OF c] c show ?thesis by blast
qed

text \<open>
  C26. Printing a well-formed query as text and parsing the text gives the query back: the grammar is unambiguous on printed
  queries and the parser accepts all of them. For a float literal the formatted text must be a literal of the language that the Go float parser reads back as the same float.
\<close>

theorem query_text_roundtrip:
  assumes "cypher_ok (float_ok ff pf) c"
  shows "parseCypher pf (render (showCypher ff c)) = Inr c"
  using assms by (rule print_parse)


definition demoMerge :: parsedCypher where
  "demoMerge = CMerge \<lparr>m_Pattern = \<lparr>mp_Variable = ''n'', mp_Labels = [''P''], mp_Props = [(''k'', PVal (VStr ''v''))]\<rparr>, m_OnCreateSet = [], m_OnMatchSet = [],
     m_Return = Some [\<lparr>ri_Expr = ExprPropAccess ''n'' ''k'', ri_Alias = []\<rparr>]\<rparr>"

lemma demo_idents: "ident_ok ''n''" "ident_ok ''P''" "ident_ok ''k''"
proof -
  have "map_of keywordTable (toUpper ''n'') = None" "map_of keywordTable (toUpper ''P'') = None" "map_of keywordTable (toUpper ''k'') = None" by code_simp+
  then show "ident_ok ''n''" "ident_ok ''P''" "ident_ok ''k''"
    by (simp_all add: token_ok_def punctuation_def isIdentStart_def isIdentPart_def)
qed

theorem query_text_roundtrip_witness:
  "render (showCypher (\<lambda>_. []) demoMerge) = ''MERGE ( n : P { k : \"v\" } ) RETURN n . k '' \<and>
   parseCypher (\<lambda>_. (0, True)) ''MERGE ( n : P { k : \"v\" } ) RETURN n . k '' = Inr demoMerge"
proof -
  have r: "render (showCypher (\<lambda>_. []) demoMerge) = ''MERGE ( n : P { k : \"v\" } ) RETURN n . k ''" by code_simp
  have "cypher_ok (float_ok (\<lambda>_. []) (\<lambda>_. (0, True))) demoMerge"
    by (simp add: demoMerge_def merge_ok_def props_ok_def set_ok_def return_ok_def demo_idents)
  from query_text_roundtrip [OF this] r show ?thesis by simp
qed

end
