(* ===== verification/Heap.thy ===== *)
theory Heap
  imports Main "HOL-Library.Multiset"
begin

text \<open>
  The binary heap of Go's \<open>container/heap\<close> on a slice: sifting up and down, push, pop and fix, for an arbitrary \<open>Less\<close>. The
  laws a \<open>Less\<close> must meet are the locale \<open>weak_order\<close>; under them every operation keeps the heap order, and popping all
  elements gives them in order.
\<close>

definition heap_Swap :: "'a list \<Rightarrow> nat \<Rightarrow> nat \<Rightarrow> 'a list" where
  "heap_Swap hs a b = (let x = hs ! a; y = hs ! b in hs[b := x, a := y])"

abbreviation parent :: "nat \<Rightarrow> nat" where "parent j \<equiv> (j - 1) div 2"

function heap_up :: "('a \<Rightarrow> 'a \<Rightarrow> bool) \<Rightarrow> 'a list \<Rightarrow> nat \<Rightarrow> 'a list" where
  "heap_up Less xs j = (if parent j = j \<or> \<not> Less (xs ! j) (xs ! parent j) then xs
     else heap_up Less (heap_Swap xs (parent j) j) (parent j))"
  by pat_completeness auto
termination by (relation "measure (\<lambda>(Less, xs, j). j)") auto

text \<open>The slice and the index where sifting down stopped; \<open>n\<close> is the length of the heap within the slice.\<close>

definition child :: "('a \<Rightarrow> 'a \<Rightarrow> bool) \<Rightarrow> 'a list \<Rightarrow> nat \<Rightarrow> nat \<Rightarrow> nat" where
  "child Less xs i n = (let j1 = 2 * i + 1; j2 = j1 + 1 in if j2 < n \<and> Less (xs ! j2) (xs ! j1) then j2 else j1)"

function heap_down :: "('a \<Rightarrow> 'a \<Rightarrow> bool) \<Rightarrow> 'a list \<Rightarrow> nat \<Rightarrow> nat \<Rightarrow> 'a list \<times> nat" where
  "heap_down Less xs i n = (if n \<le> 2 * i + 1 then (xs, i)
     else let j = child Less xs i n in if \<not> Less (xs ! j) (xs ! i) then (xs, i) else heap_down Less (heap_Swap xs i j) j n)"
  by pat_completeness auto
termination by (relation "measure (\<lambda>(Less, xs, i, n). n - i)") (auto simp: child_def Let_def split: if_splits)

declare heap_up.simps [simp del] heap_down.simps [simp del]

definition heap_Push :: "('a \<Rightarrow> 'a \<Rightarrow> bool) \<Rightarrow> 'a \<Rightarrow> 'a list \<Rightarrow> 'a list" where
  "heap_Push Less x xs = heap_up Less (xs @ [x]) (length xs)"

definition heap_Pop :: "('a \<Rightarrow> 'a \<Rightarrow> bool) \<Rightarrow> 'a list \<Rightarrow> 'a \<times> 'a list" where
  "heap_Pop Less xs = (let n = length xs - 1; ys = fst (heap_down Less (heap_Swap xs 0 n) 0 n) in (ys ! n, take n ys))"

definition heap_Fix :: "('a \<Rightarrow> 'a \<Rightarrow> bool) \<Rightarrow> 'a list \<Rightarrow> nat \<Rightarrow> 'a list" where
  "heap_Fix Less xs i = (case heap_down Less xs i (length xs) of (ys, i') \<Rightarrow> if i < i' then ys else heap_up Less ys i)"

section \<open>Elements\<close>

lemma heap_Swap_length [simp]: "length (heap_Swap hs a b) = length hs"
  unfolding heap_Swap_def Let_def by simp

lemma mset_swap_nth: "\<lbrakk>a < length hs; b < length hs\<rbrakk> \<Longrightarrow> mset (heap_Swap hs a b) = mset hs"
  unfolding heap_Swap_def Let_def using mset_swap [of a hs b] by (cases "a = b") (simp_all add: list_update_swap)

lemma swap_nth:
  assumes "a < length hs" "b < length hs"
  shows "heap_Swap hs a b ! c = (if c = a then hs ! b else if c = b then hs ! a else hs ! c)"
  using assms unfolding heap_Swap_def Let_def by (auto simp: nth_list_update)

lemma heap_up_mset: "j < length xs \<Longrightarrow> mset (heap_up Less xs j) = mset xs"
proof (induction Less xs j rule: heap_up.induct)
  case (1 Less xs j)
  then show ?case by (subst heap_up.simps) (auto simp: mset_swap_nth)
qed

lemma heap_down_spec:
  "i < n \<Longrightarrow> n \<le> length xs \<Longrightarrow> mset (fst (heap_down Less xs i n)) = mset xs \<and>
     (\<forall>k. n \<le> k \<longrightarrow> fst (heap_down Less xs i n) ! k = xs ! k) \<and> i \<le> snd (heap_down Less xs i n)"
proof (induction Less xs i n rule: heap_down.induct)
  case (1 Less xs i n)
  define j where "j = child Less xs i n"
  show ?case
  proof (cases "n \<le> 2 * i + 1 \<or> \<not> Less (xs ! j) (xs ! i)")
    case True
    then have "heap_down Less xs i n = (xs, i)" by (subst heap_down.simps) (auto simp: j_def Let_def)
    then show ?thesis by simp
  next
    case False
    then have j: "j < n" "i < j" by (auto simp: j_def child_def Let_def)
    have eq: "heap_down Less xs i n = heap_down Less (heap_Swap xs i j) j n"
      using False by (subst heap_down.simps) (simp add: j_def Let_def)
    have "mset (fst (heap_down Less (heap_Swap xs i j) j n)) = mset (heap_Swap xs i j) \<and>
        (\<forall>k. n \<le> k \<longrightarrow> fst (heap_down Less (heap_Swap xs i j) j n) ! k = heap_Swap xs i j ! k) \<and> j \<le> snd (heap_down Less (heap_Swap xs i j) j n)"
      using "1.IH" [OF _ j_def] False j "1.prems" by simp
    moreover have "heap_Swap xs i j ! k = xs ! k" if "n \<le> k" for k using j "1.prems" that by (simp add: swap_nth)
    ultimately show ?thesis using j "1.prems" by (auto simp: eq mset_swap_nth)
  qed
qed

lemma heap_down_mset: "n \<le> length xs \<Longrightarrow> i < n \<or> n = 0 \<Longrightarrow> mset (fst (heap_down Less xs i n)) = mset xs"
  using heap_down_spec [of i n xs Less] by (cases "i < n") (auto simp: heap_down.simps)

lemma heap_down_length: "n \<le> length xs \<Longrightarrow> i < n \<or> n = 0 \<Longrightarrow> length (fst (heap_down Less xs i n)) = length xs"
  using heap_down_mset [of n xs i Less] by (metis mset_eq_length)

section \<open>Heap order\<close>

text \<open>A strict weak order on the elements in use.\<close>

locale weak_order =
  fixes S :: "'a set" and Less :: "'a \<Rightarrow> 'a \<Rightarrow> bool"
  assumes asym: "x \<in> S \<Longrightarrow> y \<in> S \<Longrightarrow> Less x y \<Longrightarrow> \<not> Less y x"
    and negtrans: "x \<in> S \<Longrightarrow> y \<in> S \<Longrightarrow> z \<in> S \<Longrightarrow> \<not> Less x y \<Longrightarrow> \<not> Less y z \<Longrightarrow> \<not> Less x z"
begin

definition heaped :: "nat \<Rightarrow> 'a list \<Rightarrow> bool" where
  "heaped n xs \<longleftrightarrow> (\<forall>j. 0 < j \<and> j < n \<longrightarrow> \<not> Less (xs ! j) (xs ! parent j))"

lemma irrefl: "x \<in> S \<Longrightarrow> \<not> Less x x"
  using asym by blast

lemma heaped_root: "heaped n xs \<Longrightarrow> set (take n xs) \<subseteq> S \<Longrightarrow> n \<le> length xs \<Longrightarrow> j < n \<Longrightarrow> \<not> Less (xs ! j) (xs ! 0)"
proof (induction j rule: less_induct)
  case (less j)
  have mem: "xs ! k \<in> S" if "k < n" for k using less.prems that by (auto simp: in_set_conv_nth subset_iff)
  show ?case
  proof (cases "j = 0")
    case True
    then show ?thesis using irrefl mem less.prems(4) by simp
  next
    case False
    then have p: "parent j < j" by auto
    then have "\<not> Less (xs ! parent j) (xs ! 0)" using less by simp
    moreover have "\<not> Less (xs ! j) (xs ! parent j)" using less.prems False by (simp add: heaped_def)
    ultimately show ?thesis using negtrans [of "xs ! j" "xs ! parent j" "xs ! 0"] mem less.prems(4) p by simp
  qed
qed

text \<open>Sifting up repairs an order broken between \<open>j\<close> and its parent only.\<close>

lemma heap_up_heaped:
  assumes "j < length xs" "set xs \<subseteq> S"
    and "\<And>k. 0 < k \<Longrightarrow> k < length xs \<Longrightarrow> k \<noteq> j \<Longrightarrow> \<not> Less (xs ! k) (xs ! parent k)"
    and "\<And>k. 0 < k \<Longrightarrow> k < length xs \<Longrightarrow> parent k = j \<Longrightarrow> 0 < j \<Longrightarrow> \<not> Less (xs ! k) (xs ! parent j)"
  shows "heaped (length xs) (heap_up Less xs j)"
  using assms
proof (induction j arbitrary: xs rule: less_induct)
  case (less j)
  have mem: "xs ! k \<in> S" if "k < length xs" for k using less.prems(2) that by auto
  show ?case
  proof (cases "parent j = j \<or> \<not> Less (xs ! j) (xs ! parent j)")
    case True
    then have "heap_up Less xs j = xs" by (subst heap_up.simps) simp
    moreover have "\<not> Less (xs ! k) (xs ! parent k)" if "0 < k" "k < length xs" for k
      using True less.prems(3) that irrefl mem by (cases "k = j") auto
    ultimately show ?thesis by (simp add: heaped_def)
  next
    case False
    let ?i = "parent j" and ?ys = "heap_Swap xs (parent j) j"
    have i: "?i < j" "?i < length xs" "j < length xs" "0 < j" using False less.prems(1) by auto
    have y: "?ys ! k = (if k = ?i then xs ! j else if k = j then xs ! ?i else xs ! k)" for k
      using i by (simp add: swap_nth)
    have eq: "heap_up Less xs j = heap_up Less ?ys ?i" using False by (subst heap_up.simps) simp
    have lt: "Less (xs ! j) (xs ! ?i)" using False by simp
    have sub: "set ?ys \<subseteq> S" using less.prems(2) i by (metis mset_swap_nth set_mset_mset)
    have a: "\<not> Less (?ys ! k) (?ys ! parent k)" if k: "0 < k" "k < length ?ys" "k \<noteq> ?i" for k
    proof -
      consider "k = j" | "k \<noteq> j" "parent k = j" | "k \<noteq> j" "parent k = ?i" | "k \<noteq> j" "parent k \<noteq> j" "parent k \<noteq> ?i" by blast
      then show ?thesis
      proof cases
        case 1
        then show ?thesis using asym [OF _ _ lt] mem i y by simp
      next
        case 2
        then show ?thesis using less.prems(4) [of k] k i y by simp
      next
        case 3
        then have "\<not> Less (xs ! k) (xs ! ?i)" using less.prems(3) [of k] k by simp
        moreover have "\<not> Less (xs ! ?i) (xs ! j)" using asym [OF _ _ lt] mem i by simp
        ultimately have "\<not> Less (xs ! k) (xs ! j)" using negtrans [of "xs ! k" "xs ! ?i" "xs ! j"] mem k i by simp
        then show ?thesis using 3 k y by simp
      next
        case 4
        then show ?thesis using less.prems(3) [of k] k y by simp
      qed
    qed
    have b: "\<not> Less (?ys ! k) (?ys ! parent ?i)" if k: "0 < k" "k < length ?ys" "parent k = ?i" "0 < ?i" for k
    proof -
      have pi: "parent ?i < ?i" using k(4) by auto
      have ip: "\<not> Less (xs ! ?i) (xs ! parent ?i)" using less.prems(3) [of ?i] k(4) i by simp
      show ?thesis
      proof (cases "k = j")
        case True
        then show ?thesis using ip i pi y by simp
      next
        case False
        then have "\<not> Less (xs ! k) (xs ! ?i)" using less.prems(3) [of k] k by simp
        then have "\<not> Less (xs ! k) (xs ! parent ?i)"
          using negtrans [of "xs ! k" "xs ! ?i" "xs ! parent ?i"] ip mem k i pi by simp
        moreover have "k \<noteq> ?i" using k pi by (metis less_irrefl)
        ultimately show ?thesis using False i pi y by simp
      qed
    qed
    have "heaped (length ?ys) (heap_up Less ?ys ?i)" by (rule less.IH) (use i sub a b in auto)
    then show ?thesis by (simp add: eq)
  qed
qed

text \<open>Sifting down repairs an order broken between \<open>i\<close> and its children only.\<close>

lemma heap_down_heaped:
  assumes "i < n" "n \<le> length xs" "set xs \<subseteq> S"
    and "\<And>k. 0 < k \<Longrightarrow> k < n \<Longrightarrow> parent k \<noteq> i \<Longrightarrow> \<not> Less (xs ! k) (xs ! parent k)"
    and "\<And>k. 0 < k \<Longrightarrow> k < n \<Longrightarrow> parent k = i \<Longrightarrow> 0 < i \<Longrightarrow> \<not> Less (xs ! k) (xs ! parent i)"
  shows "heaped n (fst (heap_down Less xs i n))"
  using assms
proof (induction "n - i" arbitrary: i xs rule: less_induct)
  case (less i xs)
  have mem: "xs ! k \<in> S" if "k < n" for k using less.prems(2,3) that by auto
  define j where "j = child Less xs i n"
  have chld: "k = 2 * i + 1 \<or> k = 2 * i + 1 + 1" if "parent k = i" "0 < k" for k using that by presburger
  have best: "\<not> Less (xs ! k) (xs ! j)" if k: "parent k = i" "0 < k" "k < n" for k
  proof -
    consider "k = 2 * i + 1" | "k = 2 * i + 1 + 1" using chld k by blast
    then show ?thesis
    proof cases
      case 1
      show ?thesis
      proof (cases "2 * i + 1 + 1 < n \<and> Less (xs ! (2 * i + 1 + 1)) (xs ! (2 * i + 1))")
        case True
        then have "j = 2 * i + 1 + 1" by (simp add: j_def child_def Let_def)
        then show ?thesis using True 1 k(3) mem asym [of "xs ! (2 * i + 1 + 1)" "xs ! (2 * i + 1)"] by simp
      next
        case False
        then have "j = k" using 1 by (auto simp: j_def child_def Let_def)
        then show ?thesis using irrefl mem k(3) by simp
      qed
    next
      case 2
      then show ?thesis using k(3) irrefl [of "xs ! k"] mem [of k] by (simp add: j_def child_def Let_def)
    qed
  qed
  show ?case
  proof (cases "n \<le> 2 * i + 1 \<or> \<not> Less (xs ! j) (xs ! i)")
    case True
    have eq: "heap_down Less xs i n = (xs, i)" using True by (subst heap_down.simps) (auto simp: j_def Let_def)
    have "\<not> Less (xs ! k) (xs ! parent k)" if k: "0 < k" "k < n" for k
    proof (cases "parent k = i")
      case p: True
      then have "2 * i + 1 < n" using chld k by fastforce
      then have "\<not> Less (xs ! j) (xs ! i)" "j < n" using True by (auto simp: j_def child_def Let_def)
      then show ?thesis using negtrans [of "xs ! k" "xs ! j" "xs ! i"] best p k mem less.prems(1) by simp
    qed (use less.prems(4) k in simp)
    then show ?thesis by (simp add: eq heaped_def)
  next
    case False
    then have lt: "Less (xs ! j) (xs ! i)" and j: "j < n" "i < j" "parent j = i" "0 < j" by (auto simp: j_def child_def Let_def)
    let ?ys = "heap_Swap xs i j"
    have eq: "heap_down Less xs i n = heap_down Less ?ys j n"
      using False by (subst heap_down.simps) (simp add: j_def Let_def)
    have y: "?ys ! k = (if k = i then xs ! j else if k = j then xs ! i else xs ! k)" for k
      using j less.prems by (simp add: swap_nth)
    have "mset ?ys = mset xs" using less.prems(1,2) j by (intro mset_swap_nth) auto
    then have sub: "set ?ys \<subseteq> S" using less.prems(3) by (metis mset_eq_setD)
    have a: "\<not> Less (?ys ! k) (?ys ! parent k)" if k: "0 < k" "k < n" "parent k \<noteq> j" for k
    proof -
      consider "k = j" | "k = i" | "k \<noteq> i" "k \<noteq> j" "parent k = i" | "k \<noteq> j" "k \<noteq> i" "parent k \<noteq> i" by blast
      then show ?thesis
      proof cases
        case 1
        then show ?thesis using asym [OF _ _ lt] mem j y less.prems(1) by simp
      next
        case 2
        then have "parent k < i" using k by auto
        then show ?thesis using 2 less.prems(5) [of j] j k y by simp
      next
        case 3
        then show ?thesis using best [of k] k y by simp
      next
        case 4
        then show ?thesis using less.prems(4) [of k] k y by simp
      qed
    qed
    have b: "\<not> Less (?ys ! k) (?ys ! parent j)" if k: "0 < k" "k < n" "parent k = j" "0 < j" for k
    proof -
      have "k \<noteq> i" "k \<noteq> j" using k j by auto
      then show ?thesis using less.prems(4) [of k] k j y by simp
    qed
    have "heaped n (fst (heap_down Less ?ys j n))"
      by (rule less.hyps) (use less.prems(2) sub j a b in auto)
    then show ?thesis by (simp add: eq)
  qed
qed

lemma heap_Push_heaped:
  assumes "heaped (length xs) xs" "set xs \<subseteq> S" "x \<in> S"
  shows "heaped (Suc (length xs)) (heap_Push Less x xs)" "mset (heap_Push Less x xs) = add_mset x (mset xs)"
proof -
  have "heaped (length (xs @ [x])) (heap_up Less (xs @ [x]) (length xs))"
  proof (rule heap_up_heaped)
    fix k assume k: "0 < k" "k < length (xs @ [x])" "k \<noteq> length xs"
    then have "k < length xs" "parent k < length xs" by auto
    then show "\<not> Less ((xs @ [x]) ! k) ((xs @ [x]) ! parent k)" using assms(1) k by (simp add: heaped_def nth_append)
  qed (use assms in auto)
  then show "heaped (Suc (length xs)) (heap_Push Less x xs)" by (simp add: heap_Push_def)
  show "mset (heap_Push Less x xs) = add_mset x (mset xs)" by (simp add: heap_Push_def heap_up_mset)
qed

lemma heap_Fix_root:
  assumes "heaped (length xs) xs" "set xs \<subseteq> S" "xs \<noteq> []" "x \<in> S"
  shows "heaped (length xs) (heap_Fix Less (xs[0 := x]) 0)" "mset (heap_Fix Less (xs[0 := x]) 0) = add_mset x (mset (tl xs))"
proof -
  let ?ys = "xs[0 := x]"
  have h: "heaped (length ?ys) (fst (heap_down Less ?ys 0 (length ?ys)))"
  proof (rule heap_down_heaped)
    fix k assume k: "0 < k" "k < length ?ys" "parent k \<noteq> 0"
    then show "\<not> Less (?ys ! k) (?ys ! parent k)" using assms(1) by (simp add: heaped_def)
  qed (use assms in \<open>auto simp: set_update_subsetI\<close>)
  have "heap_Fix Less ?ys 0 = fst (heap_down Less ?ys 0 (length ?ys))"
    by (simp add: heap_Fix_def heap_up.simps split: prod.split)
  then show "heaped (length xs) (heap_Fix Less ?ys 0)" "mset (heap_Fix Less ?ys 0) = add_mset x (mset (tl xs))"
    using h heap_down_mset [of "length ?ys" ?ys 0 Less] assms(3) by (auto simp: neq_Nil_conv)
qed

lemma heap_Pop_heaped:
  assumes "heaped (length xs) xs" "set xs \<subseteq> S" "xs \<noteq> []"
  shows "heap_Pop Less xs = (x, ys) \<Longrightarrow> x = xs ! 0 \<and> mset xs = add_mset x (mset ys) \<and> heaped (length ys) ys"
proof -
  assume p: "heap_Pop Less xs = (x, ys)"
  define n where "n = length xs - 1"
  have n: "n < length xs" "0 < length xs" "length xs = Suc n" using assms(3) by (auto simp: n_def)
  let ?s = "heap_Swap xs 0 n"
  define zs where "zs = fst (heap_down Less ?s 0 n)"
  have z: "mset zs = mset xs" "length zs = Suc n" using heap_down_mset [of n ?s 0 Less] heap_down_length [of n ?s 0 Less] n
    by (auto simp: zs_def mset_swap_nth)
  have last: "zs ! n = xs ! 0"
  proof (cases "n = 0")
    case True
    then show ?thesis using n by (simp add: zs_def heap_down.simps swap_nth)
  next
    case False
    then show ?thesis using heap_down_spec [of 0 n ?s Less] n by (simp add: zs_def swap_nth)
  qed
  have xy: "x = xs ! 0" "ys = take n zs" using p last by (auto simp: heap_Pop_def Let_def n_def zs_def)
  have "zs = take n zs @ [zs ! n]" using z(2) by (metis append_Nil2 drop_all id_take_nth_drop lessI order_refl)
  then have m: "mset xs = add_mset x (mset ys)" using z(1) xy last by (metis add_mset_add_single mset.simps(1,2) mset_append)
  have "heaped n zs"
  proof (cases "n = 0")
    case False
    show ?thesis unfolding zs_def
    proof (rule heap_down_heaped)
      fix k assume k: "0 < k" "k < n" "parent k \<noteq> 0"
      then have "parent k < n" "parent k \<noteq> n" "k \<noteq> n" by auto
      then show "\<not> Less (?s ! k) (?s ! parent k)" using assms(1) k n by (simp add: heaped_def swap_nth)
    next
      show "set ?s \<subseteq> S" using assms(2) n by (metis mset_swap_nth set_mset_mset)
    qed (use False n in auto)
  qed (simp add: heaped_def)
  then have "heaped (length ys) ys" using xy z(2) by (auto simp: heaped_def)
  then show ?thesis using xy m by simp
qed

end

section \<open>Popping everything\<close>

text \<open>Fill a result slice from its end with \<open>n\<close> popped elements.\<close>

primrec popAll :: "('a \<Rightarrow> 'a \<Rightarrow> bool) \<Rightarrow> nat \<Rightarrow> 'a list \<Rightarrow> 'a list \<Rightarrow> 'a list" where
  "popAll Less 0 xs acc = acc"
| "popAll Less (Suc n) xs acc = (case heap_Pop Less xs of (x, ys) \<Rightarrow> popAll Less n ys (x # acc))"

context weak_order
begin

lemma popAll_sorted:
  assumes "heaped (length xs) xs" "set xs \<subseteq> S" "set acc \<subseteq> S"
    and "sorted_wrt (\<lambda>a b. \<not> Less a b) acc" "\<And>x y. x \<in> set xs \<Longrightarrow> y \<in> set acc \<Longrightarrow> \<not> Less x y"
  shows "sorted_wrt (\<lambda>a b. \<not> Less a b) (popAll Less (length xs) xs acc) \<and> mset (popAll Less (length xs) xs acc) = mset xs + mset acc"
  using assms
proof (induction "length xs" arbitrary: xs acc)
  case (Suc n)
  obtain x ys where p: "heap_Pop Less xs = (x, ys)" by (cases "heap_Pop Less xs")
  have ne: "xs \<noteq> []" using Suc.hyps(2) by auto
  note q = heap_Pop_heaped [OF Suc.prems(1,2) ne p]
  have x: "x = xs ! 0" and m: "mset xs = add_mset x (mset ys)" and h: "heaped (length ys) ys" using q by auto
  have len: "n = length ys" using m Suc.hyps(2) by (metis Suc_inject size_add_mset size_mset)
  have sets: "set xs = insert x (set ys)" using m by (metis set_mset_add_mset_insert set_mset_mset)
  have root: "\<not> Less y x" if "y \<in> set xs" for y
    using heaped_root [OF Suc.prems(1)] Suc.prems(2) that by (auto simp: x in_set_conv_nth)
  have "sorted_wrt (\<lambda>a b. \<not> Less a b) (popAll Less (length ys) ys (x # acc)) \<and>
      mset (popAll Less (length ys) ys (x # acc)) = mset ys + mset (x # acc)"
    by (rule Suc.hyps(1)) (use len h sets Suc.prems root in auto)
  then show ?case using Suc.hyps(2) len p m by (simp flip: Suc.hyps(2))
qed simp

text \<open>A heap of kept elements beside the dropped ones: no kept element is less than a dropped one.\<close>

definition keeps :: "'a list \<Rightarrow> 'a multiset \<Rightarrow> bool" where
  "keeps xs D \<longleftrightarrow> heaped (length xs) xs \<and> set xs \<subseteq> S \<and> set_mset D \<subseteq> S \<and> (\<forall>x \<in> set xs. \<forall>d \<in> set_mset D. \<not> Less x d)"

lemma keeps_empty: "keeps [] {#}"
  by (simp add: keeps_def heaped_def)

lemma keeps_push: "keeps xs {#} \<Longrightarrow> x \<in> S \<Longrightarrow> keeps (heap_Push Less x xs) {#} \<and> mset (heap_Push Less x xs) = add_mset x (mset xs)"
proof -
  assume k: "keeps xs {#}" and x: "x \<in> S"
  then have m: "mset (heap_Push Less x xs) = add_mset x (mset xs)" and h: "heaped (Suc (length xs)) (heap_Push Less x xs)"
    using heap_Push_heaped [of xs x] by (auto simp: keeps_def)
  have "length (heap_Push Less x xs) = Suc (length xs)" "set (heap_Push Less x xs) = insert x (set xs)"
    using m by (metis size_add_mset size_mset, metis set_mset_add_mset_insert set_mset_mset)
  then show ?thesis using k x m h by (simp add: keeps_def)
qed

lemma keeps_root: "keeps xs D \<Longrightarrow> y \<in> set xs \<Longrightarrow> \<not> Less y (xs ! 0)"
  using heaped_root [of "length xs" xs] by (auto simp: keeps_def in_set_conv_nth)

lemma keeps_replace:
  assumes k: "keeps xs D" and xs: "xs \<noteq> []" and x: "x \<in> S" and lt: "Less (xs ! 0) x"
  shows "keeps (heap_Fix Less (xs[0 := x]) 0) (add_mset (xs ! 0) D) \<and>
      mset (heap_Fix Less (xs[0 := x]) 0) + {#xs ! 0#} = add_mset x (mset xs)"
proof -
  let ?ys = "heap_Fix Less (xs[0 := x]) 0"
  have kp: "heaped (length xs) xs" "set xs \<subseteq> S" "set_mset D \<subseteq> S" "\<forall>x \<in> set xs. \<forall>d \<in> set_mset D. \<not> Less x d" using k by (auto simp: keeps_def)
  have h: "heaped (length xs) ?ys" and m: "mset ?ys = add_mset x (mset (tl xs))"
    using heap_Fix_root [OF kp(1,2) xs x] by auto
  have "size (mset ?ys) = Suc (length (tl xs))" by (simp add: m)
  then have l: "length ?ys = length xs" using xs by (cases xs) auto
  have s: "set ?ys = insert x (set (tl xs))" using m by (metis set_mset_add_mset_insert set_mset_mset)
  have tl: "set (tl xs) \<subseteq> set xs" "xs ! 0 \<in> set xs" using xs by (auto simp: list.set_sel)
  have nx: "\<not> Less x (xs ! 0)" using asym [OF _ x lt] kp tl by blast
  have "\<not> Less y d" if y: "y \<in> set ?ys" and d: "d \<in># add_mset (xs ! 0) D" for y d
  proof (cases "y = x")
    case True
    have "d = xs ! 0 \<or> \<not> Less (xs ! 0) d" using d kp tl by auto
    then show ?thesis using True nx negtrans [OF x _ _ nx, of d] kp tl d by auto
  next
    case False
    then have "y \<in> set xs" using y s tl by auto
    then show ?thesis using d kp keeps_root [OF k] by auto
  qed
  then have "keeps ?ys (add_mset (xs ! 0) D)" using h l s kp tl x by (auto simp: keeps_def)
  moreover have "mset ?ys + {#xs ! 0#} = add_mset x (mset xs)" using m xs by (cases xs) auto
  ultimately show ?thesis by simp
qed

lemma keeps_drop: "keeps xs D \<Longrightarrow> xs \<noteq> [] \<Longrightarrow> x \<in> S \<Longrightarrow> \<not> Less (xs ! 0) x \<Longrightarrow> keeps xs (add_mset x D)"
proof -
  assume k: "keeps xs D" and xs: "xs \<noteq> []" and x: "x \<in> S" and n: "\<not> Less (xs ! 0) x"
  have "\<not> Less y x" if "y \<in> set xs" for y
    by (rule negtrans [OF _ _ x keeps_root [OF k that] n]) (use k that xs in \<open>auto simp: keeps_def subset_iff\<close>)
  then show ?thesis using k x by (auto simp: keeps_def)
qed

end

end
