(* ===== verification/Values.thy ===== *)
theory Values
  imports Parser
begin

text \<open>
  Values during query execution (the last part of cypher_exec.go): comparison and coercion of dynamic values, property access,
  the evaluation of expressions against variable bindings, and the names of columns.

  A binding is a property value, a node, an edge, a nil \<open>*Node\<close> or a reference to an unresolved parameter, which a property map may
  still hold. A binding map and a result row are association lists read through \<open>map_of\<close> and written with \<open>AList.update\<close>.
\<close>

datatype cval = CVal val | CNode Node | CEdge Edge | CNilNode | CRef string

type_synonym bindings = "(string \<times> cval) list"

abbreviation CNil :: cval where "CNil \<equiv> CVal VNil"
abbreviation CBool :: "bool \<Rightarrow> cval" where "CBool b \<equiv> CVal (VBool b)"

section \<open>Numbers as float64\<close>

text \<open>
  A float64 that is not a NaN is compared through its value times \<open>2 ^ 1074\<close>, an integer; the infinities get values beyond
  every finite one. An integer is converted to the nearest float64, ties to the even significand.
\<close>

datatype f64 = F_NaN | F_num int

definition f64_of_bits :: "u64 \<Rightarrow> f64" where
  "f64_of_bits w = (let n = unat w; e = (n div 2 ^ 52) mod 2 ^ 11; m = n mod 2 ^ 52;
       mag = (if e = 0 then m else (m + 2 ^ 52) * 2 ^ (e - 1))
     in if e = 2047 \<and> m \<noteq> 0 then F_NaN else F_num (if 2 ^ 63 \<le> n then - int mag else int mag))"

fun bitLen :: "nat \<Rightarrow> nat" where
  "bitLen n = (if n = 0 then 0 else Suc (bitLen (n div 2)))"

declare bitLen.simps [simp del]

definition round53 :: "nat \<Rightarrow> nat" where
  "round53 n = (if n < 2 ^ 53 then n
     else let s = bitLen n - 53; q = n div 2 ^ s; r = n mod 2 ^ s; half = 2 ^ (s - 1)
          in (if half < r \<or> (r = half \<and> odd q) then q + 1 else q) * 2 ^ s)"

definition f64_of_int :: "int \<Rightarrow> f64" where
  "f64_of_int i = F_num (sgn i * int (round53 (nat \<bar>i\<bar>)) * 2 ^ 1074)"

definition f64_less :: "f64 \<Rightarrow> f64 \<Rightarrow> bool" where
  "f64_less a b = (case a of F_NaN \<Rightarrow> False | F_num x \<Rightarrow> (case b of F_NaN \<Rightarrow> False | F_num y \<Rightarrow> x < y))"

definition toFloat64 :: "cval \<Rightarrow> f64 option" where
  "toFloat64 v = (case v of
       CVal (VFloat w) \<Rightarrow> Some (f64_of_bits w)
     | CVal (VInt k i) \<Rightarrow> if k \<in> {K_int, K_int64, K_int32, K_uint64} then Some (f64_of_int i) else None
     | _ \<Rightarrow> None)"

section \<open>Comparison and coercion\<close>

text \<open>\<open>strings.Compare\<close>\<close>

definition strings_Compare :: "string \<Rightarrow> string \<Rightarrow> int" where
  "strings_Compare a b = (if a = b then 0 else if a < b then -1 else 1)"

text \<open>\<open>fmt.Sprint\<close> of one operand; an edge has a \<open>String\<close> method, a pointer to another struct prints its fields.\<close>

definition Sprint :: "codec \<Rightarrow> cval \<Rightarrow> string" where
  "Sprint C v = (case v of
       CVal x \<Rightarrow> fmtv C x
     | CNode n \<Rightarrow> ''&{'' @ utoa (unat (n_id n)) @ '' ['' @ join '' '' (n_labels n) @ ''] '' @ fmtv C (VMap (n_props n)) @ ''}''
     | CEdge e \<Rightarrow> Edge_String e
     | CNilNode \<Rightarrow> ''<nil>''
     | CRef s \<Rightarrow> s)"

text \<open>The type assertions \<open>v.(string)\<close> and \<open>v.(bool)\<close>.\<close>

definition asString :: "cval \<Rightarrow> string option" where
  "asString v = (case v of CVal (VStr s) \<Rightarrow> Some s | _ \<Rightarrow> None)"

definition asBool :: "cval \<Rightarrow> bool option" where
  "asBool v = (case v of CVal (VBool b) \<Rightarrow> Some b | _ \<Rightarrow> None)"

definition compareValues :: "codec \<Rightarrow> cval \<Rightarrow> cval \<Rightarrow> int" where
  "compareValues C a b =
     (if a = CNil \<and> b = CNil then 0
      else if a = CNil then -1
      else if b = CNil then 1
      else case (toFloat64 a, toFloat64 b) of
             (Some af, Some bf) \<Rightarrow> if f64_less af bf then -1 else if f64_less bf af then 1 else 0
           | _ \<Rightarrow> (case (asString a, asString b) of
                 (Some s, Some t) \<Rightarrow> strings_Compare s t
               | _ \<Rightarrow> (case (asBool a, asBool b) of
                     (Some x, Some y) \<Rightarrow> if x = y then 0 else if \<not> x then -1 else 1
                   | _ \<Rightarrow> strings_Compare (Sprint C a) (Sprint C b))))"

definition toBool :: "cval \<Rightarrow> bool" where
  "toBool v = (case v of
       CVal VNil \<Rightarrow> False
     | CVal (VBool b) \<Rightarrow> b
     | CVal (VInt k i) \<Rightarrow> k \<noteq> K_int64 \<or> i \<noteq> 0
     | CVal (VFloat w) \<Rightarrow> f64_of_bits w \<noteq> F_num 0
     | CVal (VStr s) \<Rightarrow> s \<noteq> []
     | _ \<Rightarrow> True)"

section \<open>Properties\<close>

text \<open>Reading a field through a nil pointer panics.\<close>

definition getProperty :: "cval \<Rightarrow> string \<Rightarrow> gerr + cval" where
  "getProperty obj prop = (case obj of
       CNode n \<Rightarrow> Inr (case map_of (n_props n) prop of None \<Rightarrow> CNil | Some v \<Rightarrow> CVal v)
     | CNilNode \<Rightarrow> Inl ErrPanic
     | CEdge e \<Rightarrow> Inr (if prop = ''label'' \<or> prop = ''type'' then CVal (VStr (e_label e))
         else case map_of (e_props e) prop of None \<Rightarrow> CNil | Some v \<Rightarrow> CVal v)
     | _ \<Rightarrow> Inr CNil)"

definition pval_cval :: "pval \<Rightarrow> cval" where
  "pval_cval p = (case p of PVal v \<Rightarrow> CVal v | ParamRef s \<Rightarrow> CRef s)"

definition matchProps :: "codec \<Rightarrow> Props \<Rightarrow> (string \<times> pval) list \<Rightarrow> bool" where
  "matchProps C actual constraints = list_all (\<lambda>(key, expected). case map_of actual key of
       None \<Rightarrow> False
     | Some v \<Rightarrow> compareValues C (CVal v) (pval_cval expected) = 0) constraints"

definition matchLabels :: "string list \<Rightarrow> string list \<Rightarrow> bool" where
  "matchLabels nodeLabels required = list_all (\<lambda>r. r \<in> set nodeLabels) required"

section \<open>Expressions\<close>

text \<open>\<open>strings.ToLower\<close>, compared with two ASCII names only; see \<open>toUpper\<close> for the characters that reach it.\<close>

definition toLower :: "string \<Rightarrow> string" where
  "toLower = map (\<lambda>c. if 65 \<le> code c \<and> code c \<le> 90 then char_of (code c + 32) else c)"

definition compResult :: "CompOp \<Rightarrow> int \<Rightarrow> bool" where
  "compResult op cmp = (case op of OpEq \<Rightarrow> cmp = 0 | OpNeq \<Rightarrow> cmp \<noteq> 0 | OpLt \<Rightarrow> cmp < 0 | OpGt \<Rightarrow> 0 < cmp
     | OpLte \<Rightarrow> cmp \<le> 0 | OpGte \<Rightarrow> 0 \<le> cmp)"

definition unbound :: "string \<Rightarrow> gerr" where
  "unbound v = ErrMsg (''cypher exec: unbound variable '' @ v)"

text \<open>\<open>int64(v.ID)\<close>\<close>

definition idValue :: "u64 \<Rightarrow> cval" where
  "idValue i = CVal (VInt K_int64 (sint i))"

definition typeResult :: "cval \<Rightarrow> gerr + cval" where
  "typeResult v = Inr (case v of CEdge e \<Rightarrow> CVal (VStr (e_label e)) | _ \<Rightarrow> CNil)"

definition idResult :: "cval \<Rightarrow> gerr + cval" where
  "idResult v = (case v of CNode n \<Rightarrow> Inr (idValue (n_id n)) | CEdge e \<Rightarrow> Inr (idValue (e_id e)) | CNilNode \<Rightarrow> Inl ErrPanic | _ \<Rightarrow> Inr CNil)"

fun evalExpr :: "codec \<Rightarrow> bindings \<Rightarrow> Expression \<Rightarrow> gerr + cval"
  and evalFunc :: "codec \<Rightarrow> bindings \<Rightarrow> string \<Rightarrow> Expression list \<Rightarrow> gerr + cval"
  and evalAnd :: "codec \<Rightarrow> bindings \<Rightarrow> Expression list \<Rightarrow> gerr + cval"
  and evalOr :: "codec \<Rightarrow> bindings \<Rightarrow> Expression list \<Rightarrow> gerr + cval"
where
  "evalExpr C bs (ExprLiteral v) = Inr (CVal v)"
| "evalExpr C bs (ExprVarRef x) = (case map_of bs x of None \<Rightarrow> Inl (unbound x) | Some v \<Rightarrow> Inr v)"
| "evalExpr C bs (ExprPropAccess x p) = (case map_of bs x of None \<Rightarrow> Inl (unbound x)
     | Some v \<Rightarrow> if v = CNil then Inr CNil else getProperty v p)"
| "evalExpr C bs (ExprFuncCall name args) = evalFunc C bs name args"
| "evalExpr C bs (ExprComparison l op r) =
     ebind (evalExpr C bs l) (\<lambda>left. ebind (evalExpr C bs r) (\<lambda>right. Inr (CBool (compResult op (compareValues C left right)))))"
| "evalExpr C bs (ExprAnd ops) = evalAnd C bs ops"
| "evalExpr C bs (ExprOr ops) = evalOr C bs ops"
| "evalExpr C bs (ExprNot e) = ebind (evalExpr C bs e) (\<lambda>v. Inr (CBool (\<not> toBool v)))"
| "evalExpr C bs (ExprParam p) = Inl (ErrMsg ''cypher exec: unsupported expression kind'')"
| "evalFunc C bs name args =
     (if toLower name = ''type'' then
        (case args of [a] \<Rightarrow> ebind (evalExpr C bs a) typeResult
         | _ \<Rightarrow> Inl (ErrMsg ''cypher exec: type() requires exactly 1 argument''))
      else if toLower name = ''id'' then
        (case args of [a] \<Rightarrow> ebind (evalExpr C bs a) idResult
         | _ \<Rightarrow> Inl (ErrMsg ''cypher exec: id() requires exactly 1 argument''))
      else Inl (ErrMsg (''cypher exec: unknown function '' @ name)))"
| "evalAnd C bs [] = Inr (CBool True)"
| "evalAnd C bs (e # es) = ebind (evalExpr C bs e) (\<lambda>v. if toBool v then evalAnd C bs es else Inr (CBool False))"
| "evalOr C bs [] = Inr (CBool False)"
| "evalOr C bs (e # es) = ebind (evalExpr C bs e) (\<lambda>v. if toBool v then Inr (CBool True) else evalOr C bs es)"

definition evalBool :: "codec \<Rightarrow> bindings \<Rightarrow> Expression \<Rightarrow> gerr + bool" where
  "evalBool C bs e = ebind (evalExpr C bs e) (\<lambda>v. Inr (toBool v))"

text \<open>A WHERE clause that may be absent.\<close>

definition whereOk :: "codec \<Rightarrow> Expression option \<Rightarrow> bindings \<Rightarrow> gerr + bool" where
  "whereOk C w bs = (case w of None \<Rightarrow> Inr True | Some e \<Rightarrow> evalBool C bs e)"

section \<open>Columns and rows\<close>

fun exprName :: "Expression \<Rightarrow> string" where
  "exprName (ExprVarRef x) = x"
| "exprName (ExprPropAccess x p) = x @ ''.'' @ p"
| "exprName (ExprFuncCall f args) = f @ ''('' @ join '', '' (map exprName args) @ '')''"
| "exprName _ = ''expr''"

definition returnItemName :: "ReturnItem \<Rightarrow> string" where
  "returnItemName item = (if ri_Alias item \<noteq> [] then ri_Alias item else exprName (ri_Expr item))"

definition evalRowExpr :: "Expression \<Rightarrow> bindings \<Rightarrow> cval" where
  "evalRowExpr e row = (case map_of row (exprName e) of Some v \<Rightarrow> v
     | None \<Rightarrow> (case e of
           ExprPropAccess x p \<Rightarrow> (case map_of row x of None \<Rightarrow> CNil
             | Some obj \<Rightarrow> (case getProperty obj p of Inr v \<Rightarrow> v | Inl _ \<Rightarrow> CNil))
         | _ \<Rightarrow> CNil))"

text \<open>A zero value stands for the value of an expression whose error is dropped.\<close>

definition orNil :: "gerr + cval \<Rightarrow> cval" where
  "orNil r = (case r of Inl _ \<Rightarrow> CNil | Inr v \<Rightarrow> v)"

definition evalSortKey :: "codec \<Rightarrow> OrderItem list \<Rightarrow> bindings \<Rightarrow> cval list" where
  "evalSortKey C orderBy bs = map (\<lambda>oi. orNil (evalExpr C bs (oi_Expr oi))) orderBy"

section \<open>Comparison as an order\<close>

lemma strings_Compare_antisym: "strings_Compare b a = - strings_Compare a b"
  by (auto simp: strings_Compare_def)

lemma toFloat64_nil [simp]: "toFloat64 CNil = None"
  by (simp add: toFloat64_def)

lemma f64_less_asym: "f64_less a b \<Longrightarrow> \<not> f64_less b a"
  by (auto simp: f64_less_def split: f64.splits)

lemma compareValues_nil [simp]: "compareValues C CNil CNil = 0" "v \<noteq> CNil \<Longrightarrow> compareValues C CNil v = -1" "v \<noteq> CNil \<Longrightarrow> compareValues C v CNil = 1"
  by (simp_all add: compareValues_def)

lemma compareValues_num:
  assumes "toFloat64 a = Some x" "toFloat64 b = Some y"
  shows "compareValues C a b = (if f64_less x y then -1 else if f64_less y x then 1 else 0)"
proof -
  have "a \<noteq> CNil" "b \<noteq> CNil" using assms by auto
  then show ?thesis using assms by (simp add: compareValues_def)
qed

lemma toFloat64_typed [simp]: "toFloat64 (CVal (VStr s)) = None" "toFloat64 (CVal (VBool b)) = None"
  by (simp_all add: toFloat64_def)

lemma asString_iff: "asString v = Some s \<longleftrightarrow> v = CVal (VStr s)"
  by (auto simp: asString_def split: cval.splits val.splits)

lemma asBool_iff: "asBool v = Some b \<longleftrightarrow> v = CBool b"
  by (auto simp: asBool_def split: cval.splits val.splits)

lemma compareValues_str [simp]: "compareValues C (CVal (VStr s)) (CVal (VStr t)) = strings_Compare s t"
  by (simp add: compareValues_def asString_def)

lemma compareValues_bool [simp]: "compareValues C (CBool x) (CBool y) = (if x = y then 0 else if \<not> x then -1 else 1)"
  by (simp add: compareValues_def asString_def asBool_def)

text \<open>Two values that are not both numbers, both strings or both booleans are compared by their text.\<close>

definition same_type :: "cval \<Rightarrow> cval \<Rightarrow> bool" where
  "same_type a b \<longleftrightarrow> (toFloat64 a \<noteq> None \<and> toFloat64 b \<noteq> None) \<or> (asString a \<noteq> None \<and> asString b \<noteq> None) \<or> (asBool a \<noteq> None \<and> asBool b \<noteq> None)"

lemma case_both: "x = None \<or> y = None \<Longrightarrow> (case (x, y) of (Some a, Some b) \<Rightarrow> f a b | _ \<Rightarrow> z) = z"
  by (auto split: option.split)

lemma compareValues_text:
  assumes "a \<noteq> CNil" "b \<noteq> CNil" "\<not> same_type a b"
  shows "compareValues C a b = strings_Compare (Sprint C a) (Sprint C b)"
proof -
  have "toFloat64 a = None \<or> toFloat64 b = None" "asString a = None \<or> asString b = None" "asBool a = None \<or> asBool b = None"
    using assms(3) by (auto simp: same_type_def)
  then show ?thesis using assms(1,2) by (simp only: compareValues_def case_both if_False simp_thms)
qed

lemma compareValues_antisym: "compareValues C b a = - compareValues C a b"
proof -
  consider "a = CNil \<or> b = CNil" | x y where "toFloat64 a = Some x" "toFloat64 b = Some y"
    | s t where "asString a = Some s" "asString b = Some t" | x y where "asBool a = Some x" "asBool b = Some y"
    | "a \<noteq> CNil" "b \<noteq> CNil" "\<not> same_type a b" unfolding same_type_def by fast
  then show ?thesis
  proof cases
    case 1
    then show ?thesis by (cases "a = CNil"; cases "b = CNil"; simp)
  next
    case 2
    then show ?thesis using f64_less_asym by (auto simp: compareValues_num)
  next
    case (3 s t)
    then show ?thesis using strings_Compare_antisym [of t s] by (simp add: asString_iff)
  next
    case 4
    then show ?thesis by (auto simp: asBool_iff)
  next
    case 5
    moreover have "\<not> same_type b a" using 5 by (auto simp: same_type_def)
    ultimately show ?thesis using strings_Compare_antisym [of "Sprint C b" "Sprint C a"] by (simp add: compareValues_text)
  qed
qed

lemma compareValues_refl [simp]: "compareValues C a a = 0"
  using compareValues_antisym [of C a a] by simp

text \<open>
  Values of one type, nil among them, are totally preordered; across types the comparison falls back to the text of the values,
  which is not compatible with the order of numbers.
\<close>

definition is_num :: "cval \<Rightarrow> bool" where "is_num v = (case toFloat64 v of Some (F_num x) \<Rightarrow> True | _ \<Rightarrow> False)"
definition is_str :: "cval \<Rightarrow> bool" where "is_str v = (case v of CVal (VStr s) \<Rightarrow> True | _ \<Rightarrow> False)"
definition is_bool :: "cval \<Rightarrow> bool" where "is_bool v = (case v of CVal (VBool b) \<Rightarrow> True | _ \<Rightarrow> False)"

definition uniform :: "cval list \<Rightarrow> bool" where
  "uniform vs \<longleftrightarrow> list_all (\<lambda>v. v = CNil \<or> is_num v) vs \<or> list_all (\<lambda>v. v = CNil \<or> is_str v) vs \<or> list_all (\<lambda>v. v = CNil \<or> is_bool v) vs"

lemma strings_Compare_trans: "strings_Compare a b \<le> 0 \<Longrightarrow> strings_Compare b c \<le> 0 \<Longrightarrow> strings_Compare a c \<le> 0"
  by (auto simp: strings_Compare_def split: if_splits)

lemma compareValues_trans_typed:
  assumes typed: "\<And>x y z. P x \<Longrightarrow> P y \<Longrightarrow> P z \<Longrightarrow> compareValues C x y \<le> 0 \<Longrightarrow> compareValues C y z \<le> 0 \<Longrightarrow> compareValues C x z \<le> 0"
    and v: "a = CNil \<or> P a" "b = CNil \<or> P b" "c = CNil \<or> P c" and le: "compareValues C a b \<le> 0" "compareValues C b c \<le> 0"
  shows "compareValues C a c \<le> 0"
proof (cases "a = CNil")
  case True
  then show ?thesis by (cases "c = CNil") auto
next
  case a: False
  then have b: "b \<noteq> CNil" using le(1) by auto
  then have "c \<noteq> CNil" using le(2) by auto
  then show ?thesis using typed v le a b by blast
qed

lemma compareValues_trans:
  assumes u: "uniform vs" and mem: "a \<in> set vs" "b \<in> set vs" "c \<in> set vs"
    and le: "compareValues C a b \<le> 0" "compareValues C b c \<le> 0"
  shows "compareValues C a c \<le> 0"
  using u unfolding uniform_def list_all_iff
proof (elim disjE)
  assume "\<forall>v\<in>set vs. v = CNil \<or> is_num v"
  then show ?thesis using mem le
    by (intro compareValues_trans_typed [where P = is_num and a = a and b = b and c = c])
      (auto simp: is_num_def compareValues_num f64_less_def split: option.splits f64.splits if_splits)
next
  assume "\<forall>v\<in>set vs. v = CNil \<or> is_str v"
  then show ?thesis using mem le
    by (intro compareValues_trans_typed [where P = is_str and a = a and b = b and c = c])
      (auto simp: is_str_def dest: strings_Compare_trans split: cval.splits val.splits)
next
  assume "\<forall>v\<in>set vs. v = CNil \<or> is_bool v"
  then show ?thesis using mem le
    by (intro compareValues_trans_typed [where P = is_bool and a = a and b = b and c = c])
      (auto simp: is_bool_def split: cval.splits val.splits if_splits)
qed

end
