(* ===== verification/Plan.thy ===== *)
theory Plan
  imports Values DB
begin

text \<open>
  Query plans (query_plan.go): the tree of operators that EXPLAIN and PROFILE return and its construction from a query. The plan
  shows which access path the executor would take. Elapsed times are left out.
\<close>

datatype PlanOperator = OpAllNodesScan | OpLabelScan | OpIndexSeek | OpFilter | OpExpand | OpExpandVarLen | OpProject | OpSort | OpLimitOp | OpProduceResult

datatype PlanNode = PlanNode (pn_Operator: PlanOperator) (pn_Details: string) (pn_ActualRows: nat) (pn_Children: "PlanNode list")

abbreviation planLeaf :: "PlanOperator \<Rightarrow> string \<Rightarrow> PlanNode" where "planLeaf op details \<equiv> PlanNode op details 0 []"
abbreviation planOver :: "PlanOperator \<Rightarrow> string \<Rightarrow> PlanNode \<Rightarrow> PlanNode" where "planOver op details child \<equiv> PlanNode op details 0 [child]"

text \<open>The equality of a property with a literal that WHERE demands, if it has that form (cypher_exec.go).\<close>

fun extractWhereEquality :: "Expression \<Rightarrow> string \<Rightarrow> (string \<times> val) option"
and extractFirst :: "Expression list \<Rightarrow> string \<Rightarrow> (string \<times> val) option" where
  "extractWhereEquality (ExprComparison l op r) nodeVar =
     (if op = OpEq then
        (case (l, r) of
           (ExprPropAccess x p, ExprLiteral v) \<Rightarrow> if x = nodeVar then Some (p, v) else None
         | (ExprLiteral v, ExprPropAccess x p) \<Rightarrow> if x = nodeVar then Some (p, v) else None
         | _ \<Rightarrow> None)
      else None)"
| "extractWhereEquality (ExprAnd ops) nodeVar = extractFirst ops nodeVar"
| "extractWhereEquality _ nodeVar = None"
| "extractFirst [] nodeVar = None"
| "extractFirst (e # es) nodeVar = (case extractWhereEquality e nodeVar of Some pv \<Rightarrow> Some pv | None \<Rightarrow> extractFirst es nodeVar)"

text \<open>A variable name, or a default for an anonymous one.\<close>

definition varOr :: "string \<Rightarrow> string \<Rightarrow> string" where
  "varOr x d = (if x = [] then d else x)"

definition formatExprBrief :: "codec \<Rightarrow> Expression \<Rightarrow> string" where
  "formatExprBrief C e = (case e of
       ExprVarRef x \<Rightarrow> x
     | ExprPropAccess x p \<Rightarrow> ''.'' @ p
     | ExprFuncCall f args \<Rightarrow> f @ ''(...)''
     | ExprLiteral v \<Rightarrow> fmtv C v
     | ExprParam p \<Rightarrow> ''$'' @ p
     | _ \<Rightarrow> ''expr'')"

definition formatOrderBy :: "codec \<Rightarrow> OrderItem list \<Rightarrow> string" where
  "formatOrderBy C items = join '', '' (map (\<lambda>i. formatExprBrief C (oi_Expr i) @ (if oi_Desc i then '' DESC'' else [])) items)"

definition formatReturn :: "codec \<Rightarrow> ReturnItem list \<Rightarrow> string" where
  "formatReturn C items = join '', '' (map (\<lambda>i. formatExprBrief C (ri_Expr i) @ (if ri_Alias i \<noteq> [] then '' AS '' @ ri_Alias i else [])) items)"

definition buildNodeScan :: "'b DB \<Rightarrow> NodePattern \<Rightarrow> Expression option \<Rightarrow> PlanNode" where
  "buildNodeScan db np w =
     (let varName = varOr (np_Variable np) ''_n''
      in if np_Labels np \<noteq> [] then planLeaf OpLabelScan (varName @ '':'' @ join '':'' (np_Labels np))
         else if np_Props np \<noteq> [] then
           (case find (HasIndex db) (map fst (np_Props np)) of
              Some key \<Rightarrow> planLeaf OpIndexSeek (varName @ ''.'' @ key)
            | None \<Rightarrow> planLeaf OpAllNodesScan varName)
         else (case w of None \<Rightarrow> planLeaf OpAllNodesScan varName
             | Some e \<Rightarrow> (case extractWhereEquality e varName of
                   Some (prop, _) \<Rightarrow> if HasIndex db prop then planLeaf OpIndexSeek (varName @ ''.'' @ prop @ '' (from WHERE)'')
                       else planLeaf OpAllNodesScan varName
                 | None \<Rightarrow> planLeaf OpAllNodesScan varName)))"

definition buildNodeMatchPlan :: "'b DB \<Rightarrow> NodePattern \<Rightarrow> Expression option \<Rightarrow> PlanNode" where
  "buildNodeMatchPlan db np w =
     (let varName = varOr (np_Variable np) ''_n''; scan = buildNodeScan db np w;
          inl = (if np_Props np \<noteq> [] then ''inline props on '' @ varName else []);
          detail = (if w = None then inl else if inl \<noteq> [] then inl @ '' AND WHERE clause'' else ''WHERE clause'')
      in if (np_Props np \<noteq> [] \<and> pn_Operator scan \<noteq> OpIndexSeek) \<or> w \<noteq> None then planOver OpFilter detail scan else scan)"

definition buildSingleHopPlan :: "'b DB \<Rightarrow> CypherQuery \<Rightarrow> PlanNode" where
  "buildSingleHopPlan db q =
     (let np = pt_Nodes (q_Match q) ! 0; rel = pt_Rels (q_Match q) ! 0;
          varA = varOr (np_Variable np) ''_a'';
          detail = (case rp_Dir rel of
              Incoming \<Rightarrow> ''('' @ varA @ '')<-[:'' @ rp_Label rel @ '']-''
            | Both \<Rightarrow> ''('' @ varA @ '')-[:'' @ rp_Label rel @ '']-''
            | Outgoing \<Rightarrow> ''('' @ varA @ '')-[:'' @ rp_Label rel @ '']->'');
          expand = planOver OpExpand detail (buildNodeMatchPlan db np None)
      in if q_Where q \<noteq> None then planOver OpFilter ''WHERE clause'' expand else expand)"

definition buildVarLengthPlan :: "CypherQuery \<Rightarrow> PlanNode" where
  "buildVarLengthPlan q =
     (let rel = pt_Rels (q_Match q) ! 0
      in planOver OpExpandVarLen (''[:'' @ rp_Label rel @ ''*'' @ itoa (rp_MinHops rel) @ ''..'' @ itoa (rp_MaxHops rel) @ '']'')
           (planLeaf OpAllNodesScan ''source''))"

definition buildPlan :: "codec \<Rightarrow> 'b DB \<Rightarrow> CypherQuery \<Rightarrow> PlanNode" where
  "buildPlan C db q =
     (let pat = q_Match q;
          scan = (if length (pt_Nodes pat) = 1 \<and> length (pt_Rels pat) = 0 then buildNodeMatchPlan db (pt_Nodes pat ! 0) (q_Where q)
            else if length (pt_Nodes pat) = 2 \<and> length (pt_Rels pat) = 1 then
              (if rp_VarLength (pt_Rels pat ! 0) then buildVarLengthPlan q else buildSingleHopPlan db q)
            else planLeaf OpAllNodesScan ''unsupported pattern'');
          top1 = (if q_OrderBy q \<noteq> [] then planOver OpSort (formatOrderBy C (q_OrderBy q)) scan else scan);
          top2 = (if 0 < q_Limit q then planOver OpLimitOp (itoa (q_Limit q)) top1 else top1)
      in planOver OpProduceResult (formatReturn C (q_Return q)) top2)"

text \<open>PROFILE: the row count on the root and its children (cypher_exec.go).\<close>

definition annotateProfileStats :: "nat \<Rightarrow> PlanNode \<Rightarrow> PlanNode" where
  "annotateProfileStats rows p = (case p of PlanNode op d _ cs \<Rightarrow>
     PlanNode op d rows (map (\<lambda>c. case c of PlanNode op' d' _ cs' \<Rightarrow> PlanNode op' d' rows cs') cs))"

end
