(* ===== verification/Project.thy ===== *)
theory Project
  imports Heap Plan
begin

text \<open>
  Projection of matches to result rows (cypher_exec.go, cypher_optional.go): RETURN, ORDER BY and LIMIT. With both ORDER BY and
  LIMIT a heap of bounded size selects the best matches before any row is built; otherwise all rows are built, sorted and cut.
\<close>

record CypherResult =
  cr_Columns :: "string list"
  cr_Rows :: "bindings list"
  cr_Plan :: "(PlanNode \<times> bool) option"

section \<open>The top-K heap\<close>

record 'a topKItem =
  tk_sortKey :: "cval list"
  tk_source :: 'a

record 'a topKHeap =
  tk_items :: "'a topKItem list"
  tk_orderBy :: "OrderItem list"
  tk_limit :: int

text \<open>\<open>make([]topKItem, 0, limit)\<close> panics when the capacity, 40 bytes an item, is beyond the address space of 48 bits.\<close>

definition newTopKHeap :: "OrderItem list \<Rightarrow> int \<Rightarrow> gerr + 'a topKHeap" where
  "newTopKHeap orderBy limit = (if 2 ^ 48 < limit * 40 then Inl ErrPanic else Inr \<lparr>tk_items = [], tk_orderBy = orderBy, tk_limit = limit\<rparr>)"

fun keyLess :: "codec \<Rightarrow> OrderItem list \<Rightarrow> cval list \<Rightarrow> cval list \<Rightarrow> bool" where
  "keyLess C (oi # ois) (a # as) (b # bs) =
     (let cmp = compareValues C a b in if cmp = 0 then keyLess C ois as bs else if oi_Desc oi then cmp < 0 else 0 < cmp)"
| "keyLess C _ _ _ = False"

fun isBetter :: "codec \<Rightarrow> OrderItem list \<Rightarrow> cval list \<Rightarrow> cval list \<Rightarrow> bool" where
  "isBetter C (oi # ois) (a # as) (b # bs) =
     (let cmp = compareValues C a b in if cmp = 0 then isBetter C ois as bs else if oi_Desc oi then 0 < cmp else cmp < 0)"
| "isBetter C _ _ _ = False"

definition tk_Less :: "codec \<Rightarrow> OrderItem list \<Rightarrow> 'a topKItem \<Rightarrow> 'a topKItem \<Rightarrow> bool" where
  "tk_Less C ob x y = keyLess C ob (tk_sortKey x) (tk_sortKey y)"

definition offer :: "codec \<Rightarrow> 'a topKItem \<Rightarrow> 'a topKHeap \<Rightarrow> 'a topKHeap" where
  "offer C item h =
     (let items = tk_items h; ls = tk_Less C (tk_orderBy h)
      in if int (length items) < tk_limit h then h\<lparr>tk_items := heap_Push ls item items\<rparr>
         else if isBetter C (tk_orderBy h) (tk_sortKey item) (tk_sortKey (items ! 0)) then h\<lparr>tk_items := heap_Fix ls (items[0 := item]) 0\<rparr>
         else h)"

definition tk_sorted :: "codec \<Rightarrow> 'a topKHeap \<Rightarrow> 'a topKItem list" where
  "tk_sorted C h = popAll (tk_Less C (tk_orderBy h)) (length (tk_items h)) (tk_items h) []"

section \<open>Sorting rows\<close>

fun rowLess :: "codec \<Rightarrow> OrderItem list \<Rightarrow> bindings \<Rightarrow> bindings \<Rightarrow> bool" where
  "rowLess C [] ri rj = False"
| "rowLess C (oi # ois) ri rj =
     (let cmp = compareValues C (evalRowExpr (oi_Expr oi) ri) (evalRowExpr (oi_Expr oi) rj)
      in if cmp = 0 then rowLess C ois ri rj else if oi_Desc oi then 0 < cmp else cmp < 0)"

text \<open>
  \<open>sort.SliceStable\<close>: insertion from the back, which is what the library runs on up to twenty elements. On more it merges sorted
  blocks, with the same result whenever the comparison is a strict weak order.
\<close>

fun insertBack :: "('a \<Rightarrow> 'a \<Rightarrow> bool) \<Rightarrow> 'a \<Rightarrow> 'a list \<Rightarrow> 'a list" where
  "insertBack ls x [] = [x]"
| "insertBack ls x (y # ys) = (if ls x y then y # insertBack ls x ys else x # y # ys)"

definition SliceStable :: "('a \<Rightarrow> 'a \<Rightarrow> bool) \<Rightarrow> 'a list \<Rightarrow> 'a list" where
  "SliceStable ls xs = rev (fold (insertBack ls) xs [])"

definition sortRows :: "codec \<Rightarrow> OrderItem list \<Rightarrow> bindings list \<Rightarrow> bindings list" where
  "sortRows C orderItems rows = SliceStable (rowLess C orderItems) rows"

section \<open>Projection\<close>

definition projectRow :: "codec \<Rightarrow> ReturnItem list \<Rightarrow> bindings \<Rightarrow> gerr + bindings" where
  "projectRow C items bs =
     efold (\<lambda>item row. ebind (evalExpr C bs (ri_Expr item)) (\<lambda>v. Inr (AList.update (returnItemName item) v row))) items []"

definition limitRows :: "int \<Rightarrow> 'a list \<Rightarrow> 'a list" where
  "limitRows limit rows = (if 0 < limit \<and> limit < int (length rows) then take (nat limit) rows else rows)"

definition orderRows :: "codec \<Rightarrow> CypherQuery \<Rightarrow> bindings list \<Rightarrow> bindings list" where
  "orderRows C q rows = limitRows (q_Limit q) (if q_OrderBy q \<noteq> [] then sortRows C (q_OrderBy q) rows else rows)"

definition resultOf :: "CypherQuery \<Rightarrow> bindings list \<Rightarrow> CypherResult" where
  "resultOf q rows = \<lparr>cr_Columns = map returnItemName (q_Return q), cr_Rows = rows, cr_Plan = None\<rparr>"

text \<open>
  The two projections of the source have the same body up to the bindings they build of a match; \<open>bind\<close> builds them.
\<close>

definition projectWith :: "codec \<Rightarrow> CypherQuery \<Rightarrow> ('a \<Rightarrow> bindings) \<Rightarrow> 'a list \<Rightarrow> gerr + CypherResult" where
  "projectWith C q bind xs =
     (if q_OrderBy q \<noteq> [] \<and> 0 < q_Limit q then
        ebind (newTopKHeap (q_OrderBy q) (q_Limit q)) (\<lambda>h0.
          let h = fold (\<lambda>x. offer C \<lparr>tk_sortKey = evalSortKey C (q_OrderBy q) (bind x), tk_source = x\<rparr>) xs h0
          in ebind (emapM (\<lambda>item. projectRow C (q_Return q) (bind (tk_source item))) (tk_sorted C h)) (\<lambda>rows. Inr (resultOf q rows)))
      else ebind (emapM (\<lambda>x. projectRow C (q_Return q) (bind x)) xs) (\<lambda>rows. Inr (resultOf q (orderRows C q rows))))"

definition projectResults :: "codec \<Rightarrow> CypherQuery \<Rightarrow> Node list \<Rightarrow> string \<Rightarrow> gerr + CypherResult" where
  "projectResults C q nodes nodeVar = projectWith C q (\<lambda>n. [(nodeVar, CNode n)]) nodes"

record resultRow =
  rr_a :: Node
  rr_r :: "Edge option"
  rr_b :: Node

definition patBindings :: "string \<Rightarrow> string \<Rightarrow> string \<Rightarrow> resultRow \<Rightarrow> bindings" where
  "patBindings aVar rVar bVar rr =
     (let m = AList.update bVar (CNode (rr_b rr)) [(aVar, CNode (rr_a rr))]
      in case rr_r rr of None \<Rightarrow> m | Some e \<Rightarrow> if rVar \<noteq> [] then AList.update rVar (CEdge e) m else m)"

definition projectPatternResults :: "codec \<Rightarrow> CypherQuery \<Rightarrow> resultRow list \<Rightarrow> string \<Rightarrow> string \<Rightarrow> string \<Rightarrow> gerr + CypherResult" where
  "projectPatternResults C q rows aVar rVar bVar = projectWith C q (patBindings aVar rVar bVar) rows"

text \<open>The projection after OPTIONAL MATCH drops the errors of expressions.\<close>

definition projectRowOpt :: "codec \<Rightarrow> ReturnItem list \<Rightarrow> bindings \<Rightarrow> bindings" where
  "projectRowOpt C items bs = fold (\<lambda>item. AList.update (returnItemName item) (orNil (evalExpr C bs (ri_Expr item)))) items []"

definition projectBindings :: "codec \<Rightarrow> CypherQuery \<Rightarrow> bindings list \<Rightarrow> CypherResult" where
  "projectBindings C q bss = resultOf q (orderRows C q (map (projectRowOpt C (q_Return q)) bss))"

section \<open>The order of sort keys\<close>

fun keyCmp :: "codec \<Rightarrow> OrderItem list \<Rightarrow> cval list \<Rightarrow> cval list \<Rightarrow> int" where
  "keyCmp C (oi # ois) (a # as) (b # bs) =
     (let cmp = compareValues C a b in if cmp = 0 then keyCmp C ois as bs else if oi_Desc oi then - cmp else cmp)"
| "keyCmp C _ _ _ = 0"

lemma keyLess_cmp: "keyLess C ois a b \<longleftrightarrow> 0 < keyCmp C ois a b"
  by (induction C ois a b rule: keyCmp.induct) (auto simp: Let_def)

lemma isBetter_cmp: "isBetter C ois a b \<longleftrightarrow> keyCmp C ois a b < 0"
  by (induction C ois a b rule: keyCmp.induct) (auto simp: Let_def)

lemma keyCmp_antisym: "keyCmp C ois b a = - keyCmp C ois a b"
proof (induction C ois a b rule: keyCmp.induct)
  case (1 C oi ois a as b bs)
  then show ?case using compareValues_antisym [of C b a] by (auto simp: Let_def)
qed (auto split: list.splits elim: keyCmp.elims)

lemma isBetter_keyLess: "isBetter C ois a b \<longleftrightarrow> keyLess C ois b a"
  using keyCmp_antisym [of C ois a b] by (simp add: keyLess_cmp isBetter_cmp)

lemma keyCmp_trans:
  assumes "length a = length ois" "length b = length ois" "length c = length ois"
    and "\<And>i. i < length ois \<Longrightarrow> uniform [a ! i, b ! i, c ! i]"
    and "keyCmp C ois a b \<le> 0" "keyCmp C ois b c \<le> 0"
  shows "keyCmp C ois a c \<le> 0"
  using assms
proof (induction ois arbitrary: a b c)
  case (Cons oi ois)
  obtain x a' y b' z c' where abc: "a = x # a'" "b = y # b'" "c = z # c'" using Cons.prems(1,2,3) by (auto simp: length_Suc_conv)
  have u: "uniform [x, y, z]" using Cons.prems(4) [of 0] abc by simp
  have tr: "compareValues C p r \<le> 0" if "p \<in> {x, y, z}" "q \<in> {x, y, z}" "r \<in> {x, y, z}" "compareValues C p q \<le> 0" "compareValues C q r \<le> 0" for p q r
    using compareValues_trans [OF u, of p q r C] that by simp
  have rest: "keyCmp C ois a' b' \<le> 0 \<Longrightarrow> keyCmp C ois b' c' \<le> 0 \<Longrightarrow> keyCmp C ois a' c' \<le> 0"
  proof (rule Cons.IH)
    fix i assume "i < length ois"
    then show "uniform [a' ! i, b' ! i, c' ! i]" using Cons.prems(4) [of "Suc i"] abc by simp
  qed (use Cons.prems abc in auto)
  let ?xy = "compareValues C x y" and ?yz = "compareValues C y z" and ?xz = "compareValues C x z"
  have anti: "compareValues C y x = - ?xy" "compareValues C z y = - ?yz" "compareValues C z x = - ?xz" by (rule compareValues_antisym)+
  have asc: "?xy \<le> 0 \<Longrightarrow> ?yz \<le> 0 \<Longrightarrow> ?xz \<le> 0" "?xy \<le> 0 \<Longrightarrow> 0 \<le> ?xz \<Longrightarrow> 0 \<le> ?yz" "?yz \<le> 0 \<Longrightarrow> 0 \<le> ?xz \<Longrightarrow> 0 \<le> ?xy"
    using tr [of x y z] tr [of z x y] tr [of y z x] anti by auto
  have desc: "0 \<le> ?xy \<Longrightarrow> 0 \<le> ?yz \<Longrightarrow> 0 \<le> ?xz" "0 \<le> ?xy \<Longrightarrow> ?xz \<le> 0 \<Longrightarrow> ?yz \<le> 0" "0 \<le> ?yz \<Longrightarrow> ?xz \<le> 0 \<Longrightarrow> ?xy \<le> 0"
    using tr [of z y x] tr [of y x z] tr [of x z y] anti by auto
  have head: "keyCmp C (oi # ois) (p # ps) (r # rs) \<le> 0 \<longleftrightarrow>
      (if oi_Desc oi then 0 \<le> compareValues C p r else compareValues C p r \<le> 0) \<and> (compareValues C p r = 0 \<longrightarrow> keyCmp C ois ps rs \<le> 0)" for p ps r rs
    by (auto simp: Let_def)
  note prems = Cons.prems(5,6) [unfolded abc head]
  show ?case
  proof (cases "oi_Desc oi")
    case True
    then have "0 \<le> ?xy" "0 \<le> ?yz" using prems by auto
    then show ?thesis unfolding abc head using True desc prems rest by auto
  next
    case False
    then have "?xy \<le> 0" "?yz \<le> 0" using prems by auto
    then show ?thesis unfolding abc head using False asc prems rest by auto
  qed
qed simp

definition uniform_keys :: "OrderItem list \<Rightarrow> cval list list \<Rightarrow> bool" where
  "uniform_keys ois keys \<longleftrightarrow> list_all (\<lambda>k. length k = length ois) keys \<and> list_all (\<lambda>i. uniform (map (\<lambda>k. k ! i) keys)) [0..<length ois]"

lemma uniform_mono: "uniform vs \<Longrightarrow> set ws \<subseteq> set vs \<Longrightarrow> uniform ws"
  by (auto simp: uniform_def list_all_iff)

text \<open>The type of the values in a column of sort keys, and the items whose keys have given types.\<close>

datatype colKind = ColNum | ColStr | ColBool

definition hasKind :: "colKind \<Rightarrow> cval \<Rightarrow> bool" where
  "hasKind k v \<longleftrightarrow> v = CNil \<or> (case k of ColNum \<Rightarrow> is_num v | ColStr \<Rightarrow> is_str v | ColBool \<Rightarrow> is_bool v)"

definition typedItems :: "colKind list \<Rightarrow> OrderItem list \<Rightarrow> 'a topKItem set" where
  "typedItems kinds ois = {x. length kinds = length ois \<and> list_all2 hasKind kinds (tk_sortKey x)}"

lemma uniform_kind: "uniform vs \<longleftrightarrow> (\<exists>k. list_all (hasKind k) vs)"
proof -
  have "(\<exists>k. P k) \<longleftrightarrow> P ColNum \<or> P ColStr \<or> P ColBool" for P by (metis colKind.exhaust)
  then show ?thesis by (simp add: uniform_def hasKind_def [abs_def])
qed

lemma typedItems_uniform: "x \<in> typedItems kinds ois \<Longrightarrow> y \<in> typedItems kinds ois \<Longrightarrow> z \<in> typedItems kinds ois \<Longrightarrow> i < length ois \<Longrightarrow>
    uniform [tk_sortKey x ! i, tk_sortKey y ! i, tk_sortKey z ! i]"
  unfolding uniform_kind by (rule exI [of _ "kinds ! i"]) (auto simp: typedItems_def dest: list_all2_nthD)

lemma typedItems_length: "x \<in> typedItems kinds ois \<Longrightarrow> length (tk_sortKey x) = length ois"
  by (auto simp: typedItems_def dest: list_all2_lengthD)

lemma uniform_typed:
  assumes "uniform_keys ois keys"
  obtains kinds where "\<And>x. tk_sortKey x \<in> set keys \<Longrightarrow> x \<in> typedItems kinds ois"
proof -
  have "\<exists>k. \<forall>key \<in> set keys. hasKind k (key ! i)" if "i < length ois" for i
    using assms that by (auto simp: uniform_keys_def list_all_iff uniform_kind)
  then obtain f where f: "\<forall>i < length ois. \<forall>key \<in> set keys. hasKind (f i) (key ! i)" by metis
  then have "x \<in> typedItems (map f [0..<length ois]) ois" if "tk_sortKey x \<in> set keys" for x :: "'a topKItem"
    using assms that by (auto simp: typedItems_def uniform_keys_def list_all_iff list_all2_conv_all_nth)
  then show ?thesis by (rule that)
qed

text \<open>The comparison of the heap meets the laws on every set of items with sort keys of fixed types.\<close>

interpretation typed: weak_order "typedItems kinds ois" "tk_Less C ois"
proof
  fix x y z :: "'a topKItem"
  show "\<not> tk_Less C ois y x" if "tk_Less C ois x y"
    using that keyCmp_antisym [of C ois "tk_sortKey y" "tk_sortKey x"] by (simp add: tk_Less_def keyLess_cmp)
  show "\<not> tk_Less C ois x z" if "x \<in> typedItems kinds ois" "y \<in> typedItems kinds ois" "z \<in> typedItems kinds ois"
      "\<not> tk_Less C ois x y" "\<not> tk_Less C ois y z"
    using that keyCmp_trans [of "tk_sortKey x" ois "tk_sortKey y" "tk_sortKey z" C] typedItems_uniform [OF that(1-3)]
      typedItems_length [OF that(1)] typedItems_length [OF that(2)] typedItems_length [OF that(3)] by (simp add: tk_Less_def keyLess_cmp)
qed

section \<open>The heap selects the best matches\<close>

lemma offer_keeps:
  assumes lim: "0 < tk_limit h" and x: "x \<in> typedItems kinds (tk_orderBy h)"
    and k: "weak_order.keeps (typedItems kinds (tk_orderBy h)) (tk_Less C (tk_orderBy h)) (tk_items h) D"
    and full: "int (length (tk_items h)) \<le> tk_limit h" "D = {#} \<or> int (length (tk_items h)) = tk_limit h"
  shows "\<exists>D'. weak_order.keeps (typedItems kinds (tk_orderBy h)) (tk_Less C (tk_orderBy h)) (tk_items (offer C x h)) D' \<and>
      mset (tk_items (offer C x h)) + D' = add_mset x (mset (tk_items h) + D) \<and>
      int (length (tk_items (offer C x h))) \<le> tk_limit h \<and> (D' = {#} \<or> int (length (tk_items (offer C x h))) = tk_limit h)"
proof (cases "int (length (tk_items h)) < tk_limit h")
  case True
  then have D: "D = {#}" using full by auto
  have o: "tk_items (offer C x h) = heap_Push (tk_Less C (tk_orderBy h)) x (tk_items h)" using True by (simp add: offer_def Let_def)
  note p = typed.keeps_push [OF k [unfolded D] x]
  have "length (tk_items (offer C x h)) = Suc (length (tk_items h))" using p o by (metis size_add_mset size_mset)
  then show ?thesis using p True D by (intro exI [of _ "{#}"]) (simp add: o)
next
  case False
  then have ne: "tk_items h \<noteq> []" and len: "int (length (tk_items h)) = tk_limit h" using lim full by auto
  have better: "isBetter C (tk_orderBy h) (tk_sortKey x) (tk_sortKey (tk_items h ! 0)) \<longleftrightarrow> tk_Less C (tk_orderBy h) (tk_items h ! 0) x"
    by (simp add: isBetter_keyLess tk_Less_def)
  show ?thesis
  proof (cases "tk_Less C (tk_orderBy h) (tk_items h ! 0) x")
    case True
    then have o: "tk_items (offer C x h) = heap_Fix (tk_Less C (tk_orderBy h)) ((tk_items h)[0 := x]) 0"
      using False better by (simp add: offer_def Let_def)
    note p = typed.keeps_replace [OF k ne x True]
    have "size (mset (tk_items (offer C x h)) + {#tk_items h ! 0#}) = size (add_mset x (mset (tk_items h)))" using p o by metis
    then have "length (tk_items (offer C x h)) = length (tk_items h)" by simp
    moreover have "mset (tk_items (offer C x h)) + add_mset (tk_items h ! 0) D = add_mset x (mset (tk_items h) + D)"
    proof -
      have "mset (tk_items (offer C x h)) + add_mset (tk_items h ! 0) D = (mset (tk_items (offer C x h)) + {#tk_items h ! 0#}) + D" by simp
      also have "\<dots> = add_mset x (mset (tk_items h)) + D" using p by (simp only: o)
      finally show ?thesis by simp
    qed
    ultimately show ?thesis using p len by (intro exI [of _ "add_mset (tk_items h ! 0) D"]) (simp add: o)
  next
    case n: False
    then have o: "offer C x h = h" using False better by (simp add: offer_def Let_def)
    have "weak_order.keeps (typedItems kinds (tk_orderBy h)) (tk_Less C (tk_orderBy h)) (tk_items h) (add_mset x D)" by (rule typed.keeps_drop [OF k ne x n])
    then show ?thesis using len by (intro exI [of _ "add_mset x D"]) (simp add: o)
  qed
qed

lemma offer_fields [simp]: "tk_orderBy (offer C x h) = tk_orderBy h" "tk_limit (offer C x h) = tk_limit h"
  by (simp_all add: offer_def Let_def)

lemma offers_keep:
  assumes "0 < tk_limit h" "set xs \<subseteq> typedItems kinds (tk_orderBy h)"
    and "weak_order.keeps (typedItems kinds (tk_orderBy h)) (tk_Less C (tk_orderBy h)) (tk_items h) D"
    and "int (length (tk_items h)) \<le> tk_limit h" "D = {#} \<or> int (length (tk_items h)) = tk_limit h"
  shows "\<exists>D'. weak_order.keeps (typedItems kinds (tk_orderBy h)) (tk_Less C (tk_orderBy h)) (tk_items (fold (offer C) xs h)) D' \<and>
      mset (tk_items (fold (offer C) xs h)) + D' = mset xs + (mset (tk_items h) + D) \<and>
      int (length (tk_items (fold (offer C) xs h))) \<le> tk_limit h \<and> (D' = {#} \<or> int (length (tk_items (fold (offer C) xs h))) = tk_limit h)"
  using assms
proof (induction xs arbitrary: h D)
  case (Cons x xs)
  obtain D1 where D1: "weak_order.keeps (typedItems kinds (tk_orderBy h)) (tk_Less C (tk_orderBy h)) (tk_items (offer C x h)) D1"
      "mset (tk_items (offer C x h)) + D1 = add_mset x (mset (tk_items h) + D)"
      "int (length (tk_items (offer C x h))) \<le> tk_limit h" "D1 = {#} \<or> int (length (tk_items (offer C x h))) = tk_limit h"
    using offer_keeps [of h x kinds C D] Cons.prems by auto
  show ?case using Cons.IH [of "offer C x h" D1] Cons.prems D1 by simp
qed (auto intro: exI [of _ D])

definition ordered_by :: "codec \<Rightarrow> OrderItem list \<Rightarrow> ('a \<Rightarrow> bindings) \<Rightarrow> 'a list \<Rightarrow> bool" where
  "ordered_by C ob bind xs \<longleftrightarrow> sorted_wrt (\<lambda>x y. \<not> isBetter C ob (evalSortKey C ob (bind y)) (evalSortKey C ob (bind x))) xs"

lemma fold_map_fn: "fold (\<lambda>x. f (g x)) xs a = fold f (map g xs) a"
  by (simp add: fold_map comp_def)

lemma projectWith_top:
  assumes ob: "q_OrderBy q \<noteq> []" and lim: "0 < q_Limit q" "q_Limit q * 40 \<le> 2 ^ 48"
    and u: "uniform_keys (q_OrderBy q) (map (\<lambda>x. evalSortKey C (q_OrderBy q) (bind x)) xs)"
    and r: "projectWith C q bind xs = Inr res"
  shows "\<exists>chosen dropped. mset chosen + dropped = mset xs \<and> length chosen = min (nat (q_Limit q)) (length xs) \<and>
      ordered_by C (q_OrderBy q) bind chosen \<and>
      (\<forall>c \<in> set chosen. \<forall>d \<in># dropped. \<not> isBetter C (q_OrderBy q) (evalSortKey C (q_OrderBy q) (bind d)) (evalSortKey C (q_OrderBy q) (bind c))) \<and>
      list_all2 (\<lambda>x row. projectRow C (q_Return q) (bind x) = Inr row) chosen (cr_Rows res)"
proof -
  let ?ob = "q_OrderBy q"
  define key where "key x = evalSortKey C ?ob (bind x)" for x
  define item where "item x = \<lparr>tk_sortKey = key x, tk_source = x\<rparr>" for x
  obtain kinds where "\<And>i :: 'a topKItem. tk_sortKey i \<in> set (map key xs) \<Longrightarrow> i \<in> typedItems kinds ?ob"
    by (rule uniform_typed [of ?ob "map key xs"]) (use u in \<open>auto simp: key_def [abs_def]\<close>)
  then have typed: "i \<in> typedItems kinds ?ob" if "tk_sortKey i \<in> key ` set xs" for i :: "'a topKItem" using that by simp
  define S where "S = (typedItems kinds ?ob :: 'a topKItem set)"
  define h0 where "h0 = \<lparr>tk_items = [] :: 'a topKItem list, tk_orderBy = ?ob, tk_limit = q_Limit q\<rparr>"
  have ob0: "tk_orderBy h0 = ?ob" by (simp add: h0_def)
  define h where "h = fold (offer C) (map item xs) h0"
  have "newTopKHeap ?ob (q_Limit q) = Inr h0" using lim by (simp add: newTopKHeap_def h0_def)
  moreover have h_alt: "fold (\<lambda>x. offer C \<lparr>tk_sortKey = evalSortKey C ?ob (bind x), tk_source = x\<rparr>) xs h0 = h"
    unfolding h_def fold_map comp_def item_def key_def ..
  ultimately obtain rows where rows: "emapM (\<lambda>i. projectRow C (q_Return q) (bind (tk_source i))) (tk_sorted C h) = Inr rows" "res = resultOf q rows"
    using r ob lim by (auto simp: projectWith_def Let_def)
  have "\<exists>D. weak_order.keeps S (tk_Less C (tk_orderBy h0)) (tk_items h) D \<and> mset (tk_items h) + D = mset (map item xs) + (mset (tk_items h0) + {#}) \<and>
      int (length (tk_items h)) \<le> tk_limit h0 \<and> (D = {#} \<or> int (length (tk_items h)) = tk_limit h0)"
    unfolding h_def S_def ob0 by (rule offers_keep [of h0 "map item xs" kinds C "{#}", unfolded ob0])
      (use lim typed typed.keeps_empty in \<open>auto simp: h0_def item_def\<close>)
  then obtain D where D: "weak_order.keeps S (tk_Less C ?ob) (tk_items h) D" "mset (tk_items h) + D = mset (map item xs)"
      "int (length (tk_items h)) \<le> q_Limit q" "D = {#} \<or> int (length (tk_items h)) = q_Limit q"
    by (auto simp: h0_def)
  have hob: "tk_orderBy h = ?ob"
  proof -
    have "tk_orderBy (fold (offer C) is h') = tk_orderBy h'" for "is" and h' :: "'a topKHeap" by (induction "is" arbitrary: h') auto
    then show ?thesis by (simp add: h_def h0_def)
  qed
  define out where "out = tk_sorted C h"
  have out: "sorted_wrt (\<lambda>a b. \<not> tk_Less C ?ob a b) out" "mset out = mset (tk_items h)"
    using typed.popAll_sorted [where kinds = kinds and ois = ?ob and C = C, of "tk_items h" "[]"] D(1) by (auto simp: out_def tk_sorted_def hob S_def typed.keeps_def)
  have items: "\<exists>x \<in> set xs. i = item x" if "i \<in># mset (tk_items h) + D" for i using that D(2) by auto
  have item_out: "tk_sortKey i = key (tk_source i)" if "i \<in> set out \<or> i \<in># D" for i
  proof -
    have "set out = set (tk_items h)" using out(2) by (rule mset_eq_setD)
    then show ?thesis using items [of i] that by (auto simp: item_def)
  qed
  let ?ch = "map tk_source out" and ?dr = "image_mset tk_source D"
  have ms: "mset out + D = mset (map item xs)" using out D by simp
  have "image_mset tk_source (mset out + D) = image_mset tk_source (mset (map item xs))" using ms by simp
  then have m: "mset ?ch + ?dr = mset xs" by (simp add: item_def image_mset.compositionality comp_def)
  have len: "length ?ch = length (tk_items h)" using out(2) by (metis length_map mset_eq_length)
  have "size (mset out + D) = length xs" using ms by simp
  then have "length (tk_items h) + size D = length xs" using out(2) by simp
  then have "length ?ch = min (nat (q_Limit q)) (length xs)" using D(3,4) len lim by auto
  moreover have lessK: "tk_Less C ?ob x y \<longleftrightarrow> isBetter C ?ob (key (tk_source y)) (key (tk_source x))"
    if "x \<in> set out" "y \<in> set out \<or> y \<in># D" for x y
  proof -
    have "tk_sortKey x = key (tk_source x)" "tk_sortKey y = key (tk_source y)" using item_out [of x] item_out [of y] that by auto
    then show ?thesis by (simp add: tk_Less_def isBetter_keyLess)
  qed
  moreover have "ordered_by C ?ob bind ?ch"
    unfolding ordered_by_def sorted_wrt_map key_def [symmetric] by (rule sorted_wrt_mono_rel [OF _ out(1)]) (use lessK in auto)
  moreover have "\<not> isBetter C ?ob (key d) (key c)" if cm: "c \<in> set ?ch" and dm: "d \<in># ?dr" for c d
  proof -
    obtain i j where "i \<in> set out" "c = tk_source i" "j \<in># D" "d = tk_source j" using cm dm by (auto simp only: set_map set_image_mset elim!: imageE)
    moreover then have "i \<in> set (tk_items h)" using out(2) by (metis mset_eq_setD)
    ultimately show ?thesis using lessK [of i j] D(1) by (auto simp: S_def typed.keeps_def)
  qed
  moreover have "list_all2 (\<lambda>x row. projectRow C (q_Return q) (bind x) = Inr row) ?ch (cr_Rows res)"
    using rows by (simp add: emapM_Inr_iff out_def resultOf_def list_all2_map1)
  ultimately show ?thesis using m unfolding key_def by blast
qed

end
