(* ===== verification/QueryExec.thy ===== *)
theory QueryExec
  imports Project Traversal
begin

text \<open>
  Execution of read queries (cypher_exec.go, cypher_optional.go): one strategy per shape of the pattern, with the shortcuts
  through indexes, the early stop at LIMIT and the row limit of the governor (governor.go).

  A context is the list of answers its next polls will give, \<open>True\<close> once it is done; after the end of the list it is never done.
  \<open>strings.EqualFold\<close> on labels is the parameter \<open>qc_EqualFold\<close>, because it follows the Unicode tables.
\<close>

record qconf =
  qc_maxRows :: int
  qc_EqualFold :: "string \<Rightarrow> string \<Rightarrow> bool"
  qc_floats :: floats

type_synonym ctx = "bool list"

definition ctxErr :: "ctx \<Rightarrow> bool \<times> ctx" where
  "ctxErr c = (case c of [] \<Rightarrow> (False, []) | b # r \<Rightarrow> (b, r))"

definition ErrContext :: gerr where "ErrContext = ErrMsg ''context canceled''"
definition ErrResultTooLarge :: gerr where "ErrResultTooLarge = ErrMsg ''graphdb: result set exceeds MaxResultRows limit''"

text \<open>\<open>checkRowCount(n) != nil\<close>\<close>

definition overRows :: "qconf \<Rightarrow> nat \<Rightarrow> bool" where
  "overRows g n \<longleftrightarrow> 0 < qc_maxRows g \<and> qc_maxRows g < int n"

text \<open>LIMIT push-down: enough rows, and no ORDER BY that needs all of them.\<close>

definition limitHit :: "CypherQuery \<Rightarrow> nat \<Rightarrow> bool" where
  "limitHit q n \<longleftrightarrow> 0 < q_Limit q \<and> q_OrderBy q = [] \<and> q_Limit q \<le> int n"

text \<open>An unresolved parameter is a string to the store: its name.\<close>

definition pval_val :: "pval \<Rightarrow> val" where
  "pval_val p = (case p of PVal v \<Rightarrow> v | ParamRef s \<Rightarrow> VStr s)"

abbreviation storedProps :: "(string \<times> pval) list \<Rightarrow> Props" where
  "storedProps ps \<equiv> map (map_prod id pval_val) ps"

section \<open>Strategy 1: one node\<close>

text \<open>The filter loop over candidates; \<open>stop\<close> is the early exit.\<close>

fun selectNodes :: "codec \<Rightarrow> (Node \<Rightarrow> bool) \<Rightarrow> Expression option \<Rightarrow> string \<Rightarrow> (nat \<Rightarrow> bool) \<Rightarrow> Node list \<Rightarrow> Node list \<Rightarrow> gerr + Node list" where
  "selectNodes C keep w v stop [] acc = Inr acc"
| "selectNodes C keep w v stop (n # ns) acc =
     (if \<not> keep n then selectNodes C keep w v stop ns acc
      else case whereOk C w [(v, CNode n)] of
             Inl e \<Rightarrow> Inl e
           | Inr ok \<Rightarrow> if \<not> ok then selectNodes C keep w v stop ns acc
               else if stop (length (acc @ [n])) then Inr (acc @ [n]) else selectNodes C keep w v stop ns (acc @ [n]))"

text \<open>Why a scan stops before its end.\<close>

datatype scanStop = StopLimit | StopContext | StopRows | StopErr gerr

text \<open>
  \<open>forEachNode\<close> with a callback that reports a sentinel: the variables it has captured keep their values, so they are part of
  what is returned.
\<close>

definition scanNodes :: "'b bolt \<Rightarrow> codec \<Rightarrow> (Node \<Rightarrow> 's \<Rightarrow> (scanStop \<times> 's) + 's) \<Rightarrow> 'b DB \<Rightarrow> 's \<Rightarrow> (scanStop \<times> 's) + 's" where
  "scanNodes B C fn db = efold (\<lambda>s. efold (\<lambda>kv st.
       case ebind (keyID (fst kv)) (\<lambda>i. ebind (decodeProps C (snd kv)) (\<lambda>props. Inr \<lparr>n_id = i, n_labels = loadLabels B C (s_data s) i, n_props = props\<rparr>)) of
         Inl e \<Rightarrow> Inl (StopErr e, st)
       | Inr n \<Rightarrow> fn n st) (b_cursor B (bk_nodes (s_data s)))) (db_shards db)"

definition scanStep :: "codec \<Rightarrow> qconf \<Rightarrow> CypherQuery \<Rightarrow> NodePattern \<Rightarrow> string \<Rightarrow> Node \<Rightarrow> Node list \<times> ctx \<Rightarrow> (scanStop \<times> Node list \<times> ctx) + Node list \<times> ctx" where
  "scanStep C g q np v n st = (case ctxErr (snd st) of
       (True, c) \<Rightarrow> Inl (StopContext, fst st, c)
     | (False, c) \<Rightarrow>
         if \<not> matchProps C (n_props n) (np_Props np) then Inr (fst st, c)
         else case whereOk C (q_Where q) [(v, CNode n)] of
                Inl e \<Rightarrow> Inl (StopErr e, fst st, c)
              | Inr ok \<Rightarrow> if \<not> ok then Inr (fst st, c)
                  else let nodes = fst st @ [n]
                       in if limitHit q (length nodes) then Inl (StopLimit, nodes, c)
                          else if overRows g (length nodes) then Inl (StopRows, nodes, c)
                          else Inr (nodes, c))"

definition scanResult :: "(scanStop \<times> Node list \<times> ctx) + Node list \<times> ctx \<Rightarrow> gerr + Node list" where
  "scanResult r = (case r of
       Inl (StopContext, _) \<Rightarrow> Inl ErrContext
     | Inl (StopRows, _) \<Rightarrow> Inl ErrResultTooLarge
     | Inl (StopErr e, _) \<Rightarrow> Inl e
     | Inl (StopLimit, nodes, _) \<Rightarrow> Inr nodes
     | Inr (nodes, _) \<Rightarrow> Inr nodes)"

definition execNodeMatchWithIndex :: "'b bolt \<Rightarrow> codec \<Rightarrow> CypherQuery \<Rightarrow> string \<Rightarrow> val \<Rightarrow> NodePattern \<Rightarrow> string \<Rightarrow> 'b DB \<Rightarrow> gerr + CypherResult" where
  "execNodeMatchWithIndex B C q key v np varName db =
     ebind (FindByProperty B C key v db) (\<lambda>candidates.
     ebind (selectNodes C (\<lambda>n. matchProps C (n_props n) (np_Props np)) (q_Where q) varName (\<lambda>_. False) candidates [])
       (\<lambda>nodes. projectResults C q nodes varName))"

definition execNodeMatchWhereIndexed :: "'b bolt \<Rightarrow> codec \<Rightarrow> CypherQuery \<Rightarrow> string \<Rightarrow> val \<Rightarrow> NodePattern \<Rightarrow> string \<Rightarrow> 'b DB \<Rightarrow> gerr + CypherResult" where
  "execNodeMatchWhereIndexed B C q prop v np varName db =
     ebind (FindByProperty B C prop v db) (\<lambda>candidates.
     ebind (selectNodes C (\<lambda>n. matchProps C (n_props n) (np_Props np)) (q_Where q) varName (\<lambda>_. False) candidates [])
       (\<lambda>nodes. projectResults C q nodes varName))"

definition execNodeScan :: "'b bolt \<Rightarrow> codec \<Rightarrow> qconf \<Rightarrow> ctx \<Rightarrow> CypherQuery \<Rightarrow> NodePattern \<Rightarrow> string \<Rightarrow> 'b DB \<Rightarrow> gerr + CypherResult" where
  "execNodeScan B C g ctx q np varName db =
     ebind (scanResult (scanNodes B C (scanStep C g q np varName) db ([], ctx))) (\<lambda>nodes. projectResults C q nodes varName)"

definition execNodeMatch :: "'b bolt \<Rightarrow> codec \<Rightarrow> qconf \<Rightarrow> ctx \<Rightarrow> CypherQuery \<Rightarrow> 'b DB \<Rightarrow> gerr + CypherResult" where
  "execNodeMatch B C g ctx q db =
     (let np = pt_Nodes (q_Match q) ! 0; varName = varOr (np_Variable np) ''_n''
      in if np_Labels np \<noteq> [] then
           ebind (FindByLabel B C (np_Labels np ! 0) db) (\<lambda>candidates.
           ebind (selectNodes C (\<lambda>n. matchLabels (n_labels n) (np_Labels np) \<and> matchProps C (n_props n) (np_Props np)) (q_Where q) varName
                    (limitHit q) candidates [])
             (\<lambda>nodes. projectResults C q nodes varName))
         else if 2 \<le> length (np_Props np) \<and> HasCompositeIndex db (map fst (np_Props np)) then
           ebind (FindByCompositeIndex B C (storedProps (np_Props np)) db) (\<lambda>candidates.
           ebind (selectNodes C (\<lambda>n. True) (q_Where q) varName (\<lambda>_. False) candidates [])
             (\<lambda>nodes. projectResults C q nodes varName))
         else case find (\<lambda>kv. HasIndex db (fst kv)) (np_Props np) of
                Some (key, v) \<Rightarrow> execNodeMatchWithIndex B C q key (pval_val v) np varName db
              | None \<Rightarrow>
                  (case (if np_Props np = [] then Option.bind (q_Where q) (\<lambda>w. extractWhereEquality w varName) else None) of
                     Some (prop, v) \<Rightarrow> if HasIndex db prop then execNodeMatchWhereIndexed B C q prop v np varName db
                         else execNodeScan B C g ctx q np varName db
                   | None \<Rightarrow> execNodeScan B C g ctx q np varName db))"

section \<open>Candidates\<close>

definition findCandidates :: "'b bolt \<Rightarrow> codec \<Rightarrow> NodePattern \<Rightarrow> 'b DB \<Rightarrow> gerr + Node list" where
  "findCandidates B C np db =
     (if np_Labels np \<noteq> [] then
        ebind (FindByLabel B C (np_Labels np ! 0) db) (\<lambda>candidates.
          Inr (if 1 < length (np_Labels np) \<or> np_Props np \<noteq> []
               then filter (\<lambda>n. matchLabels (n_labels n) (np_Labels np) \<and> matchProps C (n_props n) (np_Props np)) candidates
               else candidates))
      else if np_Props np = [] then forEachNode B C (\<lambda>n acc. Inr (acc @ [n])) db []
      else case find (\<lambda>kv. HasIndex db (fst kv)) (np_Props np) of
             Some (key, v) \<Rightarrow> ebind (FindByProperty B C key (pval_val v) db) (\<lambda>candidates.
               Inr (if 1 < length (np_Props np) then filter (\<lambda>n. matchProps C (n_props n) (np_Props np)) candidates else candidates))
           | None \<Rightarrow> FindNodes B C (\<lambda>n. matchProps C (n_props n) (np_Props np)) db)"

section \<open>Strategy 2: one relationship\<close>

text \<open>The variables of a pattern with two nodes.\<close>

record patVars =
  pv_a :: string
  pv_r :: string
  pv_b :: string

definition hopVars :: "Pattern \<Rightarrow> patVars" where
  "hopVars pat = \<lparr>pv_a = varOr (np_Variable (pt_Nodes pat ! 0)) ''_a'', pv_r = rp_Variable (pt_Rels pat ! 0), pv_b = varOr (np_Variable (pt_Nodes pat ! 1)) ''_b''\<rparr>"

abbreviation rowBindings :: "patVars \<Rightarrow> resultRow \<Rightarrow> bindings" where
  "rowBindings vs \<equiv> patBindings (pv_a vs) (pv_r vs) (pv_b vs)"

definition labelOk :: "qconf \<Rightarrow> RelPattern \<Rightarrow> Edge \<Rightarrow> bool" where
  "labelOk g rel e \<longleftrightarrow> rp_Label rel = [] \<or> qc_EqualFold g (e_label e) (rp_Label rel)"

definition hopTarget :: "RelPattern \<Rightarrow> Edge \<Rightarrow> NodeID" where
  "hopTarget rel e = (if rp_Dir rel = Incoming then e_from e else e_to e)"

fun hopEdges :: "'b bolt \<Rightarrow> codec \<Rightarrow> qconf \<Rightarrow> CypherQuery \<Rightarrow> patVars \<Rightarrow> Node \<Rightarrow> Edge list \<Rightarrow> resultRow list \<Rightarrow> 'b DB \<Rightarrow> (gerr + resultRow list) \<times> 'b DB" where
  "hopEdges B C g q vs a [] rows db = (Inr rows, db)"
| "hopEdges B C g q vs a (e # es) rows db =
     (let rel = pt_Rels (q_Match q) ! 0; bPat = pt_Nodes (q_Match q) ! 1
      in if \<not> labelOk g rel e then hopEdges B C g q vs a es rows db
         else case getNode B C (hopTarget rel e) db of
                (Inl _, db1) \<Rightarrow> hopEdges B C g q vs a es rows db1
              | (Inr b, db1) \<Rightarrow>
                  if \<not> matchProps C (n_props b) (np_Props bPat) then hopEdges B C g q vs a es rows db1
                  else let row = \<lparr>rr_a = a, rr_r = Some e, rr_b = b\<rparr>
                       in (case whereOk C (q_Where q) (rowBindings vs row) of
                             Inl err \<Rightarrow> (Inl err, db1)
                           | Inr ok \<Rightarrow>
                               if \<not> ok then hopEdges B C g q vs a es rows db1
                               else if limitHit q (length (rows @ [row])) then (Inr (rows @ [row]), db1)
                               else if overRows g (length (rows @ [row])) then (Inl ErrResultTooLarge, db1)
                               else hopEdges B C g q vs a es (rows @ [row]) db1))"

fun hopNodes :: "'b bolt \<Rightarrow> codec \<Rightarrow> qconf \<Rightarrow> CypherQuery \<Rightarrow> patVars \<Rightarrow> ctx \<Rightarrow> Node list \<Rightarrow> resultRow list \<Rightarrow> 'b DB \<Rightarrow> (gerr + resultRow list) \<times> 'b DB" where
  "hopNodes B C g q vs ctx [] rows db = (Inr rows, db)"
| "hopNodes B C g q vs ctx (a # as) rows db = (case ctxErr ctx of
       (True, _) \<Rightarrow> (Inl ErrContext, db)
     | (False, ctx') \<Rightarrow>
         if limitHit q (length rows) then (Inr rows, db)
         else case getEdgesForNode B C (n_id a) (rp_Dir (pt_Rels (q_Match q) ! 0)) db of
                Inl e \<Rightarrow> (Inl e, db)
              | Inr edges \<Rightarrow> (case hopEdges B C g q vs a edges rows db of
                    (Inl e, db1) \<Rightarrow> (Inl e, db1)
                  | (Inr rows1, db1) \<Rightarrow> hopNodes B C g q vs ctx' as rows1 db1))"

text \<open>The row an entry of the edge-type index stands for, if its edge and both its ends can be read; the target may be on another shard.\<close>

definition edgeTypeRow :: "'b bolt \<Rightarrow> codec \<Rightarrow> CypherQuery \<Rightarrow> 'b buckets \<Rightarrow> bytes \<Rightarrow> 'b DB \<Rightarrow> resultRow option \<times> 'b DB" where
  "edgeTypeRow B C q d idBytes db =
     (let aPat = pt_Nodes (q_Match q) ! 0; bPat = pt_Nodes (q_Match q) ! 1
      in case decodeEdgeID idBytes of None \<Rightarrow> (None, db)
         | Some eid \<Rightarrow> (case edgeAt B C d eid of [] \<Rightarrow> (None, db)
             | edge # _ \<Rightarrow> (case nodeAt B C d (e_from edge) of None \<Rightarrow> (None, db)
                 | Some aProps \<Rightarrow>
                     let a = \<lparr>n_id = e_from edge, n_labels = loadLabels B C d (e_from edge), n_props = aProps\<rparr>
                     in if np_Labels aPat \<noteq> [] \<and> \<not> matchLabels (n_labels a) (np_Labels aPat) then (None, db)
                        else case (case nodeAt B C d (e_to edge) of
                                 Some bProps \<Rightarrow> (Inr \<lparr>n_id = e_to edge, n_labels = loadLabels B C d (e_to edge), n_props = bProps\<rparr>, db)
                               | None \<Rightarrow> getNode B C (e_to edge) db) of
                            (Inl _, db1) \<Rightarrow> (None, db1)
                          | (Inr b, db1) \<Rightarrow>
                              (if (np_Labels bPat \<noteq> [] \<and> \<not> matchLabels (n_labels b) (np_Labels bPat)) \<or> \<not> matchProps C (n_props b) (np_Props bPat)
                               then None else Some \<lparr>rr_a = a, rr_r = Some edge, rr_b = b\<rparr>, db1))))"

fun typeScan :: "'b bolt \<Rightarrow> codec \<Rightarrow> qconf \<Rightarrow> CypherQuery \<Rightarrow> patVars \<Rightarrow> 'b buckets \<Rightarrow> nat \<Rightarrow> bytes list \<Rightarrow> resultRow list \<Rightarrow> ctx \<Rightarrow> 'b DB \<Rightarrow>
    scanStop option \<times> resultRow list \<times> ctx \<times> 'b DB" where
  "typeScan B C g q vs d n [] rows ctx db = (None, rows, ctx, db)"
| "typeScan B C g q vs d n (k # ks) rows ctx db = (case ctxErr ctx of
       (True, ctx') \<Rightarrow> (Some StopContext, rows, ctx', db)
     | (False, ctx') \<Rightarrow> (case edgeTypeRow B C q d (drop n k) db of
           (None, db1) \<Rightarrow> typeScan B C g q vs d n ks rows ctx' db1
         | (Some row, db1) \<Rightarrow> (case whereOk C (q_Where q) (rowBindings vs row) of
               Inl err \<Rightarrow> (Some (StopErr err), rows, ctx', db1)
             | Inr ok \<Rightarrow>
                 if \<not> ok then typeScan B C g q vs d n ks rows ctx' db1
                 else if limitHit q (length (rows @ [row])) then (Some StopLimit, rows @ [row], ctx', db1)
                 else if overRows g (length (rows @ [row])) then (Some StopRows, rows @ [row], ctx', db1)
                 else typeScan B C g q vs d n ks (rows @ [row]) ctx' db1)))"

fun typeShards :: "'b bolt \<Rightarrow> codec \<Rightarrow> qconf \<Rightarrow> CypherQuery \<Rightarrow> patVars \<Rightarrow> 'b shard list \<Rightarrow> resultRow list \<Rightarrow> ctx \<Rightarrow> 'b DB \<Rightarrow> (gerr + resultRow list) \<times> 'b DB" where
  "typeShards B C g q vs [] rows ctx db = (Inr rows, db)"
| "typeShards B C g q vs (s # ss) rows ctx db =
     (if limitHit q (length rows) then (Inr rows, db)
      else let pfx = encodeIndexPrefix (rp_Label (pt_Rels (q_Match q) ! 0)); d = s_data s
           in case typeScan B C g q vs d (length pfx) (map fst (seekPrefix B (bk_idx_edge_type d) pfx)) rows ctx db of
                (None, rows1, ctx1, db1) \<Rightarrow> typeShards B C g q vs ss rows1 ctx1 db1
              | (Some StopLimit, rows1, ctx1, db1) \<Rightarrow> (Inr rows1, db1)
              | (Some StopContext, rows1, ctx1, db1) \<Rightarrow> (Inl ErrContext, db1)
              | (Some StopRows, rows1, ctx1, db1) \<Rightarrow> (Inl ErrResultTooLarge, db1)
              | (Some (StopErr e), rows1, ctx1, db1) \<Rightarrow> (Inl e, db1))"

definition projectHop :: "codec \<Rightarrow> CypherQuery \<Rightarrow> patVars \<Rightarrow> (gerr + resultRow list) \<times> 'b DB \<Rightarrow> (gerr + CypherResult) \<times> 'b DB" where
  "projectHop C q vs r = (ebind (fst r) (\<lambda>rows. projectPatternResults C q rows (pv_a vs) (pv_r vs) (pv_b vs)), snd r)"

definition execSingleHopByEdgeType :: "'b bolt \<Rightarrow> codec \<Rightarrow> qconf \<Rightarrow> ctx \<Rightarrow> CypherQuery \<Rightarrow> patVars \<Rightarrow> 'b DB \<Rightarrow> (gerr + CypherResult) \<times> 'b DB" where
  "execSingleHopByEdgeType B C g ctx q vs db = projectHop C q vs (typeShards B C g q vs (db_shards db) [] ctx db)"

definition execSingleHopMatch :: "'b bolt \<Rightarrow> codec \<Rightarrow> qconf \<Rightarrow> ctx \<Rightarrow> CypherQuery \<Rightarrow> 'b DB \<Rightarrow> (gerr + CypherResult) \<times> 'b DB" where
  "execSingleHopMatch B C g ctx q db =
     (let aPat = pt_Nodes (q_Match q) ! 0; rel = pt_Rels (q_Match q) ! 0; vs = hopVars (q_Match q)
      in if np_Props aPat = [] \<and> rp_Label rel \<noteq> [] \<and> rp_Dir rel = Outgoing then execSingleHopByEdgeType B C g ctx q vs db
         else case findCandidates B C aPat db of
                Inl e \<Rightarrow> (Inl e, db)
              | Inr candidates \<Rightarrow> projectHop C q vs (hopNodes B C g q vs ctx candidates [] db))"

section \<open>Strategy 3: paths of variable length\<close>

definition varVisitor :: "codec \<Rightarrow> qconf \<Rightarrow> CypherQuery \<Rightarrow> patVars \<Rightarrow> Node \<Rightarrow> TraversalResult \<Rightarrow> resultRow list \<Rightarrow> bool \<times> resultRow list" where
  "varVisitor C g q vs a tr rows =
     (let rel = pt_Rels (q_Match q) ! 0; bPat = pt_Nodes (q_Match q) ! 1; b = tr_Node tr; row = \<lparr>rr_a = a, rr_r = None, rr_b = b\<rparr>
      in if tr_Depth tr < rp_MinHops rel then (True, rows)
         else if np_Labels bPat \<noteq> [] \<and> \<not> matchLabels (n_labels b) (np_Labels bPat) then (True, rows)
         else if \<not> matchProps C (n_props b) (np_Props bPat) then (True, rows)
         else if whereOk C (q_Where q) (rowBindings vs row) \<noteq> Inr True then (True, rows)
         else (\<not> limitHit q (length (rows @ [row])) \<and> \<not> overRows g (length (rows @ [row])), rows @ [row]))"

fun varNodes :: "'b bolt \<Rightarrow> codec \<Rightarrow> qconf \<Rightarrow> CypherQuery \<Rightarrow> patVars \<Rightarrow> ctx \<Rightarrow> Node list \<Rightarrow> resultRow list \<Rightarrow> 'b DB \<Rightarrow> (gerr + resultRow list) \<times> 'b DB" where
  "varNodes B C g q vs ctx [] rows db = (Inr rows, db)"
| "varNodes B C g q vs ctx (a # as) rows db =
     (if limitHit q (length rows) then (Inr rows, db)
      else case ctxErr ctx of
             (True, _) \<Rightarrow> (Inl ErrContext, db)
           | (False, ctx') \<Rightarrow>
               let rel = pt_Rels (q_Match q) ! 0; maxDepth = (if rp_MaxHops rel < 0 then 50 else rp_MaxHops rel);
                   edgeFilter = (if rp_Label rel \<noteq> [] then Some (\<lambda>e. qc_EqualFold g (e_label e) (rp_Label rel)) else None)
               in (case BFS B C (n_id a) maxDepth (rp_Dir rel) edgeFilter (varVisitor C g q vs a) rows db of
                     (Inl e, _, db1) \<Rightarrow> (Inl e, db1)
                   | (Inr _, rows1, db1) \<Rightarrow> if overRows g (length rows1) then (Inl ErrResultTooLarge, db1)
                       else varNodes B C g q vs ctx' as rows1 db1))"

definition execVarLengthMatch :: "'b bolt \<Rightarrow> codec \<Rightarrow> qconf \<Rightarrow> ctx \<Rightarrow> CypherQuery \<Rightarrow> 'b DB \<Rightarrow> (gerr + CypherResult) \<times> 'b DB" where
  "execVarLengthMatch B C g ctx q db =
     (let vs = (hopVars (q_Match q))\<lparr>pv_r := []\<rparr>
      in case findCandidates B C (pt_Nodes (q_Match q) ! 0) db of
           Inl e \<Rightarrow> (Inl e, db)
         | Inr candidates \<Rightarrow> projectHop C q vs (varNodes B C g q vs ctx candidates [] db))"

section \<open>OPTIONAL MATCH\<close>

text \<open>
  The expansion of a node along a relationship, shared by the main and the optional pattern: \<open>keep\<close> decides about the combined
  row, and an error it reports ends the loop.
\<close>

fun expandEdges :: "'b bolt \<Rightarrow> codec \<Rightarrow> qconf \<Rightarrow> RelPattern \<Rightarrow> NodePattern \<Rightarrow> (Edge \<Rightarrow> Node \<Rightarrow> bindings) \<Rightarrow> (bindings \<Rightarrow> gerr + bool) \<Rightarrow> Edge list \<Rightarrow>
    bindings list \<Rightarrow> 'b DB \<Rightarrow> (gerr + bindings list) \<times> 'b DB" where
  "expandEdges B C g rel bPat mk keep [] rows db = (Inr rows, db)"
| "expandEdges B C g rel bPat mk keep (e # es) rows db =
     (if \<not> labelOk g rel e then expandEdges B C g rel bPat mk keep es rows db
      else case getNode B C (hopTarget rel e) db of
             (Inl _, db1) \<Rightarrow> expandEdges B C g rel bPat mk keep es rows db1
           | (Inr b, db1) \<Rightarrow>
               if (np_Labels bPat \<noteq> [] \<and> \<not> matchLabels (n_labels b) (np_Labels bPat)) \<or> \<not> matchProps C (n_props b) (np_Props bPat)
               then expandEdges B C g rel bPat mk keep es rows db1
               else (case keep (mk e b) of
                       Inl err \<Rightarrow> (Inl err, db1)
                     | Inr ok \<Rightarrow> expandEdges B C g rel bPat mk keep es (if ok then rows @ [mk e b] else rows) db1))"

fun mainHops :: "'b bolt \<Rightarrow> codec \<Rightarrow> qconf \<Rightarrow> CypherQuery \<Rightarrow> Node list \<Rightarrow> bindings list \<Rightarrow> 'b DB \<Rightarrow> (gerr + bindings list) \<times> 'b DB" where
  "mainHops B C g q [] rows db = (Inr rows, db)"
| "mainHops B C g q (a # as) rows db =
     (let rel = pt_Rels (q_Match q) ! 0
      in case getEdgesForNode B C (n_id a) (rp_Dir rel) db of
           Inl _ \<Rightarrow> mainHops B C g q as rows db
         | Inr edges \<Rightarrow>
             (case expandEdges B C g rel (pt_Nodes (q_Match q) ! 1) (\<lambda>e b. rowBindings (hopVars (q_Match q)) \<lparr>rr_a = a, rr_r = Some e, rr_b = b\<rparr>)
                     (whereOk C (q_Where q)) edges rows db of
                (Inl e, db1) \<Rightarrow> (Inl e, db1)
              | (Inr rows1, db1) \<Rightarrow> mainHops B C g q as rows1 db1))"

definition collectMainBindings :: "'b bolt \<Rightarrow> codec \<Rightarrow> qconf \<Rightarrow> CypherQuery \<Rightarrow> 'b DB \<Rightarrow> (gerr + bindings list) \<times> 'b DB" where
  "collectMainBindings B C g q db =
     (let pat = q_Match q
      in if length (pt_Nodes pat) = 1 \<and> length (pt_Rels pat) = 0 then
           (let np = pt_Nodes pat ! 0; varName = varOr (np_Variable np) ''_n''
            in (ebind (findCandidates B C np db) (\<lambda>candidates.
                ebind (selectNodes C (\<lambda>n. matchProps C (n_props n) (np_Props np)) (q_Where q) varName (\<lambda>_. False) candidates [])
                  (\<lambda>nodes. Inr (map (\<lambda>n. [(varName, CNode n)]) nodes))), db))
         else if length (pt_Nodes pat) = 2 \<and> length (pt_Rels pat) = 1 then
           (case findCandidates B C (pt_Nodes pat ! 0) db of
              Inl e \<Rightarrow> (Inl e, db)
            | Inr candidates \<Rightarrow> mainHops B C g q candidates [] db)
         else (Inr [], db))"

text \<open>In the optional pattern an error counts as no match.\<close>

definition optionalOk :: "codec \<Rightarrow> Expression option \<Rightarrow> bindings \<Rightarrow> gerr + bool" where
  "optionalOk C w bs = (case whereOk C w bs of Inl _ \<Rightarrow> Inr False | Inr ok \<Rightarrow> Inr ok)"

definition optRow :: "patVars \<Rightarrow> bindings \<Rightarrow> Edge \<Rightarrow> Node \<Rightarrow> bindings" where
  "optRow vs binding e b = (let row = AList.update (pv_b vs) (CNode b) binding in if pv_r vs \<noteq> [] then AList.update (pv_r vs) (CEdge e) row else row)"

definition attemptOptionalMatch :: "'b bolt \<Rightarrow> codec \<Rightarrow> qconf \<Rightarrow> bindings \<Rightarrow> Pattern \<Rightarrow> Expression option \<Rightarrow> 'b DB \<Rightarrow> bindings list \<times> 'b DB" where
  "attemptOptionalMatch B C g binding optPat optWhere db =
     (if length (pt_Nodes optPat) = 2 \<and> length (pt_Rels optPat) = 1 then
        (let rel = pt_Rels optPat ! 0; vs = hopVars optPat
         in case map_of binding (pv_a vs) of
              Some (CNode source) \<Rightarrow>
                (case getEdgesForNode B C (n_id source) (rp_Dir rel) db of
                   Inl _ \<Rightarrow> ([], db)
                 | Inr edges \<Rightarrow>
                     (case expandEdges B C g rel (pt_Nodes optPat ! 1) (optRow vs binding) (optionalOk C optWhere) edges [] db of
                        (Inl _, db1) \<Rightarrow> ([], db1)
                      | (Inr rows, db1) \<Rightarrow> (rows, db1)))
            | _ \<Rightarrow> ([], db))
      else if length (pt_Nodes optPat) = 1 \<and> length (pt_Rels optPat) = 0 then
        (let np = pt_Nodes optPat ! 0; varName = varOr (np_Variable np) ''_opt''
         in (case findCandidates B C np db of
               Inl _ \<Rightarrow> []
             | Inr candidates \<Rightarrow> filter (\<lambda>row. optionalOk C optWhere row = Inr True) (map (\<lambda>n. AList.update varName (CNode n) binding) candidates), db))
      else ([], db))"

definition nullify :: "string \<Rightarrow> bindings \<Rightarrow> bindings" where
  "nullify x row = (if x \<noteq> [] \<and> map_of row x = None then row @ [(x, CNil)] else row)"

definition nullifyOptionalBindings :: "bindings \<Rightarrow> Pattern \<Rightarrow> bindings" where
  "nullifyOptionalBindings binding optPat =
     fold nullify (map rp_Variable (pt_Rels optPat)) (fold nullify (map np_Variable (pt_Nodes optPat)) binding)"

fun optionalRows :: "'b bolt \<Rightarrow> codec \<Rightarrow> qconf \<Rightarrow> Pattern \<Rightarrow> Expression option \<Rightarrow> bindings list \<Rightarrow> 'b DB \<Rightarrow> bindings list \<times> 'b DB" where
  "optionalRows B C g optPat w [] db = ([], db)"
| "optionalRows B C g optPat w (b # bs) db =
     (let (rows, db1) = attemptOptionalMatch B C g b optPat w db; (rest, db2) = optionalRows B C g optPat w bs db1
      in ((if rows = [] then [nullifyOptionalBindings b optPat] else rows) @ rest, db2))"

definition execWithOptionalMatch :: "'b bolt \<Rightarrow> codec \<Rightarrow> qconf \<Rightarrow> CypherQuery \<Rightarrow> Pattern \<Rightarrow> 'b DB \<Rightarrow> (gerr + CypherResult) \<times> 'b DB" where
  "execWithOptionalMatch B C g q optPat db = (case collectMainBindings B C g q db of
       (Inl e, db1) \<Rightarrow> (Inl e, db1)
     | (Inr main, db1) \<Rightarrow> (let (rows, db2) = optionalRows B C g optPat (q_OptionalWhere q) main db1 in (Inr (projectBindings C q rows), db2)))"

section \<open>Executing a query\<close>

definition executeCypherNormal :: "'b bolt \<Rightarrow> codec \<Rightarrow> qconf \<Rightarrow> ctx \<Rightarrow> CypherQuery \<Rightarrow> 'b DB \<Rightarrow> (gerr + CypherResult) \<times> 'b DB" where
  "executeCypherNormal B C g ctx q db = (case q_OptionalMatch q of
       Some optPat \<Rightarrow> execWithOptionalMatch B C g q optPat db
     | None \<Rightarrow>
         let pat = q_Match q
         in if length (pt_Nodes pat) = 1 \<and> length (pt_Rels pat) = 0 then (execNodeMatch B C g ctx q db, db)
            else if length (pt_Nodes pat) = 2 \<and> length (pt_Rels pat) = 1 then
              (if rp_VarLength (pt_Rels pat ! 0) then execVarLengthMatch B C g ctx q db else execSingleHopMatch B C g ctx q db)
            else (Inl (ErrMsg ''cypher exec: unsupported pattern''), db))"

definition executeCypher :: "'b bolt \<Rightarrow> codec \<Rightarrow> qconf \<Rightarrow> ctx \<Rightarrow> CypherQuery \<Rightarrow> 'b DB \<Rightarrow> (gerr + CypherResult) \<times> 'b DB" where
  "executeCypher B C g ctx q db = (case q_Explain q of
       ExplainOnly \<Rightarrow> (Inr \<lparr>cr_Columns = [], cr_Rows = [], cr_Plan = Some (buildPlan C db q, False)\<rparr>, db)
     | ExplainProfile \<Rightarrow>
         (case executeCypherNormal B C g ctx (q\<lparr>q_Explain := ExplainNone\<rparr>) db of
            (Inl e, db1) \<Rightarrow> (Inl e, db1)
          | (Inr r, db1) \<Rightarrow> (Inr (r\<lparr>cr_Plan := Some (annotateProfileStats (length (cr_Rows r)) (buildPlan C db q), True)\<rparr>), db1))
     | ExplainNone \<Rightarrow> executeCypherNormal B C g ctx q db)"

end
