(* ===== verification/QueryWrite.thy ===== *)
theory QueryWrite
  imports QueryExec
begin

text \<open>
  Execution of CREATE and MERGE (cypher_write.go) on top of the node and edge operations. A CREATE is a sequence of independent
  operations: what was created before a failing step stays.
\<close>

record CreateStats =
  cs_NodesCreated :: nat
  cs_EdgesCreated :: nat
  cs_LabelsSet :: nat
  cs_PropsSet :: nat

record CypherCreateResult =
  ccr_Columns :: "string list"
  ccr_Rows :: "bindings list"
  ccr_Stats :: CreateStats

text \<open>A variable that is named and already bound to a node.\<close>

definition boundNode :: "string \<Rightarrow> bindings \<Rightarrow> Node option" where
  "boundNode x bs = (if x = [] then None else case map_of bs x of Some (CNode n) \<Rightarrow> Some n | _ \<Rightarrow> None)"

section \<open>CREATE\<close>

fun createNodes :: "'b bolt \<Rightarrow> codec \<Rightarrow> wcodec \<Rightarrow> NodePattern list \<Rightarrow> NodeID list \<Rightarrow> bindings \<Rightarrow> CreateStats \<Rightarrow> ctx \<Rightarrow> 'b DB \<Rightarrow>
    (gerr + NodeID list \<times> bindings \<times> CreateStats \<times> ctx) \<times> 'b DB" where
  "createNodes B C W [] ids bs st ctx db = (Inr (ids, bs, st, ctx), db)"
| "createNodes B C W (np # nps) ids bs st ctx db = (case ctxErr ctx of
       (True, _) \<Rightarrow> (Inl ErrContext, db)
     | (False, ctx') \<Rightarrow> (case boundNode (np_Variable np) bs of
           Some n \<Rightarrow> createNodes B C W nps (ids @ [n_id n]) bs st ctx' db
         | None \<Rightarrow>
             let props = storedProps (np_Props np)
             in case (if np_Labels np \<noteq> [] then AddNodeWithLabels B C W (np_Labels np) props db else AddNode B C W props db) of
                  (Inl e, db1) \<Rightarrow> (Inl (ErrWrap ''cypher exec: CREATE node failed'' e), db1)
                | (Inr i, db1) \<Rightarrow>
                    let st' = st\<lparr>cs_PropsSet := cs_PropsSet st + length props, cs_LabelsSet := cs_LabelsSet st + length (np_Labels np),
                                 cs_NodesCreated := cs_NodesCreated st + 1\<rparr>
                    in if np_Variable np = [] then createNodes B C W nps (ids @ [i]) bs st' ctx' db1
                       else case getNode B C i db1 of
                              (Inl e, db2) \<Rightarrow> (Inl e, db2)
                            | (Inr n, db2) \<Rightarrow> createNodes B C W nps (ids @ [i]) (AList.update (np_Variable np) (CNode n) bs) st' ctx' db2))"

fun createEdges :: "'b bolt \<Rightarrow> codec \<Rightarrow> wcodec \<Rightarrow> RelPattern list \<Rightarrow> NodeID list \<Rightarrow> bindings \<Rightarrow> CreateStats \<Rightarrow> ctx \<Rightarrow> 'b DB \<Rightarrow>
    (gerr + bindings \<times> CreateStats \<times> ctx) \<times> 'b DB" where
  "createEdges B C W [] ids bs st ctx db = (Inr (bs, st, ctx), db)"
| "createEdges B C W (rp # rps) ids bs st ctx db = (case ctxErr ctx of
       (True, _) \<Rightarrow> (Inl ErrContext, db)
     | (False, ctx') \<Rightarrow> (case ids of
           i # j # rest \<Rightarrow>
             let (from, to) = (if rp_Dir rp = Incoming then (j, i) else (i, j)); label = rp_Label rp
             in if label = [] then (Inl (ErrMsg ''cypher exec: CREATE relationship requires a label (type)''), db)
                else (case AddEdge B C W from to label [] db of
                        (Inl e, db1) \<Rightarrow> (Inl (ErrWrap ''cypher exec: CREATE edge failed'' e), db1)
                      | (Inr _, db1) \<Rightarrow>
                          let st' = st\<lparr>cs_EdgesCreated := cs_EdgesCreated st + 1\<rparr>;
                              bs' = (if rp_Variable rp = [] then bs
                                else case getEdgesForNode B C from Outgoing db1 of Inl _ \<Rightarrow> bs
                                  | Inr es \<Rightarrow> (case find (\<lambda>e. e_to e = to \<and> e_label e = label) es of None \<Rightarrow> bs
                                      | Some e \<Rightarrow> AList.update (rp_Variable rp) (CEdge e) bs))
                          in createEdges B C W rps (j # rest) bs' st' ctx' db1)
         | _ \<Rightarrow> (Inl ErrPanic, db)))"

definition executeCreatePattern :: "'b bolt \<Rightarrow> codec \<Rightarrow> wcodec \<Rightarrow> Pattern \<Rightarrow> bindings \<Rightarrow> CreateStats \<Rightarrow> ctx \<Rightarrow> 'b DB \<Rightarrow>
    (gerr + bindings \<times> CreateStats \<times> ctx) \<times> 'b DB" where
  "executeCreatePattern B C W cp bs st ctx db =
     (if pt_Nodes cp = [] then (Inl (ErrMsg ''cypher exec: CREATE pattern has no nodes''), db)
      else case createNodes B C W (pt_Nodes cp) [] bs st ctx db of
             (Inl e, db1) \<Rightarrow> (Inl e, db1)
           | (Inr (ids, bs1, st1, ctx1), db1) \<Rightarrow> createEdges B C W (pt_Rels cp) ids bs1 st1 ctx1 db1)"

fun createPatterns :: "'b bolt \<Rightarrow> codec \<Rightarrow> wcodec \<Rightarrow> Pattern list \<Rightarrow> bindings \<Rightarrow> CreateStats \<Rightarrow> ctx \<Rightarrow> 'b DB \<Rightarrow> (gerr + bindings \<times> CreateStats) \<times> 'b DB" where
  "createPatterns B C W [] bs st ctx db = (Inr (bs, st), db)"
| "createPatterns B C W (cp # cps) bs st ctx db = (case ctxErr ctx of
       (True, _) \<Rightarrow> (Inl ErrContext, db)
     | (False, ctx') \<Rightarrow> (case executeCreatePattern B C W cp bs st ctx' db of
           (Inl e, db1) \<Rightarrow> (Inl e, db1)
         | (Inr (bs1, st1, ctx1), db1) \<Rightarrow> createPatterns B C W cps bs1 st1 ctx1 db1))"

text \<open>
  The RETURN clause of a write: the errors of expressions are dropped, a panic is not. One row is built, or none without RETURN.
\<close>

definition writeRow :: "codec \<Rightarrow> ReturnItem list \<Rightarrow> bindings \<Rightarrow> gerr + bindings" where
  "writeRow C items bs = efold (\<lambda>item row. case evalExpr C bs (ri_Expr item) of
       Inl e \<Rightarrow> if e = ErrPanic then Inl e else Inr (AList.update (returnItemName item) CNil row)
     | Inr v \<Rightarrow> Inr (AList.update (returnItemName item) v row)) items []"

definition executeCreate :: "'b bolt \<Rightarrow> codec \<Rightarrow> wcodec \<Rightarrow> ctx \<Rightarrow> CypherWrite \<Rightarrow> 'b DB \<Rightarrow> (gerr + CypherCreateResult) \<times> 'b DB" where
  "executeCreate B C W ctx w db =
     (if db_closed db then (Inl ErrClosed, db)
      else case createPatterns B C W (w_Creates w) [] \<lparr>cs_NodesCreated = 0, cs_EdgesCreated = 0, cs_LabelsSet = 0, cs_PropsSet = 0\<rparr> ctx db of
             (Inl e, db1) \<Rightarrow> (Inl e, db1)
           | (Inr (bs, st), db1) \<Rightarrow>
               (case w_Return w of
                  None \<Rightarrow> Inr \<lparr>ccr_Columns = [], ccr_Rows = [], ccr_Stats = st\<rparr>
                | Some items \<Rightarrow> ebind (writeRow C items bs) (\<lambda>row.
                    Inr \<lparr>ccr_Columns = map returnItemName items, ccr_Rows = [row], ccr_Stats = st\<rparr>), db1))"

section \<open>MERGE\<close>

definition nodeMatches :: "codec \<Rightarrow> MergePattern \<Rightarrow> Node \<Rightarrow> bool" where
  "nodeMatches C mp n \<longleftrightarrow> matchLabels (n_labels n) (mp_Labels mp) \<and> matchProps C (n_props n) (mp_Props mp)"

text \<open>The lookup through a unique constraint on the first label and one of the properties.\<close>

definition mergeByConstraint :: "'b bolt \<Rightarrow> codec \<Rightarrow> MergePattern \<Rightarrow> 'b DB \<Rightarrow> (gerr + Node option) \<times> 'b DB" where
  "mergeByConstraint B C mp db =
     (if mp_Labels mp = [] \<or> mp_Props mp = [] then (Inr None, db)
      else case find (\<lambda>kv. HasUniqueConstraint db (mp_Labels mp ! 0) (fst kv)) (mp_Props mp) of
             None \<Rightarrow> (Inr None, db)
           | Some (k, v) \<Rightarrow> (case FindByUniqueConstraint B C (mp_Labels mp ! 0) k (pval_val v) db of
                 (Inl e, db1) \<Rightarrow> (Inl (ErrWrap ''cypher exec: MERGE lookup failed'' e), db1)
               | (Inr found, db1) \<Rightarrow> (Inr (case found of Some n \<Rightarrow> if nodeMatches C mp n then Some n else None | None \<Rightarrow> None), db1)))"

definition mergeMatch :: "'b bolt \<Rightarrow> codec \<Rightarrow> MergePattern \<Rightarrow> 'b DB \<Rightarrow> (gerr + Node option) \<times> 'b DB" where
  "mergeMatch B C mp db = (case mergeByConstraint B C mp db of
       (Inl e, db1) \<Rightarrow> (Inl e, db1)
     | (Inr (Some n), db1) \<Rightarrow> (Inr (Some n), db1)
     | (Inr None, db1) \<Rightarrow>
         if mp_Labels mp = [] then (Inr None, db1)
         else (case FindByLabel B C (mp_Labels mp ! 0) db1 of
                 Inl e \<Rightarrow> (Inl (ErrWrap ''cypher exec: MERGE label scan failed'' e), db1)
               | Inr candidates \<Rightarrow> (Inr (find (nodeMatches C mp) candidates), db1)))"

text \<open>The matched or created node, and whether it was created.\<close>

definition mergeNode :: "'b bolt \<Rightarrow> codec \<Rightarrow> wcodec \<Rightarrow> MergePattern \<Rightarrow> 'b DB \<Rightarrow> (gerr + Node \<times> bool) \<times> 'b DB" where
  "mergeNode B C W mp db = (case mergeMatch B C mp db of
       (Inl e, db1) \<Rightarrow> (Inl e, db1)
     | (Inr (Some n), db1) \<Rightarrow> (Inr (n, False), db1)
     | (Inr None, db1) \<Rightarrow> (case writeGuard db1 of
           Some e \<Rightarrow> (Inl e, db1)
         | None \<Rightarrow> (case AddNodeWithLabels B C W (mp_Labels mp) (storedProps (mp_Props mp)) db1 of
               (Inl e, db2) \<Rightarrow> (Inl (ErrWrap ''cypher exec: MERGE create failed'' e), db2)
             | (Inr i, db2) \<Rightarrow> (case getNode B C i db2 of
                   (Inl e, db3) \<Rightarrow> (Inl e, db3)
                 | (Inr n, db3) \<Rightarrow> (Inr (n, True), db3)))))"

text \<open>A value assigned to a property. A node or an edge is written as the map of its fields that MessagePack makes of a struct.\<close>

definition cval_val :: "cval \<Rightarrow> val" where
  "cval_val v = (case v of CVal x \<Rightarrow> x | CRef s \<Rightarrow> VStr s | CNilNode \<Rightarrow> VNil
     | CNode n \<Rightarrow> VMap [(''ID'', VInt K_uint64 (uint (n_id n))), (''Labels'', VList (map VStr (n_labels n))), (''Props'', VMap (n_props n))]
     | CEdge e \<Rightarrow> VMap [(''ID'', VInt K_uint64 (uint (e_id e))), (''From'', VInt K_uint64 (uint (e_from e))), (''To'', VInt K_uint64 (uint (e_to e))),
         (''Label'', VStr (e_label e)), (''Props'', VMap (e_props e))])"

definition setProps :: "codec \<Rightarrow> bindings \<Rightarrow> SetItem list \<Rightarrow> gerr + Props" where
  "setProps C bs items = efold (\<lambda>si ps. case evalExpr C bs (si_Value si) of
       Inl e \<Rightarrow> Inl (if e = ErrPanic then e else ErrWrap ''cypher exec: MERGE SET value eval'' e)
     | Inr v \<Rightarrow> Inr (AList.update (si_Property si) (cval_val v) ps)) items []"

definition bindVar :: "string \<Rightarrow> cval \<Rightarrow> bindings \<Rightarrow> bindings" where
  "bindVar x v bs = (if x = [] then bs else AList.update x v bs)"

definition mergeSet :: "'b bolt \<Rightarrow> codec \<Rightarrow> wcodec \<Rightarrow> CypherMerge \<Rightarrow> Node \<Rightarrow> bool \<Rightarrow> 'b DB \<Rightarrow> (gerr + bindings) \<times> 'b DB" where
  "mergeSet B C W m n wasCreated db =
     (let x = mp_Variable (m_Pattern m); bs = bindVar x (CNode n) []; items = (if wasCreated then m_OnCreateSet m else m_OnMatchSet m)
      in if items = [] then (Inr bs, db)
         else case (if wasCreated then None else writeGuard db) of
                Some e \<Rightarrow> (Inl e, db)
              | None \<Rightarrow> (case setProps C bs items of
                    Inl e \<Rightarrow> (Inl e, db)
                  | Inr ps \<Rightarrow> (case UpdateNode B C W (n_id n) ps db of
                        (Inl e, db1) \<Rightarrow> (Inl (ErrWrap ''cypher exec: MERGE SET failed'' e), db1)
                      | (Inr _, db1) \<Rightarrow> (case getNode B C (n_id n) db1 of
                            (Inl _, db2) \<Rightarrow> (Inr (bindVar x CNilNode bs), db2)
                          | (Inr n', db2) \<Rightarrow> (Inr (bindVar x (CNode n') bs), db2)))))"

definition executeMerge :: "'b bolt \<Rightarrow> codec \<Rightarrow> wcodec \<Rightarrow> CypherMerge \<Rightarrow> 'b DB \<Rightarrow> (gerr + CypherResult) \<times> 'b DB" where
  "executeMerge B C W m db =
     (if db_closed db then (Inl ErrClosed, db)
      else case mergeNode B C W (m_Pattern m) db of
             (Inl e, db1) \<Rightarrow> (Inl e, db1)
           | (Inr (n, wasCreated), db1) \<Rightarrow> (case mergeSet B C W m n wasCreated db1 of
                 (Inl e, db2) \<Rightarrow> (Inl e, db2)
               | (Inr bs, db2) \<Rightarrow>
                   (case m_Return m of
                      None \<Rightarrow> Inr \<lparr>cr_Columns = [], cr_Rows = [], cr_Plan = None\<rparr>
                    | Some items \<Rightarrow> ebind (writeRow C items bs) (\<lambda>row. Inr \<lparr>cr_Columns = map returnItemName items, cr_Rows = [row], cr_Plan = None\<rparr>), db2)))"

end
