(* ===== verification/QueryMutate.thy ===== *)
theory QueryMutate
  imports QueryWrite
begin

text \<open>
  MATCH ... SET / DELETE (executeCypherMutating in cypher_exec.go): the query is run as a read first, and the mutations are then
  applied to its result rows, through the columns of the rows.

  SET also changes the node object a row points to. When the pattern is one node, every row has a node object of its own, which
  all node columns of the row point to; for longer patterns rows share objects through the node cache, so SET on them is outside
  the model, as is a property that is set to a node (the result would contain itself). There the functions return \<open>None\<close>.
\<close>

text \<open>The node object of a row gets a property.\<close>

definition assignProp :: "string \<Rightarrow> val \<Rightarrow> bindings \<Rightarrow> bindings" where
  "assignProp p v row = map (map_prod id (\<lambda>c. case c of CNode m \<Rightarrow> CNode (m\<lparr>n_props := AList.update p v (n_props m)\<rparr>) | _ \<Rightarrow> c)) row"

fun setRow :: "'b bolt \<Rightarrow> codec \<Rightarrow> wcodec \<Rightarrow> SetItem list \<Rightarrow> bindings \<Rightarrow> 'b DB \<Rightarrow> ((gerr + bindings) \<times> 'b DB) option" where
  "setRow B C W [] row db = Some (Inr row, db)"
| "setRow B C W (si # sis) row db = (case map_of row (si_Variable si) of
       Some (CNode n) \<Rightarrow>
         (case evalExpr C row (si_Value si) of
            Inl e \<Rightarrow> Some (Inl (ErrWrap ''cypher exec: SET value eval'' e), db)
          | Inr (CVal v) \<Rightarrow>
              (case UpdateNode B C W (n_id n) [(si_Property si, v)] db of
                 (Inl e, db1) \<Rightarrow> Some (Inl (ErrWrap ''cypher exec: SET failed'' e), db1)
               | (Inr _, db1) \<Rightarrow> setRow B C W sis (assignProp (si_Property si) v row) db1)
          | Inr _ \<Rightarrow> None)
     | _ \<Rightarrow> setRow B C W sis row db)"

fun setRows :: "'b bolt \<Rightarrow> codec \<Rightarrow> wcodec \<Rightarrow> SetItem list \<Rightarrow> bindings list \<Rightarrow> 'b DB \<Rightarrow> ((gerr + bindings list) \<times> 'b DB) option" where
  "setRows B C W items [] db = Some (Inr [], db)"
| "setRows B C W items (row # rows) db = (case setRow B C W items row db of
       None \<Rightarrow> None
     | Some (Inl e, db1) \<Rightarrow> Some (Inl e, db1)
     | Some (Inr row', db1) \<Rightarrow> (case setRows B C W items rows db1 of
           None \<Rightarrow> None
         | Some (Inl e, db2) \<Rightarrow> Some (Inl e, db2)
         | Some (Inr rows', db2) \<Rightarrow> Some (Inr (row' # rows'), db2)))"

fun deleteRow :: "'b bolt \<Rightarrow> codec \<Rightarrow> wcodec \<Rightarrow> string list \<Rightarrow> bindings \<Rightarrow> 'b DB \<Rightarrow> (gerr + unit) \<times> 'b DB" where
  "deleteRow B C W [] row db = (Inr (), db)"
| "deleteRow B C W (x # xs) row db =
     (case (case map_of row x of
              Some (CNode n) \<Rightarrow> DeleteNode B C W (n_id n) db
            | Some (CEdge e) \<Rightarrow> DeleteEdge B C W (e_id e) db
            | Some CNilNode \<Rightarrow> (Inl ErrPanic, db)
            | _ \<Rightarrow> (Inr (), db)) of
        (Inl e, db1) \<Rightarrow> (Inl (if e = ErrPanic then e else ErrWrap ''cypher exec: DELETE failed'' e), db1)
      | (Inr _, db1) \<Rightarrow> deleteRow B C W xs row db1)"

fun deleteRows :: "'b bolt \<Rightarrow> codec \<Rightarrow> wcodec \<Rightarrow> string list \<Rightarrow> bindings list \<Rightarrow> 'b DB \<Rightarrow> (gerr + unit) \<times> 'b DB" where
  "deleteRows B C W xs [] db = (Inr (), db)"
| "deleteRows B C W xs (row # rows) db = (case deleteRow B C W xs row db of
       (Inl e, db1) \<Rightarrow> (Inl e, db1)
     | (Inr _, db1) \<Rightarrow> deleteRows B C W xs rows db1)"

text \<open>The mutations apply to no row, or every row has one node object of its own.\<close>

definition ownObjects :: "CypherQuery \<Rightarrow> bindings list \<Rightarrow> bool" where
  "ownObjects q rows \<longleftrightarrow> (length (pt_Nodes (q_Match q)) = 1 \<and> pt_Rels (q_Match q) = [] \<and> q_OptionalMatch q = None) \<or>
     list_all (\<lambda>row. list_all (\<lambda>si. map_of row (si_Variable si) = None) (q_Set q)) rows"

definition executeCypherMutating :: "'b bolt \<Rightarrow> codec \<Rightarrow> wcodec \<Rightarrow> qconf \<Rightarrow> ctx \<Rightarrow> CypherQuery \<Rightarrow> 'b DB \<Rightarrow> ((gerr + CypherResult) \<times> 'b DB) option" where
  "executeCypherMutating B C W g ctx q db = (case executeCypher B C g ctx (q\<lparr>q_Set := [], q_Delete := []\<rparr>) db of
       (Inl e, db1) \<Rightarrow> Some (Inl e, db1)
     | (Inr res, db1) \<Rightarrow>
         if \<not> ownObjects q (cr_Rows res) then None
         else (case setRows B C W (q_Set q) (cr_Rows res) db1 of
             None \<Rightarrow> None
           | Some (Inl e, db2) \<Rightarrow> Some (Inl e, db2)
           | Some (Inr rows, db2) \<Rightarrow> (case deleteRows B C W (q_Delete q) rows db2 of
                 (Inl e, db3) \<Rightarrow> Some (Inl e, db3)
               | (Inr _, db3) \<Rightarrow> Some (Inr (res\<lparr>cr_Rows := rows\<rparr>), db3))))"

section \<open>What is not returned is not changed\<close>

text \<open>The keys of a result row are the columns.\<close>

lemma update_keys: "fst ` set (AList.update k v row) = insert k (fst ` set row)"
  by (induction row) auto

lemma projectRow_keys: "projectRow C items bs = Inr row \<Longrightarrow> fst ` set row = returnItemName ` set items"
proof -
  have "efold (\<lambda>item row. ebind (f item) (\<lambda>v. Inr (AList.update (returnItemName item) v row))) items acc = Inr row \<Longrightarrow>
      fst ` set row = returnItemName ` set items \<union> fst ` set acc" for f :: "ReturnItem \<Rightarrow> gerr + cval" and acc
  proof (induction items arbitrary: acc)
    case (Cons item items)
    then obtain v where "efold (\<lambda>item row. ebind (f item) (\<lambda>v. Inr (AList.update (returnItemName item) v row))) items
        (AList.update (returnItemName item) v acc) = Inr row" by (auto simp: ebind_eq_Inr)
    from Cons.IH [OF this] show ?case by (simp add: update_keys)
  qed simp
  from this [of _ "[]"] show "projectRow C items bs = Inr row \<Longrightarrow> fst ` set row = returnItemName ` set items" by (simp add: projectRow_def)
qed

definition columns_of :: "CypherQuery \<Rightarrow> bindings list \<Rightarrow> bool" where
  "columns_of q rows \<longleftrightarrow> (\<forall>row \<in> set rows. fst ` set row = returnItemName ` set (q_Return q))"

lemma set_SliceStable [simp]: "set (SliceStable ls xs) = set xs"
proof -
  have "set (insertBack ls x ys) = insert x (set ys)" for x ys by (induction ys) auto
  then have "set (fold (insertBack ls) xs ys) = set xs \<union> set ys" for ys by (induction xs arbitrary: ys) auto
  then show ?thesis by (simp add: SliceStable_def)
qed

lemma set_orderRows: "set (orderRows C q rows) \<subseteq> set rows"
proof -
  have "set (limitRows n xs) \<subseteq> set xs" for n and xs :: "bindings list" by (auto simp: limitRows_def dest: in_set_takeD)
  from this [of "q_Limit q" rows] this [of "q_Limit q" "sortRows C (q_OrderBy q) rows"] show ?thesis
    by (auto simp: orderRows_def sortRows_def)
qed

lemma columns_order: "columns_of q rows \<Longrightarrow> columns_of q (orderRows C q rows)"
  using set_orderRows unfolding columns_of_def by blast

lemma projectWith_columns: "projectWith C q bind xs = Inr res \<Longrightarrow> columns_of q (cr_Rows res)"
proof -
  assume p: "projectWith C q bind xs = Inr res"
  have row: "fst ` set row = returnItemName ` set (q_Return q)" if "projectRow C (q_Return q) bs = Inr row" for bs row
    using projectRow_keys [OF that] .
  have rows: "columns_of q rows" if p: "emapM (\<lambda>x. projectRow C (q_Return q) (f x)) ys = Inr rows" for f :: "'c \<Rightarrow> bindings" and ys rows
    unfolding columns_of_def
  proof
    fix r assume "r \<in> set rows"
    then have "\<exists>y. projectRow C (q_Return q) (f y) = Inr r"
      using p unfolding emapM_Inr_iff list_all2_conv_all_nth in_set_conv_nth by auto
    then show "fst ` set r = returnItemName ` set (q_Return q)" using row by blast
  qed
  show ?thesis
  proof (cases "q_OrderBy q \<noteq> [] \<and> 0 < q_Limit q")
    case True
    then obtain f ys rs where "emapM (\<lambda>x :: 'a topKItem. projectRow C (q_Return q) (f x)) ys = Inr rs" "cr_Rows res = rs"
      using p by (auto simp: projectWith_def resultOf_def Let_def ebind_eq_Inr)
    then show ?thesis using rows by blast
  next
    case False
    then obtain rs where "emapM (\<lambda>x. projectRow C (q_Return q) (bind x)) xs = Inr rs" "cr_Rows res = orderRows C q rs"
      using p by (auto simp: projectWith_def resultOf_def ebind_eq_Inr)
    then show ?thesis using rows columns_order by metis
  qed
qed

lemma projectBindings_columns: "columns_of q (cr_Rows (projectBindings C q rows))"
proof -
  have "fst ` set (fold (\<lambda>item. AList.update (returnItemName item) (f item)) items acc) = fst ` set acc \<union> returnItemName ` set items" for f :: "ReturnItem \<Rightarrow> cval" and items acc
    by (induction items arbitrary: acc) (auto simp: update_keys)
  then have "columns_of q (map (projectRowOpt C (q_Return q)) rows)" by (simp add: columns_of_def projectRowOpt_def)
  then show ?thesis by (simp add: projectBindings_def resultOf_def columns_order)
qed

lemma executeCypher_columns:
  assumes "executeCypher B C g ctx q db = (Inr res, db')"
  shows "columns_of q (cr_Rows res)"
proof -
  have node: "columns_of q' (cr_Rows r)" if "execNodeMatch B C g ctx q' db = Inr r" for q' r
    using that projectWith_columns
    by (auto simp: execNodeMatch_def execNodeScan_def execNodeMatchWithIndex_def execNodeMatchWhereIndexed_def projectResults_def Let_def ebind_eq_Inr
        split: if_splits option.splits)
  have hop: "columns_of q' (cr_Rows r)" if "projectHop C q' vs x = (Inr r, db1)" for q' vs x r and db1 :: "'a DB"
    using that projectWith_columns by (auto simp: projectHop_def projectPatternResults_def ebind_eq_Inr)
  have normal: "columns_of q' (cr_Rows r)" if e: "executeCypherNormal B C g ctx q' db = (Inr r, db1)" for q' r db1
    using e node hop projectBindings_columns
    by (auto simp: executeCypherNormal_def execSingleHopMatch_def execSingleHopByEdgeType_def execVarLengthMatch_def execWithOptionalMatch_def Let_def
        split: option.splits if_splits sum.splits prod.splits)
  show ?thesis
  proof (cases "q_Explain q")
    case ExplainOnly
    then show ?thesis using assms by (auto simp: executeCypher_def columns_of_def)
  next
    case ExplainProfile
    then obtain x db1 where x: "executeCypherNormal B C g ctx (q\<lparr>q_Explain := ExplainNone\<rparr>) db = (Inr x, db1)" "cr_Rows res = cr_Rows x"
      using assms by (auto simp: executeCypher_def split: prod.splits sum.splits)
    then show ?thesis using normal [OF x(1)] by (simp add: columns_of_def)
  next
    case ExplainNone
    then show ?thesis using assms normal by (auto simp: executeCypher_def)
  qed
qed

lemma setRow_skips: "list_all (\<lambda>si. map_of row (si_Variable si) = None) items \<Longrightarrow> setRow B C W items row db = Some (Inr row, db)"
  by (induction items) auto

lemma setRows_skips: "list_all (\<lambda>row. list_all (\<lambda>si. map_of row (si_Variable si) = None) items) rows \<Longrightarrow> setRows B C W items rows db = Some (Inr rows, db)"
  by (induction rows) (auto simp: setRow_skips)

lemma deleteRows_skips: "list_all (\<lambda>row. list_all (\<lambda>x. map_of row x = None) xs) rows \<Longrightarrow> deleteRows B C W xs rows db = (Inr (), db)"
proof -
  have "list_all (\<lambda>x. map_of row x = None) xs \<Longrightarrow> deleteRow B C W xs row db = (Inr (), db)" for row by (induction xs) auto
  then show "list_all (\<lambda>row. list_all (\<lambda>x. map_of row x = None) xs) rows \<Longrightarrow> deleteRows B C W xs rows db = (Inr (), db)"
    by (induction rows) auto
qed

end
