(* ===== verification/QueryProps.thy ===== *)
theory QueryProps
  imports QueryExec System Topo
begin

text \<open>
  Properties of the execution of read queries: what ORDER BY with LIMIT selects, that an index does not change the rows of a query,
  and three places where the rows are not those the query asks for.
\<close>

section \<open>Expressions that do not read labels\<close>

text \<open>A node found through a property index comes without its labels; expressions of this form cannot tell.\<close>

fun label_free :: "Expression \<Rightarrow> bool" where
  "label_free (ExprVarRef x) = False"
| "label_free (ExprFuncCall f args) = (case args of [ExprVarRef x] \<Rightarrow> True | _ \<Rightarrow> list_all label_free args)"
| "label_free (ExprComparison l op r) = (label_free l \<and> label_free r)"
| "label_free (ExprAnd es) = list_all label_free es"
| "label_free (ExprOr es) = list_all label_free es"
| "label_free (ExprNot e) = label_free e"
| "label_free _ = True"

definition same_record :: "Node \<Rightarrow> Node \<Rightarrow> bool" where
  "same_record m n \<longleftrightarrow> n_id m = n_id n \<and> n_props m = n_props n"

lemma same_record_property: "same_record m n \<Longrightarrow> getProperty (CNode m) p = getProperty (CNode n) p"
  by (simp add: getProperty_def same_record_def)

lemma eval_same_record:
  assumes "same_record m n"
  shows "label_free e \<Longrightarrow> evalExpr C [(v, CNode m)] e = evalExpr C [(v, CNode n)] e"
    and "label_free (ExprFuncCall f args) \<Longrightarrow> evalFunc C [(v, CNode m)] f args = evalFunc C [(v, CNode n)] f args"
    and "list_all label_free es \<Longrightarrow> evalAnd C [(v, CNode m)] es = evalAnd C [(v, CNode n)] es"
    and "list_all label_free es \<Longrightarrow> evalOr C [(v, CNode m)] es = evalOr C [(v, CNode n)] es"
proof (induction C "[(v, CNode m)]" e and C "[(v, CNode m)]" f args and C "[(v, CNode m)]" es and C "[(v, CNode m)]" es
    rule: evalExpr_evalFunc_evalAnd_evalOr.induct)
  case (3 C x p)
  then show ?case using same_record_property [OF assms] by simp
next
  case (10 C f args)
  consider x where "args = [ExprVarRef x]" | a where "args = [a]" "\<And>x. a \<noteq> ExprVarRef x" | "\<And>a. args \<noteq> [a]" by blast
  then show ?case
  proof cases
    case 1
    then show ?thesis using assms by (auto simp: typeResult_def idResult_def same_record_def)
  next
    case 2
    then have "label_free a" using 10(3) by (cases a) auto
    then show ?thesis using 2 10 by auto
  next
    case 3
    then show ?thesis by (auto split: list.splits)
  qed
qed (auto intro!: arg_cong2 [where f = ebind])

lemma where_same_record: "same_record m n \<Longrightarrow> pred_option label_free w \<Longrightarrow> whereOk C w [(v, CNode m)] = whereOk C w [(v, CNode n)]"
  by (cases w) (auto simp: whereOk_def evalBool_def eval_same_record)

lemma row_same_record:
  "same_record m n \<Longrightarrow> list_all (\<lambda>i. label_free (ri_Expr i)) items \<Longrightarrow> projectRow C items [(v, CNode m)] = projectRow C items [(v, CNode n)]"
  unfolding projectRow_def by (rule efold_cong) (auto simp: list_all_iff eval_same_record)

section \<open>Filters as list operations\<close>

lemma selectNodes_all:
  "(\<exists>r. selectNodes C keep w v (\<lambda>_. False) ns acc = Inr r) \<longleftrightarrow> (\<forall>n \<in> set ns. keep n \<longrightarrow> (\<exists>b. whereOk C w [(v, CNode n)] = Inr b))"
  by (induction ns arbitrary: acc) (auto split: sum.splits if_splits)

lemma selectNodes_filter:
  "selectNodes C keep w v (\<lambda>_. False) ns acc = Inr r \<Longrightarrow> r = acc @ filter (\<lambda>n. keep n \<and> whereOk C w [(v, CNode n)] = Inr True) ns"
proof (induction ns arbitrary: acc)
  case (Cons n ns)
  then show ?case using Cons.IH [of acc] Cons.IH [of "acc @ [n]"] by (auto split: sum.splits if_splits)
qed simp

lemma scanStep_free:
  assumes "q_Limit q \<le> 0" "qc_maxRows g \<le> 0"
  shows "scanStep C g q np v n (acc, []) = (if \<not> matchProps C (n_props n) (np_Props np) then Inr (acc, [])
     else case whereOk C (q_Where q) [(v, CNode n)] of Inl e \<Rightarrow> Inl (StopErr e, acc, []) | Inr ok \<Rightarrow> Inr (if ok then acc @ [n] else acc, []))"
  using assms by (auto simp: scanStep_def ctxErr_def limitHit_def overRows_def Let_def split: sum.splits)

lemma scan_all:
  assumes "q_Limit q \<le> 0" "qc_maxRows g \<le> 0"
  shows "(\<exists>r. scanResult (efold (scanStep C g q np v) ns (acc, [])) = Inr r) \<longleftrightarrow>
      (\<forall>n \<in> set ns. matchProps C (n_props n) (np_Props np) \<longrightarrow> (\<exists>b. whereOk C (q_Where q) [(v, CNode n)] = Inr b))"
proof (induction ns arbitrary: acc)
  case (Cons n ns)
  then show ?case by (cases "whereOk C (q_Where q) [(v, CNode n)]") (auto simp: scanStep_free [OF assms] scanResult_def)
qed (simp add: scanResult_def)

lemma scan_filter:
  assumes "q_Limit q \<le> 0" "qc_maxRows g \<le> 0" "scanResult (efold (scanStep C g q np v) ns (acc, [])) = Inr r"
  shows "r = acc @ filter (\<lambda>n. matchProps C (n_props n) (np_Props np) \<and> whereOk C (q_Where q) [(v, CNode n)] = Inr True) ns"
  using assms(3)
proof (induction ns arbitrary: acc)
  case (Cons n ns)
  then show ?case using Cons.IH [of acc] Cons.IH [of "acc @ [n]"]
    by (cases "whereOk C (q_Where q) [(v, CNode n)]") (auto simp: scanStep_free [OF assms(1,2)] scanResult_def split: if_splits)
qed (simp add: scanResult_def)

section \<open>Scanning all nodes\<close>

lemma efold_nested: "efold (\<lambda>s. efold (f s) (g s)) ss st = efold (\<lambda>(s, x). f s x) (concat (map (\<lambda>s. map (Pair s) (g s)) ss)) st"
  by (induction ss arbitrary: st) (auto simp: efold_append efold_map_list intro!: arg_cong [of _ _ "ebind _"] ext)

lemma efold_collected:
  "efold (\<lambda>x acc. ebind (r x) (\<lambda>n. Inr (acc @ [n]))) xs acc = Inr ns \<Longrightarrow> \<exists>ms. ns = acc @ ms \<and> list_all2 (\<lambda>x n. r x = Inr n) xs ms"
proof (induction xs arbitrary: acc)
  case (Cons x xs)
  then obtain n where n: "r x = Inr n" "efold (\<lambda>x acc. ebind (r x) (\<lambda>n. Inr (acc @ [n]))) xs (acc @ [n]) = Inr ns" by auto
  from Cons.IH [OF n(2)] obtain ms where "ns = (acc @ [n]) @ ms" "list_all2 (\<lambda>x n. r x = Inr n) xs ms" by blast
  then show ?case using n by (intro exI [of _ "n # ms"]) simp
qed simp

definition readPair :: "codec \<Rightarrow> 'b bolt \<Rightarrow> 'b shard \<times> bytes \<times> bytes \<Rightarrow> gerr + Node" where
  "readPair C B = (\<lambda>(s, kv). ebind (keyID (fst kv)) (\<lambda>i. ebind (decodeProps C (snd kv)) (\<lambda>props.
     Inr \<lparr>n_id = i, n_labels = loadLabels B C (s_data s) i, n_props = props\<rparr>)))"

definition nodePairs :: "'b bolt \<Rightarrow> 'b DB \<Rightarrow> ('b shard \<times> bytes \<times> bytes) list" where
  "nodePairs B db = concat (map (\<lambda>s. map (Pair s) (b_cursor B (bk_nodes (s_data s)))) (db_shards db))"

lemma forEachNode_pairs: "forEachNode B C fn db st = efold (\<lambda>x st. ebind (readPair C B x) (\<lambda>n. fn n st)) (nodePairs B db) st"
proof -
  have a: "forEachNode B C fn db st = efold (\<lambda>(s, kv) st. ebind (keyID (fst kv)) (\<lambda>i. ebind (decodeProps C (snd kv)) (\<lambda>props.
      fn \<lparr>n_id = i, n_labels = loadLabels B C (s_data s) i, n_props = props\<rparr> st))) (nodePairs B db) st"
    unfolding forEachNode_def forEachInBucket_def nodePairs_def efold_nested ..
  show ?thesis unfolding a by (rule efold_cong) (auto simp: readPair_def ebind_def split: sum.splits)
qed

lemma scanNodes_pairs:
  "scanNodes B C fn db st = efold (\<lambda>x st. case readPair C B x of Inl e \<Rightarrow> Inl (StopErr e, st) | Inr n \<Rightarrow> fn n st) (nodePairs B db) st"
  unfolding scanNodes_def efold_nested nodePairs_def by (rule efold_cong) (auto simp: readPair_def)

lemma scanNodes_list:
  assumes "forEachNode B C (\<lambda>n acc. Inr (acc @ [n])) db [] = Inr ns"
  shows "scanNodes B C fn db st = efold fn ns st" "list_all2 (\<lambda>x n. readPair C B x = Inr n) (nodePairs B db) ns"
proof -
  show l: "list_all2 (\<lambda>x n. readPair C B x = Inr n) (nodePairs B db) ns"
    using efold_collected [OF assms [unfolded forEachNode_pairs]] by simp
  have "efold (\<lambda>x st. case readPair C B x of Inl e \<Rightarrow> Inl (StopErr e, st) | Inr n \<Rightarrow> fn n st) xs st = efold fn ns st"
    if "list_all2 (\<lambda>x n. readPair C B x = Inr n) xs ns" for xs ns st
    using that by (induction xs ns arbitrary: st) (auto intro!: arg_cong [of _ _ "ebind _"] ext)
  then show "scanNodes B C fn db st = efold fn ns st" using l by (simp add: scanNodes_pairs)
qed

definition recordOf :: "'b bolt \<Rightarrow> codec \<Rightarrow> 'b DB \<Rightarrow> NodeID \<Rightarrow> Props option" where
  "recordOf B C db i = nodeAt B C (files db ! route (length (files db)) i) i"

lemma findByPropertyIdx_record: "n \<in> set (findByPropertyIdx B C p v d) \<Longrightarrow> nodeAt B C d (n_id n) = Some (n_props n)"
  by (auto simp: findByPropertyIdx_def Let_def split: option.splits)

context graph_store
begin

lemma scan_records:
  assumes inv: "graph_inv B C db N G"
  shows "\<exists>ns. (\<forall>fn :: Node \<Rightarrow> 's \<Rightarrow> (scanStop \<times> 's) + 's. \<forall>st. scanNodes B C fn db st = efold fn ns st) \<and> distinct (map n_id ns) \<and>
    (\<forall>i. i \<in> n_id ` set ns \<longleftrightarrow> N i \<noteq> None) \<and> (\<forall>n \<in> set ns. recordOf B C db (n_id n) = Some (n_props n))"
proof -
  have rep: "nodes_rep B C (files db) N" using inv by (simp add: graph_inv_def)
  obtain ns where ns: "\<And>fn st. forEachNode B C fn db (st :: Node list) = efold fn ns st" "distinct (map n_id ns)"
      "\<And>i. i \<in> n_id ` set ns \<longleftrightarrow> N i \<noteq> None" using forEachNode_nodes [OF inv] by blast
  have "efold (\<lambda>n acc. Inr (acc @ [n]) :: gerr + Node list) xs acc = Inr (acc @ xs)" for xs acc by (induction xs arbitrary: acc) auto
  then have collect: "forEachNode B C (\<lambda>n acc. Inr (acc @ [n])) db [] = Inr ns" using ns(1) by simp
  have rec: "recordOf B C db (n_id n) = Some (n_props n)" if n: "n \<in> set ns" for n
  proof -
    obtain s kv where skv: "(s, kv) \<in> set (nodePairs B db)" "readPair C B (s, kv) = Inr n"
    proof -
      have l: "list_all2 (\<lambda>x n. readPair C B x = Inr n) (nodePairs B db) ns" by (rule scanNodes_list(2) [OF collect])
      obtain i where i: "i < length ns" "ns ! i = n" using n by (auto simp: in_set_conv_nth)
      obtain s kv where "nodePairs B db ! i = (s, kv)" by (cases "nodePairs B db ! i")
      moreover have "nodePairs B db ! i \<in> set (nodePairs B db)" using i list_all2_lengthD [OF l] by simp
      ultimately show ?thesis using list_all2_nthD2 [OF l i(1)] i(2) that by metis
    qed
    then have s: "s \<in> set (db_shards db)" and kv: "kv \<in> set (b_cursor B (bk_nodes (s_data s)))" by (auto simp: nodePairs_def)
    obtain k where k: "k < length (files db)" "files db ! k = s_data s" using s by (auto simp: in_set_conv_nth files_def)
    obtain i x q where i: "fst kv = encodeNodeID i" "route (length (files db)) i = k" "decodeProps C (snd kv) = Inr q"
      using node_cursor [OF rep k(1), of kv] kv k(2) by auto
    have "n_id n = i" "n_props n = q" using skv(2) i by (auto simp: readPair_def keyID_def encodeNodeID_def)
    moreover have "b_get B (bk_nodes (s_data s)) (encodeNodeID i) = Some (snd kv)" using kv i(1) set_cursor by (metis prod.collapse)
    ultimately show ?thesis using i k by (simp add: recordOf_def nodeAt_def)
  qed
  show ?thesis using scanNodes_list(1) [OF collect] ns(2,3) rec by blast
qed

lemma index_records:
  assumes inv: "graph_inv B C db N G" and op: "\<not> db_closed db" and idx: "HasIndex db p"
    and plain: "texts_plain C (db_indexedProps db) N" "nul_free (fmtv C v)" and f: "FindByProperty B C p v db = Inr ns"
  shows "\<forall>n \<in> set ns. recordOf B C db (n_id n) = Some (n_props n)"
proof
  fix n assume "n \<in> set ns"
  moreover have "ns = concat (map (findByPropertyIdx B C p v) (files db))"
  proof -
    have "emapM (\<lambda>s. Inr (findByPropertyIdx B C p v (s_data s)) :: gerr + Node list) (db_shards db) = Inr (map (\<lambda>s. findByPropertyIdx B C p v (s_data s)) (db_shards db))"
      by (rule emapM_pure) simp
    then show ?thesis using f op idx by (simp add: FindByProperty_def HasIndex_def files_def comp_def)
  qed
  ultimately obtain d where "d \<in> set (files db)" "n \<in> set (findByPropertyIdx B C p v d)" by auto
  then obtain k where k: "k < length (files db)" "n \<in> set (findByPropertyIdx B C p v (files db ! k))" by (metis in_set_conv_nth)
  have rep: "nodes_rep B C (files db) N" "index_rep B C (db_indexedProps db) (db_compositeIndexes db) (files db) N"
    using inv by (auto simp: graph_inv_def)
  have "route (length (files db)) (n_id n) = k"
    using findByPropertyIdx_match [OF rep k(1) plain(1) _ plain(2)] idx k(2) unfolding nodes_match_def HasIndex_def by blast
  then show "recordOf B C db (n_id n) = Some (n_props n)"
    using findByPropertyIdx_record [OF k(2)] by (simp add: recordOf_def)
qed

end

section \<open>Indexes do not change the rows\<close>

definition same_outcome :: "gerr + CypherResult \<Rightarrow> gerr + CypherResult \<Rightarrow> bool" where
  "same_outcome r1 r2 = (case (r1, r2) of (Inl _, Inl _) \<Rightarrow> True
     | (Inr x, Inr y) \<Rightarrow> cr_Columns x = cr_Columns y \<and> mset (cr_Rows x) = mset (cr_Rows y)
     | _ \<Rightarrow> False)"

definition record_key :: "Node \<Rightarrow> NodeID \<times> Props" where "record_key n = (n_id n, n_props n)"

lemma record_key_same: "record_key m = record_key n \<longleftrightarrow> same_record m n"
  by (auto simp: record_key_def same_record_def)

lemma mset_record_key:
  assumes "distinct (map n_id ms)" "distinct (map n_id ns)" "record_key ` set ms = record_key ` set ns"
  shows "mset (map record_key ms) = mset (map record_key ns)"
proof -
  have d: "distinct (map record_key xs)" if "distinct (map n_id xs)" for xs
    using that by (auto simp: distinct_map inj_on_def record_key_def)
  show ?thesis using set_eq_iff_mset_eq_distinct [OF d [OF assms(1)] d [OF assms(2)]] assms(3) by (metis set_map)
qed

text \<open>Lists with the same records project to the same rows.\<close>

lemma project_same_records:
  assumes m: "mset (map record_key ms) = mset (map record_key ns)" and lf: "list_all (\<lambda>i. label_free (ri_Expr i)) (q_Return q)"
    and q: "q_OrderBy q = []" "q_Limit q \<le> 0"
  shows "same_outcome (projectResults C q ms v) (projectResults C q ns v)"
proof -
  let ?row = "\<lambda>n. projectRow C (q_Return q) [(v, CNode n)]"
  define f where "f k = ?row \<lparr>n_id = fst k, n_labels = [], n_props = snd k\<rparr>" for k
  have row: "?row n = f (record_key n)" for n
    unfolding f_def record_key_def by (rule row_same_record [OF _ lf]) (simp add: same_record_def)
  have pr: "projectResults C q xs v = ebind (emapM ?row xs) (\<lambda>rows. Inr (resultOf q rows))" for xs
    using q by (simp add: projectResults_def projectWith_def orderRows_def limitRows_def)
  have ok: "(\<exists>rows. emapM ?row xs = Inr rows) \<longleftrightarrow> (\<forall>k \<in># mset (map record_key xs). \<exists>r. f k = Inr r)" for xs
    by (induction xs) (auto simp: row)
  have val: "mset rows = image_mset (projr \<circ> f) (mset (map record_key xs))" if "emapM ?row xs = Inr rows" for xs rows
    using that by (induction xs arbitrary: rows) (auto simp: row)
  show ?thesis
  proof (cases "\<exists>rows. emapM ?row ms = Inr rows")
    case True
    then obtain r1 r2 where "emapM ?row ms = Inr r1" "emapM ?row ns = Inr r2" using ok [of ms] ok [of ns] m by metis
    moreover then have "mset r1 = mset r2" using val [of ms r1] val [of ns r2] m by simp
    ultimately show ?thesis by (simp add: pr same_outcome_def resultOf_def)
  next
    case False
    then have "\<not> (\<exists>rows. emapM ?row ns = Inr rows)" unfolding ok m .
    then obtain e1 e2 where "emapM ?row ms = Inl e1" "emapM ?row ns = Inl e2" using False by (metis obj_sumE)
    then show ?thesis by (simp add: pr same_outcome_def)
  qed
qed

lemma match_string_text: "compareValues C (CVal w) (CVal (VStr s)) = 0 \<Longrightarrow> fmtv C w = s"
proof -
  assume c: "compareValues C (CVal w) (CVal (VStr s)) = 0"
  show ?thesis
  proof (cases w)
    case VNil
    then show ?thesis using c by simp
  next
    case (VStr t)
    then show ?thesis using c by (simp add: strings_Compare_def split: if_splits)
  qed (use c in \<open>auto simp: compareValues_text same_type_def asString_def asBool_def Sprint_def strings_Compare_def split: if_splits\<close>)
qed

lemma hasValue_same_text: "text_eq C (snd x) q \<Longrightarrow> hasValue C p v x \<longleftrightarrow> (\<exists>w. map_of q p = Some w \<and> fmtv C w = fmtv C v)"
  unfolding hasValue_def same_text_def by (cases "map_of q p"; cases "map_of (snd x) p") (auto dest: spec [of _ p])

lemma matchProps_hasValue:
  assumes "matchProps C q ps" "(p, PVal (VStr s)) \<in> set ps" "text_eq C (snd x) q"
  shows "hasValue C p (VStr s) x"
proof -
  have "case map_of q p of None \<Rightarrow> False | Some w \<Rightarrow> compareValues C (CVal w) (CVal (VStr s)) = 0"
    using bspec [OF assms(1) [unfolded matchProps_def list_all_iff] assms(2)] by (simp add: pval_cval_def split: option.splits)
  then obtain w where "map_of q p = Some w" "compareValues C (CVal w) (CVal (VStr s)) = 0" by (auto split: option.splits)
  moreover then have "fmtv C w = s" by (intro match_string_text)
  ultimately show ?thesis using hasValue_same_text [OF assms(3)] by simp
qed

context graph_store
begin

lemma index_and_scan:
  assumes inv: "graph_inv B C db N G" and op: "\<not> db_closed db" and idx: "HasIndex db p"
    and plain: "texts_plain C (db_indexedProps db) N" "nul_free s" and p: "(p, PVal (VStr s)) \<in> set (np_Props np)"
  shows "\<exists>ms ns. FindByProperty B C p (VStr s) db = Inr ms \<and> distinct (map n_id ms) \<and> distinct (map n_id ns) \<and>
    (\<forall>fn :: Node \<Rightarrow> 's \<Rightarrow> (scanStop \<times> 's) + 's. \<forall>st. scanNodes B C fn db st = efold fn ns st) \<and>
    record_key ` {n \<in> set ms. matchProps C (n_props n) (np_Props np)} = record_key ` {n \<in> set ns. matchProps C (n_props n) (np_Props np)}"
proof -
  have rep: "nodes_rep B C (files db) N" using inv by (simp add: graph_inv_def)
  have plain2: "nul_free (fmtv C (VStr s))" using plain(2) by simp
  obtain ms where ms: "FindByProperty B C p (VStr s) db = Inr ms" "nodes_match C ms N (\<lambda>i. hasValue C p (VStr s))"
    using FindByProperty_match [OF inv op plain(1) plain2] by blast
  obtain ns where ns: "\<forall>fn :: Node \<Rightarrow> 's \<Rightarrow> (scanStop \<times> 's) + 's. \<forall>st. scanNodes B C fn db st = efold fn ns st" "distinct (map n_id ns)"
      "\<forall>i. i \<in> n_id ` set ns \<longleftrightarrow> N i \<noteq> None" "\<forall>n \<in> set ns. recordOf B C db (n_id n) = Some (n_props n)"
    using scan_records [OF inv, where ?'s = 's] by blast
  note mrec = index_records [OF inv op idx plain(1) plain2 ms(1)]
  have same: "record_key m = record_key n" if "m \<in> set ms" "n \<in> set ns" "n_id m = n_id n" for m n
    using mrec ns(4) that by (metis option.inject record_key_def)
  have "record_key ` {n \<in> set ms. matchProps C (n_props n) (np_Props np)} = record_key ` {n \<in> set ns. matchProps C (n_props n) (np_Props np)}"
  proof (intro subset_antisym subsetI)
    fix k assume "k \<in> record_key ` {n \<in> set ms. matchProps C (n_props n) (np_Props np)}"
    then obtain m where m: "m \<in> set ms" "matchProps C (n_props m) (np_Props np)" "k = record_key m" by blast
    then have "n_id m \<in> n_id ` set ms" by blast
    then have "N (n_id m) \<noteq> None" using ms(2) unfolding nodes_match_def by blast
    then obtain n where n: "n \<in> set ns" "n_id m = n_id n" using ns(3) by (metis imageE)
    then have "k = record_key n" "n_props n = n_props m" using same [OF m(1) n] m(3) by (auto simp: record_key_def)
    then show "k \<in> record_key ` {n \<in> set ns. matchProps C (n_props n) (np_Props np)}" using n(1) m(2) by (intro image_eqI [of _ _ n]) auto
  next
    fix k assume "k \<in> record_key ` {n \<in> set ns. matchProps C (n_props n) (np_Props np)}"
    then obtain n where n: "n \<in> set ns" "matchProps C (n_props n) (np_Props np)" "k = record_key n" by blast
    then obtain x where x: "N (n_id n) = Some x" using ns(3) by blast
    obtain q where q: "recordOf B C db (n_id n) = Some q" "text_eq C (snd x) q" using nodeAt_rep(1) [OF rep x] unfolding recordOf_def by blast
    then have "q = n_props n" using ns(4) n(1) by auto
    then have "hasValue C p (VStr s) x" using matchProps_hasValue [OF n(2) p] q(2) by simp
    then have "n_id n \<in> n_id ` set ms" using ms(2) x unfolding nodes_match_def by blast
    then obtain m where m: "m \<in> set ms" "n_id m = n_id n" by (metis imageE)
    then have "record_key m = k" "n_props m = n_props n" using same [OF m(1) n(1) m(2)] n(3) by (auto simp: record_key_def)
    then show "k \<in> record_key ` {n \<in> set ms. matchProps C (n_props n) (np_Props np)}" using m(1) n(2) by (intro image_eqI [of _ _ m]) auto
  qed
  then show ?thesis using ms ns(1,2) unfolding nodes_match_def by blast
qed

end

lemma distinct_ids_filter: "distinct (map n_id ns) \<Longrightarrow> distinct (map n_id (filter P ns))"
  by (simp add: distinct_map_filter)

lemma index_outcome:
  assumes d: "distinct (map n_id ms)" "distinct (map n_id ns)"
    and same: "record_key ` {n \<in> set ms. matchProps C (n_props n) (np_Props np)} = record_key ` {n \<in> set ns. matchProps C (n_props n) (np_Props np)}"
    and q: "q_OrderBy q = []" "q_Limit q \<le> 0" "qc_maxRows g \<le> 0" and lf: "list_all (\<lambda>i. label_free (ri_Expr i)) (q_Return q)" "pred_option label_free (q_Where q)"
  shows "same_outcome
     (ebind (selectNodes C (\<lambda>n. matchProps C (n_props n) (np_Props np)) (q_Where q) v (\<lambda>_. False) ms []) (\<lambda>nodes. projectResults C q nodes v))
     (ebind (scanResult (efold (scanStep C g q np v) ns ([], []))) (\<lambda>nodes. projectResults C q nodes v))"
proof -
  let ?m = "\<lambda>n. matchProps C (n_props n) (np_Props np)" and ?w = "\<lambda>n. whereOk C (q_Where q) [(v, CNode n)]"
  let ?sel = "selectNodes C ?m (q_Where q) v (\<lambda>_. False) ms []" and ?scan = "scanResult (efold (scanStep C g q np v) ns ([], []))"
  have w: "?w m = ?w n" if "record_key m = record_key n" for m n
    using where_same_record [OF _ lf(2)] that by (simp add: record_key_same)
  have mp: "?m m = ?m n" if "record_key m = record_key n" for m n using that by (simp add: record_key_def)
  have flt: "record_key ` {n \<in> set ms. ?m n \<and> P (?w n)} = record_key ` {n \<in> set ns. ?m n \<and> P (?w n)}" for P
  proof (intro subset_antisym subsetI)
    fix k assume "k \<in> record_key ` {n \<in> set ms. ?m n \<and> P (?w n)}"
    then obtain m where m: "m \<in> set ms" "?m m" "P (?w m)" "k = record_key m" by blast
    then have "k \<in> record_key ` {n \<in> set ns. ?m n}" using same by blast
    then obtain n where n: "n \<in> set ns" "?m n" "k = record_key n" by blast
    then have "P (?w n)" using w [of m n] m by simp
    then show "k \<in> record_key ` {n \<in> set ns. ?m n \<and> P (?w n)}" using n by blast
  next
    fix k assume "k \<in> record_key ` {n \<in> set ns. ?m n \<and> P (?w n)}"
    then obtain m where m: "m \<in> set ns" "?m m" "P (?w m)" "k = record_key m" by blast
    then have "k \<in> record_key ` {n \<in> set ms. ?m n}" using same by blast
    then obtain n where n: "n \<in> set ms" "?m n" "k = record_key n" by blast
    then have "P (?w n)" using w [of m n] m by simp
    then show "k \<in> record_key ` {n \<in> set ms. ?m n \<and> P (?w n)}" using n by blast
  qed
  have "(\<exists>r. ?sel = Inr r) \<longleftrightarrow> {n \<in> set ms. ?m n \<and> \<not> (\<exists>b. ?w n = Inr b)} = {}" unfolding selectNodes_all Collect_empty_eq by blast
  also have "\<dots> \<longleftrightarrow> {n \<in> set ns. ?m n \<and> \<not> (\<exists>b. ?w n = Inr b)} = {}" using flt [of "\<lambda>r. \<not> (\<exists>b. r = Inr b)"] by (metis (no_types, lifting) image_is_empty)
  also have "\<dots> \<longleftrightarrow> (\<exists>r. ?scan = Inr r)" unfolding scan_all [OF q(2,3)] Collect_empty_eq by blast
  finally have both: "(\<exists>r. ?sel = Inr r) \<longleftrightarrow> (\<exists>r. ?scan = Inr r)" .
  show ?thesis
  proof (cases "\<exists>r. ?sel = Inr r")
    case True
    then obtain r1 r2 where r: "?sel = Inr r1" "?scan = Inr r2" using both by blast
    have "r1 = filter (\<lambda>n. ?m n \<and> ?w n = Inr True) ms" "r2 = filter (\<lambda>n. ?m n \<and> ?w n = Inr True) ns"
      using selectNodes_filter [OF r(1)] scan_filter [OF q(2,3) r(2)] by simp_all
    then have "mset (map record_key r1) = mset (map record_key r2)"
      using flt [of "\<lambda>r. r = Inr True"] d by (intro mset_record_key) (auto simp: distinct_map_filter)
    then show ?thesis using project_same_records [OF _ lf(1) q(1,2)] r by simp
  next
    case False
    then obtain e1 e2 where "?sel = Inl e1" "?scan = Inl e2" using both by (metis obj_sumE)
    then show ?thesis by (simp add: same_outcome_def)
  qed
qed


definition demoConf :: qconf where
  "demoConf = \<lparr>qc_maxRows = 0, qc_EqualFold = (=), qc_floats = (\<lambda>_. (0, True))\<rparr>"

text \<open>\<open>MATCH (n {n: 'x'}) RETURN n.n\<close>\<close>

definition demoQuery :: CypherQuery where
  "demoQuery = \<lparr>q_Explain = ExplainNone,
     q_Match = \<lparr>pt_Nodes = [\<lparr>np_Variable = ''n'', np_Labels = [], np_Props = [(''n'', PVal (VStr ''x''))]\<rparr>], pt_Rels = []\<rparr>,
     q_Where = None, q_OptionalMatch = None, q_OptionalWhere = None, q_Set = [], q_Delete = [],
     q_Return = [\<lparr>ri_Expr = ExprPropAccess ''n'' ''n'', ri_Alias = []\<rparr>], q_OrderBy = [], q_Skip = 0, q_Limit = 0\<rparr>"


section \<open>ORDER BY with LIMIT\<close>

text \<open>
  C22. ORDER BY with LIMIT k returns the rows of k matches (of all, when there are fewer), in order, and none of the matches left
  out precedes one that was returned. The sort keys of a column must have one type, nil apart: across types the comparison is
  no order.
\<close>

theorem order_by_limit_selects_best:
  assumes "q_OrderBy q \<noteq> []" and "0 < q_Limit q" and "q_Limit q * 40 \<le> 2 ^ 48"
    and "uniform_keys (q_OrderBy q) (map (\<lambda>n. evalSortKey C (q_OrderBy q) [(v, CNode n)]) nodes)"
    and "projectResults C q nodes v = Inr res"
  shows "\<exists>chosen dropped. mset chosen + dropped = mset nodes \<and> length chosen = min (nat (q_Limit q)) (length nodes) \<and>
      ordered_by C (q_OrderBy q) (\<lambda>n. [(v, CNode n)]) chosen \<and>
      (\<forall>c \<in> set chosen. \<forall>d \<in># dropped. \<not> isBetter C (q_OrderBy q) (evalSortKey C (q_OrderBy q) [(v, CNode d)]) (evalSortKey C (q_OrderBy q) [(v, CNode c)])) \<and>
      list_all2 (\<lambda>n row. projectRow C (q_Return q) [(v, CNode n)] = Inr row) chosen (cr_Rows res)"
  using assms(5) unfolding projectResults_def by (rule projectWith_top [OF assms(1-4)])

definition demoNode :: "nat \<Rightarrow> string \<Rightarrow> Node" where
  "demoNode i x = \<lparr>n_id = of_nat i, n_labels = [], n_props = [(''x'', VStr x)]\<rparr>"

text \<open>\<open>... RETURN n.x AS x ORDER BY n.x DESC LIMIT 2\<close>\<close>

definition demoOrdered :: CypherQuery where
  "demoOrdered = demoQuery\<lparr>q_Return := [\<lparr>ri_Expr = ExprPropAccess ''n'' ''x'', ri_Alias = ''x''\<rparr>],
     q_OrderBy := [\<lparr>oi_Expr = ExprPropAccess ''n'' ''x'', oi_Desc = True\<rparr>], q_Limit := 2\<rparr>"

theorem order_by_limit_selects_best_witness:
  "\<exists>res. projectResults str_codec demoOrdered [demoNode 1 ''a'', demoNode 2 ''c'', demoNode 3 ''b''] ''n'' = Inr res \<and>
     cr_Rows res = [[(''x'', CVal (VStr ''c''))], [(''x'', CVal (VStr ''b''))]] \<and> length (cr_Rows res) = min 2 3"
proof -
  let ?ns = "[demoNode 1 ''a'', demoNode 2 ''c'', demoNode 3 ''b'']"
  have "(case projectResults str_codec demoOrdered ?ns ''n'' of Inl e \<Rightarrow> False
      | Inr r \<Rightarrow> cr_Rows r = [[(''x'', CVal (VStr ''c''))], [(''x'', CVal (VStr ''b''))]])" by code_simp
  then obtain res where res: "projectResults str_codec demoOrdered ?ns ''n'' = Inr res"
      "cr_Rows res = [[(''x'', CVal (VStr ''c''))], [(''x'', CVal (VStr ''b''))]]" by (auto split: sum.splits)
  have "uniform_keys (q_OrderBy demoOrdered) (map (\<lambda>n. evalSortKey str_codec (q_OrderBy demoOrdered) [(''n'', CNode n)]) ?ns)"
    by (simp add: demoOrdered_def uniform_keys_def uniform_def evalSortKey_def demoNode_def getProperty_def orNil_def is_str_def)
  then have "length (cr_Rows res) = min 2 3"
    using order_by_limit_selects_best [OF _ _ _ _ res(1)] by (auto simp: demoOrdered_def list_all2_lengthD)
  then show ?thesis using res by blast
qed

section \<open>Rows that are not those asked for\<close>

lemma skip_fields:
  "q_Match (q\<lparr>q_Skip := n\<rparr>) = q_Match q" "q_Where (q\<lparr>q_Skip := n\<rparr>) = q_Where q" "q_OptionalMatch (q\<lparr>q_Skip := n\<rparr>) = q_OptionalMatch q"
  "q_OptionalWhere (q\<lparr>q_Skip := n\<rparr>) = q_OptionalWhere q" "q_Return (q\<lparr>q_Skip := n\<rparr>) = q_Return q" "q_OrderBy (q\<lparr>q_Skip := n\<rparr>) = q_OrderBy q"
  "q_Limit (q\<lparr>q_Skip := n\<rparr>) = q_Limit q" "q_Explain (q\<lparr>q_Skip := n\<rparr>) = q_Explain q"
  by simp_all

lemma skip_limit: "limitHit (q\<lparr>q_Skip := n\<rparr>) = limitHit q"
  unfolding limitHit_def skip_fields ..

lemma skip_recursions:
  "hopEdges B C g (q\<lparr>q_Skip := n\<rparr>) vs a es rows db = hopEdges B C g q vs a es rows db"
  "hopNodes B C g (q\<lparr>q_Skip := n\<rparr>) vs ctx as rows db = hopNodes B C g q vs ctx as rows db"
  "typeScan B C g (q\<lparr>q_Skip := n\<rparr>) vs d k ks rows ctx db = typeScan B C g q vs d k ks rows ctx db"
  "typeShards B C g (q\<lparr>q_Skip := n\<rparr>) vs ss rows ctx db = typeShards B C g q vs ss rows ctx db"
  "varNodes B C g (q\<lparr>q_Skip := n\<rparr>) vs ctx as rows db = varNodes B C g q vs ctx as rows db"
  "mainHops B C g (q\<lparr>q_Skip := n\<rparr>) as bss db = mainHops B C g q as bss db"
proof -
  note l = skip_limit
  have v: "varVisitor C g (q\<lparr>q_Skip := n\<rparr>) = varVisitor C g q" by (intro ext) (unfold varVisitor_def skip_fields l, rule refl)
  have r: "edgeTypeRow B C (q\<lparr>q_Skip := n\<rparr>) = edgeTypeRow B C q" by (intro ext) (unfold edgeTypeRow_def skip_fields, rule refl)
  show e: "hopEdges B C g (q\<lparr>q_Skip := n\<rparr>) vs a es rows db = hopEdges B C g q vs a es rows db" for a es rows db
    by (induction es arbitrary: rows db) (simp_all add: l Let_def split: sum.split prod.split)
  show "hopNodes B C g (q\<lparr>q_Skip := n\<rparr>) vs ctx as rows db = hopNodes B C g q vs ctx as rows db"
    by (induction "as" arbitrary: ctx rows db) (simp_all add: l e split: sum.split prod.split bool.split)
  show t: "typeScan B C g (q\<lparr>q_Skip := n\<rparr>) vs d k ks rows ctx db = typeScan B C g q vs d k ks rows ctx db" for d k ks rows ctx db
    by (induction ks arbitrary: rows ctx db) (simp_all add: l r split: sum.split prod.split bool.split option.split)
  show "typeShards B C g (q\<lparr>q_Skip := n\<rparr>) vs ss rows ctx db = typeShards B C g q vs ss rows ctx db"
    by (induction ss arbitrary: rows ctx db) (simp_all add: l t Let_def split: prod.split option.split scanStop.split)
  show "varNodes B C g (q\<lparr>q_Skip := n\<rparr>) vs ctx as rows db = varNodes B C g q vs ctx as rows db"
    by (induction "as" arbitrary: ctx rows db) (simp_all add: l v Let_def split: sum.split prod.split bool.split)
  show "mainHops B C g (q\<lparr>q_Skip := n\<rparr>) as bss db = mainHops B C g q as bss db"
    by (induction "as" arbitrary: bss db) (simp_all add: Let_def split: sum.split prod.split)
qed

lemma skip_project: "projectWith C (q\<lparr>q_Skip := n\<rparr>) bind xs = projectWith C q bind xs" "projectBindings C (q\<lparr>q_Skip := n\<rparr>) rows = projectBindings C q rows"
  unfolding projectWith_def projectBindings_def resultOf_def orderRows_def skip_fields by (rule refl)+

lemma skip_node_match: "execNodeMatch B C g ctx (q\<lparr>q_Skip := n\<rparr>) db = execNodeMatch B C g ctx q db"
proof -
  have s: "scanStep C g (q\<lparr>q_Skip := n\<rparr>) = scanStep C g q" by (intro ext) (unfold scanStep_def skip_fields skip_limit, rule refl)
  show ?thesis
    unfolding execNodeMatch_def execNodeMatchWithIndex_def execNodeMatchWhereIndexed_def execNodeScan_def projectResults_def skip_fields skip_limit skip_project s
    by (rule refl)
qed

text \<open>
  C23. SKIP has no effect: the parser reads the clause into the query, and no execution path looks at it. Every query returns the
  same rows, plan and error with any SKIP.
\<close>

theorem skip_is_ignored:
  "executeCypher B C g ctx (q\<lparr>q_Skip := n\<rparr>) db = executeCypher B C g ctx q db"
proof -
  have p: "buildPlan C db (q\<lparr>q_Skip := n\<rparr>) = buildPlan C db q" for db :: "'a DB"
    unfolding buildPlan_def buildVarLengthPlan_def buildSingleHopPlan_def skip_fields by (rule refl)
  have normal: "executeCypherNormal B C g ctx (q'\<lparr>q_Skip := n\<rparr>) db = executeCypherNormal B C g ctx q' db" for q' and db :: "'a DB"
    unfolding executeCypherNormal_def execWithOptionalMatch_def collectMainBindings_def execVarLengthMatch_def execSingleHopMatch_def
      execSingleHopByEdgeType_def projectHop_def projectPatternResults_def skip_fields skip_node_match skip_recursions skip_project by (rule refl)
  have swap: "q\<lparr>q_Skip := n, q_Explain := ExplainNone\<rparr> = (q\<lparr>q_Explain := ExplainNone\<rparr>)\<lparr>q_Skip := n\<rparr>" by simp
  show ?thesis unfolding executeCypher_def skip_fields p normal swap by (rule refl)
qed

text \<open>Unless the edge-type index is used, the labels of the target node play no role.\<close>

lemma hop_ignores_target_labels:
  assumes q: "q_Match q = \<lparr>pt_Nodes = [a, b], pt_Rels = [r]\<rparr>" and path: "np_Props a \<noteq> [] \<or> rp_Label r = [] \<or> rp_Dir r \<noteq> Outgoing"
  shows "execSingleHopMatch B C g ctx (q\<lparr>q_Match := \<lparr>pt_Nodes = [a, b\<lparr>np_Labels := ls\<rparr>], pt_Rels = [r]\<rparr>\<rparr>) db = execSingleHopMatch B C g ctx q db"
proof -
  let ?q = "q\<lparr>q_Match := \<lparr>pt_Nodes = [a, b\<lparr>np_Labels := ls\<rparr>], pt_Rels = [r]\<rparr>\<rparr>"
  have f: "q_Match ?q = \<lparr>pt_Nodes = [a, b\<lparr>np_Labels := ls\<rparr>], pt_Rels = [r]\<rparr>" "q_Where ?q = q_Where q" "q_Return ?q = q_Return q"
    "q_OrderBy ?q = q_OrderBy q" "q_Limit ?q = q_Limit q" by simp_all
  have l: "limitHit ?q = limitHit q" unfolding limitHit_def f ..
  have v: "hopVars (q_Match ?q) = hopVars (q_Match q)" by (simp add: hopVars_def q)
  have e: "hopEdges B C g ?q vs n es rows db = hopEdges B C g q vs n es rows db" for vs n es rows db
    by (induction es arbitrary: rows db) (simp_all add: l q Let_def split: sum.split prod.split)
  have h: "hopNodes B C g ?q vs ctx ns rows db = hopNodes B C g q vs ctx ns rows db" for vs ctx ns rows db
    by (induction ns arbitrary: ctx rows db) (simp_all add: l e q split: sum.split prod.split bool.split)
  have p: "projectHop C ?q vs x = projectHop C q vs x" for vs and x :: "(gerr + resultRow list) \<times> 'a DB"
    unfolding projectHop_def projectPatternResults_def projectWith_def resultOf_def orderRows_def f ..
  show ?thesis using path unfolding execSingleHopMatch_def v p h by (auto simp: q Let_def)
qed

text \<open>In a match of any direction an incoming edge leads back to the node it was read from.\<close>

lemma undirected_hop_stays: "rp_Dir r = Both \<Longrightarrow> e_to e = n_id a \<Longrightarrow> hopTarget r e = n_id a"
  by (simp add: hopTarget_def)

text \<open>Without LIMIT, an order by expressions that no column shows does nothing.\<close>

lemma order_by_hidden_expression:
  assumes "\<And>oi row. oi \<in> set (q_OrderBy q) \<Longrightarrow> row \<in> set rows \<Longrightarrow> evalRowExpr (oi_Expr oi) row = CNil"
  shows "sortRows C (q_OrderBy q) rows = rows"
proof -
  have no: "\<not> rowLess C ois r1 r2" if "set ois \<subseteq> set (q_OrderBy q)" "r1 \<in> set rows" "r2 \<in> set rows" for ois r1 r2
    using that assms by (induction ois) auto
  have "fold (insertBack (rowLess C (q_OrderBy q))) xs acc = rev xs @ acc" if "set xs \<subseteq> set rows" "set acc \<subseteq> set rows" for xs acc
    using that
  proof (induction xs arbitrary: acc)
    case (Cons x xs)
    have "insertBack (rowLess C (q_OrderBy q)) x acc = x # acc" using Cons.prems no by (cases acc) auto
    then show ?case using Cons by simp
  qed simp
  from this [of rows "[]"] show ?thesis by (simp add: sortRows_def SliceStable_def)
qed

end
