(* ===== verification/QueryEngine.thy ===== *)
theory QueryEngine
  imports QueryMutate QueryProps
begin

text \<open>
  The entry points of Cypher (cypher_exec.go, cypher_cache.go, cypher_write.go): the bounded cache of parsed queries, parameters,
  prepared queries and the dispatch of a query text.

  Syntax trees are shared through pointers: a cache entry and a prepared query point to the same tree, and resolving parameters
  writes into it, because only the outermost struct is copied. Trees therefore live in a store, and a pointer is an index into it.
  As in the node cache, a pointer to a cache entry is the key of the entry.
\<close>

section \<open>The cache of parsed queries\<close>

record queryCacheEntry =
  qe_ast :: "nat option"
  qe_prev :: "string option"
  qe_next :: "string option"

record queryCache =
  qc_items :: "(string \<times> queryCacheEntry) list"
  qc_head :: "string option"
  qc_tail :: "string option"
  qc_capacity :: int
  qc_hits :: nat
  qc_misses :: nat

definition newQueryCache :: "int \<Rightarrow> queryCache" where
  "newQueryCache capacity = \<lparr>qc_items = [], qc_head = None, qc_tail = None,
     qc_capacity = (if capacity \<le> 0 then 10000 else capacity), qc_hits = 0, qc_misses = 0\<rparr>"

definition updQuery :: "string option \<Rightarrow> (queryCacheEntry \<Rightarrow> queryCacheEntry) \<Rightarrow> (string \<times> queryCacheEntry) list \<Rightarrow> (string \<times> queryCacheEntry) list" where
  "updQuery p f items = (case p of None \<Rightarrow> items | Some k \<Rightarrow> map (\<lambda>(k', e). (k', if k' = k then f e else e)) items)"

definition qc_pushFront :: "string \<Rightarrow> queryCache \<Rightarrow> queryCache" where
  "qc_pushFront k c =
     (let items1 = updQuery (Some k) (\<lambda>e. e\<lparr>qe_prev := None, qe_next := qc_head c\<rparr>) (qc_items c);
          items2 = updQuery (qc_head c) (\<lambda>e. e\<lparr>qe_prev := Some k\<rparr>) items1
      in c\<lparr>qc_items := items2, qc_head := Some k, qc_tail := (if qc_tail c = None then Some k else qc_tail c)\<rparr>)"

definition qc_removeEntry :: "string \<Rightarrow> queryCache \<Rightarrow> queryCache" where
  "qc_removeEntry k c = (case map_of (qc_items c) k of None \<Rightarrow> c
     | Some e \<Rightarrow>
        let items1 = updQuery (qe_prev e) (\<lambda>p. p\<lparr>qe_next := qe_next e\<rparr>) (qc_items c);
            head1 = (if qe_prev e = None then qe_next e else qc_head c);
            items2 = updQuery (qe_next e) (\<lambda>n. n\<lparr>qe_prev := qe_prev e\<rparr>) items1;
            tail1 = (if qe_next e = None then qe_prev e else qc_tail c);
            items3 = updQuery (Some k) (\<lambda>e. e\<lparr>qe_prev := None, qe_next := None\<rparr>) items2
        in c\<lparr>qc_items := items3, qc_head := head1, qc_tail := tail1\<rparr>)"

definition qc_moveToFront :: "string \<Rightarrow> queryCache \<Rightarrow> queryCache" where
  "qc_moveToFront k c = (if qc_head c = Some k then c else qc_pushFront k (qc_removeEntry k c))"

definition qc_evictLRU :: "queryCache \<Rightarrow> queryCache" where
  "qc_evictLRU c = (case qc_tail c of None \<Rightarrow> c
     | Some victim \<Rightarrow> let c1 = qc_removeEntry victim c in c1\<lparr>qc_items := AList.delete victim (qc_items c1)\<rparr>)"

definition qc_get :: "string \<Rightarrow> queryCache \<Rightarrow> nat option \<times> queryCache" where
  "qc_get query c = (case map_of (qc_items c) query of
       None \<Rightarrow> (None, c\<lparr>qc_misses := qc_misses c + 1\<rparr>)
     | Some e \<Rightarrow> (qe_ast e, qc_moveToFront query (c\<lparr>qc_hits := qc_hits c + 1\<rparr>)))"

definition qc_put :: "string \<Rightarrow> nat option \<Rightarrow> queryCache \<Rightarrow> queryCache" where
  "qc_put query ast c = (case map_of (qc_items c) query of
       Some _ \<Rightarrow> qc_moveToFront query (c\<lparr>qc_items := updQuery (Some query) (\<lambda>e. e\<lparr>qe_ast := ast\<rparr>) (qc_items c)\<rparr>)
     | None \<Rightarrow>
         let c1 = qc_pushFront query (c\<lparr>qc_items := (query, \<lparr>qe_ast = ast, qe_prev = None, qe_next = None\<rparr>) # qc_items c\<rparr>)
         in if qc_capacity c1 < int (length (qc_items c1)) then qc_evictLRU c1 else c1)"

definition qc_stats :: "queryCache \<Rightarrow> nat \<times> int \<times> nat \<times> nat" where
  "qc_stats c = (length (qc_items c), qc_capacity c, qc_hits c, qc_misses c)"

section \<open>Parameters\<close>

definition missingParam :: "string \<Rightarrow> gerr" where
  "missingParam p = ErrMsg (''graphdb: missing parameter $'' @ p)"

text \<open>The tree as it is left in memory, and the error if a parameter is missing; what was resolved before stays resolved.\<close>

fun resolveExprParams :: "(string \<times> val) list \<Rightarrow> Expression \<Rightarrow> gerr option \<times> Expression"
  and resolveExprList :: "(string \<times> val) list \<Rightarrow> Expression list \<Rightarrow> gerr option \<times> Expression list" where
  "resolveExprParams ps (ExprParam p) = (case map_of ps p of None \<Rightarrow> (Some (missingParam p), ExprParam p) | Some v \<Rightarrow> (None, ExprLiteral v))"
| "resolveExprParams ps (ExprComparison l op r) = (case resolveExprParams ps l of
       (Some e, l') \<Rightarrow> (Some e, ExprComparison l' op r)
     | (None, l') \<Rightarrow> (case resolveExprParams ps r of (err, r') \<Rightarrow> (err, ExprComparison l' op r')))"
| "resolveExprParams ps (ExprAnd es) = (case resolveExprList ps es of (err, es') \<Rightarrow> (err, ExprAnd es'))"
| "resolveExprParams ps (ExprOr es) = (case resolveExprList ps es of (err, es') \<Rightarrow> (err, ExprOr es'))"
| "resolveExprParams ps (ExprNot e) = (case resolveExprParams ps e of (err, e') \<Rightarrow> (err, ExprNot e'))"
| "resolveExprParams ps (ExprFuncCall f es) = (case resolveExprList ps es of (err, es') \<Rightarrow> (err, ExprFuncCall f es'))"
| "resolveExprParams ps e = (None, e)"
| "resolveExprList ps [] = (None, [])"
| "resolveExprList ps (e # es) = (case resolveExprParams ps e of
       (Some err, e') \<Rightarrow> (Some err, e' # es)
     | (None, e') \<Rightarrow> (case resolveExprList ps es of (err, es') \<Rightarrow> (err, e' # es')))"

fun resolveProps :: "(string \<times> val) list \<Rightarrow> (string \<times> pval) list \<Rightarrow> gerr option \<times> (string \<times> pval) list" where
  "resolveProps ps [] = (None, [])"
| "resolveProps ps ((k, PVal v) # kvs) = (case resolveProps ps kvs of (err, kvs') \<Rightarrow> (err, (k, PVal v) # kvs'))"
| "resolveProps ps ((k, ParamRef p) # kvs) = (case map_of ps p of
       None \<Rightarrow> (Some (missingParam p), (k, ParamRef p) # kvs)
     | Some v \<Rightarrow> (case resolveProps ps kvs of (err, kvs') \<Rightarrow> (err, (k, PVal v) # kvs')))"

fun resolveNodes :: "(string \<times> val) list \<Rightarrow> NodePattern list \<Rightarrow> gerr option \<times> NodePattern list" where
  "resolveNodes ps [] = (None, [])"
| "resolveNodes ps (np # nps) = (case resolveProps ps (np_Props np) of
       (Some err, props) \<Rightarrow> (Some err, np\<lparr>np_Props := props\<rparr> # nps)
     | (None, props) \<Rightarrow> (case resolveNodes ps nps of (err, nps') \<Rightarrow> (err, np\<lparr>np_Props := props\<rparr> # nps')))"

fun resolveItems :: "(string \<times> val) list \<Rightarrow> ReturnItem list \<Rightarrow> gerr option \<times> ReturnItem list" where
  "resolveItems ps [] = (None, [])"
| "resolveItems ps (i # is) = (case resolveExprParams ps (ri_Expr i) of
       (Some err, e) \<Rightarrow> (Some err, i\<lparr>ri_Expr := e\<rparr> # is)
     | (None, e) \<Rightarrow> (case resolveItems ps is of (err, is') \<Rightarrow> (err, i\<lparr>ri_Expr := e\<rparr> # is')))"

definition resolveWhere :: "(string \<times> val) list \<Rightarrow> Expression option \<Rightarrow> gerr option \<times> Expression option" where
  "resolveWhere ps w = (case w of None \<Rightarrow> (None, None) | Some e \<Rightarrow> (case resolveExprParams ps e of (err, e') \<Rightarrow> (err, Some e')))"

definition resolveParams :: "(string \<times> val) list \<Rightarrow> CypherQuery \<Rightarrow> gerr option \<times> CypherQuery" where
  "resolveParams ps q = (case resolveNodes ps (pt_Nodes (q_Match q)) of
     (err1, nodes) \<Rightarrow>
       let q1 = q\<lparr>q_Match := (q_Match q)\<lparr>pt_Nodes := nodes\<rparr>\<rparr>
       in if err1 \<noteq> None then (err1, q1)
          else (case resolveWhere ps (q_Where q1) of
            (err2, w) \<Rightarrow>
              let q2 = q1\<lparr>q_Where := w\<rparr>
              in if err2 \<noteq> None then (err2, q2)
                 else (case resolveItems ps (q_Return q2) of (err3, items) \<Rightarrow> (err3, q2\<lparr>q_Return := items\<rparr>))))"

section \<open>Entry points\<close>

record 'b engine =
  en_db :: "'b DB"
  en_cache :: queryCache
  en_asts :: "CypherQuery list"

record PreparedQuery =
  pq_raw :: string
  pq_ast :: "nat option"

definition lookupQuery :: "string \<Rightarrow> 'b engine \<Rightarrow> nat option \<times> 'b engine" where
  "lookupQuery query en = (case qc_get query (en_cache en) of (a, c) \<Rightarrow> (a, en\<lparr>en_cache := c\<rparr>))"

text \<open>Put a tree that was just parsed, or nil, into the cache.\<close>

definition cacheQuery :: "string \<Rightarrow> CypherQuery option \<Rightarrow> 'b engine \<Rightarrow> nat option \<times> 'b engine" where
  "cacheQuery query q en = (case q of
       None \<Rightarrow> (None, en\<lparr>en_cache := qc_put query None (en_cache en)\<rparr>)
     | Some t \<Rightarrow> (let a = length (en_asts en) in (Some a, en\<lparr>en_asts := en_asts en @ [t], en_cache := qc_put query (Some a) (en_cache en)\<rparr>)))"

definition runQuery :: "'b bolt \<Rightarrow> codec \<Rightarrow> qconf \<Rightarrow> ctx \<Rightarrow> CypherQuery \<Rightarrow> 'b engine \<Rightarrow> (gerr + CypherResult) \<times> 'b engine" where
  "runQuery B C g ctx q en = (case executeCypher B C g ctx q (en_db en) of (r, db) \<Rightarrow> (r, en\<lparr>en_db := db\<rparr>))"

text \<open>Following a nil pointer to a tree panics, which the caller reports as an error.\<close>

definition runAst :: "'b bolt \<Rightarrow> codec \<Rightarrow> qconf \<Rightarrow> ctx \<Rightarrow> nat option \<Rightarrow> 'b engine \<Rightarrow> (gerr + CypherResult) \<times> 'b engine" where
  "runAst B C g ctx a en = (case a of None \<Rightarrow> (Inl ErrPanic, en) | Some k \<Rightarrow> runQuery B C g ctx (en_asts en ! k) en)"

text \<open>Resolve the parameters of a shallow copy: the tree in the store changes with it. The copy is then executed.\<close>

definition runWithParams :: "'b bolt \<Rightarrow> codec \<Rightarrow> qconf \<Rightarrow> ctx \<Rightarrow> (string \<times> val) list \<Rightarrow> nat option \<Rightarrow> 'b engine \<Rightarrow> (gerr + CypherResult) \<times> 'b engine" where
  "runWithParams B C g ctx params a en = (case a of None \<Rightarrow> (Inl ErrPanic, en)
     | Some k \<Rightarrow> (case resolveParams params (en_asts en ! k) of
         (err, q) \<Rightarrow> let en1 = en\<lparr>en_asts := (en_asts en)[k := q]\<rparr>
           in (case err of Some e \<Rightarrow> (Inl e, en1) | None \<Rightarrow> runQuery B C g ctx q en1)))"

definition parseError :: gerr where "parseError = ErrMsg ''cypher: parse error''"

text \<open>
  \<open>Cypher\<close>. The result is \<open>None\<close> where a SET is outside the model.
\<close>

definition Cypher :: "'b bolt \<Rightarrow> codec \<Rightarrow> wcodec \<Rightarrow> qconf \<Rightarrow> ctx \<Rightarrow> string \<Rightarrow> 'b engine \<Rightarrow> ((gerr + CypherResult) \<times> 'b engine) option" where
  "Cypher B C W g ctx query en =
     (if db_closed (en_db en) then Some (Inl ErrClosed, en)
      else case lookupQuery query en of
             (Some a, en1) \<Rightarrow> Some (runAst B C g ctx (Some a) en1)
           | (None, en1) \<Rightarrow>
               (case parseCypher (qc_floats g) query of
                  Inl _ \<Rightarrow> Some (Inl parseError, en1)
                | Inr (CWrite w) \<Rightarrow> Some (case executeCreate B C W ctx w (en_db en1) of
                      (r, db) \<Rightarrow> (ebind r (\<lambda>cr. Inr \<lparr>cr_Columns = ccr_Columns cr, cr_Rows = ccr_Rows cr, cr_Plan = None\<rparr>), en1\<lparr>en_db := db\<rparr>))
                | Inr (CMerge m) \<Rightarrow> Some (case executeMerge B C W m (en_db en1) of (r, db) \<Rightarrow> (r, en1\<lparr>en_db := db\<rparr>))
                | Inr (CRead q) \<Rightarrow>
                    if q_Set q \<noteq> [] \<or> q_Delete q \<noteq> [] then
                      (case writeGuard (en_db en1) of
                         Some e \<Rightarrow> Some (Inl e, en1)
                       | None \<Rightarrow> map_option (\<lambda>(r, db). (r, en1\<lparr>en_db := db\<rparr>)) (executeCypherMutating B C W g ctx q (en_db en1)))
                    else (case cacheQuery query (Some q) en1 of (a, en2) \<Rightarrow> Some (runAst B C g ctx a en2))))"

text \<open>The tree of a query for the entry points that take it from the cache or parse and cache it; a MERGE query has none.\<close>

definition astFor :: "qconf \<Rightarrow> gerr \<Rightarrow> string \<Rightarrow> 'b engine \<Rightarrow> (gerr + nat option) \<times> 'b engine" where
  "astFor g createError query en = (case lookupQuery query en of
       (Some a, en1) \<Rightarrow> (Inr (Some a), en1)
     | (None, en1) \<Rightarrow> (case parseCypher (qc_floats g) query of
           Inl _ \<Rightarrow> (Inl parseError, en1)
         | Inr (CWrite _) \<Rightarrow> (Inl createError, en1)
         | Inr (CMerge _) \<Rightarrow> (case cacheQuery query None en1 of (a, en2) \<Rightarrow> (Inr a, en2))
         | Inr (CRead q) \<Rightarrow> (case cacheQuery query (Some q) en1 of (a, en2) \<Rightarrow> (Inr a, en2))))"

definition CypherWithParams :: "'b bolt \<Rightarrow> codec \<Rightarrow> qconf \<Rightarrow> ctx \<Rightarrow> string \<Rightarrow> (string \<times> val) list \<Rightarrow> 'b engine \<Rightarrow> (gerr + CypherResult) \<times> 'b engine" where
  "CypherWithParams B C g ctx query params en =
     (if db_closed (en_db en) then (Inl ErrClosed, en)
      else case astFor g (ErrMsg ''cypher exec: parameterized CREATE queries are not supported'') query en of
             (Inl e, en1) \<Rightarrow> (Inl e, en1)
           | (Inr a, en1) \<Rightarrow> runWithParams B C g ctx params a en1)"

definition PrepareCypher :: "qconf \<Rightarrow> string \<Rightarrow> 'b engine \<Rightarrow> (gerr + PreparedQuery) \<times> 'b engine" where
  "PrepareCypher g query en =
     (if db_closed (en_db en) then (Inl ErrClosed, en)
      else case astFor g (ErrMsg ''graphdb: PrepareCypher does not support CREATE queries'') query en of
             (Inl e, en1) \<Rightarrow> (Inl e, en1)
           | (Inr a, en1) \<Rightarrow> (Inr \<lparr>pq_raw = query, pq_ast = a\<rparr>, en1))"

definition ExecutePrepared :: "'b bolt \<Rightarrow> codec \<Rightarrow> qconf \<Rightarrow> ctx \<Rightarrow> PreparedQuery \<Rightarrow> 'b engine \<Rightarrow> (gerr + CypherResult) \<times> 'b engine" where
  "ExecutePrepared B C g ctx pq en = (if db_closed (en_db en) then (Inl ErrClosed, en) else runAst B C g ctx (pq_ast pq) en)"

definition ExecutePreparedWithParams :: "'b bolt \<Rightarrow> codec \<Rightarrow> qconf \<Rightarrow> ctx \<Rightarrow> PreparedQuery \<Rightarrow> (string \<times> val) list \<Rightarrow> 'b engine \<Rightarrow> (gerr + CypherResult) \<times> 'b engine" where
  "ExecutePreparedWithParams B C g ctx pq params en =
     (if db_closed (en_db en) then (Inl ErrClosed, en)
      else if params = [] then runAst B C g ctx (pq_ast pq) en
      else runWithParams B C g ctx params (pq_ast pq) en)"

definition CypherCreate :: "'b bolt \<Rightarrow> codec \<Rightarrow> wcodec \<Rightarrow> qconf \<Rightarrow> ctx \<Rightarrow> string \<Rightarrow> 'b DB \<Rightarrow> (gerr + CypherCreateResult) \<times> 'b DB" where
  "CypherCreate B C W g ctx query db =
     (if db_closed db then (Inl ErrClosed, db)
      else case parseCypher (qc_floats g) query of
             Inl _ \<Rightarrow> (Inl parseError, db)
           | Inr (CWrite w) \<Rightarrow> executeCreate B C W ctx w db
           | Inr _ \<Rightarrow> (Inl (ErrMsg ''cypher exec: expected CREATE query, got MATCH''), db))"

end
