(* ===== verification/EngineProps.thy ===== *)
theory EngineProps
  imports QueryEngine
begin

text \<open>
  Properties of the Cypher entry points: what a write or read does to the database is a sequence of operations of the store, and
  parameters stay in the cached syntax tree.
\<close>

section \<open>The content of the query cache\<close>

definition astOf :: "queryCache \<Rightarrow> string \<Rightarrow> nat option option" where
  "astOf c k = map_option qe_ast (map_of (qc_items c) k)"

lemma map_of_updQuery: "map_of (updQuery p f xs) k = (if p = Some k then map_option f (map_of xs k) else map_of xs k)"
  by (induction xs) (auto simp: updQuery_def split: option.splits if_splits)

lemma astOf_pushFront [simp]: "astOf (qc_pushFront k c) = astOf c"
  by (auto simp: astOf_def qc_pushFront_def Let_def map_of_updQuery option.map_comp comp_def intro!: ext)

lemma astOf_removeEntry [simp]: "astOf (qc_removeEntry k c) = astOf c"
  by (auto simp: astOf_def qc_removeEntry_def Let_def map_of_updQuery option.map_comp comp_def split: option.splits intro!: ext)

lemma astOf_moveToFront [simp]: "astOf (qc_moveToFront k c) = astOf c"
  by (simp add: qc_moveToFront_def)

lemma astOf_evict: "astOf (qc_evictLRU c) = (case qc_tail c of None \<Rightarrow> astOf c | Some v \<Rightarrow> (astOf c)(v := None))"
proof (cases "qc_tail c")
  case (Some v)
  have "astOf ((qc_removeEntry v c)\<lparr>qc_items := AList.delete v (qc_items (qc_removeEntry v c))\<rparr>) = (astOf (qc_removeEntry v c))(v := None)"
  proof
    fix x show "astOf ((qc_removeEntry v c)\<lparr>qc_items := AList.delete v (qc_items (qc_removeEntry v c))\<rparr>) x = ((astOf (qc_removeEntry v c))(v := None)) x"
      unfolding astOf_def by (simp add: delete_conv')
  qed
  then show ?thesis using Some by (simp add: qc_evictLRU_def Let_def)
qed (simp add: qc_evictLRU_def)

lemma astOf_hits [simp]: "astOf (c\<lparr>qc_hits := n\<rparr>) = astOf c" "astOf (c\<lparr>qc_misses := n\<rparr>) = astOf c"
  by (simp_all add: astOf_def fun_eq_iff)

lemma qc_get_ast: "fst (qc_get k c) = (case astOf c k of Some a \<Rightarrow> a | None \<Rightarrow> None)" "astOf (snd (qc_get k c)) = astOf c"
  by (simp_all add: qc_get_def split: option.split) (simp add: astOf_def split: option.split)

lemma qc_put_ast: "astOf (qc_put k a c) j = Some b \<Longrightarrow> j = k \<and> b = a \<or> j \<noteq> k \<and> astOf c j = Some b"
proof (cases "map_of (qc_items c) k")
  case None
  assume b: "astOf (qc_put k a c) j = Some b"
  define c1 where "c1 = qc_pushFront k (c\<lparr>qc_items := (k, \<lparr>qe_ast = a, qe_prev = None, qe_next = None\<rparr>) # qc_items c\<rparr>)"
  have c1: "astOf c1 = (astOf c)(k := Some a)" unfolding c1_def astOf_pushFront by (simp add: astOf_def fun_eq_iff)
  have "qc_put k a c = (if qc_capacity c1 < int (length (qc_items c1)) then qc_evictLRU c1 else c1)"
    using None by (simp add: qc_put_def c1_def Let_def)
  then have "astOf c1 j = Some b" using b by (auto simp: astOf_evict split: option.splits if_splits)
  then show ?thesis using c1 by (auto split: if_splits)
next
  case (Some e)
  assume b: "astOf (qc_put k a c) j = Some b"
  have "qc_put k a c = qc_moveToFront k (c\<lparr>qc_items := updQuery (Some k) (\<lambda>e. e\<lparr>qe_ast := a\<rparr>) (qc_items c)\<rparr>)"
    using Some by (simp add: qc_put_def)
  then have "astOf (c\<lparr>qc_items := updQuery (Some k) (\<lambda>e. e\<lparr>qe_ast := a\<rparr>) (qc_items c)\<rparr>) j = Some b" using b by simp
  then show ?thesis using Some by (auto simp: astOf_def map_of_updQuery split: if_splits)
qed

section \<open>Parameters stay in the cached tree\<close>

lemma resolveExpr_done:
  "resolveExprParams ps e = (None, e') \<Longrightarrow> resolveExprParams ps' e' = (None, e')"
  "resolveExprList ps es = (None, es') \<Longrightarrow> resolveExprList ps' es' = (None, es')"
  by (induction ps e and ps es arbitrary: e' and es' rule: resolveExprParams_resolveExprList.induct)
    (auto split: option.splits prod.splits)

lemma resolveProps_done: "resolveProps ps kvs = (None, kvs') \<Longrightarrow> resolveProps ps' kvs' = (None, kvs')"
  by (induction ps kvs arbitrary: kvs' rule: resolveProps.induct) (auto split: option.splits prod.splits)

lemma resolveNodes_done: "resolveNodes ps nps = (None, nps') \<Longrightarrow> resolveNodes ps' nps' = (None, nps')"
proof (induction nps arbitrary: nps')
  case (Cons np nps)
  then obtain props rest where "resolveProps ps (np_Props np) = (None, props)" "resolveNodes ps nps = (None, rest)" "nps' = np\<lparr>np_Props := props\<rparr> # rest"
    by (auto split: option.splits prod.splits)
  then show ?case using resolveProps_done [of ps _ props ps'] Cons.IH by simp
qed simp

lemma resolveItems_done: "resolveItems ps is = (None, is') \<Longrightarrow> resolveItems ps' is' = (None, is')"
proof (induction "is" arbitrary: is')
  case (Cons i "is")
  then obtain e rest where "resolveExprParams ps (ri_Expr i) = (None, e)" "resolveItems ps is = (None, rest)" "is' = i\<lparr>ri_Expr := e\<rparr> # rest"
    by (auto split: option.splits prod.splits)
  then show ?case using resolveExpr_done(1) [of ps _ e ps'] Cons.IH by simp
qed simp

lemma resolveWhere_done: "resolveWhere ps w = (None, w') \<Longrightarrow> resolveWhere ps' w' = (None, w')"
proof (cases w)
  case (Some e)
  assume "resolveWhere ps w = (None, w')"
  then obtain e' where "resolveExprParams ps e = (None, e')" "w' = Some e'" using Some by (auto simp: resolveWhere_def split: prod.splits)
  then show ?thesis using resolveExpr_done(1) [of ps e e' ps'] by (simp add: resolveWhere_def)
qed (simp add: resolveWhere_def)

lemma resolveParams_done:
  assumes "resolveParams ps q = (None, q')"
  shows "resolveParams ps' q' = (None, q')"
proof -
  obtain nodes w items where r: "resolveNodes ps (pt_Nodes (q_Match q)) = (None, nodes)" "resolveWhere ps (q_Where q) = (None, w)"
      "resolveItems ps (q_Return q) = (None, items)" "q' = q\<lparr>q_Match := (q_Match q)\<lparr>pt_Nodes := nodes\<rparr>, q_Where := w, q_Return := items\<rparr>"
    using assms by (auto simp: resolveParams_def Let_def split: prod.splits if_splits)
  then show ?thesis using resolveNodes_done [OF r(1), of ps'] resolveWhere_done [OF r(2), of ps'] resolveItems_done [OF r(3), of ps']
    by (simp add: resolveParams_def)
qed

lemma astFor_some:
  assumes "astFor g err query en = (Inr (Some k), en1)"
  shows "en_db en1 = en_db en" "astOf (en_cache en1) query = Some (Some k) \<or> astOf (en_cache en1) query = None"
proof -
  obtain a en0 where l: "lookupQuery query en = (a, en0)" by fastforce
  then have g: "fst (qc_get query (en_cache en)) = a" "en_cache en0 = snd (qc_get query (en_cache en))" "en_db en0 = en_db en"
    by (auto simp: lookupQuery_def split: prod.splits)
  have "en_db en1 = en_db en \<and> (astOf (en_cache en1) query = Some (Some k) \<or> astOf (en_cache en1) query = None)"
  proof (cases a)
    case None
    then show ?thesis using assms l g(3) qc_put_ast [of query "Some k" "en_cache en0" query]
      by (auto simp: astFor_def cacheQuery_def Let_def split: sum.splits parsedCypher.splits)
  next
    case (Some j)
    then show ?thesis using assms l g qc_get_ast [of query "en_cache en"] by (auto simp: astFor_def split: option.splits)
  qed
  then show "en_db en1 = en_db en" "astOf (en_cache en1) query = Some (Some k) \<or> astOf (en_cache en1) query = None" by simp_all
qed

text \<open>Every pointer in the cache is to a tree of the store.\<close>

definition engine_ok :: "'b engine \<Rightarrow> bool" where
  "engine_ok en \<longleftrightarrow> (\<forall>query k. astOf (en_cache en) query = Some (Some k) \<longrightarrow> k < length (en_asts en))"

lemma engine_ok_new: "engine_ok \<lparr>en_db = db, en_cache = newQueryCache n, en_asts = []\<rparr>"
  by (simp add: engine_ok_def astOf_def newQueryCache_def)

lemma engine_ok_lookup: "engine_ok en \<Longrightarrow> lookupQuery query en = (a, en1) \<Longrightarrow> engine_ok en1 \<and> (\<forall>k. a = Some k \<longrightarrow> k < length (en_asts en1))"
  using qc_get_ast [of query "en_cache en"] by (auto simp: engine_ok_def lookupQuery_def split: prod.splits option.splits)

lemma engine_ok_cache: "engine_ok en \<Longrightarrow> cacheQuery query q en = (a, en1) \<Longrightarrow> engine_ok en1 \<and> (\<forall>k. a = Some k \<longrightarrow> k < length (en_asts en1))"
  by (auto simp: engine_ok_def cacheQuery_def Let_def less_Suc_eq split: option.splits dest!: qc_put_ast)

lemma engine_ok_astFor:
  assumes "engine_ok en" "astFor g err query en = (r, en1)"
  shows "engine_ok en1" "\<And>k. r = Inr (Some k) \<Longrightarrow> k < length (en_asts en1)"
proof -
  obtain a en0 where l: "lookupQuery query en = (a, en0)" by fastforce
  note ok0 = engine_ok_lookup [OF assms(1) l]
  have c: "engine_ok en1 \<and> (\<forall>k. b = Some k \<longrightarrow> k < length (en_asts en1))" if "cacheQuery query q en0 = (b, en1)" for q b
    using engine_ok_cache [OF conjunct1 [OF ok0] that] .
  have "engine_ok en1 \<and> (\<forall>k. r = Inr (Some k) \<longrightarrow> k < length (en_asts en1))"
  proof (cases a)
    case (Some k)
    then show ?thesis using assms(2) l ok0 by (auto simp: astFor_def)
  next
    case None
    then show ?thesis using assms(2) l ok0 c by (auto simp: astFor_def split: prod.splits sum.splits parsedCypher.splits)
  qed
  then show "engine_ok en1" "\<And>k. r = Inr (Some k) \<Longrightarrow> k < length (en_asts en1)" by simp_all
qed

lemma engine_ok_params: "engine_ok en \<Longrightarrow> CypherWithParams B C g ctx query params en = (r, en1) \<Longrightarrow> engine_ok en1"
proof -
  assume ok: "engine_ok en" and c: "CypherWithParams B C g ctx query params en = (r, en1)"
  obtain x en0 where f: "astFor g (ErrMsg ''cypher exec: parameterized CREATE queries are not supported'') query en = (x, en0)" by fastforce
  note ok0 = engine_ok_astFor [OF ok f]
  have run: "runWithParams B C g ctx params a en0 = (r, en1) \<Longrightarrow> engine_ok en1" for a
    using ok0 by (auto simp: runWithParams_def runQuery_def engine_ok_def Let_def split: option.splits prod.splits)
  show ?thesis using c f ok ok0 run by (auto simp: CypherWithParams_def split: if_splits sum.splits prod.splits)
qed

text \<open>
  C25. The parameters of the first successful call stay in the cached syntax tree: as long as the query is cached, every later call
  of CypherWithParams with the same text runs with the values of the first call, whatever parameters it is given, and
  none is reported as missing.
\<close>

theorem parameters_stick:
  assumes "CypherWithParams B C g ctx query params en = (Inr r, en1)" and "engine_ok en" and "\<not> db_closed (en_db en1)" and "fst (lookupQuery query en1) \<noteq> None"
  shows "CypherWithParams B C g ctx' query params' en1 = CypherWithParams B C g ctx' query params en1"
proof -
  let ?err = "ErrMsg ''cypher exec: parameterized CREATE queries are not supported''"
  obtain a en0 where f: "astFor g ?err query en = (Inr a, en0)" "runWithParams B C g ctx params a en0 = (Inr r, en1)"
    using assms(1) by (auto simp: CypherWithParams_def split: if_splits prod.splits sum.splits)
  then obtain k q where k: "a = Some k" "resolveParams params (en_asts en0 ! k) = (None, q)"
      "runQuery B C g ctx q (en0\<lparr>en_asts := (en_asts en0)[k := q]\<rparr>) = (Inr r, en1)"
    by (auto simp: runWithParams_def Let_def split: option.splits prod.splits)
  have en1: "en_asts en1 = (en_asts en0)[k := q]" "en_cache en1 = en_cache en0" using k(3) by (auto simp: runQuery_def split: prod.splits)
  have ast: "astOf (en_cache en1) query = Some (Some k)"
  proof -
    have "astOf (en_cache en1) query \<noteq> None" using assms(4) qc_get_ast(1) [of query "en_cache en1"]
      by (auto simp: lookupQuery_def split: prod.splits option.splits)
    then show ?thesis using astFor_some(2) [OF f(1) [unfolded k(1)]] en1(2) by auto
  qed
  then have l: "fst (lookupQuery query en1) = Some k" using qc_get_ast(1) [of query "en_cache en1"] by (auto simp: lookupQuery_def split: prod.splits)
  obtain en2 where l2: "lookupQuery query en1 = (Some k, en2)" "en_asts en2 = en_asts en1"
    using l by (auto simp: lookupQuery_def split: prod.splits)
  have "k < length (en_asts en0)" using engine_ok_astFor(2) [OF assms(2) f(1)] k(1) by simp
  then have "en_asts en2 ! k = q" using l2(2) en1(1) by simp
  then have "resolveParams ps (en_asts en2 ! k) = (None, q)" for ps using resolveParams_done [OF k(2)] by simp
  then show ?thesis using l2 assms(3) by (simp add: CypherWithParams_def astFor_def runWithParams_def)
qed

theorem parameters_stick_witness:
  "\<exists>en1. snd (CypherWithParams kvs_bolt str_codec demoConf [] ''MATCH (n {n: $p}) RETURN n.n'' [(''p'', VStr ''x'')]
       \<lparr>en_db = demoDB, en_cache = newQueryCache 0, en_asts = []\<rparr>) = en1 \<and>
     CypherWithParams kvs_bolt str_codec demoConf [] ''MATCH (n {n: $p}) RETURN n.n'' [(''p'', VStr ''y'')] en1 =
     CypherWithParams kvs_bolt str_codec demoConf [] ''MATCH (n {n: $p}) RETURN n.n'' [(''p'', VStr ''x'')] en1"
proof -
  let ?q = "''MATCH (n {n: $p}) RETURN n.n''" and ?en = "\<lparr>en_db = demoDB, en_cache = newQueryCache 0, en_asts = []\<rparr>"
  have "case CypherWithParams kvs_bolt str_codec demoConf [] ?q [(''p'', VStr ''x'')] ?en of (Inl _, _) \<Rightarrow> False
      | (Inr r, en1) \<Rightarrow> \<not> db_closed (en_db en1) \<and> fst (lookupQuery ?q en1) \<noteq> None" by code_simp
  then obtain r en1 where r: "CypherWithParams kvs_bolt str_codec demoConf [] ?q [(''p'', VStr ''x'')] ?en = (Inr r, en1)"
      "\<not> db_closed (en_db en1)" "fst (lookupQuery ?q en1) \<noteq> None" by (auto split: prod.splits sum.splits)
  then show ?thesis using parameters_stick [OF r(1) engine_ok_new r(2,3)] by simp
qed

text \<open>A query that sets or deletes is cached by PrepareCypher and CypherWithParams; from the cache, Cypher runs it as a read.\<close>

lemma cached_mutation_only_reads:
  assumes "lookupQuery query en = (Some k, en1)" "\<not> db_closed (en_db en)"
  shows "Cypher B C W g ctx query en = Some (runQuery B C g ctx (en_asts en1 ! k) en1)"
  using assms by (simp add: Cypher_def runAst_def)

end
