(* ===== verification/Effects.thy ===== *)
theory Effects
  imports EngineProps
begin

text \<open>
  What a query does to the database: every entry point of Cypher changes it only by calls of the public operations of the
  store, and a read query only by reads of nodes, which move nothing but the cache. The invariant of the store is therefore kept
  by every query.
\<close>

section \<open>Sequences of calls\<close>

definition calls :: "gcall set \<Rightarrow> 'b bolt \<Rightarrow> codec \<Rightarrow> wcodec \<Rightarrow> 'b DB \<Rightarrow> 'b DB \<Rightarrow> bool" where
  "calls P B C W db db' \<longleftrightarrow> db_closed db' = db_closed db \<and> (\<exists>cs. set cs \<subseteq> P \<and> db' = fold (runCall B C W) cs db)"

lemma calls_refl [intro, simp]: "calls P B C W db db"
  by (auto simp: calls_def intro: exI [of _ "[]"])

lemma calls_trans [trans]: "calls P B C W a b \<Longrightarrow> calls P B C W b c \<Longrightarrow> calls P B C W a c"
proof -
  assume ab: "calls P B C W a b" and bc: "calls P B C W b c"
  then obtain cs ds where "set cs \<subseteq> P" "b = fold (runCall B C W) cs a" "set ds \<subseteq> P" "c = fold (runCall B C W) ds b"
    by (auto simp: calls_def)
  then show ?thesis using ab bc by (auto simp: calls_def intro!: exI [of _ "cs @ ds"])
qed

lemma calls_closed: "calls P B C W a b \<Longrightarrow> db_closed b = db_closed a"
  by (simp add: calls_def)

text \<open>No call opens or closes the database.\<close>

lemma closed_writeUpdate: "writeUpdate s fn x = (q, y) \<Longrightarrow> db_closed y = db_closed x"
  by (auto simp: writeUpdate_def Let_def split: list.splits option.splits sum.splits)

lemma closed_alloc: "dbAllocNodeID db = (i, db') \<Longrightarrow> db_closed db' = db_closed db" "dbAllocEdgeID db = (i, db') \<Longrightarrow> db_closed db' = db_closed db"
  by (auto simp: dbAllocNodeID_def dbAllocEdgeID_def Let_def)

lemma closed_deleteEdges: "deleteEdges B W es db = (r, db') \<Longrightarrow> db_closed db' = db_closed db"
proof (induction es arbitrary: db)
  case (Cons e es)
  then show ?case by (auto split: sum.splits prod.splits dest!: deleteEdgeInternal_fields(3))
qed simp

lemma guarded_closed: "(\<not> db_closed db \<Longrightarrow> \<not> isFollower db \<Longrightarrow> db_closed (snd r) = db_closed db) \<Longrightarrow> db_closed (snd (guarded db r)) = db_closed db"
  by (simp add: guarded_def writeGuard_def)

lemma closed_getNode: "getNode B C i db = (r, db') \<Longrightarrow> db_closed db' = db_closed db"
  using getNode_cache [of B C i db] by auto

lemmas closed_steps = closed_writeUpdate closed_alloc closed_getNode closed_deleteEdges deleteEdgeInternal_fields(3)

lemma runCall_closed: "db_closed (runCall B C W c db) = db_closed db"
proof (cases c)
  case (CAddNode p)
  then show ?thesis
    by (auto simp: AddNode_def Let_def intro!: guarded_closed split: sum.splits prod.splits dest!: closed_steps)
next
  case (CAddNodeWithLabels ls p)
  then show ?thesis
    by (auto simp: AddNodeWithLabels_def AddNode_def Let_def intro!: guarded_closed split: sum.splits prod.splits dest!: closed_steps)
next
  case (CUpdateNode i p)
  then show ?thesis
    by (auto simp: UpdateNode_def invalidateNode_def intro!: guarded_closed split: sum.splits prod.splits dest!: closed_steps)
next
  case (CSetNodeProps i p)
  then show ?thesis
    by (auto simp: SetNodeProps_def invalidateNode_def intro!: guarded_closed split: sum.splits prod.splits dest!: closed_steps)
next
  case (CAddLabel i ls)
  then show ?thesis
    by (auto simp: AddLabel_def invalidateNode_def intro!: guarded_closed split: sum.splits prod.splits dest!: closed_steps)
next
  case (CRemoveLabel i ls)
  then show ?thesis
    by (auto simp: RemoveLabel_def invalidateNode_def intro!: guarded_closed split: sum.splits prod.splits dest!: closed_steps)
next
  case (CDeleteNode i)
  then show ?thesis
    by (auto simp: DeleteNode_def invalidateNode_def Let_def intro!: guarded_closed split: sum.splits prod.splits dest!: closed_steps)
next
  case (CGetNode i)
  then show ?thesis using closed_getNode [of B C i db "fst (getNode B C i db)" "snd (getNode B C i db)"] by (simp add: GetNode_def)
next
  case (CAddEdge a b l p)
  then show ?thesis
    by (auto simp: AddEdge_def bloomAddDB_def Let_def intro!: guarded_closed split: sum.splits prod.splits dest!: closed_steps)
next
  case (CDeleteEdge i)
  have "db_closed (snd (deleteEdgeInternal B W e db)) = db_closed db" for e
    by (rule deleteEdgeInternal_fields(3) [OF prod.collapse [symmetric]])
  then show ?thesis using CDeleteEdge
    by (auto simp: DeleteEdge_def intro!: guarded_closed split: sum.splits prod.splits dest!: closed_steps)
next
  case (CUpdateEdge i p)
  then show ?thesis
    by (auto simp: UpdateEdge_def Let_def intro!: guarded_closed split: sum.splits prod.splits dest!: closed_steps)
qed

lemma calls_one: "c \<in> P \<Longrightarrow> calls P B C W db (runCall B C W c db)"
  by (auto simp: calls_def runCall_closed intro: exI [of _ "[c]"])

abbreviation reads :: "'b bolt \<Rightarrow> codec \<Rightarrow> wcodec \<Rightarrow> 'b DB \<Rightarrow> 'b DB \<Rightarrow> bool" where
  "reads \<equiv> calls (range CGetNode)"

lemma calls_mono: "calls P B C W db db' \<Longrightarrow> P \<subseteq> Q \<Longrightarrow> calls Q B C W db db'"
  unfolding calls_def by blast

lemma reads_getNode: "getNode B C i db = (r, db') \<Longrightarrow> \<not> db_closed db \<Longrightarrow> reads B C W db db'"
proof -
  assume g: "getNode B C i db = (r, db')" and o: "\<not> db_closed db"
  then have "runCall B C W (CGetNode i) db = db'" by (simp add: GetNode_def)
  then show ?thesis using calls_one [of "CGetNode i" "range CGetNode" B C W db] by simp
qed

lemma reads_files: "reads B C W db db' \<Longrightarrow> files db' = files db"
proof -
  assume "reads B C W db db'"
  then obtain cs where cs: "set cs \<subseteq> range CGetNode" "db' = fold (runCall B C W) cs db" by (auto simp: calls_def)
  have "files (fold (runCall B C W) cs db) = files db" using cs(1)
  proof (induction cs arbitrary: db)
    case (Cons c cs)
    then obtain i where c: "c = CGetNode i" by auto
    obtain nc where "snd (getNode B C i db) = db\<lparr>db_ncache := nc\<rparr>" using getNode_cache by blast
    then have "files (runCall B C W c db) = files db" by (simp add: c GetNode_def)
    then show ?case using Cons by simp
  qed simp
  then show ?thesis using cs(2) by simp
qed

section \<open>Read queries\<close>

lemma reads_hopEdges: "hopEdges B C g q vs a es rows db = (r, db') \<Longrightarrow> \<not> db_closed db \<Longrightarrow> reads B C W db db'"
proof (induction es arbitrary: rows db)
  case (Cons e es)
  obtain x db1 where g: "getNode B C (hopTarget (pt_Rels (q_Match q) ! 0) e) db = (x, db1)" by fastforce
  note r1 = reads_getNode [OF g Cons.prems(2), of W]
  have c1: "\<not> db_closed db1" using calls_closed [OF r1] Cons.prems(2) by simp
  have rec: "hopEdges B C g q vs a es rows' db1 = (r, db') \<Longrightarrow> reads B C W db db'" for rows' using Cons.IH [OF _ c1] calls_trans [OF r1] by blast
  show ?case using Cons.prems(1) g r1 rec Cons.IH [OF _ Cons.prems(2)]
    by (auto simp: Let_def split: sum.splits if_splits)
qed simp

lemma reads_hopNodes: "hopNodes B C g q vs ctx as rows db = (r, db') \<Longrightarrow> \<not> db_closed db \<Longrightarrow> reads B C W db db'"
proof (induction "as" arbitrary: ctx rows db)
  case (Cons a "as")
  have rec: "reads B C W db db'" if h: "hopEdges B C g q vs a es rows db = (x, db1)" "hopNodes B C g q vs ctx' as rows' db1 = (r, db')" for es x db1 ctx' rows'
  proof -
    note r1 = reads_hopEdges [OF h(1) Cons.prems(2), of W]
    then have "\<not> db_closed db1" using calls_closed [OF r1] Cons.prems(2) by simp
    then show ?thesis using calls_trans [OF r1 Cons.IH [OF h(2)]] by blast
  qed
  show ?case using Cons.prems rec reads_hopEdges [OF _ Cons.prems(2)] by (auto split: sum.splits if_splits prod.splits bool.splits)
qed simp

lemma reads_edgeTypeRow: "edgeTypeRow B C q d k db = (r, db') \<Longrightarrow> \<not> db_closed db \<Longrightarrow> reads B C W db db'"
  using reads_getNode [of B C _ db _ db' W]
  by (auto simp: edgeTypeRow_def Let_def split: option.splits list.splits if_splits sum.splits prod.splits)

lemma reads_typeScan: "typeScan B C g q vs d n ks rows ctx db = (st, rows', ctx', db') \<Longrightarrow> \<not> db_closed db \<Longrightarrow> reads B C W db db'"
proof (induction ks arbitrary: rows ctx db)
  case (Cons k ks)
  obtain x db1 where g: "edgeTypeRow B C q d (drop n k) db = (x, db1)" by fastforce
  note r1 = reads_edgeTypeRow [OF g Cons.prems(2), of W]
  have c1: "\<not> db_closed db1" using calls_closed [OF r1] Cons.prems(2) by simp
  have rec: "typeScan B C g q vs d n ks rows2 ctx2 db1 = (st, rows', ctx', db') \<Longrightarrow> reads B C W db db'" for rows2 ctx2
    using Cons.IH [OF _ c1] calls_trans [OF r1] by blast
  show ?case using Cons.prems(1) g r1 rec by (auto split: prod.splits bool.splits option.splits sum.splits if_splits)
qed simp

lemma reads_typeShards: "typeShards B C g q vs ss rows ctx db = (r, db') \<Longrightarrow> \<not> db_closed db \<Longrightarrow> reads B C W db db'"
proof (induction ss arbitrary: rows ctx db)
  case (Cons s ss)
  define pfx where "pfx = encodeIndexPrefix (rp_Label (pt_Rels (q_Match q) ! 0))"
  obtain st rows1 ctx1 db1 where g: "typeScan B C g q vs (s_data s) (length pfx) (map fst (seekPrefix B (bk_idx_edge_type (s_data s)) pfx)) rows ctx db = (st, rows1, ctx1, db1)"
    using prod_cases4 by blast
  note r1 = reads_typeScan [OF g Cons.prems(2), of W]
  have c1: "\<not> db_closed db1" using calls_closed [OF r1] Cons.prems(2) by simp
  have rec: "typeShards B C g q vs ss rows1 ctx1 db1 = (r, db') \<Longrightarrow> reads B C W db db'" using Cons.IH [OF _ c1] calls_trans [OF r1] by blast
  show ?case using Cons.prems(1) g r1 rec by (auto simp: Let_def pfx_def [symmetric] split: if_splits option.splits scanStop.splits)
qed simp

lemma reads_bfsEdges:
  "bfsEdges B C dir flt vis ent es visited pathTo queue st db = (stop, visited', pathTo', queue', st', db') \<Longrightarrow> \<not> db_closed db \<Longrightarrow> reads B C W db db'"
proof (induction es arbitrary: visited pathTo queue st db)
  case (Cons e es)
  obtain x db1 where g: "getNode B C (targetOf dir (fst ent) e) db = (x, db1)" by fastforce
  note r1 = reads_getNode [OF g Cons.prems(2), of W]
  have c1: "\<not> db_closed db1" using calls_closed [OF r1] Cons.prems(2) by simp
  have rec: "bfsEdges B C dir flt vis ent es v2 p2 q2 s2 db1 = (stop, visited', pathTo', queue', st', db') \<Longrightarrow> reads B C W db db'" for v2 p2 q2 s2
    using Cons.IH [OF _ c1] calls_trans [OF r1] by blast
  show ?case using Cons.prems(1) g r1 rec Cons.IH [OF _ Cons.prems(2)]
    by (auto simp: Let_def split: if_splits sum.splits prod.splits bool.splits)
qed simp

lemma reads_bfsLoop: "bfsLoop B C m dir flt vis visited pathTo queue st db = (r, st', db') \<Longrightarrow> \<not> db_closed db \<Longrightarrow> reads B C W db db'"
proof (induction B C m dir flt vis visited pathTo queue st db rule: bfsLoop.induct)
  case (2 B C m dir flt vis visited pathTo ent queue st db)
  show ?case
  proof (cases "0 \<le> m \<and> m \<le> snd ent")
    case True
    then show ?thesis using 2(1) [OF True] 2(3,4) by simp
  next
    case False
    show ?thesis
    proof (cases "getEdgesForNode B C (fst ent) dir db")
      case (Inl e)
      then show ?thesis using 2(3) False by simp
    next
      case (Inr edges)
      obtain stop v2 p2 q2 s2 db1 where b: "bfsEdges B C dir flt vis ent edges visited pathTo queue st db = (stop, v2, p2, q2, s2, db1)" using prod_cases6 by blast
      note r1 = reads_bfsEdges [OF b 2(4), of W]
      have c1: "\<not> db_closed db1" using calls_closed [OF r1] 2(4) by simp
      show ?thesis
      proof (cases stop)
        case True
        then show ?thesis using 2(3) False Inr b r1 by simp
      next
        case n: False
        then have "bfsLoop B C m dir flt vis v2 p2 q2 s2 db1 = (r, st', db')" using 2(3) False Inr b by simp
        then have "reads B C W db1 db'" using 2(2) [OF False Inr b [symmetric] refl refl refl refl n] c1 by blast
        then show ?thesis using calls_trans [OF r1] by blast
      qed
    qed
  qed
qed simp

lemma reads_BFS: "BFS B C i m dir flt vis st db = (r, st', db') \<Longrightarrow> \<not> db_closed db \<Longrightarrow> reads B C W db db'"
proof -
  assume b: "BFS B C i m dir flt vis st db = (r, st', db')" and o: "\<not> db_closed db"
  obtain x db1 where g: "getNode B C i db = (x, db1)" by fastforce
  note r1 = reads_getNode [OF g o, of W]
  have c1: "\<not> db_closed db1" using calls_closed [OF r1] o by simp
  have "bfsLoop B C m dir flt vis v p qu s db1 = (r, st', db') \<Longrightarrow> reads B C W db db'" for v p qu s
    by (rule calls_trans [OF r1 reads_bfsLoop [OF _ c1]])
  then show ?thesis using b o g r1 by (auto simp: BFS_def simp del: bfsLoop.simps split: sum.splits prod.splits bool.splits)
qed

lemma reads_varNodes: "varNodes B C g q vs ctx as rows db = (r, db') \<Longrightarrow> \<not> db_closed db \<Longrightarrow> reads B C W db db'"
proof (induction "as" arbitrary: ctx rows db)
  case (Cons a "as")
  have rec: "reads B C W db db'" if h: "BFS B C i m dir flt vis rows db = (x, rows1, db1)" "varNodes B C g q vs ctx' as rows1 db1 = (r, db')"
    for i m dir flt vis x rows1 db1 ctx'
  proof -
    note r1 = reads_BFS [OF h(1) Cons.prems(2), of W]
    then have "\<not> db_closed db1" using calls_closed [OF r1] Cons.prems(2) by simp
    then show ?thesis using calls_trans [OF r1 Cons.IH [OF h(2)]] by blast
  qed
  show ?case using Cons.prems rec reads_BFS [OF _ Cons.prems(2)]
    by (auto simp: Let_def split: sum.splits if_splits prod.splits bool.splits)
qed simp

lemma reads_expandEdges: "expandEdges B C g rel bPat mk keep es rows db = (r, db') \<Longrightarrow> \<not> db_closed db \<Longrightarrow> reads B C W db db'"
proof (induction es arbitrary: rows db)
  case (Cons e es)
  obtain x db1 where g: "getNode B C (hopTarget rel e) db = (x, db1)" by fastforce
  note r1 = reads_getNode [OF g Cons.prems(2), of W]
  have c1: "\<not> db_closed db1" using calls_closed [OF r1] Cons.prems(2) by simp
  have rec: "expandEdges B C g rel bPat mk keep es rows' db1 = (r, db') \<Longrightarrow> reads B C W db db'" for rows' using Cons.IH [OF _ c1] calls_trans [OF r1] by blast
  show ?case using Cons.prems(1) g r1 rec Cons.IH [OF _ Cons.prems(2)] by (auto split: sum.splits if_splits)
qed simp

lemma reads_mainHops: "mainHops B C g q as rows db = (r, db') \<Longrightarrow> \<not> db_closed db \<Longrightarrow> reads B C W db db'"
proof (induction "as" arbitrary: rows db)
  case (Cons a "as")
  have rec: "reads B C W db db'" if h: "expandEdges B C g rel bPat mk keep es rows db = (x, db1)" "mainHops B C g q as rows1 db1 = (r, db')"
    for rel bPat mk keep es x rows1 db1
  proof -
    note r1 = reads_expandEdges [OF h(1) Cons.prems(2), of W]
    then have "\<not> db_closed db1" using calls_closed [OF r1] Cons.prems(2) by simp
    then show ?thesis using calls_trans [OF r1 Cons.IH [OF h(2)]] by blast
  qed
  show ?case using Cons.prems rec reads_expandEdges [OF _ Cons.prems(2)] Cons.IH [OF _ Cons.prems(2)]
    by (auto simp: Let_def split: sum.splits prod.splits)
qed simp

lemma reads_attempt: "attemptOptionalMatch B C g b pat w db = (rows, db') \<Longrightarrow> \<not> db_closed db \<Longrightarrow> reads B C W db db'"
  using reads_expandEdges [where W = W]
  by (auto simp: attemptOptionalMatch_def Let_def split: if_splits option.splits cval.splits sum.splits prod.splits)

lemma reads_optionalRows: "optionalRows B C g pat w bs db = (rows, db') \<Longrightarrow> \<not> db_closed db \<Longrightarrow> reads B C W db db'"
proof (induction bs arbitrary: rows db db')
  case (Cons b bs)
  obtain rs db1 where a: "attemptOptionalMatch B C g b pat w db = (rs, db1)" by fastforce
  obtain rest db2 where o: "optionalRows B C g pat w bs db1 = (rest, db2)" by fastforce
  note r1 = reads_attempt [OF a Cons.prems(2), of W]
  then have "\<not> db_closed db1" using calls_closed [OF r1] Cons.prems(2) by simp
  then show ?case using calls_trans [OF r1 Cons.IH [OF o]] Cons.prems(1) a o by simp
qed simp

lemma reads_main: "collectMainBindings B C g q db = (r, db') \<Longrightarrow> \<not> db_closed db \<Longrightarrow> reads B C W db db'"
  using reads_mainHops [where W = W] by (auto simp: collectMainBindings_def Let_def split: if_splits sum.splits)

lemma reads_executeCypherNormal: "executeCypherNormal B C g ctx q db = (r, db') \<Longrightarrow> \<not> db_closed db \<Longrightarrow> reads B C W db db'"
proof -
  assume e: "executeCypherNormal B C g ctx q db = (r, db')" and o: "\<not> db_closed db"
  have hop: "execSingleHopMatch B C g ctx q db = (r, db') \<Longrightarrow> reads B C W db db'"
    using reads_typeShards [OF prod.collapse [symmetric] o, where W = W] reads_hopNodes [OF prod.collapse [symmetric] o, where W = W]
    by (auto simp: execSingleHopMatch_def execSingleHopByEdgeType_def projectHop_def Let_def split: if_splits sum.splits)
  have var: "execVarLengthMatch B C g ctx q db = (r, db') \<Longrightarrow> reads B C W db db'"
    using reads_varNodes [OF prod.collapse [symmetric] o, where W = W]
    by (auto simp: execVarLengthMatch_def projectHop_def Let_def split: sum.splits)
  have opt: "execWithOptionalMatch B C g q pat db = (r, db') \<Longrightarrow> reads B C W db db'" for pat
  proof -
    assume x: "execWithOptionalMatch B C g q pat db = (r, db')"
    obtain y db1 where m: "collectMainBindings B C g q db = (y, db1)" by fastforce
    note r1 = reads_main [OF m o, of W]
    have c1: "\<not> db_closed db1" using calls_closed [OF r1] o by simp
    show ?thesis
    proof (cases y)
      case (Inr main)
      obtain rows db2 where "optionalRows B C g pat (q_OptionalWhere q) main db1 = (rows, db2)" by fastforce
      then show ?thesis using x m Inr calls_trans [OF r1 reads_optionalRows [OF _ c1]] by (simp add: execWithOptionalMatch_def)
    qed (use x m r1 in \<open>simp add: execWithOptionalMatch_def\<close>)
  qed
  show ?thesis using e hop var opt by (auto simp: executeCypherNormal_def Let_def split: option.splits if_splits)
qed

lemma reads_executeCypher: "executeCypher B C g ctx q db = (r, db') \<Longrightarrow> \<not> db_closed db \<Longrightarrow> reads B C W db db'"
  using reads_executeCypherNormal [of B C g ctx _ db _ db' W]
  by (auto simp: executeCypher_def split: ExplainMode.splits prod.splits sum.splits)


section \<open>Write queries\<close>

abbreviation changes :: "'b bolt \<Rightarrow> codec \<Rightarrow> wcodec \<Rightarrow> 'b DB \<Rightarrow> 'b DB \<Rightarrow> bool" where
  "changes \<equiv> calls UNIV"

lemma changes_call: "runCall B C W c db = db' \<Longrightarrow> changes B C W db db'"
  using calls_one [of c UNIV B C W db] by simp

lemma changes_ops:
  "AddNode B C W p db = (i, db') \<Longrightarrow> changes B C W db db'"
  "AddNodeWithLabels B C W ls p db = (i, db') \<Longrightarrow> changes B C W db db'"
  "AddEdge B C W a b l p db = (j, db') \<Longrightarrow> changes B C W db db'"
  "UpdateNode B C W n p db = (u, db') \<Longrightarrow> changes B C W db db'"
  "DeleteNode B C W n db = (u, db') \<Longrightarrow> changes B C W db db'"
  "DeleteEdge B C W m db = (u, db') \<Longrightarrow> changes B C W db db'"
  using changes_call [of B C W "CAddNode p" db db'] changes_call [of B C W "CAddNodeWithLabels ls p" db db']
    changes_call [of B C W "CAddEdge a b l p" db db'] changes_call [of B C W "CUpdateNode n p" db db']
    changes_call [of B C W "CDeleteNode n" db db'] changes_call [of B C W "CDeleteEdge m" db db'] by simp_all

lemma reads_changes: "reads B C W db db' \<Longrightarrow> changes B C W db db'"
  by (erule calls_mono) simp

lemma changes_getNode: "getNode B C i db = (r, db') \<Longrightarrow> \<not> db_closed db \<Longrightarrow> changes B C W db db'"
  by (rule reads_changes [OF reads_getNode])

lemma changes_createNodes: "createNodes B C W nps ids bs st ctx db = (r, db') \<Longrightarrow> \<not> db_closed db \<Longrightarrow> changes B C W db db'"
proof (induction nps arbitrary: ids bs st ctx db)
  case (Cons np nps)
  obtain x db1 where a: "(if np_Labels np \<noteq> [] then AddNodeWithLabels B C W (np_Labels np) (storedProps (np_Props np)) db
      else AddNode B C W (storedProps (np_Props np)) db) = (x, db1)" by fastforce
  then have r1: "changes B C W db db1" using changes_ops(1,2) by (metis (full_types))
  have c1: "\<not> db_closed db1" using calls_closed [OF r1] Cons.prems(2) by simp
  have rec: "changes B C W db db'" if "createNodes B C W nps ids' bs' st' ctx' db2 = (r, db')" "changes B C W db db2" for ids' bs' st' ctx' db2
    using calls_trans [OF that(2) Cons.IH [OF that(1)]] calls_closed [OF that(2)] Cons.prems(2) by simp
  show ?case
  proof (cases "fst (ctxErr ctx) \<or> boundNode (np_Variable np) bs \<noteq> None")
    case True
    then show ?thesis using Cons.prems(1) rec [OF _ calls_refl] by (auto split: prod.splits bool.splits option.splits)
  next
    case False
    then obtain ctx' where b: "ctxErr ctx = (False, ctx')" "boundNode (np_Variable np) bs = None" by (cases "ctxErr ctx") auto
    show ?thesis
    proof (cases x)
      case (Inl e)
      then show ?thesis using Cons.prems(1) b a r1 by (simp add: Let_def)
    next
      case (Inr i)
      obtain y db2 where g: "getNode B C i db1 = (y, db2)" by fastforce
      have r2: "changes B C W db db2" using calls_trans [OF r1 changes_getNode [OF g c1]] .
      show ?thesis using Cons.prems(1) b a Inr g r2 rec [OF _ r1] rec [OF _ r2] by (auto simp: Let_def split: if_splits sum.splits)
    qed
  qed
qed simp

lemma changes_createEdges: "createEdges B C W rps ids bs st ctx db = (r, db') \<Longrightarrow> \<not> db_closed db \<Longrightarrow> changes B C W db db'"
proof (induction rps arbitrary: ids bs st ctx db)
  case (Cons rp rps)
  have rec: "changes B C W db db'" if "AddEdge B C W a b l p db = (x, db1)" "createEdges B C W rps ids' bs' st' ctx' db1 = (r, db')" for a b l p x db1 ids' bs' st' ctx'
    using calls_trans [OF changes_ops(3) [OF that(1)] Cons.IH [OF that(2)]] calls_closed [OF changes_ops(3) [OF that(1)]] Cons.prems(2) by simp
  show ?case using Cons.prems(1) rec changes_ops(3)
    by (auto simp: Let_def split: prod.splits bool.splits list.splits if_splits sum.splits)
qed simp

lemma changes_createPatterns: "createPatterns B C W cps bs st ctx db = (r, db') \<Longrightarrow> \<not> db_closed db \<Longrightarrow> changes B C W db db'"
proof (induction cps arbitrary: bs st ctx db)
  case (Cons cp cps)
  have pat: "changes B C W db db1" if "executeCreatePattern B C W cp bs st ctx' db = (x, db1)" for ctx' x db1
  proof -
    obtain y db2 where n: "createNodes B C W (pt_Nodes cp) [] bs st ctx' db = (y, db2)" by fastforce
    note r1 = changes_createNodes [OF n Cons.prems(2)]
    have c2: "\<not> db_closed db2" using calls_closed [OF r1] Cons.prems(2) by simp
    show ?thesis using that n r1 calls_trans [OF r1 changes_createEdges [OF _ c2]]
      by (auto simp: executeCreatePattern_def split: if_splits sum.splits)
  qed
  have rec: "changes B C W db db'" if "executeCreatePattern B C W cp bs st ctx' db = (x, db1)" "createPatterns B C W cps bs' st' ctx2 db1 = (r, db')" for ctx' x db1 bs' st' ctx2
    using calls_trans [OF pat [OF that(1)] Cons.IH [OF that(2)]] calls_closed [OF pat [OF that(1)]] Cons.prems(2) by simp
  show ?case using Cons.prems(1) rec pat by (auto split: prod.splits bool.splits sum.splits)
qed simp

lemma changes_executeCreate: "executeCreate B C W ctx w db = (r, db') \<Longrightarrow> changes B C W db db'"
  using changes_createPatterns [of B C W _ _ _ ctx db _ db'] by (auto simp: executeCreate_def split: if_splits sum.splits prod.splits)

lemma changes_mergeMatch: "mergeMatch B C mp db = (r, db') \<Longrightarrow> \<not> db_closed db \<Longrightarrow> changes B C W db db'"
  using changes_getNode [of B C _ db _ db' W]
  by (auto simp: mergeMatch_def mergeByConstraint_def FindByUniqueConstraint_def split: if_splits option.splits sum.splits prod.splits)

lemma changes_mergeNode: "mergeNode B C W mp db = (r, db') \<Longrightarrow> \<not> db_closed db \<Longrightarrow> changes B C W db db'"
proof -
  assume m: "mergeNode B C W mp db = (r, db')" and o: "\<not> db_closed db"
  obtain x db1 where x: "mergeMatch B C mp db = (x, db1)" by fastforce
  note r1 = changes_mergeMatch [OF x o, of W]
  obtain y db2 where y: "AddNodeWithLabels B C W (mp_Labels mp) (storedProps (mp_Props mp)) db1 = (y, db2)" by fastforce
  have r2: "changes B C W db db2" using calls_trans [OF r1 changes_ops(2) [OF y]] .
  have "\<not> db_closed db2" using calls_closed [OF r2] o by simp
  then have "changes B C W db db3" if "getNode B C i db2 = (z, db3)" for i z db3 using calls_trans [OF r2 changes_getNode [OF that]] by blast
  then show ?thesis using m x y r1 r2 by (auto simp: mergeNode_def split: option.splits sum.splits prod.splits)
qed

lemma changes_mergeSet: "mergeSet B C W m n cr db = (r, db') \<Longrightarrow> \<not> db_closed db \<Longrightarrow> changes B C W db db'"
proof -
  assume m: "mergeSet B C W m n cr db = (r, db')" and o: "\<not> db_closed db"
  have "changes B C W db db2" if u: "UpdateNode B C W i ps db = (x, db1)" and g: "getNode B C i db1 = (z, db2)" for i ps x db1 z db2
    using calls_trans [OF changes_ops(4) [OF u] changes_getNode [OF g]] calls_closed [OF changes_ops(4) [OF u]] o by simp
  then show ?thesis using m changes_ops(4) by (auto simp: mergeSet_def Let_def split: if_splits option.splits sum.splits prod.splits)
qed

lemma changes_executeMerge: "executeMerge B C W m db = (r, db') \<Longrightarrow> changes B C W db db'"
proof -
  assume m: "executeMerge B C W m db = (r, db')"
  obtain x db1 where n: "mergeNode B C W (m_Pattern m) db = (x, db1)" by fastforce
  show ?thesis
  proof (cases "db_closed db")
    case False
    note r1 = changes_mergeNode [OF n False]
    have c1: "\<not> db_closed db1" using calls_closed [OF r1] False by simp
    show ?thesis using m n r1 False calls_trans [OF r1 changes_mergeSet [OF _ c1]]
      by (auto simp: executeMerge_def split: option.splits sum.splits prod.splits)
  qed (use m in \<open>simp add: executeMerge_def\<close>)
qed

lemma changes_setRow: "setRow B C W items row db = Some (r, db') \<Longrightarrow> changes B C W db db'"
proof (induction items arbitrary: row db)
  case (Cons si items)
  have "changes B C W db db'" if "UpdateNode B C W i ps db = (x, db1)" "setRow B C W items row' db1 = Some (r, db')" for i ps x db1 row'
    using calls_trans [OF changes_ops(4) [OF that(1)] Cons.IH [OF that(2)]] .
  then show ?case using Cons changes_ops(4) by (auto split: option.splits cval.splits sum.splits prod.splits)
qed simp

lemma changes_setRows: "setRows B C W items rows db = Some (r, db') \<Longrightarrow> changes B C W db db'"
proof (induction rows arbitrary: r db db')
  case (Cons row rows)
  have "changes B C W db db2" if "setRow B C W items row db = Some (x, db1)" "setRows B C W items rows db1 = Some (y, db2)" for x db1 y db2
    using calls_trans [OF changes_setRow [OF that(1)] Cons.IH [OF that(2)]] .
  then show ?case using Cons.prems changes_setRow by (fastforce split: option.splits sum.splits prod.splits)
qed simp

lemma changes_deleteRow: "deleteRow B C W xs row db = (r, db') \<Longrightarrow> changes B C W db db'"
proof (induction xs arbitrary: db)
  case (Cons x xs)
  obtain y db1 where d: "(case map_of row x of Some (CNode n) \<Rightarrow> DeleteNode B C W (n_id n) db | Some (CEdge e) \<Rightarrow> DeleteEdge B C W (e_id e) db
      | Some CNilNode \<Rightarrow> (Inl ErrPanic, db) | _ \<Rightarrow> (Inr (), db)) = (y, db1)" by fastforce
  then have r1: "changes B C W db db1" using changes_ops(5,6) by (auto split: option.splits cval.splits)
  show ?case using Cons.prems Cons.IH [of db1] d r1 calls_trans [OF r1] by (auto split: sum.splits)
qed simp

lemma changes_deleteRows: "deleteRows B C W xs rows db = (r, db') \<Longrightarrow> changes B C W db db'"
proof (induction rows arbitrary: db)
  case (Cons row rows)
  have "changes B C W db db'" if "deleteRow B C W xs row db = (x, db1)" "deleteRows B C W xs rows db1 = (r, db')" for x db1
    using calls_trans [OF changes_deleteRow [OF that(1)] Cons.IH [OF that(2)]] .
  then show ?case using Cons.prems changes_deleteRow by (auto split: sum.splits prod.splits)
qed simp

lemma changes_executeCypherMutating:
  assumes m: "executeCypherMutating B C W g ctx q db = Some (r, db')" and o: "\<not> db_closed db"
  shows "changes B C W db db'"
proof -
  obtain x db1 where e: "executeCypher B C g ctx (q\<lparr>q_Set := [], q_Delete := []\<rparr>) db = (x, db1)" by fastforce
  have r1: "changes B C W db db1" using reads_changes [OF reads_executeCypher [OF e o]] .
  have r2: "changes B C W db db2" if "setRows B C W items rows db1 = Some (y, db2)" for items rows y db2
    using calls_trans [OF r1 changes_setRows [OF that]] .
  have r3: "changes B C W db db3" if "setRows B C W items rows db1 = Some (y, db2)" "deleteRows B C W xs rows' db2 = (z, db3)" for items rows y db2 xs rows' z db3
    using calls_trans [OF r2 [OF that(1)] changes_deleteRows [OF that(2)]] .
  show ?thesis using m e r1 r2 r3 by (fastforce simp: executeCypherMutating_def split: sum.splits if_splits option.splits prod.splits)
qed

section \<open>The effect of a query\<close>

lemma reads_runQuery: "runQuery B C g ctx q en = (r, en') \<Longrightarrow> \<not> db_closed (en_db en) \<Longrightarrow> reads B C W (en_db en) (en_db en')"
  using reads_executeCypher by (auto simp: runQuery_def split: prod.splits)

lemma reads_runAst: "runAst B C g ctx a en = (r, en') \<Longrightarrow> \<not> db_closed (en_db en) \<Longrightarrow> reads B C W (en_db en) (en_db en')"
  using reads_runQuery by (auto simp: runAst_def split: option.splits)

lemma en_db_lookup [simp]: "lookupQuery query en = (a, en1) \<Longrightarrow> en_db en1 = en_db en"
  by (auto simp: lookupQuery_def split: prod.splits)

lemma en_db_cache [simp]: "cacheQuery query q en = (a, en1) \<Longrightarrow> en_db en1 = en_db en"
  by (auto simp: cacheQuery_def Let_def split: option.splits)

lemma Cypher_reads:
  assumes c: "Cypher B C W g ctx query en = Some (r, en')"
    and p: "parseCypher (qc_floats g) query = Inr (CRead q)" "q_Set q = []" "q_Delete q = []"
  shows "reads B C W (en_db en) (en_db en')"
proof (cases "db_closed (en_db en)")
  case True
  then show ?thesis using c by (simp add: Cypher_def)
next
  case o: False
  obtain a en1 where l: "lookupQuery query en = (a, en1)" by fastforce
  obtain a2 en2 where cq: "cacheQuery query (Some q) en1 = (a2, en2)" by fastforce
  have db: "en_db en1 = en_db en" "en_db en2 = en_db en" using l cq by simp_all
  have "runAst B C g ctx k x = (r, en') \<Longrightarrow> en_db x = en_db en \<Longrightarrow> reads B C W (en_db en) (en_db en')" for k x
    using reads_runAst [of B C g ctx k x r en' W] o by simp
  then show ?thesis using c o l cq p db by (auto simp: Cypher_def split: option.splits)
qed

lemma Cypher_read_defined:
  assumes "parseCypher (qc_floats g) query = Inr (CRead q)" "q_Set q = []" "q_Delete q = []"
  shows "\<exists>r en'. Cypher B C W g ctx query en = Some (r, en')"
proof -
  obtain a en1 where l: "lookupQuery query en = (a, en1)" by fastforce
  obtain a2 en2 where cq: "cacheQuery query (Some q) en1 = (a2, en2)" by fastforce
  obtain r en' where "runAst B C g ctx a2 en2 = (r, en')" by fastforce
  moreover obtain r1 en1' where "runAst B C g ctx a en1 = (r1, en1')" by fastforce
  ultimately show ?thesis using l cq assms by (cases a) (auto simp: Cypher_def)
qed

lemma Cypher_changes: "Cypher B C W g ctx query en = Some (r, en') \<Longrightarrow> changes B C W (en_db en) (en_db en')"
proof -
  assume c: "Cypher B C W g ctx query en = Some (r, en')"
  show ?thesis
  proof (cases "db_closed (en_db en)")
    case True
    then show ?thesis using c by (simp add: Cypher_def)
  next
    case o: False
    obtain a en1 where l: "lookupQuery query en = (a, en1)" by fastforce
    have db1: "en_db en1 = en_db en" using l by simp
    have ast: "changes B C W (en_db en) (en_db en')" if "runAst B C g ctx k en2 = (r, en')" "en_db en2 = en_db en" for k en2
      using reads_changes [OF reads_runAst [OF that(1)]] that(2) o by simp
    show ?thesis
    proof (cases a)
      case (Some k)
      then show ?thesis using c o l ast [of "Some k" en1] db1 by (simp add: Cypher_def)
    next
      case None
      show ?thesis
        using c o l None db1 ast changes_executeCreate changes_executeMerge changes_executeCypherMutating
        by (fastforce simp: Cypher_def split: sum.splits parsedCypher.splits if_splits option.splits prod.splits)
    qed
  qed
qed

context graph_store
begin

lemma calls_represent:
  "represents B C db \<Longrightarrow> \<forall>n < length cs. callable (fold (runCall B C W) (take n cs) db) \<Longrightarrow> represents B C (fold (runCall B C W) cs db)"
proof (induction cs arbitrary: db)
  case (Cons c cs)
  have "callable db" using Cons.prems(2) by (metis fold_simps(1) length_greater_0_conv list.distinct(1) take_0)
  then have "represents B C (runCall B C W c db)" using Cons.prems(1) runCall_represents by (auto simp: represents_def)
  moreover have "callable (fold (runCall B C W) (take n cs) (runCall B C W c db))" if "n < length cs" for n
    using Cons.prems(2) that by (auto dest: spec [of _ "Suc n"])
  ultimately show ?case using Cons.IH by simp
qed simp

end

text \<open>
  C20. Whatever query Cypher runs within the model, and whether it succeeds or fails, its effect on the database is that of a
  sequence of calls of the public operations of the store; if these calls meet no environment fault and identifiers are left,
  the database represents a graph afterwards, with all that the invariant of the store says of indexes and dangling edges. A plain
  read (MATCH without SET and DELETE) leaves the files as they were. A query with SET on a pattern of more than one node is
  outside the model (the result is None).
\<close>

theorem cypher_effect:
  assumes "graph_store B C" and "represents B C (en_db en)" and "Cypher B C W g ctx query en = Some (r, en')"
  shows "\<exists>cs. en_db en' = fold (runCall B C W) cs (en_db en) \<and>
      ((\<forall>n < length cs. callable (fold (runCall B C W) (take n cs) (en_db en))) \<longrightarrow> represents B C (en_db en')) \<and>
      (\<forall>q. parseCypher (qc_floats g) query = Inr (CRead q) \<and> q_Set q = [] \<and> q_Delete q = [] \<longrightarrow> files (en_db en') = files (en_db en))"
proof -
  obtain cs where cs: "en_db en' = fold (runCall B C W) cs (en_db en)" using Cypher_changes [OF assms(3)] by (auto simp: calls_def)
  have "files (en_db en') = files (en_db en)" if "parseCypher (qc_floats g) query = Inr (CRead q)" "q_Set q = []" "q_Delete q = []" for q
    using Cypher_reads [OF assms(3) that] by (rule reads_files)
  then show ?thesis using cs graph_store.calls_represent [OF assms(1,2), of cs W] by auto
qed

theorem cypher_effect_witness:
  "\<exists>r en' cs. Cypher kvs_bolt str_codec (str_wcodec 1) demoConf [] ''CREATE (:P {n: 'y'})'' \<lparr>en_db = uniqueDB, en_cache = newQueryCache 0, en_asts = []\<rparr> = Some (Inr r, en') \<and>
     en_db en' = fold (runCall kvs_bolt str_codec (str_wcodec 1)) cs uniqueDB \<and> nodeCtr uniqueDB = 2 \<and> nodeCtr (en_db en') = 3 \<and> cs \<noteq> []"
proof -
  let ?q = "''CREATE (:P {n: 'y'})''" and ?en = "\<lparr>en_db = uniqueDB, en_cache = newQueryCache 0, en_asts = []\<rparr>"
  have "case parseCypher (qc_floats demoConf) ?q of Inr (CWrite w) \<Rightarrow> w_Creates w = [\<lparr>pt_Nodes =
       [\<lparr>np_Variable = [], np_Labels = [''P''], np_Props = [(''n'', PVal (VStr ''y''))]\<rparr>], pt_Rels = []\<rparr>] \<and> (case w_Return w of None \<Rightarrow> True | Some _ \<Rightarrow> False) | _ \<Rightarrow> False"
    by code_simp
  then obtain w where w: "parseCypher (qc_floats demoConf) ?q = Inr (CWrite w)" "w_Return w = None" "w_Creates w = [\<lparr>pt_Nodes =
       [\<lparr>np_Variable = [], np_Labels = [''P''], np_Props = [(''n'', PVal (VStr ''y''))]\<rparr>], pt_Rels = []\<rparr>]"
    by (auto split: sum.splits parsedCypher.splits option.splits)
  obtain db' where add: "AddNodeWithLabels kvs_bolt str_codec (str_wcodec 1) [''P''] [(''n'', VStr ''y'')] uniqueDB = (Inr 3, db')" and "nodeCtr db' = 3"
    using unique_add by blast
  have open_db: "\<not> db_closed uniqueDB" by (simp add: uniqueDB_def demoDB_def)
  let ?np = "\<lparr>np_Variable = [], np_Labels = [''P''], np_Props = [(''n'', PVal (VStr ''y''))]\<rparr>"
  have sp: "storedProps (np_Props ?np) = [(''n'', VStr ''y'')]" by (simp add: pval_val_def)
  let ?st = "\<lparr>cs_NodesCreated = 0, cs_EdgesCreated = 0, cs_LabelsSet = 0, cs_PropsSet = 0\<rparr>"
  obtain st' where "createNodes kvs_bolt str_codec (str_wcodec 1) [?np] [] [] ?st [] uniqueDB = (Inr ([3], [], st', []), db')"
    unfolding createNodes.simps Let_def sp using add by (simp add: ctxErr_def boundNode_def)
  then have "executeCreatePattern kvs_bolt str_codec (str_wcodec 1) \<lparr>pt_Nodes = [?np], pt_Rels = []\<rparr> [] ?st [] uniqueDB = (Inr ([], st', []), db')"
    by (simp add: executeCreatePattern_def del: createNodes.simps)
  then have "createPatterns kvs_bolt str_codec (str_wcodec 1) (w_Creates w) [] ?st [] uniqueDB = (Inr ([], st'), db')"
    by (simp add: w(3) ctxErr_def)
  then obtain r where "executeCreate kvs_bolt str_codec (str_wcodec 1) [] w uniqueDB = (Inr r, db')"
    by (simp add: executeCreate_def open_db w(2))
  then obtain r' en' where c: "Cypher kvs_bolt str_codec (str_wcodec 1) demoConf [] ?q ?en = Some (Inr r', en')" "en_db en' = db'"
    using w by (simp add: Cypher_def open_db lookupQuery_def qc_get_def newQueryCache_def)
  have "represents kvs_bolt str_codec (en_db ?en)" using unique_inv by (auto intro: representsI)
  from cypher_effect [OF kvs_graph_store this c(1)] obtain cs where cs: "en_db en' = fold (runCall kvs_bolt str_codec (str_wcodec 1)) cs uniqueDB" by auto
  have ctr: "nodeCtr uniqueDB = 2" by (simp add: uniqueDB_def nodeCtr_def)
  show ?thesis using \<open>nodeCtr db' = 3\<close> c cs ctr by (intro exI [of _ r'] exI [of _ en'] exI [of _ cs]) auto
qed

text \<open>
  C24. SET and DELETE work through the columns of the result: a MATCH ... SET / DELETE query none of whose columns has the name of a
  variable it sets or deletes reports the result of the read as a success and changes nothing. For example
  MATCH (n) SET n.x = 1 RETURN n.x updates no node, because its column is called n.x.
\<close>

theorem set_needs_returned_variable:
  assumes "\<not> db_closed db"
    and "\<And>si. si \<in> set (q_Set q) \<Longrightarrow> si_Variable si \<notin> returnItemName ` set (q_Return q)"
    and "\<And>x. x \<in> set (q_Delete q) \<Longrightarrow> x \<notin> returnItemName ` set (q_Return q)"
  shows "executeCypherMutating B C W g ctx q db = Some (executeCypher B C g ctx (q\<lparr>q_Set := [], q_Delete := []\<rparr>) db) \<and>
    files (snd (executeCypher B C g ctx (q\<lparr>q_Set := [], q_Delete := []\<rparr>) db)) = files db"
proof -
  obtain r db1 where e: "executeCypher B C g ctx (q\<lparr>q_Set := [], q_Delete := []\<rparr>) db = (r, db1)" by fastforce
  have f: "files db1 = files db" using reads_files [OF reads_executeCypher [OF e assms(1)]] .
  show ?thesis
  proof (cases r)
    case (Inr res)
    have "columns_of (q\<lparr>q_Set := [], q_Delete := []\<rparr>) (cr_Rows res)" using executeCypher_columns e Inr by blast
    then have c: "\<forall>row \<in> set (cr_Rows res). fst ` set row = returnItemName ` set (q_Return q)" by (simp add: columns_of_def)
    have s: "list_all (\<lambda>row. list_all (\<lambda>si. map_of row (si_Variable si) = None) (q_Set q)) (cr_Rows res)"
      using c assms(2) by (fastforce simp: list_all_iff map_of_eq_None_iff)
    have d: "list_all (\<lambda>row. list_all (\<lambda>x. map_of row x = None) (q_Delete q)) (cr_Rows res)"
      using c assms(3) by (fastforce simp: list_all_iff map_of_eq_None_iff)
    show ?thesis using s by (simp add: executeCypherMutating_def e f Inr ownObjects_def setRows_skips [OF s] deleteRows_skips [OF d])
  qed (simp add: executeCypherMutating_def e f)
qed


theorem set_needs_returned_variable_witness:
  "case parseCypher (qc_floats demoConf) ''MATCH (n) SET n.n = 'z' RETURN n.n'' of
     Inr (CRead q) \<Rightarrow> q_Set q \<noteq> [] \<and> executeCypherMutating kvs_bolt str_codec (str_wcodec 1) demoConf [] q demoDB =
       Some (executeCypher kvs_bolt str_codec demoConf [] (q\<lparr>q_Set := [], q_Delete := []\<rparr>) demoDB)
   | _ \<Rightarrow> False"
proof -
  let ?q = "''MATCH (n) SET n.n = 'z' RETURN n.n''"
  have "case parseCypher (qc_floats demoConf) ?q of
      Inr (CRead q) \<Rightarrow> q_Set q \<noteq> [] \<and> q_Delete q = [] \<and> list_all (\<lambda>si. si_Variable si \<notin> set (map returnItemName (q_Return q))) (q_Set q)
    | _ \<Rightarrow> False" by code_simp
  then obtain q where q: "parseCypher (qc_floats demoConf) ?q = Inr (CRead q)" "q_Set q \<noteq> []" "q_Delete q = []"
      "\<forall>si \<in> set (q_Set q). si_Variable si \<notin> returnItemName ` set (q_Return q)"
    by (auto simp: list_all_iff split: sum.splits parsedCypher.splits)
  have "\<not> db_closed demoDB" by (simp add: demoDB_def)
  from set_needs_returned_variable [OF this, of q kvs_bolt str_codec "str_wcodec 1" demoConf "[]"] show ?thesis using q by simp
qed

end
