(* ===== verification/Pagination.thy ===== *)
theory Pagination
  imports QueryProps
begin

text \<open>
  Pages of nodes and edges with a cursor (pagination.go). A page is filled shard by shard, with one entry more than the limit to
  learn whether there are more; the identifier of its last entry is the cursor of the next page.
\<close>

record 'a page =
  pg_Items :: "'a list"
  pg_NextCursor :: u64
  pg_HasMore :: bool

type_synonym NodePage = "Node page"
type_synonym EdgePage = "Edge page"

definition pageLimit :: "int \<Rightarrow> nat" where
  "pageLimit limit = (if limit \<le> 0 then 50 else nat limit)"

text \<open>\<open>c.First()\<close>, or \<open>c.Seek\<close> to the key after the cursor.\<close>

definition seekAfter :: "'b bolt \<Rightarrow> 'b \<Rightarrow> u64 \<Rightarrow> (bytes \<times> bytes) list" where
  "seekAfter B b afterID = (if afterID = 0 then b_cursor B b
     else dropWhile (\<lambda>kv. fst kv < encodeUint64 (afterID + 1)) (b_cursor B b))"

text \<open>The loops over the entries of a shard and over the shards; an entry that cannot be decoded is skipped.\<close>

fun pageScan :: "(bytes \<times> bytes \<Rightarrow> gerr + 'a option) \<Rightarrow> nat \<Rightarrow> (bytes \<times> bytes) list \<Rightarrow> 'a list \<Rightarrow> gerr + 'a list" where
  "pageScan rd room [] acc = Inr acc"
| "pageScan rd room (kv # kvs) acc =
     (if room \<le> length acc then Inr acc
      else ebind (rd kv) (\<lambda>x. pageScan rd room kvs (case x of None \<Rightarrow> acc | Some a \<Rightarrow> acc @ [a])))"

fun pageShards :: "('b shard \<Rightarrow> 'a list \<Rightarrow> gerr + 'a list) \<Rightarrow> nat \<Rightarrow> 'b shard list \<Rightarrow> 'a list \<Rightarrow> gerr + 'a list" where
  "pageShards fill room [] acc = Inr acc"
| "pageShards fill room (s # ss) acc = (if room \<le> length acc then Inr acc else ebind (fill s acc) (pageShards fill room ss))"

definition finishPage :: "nat \<Rightarrow> ('a \<Rightarrow> u64) \<Rightarrow> 'a list \<Rightarrow> 'a page" where
  "finishPage limit idOf xs =
     (let items = (if limit < length xs then take limit xs else xs)
      in \<lparr>pg_Items = items, pg_NextCursor = (if items \<noteq> [] then idOf (last items) else 0), pg_HasMore = (limit < length xs)\<rparr>)"

definition nodeEntry :: "'b bolt \<Rightarrow> codec \<Rightarrow> 'b buckets \<Rightarrow> bytes \<times> bytes \<Rightarrow> gerr + Node option" where
  "nodeEntry B C d kv = ebind (keyID (fst kv)) (\<lambda>i. Inr (case decodeProps C (snd kv) of
       Inl _ \<Rightarrow> None
     | Inr props \<Rightarrow> Some \<lparr>n_id = i, n_labels = loadLabels B C d i, n_props = props\<rparr>))"

definition edgeEntry :: "codec \<Rightarrow> bytes \<times> bytes \<Rightarrow> gerr + Edge option" where
  "edgeEntry C kv = ebind (keyID (fst kv)) (\<lambda>i. Inr (case decodeEdge C (snd kv) of
       Inl _ \<Rightarrow> None
     | Inr e \<Rightarrow> Some (e\<lparr>e_id := i\<rparr>)))"

definition ListNodes :: "'b bolt \<Rightarrow> codec \<Rightarrow> NodeID \<Rightarrow> int \<Rightarrow> 'b DB \<Rightarrow> gerr + NodePage" where
  "ListNodes B C afterID limit db =
     (if db_closed db then Inl ErrClosed
      else let n = pageLimit limit
           in ebind (pageShards (\<lambda>s. pageScan (nodeEntry B C (s_data s)) (n + 1) (seekAfter B (bk_nodes (s_data s)) afterID)) (n + 1) (db_shards db) [])
                (\<lambda>xs. Inr (finishPage n n_id xs)))"

definition ListEdges :: "'b bolt \<Rightarrow> codec \<Rightarrow> EdgeID \<Rightarrow> int \<Rightarrow> 'b DB \<Rightarrow> gerr + EdgePage" where
  "ListEdges B C afterID limit db =
     (if db_closed db then Inl ErrClosed
      else let n = pageLimit limit
           in ebind (pageShards (\<lambda>s. pageScan (edgeEntry C) (n + 1) (seekAfter B (bk_edges (s_data s)) afterID)) (n + 1) (db_shards db) [])
                (\<lambda>xs. Inr (finishPage n e_id xs)))"

text \<open>The scan of the label index starts at the label and skips the nodes up to the cursor.\<close>

fun labelScan :: "'b bolt \<Rightarrow> codec \<Rightarrow> 'b buckets \<Rightarrow> nat \<Rightarrow> NodeID \<Rightarrow> nat \<Rightarrow> bytes list \<Rightarrow> Node list \<Rightarrow> Node list" where
  "labelScan B C d n afterID room [] acc = acc"
| "labelScan B C d n afterID room (k # ks) acc = (case decodeNodeID (drop n k) of
       None \<Rightarrow> labelScan B C d n afterID room ks acc
     | Some i \<Rightarrow>
         if 0 < afterID \<and> i \<le> afterID then labelScan B C d n afterID room ks acc
         else if room \<le> length acc then acc
         else (case nodeAt B C d i of
                 None \<Rightarrow> labelScan B C d n afterID room ks acc
               | Some props \<Rightarrow> labelScan B C d n afterID room ks (acc @ [\<lparr>n_id = i, n_labels = loadLabels B C d i, n_props = props\<rparr>])))"

definition ListNodesByLabel :: "'b bolt \<Rightarrow> codec \<Rightarrow> string \<Rightarrow> NodeID \<Rightarrow> int \<Rightarrow> 'b DB \<Rightarrow> gerr + NodePage" where
  "ListNodesByLabel B C label afterID limit db =
     (if db_closed db then Inl ErrClosed
      else let n = pageLimit limit; pfx = encodeIndexPrefix label
           in ebind (pageShards (\<lambda>s acc. Inr (labelScan B C (s_data s) (length pfx) afterID (n + 1) (map fst (seekPrefix B (bk_idx_node_label (s_data s)) pfx)) acc))
                       (n + 1) (db_shards db) [])
                (\<lambda>xs. Inr (finishPage n n_id xs)))"

section \<open>Following the cursors\<close>

text \<open>A client that asks for the next page as long as there are more: the items it has seen, if it stops within the given number of pages.\<close>

fun followPages :: "(u64 \<Rightarrow> gerr + 'a page) \<Rightarrow> nat \<Rightarrow> u64 \<Rightarrow> (gerr + 'a list) option" where
  "followPages get 0 afterID = None"
| "followPages get (Suc n) afterID = (case get afterID of
       Inl e \<Rightarrow> Some (Inl e)
     | Inr pg \<Rightarrow> if pg_HasMore pg then map_option (map_sum id (\<lambda>xs. pg_Items pg @ xs)) (followPages get n (pg_NextCursor pg))
         else Some (Inr (pg_Items pg)))"

lemma followPages_more:
  assumes "get a = Inr pg" and "pg_HasMore pg" and "followPages get (Suc n) a = Some (Inr ns)"
  obtains ms where "followPages get n (pg_NextCursor pg) = Some (Inr ms)" and "ns = pg_Items pg @ ms"
proof -
  obtain z where z: "followPages get n (pg_NextCursor pg) = Some z" using assms by auto
  then obtain ms where "z = Inr ms" using assms by (cases z) auto
  then show ?thesis using that z assms by auto
qed

lemma pageScan_all:
  "list_all2 (\<lambda>kv a. rd kv = Inr (Some a)) kvs as \<Longrightarrow> length acc \<le> room \<Longrightarrow> pageScan rd room kvs acc = Inr (take room (acc @ as))"
proof (induction kvs as arbitrary: acc rule: list_all2_induct)
  case (Cons kv kvs a as)
  show ?case
  proof (cases "room \<le> length acc")
    case False
    then show ?thesis using Cons by (simp add: take_Cons')
  qed (use Cons in simp)
qed simp

text \<open>The entries of a node bucket in the order of their keys.\<close>

definition entries_of :: "(bytes \<times> bytes) list \<Rightarrow> Node list \<Rightarrow> bool" where
  "entries_of kvs ns \<longleftrightarrow> list_all2 (\<lambda>kv n. fst kv = encodeNodeID (n_id n)) kvs ns"

lemma dropWhile_entries:
  assumes "list_all2 (\<lambda>kv n. P kv n \<and> fst kv = encodeNodeID (n_id n)) kvs ns"
  shows "list_all2 P (dropWhile (\<lambda>kv. fst kv < encodeUint64 a) kvs) (dropWhile (\<lambda>n. n_id n < a) ns)"
  using assms
proof (induction kvs ns rule: list_all2_induct)
  case (Cons kv kvs n ns)
  moreover have "list_all2 P kvs ns" by (rule list_all2_mono [OF Cons(2)]) simp
  ultimately show ?case by (auto simp: enc_simps)
qed simp

lemma dropWhile_later:
  assumes s: "sorted_wrt (<) (map n_id (pre @ rest))" and pre: "pre \<noteq> []" "rest \<noteq> []"
  shows "dropWhile (\<lambda>n. n_id n < n_id (last pre) + 1) (pre @ rest) = rest"
proof -
  let ?a = "n_id (last pre)"
  have nx: "?a < n_id (hd rest)" using s pre by (cases rest) (auto simp: sorted_wrt_append)
  then have "?a < n_id (hd rest)" .
  moreover have "n_id (hd rest) \<le> - 1" by simp
  ultimately have "?a \<noteq> - 1" by (metis leD)
  then have a: "?a < ?a + 1" by (rule u64_less_succ)
  have "n_id n < ?a + 1" if "n \<in> set pre" for n
  proof -
    have "n_id n \<le> ?a" using s that pre(1) by (induction pre rule: rev_induct) (auto simp: sorted_wrt_append)
    then show ?thesis using a by (rule le_less_trans)
  qed
  moreover have "\<not> n_id (hd rest) < ?a + 1" using inc_le [OF nx] by simp
  ultimately show ?thesis using pre(2) by (cases rest) (auto simp: dropWhile_append3)
qed

context graph_store
begin

lemma shard_entries:
  assumes inv: "graph_inv B C db N G" and one: "db_shards db = [s]"
  shows "\<exists>ns. list_all2 (\<lambda>kv n. nodeEntry B C (s_data s) kv = Inr (Some n) \<and> fst kv = encodeNodeID (n_id n)) (b_cursor B (bk_nodes (s_data s))) ns \<and>
    sorted_wrt (<) (map n_id ns) \<and> (\<forall>i. i \<in> n_id ` set ns \<longleftrightarrow> N i \<noteq> None) \<and> (\<forall>n \<in> set ns. node_of C N (n_id n) n)"
proof -
  let ?kvs = "b_cursor B (bk_nodes (s_data s))"
  have rep: "nodes_rep B C [s_data s] N" using inv one by (simp add: graph_inv_def files_def)
  obtain ns where ns: "\<And>fn st. forEachNode B C fn db (st :: Node list) = efold fn ns st" "\<forall>i. i \<in> n_id ` set ns \<longleftrightarrow> N i \<noteq> None"
      "\<forall>n \<in> set ns. node_of C N (n_id n) n" using forEachNode_nodes [OF inv] by blast
  have "efold (\<lambda>n acc. Inr (acc @ [n]) :: gerr + Node list) xs acc = Inr (acc @ xs)" for xs acc by (induction xs arbitrary: acc) auto
  then have "forEachNode B C (\<lambda>n acc. Inr (acc @ [n])) db [] = Inr ns" using ns(1) by simp
  then have "list_all2 (\<lambda>x n. readPair C B x = Inr n) (map (Pair s) ?kvs) ns" using scanNodes_list(2) one by (fastforce simp: nodePairs_def)
  then have l: "list_all2 (\<lambda>kv n. readPair C B (s, kv) = Inr n) ?kvs ns" by (simp add: list_all2_map1)
  have entry: "nodeEntry B C (s_data s) kv = Inr (Some n) \<and> fst kv = encodeNodeID (n_id n)"
    if kv: "kv \<in> set ?kvs" and r: "readPair C B (s, kv) = Inr n" for kv n
  proof -
    obtain i where "fst kv = encodeNodeID i" using node_cursor [OF rep, of 0 kv] kv by auto
    then show ?thesis using r by (auto simp: readPair_def nodeEntry_def keyID_def encodeNodeID_def split: sum.splits)
  qed
  have l2: "list_all2 (\<lambda>kv n. nodeEntry B C (s_data s) kv = Inr (Some n) \<and> fst kv = encodeNodeID (n_id n)) ?kvs ns"
    using l entry by (auto simp: list_all2_conv_all_nth)
  then have "map fst ?kvs = map (\<lambda>n. encodeNodeID (n_id n)) ns" by (induction rule: list_all2_induct) auto
  then have "sorted_wrt (\<lambda>m n. encodeNodeID (n_id m) < encodeNodeID (n_id n)) ns"
    using cursor_sorted [of "bk_nodes (s_data s)"] by (simp add: sorted_wrt_map)
  then have "sorted_wrt (<) (map n_id ns)" by (simp add: sorted_wrt_map enc_simps)
  then show ?thesis using l2 ns(2,3) by blast
qed

lemma one_page:
  assumes e: "list_all2 (\<lambda>kv n. nodeEntry B C (s_data s) kv = Inr (Some n) \<and> fst kv = encodeNodeID (n_id n)) (b_cursor B (bk_nodes (s_data s))) (pre @ rest)"
    and s: "sorted_wrt (<) (map n_id (pre @ rest))" and one: "db_shards db = [s]" "\<not> db_closed db"
    and a: "if pre = [] then a = 0 else a = n_id (last pre) \<and> a \<noteq> 0 \<and> rest \<noteq> []"
  shows "ListNodes B C a limit db = Inr (finishPage (pageLimit limit) n_id (take (pageLimit limit + 1) rest))"
proof -
  have "list_all2 (\<lambda>kv n. nodeEntry B C (s_data s) kv = Inr (Some n)) (seekAfter B (bk_nodes (s_data s)) a) rest"
  proof (cases "pre = []")
    case True
    then show ?thesis using e a by (auto simp: seekAfter_def elim: list_all2_mono)
  next
    case False
    then have "a = n_id (last pre)" "a \<noteq> 0" "rest \<noteq> []" using a by auto
    then show ?thesis using dropWhile_entries [OF e, of "a + 1"] dropWhile_later [OF s False] by (simp add: seekAfter_def)
  qed
  from pageScan_all [OF this, of "[]"] show ?thesis using one by (simp add: ListNodes_def Let_def)
qed

lemma all_pages:
  assumes e: "list_all2 (\<lambda>kv n. nodeEntry B C (s_data s) kv = Inr (Some n) \<and> fst kv = encodeNodeID (n_id n)) (b_cursor B (bk_nodes (s_data s))) (pre @ rest)"
    and s: "sorted_wrt (<) (map n_id (pre @ rest))" and one: "db_shards db = [s]" "\<not> db_closed db" and z: "0 \<notin> n_id ` set (pre @ rest)"
    and a: "if pre = [] then a = 0 else a = n_id (last pre) \<and> rest \<noteq> []" and n: "length rest < n"
  shows "followPages (\<lambda>a. ListNodes B C a limit db) n a = Some (Inr rest)"
  using e s z a n
proof (induction n arbitrary: pre rest a)
  case (Suc n)
  let ?k = "pageLimit limit"
  have k: "0 < ?k" by (simp add: pageLimit_def)
  have "last pre \<in> set pre" if "pre \<noteq> []" using that by simp
  then have a': "if pre = [] then a = 0 else a = n_id (last pre) \<and> a \<noteq> 0 \<and> rest \<noteq> []" using Suc.prems(3,4) by (auto split: if_splits)
  note pg = one_page [OF Suc.prems(1,2) one a', of limit]
  show ?case
  proof (cases "?k < length rest")
    case False
    then show ?thesis using pg by (simp add: finishPage_def)
  next
    case True
    have t: "take ?k rest \<noteq> []" "drop ?k rest \<noteq> []" using True k by auto
    have "followPages (\<lambda>a. ListNodes B C a limit db) n (n_id (last (take ?k rest))) = Some (Inr (drop ?k rest))"
      by (rule Suc.IH [of "pre @ take ?k rest"]) (use Suc.prems t True k in auto)
    then show ?thesis using pg True t by (simp add: finishPage_def min_def Let_def)
  qed
qed simp

end

text \<open>
  On a database of one shard, a client that follows the cursors of ListNodes with any limit gets every node exactly once, in the order
  of the identifiers, and stops after at most as many pages as there are nodes, plus one.
\<close>

theorem list_nodes_pages_complete:
  assumes "graph_store B C" and "graph_inv B C db N G" and "length (db_shards db) = 1" and "\<not> db_closed db"
  shows "\<exists>ns. (\<forall>n. length ns < n \<longrightarrow> followPages (\<lambda>a. ListNodes B C a limit db) n 0 = Some (Inr ns)) \<and>
    sorted_wrt (<) (map n_id ns) \<and> n_id ` set ns = dom N \<and> (\<forall>n \<in> set ns. node_of C N (n_id n) n)"
proof -
  obtain s where s: "db_shards db = [s]" using assms(3) by (auto simp: length_Suc_conv)
  obtain ns where ns: "list_all2 (\<lambda>kv n. nodeEntry B C (s_data s) kv = Inr (Some n) \<and> fst kv = encodeNodeID (n_id n)) (b_cursor B (bk_nodes (s_data s))) ([] @ ns)"
      "sorted_wrt (<) (map n_id ([] @ ns))" "\<forall>i. i \<in> n_id ` set ns \<longleftrightarrow> N i \<noteq> None" "\<forall>n \<in> set ns. node_of C N (n_id n) n"
    using graph_store.shard_entries [OF assms(1,2) s] by auto
  have "N 0 = None" using assms(2) by (auto simp: graph_inv_def node_ids_bounded_def)
  then have "0 \<notin> n_id ` set ([] @ ns)" using ns(3) by auto
  from graph_store.all_pages [OF assms(1) ns(1,2) s assms(4) this] show ?thesis using ns by (intro exI [of _ ns]) auto
qed

theorem list_nodes_pages_complete_witness:
  "\<exists>ns. followPages (\<lambda>a. ListNodes kvs_bolt str_codec a 1 demoDB) (Suc (length ns)) 0 = Some (Inr ns) \<and> n_id ` set ns = {1, 2}"
proof -
  have "dom demoNodes = {1, 2}" by (auto simp: demoNodes_def split: if_splits)
  moreover have one: "length (db_shards demoDB) = 1" "\<not> db_closed demoDB" by (simp_all add: demoDB_def)
  obtain ns where "\<And>n. length ns < n \<Longrightarrow> followPages (\<lambda>a. ListNodes kvs_bolt str_codec a 1 demoDB) n 0 = Some (Inr ns)" "n_id ` set ns = dom demoNodes"
    using list_nodes_pages_complete [OF kvs_graph_store demo_inv(1) one, of 1] by blast
  ultimately show ?thesis by (metis lessI)
qed

section \<open>Several shards\<close>

text \<open>Node keys are identifiers, none of them zero or the largest.\<close>

definition node_keys :: "'b bolt \<Rightarrow> 'b DB \<Rightarrow> bool" where
  "node_keys B db \<longleftrightarrow> (\<forall>s \<in> set (db_shards db). \<forall>kv \<in> set (b_cursor B (bk_nodes (s_data s))). \<exists>i. fst kv = encodeNodeID i \<and> i \<noteq> 0 \<and> i \<noteq> - 1)"

lemma pageScan_set: "pageScan rd room kvs acc = Inr xs \<Longrightarrow> x \<in> set xs \<Longrightarrow> x \<in> set acc \<or> (\<exists>kv \<in> set kvs. rd kv = Inr (Some x))"
proof (induction kvs arbitrary: acc)
  case (Cons kv kvs)
  then show ?case
  proof (cases "room \<le> length acc")
    case False
    then obtain y where y: "rd kv = Inr y" "pageScan rd room kvs (case y of None \<Rightarrow> acc | Some a \<Rightarrow> acc @ [a]) = Inr xs"
      using Cons.prems(1) by (auto simp: ebind_eq_Inr)
    from Cons.IH [OF y(2) Cons.prems(2)] show ?thesis using y(1) by (auto split: option.splits)
  qed auto
qed simp

lemma pageShards_set:
  "pageShards fill room ss acc = Inr xs \<Longrightarrow> x \<in> set xs \<Longrightarrow> x \<in> set acc \<or> (\<exists>s \<in> set ss. \<exists>as bs. fill s as = Inr bs \<and> x \<in> set bs \<and> x \<notin> set as)"
proof (induction ss arbitrary: acc)
  case (Cons s ss)
  show ?case
  proof (cases "room \<le> length acc")
    case True
    then show ?thesis using Cons.prems by auto
  next
    case False
    then obtain bs where bs: "fill s acc = Inr bs" "pageShards fill room ss bs = Inr xs" using Cons.prems(1) by (auto simp: ebind_eq_Inr)
    from Cons.IH [OF bs(2) Cons.prems(2)] show ?thesis using bs(1) by auto
  qed
qed simp

lemma seek_bound:
  fixes p :: "'k::linorder list"
  shows "sorted_wrt (<) (map fst xs) \<Longrightarrow> kv \<in> set (dropWhile (\<lambda>kv. fst kv < p) xs) \<Longrightarrow> p \<le> fst kv"
  by (induction xs) (auto simp: not_less split: if_splits)

context bolt_laws
begin

lemma seekAfter_keys:
  assumes "kv \<in> set (seekAfter B b a)" and "fst kv = encodeNodeID i" and "a \<noteq> 0" "a \<noteq> - 1"
  shows "a < i"
proof -
  have "encodeUint64 (a + 1) \<le> fst kv" using seek_bound [OF cursor_sorted] assms(1,3) by (simp add: seekAfter_def)
  then have "a + 1 \<le> i" using assms(2) by (simp add: enc_simps flip: not_less)
  then show ?thesis using u64_less_succ [OF assms(4)] by (rule order.strict_trans2 [rotated])
qed

lemma ListNodes_items:
  assumes keys: "node_keys B db" and pg: "ListNodes B C a limit db = Inr pg" and x: "x \<in> set (pg_Items pg)"
  shows "n_id x \<noteq> 0 \<and> n_id x \<noteq> - 1 \<and> (a \<noteq> 0 \<and> a \<noteq> - 1 \<longrightarrow> a < n_id x)"
proof -
  obtain xs where xs: "pageShards (\<lambda>s. pageScan (nodeEntry B C (s_data s)) (pageLimit limit + 1) (seekAfter B (bk_nodes (s_data s)) a)) (pageLimit limit + 1) (db_shards db) [] = Inr xs"
      "pg = finishPage (pageLimit limit) n_id xs"
    using pg by (auto simp: ListNodes_def Let_def ebind_eq_Inr split: if_splits)
  have xin: "x \<in> set xs" using x xs(2) by (auto simp: finishPage_def Let_def split: if_splits dest: in_set_takeD)
  obtain s kv where s: "s \<in> set (db_shards db)" and kv: "kv \<in> set (seekAfter B (bk_nodes (s_data s)) a)" "nodeEntry B C (s_data s) kv = Inr (Some x)"
    using pageShards_set [OF xs(1) xin] pageScan_set by fastforce
  have "kv \<in> set (b_cursor B (bk_nodes (s_data s)))" using kv(1) by (auto simp: seekAfter_def dest: set_dropWhileD split: if_splits)
  then obtain i where i: "fst kv = encodeNodeID i" "i \<noteq> 0" "i \<noteq> - 1" using keys s unfolding node_keys_def by blast
  have "n_id x = i" using kv(2) i(1) by (auto simp: nodeEntry_def keyID_def encodeNodeID_def split: sum.splits)
  then show ?thesis using i seekAfter_keys [OF kv(1) i(1)] by auto
qed

lemma ListNodes_next:
  assumes "node_keys B db" and "ListNodes B C a limit db = Inr pg" and "pg_HasMore pg"
  shows "pg_NextCursor pg \<noteq> 0 \<and> pg_NextCursor pg \<noteq> - 1 \<and> (a \<noteq> 0 \<and> a \<noteq> - 1 \<longrightarrow> a < pg_NextCursor pg)"
proof -
  obtain xs where "pg = finishPage (pageLimit limit) n_id xs" using assms(2) by (auto simp: ListNodes_def Let_def ebind_eq_Inr split: if_splits)
  moreover have "0 < pageLimit limit" by (simp add: pageLimit_def)
  ultimately have "pg_Items pg \<noteq> [] \<and> pg_NextCursor pg = n_id (last (pg_Items pg))"
    using assms(3) by (auto simp: finishPage_def Let_def)
  then show ?thesis using ListNodes_items [OF assms(1,2)] by (metis last_in_set)
qed

lemma later_pages:
  assumes "node_keys B db"
  shows "a \<noteq> 0 \<Longrightarrow> a \<noteq> - 1 \<Longrightarrow> followPages (\<lambda>a. ListNodes B C a limit db) n a = Some (Inr ns) \<Longrightarrow> x \<in> set ns \<Longrightarrow> a < n_id x"
proof (induction n arbitrary: a ns)
  case (Suc n)
  obtain pg where pg: "ListNodes B C a limit db = Inr pg" using Suc.prems(3) by (cases "ListNodes B C a limit db") auto
  note items = ListNodes_items [OF assms pg]
  show ?case
  proof (cases "pg_HasMore pg")
    case True
    obtain ms where ms: "followPages (\<lambda>a. ListNodes B C a limit db) n (pg_NextCursor pg) = Some (Inr ms)" "ns = pg_Items pg @ ms"
      by (rule followPages_more [where get = "\<lambda>a. ListNodes B C a limit db" and a = a, OF pg True Suc.prems(3)])
    note nx = ListNodes_next [OF assms pg True]
    then show ?thesis using items Suc.IH [OF _ _ ms(1)] Suc.prems ms(2) by (auto intro: order.strict_trans)
  next
    case False
    then show ?thesis using items Suc.prems pg by auto
  qed
qed simp

end

text \<open>
  With several shards the pages skip nodes: when there are more pages after the first, a node with an identifier up to the cursor of the first
  page that is not on that page is on no later page either. A page takes the nodes shard by shard, while the cursor is one
  identifier for all shards.
\<close>

theorem pagination_loses_nodes:
  assumes "bolt_laws B" and "node_keys B db" and "ListNodes B C 0 limit db = Inr pg" and "pg_HasMore pg"
    and "i \<le> pg_NextCursor pg" and "i \<notin> n_id ` set (pg_Items pg)"
    and "followPages (\<lambda>a. ListNodes B C a limit db) n 0 = Some (Inr ns)"
  shows "i \<notin> n_id ` set ns"
proof (cases n)
  case (Suc m)
  then obtain ms where ms: "followPages (\<lambda>a. ListNodes B C a limit db) m (pg_NextCursor pg) = Some (Inr ms)" "ns = pg_Items pg @ ms"
    using followPages_more [where get = "\<lambda>a. ListNodes B C a limit db" and a = 0 and n = m, OF assms(3,4)] assms(7) by blast
  have "pg_NextCursor pg < n_id x" if "x \<in> set ms" for x
    using bolt_laws.later_pages [OF assms(1,2) _ _ ms(1) that] bolt_laws.ListNodes_next [OF assms(1-4)] by blast
  then show ?thesis using assms(5,6) ms(2) by (auto dest: leD)
qed (use assms(7) in simp)

text \<open>Two shards with the nodes 2, 4 and 1, 3.\<close>

definition emptyNodes :: "NodeID list \<Rightarrow> kvs" where
  "emptyNodes is = map (\<lambda>i. (encodeNodeID i, propsMagic # enc_strs [])) is"

definition pagedShard :: "NodeID list \<Rightarrow> kvs shard" where
  "pagedShard is = \<lparr>s_data = (allBuckets_new kvs_bolt)\<lparr>bk_nodes := emptyNodes is\<rparr>, nextNodeID = 4, nextEdgeID = 0, nodeCount = 2, edgeCount = 0\<rparr>"

definition pagedDB :: "kvs DB" where
  "pagedDB = demoDB\<lparr>db_shards := [pagedShard [2, 4], pagedShard [1, 3]]\<rparr>"

lemma kvs_get_map: "b_get kvs_bolt = map_of"
  by (simp add: kvs_bolt_def fun_eq_iff)

lemma emptyNodes_cursor: "sorted_wrt (<) is \<Longrightarrow> b_cursor kvs_bolt (emptyNodes is) = emptyNodes is"
  by (rule sorted_alist_eqI [OF kvs.cursor_sorted])
    (simp_all add: kvs.cursor_get emptyNodes_def sorted_wrt_map enc_simps kvs_get_map)

lemma paged_entry: "nodeEntry kvs_bolt str_codec (s_data (pagedShard js)) (encodeNodeID i, propsMagic # enc_strs []) = Inr (Some \<lparr>n_id = i, n_labels = [], n_props = []\<rparr>)"
  by (simp add: nodeEntry_def keyID_def encodeNodeID_def demo_props loadLabels_def pagedShard_def createBuckets_def newFile_def CreateBucketIfNotExists_def kvs_bolt_def)

abbreviation emptyNode :: "NodeID \<Rightarrow> Node" where
  "emptyNode i \<equiv> \<lparr>n_id = i, n_labels = [], n_props = []\<rparr>"

lemma paged_pages:
  "ListNodes kvs_bolt str_codec 0 1 pagedDB = Inr \<lparr>pg_Items = [emptyNode 2], pg_NextCursor = 2, pg_HasMore = True\<rparr>"
  "ListNodes kvs_bolt str_codec 2 1 pagedDB = Inr \<lparr>pg_Items = [emptyNode 4], pg_NextCursor = 4, pg_HasMore = True\<rparr>"
  "ListNodes kvs_bolt str_codec 4 1 pagedDB = Inr \<lparr>pg_Items = [], pg_NextCursor = 0, pg_HasMore = False\<rparr>"
proof -
  have c: "b_cursor kvs_bolt (emptyNodes [2, 4]) = emptyNodes [2, 4]" "b_cursor kvs_bolt (emptyNodes [1, 3]) = emptyNodes [1, 3]"
    by (rule emptyNodes_cursor, simp)+
  have b: "bk_nodes (s_data (pagedShard is)) = emptyNodes is" for "is" by (simp add: pagedShard_def)
  have less: "encodeNodeID i < encodeUint64 j \<longleftrightarrow> i < j" for i j by (simp add: enc_simps)
  let ?kv = "\<lambda>i. (encodeNodeID i, propsMagic # enc_strs [])"
  have after: "seekAfter kvs_bolt (bk_nodes (s_data (pagedShard [2, 4]))) 0 = [?kv 2, ?kv 4]"
    "seekAfter kvs_bolt (bk_nodes (s_data (pagedShard [1, 3]))) 0 = [?kv 1, ?kv 3]"
    "seekAfter kvs_bolt (bk_nodes (s_data (pagedShard [2, 4]))) 2 = [?kv 4]"
    "seekAfter kvs_bolt (bk_nodes (s_data (pagedShard [1, 3]))) 2 = [?kv 3]"
    "seekAfter kvs_bolt (bk_nodes (s_data (pagedShard [2, 4]))) 4 = []"
    "seekAfter kvs_bolt (bk_nodes (s_data (pagedShard [1, 3]))) 4 = []"
    unfolding seekAfter_def b c by (simp_all add: emptyNodes_def less)
  have db: "db_shards pagedDB = [pagedShard [2, 4], pagedShard [1, 3]]" "\<not> db_closed pagedDB" by (simp_all add: pagedDB_def demoDB_def)
  show "ListNodes kvs_bolt str_codec 0 1 pagedDB = Inr \<lparr>pg_Items = [emptyNode 2], pg_NextCursor = 2, pg_HasMore = True\<rparr>"
    "ListNodes kvs_bolt str_codec 2 1 pagedDB = Inr \<lparr>pg_Items = [emptyNode 4], pg_NextCursor = 4, pg_HasMore = True\<rparr>"
    "ListNodes kvs_bolt str_codec 4 1 pagedDB = Inr \<lparr>pg_Items = [], pg_NextCursor = 0, pg_HasMore = False\<rparr>"
    by (simp_all add: ListNodes_def db pageLimit_def after paged_entry finishPage_def Let_def del: ebind_eq_Inr)
qed

theorem pagination_loses_nodes_witness:
  "\<exists>ns. followPages (\<lambda>a. ListNodes kvs_bolt str_codec a 1 pagedDB) 3 0 = Some (Inr ns) \<and> 1 \<notin> n_id ` set ns \<and> NodeExists kvs_bolt 1 pagedDB = Inr True"
proof -
  have k: "fst kv \<in> fst ` set m" if "kv \<in> set (b_cursor kvs_bolt m)" for kv and m :: kvs
    using kvs.set_cursor [of "fst kv" "snd kv" m] that by (force simp: kvs_bolt_def dest: map_of_SomeD)
  have "\<exists>i. fst kv = encodeNodeID i \<and> i \<noteq> 0 \<and> i \<noteq> - 1" if s: "s \<in> set (db_shards pagedDB)" and kv: "kv \<in> set (b_cursor kvs_bolt (bk_nodes (s_data s)))" for s kv
  proof -
    have "fst kv \<in> encodeNodeID ` {1, 2, 3, 4}" using s k [OF kv] by (auto simp: pagedDB_def pagedShard_def emptyNodes_def)
    then show ?thesis by force
  qed
  then have keys: "node_keys kvs_bolt pagedDB" by (simp add: node_keys_def)
  have ns: "followPages (\<lambda>a. ListNodes kvs_bolt str_codec a 1 pagedDB) 3 0 = Some (Inr [emptyNode 2, emptyNode 4])"
    by (simp add: numeral_3_eq_3 paged_pages)
  have ex: "NodeExists kvs_bolt 1 pagedDB = Inr True"
    by (simp add: NodeExists_def viewing_def pagedDB_def shardFor_def pagedShard_def emptyNodes_def kvs_bolt_def)
  show ?thesis using pagination_loses_nodes [OF kvs.bolt_laws_axioms keys paged_pages(1) _ _ _ ns, of 1] ns ex by simp
qed

end
