(* ===== verification/Spec2Isabelle.thy ===== *)
theory Spec2Isabelle
  imports Topo Schema PipelineLive QuerySound Effects Pagination
begin

text \<open>
  A verification of goraphdb, an embedded property-graph database in Go with leader/follower replication and
  a Cypher front end.

  The program. A database (graphdb.go) is a directory of shard files (storage.go, shard.go). A node lives in the shard
  \<open>id mod shards\<close>; an edge record, its outgoing adjacency entry and its type entry live in the shard of its
  source, its incoming adjacency entry in the shard of its target, so an edge across two shards takes two transactions.
  The node operations (node.go, label.go) maintain a label index, secondary and composite indexes (index.go,
  composite_index.go) and unique constraints (constraint.go) in the same transaction; the edge operations (edge.go)
  maintain a Bloom filter (bloom.go). Reads of nodes go through an LRU cache (node_cache.go). Every successful write of a leader
  appends an entry to the write-ahead log (wal.go, wal_entry.go); a follower receives the entries through a pipeline of
  goroutines (replication/client.go) and replays them on its own files (applier.go). Traversals and paths
  (traversal.go, path.go), pages (pagination.go) and queries (cypher_*.go, query_plan.go) are built on these operations.

  How the theories follow the code. An operation of the code is a definition with the name of the Go function (a prefix is added where HOL or
  another function has the name: \<open>wal_Append\<close>, \<open>nc_Get\<close>, \<open>qc_put\<close>, \<open>tk_Less\<close>); the transaction it runs is a definition of its own
  with the suffix Tx. A fallible function returns \<open>gerr + 'a\<close>, one that changes the database returns
  the result and the new database, and a failing operation returns the database it leaves behind, partial effects included. A place where Go
  would panic returns an error of its own or None.

  \<^item> Prelude: bytes, the bind of the error type, orders and prefixes of byte strings. Go_Lib: encoding/binary, CRC32,
    FNV-1a and the printing of integers. Types: types.go, and the codec. Encoding: encoding.go and the key
    functions of label.go. Bolt: the interface to bbolt and cursor loops.
  \<^item> Storage: a shard with its thirteen buckets and four counters, opening and recovery. DB: the record of graphdb.go, guards,
    routing, \<open>writeUpdate\<close> (a write transaction, which the environment may make fail), \<open>walAppend\<close>. NodeCache, Bloom, WAL: the components of these files,
    each with the lemmas that make it correct: the cache refines a list in order of use, the filter has no false
    negatives, the log is a sequence of entries that appending extends.
  \<^item> Index, Constraint, NodeOps, EdgeOps: the operations of index.go, composite_index.go, constraint.go, node.go, label.go,
    edge.go; NodeOps also has Open and Close of the whole database.
  \<^item> EdgeRep, NodeRep: the abstraction relations. The edge buckets of all shards represent a finite map from identifiers to edges,
    the node buckets a map from identifiers to labels and properties, with the label index, the property index and the
    composite index as functions of it; NodeTx and Lookup: each transaction as a change of one node or edge, and each
    index read as a read of the represented map. GraphInv: the invariant \<open>graph_inv\<close> of an open database over a
    represented graph (files, indexes, counters, cache and Bloom filter; every edge joins nodes that
    exist), and the operations as steps on the graph; GraphOps: deletion, updates and reads. System: sequences of calls, starting from
    \<open>Open\<close>. Schema: creating and dropping indexes and constraints.
  \<^item> Search: breadth-first and depth-first search over a successor function. Traversal, Path, Topo: traversal.go and path.go, shown to
    agree with it. Pagination: pagination.go.
  \<^item> Applier, Replica, Replication: the applier; the graph a log describes; leader and follower together. Pipeline: the concurrent
    pipeline of \<open>streamOnce\<close> as an inductive step relation on receiver, channel, workers and watermark; PipelineLive: it ends and does
    not deadlock.
  \<^item> Lexer, Parser: cypher_lexer.go, cypher_ast.go, cypher_parser.go. Grammar, QueryText, QuerySound: printing, the round
    trip, well-formedness of every parsed tree.
  \<^item> Values, Heap, Project, QueryExec, QueryWrite, QueryMutate, QueryEngine, Plan: cypher_exec.go,
    cypher_optional.go, cypher_write.go, cypher_cache.go, query_plan.go. QueryProps, EngineProps, Effects: what queries return, and that their
    effects on the database are those of calls of the public operations.
\<close>

text \<open>
  Parameters, which stand for code that is not part of the repository.

  \<^item> \<open>B\<close>: a bucket of bbolt, under \<open>bolt_laws\<close> (a sorted map of bytes, put fails on an empty or too long key or value).
    \<open>kvs_bolt\<close>, an association list, meets them.
  \<^item> \<open>C\<close>: MessagePack, JSON and the printing of floats, under \<open>codec_laws\<close>: a record that was written is read back with the same
    keys and with values that print the same, because an integer may come back with another type. Statements about properties are therefore
    up to \<open>text_eq\<close>. \<open>str_codec\<close> meets them.
  \<^item> \<open>W\<close>: the encoding of log entries and the clock, under \<open>wal_codec_laws\<close>; \<open>str_wcodec\<close> meets them. The segment size is a field of
    it, so that small logs can rotate.
  \<^item> \<open>strconv.ParseFloat\<close> and \<open>strings.EqualFold\<close> (fields of \<open>qconf\<close>).
  \<^item> Environment: the list \<open>db_faults\<close> says which of the next write transactions fail, \<open>[]\<close> none; a context is the list
    of the answers its polls give.

  Locales: \<open>bolt_laws\<close>, \<open>codec_laws\<close> and \<open>wal_codec_laws\<close> for these interfaces; \<open>graph_store\<close> and
  \<open>replication\<close> combine them for the components above; \<open>cache_spec\<close> is what the database relies on of the node cache, interpreted on the
  pointer-linked implementation; \<open>weak_order\<close> is what the heap needs of a comparison, interpreted on the order of query results.

  Bounds and termination. Identifiers, sequence numbers and counters are 64-bit words; statements that allocate say that the counter is not
  exhausted. Byte budgets of the cache, sizes of log segments and page limits are unbounded, the theorem on
  the top-k heap is for \<open>40 k \<le> 2^48\<close> and the one on the Bloom filter for fewer than 2^60 items, so that their arithmetic does not wrap. No definition uses fuel except
  \<open>followPages\<close>, a client that asks for at most n pages, whose theorem gives the number that is enough. Searches and parsers are total functions:
  a search discovers one of finitely many identifiers in each round, a parser consumes tokens. The discovery of composite indexes
  jumps by computed keys and is a partial function, so that not ending would be the value None.

  Modelling decisions a reader should know.

  \<^item> A Go map is an association list and an iteration over it goes in list order. The order is visible in three places: which constrained property
    MERGE looks up first, which parameters are resolved before a missing one is reported, and the order of nodes in Kahn's algorithm, where
    the theorem is about every order.
  \<^item> A public call runs to its end before the next one; writers of a shard exclude each other in the code. In the pipeline, each
    \<open>ApplyOp\<close> of a worker is one step, although an edge across shards takes two transactions, and the applied sequence number is
    checked again when an entry is handed to a worker.
  \<^item> The calls of \<open>call_step\<close> and of the replication theorems are the eleven operations on single nodes and edges. \<open>leader_step\<close>
    adds the calls that create, drop and rebuild indexes and constraints. AddEdgeBatch is not among them: it does
    not look at the nodes of its edges, and the lemma \<open>batch_dangling_edge\<close> shows the dangling edge. AddNodeBatch is defined and
    not a step either.
  \<^item> The stable sort is insertion sort. Results that Go returns together with an error are dropped (AllPaths). SET under a pattern of more than one
    node shares node objects between rows and is outside the model (the result is None). Nil nodes under a SET variable do not occur, because the
    rows own their nodes, and are skipped.

  Not modelled: the weighted shortest path (float64); multi-operation transactions (tx.go); iterators, the query
  builder and concurrent queries (iterator.go, query.go); snapshots, compaction and the integrity check; the gRPC, raft and HTTP
  servers and clients under replication/, server/ and sdk/, which mostly call libraries; background loops (fsync, counter sync); logging,
  metrics, the slow-query log and the goroutine pool; the commands and the Kubernetes operator.
\<close>

end
